(* ===== verification/Prelude.thy ===== *)
theory Prelude
  imports Main "HOL-Library.Word" "HOL-Library.Signed_Division"
begin

unbundle bit_operations_syntax

section \<open>Prelude: machine types, results, checked arrays\<close>

text \<open>
  Shared vocabulary of the development. Machine integers keep their width
  (\<open>uint8_t\<close>, \<open>uint16_t\<close>, \<open>uint32_t\<close> of user/types.h are words; an \<open>int\<close> is
  a \<open>u32\<close> read with \<open>sint\<close> where its sign matters). A call of the kernel either
  returns or stops the machine, so every operation yields a \<open>'a res\<close>: \<open>Inr\<close> of
  its result, or \<open>Inl\<close> of the reason it does not return. A pointer argument that
  the code compares with \<open>null\<close> is an \<open>'a option\<close>, and \<open>nonnull\<close> is the guard
  that panics on \<open>None\<close>. Array accesses are checked: an access outside the
  object is a \<open>Fault\<close>, never an unspecified value.
\<close>

type_synonym u8 = "8 word"
type_synonym u16 = "16 word"
type_synonym u32 = "32 word"
type_synonym byte = "8 word"

subsection \<open>Why a call does not return\<close>

text \<open>
  \<open>Panic\<close> is a call of panic() (kern/panic.c), which prints and halts; \<open>Fault\<close>
  is an access outside the object the code means to access; \<open>Halt\<close> is a bare
  hlt(); \<open>Spin\<close> is a spinlock wait that nobody else will end.
\<close>

datatype stop = Panic string | Fault string | Halt | Spin

type_synonym 'a res = "stop + 'a"

abbreviation panic :: "string \<Rightarrow> 'a res" where
  "panic msg \<equiv> Inl (Panic msg)"

abbreviation fault :: "string \<Rightarrow> 'a res" where
  "fault msg \<equiv> Inl (Fault msg)"

definition bindr :: "'a res \<Rightarrow> ('a \<Rightarrow> 'b res) \<Rightarrow> 'b res" where
  "bindr m f = (case m of Inl e \<Rightarrow> Inl e | Inr x \<Rightarrow> f x)"

lemma bindr_simps [simp]:
  "bindr (Inl e) f = Inl e"
  "bindr (Inr x) f = f x"
  by (simp_all add: bindr_def)

lemma bindr_eq_Inr: "bindr m f = Inr y \<longleftrightarrow> (\<exists>x. m = Inr x \<and> f x = Inr y)"
  by (cases m) simp_all

lemma bindr_eq_Inl: "bindr m f = Inl e \<longleftrightarrow> m = Inl e \<or> (\<exists>x. m = Inr x \<and> f x = Inl e)"
  by (cases m) simp_all

lemma bindr_assoc: "bindr (bindr m f) g = bindr m (\<lambda>x. bindr (f x) g)"
  by (cases m) simp_all

lemma bindr_Inr_right [simp]: "bindr m Inr = m"
  by (cases m) simp_all

lemma bindr_cong [fundef_cong]:
  "m = m' \<Longrightarrow> (\<And>x. m' = Inr x \<Longrightarrow> f x = g x) \<Longrightarrow> bindr m f = bindr m' g"
  by (cases m') simp_all

lemma bindr_InrE [elim?]:
  assumes "bindr m f = Inr y"
  obtains x where "m = Inr x" and "f x = Inr y"
  using assms by (auto simp: bindr_eq_Inr)

subsection \<open>The null guard\<close>

definition nonnull :: "string \<Rightarrow> 'a option \<Rightarrow> ('a \<Rightarrow> 'b res) \<Rightarrow> 'b res" where
  "nonnull msg p f = (case p of None \<Rightarrow> panic msg | Some x \<Rightarrow> f x)"

lemma nonnull_simps [simp]:
  "nonnull msg None f = panic msg"
  "nonnull msg (Some x) f = f x"
  by (simp_all add: nonnull_def)

subsection \<open>Checked arrays\<close>

text \<open>An index is an \<open>int\<close>, so that a negative index is out of range as it is in C.\<close>

definition read_at :: "string \<Rightarrow> 'a list \<Rightarrow> int \<Rightarrow> 'a res" where
  "read_at what xs i =
     (if 0 \<le> i \<and> i < int (length xs) then Inr (xs ! nat i) else fault what)"

definition write_at :: "string \<Rightarrow> 'a list \<Rightarrow> int \<Rightarrow> 'a \<Rightarrow> 'a list res" where
  "write_at what xs i x =
     (if 0 \<le> i \<and> i < int (length xs) then Inr (xs[nat i := x]) else fault what)"

lemma read_at_nat [simp]: "i < length xs \<Longrightarrow> read_at what xs (int i) = Inr (xs ! i)"
  by (simp add: read_at_def)

lemma write_at_nat [simp]: "i < length xs \<Longrightarrow> write_at what xs (int i) x = Inr (xs[i := x])"
  by (simp add: write_at_def)

lemma read_at_uint [simp]: "unat x < length xs \<Longrightarrow> read_at what xs (uint x) = Inr (xs ! unat x)"
  by (metis read_at_nat uint_nat)

lemma write_at_uint [simp]: "unat x < length xs \<Longrightarrow> write_at what xs (uint x) y = Inr (xs[unat x := y])"
  by (metis write_at_nat uint_nat)

lemma read_at_out [simp]: "length xs \<le> i \<Longrightarrow> read_at what xs (int i) = fault what"
  by (simp add: read_at_def)

lemma write_at_out [simp]: "length xs \<le> i \<Longrightarrow> write_at what xs (int i) x = fault what"
  by (simp add: write_at_def)

lemma write_at_length: "write_at what xs i x = Inr ys \<Longrightarrow> length ys = length xs"
  by (auto simp: write_at_def split: if_splits)

subsection \<open>Words\<close>

lemma unat_lt_2p32 [simp]: "unat (x :: u32) < 4294967296"
  using unsigned_less [of x, where ?'a = nat] by simp

lemma unat_minus_1_32 [simp]: "unat (- 1 :: u32) = 4294967295"
  by (simp add: unsigned_minus_1_eq_mask mask_eq_exp_minus_1)

lemma unat_word_of_nat_32: "n < 4294967296 \<Longrightarrow> unat (word_of_nat n :: u32) = n"
  by (simp add: unat_of_nat)

lemma unat_add1_32: "unat x < 4294967295 \<Longrightarrow> unat (x + 1 :: u32) = unat x + 1"
  by (simp add: unat_word_ariths)

lemma unat_add_32: "unat x + unat y < 4294967296 \<Longrightarrow> unat (x + y :: u32) = unat x + unat y"
  by (simp add: unat_word_ariths)

lemma unat_sub_32: "unat y \<le> unat x \<Longrightarrow> unat (x - y :: u32) = unat x - unat y"
  by (simp add: unat_sub word_le_nat_alt)

lemma sint_nonneg_32:
  assumes "unat (x :: u32) < 2147483648"
  shows "sint x = int (unat x)"
proof -
  from assms have "int (unat x) < 2147483648" by linarith
  then have "uint x < 2147483648" by simp
  then have "signed_take_bit 31 (uint x) = uint x"
    by (intro signed_take_bit_int_eq_self) (auto intro: order_trans [of _ 0])
  then show ?thesis by (simp add: sint_uint)
qed

lemma int_sdiv_8: "int n sdiv 8 = int (n div 8)"
  by (cases "n = 0") (simp_all add: signed_divide_int_def zdiv_int)

lemma int_smod_8: "int n smod 8 = int (n mod 8)"
  by (cases "n = 0") (simp_all add: signed_modulo_int_def zmod_int)

lemma sint_sdiv_8: "unat (i :: u32) < 2147483648 \<Longrightarrow> sint i sdiv 8 = int (unat i div 8)"
  by (simp only: sint_nonneg_32 int_sdiv_8)

lemma sint_smod_8: "unat (i :: u32) < 2147483648 \<Longrightarrow> sint i smod 8 = int (unat i mod 8)"
  by (simp only: sint_nonneg_32 int_smod_8)

lemma bit_2n_byte: "k < 8 \<Longrightarrow> bit (2 ^ n :: byte) k \<longleftrightarrow> n = k"
  by (auto simp: bit_exp_iff)

subsection \<open>Lists\<close>

lemma list_update_drop_Suc:
  "i < length xs \<Longrightarrow> drop i (xs[i := x]) = x # drop (Suc i) xs"
  by (simp add: upd_conv_take_nth_drop drop_Cons')

end
