(* ===== verification/Clib.thy ===== *)
theory Clib
  imports Prelude
begin

section \<open>user/lib.c: strings and memory\<close>

text \<open>
  The string and memory routines of user/lib.c, which kernel and user programs share.
  A C string is a byte list that holds its terminator; running past the end of the
  list is a \<open>Fault\<close>. memset and memmove are the byte loops of the source.
  memmove is modelled twice: on one memory, where the source and the destination may
  overlap, and on two distinct objects, which is how almost every caller uses it.
\<close>

subsection \<open>Strings\<close>

fun strlen_loop :: "byte list \<Rightarrow> nat \<Rightarrow> nat res" where
  "strlen_loop [] len = fault ''strlen(): no terminator''"
| "strlen_loop (c # str) len = (if c \<noteq> 0 then strlen_loop str (Suc len) else Inr len)"

definition strlen :: "byte list \<Rightarrow> nat res" where
  "strlen str = strlen_loop str 0"

fun strcmp_loop :: "byte list \<Rightarrow> byte list \<Rightarrow> nat \<Rightarrow> nat \<Rightarrow> bool res" where
  "strcmp_loop a b i 0 = Inr True"
| "strcmp_loop a b i (Suc n) =
     bindr (read_at ''strcmp(): a'' a (int i)) (\<lambda>x.
     bindr (read_at ''strcmp(): b'' b (int i)) (\<lambda>y.
     if x \<noteq> y then Inr False else strcmp_loop a b (Suc i) n))"

definition strcmp :: "byte list \<Rightarrow> byte list \<Rightarrow> bool res" where
  "strcmp a b =
     bindr (strlen a) (\<lambda>alen.
     bindr (strlen b) (\<lambda>blen.
     if alen \<noteq> blen then Inr False else strcmp_loop a b 0 alen))"

text \<open>The characters of a C string, without the terminator.\<close>

definition cstr :: "byte list \<Rightarrow> byte list" where
  "cstr s = takeWhile (\<lambda>c. c \<noteq> 0) s"

lemma cstr_append [simp]: "0 \<notin> set xs \<Longrightarrow> cstr (xs @ 0 # ys) = xs"
  by (induction xs) (auto simp: cstr_def)

lemma zero_notin_cstr [simp]: "0 \<notin> set (cstr s)"
  by (auto simp: cstr_def dest: set_takeWhileD)

lemma cstr_split: "0 \<in> set s \<Longrightarrow> \<exists>ys. s = cstr s @ 0 # ys"
proof (induction s)
  case (Cons c s)
  then show ?case by (cases "c = 0") (auto simp: cstr_def)
qed simp

lemma cstr_nil [simp]: "cstr (0 # s) = []"
  by (simp add: cstr_def)

lemma cstr_cons [simp]: "c \<noteq> 0 \<Longrightarrow> cstr (c # s) = c # cstr s"
  by (simp add: cstr_def)

lemma length_cstr_less: "0 \<in> set s \<Longrightarrow> length (cstr s) < length s"
  using cstr_split [of s] by (metis add_Suc_right le_add1 le_imp_less_Suc length_Cons length_append)

lemma cstr_take: "0 \<in> set s \<Longrightarrow> take (length (cstr s)) s = cstr s"
  using cstr_split [of s] by (metis append_eq_conv_conj)

lemma cstr_nth: "i < length (cstr s) \<Longrightarrow> s ! i = cstr s ! i"
  by (simp add: cstr_def takeWhile_nth)

lemma strlen_loop_cstr: "0 \<in> set s \<Longrightarrow> strlen_loop s len = Inr (len + length (cstr s))"
  by (induction s arbitrary: len) auto

lemma strlen_cstr: "0 \<in> set s \<Longrightarrow> strlen s = Inr (length (cstr s))"
  by (simp add: strlen_def strlen_loop_cstr)

lemma strcmp_loop_eq:
  "i + n \<le> length a \<Longrightarrow> i + n \<le> length b \<Longrightarrow>
   strcmp_loop a b i n = Inr (take n (drop i a) = take n (drop i b))"
proof (induction n arbitrary: i)
  case (Suc n)
  then have "take (Suc n) (drop i a) = a ! i # take n (drop (Suc i) a)"
    and "take (Suc n) (drop i b) = b ! i # take n (drop (Suc i) b)"
    by (simp_all add: Cons_nth_drop_Suc [symmetric])
  with Suc show ?case by simp
qed simp

lemma strcmp_iff:
  assumes "0 \<in> set a" and "0 \<in> set b"
  shows "strcmp a b = Inr (cstr a = cstr b)"
proof (cases "length (cstr a) = length (cstr b)")
  case True
  then show ?thesis
    using assms strcmp_loop_eq [of 0 "length (cstr a)" a b]
      length_cstr_less [of a] length_cstr_less [of b] cstr_take [of a] cstr_take [of b]
    by (simp add: strcmp_def strlen_cstr)
next
  case False
  then show ?thesis using assms by (auto simp: strcmp_def strlen_cstr)
qed

subsection \<open>memset and bzero\<close>

fun memset_loop :: "byte list \<Rightarrow> nat \<Rightarrow> byte \<Rightarrow> nat \<Rightarrow> byte list res" where
  "memset_loop buff ptr fill 0 = Inr buff"
| "memset_loop buff ptr fill (Suc n) =
     bindr (write_at ''memset()'' buff (int ptr) fill) (\<lambda>buff.
     memset_loop buff (Suc ptr) fill n)"

text \<open>
  The pointer is an offset into an object, \<open>None\<close> being \<open>null\<close>: the routine returns at
  once on \<open>null\<close> or a zero length.
\<close>

definition memset :: "byte list \<Rightarrow> nat option \<Rightarrow> byte \<Rightarrow> nat \<Rightarrow> byte list res" where
  "memset buff p fill bufflen =
     (case p of None \<Rightarrow> Inr buff
      | Some ptr \<Rightarrow> if bufflen = 0 then Inr buff else memset_loop buff ptr fill bufflen)"

definition bzero :: "byte list \<Rightarrow> nat option \<Rightarrow> nat \<Rightarrow> byte list res" where
  "bzero buff p bufflen = memset buff p 0 bufflen"

lemma memset_loop_eq:
  "ptr + n \<le> length buff \<Longrightarrow>
   memset_loop buff ptr fill n = Inr (take ptr buff @ replicate n fill @ drop (ptr + n) buff)"
proof (induction n arbitrary: buff ptr)
  case (Suc n)
  let ?b = "buff[ptr := fill]"
  have "memset_loop buff ptr fill (Suc n) = memset_loop ?b (Suc ptr) fill n"
    using Suc.prems by simp
  also have "\<dots> = Inr (take (Suc ptr) ?b @ replicate n fill @ drop (Suc ptr + n) ?b)"
    using Suc.prems by (intro Suc.IH) simp
  also have "take (Suc ptr) ?b = take ptr buff @ [fill]"
    using Suc.prems by (simp add: take_Suc_conv_app_nth)
  finally show ?case by simp
qed simp

lemma memset_eq:
  "ptr + n \<le> length buff \<Longrightarrow>
   memset buff (Some ptr) fill n = Inr (take ptr buff @ replicate n fill @ drop (ptr + n) buff)"
  by (auto simp: memset_def memset_loop_eq)

lemma bzero_whole [simp]: "bzero buff (Some 0) (length buff) = Inr (replicate (length buff) 0)"
  by (simp add: bzero_def memset_eq)

lemma bzero_prefix:
  "n \<le> length buff \<Longrightarrow> bzero buff (Some 0) n = Inr (replicate n 0 @ drop n buff)"
  by (simp add: bzero_def memset_eq)

subsection \<open>memmove on one memory\<close>

fun memmove_loop :: "byte list \<Rightarrow> nat \<Rightarrow> nat \<Rightarrow> nat \<Rightarrow> byte list res" where
  "memmove_loop m pdst psrc 0 = Inr m"
| "memmove_loop m pdst psrc (Suc n) =
     bindr (read_at ''memmove(): src'' m (int psrc)) (\<lambda>c.
     bindr (write_at ''memmove(): dst'' m (int pdst) c) (\<lambda>m.
     memmove_loop m (Suc pdst) (Suc psrc) n))"

definition memmove :: "byte list \<Rightarrow> nat option \<Rightarrow> nat option \<Rightarrow> nat \<Rightarrow> (int \<times> byte list) res" where
  "memmove m dst src n =
     (case dst of None \<Rightarrow> Inr (-1, m)
      | Some d \<Rightarrow>
        (case src of None \<Rightarrow> Inr (0, m)
         | Some s \<Rightarrow>
           if s = d then Inr (0, m)
           else bindr (memmove_loop m d s n) (\<lambda>m. Inr (0, m))))"

text \<open>The loop, one byte more at its end instead of at its start.\<close>

lemma memmove_loop_snoc:
  "memmove_loop m d s (Suc n) =
     bindr (memmove_loop m d s n) (\<lambda>m.
     bindr (read_at ''memmove(): src'' m (int (s + n))) (\<lambda>c.
     write_at ''memmove(): dst'' m (int (d + n)) c))"
proof (induction n arbitrary: m d s)
  case 0
  then show ?case by simp
next
  case (Suc n)
  show ?case
    by (subst memmove_loop.simps(2), subst Suc.IH) (simp add: bindr_assoc)
qed

text \<open>
  What the forward byte loop leaves behind: where the destination starts inside the
  source, the bytes between the two starts are repeated.
\<close>

definition moved :: "byte list \<Rightarrow> nat \<Rightarrow> nat \<Rightarrow> nat \<Rightarrow> byte" where
  "moved m d s i = (if s < d then m ! (s + i mod (d - s)) else m ! (s + i))"

lemma memmove_loop_spec:
  assumes "s + n \<le> length m" and "d + n \<le> length m" and "s \<noteq> d"
  shows "\<exists>m'. memmove_loop m d s n = Inr m' \<and> length m' = length m
    \<and> (\<forall>j < length m. m' ! j = (if d \<le> j \<and> j < d + n then moved m d s (j - d) else m ! j))"
  using assms
proof (induction n)
  case 0
  then show ?case by auto
next
  case (Suc n)
  then obtain m' where m': "memmove_loop m d s n = Inr m'" and len: "length m' = length m"
    and val: "\<And>j. j < length m \<Longrightarrow>
      m' ! j = (if d \<le> j \<and> j < d + n then moved m d s (j - d) else m ! j)"
    by auto
  have "s + n < length m" and dn: "d + n < length m" using Suc.prems by auto
  with len have step: "memmove_loop m d s (Suc n) = Inr (m'[d + n := m' ! (s + n)])"
    by (simp only: memmove_loop_snoc m' bindr_simps read_at_nat write_at_nat)
  have src: "m' ! (s + n) = moved m d s n"
  proof (cases "s < d")
    case True
    show ?thesis
    proof (cases "d \<le> s + n")
      case True
      with \<open>s < d\<close> have "n = (d - s) + (s + n - d)" by simp
      then have "n mod (d - s) = (s + n - d) mod (d - s)" by (metis mod_add_self1)
      with True \<open>s < d\<close> \<open>s + n < length m\<close> show ?thesis by (simp add: val moved_def)
    next
      case False
      with \<open>s < d\<close> \<open>s + n < length m\<close> show ?thesis by (simp add: val moved_def)
    qed
  next
    case False
    with Suc.prems \<open>s + n < length m\<close> show ?thesis by (simp add: val moved_def)
  qed
  show ?case
    unfolding step using len dn src by (auto simp: nth_list_update val)
qed

subsection \<open>memmove between two objects\<close>

fun memcpy_loop :: "byte list \<Rightarrow> nat \<Rightarrow> byte list \<Rightarrow> nat \<Rightarrow> nat \<Rightarrow> byte list res" where
  "memcpy_loop dst pdst src psrc 0 = Inr dst"
| "memcpy_loop dst pdst src psrc (Suc n) =
     bindr (read_at ''memmove(): src'' src (int psrc)) (\<lambda>c.
     bindr (write_at ''memmove(): dst'' dst (int pdst) c) (\<lambda>dst.
     memcpy_loop dst (Suc pdst) src (Suc psrc) n))"

lemma memcpy_loop_eq:
  "d + n \<le> length dst \<Longrightarrow> s + n \<le> length src \<Longrightarrow>
   memcpy_loop dst d src s n = Inr (take d dst @ take n (drop s src) @ drop (d + n) dst)"
proof (induction n arbitrary: dst d s)
  case (Suc n)
  let ?dst = "dst[d := src ! s]"
  have "memcpy_loop dst d src s (Suc n) = memcpy_loop ?dst (Suc d) src (Suc s) n"
    using Suc.prems by simp
  also have "\<dots> = Inr (take (Suc d) ?dst @ take n (drop (Suc s) src) @ drop (Suc d + n) ?dst)"
    using Suc.prems by (intro Suc.IH) simp_all
  also have "take (Suc d) ?dst = take d dst @ [src ! s]"
    using Suc.prems by (simp add: take_Suc_conv_app_nth)
  finally show ?case using Suc.prems by (simp add: Cons_nth_drop_Suc [symmetric])
qed simp

lemma memcpy_loop_whole:
  "n = length src \<Longrightarrow> n = length dst \<Longrightarrow> memcpy_loop dst 0 src 0 n = Inr src"
  by (simp add: memcpy_loop_eq)

subsection \<open>Properties\<close>

text \<open>Memmove, on one memory, leaves every byte outside the destination as it was, and
  writes into byte \<open>j\<close> of the destination the source byte at the same offset when the source
  does not start below the destination or the two do not overlap; when the destination starts
  inside the source, the forward loop repeats the first \<open>d - s\<close> source bytes instead.\<close>
theorem memmove_effect:
  assumes "s + n \<le> length m" and "d + n \<le> length m"
  shows "\<exists>m'. memmove m (Some d) (Some s) n = Inr (0, m') \<and> length m' = length m
    \<and> (\<forall>j < length m. m' ! j =
        (if d \<le> j \<and> j < d + n
         then if s < d then m ! (s + (j - d) mod (d - s)) else m ! (s + (j - d))
         else m ! j))"
proof (cases "s = d")
  case True
  then show ?thesis by (simp add: memmove_def)
next
  case False
  from memmove_loop_spec [OF assms this] obtain m' where "memmove_loop m d s n = Inr m'"
    "length m' = length m"
    "\<forall>j < length m. m' ! j = (if d \<le> j \<and> j < d + n then moved m d s (j - d) else m ! j)"
    by blast
  with False show ?thesis by (simp add: memmove_def moved_def)
qed

theorem memmove_effect_witness:
  "\<exists>m'. memmove [1, 2, 3, 4] (Some 1) (Some 0) 3 = Inr (0, m') \<and> length m' = length [1, 2, 3, 4 :: byte]
    \<and> (\<forall>j < length [1, 2, 3, 4 :: byte]. m' ! j =
        (if 1 \<le> j \<and> j < 1 + 3
         then if 0 < (1::nat) then [1, 2, 3, 4] ! (0 + (j - 1) mod (1 - 0)) else [1, 2, 3, 4] ! (0 + (j - 1))
         else [1, 2, 3, 4] ! j))"
  by (rule memmove_effect) simp_all

text \<open>Strcmp answers on any two terminated strings, without reading past either terminator,
  and its answer is whether the two strings have the same characters.\<close>
theorem strcmp_decides:
  assumes "0 \<in> set a" and "0 \<in> set b"
  shows "strcmp a b = Inr (cstr a = cstr b)"
  using assms by (rule strcmp_iff)

theorem strcmp_decides_witness:
  "strcmp [104, 105, 0, 9] [104, 105, 0] = Inr (cstr [104, 105, 0, 9] = cstr [104, 105, 0])"
  by (rule strcmp_decides) simp_all

end
