(* ===== verification/Interfaces.thy ===== *)
theory Interfaces
  imports Prelude
begin

section \<open>The interfaces between the components\<close>

text \<open>
  Two contracts recur in the kernel. Seven allocators (physical pages, kernel virtual
  pages, thread ids, file descriptors, inodes, free disk blocks) scan a set of numbered
  slots for a free one, mark it and later clear it: locale \<open>slots\<close>. The task queues,
  the disk request queue and the keyboard buffer are first-in first-out: locale \<open>fifo\<close>.
  The lemmas a client needs are proved here once; bitmap.c, queue.c and
  circular_buffer.c provide the interpretations in their own theories.
\<close>

subsection \<open>Slot allocators\<close>

locale slots =
  fixes scan :: "'m option \<Rightarrow> (u32 \<times> 'm) res"
    and mark :: "'m option \<Rightarrow> u32 \<Rightarrow> 'm res"
    and clear :: "'m option \<Rightarrow> u32 \<Rightarrow> 'm res"
    and used :: "'m \<Rightarrow> nat set"
    and cap :: "'m \<Rightarrow> nat"
    and ok :: "'m \<Rightarrow> bool"
    and full_msg :: string
  assumes used_bound: "ok m \<Longrightarrow> used m \<subseteq> {..<cap m}"
    and scan_free: "ok m \<Longrightarrow> used m \<noteq> {..<cap m} \<Longrightarrow>
      \<exists>j m'. scan (Some m) = Inr (j, m') \<and> unat j < cap m \<and> unat j \<notin> used m
        \<and> ok m' \<and> cap m' = cap m \<and> used m' = used m"
    and scan_full: "ok m \<Longrightarrow> used m = {..<cap m} \<Longrightarrow> scan (Some m) = panic full_msg"
    and mark: "ok m \<Longrightarrow> unat i < cap m \<Longrightarrow>
      \<exists>m'. mark (Some m) i = Inr m' \<and> ok m' \<and> cap m' = cap m \<and> used m' = insert (unat i) (used m)"
    and clear: "ok m \<Longrightarrow> unat i < cap m \<Longrightarrow>
      \<exists>m'. clear (Some m) i = Inr m' \<and> ok m' \<and> cap m' = cap m \<and> used m' = used m - {unat i}"
begin

text \<open>Scan, then mark: what each allocator of the kernel does under its lock.\<close>

lemma alloc_fresh:
  assumes "ok m" and "used m \<noteq> {..<cap m}"
  shows "\<exists>j m1 m2. scan (Some m) = Inr (j, m1) \<and> mark (Some m1) j = Inr m2
    \<and> unat j < cap m \<and> unat j \<notin> used m
    \<and> ok m2 \<and> cap m2 = cap m \<and> used m2 = insert (unat j) (used m)"
proof -
  from scan_free [OF assms] obtain j m1 where j: "scan (Some m) = Inr (j, m1)" "unat j < cap m"
    "unat j \<notin> used m" "ok m1" "cap m1 = cap m" "used m1 = used m" by blast
  with mark [of m1 j] show ?thesis by auto
qed

text \<open>A slot cleared after its allocation leaves the set of used slots as it was.\<close>

lemma alloc_release:
  assumes "ok m" and "used m \<noteq> {..<cap m}"
  shows "\<exists>j m1 m2 m3. scan (Some m) = Inr (j, m1) \<and> mark (Some m1) j = Inr m2
    \<and> clear (Some m2) j = Inr m3 \<and> ok m3 \<and> cap m3 = cap m \<and> used m3 = used m"
proof -
  from alloc_fresh [OF assms] obtain j m1 m2 where j: "scan (Some m) = Inr (j, m1)"
    "mark (Some m1) j = Inr m2" "unat j < cap m" "unat j \<notin> used m" "ok m2"
    "cap m2 = cap m" "used m2 = insert (unat j) (used m)" by blast
  with clear [of m2 j] show ?thesis by (auto simp: insert_Diff_if)
qed

lemma used_finite: "ok m \<Longrightarrow> finite (used m)"
  using used_bound finite_subset by blast

lemma used_card: "ok m \<Longrightarrow> card (used m) \<le> cap m"
  using used_bound card_mono [of "{..<cap m}" "used m"] by auto

lemma full_iff_card: "ok m \<Longrightarrow> used m = {..<cap m} \<longleftrightarrow> card (used m) = cap m"
  using used_bound card_subset_eq [of "{..<cap m}" "used m"] by auto

end

subsection \<open>First-in first-out containers\<close>

text \<open>Inserting a list in order, and taking out \<open>n\<close> elements.\<close>

primrec enq_all :: "('a \<Rightarrow> 's \<Rightarrow> 's res) \<Rightarrow> 'a list \<Rightarrow> 's \<Rightarrow> 's res" where
  "enq_all enq [] s = Inr s"
| "enq_all enq (x # xs) s = bindr (enq x s) (enq_all enq xs)"

primrec deq_many :: "('s \<Rightarrow> ('a option \<times> 's) res) \<Rightarrow> nat \<Rightarrow> 's \<Rightarrow> ('a list \<times> 's) res" where
  "deq_many deq 0 s = Inr ([], s)"
| "deq_many deq (Suc n) s =
     bindr (deq s) (\<lambda>(x, s).
     case x of None \<Rightarrow> Inr ([], s)
     | Some x \<Rightarrow> bindr (deq_many deq n s) (\<lambda>(xs, s). Inr (x # xs, s)))"

locale fifo =
  fixes enq :: "'a \<Rightarrow> 's \<Rightarrow> 's res"
    and deq :: "'s \<Rightarrow> ('a option \<times> 's) res"
    and rep :: "'s \<Rightarrow> 'a list \<Rightarrow> bool"
    and room :: "'s \<Rightarrow> 'a list \<Rightarrow> bool"
  assumes enq: "rep s xs \<Longrightarrow> room s [x] \<Longrightarrow> \<exists>s'. enq x s = Inr s' \<and> rep s' (xs @ [x])
      \<and> (\<forall>ys. room s (x # ys) \<longrightarrow> room s' ys)"
    and room_hd: "room s (x # ys) \<Longrightarrow> room s [x]"
    and deq_some: "rep s (x # xs) \<Longrightarrow> \<exists>s'. deq s = Inr (Some x, s') \<and> rep s' xs"
    and deq_none: "rep s [] \<Longrightarrow> deq s = Inr (None, s)"
begin

lemma enq_all:
  "rep s xs \<Longrightarrow> room s ys \<Longrightarrow> \<exists>s'. enq_all enq ys s = Inr s' \<and> rep s' (xs @ ys)"
proof (induction ys arbitrary: s xs)
  case (Cons y ys)
  from enq [OF Cons.prems(1) room_hd [OF Cons.prems(2)]] obtain s' where
    s': "enq y s = Inr s'" "rep s' (xs @ [y])" "room s' ys" using Cons.prems(2) by blast
  from Cons.IH [OF s'(2,3)] s'(1) show ?case by auto
qed simp

lemma deq_many: "rep s (xs @ ys) \<Longrightarrow> \<exists>s'. deq_many deq (length xs) s = Inr (xs, s') \<and> rep s' ys"
proof (induction xs arbitrary: s)
  case (Cons x xs)
  from deq_some [of s x "xs @ ys"] Cons.prems obtain s' where
    s': "deq s = Inr (Some x, s')" "rep s' (xs @ ys)" by auto
  from Cons.IH [OF s'(2)] s'(1) show ?case by auto
qed simp

text \<open>What goes in comes out, in order, behind what was already there.\<close>

lemma in_order:
  assumes "rep s xs" and "room s ys"
  shows "\<exists>s' s''. enq_all enq ys s = Inr s' \<and> deq_many deq (length (xs @ ys)) s' = Inr (xs @ ys, s'')
    \<and> rep s'' []"
proof -
  from enq_all [OF assms] obtain s' where s': "enq_all enq ys s = Inr s'" "rep s' (xs @ ys)"
    by blast
  then show ?thesis using deq_many [of s' "xs @ ys" "[]"] by auto
qed

end

subsection \<open>Page allocators\<close>

text \<open>
  The physical allocator and the allocator of kernel metadata pages hand out page
  addresses of a pool. Allocating \<open>n\<close> pages one after another, as dyn_alloc and fork do,
  is proved here once.
\<close>

primrec alloc_pages :: "('s \<Rightarrow> (u32 \<times> 's) res) \<Rightarrow> nat \<Rightarrow> 's \<Rightarrow> (u32 list \<times> 's) res" where
  "alloc_pages alloc 0 s = Inr ([], s)"
| "alloc_pages alloc (Suc n) s =
     bindr (alloc s) (\<lambda>(p, s). bindr (alloc_pages alloc n s) (\<lambda>(ps, s). Inr (p # ps, s)))"

locale page_alloc =
  fixes alloc :: "'s \<Rightarrow> (u32 \<times> 's) res"
    and release :: "u32 \<Rightarrow> 's \<Rightarrow> 's res"
    and inv :: "'s \<Rightarrow> bool"
    and pool :: "'s \<Rightarrow> u32 set"
    and taken :: "'s \<Rightarrow> u32 set"
    and full_msg :: string
  assumes taken_pool: "inv s \<Longrightarrow> taken s \<subseteq> pool s"
    and pool_aligned: "inv s \<Longrightarrow> p \<in> pool s \<Longrightarrow> p AND 4095 = 0"
    and alloc_some: "inv s \<Longrightarrow> taken s \<noteq> pool s \<Longrightarrow>
      \<exists>p s'. alloc s = Inr (p, s') \<and> inv s' \<and> pool s' = pool s \<and> p \<in> pool s \<and> p \<notin> taken s
        \<and> taken s' = insert p (taken s)"
    and alloc_full: "inv s \<Longrightarrow> taken s = pool s \<Longrightarrow> alloc s = panic full_msg"
    and release: "inv s \<Longrightarrow> p \<in> pool s \<Longrightarrow>
      \<exists>s'. release p s = Inr s' \<and> inv s' \<and> pool s' = pool s \<and> taken s' = taken s - {p}"
begin

lemma alloc_pages:
  "inv s \<Longrightarrow> n \<le> card (pool s - taken s) \<Longrightarrow>
   \<exists>ps s'. alloc_pages alloc n s = Inr (ps, s') \<and> length ps = n \<and> distinct ps
     \<and> set ps \<subseteq> pool s - taken s \<and> inv s' \<and> pool s' = pool s \<and> taken s' = taken s \<union> set ps"
proof (induction n arbitrary: s)
  case (Suc n)
  then have "taken s \<noteq> pool s" by auto
  from alloc_some [OF Suc.prems(1) this] obtain p s1 where
    1: "alloc s = Inr (p, s1)" "inv s1" "pool s1 = pool s" "p \<in> pool s" "p \<notin> taken s"
       "taken s1 = insert p (taken s)" by blast
  have "card (pool s1 - taken s1) = card (pool s - taken s - {p})"
    using 1 by (metis Diff_insert)
  also have "\<dots> = card (pool s - taken s) - 1" using 1 by (intro card_Diff_singleton) simp
  finally have "n \<le> card (pool s1 - taken s1)" using Suc.prems by simp
  from Suc.IH [OF 1(2) this] obtain ps s2 where
    2: "alloc_pages alloc n s1 = Inr (ps, s2)" "length ps = n" "distinct ps"
       "set ps \<subseteq> pool s1 - taken s1" "inv s2" "pool s2 = pool s1" "taken s2 = taken s1 \<union> set ps"
    by blast
  then show ?case using 1 by auto
qed simp

lemma alloc_pages_full:
  "inv s \<Longrightarrow> card (pool s - taken s) < n \<Longrightarrow> alloc_pages alloc n s = panic full_msg"
proof (induction n arbitrary: s)
  case (Suc n)
  show ?case
  proof (cases "taken s = pool s")
    case True
    then show ?thesis using alloc_full Suc.prems by simp
  next
    case False
    from alloc_some [OF Suc.prems(1) False] obtain p s1 where
      1: "alloc s = Inr (p, s1)" "inv s1" "pool s1 = pool s" "p \<in> pool s" "p \<notin> taken s"
         "taken s1 = insert p (taken s)" by blast
    have "card (pool s1 - taken s1) = card (pool s - taken s - {p})"
      using 1 by (metis Diff_insert)
    also have "\<dots> = card (pool s - taken s) - 1" using 1 by (intro card_Diff_singleton) simp
    finally have "card (pool s1 - taken s1) < n"
      using Suc.prems 1 card_gt_0_iff [of "pool s - taken s"] by fastforce
    from Suc.IH [OF 1(2) this] 1(1) show ?thesis by simp
  qed
qed simp

text \<open>A page given back can be taken again: the pool never shrinks.\<close>

lemma alloc_release_same:
  assumes "inv s" and "taken s \<noteq> pool s"
  shows "\<exists>p s1 s2. alloc s = Inr (p, s1) \<and> release p s1 = Inr s2 \<and> inv s2
    \<and> pool s2 = pool s \<and> taken s2 = taken s"
proof -
  from alloc_some [OF assms] obtain p s1 where
    1: "alloc s = Inr (p, s1)" "inv s1" "pool s1 = pool s" "p \<in> pool s" "p \<notin> taken s"
       "taken s1 = insert p (taken s)" by blast
  with release [of s1 p] show ?thesis by auto
qed

end

end
