(* ===== verification/Bitmap.thy ===== *)
theory Bitmap
  imports Clib Interfaces
begin

section \<open>kern/utilities/bitmap.c: the bitmap\<close>

text \<open>
  The bitmap behind every allocator of the kernel: physical pages, kernel virtual pages,
  thread ids, file descriptors, inodes and free disk blocks. An index is a C \<open>int\<close>,
  modelled by its 32 bits: compared with the unsigned length it is unsigned, divided by
  \<open>BITS_PER_BYTE\<close> it is signed. A null buffer is the empty buffer, so that any access
  through it faults.
\<close>

subsection \<open>State and operations\<close>

record bitmap =
  len_inbits :: u32
  bm_buff :: "byte list"
  prev_free :: u32

abbreviation INVALID_INDEX :: u32 where "INVALID_INDEX \<equiv> - 1"

definition bitmap_init :: "bitmap option \<Rightarrow> u32 \<Rightarrow> byte list option \<Rightarrow> bitmap res" where
  "bitmap_init m len_bits buff =
     nonnull ''bitmap_init(): null pointer'' m (\<lambda>m.
     bindr (case buff of None \<Rightarrow> Inr []
            | Some b \<Rightarrow> bzero b (Some 0) (unat (len_bits div 8))) (\<lambda>b.
     Inr (m\<lparr>len_inbits := len_bits, bm_buff := b, prev_free := 0\<rparr>)))"

text \<open>
  bitmap_test returns the masked byte itself, not 0 or 1 (\<open>bool\<close> is a C enum here).
\<close>

definition bitmap_test :: "bitmap option \<Rightarrow> u32 \<Rightarrow> byte res" where
  "bitmap_test m idx =
     nonnull ''bitmap_test(): null pointer'' m (\<lambda>m.
     if idx = INVALID_INDEX \<or> len_inbits m \<le> idx then panic ''bitmap_test(): invalid index''
     else
       let byte_i = sint idx sdiv 8; bit_i = sint idx smod 8 in
       bindr (read_at ''bitmap_test()'' (bm_buff m) byte_i) (\<lambda>v.
       Inr (v AND push_bit (nat bit_i) 1)))"

definition bitmap_set :: "bitmap option \<Rightarrow> u32 \<Rightarrow> bitmap res" where
  "bitmap_set m idx =
     nonnull ''bitmap_set(): null pointer'' m (\<lambda>m.
     if idx = INVALID_INDEX \<or> len_inbits m \<le> idx then panic ''bitmap_set(): invalid index''
     else
       let byte_i = sint idx sdiv 8; bit_i = sint idx smod 8 in
       bindr (read_at ''bitmap_set()'' (bm_buff m) byte_i) (\<lambda>v.
       bindr (write_at ''bitmap_set()'' (bm_buff m) byte_i (v OR push_bit (nat bit_i) 1)) (\<lambda>b.
       Inr (m\<lparr>bm_buff := b\<rparr>))))"

definition bitmap_clear :: "bitmap option \<Rightarrow> u32 \<Rightarrow> bitmap res" where
  "bitmap_clear m idx =
     nonnull ''bitmap_clear(): null pointer'' m (\<lambda>m.
     if idx = INVALID_INDEX \<or> len_inbits m \<le> idx then panic ''bitmap_clear(): invalid index''
     else
       let byte_i = sint idx sdiv 8; bit_i = sint idx smod 8 in
       bindr (read_at ''bitmap_clear()'' (bm_buff m) byte_i) (\<lambda>v.
       bindr (write_at ''bitmap_clear()'' (bm_buff m) byte_i (v AND NOT (push_bit (nat bit_i) 1))) (\<lambda>b.
       Inr (m\<lparr>bm_buff := b\<rparr>))))"

text \<open>
  The scan loop: \<open>n\<close> iterations are left. It stops at the first clear bit; when no
  iteration is left the code finds \<open>i == len\<close> and panics.
\<close>

fun scan_loop :: "bitmap \<Rightarrow> u32 \<Rightarrow> nat \<Rightarrow> (u32 \<times> bitmap) res" where
  "scan_loop m i 0 = panic ''bitmap_scan_empty(): no more free bits''"
| "scan_loop m i (Suc n) =
     bindr (bitmap_test (Some m) i) (\<lambda>is_set.
     if is_set = 0 then Inr (i, m\<lparr>prev_free := (i + 1) mod len_inbits m\<rparr>)
     else scan_loop m ((i + 1) mod len_inbits m) n)"

definition bitmap_scan_empty :: "bitmap option \<Rightarrow> (u32 \<times> bitmap) res" where
  "bitmap_scan_empty m =
     nonnull ''bitmap_scan_empty(): null pointer'' m (\<lambda>m.
     if prev_free m = INVALID_INDEX \<or> len_inbits m \<le> prev_free m
     then panic ''bitmap_scan_empty(): invalid parameters''
     else scan_loop m (prev_free m) (unat (len_inbits m)))"


subsection \<open>The set a bitmap stands for\<close>

definition bm_bit :: "bitmap \<Rightarrow> nat \<Rightarrow> bool" where
  "bm_bit m i = bit (bm_buff m ! (i div 8)) (i mod 8)"

text \<open>
  Well-formedness: the bits fit the buffer and a positive C \<open>int\<close>, and the next-fit
  cursor is inside.
\<close>

definition bm_wf :: "bitmap \<Rightarrow> bool" where
  "bm_wf m \<longleftrightarrow> unat (len_inbits m) < 2147483648
     \<and> unat (len_inbits m) \<le> 8 * length (bm_buff m)
     \<and> unat (prev_free m) < unat (len_inbits m)"

definition bm_cap :: "bitmap \<Rightarrow> nat" where
  "bm_cap m = unat (len_inbits m)"

definition bm_bits :: "bitmap \<Rightarrow> nat set" where
  "bm_bits m = {i. i < bm_cap m \<and> bm_bit m i}"

lemma finite_bm_bits [simp]: "finite (bm_bits m)"
  by (rule finite_subset [of _ "{..<bm_cap m}"]) (auto simp: bm_bits_def)

lemma bm_bits_bound: "i \<in> bm_bits m \<Longrightarrow> i < bm_cap m"
  by (simp add: bm_bits_def)

lemma bm_index:
  assumes "bm_wf m" and "unat i < bm_cap m"
  shows "i \<noteq> INVALID_INDEX" and "\<not> len_inbits m \<le> i"
    and "sint i sdiv 8 = int (unat i div 8)" and "sint i smod 8 = int (unat i mod 8)"
    and "unat i div 8 < length (bm_buff m)"
proof -
  have small: "unat i < 2147483648" using assms by (simp add: bm_wf_def bm_cap_def)
  then show "i \<noteq> INVALID_INDEX" by auto
  show "\<not> len_inbits m \<le> i" using assms(2) by (simp add: bm_cap_def word_le_nat_alt)
  show "sint i sdiv 8 = int (unat i div 8)" "sint i smod 8 = int (unat i mod 8)"
    using small by (simp_all only: sint_sdiv_8 sint_smod_8)
  show "unat i div 8 < length (bm_buff m)"
    using assms by (auto simp: bm_wf_def bm_cap_def intro!: less_mult_imp_div_less)
qed

lemma bitmap_test_eq:
  assumes "bm_wf m" and "unat i < bm_cap m"
  shows "bitmap_test (Some m) i =
    Inr (bm_buff m ! (unat i div 8) AND push_bit (unat i mod 8) 1)"
  using bm_index [OF assms] by (simp add: bitmap_test_def)

lemma bitmap_test_bits:
  assumes "bm_wf m" and "unat i < bm_cap m"
  shows "\<exists>v. bitmap_test (Some m) i = Inr v \<and> (v \<noteq> 0 \<longleftrightarrow> unat i \<in> bm_bits m)"
  using assms by (simp add: bitmap_test_eq bm_bits_def bm_bit_def bit_iff_and_push_bit_not_eq_0)

lemma bitmap_invalid:
  assumes "len_inbits m \<le> i \<or> i = INVALID_INDEX"
  shows "bitmap_test (Some m) i = panic ''bitmap_test(): invalid index''"
    and "bitmap_set (Some m) i = panic ''bitmap_set(): invalid index''"
    and "bitmap_clear (Some m) i = panic ''bitmap_clear(): invalid index''"
  using assms by (auto simp: bitmap_test_def bitmap_set_def bitmap_clear_def)

lemma bm_bit_update:
  assumes "i div 8 < length b"
    and "\<And>k. k < 8 \<Longrightarrow> bit v k = (if k = i mod 8 then x else bit (b ! (i div 8)) k)"
  shows "bit (b[i div 8 := v] ! (j div 8)) (j mod 8) =
    (if j = i then x else bit (b ! (j div 8)) (j mod 8))"
proof (cases "j div 8 = i div 8")
  case True
  then have "j = i \<longleftrightarrow> j mod 8 = i mod 8" by (metis div_mult_mod_eq)
  with True assms show ?thesis by simp
qed (use assms in auto)

lemma bitmap_set_bits:
  assumes wf: "bm_wf m" and i: "unat i < bm_cap m"
  shows "\<exists>m'. bitmap_set (Some m) i = Inr m' \<and> bm_wf m' \<and> bm_cap m' = bm_cap m
    \<and> prev_free m' = prev_free m \<and> bm_bits m' = insert (unat i) (bm_bits m)"
proof -
  note ix = bm_index [OF wf i]
  let ?v = "bm_buff m ! (unat i div 8) OR push_bit (unat i mod 8) (1 :: byte)"
  let ?m = "m\<lparr>bm_buff := (bm_buff m)[unat i div 8 := ?v]\<rparr>"
  have "bitmap_set (Some m) i = Inr ?m" using ix by (simp add: bitmap_set_def)
  moreover have "bm_bit ?m j = (if j = unat i then True else bm_bit m j)" for j
  proof -
    have "bit ((bm_buff m)[unat i div 8 := ?v] ! (j div 8)) (j mod 8) =
        (if j = unat i then True else bit (bm_buff m ! (j div 8)) (j mod 8))"
      by (rule bm_bit_update [OF ix(5)]) (auto simp: bit_or_iff bit_2n_byte)
    then show ?thesis by (simp add: bm_bit_def)
  qed
  then have "bm_bits ?m = insert (unat i) (bm_bits m)"
    using i by (auto simp: bm_bits_def bm_cap_def)
  ultimately show ?thesis using wf by (auto simp: bm_wf_def bm_cap_def)
qed

lemma bitmap_clear_bits:
  assumes wf: "bm_wf m" and i: "unat i < bm_cap m"
  shows "\<exists>m'. bitmap_clear (Some m) i = Inr m' \<and> bm_wf m' \<and> bm_cap m' = bm_cap m
    \<and> prev_free m' = prev_free m \<and> bm_bits m' = bm_bits m - {unat i}"
proof -
  note ix = bm_index [OF wf i]
  let ?v = "bm_buff m ! (unat i div 8) AND NOT (push_bit (unat i mod 8) (1 :: byte))"
  let ?m = "m\<lparr>bm_buff := (bm_buff m)[unat i div 8 := ?v]\<rparr>"
  have "bitmap_clear (Some m) i = Inr ?m" using ix by (simp add: bitmap_clear_def)
  moreover have "bm_bit ?m j = (if j = unat i then False else bm_bit m j)" for j
  proof -
    have "bit ((bm_buff m)[unat i div 8 := ?v] ! (j div 8)) (j mod 8) =
        (if j = unat i then False else bit (bm_buff m ! (j div 8)) (j mod 8))"
      by (rule bm_bit_update [OF ix(5)])
        (auto simp: bit_and_iff bit_not_iff bit_2n_byte)
    then show ?thesis by (simp add: bm_bit_def)
  qed
  then have "bm_bits ?m = bm_bits m - {unat i}"
    using i by (auto simp: bm_bits_def bm_cap_def split: if_splits)
  ultimately show ?thesis using wf by (auto simp: bm_wf_def bm_cap_def)
qed

lemma bitmap_init_bits:
  assumes "0 < unat n" and "unat n < 2147483648" and "length b = unat n div 8" and "8 dvd unat n"
  shows "\<exists>m'. bitmap_init (Some m) n (Some b) = Inr m' \<and> bm_wf m' \<and> bm_cap m' = unat n
    \<and> bm_bits m' = {} \<and> prev_free m' = 0"
proof -
  have "unat (n div 8) = length b" using assms by (simp add: unat_div)
  then have "bitmap_init (Some m) n (Some b) =
      Inr (m\<lparr>len_inbits := n, bm_buff := replicate (length b) 0, prev_free := 0\<rparr>)"
    by (simp add: bitmap_init_def)
  moreover have "i < unat n \<Longrightarrow> i div 8 < length b" for i
    using assms by (auto simp: less_mult_imp_div_less)
  ultimately show ?thesis
    using assms by (auto simp: bm_wf_def bm_cap_def bm_bits_def bm_bit_def)
qed

text \<open>The static buffers of the kernel start zeroed, whatever part of them the bitmap uses.\<close>

lemma bitmap_init_zero:
  assumes "0 < unat n" and "unat n < 2147483648" and "unat n \<le> 8 * k"
  shows "\<exists>m'. bitmap_init (Some m) n (Some (replicate k 0)) = Inr m' \<and> bm_wf m' \<and> bm_cap m' = unat n
    \<and> bm_bits m' = {} \<and> prev_free m' = 0"
proof -
  have "unat (n div 8) \<le> k" using assms(3) by (simp add: unat_div)
  then have "replicate (unat (n div 8)) 0 @ drop (unat (n div 8)) (replicate k 0) = (replicate k 0 :: byte list)"
    by (simp flip: replicate_add)
  then have "bitmap_init (Some m) n (Some (replicate k 0)) =
      Inr (m\<lparr>len_inbits := n, bm_buff := replicate k 0, prev_free := 0\<rparr>)"
    using \<open>unat (n div 8) \<le> k\<close> by (simp add: bitmap_init_def bzero_prefix)
  moreover have "i < unat n \<Longrightarrow> i div 8 < k" for i
    using assms by (auto simp: less_mult_imp_div_less)
  ultimately show ?thesis
    using assms by (auto simp: bm_wf_def bm_cap_def bm_bits_def bm_bit_def)
qed

subsection \<open>The scan is next-fit\<close>

text \<open>The index \<open>k\<close> positions after the cursor, cyclically.\<close>

definition cyc :: "nat \<Rightarrow> nat \<Rightarrow> nat \<Rightarrow> nat" where
  "cyc len p k = (p + k) mod len"

lemma unat_succ_mod:
  assumes "unat len < 2147483648" and "unat i < unat len"
  shows "unat ((i + 1) mod len :: u32) = (unat i + 1) mod unat len"
proof -
  have "unat (i + 1) = unat i + 1" using assms by (intro unat_add1_32) simp
  then show ?thesis by (simp add: unat_mod)
qed

lemma scan_loop_spec:
  assumes wf: "bm_wf m"
  shows "unat i < bm_cap m \<Longrightarrow>
    (\<forall>k < n. cyc (bm_cap m) (unat i) k \<in> bm_bits m) \<and>
      scan_loop m i n = panic ''bitmap_scan_empty(): no more free bits''
    \<or> (\<exists>k j. k < n \<and> unat j = cyc (bm_cap m) (unat i) k \<and> unat j \<notin> bm_bits m
        \<and> (\<forall>k' < k. cyc (bm_cap m) (unat i) k' \<in> bm_bits m)
        \<and> scan_loop m i n = Inr (j, m\<lparr>prev_free := (j + 1) mod len_inbits m\<rparr>))"
proof (induction n arbitrary: i)
  case 0
  then show ?case by simp
next
  case (Suc n)
  let ?i = "(i + 1) mod len_inbits m"
  obtain v where v: "bitmap_test (Some m) i = Inr v" "v \<noteq> 0 \<longleftrightarrow> unat i \<in> bm_bits m"
    using bitmap_test_bits [OF wf Suc.prems] by blast
  have i0: "cyc (bm_cap m) (unat i) 0 = unat i" using Suc.prems by (simp add: cyc_def)
  show ?case
  proof (cases "v = 0")
    case True
    then have "scan_loop m i (Suc n) = Inr (i, m\<lparr>prev_free := ?i\<rparr>)" using v by simp
    with True v i0 show ?thesis by (intro disjI2 exI [of _ 0] exI [of _ i]) simp
  next
    case False
    have ui: "unat ?i = (unat i + 1) mod bm_cap m"
      using wf Suc.prems unfolding bm_wf_def bm_cap_def by (intro unat_succ_mod) auto
    then have "unat ?i < bm_cap m" using Suc.prems by simp
    note IH = Suc.IH [OF this]
    have sh: "cyc (bm_cap m) (unat ?i) k = cyc (bm_cap m) (unat i) (Suc k)" for k
      by (simp add: ui cyc_def mod_add_left_eq)
    have loop: "scan_loop m i (Suc n) = scan_loop m ?i n" using False v by simp
    have here: "cyc (bm_cap m) (unat i) 0 \<in> bm_bits m" using False v i0 by simp
    have all: "(\<forall>k < Suc l. cyc (bm_cap m) (unat i) k \<in> bm_bits m) \<longleftrightarrow>
        (\<forall>k < l. cyc (bm_cap m) (unat i) (Suc k) \<in> bm_bits m)" for l
      using here by (auto simp: less_Suc_eq_0_disj)
    from IH show ?thesis unfolding sh
    proof
      assume "(\<forall>k < n. cyc (bm_cap m) (unat i) (Suc k) \<in> bm_bits m) \<and>
        scan_loop m ?i n = panic ''bitmap_scan_empty(): no more free bits''"
      then show ?thesis unfolding loop all by blast
    next
      assume "\<exists>k j. k < n \<and> unat j = cyc (bm_cap m) (unat i) (Suc k) \<and> unat j \<notin> bm_bits m
        \<and> (\<forall>k' < k. cyc (bm_cap m) (unat i) (Suc k') \<in> bm_bits m)
        \<and> scan_loop m ?i n = Inr (j, m\<lparr>prev_free := (j + 1) mod len_inbits m\<rparr>)"
      then obtain k j where "k < n" "unat j = cyc (bm_cap m) (unat i) (Suc k)"
        "unat j \<notin> bm_bits m" "\<forall>k' < k. cyc (bm_cap m) (unat i) (Suc k') \<in> bm_bits m"
        "scan_loop m ?i n = Inr (j, m\<lparr>prev_free := (j + 1) mod len_inbits m\<rparr>)"
        by blast
      then show ?thesis
        unfolding loop by (intro disjI2 exI [of _ "Suc k"] exI [of _ j]) (simp add: all)
    qed
  qed
qed

lemma cyc_surj: "p < len \<Longrightarrow> i < len \<Longrightarrow> \<exists>k < len. cyc len p k = i"
  by (rule exI [of _ "if p \<le> i then i - p else len + i - p"]) (auto simp: cyc_def)

lemma scan_full:
  assumes wf: "bm_wf m" and full: "bm_bits m = {..<bm_cap m}"
  shows "bitmap_scan_empty (Some m) = panic ''bitmap_scan_empty(): no more free bits''"
proof -
  have p: "unat (prev_free m) < bm_cap m" using wf by (simp add: bm_wf_def bm_cap_def)
  then have "prev_free m \<noteq> INVALID_INDEX" "\<not> len_inbits m \<le> prev_free m"
    using bm_index [OF wf p] by simp_all
  then have "bitmap_scan_empty (Some m) = scan_loop m (prev_free m) (bm_cap m)"
    by (simp add: bitmap_scan_empty_def bm_cap_def)
  moreover have "cyc (bm_cap m) (unat (prev_free m)) k \<in> bm_bits m" for k
    using p by (auto simp: full cyc_def)
  ultimately show ?thesis using scan_loop_spec [OF wf p, of "bm_cap m"] by metis
qed

lemma scan_free:
  assumes wf: "bm_wf m" and free: "bm_bits m \<noteq> {..<bm_cap m}"
  shows "\<exists>k j m'. bitmap_scan_empty (Some m) = Inr (j, m')
    \<and> k < bm_cap m \<and> unat j = cyc (bm_cap m) (unat (prev_free m)) k \<and> unat j \<notin> bm_bits m
    \<and> (\<forall>k' < k. cyc (bm_cap m) (unat (prev_free m)) k' \<in> bm_bits m)
    \<and> bm_wf m' \<and> bm_cap m' = bm_cap m \<and> bm_bits m' = bm_bits m
    \<and> unat (prev_free m') = (unat j + 1) mod bm_cap m"
proof -
  have p: "unat (prev_free m) < bm_cap m" using wf by (simp add: bm_wf_def bm_cap_def)
  then have "prev_free m \<noteq> INVALID_INDEX" "\<not> len_inbits m \<le> prev_free m"
    using bm_index [OF wf p] by simp_all
  then have run: "bitmap_scan_empty (Some m) = scan_loop m (prev_free m) (bm_cap m)"
    by (simp add: bitmap_scan_empty_def bm_cap_def)
  obtain i where "i < bm_cap m" "i \<notin> bm_bits m" using free by (auto simp: bm_bits_def)
  then have "\<exists>k < bm_cap m. cyc (bm_cap m) (unat (prev_free m)) k \<notin> bm_bits m"
    using cyc_surj [OF p] by metis
  then obtain k j where kj: "k < bm_cap m" "unat j = cyc (bm_cap m) (unat (prev_free m)) k"
      "unat j \<notin> bm_bits m" "\<forall>k' < k. cyc (bm_cap m) (unat (prev_free m)) k' \<in> bm_bits m"
      "scan_loop m (prev_free m) (bm_cap m) = Inr (j, m\<lparr>prev_free := (j + 1) mod len_inbits m\<rparr>)"
    using scan_loop_spec [OF wf p, of "bm_cap m"] by blast
  let ?m = "m\<lparr>prev_free := (j + 1) mod len_inbits m\<rparr>"
  have j: "unat j < bm_cap m" using kj(2) p by (simp add: cyc_def)
  then have "unat (prev_free ?m) = (unat j + 1) mod bm_cap m"
    using wf unfolding bm_wf_def bm_cap_def by (simp add: unat_succ_mod)
  moreover from this have "bm_wf ?m" "bm_cap ?m = bm_cap m" "bm_bits ?m = bm_bits m"
    using wf p by (auto simp: bm_wf_def bm_cap_def bm_bits_def bm_bit_def)
  ultimately show ?thesis using kj run by auto
qed

subsection \<open>The bitmap is a slot allocator\<close>

lemmas bitmap_specs = bitmap_set_bits bitmap_clear_bits scan_full scan_free

interpretation bm: slots bitmap_scan_empty bitmap_set bitmap_clear bm_bits bm_cap bm_wf
  "''bitmap_scan_empty(): no more free bits''"
proof (unfold_locales, goal_cases)
  case (1 m)
  then show ?case by (auto dest: bm_bits_bound)
next
  case (2 m)
  then obtain k j m' where "bitmap_scan_empty (Some m) = Inr (j, m')" "k < bm_cap m"
    "unat j = cyc (bm_cap m) (unat (prev_free m)) k" "unat j \<notin> bm_bits m"
    "bm_wf m'" "bm_cap m' = bm_cap m" "bm_bits m' = bm_bits m"
    using scan_free by blast
  then show ?case by (auto simp: cyc_def)
next
  case (3 m)
  then show ?case by (rule scan_full)
next
  case (4 m i)
  then show ?case using bitmap_set_bits by blast
next
  case (5 m i)
  then show ?case using bitmap_clear_bits by blast
qed

subsection \<open>Properties\<close>

text \<open>A bitmap of 16 bits of which 3 are taken, for the witnesses.\<close>

definition bm_sample :: bitmap where
  "bm_sample = \<lparr>len_inbits = 16, bm_buff = [7, 0], prev_free = 1\<rparr>"

lemma bm_sample_wf: "bm_wf bm_sample" "3 \<notin> bm_bits bm_sample" "bm_cap bm_sample = 16"
  by (simp_all add: bm_sample_def bm_wf_def bm_bits_def bm_cap_def bm_bit_def bit_iff_odd)

lemma bm_sample_free: "bm_bits bm_sample \<noteq> {..<bm_cap bm_sample}"
proof
  assume "bm_bits bm_sample = {..<bm_cap bm_sample}"
  moreover have "3 \<in> {..<bm_cap bm_sample}" by (simp add: bm_sample_wf(3))
  ultimately show False using bm_sample_wf(2) by blast
qed

text \<open>C22: bitmap_scan_empty is a next-fit search: when some bit is clear it returns the clear bit
  that comes first in cyclic order from the cursor, leaves the bits as they are and moves the
  cursor just behind that bit; when every bit is set it panics.\<close>
theorem bitmap_scan_next_fit:
  assumes "bm_wf m"
  shows "if bm_bits m = {..<bm_cap m}
    then bitmap_scan_empty (Some m) = panic ''bitmap_scan_empty(): no more free bits''
    else \<exists>k j m'. bitmap_scan_empty (Some m) = Inr (j, m')
      \<and> k < bm_cap m \<and> unat j = (unat (prev_free m) + k) mod bm_cap m \<and> unat j \<notin> bm_bits m
      \<and> (\<forall>k' < k. (unat (prev_free m) + k') mod bm_cap m \<in> bm_bits m)
      \<and> bm_wf m' \<and> bm_cap m' = bm_cap m \<and> bm_bits m' = bm_bits m
      \<and> unat (prev_free m') = (unat j + 1) mod bm_cap m"
  using scan_full [OF assms] scan_free [OF assms] by (simp add: cyc_def)

theorem bitmap_scan_next_fit_witness:
  "if bm_bits bm_sample = {..<bm_cap bm_sample}
    then bitmap_scan_empty (Some bm_sample) = panic ''bitmap_scan_empty(): no more free bits''
    else \<exists>k j m'. bitmap_scan_empty (Some bm_sample) = Inr (j, m')
      \<and> k < bm_cap bm_sample \<and> unat j = (unat (prev_free bm_sample) + k) mod bm_cap bm_sample
      \<and> unat j \<notin> bm_bits bm_sample
      \<and> (\<forall>k' < k. (unat (prev_free bm_sample) + k') mod bm_cap bm_sample \<in> bm_bits bm_sample)
      \<and> bm_wf m' \<and> bm_cap m' = bm_cap bm_sample \<and> bm_bits m' = bm_bits bm_sample
      \<and> unat (prev_free m') = (unat j + 1) mod bm_cap bm_sample"
  by (rule bitmap_scan_next_fit) (rule bm_sample_wf)

text \<open>The allocator protocol every client of the bitmap follows: scan, set the bit found, later
  clear it. The bit found was free, is taken in between, and the clear gives back exactly the
  set of taken bits there was at the start.\<close>
theorem bitmap_alloc_release:
  assumes "bm_wf m" and "bm_bits m \<noteq> {..<bm_cap m}"
  shows "\<exists>j m1 m2 m3. bitmap_scan_empty (Some m) = Inr (j, m1) \<and> bitmap_set (Some m1) j = Inr m2
    \<and> bitmap_clear (Some m2) j = Inr m3 \<and> unat j \<notin> bm_bits m
    \<and> bm_bits m2 = insert (unat j) (bm_bits m) \<and> bm_wf m3 \<and> bm_bits m3 = bm_bits m"
proof -
  from bm.alloc_fresh [OF assms] obtain j m1 m2 where 1: "bitmap_scan_empty (Some m) = Inr (j, m1)"
    "bitmap_set (Some m1) j = Inr m2" "unat j < bm_cap m" "unat j \<notin> bm_bits m" "bm_wf m2"
    "bm_cap m2 = bm_cap m" "bm_bits m2 = insert (unat j) (bm_bits m)" by blast
  from bitmap_clear_bits [of m2 j] 1 obtain m3 where "bitmap_clear (Some m2) j = Inr m3" "bm_wf m3"
    "bm_bits m3 = bm_bits m2 - {unat j}" by auto
  with 1 show ?thesis by auto
qed

theorem bitmap_alloc_release_witness:
  "\<exists>j m1 m2 m3. bitmap_scan_empty (Some bm_sample) = Inr (j, m1) \<and> bitmap_set (Some m1) j = Inr m2
    \<and> bitmap_clear (Some m2) j = Inr m3 \<and> unat j \<notin> bm_bits bm_sample
    \<and> bm_bits m2 = insert (unat j) (bm_bits bm_sample) \<and> bm_wf m3 \<and> bm_bits m3 = bm_bits bm_sample"
  by (rule bitmap_alloc_release) (rule bm_sample_wf bm_sample_free)+

end
