(* ===== verification/Spinlock.thy ===== *)
theory Spinlock
  imports Prelude
begin

section \<open>kern/utilities/spinlock.c: the spinlock\<close>

text \<open>
  The lock word and its operations. As a call of one thread that nobody interrupts,
  wait() on a held lock never returns (\<open>Spin\<close>). Among several threads it is the
  two-phase loop of the source, test until free and then an atomic bit-test-and-set that
  goes back to the loop when it lost the race, which the step relation below models.
\<close>

record spinlock =
  islock :: u32

definition test :: "spinlock \<Rightarrow> int" where
  "test spin = (if islock spin AND 1 \<noteq> 0 then 1 else 0)"

definition spinlock_init :: "spinlock option \<Rightarrow> spinlock res" where
  "spinlock_init spin =
     nonnull ''spinlock_init(): null pointer'' spin (\<lambda>spin. Inr (spin\<lparr>islock := 0\<rparr>))"

definition bts :: "spinlock \<Rightarrow> bool \<times> spinlock" where
  "bts spin = (bit (islock spin) 0, spin\<lparr>islock := islock spin OR 1\<rparr>)"

definition wait :: "spinlock \<Rightarrow> spinlock res" where
  "wait spin =
     (if test spin \<noteq> 0 then Inl Spin
      else let (carry, spin) = bts spin in if carry then Inl Spin else Inr spin)"

definition signal :: "spinlock \<Rightarrow> spinlock" where
  "signal spin = spin\<lparr>islock := 0\<rparr>"

text \<open>A free lock as every caller finds it and leaves it: the word is 0.\<close>

definition unlocked :: spinlock where
  "unlocked = \<lparr>islock = 0\<rparr>"

lemma wait_unlocked [simp]: "wait unlocked = Inr \<lparr>islock = 1\<rparr>"
  by (simp add: wait_def test_def bts_def unlocked_def)

lemma signal_unlocked [simp]: "signal s = unlocked"
  by (simp add: signal_def unlocked_def)

lemma test_bit: "test s \<noteq> 0 \<longleftrightarrow> bit (islock s) 0"
  by (simp add: test_def and_one_eq bit_0 odd_iff_mod_2_eq_one)

lemma wait_held: "wait s = Inl Spin \<longleftrightarrow> bit (islock s) 0"
  by (auto simp: wait_def bts_def test_bit)

subsection \<open>Several threads\<close>

text \<open>
  Where a thread is: outside, in the test loop, past the loop and about to execute the
  atomic bts, or inside the critical section.
\<close>

datatype pc = Outside | Testing | Trying | Inside

record lock_state =
  lk :: spinlock
  pcs :: "nat \<Rightarrow> pc"

inductive lock_step :: "lock_state \<Rightarrow> lock_state \<Rightarrow> bool" where
  enter: "pcs s i = Outside \<Longrightarrow> lock_step s (s\<lparr>pcs := (pcs s)(i := Testing)\<rparr>)"
| spin: "pcs s i = Testing \<Longrightarrow> test (lk s) \<noteq> 0 \<Longrightarrow> lock_step s s"
| seen_free: "pcs s i = Testing \<Longrightarrow> test (lk s) = 0 \<Longrightarrow>
    lock_step s (s\<lparr>pcs := (pcs s)(i := Trying)\<rparr>)"
| lost: "pcs s i = Trying \<Longrightarrow> bts (lk s) = (True, l) \<Longrightarrow>
    lock_step s (s\<lparr>lk := l, pcs := (pcs s)(i := Testing)\<rparr>)"
| won: "pcs s i = Trying \<Longrightarrow> bts (lk s) = (False, l) \<Longrightarrow>
    lock_step s (s\<lparr>lk := l, pcs := (pcs s)(i := Inside)\<rparr>)"
| leave: "pcs s i = Inside \<Longrightarrow>
    lock_step s (s\<lparr>lk := signal (lk s), pcs := (pcs s)(i := Outside)\<rparr>)"

inductive_cases lock_stepE: "lock_step s t"

inductive lock_reachable :: "lock_state \<Rightarrow> bool" where
  start: "lock_reachable \<lparr>lk = unlocked, pcs = (\<lambda>_. Outside)\<rparr>"
| step: "lock_reachable s \<Longrightarrow> lock_step s t \<Longrightarrow> lock_reachable t"

text \<open>The lock word says whether some thread is inside, and at most one is.\<close>

definition lock_inv :: "lock_state \<Rightarrow> bool" where
  "lock_inv s \<longleftrightarrow> (bit (islock (lk s)) 0 \<longleftrightarrow> (\<exists>i. pcs s i = Inside))
     \<and> (\<forall>i j. pcs s i = Inside \<longrightarrow> pcs s j = Inside \<longrightarrow> i = j)"

lemma bts_bit: "bts s = (c, l) \<Longrightarrow> c = bit (islock s) 0 \<and> bit (islock l) 0"
  by (auto simp: bts_def bit_or_iff bit_1_iff)

lemma lock_step_inv: "lock_step s t \<Longrightarrow> lock_inv s \<Longrightarrow> lock_inv t"
proof (induction rule: lock_step.induct)
  case (leave s i)
  then show ?case by (auto simp: lock_inv_def unlocked_def)
qed (auto simp: lock_inv_def dest!: bts_bit; metis pc.distinct)+

lemma lock_reachable_inv: "lock_reachable s \<Longrightarrow> lock_inv s"
proof (induction rule: lock_reachable.induct)
  case start
  show ?case by (simp add: lock_inv_def unlocked_def)
next
  case (step s t)
  then show ?case by (blast intro: lock_step_inv)
qed

text \<open>A released lock can be taken by any thread that waits for it.\<close>

lemma lock_progress:
  assumes "lock_inv s" and "pcs s i = Trying" and "\<forall>j. pcs s j \<noteq> Inside"
  shows "\<exists>t. lock_step s t \<and> pcs t i = Inside"
proof -
  obtain c l where b: "bts (lk s) = (c, l)" by (cases "bts (lk s)")
  with assms have "\<not> c" by (auto simp: lock_inv_def dest: bts_bit)
  with b assms(2) show ?thesis by (auto intro!: exI lock_step.won)
qed

subsection \<open>Properties\<close>

text \<open>C25: wait and signal give mutual exclusion: in every state that any interleaving of any number
  of threads reaches, at most one thread is in the critical section, and a thread about to try
  the bit-test-and-set gets in at once when nobody is inside.\<close>
theorem spinlock_mutual_exclusion:
  assumes "lock_reachable s"
  shows "(pcs s i = Inside \<and> pcs s j = Inside \<longrightarrow> i = j)
    \<and> (pcs s i = Trying \<and> (\<forall>k. pcs s k \<noteq> Inside) \<longrightarrow> (\<exists>t. lock_step s t \<and> pcs t i = Inside))"
  using lock_reachable_inv [OF assms] lock_progress [of s i] by (auto simp: lock_inv_def)

text \<open>Thread 1 waits while thread 0 holds the lock.\<close>

definition lock_sample :: lock_state where
  "lock_sample = \<lparr>lk = \<lparr>islock = 1\<rparr>, pcs = (\<lambda>_. Outside)(0 := Inside, 1 := Testing)\<rparr>"

lemma lock_sample_reachable: "lock_reachable lock_sample"
proof -
  let ?s0 = "\<lparr>lk = unlocked, pcs = (\<lambda>_. Outside)\<rparr>"
  let ?s1 = "?s0\<lparr>pcs := (pcs ?s0)(0 := Testing)\<rparr>"
  let ?s2 = "?s1\<lparr>pcs := (pcs ?s1)(0 := Trying)\<rparr>"
  let ?s3 = "?s2\<lparr>lk := \<lparr>islock = 1\<rparr>, pcs := (pcs ?s2)(0 := Inside)\<rparr>"
  have "lock_step ?s0 ?s1" by (rule lock_step.enter) simp
  with lock_reachable.start have 1: "lock_reachable ?s1" by (rule lock_reachable.step)
  have "lock_step ?s1 ?s2" by (rule lock_step.seen_free) (simp_all add: test_def unlocked_def)
  with 1 have 2: "lock_reachable ?s2" by (rule lock_reachable.step)
  have "lock_step ?s2 ?s3" by (rule lock_step.won) (simp_all add: bts_def unlocked_def)
  with 2 have 3: "lock_reachable ?s3" by (rule lock_reachable.step)
  have "lock_step ?s3 (?s3\<lparr>pcs := (pcs ?s3)(1 := Testing)\<rparr>)" by (rule lock_step.enter) simp
  with 3 have "lock_reachable (?s3\<lparr>pcs := (pcs ?s3)(1 := Testing)\<rparr>)" by (rule lock_reachable.step)
  then show ?thesis by (simp add: lock_sample_def)
qed

theorem spinlock_mutual_exclusion_witness:
  "pcs lock_sample 0 = Inside \<and> pcs lock_sample 1 \<noteq> Inside"
  using spinlock_mutual_exclusion [OF lock_sample_reachable, of 0 1] by (auto simp: lock_sample_def)

end
