(* ===== verification/Node_List.thy ===== *)
theory Node_List
  imports Prelude
begin

section \<open>kern/utilities/node.c and list.c: the linked list\<close>

text \<open>
  Nodes live in a heap from addresses to nodes, because a node is shared: the list
  operations change the \<open>next_\<close> field of nodes other structures hold. \<open>None\<close> is the
  kernel's \<open>null\<close>; dereferencing it is a \<open>Fault\<close>. A list embeds its head node, whose
  address is \<open>ls_null\<close>. \<open>lpath h p xs\<close> says that following \<open>next_\<close> from \<open>p\<close> visits the
  nodes \<open>xs\<close> and ends in null, and \<open>list_rep\<close> is the invariant of list.c over it.
\<close>

type_synonym addr = u32

record 'd node =
  nd_data :: "'d option"
  nd_next :: "addr option"

type_synonym 'd heap = "addr \<Rightarrow> 'd node"

record llist =
  ls_null :: addr
  ls_size :: u32

definition deref :: "string \<Rightarrow> addr option \<Rightarrow> addr res" where
  "deref what p = (case p of None \<Rightarrow> fault what | Some a \<Rightarrow> Inr a)"

lemma deref_simps [simp]: "deref what (Some a) = Inr a" "deref what None = fault what"
  by (simp_all add: deref_def)

definition set_next :: "'d heap \<Rightarrow> addr \<Rightarrow> addr option \<Rightarrow> 'd heap" where
  "set_next h a p = h(a := (h a)\<lparr>nd_next := p\<rparr>)"

lemma set_next_simps [simp]:
  "nd_next (set_next h a p a) = p"
  "b \<noteq> a \<Longrightarrow> set_next h a p b = h b"
  "nd_data (set_next h a p b) = nd_data (h b)"
  by (simp_all add: set_next_def)

lemma nd_next_set_next: "nd_next (set_next h a p b) = (if b = a then p else nd_next (h b))"
  by (simp add: set_next_def)

subsection \<open>Operations\<close>

definition node_set :: "'d heap \<Rightarrow> addr option \<Rightarrow> 'd option \<Rightarrow> addr option \<Rightarrow> 'd heap res" where
  "node_set h nd d nxt =
     nonnull ''node_set(): null pointer'' nd (\<lambda>n.
     Inr (h(n := \<lparr>nd_data = d, nd_next = nxt\<rparr>)))"

definition list_init :: "'d heap \<Rightarrow> llist option \<Rightarrow> bool \<Rightarrow> ('d heap \<times> llist) res" where
  "list_init h l cycle =
     nonnull ''list_init(): null pointer'' l (\<lambda>l.
     Inr (h(ls_null l := \<lparr>nd_data = None, nd_next = (if cycle then Some (ls_null l) else None)\<rparr>),
          l\<lparr>ls_size := 0\<rparr>))"

fun find_loop :: "'d heap \<Rightarrow> addr option \<Rightarrow> nat \<Rightarrow> addr option res" where
  "find_loop h p 0 = Inr p"
| "find_loop h p (Suc idx) =
     bindr (deref ''list_find(): null node'' p) (\<lambda>a. find_loop h (nd_next (h a)) idx)"

definition list_find :: "'d heap \<Rightarrow> llist option \<Rightarrow> u32 \<Rightarrow> addr option res" where
  "list_find h l idx =
     nonnull ''list_find(): null pointer'' l (\<lambda>l.
     if idx = -1 \<or> 0 > sint idx \<or> idx > ls_size l then panic ''list_find(): invalid idx''
     else find_loop h (Some (ls_null l)) (unat idx))"

definition list_insert :: "'d heap \<Rightarrow> llist option \<Rightarrow> addr option \<Rightarrow> u32 \<Rightarrow> ('d heap \<times> llist) res" where
  "list_insert h l nd idx =
     (case (l, nd) of
       (Some l, Some n) \<Rightarrow>
         if idx = -1 \<or> sint idx < 1 \<or> idx > ls_size l + 1
         then panic ''list_insert(): invalid idx''
         else
           bindr (list_find h (Some l) (idx - 1)) (\<lambda>f.
           bindr (deref ''list_insert(): null node'' f) (\<lambda>find.
           let h = set_next h n (nd_next (h find));
               h = set_next h find (Some n)
           in Inr (h, l\<lparr>ls_size := ls_size l + 1\<rparr>)))
     | _ \<Rightarrow> panic ''list_insert(): null pointer'')"

definition list_remove :: "'d heap \<Rightarrow> llist option \<Rightarrow> u32 \<Rightarrow> (addr \<times> 'd heap \<times> llist) res" where
  "list_remove h l idx =
     nonnull ''list_remove(): null pointer'' l (\<lambda>l.
     if idx = -1 \<or> sint idx < 1 \<or> idx > ls_size l then panic ''list_remove(): invalid idx''
     else
       bindr (list_find h (Some l) (idx - 1)) (\<lambda>f.
       bindr (deref ''list_remove(): null node'' f) (\<lambda>find.
       bindr (deref ''list_remove(): null node'' (nd_next (h find))) (\<lambda>removed.
       let h = set_next h find (nd_next (h removed));
           h = set_next h removed None
       in Inr (removed, h, l\<lparr>ls_size := ls_size l - 1\<rparr>)))))"

definition list_isempty :: "llist option \<Rightarrow> bool res" where
  "list_isempty l =
     nonnull ''list_isempty(): null pointer'' l (\<lambda>l. Inr (ls_size l = 0))"

text \<open>\<open>LSIDX_AFTAIL\<close>: the index behind the last element.\<close>

definition LSIDX_AFTAIL :: "llist \<Rightarrow> u32" where
  "LSIDX_AFTAIL l = ls_size l + 1"

subsection \<open>Paths in the heap\<close>

primrec lpath :: "'d heap \<Rightarrow> addr option \<Rightarrow> addr list \<Rightarrow> addr option \<Rightarrow> bool" where
  "lpath h p [] q \<longleftrightarrow> p = q"
| "lpath h p (x # xs) q \<longleftrightarrow> p = Some x \<and> lpath h (nd_next (h x)) xs q"

lemma lpath_append [simp]:
  "lpath h p (xs @ ys) q \<longleftrightarrow> (\<exists>r. lpath h p xs r \<and> lpath h r ys q)"
  by (induction xs arbitrary: p) simp_all

lemma lpath_frame: "(\<And>x. x \<in> set xs \<Longrightarrow> nd_next (h' x) = nd_next (h x)) \<Longrightarrow>
  lpath h' p xs q \<longleftrightarrow> lpath h p xs q"
  by (induction xs arbitrary: p) simp_all

lemma lpath_set_next_frame:
  "a \<notin> set xs \<Longrightarrow> lpath (set_next h a r) p xs q \<longleftrightarrow> lpath h p xs q"
  by (rule lpath_frame) (auto simp: nd_next_set_next)

lemma lpath_unique: "lpath h p xs None \<Longrightarrow> lpath h p ys None \<Longrightarrow> xs = ys"
proof (induction xs arbitrary: p ys)
  case Nil
  then show ?case by (cases ys) auto
next
  case (Cons x xs)
  then show ?case by (cases ys) auto
qed

lemma find_loop_lpath:
  "lpath h p (xs @ ys) q \<Longrightarrow> \<exists>r. find_loop h p (length xs) = Inr r \<and> lpath h p xs r \<and> lpath h r ys q"
  by (induction xs arbitrary: p) auto

subsection \<open>The list invariant\<close>

definition list_rep :: "'d heap \<Rightarrow> llist \<Rightarrow> addr list \<Rightarrow> bool" where
  "list_rep h l xs \<longleftrightarrow> lpath h (Some (ls_null l)) (ls_null l # xs) None
     \<and> distinct (ls_null l # xs) \<and> unat (ls_size l) = length xs \<and> length xs < 2147483647"

lemma list_rep_unique: "list_rep h l xs \<Longrightarrow> list_rep h l ys \<Longrightarrow> xs = ys"
  by (auto simp: list_rep_def intro: lpath_unique)

lemma list_init_rep: "\<exists>h' l'. list_init h (Some l) False = Inr (h', l') \<and> list_rep h' l' []"
  by (simp add: list_init_def list_rep_def)

lemma list_isempty_rep: "list_rep h l xs \<Longrightarrow> list_isempty (Some l) = Inr (xs = [])"
  by (auto simp: list_isempty_def list_rep_def unat_eq_0 [symmetric])

lemma small_index:
  assumes "n < 2147483648"
  shows "(word_of_nat n :: u32) \<noteq> -1" and "sint (word_of_nat n :: u32) = int n"
    and "unat (word_of_nat n :: u32) = n"
proof -
  show u: "unat (word_of_nat n :: u32) = n" using assms by (simp add: unat_word_of_nat_32)
  then show "sint (word_of_nat n :: u32) = int n" using assms by (metis sint_nonneg_32)
  show "(word_of_nat n :: u32) \<noteq> -1"
  proof
    assume "(word_of_nat n :: u32) = -1"
    then have "n = 4294967295" using u by (metis unat_minus_1_32)
    with assms show False by simp
  qed
qed

text \<open>Position \<open>i\<close> counts the head node as 0.\<close>

lemma list_find_rep:
  assumes "list_rep h l xs" and "i \<le> length xs"
  shows "list_find h (Some l) (word_of_nat i) = Inr (Some ((ls_null l # xs) ! i))"
proof -
  have split: "ls_null l # xs = take i (ls_null l # xs) @ drop i (ls_null l # xs)" by simp
  have len: "length (take i (ls_null l # xs)) = i" using assms(2) by simp
  have "lpath h (Some (ls_null l)) (take i (ls_null l # xs) @ drop i (ls_null l # xs)) None"
    using assms(1) by (simp only: list_rep_def append_take_drop_id)
  from find_loop_lpath [OF this] obtain r where
    r: "find_loop h (Some (ls_null l)) i = Inr r" "lpath h r (drop i (ls_null l # xs)) None"
    unfolding len by blast
  have "drop i (ls_null l # xs) = (ls_null l # xs) ! i # drop (Suc i) (ls_null l # xs)"
    using assms(2) by (intro Cons_nth_drop_Suc [symmetric]) simp
  with r(2) have "r = Some ((ls_null l # xs) ! i)" by simp
  moreover have "i < 2147483648" using assms by (simp add: list_rep_def)
  moreover from this have "\<not> word_of_nat i > ls_size l"
    using assms by (simp add: list_rep_def word_less_nat_alt small_index)
  ultimately show ?thesis using r(1) by (simp add: list_find_def small_index)
qed

subsection \<open>Insertion and removal\<close>

lemma split_at: "i < length zs \<Longrightarrow> zs = take i zs @ zs ! i # drop (Suc i) zs"
  by (simp add: id_take_nth_drop)

text \<open>
  The shape of a list around position \<open>i\<close>: the nodes before, the node found there, and
  the rest, which starts at its \<open>next_\<close>.
\<close>

lemma list_rep_at:
  assumes "list_rep h l xs" and "i \<le> length xs"
  defines "zs \<equiv> ls_null l # xs"
  shows "zs = take i zs @ zs ! i # drop i xs"
    and "lpath h (Some (ls_null l)) (take i zs) (Some (zs ! i))"
    and "lpath h (nd_next (h (zs ! i))) (drop i xs) None"
proof -
  show eq: "zs = take i zs @ zs ! i # drop i xs"
    using split_at [of i zs] assms(2) by (simp add: zs_def)
  have "lpath h (Some (ls_null l)) zs None" using assms(1) by (simp add: list_rep_def zs_def)
  then have "lpath h (Some (ls_null l)) (take i zs @ zs ! i # drop i xs) None" using eq by simp
  then show "lpath h (Some (ls_null l)) (take i zs) (Some (zs ! i))"
    and "lpath h (nd_next (h (zs ! i))) (drop i xs) None" by auto
qed

lemma list_insert_rep:
  assumes rep: "list_rep h l xs" and i: "i \<le> length xs" and len: "length xs < 2147483646"
    and fresh: "n \<notin> set (ls_null l # xs)"
  shows "\<exists>h' l'. list_insert h (Some l) (Some n) (word_of_nat (Suc i)) = Inr (h', l')
    \<and> list_rep h' l' (take i xs @ n # drop i xs) \<and> ls_null l' = ls_null l
    \<and> (\<forall>a. nd_data (h' a) = nd_data (h a))
    \<and> (\<forall>a. a \<notin> set (ls_null l # n # xs) \<longrightarrow> h' a = h a)"
proof -
  define zs where "zs = ls_null l # xs"
  define f where "f = zs ! i"
  note at = list_rep_at [OF rep i, folded zs_def f_def]
  have sz: "unat (ls_size l) = length xs" and dist: "distinct zs"
    using rep by (simp_all add: list_rep_def zs_def)
  have f: "f \<in> set zs" unfolding f_def by (rule nth_mem) (use i in \<open>simp add: zs_def\<close>)
  then have nf: "n \<noteq> f" using fresh by (auto simp: zs_def)
  let ?i = "word_of_nat (Suc i) :: u32"
  have ix: "?i \<noteq> -1" "sint ?i = int (Suc i)" "unat ?i = Suc i"
    using i len by (auto intro!: small_index simp del: of_nat_Suc)
  have "unat (ls_size l + 1) = length xs + 1" using sz len by (simp add: unat_add1_32)
  then have bound: "\<not> ?i > ls_size l + 1" using ix i by (simp add: word_less_nat_alt)
  have find: "list_find h (Some l) (?i - 1) = Inr (Some f)"
    using list_find_rep [OF rep i] by (simp add: f_def zs_def)
  define h' where "h' = set_next (set_next h n (nd_next (h f))) f (Some n)"
  define l' where "l' = l\<lparr>ls_size := ls_size l + 1\<rparr>"
  have run: "list_insert h (Some l) (Some n) ?i = Inr (h', l')"
    using ix bound find nf by (simp add: list_insert_def h'_def l'_def del: of_nat_Suc)
  have nd: "nd_next (h' a) = (if a = f then Some n else if a = n then nd_next (h f) else nd_next (h a))" for a
    by (simp add: h'_def nd_next_set_next)
  have out: "f \<notin> set (take i zs)" "n \<notin> set (take i zs)" "f \<notin> set (drop i xs)" "n \<notin> set (drop i xs)"
  proof -
    have "distinct (take i zs @ f # drop i xs)" using dist at(1) by simp
    then show "f \<notin> set (take i zs)" "f \<notin> set (drop i xs)" by simp_all
    show "n \<notin> set (take i zs)" "n \<notin> set (drop i xs)"
      using fresh by (auto simp: zs_def dest: in_set_takeD in_set_dropD)
  qed
  have "lpath h' (Some (ls_null l)) (take i zs @ f # n # drop i xs) None"
    using at(2,3) out nf by (auto simp: nd cong: lpath_frame)
      (metis (no_types, lifting) lpath_frame nd)+
  moreover have "take i zs @ f # n # drop i xs = ls_null l # take i xs @ n # drop i xs"
    using i by (cases i) (auto simp: zs_def f_def take_Suc_conv_app_nth)
  ultimately have "list_rep h' l' (take i xs @ n # drop i xs)"
    using rep fresh len sz i
    by (auto simp: list_rep_def l'_def unat_add1_32 dest: in_set_takeD in_set_dropD
        set_take_disj_set_drop_if_distinct)
  then show ?thesis
    using run f by (auto simp: h'_def l'_def zs_def set_next_def)
qed

lemma list_remove_rep:
  assumes rep: "list_rep h l xs" and i: "i < length xs"
  shows "\<exists>h' l'. list_remove h (Some l) (word_of_nat (Suc i)) = Inr (xs ! i, h', l')
    \<and> list_rep h' l' (take i xs @ drop (Suc i) xs) \<and> ls_null l' = ls_null l
    \<and> nd_next (h' (xs ! i)) = None
    \<and> (\<forall>a. nd_data (h' a) = nd_data (h a))
    \<and> (\<forall>a. a \<notin> set (ls_null l # xs) \<longrightarrow> h' a = h a)"
proof -
  define zs where "zs = ls_null l # xs"
  define f where "f = zs ! i"
  define r where "r = xs ! i"
  have i': "i \<le> length xs" using i by simp
  note at = list_rep_at [OF rep i', folded zs_def f_def]
  have sz: "unat (ls_size l) = length xs" and dist: "distinct zs"
    using rep by (simp_all add: list_rep_def zs_def)
  have dr: "drop i xs = r # drop (Suc i) xs" using i by (simp add: r_def Cons_nth_drop_Suc)
  have nx: "nd_next (h f) = Some r" and rest: "lpath h (nd_next (h r)) (drop (Suc i) xs) None"
    using at(3) by (simp_all add: dr)
  have zs: "zs = take i zs @ f # r # drop (Suc i) xs" using at(1) by (simp add: dr)
  then have d: "distinct (take i zs @ f # r # drop (Suc i) xs)" using dist by simp
  let ?i = "word_of_nat (Suc i) :: u32"
  have ix: "?i \<noteq> -1" "sint ?i = int (Suc i)" "unat ?i = Suc i"
    using i rep by (auto intro!: small_index simp: list_rep_def simp del: of_nat_Suc)
  have bound: "\<not> ?i > ls_size l" using ix i sz by (simp add: word_less_nat_alt)
  have find: "list_find h (Some l) (?i - 1) = Inr (Some f)"
    using list_find_rep [OF rep i'] by (simp add: f_def zs_def)
  define h' where "h' = set_next (set_next h f (nd_next (h r))) r None"
  define l' where "l' = l\<lparr>ls_size := ls_size l - 1\<rparr>"
  have rf: "r \<noteq> f" using d by auto
  have run: "list_remove h (Some l) ?i = Inr (r, h', l')"
    using ix bound find by (simp add: list_remove_def h'_def l'_def nx Let_def del: of_nat_Suc)
  have nd: "nd_next (h' a) = (if a = r then None else if a = f then nd_next (h r) else nd_next (h a))" for a
    by (simp add: h'_def nd_next_set_next)
  have fr: "lpath h' p ys q \<longleftrightarrow> lpath h p ys q" if "r \<notin> set ys" "f \<notin> set ys" for p ys q
    using that by (intro lpath_frame) (auto simp: nd)
  have "lpath h' (Some (ls_null l)) (take i zs @ f # drop (Suc i) xs) None"
    using at(2) rest d rf by (auto simp: fr nd)
  moreover have eq: "take i zs @ f # drop (Suc i) xs = ls_null l # take i xs @ drop (Suc i) xs"
    using i by (cases i) (auto simp: zs_def f_def take_Suc_conv_app_nth)
  ultimately have "lpath h' (Some (ls_null l)) (ls_null l # take i xs @ drop (Suc i) xs) None"
    by simp
  moreover have "distinct (ls_null l # take i xs @ drop (Suc i) xs)" using d by (simp flip: eq)
  moreover have "unat (ls_size l - 1) = length xs - 1" using sz i by (simp add: unat_sub_32)
  ultimately have "list_rep h' l' (take i xs @ drop (Suc i) xs)"
    using rep i by (simp add: list_rep_def l'_def less_imp_diff_less)
  moreover have "f \<in> set zs" "r \<in> set zs" by (subst zs, simp)+
  ultimately show ?thesis
    using run by (auto simp: h'_def l'_def zs_def r_def set_next_def)
qed

text \<open>Removing what was just inserted gives the list back.\<close>

lemma list_insert_remove:
  assumes rep: "list_rep h l xs" and i: "i \<le> length xs" and len: "length xs < 2147483646"
    and fresh: "n \<notin> set (ls_null l # xs)"
  shows "\<exists>h1 l1 h2 l2. list_insert h (Some l) (Some n) (word_of_nat (Suc i)) = Inr (h1, l1)
    \<and> list_remove h1 (Some l1) (word_of_nat (Suc i)) = Inr (n, h2, l2) \<and> list_rep h2 l2 xs"
proof -
  from list_insert_rep [OF assms] obtain h1 l1 where
    1: "list_insert h (Some l) (Some n) (word_of_nat (Suc i)) = Inr (h1, l1)"
       "list_rep h1 l1 (take i xs @ n # drop i xs)" by blast
  let ?ys = "take i xs @ n # drop i xs"
  have "length (take i xs) = i" using i by simp
  then have ys: "i < length ?ys" "?ys ! i = n" "take i ?ys @ drop (Suc i) ?ys = xs"
    using i by (simp_all add: nth_append)
  from list_remove_rep [OF 1(2) ys(1)] obtain h2 l2 where
    "list_remove h1 (Some l1) (word_of_nat (Suc i)) = Inr (n, h2, l2)" "list_rep h2 l2 xs"
    unfolding ys(2,3) by blast
  with 1(1) show ?thesis by blast
qed

lemma list_bad_index:
  assumes "list_rep h l xs"
  shows "i = 0 \<or> length xs + 1 < unat i \<Longrightarrow>
      list_insert h (Some l) (Some n) i = panic ''list_insert(): invalid idx''"
    and "i = 0 \<or> length xs < unat i \<Longrightarrow>
      list_remove h (Some l) i = panic ''list_remove(): invalid idx''"
    and "length xs < unat i \<Longrightarrow> list_find h (Some l) i = panic ''list_find(): invalid idx''"
proof -
  have "unat (ls_size l + 1) = length xs + 1" "unat (ls_size l) = length xs"
    using assms by (simp_all add: list_rep_def unat_add1_32)
  then show "i = 0 \<or> length xs + 1 < unat i \<Longrightarrow>
      list_insert h (Some l) (Some n) i = panic ''list_insert(): invalid idx''"
    and "i = 0 \<or> length xs < unat i \<Longrightarrow>
      list_remove h (Some l) i = panic ''list_remove(): invalid idx''"
    and "length xs < unat i \<Longrightarrow> list_find h (Some l) i = panic ''list_find(): invalid idx''"
    by (auto simp: list_insert_def list_remove_def list_find_def word_less_nat_alt)
qed

subsection \<open>Properties\<close>

text \<open>An empty list at address 16, for the witnesses.\<close>

definition ls_sample :: "nat heap \<times> llist" where
  "ls_sample = (\<lambda>_. \<lparr>nd_data = None, nd_next = None\<rparr>, \<lparr>ls_null = 16, ls_size = 0\<rparr>)"

lemma ls_sample_rep: "list_rep (fst ls_sample) (snd ls_sample) []"
  by (simp add: ls_sample_def list_rep_def)

text \<open>C24: on the heap, list_insert at index \<open>i + 1\<close> refines insertion at position \<open>i\<close> of the
  abstract list, keeps the list invariant and touches no node outside the list; list_remove at
  the same index then hands back that node and restores the abstract list.\<close>
theorem list_insert_remove_refine:
  assumes "list_rep h l xs" and "i \<le> length xs" and "length xs < 2147483646"
    and "n \<notin> set (ls_null l # xs)"
  shows "\<exists>h1 l1 h2 l2. list_insert h (Some l) (Some n) (word_of_nat (Suc i)) = Inr (h1, l1)
    \<and> list_rep h1 l1 (take i xs @ n # drop i xs)
    \<and> (\<forall>a. a \<notin> set (ls_null l # n # xs) \<longrightarrow> h1 a = h a)
    \<and> list_remove h1 (Some l1) (word_of_nat (Suc i)) = Inr (n, h2, l2) \<and> list_rep h2 l2 xs"
proof -
  from list_insert_rep [OF assms] obtain h1 l1 where
    1: "list_insert h (Some l) (Some n) (word_of_nat (Suc i)) = Inr (h1, l1)"
       "list_rep h1 l1 (take i xs @ n # drop i xs)"
       "\<forall>a. a \<notin> set (ls_null l # n # xs) \<longrightarrow> h1 a = h a" by blast
  with list_insert_remove [OF assms] show ?thesis by auto
qed

theorem list_insert_remove_refine_witness:
  "\<exists>h1 l1 h2 l2. list_insert (fst ls_sample) (Some (snd ls_sample)) (Some 32) (word_of_nat (Suc 0)) = Inr (h1, l1)
    \<and> list_rep h1 l1 (take 0 [] @ 32 # drop 0 [])
    \<and> (\<forall>a. a \<notin> set (ls_null (snd ls_sample) # 32 # []) \<longrightarrow> h1 a = fst ls_sample a)
    \<and> list_remove h1 (Some l1) (word_of_nat (Suc 0)) = Inr (32, h2, l2) \<and> list_rep h2 l2 []"
  by (rule list_insert_remove_refine [OF ls_sample_rep]) (simp_all add: ls_sample_def)

end
