(* ===== verification/Node_Queue.thy ===== *)
theory Node_Queue
  imports Node_List Interfaces
begin

section \<open>kern/utilities/queue.c: the queue\<close>

text \<open>
  The queue of list nodes: a head node embedded in the queue (\<open>q_null\<close>, where \<open>head_\<close>
  points from initialisation on) and a tail pointer. \<open>queue_rep h q xs\<close> is the
  invariant of the operations the kernel uses. Insertion at the head is modelled too;
  it does not keep the invariant, as the lemmas at the end show.
\<close>

record queue =
  q_null :: addr
  q_head :: addr
  q_tail :: addr

datatype enq_mth = TAIL | HEAD

subsection \<open>Operations\<close>

definition queue_init :: "'d heap \<Rightarrow> queue option \<Rightarrow> ('d heap \<times> queue) res" where
  "queue_init h q =
     nonnull ''queue_init(): null pointer'' q (\<lambda>q.
     Inr (h(q_null q := \<lparr>nd_data = None, nd_next = None\<rparr>),
          q\<lparr>q_head := q_null q, q_tail := q_null q\<rparr>))"

definition queue_isempty :: "queue option \<Rightarrow> bool res" where
  "queue_isempty q =
     nonnull ''queue_isempty(): null pointer'' q (\<lambda>q. Inr (q_head q = q_tail q))"

definition queue_push :: "'d heap \<Rightarrow> queue option \<Rightarrow> addr option \<Rightarrow> enq_mth \<Rightarrow> ('d heap \<times> queue) res" where
  "queue_push h q nd mth =
     (case (q, nd) of
       (Some q, Some n) \<Rightarrow>
         let h = set_next h n None in
         bindr (if mth = HEAD then bindr (queue_isempty (Some q)) (\<lambda>e. Inr (\<not> e)) else Inr False)
         (\<lambda>at_head.
         if at_head then
           bindr (deref ''queue_push(): null node'' (nd_next (h (q_head q)))) (\<lambda>fst.
           let h = set_next h n (nd_next (h fst));
               h = set_next h fst (Some n)
           in Inr (h, q))
         else Inr (set_next h (q_tail q) (Some n), q\<lparr>q_tail := n\<rparr>))
     | _ \<Rightarrow> panic ''queue_push(): null pointer'')"

definition queue_pop :: "'d heap \<Rightarrow> queue option \<Rightarrow> (addr option \<times> 'd heap \<times> queue) res" where
  "queue_pop h q =
     nonnull ''queue_pop(): null pointer'' q (\<lambda>q.
     bindr (queue_isempty (Some q)) (\<lambda>e.
     if e then Inr (None, h, q)
     else
       bindr (deref ''queue_pop(): null node'' (nd_next (h (q_head q)))) (\<lambda>del.
       let h = set_next h (q_head q) (nd_next (h del));
           h = set_next h del None;
           q = (if del = q_tail q then q\<lparr>q_tail := q_head q\<rparr> else q)
       in Inr (Some del, h, q))))"

definition queue_front :: "'d heap \<Rightarrow> queue option \<Rightarrow> addr option res" where
  "queue_front h q =
     nonnull ''queue_front(): null pointer'' q (\<lambda>q.
     bindr (queue_isempty (Some q)) (\<lambda>e.
     if e then Inr None else Inr (nd_next (h (q_head q)))))"

subsection \<open>Refinement to lists\<close>

definition queue_rep :: "'d heap \<Rightarrow> queue \<Rightarrow> addr list \<Rightarrow> bool" where
  "queue_rep h q xs \<longleftrightarrow> q_head q = q_null q \<and> q_tail q = last (q_null q # xs)
     \<and> lpath h (Some (q_null q)) (q_null q # xs) None \<and> distinct (q_null q # xs)"

lemma queue_rep_unique: "queue_rep h q xs \<Longrightarrow> queue_rep h q ys \<Longrightarrow> xs = ys"
  by (auto simp: queue_rep_def intro: lpath_unique)

lemma queue_init_rep: "\<exists>h' q'. queue_init h (Some q) = Inr (h', q') \<and> queue_rep h' q' []"
  by (simp add: queue_init_def queue_rep_def)

lemma queue_isempty_rep: "queue_rep h q xs \<Longrightarrow> queue_isempty (Some q) = Inr (xs = [])"
  by (cases xs rule: rev_cases) (auto simp: queue_isempty_def queue_rep_def)

lemma queue_front_rep:
  "queue_rep h q xs \<Longrightarrow> queue_front h (Some q) = Inr (case xs of [] \<Rightarrow> None | x # _ \<Rightarrow> Some x)"
  by (cases xs) (auto simp: queue_front_def queue_isempty_rep, auto simp: queue_rep_def)

lemma queue_push_rep:
  assumes rep: "queue_rep h q xs" and fresh: "n \<notin> set (q_null q # xs)"
    and mth: "mth = TAIL \<or> xs = []"
  shows "\<exists>h' q'. queue_push h (Some q) (Some n) mth = Inr (h', q') \<and> queue_rep h' q' (xs @ [n])
    \<and> q_null q' = q_null q \<and> (\<forall>a. nd_data (h' a) = nd_data (h a))
    \<and> (\<forall>a. a \<notin> set (q_null q # n # xs) \<longrightarrow> h' a = h a)"
proof -
  define t where "t = q_tail q"
  define h' where "h' = set_next (set_next h n None) t (Some n)"
  obtain ys where ys: "q_null q # xs = ys @ [t]"
    using rep by (metis append_butlast_last_id list.distinct(1) queue_rep_def t_def)
  have path: "lpath h (Some (q_null q)) (ys @ [t]) None" and d: "distinct (ys @ [t])"
    using rep ys by (simp_all only: queue_rep_def)
  have nf: "n \<noteq> t" "n \<notin> set ys" "t \<notin> set ys" using fresh d unfolding ys by auto
  have run: "queue_push h (Some q) (Some n) mth = Inr (h', q\<lparr>q_tail := n\<rparr>)"
    using mth queue_isempty_rep [OF rep]
    by (cases mth) (auto simp: queue_push_def h'_def t_def Let_def)
  have nd: "nd_next (h' a) = (if a = t then Some n else if a = n then None else nd_next (h a))" for a
    by (simp add: h'_def nd_next_set_next)
  have "lpath h' p ys r \<longleftrightarrow> lpath h p ys r" for p r
    using nf by (intro lpath_frame) (auto simp: nd)
  then have "lpath h' (Some (q_null q)) (ys @ [t] @ [n]) None" using path nf by (simp add: nd)
  moreover have "distinct (ys @ [t] @ [n])" using d nf by simp
  moreover have "ys @ [t] @ [n] = q_null q # xs @ [n]" using ys by (metis append_Cons append_assoc)
  ultimately have "lpath h' (Some (q_null q)) (q_null q # xs @ [n]) None"
    and "distinct (q_null q # xs @ [n])" by (simp_all only:)
  then have "queue_rep h' (q\<lparr>q_tail := n\<rparr>) (xs @ [n])"
    using rep by (simp add: queue_rep_def)
  moreover have "t \<in> set (q_null q # xs)" unfolding ys by simp
  ultimately show ?thesis using run by (auto simp: h'_def set_next_def)
qed

lemma queue_pop_rep:
  assumes rep: "queue_rep h q (x # xs)"
  shows "\<exists>h' q'. queue_pop h (Some q) = Inr (Some x, h', q') \<and> queue_rep h' q' xs
    \<and> q_null q' = q_null q \<and> nd_next (h' x) = None \<and> (\<forall>a. nd_data (h' a) = nd_data (h a))
    \<and> (\<forall>a. a \<notin> set (q_null q # x # xs) \<longrightarrow> h' a = h a)"
proof -
  define h' where "h' = set_next (set_next h (q_null q) (nd_next (h x))) x None"
  define q' where "q' = (if x = q_tail q then q\<lparr>q_tail := q_head q\<rparr> else q)"
  have r: "q_head q = q_null q" "q_tail q = last (x # xs)" "nd_next (h (q_null q)) = Some x"
    "lpath h (nd_next (h x)) xs None" "distinct (q_null q # x # xs)"
    using rep by (auto simp: queue_rep_def)
  have run: "queue_pop h (Some q) = Inr (Some x, h', q')"
    using r queue_isempty_rep [OF rep] by (simp add: queue_pop_def h'_def q'_def Let_def)
  have nd: "nd_next (h' a) = (if a = x then None else if a = q_null q then nd_next (h x) else nd_next (h a))" for a
    by (simp add: h'_def nd_next_set_next)
  have "lpath h' p xs None \<longleftrightarrow> lpath h p xs None" for p
    using r(5) by (intro lpath_frame) (auto simp: nd)
  moreover have "x = q_tail q \<longleftrightarrow> xs = []"
    using r(2,5) by (cases xs rule: rev_cases) auto
  ultimately have "queue_rep h' q' xs" using r by (auto simp: queue_rep_def q'_def nd)
  then show ?thesis using run by (auto simp: h'_def q'_def set_next_def)
qed

subsection \<open>The queue is first-in first-out\<close>

text \<open>
  The kernel's use of the queue: nodes enter with \<open>TAIL\<close>. There is room for nodes that
  are neither the head node nor already queued.
\<close>

definition qpush :: "addr \<Rightarrow> 'd heap \<times> queue \<Rightarrow> ('d heap \<times> queue) res" where
  "qpush n s = queue_push (fst s) (Some (snd s)) (Some n) TAIL"

definition qpop :: "'d heap \<times> queue \<Rightarrow> (addr option \<times> 'd heap \<times> queue) res" where
  "qpop s = queue_pop (fst s) (Some (snd s))"

interpretation qf: fifo qpush qpop "\<lambda>s xs. queue_rep (fst s) (snd s) xs"
  "\<lambda>s ys. distinct ys \<and> q_null (snd s) \<notin> set ys
     \<and> (\<forall>xs. queue_rep (fst s) (snd s) xs \<longrightarrow> set xs \<inter> set ys = {})"
proof (unfold_locales, goal_cases)
  case (1 s xs x)
  then have fresh: "x \<notin> set (q_null (snd s) # xs)" by auto
  obtain h' q' where p: "queue_push (fst s) (Some (snd s)) (Some x) TAIL = Inr (h', q')"
    "queue_rep h' q' (xs @ [x])" "q_null q' = q_null (snd s)"
    using queue_push_rep [OF 1(1) fresh, of TAIL] by auto
  have "queue_rep h' q' zs \<Longrightarrow> zs = xs @ [x]" for zs using p(2) by (auto dest: queue_rep_unique)
  with p 1 have "distinct ys \<and> q_null q' \<notin> set ys \<and> (\<forall>zs. queue_rep h' q' zs \<longrightarrow> set zs \<inter> set ys = {})"
    if "distinct (x # ys) \<and> q_null (snd s) \<notin> set (x # ys)
      \<and> (\<forall>xs. queue_rep (fst s) (snd s) xs \<longrightarrow> set xs \<inter> set (x # ys) = {})" for ys
    using that by fastforce
  with p show ?case by (intro exI [of _ "(h', q')"]) (simp add: qpush_def)
next
  case (2 s x ys)
  then show ?case by auto
next
  case (3 s x xs)
  then show ?case using queue_pop_rep [OF 3] by (auto simp: qpop_def)
next
  case (4 s)
  then show ?case using queue_isempty_rep [OF 4] by (simp add: qpop_def queue_pop_def)
qed

subsection \<open>Insertion at the head\<close>

text \<open>
  On a non-empty queue \<open>HEAD\<close> links the node behind the first one, not before it, and
  leaves the tail pointer alone. On a queue of one node the tail is then stale, and the
  next \<open>TAIL\<close> push unlinks the node again.
\<close>

lemma queue_push_head:
  assumes rep: "queue_rep h q (x # xs)" and fresh: "n \<notin> set (q_null q # x # xs)"
  shows "\<exists>h'. queue_push h (Some q) (Some n) HEAD = Inr (h', q)
    \<and> lpath h' (nd_next (h' (q_null q))) (x # n # xs) None"
proof -
  define h' where "h' = set_next (set_next (set_next h n None) n (nd_next (h x))) x (Some n)"
  have r: "q_head q = q_null q" "nd_next (h (q_null q)) = Some x"
    "lpath h (nd_next (h x)) xs None" "distinct (q_null q # x # xs)"
    using rep by (auto simp: queue_rep_def)
  have "queue_push h (Some q) (Some n) HEAD = Inr (h', q)"
    using r fresh queue_isempty_rep [OF rep]
    by (auto simp: queue_push_def h'_def Let_def nd_next_set_next)
  moreover have nd: "nd_next (h' a) = (if a = x then Some n else if a = n then nd_next (h x) else nd_next (h a))" for a
    by (simp add: h'_def nd_next_set_next)
  moreover have "lpath h' p xs None \<longleftrightarrow> lpath h p xs None" for p
    using r(4) fresh by (intro lpath_frame) (auto simp: nd)
  ultimately show ?thesis using r fresh by auto
qed

lemma queue_push_head_stale_tail:
  assumes rep: "queue_rep h q [x]" and fresh: "distinct [q_null q, x, n, m]"
  shows "\<exists>h1 h2 q2. queue_push h (Some q) (Some n) HEAD = Inr (h1, q)
    \<and> queue_push h1 (Some q) (Some m) TAIL = Inr (h2, q2) \<and> queue_rep h2 q2 [x, m]"
proof -
  define h1 where "h1 = set_next (set_next (set_next h n None) n (nd_next (h x))) x (Some n)"
  define h2 where "h2 = set_next (set_next h1 m None) x (Some m)"
  have r: "q_head q = q_null q" "q_tail q = x" "nd_next (h (q_null q)) = Some x" "nd_next (h x) = None"
    using rep by (auto simp: queue_rep_def)
  have "queue_push h (Some q) (Some n) HEAD = Inr (h1, q)"
    using r fresh queue_isempty_rep [OF rep]
    by (auto simp: queue_push_def h1_def Let_def nd_next_set_next)
  moreover have "queue_push h1 (Some q) (Some m) TAIL = Inr (h2, q\<lparr>q_tail := m\<rparr>)"
    using r by (simp add: queue_push_def h2_def Let_def)
  moreover have "queue_rep h2 (q\<lparr>q_tail := m\<rparr>) [x, m]"
    using r fresh by (auto simp: queue_rep_def h1_def h2_def nd_next_set_next)
  ultimately show ?thesis by blast
qed

subsection \<open>Properties\<close>

text \<open>An empty queue with its head node at 16, for the witnesses.\<close>

definition q_sample :: "nat heap \<times> queue" where
  "q_sample = (\<lambda>_. \<lparr>nd_data = None, nd_next = None\<rparr>, \<lparr>q_null = 16, q_head = 16, q_tail = 16\<rparr>)"

lemma q_sample_rep: "queue_rep (fst q_sample) (snd q_sample) []"
  by (simp add: q_sample_def queue_rep_def)

lemma q_sample_unique: "queue_rep (fst q_sample) (snd q_sample) xs \<Longrightarrow> xs = []"
  using q_sample_rep by (metis queue_rep_unique)

text \<open>C23: queue.c is first-in first-out: pushing any distinct nodes with TAIL onto a queue and then
  popping as many nodes as it holds yields the nodes it held followed by the pushed ones, in
  order, and leaves it empty.\<close>
theorem queue_fifo:
  assumes "queue_rep h q xs" and "distinct ys" and "q_null q \<notin> set ys" and "set xs \<inter> set ys = {}"
  shows "\<exists>s' s''. enq_all qpush ys (h, q) = Inr s'
    \<and> deq_many qpop (length (xs @ ys)) s' = Inr (xs @ ys, s'') \<and> queue_rep (fst s'') (snd s'') []"
proof (rule qf.in_order)
  show "queue_rep (fst (h, q)) (snd (h, q)) xs" using assms(1) by simp
  have "queue_rep h q zs \<Longrightarrow> zs = xs" for zs using assms(1) by (metis queue_rep_unique)
  then show "distinct ys \<and> q_null (snd (h, q)) \<notin> set ys
      \<and> (\<forall>zs. queue_rep (fst (h, q)) (snd (h, q)) zs \<longrightarrow> set zs \<inter> set ys = {})"
    using assms(2-4) by auto
qed

theorem queue_fifo_witness:
  "\<exists>s' s''. enq_all qpush [32, 48] (fst q_sample, snd q_sample) = Inr s'
    \<and> deq_many qpop (length ([] @ [32, 48 :: addr])) s' = Inr ([] @ [32, 48], s'')
    \<and> queue_rep (fst s'') (snd s'') []"
  by (rule queue_fifo [OF q_sample_rep]) (simp_all add: q_sample_def)

text \<open>Insertion at the HEAD of a queue that holds one node links the new node behind that node
  and leaves the tail pointer where it was, so the next TAIL push overwrites the link: the
  queue then holds the first node and the last pushed one, and the node inserted at the head is lost.\<close>
theorem queue_head_push_loses_node:
  assumes "queue_rep h q [x]" and "distinct [q_null q, x, n, m]"
  shows "\<exists>h1 h2 q2. queue_push h (Some q) (Some n) HEAD = Inr (h1, q)
    \<and> queue_push h1 (Some q) (Some m) TAIL = Inr (h2, q2) \<and> queue_rep h2 q2 [x, m]"
  using assms by (rule queue_push_head_stale_tail)

definition q_sample1 :: "nat heap \<times> queue" where
  "q_sample1 = ((\<lambda>_. \<lparr>nd_data = None, nd_next = None\<rparr>)(16 := \<lparr>nd_data = None, nd_next = Some 32\<rparr>),
     \<lparr>q_null = 16, q_head = 16, q_tail = 32\<rparr>)"

theorem queue_head_push_loses_node_witness:
  "\<exists>h1 h2 q2. queue_push (fst q_sample1) (Some (snd q_sample1)) (Some 48) HEAD = Inr (h1, snd q_sample1)
    \<and> queue_push h1 (Some (snd q_sample1)) (Some 64) TAIL = Inr (h2, q2) \<and> queue_rep h2 q2 [32, 64]"
  by (rule queue_head_push_loses_node) (simp_all add: q_sample1_def queue_rep_def)

end
