(* ===== verification/Circular_Buffer.thy ===== *)
theory Circular_Buffer
  imports Spinlock Interfaces
begin

section \<open>kern/utilities/circular_buffer.c: the ring buffer\<close>

text \<open>
  The bounded byte queue between the keyboard interrupt (producer) and the reading
  thread (consumer). The scheduler appears through two parameters: \<open>wakeup\<close>, the call
  that makes sleepers runnable, a change of the scheduler's state \<open>'w\<close>; and \<open>sleep\<close>,
  which is what the other threads do to the buffer from the moment this thread gives up
  the processor until it runs again. The allocation of the two memory blocks by
  dyn_alloc and their release are in theory Startup: \<open>cclbuff_alloc\<close> is given them.
\<close>

record cclbuff =
  capacity :: u32
  ring :: "byte list"
  rhead :: u32
  rtail :: u32
  slock :: spinlock

definition cclbuff_alloc :: "u32 \<Rightarrow> byte list \<Rightarrow> cclbuff" where
  "cclbuff_alloc cap mem = \<lparr>capacity = cap, ring = mem, rhead = 0, rtail = 0, slock = unlocked\<rparr>"

definition cclbuff_isempty :: "cclbuff \<Rightarrow> bool" where
  "cclbuff_isempty b \<longleftrightarrow> rhead b = rtail b"

definition cclbuff_isfull :: "cclbuff \<Rightarrow> bool" where
  "cclbuff_isfull b \<longleftrightarrow> (rhead b + 1) mod capacity b = rtail b"

definition cclbuff_put ::
  "('w \<Rightarrow> 'w res) \<Rightarrow> 'w \<Rightarrow> cclbuff option \<Rightarrow> byte \<Rightarrow> (bool \<times> 'w \<times> cclbuff) res" where
  "cclbuff_put wakeup w b c =
     nonnull ''cclbuff_put(): null pointer'' b (\<lambda>b.
     if cclbuff_isfull b then Inr (False, w, b)
     else
       bindr (write_at ''cclbuff_put()'' (ring b) (sint (rhead b)) c) (\<lambda>r.
       bindr (wakeup w) (\<lambda>w.
       Inr (True, w, b\<lparr>ring := r, rhead := (rhead b + 1) mod capacity b\<rparr>))))"

definition cclbuff_get ::
  "(cclbuff \<Rightarrow> cclbuff res) \<Rightarrow> cclbuff option \<Rightarrow> (byte \<times> cclbuff) res" where
  "cclbuff_get sleep b =
     nonnull ''cclbuff_get(): null pointer'' b (\<lambda>b.
     bindr (if cclbuff_isempty b
            then bindr (wait (slock b)) (\<lambda>l.
                 bindr (sleep (b\<lparr>slock := l\<rparr>)) (\<lambda>b.
                 Inr (b\<lparr>slock := signal (slock b)\<rparr>)))
            else Inr b) (\<lambda>b.
     bindr (read_at ''cclbuff_get()'' (ring b) (sint (rtail b))) (\<lambda>ch.
     Inr (ch, b\<lparr>rtail := (rtail b + 1) mod capacity b\<rparr>))))"

subsection \<open>Refinement to a bounded list\<close>

definition ring_len :: "cclbuff \<Rightarrow> nat" where
  "ring_len b = (unat (rhead b) + unat (capacity b) - unat (rtail b)) mod unat (capacity b)"

definition ring_wf :: "cclbuff \<Rightarrow> bool" where
  "ring_wf b \<longleftrightarrow> 0 < unat (capacity b) \<and> unat (capacity b) < 2147483648
     \<and> length (ring b) = unat (capacity b)
     \<and> unat (rhead b) < unat (capacity b) \<and> unat (rtail b) < unat (capacity b)"

definition ring_rep :: "cclbuff \<Rightarrow> byte list \<Rightarrow> bool" where
  "ring_rep b xs \<longleftrightarrow> ring_wf b \<and> length xs = ring_len b
     \<and> (\<forall>k < length xs. xs ! k = ring b ! ((unat (rtail b) + k) mod unat (capacity b)))"

lemma ring_rep_unique: "ring_rep b xs \<Longrightarrow> ring_rep b ys \<Longrightarrow> xs = ys"
  by (auto simp: ring_rep_def intro: nth_equalityI)

lemma ring_rep_ex: "ring_wf b \<Longrightarrow>
  ring_rep b (map (\<lambda>k. ring b ! ((unat (rtail b) + k) mod unat (capacity b))) [0..<ring_len b])"
  by (simp add: ring_rep_def)

lemma ring_step:
  assumes "ring_wf b" and "unat i < unat (capacity b)"
  shows "unat ((i + 1) mod capacity b) = (unat i + 1) mod unat (capacity b)"
    and "sint i = int (unat i)"
proof -
  have "unat (i + 1) = unat i + 1" using assms by (intro unat_add1_32) (auto simp: ring_wf_def)
  then show "unat ((i + 1) mod capacity b) = (unat i + 1) mod unat (capacity b)"
    by (simp add: unat_mod)
  show "sint i = int (unat i)" using assms by (intro sint_nonneg_32) (simp add: ring_wf_def)
qed

lemma ring_len_less: "ring_wf b \<Longrightarrow> ring_len b < unat (capacity b)"
  by (simp add: ring_len_def ring_wf_def)

lemma ring_head: "ring_wf b \<Longrightarrow>
  (unat (rtail b) + ring_len b) mod unat (capacity b) = unat (rhead b)"
proof -
  assume wf: "ring_wf b"
  let ?c = "unat (capacity b)" and ?h = "unat (rhead b)" and ?t = "unat (rtail b)"
  have "(?t + ring_len b) mod ?c = (?t + (?h + ?c - ?t)) mod ?c"
    by (simp add: ring_len_def mod_add_right_eq)
  also have "?t + (?h + ?c - ?t) = ?h + ?c" using wf by (simp add: ring_wf_def)
  finally show ?thesis using wf by (simp add: ring_wf_def)
qed

lemma ring_len_cases:
  assumes "h < c" and "t < (c::nat)"
  shows "(h + c - t) mod c = (if t \<le> h then h - t else h + c - t)"
proof (cases "t \<le> h")
  case True
  then have "h + c - t = h - t + c" by simp
  then show ?thesis using True assms by (metis mod_add_self2 mod_less less_imp_diff_less)
qed (use assms in simp)

lemma succ_mod_cases: "i < c \<Longrightarrow> (i + 1) mod c = (if i + 1 = c then 0 else i + (1::nat))"
  by auto

lemma ring_full_iff:
  assumes wf: "ring_wf b"
  shows "cclbuff_isfull b \<longleftrightarrow> ring_len b + 1 = unat (capacity b)"
proof -
  let ?c = "unat (capacity b)" and ?h = "unat (rhead b)" and ?t = "unat (rtail b)"
  have b: "?h < ?c" "?t < ?c" using wf by (simp_all add: ring_wf_def)
  have "cclbuff_isfull b \<longleftrightarrow> (?h + 1) mod ?c = ?t"
    using ring_step(1) [OF wf b(1)] by (metis cclbuff_isfull_def word_unat_eq_iff)
  also have "\<dots> \<longleftrightarrow> ring_len b + 1 = ?c"
    unfolding ring_len_def ring_len_cases [OF b] succ_mod_cases [OF b(1)] using b by auto
  finally show ?thesis .
qed

lemma ring_empty_iff:
  assumes wf: "ring_wf b"
  shows "cclbuff_isempty b \<longleftrightarrow> ring_len b = 0"
proof -
  let ?c = "unat (capacity b)" and ?h = "unat (rhead b)" and ?t = "unat (rtail b)"
  have b: "?h < ?c" "?t < ?c" using wf by (simp_all add: ring_wf_def)
  have "cclbuff_isempty b \<longleftrightarrow> ?h = ?t" by (simp add: cclbuff_isempty_def word_unat_eq_iff)
  then show ?thesis unfolding ring_len_def ring_len_cases [OF b] using b by auto
qed

lemma ring_len_put:
  assumes "h < c" and "t < (c::nat)" and "(h + c - t) mod c + 1 < c"
  shows "((h + 1) mod c + c - t) mod c = Suc ((h + c - t) mod c)"
proof -
  have l: "(h + 1) mod c < c" using assms by simp
  show ?thesis
  proof (cases "h + 1 = c")
    case True
    then have z: "(h + 1) mod c = 0" and c: "0 < c" by simp_all
    show ?thesis
      using assms True unfolding z ring_len_cases [OF assms(1,2)] ring_len_cases [OF c assms(2)]
      by (auto split: if_splits)
  next
    case False
    then have s: "(h + 1) mod c = h + 1" and hc: "h + 1 < c" using assms by simp_all
    show ?thesis
      using assms(2,3) hc unfolding s ring_len_cases [OF assms(1,2)] ring_len_cases [OF hc assms(2)]
      by (auto split: if_splits)
  qed
qed

lemma ring_len_get:
  assumes "h < c" and "t < (c::nat)"
  shows "(h + c - (t + 1) mod c) mod c = (if h = t then c - 1 else (h + c - t) mod c - 1)"
proof -
  have l: "(t + 1) mod c < c" using assms by simp
  show ?thesis
  proof (cases "t + 1 = c")
    case True
    then have z: "(t + 1) mod c = 0" by simp
    show ?thesis unfolding z ring_len_cases [OF assms] using assms True by auto
  next
    case False
    then have s: "(t + 1) mod c = t + 1" and tc: "t + 1 < c" using assms by simp_all
    show ?thesis unfolding s ring_len_cases [OF assms] ring_len_cases [OF assms(1) tc]
      using assms by simp
  qed
qed

lemma ring_rep_alloc:
  "0 < unat cap \<Longrightarrow> unat cap < 2147483648 \<Longrightarrow> length mem = unat cap \<Longrightarrow>
   ring_rep (cclbuff_alloc cap mem) []"
  by (simp add: ring_rep_def ring_wf_def ring_len_def cclbuff_alloc_def)

lemma put_full:
  "ring_rep b xs \<Longrightarrow> length xs + 1 = unat (capacity b) \<Longrightarrow>
   cclbuff_put wakeup w (Some b) c = Inr (False, w, b)"
  using ring_full_iff [of b] by (simp add: cclbuff_put_def ring_rep_def)

lemma put_rep:
  assumes rep: "ring_rep b xs" and room: "length xs + 1 < unat (capacity b)"
    and wk: "wakeup w = Inr w'"
  shows "\<exists>b'. cclbuff_put wakeup w (Some b) c = Inr (True, w', b') \<and> ring_rep b' (xs @ [c])
    \<and> capacity b' = capacity b \<and> slock b' = slock b"
proof -
  let ?c = "unat (capacity b)" and ?h = "unat (rhead b)" and ?t = "unat (rtail b)"
  have wf: "ring_wf b" and len: "length xs = ring_len b" using rep by (simp_all add: ring_rep_def)
  have b: "?h < ?c" "?t < ?c" "?h < length (ring b)" using wf by (simp_all add: ring_wf_def)
  note st = ring_step [OF wf b(1)]
  define b' where "b' = b\<lparr>ring := (ring b)[?h := c], rhead := (rhead b + 1) mod capacity b\<rparr>"
  have "\<not> cclbuff_isfull b" using ring_full_iff [OF wf] room len by simp
  then have run: "cclbuff_put wakeup w (Some b) c = Inr (True, w', b')"
    using b(3) wk unfolding cclbuff_put_def b'_def nonnull_simps st(2) by (simp only: write_at_nat) simp
  have wf': "ring_wf b'" using wf st(1) by (simp add: ring_wf_def b'_def)
  have len': "ring_len b' = Suc (length xs)"
    using room ring_len_put [OF b(1,2)] unfolding len ring_len_def
    by (simp add: b'_def st(1))
  have "(?t + k) mod ?c \<noteq> ?h" if "k < length xs" for k
  proof
    assume e: "(?t + k) mod ?c = ?h"
    have "(?t + k) mod ?c = (if ?t + k < ?c then ?t + k else ?t + k - ?c)"
      using that room b(2) by (simp add: le_mod_geq)
    with e show False
      using that b unfolding len ring_len_def ring_len_cases [OF b(1,2)] by (auto split: if_splits)
  qed
  then have "ring_rep b' (xs @ [c])"
    using rep wf' len' ring_head [OF wf] b(3)
    by (auto simp: ring_rep_def nth_append len b'_def less_Suc_eq nth_list_update_neq [OF not_sym])
  with run show ?thesis by (auto simp: b'_def)
qed

lemma get_rep:
  assumes rep: "ring_rep b (x # xs)"
  shows "\<exists>b'. cclbuff_get sleep (Some b) = Inr (x, b') \<and> ring_rep b' xs
    \<and> capacity b' = capacity b \<and> slock b' = slock b"
proof -
  let ?c = "unat (capacity b)" and ?h = "unat (rhead b)" and ?t = "unat (rtail b)"
  have wf: "ring_wf b" and len: "Suc (length xs) = ring_len b" using rep by (simp_all add: ring_rep_def)
  have b: "?h < ?c" "?t < ?c" "?t < length (ring b)" using wf by (simp_all add: ring_wf_def)
  note st = ring_step [OF wf b(2)]
  define b' where "b' = b\<lparr>rtail := (rtail b + 1) mod capacity b\<rparr>"
  have x: "ring b ! ?t = x" using rep b(2) unfolding ring_rep_def by (metis add_0_right length_greater_0_conv list.distinct(1) mod_less nth_Cons_0)
  have "\<not> cclbuff_isempty b" using ring_empty_iff [OF wf] len by simp
  then have run: "cclbuff_get sleep (Some b) = Inr (x, b')"
    using b(3) x unfolding cclbuff_get_def b'_def nonnull_simps st(2) by (simp add: st(2))
  have wf': "ring_wf b'" using wf st(1) by (simp add: ring_wf_def b'_def)
  have len': "ring_len b' = length xs"
    using ring_len_get [OF b(1,2)] len unfolding ring_len_def
    by (auto simp: b'_def st(1) split: if_splits)
  have "xs ! k = ring b ! ((?t + Suc k) mod ?c)" if "k < length xs" for k
    using rep that unfolding ring_rep_def by (metis Suc_less_eq length_Cons nth_Cons_Suc)
  then have "ring_rep b' xs"
    using wf' len' by (auto simp: ring_rep_def b'_def st(1) mod_simps)
  with run show ?thesis by (auto simp: b'_def)
qed

subsection \<open>First in, first out\<close>

text \<open>
  The buffer as the reader and the writer use it when neither has to block: a put that is
  refused because the buffer is full does not count as an insertion, and a get is issued
  only on a non-empty buffer.
\<close>

definition ring_enq :: "byte \<Rightarrow> cclbuff \<Rightarrow> cclbuff res" where
  "ring_enq c b = bindr (cclbuff_put Inr () (Some b) c) (\<lambda>(_, _, b). Inr b)"

definition ring_deq :: "cclbuff \<Rightarrow> (byte option \<times> cclbuff) res" where
  "ring_deq b =
     (if cclbuff_isempty b then Inr (None, b)
      else bindr (cclbuff_get Inr (Some b)) (\<lambda>(c, b). Inr (Some c, b)))"

interpretation rf: fifo ring_enq ring_deq ring_rep
  "\<lambda>b ys. \<forall>xs. ring_rep b xs \<longrightarrow> length xs + length ys < unat (capacity b)"
proof (unfold_locales, goal_cases)
  case (1 b xs x)
  then have "length xs + 1 < unat (capacity b)" by force
  from put_rep [OF 1(1) this, of Inr "()"] obtain b' where
    p: "cclbuff_put Inr () (Some b) x = Inr (True, (), b')" "ring_rep b' (xs @ [x])"
      "capacity b' = capacity b" by auto
  have "length zs + length ys < unat (capacity b')"
    if "\<forall>xs. ring_rep b xs \<longrightarrow> length xs + length (x # ys) < unat (capacity b)" "ring_rep b' zs" for ys zs
    using that p 1(1) ring_rep_unique [OF that(2) p(2)] by fastforce
  with p show ?case by (intro exI [of _ b']) (simp add: ring_enq_def)
next
  case (2 b x ys)
  then show ?case by fastforce
next
  case (3 b x xs)
  then have "\<not> cclbuff_isempty b" using ring_empty_iff [of b] by (auto simp: ring_rep_def)
  with get_rep [OF 3, of Inr] show ?case by (auto simp: ring_deq_def)
next
  case (4 b)
  then have "cclbuff_isempty b" using ring_empty_iff [of b] by (auto simp: ring_rep_def)
  then show ?case by (simp add: ring_deq_def)
qed

subsection \<open>Blocking on an empty buffer\<close>

text \<open>
  The emptiness test is an \<open>if\<close>, not a loop: cclbuff_get is right when the sleep returns
  only after a put, and it hands out a stale byte when it returns on an empty buffer. In
  that case the tail passes the head, and the buffer then claims to be full.
\<close>

lemma get_blocks_rep:
  assumes rep: "ring_rep b []" and lk: "slock b = unlocked"
    and env: "sleep (b\<lparr>slock := \<lparr>islock = 1\<rparr>\<rparr>) = Inr b1" "ring_rep b1 (x # xs)"
  shows "\<exists>b'. cclbuff_get sleep (Some b) = Inr (x, b') \<and> ring_rep b' xs \<and> slock b' = unlocked"
proof -
  let ?b1 = "b1\<lparr>slock := unlocked\<rparr>"
  have r1: "ring_rep ?b1 (x # xs)" using env(2) by (simp add: ring_rep_def ring_wf_def ring_len_def)
  then have ne: "\<not> cclbuff_isempty ?b1" using ring_empty_iff [of ?b1] by (auto simp: ring_rep_def)
  have "cclbuff_isempty b" using rep ring_empty_iff [of b] by (simp add: ring_rep_def)
  then have "cclbuff_get sleep (Some b) = cclbuff_get sleep (Some ?b1)"
    using ne lk env(1) by (simp add: cclbuff_get_def)
  with get_rep [OF r1, of sleep] show ?thesis by auto
qed

lemma get_spurious:
  assumes rep: "ring_rep b []" and lk: "slock b = unlocked"
    and env: "sleep (b\<lparr>slock := \<lparr>islock = 1\<rparr>\<rparr>) = Inr (b\<lparr>slock := \<lparr>islock = 1\<rparr>\<rparr>)"
  shows "\<exists>b' ys. cclbuff_get sleep (Some b) = Inr (ring b ! unat (rtail b), b')
    \<and> ring_rep b' ys \<and> length ys + 1 = unat (capacity b) \<and> cclbuff_isfull b'"
proof -
  have wf: "ring_wf b" using rep by (simp add: ring_rep_def)
  let ?c = "unat (capacity b)" and ?h = "unat (rhead b)" and ?t = "unat (rtail b)"
  have b: "?h < ?c" "?t < ?c" "?t < length (ring b)" using wf by (simp_all add: ring_wf_def)
  note st = ring_step [OF wf b(2)]
  have e: "cclbuff_isempty b" using rep ring_empty_iff [of b] by (simp add: ring_rep_def)
  then have ht: "rhead b = rtail b" by (simp add: cclbuff_isempty_def)
  define b' where "b' = b\<lparr>slock := unlocked, rtail := (rtail b + 1) mod capacity b\<rparr>"
  have run: "cclbuff_get sleep (Some b) = Inr (ring b ! ?t, b')"
    using e lk env b(3) by (simp add: cclbuff_get_def b'_def st(2))
  have wf': "ring_wf b'" using wf st(1) by (simp add: ring_wf_def b'_def)
  have "ring_len b' + 1 = ?c"
    using b ring_len_get [OF b(2,2)] unfolding ring_len_def by (simp add: b'_def st(1) ht)
  moreover from this have "cclbuff_isfull b'" using ring_full_iff [OF wf'] by (simp add: b'_def)
  ultimately show ?thesis using run ring_rep_ex [OF wf'] by auto
qed

subsection \<open>Properties\<close>

definition ring_sample :: cclbuff where
  "ring_sample = cclbuff_alloc 4 [0, 0, 0, 0]"

lemma ring_sample_rep: "ring_rep ring_sample []" "ring_rep ring_sample xs \<Longrightarrow> xs = []"
proof -
  show r: "ring_rep ring_sample []" unfolding ring_sample_def by (rule ring_rep_alloc) simp_all
  show "ring_rep ring_sample xs \<Longrightarrow> xs = []" using ring_rep_unique [OF r] by auto
qed

text \<open>The ring buffer is a bounded first-in first-out queue: as long as fewer bytes are stored
  than its capacity less one, every put is accepted, and gets deliver all bytes in the order they
  were put; a put on a buffer that holds capacity - 1 bytes is refused and changes nothing.\<close>
theorem ring_bounded_fifo:
  assumes "ring_rep b xs"
  shows "length xs < unat (capacity b)
    \<and> (length xs + length ys < unat (capacity b) \<longrightarrow> (\<exists>b' b''. enq_all ring_enq ys b = Inr b'
        \<and> deq_many ring_deq (length (xs @ ys)) b' = Inr (xs @ ys, b'') \<and> ring_rep b'' []))
    \<and> (length xs + 1 = unat (capacity b) \<longrightarrow> cclbuff_put wakeup w (Some b) c = Inr (False, w, b))"
proof (intro conjI impI)
  have u: "ring_rep b zs \<Longrightarrow> zs = xs" for zs using assms by (metis ring_rep_unique)
  show "\<exists>b' b''. enq_all ring_enq ys b = Inr b'
      \<and> deq_many ring_deq (length (xs @ ys)) b' = Inr (xs @ ys, b'') \<and> ring_rep b'' []"
    if "length xs + length ys < unat (capacity b)"
    by (rule rf.in_order [OF assms]) (use that in \<open>auto dest: u\<close>)
  show "cclbuff_put wakeup w (Some b) c = Inr (False, w, b)" if "length xs + 1 = unat (capacity b)"
    using assms that by (rule put_full)
  show "length xs < unat (capacity b)" using assms ring_len_less by (simp add: ring_rep_def)
qed

theorem ring_bounded_fifo_witness:
  "\<exists>b' b''. enq_all ring_enq [7, 8, 9] ring_sample = Inr b'
      \<and> deq_many ring_deq (length ([] @ [7, 8, 9 :: byte])) b' = Inr ([] @ [7, 8, 9], b'') \<and> ring_rep b'' []"
  using ring_bounded_fifo [OF ring_sample_rep(1), of "[7, 8, 9]" Inr "()" 0]
  by (simp add: ring_sample_def cclbuff_alloc_def)

text \<open>Cclbuff_get on an empty buffer is right only when its sleep returns after a put. If the
  sleep returns with the buffer still empty, the byte handed out is the stale one under the tail,
  and the buffer is full of stale bytes afterwards.\<close>
theorem ring_get_spurious_wakeup:
  assumes "ring_rep b []" and "slock b = unlocked"
  shows "\<exists>b' ys. cclbuff_get Inr (Some b) = Inr (ring b ! unat (rtail b), b')
    \<and> ring_rep b' ys \<and> length ys + 1 = unat (capacity b) \<and> cclbuff_isfull b'"
  using assms by (intro get_spurious) simp_all

theorem ring_get_spurious_wakeup_witness:
  "\<exists>b' ys. cclbuff_get Inr (Some ring_sample) = Inr (ring ring_sample ! unat (rtail ring_sample), b')
    \<and> ring_rep b' ys \<and> length ys + 1 = unat (capacity ring_sample) \<and> cclbuff_isfull b'"
  by (rule ring_get_spurious_wakeup [OF ring_sample_rep(1)]) (simp add: ring_sample_def cclbuff_alloc_def)

end
