(* ===== verification/Phys_Mem.thy ===== *)
theory Phys_Mem
  imports Bitmap Spinlock
begin

section \<open>kern/module/mem.c, kern/mem/pm.c and vm_kern.c: pages\<close>

text \<open>
  The memory map the boot sector collected, the allocator of physical pages over it and
  the allocator of kernel metadata pages (the virtual pages from \<open>KERN_METADATA\<close> up).
  Both allocators are a spinlock and a bitmap; bit \<open>i\<close> stands for the page \<open>page_at base i\<close>.
  The static bitmap buffers start zeroed, as C requires.
\<close>

definition MM_BASE :: u32 where "MM_BASE = 0x100000"
definition KERN_METADATA :: u32 where "KERN_METADATA = 0xf0000000"
definition PG_MASK :: u32 where "PG_MASK = 0xfffff000"
definition MB4 :: u32 where "MB4 = 0x400000"
definition PGSIZE :: u32 where "PGSIZE = 4096"

lemmas mem_consts = MM_BASE_def KERN_METADATA_def PG_MASK_def MB4_def PGSIZE_def

subsection \<open>The memory map\<close>

record ards =
  base_low :: u32
  base_hig :: u32
  length_low :: u32
  length_hig :: u32
  ards_type :: u32

record mminfo =
  mm_base :: u32
  mm_length :: u32

fun mminfo_loop :: "ards list \<Rightarrow> mminfo \<Rightarrow> mminfo" where
  "mminfo_loop [] mm = mm"
| "mminfo_loop (a # ards) mm =
     mminfo_loop ards
       (if ards_type a = 1 \<and> base_low a = mm_base mm + mm_length mm
        then mm\<lparr>mm_length := mm_length mm + length_low a\<rparr> else mm)"

definition get_mminfo :: "ards list \<Rightarrow> mminfo res" where
  "get_mminfo ards =
     (let mm = mminfo_loop ards \<lparr>mm_base = MM_BASE, mm_length = 0\<rparr> in
      if mm_length mm = 0 then panic ''get_mminfo(): cannot get memory info'' else Inr mm)"

subsection \<open>Physical pages\<close>

record pm =
  pm_spinlock :: spinlock
  bm_phymm :: bitmap

definition SIZE_BITMAP_PHYMM4G :: nat where
  "SIZE_BITMAP_PHYMM4G = (0xffffffff div 4096 + 1) div 8"

definition init_phymm_system :: "u32 \<Rightarrow> pm \<Rightarrow> pm res" where
  "init_phymm_system mem_size s =
     bindr (spinlock_init (Some (pm_spinlock s))) (\<lambda>l.
     bindr (bitmap_init (Some (bm_phymm s)) (drop_bit 12 mem_size)
       (Some (replicate SIZE_BITMAP_PHYMM4G 0))) (\<lambda>m.
     Inr (s\<lparr>pm_spinlock := l, bm_phymm := m\<rparr>)))"

definition phy_alloc_page :: "pm \<Rightarrow> (u32 \<times> pm) res" where
  "phy_alloc_page s =
     bindr (wait (pm_spinlock s)) (\<lambda>l.
     bindr (bitmap_scan_empty (Some (bm_phymm s))) (\<lambda>(i, m).
     bindr (bitmap_set (Some m) i) (\<lambda>m.
     Inr (push_bit 12 i + MM_BASE, s\<lparr>pm_spinlock := signal l, bm_phymm := m\<rparr>))))"

definition phy_release_page :: "u32 option \<Rightarrow> pm \<Rightarrow> pm res" where
  "phy_release_page phy_addr s =
     (case phy_addr of
       None \<Rightarrow> Inr s
     | Some a \<Rightarrow>
         if a < MM_BASE then panic ''phy_release_page(): cannot release kernel physical memory''
         else
           bindr (wait (pm_spinlock s)) (\<lambda>l.
           let i = drop_bit 12 (a - MM_BASE) in
           bindr (bitmap_clear (Some (bm_phymm s)) i) (\<lambda>m.
           Inr (s\<lparr>pm_spinlock := signal l, bm_phymm := m\<rparr>))))"

subsection \<open>Kernel metadata pages\<close>

record vmk =
  vm_spinlock :: spinlock
  bm_virmm :: bitmap

definition SIZE_BITMAP_VIRMM :: nat where
  "SIZE_BITMAP_VIRMM = (0xfffff000 - 0x400000 - 0xf0000000) div 4096 div 8"

definition init_kern_virmm_bitmap :: "vmk \<Rightarrow> vmk res" where
  "init_kern_virmm_bitmap s =
     bindr (spinlock_init (Some (vm_spinlock s))) (\<lambda>l.
     bindr (bitmap_init (Some (bm_virmm s)) (word_of_nat (SIZE_BITMAP_VIRMM * 8))
       (Some (replicate SIZE_BITMAP_VIRMM 0))) (\<lambda>m.
     Inr (s\<lparr>vm_spinlock := l, bm_virmm := m\<rparr>)))"

definition vir_alloc_kern :: "vmk \<Rightarrow> (u32 \<times> vmk) res" where
  "vir_alloc_kern s =
     bindr (wait (vm_spinlock s)) (\<lambda>l.
     bindr (bitmap_scan_empty (Some (bm_virmm s))) (\<lambda>(i, m).
     bindr (bitmap_set (Some m) i) (\<lambda>m.
     Inr (KERN_METADATA + i * PGSIZE, s\<lparr>vm_spinlock := signal l, bm_virmm := m\<rparr>))))"

definition vir_release_kern :: "u32 \<Rightarrow> vmk \<Rightarrow> vmk res" where
  "vir_release_kern va s =
     (if KERN_METADATA > va \<or> va \<ge> PG_MASK - MB4 + PGSIZE
      then panic ''vir_release_kern(): not the kernel metadata''
      else
        bindr (wait (vm_spinlock s)) (\<lambda>l.
        bindr (bitmap_clear (Some (bm_virmm s)) ((va - KERN_METADATA) div PGSIZE)) (\<lambda>m.
        Inr (s\<lparr>vm_spinlock := signal l, bm_virmm := m\<rparr>))))"

subsection \<open>Page addresses\<close>

definition page_at :: "u32 \<Rightarrow> nat \<Rightarrow> u32" where
  "page_at base i = base + word_of_nat (i * 4096)"

lemma unat_page_at:
  assumes "unat base + i * 4096 < 4294967296"
  shows "unat (page_at base i) = unat base + i * 4096"
proof -
  have "unat (word_of_nat (i * 4096) :: u32) = i * 4096"
    by (rule unat_word_of_nat_32) (use assms in simp)
  then show ?thesis unfolding page_at_def by (subst unat_add_32) (use assms in simp_all)
qed

lemma page_at_mult: "base + i * 4096 = page_at base (unat (i :: u32))"
  by (simp add: page_at_def)

lemma page_at_push: "push_bit 12 i + base = page_at base (unat (i :: u32))"
  by (simp add: page_at_def push_bit_eq_mult ac_simps)

lemma page_at_index:
  assumes "unat i * 4096 < 4294967296"
  shows "(page_at base (unat i) - base) div 4096 = (i :: u32)"
    and "drop_bit 12 (page_at base (unat i) - base) = i"
proof -
  have e: "page_at base (unat i) - base = word_of_nat (unat i * 4096)" by (simp add: page_at_def)
  have "unat ((page_at base (unat i) - base) div 4096) = unat i"
    unfolding e unat_div using assms by (subst unat_word_of_nat_32) simp_all
  then show "(page_at base (unat i) - base) div 4096 = i" unfolding word_unat_eq_iff .
  then show "drop_bit 12 (page_at base (unat i) - base) = i" by (simp add: drop_bit_eq_div)
qed

lemma aligned_iff: "(x :: u32) AND 4095 = 0 \<longleftrightarrow> unat x mod 4096 = 0"
proof -
  have "x AND 4095 = take_bit 12 x" by (simp add: take_bit_eq_mask mask_eq_exp_minus_1)
  moreover have "unat (take_bit 12 x) = unat x mod 4096"
    by (simp add: unsigned_take_bit_eq take_bit_eq_mod unat_mod)
  ultimately show ?thesis by (metis unat_eq_0)
qed

lemma page_at_aligned:
  "unat base + i * 4096 < 4294967296 \<Longrightarrow> unat base mod 4096 = 0 \<Longrightarrow> page_at base i AND 4095 = 0"
  by (simp add: aligned_iff unat_page_at)

text \<open>A bitmap as a pool of pages: the addresses it manages and those that are taken.\<close>

definition pages :: "u32 \<Rightarrow> nat set \<Rightarrow> u32 set" where
  "pages base I = page_at base ` I"

definition pool_ok :: "u32 \<Rightarrow> bitmap \<Rightarrow> bool" where
  "pool_ok base m \<longleftrightarrow> bm_wf m \<and> unat base mod 4096 = 0 \<and> unat base + bm_cap m * 4096 \<le> 4294967296"

lemma pool_bound: "pool_ok base m \<Longrightarrow> i < bm_cap m \<Longrightarrow> unat base + i * 4096 < 4294967296"
  by (auto simp: pool_ok_def)

lemma page_at_inj: "pool_ok base m \<Longrightarrow> inj_on (page_at base) {..<bm_cap m}"
  by (rule inj_onI) (metis add_left_cancel lessThan_iff mult_right_cancel pool_bound unat_page_at zero_neq_numeral)

lemma pages_mem:
  assumes "pool_ok base m" and "I \<subseteq> {..<bm_cap m}" and "i < bm_cap m"
  shows "page_at base i \<in> pages base I \<longleftrightarrow> i \<in> I"
  unfolding pages_def using page_at_inj [OF assms(1)] assms(2,3) by (subst inj_on_image_mem_iff) auto

lemma pages_all:
  assumes "pool_ok base m" and "I \<subseteq> {..<bm_cap m}"
  shows "pages base I = pages base {..<bm_cap m} \<longleftrightarrow> I = {..<bm_cap m}"
  unfolding pages_def using page_at_inj [OF assms(1)] assms(2) by (subst inj_on_image_eq_iff) auto

lemma pages_insert: "pages base (insert i I) = insert (page_at base i) (pages base I)"
  by (simp add: pages_def)

lemma pages_remove:
  assumes "pool_ok base m" and "I \<subseteq> {..<bm_cap m}" and "i < bm_cap m"
  shows "pages base (I - {i}) = pages base I - {page_at base i}"
  unfolding pages_def using page_at_inj [OF assms(1)] assms(2,3)
  by (subst inj_on_image_set_diff [of _ "{..<bm_cap m}"]) auto

lemma bm_bits_sub: "bm_bits m \<subseteq> {..<bm_cap m}"
  by (auto simp: bm_bits_def)

lemma pool_okI: "pool_ok base m \<Longrightarrow> bm_wf m' \<Longrightarrow> bm_cap m' = bm_cap m \<Longrightarrow> pool_ok base m'"
  by (simp add: pool_ok_def)

subsection \<open>Both are page allocators\<close>

definition pm_inv :: "pm \<Rightarrow> bool" where
  "pm_inv s \<longleftrightarrow> pm_spinlock s = unlocked \<and> pool_ok MM_BASE (bm_phymm s)"

definition pm_pool :: "pm \<Rightarrow> u32 set" where
  "pm_pool s = pages MM_BASE {..<bm_cap (bm_phymm s)}"

definition pm_taken :: "pm \<Rightarrow> u32 set" where
  "pm_taken s = pages MM_BASE (bm_bits (bm_phymm s))"

text \<open>The metadata pool ends below the last page table, whose pages are the self-map.\<close>

definition vmk_inv :: "vmk \<Rightarrow> bool" where
  "vmk_inv s \<longleftrightarrow> vm_spinlock s = unlocked \<and> pool_ok KERN_METADATA (bm_virmm s)
     \<and> bm_cap (bm_virmm s) = 64504"

definition vmk_pool :: "vmk \<Rightarrow> u32 set" where
  "vmk_pool s = pages KERN_METADATA {..<bm_cap (bm_virmm s)}"

definition vmk_taken :: "vmk \<Rightarrow> u32 set" where
  "vmk_taken s = pages KERN_METADATA (bm_bits (bm_virmm s))"

lemma phy_alloc_page_some:
  assumes inv: "pm_inv s" and free: "pm_taken s \<noteq> pm_pool s"
  shows "\<exists>p s'. phy_alloc_page s = Inr (p, s') \<and> pm_inv s' \<and> pm_pool s' = pm_pool s
    \<and> p \<in> pm_pool s \<and> p \<notin> pm_taken s \<and> pm_taken s' = insert p (pm_taken s)"
proof -
  let ?m = "bm_phymm s"
  have ok: "pool_ok MM_BASE ?m" and wf: "bm_wf ?m" and l: "pm_spinlock s = unlocked"
    using inv by (simp_all add: pm_inv_def pool_ok_def)
  have "bm_bits ?m \<noteq> {..<bm_cap ?m}" using free by (metis pm_taken_def pm_pool_def)
  from bm.alloc_fresh [OF wf this] obtain j m1 m2 where
    1: "bitmap_scan_empty (Some ?m) = Inr (j, m1)" "bitmap_set (Some m1) j = Inr m2"
       "unat j < bm_cap ?m" "unat j \<notin> bm_bits ?m" "bm_wf m2" "bm_cap m2 = bm_cap ?m"
       "bm_bits m2 = insert (unat j) (bm_bits ?m)" by blast
  have "phy_alloc_page s = Inr (page_at MM_BASE (unat j), s\<lparr>pm_spinlock := unlocked, bm_phymm := m2\<rparr>)"
    using 1 l by (simp add: phy_alloc_page_def page_at_push)
  moreover have "page_at MM_BASE (unat j) \<in> pm_pool s" "page_at MM_BASE (unat j) \<notin> pm_taken s"
    using pages_mem [OF ok bm_bits_sub 1(3)] 1(3,4) by (simp_all add: pm_pool_def pm_taken_def pages_def)
  moreover have "pool_ok MM_BASE m2" by (rule pool_okI [OF ok 1(5,6)])
  ultimately show ?thesis
    using 1(6,7) by (simp add: pm_inv_def pm_pool_def pm_taken_def pages_insert)
qed

lemma phy_release_page_some:
  assumes inv: "pm_inv s" and p: "p \<in> pm_pool s"
  shows "\<exists>s'. phy_release_page (Some p) s = Inr s' \<and> pm_inv s' \<and> pm_pool s' = pm_pool s
    \<and> pm_taken s' = pm_taken s - {p}"
proof -
  let ?m = "bm_phymm s"
  have ok: "pool_ok MM_BASE ?m" and wf: "bm_wf ?m" and l: "pm_spinlock s = unlocked"
    using inv by (simp_all add: pm_inv_def pool_ok_def)
  from p obtain n where n: "n < bm_cap ?m" "p = page_at MM_BASE n" by (auto simp: pm_pool_def pages_def)
  note b = pool_bound [OF ok n(1)]
  then have un: "unat (word_of_nat n :: u32) = n" by (simp add: unat_word_of_nat_32)
  have idx: "drop_bit 12 (p - MM_BASE) = word_of_nat n"
    using page_at_index(2) [of "word_of_nat n" MM_BASE] b by (simp add: un n(2))
  have "\<not> p < MM_BASE" using unat_page_at [OF b] by (simp add: word_less_nat_alt n(2))
  moreover from bitmap_clear_bits [OF wf, of "word_of_nat n"] obtain m' where
    1: "bitmap_clear (Some ?m) (word_of_nat n) = Inr m'" "bm_wf m'" "bm_cap m' = bm_cap ?m"
       "bm_bits m' = bm_bits ?m - {n}" using n by (auto simp: un)
  ultimately have "phy_release_page (Some p) s = Inr (s\<lparr>pm_spinlock := unlocked, bm_phymm := m'\<rparr>)"
    using l by (simp add: phy_release_page_def idx)
  moreover have "pool_ok MM_BASE m'" by (rule pool_okI [OF ok 1(2,3)])
  ultimately show ?thesis
    using 1(3,4) pages_remove [OF ok bm_bits_sub n(1)]
    by (simp add: pm_inv_def pm_pool_def pm_taken_def n(2))
qed

interpretation pm: page_alloc phy_alloc_page "\<lambda>p. phy_release_page (Some p)" pm_inv pm_pool pm_taken
  "''bitmap_scan_empty(): no more free bits''"
proof (unfold_locales, goal_cases)
  case (1 s)
  then show ?case using bm_bits_sub by (auto simp: pm_taken_def pm_pool_def pages_def)
next
  case (2 s p)
  then show ?case
    by (auto simp: pm_pool_def pages_def pm_inv_def pool_ok_def intro!: page_at_aligned pool_bound)
next
  case (3 s)
  then show ?case by (rule phy_alloc_page_some)
next
  case (4 s)
  then have "bm_bits (bm_phymm s) = {..<bm_cap (bm_phymm s)}" "bm_wf (bm_phymm s)"
    using pages_all [of MM_BASE "bm_phymm s" "bm_bits (bm_phymm s)"] bm_bits_sub
    by (auto simp: pm_inv_def pool_ok_def pm_taken_def pm_pool_def)
  then show ?case using 4 by (simp add: phy_alloc_page_def pm_inv_def scan_full)
next
  case (5 s p)
  then show ?case by (rule phy_release_page_some)
qed

lemma vir_alloc_kern_some:
  assumes inv: "vmk_inv s" and free: "vmk_taken s \<noteq> vmk_pool s"
  shows "\<exists>p s'. vir_alloc_kern s = Inr (p, s') \<and> vmk_inv s' \<and> vmk_pool s' = vmk_pool s
    \<and> p \<in> vmk_pool s \<and> p \<notin> vmk_taken s \<and> vmk_taken s' = insert p (vmk_taken s)"
proof -
  let ?m = "bm_virmm s"
  have ok: "pool_ok KERN_METADATA ?m" and wf: "bm_wf ?m" and l: "vm_spinlock s = unlocked"
    using inv by (simp_all add: vmk_inv_def pool_ok_def)
  have "bm_bits ?m \<noteq> {..<bm_cap ?m}" using free by (metis vmk_taken_def vmk_pool_def)
  from bm.alloc_fresh [OF wf this] obtain j m1 m2 where
    1: "bitmap_scan_empty (Some ?m) = Inr (j, m1)" "bitmap_set (Some m1) j = Inr m2"
       "unat j < bm_cap ?m" "unat j \<notin> bm_bits ?m" "bm_wf m2" "bm_cap m2 = bm_cap ?m"
       "bm_bits m2 = insert (unat j) (bm_bits ?m)" by blast
  have "vir_alloc_kern s =
      Inr (page_at KERN_METADATA (unat j), s\<lparr>vm_spinlock := unlocked, bm_virmm := m2\<rparr>)"
    using 1 l by (simp add: vir_alloc_kern_def PGSIZE_def page_at_mult)
  moreover have "page_at KERN_METADATA (unat j) \<in> vmk_pool s" "page_at KERN_METADATA (unat j) \<notin> vmk_taken s"
    using pages_mem [OF ok bm_bits_sub 1(3)] 1(3,4) by (simp_all add: vmk_pool_def vmk_taken_def pages_def)
  moreover have "pool_ok KERN_METADATA m2" by (rule pool_okI [OF ok 1(5,6)])
  ultimately show ?thesis
    using 1(6,7) inv by (simp add: vmk_inv_def vmk_pool_def vmk_taken_def pages_insert)
qed

lemma vir_release_kern_some:
  assumes inv: "vmk_inv s" and p: "p \<in> vmk_pool s"
  shows "\<exists>s'. vir_release_kern p s = Inr s' \<and> vmk_inv s' \<and> vmk_pool s' = vmk_pool s
    \<and> vmk_taken s' = vmk_taken s - {p}"
proof -
  let ?m = "bm_virmm s"
  have ok: "pool_ok KERN_METADATA ?m" and wf: "bm_wf ?m" and l: "vm_spinlock s = unlocked"
    and cap: "bm_cap ?m = 64504"
    using inv by (simp_all add: vmk_inv_def pool_ok_def)
  from p obtain n where n: "n < bm_cap ?m" "p = page_at KERN_METADATA n"
    by (auto simp: vmk_pool_def pages_def)
  note b = pool_bound [OF ok n(1)]
  then have un: "unat (word_of_nat n :: u32) = n" by (simp add: unat_word_of_nat_32)
  have idx: "(p - KERN_METADATA) div PGSIZE = word_of_nat n"
    using page_at_index(1) [of "word_of_nat n" KERN_METADATA] b by (simp add: un n(2) PGSIZE_def)
  have "unat p = 4026531840 + n * 4096" using unat_page_at [OF b] by (simp add: n(2) KERN_METADATA_def)
  then have "\<not> KERN_METADATA > p" "\<not> p \<ge> PG_MASK - MB4 + PGSIZE"
    using n(1) cap by (simp_all add: word_less_nat_alt word_le_nat_alt mem_consts)
  moreover from bitmap_clear_bits [OF wf, of "word_of_nat n"] obtain m' where
    1: "bitmap_clear (Some ?m) (word_of_nat n) = Inr m'" "bm_wf m'" "bm_cap m' = bm_cap ?m"
       "bm_bits m' = bm_bits ?m - {n}" using n by (auto simp: un)
  ultimately have "vir_release_kern p s = Inr (s\<lparr>vm_spinlock := unlocked, bm_virmm := m'\<rparr>)"
    using l by (simp add: vir_release_kern_def idx)
  moreover have "pool_ok KERN_METADATA m'" by (rule pool_okI [OF ok 1(2,3)])
  ultimately show ?thesis
    using 1(3,4) pages_remove [OF ok bm_bits_sub n(1)] cap
    by (simp add: vmk_inv_def vmk_pool_def vmk_taken_def n(2))
qed

interpretation vmk: page_alloc vir_alloc_kern vir_release_kern vmk_inv vmk_pool vmk_taken
  "''bitmap_scan_empty(): no more free bits''"
proof (unfold_locales, goal_cases)
  case (1 s)
  then show ?case using bm_bits_sub by (auto simp: vmk_taken_def vmk_pool_def pages_def)
next
  case (2 s p)
  then show ?case
    by (auto simp: vmk_pool_def pages_def vmk_inv_def pool_ok_def intro!: page_at_aligned pool_bound)
next
  case (3 s)
  then show ?case by (rule vir_alloc_kern_some)
next
  case (4 s)
  then have ok: "pool_ok KERN_METADATA (bm_virmm s)" "bm_wf (bm_virmm s)"
    by (simp_all add: vmk_inv_def pool_ok_def)
  have "bm_bits (bm_virmm s) = {..<bm_cap (bm_virmm s)}"
    using 4(2) pages_all [OF ok(1) bm_bits_sub] by (simp only: vmk_taken_def vmk_pool_def)
  then show ?case using 4 ok(2) by (simp add: vir_alloc_kern_def vmk_inv_def scan_full)
next
  case (5 s p)
  then show ?case by (rule vir_release_kern_some)
qed

subsection \<open>Initialisation\<close>

lemma init_phymm_system_inv:
  assumes "4096 \<le> unat n" and "unat n \<le> 4293918720"
  shows "\<exists>s'. init_phymm_system n s = Inr s' \<and> pm_inv s' \<and> pm_taken s' = {}
    \<and> pm_pool s' = pages MM_BASE {..<unat n div 4096}"
proof -
  have d: "unat (drop_bit 12 n) = unat n div 4096"
    by (simp add: drop_bit_eq_div unat_div)
  have "unat n div 4096 \<le> 1048576" "0 < unat n div 4096" using assms by (simp_all add: div_greater_zero_iff)
  with bitmap_init_zero [of "drop_bit 12 n" SIZE_BITMAP_PHYMM4G "bm_phymm s"] obtain m where
    m: "bitmap_init (Some (bm_phymm s)) (drop_bit 12 n) (Some (replicate SIZE_BITMAP_PHYMM4G 0)) = Inr m"
       "bm_wf m" "bm_cap m = unat n div 4096" "bm_bits m = {}"
    by (auto simp: d SIZE_BITMAP_PHYMM4G_def)
  have "init_phymm_system n s = Inr (s\<lparr>pm_spinlock := unlocked, bm_phymm := m\<rparr>)"
    using m(1) by (simp add: init_phymm_system_def spinlock_init_def unlocked_def)
  moreover have "pool_ok MM_BASE m" using m(2,3) assms by (simp add: pool_ok_def MM_BASE_def)
  ultimately show ?thesis using m(3,4) by (simp add: pm_inv_def pm_taken_def pm_pool_def pages_def)
qed

lemma init_kern_virmm_inv:
  "\<exists>s'. init_kern_virmm_bitmap s = Inr s' \<and> vmk_inv s' \<and> vmk_taken s' = {}"
proof -
  have k: "SIZE_BITMAP_VIRMM = 8063" by (simp add: SIZE_BITMAP_VIRMM_def)
  from bitmap_init_zero [of 64504 SIZE_BITMAP_VIRMM "bm_virmm s"] obtain m where
    m: "bitmap_init (Some (bm_virmm s)) 64504 (Some (replicate SIZE_BITMAP_VIRMM 0)) = Inr m"
       "bm_wf m" "bm_cap m = 64504" "bm_bits m = {}"
    by (auto simp: k)
  have "word_of_nat (SIZE_BITMAP_VIRMM * 8) = (64504 :: u32)" by (simp add: k)
  then have "init_kern_virmm_bitmap s = Inr (s\<lparr>vm_spinlock := unlocked, bm_virmm := m\<rparr>)"
    using m(1) by (simp add: init_kern_virmm_bitmap_def spinlock_init_def unlocked_def)
  moreover have "pool_ok KERN_METADATA m" using m(2,3) by (simp add: pool_ok_def KERN_METADATA_def)
  ultimately show ?thesis using m(3,4) by (simp add: vmk_inv_def vmk_taken_def pages_def)
qed

text \<open>
  The range check of vir_release_kern is wider than the bitmap: the last seven pages
  below the self-map pass it, and bitmap_clear then panics.
\<close>

lemma vir_release_kern_gap:
  assumes inv: "vmk_inv s" and "64504 \<le> k" and "k < 64512"
  shows "vir_release_kern (page_at KERN_METADATA k) s = panic ''bitmap_clear(): invalid index''"
proof -
  have u: "unat (word_of_nat k :: u32) = k" and b: "unat KERN_METADATA + k * 4096 < 4294967296"
    using assms by (simp_all add: unat_word_of_nat_32 KERN_METADATA_def)
  have "unat (page_at KERN_METADATA k) = 4026531840 + k * 4096"
    using unat_page_at [OF b] by (simp add: KERN_METADATA_def)
  then have r: "\<not> KERN_METADATA > page_at KERN_METADATA k" "\<not> page_at KERN_METADATA k \<ge> PG_MASK - MB4 + PGSIZE"
    using assms by (simp_all add: word_less_nat_alt word_le_nat_alt mem_consts)
  have idx: "(page_at KERN_METADATA k - KERN_METADATA) div PGSIZE = word_of_nat k"
    using page_at_index(1) [of "word_of_nat k" KERN_METADATA] assms by (simp add: u PGSIZE_def)
  have "len_inbits (bm_virmm s) \<le> word_of_nat k"
    using inv assms by (simp add: vmk_inv_def bm_cap_def word_le_nat_alt u)
  then have "bitmap_clear (Some (bm_virmm s)) (word_of_nat k) = panic ''bitmap_clear(): invalid index''"
    by (simp add: bitmap_clear_def)
  then show ?thesis using inv r by (simp add: vir_release_kern_def idx vmk_inv_def)
qed

subsection \<open>Properties\<close>

definition pm_sample :: pm where
  "pm_sample = \<lparr>pm_spinlock = unlocked, bm_phymm = bm_sample\<rparr>"

lemma pm_sample_inv: "pm_inv pm_sample"
  using bm_sample_wf by (simp add: pm_inv_def pm_sample_def pool_ok_def MM_BASE_def)

text \<open>C34: n calls of phy_alloc_page either return n distinct page-aligned addresses of the pool,
  none of which was taken before and all of which are afterwards, or, when fewer than n pages
  are left, one of them panics. The lock is free again after every call that returns.\<close>
theorem phy_alloc_pages_fresh:
  assumes "pm_inv s"
  shows "if n \<le> card (pm_pool s - pm_taken s)
    then \<exists>ps s'. alloc_pages phy_alloc_page n s = Inr (ps, s') \<and> length ps = n \<and> distinct ps
      \<and> set ps \<inter> pm_taken s = {} \<and> (\<forall>p \<in> set ps. p \<in> pm_pool s \<and> p AND 4095 = 0)
      \<and> pm_taken s' = pm_taken s \<union> set ps \<and> pm_inv s'
    else alloc_pages phy_alloc_page n s = panic ''bitmap_scan_empty(): no more free bits''"
proof (cases "n \<le> card (pm_pool s - pm_taken s)")
  case True
  from pm.alloc_pages [OF assms True] show ?thesis
    using True pm.pool_aligned [OF assms] by (auto 0 4)
next
  case False
  then show ?thesis using pm.alloc_pages_full [OF assms] by simp
qed

theorem phy_alloc_pages_fresh_witness:
  "if 2 \<le> card (pm_pool pm_sample - pm_taken pm_sample)
    then \<exists>ps s'. alloc_pages phy_alloc_page 2 pm_sample = Inr (ps, s') \<and> length ps = 2 \<and> distinct ps
      \<and> set ps \<inter> pm_taken pm_sample = {} \<and> (\<forall>p \<in> set ps. p \<in> pm_pool pm_sample \<and> p AND 4095 = 0)
      \<and> pm_taken s' = pm_taken pm_sample \<union> set ps \<and> pm_inv s'
    else alloc_pages phy_alloc_page 2 pm_sample = panic ''bitmap_scan_empty(): no more free bits''"
  by (rule phy_alloc_pages_fresh) (rule pm_sample_inv)

text \<open>From init_phymm_system on, any page of the managed memory can be taken, and
  phy_release_page gives a page back so that exactly the pages of before are taken; a null
  address is ignored and one below 1 MB panics without touching the pool.\<close>
theorem phy_init_alloc_release:
  assumes "4096 \<le> unat n" and "unat n \<le> 4293918720"
  shows "\<exists>s0 p s1 s2. init_phymm_system n s = Inr s0 \<and> phy_alloc_page s0 = Inr (p, s1)
    \<and> unat MM_BASE \<le> unat p \<and> unat p < unat MM_BASE + unat n
    \<and> phy_release_page (Some p) s1 = Inr s2 \<and> pm_taken s2 = pm_taken s0 \<and> pm_inv s2
    \<and> phy_release_page None s1 = Inr s1
    \<and> (\<forall>a < MM_BASE. phy_release_page (Some a) s1 =
         panic ''phy_release_page(): cannot release kernel physical memory'')"
proof -
  from init_phymm_system_inv [OF assms] obtain s0 where
    0: "init_phymm_system n s = Inr s0" "pm_inv s0" "pm_taken s0 = {}"
       "pm_pool s0 = pages MM_BASE {..<unat n div 4096}" by blast
  have "0 < unat n div 4096" using assms by (simp add: div_greater_zero_iff)
  then have "page_at MM_BASE 0 \<in> pm_pool s0" by (simp add: 0(4) pages_def)
  then have "pm_taken s0 \<noteq> pm_pool s0" using 0(3) by blast
  from pm.alloc_some [OF 0(2) this] obtain p s1 where
    1: "phy_alloc_page s0 = Inr (p, s1)" "pm_inv s1" "pm_pool s1 = pm_pool s0" "p \<in> pm_pool s0"
       "p \<notin> pm_taken s0" "pm_taken s1 = insert p (pm_taken s0)" by blast
  from pm.release [of s1 p] 1 obtain s2 where
    2: "phy_release_page (Some p) s1 = Inr s2" "pm_inv s2" "pm_taken s2 = pm_taken s1 - {p}" by auto
  from 1(4) obtain i where i: "i < unat n div 4096" "p = page_at MM_BASE i"
    by (auto simp: 0(4) pages_def)
  then have "i * 4096 + 4096 \<le> unat n" by (metis Suc_leI add.commute div_times_less_eq_dividend mult_Suc mult_le_mono1 order_trans)
  then have "unat p = unat MM_BASE + i * 4096" "i * 4096 < unat n"
    using assms unat_page_at [of MM_BASE i] by (simp_all add: i(2) MM_BASE_def)
  then show ?thesis
    using 0(1) 1 2 by (auto simp: phy_release_page_def intro!: exI [of _ s0] exI [of _ p])
qed

theorem phy_init_alloc_release_witness:
  "\<exists>s0 p s1 s2. init_phymm_system 65536 pm_sample = Inr s0 \<and> phy_alloc_page s0 = Inr (p, s1)
    \<and> unat MM_BASE \<le> unat p \<and> unat p < unat MM_BASE + unat (65536 :: u32)
    \<and> phy_release_page (Some p) s1 = Inr s2 \<and> pm_taken s2 = pm_taken s0 \<and> pm_inv s2
    \<and> phy_release_page None s1 = Inr s1
    \<and> (\<forall>a < MM_BASE. phy_release_page (Some a) s1 =
         panic ''phy_release_page(): cannot release kernel physical memory'')"
  by (rule phy_init_alloc_release) simp_all

end
