(* ===== verification/Paging.thy ===== *)
theory Paging
  imports Phys_Mem
begin

section \<open>kern/page: the page tables\<close>

text \<open>
  The macros of page_stuff.h, paging() of page.c, and set_mapping and phy_release_vpage of
  pm.c. Physical memory is a function from dword addresses to dwords. \<open>walk\<close> is the
  two-level translation the processor performs on the structures these functions build;
  a read or a write through a virtual address goes through it, and faults where it finds
  no page. The last directory entry points back to the directory, so that \<open>GET_PDE\<close> and
  \<open>GET_PTE\<close> are the virtual addresses of the directory and table entries of a page. The
  TLB is not modelled (set_mapping invalidates its entry first).
\<close>

definition PGFLAG_PS :: u32 where "PGFLAG_PS = 1"
definition PGFLAG_RW :: u32 where "PGFLAG_RW = 2"
definition PGFLAG_US :: u32 where "PGFLAG_US = 4"
definition KERN_HIGH_MAPPING :: u32 where "KERN_HIGH_MAPPING = 0x80000000"

lemmas pg_flags = PGFLAG_PS_def PGFLAG_RW_def PGFLAG_US_def

definition V2P :: "u32 \<Rightarrow> u32" where "V2P va = va - KERN_HIGH_MAPPING"

definition PGDOWN :: "u32 \<Rightarrow> u32 \<Rightarrow> u32" where
  "PGDOWN x align = x AND NOT (align - 1)"

definition PGUP :: "u32 \<Rightarrow> u32 \<Rightarrow> u32" where
  "PGUP x align = PGDOWN (x + align - 1) align"

definition PD_INDEX :: "u32 \<Rightarrow> u32" where
  "PD_INDEX x = drop_bit 22 x AND 0x3ff"

definition PT_INDEX :: "u32 \<Rightarrow> u32" where
  "PT_INDEX x = drop_bit 12 x AND 0x3ff"

definition PG :: "u32 \<Rightarrow> u32" where
  "PG x = x AND PG_MASK"

definition GET_PDE :: "u32 \<Rightarrow> u32" where
  "GET_PDE va = PG_MASK OR (PD_INDEX (PGDOWN va PGSIZE) * 4)"

definition GET_PTE :: "u32 \<Rightarrow> u32" where
  "GET_PTE va = 0xffc00000 OR
     (push_bit 12 (PD_INDEX (PGDOWN va PGSIZE)) OR (PT_INDEX (PGDOWN va PGSIZE) * 4))"

subsection \<open>The macros, bit by bit\<close>

lemma consts_mask:
  "(4095 :: u32) = mask 12" "(0x3ff :: u32) = mask 10" "PG_MASK = NOT (mask 12)"
  "(0xffc00000 :: u32) = NOT (mask 22)" "PGSIZE - 1 = mask 12"
  by (simp_all add: mask_eq_exp_minus_1 mem_consts)

lemma times_4: "(x :: u32) * 4 = push_bit 2 x"
  by (simp add: push_bit_eq_mult)

lemma times_4096: "(x :: u32) * 4096 = push_bit 12 x"
  by (simp add: push_bit_eq_mult)

lemmas pg_bits = bit_simps consts_mask(2-) times_4

lemma PGDOWN_page: "PGDOWN x PGSIZE = PG x"
  by (simp add: PGDOWN_def PG_def consts_mask)

lemma PD_INDEX_PG [simp]: "PD_INDEX (PG x) = PD_INDEX x"
  by (rule bit_word_eqI) (auto simp: PD_INDEX_def PG_def pg_bits)

lemma PT_INDEX_PG [simp]: "PT_INDEX (PG x) = PT_INDEX x"
  by (rule bit_word_eqI) (auto simp: PT_INDEX_def PG_def pg_bits)

lemma PD_INDEX_GET_PDE [simp]: "PD_INDEX (GET_PDE va) = 1023"
proof -
  have "PD_INDEX (GET_PDE va) = mask 10"
    by (rule bit_word_eqI) (auto simp: PD_INDEX_def GET_PDE_def PGDOWN_page pg_bits)
  then show ?thesis by (simp add: mask_eq_exp_minus_1)
qed

lemma PT_INDEX_GET_PDE [simp]: "PT_INDEX (GET_PDE va) = 1023"
proof -
  have "PT_INDEX (GET_PDE va) = mask 10"
    by (rule bit_word_eqI) (auto simp: PT_INDEX_def GET_PDE_def PGDOWN_page pg_bits)
  then show ?thesis by (simp add: mask_eq_exp_minus_1)
qed

lemma off_GET_PDE [simp]: "GET_PDE va AND 4095 = PD_INDEX va * 4"
  by (rule bit_word_eqI) (auto simp: PD_INDEX_def GET_PDE_def PG_def PGDOWN_page pg_bits consts_mask(1))

lemma PD_INDEX_GET_PTE [simp]: "PD_INDEX (GET_PTE va) = 1023"
proof -
  have "PD_INDEX (GET_PTE va) = mask 10"
    by (rule bit_word_eqI) (auto simp: PD_INDEX_def GET_PTE_def PGDOWN_page pg_bits)
  then show ?thesis by (simp add: mask_eq_exp_minus_1)
qed

lemma PT_INDEX_GET_PTE [simp]: "PT_INDEX (GET_PTE va) = PD_INDEX va"
  by (rule bit_word_eqI)
    (auto simp: PT_INDEX_def PD_INDEX_def GET_PTE_def PG_def PGDOWN_page pg_bits)

lemma off_GET_PTE [simp]: "GET_PTE va AND 4095 = PT_INDEX va * 4"
  by (rule bit_word_eqI)
    (auto simp: PT_INDEX_def PD_INDEX_def GET_PTE_def PG_def PGDOWN_page pg_bits consts_mask(1))

lemma PG_idem [simp]: "PG (PG x) = PG x"
  by (simp add: PG_def)

lemma PG_aligned [simp]: "PG x AND 4095 = 0"
  by (rule bit_word_eqI) (auto simp: PG_def pg_bits consts_mask(1))

lemma PG_fix: "f AND 4095 = 0 \<longleftrightarrow> PG f = f"
proof
  assume a: "f AND 4095 = 0"
  have "f = (f AND PG_MASK) OR (f AND 4095)"
    by (rule bit_word_eqI) (auto simp: pg_bits consts_mask(1))
  then show "PG f = f" using a by (simp add: PG_def)
qed (metis PG_aligned)

lemma PG_or_flags: "f AND 4095 = 0 \<Longrightarrow> g AND PG_MASK = 0 \<Longrightarrow> PG (f OR g) = f"
  by (simp add: PG_fix) (simp add: PG_def bit.conj_disj_distrib2)

lemma idx_less: "unat (PD_INDEX x) < 1024" "unat (PT_INDEX x) < 1024"
proof -
  have "y AND 1023 = take_bit 10 (y :: u32)" for y by (simp add: take_bit_eq_mask mask_eq_exp_minus_1)
  then show "unat (PD_INDEX x) < 1024" "unat (PT_INDEX x) < 1024"
    unfolding PD_INDEX_def PT_INDEX_def by (simp_all add: take_bit_eq_mod unat_mod)
qed

text \<open>An entry address determines its frame and its index.\<close>

lemma frame_mult:
  assumes "(f :: u32) AND 4095 = 0"
  obtains q where "unat f = 4096 * q"
  using assms by (metis aligned_iff dvdE mod_eq_0_iff_dvd)

lemma unat_entry:
  assumes "f AND 4095 = 0" and "unat (i :: u32) < 1024"
  shows "unat (f + i * 4) = unat f + unat i * 4"
proof -
  obtain q where q: "unat f = 4096 * q" using frame_mult [OF assms(1)] .
  then have "4096 * q < 4294967296" by (metis unat_lt_2p32)
  then have "q < 1048576" by simp
  then have "unat f + unat i * 4 < 4294967296" using q assms(2) by linarith
  moreover have "unat (i * 4) = unat i * 4"
    using assms(2) unat_word_ariths(2) [of i 4] by simp
  ultimately show ?thesis by (subst unat_add_32) simp_all
qed

lemma entry_inj:
  assumes "f AND 4095 = 0" "g AND 4095 = 0" and "unat (i :: u32) < 1024" "unat (j :: u32) < 1024"
  shows "f + i * 4 = g + j * 4 \<longleftrightarrow> f = g \<and> i = j"
proof
  assume "f + i * 4 = g + j * 4"
  then have e: "unat f + unat i * 4 = unat g + unat j * 4"
    using unat_entry [of f i] unat_entry [of g j] assms by simp
  obtain q r where q: "unat f = 4096 * q" and r: "unat g = 4096 * r"
    using frame_mult [OF assms(1)] frame_mult [OF assms(2)] by metis
  have "1024 * q + unat i = 1024 * r + unat j" using e q r by simp
  then have "q = r" using assms(3,4) by arith
  then have "unat f = unat g" "unat i = unat j" using e q r by simp_all
  then show "f = g \<and> i = j" by (simp add: word_unat_eq_iff)
qed simp

subsection \<open>The machine\<close>

text \<open>
  \<open>pmst\<close> is the state of the physical allocator, which set_mapping uses for a missing page table.
\<close>

record machine =
  phys :: "u32 \<Rightarrow> u32"
  cr3 :: u32
  pmst :: pm

definition pde_of :: "machine \<Rightarrow> u32 \<Rightarrow> u32" where
  "pde_of m va = phys m (cr3 m + PD_INDEX va * 4)"

definition pte_of :: "machine \<Rightarrow> u32 \<Rightarrow> u32" where
  "pte_of m va = phys m (PG (pde_of m va) + PT_INDEX va * 4)"

text \<open>Bit 0 of an entry (\<open>PGFLAG_PS\<close>) says that it is present.\<close>

definition walk :: "machine \<Rightarrow> u32 \<Rightarrow> u32 option" where
  "walk m va =
     (if \<not> bit (pde_of m va) 0 \<or> \<not> bit (pte_of m va) 0 then None
      else Some (PG (pte_of m va) + (va AND 4095)))"

definition vread :: "machine \<Rightarrow> u32 \<Rightarrow> u32 res" where
  "vread m va = (case walk m va of None \<Rightarrow> fault ''page fault'' | Some pa \<Rightarrow> Inr (phys m pa))"

definition vwrite :: "machine \<Rightarrow> u32 \<Rightarrow> u32 \<Rightarrow> machine res" where
  "vwrite m va x =
     (case walk m va of None \<Rightarrow> fault ''page fault''
      | Some pa \<Rightarrow> Inr (m\<lparr>phys := (phys m)(pa := x)\<rparr>))"

subsection \<open>Operations\<close>

definition set_mapping :: "u32 \<Rightarrow> u32 \<Rightarrow> u32 \<Rightarrow> machine \<Rightarrow> machine res" where
  "set_mapping va pa flags m =
     (let FLAGS = PGFLAG_US OR PGFLAG_RW OR PGFLAG_PS; FLAGS_PF = PGFLAG_US OR PGFLAG_PS in
      bindr (vread m (GET_PDE va)) (\<lambda>pde.
      let pde_flags = (pde AND NOT PG_MASK) AND FLAGS in
      bindr (if pde_flags \<noteq> FLAGS \<and> pde_flags \<noteq> FLAGS_PF
             then bindr (phy_alloc_page (pmst m)) (\<lambda>(pgtbl, pm).
                  vwrite (m\<lparr>pmst := pm\<rparr>) (GET_PDE va) (pgtbl OR FLAGS))
             else Inr m) (\<lambda>m.
      vwrite m (GET_PTE va) (pa OR flags))))"

text \<open>bzero through virtual addresses, dword by dword, within one page.\<close>

fun vzero :: "u32 \<Rightarrow> nat \<Rightarrow> machine \<Rightarrow> machine res" where
  "vzero va 0 m = Inr m"
| "vzero va (Suc n) m = bindr (vwrite m va 0) (vzero (va + 4) n)"

definition phy_release_vpage :: "u32 \<Rightarrow> machine \<Rightarrow> machine res" where
  "phy_release_vpage vir_addr m =
     bindr (vzero vir_addr 1024 m) (\<lambda>m.
     bindr (vread m (GET_PTE vir_addr)) (\<lambda>pte.
     bindr (phy_release_page (Some (PG pte)) (pmst m)) (\<lambda>pm.
     Inr (m\<lparr>pmst := pm\<rparr>))))"

text \<open>
  paging() builds the kernel's tables at 0x78000 and 0x79000 (\<open>SEG_PDTABLE\<close>, \<open>SEG_PGTABLE\<close>):
  one page table for the first MB, mapped at 0 and at \<open>KERN_HIGH_MAPPING\<close>, and the self-map.
\<close>

definition PDTABLE :: u32 where "PDTABLE = 0x7800 * 16"
definition PGTABLE :: u32 where "PGTABLE = 0x7900 * 16"
definition PGDIR_HOO :: u32 where "PGDIR_HOO = PDTABLE + KERN_HIGH_MAPPING"

fun paging_loop :: "nat \<Rightarrow> (u32 \<Rightarrow> u32) \<Rightarrow> u32 \<Rightarrow> (u32 \<Rightarrow> u32)" where
  "paging_loop 0 p flags = p"
| "paging_loop (Suc n) p flags =
     (paging_loop n p flags)(PGTABLE + word_of_nat n * 4 := (word_of_nat n * PGSIZE) OR flags)"

definition paging :: "machine \<Rightarrow> machine" where
  "paging m =
     (let flags = PGFLAG_US OR PGFLAG_RW OR PGFLAG_PS;
          p = (phys m)(PDTABLE := PGTABLE OR flags);
          p = p(PDTABLE + PD_INDEX KERN_HIGH_MAPPING * 4 := p PDTABLE);
          p = p(PDTABLE + 1023 * 4 := V2P PGDIR_HOO OR flags);
          p = paging_loop (unat (MM_BASE div PGSIZE)) p flags
      in m\<lparr>phys := p, cr3 := V2P PGDIR_HOO\<rparr>)"

subsection \<open>The self-map\<close>

definition self_map :: "machine \<Rightarrow> bool" where
  "self_map m \<longleftrightarrow> cr3 m AND 4095 = 0 \<and> bit (phys m (cr3 m + 1023 * 4)) 0
     \<and> PG (phys m (cr3 m + 1023 * 4)) = cr3 m"

lemma walk_GET_PDE: "self_map m \<Longrightarrow> walk m (GET_PDE va) = Some (cr3 m + PD_INDEX va * 4)"
  by (simp add: walk_def pde_of_def pte_of_def self_map_def)

lemma walk_GET_PTE:
  "self_map m \<Longrightarrow> bit (pde_of m va) 0 \<Longrightarrow>
   walk m (GET_PTE va) = Some (PG (pde_of m va) + PT_INDEX va * 4)"
  by (simp add: walk_def pde_of_def pte_of_def self_map_def)

text \<open>The tables are disjoint from the directory and from every free page.\<close>

definition free_frames :: "machine \<Rightarrow> u32 set" where
  "free_frames m = pm_pool (pmst m) - pm_taken (pmst m)"

definition pgt_inv :: "machine \<Rightarrow> bool" where
  "pgt_inv m \<longleftrightarrow> self_map m \<and> pm_inv (pmst m) \<and> cr3 m \<notin> free_frames m
     \<and> (\<forall>x. bit (pde_of m x) 0 \<and> PD_INDEX x \<noteq> 1023 \<longrightarrow>
          PG (pde_of m x) \<noteq> cr3 m \<and> PG (pde_of m x) \<notin> free_frames m)"

text \<open>What set_mapping takes for an existing table: an entry that is present and for users.\<close>

definition has_table :: "machine \<Rightarrow> u32 \<Rightarrow> bool" where
  "has_table m va \<longleftrightarrow> bit (pde_of m va) 0 \<and> bit (pde_of m va) 2"

lemma low3: "(x AND NOT PG_MASK) AND 7 = of_bool (bit x 0) + 2 * of_bool (bit x 1) + 4 * of_bool (bit (x :: u32) 2)"
proof -
  have "(x AND NOT PG_MASK) AND 7 = take_bit 3 x"
    by (simp add: PG_MASK_def and.assoc take_bit_eq_mask mask_eq_exp_minus_1)
  also have "\<dots> = of_bool (bit x 0) + 2 * of_bool (bit x 1) + 4 * of_bool (bit x 2)"
    by (simp add: numeral_3_eq_3 take_bit_Suc bit_Suc bit_0 numeral_2_eq_2 mod_2_eq_odd)
  finally show ?thesis .
qed

lemma flags_test:
  "(x AND NOT PG_MASK) AND 7 \<noteq> 7 \<and> (x AND NOT PG_MASK) AND 7 \<noteq> 5 \<longleftrightarrow> \<not> (bit (x :: u32) 0 \<and> bit x 2)"
  unfolding low3 by (cases "bit x 0"; cases "bit x 1"; cases "bit x 2") simp_all

lemma frame_ne: "f AND 4095 = 0 \<Longrightarrow> g AND 4095 = 0 \<Longrightarrow> f \<noteq> g \<Longrightarrow>
  f + PD_INDEX x * 4 \<noteq> g + PT_INDEX y * 4 \<and> f + PT_INDEX x * 4 \<noteq> g + PT_INDEX y * 4"
  using idx_less by (simp add: entry_inj)

lemma page_offset:
  assumes "PG va = va" and "unat i < 1024"
  shows "PG (va + i * 4) = va" and "(va + i * 4) AND 4095 = i * 4"
proof -
  have v: "12 \<le> n" if "bit va n" for n
  proof -
    have "bit (PG va) n" using that assms(1) by simp
    then show ?thesis by (auto simp: PG_def pg_bits)
  qed
  have i: "n < 10" if "bit i n" for n
  proof -
    have "i = take_bit 10 i" using assms(2) by (simp add: take_bit_eq_mod word_unat_eq_iff unat_mod)
    with that have "bit (take_bit 10 i) n" by simp
    then show ?thesis by (simp add: bit_take_bit_iff)
  qed
  have o: "va + i * 4 = va OR (i * 4)"
    by (rule disjunctive_add_eq_or, rule bit_word_eqI) (auto simp: pg_bits dest!: v i)
  show "PG (va + i * 4) = va"
    unfolding o by (rule bit_word_eqI) (auto simp: PG_def pg_bits dest: v i)
  show "(va + i * 4) AND 4095 = i * 4"
    unfolding o by (rule bit_word_eqI) (auto simp: pg_bits consts_mask(1) dest: v i)
qed

subsection \<open>Writing a table entry\<close>

lemma write_pte:
  assumes inv: "pgt_inv m" and va: "PD_INDEX va \<noteq> 1023" and pres: "bit (pde_of m va) 0"
    and pa: "pa AND 4095 = 0" and fl: "bit flags 0" "flags AND PG_MASK = 0"
  defines "a \<equiv> PG (pde_of m va) + PT_INDEX va * 4"
  defines "m' \<equiv> m\<lparr>phys := (phys m)(a := pa OR flags)\<rparr>"
  shows "vwrite m (GET_PTE va) (pa OR flags) = Inr m'" and "pgt_inv m'"
    and "\<And>x. pde_of m' x = pde_of m x"
    and "\<And>x. PG x = PG va \<Longrightarrow> walk m' x = Some (pa + (x AND 4095))"
    and "\<And>x. PD_INDEX x \<noteq> 1023 \<Longrightarrow>
      PG (pde_of m x) \<noteq> PG (pde_of m va) \<or> PT_INDEX x \<noteq> PT_INDEX va \<Longrightarrow> pte_of m' x = pte_of m x"
proof -
  have sm: "self_map m" and ne: "cr3 m \<noteq> PG (pde_of m va)" and al: "cr3 m AND 4095 = 0"
    using inv va pres by (auto simp: pgt_inv_def self_map_def)
  show "vwrite m (GET_PTE va) (pa OR flags) = Inr m'"
    using walk_GET_PTE [OF sm pres] by (simp add: vwrite_def m'_def a_def)
  have cr: "cr3 m + PD_INDEX x * 4 \<noteq> a" for x
    unfolding a_def using frame_ne [OF al PG_aligned ne] by blast
  show pde: "pde_of m' x = pde_of m x" for x
    using cr [of x] by (simp add: pde_of_def m'_def)
  have last: "phys m' (cr3 m + 1023 * 4) = phys m (cr3 m + 1023 * 4)"
    using cr [of "GET_PDE va"] by (simp add: m'_def)
  show "pgt_inv m'"
    using inv last unfolding pgt_inv_def self_map_def free_frames_def pde by (simp add: m'_def)
  show "walk m' x = Some (pa + (x AND 4095))" if "PG x = PG va" for x
  proof -
    have ix: "PD_INDEX x = PD_INDEX va" "PT_INDEX x = PT_INDEX va"
      using that by (metis PD_INDEX_PG, metis PT_INDEX_PG)
    then have "pde_of m x = pde_of m va" by (simp add: pde_of_def)
    then have pte: "pte_of m' x = pa OR flags"
      unfolding pte_of_def pde by (simp add: m'_def a_def ix)
    then show ?thesis
      using pres pde [of x] \<open>pde_of m x = pde_of m va\<close> fl pa
      by (simp add: walk_def bit_or_iff PG_or_flags)
  qed
  show "pte_of m' x = pte_of m x"
    if "PG (pde_of m x) \<noteq> PG (pde_of m va) \<or> PT_INDEX x \<noteq> PT_INDEX va" for x
    using that entry_inj [OF PG_aligned PG_aligned idx_less(2) idx_less(2), of "pde_of m x" x "pde_of m va" va]
    unfolding pte_of_def pde by (auto simp: m'_def a_def)
qed

lemma walk_cong:
  "pde_of m' x = pde_of m x \<Longrightarrow> (bit (pde_of m x) 0 \<Longrightarrow> pte_of m' x = pte_of m x) \<Longrightarrow> walk m' x = walk m x"
  by (auto simp: walk_def)

subsection \<open>A missing table\<close>

lemma new_table:
  assumes inv: "pgt_inv m" and va: "PD_INDEX va \<noteq> 1023"
    and al: "phy_alloc_page (pmst m) = Inr (p, pm')" "pm_inv pm'" "pm_pool pm' = pm_pool (pmst m)"
      "p \<in> free_frames m" "pm_taken pm' = insert p (pm_taken (pmst m))"
  defines "m1 \<equiv> m\<lparr>pmst := pm', phys := (phys m)(cr3 m + PD_INDEX va * 4 := p OR 7)\<rparr>"
  shows "vwrite (m\<lparr>pmst := pm'\<rparr>) (GET_PDE va) (p OR 7) = Inr m1" and "pgt_inv m1"
    and "\<And>x. pde_of m1 x = (if PD_INDEX x = PD_INDEX va then p OR 7 else pde_of m x)"
    and "p AND 4095 = 0"
    and "\<And>x. bit (pde_of m x) 0 \<Longrightarrow> PD_INDEX x \<noteq> 1023 \<Longrightarrow> PD_INDEX x \<noteq> PD_INDEX va \<Longrightarrow>
      pte_of m1 x = pte_of m x \<and> PG (pde_of m x) \<noteq> p"
proof -
  have sm: "self_map m" and al3: "cr3 m AND 4095 = 0" and cf: "cr3 m \<noteq> p"
    using inv al(4) by (auto simp: pgt_inv_def self_map_def)
  have "self_map (m\<lparr>pmst := pm'\<rparr>)" using sm by (simp add: self_map_def)
  from walk_GET_PDE [OF this, of va]
  show "vwrite (m\<lparr>pmst := pm'\<rparr>) (GET_PDE va) (p OR 7) = Inr m1" by (simp add: vwrite_def m1_def)
  show pal: "p AND 4095 = 0"
    using inv al(4) pm.pool_aligned by (auto simp: pgt_inv_def free_frames_def)
  have eq: "cr3 m + PD_INDEX x * 4 = cr3 m + PD_INDEX va * 4 \<longleftrightarrow> PD_INDEX x = PD_INDEX va" for x
    using entry_inj [OF al3 al3] idx_less by blast
  show pde: "pde_of m1 x = (if PD_INDEX x = PD_INDEX va then p OR 7 else pde_of m x)" for x
    using eq [of x] by (simp add: pde_of_def m1_def)
  have last: "phys m1 (cr3 m + 1023 * 4) = phys m (cr3 m + 1023 * 4)"
    using eq [of "GET_PDE va"] va by (auto simp: m1_def)
  have p7: "PG (p OR 7) = p"
    by (rule PG_or_flags [OF pal]) (simp add: PG_MASK_def)
  have ff: "free_frames m1 = free_frames m - {p}"
    using al(3,5) by (auto simp: free_frames_def m1_def)
  have c: "cr3 m1 = cr3 m" "pmst m1 = pm'" by (simp_all add: m1_def)
  have "self_map m1" using sm unfolding self_map_def c last .
  moreover have "PG (pde_of m1 x) \<noteq> cr3 m \<and> PG (pde_of m1 x) \<notin> free_frames m - {p}"
    if "bit (pde_of m1 x) 0 \<and> PD_INDEX x \<noteq> 1023" for x
  proof (cases "PD_INDEX x = PD_INDEX va")
    case True
    then show ?thesis using cf by (simp add: pde p7)
  next
    case False
    then show ?thesis using that inv by (auto simp: pde pgt_inv_def)
  qed
  ultimately show "pgt_inv m1"
    using inv al(2) by (simp add: pgt_inv_def c ff)
  show "pte_of m1 x = pte_of m x \<and> PG (pde_of m x) \<noteq> p"
    if "bit (pde_of m x) 0" "PD_INDEX x \<noteq> 1023" "PD_INDEX x \<noteq> PD_INDEX va" for x
  proof -
    have ne: "cr3 m \<noteq> PG (pde_of m x)" "PG (pde_of m x) \<noteq> p"
      using inv al(4) that by (auto simp: pgt_inv_def)
    from frame_ne [OF al3 PG_aligned ne(1)] have "PG (pde_of m x) + PT_INDEX x * 4 \<noteq> cr3 m + PD_INDEX va * 4"
      by metis
    then show ?thesis using that(3) ne(2) unfolding pte_of_def pde by (simp add: m1_def)
  qed
qed

subsection \<open>set_mapping\<close>

lemma set_mapping_present:
  assumes "self_map m" and "has_table m va"
  shows "set_mapping va pa flags m = vwrite m (GET_PTE va) (pa OR flags)"
proof -
  have "vread m (GET_PDE va) = Inr (pde_of m va)"
    using walk_GET_PDE [OF assms(1)] by (simp add: vread_def pde_of_def)
  moreover have "PGFLAG_US OR PGFLAG_RW OR PGFLAG_PS = 7" "PGFLAG_US OR PGFLAG_PS = 5"
    by (simp_all add: pg_flags)
  ultimately show ?thesis
    using assms(2) flags_test [of "pde_of m va"]
    by (auto simp: set_mapping_def Let_def has_table_def)
qed

lemma set_mapping_missing:
  assumes "self_map m" and "\<not> has_table m va"
  shows "set_mapping va pa flags m =
    bindr (phy_alloc_page (pmst m)) (\<lambda>(pgtbl, pm).
    bindr (vwrite (m\<lparr>pmst := pm\<rparr>) (GET_PDE va) (pgtbl OR 7)) (\<lambda>m.
    vwrite m (GET_PTE va) (pa OR flags)))"
proof -
  have "vread m (GET_PDE va) = Inr (pde_of m va)"
    using walk_GET_PDE [OF assms(1)] by (simp add: vread_def pde_of_def)
  moreover have "PGFLAG_US OR PGFLAG_RW OR PGFLAG_PS = 7" "PGFLAG_US OR PGFLAG_PS = 5"
    by (simp_all add: pg_flags)
  ultimately show ?thesis
    using assms(2) flags_test [of "pde_of m va"]
    by (auto simp: set_mapping_def Let_def has_table_def bindr_assoc split_def)
qed

lemma set_mapping_new:
  assumes inv: "pgt_inv m" and va: "PD_INDEX va \<noteq> 1023" and no: "\<not> has_table m va"
    and free: "free_frames m \<noteq> {}"
    and pa: "pa AND 4095 = 0" and fl: "bit flags 0" "flags AND PG_MASK = 0"
  shows "\<exists>p \<in> free_frames m. \<exists>m'. set_mapping va pa flags m = Inr m' \<and> pgt_inv m'
    \<and> (\<forall>x. PG x = PG va \<longrightarrow> walk m' x = Some (pa + (x AND 4095)))
    \<and> (\<forall>x. PD_INDEX x \<noteq> 1023 \<and> PD_INDEX x \<noteq> PD_INDEX va \<longrightarrow> walk m' x = walk m x)
    \<and> (\<forall>x. PD_INDEX x = PD_INDEX va \<and> PT_INDEX x \<noteq> PT_INDEX va \<longrightarrow>
         pde_of m' x = p OR 7 \<and> pte_of m' x = phys m (p + PT_INDEX x * 4))
    \<and> (\<forall>x. pde_of m' x = (if PD_INDEX x = PD_INDEX va then p OR 7 else pde_of m x)) \<and> free_frames m' = free_frames m - {p}
    \<and> cr3 m' = cr3 m \<and> (\<forall>a. PG a \<noteq> cr3 m \<and> PG a \<noteq> p \<longrightarrow> phys m' a = phys m a)"
proof -
  have pmi: "pm_inv (pmst m)" and sm: "self_map m" using inv by (simp_all add: pgt_inv_def)
  have "pm_taken (pmst m) \<noteq> pm_pool (pmst m)" using free by (auto simp: free_frames_def)
  from pm.alloc_some [OF pmi this] obtain p pm' where
    al: "phy_alloc_page (pmst m) = Inr (p, pm')" "pm_inv pm'" "pm_pool pm' = pm_pool (pmst m)"
      "p \<in> free_frames m" "pm_taken pm' = insert p (pm_taken (pmst m))"
    by (auto simp: free_frames_def)
  define m1 where "m1 = m\<lparr>pmst := pm', phys := (phys m)(cr3 m + PD_INDEX va * 4 := p OR 7)\<rparr>"
  note nt = new_table [OF inv va al, folded m1_def]
  have p7: "PG (p OR 7) = p" by (rule PG_or_flags [OF nt(4)]) (simp add: PG_MASK_def)
  have pres: "bit (pde_of m1 va) 0" by (simp add: nt(3) bit_0 even_or_iff)
  note wp = write_pte [OF nt(2) va pres pa fl]
  define m2 where "m2 = m1\<lparr>phys := (phys m1)(PG (pde_of m1 va) + PT_INDEX va * 4 := pa OR flags)\<rparr>"
  have run: "set_mapping va pa flags m = Inr m2"
    using set_mapping_missing [OF sm no] al(1) nt(1) wp(1) by (simp add: m2_def)
  have pd2: "pde_of m2 x = pde_of m1 x" for x unfolding m2_def by (rule wp(3))
  have same: "walk m2 x = walk m x" if x: "PD_INDEX x \<noteq> 1023 \<and> PD_INDEX x \<noteq> PD_INDEX va" for x
  proof (rule walk_cong)
    show pd: "pde_of m2 x = pde_of m x" using x by (simp add: pd2 nt(3))
    assume "bit (pde_of m x) 0"
    from nt(5) [OF this] x have "pte_of m1 x = pte_of m x" "PG (pde_of m x) \<noteq> p" by auto
    moreover from this have "pte_of m2 x = pte_of m1 x"
      unfolding m2_def using x by (intro wp(5)) (simp_all add: nt(3) p7)
    ultimately show "pte_of m2 x = pte_of m x" by simp
  qed
  have cp: "cr3 m \<noteq> p" and al3: "cr3 m AND 4095 = 0"
    using inv al(4) by (auto simp: pgt_inv_def self_map_def)
  have stale: "pde_of m2 x = p OR 7 \<and> pte_of m2 x = phys m (p + PT_INDEX x * 4)"
    if x: "PD_INDEX x = PD_INDEX va \<and> PT_INDEX x \<noteq> PT_INDEX va" for x
  proof -
    have "pte_of m2 x = pte_of m1 x"
      unfolding m2_def using x va by (intro wp(5)) simp_all
    moreover have "p + PT_INDEX x * 4 \<noteq> cr3 m + PD_INDEX va * 4"
      using frame_ne [OF al3 nt(4) cp] by metis
    ultimately show ?thesis
      using x by (simp add: pd2 nt(3) pte_of_def p7) (simp add: m1_def)
  qed
  have pdes: "pde_of m2 x = (if PD_INDEX x = PD_INDEX va then p OR 7 else pde_of m x)" for x by (simp add: pd2 nt(3))
  have ff: "free_frames m2 = free_frames m - {p}" using al(3,5) by (auto simp: free_frames_def m2_def m1_def)
  have w: "walk m2 x = Some (pa + (x AND 4095))" if "PG x = PG va" for x unfolding m2_def by (rule wp(4) [OF that])
  have inv2: "pgt_inv m2" unfolding m2_def by (rule wp(2))
  have c2: "cr3 m2 = cr3 m" by (simp add: m2_def m1_def)
  have ph: "phys m2 a = phys m a" if a: "PG a \<noteq> cr3 m \<and> PG a \<noteq> p" for a
  proof -
    have "PG (cr3 m + PD_INDEX va * 4) = cr3 m" "PG (p + PT_INDEX va * 4) = p"
      using page_offset(1) [OF PG_fix [THEN iffD1, OF al3] idx_less(1)] page_offset(1) [OF PG_fix [THEN iffD1, OF nt(4)] idx_less(2)] by simp_all
    then have "a \<noteq> cr3 m + PD_INDEX va * 4" "a \<noteq> p + PT_INDEX va * 4" using a by blast+
    then show ?thesis by (simp add: m2_def nt(3) p7) (simp add: m1_def)
  qed
  show ?thesis
    by (rule bexI [OF _ al(4)], rule exI [of _ m2], intro conjI allI impI run inv2 w ff pdes same c2 ph)
      (use stale in blast)+
qed

text \<open>
  The words that are translated through other entries than the one that mapping \<open>va\<close> writes, and the frames that hold
  neither a table nor free memory.
\<close>

definition other_entry :: "machine \<Rightarrow> u32 \<Rightarrow> u32 \<Rightarrow> bool" where
  "other_entry m va x \<longleftrightarrow> (if has_table m va then PG (pde_of m x) \<noteq> PG (pde_of m va) \<or> PT_INDEX x \<noteq> PT_INDEX va
     else PD_INDEX x \<noteq> PD_INDEX va)"

definition data_frame :: "machine \<Rightarrow> u32 \<Rightarrow> bool" where
  "data_frame m f \<longleftrightarrow> f \<notin> free_frames m \<and> f \<noteq> cr3 m \<and> (\<forall>x. bit (pde_of m x) 0 \<longrightarrow> f \<noteq> PG (pde_of m x))"

lemma set_mapping_step:
  assumes inv: "pgt_inv m" and va: "PD_INDEX va \<noteq> 1023" and free: "free_frames m \<noteq> {}"
    and pa: "pa AND 4095 = 0" and fl: "bit flags 0" "flags AND PG_MASK = 0"
  shows "\<exists>m'. set_mapping va pa flags m = Inr m' \<and> pgt_inv m' \<and> cr3 m' = cr3 m
    \<and> (\<forall>x. PG x = PG va \<longrightarrow> walk m' x = Some (pa + (x AND 4095)))
    \<and> (\<forall>x. PD_INDEX x \<noteq> 1023 \<and> other_entry m va x \<longrightarrow> walk m' x = walk m x)
    \<and> (\<forall>x. pde_of m' x = pde_of m x
         \<or> \<not> has_table m va \<and> PD_INDEX x = PD_INDEX va \<and> PG (pde_of m' x) \<in> free_frames m)
    \<and> (\<forall>a. data_frame m (PG a) \<longrightarrow> phys m' a = phys m a)"
proof (cases "has_table m va")
  case True
  then have pres: "bit (pde_of m va) 0" by (simp add: has_table_def)
  have sm: "self_map m" using inv by (simp add: pgt_inv_def)
  note wp = write_pte [OF inv va pres pa fl]
  define m' where "m' = m\<lparr>phys := (phys m)(PG (pde_of m va) + PT_INDEX va * 4 := pa OR flags)\<rparr>"
  note wp = wp [folded m'_def]
  have w: "walk m' x = walk m x" if "PD_INDEX x \<noteq> 1023 \<and> other_entry m va x" for x
    using that True walk_cong [OF wp(3) wp(5)] by (simp add: other_entry_def)
  have t: "PG (PG (pde_of m va) + PT_INDEX va * 4) = PG (pde_of m va)" by (rule page_offset(1)) (simp_all add: idx_less)
  have ph: "phys m' a = phys m a" if "data_frame m (PG a)" for a
  proof -
    have "a \<noteq> PG (pde_of m va) + PT_INDEX va * 4" using that pres t unfolding data_frame_def by metis
    then show ?thesis by (simp add: m'_def)
  qed
  have "set_mapping va pa flags m = Inr m'" using set_mapping_present [OF sm True] wp(1) by simp
  moreover have "cr3 m' = cr3 m" by (simp add: m'_def)
  ultimately show ?thesis
    using wp(2-4) w ph by blast
next
  case False
  obtain p m' where p: "p \<in> free_frames m" "set_mapping va pa flags m = Inr m'" "pgt_inv m'"
    "\<forall>x. PG x = PG va \<longrightarrow> walk m' x = Some (pa + (x AND 4095))"
    "\<forall>x. PD_INDEX x \<noteq> 1023 \<and> PD_INDEX x \<noteq> PD_INDEX va \<longrightarrow> walk m' x = walk m x"
    "\<forall>x. pde_of m' x = (if PD_INDEX x = PD_INDEX va then p OR 7 else pde_of m x)" "cr3 m' = cr3 m"
    "\<forall>a. PG a \<noteq> cr3 m \<and> PG a \<noteq> p \<longrightarrow> phys m' a = phys m a"
    using set_mapping_new [OF inv va False free pa fl] by (elim bexE exE conjE) (rule that)
  have "pm_inv (pmst m)" using inv by (simp add: pgt_inv_def)
  then have "p AND 4095 = 0" using p(1) pm.pool_aligned by (auto simp: free_frames_def)
  then have p7: "PG (p OR 7) = p" by (rule PG_or_flags) (simp add: PG_MASK_def)
  have pd: "pde_of m' x = pde_of m x \<or> \<not> has_table m va \<and> PD_INDEX x = PD_INDEX va \<and> PG (pde_of m' x) \<in> free_frames m" for x
    using p(1,6) p7 False by simp
  have w: "walk m' x = walk m x" if "PD_INDEX x \<noteq> 1023 \<and> other_entry m va x" for x
    using p(5) that False by (simp add: other_entry_def)
  have ph: "phys m' a = phys m a" if "data_frame m (PG a)" for a
    using p(1,8) that by (auto simp: data_frame_def)
  show ?thesis by (intro exI [of _ m'] conjI p(2,3,4,7) allI impI pd) (use w ph in blast)+
qed

subsection \<open>Releasing the frame behind a page\<close>

lemma same_page: "PG x = PG y \<Longrightarrow> pde_of m x = pde_of m y \<and> pte_of m x = pte_of m y"
  unfolding pde_of_def pte_of_def by (metis PD_INDEX_PG PT_INDEX_PG)

lemma vzero_frame:
  assumes va: "PG va = va" and f: "walk m va = Some f" and ne: "f \<noteq> cr3 m" "f \<noteq> PG (pde_of m va)"
    and sm: "cr3 m AND 4095 = 0" and n: "i + n \<le> 1024"
  shows "\<exists>p. vzero (va + word_of_nat i * 4) n m = Inr (m\<lparr>phys := p\<rparr>)
    \<and> (\<forall>a. (\<forall>j < 1024. a \<noteq> f + word_of_nat j * 4) \<longrightarrow> p a = phys m a)
    \<and> (\<forall>j < 1024. p (f + word_of_nat j * 4) = (if i \<le> j \<and> j < i + n then 0 else phys m (f + word_of_nat j * 4)))"
  using f ne sm n
proof (induction n arbitrary: i m)
  case 0
  then show ?case by (auto intro!: exI [of _ "phys m"])
next
  case (Suc n)
  let ?i = "word_of_nat i :: u32"
  have ui: "unat ?i < 1024" using Suc.prems by (simp add: unat_word_of_nat_32)
  have "va AND 4095 = 0" using va PG_aligned by metis
  then have fa: "f AND 4095 = 0"
    using Suc.prems(1) by (auto simp: walk_def split: if_splits)
  have "walk m (va + ?i * 4) = Some (f + ?i * 4)"
    using Suc.prems(1) same_page [of "va + ?i * 4" va m] page_offset [OF va ui] \<open>va AND 4095 = 0\<close> va
    by (auto simp: walk_def split: if_splits)
  define m1 where "m1 = m\<lparr>phys := (phys m)(f + ?i * 4 := 0)\<rparr>"
  have step: "vzero (va + ?i * 4) (Suc n) m = vzero (va + word_of_nat (Suc i) * 4) n m1"
    using \<open>walk m (va + ?i * 4) = _\<close> by (simp add: vwrite_def m1_def algebra_simps)
  have pd: "pde_of m1 va = pde_of m va"
    using entry_inj [OF fa Suc.prems(4) ui idx_less(1), of va] Suc.prems(2)
    by (auto simp: pde_of_def m1_def)
  moreover have "pte_of m1 va = pte_of m va"
    using entry_inj [OF fa PG_aligned ui idx_less(2), of "pde_of m va" va] Suc.prems(3)
    unfolding pte_of_def pd by (auto simp: m1_def)
  ultimately have "walk m1 va = Some f" using Suc.prems(1) by (simp add: walk_def cong: if_cong split: if_splits)
  from Suc.IH [OF this, of "Suc i"] Suc.prems pd obtain p where
    p: "vzero (va + word_of_nat (Suc i) * 4) n m1 = Inr (m1\<lparr>phys := p\<rparr>)"
       "\<forall>a. (\<forall>j < 1024. a \<noteq> f + word_of_nat j * 4) \<longrightarrow> p a = phys m1 a"
       "\<forall>j < 1024. p (f + word_of_nat j * 4) =
          (if Suc i \<le> j \<and> j < Suc i + n then 0 else phys m1 (f + word_of_nat j * 4))"
    by (auto simp: m1_def)
  have e: "f + word_of_nat j * 4 = f + ?i * 4 \<longleftrightarrow> j = i" if "j < 1024" for j
    using entry_inj [OF fa fa _ ui, of "word_of_nat j"] that Suc.prems(5)
    by (simp add: unat_word_of_nat_32 word_unat_eq_iff)
  have "i < 1024" using Suc.prems by simp
  then have "p a = phys m a" if "\<forall>j < 1024. a \<noteq> f + word_of_nat j * 4" for a
    using p(2) that by (auto simp: m1_def)
  moreover have "p (f + word_of_nat j * 4) =
      (if i \<le> j \<and> j < i + Suc n then 0 else phys m (f + word_of_nat j * 4))" if "j < 1024" for j
    using p(3) e [OF that] that by (auto simp: m1_def)
  ultimately show ?case using p(1) unfolding step by (auto simp: m1_def)
qed

lemma phy_release_vpage_effect:
  assumes inv: "pgt_inv m" and va: "PG va = va" "PD_INDEX va \<noteq> 1023" and w: "walk m va = Some f"
    and f: "f \<in> pm_taken (pmst m)" "f \<noteq> cr3 m" "f \<noteq> PG (pde_of m va)"
  shows "\<exists>m'. phy_release_vpage va m = Inr m' \<and> walk m' va = Some f
    \<and> (\<forall>i. unat i < 1024 \<longrightarrow> phys m' (f + i * 4) = 0)
    \<and> pm_taken (pmst m') = pm_taken (pmst m) - {f} \<and> pm_inv (pmst m')"
proof -
  have sm: "self_map m" and pmi: "pm_inv (pmst m)" and al: "cr3 m AND 4095 = 0"
    using inv by (auto simp: pgt_inv_def self_map_def)
  have "va AND 4095 = 0" using va(1) PG_aligned by metis
  then have f': "f = PG (pte_of m va)" and pr: "bit (pde_of m va) 0" "bit (pte_of m va) 0"
    using w by (auto simp: walk_def split: if_splits)
  then have fa: "f AND 4095 = 0" by simp
  from vzero_frame [OF va(1) w f(2,3) al, of 0 1024] obtain p where
    p: "vzero va 1024 m = Inr (m\<lparr>phys := p\<rparr>)"
       "\<forall>a. (\<forall>j < 1024. a \<noteq> f + word_of_nat j * 4) \<longrightarrow> p a = phys m a"
       "\<forall>j < 1024. p (f + word_of_nat j * 4) = 0" by auto
  let ?m = "m\<lparr>phys := p\<rparr>"
  have off: "p (g + i * 4) = phys m (g + i * 4)" if "g AND 4095 = 0" "g \<noteq> f" "unat i < 1024" for g i
  proof -
    have "g + i * 4 \<noteq> f + word_of_nat j * 4" if "j < 1024" for j
      using entry_inj [OF \<open>g AND 4095 = 0\<close> fa \<open>unat i < 1024\<close>, of "word_of_nat j"] that \<open>g \<noteq> f\<close>
      by (simp add: unat_word_of_nat_32)
    then show ?thesis using p(2) by blast
  qed
  have pd: "pde_of ?m va = pde_of m va" using off [OF al _ idx_less(1)] f(2) by (simp add: pde_of_def)
  have pt: "pte_of ?m va = pte_of m va"
    using off [OF PG_aligned _ idx_less(2), of "pde_of m va" va] f(3) pd by (simp add: pte_of_def)
  have "self_map ?m" using sm off [OF al _, of 1023] f(2) by (simp add: self_map_def)
  from walk_GET_PTE [OF this, of va] pr pd have rd: "vread ?m (GET_PTE va) = Inr (pte_of m va)"
    using pt by (simp add: vread_def pte_of_def)
  have "f \<in> pm_pool (pmst m)" using f(1) pm.taken_pool [OF pmi] by auto
  from pm.release [OF pmi this] obtain pm' where
    rel: "phy_release_page (Some f) (pmst m) = Inr pm'" "pm_inv pm'" "pm_taken pm' = pm_taken (pmst m) - {f}"
    by blast
  have run: "phy_release_vpage va m = Inr (?m\<lparr>pmst := pm'\<rparr>)"
    using p(1) rd rel(1) by (simp add: phy_release_vpage_def f' [symmetric])
  have "walk (?m\<lparr>pmst := pm'\<rparr>) va = walk ?m va" by (simp add: walk_def pde_of_def pte_of_def)
  also have "\<dots> = Some f" using w pd pt by (simp add: walk_def split: if_splits)
  finally have wk: "walk (?m\<lparr>pmst := pm'\<rparr>) va = Some f" .
  have "p (f + i * 4) = 0" if "unat i < 1024" for i
    using p(3) [rule_format, of "unat i"] that by simp
  then show ?thesis using run wk rel(2,3) by auto
qed

subsection \<open>The kernel's first tables\<close>

lemma page_split:
  assumes "(w :: u32) = take_bit 20 w"
  shows "PT_INDEX w * 4096 + (w AND 4095) = w"
proof -
  have "push_bit 12 (PT_INDEX w) + (w AND 4095) = push_bit 12 (PT_INDEX w) OR (w AND 4095)"
    by (rule disjunctive_add_eq_or, rule bit_word_eqI) (auto simp: PT_INDEX_def pg_bits consts_mask(1))
  also have "\<dots> = take_bit 20 w"
    by (subst assms, rule bit_word_eqI) (auto simp: PT_INDEX_def pg_bits consts_mask(1))
  finally show ?thesis using assms by (simp add: times_4096)
qed

lemma paging_loop_at:
  "j < n \<Longrightarrow> n \<le> 1024 \<Longrightarrow>
   paging_loop n p flags (PGTABLE + word_of_nat j * 4) = (word_of_nat j * PGSIZE) OR flags"
proof (induction n)
  case (Suc n)
  have "PGTABLE + word_of_nat j * 4 = PGTABLE + word_of_nat n * 4 \<longleftrightarrow> (word_of_nat j :: u32) = word_of_nat n"
    using Suc.prems by (subst entry_inj) (auto simp: PGTABLE_def unat_word_of_nat_32)
  also have "\<dots> \<longleftrightarrow> j = n"
    using Suc.prems by (simp add: word_unat_eq_iff unat_word_of_nat_32)
  finally show ?case using Suc by auto
qed simp

lemma paging_loop_off:
  "f AND 4095 = 0 \<Longrightarrow> f \<noteq> PGTABLE \<Longrightarrow> unat i < 1024 \<Longrightarrow> n \<le> 1024 \<Longrightarrow>
   paging_loop n p flags (f + i * 4) = p (f + i * 4)"
proof (induction n)
  case (Suc n)
  have "f + i * 4 \<noteq> PGTABLE + word_of_nat n * 4"
    using Suc.prems by (subst entry_inj) (auto simp: PGTABLE_def unat_word_of_nat_32)
  with Suc show ?case by simp
qed simp

lemma paging_consts:
  "PGFLAG_US OR PGFLAG_RW OR PGFLAG_PS = 7" "V2P PGDIR_HOO = PDTABLE" "PD_INDEX KERN_HIGH_MAPPING = 512"
  "unat (MM_BASE div PGSIZE) = 256" "PDTABLE AND 4095 = 0" "PDTABLE \<noteq> PGTABLE"
  by (simp_all add: pg_flags V2P_def PGDIR_HOO_def PDTABLE_def PGTABLE_def PD_INDEX_def
      KERN_HIGH_MAPPING_def mem_consts drop_bit_eq_div)

lemma paging_pde:
  assumes "unat i < 1024"
  shows "phys (paging m) (PDTABLE + i * 4) =
    (if i = 0 \<or> i = 512 then PGTABLE OR 7 else if i = 1023 then PDTABLE OR 7 else phys m (PDTABLE + i * 4))"
proof -
  have e: "PDTABLE + i * 4 = PDTABLE + j * 4 \<longleftrightarrow> i = j" if "unat j < 1024" for j
    using entry_inj [of PDTABLE PDTABLE i j] assms that paging_consts(5) by simp
  have e0: "PDTABLE + i * 4 = PDTABLE \<longleftrightarrow> i = 0" using e [of 0] by simp
  have e512: "PDTABLE + i * 4 = PDTABLE + 512 * 4 \<longleftrightarrow> i = 512" by (rule e) simp
  have e1023: "PDTABLE + i * 4 = PDTABLE + 1023 * 4 \<longleftrightarrow> i = 1023" by (rule e) simp
  let ?p = "(phys m)(PDTABLE := PGTABLE OR 7, PDTABLE + 512 * 4 := PGTABLE OR 7, PDTABLE + 1023 * 4 := PDTABLE OR 7)"
  have "phys (paging m) (PDTABLE + i * 4) = ?p (PDTABLE + i * 4)"
    using paging_loop_off [OF paging_consts(5,6) assms, of 256 ?p 7]
    by (simp add: paging_def Let_def paging_consts)
  also have "\<dots> = (if i = 0 \<or> i = 512 then PGTABLE OR 7 else if i = 1023 then PDTABLE OR 7
      else phys m (PDTABLE + i * 4))"
    unfolding fun_upd_apply e0 e512 e1023 by simp
  finally show ?thesis .
qed

lemma paging_walk:
  assumes i: "PD_INDEX va = 0 \<or> PD_INDEX va = 512" and pt: "unat (PT_INDEX va) < 256"
  shows "walk (paging m) va = Some (PT_INDEX va * 4096 + (va AND 4095))"
proof -
  have c: "cr3 (paging m) = PDTABLE" by (simp add: paging_def Let_def paging_consts)
  have "pde_of (paging m) va = PGTABLE OR 7"
    unfolding pde_of_def c using i paging_pde [OF idx_less(1)] by metis
  moreover have g: "PG (PGTABLE OR 7) = PGTABLE"
    by (rule PG_or_flags) (simp_all add: PGTABLE_def PG_MASK_def)
  moreover have "phys (paging m) (PGTABLE + PT_INDEX va * 4) = PT_INDEX va * PGSIZE OR 7"
  proof -
    have "\<exists>p. phys (paging m) = paging_loop 256 p 7"
      by (simp add: paging_def Let_def paging_consts) blast
    then obtain p where p: "phys (paging m) = paging_loop 256 p 7" ..
    from paging_loop_at [OF pt, of p 7] show ?thesis unfolding p by simp
  qed
  moreover have "PT_INDEX va * PGSIZE AND 4095 = 0"
    by (rule bit_word_eqI) (auto simp: PT_INDEX_def PGSIZE_def pg_bits consts_mask(1) times_4096)
  then have "PG (PT_INDEX va * PGSIZE OR 7) = PT_INDEX va * PGSIZE"
    by (rule PG_or_flags) (simp add: PG_MASK_def)
  ultimately show ?thesis
    by (simp add: walk_def pte_of_def bit_0 even_or_iff PGSIZE_def)
qed

lemma self_map_paging: "self_map (paging m)"
proof -
  have "phys (paging m) (PDTABLE + 1023 * 4) = PDTABLE OR 7" by (subst paging_pde) simp_all
  moreover have "PG (PDTABLE OR 7) = PDTABLE"
    by (rule PG_or_flags [OF paging_consts(5)]) (simp add: PG_MASK_def)
  moreover have "cr3 (paging m) = PDTABLE" by (simp add: paging_def Let_def paging_consts)
  ultimately show ?thesis
    by (simp add: self_map_def paging_consts bit_0 even_or_iff)
qed

lemma bit_exp_u32: "k < 32 \<Longrightarrow> bit (2 ^ k :: u32) n \<longleftrightarrow> n = k"
  by (auto simp: bit_exp_iff)

lemma low_mb:
  assumes "unat (w :: u32) < 0x100000"
  shows "PD_INDEX w = 0" "unat (PT_INDEX w) < 256" "w = take_bit 20 w"
    "PD_INDEX (KERN_HIGH_MAPPING + w) = 512" "PT_INDEX (KERN_HIGH_MAPPING + w) = PT_INDEX w"
    "(KERN_HIGH_MAPPING + w) AND 4095 = w AND 4095"
proof -
  show t: "w = take_bit 20 w"
    using assms by (simp add: take_bit_eq_mod word_unat_eq_iff unat_mod)
  show "PD_INDEX w = 0"
    by (subst t, rule bit_word_eqI) (auto simp: PD_INDEX_def pg_bits)
  have "PT_INDEX w = take_bit 8 (PT_INDEX w)"
    by (subst (1 2) t, rule bit_word_eqI) (auto simp: PT_INDEX_def pg_bits)
  moreover have "unat (take_bit 8 (PT_INDEX w)) < 256"
    by (simp add: take_bit_eq_mod unat_mod)
  ultimately show "unat (PT_INDEX w) < 256" by metis
  have "KERN_HIGH_MAPPING = 2 ^ 31" by (simp add: KERN_HIGH_MAPPING_def)
  then have k: "bit KERN_HIGH_MAPPING n \<longleftrightarrow> n = 31" for n
    using bit_exp_u32 [of 31 n] by (simp del: power_numeral)
  have o: "KERN_HIGH_MAPPING + w = KERN_HIGH_MAPPING OR w"
    by (subst (1 2) t, rule disjunctive_add_eq_or, rule bit_word_eqI) (auto simp: pg_bits k)
  have "PD_INDEX (KERN_HIGH_MAPPING OR w) = PD_INDEX KERN_HIGH_MAPPING"
    by (subst t, rule bit_word_eqI) (auto simp: PD_INDEX_def pg_bits k)
  then show "PD_INDEX (KERN_HIGH_MAPPING + w) = 512" unfolding o paging_consts(3) .
  show "PT_INDEX (KERN_HIGH_MAPPING + w) = PT_INDEX w" "(KERN_HIGH_MAPPING + w) AND 4095 = w AND 4095"
    unfolding o by (rule bit_word_eqI, auto simp: PT_INDEX_def pg_bits consts_mask(1) k)+
qed

subsection \<open>Properties\<close>

text \<open>The machine after paging() on zeroed memory, for the witnesses.\<close>

definition mc_sample :: machine where
  "mc_sample = paging \<lparr>phys = (\<lambda>_. 0), cr3 = 0, pmst = pm_sample\<rparr>"

lemma pm_pool_ge: "pm_inv s \<Longrightarrow> p \<in> pm_pool s \<Longrightarrow> unat MM_BASE \<le> unat p"
  by (auto simp: pm_pool_def pages_def pm_inv_def unat_page_at dest!: pool_bound)

lemma mc_sample_inv: "pgt_inv mc_sample" "\<not> has_table mc_sample 0xf0000000" "has_table mc_sample 0x1000"
proof -
  let ?m0 = "\<lparr>phys = (\<lambda>_. 0), cr3 = 0, pmst = pm_sample\<rparr> :: machine"
  have c: "cr3 mc_sample = PDTABLE" "pmst mc_sample = pm_sample"
    by (simp_all add: mc_sample_def paging_def Let_def paging_consts)
  have pde: "pde_of mc_sample x = (if PD_INDEX x = 0 \<or> PD_INDEX x = 512 then PGTABLE OR 7
      else if PD_INDEX x = 1023 then PDTABLE OR 7 else 0)" for x
    unfolding pde_of_def c unfolding mc_sample_def using paging_pde [where m = ?m0, OF idx_less(1) [of x]] by simp
  have g: "PG (PGTABLE OR 7) = PGTABLE" by (rule PG_or_flags) (simp_all add: PGTABLE_def PG_MASK_def)
  have "unat PDTABLE < unat MM_BASE" "unat PGTABLE < unat MM_BASE"
    by (simp_all add: PDTABLE_def PGTABLE_def MM_BASE_def)
  then have nf: "PDTABLE \<notin> free_frames mc_sample" "PGTABLE \<notin> free_frames mc_sample"
    using pm_pool_ge [OF pm_sample_inv] by (fastforce simp: free_frames_def c)+
  show "pgt_inv mc_sample"
    using self_map_paging [of ?m0] pm_sample_inv nf paging_consts(6)
    by (auto simp: pgt_inv_def c pde g mc_sample_def [symmetric])
  show "\<not> has_table mc_sample 0xf0000000" "has_table mc_sample 0x1000"
    by (simp_all add: has_table_def pde PD_INDEX_def drop_bit_eq_div PGTABLE_def bit_numeral_rec)
qed

lemma mc_sample_free: "free_frames mc_sample \<noteq> {}"
proof -
  have "page_at MM_BASE 3 \<in> pm_pool pm_sample" by (simp add: pm_pool_def pages_def pm_sample_def bm_sample_wf)
  moreover have "page_at MM_BASE 3 \<notin> pm_taken pm_sample"
    unfolding pm_taken_def pm_sample_def pm.select_convs
    using pages_mem [OF _ bm_bits_sub, of MM_BASE bm_sample 3] bm_sample_wf pm_sample_inv
    by (simp add: pm_inv_def pm_sample_def)
  ultimately show ?thesis
    by (auto simp: free_frames_def mc_sample_def paging_def Let_def)
qed

lemma mc_sample_frames: "3 \<le> card (free_frames mc_sample)"
proof -
  have "k \<notin> bm_bits bm_sample" if "k \<in> {3, 4, 5}" for k
    using that by (auto simp: bm_sample_def bm_bits_def bm_bit_def bit_iff_odd)
  then have "page_at MM_BASE ` {3, 4, 5} \<subseteq> free_frames mc_sample"
    using pages_mem [OF _ bm_bits_sub, of MM_BASE bm_sample] pm_sample_inv
    by (auto simp: free_frames_def mc_sample_def paging_def Let_def pm_pool_def pm_taken_def pm_sample_def pages_def pm_inv_def bm_sample_wf)
  moreover have "finite (free_frames mc_sample)" by (simp add: free_frames_def pm_pool_def pages_def)
  ultimately have "card (page_at MM_BASE ` {3, 4, 5 :: nat}) \<le> card (free_frames mc_sample)" by (rule card_mono [rotated])
  moreover have "page_at MM_BASE ` {3, 4, 5} = {0x103000, 0x104000, 0x105000}" by (simp add: page_at_def MM_BASE_def)
  ultimately show ?thesis by simp
qed

text \<open>Paging() maps the first megabyte of physical memory both at its own address and at
  KERN_HIGH_MAPPING, and installs the directory as its own last page table.\<close>
theorem paging_maps_kernel:
  assumes "unat w < 0x100000"
  shows "walk (paging m) w = Some w \<and> walk (paging m) (KERN_HIGH_MAPPING + w) = Some w
    \<and> self_map (paging m)"
  using low_mb [OF assms] page_split [OF low_mb(3) [OF assms]] self_map_paging
  by (simp add: paging_walk)

theorem paging_maps_kernel_witness:
  "walk (paging mc_sample) 0xb8000 = Some 0xb8000
    \<and> walk (paging mc_sample) (KERN_HIGH_MAPPING + 0xb8000) = Some 0xb8000 \<and> self_map (paging mc_sample)"
  by (rule paging_maps_kernel) simp

text \<open>C6: set_mapping maps exactly the page it is given. For an address outside the last 4 MB, through which the tables
  themselves are seen, a page-aligned frame, flags with the present flag, and a free frame in case a table is needed:
  afterwards every address of the page translates to the frame. Where the page table exists, the translation of no
  address outside the last 4 MB changes whose entry is another one; where it is missing, a table is allocated, and no
  translation changes outside the 4 MB of that table and the last 4 MB. In both cases the paging invariant is kept.\<close>
theorem set_mapping_translates:
  assumes "pgt_inv m" and "PD_INDEX va \<noteq> 1023" and "free_frames m \<noteq> {}"
    and "pa AND 4095 = 0" and "bit flags 0" and "flags AND PG_MASK = 0"
  shows "\<exists>m'. set_mapping va pa flags m = Inr m' \<and> pgt_inv m'
    \<and> (\<forall>x. PG x = PG va \<longrightarrow> walk m' x = Some (pa + (x AND 4095)))
    \<and> (\<forall>x. PD_INDEX x \<noteq> 1023 \<and>
         (if has_table m va then PG (pde_of m x) \<noteq> PG (pde_of m va) \<or> PT_INDEX x \<noteq> PT_INDEX va
          else PD_INDEX x \<noteq> PD_INDEX va) \<longrightarrow> walk m' x = walk m x)"
proof -
  obtain m' where m': "set_mapping va pa flags m = Inr m'" "pgt_inv m'" "\<forall>x. PG x = PG va \<longrightarrow> walk m' x = Some (pa + (x AND 4095))"
    "\<forall>x. PD_INDEX x \<noteq> 1023 \<and> other_entry m va x \<longrightarrow> walk m' x = walk m x"
    using set_mapping_step [OF assms] by blast
  then show ?thesis unfolding other_entry_def by blast
qed

theorem set_mapping_translates_witness:
  "\<exists>m'. set_mapping 0xf0000000 0x104000 7 mc_sample = Inr m' \<and> pgt_inv m'
    \<and> (\<forall>x. PG x = PG 0xf0000000 \<longrightarrow> walk m' x = Some (0x104000 + (x AND 4095)))
    \<and> (\<forall>x. PD_INDEX x \<noteq> 1023 \<and>
         (if has_table mc_sample 0xf0000000
          then PG (pde_of mc_sample x) \<noteq> PG (pde_of mc_sample 0xf0000000) \<or> PT_INDEX x \<noteq> PT_INDEX 0xf0000000
          else PD_INDEX x \<noteq> PD_INDEX 0xf0000000) \<longrightarrow> walk m' x = walk mc_sample x)"
  by (rule set_mapping_translates [OF mc_sample_inv(1) _ mc_sample_free])
    (simp_all add: PD_INDEX_def drop_bit_eq_div PG_MASK_def bit_0)

text \<open>Set_mapping does not clear the page table it allocates: right after, the entries of all
  other pages of those 4 MB are whatever the free page held.\<close>
theorem set_mapping_stale_table:
  assumes "pgt_inv m" and "PD_INDEX va \<noteq> 1023" and "\<not> has_table m va" and "free_frames m \<noteq> {}"
    and "pa AND 4095 = 0" and "bit flags 0" and "flags AND PG_MASK = 0"
  shows "\<exists>p \<in> free_frames m. \<exists>m'. set_mapping va pa flags m = Inr m'
    \<and> (\<forall>x. PD_INDEX x = PD_INDEX va \<and> PT_INDEX x \<noteq> PT_INDEX va \<longrightarrow>
         pte_of m' x = phys m (p + PT_INDEX x * 4))"
proof -
  from set_mapping_new [OF assms] obtain p m' where "p \<in> free_frames m" "set_mapping va pa flags m = Inr m'"
    "\<forall>x. PD_INDEX x = PD_INDEX va \<and> PT_INDEX x \<noteq> PT_INDEX va \<longrightarrow> pde_of m' x = p OR 7 \<and> pte_of m' x = phys m (p + PT_INDEX x * 4)"
    by (elim bexE exE conjE) (rule that)
  then show ?thesis by blast
qed

theorem set_mapping_stale_table_witness:
  "\<exists>p \<in> free_frames mc_sample. \<exists>m'. set_mapping 0xf0000000 0x104000 7 mc_sample = Inr m'
    \<and> (\<forall>x. PD_INDEX x = PD_INDEX 0xf0000000 \<and> PT_INDEX x \<noteq> PT_INDEX 0xf0000000 \<longrightarrow>
         pte_of m' x = phys mc_sample (p + PT_INDEX x * 4))"
  by (rule set_mapping_stale_table [OF mc_sample_inv(1) _ mc_sample_inv(2) mc_sample_free])
    (simp_all add: PD_INDEX_def drop_bit_eq_div PG_MASK_def bit_0)

text \<open>Phy_release_vpage zeroes the whole frame behind a page and gives it back to the pool, but it
  leaves the page mapped: afterwards the page still translates to the frame, which is now free
  to be handed out again.\<close>
theorem release_vpage_leaves_mapping:
  assumes "pgt_inv m" and "PG va = va" and "PD_INDEX va \<noteq> 1023" and "walk m va = Some f"
    and "f \<in> pm_taken (pmst m)" and "f \<noteq> cr3 m" and "f \<noteq> PG (pde_of m va)"
  shows "\<exists>m'. phy_release_vpage va m = Inr m'
    \<and> (\<forall>i. unat i < 1024 \<longrightarrow> phys m' (f + i * 4) = 0)
    \<and> pm_taken (pmst m') = pm_taken (pmst m) - {f} \<and> pm_inv (pmst m')
    \<and> walk m' va = Some f"
  using phy_release_vpage_effect [OF assms] by blast

definition mc_sample2 :: machine where
  "mc_sample2 = mc_sample\<lparr>phys :=
     (phys mc_sample)(PG (pde_of mc_sample 0x1000) + PT_INDEX 0x1000 * 4 := 0x100000 OR 7)\<rparr>"

lemma mc_sample2_facts:
  "pgt_inv mc_sample2" "walk mc_sample2 0x1000 = Some 0x100000" "0x100000 \<in> pm_taken (pmst mc_sample2)"
  "cr3 mc_sample2 = PDTABLE" "PG (pde_of mc_sample2 0x1000) \<noteq> 0x100000"
proof -
  have c: "cr3 mc_sample = PDTABLE" "pmst mc_sample = pm_sample"
    by (simp_all add: mc_sample_def paging_def Let_def paging_consts)
  have va: "PD_INDEX 0x1000 \<noteq> 1023" by (simp add: PD_INDEX_def drop_bit_eq_div)
  have pres: "bit (pde_of mc_sample 0x1000) 0" using mc_sample_inv(3) by (simp add: has_table_def)
  have pa: "(0x100000 :: u32) AND 4095 = 0" "bit (7 :: u32) 0" "7 AND PG_MASK = 0"
    by (simp_all add: PG_MASK_def bit_0)
  note wp = write_pte [OF mc_sample_inv(1) va pres pa, folded mc_sample2_def]
  show "pgt_inv mc_sample2" by (rule wp(2))
  have "walk mc_sample2 0x1000 = Some (0x100000 + (0x1000 AND 4095))" by (rule wp(4)) (rule refl)
  then show "walk mc_sample2 0x1000 = Some 0x100000" by simp
  show "cr3 mc_sample2 = PDTABLE" by (simp add: mc_sample2_def c)
  have b: "0 \<in> bm_bits bm_sample"
    by (simp add: bm_bits_def bm_cap_def bm_bit_def bm_sample_def bit_0)
  then have "page_at MM_BASE 0 \<in> pm_taken pm_sample" by (simp add: pm_taken_def pm_sample_def pages_def)
  then show "0x100000 \<in> pm_taken (pmst mc_sample2)"
    by (simp add: mc_sample2_def c page_at_def MM_BASE_def)
  have "pde_of mc_sample2 0x1000 = pde_of mc_sample 0x1000" by (rule wp(3))
  also have "\<dots> = phys mc_sample (PDTABLE + 0 * 4)"
    by (simp add: pde_of_def c PD_INDEX_def drop_bit_eq_div)
  also have "\<dots> = PGTABLE OR 7" unfolding mc_sample_def by (subst paging_pde) simp_all
  finally have "pde_of mc_sample2 0x1000 = PGTABLE OR 7" .
  moreover have "PG (PGTABLE OR 7) = PGTABLE" by (rule PG_or_flags) (simp_all add: PGTABLE_def PG_MASK_def)
  ultimately show "PG (pde_of mc_sample2 0x1000) \<noteq> 0x100000" by (simp add: PGTABLE_def)
qed

theorem release_vpage_leaves_mapping_witness:
  "\<exists>m'. phy_release_vpage 0x1000 mc_sample2 = Inr m'
    \<and> (\<forall>i. unat i < 1024 \<longrightarrow> phys m' (0x100000 + i * 4) = 0)
    \<and> pm_taken (pmst m') = pm_taken (pmst mc_sample2) - {0x100000} \<and> pm_inv (pmst m')
    \<and> walk m' 0x1000 = Some 0x100000"
  by (rule release_vpage_leaves_mapping [OF mc_sample2_facts(1) _ _ mc_sample2_facts(2,3)])
    (use mc_sample2_facts(4,5) in \<open>simp_all add: PG_def PG_MASK_def PD_INDEX_def drop_bit_eq_div PDTABLE_def\<close>)

end
