(* ===== verification/Interrupts.thy ===== *)
theory Interrupts
  imports Prelude
begin

section \<open>kern/desc, kern/intr, kern/syscall: descriptors and dispatch\<close>

text \<open>
  Segment descriptors (gdt.c, module/conf.c) and interrupt gates (intr.c,
  module/do_intr.c) as the packed structs of the source, with bit fields of their
  width; the bytes of a descriptor and what the processor reads from them; the tables
  the initialisation builds; the interrupt path from the gate through isr_part1 and
  isr_part2 to the handler; the exception handler isr_default and the system call table.
\<close>

subsection \<open>Segment descriptors\<close>

datatype access_bytes =
    Code_or_data "1 word" "1 word" "1 word" "1 word" "1 word" "2 word" "1 word"
  | Tss "1 word" "1 word" "1 word" "1 word" "1 word" "2 word" "1 word"

record desc =
  limit_15_0 :: u16
  base_15_0 :: u16
  base_23_16 :: u8
  accs :: access_bytes
  limit_19_16 :: "4 word"
  avl :: "1 word"
  long_mode :: "1 word"
  db :: "1 word"
  gran :: "1 word"
  base_31_24 :: u8

definition set_gdt ::
  "desc option \<Rightarrow> u32 \<Rightarrow> u32 \<Rightarrow> u8 \<Rightarrow> u8 \<Rightarrow> u8 \<Rightarrow> u8 \<Rightarrow> u8 \<Rightarrow> u8 \<Rightarrow> u8 \<Rightarrow> u8 \<Rightarrow> u8 \<Rightarrow> u8 \<Rightarrow> desc res" where
  "set_gdt d limit base a rw dc exe sys dpl ps l dbit g =
     nonnull ''set_gdt(): null pointer'' d (\<lambda>d.
     Inr \<lparr>limit_15_0 = ucast limit, base_15_0 = ucast base,
       base_23_16 = ucast (drop_bit 16 base),
       accs = (if sys \<noteq> 0
         then Code_or_data (ucast a) (ucast rw) (ucast dc) (ucast exe) 1 (ucast dpl) (ucast ps)
         else Tss 1 (ucast rw) 0 1 0 (ucast dpl) (ucast ps)),
       limit_19_16 = ucast (ucast (drop_bit 16 limit) :: u8),
       avl = 0, long_mode = ucast l, db = ucast dbit, gran = ucast g,
       base_31_24 = ucast (drop_bit 24 base)\<rparr>)"

text \<open>The byte layout of the packed struct, and what the processor reads from it.\<close>

definition access_byte :: "access_bytes \<Rightarrow> u8" where
  "access_byte b =
     (case b of
       Code_or_data a rw dc e s d p \<Rightarrow>
         ucast a OR push_bit 1 (ucast rw) OR push_bit 2 (ucast dc) OR push_bit 3 (ucast e)
         OR push_bit 4 (ucast s) OR push_bit 5 (ucast d) OR push_bit 7 (ucast p)
     | Tss t1 t2 t3 t4 s d p \<Rightarrow>
         ucast t1 OR push_bit 1 (ucast t2) OR push_bit 2 (ucast t3) OR push_bit 3 (ucast t4)
         OR push_bit 4 (ucast s) OR push_bit 5 (ucast d) OR push_bit 7 (ucast p))"

definition desc_bytes :: "desc \<Rightarrow> byte list" where
  "desc_bytes d =
     [ucast (limit_15_0 d), ucast (drop_bit 8 (limit_15_0 d)),
      ucast (base_15_0 d), ucast (drop_bit 8 (base_15_0 d)), base_23_16 d,
      access_byte (accs d),
      ucast (limit_19_16 d) OR push_bit 4 (ucast (avl d)) OR push_bit 5 (ucast (long_mode d))
        OR push_bit 6 (ucast (db d)) OR push_bit 7 (ucast (gran d)),
      base_31_24 d]"

definition seg_base :: "byte list \<Rightarrow> u32" where
  "seg_base b = ucast (b ! 2) OR push_bit 8 (ucast (b ! 3)) OR push_bit 16 (ucast (b ! 4))
     OR push_bit 24 (ucast (b ! 7))"

definition seg_limit :: "byte list \<Rightarrow> u32" where
  "seg_limit b = ucast (b ! 0) OR push_bit 8 (ucast (b ! 1))
     OR push_bit 16 (ucast (b ! 6) AND mask 4)"

definition seg_dpl :: "byte list \<Rightarrow> u8" where
  "seg_dpl b = drop_bit 5 (b ! 5) AND mask 2"

definition seg_present :: "byte list \<Rightarrow> bool" where
  "seg_present b = bit (b ! 5) 7"

definition seg_code :: "byte list \<Rightarrow> bool" where
  "seg_code b = (bit (b ! 5) 4 \<and> bit (b ! 5) 3)"

lemma word1_bit: "bit (w :: 1 word) n \<Longrightarrow> n = 0"
  using bit_imp_le_length [of w n] by simp

lemma bit_twice: "bit ((x :: u8) * 2) n \<longleftrightarrow> 0 < n \<and> n < 8 \<and> bit x (n - 1)"
proof -
  have "x * 2 = push_bit 1 x" by simp
  then show ?thesis by (simp only: bit_push_bit_iff) auto
qed

lemma set_gdt_read:
  assumes "set_gdt (Some d0) limit base a rw dc exe sys dpl ps l dbit g = Inr d"
  shows "seg_base (desc_bytes d) = base" and "seg_limit (desc_bytes d) = take_bit 20 limit"
    and "seg_dpl (desc_bytes d) = dpl AND mask 2" and "seg_present (desc_bytes d) = odd ps"
    and "seg_code (desc_bytes d) \<longleftrightarrow> sys \<noteq> 0 \<and> odd exe"
proof -
  have bits: "limit_15_0 d = ucast limit" "base_15_0 d = ucast base"
    "base_23_16 d = ucast (drop_bit 16 base)" "base_31_24 d = ucast (drop_bit 24 base)"
    "limit_19_16 d = ucast (ucast (drop_bit 16 limit) :: u8)"
    using assms by (auto simp: set_gdt_def)
  show "seg_base (desc_bytes d) = base"
  proof (rule bit_word_eqI)
    fix n assume "n < LENGTH(32)"
    then consider "n < 8" | "8 \<le> n" "n < 16" | "16 \<le> n" "n < 24" | "24 \<le> n" "n < 32" by fastforce
    then show "bit (seg_base (desc_bytes d)) n \<longleftrightarrow> bit base n"
      by cases (auto simp: seg_base_def desc_bytes_def bit_simps bits)
  qed
  show "seg_limit (desc_bytes d) = take_bit 20 limit"
  proof (rule bit_word_eqI)
    fix n assume "n < LENGTH(32)"
    then consider "n < 8" | "8 \<le> n" "n < 16" | "16 \<le> n" "n < 20" | "20 \<le> n" "n < 32" by fastforce
    then show "bit (seg_limit (desc_bytes d)) n \<longleftrightarrow> bit (take_bit 20 limit) n"
    proof cases
      case 3
      then have "n - 16 < 4" by simp
      with 3 show ?thesis
        by (auto simp: seg_limit_def desc_bytes_def bit_simps bits dest!: word1_bit)
    qed (auto simp: seg_limit_def desc_bytes_def bit_simps bits)
  qed
  have acc: "accs d = (if sys \<noteq> 0
         then Code_or_data (ucast a) (ucast rw) (ucast dc) (ucast exe) 1 (ucast dpl) (ucast ps)
         else Tss 1 (ucast rw) 0 1 0 (ucast dpl) (ucast ps))"
    using assms by (auto simp: set_gdt_def)
  show "seg_dpl (desc_bytes d) = dpl AND mask 2"
  proof (rule bit_word_eqI)
    fix n assume "n < LENGTH(8)"
    then consider "n = 0" | "n = 1" | "2 \<le> n" "n < 8" by fastforce
    then show "bit (seg_dpl (desc_bytes d)) n \<longleftrightarrow> bit (dpl AND mask 2) n"
      by cases (auto simp: seg_dpl_def desc_bytes_def acc access_byte_def bit_simps bit_twice
          dest!: word1_bit)
  qed
  have ev: "even x \<longleftrightarrow> \<not> bit x 0" for x :: u8 by (simp add: bit_0)
  have ev1: "bit (ucast x :: 1 word) n \<longleftrightarrow> n = 0 \<and> bit x 0" for x :: u8 and n
    by (auto simp: bit_simps)
  show "seg_present (desc_bytes d) = odd ps"
    unfolding seg_present_def desc_bytes_def acc ev
    by (auto simp: bit_simps access_byte_def bit_twice ev1 simp del: bit_0)
  show "seg_code (desc_bytes d) \<longleftrightarrow> sys \<noteq> 0 \<and> odd exe"
    unfolding seg_code_def desc_bytes_def acc ev
    by (auto simp: bit_simps access_byte_def bit_twice ev1 simp del: bit_0)
qed

subsection \<open>The kernel's GDT\<close>

definition CS_SELECTOR_KERN :: u16 where "CS_SELECTOR_KERN = 0x08"
definition DS_SELECTOR_KERN :: u16 where "DS_SELECTOR_KERN = 0x10"
definition CS_SELECTOR_USER :: u16 where "CS_SELECTOR_USER = 0x1b"
definition DS_SELECTOR_USER :: u16 where "DS_SELECTOR_USER = 0x23"

definition desc0 :: desc where
  "desc0 = \<lparr>limit_15_0 = 0, base_15_0 = 0, base_23_16 = 0, accs = Tss 0 0 0 0 0 0 0,
     limit_19_16 = 0, avl = 0, long_mode = 0, db = 0, gran = 0, base_31_24 = 0\<rparr>"

definition config_gdt :: "desc list \<Rightarrow> desc list res" where
  "config_gdt gdt =
     bindr (set_gdt (Some (gdt ! 0)) 0 0 0 0 0 0 0 0 0 0 0 0) (\<lambda>d0.
     bindr (set_gdt (Some (gdt ! 1)) 0xfffff 0 0 1 0 1 1 0 1 0 1 1) (\<lambda>d1.
     bindr (set_gdt (Some (gdt ! 2)) 0xfffff 0 0 1 0 0 1 0 1 0 1 1) (\<lambda>d2.
     bindr (set_gdt (Some (gdt ! 3)) 0xfffff 0 0 1 0 1 1 3 1 0 1 1) (\<lambda>d3.
     bindr (set_gdt (Some (gdt ! 4)) 0xfffff 0 0 1 0 0 1 3 1 0 1 1) (\<lambda>d4.
     Inr (gdt[0 := d0, 1 := d1, 2 := d2, 3 := d3, 4 := d4]))))))"

text \<open>\<open>sizeof(tss_t)\<close> is 26 dwords.\<close>

definition config_tss :: "u32 \<Rightarrow> desc list \<Rightarrow> desc list res" where
  "config_tss tss gdt =
     bindr (set_gdt (Some (gdt ! 5)) (26 * 4) tss 1 0 0 1 0 3 1 0 1 0) (\<lambda>d5.
     Inr (gdt[5 := d5]))"

text \<open>A selector: table index and requested privilege level.\<close>

definition sel_index :: "u16 \<Rightarrow> nat" where "sel_index s = unat (drop_bit 3 s)"
definition sel_rpl :: "u16 \<Rightarrow> u8" where "sel_rpl s = ucast (s AND 3)"

subsection \<open>Interrupt gates\<close>

record idt_entry =
  isr_low :: u16
  selector :: u16
  reserved :: u8
  attributes :: u8
  isr_high :: u16

datatype privilege = PL_KERN | PL_USER
datatype gatedesc = INTER_GATE | TRAP_GATE

primrec privilege_num :: "privilege \<Rightarrow> u8" where
  "privilege_num PL_KERN = 0"
| "privilege_num PL_USER = 3"

primrec gatedesc_num :: "gatedesc \<Rightarrow> u8" where
  "gatedesc_num INTER_GATE = 0x0e"
| "gatedesc_num TRAP_GATE = 0x0f"

definition set_idt_entry :: "idt_entry option \<Rightarrow> privilege \<Rightarrow> gatedesc \<Rightarrow> u32 \<Rightarrow> idt_entry res" where
  "set_idt_entry idt dpl gate addr =
     nonnull ''set_idt_entry(): null pointer'' idt (\<lambda>idt.
     let attr = push_bit 7 1 OR push_bit 5 (privilege_num dpl) OR gatedesc_num gate in
     Inr (idt\<lparr>isr_low := ucast addr, selector := CS_SELECTOR_KERN, reserved := 0,
       attributes := attr, isr_high := ucast (drop_bit 16 addr)\<rparr>))"

definition gate_offset :: "idt_entry \<Rightarrow> u32" where
  "gate_offset g = ucast (isr_low g) OR push_bit 16 (ucast (isr_high g))"

definition gate_dpl :: "idt_entry \<Rightarrow> u8" where
  "gate_dpl g = drop_bit 5 (attributes g) AND mask 2"

definition gate_type :: "idt_entry \<Rightarrow> u8" where
  "gate_type g = attributes g AND mask 5"

definition gate_present :: "idt_entry \<Rightarrow> bool" where
  "gate_present g = bit (attributes g) 7"

lemma set_idt_entry_read:
  assumes "set_idt_entry (Some g0) dpl gate addr = Inr g"
  shows "gate_offset g = addr" "gate_dpl g = privilege_num dpl" "gate_type g = gatedesc_num gate"
    "gate_present g" "selector g = CS_SELECTOR_KERN"
proof -
  have g: "isr_low g = ucast addr" "isr_high g = ucast (drop_bit 16 addr)"
    "attributes g = push_bit 7 1 OR push_bit 5 (privilege_num dpl) OR gatedesc_num gate"
    "selector g = CS_SELECTOR_KERN"
    using assms by (auto simp: set_idt_entry_def Let_def)
  have r: "16 + (n - 16) = n \<or> n < 16" for n :: nat by auto
  show "gate_offset g = addr"
    unfolding gate_offset_def g by (rule bit_word_eqI) (use r in \<open>auto simp: bit_simps\<close>)
  show "gate_dpl g = privilege_num dpl" "gate_type g = gatedesc_num gate" "gate_present g"
    unfolding gate_dpl_def gate_type_def gate_present_def g
    by (cases dpl; cases gate; simp add: drop_bit_eq_div mask_eq_exp_minus_1 bit_numeral_rec)+
  show "selector g = CS_SELECTOR_KERN" by (rule g(4))
qed

subsection \<open>Handlers and the two tables\<close>

datatype handler = Isr_default | Page_fault | Timer | Ps2_intr | Ata_irq_intr | Syscall

definition set_isr_entry :: "handler option \<Rightarrow> handler \<Rightarrow> handler res" where
  "set_isr_entry isr addr = nonnull ''set_isr_entry(): null pointer'' isr (\<lambda>_. Inr addr)"

fun isr_loop :: "handler list \<Rightarrow> nat \<Rightarrow> nat \<Rightarrow> handler list res" where
  "isr_loop isr i 0 = Inr isr"
| "isr_loop isr i (Suc n) =
     bindr (read_at ''__isr'' isr (int i)) (\<lambda>e.
     bindr (set_isr_entry (Some e) Isr_default) (\<lambda>e.
     isr_loop (isr[i := e]) (Suc i) n))"

fun idt_loop :: "(nat \<Rightarrow> u32) \<Rightarrow> idt_entry list \<Rightarrow> nat \<Rightarrow> nat \<Rightarrow> idt_entry list res" where
  "idt_loop isr_part1 idt i 0 = Inr idt"
| "idt_loop isr_part1 idt i (Suc n) =
     bindr (read_at ''__idt'' idt (int i)) (\<lambda>g.
     bindr (set_idt_entry (Some g) PL_KERN INTER_GATE (isr_part1 i)) (\<lambda>g.
     idt_loop isr_part1 (idt[i := g]) (Suc i) n))"

text \<open>\<open>isr_part1\<close> is the table of the assembly entry points of isr.S.\<close>

definition kinit_isr_idt ::
  "(nat \<Rightarrow> u32) \<Rightarrow> handler list \<Rightarrow> idt_entry list \<Rightarrow> (handler list \<times> idt_entry list) res" where
  "kinit_isr_idt isr_part1 isr idt =
     bindr (isr_loop isr 0 256) (\<lambda>isr.
     let isr = isr[14 := Page_fault, 32 := Timer, 33 := Ps2_intr, 46 := Ata_irq_intr, 128 := Syscall] in
     bindr (idt_loop isr_part1 idt 0 256) (\<lambda>idt.
     bindr (read_at ''__idt'' idt 128) (\<lambda>g.
     bindr (set_idt_entry (Some g) PL_USER TRAP_GATE (isr_part1 128)) (\<lambda>g.
     Inr (isr, idt[128 := g])))))"

lemma isr_loop_eq: "i + n = length isr \<Longrightarrow> isr_loop isr i n = Inr (take i isr @ replicate n Isr_default)"
proof (induction n arbitrary: i isr)
  case (Suc n)
  then have i: "i < length isr" by simp
  have "isr_loop isr i (Suc n) = isr_loop (isr[i := Isr_default]) (Suc i) n"
    using i by (simp add: set_isr_entry_def)
  also have "\<dots> = Inr (take (Suc i) (isr[i := Isr_default]) @ replicate n Isr_default)"
    using Suc.prems by (intro Suc.IH) simp
  finally show ?case using i by (simp add: take_Suc_conv_app_nth)
qed simp

lemma idt_loop_eq:
  "i + n = length idt \<Longrightarrow> \<exists>idt'. idt_loop p idt i n = Inr idt' \<and> length idt' = length idt
    \<and> (\<forall>k. k < i \<longrightarrow> idt' ! k = idt ! k)
    \<and> (\<forall>k. i \<le> k \<and> k < length idt \<longrightarrow> (\<exists>g0. set_idt_entry (Some g0) PL_KERN INTER_GATE (p k) = Inr (idt' ! k)))"
proof (induction n arbitrary: i idt)
  case (Suc n)
  then have i: "i < length idt" by simp
  obtain g where g: "set_idt_entry (Some (idt ! i)) PL_KERN INTER_GATE (p i) = Inr g"
    by (simp add: set_idt_entry_def Let_def)
  have run: "idt_loop p idt i (Suc n) = idt_loop p (idt[i := g]) (Suc i) n"
    using i g by simp
  from Suc.IH [of "Suc i" "idt[i := g]"] Suc.prems obtain idt' where
    idt': "idt_loop p (idt[i := g]) (Suc i) n = Inr idt'" "length idt' = length idt"
      "\<forall>k. k < Suc i \<longrightarrow> idt' ! k = idt[i := g] ! k"
      "\<forall>k. Suc i \<le> k \<and> k < length idt \<longrightarrow> (\<exists>g0. set_idt_entry (Some g0) PL_KERN INTER_GATE (p k) = Inr (idt' ! k))"
    by auto
  have "idt' ! i = g" using idt'(3) i by simp
  then have "\<exists>g0. set_idt_entry (Some g0) PL_KERN INTER_GATE (p k) = Inr (idt' ! k)"
    if "i \<le> k" "k < length idt" for k
    using idt'(4) that g by (cases "k = i") auto
  moreover have "idt' ! k = idt ! k" if "k < i" for k using idt'(3) that by simp
  ultimately show ?case using run idt'(1,2) by auto
qed auto

lemma kinit_isr_idt_tables:
  assumes "length isr = 256" and "length idt = 256"
  shows "\<exists>isr' idt'. kinit_isr_idt p isr idt = Inr (isr', idt') \<and> length isr' = 256 \<and> length idt' = 256
    \<and> (\<forall>v < 256. isr' ! v =
         (if v = 14 then Page_fault else if v = 32 then Timer else if v = 33 then Ps2_intr
          else if v = 46 then Ata_irq_intr else if v = 128 then Syscall else Isr_default))
    \<and> (\<forall>v < 256. \<exists>g0. set_idt_entry (Some g0) (if v = 128 then PL_USER else PL_KERN)
         (if v = 128 then TRAP_GATE else INTER_GATE) (p v) = Inr (idt' ! v))"
proof -
  let ?isr = "(replicate 256 Isr_default)[14 := Page_fault, 32 := Timer, 33 := Ps2_intr,
    46 := Ata_irq_intr, 128 := Syscall]"
  have 1: "isr_loop isr 0 256 = Inr (replicate 256 Isr_default)"
    using isr_loop_eq [of 0 256 isr] assms by simp
  obtain idt1 where 2: "idt_loop p idt 0 256 = Inr idt1" "length idt1 = 256"
    "\<forall>k < 256. \<exists>g0. set_idt_entry (Some g0) PL_KERN INTER_GATE (p k) = Inr (idt1 ! k)"
    using idt_loop_eq [of 0 256 idt p] assms by auto
  obtain g where 3: "set_idt_entry (Some (idt1 ! 128)) PL_USER TRAP_GATE (p 128) = Inr g"
    by (simp add: set_idt_entry_def Let_def)
  have 4: "read_at ''__idt'' idt1 128 = Inr (idt1 ! 128)" using 2(2) by (simp add: read_at_def)
  have run: "kinit_isr_idt p isr idt = Inr (?isr, idt1[128 := g])"
    by (simp only: kinit_isr_idt_def 1 2(1) 3 4 bindr_simps Let_def)
  have "?isr ! v = (if v = 14 then Page_fault else if v = 32 then Timer else if v = 33 then Ps2_intr
      else if v = 46 then Ata_irq_intr else if v = 128 then Syscall else Isr_default)" if "v < 256" for v
    using that by (simp add: nth_list_update del: replicate.simps)
  moreover have "\<exists>g0. set_idt_entry (Some g0) (if v = 128 then PL_USER else PL_KERN)
      (if v = 128 then TRAP_GATE else INTER_GATE) (p v) = Inr (idt1[128 := g] ! v)" if "v < 256" for v
    using that 2 3 by (cases "v = 128") auto
  ultimately show ?thesis
    using run 2(2) by (intro exI [of _ ?isr] exI [of _ "idt1[128 := g]"]) (auto simp del: replicate.simps)
qed

subsection \<open>Exceptions and spurious interrupts\<close>

text \<open>The names of \<open>__exception_names\<close>, whose last slot is a null pointer.\<close>

definition exception_names :: "string list" where
  "exception_names =
    [''#DE, Division Error, Fault, No error-code'',
     ''#DB, Debug, Fault/Trap, No error-code'',
     '', Non-maskable interrupt, Interrupt, No error-code'',
     ''#BP, Breakpoint, Trap, No error-code'',
     ''#OF, Overflow, Trap, No error-code'',
     ''#BR, Bound Range Exceeded, Fault, No error-code'',
     ''#UD, Invalid Opcode, Fault, No error-code'',
     ''#NM, Device Not Available, Fault, No error-code'',
     ''#DF, Double Fault, Abort, error-code'',
     '', Coprocessor Segment Overrun, Fault, No error-code'',
     ''#TS, Invalid TSS, Fault, error-code'',
     ''#NP, Segment Not Present, Fault, error-code'',
     ''#SS, Stack-Segment Fault, Fault, error-code'',
     ''#GP, General Protection Fault, Fault, error-code'',
     ''#PF, Page Fault, Fault, error-code'',
     '', RESERVED, , '',
     ''#MF, x87 Floating-Point, Fault, no error-code'',
     ''#AC, Alignment Check, Fault, error-code'',
     ''#MC, Machine Check, Abort, no error-code'',
     ''#XM/#XF, SIMD Floating-Point, Fault, no error-code'',
     ''#VE, Virtualization, Fault, no error-code'',
     ''#CP, Control Protection, Fault, error-code'',
     '', RESERVED, , '', '', RESERVED, , '', '', RESERVED, , '',
     '', RESERVED, , '', '', RESERVED, , '', '', RESERVED, , '',
     ''#HV, Hypervisor Injection, Fault, no error-code'',
     ''#VC, VMM Communication, Fault, error-code'',
     ''#SX, Security, Fault, error-code'',
     '', RESERVED, , '']"

definition isr_default :: "u32 \<Rightarrow> unit res" where
  "isr_default vec =
     (if vec = 0x26 then Inr ()
      else if vec = 0x27 \<or> vec = 0x2f then Inr ()
      else
        let arr_idx = (if vec \<le> 33 - 2 then vec else 33 - 2) in
        bindr (read_at ''__exception_names'' exception_names (uint arr_idx)) panic)"

lemma isr_default_cases:
  "isr_default vec =
    (if vec \<in> {0x26, 0x27, 0x2f} then Inr () else panic (exception_names ! min (unat vec) 31))"
proof -
  have l: "length exception_names = 32" by (simp add: exception_names_def)
  have "vec \<le> 31 \<longleftrightarrow> unat vec \<le> 31" by (simp add: word_le_nat_alt)
  then show ?thesis
    by (auto simp: isr_default_def Let_def l min_def)
qed

subsection \<open>System calls\<close>

datatype syscall_fn =
    Files_create | Files_remove | Files_open | Files_close | Files_read | Files_write
  | Kprintf | Fork | Wait_child | Exit | Dir_change | Exec | Files_list | Dyn_alloc | Dyn_free
  | Dir_get_current

text \<open>
  The stub table: static, so the slots syscall_init does not set hold address 0, which is
  not the kernel's null pointer. The entry in syscall_impl.S calls through slot \<open>eax\<close>
  without comparing \<open>eax\<close> with the size of the table.
\<close>

datatype stub = Zero | Null | Fn syscall_fn

definition syscall_init :: "stub list" where
  "syscall_init = (replicate 32 Zero)
     [0 := Fn Files_create, 1 := Fn Files_remove, 2 := Fn Files_open, 3 := Fn Files_close,
      4 := Fn Files_read, 5 := Fn Files_write, 6 := Fn Kprintf, 7 := Fn Fork, 8 := Fn Wait_child,
      9 := Fn Exit, 10 := Fn Dir_change, 11 := Fn Exec, 12 := Fn Files_list, 13 := Fn Dyn_alloc,
      14 := Fn Dyn_free, 15 := Fn Dir_get_current, 31 := Null]"

definition syscall :: "stub list \<Rightarrow> u32 \<Rightarrow> syscall_fn res" where
  "syscall stubs eax =
     bindr (read_at ''__stub'' stubs (uint eax)) (\<lambda>s.
     case s of Fn f \<Rightarrow> Inr f | Zero \<Rightarrow> fault ''call of address 0'' | Null \<Rightarrow> fault ''call of null'')"

text \<open>The numbers the user stubs of user/user.c pass, and the function each means to call.\<close>

primrec syscall_num :: "syscall_fn \<Rightarrow> u32" where
  "syscall_num Files_create = 0" | "syscall_num Files_remove = 1" | "syscall_num Files_open = 2"
| "syscall_num Files_close = 3" | "syscall_num Files_read = 4" | "syscall_num Files_write = 5"
| "syscall_num Kprintf = 6" | "syscall_num Fork = 7" | "syscall_num Wait_child = 8"
| "syscall_num Exit = 9" | "syscall_num Dir_change = 10" | "syscall_num Exec = 11"
| "syscall_num Files_list = 12" | "syscall_num Dyn_alloc = 13" | "syscall_num Dyn_free = 14"
| "syscall_num Dir_get_current = 15"

lemma syscall_table: "syscall syscall_init (syscall_num f) = Inr f"
  by (cases f) (simp_all add: syscall_def syscall_init_def read_at_def nth_list_update)

lemma stub_free: "16 \<le> n \<Longrightarrow> n < 32 \<Longrightarrow> syscall_init ! n = Zero \<or> syscall_init ! n = Null"
  unfolding syscall_init_def
  by (cases "n = 31") (simp_all add: nth_list_update del: replicate.simps replicate_Suc)

lemma syscall_at:
  "syscall stubs eax =
    (if unat eax < length stubs
     then (case stubs ! unat eax of Fn f \<Rightarrow> Inr f | Zero \<Rightarrow> fault ''call of address 0'' | Null \<Rightarrow> fault ''call of null'')
     else fault ''__stub'')"
proof (cases "unat eax < length stubs")
  case True
  then show ?thesis by (simp add: syscall_def)
next
  case False
  then have "\<not> uint eax < int (length stubs)" by (metis nat_less_iff uint_nonnegative unat_eq_nat_uint)
  then show ?thesis using False by (simp add: syscall_def read_at_def)
qed

lemma length_syscall_init: "length syscall_init = 32"
  by (simp add: syscall_init_def)

lemma syscall_out: "16 \<le> unat eax \<Longrightarrow> \<exists>msg. syscall syscall_init eax = fault msg"
  using stub_free [of "unat eax"] unfolding syscall_at length_syscall_init by force

subsection \<open>Properties\<close>

text \<open>A segment descriptor written by set_gdt reads back, from its eight packed bytes, exactly the
  base, the low 20 bits of the limit, the privilege level, the present bit and the kind given.\<close>
theorem set_gdt_roundtrip:
  "\<exists>d. set_gdt (Some d0) limit base a rw dc exe sys dpl ps l dbit g = Inr d
    \<and> length (desc_bytes d) = 8 \<and> seg_base (desc_bytes d) = base
    \<and> seg_limit (desc_bytes d) = take_bit 20 limit \<and> seg_dpl (desc_bytes d) = dpl AND mask 2
    \<and> seg_present (desc_bytes d) = odd ps \<and> (seg_code (desc_bytes d) \<longleftrightarrow> sys \<noteq> 0 \<and> odd exe)"
proof -
  obtain d where d: "set_gdt (Some d0) limit base a rw dc exe sys dpl ps l dbit g = Inr d"
    by (simp add: set_gdt_def)
  from set_gdt_read [OF d] d show ?thesis by (auto simp: desc_bytes_def)
qed

text \<open>The interrupt path is set up so that vector v enters through isr_part1[v] in kernel code and
  runs the handler meant for it: the page fault, timer, keyboard, disk and system call handlers on
  their vectors, the default one on all others; only the system call gate is open to user mode.\<close>
theorem interrupt_dispatch:
  assumes "length isr = 256" and "length idt = 256"
  shows "\<exists>isr' idt'. kinit_isr_idt p isr idt = Inr (isr', idt') \<and> (\<forall>v < 256.
    isr' ! v = (if v = 14 then Page_fault else if v = 32 then Timer else if v = 33 then Ps2_intr
      else if v = 46 then Ata_irq_intr else if v = 128 then Syscall else Isr_default)
    \<and> gate_present (idt' ! v) \<and> gate_offset (idt' ! v) = p v \<and> selector (idt' ! v) = CS_SELECTOR_KERN
    \<and> (gate_dpl (idt' ! v) = 3 \<longleftrightarrow> v = 128)
    \<and> gate_type (idt' ! v) = (if v = 128 then 0x0f else 0x0e))"
proof -
  from kinit_isr_idt_tables [OF assms, of p] obtain isr' idt' where
    r: "kinit_isr_idt p isr idt = Inr (isr', idt')"
    and i: "\<forall>v < 256. isr' ! v = (if v = 14 then Page_fault else if v = 32 then Timer
      else if v = 33 then Ps2_intr else if v = 46 then Ata_irq_intr else if v = 128 then Syscall
      else Isr_default)"
    and g: "\<forall>v < 256. \<exists>g0. set_idt_entry (Some g0) (if v = 128 then PL_USER else PL_KERN)
      (if v = 128 then TRAP_GATE else INTER_GATE) (p v) = Inr (idt' ! v)"
    by blast
  have "gate_present (idt' ! v) \<and> gate_offset (idt' ! v) = p v \<and> selector (idt' ! v) = CS_SELECTOR_KERN
      \<and> (gate_dpl (idt' ! v) = 3 \<longleftrightarrow> v = 128)
      \<and> gate_type (idt' ! v) = (if v = 128 then 0x0f else 0x0e)" if v: "v < 256" for v
  proof -
    from g v obtain g0 where "set_idt_entry (Some g0) (if v = 128 then PL_USER else PL_KERN)
      (if v = 128 then TRAP_GATE else INTER_GATE) (p v) = Inr (idt' ! v)" by blast
    from set_idt_entry_read [OF this] show ?thesis by (cases "v = 128") simp_all
  qed
  with r i show ?thesis by blast
qed

theorem interrupt_dispatch_witness:
  "\<exists>isr' idt'. kinit_isr_idt word_of_nat (replicate 256 Isr_default)
      (replicate 256 \<lparr>isr_low = 0, selector = 0, reserved = 0, attributes = 0, isr_high = 0\<rparr>) = Inr (isr', idt')
    \<and> (\<forall>v < 256.
    isr' ! v = (if v = 14 then Page_fault else if v = 32 then Timer else if v = 33 then Ps2_intr
      else if v = 46 then Ata_irq_intr else if v = 128 then Syscall else Isr_default)
    \<and> gate_present (idt' ! v) \<and> gate_offset (idt' ! v) = word_of_nat v \<and> selector (idt' ! v) = CS_SELECTOR_KERN
    \<and> (gate_dpl (idt' ! v) = 3 \<longleftrightarrow> v = 128)
    \<and> gate_type (idt' ! v) = (if v = 128 then 0x0f else 0x0e))"
  by (rule interrupt_dispatch) (rule length_replicate)+

text \<open>Every system call number of user.c reaches the kernel function it stands for. The entry does
  not check the number: any other one makes the kernel call address 0, call null, or read past
  the stub table.\<close>
theorem syscall_dispatch:
  "syscall syscall_init (syscall_num f) = Inr f
    \<and> (16 \<le> unat eax \<longrightarrow> (\<exists>msg. syscall syscall_init eax = fault msg))"
  using syscall_table syscall_out by blast

theorem syscall_dispatch_witness: "\<exists>msg. syscall syscall_init 4711 = fault msg"
  using syscall_dispatch [of Kprintf 4711] by simp

end
