(* ===== verification/Pic_Pit.thy ===== *)
theory Pic_Pit
  imports Prelude
begin

section \<open>kern/driver/8259a, 8253 and module/driver.c: interrupt controller and timer\<close>

text \<open>
  The two cascaded interrupt controllers: their mask registers, which OCW1 reads and
  writes through the odd ports, and the trace of the initialisation words, in order. The
  timer is the trace of the bytes sent to its ports.
\<close>

type_synonym port_trace = "(u16 \<times> u8) list"

record pic =
  imr_mas :: u8
  imr_sla :: u8
  icws :: port_trace

definition MAS_EVEN :: u16 where "MAS_EVEN = 0x20"
definition SLA_EVEN :: u16 where "SLA_EVEN = 0xa0"

definition set_icw1 :: "u8 \<Rightarrow> pic \<Rightarrow> pic" where
  "set_icw1 cmd s =
     (let cmd = cmd OR 0x10 in s\<lparr>icws := icws s @ [(MAS_EVEN, cmd), (SLA_EVEN, cmd)]\<rparr>)"

definition set_icw2 :: "u8 \<Rightarrow> u8 \<Rightarrow> pic \<Rightarrow> pic" where
  "set_icw2 master slave s =
     (let master = master AND 0xf8; slave = slave AND 0xf8 in
      s\<lparr>icws := icws s @ [(MAS_EVEN + 1, master), (SLA_EVEN + 1, slave)]\<rparr>)"

definition set_icw3 :: "u8 \<Rightarrow> pic \<Rightarrow> pic" where
  "set_icw3 irq_pin s =
     s\<lparr>icws := icws s @ [(MAS_EVEN + 1, push_bit (unat irq_pin) 1), (SLA_EVEN + 1, irq_pin)]\<rparr>"

definition set_icw4 :: "u8 \<Rightarrow> pic \<Rightarrow> pic" where
  "set_icw4 cmd s =
     (let cmd = cmd OR 1 in s\<lparr>icws := icws s @ [(MAS_EVEN + 1, cmd), (SLA_EVEN + 1, cmd)]\<rparr>)"

definition disable_mask_ocw1 :: "u8 \<Rightarrow> pic \<Rightarrow> pic" where
  "disable_mask_ocw1 irq_pin s =
     (if irq_pin < 8 then s\<lparr>imr_mas := imr_mas s OR push_bit (unat irq_pin) 1\<rparr>
      else s\<lparr>imr_sla := imr_sla s OR push_bit (unat (irq_pin - 8)) 1\<rparr>)"

definition enable_mask_ocw1 :: "u8 \<Rightarrow> pic \<Rightarrow> pic" where
  "enable_mask_ocw1 irq_pin s =
     (if irq_pin < 8 then s\<lparr>imr_mas := imr_mas s AND NOT (push_bit (unat irq_pin) 1)\<rparr>
      else s\<lparr>imr_sla := imr_sla s AND NOT (push_bit (unat (irq_pin - 8)) 1)\<rparr>)"

text \<open>Whether the controllers hold back line \<open>irq\<close>.\<close>

definition masked :: "pic \<Rightarrow> u8 \<Rightarrow> bool" where
  "masked s irq = (if irq < 8 then bit (imr_mas s) (unat irq) else bit (imr_sla s) (unat (irq - 8)))"

lemma irq_split: "(i :: u8) < 16 \<Longrightarrow> \<not> i < 8 \<Longrightarrow> unat (i - 8) < 8 \<and> unat i = unat (i - 8) + 8"
  by (simp add: word_less_nat_alt unat_sub word_le_nat_alt)

lemma bit_push1_u8: "bit (2 ^ k :: u8) n \<longleftrightarrow> n = k \<and> k < 8"
  by (auto simp: bit_exp_iff)

lemma masked_disable:
  assumes "i < 16" and "j < 16"
  shows "masked (disable_mask_ocw1 i s) j \<longleftrightarrow> i = j \<or> masked s j"
proof -
  have "unat (j - 8) = unat (i - 8) \<longleftrightarrow> i = j" "unat j = unat i \<longleftrightarrow> i = j"
    by (auto simp: word_unat_eq_iff [symmetric])
  then show ?thesis
    using assms irq_split [of i] irq_split [of j]
    by (auto simp: masked_def disable_mask_ocw1_def bit_or_iff bit_push1_u8 word_less_nat_alt)
qed

lemma masked_enable:
  assumes "i < 16" and "j < 16"
  shows "masked (enable_mask_ocw1 i s) j \<longleftrightarrow> i \<noteq> j \<and> masked s j"
proof -
  have "unat (j - 8) = unat (i - 8) \<longleftrightarrow> i = j" "unat j = unat i \<longleftrightarrow> i = j"
    by (auto simp: word_unat_eq_iff [symmetric])
  then show ?thesis
    using assms irq_split [of i] irq_split [of j]
    by (auto simp: masked_def enable_mask_ocw1_def bit_and_iff bit_not_iff bit_push1_u8 word_less_nat_alt)
qed

lemma masked_icw:
  "masked (set_icw1 c s) j = masked s j" "masked (set_icw2 a b s) j = masked s j"
  "masked (set_icw3 c s) j = masked s j" "masked (set_icw4 c s) j = masked s j"
  by (simp_all add: masked_def set_icw1_def set_icw2_def set_icw3_def set_icw4_def Let_def)

definition init_pic :: "pic \<Rightarrow> pic" where
  "init_pic s =
     (let s = set_icw1 1 s; s = set_icw2 0x20 0x28 s; s = set_icw3 2 s; s = set_icw4 2 s;
          s = enable_mask_ocw1 0 s; s = enable_mask_ocw1 1 s; s = enable_mask_ocw1 2 s;
          s = disable_mask_ocw1 3 s; s = disable_mask_ocw1 4 s; s = disable_mask_ocw1 5 s;
          s = disable_mask_ocw1 6 s; s = disable_mask_ocw1 7 s; s = disable_mask_ocw1 8 s;
          s = disable_mask_ocw1 9 s; s = disable_mask_ocw1 10 s; s = disable_mask_ocw1 11 s;
          s = disable_mask_ocw1 12 s; s = disable_mask_ocw1 13 s;
          s = enable_mask_ocw1 14 s in disable_mask_ocw1 15 s)"

subsection \<open>The timer\<close>

datatype sc = SC_CHANNEL0 | SC_CHANNEL1 | SC_CHANNEL2
datatype am = LATCH | LOWBYTE | HIGHBYTE | LOWHIGHBYTE
datatype om = M0 | M1 | M2 | M3 | M4 | M5 | M2_2 | M3_2
datatype bm = BINARY | BCD

primrec sc_num :: "sc \<Rightarrow> u8" where
  "sc_num SC_CHANNEL0 = 0" | "sc_num SC_CHANNEL1 = 64" | "sc_num SC_CHANNEL2 = 128"

primrec am_num :: "am \<Rightarrow> u8" where
  "am_num LATCH = 0" | "am_num LOWBYTE = 16" | "am_num HIGHBYTE = 32" | "am_num LOWHIGHBYTE = 48"

primrec om_num :: "om \<Rightarrow> u8" where
  "om_num M0 = 0" | "om_num M1 = 2" | "om_num M2 = 4" | "om_num M3 = 6"
| "om_num M4 = 8" | "om_num M5 = 10" | "om_num M2_2 = 12" | "om_num M3_2 = 14"

primrec bm_num :: "bm \<Rightarrow> u8" where
  "bm_num BINARY = 0" | "bm_num BCD = 1"

definition FREQUENCY_DEF :: u32 where "FREQUENCY_DEF = 1193182"
definition CHANNEL0 :: u16 where "CHANNEL0 = 0x40"
definition COMMAND_8253 :: u16 where "COMMAND_8253 = 0x43"

definition set_command :: "sc \<Rightarrow> am \<Rightarrow> om \<Rightarrow> bm \<Rightarrow> port_trace" where
  "set_command c a om b = [(COMMAND_8253, sc_num c OR am_num a OR om_num om OR bm_num b)]"

text \<open>A division by zero raises the processor's exception.\<close>

definition set_counter :: "u32 \<Rightarrow> port_trace res" where
  "set_counter frequency =
     (if frequency = 0 then fault ''division error''
      else
        let init = ucast (FREQUENCY_DEF div frequency) :: u16 in
        Inr [(CHANNEL0, ucast init), (CHANNEL0, ucast (drop_bit 8 init))])"

definition init_pit :: "port_trace res" where
  "init_pit =
     bindr (Inr (set_command SC_CHANNEL0 LOWHIGHBYTE M3 BINARY)) (\<lambda>t.
     bindr (set_counter 1000) (\<lambda>u. Inr (t @ u)))"

text \<open>The divisor the chip assembles from the two bytes, low byte first.\<close>

definition pit_divisor :: "port_trace \<Rightarrow> u16" where
  "pit_divisor t = (case map snd t of [lo, hi] \<Rightarrow> ucast lo OR push_bit 8 (ucast hi) | _ \<Rightarrow> 0)"

lemma split_u16: "ucast (ucast (w :: u16) :: u8) OR push_bit 8 (ucast (ucast (drop_bit 8 w) :: u8)) = w"
proof (rule bit_word_eqI)
  fix n assume "n < LENGTH(16)"
  then consider "n < 8" | "8 \<le> n" "n < 16" by fastforce
  then show "bit (ucast (ucast w :: u8) OR push_bit 8 (ucast (ucast (drop_bit 8 w) :: u8)) :: u16) n = bit w n"
    by cases (auto simp: bit_simps)
qed

subsection \<open>Properties\<close>

text \<open>Whatever the mask registers held, init_pic leaves exactly the lines of the timer, the
  keyboard, the cascade and the first disk channel open, and it programs the vectors 0x20 and
  0x28 and the cascade on line 2 in the order the chips expect.\<close>
theorem init_pic_masks:
  "(j < 16 \<longrightarrow> (masked (init_pic s) j \<longleftrightarrow> j \<notin> {0, 1, 2, 14}))
    \<and> icws (init_pic s) = icws s @ [(0x20, 0x11), (0xa0, 0x11), (0x21, 0x20), (0xa1, 0x28),
        (0x21, 4), (0xa1, 2), (0x21, 3), (0xa1, 3)]"
proof
  have c: "(14 :: u8) \<noteq> 15" by simp
  show "j < 16 \<longrightarrow> (masked (init_pic s) j \<longleftrightarrow> j \<notin> {0, 1, 2, 14})"
  proof
    assume j: "j < 16"
    then have "unat j < 16" by (simp add: word_less_nat_alt)
    then have "unat j \<in> {0, 1, 2, 3, 4, 5, 6, 7, 8, 9, 10, 11, 12, 13, 14, 15}" by simp arith
    then have all: "j \<in> {0, 1, 2, 3, 4, 5, 6, 7, 8, 9, 10, 11, 12, 13, 14, 15}"
      by (simp add: word_unat_eq_iff)
    show "masked (init_pic s) j \<longleftrightarrow> j \<notin> {0, 1, 2, 14}"
      using all unfolding insert_iff empty_iff
      by (elim disjE FalseE) (simp_all add: init_pic_def Let_def masked_disable masked_enable masked_icw)
  qed
  show "icws (init_pic s) = icws s @ [(0x20, 0x11), (0xa0, 0x11), (0x21, 0x20), (0xa1, 0x28),
        (0x21, 4), (0xa1, 2), (0x21, 3), (0xa1, 3)]"
    by (simp add: init_pic_def Let_def set_icw1_def set_icw2_def set_icw3_def set_icw4_def
        enable_mask_ocw1_def disable_mask_ocw1_def MAS_EVEN_def SLA_EVEN_def)
qed

theorem init_pic_masks_witness:
  "\<not> masked (init_pic \<lparr>imr_mas = 0xff, imr_sla = 0xff, icws = []\<rparr>) 14"
  using init_pic_masks [of 14 "\<lparr>imr_mas = 0xff, imr_sla = 0xff, icws = []\<rparr>"] by simp

text \<open>Set_counter sends the divisor of the base frequency low byte first, as the access mode
  LOWHIGHBYTE requires, and the chip reads it back exactly for every rate of at least 19 Hz; a
  rate of 18 Hz or less overflows the 16-bit divisor, and a rate of 0 is a division error.\<close>
theorem set_counter_divisor:
  "(19 \<le> unat f \<longrightarrow> (\<exists>t. set_counter f = Inr t \<and> unat (pit_divisor t) = 1193182 div unat f))
    \<and> (0 < unat f \<and> unat f \<le> 18 \<longrightarrow>
        (\<exists>t. set_counter f = Inr t \<and> unat (pit_divisor t) \<noteq> 1193182 div unat f))
    \<and> set_counter 0 = fault ''division error''"
proof -
  have d: "unat (FREQUENCY_DEF div f) = 1193182 div unat f"
    by (simp add: FREQUENCY_DEF_def unat_div)
  have t: "\<exists>t. set_counter f = Inr t \<and> unat (pit_divisor t) = (1193182 div unat f) mod 65536" if "f \<noteq> 0"
  proof -
    let ?w = "ucast (FREQUENCY_DEF div f) :: u16"
    have "pit_divisor [(CHANNEL0, ucast ?w), (CHANNEL0, ucast (drop_bit 8 ?w))] = ?w"
      using split_u16 [of ?w] by (simp add: pit_divisor_def)
    moreover have "unat ?w = (1193182 div unat f) mod 65536"
      by (simp add: d unsigned_ucast_eq take_bit_eq_mod)
    ultimately show ?thesis using that by (simp add: set_counter_def Let_def)
  qed
  have nz: "f \<noteq> 0" if "0 < unat f" using that by auto
  have "1193182 div unat f < 65536" if "19 \<le> unat f"
  proof -
    have "1193182 div unat f \<le> 1193182 div 19" using that by (intro div_le_mono2) simp_all
    then show ?thesis by simp
  qed
  moreover have "65536 \<le> 1193182 div unat f" if "0 < unat f" "unat f \<le> 18"
  proof -
    have "1193182 div 18 \<le> 1193182 div unat f" using that by (intro div_le_mono2) simp_all
    then show ?thesis by simp
  qed
  moreover have "x mod 65536 < (65536 :: nat)" for x by simp
  ultimately show ?thesis using t nz
    by (intro conjI impI) (force, metis leD less_imp_le_nat not_less, simp add: set_counter_def)
qed

theorem set_counter_divisor_witness:
  "\<exists>t. set_counter 1000 = Inr t \<and> unat (pit_divisor t) = 1193182 div unat (1000 :: u32)"
  using set_counter_divisor [of 1000] by simp

end
