(* ===== verification/Keyboard.thy ===== *)
theory Keyboard
  imports Circular_Buffer
begin

section \<open>kern/driver/8042: the keyboard\<close>

text \<open>
  The interrupt handler turns scan codes into characters under the shift and caps-lock
  flags and puts them into the ring buffer. \<open>ps2_char\<close> is the part of the handler that
  depends on the flags; \<open>ps2_intr\<close> is the whole handler, with the scan code it reads from
  the controller as an argument and the scheduler's wakeup as a parameter.
\<close>

text \<open>The scan code table, characters by their ASCII numbers: without and with shift.\<close>

definition keymap :: "(byte \<times> byte) list" where
  "keymap =
    [
     (0, 0), (126, 126), (49, 33), (50, 64), (51, 35), (52, 36), (53, 37), (54, 94), (55, 38), (56, 42),
     (57, 40), (48, 41), (45, 95), (61, 43), (8, 8), (9, 9), (113, 81), (119, 87), (101, 69), (114, 82),
     (116, 84), (121, 89), (117, 85), (105, 73), (111, 79), (112, 80), (91, 123), (93, 125), (10, 10), (0, 0),
     (97, 65), (115, 83), (100, 68), (102, 70), (103, 71), (104, 72), (106, 74), (107, 75), (108, 76), (59, 58),
     (39, 34), (96, 126), (0, 0), (92, 124), (122, 90), (120, 88), (99, 67), (118, 86), (98, 66), (110, 78),
     (109, 77), (44, 60), (46, 62), (47, 63), (0, 0), (42, 42), (0, 0), (32, 32), (0, 0), (0, 0)
    ]"

record kbd =
  make_shift :: bool
  make_caps :: bool
  kb_buff :: cclbuff

definition init_8042 :: "byte list \<Rightarrow> kbd \<Rightarrow> kbd" where
  "init_8042 mem k = k\<lparr>kb_buff := cclbuff_alloc 1024 mem\<rparr>"

definition is_letter :: "u8 \<Rightarrow> bool" where
  "is_letter ch = (16 \<le> ch \<and> ch \<le> 25 \<or> 30 \<le> ch \<and> ch \<le> 38 \<or> 44 \<le> ch \<and> ch \<le> 50)"

definition ps2_ignored :: "u8 \<Rightarrow> bool" where
  "ps2_ignored ch = (ch < 1 \<or> 59 < ch \<and> ch < 170 \<or> 170 < ch \<and> ch < 182 \<or> ch > 182)"

text \<open>The character of a key that is neither ignored nor a control key.\<close>

definition ps2_char :: "bool \<Rightarrow> bool \<Rightarrow> u8 \<Rightarrow> byte res" where
  "ps2_char shift caps ch =
     bindr (read_at ''keymap'' keymap (uint ch)) (\<lambda>(plain, shifted).
     Inr (if is_letter ch
          then if caps then shifted else if shift then shifted else plain
          else if shift then shifted else plain))"

definition ps2_intr :: "('w \<Rightarrow> 'w res) \<Rightarrow> 'w \<Rightarrow> kbd \<Rightarrow> u8 \<Rightarrow> ('w \<times> kbd) res" where
  "ps2_intr wakeup w k ch =
     (if ps2_ignored ch then Inr (w, k)
      else if ch = 42 \<or> ch = 54 then Inr (w, k\<lparr>make_shift := True\<rparr>)
      else if ch = 58 then Inr (w, k\<lparr>make_caps := \<not> make_caps k\<rparr>)
      else if ch = 170 \<or> ch = 182 then Inr (w, k\<lparr>make_shift := False\<rparr>)
      else
        bindr (ps2_char (make_shift k) (make_caps k) ch) (\<lambda>result.
        bindr (cclbuff_put wakeup w (Some (kb_buff k)) result) (\<lambda>(stored, w, b).
        Inr (w, k\<lparr>kb_buff := b\<rparr>))))"

lemma length_keymap: "length keymap = 60"
  by (simp add: keymap_def)

lemma key_range:
  assumes "\<not> ps2_ignored ch" and "ch \<noteq> 170" and "ch \<noteq> 182"
  shows "unat ch < 60"
proof -
  have "unat ch \<noteq> 170" "unat ch \<noteq> 182" using assms by (auto simp: word_unat_eq_iff)
  then show ?thesis using assms by (auto simp: ps2_ignored_def word_less_nat_alt)
qed

lemma ps2_char_key:
  assumes "unat ch < 60"
  shows "ps2_char shift caps ch = Inr
    (if shift \<or> is_letter ch \<and> caps then snd (keymap ! unat ch) else fst (keymap ! unat ch))"
  using assms by (simp add: ps2_char_def length_keymap split_def)

text \<open>The letter keys are the ones the code tests for: exactly where the two columns hold a letter.\<close>

definition letter_byte :: "byte \<Rightarrow> bool" where
  "letter_byte c = (97 \<le> c \<and> c \<le> 122)"

lemma letter_keys:
  "\<forall>n \<in> set [0..<60]. is_letter (word_of_nat n) = letter_byte (fst (keymap ! n))
     \<and> (letter_byte (fst (keymap ! n)) \<longrightarrow> snd (keymap ! n) = fst (keymap ! n) - 32)"
  by code_simp

lemma letter_key:
  assumes "unat ch < 60"
  shows "is_letter ch = letter_byte (fst (keymap ! unat ch))"
    and "is_letter ch \<Longrightarrow> snd (keymap ! unat ch) = fst (keymap ! unat ch) - 32"
proof -
  have "unat ch \<in> set [0..<60]" using assms by simp
  from bspec [OF letter_keys this]
  show "is_letter ch = letter_byte (fst (keymap ! unat ch))"
    and "is_letter ch \<Longrightarrow> snd (keymap ! unat ch) = fst (keymap ! unat ch) - 32" by simp_all
qed

subsection \<open>Properties\<close>

text \<open>The keyboard interrupt never reads outside the key map and always returns. Shift and
  caps-lock codes only change their flag; every other accepted scan code appends one character to
  the buffer, the shifted one when shift is held or when the key is a letter and caps-lock is on,
  and is dropped only when the buffer is full; all other scan codes change nothing.\<close>
theorem ps2_intr_effect:
  assumes "ring_rep (kb_buff k) xs" and "wakeup w = Inr w'"
  shows "\<exists>w1 k'. ps2_intr wakeup w k ch = Inr (w1, k')
    \<and> make_shift k' = (if ch \<in> {42, 54} then True else if ch \<in> {170, 182} then False else make_shift k)
    \<and> make_caps k' = (if ch = 58 then \<not> make_caps k else make_caps k)
    \<and> ring_rep (kb_buff k')
        (if ps2_ignored ch \<or> ch \<in> {42, 54, 58, 170, 182} \<or> length xs + 1 = unat (capacity (kb_buff k)) then xs
         else xs @ [if make_shift k \<or> is_letter ch \<and> make_caps k
                    then snd (keymap ! unat ch) else fst (keymap ! unat ch)])"
proof (cases "ps2_ignored ch \<or> ch \<in> {42, 54, 58, 170, 182}")
  case True
  then show ?thesis using assms(1) by (auto simp: ps2_intr_def ps2_ignored_def)
next
  case False
  let ?c = "if make_shift k \<or> is_letter ch \<and> make_caps k
    then snd (keymap ! unat ch) else fst (keymap ! unat ch)"
  from False have c: "ps2_char (make_shift k) (make_caps k) ch = Inr ?c"
    by (intro ps2_char_key key_range) auto
  show ?thesis
  proof (cases "length xs + 1 = unat (capacity (kb_buff k))")
    case True
    from put_full [OF assms(1) True, of wakeup w ?c] False c True assms(1)
    show ?thesis by (auto simp: ps2_intr_def)
  next
    case room: False
    have "length xs < unat (capacity (kb_buff k))"
      using assms(1) ring_len_less by (simp add: ring_rep_def)
    with room have "length xs + 1 < unat (capacity (kb_buff k))" by simp
    from put_rep [where wakeup = wakeup and w = w and c = ?c, OF assms(1) this assms(2)] obtain b' where
      "cclbuff_put wakeup w (Some (kb_buff k)) ?c = Inr (True, w', b')" "ring_rep b' (xs @ [?c])" by blast
    with False c room show ?thesis by (auto simp: ps2_intr_def)
  qed
qed

definition kbd_sample :: kbd where
  "kbd_sample = \<lparr>make_shift = False, make_caps = True, kb_buff = ring_sample\<rparr>"

theorem ps2_intr_effect_witness:
  "\<exists>w1 k'. ps2_intr Inr () kbd_sample 30 = Inr (w1, k')
    \<and> make_shift k' = make_shift kbd_sample \<and> make_caps k' = make_caps kbd_sample
    \<and> ring_rep (kb_buff k') [65]"
  using ps2_intr_effect [of kbd_sample "[]" Inr "()" "()" 30] ring_sample_rep(1)
  by (auto simp: kbd_sample_def ring_sample_def cclbuff_alloc_def ps2_ignored_def is_letter_def keymap_def)

end
