(* ===== verification/Cga.thy ===== *)
theory Cga
  imports Spinlock
begin

section \<open>kern/driver/cga: the text screen\<close>

text \<open>
  The screen is the memory from \<open>VIDEO_MEM\<close> on as 16-bit cells, of which the first
  80 x 25 are visible; the cursor is the pair of position registers of the controller.
  The whitespace skip of the backspace may run over the screen's start, and nothing
  bounds it but the contents of memory, so it is a partial function.
\<close>

record cga =
  vm :: "nat \<Rightarrow> u16"
  cur_low :: u8
  cur_high :: u8
  cga_attr :: u8
  cga_lock :: spinlock

definition WHITH_CHAR :: u16 where "WHITH_CHAR = 0x0f00 OR 32"
definition TO_ROW :: "nat \<Rightarrow> nat" where "TO_ROW pos = pos div 80"
definition TO_COL :: "nat \<Rightarrow> nat" where "TO_COL pos = pos mod 80"
definition TO_POS :: "nat \<Rightarrow> nat \<Rightarrow> nat" where "TO_POS row col = row * 80 + col"
definition LASTLINE_BEG :: nat where "LASTLINE_BEG = TO_POS 24 0"
definition LASTLINE_END :: nat where "LASTLINE_END = TO_POS 24 79"

lemma lastline [simp]: "LASTLINE_BEG = 1920" "LASTLINE_END = 1999"
  by (simp_all add: LASTLINE_BEG_def LASTLINE_END_def TO_POS_def)

definition cga_init :: "cga \<Rightarrow> cga res" where
  "cga_init s = bindr (spinlock_init (Some (cga_lock s))) (\<lambda>l. Inr (s\<lparr>cga_lock := l\<rparr>))"

subsection \<open>Filling and moving cells\<close>

fun fill_loop :: "(nat \<Rightarrow> u16) \<Rightarrow> nat \<Rightarrow> nat \<Rightarrow> (nat \<Rightarrow> u16)" where
  "fill_loop v i 0 = v"
| "fill_loop v i (Suc n) = fill_loop (v(i := WHITH_CHAR)) (Suc i) n"

text \<open>memmove of whole cells towards lower addresses, one cell after the other.\<close>

fun move_cells :: "(nat \<Rightarrow> u16) \<Rightarrow> nat \<Rightarrow> nat \<Rightarrow> nat \<Rightarrow> (nat \<Rightarrow> u16)" where
  "move_cells v dst src 0 = v"
| "move_cells v dst src (Suc n) = move_cells (v(dst := v src)) (Suc dst) (Suc src) n"

definition cga_scroll_back :: "cga \<Rightarrow> cga" where
  "cga_scroll_back s =
     (let beg = TO_POS 1 0;
          v = move_cells (vm s) 0 beg (LASTLINE_END - beg + 1)
      in s\<lparr>vm := fill_loop v LASTLINE_BEG (LASTLINE_END + 1 - LASTLINE_BEG)\<rparr>)"

lemma fill_loop_eq: "fill_loop v i n k = (if i \<le> k \<and> k < i + n then WHITH_CHAR else v k)"
  by (induction n arbitrary: v i) auto

lemma move_cells_eq:
  "dst < src \<Longrightarrow> move_cells v dst src n k = (if dst \<le> k \<and> k < dst + n then v (src + (k - dst)) else v k)"
proof (induction n arbitrary: v dst src)
  case (Suc n)
  have "Suc src + (k - Suc dst) = src + (k - dst)" if "Suc dst \<le> k" using that by simp
  with Suc show ?case by (auto simp: not_less_eq_eq)
qed auto

lemma scroll_vm: "vm (cga_scroll_back s) k =
  (if k < 1920 then vm s (k + 80) else if k < 2000 then WHITH_CHAR else vm s k)"
  by (cases "k = 0") (auto simp: cga_scroll_back_def Let_def fill_loop_eq move_cells_eq TO_POS_def add.commute)

subsection \<open>The cursor\<close>

definition cga_cursor_get :: "cga \<Rightarrow> u16" where
  "cga_cursor_get s = push_bit 8 (ucast (cur_high s)) OR ucast (cur_low s)"

definition cga_cursor_set :: "u16 \<Rightarrow> cga \<Rightarrow> cga" where
  "cga_cursor_set pos s =
     s\<lparr>cur_low := ucast (pos AND 0xff), cur_high := ucast (drop_bit 8 (pos AND 0xff00))\<rparr>"

lemma join_u16:
  "push_bit 8 (ucast (ucast (drop_bit 8 (pos AND 0xff00)) :: u8)) OR ucast (ucast (pos AND 0xff) :: u8) = (pos :: u16)"
proof -
  have m: "(0xff :: u16) = mask 8" "(0xff00 :: u16) = push_bit 8 (mask 8)"
    by (simp_all add: mask_eq_exp_minus_1)
  show ?thesis unfolding m
  proof (rule bit_word_eqI)
    fix n assume "n < LENGTH(16)"
    then consider "n < 8" | "8 \<le> n" "n < 16" by fastforce
    then show "bit (push_bit 8 (ucast (ucast (drop_bit 8 (pos AND push_bit 8 (mask 8))) :: u8))
        OR ucast (ucast (pos AND mask 8) :: u8) :: u16) n = bit pos n"
      by cases (auto simp: bit_simps)
  qed
qed

lemma cursor_get_set: "cga_cursor_get (cga_cursor_set pos s) = pos"
  using join_u16 [of pos] by (simp add: cga_cursor_get_def cga_cursor_set_def)

definition cga_clear :: "cga \<Rightarrow> cga res" where
  "cga_clear s =
     bindr (wait (cga_lock s)) (\<lambda>l.
     let s = s\<lparr>cga_lock := l, vm := fill_loop (vm s) 0 (80 * 25)\<rparr>;
         s = cga_cursor_set 0 s
     in Inr (s\<lparr>cga_lock := signal (cga_lock s)\<rparr>))"

definition cga_set_attribute :: "u32 \<Rightarrow> u32 \<Rightarrow> cga \<Rightarrow> cga" where
  "cga_set_attribute color bright s =
     s\<lparr>cga_attr := push_bit 3 (ucast bright) OR ucast color\<rparr>"

subsection \<open>Output\<close>

text \<open>
  The backspace loop: \<open>i\<close> is a 16-bit cell index and \<open>spaces\<close> the count so far. \<open>None\<close>
  stands for a loop that never ends, on a memory full of blanks.
\<close>

partial_function (option) back_loop :: "(nat \<Rightarrow> u16) \<Rightarrow> u16 \<Rightarrow> u16 \<Rightarrow> u16 option" where
  "back_loop v i spaces =
     (if v (unat i) AND 0xff = 32 \<or> i = 0 then back_loop v (i - 1) (spaces + 1) else Some spaces)"

fun tab_loop :: "(nat \<Rightarrow> u16) \<Rightarrow> u16 \<Rightarrow> nat \<Rightarrow> (nat \<Rightarrow> u16) \<times> u16" where
  "tab_loop v pos 0 = (v, pos)"
| "tab_loop v pos (Suc n) = tab_loop (v(unat pos := WHITH_CHAR)) (pos + 1) n"

text \<open>A \<open>char\<close> is signed: one above 127 is sign-extended into the attribute byte.\<close>

definition cga_putc :: "byte \<Rightarrow> u8 \<Rightarrow> cga \<Rightarrow> cga res" where
  "cga_putc ch attr s =
     (let ch_attr = push_bit 8 (ucast attr) :: u16; pos = cga_cursor_get s in
      bindr
       (if ch = 8 then
          if \<not> (TO_ROW (unat pos) = 0 \<and> TO_COL (unat pos) = 0) then
            let pos = pos - 1; v = (vm s)(unat pos := ch_attr OR 32) in
            (case back_loop v (pos - 1) 0 of
               None \<Rightarrow> Inl Spin
             | Some spaces \<Rightarrow> Inr (s\<lparr>vm := v\<rparr>, if spaces > 1 then pos - spaces else pos))
          else Inr (s, pos)
        else if ch = 9 then
          let (v, pos) = tab_loop (vm s) pos (4 - unat pos mod 4) in Inr (s\<lparr>vm := v\<rparr>, pos)
        else if ch = 10 then
          if LASTLINE_BEG \<le> unat pos \<and> unat pos \<le> LASTLINE_END
          then Inr (cga_scroll_back s, word_of_nat LASTLINE_BEG)
          else Inr (s, word_of_nat (TO_POS (TO_ROW (unat pos) + 1) 0))
        else
          let s = s\<lparr>vm := (vm s)(unat pos := ch_attr OR scast ch)\<rparr>; pos = pos + 1 in
          if unat pos = LASTLINE_END
          then Inr (cga_scroll_back s, word_of_nat LASTLINE_BEG)
          else Inr (s, pos))
       (\<lambda>(s, pos). if unat pos > LASTLINE_END then Inl Halt else Inr (cga_cursor_set pos s)))"

fun putstr_loop :: "byte list \<Rightarrow> nat \<Rightarrow> nat \<Rightarrow> cga \<Rightarrow> cga res" where
  "putstr_loop str i 0 s = Inr s"
| "putstr_loop str i (Suc n) s =
     bindr (read_at ''cga_putstr()'' str (int i)) (\<lambda>c.
     bindr (cga_putc c (cga_attr s) s) (putstr_loop str (Suc i) n))"

definition cga_putstr :: "byte list \<Rightarrow> nat \<Rightarrow> cga \<Rightarrow> cga res" where
  "cga_putstr str len s =
     bindr (wait (cga_lock s)) (\<lambda>l.
     bindr (putstr_loop str 0 len (s\<lparr>cga_lock := l\<rparr>)) (\<lambda>s.
     Inr (s\<lparr>cga_lock := signal (cga_lock s)\<rparr>)))"

subsection \<open>The cursor stays on the screen\<close>

lemma tab_loop_pos: "snd (tab_loop v pos n) = pos + word_of_nat n"
  by (induction n arbitrary: v pos) auto

lemma unat_add_16: "unat (p :: u16) + n < 65536 \<Longrightarrow> unat (p + word_of_nat n) = unat p + n"
  by (simp add: unat_word_ariths unat_of_nat)

lemma unat_of_nat_16: "n < 65536 \<Longrightarrow> unat (word_of_nat n :: u16) = n"
  by (simp add: unat_of_nat)

definition on_screen :: "cga \<Rightarrow> bool" where
  "on_screen s \<longleftrightarrow> unat (cga_cursor_get s) \<le> 1998"

lemma on_screen_set: "unat p \<le> 1998 \<Longrightarrow> on_screen (cga_cursor_set p s)"
  by (simp add: on_screen_def cursor_get_set)

lemma cga_frame [simp]:
  "cga_lock (cga_cursor_set p s) = cga_lock s" "cga_attr (cga_cursor_set p s) = cga_attr s"
  "vm (cga_cursor_set p s) = vm s"
  "cga_lock (cga_scroll_back s) = cga_lock s" "cga_attr (cga_scroll_back s) = cga_attr s"
  by (simp_all add: cga_cursor_set_def cga_scroll_back_def Let_def)

lemma putc_tab:
  assumes "on_screen s"
  shows "if 1996 \<le> unat (cga_cursor_get s) then cga_putc 9 attr s = Inl Halt
    else \<exists>s'. cga_putc 9 attr s = Inr s' \<and> on_screen s' \<and> cga_lock s' = cga_lock s \<and> cga_attr s' = cga_attr s"
proof -
  let ?p = "cga_cursor_get s" and ?n = "4 - unat (cga_cursor_get s) mod 4"
  obtain v q where t: "tab_loop (vm s) ?p ?n = (v, q)" by (cases "tab_loop (vm s) ?p ?n")
  have p: "unat ?p \<le> 1998" using assms by (simp add: on_screen_def)
  have "q = ?p + word_of_nat ?n" using tab_loop_pos [of "vm s" ?p ?n] unfolding t by simp
  moreover have "unat (?p + word_of_nat ?n) = unat ?p + ?n" using p by (intro unat_add_16) simp
  ultimately have q: "unat q = unat ?p + ?n" by (simp only:)
  have run: "cga_putc 9 attr s = (if unat q > 1999 then Inl Halt else Inr (cga_cursor_set q (s\<lparr>vm := v\<rparr>)))"
    by (simp add: cga_putc_def Let_def t)
  have "unat ?p mod 4 + 4 * (unat ?p div 4) = unat ?p" by simp
  then have "1996 \<le> unat ?p \<longleftrightarrow> 1999 < unat q" and "\<not> 1996 \<le> unat ?p \<Longrightarrow> unat q \<le> 1998"
    unfolding q using p by presburger+
  then show ?thesis unfolding run by (auto intro: on_screen_set)
qed

lemma putc_char:
  assumes "on_screen s" and "ch \<noteq> 8" and "ch \<noteq> 9" and "ch \<noteq> 10"
  shows "\<exists>s'. cga_putc ch attr s = Inr s' \<and> on_screen s' \<and> cga_lock s' = cga_lock s \<and> cga_attr s' = cga_attr s
    \<and> (unat (cga_cursor_get s) < 1998 \<longrightarrow>
         unat (cga_cursor_get s') = unat (cga_cursor_get s) + 1
         \<and> vm s' = (vm s)(unat (cga_cursor_get s) := push_bit 8 (ucast attr) OR scast ch))"
proof -
  let ?p = "cga_cursor_get s" and ?s = "s\<lparr>vm := (vm s)(unat (cga_cursor_get s) := push_bit 8 (ucast attr) OR scast ch)\<rparr>"
  have p: "unat ?p \<le> 1998" using assms(1) by (simp add: on_screen_def)
  then have q: "unat (?p + 1) = unat ?p + 1" using unat_add_16 [of ?p 1] by simp
  have "cga_putc ch attr s =
    (if unat (?p + 1) = 1999 then Inr (cga_cursor_set 1920 (cga_scroll_back ?s))
     else Inr (cga_cursor_set (?p + 1) ?s))"
    using assms(2-4) p q by (simp add: cga_putc_def Let_def)
  then show ?thesis
    using p q by (auto intro!: on_screen_set simp: cursor_get_set)
qed

lemma putc_newline:
  assumes "on_screen s"
  shows "\<exists>s'. cga_putc 10 attr s = Inr s' \<and> on_screen s' \<and> cga_lock s' = cga_lock s \<and> cga_attr s' = cga_attr s"
proof -
  let ?p = "unat (cga_cursor_get s)"
  have p: "?p \<le> 1998" using assms by (simp add: on_screen_def)
  have "?p div 80 < 24" if "?p < 1920" using that by (simp add: div_less_iff_less_mult)
  then have r: "(?p div 80 + 1) * 80 \<le> 1920" if "?p < 1920" using that by fastforce
  define X where "X = TO_POS (TO_ROW ?p + 1) 0"
  have X: "X \<le> 1920" if "?p < 1920" using r [OF that] by (simp add: X_def TO_POS_def TO_ROW_def)
  show ?thesis
  proof (cases "1920 \<le> ?p")
    case True
    then have "cga_putc 10 attr s = Inr (cga_cursor_set 1920 (cga_scroll_back s))"
      using p by (simp add: cga_putc_def Let_def)
    then show ?thesis by (auto intro!: on_screen_set)
  next
    case False
    then have "unat (word_of_nat X :: u16) \<le> 1920" using X unat_of_nat_16 [of X] by simp
    moreover from this have "cga_putc 10 attr s = Inr (cga_cursor_set (word_of_nat X) s)"
      using False unfolding cga_putc_def Let_def X_def [symmetric] by simp
    ultimately show ?thesis by (auto intro!: on_screen_set)
  qed
qed

lemma putstr_text:
  "on_screen s \<Longrightarrow> i + n \<le> length str \<Longrightarrow> \<forall>c \<in> set str. c \<noteq> 8 \<and> c \<noteq> 9 \<Longrightarrow>
   \<exists>s'. putstr_loop str i n s = Inr s' \<and> on_screen s' \<and> cga_lock s' = cga_lock s"
proof (induction n arbitrary: i s)
  case (Suc n)
  let ?c = "str ! i"
  have c: "?c \<noteq> 8" "?c \<noteq> 9" using Suc.prems by auto
  obtain s1 where s1: "cga_putc ?c (cga_attr s) s = Inr s1" "on_screen s1" "cga_lock s1 = cga_lock s"
    using putc_char [OF Suc.prems(1) c, of "cga_attr s"] putc_newline [OF Suc.prems(1), of "cga_attr s"]
    by (cases "?c = 10") auto
  from Suc.IH [OF s1(2), of "Suc i"] Suc.prems s1 show ?case by auto
qed simp

lemma putstr_plain:
  "unat (cga_cursor_get s) + n \<le> 1998 \<Longrightarrow> i + n \<le> length str \<Longrightarrow>
   \<forall>c \<in> set str. c \<noteq> 8 \<and> c \<noteq> 9 \<and> c \<noteq> 10 \<Longrightarrow>
   \<exists>s'. putstr_loop str i n s = Inr s' \<and> unat (cga_cursor_get s') = unat (cga_cursor_get s) + n
     \<and> cga_lock s' = cga_lock s
     \<and> (\<forall>k. vm s' k = (if unat (cga_cursor_get s) \<le> k \<and> k < unat (cga_cursor_get s) + n
          then push_bit 8 (ucast (cga_attr s)) OR scast (str ! (i + (k - unat (cga_cursor_get s)))) else vm s k))"
proof (induction n arbitrary: i s)
  case (Suc n)
  let ?c = "str ! i" and ?p = "unat (cga_cursor_get s)"
  have c: "?c \<noteq> 8" "?c \<noteq> 9" "?c \<noteq> 10" using Suc.prems by auto
  have os: "on_screen s" and lt: "?p < 1998" using Suc.prems(1) by (simp_all add: on_screen_def)
  from putc_char [OF os c, of "cga_attr s"] lt obtain s1 where
    s1: "cga_putc ?c (cga_attr s) s = Inr s1" "cga_lock s1 = cga_lock s" "cga_attr s1 = cga_attr s"
      "unat (cga_cursor_get s1) = ?p + 1"
      "vm s1 = (vm s)(?p := push_bit 8 (ucast (cga_attr s)) OR scast ?c)" by blast
  from Suc.IH [of s1 "Suc i"] Suc.prems s1(4) obtain s2 where
    s2: "putstr_loop str (Suc i) n s1 = Inr s2" "unat (cga_cursor_get s2) = ?p + 1 + n"
      "cga_lock s2 = cga_lock s1"
      "\<forall>k. vm s2 k = (if ?p + 1 \<le> k \<and> k < ?p + 1 + n
          then push_bit 8 (ucast (cga_attr s1)) OR scast (str ! (Suc i + (k - (?p + 1)))) else vm s1 k)"
    by auto
  have "vm s2 k = (if ?p \<le> k \<and> k < ?p + Suc n
      then push_bit 8 (ucast (cga_attr s)) OR scast (str ! (i + (k - ?p))) else vm s k)" for k
  proof (cases "k = ?p")
    case False
    have "Suc i + (k - (?p + 1)) = i + (k - ?p)" if "?p + 1 \<le> k" using that by simp
    moreover have "(?p + 1 \<le> k \<and> k < ?p + 1 + n) = (?p \<le> k \<and> k < ?p + Suc n)" using False by auto
    ultimately show ?thesis using s2(4) s1(3,5) False by (simp only: fun_upd_other if_True if_False) simp
  qed (use s1(5) s2(4) in simp)
  moreover have "putstr_loop str i (Suc n) s = Inr s2" using s1(1,3) s2(1) Suc.prems(2) by simp
  moreover have "unat (cga_cursor_get s2) = ?p + Suc n" "cga_lock s2 = cga_lock s" using s2(2,3) s1(2) by simp_all
  ultimately show ?case by blast
qed auto

subsection \<open>Properties\<close>

definition cga_sample :: cga where
  "cga_sample = \<lparr>vm = (\<lambda>_. 0x0f20), cur_low = 5, cur_high = 0, cga_attr = 7, cga_lock = unlocked\<rparr>"

lemma cga_sample_facts: "unat (cga_cursor_get cga_sample) = 5" "cga_lock cga_sample = unlocked"
  by (simp_all add: cga_sample_def cga_cursor_get_def)

text \<open>With the lock free and the cursor on the screen, cga_putstr returns on every string without
  tabs and backspaces, however often it scrolls, with the cursor on the screen and the lock free;
  a string that also has no newline and fits before the last cell is written cell by cell from the
  cursor on in the current attribute, and nothing else on the screen changes.\<close>
theorem cga_putstr_text:
  assumes "cga_lock s = unlocked" and "unat (cga_cursor_get s) \<le> 1998"
    and "\<forall>c \<in> set str. c \<noteq> 8 \<and> c \<noteq> 9"
  shows "\<exists>s'. cga_putstr str (length str) s = Inr s' \<and> cga_lock s' = unlocked
    \<and> unat (cga_cursor_get s') \<le> 1998
    \<and> (10 \<notin> set str \<and> unat (cga_cursor_get s) + length str \<le> 1998 \<longrightarrow>
        unat (cga_cursor_get s') = unat (cga_cursor_get s) + length str
        \<and> (\<forall>k. vm s' k = (if unat (cga_cursor_get s) \<le> k \<and> k < unat (cga_cursor_get s) + length str
             then push_bit 8 (ucast (cga_attr s)) OR scast (str ! (k - unat (cga_cursor_get s))) else vm s k)))"
proof -
  let ?s = "s\<lparr>cga_lock := \<lparr>islock = 1\<rparr>\<rparr>"
  have c: "cga_cursor_get (s\<lparr>cga_lock := l\<rparr>) = cga_cursor_get s" for s l
    by (simp add: cga_cursor_get_def)
  from putstr_text [of ?s 0 "length str" str] assms obtain s1 where
    s1: "putstr_loop str 0 (length str) ?s = Inr s1" "on_screen s1"
    by (auto simp: on_screen_def c)
  have run: "cga_putstr str (length str) s = Inr (s1\<lparr>cga_lock := unlocked\<rparr>)"
    using assms(1) s1(1) by (simp add: cga_putstr_def)
  have "unat (cga_cursor_get s1) = unat (cga_cursor_get s) + length str
      \<and> (\<forall>k. vm s1 k = (if unat (cga_cursor_get s) \<le> k \<and> k < unat (cga_cursor_get s) + length str
           then push_bit 8 (ucast (cga_attr s)) OR scast (str ! (k - unat (cga_cursor_get s))) else vm s k))"
    if h: "10 \<notin> set str \<and> unat (cga_cursor_get s) + length str \<le> 1998"
  proof -
    have "\<forall>c \<in> set str. c \<noteq> 8 \<and> c \<noteq> 9 \<and> c \<noteq> 10" using h assms(3) by metis
    with putstr_plain [of ?s "length str" 0 str] h s1(1) show ?thesis by (simp add: c)
  qed
  with run s1(2) show ?thesis by (auto simp: c on_screen_def)
qed

theorem cga_putstr_text_witness:
  "\<exists>s'. cga_putstr [104, 105] (length [104, 105 :: byte]) cga_sample = Inr s'
    \<and> unat (cga_cursor_get s') = 7"
  using cga_putstr_text [of cga_sample "[104, 105]"] cga_sample_facts by auto

text \<open>A tab written with the cursor on one of the last cells of the screen (1996 to 1998) moves it
  off the screen and halts the machine; anywhere else on the screen a tab keeps it there.\<close>
theorem cga_tab_halts:
  assumes "unat (cga_cursor_get s) \<le> 1998"
  shows "if 1996 \<le> unat (cga_cursor_get s) then cga_putc 9 attr s = Inl Halt
    else \<exists>s'. cga_putc 9 attr s = Inr s' \<and> unat (cga_cursor_get s') \<le> 1998"
  using putc_tab [of s attr] assms unfolding on_screen_def by (auto split: if_splits)

theorem cga_tab_halts_witness:
  "cga_putc 9 7 (cga_sample\<lparr>cur_low := 0xcd, cur_high := 7\<rparr>) = Inl Halt"
  using cga_tab_halts [of "cga_sample\<lparr>cur_low := 0xcd, cur_high := 7\<rparr>" 7]
  by (simp add: cga_cursor_get_def)

end
