(* ===== verification/Ata.thy ===== *)
theory Ata
  imports Clib Interfaces
begin

section \<open>kern/driver/ata: the disk driver\<close>

text \<open>
  The drive is a function from 28-bit block addresses to 512-byte sectors. A command is
  what the driver writes into the task-file registers (\<open>ata_set_cmd\<close>); the drive sees the
  block address assembled from four of them. Polling transfers one sector per command;
  the interrupt method queues the request, issues one command for all its sectors, and
  completes it in the interrupt handler. The loops that wait for the drive read its status port:
  the statuses it yields, one after the other, are a list, and a port that stays the same for ever
  makes the loop spin. A data transfer that ends inside a sector never completes on
  the device and is a \<open>Fault\<close>.
\<close>

type_synonym drive = "u32 \<Rightarrow> byte list"

text \<open>A drive that holds whole sectors.\<close>

definition drive_ok :: "drive \<Rightarrow> bool" where
  "drive_ok d \<longleftrightarrow> (\<forall>l. length (d l) = 512)"

definition ATA_CMD_IO_READ :: u32 where "ATA_CMD_IO_READ = 0x20"
definition ATA_CMD_IO_WRITE :: u32 where "ATA_CMD_IO_WRITE = 0x30"

lemma ata_cmds [simp]: "ATA_CMD_IO_READ \<noteq> ATA_CMD_IO_WRITE" "ATA_CMD_IO_WRITE \<noteq> ATA_CMD_IO_READ"
  by (simp_all add: ATA_CMD_IO_READ_def ATA_CMD_IO_WRITE_def)

subsection \<open>Waiting for the status\<close>

definition ATA_STATUS_ERR :: u8 where "ATA_STATUS_ERR = 0x01"
definition ATA_STATUS_DRQ :: u8 where "ATA_STATUS_DRQ = 0x08"
definition ATA_STATUS_RDY :: u8 where "ATA_STATUS_RDY = 0x40"
definition ATA_STATUS_BSY :: u8 where "ATA_STATUS_BSY = 0x80"

text \<open>What is left of the statuses comes back.\<close>

fun ata_wait :: "u8 list \<Rightarrow> u8 list res" where
  "ata_wait [] = Inl Spin"
| "ata_wait (x # xs) = (if x AND (ATA_STATUS_RDY OR ATA_STATUS_BSY) \<noteq> ATA_STATUS_RDY then ata_wait xs else Inr xs)"

fun busy_wait :: "u8 list \<Rightarrow> u8 list res" where
  "busy_wait [] = Inl Spin"
| "busy_wait (x # xs) = (if x AND ATA_STATUS_BSY \<noteq> 0 then busy_wait xs else Inr xs)"

text \<open>A status without DRQ is followed by a second read for ERR.\<close>

fun ready_wait :: "u8 list \<Rightarrow> u8 list res" where
  "ready_wait [] = Inl Spin"
| "ready_wait (x # xs) =
     (if x AND ATA_STATUS_DRQ \<noteq> 0 then Inr xs
      else case xs of
        [] \<Rightarrow> Inl Spin
      | y # ys \<Rightarrow> if y AND ATA_STATUS_ERR \<noteq> 0 then Inr ys else ready_wait ys)"

definition drive_idle :: "u8 \<Rightarrow> bool" where
  "drive_idle x \<longleftrightarrow> bit x 6 \<and> \<not> bit x 7"

text \<open>The status of a drive that is ready and has completed a seek.\<close>

lemma drive_idle_50 [simp]: "drive_idle 0x50"
  by (simp add: drive_idle_def bit_simps)

lemma idle_test: "x AND (ATA_STATUS_RDY OR ATA_STATUS_BSY) = ATA_STATUS_RDY \<longleftrightarrow> drive_idle x"
proof -
  have b: "ATA_STATUS_RDY = push_bit 6 1" "ATA_STATUS_BSY = push_bit 7 1" by (simp_all add: ATA_STATUS_RDY_def ATA_STATUS_BSY_def)
  have p: "bit (push_bit k 1 :: u8) n \<longleftrightarrow> n = k" if "k < 8" for k n
    using that by (auto simp: bit_exp_iff)
  have "bit ATA_STATUS_RDY n \<longleftrightarrow> n = 6" "bit ATA_STATUS_BSY n \<longleftrightarrow> n = 7" for n unfolding b by (rule p, simp)+
  then show ?thesis
    by (auto simp: bit_eq_iff [of "x AND (ATA_STATUS_RDY OR ATA_STATUS_BSY)" ATA_STATUS_RDY] bit_and_iff bit_or_iff drive_idle_def
        dest: spec [of _ "6 :: nat"] spec [of _ "7 :: nat"])
qed

text \<open>The wait ends behind the first status of an idle drive, and does not end when there is none.\<close>

lemma ata_wait_eq: "ata_wait st = (case dropWhile (\<lambda>x. \<not> drive_idle x) st of [] \<Rightarrow> Inl Spin | x # xs \<Rightarrow> Inr xs)"
  by (induction st) (simp_all add: idle_test)

lemma ata_wait_ok: "\<exists>x \<in> set st. drive_idle x \<Longrightarrow> \<exists>st'. ata_wait st = Inr st'"
  by (induction st) (auto simp: idle_test)

subsection \<open>Devices\<close>

datatype bus_wire = WIRE_LOW | WIRE_HIGH
datatype device_type = DEVICE_UNKNOWN | DEVICE_ATA

record ata_device =
  valid :: bool
  bus_no :: nat
  wire :: bus_wire
  device_type :: device_type
  io_port :: u16
  ctrl_port :: u16
  device_no :: u32
  total_sectors :: u32
  dev_serial :: "byte list"
  dev_model :: "byte list"

record ataspc =
  device_amount :: u32
  current_select :: nat
  device_info :: "ata_device list"

definition ata_check_invalid :: "ataspc \<Rightarrow> nat \<Rightarrow> unit res" where
  "ata_check_invalid s dev_no =
     (if device_amount s \<noteq> 0 \<and> unat (device_amount s) \<le> dev_no
      then panic ''ata_check_invalid(): device invalid'' else Inr ())"

subsection \<open>Identification\<close>

text \<open>The strings of the IDENTIFY data have the two bytes of each word swapped.\<close>

fun swap_pairs :: "byte list \<Rightarrow> byte list" where
  "swap_pairs (a # b # xs) = b # a # swap_pairs xs"
| "swap_pairs xs = xs"

definition ata_print_string :: "byte list option \<Rightarrow> byte list res" where
  "ata_print_string buff =
     (case buff of
       None \<Rightarrow> panic ''ata_print_string(): null pointer''
     | Some b \<Rightarrow>
         if odd (length b) then panic ''ata_print_string(): bad buffer size'' else Inr (swap_pairs b))"

text \<open>
  The string is cut at the first of two adjacent blanks. The loop also looks at the byte
  behind the last one, which is outside the string.
\<close>

fun cut_loop :: "byte list \<Rightarrow> nat \<Rightarrow> nat \<Rightarrow> byte list res" where
  "cut_loop s i 0 = Inr s"
| "cut_loop s i (Suc n) =
     bindr (read_at ''ata_get_serial_number()'' s (int i)) (\<lambda>c.
     if c = 0x20 then
       bindr (read_at ''ata_get_serial_number()'' s (int (i + 1))) (\<lambda>c'.
       if c' = 0x20 then Inr (s[i := 0]) else cut_loop s (Suc i) n)
     else cut_loop s (Suc i) n)"

text \<open>Offsets in the IDENTIFY data: word 0, words 10 to 19, 27 to 46, 60 and 61.\<close>

definition ata_get_device_type :: "byte list \<Rightarrow> device_type" where
  "ata_get_device_type idd = (if bit (idd ! 1) 7 then DEVICE_UNKNOWN else DEVICE_ATA)"

definition ata_get_sectors :: "byte list \<Rightarrow> u32" where
  "ata_get_sectors idd = ucast (idd ! 120) OR push_bit 8 (ucast (idd ! 121))
     OR push_bit 16 (ucast (idd ! 122)) OR push_bit 24 (ucast (idd ! 123))"

definition ata_get_serial_number :: "byte list \<Rightarrow> byte list res" where
  "ata_get_serial_number idd =
     bindr (ata_print_string (Some (take 20 (drop 20 idd)))) (\<lambda>s. cut_loop s 0 20)"

definition ata_get_model_number :: "byte list \<Rightarrow> byte list res" where
  "ata_get_model_number idd =
     bindr (ata_print_string (Some (take 40 (drop 54 idd)))) (\<lambda>s. cut_loop s 0 40)"

text \<open>
  What a position answers to IDENTIFY: nothing, the ATAPI signature, or its data, with the statuses it
  yields while it is busy and until the data are there.
\<close>

datatype probe = Absent | Atapi "u8 list" | Ident "u8 list" "u8 list" "byte list"

definition detect_one :: "probe \<Rightarrow> nat \<Rightarrow> ata_device \<Rightarrow> ata_device res" where
  "detect_one pr k d =
     (let d = d\<lparr>device_no := word_of_nat k, bus_no := k div 2,
            wire := (if k mod 2 = 0 then WIRE_LOW else WIRE_HIGH),
            io_port := (if k div 2 = 0 then 0x1f0 else 0x170),
            ctrl_port := (if k div 2 = 0 then 0x3f6 else 0x376)\<rparr> in
      case pr of
        Absent \<Rightarrow> Inr (d\<lparr>valid := False\<rparr>)
      | Atapi busy \<Rightarrow>
          bindr (busy_wait busy) (\<lambda>_.
          Inr (d\<lparr>device_type := DEVICE_UNKNOWN, valid := False\<rparr>))
      | Ident busy ready idd \<Rightarrow>
          bindr (busy_wait busy) (\<lambda>_.
          bindr (ready_wait ready) (\<lambda>_.
          bindr (ata_get_serial_number idd) (\<lambda>ser.
          bindr (ata_get_model_number idd) (\<lambda>mdl.
          Inr (d\<lparr>valid := True, device_type := ata_get_device_type idd,
            total_sectors := ata_get_sectors idd, dev_serial := ser, dev_model := mdl\<rparr>))))))"

definition device0 :: ata_device where
  "device0 = \<lparr>valid = False, bus_no = 0, wire = WIRE_LOW, device_type = DEVICE_UNKNOWN, io_port = 0,
     ctrl_port = 0, device_no = 0, total_sectors = 0, dev_serial = replicate 20 0, dev_model = replicate 40 0\<rparr>"

fun detect_loop :: "(nat \<Rightarrow> probe) \<Rightarrow> nat \<Rightarrow> nat \<Rightarrow> ataspc \<Rightarrow> ataspc res" where
  "detect_loop pr k 0 s = Inr s"
| "detect_loop pr k (Suc n) s =
     bindr (detect_one (pr k) k (device_info s ! k)) (\<lambda>d.
     detect_loop pr (Suc k) n
       (s\<lparr>device_info := (device_info s)[k := d],
          device_amount := device_amount s + (if valid d then 1 else 0)\<rparr>))"

definition ata_detect :: "(nat \<Rightarrow> probe) \<Rightarrow> ataspc res" where
  "ata_detect pr =
     detect_loop pr 0 4 \<lparr>device_amount = 0, current_select = 0, device_info = replicate 4 device0\<rparr>"

fun select_loop :: "nat \<Rightarrow> nat \<Rightarrow> ataspc \<Rightarrow> ataspc" where
  "select_loop i 0 s = s"
| "select_loop i (Suc n) s =
     (if valid (device_info s ! i) then s\<lparr>current_select := i\<rparr> else select_loop (Suc i) n s)"

definition init_ata :: "(nat \<Rightarrow> probe) \<Rightarrow> ataspc res" where
  "init_ata pr = bindr (ata_detect pr) (\<lambda>s. Inr (select_loop 0 (unat (device_amount s)) s))"

subsection \<open>Commands\<close>

record task_file =
  drive_select :: u8
  sector_count :: u8
  lba_low :: u8
  lba_mid :: u8
  lba_high :: u8
  command :: u8

text \<open>
  The registers are written, then the driver waits; \<open>st\<close> are the statuses that the port yields from then on.
  The four reads of the control port that take 400 ns have no effect.
\<close>

definition ata_set_cmd :: "u8 list \<Rightarrow> ataspc \<Rightarrow> nat \<Rightarrow> u32 \<Rightarrow> u8 \<Rightarrow> u32 \<Rightarrow> task_file res" where
  "ata_set_cmd st s dev lba cr cmd =
     bindr (ata_check_invalid s dev) (\<lambda>_.
     let master = (if wire (device_info s ! dev) = WIRE_LOW then 0 else 1) :: u8 in
     let t = \<lparr>drive_select = 0xa0 OR 0x40 OR push_bit 4 master OR (ucast (drop_bit 24 lba) AND 0xf),
       sector_count = cr,
       lba_low = ucast (lba AND 0xff), lba_mid = ucast (drop_bit 8 lba AND 0xff),
       lba_high = ucast (drop_bit 16 lba AND 0xff), command = ucast cmd\<rparr> in
     bindr (ata_wait st) (\<lambda>_. Inr t))"

text \<open>The block address and the number of sectors the drive takes from its registers.\<close>

definition tf_lba :: "task_file \<Rightarrow> u32" where
  "tf_lba t = ucast (lba_low t) OR push_bit 8 (ucast (lba_mid t)) OR push_bit 16 (ucast (lba_high t))
     OR push_bit 24 (ucast (drive_select t) AND 0xf)"

definition tf_count :: "task_file \<Rightarrow> nat" where
  "tf_count t = (if sector_count t = 0 then 256 else unat (sector_count t))"

lemma tf_lba_set_cmd:
  assumes "ata_set_cmd st s dev lba cr cmd = Inr t"
  shows "tf_lba t = take_bit 28 lba"
proof -
  have m: "(0xff :: u32) = mask 8" "(0xf :: u8) = mask 4" "(0xf :: u32) = mask 4"
    by (simp_all add: mask_eq_exp_minus_1)
  define ds where "ds = (0xa0 OR 0x40 OR push_bit 4 (if wire (device_info s ! dev) = WIRE_LOW then 0 else 1)
    OR (ucast (drop_bit 24 lba) AND 0xf) :: u8)"
  have t: "drive_select t = ds" "lba_low t = ucast (lba AND 0xff)"
    "lba_mid t = ucast (drop_bit 8 lba AND 0xff)" "lba_high t = ucast (drop_bit 16 lba AND 0xff)"
    using assms by (auto simp: ata_set_cmd_def bindr_eq_Inr Let_def ds_def)
  have d: "bit ds n \<longleftrightarrow> bit lba (24 + n)" if "n < 4" for n
  proof -
    from that consider "n = 0" | "n = 1" | "n = 2" | "n = 3" by fastforce
    then show ?thesis by cases (auto simp: ds_def m(2) bit_simps)
  qed
  show ?thesis
  proof (rule bit_word_eqI)
    fix n assume "n < LENGTH(32)"
    then consider "n < 8" | "8 \<le> n" "n < 16" | "16 \<le> n" "n < 24" | "24 \<le> n" "n < 28" | "28 \<le> n" "n < 32"
      by fastforce
    then show "bit (tf_lba t) n \<longleftrightarrow> bit (take_bit 28 lba) n"
    proof cases
      case 4
      then show ?thesis using d [of "n - 24"]
        by (auto simp: tf_lba_def t m(1,3) bit_simps)
    qed (auto simp: tf_lba_def t m(1,3) bit_simps)
  qed
qed

subsection \<open>Requests\<close>

text \<open>
  The sectors the drive hands out and takes in for one command. \<open>put_sectors\<close> is given at
  least the bytes the command asks for.
\<close>

fun get_sectors :: "drive \<Rightarrow> u32 \<Rightarrow> nat \<Rightarrow> byte list" where
  "get_sectors d lba 0 = []"
| "get_sectors d lba (Suc n) = d lba @ get_sectors d (lba + 1) n"

fun put_sectors :: "byte list \<Rightarrow> u32 \<Rightarrow> nat \<Rightarrow> drive \<Rightarrow> drive" where
  "put_sectors b lba 0 d = d"
| "put_sectors b lba (Suc n) d = put_sectors (drop 512 b) (lba + 1) n (d(lba := take 512 b))"

text \<open>
  An \<open>atabuff\<close>: the caller's buffer as an object, the offset the pointer has advanced to,
  and the thread whose slot of \<open>__mdata_atabuff\<close> it is.
\<close>

record atabuff =
  ab_tid :: nat
  ab_data :: "byte list"
  ab_off :: nat
  ab_len :: u32
  ab_lba :: u32
  ab_cmd :: u32
  ab_finish :: bool

datatype atamth = ATA_METHOD_POLLING | ATA_METHOD_IRQ

text \<open>The statuses that the port of the selected drive yields after a command are part of the state.\<close>

record ata =
  ata_method :: atamth
  ata_space :: ataspc
  ata_drive :: drive
  ata_queue :: "atabuff list"
  ata_pending :: "task_file option"
  ata_status :: "u8 list"

definition atabuff_set :: "nat \<Rightarrow> byte list \<Rightarrow> u32 \<Rightarrow> u32 \<Rightarrow> u32 \<Rightarrow> atabuff" where
  "atabuff_set tid buff len lba cmd =
     \<lparr>ab_tid = tid, ab_data = buff, ab_off = 0, ab_len = len, ab_lba = lba, ab_cmd = cmd, ab_finish = False\<rparr>"

text \<open>\<open>insw\<close> and \<open>outsw\<close> of some bytes at the pointer of the request.\<close>

definition insw :: "atabuff \<Rightarrow> byte list \<Rightarrow> atabuff res" where
  "insw b bytes =
     (if ab_off b + length bytes \<le> length (ab_data b)
      then Inr (b\<lparr>ab_data := take (ab_off b) (ab_data b) @ bytes @ drop (ab_off b + length bytes) (ab_data b)\<rparr>)
      else fault ''insw()'')"

definition outsw :: "atabuff \<Rightarrow> nat \<Rightarrow> byte list res" where
  "outsw b n =
     (if ab_off b + n \<le> length (ab_data b) then Inr (take n (drop (ab_off b) (ab_data b)))
      else fault ''outsw()'')"

fun polling_loop :: "nat \<Rightarrow> atabuff \<Rightarrow> ata \<Rightarrow> (atabuff \<times> ata) res" where
  "polling_loop 0 b s = Inr (b, s)"
| "polling_loop (Suc n) b s =
     (if ab_len b > 0 then
        bindr (ata_set_cmd (ata_status s) (ata_space s) (current_select (ata_space s)) (ab_lba b) 1 (ab_cmd b)) (\<lambda>t.
        let words = (if ab_len b \<ge> 512 then 256 else unat (ab_len b) div 2) in
        bindr
          (if ab_cmd b = ATA_CMD_IO_READ then
             bindr (insw b (take (2 * words) (ata_drive s (tf_lba t)))) (\<lambda>b. Inr (b, s))
           else if ab_cmd b = ATA_CMD_IO_WRITE then
             bindr (outsw b (2 * words)) (\<lambda>bytes.
             if length bytes < 512 then fault ''outsw(): short sector''
             else Inr (b, s\<lparr>ata_drive := put_sectors bytes (tf_lba t) 1 (ata_drive s)\<rparr>))
           else panic ''ata_polling_rw(): bug'') (\<lambda>(b, s).
        polling_loop n (b\<lparr>ab_lba := ab_lba b + 1, ab_len := ab_len b - 512, ab_off := ab_off b + 512\<rparr>) s))
      else Inr (b, s))"

definition ata_polling_rw :: "atabuff \<Rightarrow> ata \<Rightarrow> (atabuff \<times> ata) res" where
  "ata_polling_rw b s =
     (if ab_len b < 512 then panic ''ata_polling_rw(): not meet a sector size''
      else
        let sectors = unat (ab_len b) div 512 + (if unat (ab_len b) mod 512 \<noteq> 0 then 1 else 0) in
        bindr (polling_loop sectors b s) (\<lambda>(b, s). Inr (b\<lparr>ab_finish := True\<rparr>, s)))"

text \<open>
  The interrupt method. \<open>ata_irq_request\<close> is the part of ata_irq_rw before it sleeps. The
  drive takes as many sectors as its register says: bytes sent after them are lost, and a
  command that is not sent all its bytes does not complete.
\<close>

definition ata_irq_request :: "atabuff \<Rightarrow> ata \<Rightarrow> ata res" where
  "ata_irq_request b s =
     (let s = s\<lparr>ata_queue := ata_queue s @ [b]\<rparr> in
      bindr (ata_set_cmd (ata_status s) (ata_space s) (current_select (ata_space s)) (ab_lba b) (ucast (ab_len b div 512)) (ab_cmd b)) (\<lambda>t.
      let s = s\<lparr>ata_pending := Some t\<rparr> in
      if ab_cmd b = ATA_CMD_IO_WRITE then
        bindr (outsw b (2 * (unat (ab_len b) div 2))) (\<lambda>bytes.
        if length bytes < 512 * tf_count t then fault ''outsw(): short transfer''
        else Inr (s\<lparr>ata_drive := put_sectors bytes (tf_lba t) (tf_count t) (ata_drive s)\<rparr>))
      else Inr s))"

definition ata_irq_intr :: "ata \<Rightarrow> (atabuff option \<times> ata) res" where
  "ata_irq_intr s =
     (case ata_queue s of
       [] \<Rightarrow> Inr (None, s)
     | b # q \<Rightarrow>
         let s = s\<lparr>ata_queue := q\<rparr> in
         bindr
           (if ab_cmd b = ATA_CMD_IO_READ then
              (case ata_pending s of
                None \<Rightarrow> fault ''insw(): no transfer''
              | Some t \<Rightarrow>
                  let bytes = get_sectors (ata_drive s) (tf_lba t) (tf_count t) in
                  if length bytes < 2 * (unat (ab_len b) div 2) then fault ''insw(): beyond the transfer''
                  else insw b (take (2 * (unat (ab_len b) div 2)) bytes))
            else Inr b) (\<lambda>b.
         Inr (Some (b\<lparr>ab_finish := True\<rparr>), s\<lparr>ata_pending := None\<rparr>)))"

text \<open>The caller sleeps until the interrupt of its own request; with others before it in
  the queue it sleeps on.\<close>

definition ata_irq_rw :: "atabuff \<Rightarrow> ata \<Rightarrow> (atabuff \<times> ata) res" where
  "ata_irq_rw b s =
     bindr (ata_irq_request b s) (\<lambda>s.
     bindr (ata_irq_intr s) (\<lambda>(done, s).
     case done of
       Some b' \<Rightarrow> if ab_tid b' = ab_tid b then Inr (b', s) else Inl Spin
     | None \<Rightarrow> Inl Spin))"

definition ata_irq_init :: "ata \<Rightarrow> ata" where
  "ata_irq_init s = s\<lparr>ata_queue := []\<rparr>"

definition ata_driver_change_mode :: "atamth \<Rightarrow> ata \<Rightarrow> ata" where
  "ata_driver_change_mode m s =
     (let s = s\<lparr>ata_method := m\<rparr> in if m = ATA_METHOD_IRQ then ata_irq_init s else s)"

text \<open>The thread is the current one; its buffer comes back with the result.\<close>

definition ata_driver_rw ::
  "nat \<Rightarrow> byte list option \<Rightarrow> u32 \<Rightarrow> u32 \<Rightarrow> u32 \<Rightarrow> ata \<Rightarrow> (byte list \<times> ata) res" where
  "ata_driver_rw tid buff bufflen lba cmd s =
     (if lba = - 1 then panic ''ata_driver_rw(): invalid lba''
      else nonnull ''ata_driver_rw(): null pointer'' buff (\<lambda>buff.
        let b = atabuff_set tid buff bufflen lba cmd in
        bindr (if ata_method s = ATA_METHOD_IRQ then ata_irq_rw b s else ata_polling_rw b s) (\<lambda>(b, s).
        Inr (ab_data b, s))))"

subsection \<open>Whole sectors\<close>

definition ata_ready :: "ata \<Rightarrow> bool" where
  "ata_ready s \<longleftrightarrow> (device_amount (ata_space s) = 0 \<or> current_select (ata_space s) < unat (device_amount (ata_space s)))
     \<and> drive_ok (ata_drive s) \<and> ata_queue s = [] \<and> ata_pending s = None
     \<and> (\<exists>x \<in> set (ata_status s). drive_idle x)"

lemma ata_ready_drive_ok [simp]: "ata_ready s \<Longrightarrow> drive_ok (ata_drive s)"
  by (simp add: ata_ready_def)

lemma ata_set_cmd_ready:
  assumes "ata_ready s" and "unat lba < 268435456"
  shows "\<exists>t. ata_set_cmd (ata_status s) (ata_space s) (current_select (ata_space s)) lba cr cmd = Inr t
    \<and> tf_lba t = lba \<and> sector_count t = cr"
proof -
  obtain st' where "ata_wait (ata_status s) = Inr st'"
    using assms(1) ata_wait_ok by (auto simp: ata_ready_def)
  then obtain t where t: "ata_set_cmd (ata_status s) (ata_space s) (current_select (ata_space s)) lba cr cmd = Inr t"
    and c: "sector_count t = cr"
    using assms(1) by (auto simp: ata_set_cmd_def ata_check_invalid_def ata_ready_def Let_def)
  have "take_bit 28 lba = lba"
    using assms(2) by (simp add: word_unat_eq_iff unsigned_take_bit_eq take_bit_nat_eq_self)
  with t c tf_lba_set_cmd [OF t] show ?thesis by auto
qed

lemma length_get_sectors [simp]: "drive_ok d \<Longrightarrow> length (get_sectors d lba n) = 512 * n"
  by (induction n arbitrary: lba) (simp_all add: drive_ok_def)

lemma drive_ok_put_sectors: "drive_ok d \<Longrightarrow> 512 * n \<le> length b \<Longrightarrow> drive_ok (put_sectors b lba n d)"
  by (induction n arbitrary: b lba d) (auto simp: drive_ok_def)

lemma unat_Suc_sector: "unat lba + Suc n \<le> 268435456 \<Longrightarrow> unat (lba + 1 :: u32) = unat lba + 1"
  by (rule unat_add1_32) simp

lemma put_sectors_apply:
  "unat lba + n \<le> 268435456 \<Longrightarrow> put_sectors b lba n d l =
     (if unat lba \<le> unat l \<and> unat l < unat lba + n
      then take 512 (drop (512 * (unat l - unat lba)) b) else d l)"
proof (induction n arbitrary: b lba d)
  case (Suc n)
  have u: "unat (lba + 1) = unat lba + 1" using Suc.prems by (rule unat_Suc_sector)
  have IH: "put_sectors (drop 512 b) (lba + 1) n (d(lba := take 512 b)) l =
     (if unat lba + 1 \<le> unat l \<and> unat l < unat lba + 1 + n
      then take 512 (drop (512 * (unat l - (unat lba + 1))) (drop 512 b)) else (d(lba := take 512 b)) l)"
    using Suc.prems u by (subst Suc.IH) simp_all
  show ?case
  proof (cases "l = lba")
    case False
    then have ne: "unat l \<noteq> unat lba" by (simp add: word_unat_eq_iff)
    show ?thesis
    proof (cases "unat lba < unat l")
      case True
      then obtain k where "unat l = unat lba + Suc k" by (metis add_Suc_right less_iff_Suc_add)
      then show ?thesis using IH False by (simp add: drop_drop add.commute)
    qed (use IH False ne in simp)
  qed (use IH in simp)
qed auto

lemma put_sectors_before: "unat lba + n \<le> 268435456 \<Longrightarrow> unat l < unat lba \<Longrightarrow> put_sectors b lba n d l = d l"
  by (simp add: put_sectors_apply)

lemma get_put_sectors:
  "unat lba + n \<le> 268435456 \<Longrightarrow> length b = 512 * n \<Longrightarrow> get_sectors (put_sectors b lba n d) lba n = b"
proof (induction n arbitrary: b lba d)
  case (Suc n)
  have u: "unat (lba + 1) = unat lba + 1" using Suc.prems(1) by (rule unat_Suc_sector)
  then have f: "put_sectors (drop 512 b) (lba + 1) n (d(lba := take 512 b)) lba = take 512 b"
    using Suc.prems by (subst put_sectors_before) simp_all
  have "get_sectors (put_sectors (drop 512 b) (lba + 1) n (d(lba := take 512 b))) (lba + 1) n = drop 512 b"
    using Suc.prems u by (intro Suc.IH) simp_all
  with f show ?case by simp
qed simp

lemma insw_ok: "ab_off b + length bs \<le> length (ab_data b) \<Longrightarrow> insw b bs =
    Inr (b\<lparr>ab_data := take (ab_off b) (ab_data b) @ bs @ drop (ab_off b + length bs) (ab_data b)\<rparr>)"
  by (simp add: insw_def)

text \<open>\<open>ab_step n b\<close>: the request after \<open>n\<close> sectors.\<close>

definition ab_step :: "nat \<Rightarrow> atabuff \<Rightarrow> atabuff" where
  "ab_step n b = b\<lparr>ab_off := ab_off b + 512 * n, ab_lba := ab_lba b + word_of_nat n,
     ab_len := ab_len b - word_of_nat (512 * n)\<rparr>"

lemma ab_step_simps [simp]:
  "ab_data (ab_step n b) = ab_data b" "ab_cmd (ab_step n b) = ab_cmd b" "ab_tid (ab_step n b) = ab_tid b"
  "ab_finish (ab_step n b) = ab_finish b" "ab_off (ab_step n b) = ab_off b + 512 * n"
  "ab_len (ab_step n b) = ab_len b - word_of_nat (512 * n)" "ab_lba (ab_step n b) = ab_lba b + word_of_nat n"
  by (simp_all add: ab_step_def)

lemma ab_step_Suc:
  "ab_step (Suc n) b = ab_step n (b\<lparr>ab_lba := ab_lba b + 1, ab_len := ab_len b - 512, ab_off := ab_off b + 512\<rparr>)"
  by (simp add: ab_step_def algebra_simps)

lemma polling_len:
  assumes "unat (len :: u32) = 512 * Suc n"
  shows "0 < len" and "512 \<le> len" and "unat (len - 512) = 512 * n"
  using assms by (auto simp: word_less_nat_alt word_le_nat_alt unat_sub_32)

lemma polling_read:
  "ata_ready s \<Longrightarrow> ab_cmd b = ATA_CMD_IO_READ \<Longrightarrow> unat (ab_len b) = 512 * n \<Longrightarrow>
   unat (ab_lba b) + n \<le> 268435456 \<Longrightarrow> ab_off b + 512 * n \<le> length (ab_data b) \<Longrightarrow>
   polling_loop n b s = Inr ((ab_step n b)\<lparr>ab_data := take (ab_off b) (ab_data b)
     @ get_sectors (ata_drive s) (ab_lba b) n @ drop (ab_off b + 512 * n) (ab_data b)\<rparr>, s)"
proof (induction n arbitrary: b)
  case (Suc n)
  note l = polling_len [OF Suc.prems(3)]
  have u: "unat (ab_lba b + 1) = unat (ab_lba b) + 1" using Suc.prems(4) by (rule unat_Suc_sector)
  obtain t where t: "ata_set_cmd (ata_status s) (ata_space s) (current_select (ata_space s)) (ab_lba b) 1 (ab_cmd b) = Inr t"
    and tl: "tf_lba t = ab_lba b"
    using ata_set_cmd_ready [OF Suc.prems(1), of "ab_lba b" 1 "ab_cmd b"] Suc.prems(4) by auto
  define x where "x = ata_drive s (ab_lba b)"
  have x: "length x = 512" using Suc.prems(1) by (simp add: x_def ata_ready_def drive_ok_def)
  define b' where "b' = b\<lparr>ab_data := take (ab_off b) (ab_data b) @ x @ drop (ab_off b + 512) (ab_data b),
    ab_lba := ab_lba b + 1, ab_len := ab_len b - 512, ab_off := ab_off b + 512\<rparr>"
  have "polling_loop (Suc n) b s = polling_loop n b' s"
    using l t tl Suc.prems(2,5) x
    by (simp add: Let_def insw_ok b'_def flip: x_def)
  also have "\<dots> = Inr ((ab_step n b')\<lparr>ab_data := take (ab_off b') (ab_data b')
     @ get_sectors (ata_drive s) (ab_lba b') n @ drop (ab_off b' + 512 * n) (ab_data b')\<rparr>, s)"
    using Suc.prems u l x by (intro Suc.IH) (simp_all add: b'_def)
  also have "\<dots> = Inr ((ab_step (Suc n) b)\<lparr>ab_data := take (ab_off b) (ab_data b)
     @ get_sectors (ata_drive s) (ab_lba b) (Suc n) @ drop (ab_off b + 512 * Suc n) (ab_data b)\<rparr>, s)"
    using Suc.prems(5) x by (simp add: b'_def ab_step_def x_def [symmetric] drop_drop algebra_simps)
  finally show ?case .
qed (simp add: ab_step_def)

lemma polling_write:
  "ata_ready s \<Longrightarrow> ab_cmd b = ATA_CMD_IO_WRITE \<Longrightarrow> unat (ab_len b) = 512 * n \<Longrightarrow>
   unat (ab_lba b) + n \<le> 268435456 \<Longrightarrow> ab_off b + 512 * n \<le> length (ab_data b) \<Longrightarrow>
   polling_loop n b s = Inr (ab_step n b,
     s\<lparr>ata_drive := put_sectors (drop (ab_off b) (ab_data b)) (ab_lba b) n (ata_drive s)\<rparr>)"
proof (induction n arbitrary: b s)
  case (Suc n)
  note l = polling_len [OF Suc.prems(3)]
  have u: "unat (ab_lba b + 1) = unat (ab_lba b) + 1" using Suc.prems(4) by (rule unat_Suc_sector)
  obtain t where t: "ata_set_cmd (ata_status s) (ata_space s) (current_select (ata_space s)) (ab_lba b) 1 (ab_cmd b) = Inr t"
    and tl: "tf_lba t = ab_lba b"
    using ata_set_cmd_ready [OF Suc.prems(1), of "ab_lba b" 1 "ab_cmd b"] Suc.prems(4) by auto
  define x where "x = take 512 (drop (ab_off b) (ab_data b))"
  have x: "length x = 512" using Suc.prems(5) by (simp add: x_def)
  define b' where "b' = b\<lparr>ab_lba := ab_lba b + 1, ab_len := ab_len b - 512, ab_off := ab_off b + 512\<rparr>"
  define s' where "s' = s\<lparr>ata_drive := (ata_drive s)(ab_lba b := x)\<rparr>"
  have o: "outsw b 512 = Inr x" using Suc.prems(5) by (simp add: outsw_def x_def)
  have "polling_loop (Suc n) b s = polling_loop n b' s'"
    using l t tl Suc.prems(2) x o by (simp add: Let_def b'_def s'_def)
  also have "\<dots> = Inr (ab_step n b',
     s'\<lparr>ata_drive := put_sectors (drop (ab_off b') (ab_data b')) (ab_lba b') n (ata_drive s')\<rparr>)"
    using Suc.prems u l x by (intro Suc.IH) (auto simp: b'_def s'_def ata_ready_def drive_ok_def)
  also have "\<dots> = Inr (ab_step (Suc n) b,
     s\<lparr>ata_drive := put_sectors (drop (ab_off b) (ab_data b)) (ab_lba b) (Suc n) (ata_drive s)\<rparr>)"
    by (simp add: b'_def s'_def x_def ab_step_Suc drop_drop add.commute)
  finally show ?case .
qed (simp add: ab_step_def)

lemma driver_polling:
  assumes "ata_ready s" and "ata_method s = ATA_METHOD_POLLING" and "length buf = 512 * n" and "0 < n"
    and "unat len = 512 * n" and "unat lba + n \<le> 268435456"
  shows "ata_driver_rw tid (Some buf) len lba ATA_CMD_IO_READ s = Inr (get_sectors (ata_drive s) lba n, s)"
    and "ata_driver_rw tid (Some buf) len lba ATA_CMD_IO_WRITE s =
      Inr (buf, s\<lparr>ata_drive := put_sectors buf lba n (ata_drive s)\<rparr>)"
proof -
  have l: "\<not> len < 512" "unat len div 512 + (if unat len mod 512 \<noteq> 0 then 1 else 0) = n"
    using assms(4,5) by (simp_all add: word_less_nat_alt)
  have m: "lba \<noteq> - 1" using assms(6) by auto
  show "ata_driver_rw tid (Some buf) len lba ATA_CMD_IO_READ s = Inr (get_sectors (ata_drive s) lba n, s)"
    using assms l m polling_read [of s "atabuff_set tid buf len lba ATA_CMD_IO_READ" n]
    by (simp add: ata_driver_rw_def ata_polling_rw_def atabuff_set_def Let_def)
  show "ata_driver_rw tid (Some buf) len lba ATA_CMD_IO_WRITE s =
      Inr (buf, s\<lparr>ata_drive := put_sectors buf lba n (ata_drive s)\<rparr>)"
    using assms l m polling_write [of s "atabuff_set tid buf len lba ATA_CMD_IO_WRITE" n]
    by (simp add: ata_driver_rw_def ata_polling_rw_def atabuff_set_def Let_def)
qed

text \<open>What the drive takes for a request of \<open>n\<close> sectors: the count register has eight bits.\<close>

definition irq_count :: "nat \<Rightarrow> nat" where
  "irq_count n = (if n mod 256 = 0 then 256 else n mod 256)"

lemma irq_tf_count:
  assumes "unat (len :: u32) = 512 * n" and "sector_count t = ucast (len div 512)"
  shows "tf_count t = irq_count n"
proof -
  have "unat (len div 512) = n" using assms(1) by (simp add: unat_div)
  then have "unat (sector_count t) = n mod 256" using assms(2)
    by (simp add: unsigned_ucast_eq take_bit_eq_mod)
  moreover have "sector_count t = 0 \<longleftrightarrow> unat (sector_count t) = 0" by (simp add: unat_eq_0)
  ultimately show ?thesis by (simp only: tf_count_def irq_count_def)
qed

lemma idle_simps: "ata_queue s = [] \<Longrightarrow> ata_pending s = None \<Longrightarrow> s\<lparr>ata_queue := [], ata_pending := None\<rparr> = s"
  "ata_queue s = [] \<Longrightarrow> ata_pending s = None \<Longrightarrow>
    s\<lparr>ata_drive := d, ata_queue := [], ata_pending := None\<rparr> = s\<lparr>ata_drive := d\<rparr>"
  by (cases s, simp)+

lemma driver_irq:
  assumes r: "ata_ready s" and "ata_method s = ATA_METHOD_IRQ" and "length buf = 512 * n" and "0 < n"
    and "unat len = 512 * n" and "unat lba + n \<le> 268435456"
  shows "n \<le> 256 \<Longrightarrow> ata_driver_rw tid (Some buf) len lba ATA_CMD_IO_READ s =
      Inr (get_sectors (ata_drive s) lba n, s)"
    and "irq_count n \<le> n \<Longrightarrow> ata_driver_rw tid (Some buf) len lba ATA_CMD_IO_WRITE s =
      Inr (buf, s\<lparr>ata_drive := put_sectors buf lba (irq_count n) (ata_drive s)\<rparr>)"
proof -
  have m: "lba \<noteq> - 1" using assms(6) by auto
  have q: "ata_queue s = []" "ata_pending s = None" using r by (simp_all add: ata_ready_def)
  have "2 * (512 * n div 2) = 512 * n" by simp
  then have h: "2 * (unat len div 2) = 512 * n" using assms(5) by simp
  have set: "\<exists>t. ata_set_cmd (ata_status s) (ata_space s) (current_select (ata_space s)) lba (ucast (len div 512)) cmd = Inr t
    \<and> tf_lba t = lba \<and> tf_count t = irq_count n" for cmd
    using ata_set_cmd_ready [OF r, of lba "ucast (len div 512)" cmd] assms(4,6) irq_tf_count [OF assms(5)] by force
  show "ata_driver_rw tid (Some buf) len lba ATA_CMD_IO_READ s =
      Inr (get_sectors (ata_drive s) lba n, s)" if "n \<le> 256"
  proof -
    from that assms(4) have c: "irq_count n = n" by (cases "n = 256") (simp_all add: irq_count_def)
    from set [of ATA_CMD_IO_READ] obtain t where
      "ata_set_cmd (ata_status s) (ata_space s) (current_select (ata_space s)) lba (ucast (len div 512)) ATA_CMD_IO_READ = Inr t"
      "tf_lba t = lba" "tf_count t = irq_count n" by blast
    with assms m q c h show ?thesis
      by (simp add: ata_driver_rw_def ata_irq_rw_def ata_irq_request_def ata_irq_intr_def atabuff_set_def
        Let_def insw_ok idle_simps)
  qed
  show "ata_driver_rw tid (Some buf) len lba ATA_CMD_IO_WRITE s =
      Inr (buf, s\<lparr>ata_drive := put_sectors buf lba (irq_count n) (ata_drive s)\<rparr>)"
    if "irq_count n \<le> n"
  proof -
    from set [of ATA_CMD_IO_WRITE] obtain t where
      "ata_set_cmd (ata_status s) (ata_space s) (current_select (ata_space s)) lba (ucast (len div 512)) ATA_CMD_IO_WRITE = Inr t"
      "tf_lba t = lba" "tf_count t = irq_count n" by blast
    with that assms m q h show ?thesis
      by (simp add: ata_driver_rw_def ata_irq_rw_def ata_irq_request_def ata_irq_intr_def atabuff_set_def
        Let_def outsw_def idle_simps)
  qed
qed

text \<open>One sector, in either mode: what the file system builds on.\<close>

lemma driver_sector:
  assumes "ata_ready s" and "length buf = 512" and "unat lba < 268435456"
  shows "ata_driver_rw tid (Some buf) 512 lba ATA_CMD_IO_READ s = Inr (ata_drive s lba, s)"
    and "ata_driver_rw tid (Some buf) 512 lba ATA_CMD_IO_WRITE s =
      Inr (buf, s\<lparr>ata_drive := (ata_drive s)(lba := buf)\<rparr>)"
proof -
  have n: "length buf = 512 * 1" "0 < (1::nat)" "unat (512::u32) = 512 * 1" "unat lba + 1 \<le> 268435456"
    using assms(2,3) by simp_all
  have c: "irq_count 1 = 1" "irq_count 1 \<le> 1" "(1::nat) \<le> 256" by (simp_all add: irq_count_def)
  have pw: "put_sectors buf lba 1 d = d(lba := buf)" for d using assms(2) by simp
  show "ata_driver_rw tid (Some buf) 512 lba ATA_CMD_IO_READ s = Inr (ata_drive s lba, s)"
    using driver_polling(1) [OF assms(1) _ n] driver_irq(1) [OF assms(1) _ n c(3)]
    by (cases "ata_method s") simp_all
  show "ata_driver_rw tid (Some buf) 512 lba ATA_CMD_IO_WRITE s =
      Inr (buf, s\<lparr>ata_drive := (ata_drive s)(lba := buf)\<rparr>)"
    using driver_polling(2) [OF assms(1) _ n] driver_irq(2) [OF assms(1) _ n c(2)] pw c(1)
    by (cases "ata_method s") simp_all
qed

subsection \<open>Properties\<close>

lemma swap_pairs_swap: "swap_pairs (swap_pairs xs) = xs"
  by (induction xs rule: swap_pairs.induct) auto

text \<open>C33: Data written to the disk comes back. In polling mode a write of any number of whole
  sectors below the 28-bit limit puts the bytes into the sectors of the range in their order, changes no sector outside and
  nothing else of the driver, and a read of the same range returns them and changes nothing. In interrupt mode
  the same holds for one sector. The driver has no other request, and its drive becomes ready after a command.\<close>
theorem ata_write_read:
  assumes "ata_ready s" and "length buf = 512 * n" and "length buf' = 512 * n" and "0 < n"
    and "unat len = 512 * n" and "unat lba + n \<le> 268435456" and "ata_method s = ATA_METHOD_POLLING \<or> n = 1"
  shows "\<exists>s'. ata_driver_rw tid (Some buf) len lba ATA_CMD_IO_WRITE s = Inr (buf, s')
    \<and> s' = s\<lparr>ata_drive := ata_drive s'\<rparr>
    \<and> (\<forall>k < n. ata_drive s' (lba + word_of_nat k) = take 512 (drop (512 * k) buf))
    \<and> (\<forall>l. unat l < unat lba \<or> unat lba + n \<le> unat l \<longrightarrow> ata_drive s' l = ata_drive s l)
    \<and> ata_driver_rw tid (Some buf') len lba ATA_CMD_IO_READ s' = Inr (buf, s')"
proof -
  define s1 where "s1 = s\<lparr>ata_drive := put_sectors buf lba n (ata_drive s)\<rparr>"
  have r: "ata_ready s1" using assms(1,2) by (simp add: s1_def ata_ready_def drive_ok_put_sectors)
  have g: "get_sectors (ata_drive s1) lba n = buf" using assms(2,6) by (simp add: s1_def get_put_sectors)
  have e: "s1 = s\<lparr>ata_drive := ata_drive s1\<rparr>" by (simp add: s1_def)
  have f: "\<forall>l. unat l < unat lba \<or> unat lba + n \<le> unat l \<longrightarrow> ata_drive s1 l = ata_drive s l"
    using assms(6) by (simp add: s1_def put_sectors_apply)
  have k: "\<forall>k < n. ata_drive s1 (lba + word_of_nat k) = take 512 (drop (512 * k) buf)"
  proof (intro allI impI)
    fix k assume "k < n"
    then have kn: "unat lba + k < 268435456" using assms(6) by linarith
    have "unat (word_of_nat k :: u32) = k" using kn by (intro unat_word_of_nat_32) linarith
    then have "unat (lba + word_of_nat k) = unat lba + k" using kn by (simp add: unat_add_32)
    then show "ata_drive s1 (lba + word_of_nat k) = take 512 (drop (512 * k) buf)"
      using \<open>k < n\<close> by (simp add: s1_def put_sectors_apply [OF assms(6)])
  qed
  have "ata_driver_rw tid (Some buf) len lba ATA_CMD_IO_WRITE s = Inr (buf, s1)
    \<and> ata_driver_rw tid (Some buf') len lba ATA_CMD_IO_READ s1 = Inr (buf, s1)"
  proof (cases "ata_method s")
    case ATA_METHOD_POLLING
    then show ?thesis
      using driver_polling [OF assms(1) _ assms(2,4-6)] driver_polling [OF r _ assms(3,4-6)] g
      by (simp add: s1_def)
  next
    case ATA_METHOD_IRQ
    then have n: "n = 1" using assms(7) by simp
    have d: "ata_drive s1 = (ata_drive s)(lba := buf)" using assms(2) n by (simp add: s1_def)
    have l: "len = 512" using assms(5) n by (simp add: word_unat_eq_iff)
    have "ata_driver_rw tid (Some buf) len lba ATA_CMD_IO_WRITE s = Inr (buf, s1)"
      using driver_sector [OF assms(1), of buf lba tid] assms n d by (simp add: l s1_def)
    moreover have "ata_driver_rw tid (Some buf') len lba ATA_CMD_IO_READ s1 = Inr (buf, s1)"
      using driver_sector(1) [OF r, of buf' lba tid] assms(3,6) n d by (simp add: l)
    ultimately show ?thesis by blast
  qed
  with e f k show ?thesis by blast
qed

definition ata_sample :: "atamth \<Rightarrow> ata" where
  "ata_sample m = \<lparr>ata_method = m, ata_space = \<lparr>device_amount = 1, current_select = 0, device_info = [device0]\<rparr>,
     ata_drive = (\<lambda>_. replicate 512 0), ata_queue = [], ata_pending = None, ata_status = [0x80, 0x50]\<rparr>"

lemma ata_sample_ready: "ata_ready (ata_sample m)"
  by (simp add: ata_ready_def ata_sample_def drive_ok_def)

theorem ata_write_read_witness:
  "\<exists>s'. ata_driver_rw 0 (Some (replicate 1024 7)) 1024 5 ATA_CMD_IO_WRITE (ata_sample ATA_METHOD_POLLING)
     = Inr (replicate 1024 7, s') \<and> ata_drive s' 6 = replicate 512 7 \<and> ata_drive s' 7 = replicate 512 0"
proof -
  obtain s' where run: "ata_driver_rw 0 (Some (replicate 1024 7)) 1024 5 ATA_CMD_IO_WRITE (ata_sample ATA_METHOD_POLLING)
     = Inr (replicate 1024 7, s')"
    and k: "\<forall>k < 2. ata_drive s' (5 + word_of_nat k) = take 512 (drop (512 * k) (replicate 1024 7))"
    and f: "\<forall>l. unat l < unat (5 :: u32) \<or> unat (5 :: u32) + 2 \<le> unat l \<longrightarrow>
      ata_drive s' l = ata_drive (ata_sample ATA_METHOD_POLLING) l"
    using ata_write_read [OF ata_sample_ready [of ATA_METHOD_POLLING],
      of "replicate 1024 7" 2 "replicate 1024 0" 1024 5 0] by (auto simp: ata_sample_def)
  from k [rule_format, of 1] have "ata_drive s' 6 = replicate 512 7" by simp
  moreover from f [rule_format, of 7] have "ata_drive s' 7 = replicate 512 0" by (simp add: ata_sample_def)
  ultimately show ?thesis using run by blast
qed

text \<open>In interrupt mode a write is cut short. The count register has eight bits, so of a
  write of n sectors (n not a multiple of 256) the drive takes the first n mod 256 only; the call
  returns normally and every later sector of the range keeps its old contents. The free-block map
  of the file system, 259 sectors, is written this way: 3 of them reach the disk.\<close>
theorem ata_irq_write_truncates:
  assumes "ata_ready s" and "ata_method s = ATA_METHOD_IRQ" and "length buf = 512 * n" and "n mod 256 \<noteq> 0"
    and "unat len = 512 * n" and "unat lba + n \<le> 268435456"
  shows "\<exists>s'. ata_driver_rw tid (Some buf) len lba ATA_CMD_IO_WRITE s = Inr (buf, s')
    \<and> (\<forall>k < n. ata_drive s' (lba + word_of_nat k) =
        (if k < n mod 256 then take 512 (drop (512 * k) buf) else ata_drive s (lba + word_of_nat k)))"
proof -
  have n: "0 < n" "irq_count n = n mod 256" "n mod 256 \<le> n"
    using assms(4) by (cases "n = 0"; simp add: irq_count_def)+
  define s' where "s' = s\<lparr>ata_drive := put_sectors buf lba (n mod 256) (ata_drive s)\<rparr>"
  have run: "ata_driver_rw tid (Some buf) len lba ATA_CMD_IO_WRITE s = Inr (buf, s')"
    using driver_irq(2) [OF assms(1-3) n(1) assms(5,6)] n by (simp add: s'_def)
  have "ata_drive s' (lba + word_of_nat k) =
      (if k < n mod 256 then take 512 (drop (512 * k) buf) else ata_drive s (lba + word_of_nat k))" if "k < n" for k
  proof -
    have kn: "unat lba + k < 268435456" using that assms(6) by linarith
    have "unat (word_of_nat k :: u32) = k" using kn by (intro unat_word_of_nat_32) linarith
    then have u: "unat (lba + word_of_nat k) = unat lba + k" using kn by (simp add: unat_add_32)
    have "unat lba + n mod 256 \<le> 268435456" using n(3) assms(6) by linarith
    from put_sectors_apply [OF this] show ?thesis by (simp add: s'_def u)
  qed
  with run show ?thesis by blast
qed

theorem ata_irq_write_truncates_witness:
  "\<exists>s'. ata_driver_rw 0 (Some (replicate 132608 255)) 132608 67 ATA_CMD_IO_WRITE (ata_sample ATA_METHOD_IRQ)
     = Inr (replicate 132608 255, s') \<and> ata_drive s' 70 = replicate 512 0"
proof -
  obtain s' where run: "ata_driver_rw 0 (Some (replicate 132608 255)) 132608 67 ATA_CMD_IO_WRITE (ata_sample ATA_METHOD_IRQ)
     = Inr (replicate 132608 255, s')"
    and d: "\<forall>k < 259. ata_drive s' (67 + word_of_nat k) = (if k < 259 mod 256 then take 512 (drop (512 * k) (replicate 132608 255))
      else ata_drive (ata_sample ATA_METHOD_IRQ) (67 + word_of_nat k))"
    using ata_irq_write_truncates [OF ata_sample_ready [of ATA_METHOD_IRQ], of "replicate 132608 255" 259 132608 67 0]
    by (auto simp: ata_sample_def)
  from d [rule_format, of 3] have "ata_drive s' 70 = replicate 512 0" by (simp add: ata_sample_def)
  with run show ?thesis by blast
qed

end
