(* ===== verification/Fs_Layout.thy ===== *)
theory Fs_Layout
  imports Ata Bitmap
begin

section \<open>kern/fs/fs_stuff.h: the data of the file system\<close>

text \<open>
  Sectors are byte lists; a \<open>uint32_t\<close> in them is little-endian. The records are the
  in-memory structures, \<open>enc_\<close> and \<open>dec_\<close> their images in a sector. \<open>fs\<close> is the state the
  files of kern/fs share: the driver, the super block, the inode bitmap and array, the
  free-block bitmap.
\<close>

definition MAX_DIRECT :: nat where "MAX_DIRECT = 6"
definition MAX_INODE_BLOCKS :: nat where "MAX_INODE_BLOCKS = 8"
definition MAX_INODES :: nat where "MAX_INODES = 64"
definition FS_HOO_MAGIC :: u32 where "FS_HOO_MAGIC = 0x1905e14d"
definition FS_LAYOUT_BASE_SUPERBLOCK :: u32 where "FS_LAYOUT_BASE_SUPERBLOCK = 1"
definition FS_LAYOUT_BASE_MAP_INODES :: u32 where "FS_LAYOUT_BASE_MAP_INODES = 2"
definition FS_LAYOUT_BASE_INODES :: u32 where "FS_LAYOUT_BASE_INODES = 3"
definition FS_LAYOUT_BASE_MAP_FREE :: u32 where "FS_LAYOUT_BASE_MAP_FREE = 67"
definition LBA_ITEMS_PER_SECTOR :: nat where "LBA_ITEMS_PER_SECTOR = 128"

lemmas fs_consts = MAX_DIRECT_def MAX_INODE_BLOCKS_def MAX_INODES_def FS_HOO_MAGIC_def
  FS_LAYOUT_BASE_SUPERBLOCK_def FS_LAYOUT_BASE_MAP_INODES_def FS_LAYOUT_BASE_INODES_def
  FS_LAYOUT_BASE_MAP_FREE_def LBA_ITEMS_PER_SECTOR_def

subsection \<open>Words in a sector\<close>

definition enc32 :: "u32 \<Rightarrow> byte list" where
  "enc32 x = [ucast x, ucast (drop_bit 8 x), ucast (drop_bit 16 x), ucast (drop_bit 24 x)]"

definition dec32 :: "byte list \<Rightarrow> u32" where
  "dec32 b = ucast (b ! 0) OR push_bit 8 (ucast (b ! 1)) OR push_bit 16 (ucast (b ! 2))
     OR push_bit 24 (ucast (b ! 3))"

definition get32 :: "byte list \<Rightarrow> nat \<Rightarrow> u32" where
  "get32 b k = dec32 (take 4 (drop (4 * k) b))"

definition set32 :: "byte list \<Rightarrow> nat \<Rightarrow> u32 \<Rightarrow> byte list" where
  "set32 b k x = take (4 * k) b @ enc32 x @ drop (4 * k + 4) b"

lemma length_enc32 [simp]: "length (enc32 x) = 4"
  by (simp add: enc32_def)

lemma dec_enc32 [simp]: "dec32 (enc32 x) = x"
proof (rule bit_word_eqI)
  fix n assume "n < LENGTH(32)"
  then consider "n < 8" | "8 \<le> n" "n < 16" | "16 \<le> n" "n < 24" | "24 \<le> n" "n < 32"
    by fastforce
  then show "bit (dec32 (enc32 x)) n \<longleftrightarrow> bit x n"
    by cases (auto simp: dec32_def enc32_def bit_simps)
qed

lemma length_set32 [simp]: "4 * k + 4 \<le> length b \<Longrightarrow> length (set32 b k x) = length b"
  by (simp add: set32_def)

lemma get_set32:
  assumes "4 * k + 4 \<le> length b" and "4 * j + 4 \<le> length b"
  shows "get32 (set32 b k x) j = (if j = k then x else get32 b j)"
proof -
  consider "j = k" | "j < k" | "k < j" by linarith
  then show ?thesis
  proof cases
    case 1
    then show ?thesis using assms by (simp add: get32_def set32_def)
  next
    case 2
    then have "4 * j + 4 \<le> 4 * k" by simp
    then have "take 4 (drop (4 * j) (set32 b k x)) = take 4 (drop (4 * j) b)"
      using assms by (simp add: set32_def drop_take)
    with 2 show ?thesis by (simp add: get32_def)
  next
    case 3
    then have "4 * k + 4 \<le> 4 * j" by simp
    then have "drop (4 * j) (set32 b k x) = drop (4 * j) b"
      using assms by (simp add: set32_def)
    with 3 show ?thesis by (simp add: get32_def)
  qed
qed

lemma get32_zero [simp]: "4 * k + 4 \<le> n \<Longrightarrow> get32 (replicate n 0) k = 0"
  by (simp add: get32_def dec32_def)

lemma get32_append: "4 * k + 4 \<le> length b \<Longrightarrow> get32 (b @ c) k = get32 b k"
  by (simp add: get32_def)

lemma get32_concat: "k < length xs \<Longrightarrow> get32 (concat (map enc32 xs) @ c) k = xs ! k"
proof (induction xs arbitrary: k)
  case (Cons x xs)
  show ?case
  proof (cases k)
    case (Suc j)
    then have "get32 (concat (map enc32 (x # xs)) @ c) k = get32 (concat (map enc32 xs) @ c) j"
      by (simp add: get32_def)
    with Suc Cons show ?thesis by simp
  qed (simp add: get32_def)
qed simp

lemma length_concat_enc32 [simp]: "length (concat (map enc32 xs)) = 4 * length xs"
  by (induction xs) simp_all

subsection \<open>The super block\<close>

record super_block =
  magic :: u32
  lba_partition :: u32
  lba_super_block :: u32
  lba_map_inode :: u32
  lba_inodes :: u32
  lba_map_free :: u32
  lba_free :: u32
  map_free_sectors :: u32
  inode_block_index_max :: u32

definition enc_super_block :: "super_block \<Rightarrow> byte list" where
  "enc_super_block sb = concat (map enc32 [magic sb, lba_partition sb, lba_super_block sb, lba_map_inode sb,
     lba_inodes sb, lba_map_free sb, lba_free sb, map_free_sectors sb, inode_block_index_max sb])"

definition dec_super_block :: "byte list \<Rightarrow> super_block" where
  "dec_super_block b = \<lparr>magic = get32 b 0, lba_partition = get32 b 1, lba_super_block = get32 b 2,
     lba_map_inode = get32 b 3, lba_inodes = get32 b 4, lba_map_free = get32 b 5, lba_free = get32 b 6,
     map_free_sectors = get32 b 7, inode_block_index_max = get32 b 8\<rparr>"

lemma dec_enc_super_block: "dec_super_block (enc_super_block sb @ rest) = sb"
  unfolding dec_super_block_def enc_super_block_def by (subst get32_concat, simp)+ simp

lemma length_enc_super_block [simp]: "length (enc_super_block sb) = 36"
  by (simp add: enc_super_block_def)

subsection \<open>Inodes\<close>

record inode =
  i_size :: u32
  iblocks :: "u32 list"

definition inode0 :: inode where
  "inode0 = \<lparr>i_size = 0, iblocks = replicate MAX_INODE_BLOCKS 0\<rparr>"

definition enc_inode :: "inode \<Rightarrow> byte list" where
  "enc_inode i = concat (map enc32 (i_size i # iblocks i))"

definition dec_inode :: "byte list \<Rightarrow> inode" where
  "dec_inode b = \<lparr>i_size = get32 b 0, iblocks = map (\<lambda>k. get32 b (Suc k)) [0..<MAX_INODE_BLOCKS]\<rparr>"

lemma length_enc_inode: "length (enc_inode i) = 4 * Suc (length (iblocks i))"
  unfolding enc_inode_def by (subst length_concat_enc32) simp

lemma dec_enc_inode:
  assumes "length (iblocks i) = MAX_INODE_BLOCKS"
  shows "dec_inode (enc_inode i @ rest) = i"
proof -
  have g: "get32 (enc_inode i @ rest) k = (i_size i # iblocks i) ! k" if "k \<le> MAX_INODE_BLOCKS" for k
    unfolding enc_inode_def by (rule get32_concat) (use that assms in simp)
  have "map (\<lambda>k. get32 (enc_inode i @ rest) (Suc k)) [0..<MAX_INODE_BLOCKS] = iblocks i"
    using assms by (intro nth_equalityI) (simp_all add: g)
  then show ?thesis using g [of 0] by (simp add: dec_inode_def)
qed

subsection \<open>The state\<close>

record fs =
  fs_tid :: nat
  fs_ata :: ata
  fs_sb :: super_block
  fs_imap :: bitmap
  fs_inodes :: "inode list"
  fs_fmap :: bitmap

abbreviation blk :: "fs \<Rightarrow> u32 \<Rightarrow> byte list" where
  "blk s \<equiv> ata_drive (fs_ata s)"

definition fs_rw :: "byte list option \<Rightarrow> u32 \<Rightarrow> u32 \<Rightarrow> u32 \<Rightarrow> fs \<Rightarrow> (byte list \<times> fs) res" where
  "fs_rw buff len lba cmd s =
     bindr (ata_driver_rw (fs_tid s) buff len lba cmd (fs_ata s)) (\<lambda>(b, a). Inr (b, s\<lparr>fs_ata := a\<rparr>))"

text \<open>A sector-sized zero buffer: a local array after bzero, or before it is filled.\<close>

definition sect0 :: "byte list" where
  "sect0 = replicate 512 0"

lemma length_sect0 [simp]: "length sect0 = 512"
  by (simp add: sect0_def)

definition set_blk :: "u32 \<Rightarrow> byte list \<Rightarrow> fs \<Rightarrow> fs" where
  "set_blk l b s = s\<lparr>fs_ata := (fs_ata s)\<lparr>ata_drive := (blk s)(l := b)\<rparr>\<rparr>"

lemma set_blk_simps [simp]:
  "blk (set_blk l b s) = (blk s)(l := b)" "fs_sb (set_blk l b s) = fs_sb s" "fs_imap (set_blk l b s) = fs_imap s"
  "fs_inodes (set_blk l b s) = fs_inodes s" "fs_fmap (set_blk l b s) = fs_fmap s" "fs_tid (set_blk l b s) = fs_tid s"
  "ata_method (fs_ata (set_blk l b s)) = ata_method (fs_ata s)"
  by (simp_all add: set_blk_def)

lemma set_blk_same [simp]: "set_blk l b (set_blk l c s) = set_blk l b s"
  by (simp add: set_blk_def)

lemma set_blk_self [simp]: "set_blk l (blk s l) s = s"
  by (simp add: set_blk_def)

lemma set_blk_commute: "l \<noteq> l' \<Longrightarrow> set_blk l b (set_blk l' b' s) = set_blk l' b' (set_blk l b s)"
  by (simp add: set_blk_def fun_upd_twist)

lemma set_blk_update:
  "(set_blk l b s)\<lparr>fs_fmap := m\<rparr> = set_blk l b (s\<lparr>fs_fmap := m\<rparr>)"
  "(set_blk l b s)\<lparr>fs_inodes := i\<rparr> = set_blk l b (s\<lparr>fs_inodes := i\<rparr>)"
  by (simp_all add: set_blk_def)

lemma ata_ready_set_blk [simp]:
  "ata_ready (fs_ata s) \<Longrightarrow> length b = 512 \<Longrightarrow> ata_ready (fs_ata (set_blk l b s))"
  by (simp add: set_blk_def ata_ready_def drive_ok_def)

text \<open>A drive access of one sector, in either driver mode.\<close>

lemma fs_rw_sector:
  assumes "ata_ready (fs_ata s)" and "length b = 512" and "unat l < 268435456"
  shows "fs_rw (Some b) 512 l ATA_CMD_IO_READ s = Inr (blk s l, s)"
    and "fs_rw (Some b) 512 l ATA_CMD_IO_WRITE s = Inr (b, set_blk l b s)"
  using driver_sector [OF assms, of "fs_tid s"]
  by (simp_all add: fs_rw_def set_blk_def)

lemma length_blk [simp]: "ata_ready (fs_ata s) \<Longrightarrow> length (blk s l) = 512"
  by (simp add: ata_ready_def drive_ok_def)

end
