(* ===== verification/Super_Block.thy ===== *)
theory Super_Block
  imports Fs_Layout
begin

section \<open>kern/fs/super_block.c: the super block\<close>

text \<open>
  \<open>setup_super_block\<close> reads sector 1; on a disk without the magic number it computes the
  layout from the size of the disk and writes it back. The property: a fresh disk that is
  large enough gets the layout, and mounting it again finds the very same super block.
\<close>

definition FREE_SEC_2 :: u32 where
  "FREE_SEC_2 = word_of_nat (MAX_INODES * (MAX_DIRECT + LBA_ITEMS_PER_SECTOR + LBA_ITEMS_PER_SECTOR * LBA_ITEMS_PER_SECTOR))"

definition FREE_BITMAP_SEC_2 :: u32 where
  "FREE_BITMAP_SEC_2 = FREE_SEC_2 div 8 div 512 + 1"

definition SEC_INDIRECT2 :: u32 where
  "SEC_INDIRECT2 = FS_LAYOUT_BASE_MAP_FREE + FREE_BITMAP_SEC_2 + FREE_SEC_2"

fun cube_loop :: "nat \<Rightarrow> u32 \<Rightarrow> u32" where
  "cube_loop 0 cube = cube"
| "cube_loop (Suc cnt) cube = cube_loop cnt (cube + word_of_nat (LBA_ITEMS_PER_SECTOR * LBA_ITEMS_PER_SECTOR))"

definition init_layout :: "u32 \<Rightarrow> super_block option \<Rightarrow> super_block res" where
  "init_layout dev_sec sb =
     nonnull ''init_layout(): null pointer'' sb (\<lambda>sb.
     if dev_sec < SEC_INDIRECT2 then panic ''init_layout(): no enough space for file system''
     else
       let cube = cube_loop (MAX_INODE_BLOCKS - MAX_DIRECT - 1) 0 in
       Inr (sb\<lparr>map_free_sectors := FREE_BITMAP_SEC_2,
         inode_block_index_max := word_of_nat (MAX_DIRECT + LBA_ITEMS_PER_SECTOR) + cube\<rparr>))"

definition super_block0 :: super_block where
  "super_block0 = \<lparr>magic = 0, lba_partition = 0, lba_super_block = 0, lba_map_inode = 0, lba_inodes = 0,
     lba_map_free = 0, lba_free = 0, map_free_sectors = 0, inode_block_index_max = 0\<rparr>"

definition cur_total_sectors :: "ata \<Rightarrow> u32" where
  "cur_total_sectors a = total_sectors (device_info (ata_space a) ! current_select (ata_space a))"

definition setup_super_block :: "fs \<Rightarrow> (bool \<times> fs) res" where
  "setup_super_block s =
     bindr (fs_rw (Some sect0) 512 FS_LAYOUT_BASE_SUPERBLOCK ATA_CMD_IO_READ s) (\<lambda>(sect, s).
     let s = s\<lparr>fs_sb := dec_super_block sect\<rparr> in
     if magic (fs_sb s) \<noteq> FS_HOO_MAGIC then
       bindr (init_layout (cur_total_sectors (fs_ata s)) (Some super_block0)) (\<lambda>sb.
       let sb = sb\<lparr>magic := FS_HOO_MAGIC, lba_partition := 0, lba_super_block := FS_LAYOUT_BASE_SUPERBLOCK,
             lba_map_inode := FS_LAYOUT_BASE_MAP_INODES, lba_inodes := FS_LAYOUT_BASE_INODES,
             lba_map_free := FS_LAYOUT_BASE_MAP_FREE\<rparr>;
           sb = sb\<lparr>lba_free := lba_map_free sb + map_free_sectors sb\<rparr>;
           s = s\<lparr>fs_sb := sb\<rparr>;
           sect = enc_super_block sb @ drop 36 sect in
       bindr (fs_rw (Some sect) 512 FS_LAYOUT_BASE_SUPERBLOCK ATA_CMD_IO_WRITE s) (\<lambda>(_, s).
       Inr (True, s)))
     else Inr (False, s))"

text \<open>The layout of every disk.\<close>

definition layout :: super_block where
  "layout = \<lparr>magic = FS_HOO_MAGIC, lba_partition = 0, lba_super_block = 1, lba_map_inode = 2, lba_inodes = 3,
     lba_map_free = 67, lba_free = 326, map_free_sectors = 259, inode_block_index_max = 16518\<rparr>"

lemma layout_simps [simp]:
  "magic layout = FS_HOO_MAGIC" "lba_map_inode layout = 2" "lba_inodes layout = 3" "lba_map_free layout = 67"
  "lba_free layout = 326" "map_free_sectors layout = 259" "inode_block_index_max layout = 16518"
  by (simp_all add: layout_def)

lemma layout_consts: "FREE_BITMAP_SEC_2 = 259" "SEC_INDIRECT2 = 1057478"
  by (simp_all add: FREE_BITMAP_SEC_2_def SEC_INDIRECT2_def FREE_SEC_2_def fs_consts)

lemma cube_one: "cube_loop (MAX_INODE_BLOCKS - MAX_DIRECT - 1) 0 = 16384"
proof -
  have "MAX_INODE_BLOCKS - MAX_DIRECT - 1 = Suc 0" by (simp add: fs_consts)
  then show ?thesis by (simp add: LBA_ITEMS_PER_SECTOR_def)
qed

lemma init_layout_eq:
  assumes "SEC_INDIRECT2 \<le> n"
  shows "init_layout n (Some sb) = Inr (sb\<lparr>map_free_sectors := 259, inode_block_index_max := 16518\<rparr>)"
  using assms unfolding init_layout_def cube_one by (simp add: not_less fs_consts layout_consts(1))

lemma setup_super_block_new:
  assumes "ata_ready (fs_ata s)" and "magic (dec_super_block (blk s 1)) \<noteq> FS_HOO_MAGIC"
    and "1057478 \<le> cur_total_sectors (fs_ata s)"
  shows "setup_super_block s = Inr (True, set_blk 1 (enc_super_block layout @ drop 36 (blk s 1))
    (s\<lparr>fs_sb := layout\<rparr>))"
proof -
  have r: "fs_rw (Some sect0) 512 1 ATA_CMD_IO_READ s = Inr (blk s 1, s)"
    using fs_rw_sector(1) [OF assms(1), of sect0 1] by simp
  have l: "super_block0\<lparr>map_free_sectors := 259, inode_block_index_max := 16518, magic := FS_HOO_MAGIC,
      lba_partition := 0, lba_super_block := 1, lba_map_inode := 2, lba_inodes := 3,
      lba_map_free := 67, lba_free := 326\<rparr> = layout"
    by (simp add: super_block0_def layout_def)
  have w: "fs_rw (Some (enc_super_block layout @ drop 36 (blk s 1))) 512 1 ATA_CMD_IO_WRITE (s\<lparr>fs_sb := layout\<rparr>) =
    Inr (enc_super_block layout @ drop 36 (blk s 1), set_blk 1 (enc_super_block layout @ drop 36 (blk s 1)) (s\<lparr>fs_sb := layout\<rparr>))"
    using assms(1) by (intro fs_rw_sector(2)) simp_all
  have i: "init_layout (cur_total_sectors (fs_ata s)) (Some super_block0)
    = Inr (super_block0\<lparr>map_free_sectors := 259, inode_block_index_max := 16518\<rparr>)"
    using assms(3) by (intro init_layout_eq) (simp add: layout_consts)
  show ?thesis using assms(2) i
    by (simp add: setup_super_block_def r FS_LAYOUT_BASE_SUPERBLOCK_def FS_LAYOUT_BASE_MAP_INODES_def
      FS_LAYOUT_BASE_INODES_def FS_LAYOUT_BASE_MAP_FREE_def Let_def l w)
qed

text \<open>C32: Formatting and mounting agree. A disk without the file system's magic number and with
  at least 1057478 sectors is formatted: the super block becomes the fixed layout (inode map in
  sector 2, inodes from 3, free map from 67, blocks from 326, at most 16518 blocks per file) and is
  written to sector 1. Mounting the result later, whatever was in memory, returns that it is an
  old disk and reads back the very same super block. A smaller disk panics.\<close>
theorem super_block_roundtrip:
  assumes "ata_ready (fs_ata s)" and "magic (dec_super_block (blk s 1)) \<noteq> FS_HOO_MAGIC"
  shows "if 1057478 \<le> cur_total_sectors (fs_ata s)
    then \<exists>s'. setup_super_block s = Inr (True, s') \<and> fs_sb s' = layout
      \<and> (\<forall>l. l \<noteq> 1 \<longrightarrow> blk s' l = blk s l)
      \<and> (\<forall>junk. \<exists>s''. setup_super_block (s'\<lparr>fs_sb := junk\<rparr>) = Inr (False, s'') \<and> fs_sb s'' = layout
          \<and> blk s'' = blk s')
    else setup_super_block s = panic ''init_layout(): no enough space for file system''"
proof (cases "1057478 \<le> cur_total_sectors (fs_ata s)")
  case True
  define s' where "s' = set_blk 1 (enc_super_block layout @ drop 36 (blk s 1)) (s\<lparr>fs_sb := layout\<rparr>)"
  have run: "setup_super_block s = Inr (True, s')"
    using setup_super_block_new [OF assms True] by (simp add: s'_def)
  have ready: "ata_ready (fs_ata s')" using assms(1) by (simp add: s'_def)
  have dec: "dec_super_block (blk s' 1) = layout" by (simp add: s'_def dec_enc_super_block)
  have again: "setup_super_block (s'\<lparr>fs_sb := junk\<rparr>) = Inr (False, (s'\<lparr>fs_sb := junk\<rparr>)\<lparr>fs_sb := layout\<rparr>)" for junk
  proof -
    have "fs_rw (Some sect0) 512 1 ATA_CMD_IO_READ (s'\<lparr>fs_sb := junk\<rparr>) = Inr (blk s' 1, s'\<lparr>fs_sb := junk\<rparr>)"
      using fs_rw_sector(1) [of "s'\<lparr>fs_sb := junk\<rparr>" sect0 1] ready by simp
    then show ?thesis by (simp add: setup_super_block_def FS_LAYOUT_BASE_SUPERBLOCK_def dec)
  qed
  have "\<forall>l. l \<noteq> 1 \<longrightarrow> blk s' l = blk s l" "fs_sb s' = layout" by (simp_all add: s'_def)
  with True run again show ?thesis by auto
next
  case False
  have r: "fs_rw (Some sect0) 512 1 ATA_CMD_IO_READ s = Inr (blk s 1, s)"
    using fs_rw_sector(1) [OF assms(1), of sect0 1] by simp
  from False show ?thesis using assms(2)
    by (simp add: setup_super_block_def r FS_LAYOUT_BASE_SUPERBLOCK_def Let_def init_layout_def layout_consts not_le)
qed

definition fs_sample0 :: fs where
  "fs_sample0 = \<lparr>fs_tid = 0,
     fs_ata = (ata_sample ATA_METHOD_POLLING)\<lparr>ata_space := \<lparr>device_amount = 1, current_select = 0,
       device_info = [device0\<lparr>total_sectors := 2000000\<rparr>]\<rparr>\<rparr>,
     fs_sb = super_block0, fs_imap = \<lparr>len_inbits = 0, bm_buff = [], prev_free = 0\<rparr>, fs_inodes = [],
     fs_fmap = \<lparr>len_inbits = 0, bm_buff = [], prev_free = 0\<rparr>\<rparr>"

lemma fs_sample0_ready: "ata_ready (fs_ata fs_sample0)" "blk fs_sample0 l = replicate 512 0"
  "cur_total_sectors (fs_ata fs_sample0) = 2000000"
  by (simp_all add: fs_sample0_def ata_ready_def ata_sample_def drive_ok_def cur_total_sectors_def)

theorem super_block_roundtrip_witness:
  "\<exists>s'. setup_super_block fs_sample0 = Inr (True, s') \<and> fs_sb s' = layout"
proof -
  have "magic (dec_super_block (blk fs_sample0 1)) \<noteq> FS_HOO_MAGIC"
    by (simp add: fs_sample0_ready dec_super_block_def FS_HOO_MAGIC_def)
  from super_block_roundtrip [OF fs_sample0_ready(1) this] show ?thesis
    by (auto simp: fs_sample0_ready)
qed

end
