(* ===== verification/Free_Map.thy ===== *)
theory Free_Map
  imports Super_Block
begin

section \<open>kern/fs/free.c: the free blocks\<close>

text \<open>
  The bitmap of free blocks: bit \<open>i\<close> stands for the block at \<open>lba_free + i\<close>. The bitmap is
  kept in memory; \<open>free_map_update\<close> writes it to its sectors. \<open>map_ok\<close> says that the layout is
  the formatted one and the bitmap has the size it was set up with, \<open>used_blocks\<close> is the set of
  block addresses in use.
\<close>

definition FMAP_BYTES :: nat where "FMAP_BYTES = 132608"

definition setup_free_map :: "bool \<Rightarrow> fs \<Rightarrow> fs res" where
  "setup_free_map is_new s =
     (let cmd = (if is_new then ATA_CMD_IO_WRITE else ATA_CMD_IO_READ);
          bytes = map_free_sectors (fs_sb s) * 512 in
      bindr (bitmap_init (Some (fs_fmap s)) (map_free_sectors (fs_sb s) * 512 * 8) (Some (replicate (unat bytes) 0))) (\<lambda>m.
      bindr (fs_rw (Some (bm_buff m)) bytes FS_LAYOUT_BASE_MAP_FREE cmd s) (\<lambda>(b, s).
      Inr (s\<lparr>fs_fmap := m\<lparr>bm_buff := b\<rparr>\<rparr>))))"

definition free_allocate :: "fs \<Rightarrow> (u32 \<times> fs) res" where
  "free_allocate s =
     bindr (bitmap_scan_empty (Some (fs_fmap s))) (\<lambda>(i, m).
     Inr (lba_free (fs_sb s) + i, s\<lparr>fs_fmap := m\<rparr>))"

definition free_map_setup :: "u32 \<Rightarrow> bool \<Rightarrow> fs \<Rightarrow> fs res" where
  "free_map_setup index is_set s =
     (let i = index - lba_free (fs_sb s) in
      if i = INVALID_INDEX then panic ''free_release(): invalid lba''
      else
        bindr (if is_set then bitmap_set (Some (fs_fmap s)) i else bitmap_clear (Some (fs_fmap s)) i) (\<lambda>m.
        Inr (s\<lparr>fs_fmap := m\<rparr>)))"

definition free_map_update :: "fs \<Rightarrow> fs res" where
  "free_map_update s =
     bindr (fs_rw (Some (bm_buff (fs_fmap s))) (word_of_nat (length (bm_buff (fs_fmap s)))) (lba_map_free (fs_sb s))
       ATA_CMD_IO_WRITE s) (\<lambda>(_, s). Inr s)"

definition free_rw_disk :: "byte list option \<Rightarrow> u32 \<Rightarrow> u32 \<Rightarrow> fs \<Rightarrow> (byte list \<times> fs) res" where
  "free_rw_disk buff base_lba cmd s =
     nonnull ''free_rw_disk(): null pointer'' buff (\<lambda>buff.
     if base_lba < lba_free (fs_sb s) then panic ''free_rw_disk(): invalid lba''
     else
       bindr (bitmap_test (Some (fs_fmap s)) (base_lba - lba_free (fs_sb s))) (\<lambda>v.
       if v = 0 then panic ''free_rw_disk(): not allow to read from / write to an empty block''
       else fs_rw (Some buff) 512 base_lba cmd s))"

subsection \<open>Blocks\<close>

definition NBLOCKS :: nat where "NBLOCKS = 1060864"

definition map_ok :: "fs \<Rightarrow> bool" where
  "map_ok s \<longleftrightarrow> fs_sb s = layout \<and> bm_wf (fs_fmap s) \<and> bm_cap (fs_fmap s) = NBLOCKS
     \<and> length (bm_buff (fs_fmap s)) = FMAP_BYTES \<and> ata_ready (fs_ata s)"

definition lba_of :: "nat \<Rightarrow> u32" where
  "lba_of i = 326 + word_of_nat i"

lemma unat_lba_of: "i < NBLOCKS \<Longrightarrow> unat (lba_of i) = 326 + i"
  by (simp add: lba_of_def NBLOCKS_def unat_word_of_nat_32 unat_word_ariths)

lemma lba_of_eq: "i < NBLOCKS \<Longrightarrow> j < NBLOCKS \<Longrightarrow> lba_of i = lba_of j \<longleftrightarrow> i = j"
  by (metis add_left_imp_eq unat_lba_of)

definition used_blocks :: "fs \<Rightarrow> u32 set" where
  "used_blocks s = lba_of ` bm_bits (fs_fmap s)"

definition blocks_full :: "fs \<Rightarrow> bool" where
  "blocks_full s \<longleftrightarrow> bm_bits (fs_fmap s) = {..<NBLOCKS}"

lemma finite_used_blocks [simp]: "finite (used_blocks s)"
  by (simp add: used_blocks_def)

lemma card_used_blocks: "map_ok s \<Longrightarrow> card (used_blocks s) = card (bm_bits (fs_fmap s))"
  unfolding used_blocks_def
  by (intro card_image inj_onI) (metis bm_bits_bound lba_of_eq map_ok_def)

lemma blocks_full_iff: "map_ok s \<Longrightarrow> blocks_full s \<longleftrightarrow> card (used_blocks s) = NBLOCKS"
  using bm.full_iff_card [of "fs_fmap s"] card_used_blocks [of s] by (simp add: blocks_full_def map_ok_def)

lemma used_block_range: "map_ok s \<Longrightarrow> l \<in> used_blocks s \<Longrightarrow> 326 \<le> unat l \<and> unat l < 268435456"
  using bm_bits_bound by (fastforce simp: used_blocks_def map_ok_def unat_lba_of NBLOCKS_def)

lemma used_block_index:
  assumes "map_ok s" and "l \<in> used_blocks s"
  shows "unat (l - 326) \<in> bm_bits (fs_fmap s)" and "\<not> l < 326" and "l = lba_of (unat (l - 326))"
proof -
  obtain i where i: "l = lba_of i" "i \<in> bm_bits (fs_fmap s)" using assms(2) by (auto simp: used_blocks_def)
  then have "i < NBLOCKS" using assms(1) bm_bits_bound by (fastforce simp: map_ok_def)
  then have u: "unat (l - 326) = i" using i by (simp add: lba_of_def NBLOCKS_def unat_word_of_nat_32)
  with i show "unat (l - 326) \<in> bm_bits (fs_fmap s)" "l = lba_of (unat (l - 326))" by simp_all
  show "\<not> l < 326" using used_block_range [OF assms] by (simp add: word_less_nat_alt)
qed

text \<open>Reading and writing a block in use.\<close>

lemma free_rw_used:
  assumes "map_ok s" and "l \<in> used_blocks s" and "length b = 512"
  shows "free_rw_disk (Some b) l ATA_CMD_IO_READ s = Inr (blk s l, s)"
    and "free_rw_disk (Some b) l ATA_CMD_IO_WRITE s = Inr (b, set_blk l b s)"
proof -
  note i = used_block_index [OF assms(1,2)]
  have "bm_wf (fs_fmap s)" using assms(1) by (simp add: map_ok_def)
  moreover have "unat (l - 326) < bm_cap (fs_fmap s)" using i(1) by (rule bm_bits_bound)
  ultimately obtain v where v: "bitmap_test (Some (fs_fmap s)) (l - 326) = Inr v" "v \<noteq> 0"
    using bitmap_test_bits [of "fs_fmap s" "l - 326"] i(1) by blast
  have l: "lba_free (fs_sb s) = 326" and r: "ata_ready (fs_ata s)" using assms(1) by (simp_all add: map_ok_def)
  have "unat l < 268435456" using used_block_range [OF assms(1,2)] by simp
  from fs_rw_sector [OF r assms(3) this] v i(2)
  show "free_rw_disk (Some b) l ATA_CMD_IO_READ s = Inr (blk s l, s)"
    "free_rw_disk (Some b) l ATA_CMD_IO_WRITE s = Inr (b, set_blk l b s)"
    by (simp_all add: free_rw_disk_def l)
qed

lemma free_rw_unused:
  assumes "map_ok s" and "i < NBLOCKS" and "i \<notin> bm_bits (fs_fmap s)"
  shows "free_rw_disk (Some b) (lba_of i) cmd s = panic ''free_rw_disk(): not allow to read from / write to an empty block''"
proof -
  have u: "unat (lba_of i - 326) = i" using assms(2) by (simp add: lba_of_def NBLOCKS_def unat_word_of_nat_32)
  have "\<not> lba_of i < 326" using unat_lba_of [OF assms(2)] by (simp add: word_less_nat_alt)
  moreover have "\<exists>v. bitmap_test (Some (fs_fmap s)) (lba_of i - 326) = Inr v \<and> v = 0"
    using bitmap_test_bits [of "fs_fmap s" "lba_of i - 326"] assms u by (auto simp: map_ok_def)
  ultimately show ?thesis using assms(1) by (auto simp: free_rw_disk_def map_ok_def)
qed

text \<open>\<open>same_but_fmap s s'\<close>: only the free map has changed.\<close>

definition same_but_fmap :: "fs \<Rightarrow> fs \<Rightarrow> bool" where
  "same_but_fmap s s' \<longleftrightarrow> s' = s\<lparr>fs_fmap := fs_fmap s'\<rparr>"

lemma same_but_fmapD:
  assumes "same_but_fmap s s'"
  shows "fs_tid s' = fs_tid s" "fs_ata s' = fs_ata s" "fs_sb s' = fs_sb s" "fs_imap s' = fs_imap s" "fs_inodes s' = fs_inodes s"
  using assms unfolding same_but_fmap_def by (metis fs.select_convs fs.surjective fs.update_convs(6))+

lemma same_but_fmap_refl [simp]: "same_but_fmap s s"
  by (simp add: same_but_fmap_def)

lemma same_but_fmap_trans: "same_but_fmap s s' \<Longrightarrow> same_but_fmap s' s'' \<Longrightarrow> same_but_fmap s s''"
  unfolding same_but_fmap_def by (metis fs.surjective fs.update_convs(6))

text \<open>Allocation: the block that free_allocate returns, once marked.\<close>

lemma take_block:
  assumes "map_ok s" and "\<not> blocks_full s"
  shows "\<exists>l s1 s2. free_allocate s = Inr (l, s1) \<and> free_map_setup l True s1 = Inr s2
    \<and> l \<notin> used_blocks s \<and> used_blocks s2 = insert l (used_blocks s) \<and> used_blocks s1 = used_blocks s
    \<and> map_ok s1 \<and> map_ok s2 \<and> same_but_fmap s s1 \<and> same_but_fmap s s2 \<and> unat l < 268435456 \<and> 326 \<le> unat l"
proof -
  let ?m = "fs_fmap s"
  have wf: "bm_wf ?m" "bm_cap ?m = NBLOCKS" using assms(1) by (simp_all add: map_ok_def)
  obtain j m1 m2 where j: "bitmap_scan_empty (Some ?m) = Inr (j, m1)" "bitmap_set (Some m1) j = Inr m2"
    "unat j < NBLOCKS" "unat j \<notin> bm_bits ?m" "bm_wf m2" "bm_cap m2 = NBLOCKS" "bm_bits m2 = insert (unat j) (bm_bits ?m)"
    using bm.alloc_fresh [OF wf(1)] assms(2) wf(2) by (auto simp: blocks_full_def)
  have m1: "bm_wf m1" "bm_cap m1 = NBLOCKS" "bm_bits m1 = bm_bits ?m" "length (bm_buff m1) = length (bm_buff ?m)"
    and m2: "length (bm_buff m2) = length (bm_buff m1)"
  proof -
    obtain k j' m' where "bitmap_scan_empty (Some ?m) = Inr (j', m')" "bm_wf m'" "bm_cap m' = bm_cap ?m"
      "bm_bits m' = bm_bits ?m" using scan_free [OF wf(1)] assms(2) wf(2) by (auto simp: blocks_full_def)
    with j(1) wf(2) show "bm_wf m1" "bm_cap m1 = NBLOCKS" "bm_bits m1 = bm_bits ?m" by auto
    have "scan_loop m i n = Inr (j'', m'') \<Longrightarrow> bm_buff m'' = bm_buff m" for m i n j'' m''
      by (induction m i n rule: scan_loop.induct) (auto simp: bindr_eq_Inr split: if_splits)
    then show "length (bm_buff m1) = length (bm_buff ?m)"
      using j(1) by (auto simp: bitmap_scan_empty_def split: if_splits)
    show "length (bm_buff m2) = length (bm_buff m1)"
      using j(2) by (auto simp: bitmap_set_def bindr_eq_Inr Let_def dest: write_at_length split: if_splits)
  qed
  let ?l = "326 + j" and ?s1 = "s\<lparr>fs_fmap := m1\<rparr>" and ?s2 = "s\<lparr>fs_fmap := m2\<rparr>"
  have l: "?l = lba_of (unat j)" by (simp add: lba_of_def)
  have sb: "lba_free (fs_sb s) = 326" using assms(1) by (simp add: map_ok_def)
  have "j \<noteq> INVALID_INDEX" using j(3) by (auto simp: NBLOCKS_def)
  then have "free_allocate s = Inr (?l, ?s1)" "free_map_setup ?l True ?s1 = Inr ?s2"
    using j(1,2) sb by (simp_all add: free_allocate_def free_map_setup_def)
  moreover have "?l \<notin> used_blocks s"
  proof
    assume "?l \<in> used_blocks s"
    then obtain i where i: "i \<in> bm_bits ?m" "lba_of i = lba_of (unat j)" unfolding l by (auto simp: used_blocks_def)
    then have "i < NBLOCKS" using bm_bits_bound wf(2) by metis
    with i j(3,4) show False by (simp add: lba_of_eq)
  qed
  moreover have "used_blocks ?s2 = insert ?l (used_blocks s)" "used_blocks ?s1 = used_blocks s"
    using j(7) m1(3) l by (simp_all add: used_blocks_def)
  moreover have "map_ok ?s1" "map_ok ?s2" using assms(1) j(5,6) m1 m2 by (simp_all add: map_ok_def)
  moreover have "unat ?l = 326 + unat j" unfolding l using j(3) by (rule unat_lba_of)
  then have "unat ?l < 268435456" "326 \<le> unat ?l" using j(3) by (simp_all add: NBLOCKS_def)
  ultimately show ?thesis by (auto simp: same_but_fmap_def)
qed

lemma free_allocate_full:
  assumes "map_ok s" and "blocks_full s"
  shows "free_allocate s = panic ''bitmap_scan_empty(): no more free bits''"
  using assms scan_full [of "fs_fmap s"] by (simp add: free_allocate_def map_ok_def blocks_full_def)

lemma release_block:
  assumes "map_ok s" and "l \<in> used_blocks s"
  shows "\<exists>s'. free_map_setup l False s = Inr s' \<and> used_blocks s' = used_blocks s - {l} \<and> map_ok s'
    \<and> same_but_fmap s s'"
proof -
  note i = used_block_index [OF assms]
  have wf: "bm_wf (fs_fmap s)" "bm_cap (fs_fmap s) = NBLOCKS" and sb: "lba_free (fs_sb s) = 326"
    using assms(1) by (simp_all add: map_ok_def)
  have lt: "unat (l - 326) < bm_cap (fs_fmap s)" using i(1) by (rule bm_bits_bound)
  obtain m where m: "bitmap_clear (Some (fs_fmap s)) (l - 326) = Inr m" "bm_wf m" "bm_cap m = NBLOCKS"
    "bm_bits m = bm_bits (fs_fmap s) - {unat (l - 326)}"
    using bitmap_clear_bits [OF wf(1) lt] wf(2) by auto
  have len: "length (bm_buff m) = length (bm_buff (fs_fmap s))"
    using m(1) by (auto simp: bitmap_clear_def bindr_eq_Inr Let_def dest: write_at_length split: if_splits)
  have "l - 326 \<noteq> INVALID_INDEX" using lt wf(2) by (auto simp: NBLOCKS_def)
  then have "free_map_setup l False s = Inr (s\<lparr>fs_fmap := m\<rparr>)" using m(1) sb by (simp add: free_map_setup_def)
  moreover have "lba_of ` (bm_bits (fs_fmap s) - {unat (l - 326)}) = used_blocks s - {l}"
  proof -
    have "inj_on lba_of (bm_bits (fs_fmap s))"
      using bm_bits_bound wf(2) by (intro inj_onI) (metis lba_of_eq)
    then have "lba_of ` (bm_bits (fs_fmap s) - {unat (l - 326)}) =
        lba_of ` bm_bits (fs_fmap s) - lba_of ` {unat (l - 326)}"
      using i(1) by (intro inj_on_image_set_diff [of lba_of "bm_bits (fs_fmap s)"]) auto
    then show ?thesis using i(3) by (simp add: used_blocks_def)
  qed
  ultimately show ?thesis using assms(1) m len
    by (auto simp: used_blocks_def map_ok_def same_but_fmap_def)
qed

text \<open>Writing the map touches its own sectors only, in either driver mode.\<close>

lemma free_map_update_eq:
  assumes "map_ok s"
  shows "\<exists>s'. free_map_update s = Inr s' \<and> map_ok s' \<and> fs_fmap s' = fs_fmap s \<and> fs_inodes s' = fs_inodes s
    \<and> fs_imap s' = fs_imap s \<and> fs_tid s' = fs_tid s
    \<and> (\<forall>l. unat l < 67 \<or> 326 \<le> unat l \<longrightarrow> blk s' l = blk s l)
    \<and> (ata_method (fs_ata s) = ATA_METHOD_POLLING \<longrightarrow> get_sectors (blk s') 67 259 = bm_buff (fs_fmap s))"
proof -
  let ?b = "bm_buff (fs_fmap s)"
  have r: "ata_ready (fs_ata s)" and len: "length ?b = 512 * 259" and sb: "lba_map_free (fs_sb s) = 67"
    using assms by (simp_all add: map_ok_def FMAP_BYTES_def)
  have u: "unat (word_of_nat (length ?b) :: u32) = 512 * 259" using len by simp
  have q: "unat (67 :: u32) + 259 \<le> 268435456" "irq_count 259 \<le> 259" by (simp_all add: irq_count_def)
  obtain n a where n: "n \<le> 259" "ata_driver_rw (fs_tid s) (Some ?b) (word_of_nat (length ?b)) 67 ATA_CMD_IO_WRITE (fs_ata s)
      = Inr (?b, a)" "ata_drive a = put_sectors ?b 67 n (blk s)" "ata_ready a"
    "ata_method (fs_ata s) = ATA_METHOD_POLLING \<longrightarrow> n = 259"
  proof (cases "ata_method (fs_ata s)")
    case ATA_METHOD_POLLING
    then show ?thesis
      using that [of 259] driver_polling(2) [OF r _ len _ u q(1)] r len
      by (simp add: ata_ready_def drive_ok_put_sectors)
  next
    case ATA_METHOD_IRQ
    then show ?thesis
      using that [of "irq_count 259"] driver_irq(2) [OF r _ len _ u q(1) q(2)] r len
      by (simp add: ata_ready_def drive_ok_put_sectors irq_count_def)
  qed
  have "unat (67 :: u32) + n \<le> 268435456" using n(1) by simp
  note p = put_sectors_apply [OF this]
  have "get_sectors (put_sectors ?b 67 259 (blk s)) 67 259 = ?b" using q(1) len by (intro get_put_sectors) simp_all
  moreover have "\<forall>l. unat l < 67 \<or> 326 \<le> unat l \<longrightarrow> ata_drive a l = blk s l"
    using n(1) by (simp add: n(3) p)
  moreover have "free_map_update s = Inr (s\<lparr>fs_ata := a\<rparr>)"
    using n(2) by (simp add: free_map_update_def fs_rw_def sb)
  ultimately show ?thesis using n assms by (auto simp: map_ok_def)
qed

end
