(* ===== verification/Inodes.thy ===== *)
theory Inodes
  imports Free_Map
begin

section \<open>kern/fs/inodes.c: inodes and their index tables\<close>

text \<open>
  Operations of inodes.c. \<open>iblock_handle\<close> reads or sets the block of index \<open>iblock_idx\<close>: six
  direct entries, one table of 128 entries, and a table of 128 tables; the \<open>read\<close> pointer is
  modelled by whether it is null, and the value stored through it is the result. The abstract
  view is \<open>bptr s ino k\<close>, the block of index \<open>k\<close> of inode \<open>ino\<close> (0 for none).
\<close>

subsection \<open>Operations\<close>

definition inodes_rw_disk :: "u32 \<Rightarrow> u32 \<Rightarrow> fs \<Rightarrow> fs res" where
  "inodes_rw_disk inode_idx cmd s =
     (if inode_idx = INVALID_INDEX then panic ''inodes_write_to_disk(): invalid index''
      else
        bindr (if cmd = ATA_CMD_IO_READ then
            bindr (bitmap_test (Some (fs_imap s)) inode_idx) (\<lambda>v.
            if v = 0 then panic ''inodes_read_from_disk(): not allow to read from an empty inode'' else Inr ())
          else Inr ()) (\<lambda>_.
        bindr (if cmd = ATA_CMD_IO_WRITE then
            bindr (read_at ''inodes_rw_disk()'' (fs_inodes s) (sint inode_idx)) (\<lambda>ino.
            Inr (enc_inode ino @ drop (length (enc_inode ino)) sect0))
          else Inr sect0) (\<lambda>sect.
        bindr (fs_rw (Some sect) 512 (lba_inodes (fs_sb s) + inode_idx) cmd s) (\<lambda>(sect, s).
        if cmd = ATA_CMD_IO_READ then
          bindr (write_at ''inodes_rw_disk()'' (fs_inodes s) (sint inode_idx) (dec_inode sect)) (\<lambda>inodes.
          Inr (s\<lparr>fs_inodes := inodes\<rparr>))
        else Inr s))))"

fun load_loop :: "nat \<Rightarrow> nat \<Rightarrow> u32 \<Rightarrow> fs \<Rightarrow> fs res" where
  "load_loop i 0 cmd s = Inr s"
| "load_loop i (Suc n) cmd s =
     bindr (bitmap_test (Some (fs_imap s)) (word_of_nat i)) (\<lambda>v.
     bindr (if v \<noteq> 0 then inodes_rw_disk (word_of_nat i) cmd s else Inr s) (load_loop (Suc i) n cmd))"

definition setup_inode :: "bool \<Rightarrow> fs \<Rightarrow> fs res" where
  "setup_inode is_new s =
     (let cmd = (if is_new then ATA_CMD_IO_WRITE else ATA_CMD_IO_READ) in
      bindr (bitmap_init (Some (fs_imap s)) (word_of_nat MAX_INODES) (Some (replicate 512 0))) (\<lambda>m.
      let s = s\<lparr>fs_inodes := replicate MAX_INODES inode0\<rparr>; m = m\<lparr>bm_buff := replicate 512 0\<rparr> in
      bindr (fs_rw (Some (bm_buff m)) 512 FS_LAYOUT_BASE_MAP_INODES cmd s) (\<lambda>(b, s).
      let s = s\<lparr>fs_imap := m\<lparr>bm_buff := b\<rparr>\<rparr> in
      if \<not> is_new then load_loop 0 MAX_INODES cmd s else Inr s)))"

definition inode_allocate :: "fs \<Rightarrow> (u32 \<times> fs) res" where
  "inode_allocate s = bindr (bitmap_scan_empty (Some (fs_imap s))) (\<lambda>(i, m). Inr (i, s\<lparr>fs_imap := m\<rparr>))"

definition inode_map_setup :: "u32 \<Rightarrow> bool \<Rightarrow> fs \<Rightarrow> fs res" where
  "inode_map_setup inode_idx is_set s =
     (if inode_idx = INVALID_INDEX then panic ''inode_map_update(): invalid index''
      else
        bindr (if is_set then bitmap_set (Some (fs_imap s)) inode_idx else bitmap_clear (Some (fs_imap s)) inode_idx) (\<lambda>m.
        Inr (s\<lparr>fs_imap := m\<rparr>)))"

definition inode_map_update :: "fs \<Rightarrow> fs res" where
  "inode_map_update s =
     bindr (fs_rw (Some (bm_buff (fs_imap s))) 512 (lba_map_inode (fs_sb s)) ATA_CMD_IO_WRITE s) (\<lambda>(_, s). Inr s)"

definition inode_set :: "u32 \<Rightarrow> u32 \<Rightarrow> u32 \<Rightarrow> fs \<Rightarrow> fs res" where
  "inode_set inode_idx sz base_lba s =
     (if inode_idx = INVALID_INDEX then panic ''inode_set(): invalid inode''
      else
        bindr (write_at ''inode_set()'' (fs_inodes s) (sint inode_idx)
          (inode0\<lparr>i_size := sz, iblocks := (iblocks inode0)[0 := base_lba]\<rparr>)) (\<lambda>inodes.
        Inr (s\<lparr>fs_inodes := inodes\<rparr>)))"

text \<open>An entry of the in-memory index array of an inode, and setting it.\<close>

definition iblocks_get :: "u32 \<Rightarrow> int \<Rightarrow> fs \<Rightarrow> u32 res" where
  "iblocks_get ino k s =
     bindr (read_at ''__fs_inodes'' (fs_inodes s) (sint ino)) (\<lambda>i. read_at ''iblocks_'' (iblocks i) k)"

definition iblocks_put :: "u32 \<Rightarrow> int \<Rightarrow> u32 \<Rightarrow> fs \<Rightarrow> fs res" where
  "iblocks_put ino k v s =
     bindr (read_at ''__fs_inodes'' (fs_inodes s) (sint ino)) (\<lambda>i.
     bindr (write_at ''iblocks_'' (iblocks i) k v) (\<lambda>bs.
     bindr (write_at ''__fs_inodes'' (fs_inodes s) (sint ino) (i\<lparr>iblocks := bs\<rparr>)) (\<lambda>inodes.
     Inr (s\<lparr>fs_inodes := inodes\<rparr>))))"

text \<open>
  A table that is there is read; one that is missing reads as zeroes, and when writing it is
  allocated and \<open>link\<close>ed into its parent.
\<close>

definition load_table :: "bool \<Rightarrow> u32 \<Rightarrow> (u32 \<Rightarrow> fs \<Rightarrow> fs res) \<Rightarrow> fs \<Rightarrow> (u32 \<times> byte list \<times> fs) res" where
  "load_table reading lba link s =
     (if lba = 0 then
        bindr (if reading then Inr (lba, s)
          else bindr (free_allocate s) (\<lambda>(l, s).
            bindr (free_map_setup l True s) (\<lambda>s.
            bindr (link l s) (\<lambda>s. Inr (l, s))))) (\<lambda>(l, s).
        Inr (l, sect0, s))
      else bindr (fs_rw (Some sect0) 512 lba ATA_CMD_IO_READ s) (\<lambda>(buf, s). Inr (lba, buf, s)))"

definition put_entry :: "bool \<Rightarrow> u32 \<Rightarrow> byte list \<Rightarrow> nat \<Rightarrow> u32 \<Rightarrow> fs \<Rightarrow> (u32 \<times> fs) res" where
  "put_entry reading lba buf k w s =
     (if reading then Inr (get32 buf k, s)
      else bindr (fs_rw (Some (set32 buf k w)) 512 lba ATA_CMD_IO_WRITE s) (\<lambda>(_, s). Inr (0, s)))"

definition iblock_handle :: "u32 \<Rightarrow> u32 \<Rightarrow> u32 \<Rightarrow> bool \<Rightarrow> fs \<Rightarrow> (u32 \<times> fs) res" where
  "iblock_handle ino iblock_idx w reading s =
     (if ino = INVALID_INDEX \<or> sint ino \<ge> int MAX_INODES then panic ''iblock_handle(): invalid inode index''
      else if iblock_idx = INVALID_INDEX \<or> iblock_idx \<ge> inode_block_index_max (fs_sb s)
      then panic ''iblock_handle(): invalid iblock index''
      else if w < lba_free (fs_sb s) \<and> \<not> reading then panic ''iblock_handle(): invalid lba''
      else if w \<ge> lba_free (fs_sb s) \<and> reading then panic ''iblock_handle(): illegal operation''
      else
        let i = sint iblock_idx; k = nat i; write_inode = inodes_rw_disk ino ATA_CMD_IO_WRITE in
        if i < 6 then
          if reading then bindr (iblocks_get ino i s) (\<lambda>v. Inr (v, s))
          else bindr (iblocks_put ino i w s) (\<lambda>s. bindr (write_inode s) (\<lambda>s. Inr (0, s)))
        else if i < 134 then
          bindr (iblocks_get ino 6 s) (\<lambda>level1.
          bindr (load_table reading level1 (\<lambda>l s. bindr (iblocks_put ino 6 l s) write_inode) s) (\<lambda>(level1, buf, s).
          put_entry reading level1 buf (k - 6) w s))
        else if i < 16518 then
          bindr (iblocks_get ino 7 s) (\<lambda>level2.
          bindr (load_table reading level2 (\<lambda>l s. bindr (iblocks_put ino 7 l s) write_inode) s) (\<lambda>(level2, buf, s).
          let index = k - 134; level1 = get32 buf (index div 128) in
          bindr (load_table reading level1 (\<lambda>l s.
              bindr (fs_rw (Some (set32 buf (index div 128) l)) 512 level2 ATA_CMD_IO_WRITE s) (\<lambda>(_, s). Inr s)) s)
            (\<lambda>(level1, buf, s).
          put_entry reading level1 buf (index mod 128) w s)))
        else panic ''iblock_handle(): invalid iblock index'')"

definition iblock_set :: "u32 \<Rightarrow> u32 \<Rightarrow> u32 \<Rightarrow> fs \<Rightarrow> fs res" where
  "iblock_set ino iblock_idx lba s = bindr (iblock_handle ino iblock_idx lba False s) (\<lambda>(_, s). Inr s)"

definition iblock_get :: "u32 \<Rightarrow> u32 \<Rightarrow> fs \<Rightarrow> (u32 \<times> fs) res" where
  "iblock_get ino iblock_idx s = iblock_handle ino iblock_idx 0 True s"

subsection \<open>Positions and the tree\<close>

text \<open>
  A block of a file hangs at a position: \<open>Dat k\<close> the block of index \<open>k\<close>, \<open>Tab1\<close> and \<open>Tab2\<close> the
  two tables the inode points to, \<open>Sub j\<close> the tables of the second level. \<open>par p\<close> is the table
  that holds the entry of \<open>p\<close> and its number there; the others are in the inode, at \<open>root p\<close>.
\<close>

datatype pos = Dat nat | Tab1 | Tab2 | Sub nat

fun par :: "pos \<Rightarrow> (pos \<times> nat) option" where
  "par (Dat k) = (if k < 6 then None else if k < 134 then Some (Tab1, k - 6)
     else Some (Sub ((k - 134) div 128), (k - 134) mod 128))"
| "par (Sub j) = Some (Tab2, j)"
| "par _ = None"

fun root :: "pos \<Rightarrow> nat" where
  "root (Dat k) = k" | "root Tab1 = 6" | "root Tab2 = 7" | "root (Sub j) = 0"

definition positions :: "pos set" where
  "positions = Dat ` {..<16518} \<union> {Tab1, Tab2} \<union> Sub ` {..<128}"

lemma positions_iff [simp]:
  "Dat k \<in> positions \<longleftrightarrow> k < 16518" "Tab1 \<in> positions" "Tab2 \<in> positions" "Sub j \<in> positions \<longleftrightarrow> j < 128"
  by (auto simp: positions_def)

lemma par_positions: "p \<in> positions \<Longrightarrow> par p = Some (q, n) \<Longrightarrow> q \<in> positions \<and> n < 128"
  by (cases p) (auto split: if_splits)

lemma par_Dat_inj:
  assumes "par (Dat k) = Some x" and "par (Dat k') = Some x"
  shows "k = k'"
proof -
  have ge: "6 \<le> k" "6 \<le> k'" using assms by (auto split: if_splits)
  show ?thesis
  proof (cases "k < 134 \<or> k' < 134")
    case True
    then show ?thesis using assms ge by (auto split: if_splits)
  next
    case False
    then have d: "(k - 134) div 128 = (k' - 134) div 128" "(k - 134) mod 128 = (k' - 134) mod 128"
      using assms ge by auto
    have "k - 134 = k' - 134" by (metis d div_mult_mod_eq)
    then show ?thesis using False by arith
  qed
qed

lemma par_inj: "par p = Some x \<Longrightarrow> par p' = Some x \<Longrightarrow> p = p'"
  by (cases p; cases p') (auto split: if_splits intro: par_Dat_inj simp del: par.simps(1) | auto split: if_splits)+

lemma root_inj: "par p = None \<Longrightarrow> par p' = None \<Longrightarrow> root p = root p' \<Longrightarrow> p = p'"
  by (cases p; cases p') (auto split: if_splits)

lemma root_bound: "par p = None \<Longrightarrow> root p < 8"
  by (cases p) (auto split: if_splits)

definition sub_at :: "(u32 \<Rightarrow> byte list) \<Rightarrow> u32 list \<Rightarrow> nat \<Rightarrow> u32" where
  "sub_at d bs j = (if bs ! 7 = 0 then 0 else get32 (d (bs ! 7)) j)"

fun tree_at :: "(u32 \<Rightarrow> byte list) \<Rightarrow> u32 list \<Rightarrow> pos \<Rightarrow> u32" where
  "tree_at d bs Tab1 = bs ! 6"
| "tree_at d bs Tab2 = bs ! 7"
| "tree_at d bs (Sub j) = sub_at d bs j"
| "tree_at d bs (Dat k) =
     (if k < 6 then bs ! k
      else if k < 134 then if bs ! 6 = 0 then 0 else get32 (d (bs ! 6)) (k - 6)
      else let l = sub_at d bs ((k - 134) div 128) in
           if l = 0 then 0 else get32 (d l) ((k - 134) mod 128))"

lemma tree_at_root: "par p = None \<Longrightarrow> tree_at d bs p = bs ! root p"
  by (cases p) (auto split: if_splits)

lemma tree_at_par: "par p = Some (q, n) \<Longrightarrow>
    tree_at d bs p = (if tree_at d bs q = 0 then 0 else get32 (d (tree_at d bs q)) n)"
  by (cases p) (auto simp: Let_def sub_at_def split: if_splits)

declare tree_at.simps [simp del]

definition tree :: "fs \<Rightarrow> nat \<times> pos \<Rightarrow> u32" where
  "tree s x = tree_at (blk s) (iblocks (fs_inodes s ! fst x)) (snd x)"

lemma tree_root: "par p = None \<Longrightarrow> tree s (i, p) = iblocks (fs_inodes s ! i) ! root p"
  by (simp add: tree_def tree_at_root)

lemma tree_par: "par p = Some (q, n) \<Longrightarrow>
    tree s (i, p) = (if tree s (i, q) = 0 then 0 else get32 (blk s (tree s (i, q))) n)"
  by (simp add: tree_def tree_at_par)

text \<open>The parent of a position is strictly nearer to the inode.\<close>

fun depth :: "pos \<Rightarrow> nat" where
  "depth (Dat _) = 2" | "depth (Sub _) = 1" | "depth _ = 0"

lemma par_depth: "par p = Some (q, n) \<Longrightarrow> depth q < depth p"
  by (cases p) (auto split: if_splits)

lemma pos_induct [case_names root child]:
  assumes "\<And>p. par p = None \<Longrightarrow> P p"
    and "\<And>p q n. par p = Some (q, n) \<Longrightarrow> P q \<Longrightarrow> P p"
  shows "P p"
proof (induction "depth p" arbitrary: p rule: less_induct)
  case less
  show ?case
  proof (cases "par p")
    case (Some qo)
    then obtain q n where "par p = Some (q, n)" by (cases qo) auto
    then show ?thesis using less par_depth assms(2) by blast
  qed (rule assms(1))
qed

subsection \<open>The invariant\<close>

text \<open>
  The positions in use are those of the allocated inodes; every block they name is marked in
  the free map, and no block hangs at two positions.
\<close>

definition slots_of :: "fs \<Rightarrow> (nat \<times> pos) set" where
  "slots_of s = bm_bits (fs_imap s) \<times> positions"

definition imap_ok :: "fs \<Rightarrow> bool" where
  "imap_ok s \<longleftrightarrow> bm_wf (fs_imap s) \<and> bm_cap (fs_imap s) = 64 \<and> length (bm_buff (fs_imap s)) = 512
     \<and> length (fs_inodes s) = 64 \<and> (\<forall>i < 64. length (iblocks (fs_inodes s ! i)) = 8)"

definition tree_ok :: "fs \<Rightarrow> bool" where
  "tree_ok s \<longleftrightarrow> (\<forall>x \<in> slots_of s. tree s x \<noteq> 0 \<longrightarrow> tree s x \<in> used_blocks s)
     \<and> (\<forall>x \<in> slots_of s. \<forall>y \<in> slots_of s. tree s x = tree s y \<longrightarrow> tree s x \<noteq> 0 \<longrightarrow> x = y)"

definition fs_inv :: "fs \<Rightarrow> bool" where
  "fs_inv s \<longleftrightarrow> map_ok s \<and> imap_ok s \<and> tree_ok s"

lemma fs_invD [dest]: "fs_inv s \<Longrightarrow> map_ok s" "fs_inv s \<Longrightarrow> imap_ok s" "fs_inv s \<Longrightarrow> tree_ok s"
  by (simp_all add: fs_inv_def)

lemma fs_inv_ready [simp]: "fs_inv s \<Longrightarrow> ata_ready (fs_ata s)" "fs_inv s \<Longrightarrow> fs_sb s = layout"
  by (simp_all add: fs_inv_def map_ok_def)

lemma inode_bound: "imap_ok s \<Longrightarrow> i \<in> bm_bits (fs_imap s) \<Longrightarrow> i < 64"
  using bm_bits_bound by (fastforce simp: imap_ok_def)

lemma slots_parent: "(i, p) \<in> slots_of s \<Longrightarrow> par p = Some (q, n) \<Longrightarrow> (i, q) \<in> slots_of s \<and> n < 128"
  using par_positions by (auto simp: slots_of_def)

subsection \<open>One entry of the tree changes\<close>

lemma tree_update:
  assumes R: "\<And>j p'. (j, p') \<in> slots_of s \<Longrightarrow> par p' = None \<Longrightarrow>
      iblocks (fs_inodes s' ! j) ! root p' = (if (j, p') = y then v else iblocks (fs_inodes s ! j) ! root p')"
    and C: "\<And>j p' q n. (j, p') \<in> slots_of s \<Longrightarrow> par p' = Some (q, n) \<Longrightarrow> (j, q) \<noteq> y \<Longrightarrow> tree s (j, q) \<noteq> 0 \<Longrightarrow>
      get32 (blk s' (tree s (j, q))) n = (if (j, p') = y then v else get32 (blk s (tree s (j, q))) n)"
    and D: "\<And>p' n. (fst y, p') \<in> slots_of s \<Longrightarrow> par p' = Some (snd y, n) \<Longrightarrow>
      tree s y = 0 \<and> (v = 0 \<or> get32 (blk s' v) n = 0)"
    and E: "\<And>q n. par (snd y) = Some (q, n) \<Longrightarrow> tree s (fst y, q) \<noteq> 0"
    and x: "(j, p) \<in> slots_of s"
  shows "tree s' (j, p) = (if (j, p) = y then v else tree s (j, p))"
  using x
proof (induction p rule: pos_induct)
  case (root p)
  then show ?case using R by (simp add: tree_root)
next
  case (child p q n)
  then have q: "(j, q) \<in> slots_of s" using slots_parent by blast
  note IH = child.IH [OF q]
  have ne: "q \<noteq> p" using par_depth [OF child.hyps] by auto
  show ?case
  proof (cases "(j, q) = y")
    case True
    then have t: "tree s (j, p) = 0" and g: "v = 0 \<or> get32 (blk s' v) n = 0"
      using D [of p n] child by (auto simp: tree_par [OF child.hyps])
    have "tree s' (j, p) = 0" using IH True g by (auto simp: tree_par [OF child.hyps])
    then show ?thesis using t True ne by auto
  next
    case False
    then show ?thesis
      using IH C [OF child.prems child.hyps False] E [of q n] child.hyps by (auto simp: tree_par [OF child.hyps])
  qed
qed

lemma tree_ok_update:
  assumes "tree_ok s" and "slots_of s' = slots_of s" and y: "y \<in> slots_of s"
    and t: "\<And>x. x \<in> slots_of s \<Longrightarrow> tree s' x = (if x = y then v else tree s x)"
    and u: "used_blocks s \<subseteq> used_blocks s'" "v \<noteq> 0 \<Longrightarrow> v \<in> used_blocks s'"
    and f: "\<And>x. x \<in> slots_of s \<Longrightarrow> x \<noteq> y \<Longrightarrow> tree s x = v \<Longrightarrow> v = 0"
  shows "tree_ok s'"
proof -
  have "tree s' x \<in> used_blocks s'" if "x \<in> slots_of s" "tree s' x \<noteq> 0" for x
    using that t [of x] u assms(1) by (auto simp: tree_ok_def split: if_splits)
  moreover have "x = z" if "x \<in> slots_of s" "z \<in> slots_of s" "tree s' x = tree s' z" "tree s' x \<noteq> 0" for x z
    using that t [of x] t [of z] f [of x] f [of z] assms(1) by (auto simp: tree_ok_def split: if_splits)
  ultimately show ?thesis unfolding tree_ok_def assms(2) by blast
qed

text \<open>Writing an entry of the inode itself.\<close>

definition put_root :: "nat \<Rightarrow> nat \<Rightarrow> u32 \<Rightarrow> fs \<Rightarrow> fs" where
  "put_root i r v s = s\<lparr>fs_inodes := (fs_inodes s)[i := (fs_inodes s ! i)\<lparr>iblocks := (iblocks (fs_inodes s ! i))[r := v]\<rparr>]\<rparr>"

lemma put_root_simps [simp]:
  "fs_ata (put_root i r v s) = fs_ata s" "fs_sb (put_root i r v s) = fs_sb s" "fs_imap (put_root i r v s) = fs_imap s"
  "fs_fmap (put_root i r v s) = fs_fmap s" "fs_tid (put_root i r v s) = fs_tid s"
  "length (fs_inodes (put_root i r v s)) = length (fs_inodes s)"
  by (simp_all add: put_root_def)

lemma iblocks_put_root:
  "i < length (fs_inodes s) \<Longrightarrow> iblocks (fs_inodes (put_root i r v s) ! j) =
     (if j = i then (iblocks (fs_inodes s ! i))[r := v] else iblocks (fs_inodes s ! j))"
  by (simp add: put_root_def)

lemma i_size_put_root [simp]: "i_size (fs_inodes (put_root i r v s) ! j) = i_size (fs_inodes s ! j)"
  by (cases "i < length (fs_inodes s)"; cases "i = j") (simp_all add: put_root_def list_update_beyond)

lemma imap_ok_put_root [simp]: "imap_ok s \<Longrightarrow> i < 64 \<Longrightarrow> imap_ok (put_root i r v s)"
  by (auto simp: imap_ok_def iblocks_put_root)

lemma slots_of_simps [simp]:
  "slots_of (put_root i r v s) = slots_of s" "slots_of (set_blk l b s) = slots_of s"
  "slots_of (s\<lparr>fs_fmap := m\<rparr>) = slots_of s"
  by (simp_all add: slots_of_def)

lemma used_blocks_simps [simp]:
  "used_blocks (put_root i r v s) = used_blocks s" "used_blocks (set_blk l b s) = used_blocks s"
  "used_blocks (s\<lparr>fs_inodes := x\<rparr>) = used_blocks s"
  by (simp_all add: used_blocks_def)

lemma imap_ok_simps [simp]:
  "imap_ok (set_blk l b s) = imap_ok s" "imap_ok (s\<lparr>fs_fmap := m\<rparr>) = imap_ok s"
  by (simp_all add: imap_ok_def)

lemma map_ok_simps [simp]:
  "map_ok (put_root i r v s) = map_ok s" "map_ok s \<Longrightarrow> length b = 512 \<Longrightarrow> map_ok (set_blk l b s)"
  "map_ok (s\<lparr>fs_inodes := x\<rparr>) = map_ok s"
  by (simp_all add: map_ok_def)

lemma tree_fmap [simp]: "tree (s\<lparr>fs_fmap := m\<rparr>) x = tree s x"
  by (simp add: tree_def)

text \<open>The primitive steps: \<open>hang y v s\<close> puts \<open>v\<close> at the entry of the position \<open>y\<close>.\<close>

definition hang :: "nat \<times> pos \<Rightarrow> u32 \<Rightarrow> fs \<Rightarrow> fs" where
  "hang y v s = (case par (snd y) of
     None \<Rightarrow> put_root (fst y) (root (snd y)) v s
   | Some (q, n) \<Rightarrow> set_blk (tree s (fst y, q)) (set32 (blk s (tree s (fst y, q))) n v) s)"

lemma hang_simps [simp]:
  "fs_sb (hang y v s) = fs_sb s" "fs_imap (hang y v s) = fs_imap s" "fs_fmap (hang y v s) = fs_fmap s"
  "fs_tid (hang y v s) = fs_tid s" "ata_method (fs_ata (hang y v s)) = ata_method (fs_ata s)"
  "slots_of (hang y v s) = slots_of s" "used_blocks (hang y v s) = used_blocks s"
  "i_size (fs_inodes (hang y v s) ! j) = i_size (fs_inodes s ! j)"
  by (simp_all add: hang_def split: option.splits prod.splits)

lemma imap_ok_hang [simp]: "imap_ok s \<Longrightarrow> y \<in> slots_of s \<Longrightarrow> imap_ok (hang y v s)"
  using inode_bound [of s "fst y"] by (auto simp: hang_def slots_of_def split: option.splits prod.splits)

lemma length_set32_blk: "ata_ready (fs_ata s) \<Longrightarrow> n < 128 \<Longrightarrow> length (set32 (blk s l) n v) = 512"
  by simp

lemma map_ok_hang [simp]:
  assumes "map_ok s" and "y \<in> slots_of s"
  shows "map_ok (hang y v s)"
proof (cases "par (snd y)")
  case None
  then show ?thesis using assms by (simp add: hang_def)
next
  case (Some a)
  then obtain q n where qn: "par (snd y) = Some (q, n)" by (cases a) auto
  then have "n < 128" using par_positions assms(2) by (auto simp: slots_of_def)
  then show ?thesis using assms qn by (simp add: hang_def map_ok_def length_set32_blk)
qed

lemma hang_root_entry:
  assumes "imap_ok s" and "y \<in> slots_of s" and "(j, p) \<in> slots_of s" and "par p = None"
  shows "iblocks (fs_inodes (hang y v s) ! j) ! root p = (if (j, p) = y then v else iblocks (fs_inodes s ! j) ! root p)"
proof (cases "par (snd y)")
  case None
  have i: "fst y < 64" using inode_bound assms(1,2) by (auto simp: slots_of_def)
  have l: "length (iblocks (fs_inodes s ! fst y)) = 8" "fst y < length (fs_inodes s)"
    using assms(1) i by (auto simp: imap_ok_def)
  obtain i p0 where y': "y = (i, p0)" by (cases y)
  have "root p = root p0 \<longleftrightarrow> p = p0" using root_inj assms(4) None y' by auto
  then show ?thesis
    using None l root_bound [OF None] by (auto simp: y' hang_def iblocks_put_root nth_list_update)
next
  case (Some a)
  then have "(j, p) \<noteq> y" using assms(4) by auto
  then show ?thesis using Some by (auto simp: hang_def split: prod.splits)
qed

lemma hang_child_entry:
  assumes inv: "fs_inv s" and y: "y \<in> slots_of s" and x: "(j, p) \<in> slots_of s" and par: "par p = Some (q, n)"
    and nz: "tree s (j, q) \<noteq> 0" and up: "\<And>q n. par (snd y) = Some (q, n) \<Longrightarrow> tree s (fst y, q) \<noteq> 0"
  shows "get32 (blk (hang y v s) (tree s (j, q))) n = (if (j, p) = y then v else get32 (blk s (tree s (j, q))) n)"
proof (cases "par (snd y)")
  case None
  then have "(j, p) \<noteq> y" using par by auto
  then show ?thesis using None by (auto simp: hang_def)
next
  case (Some a)
  then obtain q' n' where y': "par (snd y) = Some (q', n')" by (cases a) auto
  have sl: "(j, q) \<in> slots_of s" "n < 128" using slots_parent [OF x par] by auto
  have sy: "(fst y, q') \<in> slots_of s" "n' < 128" using slots_parent [of "fst y" "snd y"] y y' by auto
  let ?b = "tree s (fst y, q')"
  have h: "hang y v s = set_blk ?b (set32 (blk s ?b) n' v) s" using y' by (simp add: hang_def)
  have len: "length (blk s ?b) = 512" using inv by simp
  show ?thesis
  proof (cases "tree s (j, q) = ?b")
    case True
    then have same: "(j, q) = (fst y, q')"
      using inv sl(1) sy(1) nz unfolding fs_inv_def tree_ok_def by metis
    have "(j, p) = y \<longleftrightarrow> n = n'"
      using same y' par par_inj [of p _ "snd y"] by (cases y) auto
    then show ?thesis using len sl(2) sy(2) True by (simp add: h get_set32)
  next
    case False
    moreover from this have "(j, p) \<noteq> y" using par y' by auto
    ultimately show ?thesis by (simp add: h)
  qed
qed

text \<open>Hanging a block at a leaf, and hanging a fresh, cleared table where there was none.\<close>

lemma tree_hang:
  assumes "fs_inv s" and "y \<in> slots_of s" and "\<And>q n. par (snd y) = Some (q, n) \<Longrightarrow> tree s (fst y, q) \<noteq> 0"
    and leaf: "snd y = Dat k" and "x \<in> slots_of s"
  shows "tree (hang y v s) x = (if x = y then v else tree s x)"
proof -
  obtain j p where x: "x = (j, p)" by (cases x)
  have nopar: "par p' \<noteq> Some (snd y, n)" for p' n using leaf by (cases p') auto
  show ?thesis unfolding x
  proof (rule tree_update [of s])
    fix j p assume "(j, p) \<in> slots_of s" "par p = None"
    then show "iblocks (fs_inodes (hang y v s) ! j) ! root p = (if (j, p) = y then v else iblocks (fs_inodes s ! j) ! root p)"
      by (intro hang_root_entry [OF fs_invD(2) [OF assms(1)] assms(2)])
  next
    fix j p q n assume "(j, p) \<in> slots_of s" "par p = Some (q, n)" "tree s (j, q) \<noteq> 0"
    then show "get32 (blk (hang y v s) (tree s (j, q))) n = (if (j, p) = y then v else get32 (blk s (tree s (j, q))) n)"
      by (intro hang_child_entry [OF assms(1,2) _ _ _ assms(3)])
  next
    show "(j, p) \<in> slots_of s" using assms(5) x by simp
  qed (use assms(3) nopar in blast)+
qed

lemma tree_attach:
  assumes inv: "fs_inv s" and y: "y \<in> slots_of s" and up: "\<And>q n. par (snd y) = Some (q, n) \<Longrightarrow> tree s (fst y, q) \<noteq> 0"
    and none: "tree s y = 0" and fresh: "\<And>z. z \<in> slots_of s \<Longrightarrow> tree s z \<noteq> v" and x: "x \<in> slots_of s"
  shows "tree (set_blk v sect0 (hang y v s)) x = (if x = y then v else tree s x)"
proof -
  obtain j p where xj: "x = (j, p)" by (cases x)
  from fresh have nv: "tree s (j, q) \<noteq> v" if "(j, p) \<in> slots_of s" "par p = Some (q, n)" for j p q n
    using that slots_parent by blast
  have z: "get32 sect0 n = 0" if "n < 128" for n using that by (simp add: sect0_def)
  show ?thesis unfolding xj
  proof (rule tree_update [of s])
    fix j p assume "(j, p) \<in> slots_of s" "par p = None"
    then show "iblocks (fs_inodes (set_blk v sect0 (hang y v s)) ! j) ! root p =
        (if (j, p) = y then v else iblocks (fs_inodes s ! j) ! root p)"
      using hang_root_entry [OF fs_invD(2) [OF inv] y] by simp
  next
    fix j p q n assume "(j, p) \<in> slots_of s" "par p = Some (q, n)" "tree s (j, q) \<noteq> 0"
    then show "get32 (blk (set_blk v sect0 (hang y v s)) (tree s (j, q))) n =
        (if (j, p) = y then v else get32 (blk s (tree s (j, q))) n)"
      using hang_child_entry [OF inv y _ _ _ up] nv by simp
  next
    fix p n assume "(fst y, p) \<in> slots_of s" "par p = Some (snd y, n)"
    then show "tree s y = 0 \<and> (v = 0 \<or> get32 (blk (set_blk v sect0 (hang y v s)) v) n = 0)"
      using none slots_parent z by auto
  qed (use x xj up in auto)
qed

lemma fs_inv_hang:
  assumes inv: "fs_inv s" and y: "y \<in> slots_of s" and up: "\<And>q n. par (snd y) = Some (q, n) \<Longrightarrow> tree s (fst y, q) \<noteq> 0"
    and leaf: "snd y = Dat k" and used: "v \<in> used_blocks s" and fresh: "\<And>z. z \<in> slots_of s \<Longrightarrow> z \<noteq> y \<Longrightarrow> tree s z \<noteq> v"
  shows "fs_inv (hang y v s)"
proof -
  have "tree_ok (hang y v s)"
  proof (rule tree_ok_update [OF fs_invD(3) [OF inv] _ y])
    fix x assume "x \<in> slots_of s"
    then show "tree (hang y v s) x = (if x = y then v else tree s x)" by (intro tree_hang [OF inv y _ leaf] up)
  next
    fix x assume "x \<in> slots_of s" "x \<noteq> y" "tree s x = v"
    then show "v = 0" using fresh by blast
  qed (use used in simp_all)
  then show ?thesis using inv y by (simp add: fs_inv_def)
qed

lemma fs_inv_attach:
  assumes inv: "fs_inv s" and y: "y \<in> slots_of s" and up: "\<And>q n. par (snd y) = Some (q, n) \<Longrightarrow> tree s (fst y, q) \<noteq> 0"
    and none: "tree s y = 0" and used: "v \<in> used_blocks s" and fresh: "\<And>z. z \<in> slots_of s \<Longrightarrow> tree s z \<noteq> v"
  shows "fs_inv (set_blk v sect0 (hang y v s))"
proof -
  have "tree_ok (set_blk v sect0 (hang y v s))"
  proof (rule tree_ok_update [OF fs_invD(3) [OF inv] _ y])
    fix x assume "x \<in> slots_of s"
    then show "tree (set_blk v sect0 (hang y v s)) x = (if x = y then v else tree s x)"
      by (intro tree_attach [OF inv y _ none fresh] up)
  next
    fix x assume "x \<in> slots_of s" "x \<noteq> y" "tree s x = v"
    then show "v = 0" using fresh by blast
  qed (use used in simp_all)
  then show ?thesis using inv y by (simp add: fs_inv_def)
qed

text \<open>Writes outside the tree, and changes of the free map.\<close>

lemma tree_set_blk_other:
  assumes "fs_inv s" and x: "x \<in> slots_of s" and l: "\<And>z. z \<in> slots_of s \<Longrightarrow> tree s z \<noteq> l \<or> l = 0"
  shows "tree (set_blk l b s) x = tree s x"
proof -
  obtain j p where xj: "x = (j, p)" by (cases x)
  have "(j, p) \<in> slots_of s \<Longrightarrow> tree (set_blk l b s) (j, p) = tree s (j, p)"
  proof (induction p rule: pos_induct)
    case (root p)
    then show ?case by (simp add: tree_root)
  next
    case (child p q n)
    then show ?case using slots_parent [OF child.prems child.hyps] l [of "(j, q)"]
      by (auto simp: tree_par [OF child.hyps])
  qed
  then show ?thesis using x xj by simp
qed

lemma low_not_tree:
  assumes "fs_inv s" and "unat l < 326" and "z \<in> slots_of s"
  shows "tree s z \<noteq> l \<or> l = 0"
proof (rule ccontr)
  assume "\<not> (tree s z \<noteq> l \<or> l = 0)"
  then have "l \<in> used_blocks s" using assms(1,3) unfolding fs_inv_def tree_ok_def by metis
  then show False using used_block_range [of s l] assms(1,2) by auto
qed

lemma tree_ok_cong:
  assumes "tree_ok s" and "slots_of s' = slots_of s" and "\<And>x. x \<in> slots_of s \<Longrightarrow> tree s' x = tree s x"
    and "used_blocks s \<subseteq> used_blocks s'"
  shows "tree_ok s'"
  unfolding tree_ok_def assms(2)
proof (intro conjI ballI impI)
  fix x assume "x \<in> slots_of s" "tree s' x \<noteq> 0"
  then show "tree s' x \<in> used_blocks s'" using assms unfolding tree_ok_def by auto
next
  fix x y assume "x \<in> slots_of s" "y \<in> slots_of s" "tree s' x = tree s' y" "tree s' x \<noteq> 0"
  then show "x = y" using assms unfolding tree_ok_def by metis
qed

lemma fs_inv_set_blk_other:
  assumes "fs_inv s" and "length b = 512" and "\<And>z. z \<in> slots_of s \<Longrightarrow> tree s z \<noteq> l \<or> l = 0"
  shows "fs_inv (set_blk l b s)"
proof -
  have "tree_ok (set_blk l b s)"
    by (rule tree_ok_cong [OF fs_invD(3) [OF assms(1)]]) (use tree_set_blk_other [OF assms(1) _ assms(3)] in auto)
  then show ?thesis using assms by (simp add: fs_inv_def)
qed

lemma fs_inv_same_but_fmap:
  assumes "fs_inv s" and "same_but_fmap s s'" and "map_ok s'" and "used_blocks s \<subseteq> used_blocks s'"
  shows "fs_inv s'" and "tree s' = tree s" and "slots_of s' = slots_of s"
proof -
  note e = same_but_fmapD [OF assms(2)]
  show t: "tree s' = tree s" by (rule ext) (simp add: tree_def e)
  show sl: "slots_of s' = slots_of s" by (simp add: slots_of_def e)
  have "tree_ok s'" by (rule tree_ok_cong [OF fs_invD(3) [OF assms(1)]]) (use t sl assms(4) in auto)
  then show "fs_inv s'" using assms e by (simp add: fs_inv_def imap_ok_def)
qed

subsection \<open>The pieces of the code\<close>

lemma ino_index:
  assumes "imap_ok s" and "unat (ino :: u32) < 64"
  shows "read_at w (fs_inodes s) (sint ino) = Inr (fs_inodes s ! unat ino)"
    and "write_at w (fs_inodes s) (sint ino) x = Inr ((fs_inodes s)[unat ino := x])"
proof -
  have "sint ino = int (unat ino)" using assms(2) by (intro sint_nonneg_32) simp
  then show "read_at w (fs_inodes s) (sint ino) = Inr (fs_inodes s ! unat ino)"
    "write_at w (fs_inodes s) (sint ino) x = Inr ((fs_inodes s)[unat ino := x])"
    using assms by (simp_all add: imap_ok_def)
qed

lemma iblocks_get_eq:
  assumes "imap_ok s" and "unat ino < 64" and "r < 8"
  shows "iblocks_get ino (int r) s = Inr (iblocks (fs_inodes s ! unat ino) ! r)"
  using assms by (simp add: iblocks_get_def ino_index [OF assms(1,2)] imap_ok_def)

lemma iblocks_put_eq:
  assumes "imap_ok s" and "unat ino < 64" and "r < 8"
  shows "iblocks_put ino (int r) v s = Inr (put_root (unat ino) r v s)"
  using assms by (simp add: iblocks_put_def ino_index [OF assms(1,2)] imap_ok_def put_root_def)

definition inode_sect :: "inode \<Rightarrow> byte list" where
  "inode_sect i = enc_inode i @ drop (length (enc_inode i)) sect0"

definition save_inode :: "nat \<Rightarrow> fs \<Rightarrow> fs" where
  "save_inode i s = set_blk (3 + word_of_nat i) (inode_sect (fs_inodes s ! i)) s"

lemma length_inode_sect: "imap_ok s \<Longrightarrow> i < 64 \<Longrightarrow> length (inode_sect (fs_inodes s ! i)) = 512"
  by (simp add: inode_sect_def length_enc_inode imap_ok_def)

lemma inode_lba: "i < 64 \<Longrightarrow> unat (3 + word_of_nat i :: u32) = 3 + i"
  by (simp add: unat_word_of_nat_32 unat_add_32)

lemma inodes_write_eq:
  assumes "map_ok s" and "imap_ok s" and "unat ino < 64"
  shows "inodes_rw_disk ino ATA_CMD_IO_WRITE s = Inr (save_inode (unat ino) s)"
proof -
  have "ino \<noteq> INVALID_INDEX" using assms(3) by auto
  moreover have "unat (3 + ino) < 268435456" using inode_lba [OF assms(3)] assms(3) by simp
  moreover have "ata_ready (fs_ata s)" "lba_inodes (fs_sb s) = 3" using assms(1) by (simp_all add: map_ok_def)
  ultimately show ?thesis
    using length_inode_sect [OF assms(2,3)] fs_rw_sector(2) [of s "inode_sect (fs_inodes s ! unat ino)" "3 + ino"]
    by (simp add: inodes_rw_disk_def ino_index [OF assms(2,3)] save_inode_def flip: inode_sect_def)
qed

lemma save_inode_simps [simp]:
  "fs_sb (save_inode i s) = fs_sb s" "fs_imap (save_inode i s) = fs_imap s" "fs_fmap (save_inode i s) = fs_fmap s"
  "fs_tid (save_inode i s) = fs_tid s" "fs_inodes (save_inode i s) = fs_inodes s"
  "slots_of (save_inode i s) = slots_of s" "used_blocks (save_inode i s) = used_blocks s"
  "ata_method (fs_ata (save_inode i s)) = ata_method (fs_ata s)"
  by (simp_all add: save_inode_def)

lemma save_inode_blk: "i < 64 \<Longrightarrow> 326 \<le> unat l \<Longrightarrow> blk (save_inode i s) l = blk s l"
  using inode_lba [of i] by (auto simp: save_inode_def)

lemma save_inode_inv:
  assumes "fs_inv s" and "i < 64"
  shows "fs_inv (save_inode i s)" and "x \<in> slots_of s \<Longrightarrow> tree (save_inode i s) x = tree s x"
proof -
  have l: "unat (3 + word_of_nat i :: u32) < 326" using inode_lba [OF assms(2)] assms(2) by simp
  note nt = low_not_tree [OF assms(1) l]
  show "fs_inv (save_inode i s)" unfolding save_inode_def
    using assms length_inode_sect by (intro fs_inv_set_blk_other nt) auto
  show "x \<in> slots_of s \<Longrightarrow> tree (save_inode i s) x = tree s x" unfolding save_inode_def
    by (rule tree_set_blk_other [OF assms(1) _ nt])
qed

lemma save_inode_set_blk:
  "i < 64 \<Longrightarrow> 326 \<le> unat l \<Longrightarrow> save_inode i (set_blk l b s) = set_blk l b (save_inode i s)"
  unfolding save_inode_def using inode_lba [of i] by (subst set_blk_commute) auto

subsection \<open>What an operation may change\<close>

text \<open>
  \<open>tabs s\<close>: the blocks that are index tables. \<open>extends n s t\<close>: \<open>t\<close> has at most \<open>n\<close> more blocks in
  use than \<open>s\<close>, every block in use that is not a table is unchanged, and inode sizes, inode
  map and thread are the same.
\<close>

definition tabs :: "fs \<Rightarrow> u32 set" where
  "tabs s = {tree s (i, p) | i p. (i, p) \<in> slots_of s \<and> (\<forall>k. p \<noteq> Dat k)}"

definition extends :: "nat \<Rightarrow> fs \<Rightarrow> fs \<Rightarrow> bool" where
  "extends n s t \<longleftrightarrow> fs_imap t = fs_imap s \<and> (\<forall>j. i_size (fs_inodes t ! j) = i_size (fs_inodes s ! j))
     \<and> fs_tid t = fs_tid s \<and> ata_method (fs_ata t) = ata_method (fs_ata s)
     \<and> used_blocks s \<subseteq> used_blocks t \<and> card (used_blocks t) \<le> card (used_blocks s) + n
     \<and> (\<forall>b \<in> used_blocks s. b \<notin> tabs s \<longrightarrow> blk t b = blk s b)
     \<and> tabs t \<subseteq> tabs s \<union> (used_blocks t - used_blocks s)"

lemma extends_slots: "extends n s t \<Longrightarrow> slots_of t = slots_of s"
  by (simp add: extends_def slots_of_def)

lemma extends_refl [simp]: "extends n s s"
  by (simp add: extends_def)

lemma extends_trans:
  assumes "extends n s t" and "extends m t u"
  shows "extends (n + m) s u"
proof -
  have "blk u b = blk s b" if "b \<in> used_blocks s" "b \<notin> tabs s" for b
  proof -
    have "b \<in> used_blocks t" "b \<notin> tabs t" using assms(1) that by (auto simp: extends_def)
    then show ?thesis using assms that unfolding extends_def by metis
  qed
  moreover have "tabs u \<subseteq> tabs s \<union> (used_blocks u - used_blocks s)"
    using assms unfolding extends_def by blast
  ultimately show ?thesis using assms unfolding extends_def by auto
qed

lemma extends_mono: "extends n s t \<Longrightarrow> n \<le> m \<Longrightarrow> extends m s t"
  by (auto simp: extends_def)

text \<open>A data block is no table.\<close>

lemma data_not_tab:
  assumes "fs_inv s" and "(i, Dat k) \<in> slots_of s" and "tree s (i, Dat k) \<noteq> 0"
  shows "tree s (i, Dat k) \<notin> tabs s"
  using assms unfolding fs_inv_def tree_ok_def tabs_def by (auto, metis prod.inject)

lemma unhung_not_tab:
  "(\<And>x. x \<in> slots_of s \<Longrightarrow> tree s x \<noteq> l) \<Longrightarrow> l \<notin> tabs s"
  by (auto simp: tabs_def)

lemma save_inode_extends:
  assumes "fs_inv s" and "i < 64"
  shows "extends 0 s (save_inode i s)"
proof -
  have "blk (save_inode i s) b = blk s b" if "b \<in> used_blocks s" for b
    using save_inode_blk [OF assms(2)] used_block_range that assms(1) by blast
  moreover have "tabs (save_inode i s) = tabs s"
    using save_inode_inv(2) [OF assms] by (auto simp: tabs_def) metis+
  ultimately show ?thesis by (simp add: extends_def)
qed

lemma tabs_tree_cong:
  "slots_of s' = slots_of s \<Longrightarrow> (\<And>x. x \<in> slots_of s \<Longrightarrow> tree s' x = tree s x) \<Longrightarrow> tabs s' = tabs s"
  by (auto simp: tabs_def) metis+

lemma hang_blk_other:
  assumes "\<And>q n. par (snd y) = Some (q, n) \<Longrightarrow> b \<noteq> tree s (fst y, q)"
  shows "blk (hang y v s) b = blk s b"
  using assms by (cases "par (snd y)") (auto simp: hang_def split: prod.splits)

lemma par_not_data: "par p = Some (q, n) \<Longrightarrow> q \<noteq> Dat k"
  by (cases p) (auto split: if_splits)

lemma hang_blk_nontab:
  assumes "y \<in> slots_of s" and "b \<notin> tabs s"
  shows "blk (hang y v s) b = blk s b"
proof (rule hang_blk_other)
  fix q n assume q: "par (snd y) = Some (q, n)"
  then have "(fst y, q) \<in> slots_of s" using slots_parent [of "fst y" "snd y"] assms(1) by auto
  then show "b \<noteq> tree s (fst y, q)" using assms(2) par_not_data [OF q] by (auto simp: tabs_def)
qed

lemma hang_extends:
  assumes inv: "fs_inv s" and y: "y \<in> slots_of s" and up: "\<And>q n. par (snd y) = Some (q, n) \<Longrightarrow> tree s (fst y, q) \<noteq> 0"
    and leaf: "snd y = Dat k"
  shows "extends 0 s (hang y v s)"
proof -
  have "tree (hang y v s) x = tree s x" if "x \<in> slots_of s" "snd x \<noteq> Dat k" for x
    using tree_hang [OF inv y up leaf that(1)] that(2) leaf by auto
  then have "tabs (hang y v s) \<subseteq> tabs s" by (auto simp: tabs_def) (metis snd_conv)
  then show ?thesis using hang_blk_nontab [OF y] by (auto simp: extends_def)
qed

subsection \<open>Finding or making a table\<close>

lemma load_table_present:
  assumes "fs_inv s" and "y \<in> slots_of s" and "tree s y \<noteq> 0"
  shows "load_table reading (tree s y) link s = Inr (tree s y, blk s (tree s y), s)"
proof -
  have "tree s y \<in> used_blocks s" using assms unfolding fs_inv_def tree_ok_def by metis
  then have "unat (tree s y) < 268435456" using used_block_range assms(1) by blast
  then show ?thesis using assms(3) fs_rw_sector(1) [of s sect0 "tree s y"] assms(1)
    by (simp add: load_table_def)
qed

lemma load_table_write:
  assumes inv: "fs_inv s" and y: "y \<in> slots_of s" and up: "\<And>q n. par (snd y) = Some (q, n) \<Longrightarrow> tree s (fst y, q) \<noteq> 0"
    and tab: "\<And>k. snd y \<noteq> Dat k" and room: "card (used_blocks s) + 1 \<le> NBLOCKS"
    and link: "\<And>l s1. fs_inv s1 \<Longrightarrow> same_but_fmap s s1 \<Longrightarrow> unat l < 268435456 \<Longrightarrow>
      link l s1 = Inr (if save then save_inode (fst y) (hang y l s1) else hang y l s1)"
  shows "\<exists>l buf s1 t. load_table False (tree s y) link s = Inr (l, buf, s1) \<and> t = set_blk l buf s1
    \<and> ata_ready (fs_ata s1) \<and> length buf = 512 \<and> l \<noteq> 0 \<and> fs_inv t \<and> extends 1 s t \<and> tree t y = l
    \<and> (\<forall>x \<in> slots_of s. x \<noteq> y \<longrightarrow> tree t x = tree s x) \<and> (s1 = t \<or> buf = sect0)"
proof (cases "tree s y = 0")
  case False
  then show ?thesis using load_table_present [OF inv y False] inv by (intro exI conjI) auto
next
  case True
  have nf: "\<not> blocks_full s" using room blocks_full_iff [of s] inv by auto
  obtain l s1 s2 where a: "free_allocate s = Inr (l, s1)" "free_map_setup l True s1 = Inr s2" "l \<notin> used_blocks s"
    "used_blocks s2 = insert l (used_blocks s)" "map_ok s2" "same_but_fmap s s2" "unat l < 268435456" "326 \<le> unat l"
    using take_block [OF fs_invD(1) [OF inv] nf] by blast
  have l0: "l \<noteq> 0" using a(8) by auto
  note s2 = fs_inv_same_but_fmap [OF inv a(6,5)] and e = same_but_fmapD [OF a(6)]
  have inv2: "fs_inv s2" and t2: "tree s2 = tree s" and sl2: "slots_of s2 = slots_of s" using s2 a(4) by auto
  have fresh: "tree s2 z \<noteq> l" if "z \<in> slots_of s2" for z
    using that inv a(3) l0 unfolding t2 sl2 fs_inv_def tree_ok_def by metis
  have i: "fst y < 64" using inode_bound [of s "fst y"] inv y by (auto simp: slots_of_def)
  define h where "h = hang y l s2"
  define s3 where "s3 = (if save then save_inode (fst y) h else h)"
  define t0 where "t0 = set_blk l sect0 h"
  define t where "t = set_blk l sect0 s3"
  have up2: "\<And>q n. par (snd y) = Some (q, n) \<Longrightarrow> tree s2 (fst y, q) \<noteq> 0" using up t2 by simp
  have y2: "y \<in> slots_of s2" using y sl2 by simp
  have inv0: "fs_inv t0" and tree0: "\<And>x. x \<in> slots_of s \<Longrightarrow> tree t0 x = (if x = y then l else tree s x)"
    unfolding t0_def h_def
    using fs_inv_attach [OF inv2 y2 up2 _ _ fresh] tree_attach [OF inv2 y2 up2 _ fresh] True a(4) t2 sl2
    by simp_all
  have tt: "t = (if save then save_inode (fst y) t0 else t0)"
    using save_inode_set_blk [OF i a(8)] by (simp add: t_def t0_def s3_def)
  have slt: "slots_of t0 = slots_of s" using sl2 by (simp add: t0_def h_def)
  have inv_t: "fs_inv t" unfolding tt using inv0 save_inode_inv(1) [OF inv0 i] by simp
  have tree_t: "tree t x = (if x = y then l else tree s x)" if "x \<in> slots_of s" for x
    unfolding tt using save_inode_inv(2) [OF inv0 i, of x] tree0 [OF that] that slt
    by (cases save; cases "x = y") auto
  have ext0: "extends 1 s t0"
  proof -
    have b0: "blk t0 b = blk s b" if "b \<in> used_blocks s" "b \<notin> tabs s" for b
    proof -
      have "tabs s2 = tabs s" using t2 sl2 by (intro tabs_tree_cong) auto
      then have "blk h b = blk s2 b" unfolding h_def using hang_blk_nontab [OF y2] that by blast
      moreover have "b \<noteq> l" using a(3) that by auto
      ultimately show ?thesis by (simp add: t0_def e)
    qed
    have u0: "used_blocks t0 = insert l (used_blocks s)" using a(4) by (simp add: t0_def h_def)
    have "tabs t0 \<subseteq> tabs s \<union> {l}"
      using tree0 slt by (auto simp: tabs_def) (metis (full_types))
    with b0 u0 a(3) show ?thesis
      by (auto simp: extends_def t0_def h_def e card_insert_if)
  qed
  have ext: "extends 1 s t"
    unfolding tt using ext0 extends_trans [OF ext0 save_inode_extends [OF inv0 i]] by simp
  have "link l s2 = Inr s3" using link [OF inv2 a(6,7)] by (simp add: s3_def h_def)
  then have run: "load_table False (tree s y) link s = Inr (l, sect0, s3)"
    using True a(1,2) by (simp add: load_table_def)
  have r0: "ata_ready (fs_ata h)"
    using map_ok_hang [OF fs_invD(1) [OF inv2] y2] by (simp add: h_def map_ok_def)
  have "ata_ready (fs_ata s3)"
  proof -
    have "imap_ok h" unfolding h_def using inv2 y2 by (intro imap_ok_hang) auto
    then show ?thesis using r0 length_inode_sect [OF _ i] by (auto simp: s3_def save_inode_def)
  qed
  then show ?thesis
    using run inv_t ext tree_t y l0 t_def by (intro exI [of _ l] exI [of _ sect0] exI [of _ s3] exI [of _ t]) simp
qed

text \<open>Making the second table does not depend on what the block of the first one holds.\<close>

lemma free_ops_set_blk:
  "free_allocate (set_blk b x s) = bindr (free_allocate s) (\<lambda>(l, s). Inr (l, set_blk b x s))"
  "free_map_setup l v (set_blk b x s) = bindr (free_map_setup l v s) (\<lambda>s. Inr (set_blk b x s))"
  by (auto simp: free_allocate_def free_map_setup_def bindr_assoc Let_def set_blk_def
      split: prod.splits intro!: arg_cong [of _ _ "bindr _"] ext)

lemma free_ops_ready:
  "free_allocate s = Inr (l, s') \<Longrightarrow> fs_ata s' = fs_ata s"
  "free_map_setup l v s = Inr s' \<Longrightarrow> fs_ata s' = fs_ata s"
  by (auto simp: free_allocate_def free_map_setup_def bindr_eq_Inr Let_def split: if_splits)

definition link_entry :: "u32 \<Rightarrow> byte list \<Rightarrow> nat \<Rightarrow> u32 \<Rightarrow> fs \<Rightarrow> fs res" where
  "link_entry b buf j l s = bindr (fs_rw (Some (set32 buf j l)) 512 b ATA_CMD_IO_WRITE s) (\<lambda>(_, s). Inr s)"

lemma link_entry_eq:
  assumes "ata_ready (fs_ata s)" and "unat b < 268435456" and "length buf = 512" and "j < 128"
  shows "link_entry b buf j l s = Inr (set_blk b (set32 buf j l) s)"
  using fs_rw_sector(2) [OF assms(1), of "set32 buf j l" b] assms by (simp add: link_entry_def)

lemma load_table_override:
  assumes "ata_ready (fs_ata s)" and "unat b < 268435456" and "length buf = 512" and "j < 128" and "length x = 512"
  shows "load_table False 0 (link_entry b buf j) (set_blk b x s) = load_table False 0 (link_entry b buf j) s"
proof -
  have *: "link_entry b buf j l (set_blk b x s') = link_entry b buf j l s'" if "ata_ready (fs_ata s')" for l s'
    using that assms by (simp add: link_entry_eq)
  show ?thesis
  proof (cases "free_allocate s")
    case (Inr ls)
    obtain l s1 where ls: "ls = (l, s1)" by (cases ls)
    show ?thesis
    proof (cases "free_map_setup l True s1")
      case (Inr s2)
      then have "fs_ata s2 = fs_ata s" using free_ops_ready \<open>free_allocate s = Inr ls\<close> ls by metis
      then show ?thesis using Inr \<open>free_allocate s = Inr ls\<close> ls assms(1)
        by (simp add: load_table_def free_ops_set_blk *)
    qed (use \<open>free_allocate s = Inr ls\<close> ls in \<open>simp add: load_table_def free_ops_set_blk\<close>)
  qed (simp add: load_table_def free_ops_set_blk)
qed

text \<open>The last step of iblock_set: the entry goes into its table.\<close>

lemma put_entry_write:
  assumes "ata_ready (fs_ata s)" and "unat l < 268435456" and "length buf = 512" and "k < 128"
  shows "put_entry False l buf k w s = Inr (0, set_blk l (set32 buf k w) s)"
  using fs_rw_sector(2) [OF assms(1), of "set32 buf k w" l] assms by (simp add: put_entry_def)

text \<open>The result of setting the block of index \<open>k\<close>.\<close>

definition iblock_post :: "nat \<Rightarrow> nat \<Rightarrow> u32 \<Rightarrow> fs \<Rightarrow> fs \<Rightarrow> bool" where
  "iblock_post i k w s s' \<longleftrightarrow> fs_inv s' \<and> extends 2 s s'
     \<and> (\<forall>j m. (j, Dat m) \<in> slots_of s \<longrightarrow> tree s' (j, Dat m) = (if j = i \<and> m = k then w else tree s (j, Dat m)))"

lemma hang_post:
  assumes inv: "fs_inv t" and ext: "extends n s t" and n: "n \<le> 2"
    and y: "(i, Dat k) \<in> slots_of s" and up: "\<And>q m. par (Dat k) = Some (q, m) \<Longrightarrow> tree t (i, q) \<noteq> 0"
    and w: "w \<in> used_blocks s" and fresh: "\<And>x. x \<in> slots_of s \<Longrightarrow> tree s x \<noteq> w"
    and same: "\<And>x. x \<in> slots_of s \<Longrightarrow> (\<exists>m. snd x = Dat m) \<or> tree s x \<noteq> 0 \<Longrightarrow> tree t x = tree s x"
  shows "iblock_post i k w s (hang (i, Dat k) w t)"
proof -
  have sl: "slots_of t = slots_of s" using ext by (rule extends_slots)
  have fresh_t: "tree t x \<noteq> w" if "x \<in> slots_of t" for x
  proof
    assume t: "tree t x = w"
    have "w \<notin> tabs s" using fresh by (rule unhung_not_tab)
    then have "w \<notin> tabs t" using ext w by (auto simp: extends_def)
    then have "\<exists>m. snd x = Dat m" using t that by (cases x) (auto simp: tabs_def)
    then have "tree t x = tree s x" using same that sl by blast
    then show False using fresh [of x] t that sl by simp
  qed
  have y': "(i, Dat k) \<in> slots_of t" and wt: "w \<in> used_blocks t" using y sl w ext by (auto simp: extends_def)
  have up': "\<And>q m. par (snd (i, Dat k)) = Some (q, m) \<Longrightarrow> tree t (fst (i, Dat k), q) \<noteq> 0" using up by simp
  have "fs_inv (hang (i, Dat k) w t)"
    by (rule fs_inv_hang [OF inv y' up' _ wt fresh_t]) simp_all
  moreover have "extends (n + 0) s (hang (i, Dat k) w t)"
    by (rule extends_trans [OF ext hang_extends [OF inv y' up']]) simp_all
  moreover have "tree (hang (i, Dat k) w t) (j, Dat m) = (if j = i \<and> m = k then w else tree s (j, Dat m))"
    if "(j, Dat m) \<in> slots_of s" for j m
  proof -
    have "tree (hang (i, Dat k) w t) (j, Dat m) = (if (j, Dat m) = (i, Dat k) then w else tree t (j, Dat m))"
      by (rule tree_hang [OF inv y' up']) (use that sl in simp_all)
    then show ?thesis using same [OF that] by simp
  qed
  ultimately show ?thesis using n extends_mono by (auto simp: iblock_post_def)
qed

lemma iblock_post_save:
  assumes "iblock_post i k w s s'" and "i < 64"
  shows "iblock_post i k w s (save_inode i s')"
proof -
  have inv: "fs_inv s'" and ext: "extends 2 s s'" using assms(1) by (simp_all add: iblock_post_def)
  have sl: "slots_of s' = slots_of s" using ext by (rule extends_slots)
  have "extends (2 + 0) s (save_inode i s')" by (rule extends_trans [OF ext save_inode_extends [OF inv assms(2)]])
  then show ?thesis
    using assms(1) save_inode_inv [OF inv assms(2)] sl by (auto simp: iblock_post_def)
qed

lemma sint_idx: "unat (x :: u32) < 16518 \<Longrightarrow> sint x = int (unat x)"
  by (rule sint_nonneg_32) simp

lemma iblock_handle_guards:
  assumes "fs_sb s = layout" and "unat ino < 64" and "unat k < 16518" and "reading \<longleftrightarrow> w < 326"
  shows "iblock_handle ino k w reading s =
    (if unat k < 6 then
       if reading then bindr (iblocks_get ino (int (unat k)) s) (\<lambda>v. Inr (v, s))
       else bindr (iblocks_put ino (int (unat k)) w s) (\<lambda>s. bindr (inodes_rw_disk ino ATA_CMD_IO_WRITE s) (\<lambda>s. Inr (0, s)))
     else if unat k < 134 then
       bindr (iblocks_get ino 6 s) (\<lambda>level1.
       bindr (load_table reading level1 (\<lambda>l s. bindr (iblocks_put ino 6 l s) (inodes_rw_disk ino ATA_CMD_IO_WRITE)) s)
         (\<lambda>(level1, buf, s). put_entry reading level1 buf (unat k - 6) w s))
     else
       bindr (iblocks_get ino 7 s) (\<lambda>level2.
       bindr (load_table reading level2 (\<lambda>l s. bindr (iblocks_put ino 7 l s) (inodes_rw_disk ino ATA_CMD_IO_WRITE)) s)
         (\<lambda>(level2, buf, s).
       bindr (load_table reading (get32 buf ((unat k - 134) div 128)) (link_entry level2 buf ((unat k - 134) div 128)) s)
         (\<lambda>(level1, buf, s). put_entry reading level1 buf ((unat k - 134) mod 128) w s))))"
proof -
  have s: "sint ino = int (unat ino)" "sint k = int (unat k)"
    by (rule sint_nonneg_32, use assms in simp)+
  have g: "ino \<noteq> INVALID_INDEX" "\<not> sint ino \<ge> int MAX_INODES" "k \<noteq> INVALID_INDEX" "\<not> k \<ge> 16518"
  proof -
    have "sint ino < 64" unfolding s(1) using assms(2) by linarith
    then show "\<not> sint ino \<ge> int MAX_INODES" by (simp add: MAX_INODES_def)
  qed (use assms(2,3) in \<open>auto simp: word_le_nat_alt\<close>)
  have lt: "(sint k < 6) = (unat k < 6)" "(sint k < 134) = (unat k < 134)" "sint k < 16518"
    unfolding s(2) using assms(3) by linarith+
  have c: "\<not> (ino = INVALID_INDEX \<or> sint ino \<ge> int MAX_INODES)"
    "\<not> (k = INVALID_INDEX \<or> k \<ge> inode_block_index_max (fs_sb s))"
    "\<not> (w < lba_free (fs_sb s) \<and> \<not> reading)" "\<not> (w \<ge> lba_free (fs_sb s) \<and> reading)"
    using g assms(1,4) by (simp_all add: not_le)
  have n: "nat (sint k) = unat k" unfolding s by (rule nat_int)
  show ?thesis
    unfolding iblock_handle_def Let_def c [THEN if_not_P] n lt(1,2) if_P [OF lt(3)] link_entry_def [abs_def]
    unfolding s ..
qed

lemma child_nonzero: "(i, p) \<in> slots_of s \<Longrightarrow> par p = Some (q, n) \<Longrightarrow> tree s (i, p) \<noteq> 0 \<Longrightarrow> tree s (i, q) \<noteq> 0"
  by (auto simp: tree_par split: if_splits)

text \<open>Setting an entry.\<close>

lemma iblock_set_direct:
  assumes inv: "fs_inv s" and i: "unat ino \<in> bm_bits (fs_imap s)" and k: "unat k < 6"
    and w: "w \<in> used_blocks s" and fresh: "\<And>x. x \<in> slots_of s \<Longrightarrow> tree s x \<noteq> w"
  shows "\<exists>s'. iblock_set ino k w s = Inr s' \<and> iblock_post (unat ino) (unat k) w s s'"
proof -
  have i64: "unat ino < 64" using inode_bound inv i by blast
  have ge: "\<not> w < 326" using used_block_range [OF _ w] inv by (auto simp: word_less_nat_alt)
  have y: "(unat ino, Dat (unat k)) \<in> slots_of s" using i k by (simp add: slots_of_def)
  let ?h = "hang (unat ino, Dat (unat k)) w s"
  have h: "?h = put_root (unat ino) (unat k) w s" using k by (simp add: hang_def)
  have "iblocks_put ino (int (unat k)) w s = Inr ?h" unfolding h using inv i64 k by (intro iblocks_put_eq) auto
  moreover have post: "iblock_post (unat ino) (unat k) w s ?h"
    by (rule hang_post [OF inv extends_refl [of 0] _ y _ w fresh]) (use k in auto)
  then have "fs_inv ?h" by (simp add: iblock_post_def)
  then have "inodes_rw_disk ino ATA_CMD_IO_WRITE ?h = Inr (save_inode (unat ino) ?h)"
    using i64 by (intro inodes_write_eq) auto
  ultimately have "iblock_set ino k w s = Inr (save_inode (unat ino) ?h)"
    using iblock_handle_guards [of s ino k False w] inv i64 k ge by (simp add: iblock_set_def)
  then show ?thesis using iblock_post_save [OF post i64] by blast
qed

lemma iblock_set_level1:
  assumes inv: "fs_inv s" and i: "unat ino \<in> bm_bits (fs_imap s)" and k: "6 \<le> unat k" "unat k < 134"
    and w: "w \<in> used_blocks s" and fresh: "\<And>x. x \<in> slots_of s \<Longrightarrow> tree s x \<noteq> w"
    and room: "card (used_blocks s) + 2 \<le> NBLOCKS"
  shows "\<exists>s'. iblock_set ino k w s = Inr s' \<and> iblock_post (unat ino) (unat k) w s s'"
proof -
  let ?i = "unat ino"
  have i64: "?i < 64" using inode_bound inv i by blast
  have ge: "\<not> w < 326" using used_block_range [OF _ w] inv by (auto simp: word_less_nat_alt)
  have y: "(?i, Tab1) \<in> slots_of s" "(?i, Dat (unat k)) \<in> slots_of s" using i k by (simp_all add: slots_of_def)
  let ?link = "\<lambda>l s. bindr (iblocks_put ino 6 l s) (inodes_rw_disk ino ATA_CMD_IO_WRITE)"
  have link: "?link l s1 = Inr (save_inode ?i (hang (?i, Tab1) l s1))"
    if "fs_inv s1" "same_but_fmap s s1" for l s1
  proof -
    have "slots_of s1 = slots_of s" using same_but_fmapD [OF that(2)] by (simp add: slots_of_def)
    then have "map_ok (hang (?i, Tab1) l s1)" "imap_ok (hang (?i, Tab1) l s1)" using that(1) y by auto
    moreover have "iblocks_put ino (int 6) l s1 = Inr (hang (?i, Tab1) l s1)"
      using that(1) i64 by (subst iblocks_put_eq) (auto simp: hang_def)
    ultimately show ?thesis using inodes_write_eq i64 by simp
  qed
  obtain l buf s1 t where t: "load_table False (tree s (?i, Tab1)) ?link s = Inr (l, buf, s1)" "t = set_blk l buf s1"
    "ata_ready (fs_ata s1)" "length buf = 512" "l \<noteq> 0" "fs_inv t" "extends 1 s t" "tree t (?i, Tab1) = l"
    "\<forall>x \<in> slots_of s. x \<noteq> (?i, Tab1) \<longrightarrow> tree t x = tree s x"
    using load_table_write [OF inv y(1), of ?link True] link room by auto
  have lu: "l \<in> used_blocks t" using t(5,6,8) y extends_slots [OF t(7)] unfolding fs_inv_def tree_ok_def by metis
  then have l28: "unat l < 268435456" using used_block_range t(6) by blast
  have p: "par (Dat (unat k)) = Some (Tab1, unat k - 6)" using k by simp
  let ?h = "hang (?i, Dat (unat k)) w t"
  have h: "?h = set_blk l (set32 buf (unat k - 6) w) s1" using p t(2,8) by (simp add: hang_def)
  have get: "iblocks_get ino 6 s = Inr (tree s (?i, Tab1))"
    using iblocks_get_eq [of s ino 6] inv i64 by (auto simp: tree_root)
  have "iblock_set ino k w s = Inr ?h"
    using iblock_handle_guards [of s ino k False w] inv i64 k ge get t(1) put_entry_write [OF t(3) l28 t(4)]
    by (simp add: iblock_set_def h)
  moreover have "iblock_post ?i (unat k) w s ?h"
  proof (rule hang_post [OF t(6,7) _ y(2) _ w fresh])
    fix x assume x: "x \<in> slots_of s" "(\<exists>m. snd x = Dat m) \<or> tree s x \<noteq> 0"
    show "tree t x = tree s x"
    proof (cases "x = (?i, Tab1)")
      case True
      then have "tree s (?i, Tab1) \<noteq> 0" using x by simp
      then have "l = tree s (?i, Tab1)" using t(1) load_table_present [OF inv y(1)] by auto
      then show ?thesis using True t(8) by simp
    qed (use x t(9) in blast)
  qed (use p t(5,8) in auto)
  ultimately show ?thesis by blast
qed

lemma iblock_set_level2:
  assumes inv: "fs_inv s" and i: "unat ino \<in> bm_bits (fs_imap s)" and k: "134 \<le> unat k" "unat k < 16518"
    and w: "w \<in> used_blocks s" and fresh: "\<And>x. x \<in> slots_of s \<Longrightarrow> tree s x \<noteq> w"
    and room: "card (used_blocks s) + 2 \<le> NBLOCKS"
  shows "\<exists>s'. iblock_set ino k w s = Inr s' \<and> iblock_post (unat ino) (unat k) w s s'"
proof -
  let ?i = "unat ino" and ?j = "(unat k - 134) div 128"
  have i64: "?i < 64" using inode_bound inv i by blast
  have j: "?j < 128" using k by auto
  have ge: "\<not> w < 326" using used_block_range [OF _ w] inv by (auto simp: word_less_nat_alt)
  have y: "(?i, Tab2) \<in> slots_of s" "(?i, Sub ?j) \<in> slots_of s" "(?i, Dat (unat k)) \<in> slots_of s"
    using i k j by (simp_all add: slots_of_def)
  let ?link = "\<lambda>l s. bindr (iblocks_put ino 7 l s) (inodes_rw_disk ino ATA_CMD_IO_WRITE)"
  have link: "?link l s1 = Inr (save_inode ?i (hang (?i, Tab2) l s1))"
    if "fs_inv s1" "same_but_fmap s s1" for l s1
  proof -
    have "slots_of s1 = slots_of s" using same_but_fmapD [OF that(2)] by (simp add: slots_of_def)
    then have "map_ok (hang (?i, Tab2) l s1)" "imap_ok (hang (?i, Tab2) l s1)" using that(1) y by auto
    moreover have "iblocks_put ino (int 7) l s1 = Inr (hang (?i, Tab2) l s1)"
      using that(1) i64 by (subst iblocks_put_eq) (auto simp: hang_def)
    ultimately show ?thesis using inodes_write_eq i64 by simp
  qed
  obtain l2 buf s1 t where t: "load_table False (tree s (?i, Tab2)) ?link s = Inr (l2, buf, s1)" "t = set_blk l2 buf s1"
    "ata_ready (fs_ata s1)" "length buf = 512" "l2 \<noteq> 0" "fs_inv t" "extends 1 s t" "tree t (?i, Tab2) = l2"
    "\<forall>x \<in> slots_of s. x \<noteq> (?i, Tab2) \<longrightarrow> tree t x = tree s x" "s1 = t \<or> buf = sect0"
    using load_table_write [OF inv y(1), of ?link True] link room by auto
  note slt = extends_slots [OF t(7)]
  have "l2 \<in> used_blocks t" using t(5,6,8) y slt unfolding fs_inv_def tree_ok_def by metis
  then have l28: "unat l2 < 268435456" using used_block_range t(6) by blast
  have pj: "par (Sub ?j) = Some (Tab2, ?j)" by simp
  have yt: "(?i, Sub ?j) \<in> slots_of t" using y(2) slt by simp
  have bt: "blk t l2 = buf" using t(2) by simp
  have sub: "get32 buf ?j = tree t (?i, Sub ?j)" using t(5,8) bt by (simp add: tree_par)
  have over: "load_table False (get32 buf ?j) (link_entry l2 buf ?j) s1 = load_table False (get32 buf ?j) (link_entry l2 buf ?j) t"
  proof (cases "s1 = t")
    case False
    then have "get32 buf ?j = 0" using t(10) j by (simp add: sect0_def)
    then show ?thesis using load_table_override [OF t(3) l28 t(4) j t(4)] t(2) by simp
  qed simp
  have link2: "link_entry l2 buf ?j l s' = Inr (hang (?i, Sub ?j) l s')" if "fs_inv s'" "same_but_fmap t s'" for l s'
  proof -
    have e: "fs_ata s' = fs_ata t" "fs_inodes s' = fs_inodes t" using same_but_fmapD [OF that(2)] by auto
    then have "tree s' (?i, Tab2) = l2" using t(8) by (simp add: tree_def)
    moreover have "ata_ready (fs_ata s')" using that(1) by simp
    ultimately show ?thesis using link_entry_eq [of s' l2 buf ?j l] l28 t(4) j bt e by (simp add: hang_def)
  qed
  have room': "card (used_blocks t) + 1 \<le> NBLOCKS" using room t(7) by (simp add: extends_def)
  obtain l1 buf1 s2 u where u: "load_table False (tree t (?i, Sub ?j)) (link_entry l2 buf ?j) t = Inr (l1, buf1, s2)"
    "u = set_blk l1 buf1 s2" "ata_ready (fs_ata s2)" "length buf1 = 512" "l1 \<noteq> 0" "fs_inv u" "extends 1 t u"
    "tree u (?i, Sub ?j) = l1" "\<forall>x \<in> slots_of t. x \<noteq> (?i, Sub ?j) \<longrightarrow> tree u x = tree t x"
    using load_table_write [OF t(6) yt, of "link_entry l2 buf ?j" False] link2 t(5,8) room' by auto
  have "l1 \<in> used_blocks u" using u(5,6,8) yt extends_slots [OF u(7)] unfolding fs_inv_def tree_ok_def by metis
  then have l28': "unat l1 < 268435456" using used_block_range u(6) by blast
  have p: "par (Dat (unat k)) = Some (Sub ?j, (unat k - 134) mod 128)" using k by simp
  let ?h = "hang (?i, Dat (unat k)) w u"
  have h: "?h = set_blk l1 (set32 buf1 ((unat k - 134) mod 128) w) s2" using p u(2,8) by (simp add: hang_def)
  have get: "iblocks_get ino 7 s = Inr (tree s (?i, Tab2))"
    using iblocks_get_eq [of s ino 7] inv i64 by (auto simp: tree_root)
  have "iblock_set ino k w s = Inr ?h"
    using iblock_handle_guards [of s ino k False w] inv i64 k ge get t(1) u(1) over sub
      put_entry_write [OF u(3) l28' u(4)]
    by (simp add: iblock_set_def h)
  moreover have "iblock_post ?i (unat k) w s ?h"
  proof (rule hang_post [OF u(6) extends_trans [OF t(7) u(7)] _ y(3) _ w fresh])
    fix x assume x: "x \<in> slots_of s" "(\<exists>m. snd x = Dat m) \<or> tree s x \<noteq> 0"
    have ts: "tree t x = tree s x"
    proof (cases "x = (?i, Tab2)")
      case True
      then have "l2 = tree s (?i, Tab2)" using t(1) x load_table_present [OF inv y(1)] by auto
      then show ?thesis using True t(8) by simp
    qed (use x t(9) in blast)
    show "tree u x = tree s x"
    proof (cases "x = (?i, Sub ?j)")
      case True
      then have nz: "tree t (?i, Sub ?j) \<noteq> 0" using x ts by auto
      then have "l1 = tree t (?i, Sub ?j)" using u(1) load_table_present [OF t(6) yt nz] by auto
      then show ?thesis using True u(8) ts by simp
    qed (use x ts u(9) slt in auto)
  qed (use p u(5,8) in auto)
  ultimately show ?thesis by blast
qed

lemma iblock_set_ok:
  assumes "fs_inv s" and "unat ino \<in> bm_bits (fs_imap s)" and "unat k < 16518"
    and "w \<in> used_blocks s" and "\<And>x. x \<in> slots_of s \<Longrightarrow> tree s x \<noteq> w" and "card (used_blocks s) + 2 \<le> NBLOCKS"
  shows "\<exists>s'. iblock_set ino k w s = Inr s' \<and> iblock_post (unat ino) (unat k) w s s'"
proof -
  consider "unat k < 6" | "6 \<le> unat k" "unat k < 134" | "134 \<le> unat k" by linarith
  then show ?thesis
    using assms iblock_set_direct iblock_set_level1 iblock_set_level2 by cases blast+
qed

text \<open>Reading an entry.\<close>

lemma load_table_read:
  assumes "fs_inv s" and "y \<in> slots_of s" and "\<And>k. snd y \<noteq> Dat k"
  shows "\<exists>buf. (\<forall>link. load_table True (tree s y) link s = Inr (tree s y, buf, s))
    \<and> (\<forall>n < 128. get32 buf n = (if tree s y = 0 then 0 else get32 (blk s (tree s y)) n))"
  using load_table_present [OF assms(1,2)]
  by (cases "tree s y = 0") (auto simp: load_table_def sect0_def)

lemma iblock_get_ok:
  assumes inv: "fs_inv s" and i: "unat ino \<in> bm_bits (fs_imap s)" and k: "unat k < 16518"
  shows "iblock_get ino k s = Inr (tree s (unat ino, Dat (unat k)), s)"
proof -
  let ?i = "unat ino" and ?j = "(unat k - 134) div 128"
  have i64: "?i < 64" using inode_bound inv i by blast
  note g = iblock_handle_guards [of s ino k True 0]
  have gets: "iblocks_get ino (int r) s = Inr (iblocks (fs_inodes s ! ?i) ! r)" if "r < 8" for r
    using that inv i64 by (intro iblocks_get_eq) auto
  consider "unat k < 6" | "6 \<le> unat k" "unat k < 134" | "134 \<le> unat k" by linarith
  then show ?thesis
  proof cases
    case 1
    then show ?thesis using g inv i64 k gets [of "unat k"] by (simp add: iblock_get_def tree_root)
  next
    case 2
    have y: "(?i, Tab1) \<in> slots_of s" using i by (simp add: slots_of_def)
    have p: "par (Dat (unat k)) = Some (Tab1, unat k - 6)" using 2 by simp
    have get: "iblocks_get ino 6 s = Inr (tree s (?i, Tab1))" using gets [of 6] by (simp add: tree_root)
    have "unat k - 6 < 128" using 2 by simp
    moreover obtain buf where "\<And>link. load_table True (tree s (?i, Tab1)) link s = Inr (tree s (?i, Tab1), buf, s)"
      "\<forall>n < 128. get32 buf n = (if tree s (?i, Tab1) = 0 then 0 else get32 (blk s (tree s (?i, Tab1))) n)"
      using load_table_read [OF inv y] by auto
    ultimately show ?thesis
      using g inv i64 k 2 get by (simp add: iblock_get_def put_entry_def tree_par [OF p])
  next
    case 3
    have j: "?j < 128" "(unat k - 134) mod 128 < 128" using 3 k by auto
    have y: "(?i, Tab2) \<in> slots_of s" "(?i, Sub ?j) \<in> slots_of s" using i j by (simp_all add: slots_of_def)
    have p: "par (Dat (unat k)) = Some (Sub ?j, (unat k - 134) mod 128)" using 3 by simp
    have get: "iblocks_get ino 7 s = Inr (tree s (?i, Tab2))" using gets [of 7] by (simp add: tree_root)
    obtain buf where b: "\<And>link. load_table True (tree s (?i, Tab2)) link s = Inr (tree s (?i, Tab2), buf, s)"
      "get32 buf ?j = tree s (?i, Sub ?j)"
    proof (cases "tree s (?i, Tab2) = 0")
      case True
      then show ?thesis using that [of sect0] j by (simp add: load_table_def sect0_def tree_par)
    next
      case False
      then show ?thesis using that load_table_present [OF inv y(1) False] by (simp add: tree_par)
    qed
    have k6: "\<not> unat k < 6" "\<not> unat k < 134" using 3 by simp_all
    obtain buf1 where "\<And>link. load_table True (tree s (?i, Sub ?j)) link s = Inr (tree s (?i, Sub ?j), buf1, s)"
      "\<forall>n < 128. get32 buf1 n = (if tree s (?i, Sub ?j) = 0 then 0 else get32 (blk s (tree s (?i, Sub ?j))) n)"
      using load_table_read [OF inv y(2)] by auto
    then show ?thesis
      using g inv i64 k k6 get b j by (simp add: iblock_get_def put_entry_def tree_par [OF p])
  qed
qed

subsection \<open>Loading the inodes\<close>

text \<open>\<open>synced s\<close>: what is in memory is on the disk.\<close>

definition synced :: "fs \<Rightarrow> bool" where
  "synced s \<longleftrightarrow> blk s 2 = bm_buff (fs_imap s)
     \<and> (\<forall>i \<in> bm_bits (fs_imap s). blk s (3 + word_of_nat i) = inode_sect (fs_inodes s ! i))"

lemma dec_inode_sect: "length (iblocks i) = 8 \<Longrightarrow> dec_inode (inode_sect i) = i"
  unfolding inode_sect_def by (intro dec_enc_inode) (simp add: MAX_INODE_BLOCKS_def)

lemma load_loop_eq:
  "ata_ready (fs_ata s) \<Longrightarrow> fs_sb s = layout \<Longrightarrow> bm_wf (fs_imap s) \<Longrightarrow> bm_cap (fs_imap s) = 64 \<Longrightarrow>
   length (fs_inodes s) = 64 \<Longrightarrow> i + n \<le> 64 \<Longrightarrow>
   \<exists>xs. load_loop i n ATA_CMD_IO_READ s = Inr (s\<lparr>fs_inodes := xs\<rparr>) \<and> length xs = 64
     \<and> (\<forall>j < 64. xs ! j = (if i \<le> j \<and> j < i + n \<and> j \<in> bm_bits (fs_imap s)
          then dec_inode (blk s (3 + word_of_nat j)) else fs_inodes s ! j))"
proof (induction n arbitrary: i s)
  case 0
  then show ?case by (intro exI [of _ "fs_inodes s"]) auto
next
  case (Suc n)
  have u: "unat (word_of_nat i :: u32) = i" using Suc.prems(6) by (intro unat_word_of_nat_32) simp
  have b: "unat (word_of_nat i :: u32) < bm_cap (fs_imap s)" using Suc.prems(4,6) u by simp
  obtain v where v: "bitmap_test (Some (fs_imap s)) (word_of_nat i) = Inr v" "v \<noteq> 0 \<longleftrightarrow> i \<in> bm_bits (fs_imap s)"
    using bitmap_test_bits [OF Suc.prems(3) b] u by auto
  define s1 where "s1 = (if v \<noteq> 0 then s\<lparr>fs_inodes := (fs_inodes s)[i := dec_inode (blk s (3 + word_of_nat i))]\<rparr> else s)"
  have si: "sint (word_of_nat i :: u32) = int i" using Suc.prems(6) u by (subst sint_nonneg_32) auto
  have nz: "(word_of_nat i :: u32) \<noteq> INVALID_INDEX" using Suc.prems(6) u by auto
  have l: "unat (3 + word_of_nat i :: u32) < 268435456" using inode_lba [of i] Suc.prems(6) by simp
  have "inodes_rw_disk (word_of_nat i) ATA_CMD_IO_READ s = Inr s1" if "v \<noteq> 0"
    using that v Suc.prems nz fs_rw_sector(1) [OF Suc.prems(1), of sect0 "3 + word_of_nat i"] l
    by (simp add: inodes_rw_disk_def s1_def si)
  then have step: "load_loop i (Suc n) ATA_CMD_IO_READ s = load_loop (Suc i) n ATA_CMD_IO_READ s1"
    using v by (simp add: s1_def)
  have p: "ata_ready (fs_ata s1)" "fs_sb s1 = layout" "fs_imap s1 = fs_imap s" "length (fs_inodes s1) = 64" "blk s1 = blk s"
    using Suc.prems by (simp_all add: s1_def)
  obtain xs where xs: "load_loop (Suc i) n ATA_CMD_IO_READ s1 = Inr (s1\<lparr>fs_inodes := xs\<rparr>)" "length xs = 64"
    "\<forall>j < 64. xs ! j = (if Suc i \<le> j \<and> j < Suc i + n \<and> j \<in> bm_bits (fs_imap s1)
          then dec_inode (blk s1 (3 + word_of_nat j)) else fs_inodes s1 ! j)"
    using Suc.IH [OF p(1,2) _ _ p(4), of "Suc i"] Suc.prems p(3) by auto
  have "s1\<lparr>fs_inodes := xs\<rparr> = s\<lparr>fs_inodes := xs\<rparr>" by (simp add: s1_def)
  moreover have "xs ! j = (if i \<le> j \<and> j < i + Suc n \<and> j \<in> bm_bits (fs_imap s)
          then dec_inode (blk s (3 + word_of_nat j)) else fs_inodes s ! j)" if "j < 64" for j
  proof (cases "j = i")
    case True
    then show ?thesis using xs(3) that v(2) Suc.prems(5) by (simp add: s1_def)
  next
    case False
    then have "fs_inodes s1 ! j = fs_inodes s ! j" by (simp add: s1_def)
    moreover have "(Suc i \<le> j \<and> j < Suc i + n) = (i \<le> j \<and> j < i + Suc n)" using False by auto
    ultimately show ?thesis using xs(3) that p(3,5) False by simp
  qed
  ultimately show ?case using xs(1,2) step by auto
qed

lemma bm_bits_cong: "len_inbits m = len_inbits m' \<Longrightarrow> bm_buff m = bm_buff m' \<Longrightarrow> bm_bits m = bm_bits m'"
  by (simp add: bm_bits_def bm_cap_def bm_bit_def)

text \<open>C31: Inodes survive a restart. When the inode map and every allocated inode have been written to
  the disk, setting up the inodes from an old disk, whatever inodes and map were in memory,
  brings back the same map and every allocated inode with its size and its eight index entries;
  the entries of free inodes are cleared, and the disk is not changed.\<close>
theorem inodes_restored:
  assumes "map_ok s" and "imap_ok s" and "synced s"
    and "s' = s\<lparr>fs_inodes := junk, fs_imap := junk'\<rparr>"
  shows "\<exists>s''. setup_inode False s' = Inr s'' \<and> bm_bits (fs_imap s'') = bm_bits (fs_imap s) \<and> blk s'' = blk s
    \<and> (\<forall>i < 64. fs_inodes s'' ! i = (if i \<in> bm_bits (fs_imap s) then fs_inodes s ! i else inode0))"
proof -
  have r: "ata_ready (fs_ata s)" "ata_ready (fs_ata s')" "blk s' = blk s" "fs_sb s' = layout"
    using assms(1,4) by (simp_all add: map_ok_def)
  have im: "bm_wf (fs_imap s)" "bm_cap (fs_imap s) = 64" "length (bm_buff (fs_imap s)) = 512"
    "\<forall>i < 64. length (iblocks (fs_inodes s ! i)) = 8"
    using assms(2) by (simp_all add: imap_ok_def)
  have n: "len_inbits (fs_imap s) = 64" using im(2) by (simp add: bm_cap_def word_unat_eq_iff)
  define m where "m = \<lparr>len_inbits = 64, bm_buff = bm_buff (fs_imap s), prev_free = 0\<rparr>"
  have m: "bm_wf m" "bm_cap m = 64" "bm_bits m = bm_bits (fs_imap s)"
    using im(3) n by (simp_all add: m_def bm_wf_def bm_cap_def bm_bits_def bm_bit_def)
  let ?t = "s'\<lparr>fs_inodes := replicate 64 inode0, fs_imap := m\<rparr>"
  have init: "bitmap_init (Some junk') 64 (Some (replicate 512 0)) =
      Inr (junk'\<lparr>len_inbits := 64, bm_buff := replicate 512 0, prev_free := 0\<rparr>)"
    by (simp add: bitmap_init_def bzero_prefix flip: replicate_add)
  have rd: "fs_rw (Some (replicate 512 0)) 512 2 ATA_CMD_IO_READ (s'\<lparr>fs_inodes := replicate 64 inode0\<rparr>) =
      Inr (bm_buff (fs_imap s), s'\<lparr>fs_inodes := replicate 64 inode0\<rparr>)"
    using fs_rw_sector(1) [of "s'\<lparr>fs_inodes := replicate 64 inode0\<rparr>" "replicate 512 0" 2] r assms(3)
    by (simp add: synced_def)
  have "fs_imap s' = junk'" using assms(4) by simp
  moreover have "junk'\<lparr>len_inbits := 64, prev_free := 0, bm_buff := bm_buff (fs_imap s)\<rparr> = m"
    by (cases junk') (simp add: m_def)
  ultimately have run: "setup_inode False s' = load_loop 0 64 ATA_CMD_IO_READ ?t"
    using init rd by (simp add: setup_inode_def MAX_INODES_def FS_LAYOUT_BASE_MAP_INODES_def Let_def)
  obtain xs where xs: "load_loop 0 64 ATA_CMD_IO_READ ?t = Inr (?t\<lparr>fs_inodes := xs\<rparr>)"
    "\<forall>j < 64. xs ! j = (if j \<in> bm_bits m then dec_inode (blk s (3 + word_of_nat j)) else replicate 64 inode0 ! j)"
    using load_loop_eq [of ?t 0 64] r m by auto
  have "xs ! i = (if i \<in> bm_bits (fs_imap s) then fs_inodes s ! i else inode0)" if "i < 64" for i
    using xs(2) that assms(3) im(4) m(3) by (simp add: synced_def dec_inode_sect)
  then show ?thesis using run xs(1) m r by auto
qed

text \<open>A formatted file system with the root inode and one block in use.\<close>

definition fs_sample :: fs where
  "fs_sample = \<lparr>fs_tid = 0,
     fs_ata = (ata_sample ATA_METHOD_POLLING)\<lparr>ata_drive := (\<lambda>_. sect0)
       (2 := 1 # replicate 511 0, 3 := inode_sect inode0)\<rparr>,
     fs_sb = layout, fs_imap = \<lparr>len_inbits = 64, bm_buff = 1 # replicate 511 0, prev_free = 0\<rparr>,
     fs_inodes = replicate 64 inode0,
     fs_fmap = \<lparr>len_inbits = 1060864, bm_buff = 1 # replicate 132607 0, prev_free = 0\<rparr>\<rparr>"

lemma one_bit: "i < 8 * Suc n \<Longrightarrow> bit ((1 # replicate n 0 :: byte list) ! (i div 8)) (i mod 8) \<longleftrightarrow> i = 0"
proof (cases "i div 8")
  case 0
  then have "i < 8" by (simp add: div_eq_0_iff)
  then show ?thesis by (simp add: bit_1_iff)
next
  case (Suc j)
  moreover assume "i < 8 * Suc n"
  ultimately have "j < n" "i \<noteq> 0" by auto
  then show ?thesis using Suc by simp
qed

lemma fs_sample_bits: "bm_bits (fs_imap fs_sample) = {0}" "bm_bits (fs_fmap fs_sample) = {0}"
  using one_bit [of _ 511] one_bit [of _ 132607]
  by (auto simp: fs_sample_def bm_bits_def bm_cap_def bm_bit_def)

lemma fs_sample_used: "used_blocks fs_sample = {326}"
  by (simp add: used_blocks_def fs_sample_bits lba_of_def)

lemma fs_sample_maps: "map_ok fs_sample" "imap_ok fs_sample"
proof -
  have "length (inode_sect inode0) = 512"
    by (simp add: inode_sect_def length_enc_inode inode0_def MAX_INODE_BLOCKS_def)
  then show "map_ok fs_sample"
    by (simp add: fs_sample_def map_ok_def bm_wf_def bm_cap_def NBLOCKS_def FMAP_BYTES_def ata_ready_def ata_sample_def
      drive_ok_def)
  show "imap_ok fs_sample"
    by (simp add: fs_sample_def imap_ok_def bm_wf_def bm_cap_def inode0_def MAX_INODE_BLOCKS_def)
qed

lemma fs_sample_tree: "x \<in> slots_of fs_sample \<Longrightarrow> tree fs_sample x = 0"
proof -
  have "i = 0 \<Longrightarrow> tree fs_sample (i, p) = 0" for i p
  proof (induction p rule: pos_induct)
    case (root p)
    then show ?case using root_bound [of p]
      by (simp add: tree_root fs_sample_def inode0_def MAX_INODE_BLOCKS_def)
  qed (simp add: tree_par)
  then show "x \<in> slots_of fs_sample \<Longrightarrow> tree fs_sample x = 0"
    by (cases x) (simp add: slots_of_def fs_sample_bits)
qed

lemma fs_sample_inv: "fs_inv fs_sample"
  using fs_sample_maps fs_sample_tree by (simp add: fs_inv_def tree_ok_def)

theorem inodes_restored_witness:
  "\<exists>s''. setup_inode False (fs_sample\<lparr>fs_inodes := [], fs_imap := fs_fmap fs_sample\<rparr>) = Inr s''
     \<and> fs_inodes s'' ! 0 = inode0 \<and> bm_bits (fs_imap s'') = {0}"
proof -
  have "synced fs_sample" using fs_sample_bits by (simp add: synced_def) (simp add: fs_sample_def)
  from inodes_restored [OF fs_sample_maps this refl, where junk = "[]" and junk' = "fs_fmap fs_sample"]
  obtain s'' where s: "setup_inode False (fs_sample\<lparr>fs_inodes := [], fs_imap := fs_fmap fs_sample\<rparr>) = Inr s''"
    "bm_bits (fs_imap s'') = {0}" "fs_inodes s'' ! 0 = fs_inodes fs_sample ! 0"
    unfolding fs_sample_bits by force
  then show ?thesis by (simp add: fs_sample_def)
qed

text \<open>C11: The index of a file is a map from block numbers to blocks. For every allocated inode and every
  block number below 6 + 128 + 128 * 128, iblock_set succeeds while two blocks are free (it
  makes the missing tables of one or two levels), keeps the invariant (every block of every file is
  marked in use and hangs at one place only) and uses at most two more blocks; afterwards
  iblock_get returns the new block for that number and what it returned before for every other
  number of every allocated inode, and no block that was in use, the tables aside, has changed.\<close>
theorem iblock_set_get:
  assumes "fs_inv s" and "unat ino \<in> bm_bits (fs_imap s)" and "unat k < 16518"
    and "lba \<in> used_blocks s" and "\<And>x. x \<in> slots_of s \<Longrightarrow> tree s x \<noteq> lba" and "card (used_blocks s) + 2 \<le> NBLOCKS"
  shows "\<exists>s'. iblock_set ino k lba s = Inr s' \<and> fs_inv s' \<and> card (used_blocks s') \<le> card (used_blocks s) + 2
    \<and> (\<forall>ino' k'. unat ino' \<in> bm_bits (fs_imap s) \<longrightarrow> unat k' < 16518 \<longrightarrow>
        iblock_get ino' k' s' = Inr (if ino' = ino \<and> k' = k then lba else tree s (unat ino', Dat (unat k')), s')
        \<and> iblock_get ino' k' s = Inr (tree s (unat ino', Dat (unat k')), s))
    \<and> (\<forall>b \<in> used_blocks s. b \<notin> tabs s \<longrightarrow> blk s' b = blk s b)"
proof -
  obtain s' where run: "iblock_set ino k lba s = Inr s'" and post: "iblock_post (unat ino) (unat k) lba s s'"
    using iblock_set_ok [OF assms] by blast
  have p: "fs_inv s'" "extends 2 s s'" using post by (simp_all add: iblock_post_def)
  have "iblock_get ino' k' s' = Inr (if ino' = ino \<and> k' = k then lba else tree s (unat ino', Dat (unat k')), s')"
    if "unat ino' \<in> bm_bits (fs_imap s)" "unat k' < 16518" for ino' k'
  proof -
    have "unat ino' \<in> bm_bits (fs_imap s')" using that p(2) by (simp add: extends_def)
    from iblock_get_ok [OF p(1) this that(2)] show ?thesis
      using post that by (simp add: iblock_post_def slots_of_def word_unat_eq_iff)
  qed
  moreover have "card (used_blocks s') \<le> card (used_blocks s) + 2" "\<forall>b \<in> used_blocks s. b \<notin> tabs s \<longrightarrow> blk s' b = blk s b"
    using p(2) by (simp_all add: extends_def)
  ultimately show ?thesis using run p(1) iblock_get_ok [OF assms(1)] by blast
qed

theorem iblock_set_get_witness:
  "\<exists>s'. iblock_set 0 2000 326 fs_sample = Inr s' \<and> iblock_get 0 2000 s' = Inr (326, s')
     \<and> iblock_get 0 2001 s' = Inr (0, s')"
proof -
  have h: "unat (0 :: u32) \<in> bm_bits (fs_imap fs_sample)" "(326 :: u32) \<in> used_blocks fs_sample"
    "card (used_blocks fs_sample) + 2 \<le> NBLOCKS"
    by (simp_all add: fs_sample_bits fs_sample_used NBLOCKS_def)
  have "\<exists>s'. iblock_set 0 2000 326 fs_sample = Inr s' \<and> (\<forall>ino' k'. unat ino' \<in> bm_bits (fs_imap fs_sample) \<longrightarrow> unat k' < 16518 \<longrightarrow>
      iblock_get ino' k' s' = Inr (if ino' = 0 \<and> k' = 2000 then 326 else tree fs_sample (unat ino', Dat (unat k')), s'))"
    using iblock_set_get [OF fs_sample_inv h(1) _ h(2) _ h(3), of 2000] fs_sample_tree by auto
  then obtain s' where s: "iblock_set 0 2000 326 fs_sample = Inr s'"
    "\<And>ino' k'. unat ino' \<in> bm_bits (fs_imap fs_sample) \<Longrightarrow> unat k' < 16518 \<Longrightarrow>
      iblock_get ino' k' s' = Inr (if ino' = 0 \<and> k' = 2000 then 326 else tree fs_sample (unat ino', Dat (unat k')), s')"
    by blast
  have "tree fs_sample (0, Dat 2001) = 0" using h(1) by (intro fs_sample_tree) (simp add: slots_of_def)
  then show ?thesis using s(1) s(2) [OF h(1), of 2000] s(2) [OF h(1), of 2001] by auto
qed

end
