(* ===== verification/Files.thy ===== *)
theory Files
  imports Inodes Circular_Buffer Cga
begin

section \<open>kern/fs/fmngr.c and kern/fs/files.c: file descriptors and file contents\<close>

text \<open>
  \<open>fmngr\<close> is the table of descriptors of one task; it maps a descriptor to an index of the
  system-wide array of open files, which names an inode. \<open>files_read\<close> and \<open>files_write\<close> move
  bytes between a buffer and the blocks of the inode; descriptors 0 to 2 are the keyboard and
  the screen. The operations on names (create, remove, open by path) are in the theory of the
  directories. A block-sized buffer from dyn_alloc is a local buffer here.
\<close>

subsection \<open>The descriptors of a task\<close>

definition MAX_FILES_PER_TASK :: nat where "MAX_FILES_PER_TASK = 64"
definition MAX_OPEN_FILES :: nat where "MAX_OPEN_FILES = 65536"
definition FD_STDIN :: u32 where "FD_STDIN = 0"
definition FD_STDOUT :: u32 where "FD_STDOUT = 1"
definition FD_STDERR :: u32 where "FD_STDERR = 2"

lemmas fd_consts = FD_STDIN_def FD_STDOUT_def FD_STDERR_def MAX_FILES_PER_TASK_def

record fmngr =
  fd_set :: bitmap
  fm_files :: "u32 list option"

definition fmngr_init :: "fmngr \<Rightarrow> fmngr res" where
  "fmngr_init f =
     bindr (bzero (bm_buff (fd_set f)) (Some 0) (unat (len_inbits (fd_set f) div 8))) (\<lambda>b.
     bindr (bitmap_init (Some (fd_set f)) 0 (Some b)) (\<lambda>m.
     let f = f\<lparr>fd_set := m\<rparr> in
     (case fm_files f of
       None \<Rightarrow> Inr f
     | Some xs \<Rightarrow>
         if length xs < MAX_FILES_PER_TASK then fault ''fmngr_init(): files_''
         else Inr (f\<lparr>fm_files := Some (replicate MAX_FILES_PER_TASK 0 @ drop MAX_FILES_PER_TASK xs)\<rparr>))))"

definition fmngr_alloc :: "fmngr option \<Rightarrow> (u32 \<times> fmngr) res" where
  "fmngr_alloc f =
     nonnull ''fmngr_alloc(): null pointer'' f (\<lambda>f.
     bindr (bitmap_scan_empty (Some (fd_set f))) (\<lambda>(i, m). Inr (i, f\<lparr>fd_set := m\<rparr>)))"

definition fmngr_free :: "fmngr option \<Rightarrow> u32 \<Rightarrow> fmngr res" where
  "fmngr_free f fd =
     nonnull ''fmngr_free(): null pointer'' f (\<lambda>f.
     bindr (bitmap_clear (Some (fd_set f)) fd) (\<lambda>m. Inr (f\<lparr>fd_set := m\<rparr>)))"

definition fmngr_files_set :: "fmngr option \<Rightarrow> u32 \<Rightarrow> u32 \<Rightarrow> fmngr res" where
  "fmngr_files_set f fd val =
     nonnull ''fmngr_files_set(): null pointer'' f (\<lambda>f.
     nonnull ''fmngr_files_set(): null pointer'' (fm_files f) (\<lambda>xs.
     if sint fd > 64 then panic ''fmngr_files_set(): invalid fd''
     else if val = INVALID_INDEX then panic ''fmngr_files_set(): invalid index''
     else bindr (write_at ''files_'' xs (sint fd) val) (\<lambda>xs. Inr (f\<lparr>fm_files := Some xs\<rparr>))))"

definition fmngr_files_get :: "fmngr option \<Rightarrow> u32 \<Rightarrow> u32 res" where
  "fmngr_files_get f fd =
     nonnull ''fmngr_files_get(): null pointer'' f (\<lambda>f.
     nonnull ''fmngr_files_get(): null pointer'' (fm_files f) (\<lambda>xs.
     if sint fd > 64 then panic ''fmngr_files_get(): invalid fd''
     else read_at ''files_'' xs (sint fd)))"

subsection \<open>Open files\<close>

record open_file =
  f_inode_idx :: u32
  f_ref :: u32

record fsys =
  sys_fs :: fs
  sys_files :: "open_file list"
  sys_fmngr :: fmngr
  sys_kb :: cclbuff
  sys_cga :: cga

definition fd_global_alloc :: "fsys \<Rightarrow> u32 res" where
  "fd_global_alloc s =
     (let i = length (takeWhile (\<lambda>f. f_ref f \<noteq> 0) (take MAX_OPEN_FILES (sys_files s))) in
      if i = MAX_OPEN_FILES then panic ''fd_global_alloc(): no free file descriptor''
      else Inr (word_of_nat i))"

definition fd_global_free :: "u32 \<Rightarrow> fsys \<Rightarrow> fsys res" where
  "fd_global_free fd s =
     (if sint fd \<ge> int MAX_OPEN_FILES then panic ''fd_global_free(): invalid file descriptor''
      else
        bindr (read_at ''__fs_files'' (sys_files s) (sint fd)) (\<lambda>f.
        bindr (write_at ''__fs_files'' (sys_files s) (sint fd) (f\<lparr>f_ref := 0\<rparr>)) (\<lambda>fs.
        Inr (s\<lparr>sys_files := fs\<rparr>))))"

text \<open>The array is what dyn_alloc returns: it is not cleared.\<close>

definition filesystem_init :: "open_file list \<Rightarrow> fsys \<Rightarrow> fsys" where
  "filesystem_init mem s = s\<lparr>sys_files := mem\<rparr>"

definition files_close :: "u32 \<Rightarrow> fsys \<Rightarrow> fsys res" where
  "files_close fd s =
     (if sint fd > 64 then panic ''files_close(): invalid fd''
      else
        bindr (fmngr_files_get (Some (sys_fmngr s)) fd) (\<lambda>index.
        bindr (read_at ''__fs_files'' (sys_files s) (sint index)) (\<lambda>f.
        if f_ref f = 0 then panic ''files_close(): the file was already closed''
        else
          let f = f\<lparr>f_ref := f_ref f - 1\<rparr> in
          bindr (write_at ''__fs_files'' (sys_files s) (sint index) f) (\<lambda>fs.
          let s = s\<lparr>sys_files := fs\<rparr> in
          if f_ref f = 0 then fd_global_free index s else Inr s))))"

text \<open>The open file behind a descriptor, or the panic of the operation that asks for it.\<close>

definition file_of :: "string \<Rightarrow> u32 \<Rightarrow> fsys \<Rightarrow> u32 res" where
  "file_of msg fd s =
     bindr (fmngr_files_get (Some (sys_fmngr s)) fd) (\<lambda>index.
     bindr (read_at ''__fs_files'' (sys_files s) (sint index)) (\<lambda>f.
     if f_ref f = 0 then panic msg else Inr (f_inode_idx f)))"

subsection \<open>Reading\<close>

fun kb_loop :: "(cclbuff \<Rightarrow> cclbuff res) \<Rightarrow> nat \<Rightarrow> nat \<Rightarrow> byte list \<Rightarrow> cclbuff \<Rightarrow> (byte list \<times> cclbuff) res" where
  "kb_loop sleep i 0 buf kb = Inr (buf, kb)"
| "kb_loop sleep i (Suc n) buf kb =
     bindr (cclbuff_get sleep (Some kb)) (\<lambda>(ch, kb).
     bindr (write_at ''files_read(): buf'' buf (int i) ch) (\<lambda>buf.
     kb_loop sleep (Suc i) n buf kb))"

fun read_loop :: "u32 \<Rightarrow> nat \<Rightarrow> nat \<Rightarrow> nat \<Rightarrow> nat \<Rightarrow> byte list \<Rightarrow> fs \<Rightarrow> (byte list \<times> fs) res" where
  "read_loop ino tot cr i 0 buf s = Inr (buf, s)"
| "read_loop ino tot cr i (Suc n) buf s =
     (let cur_size = (if i = cr - 1 then tot - i * 512 else 512) in
      bindr (iblock_get ino (word_of_nat i) s) (\<lambda>(lba, s).
      bindr (free_rw_disk (Some sect0) lba ATA_CMD_IO_READ s) (\<lambda>(temp_buf, s).
      bindr (memcpy_loop buf (i * 512) temp_buf 0 cur_size) (\<lambda>buf.
      read_loop ino tot cr (Suc i) n buf s))))"

definition files_read :: "(cclbuff \<Rightarrow> cclbuff res) \<Rightarrow> u32 \<Rightarrow> byte list option \<Rightarrow> u32 \<Rightarrow> fsys \<Rightarrow> (byte list \<times> fsys) res" where
  "files_read sleep fd buf sz s =
     (if sint fd > 64 then panic ''files_read(): invalid fd''
      else nonnull ''files_read(): null pointer'' buf (\<lambda>buf.
        if fd = FD_STDIN then
          bindr (kb_loop sleep 0 (unat sz) buf (sys_kb s)) (\<lambda>(buf, kb). Inr (buf, s\<lparr>sys_kb := kb\<rparr>))
        else
          bindr (file_of ''files_close(): the file was in non-opening'' fd s) (\<lambda>ino.
          bindr (read_at ''__fs_inodes'' (fs_inodes (sys_fs s)) (sint ino)) (\<lambda>inode.
          if i_size inode = 0 \<or> sz = 0 then Inr (buf, s)
          else
            let tot = (if sz > i_size inode then i_size inode else sz); cr = unat ((tot + 512) div 512) in
            bindr (read_loop ino (unat tot) cr 0 cr buf (sys_fs s)) (\<lambda>(buf, f).
            Inr (buf, s\<lparr>sys_fs := f\<rparr>))))))"

subsection \<open>Writing\<close>

text \<open>The sector image of round \<open>i\<close>, in the buffer that is reused from round to round.\<close>

definition fill_sector :: "byte list \<Rightarrow> byte list \<Rightarrow> nat \<Rightarrow> nat \<Rightarrow> byte list res" where
  "fill_sector buf_tmp buf sz i =
     (if i = sz div 512 \<and> sz mod 512 \<noteq> 0 then
        bindr (memcpy_loop buf_tmp 0 buf (i * 512) (sz mod 512)) (\<lambda>t.
        memset t (Some (sz mod 512)) 0 (512 - sz mod 512))
      else memcpy_loop buf_tmp 0 buf (i * 512) 512)"

text \<open>The block of index \<open>i\<close>, allocated when there is none.\<close>

definition block_for :: "u32 \<Rightarrow> nat \<Rightarrow> fs \<Rightarrow> (u32 \<times> fs) res" where
  "block_for ino i s =
     bindr (iblock_get ino (word_of_nat i) s) (\<lambda>(lba, s).
     if lba = 0 then
       bindr (free_allocate s) (\<lambda>(lba, s).
       bindr (free_map_setup lba True s) (\<lambda>s.
       bindr (iblock_set ino (word_of_nat i) lba s) (\<lambda>s.
       Inr (lba, s))))
     else Inr (lba, s))"

fun write_loop :: "u32 \<Rightarrow> nat \<Rightarrow> byte list \<Rightarrow> nat \<Rightarrow> nat \<Rightarrow> byte list \<Rightarrow> fs \<Rightarrow> fs res" where
  "write_loop ino sz buf i 0 buf_tmp s = Inr s"
| "write_loop ino sz buf i (Suc n) buf_tmp s =
     bindr (fill_sector buf_tmp buf sz i) (\<lambda>buf_tmp.
     bindr (block_for ino i s) (\<lambda>(lba, s).
     bindr (free_rw_disk (Some buf_tmp) lba ATA_CMD_IO_WRITE s) (\<lambda>(_, s).
     write_loop ino sz buf (Suc i) n buf_tmp s)))"

definition set_size :: "u32 \<Rightarrow> u32 \<Rightarrow> fs \<Rightarrow> fs res" where
  "set_size ino sz s =
     bindr (read_at ''__fs_inodes'' (fs_inodes s) (sint ino)) (\<lambda>i.
     bindr (write_at ''__fs_inodes'' (fs_inodes s) (sint ino) (i\<lparr>i_size := sz\<rparr>)) (\<lambda>inodes.
     Inr (s\<lparr>fs_inodes := inodes\<rparr>)))"

definition files_write :: "u32 \<Rightarrow> byte list option \<Rightarrow> u32 \<Rightarrow> fsys \<Rightarrow> fsys res" where
  "files_write fd buf sz s =
     (if sint fd > 64 then panic ''files_write(): invalid fd''
      else case buf of
        None \<Rightarrow> Inr s
      | Some buf \<Rightarrow>
          if sz = 0 then Inr s
          else if fd = FD_STDIN then panic ''files_write(): not allowd to write to stdin''
          else if fd = FD_STDOUT \<or> fd = FD_STDERR then
            bindr (cga_putstr buf (unat sz) (sys_cga s)) (\<lambda>c. Inr (s\<lparr>sys_cga := c\<rparr>))
          else
            bindr (file_of ''files_write(): the file was in non-opening'' fd s) (\<lambda>ino.
            bindr (write_loop ino (unat sz) buf 0 (unat sz div 512 + 1) sect0 (sys_fs s)) (\<lambda>f.
            bindr (set_size ino sz f) (\<lambda>f.
            bindr (inodes_rw_disk ino ATA_CMD_IO_WRITE f) (\<lambda>f.
            bindr (free_map_update f) (\<lambda>f.
            Inr (s\<lparr>sys_fs := f\<rparr>)))))))"

definition files_get_size :: "u32 \<Rightarrow> fsys \<Rightarrow> u32 res" where
  "files_get_size fd s =
     bindr (file_of ''files_get_size(): the file was in non-opening'' fd s) (\<lambda>ino.
     bindr (read_at ''__fs_inodes'' (fs_inodes (sys_fs s)) (sint ino)) (\<lambda>i. Inr (i_size i)))"

subsection \<open>Blocks of files\<close>

lemma tree_set_blk_nontab:
  assumes "x \<in> slots_of s" and "l \<notin> tabs s"
  shows "tree (set_blk l b s) x = tree s x"
proof -
  obtain j p where xj: "x = (j, p)" by (cases x)
  have "(j, p) \<in> slots_of s \<Longrightarrow> tree (set_blk l b s) (j, p) = tree s (j, p)"
  proof (induction p rule: pos_induct)
    case (root p)
    then show ?case by (simp add: tree_root)
  next
    case (child p q n)
    then have q: "(j, q) \<in> slots_of s" using slots_parent by blast
    then have "tree s (j, q) \<noteq> l" using assms(2) par_not_data [OF child.hyps] by (auto simp: tabs_def)
    then show ?case using child.IH [OF q] by (simp add: tree_par [OF child.hyps])
  qed
  then show ?thesis using assms(1) xj by simp
qed

lemma fs_inv_set_blk_nontab:
  assumes "fs_inv s" and "l \<notin> tabs s" and "length b = 512"
  shows "fs_inv (set_blk l b s)"
proof -
  have "tree_ok (set_blk l b s)"
    by (rule tree_ok_cong [OF fs_invD(3) [OF assms(1)]]) (use tree_set_blk_nontab [OF _ assms(2)] in auto)
  then show ?thesis using assms by (simp add: fs_inv_def)
qed

definition file_block :: "fs \<Rightarrow> nat \<Rightarrow> nat \<Rightarrow> byte list" where
  "file_block s i k = blk s (tree s (i, Dat k))"

text \<open>The bytes of a file: its size, cut out of its blocks.\<close>

definition file_data :: "fs \<Rightarrow> nat \<Rightarrow> byte list" where
  "file_data s i = take (unat (i_size (fs_inodes s ! i)))
     (concat (map (file_block s i) [0..<unat (i_size (fs_inodes s ! i)) div 512 + 1]))"

text \<open>A file is complete when it has the blocks its size needs, the one of the last partial sector included.\<close>

definition complete :: "fs \<Rightarrow> nat \<Rightarrow> bool" where
  "complete s i \<longleftrightarrow> unat (i_size (fs_inodes s ! i)) < 512 * 16518
     \<and> (\<forall>k \<le> unat (i_size (fs_inodes s ! i)) div 512. tree s (i, Dat k) \<noteq> 0)"

lemma extends_leaf_block:
  assumes "fs_inv s" and "extends n s t" and "(j, Dat m) \<in> slots_of s" and "tree s (j, Dat m) \<noteq> 0"
  shows "blk t (tree s (j, Dat m)) = blk s (tree s (j, Dat m))"
proof -
  have "tree s (j, Dat m) \<in> used_blocks s" using assms(1,3,4) unfolding fs_inv_def tree_ok_def by blast
  moreover have "tree s (j, Dat m) \<notin> tabs s" using assms(1,3,4) by (rule data_not_tab)
  ultimately show ?thesis using assms(2) unfolding extends_def by blast
qed

text \<open>Getting a block for a position.\<close>

lemma block_for_ok:
  assumes inv: "fs_inv s" and ino: "unat ino \<in> bm_bits (fs_imap s)" and i: "i < 16518"
    and room: "card (used_blocks s) + 3 \<le> NBLOCKS"
  shows "\<exists>t. block_for ino i s = Inr (tree t (unat ino, Dat i), t) \<and> fs_inv t \<and> extends 3 s t
    \<and> tree t (unat ino, Dat i) \<noteq> 0
    \<and> (\<forall>j m. (j, Dat m) \<in> slots_of s \<longrightarrow> (j, m) \<noteq> (unat ino, i) \<longrightarrow> tree t (j, Dat m) = tree s (j, Dat m))"
proof -
  let ?i = "unat ino"
  have u: "unat (word_of_nat i :: u32) = i" using i by (intro unat_word_of_nat_32) simp
  have get: "iblock_get ino (word_of_nat i) s = Inr (tree s (?i, Dat i), s)"
    using iblock_get_ok [OF inv ino, of "word_of_nat i"] i u by simp
  show ?thesis
  proof (cases "tree s (?i, Dat i) = 0")
    case False
    then show ?thesis using inv get by (intro exI [of _ s]) (simp add: block_for_def)
  next
    case True
    have nf: "\<not> blocks_full s" using room blocks_full_iff [of s] inv by auto
    obtain l s1 s2 where a: "free_allocate s = Inr (l, s1)" "free_map_setup l True s1 = Inr s2" "l \<notin> used_blocks s"
      "used_blocks s2 = insert l (used_blocks s)" "map_ok s2" "same_but_fmap s s2" "326 \<le> unat l"
      using take_block [OF fs_invD(1) [OF inv] nf] by blast
    have l0: "l \<noteq> 0" using a(7) by auto
    note s2 = fs_inv_same_but_fmap [OF inv a(6,5)] and e = same_but_fmapD [OF a(6)]
    have inv2: "fs_inv s2" and t2: "tree s2 = tree s" and sl2: "slots_of s2 = slots_of s" using s2 a(4) by auto
    have fresh: "tree s2 z \<noteq> l" if "z \<in> slots_of s2" for z
      using that inv a(3) l0 unfolding t2 sl2 fs_inv_def tree_ok_def by metis
    have c: "card (used_blocks s2) + 2 \<le> NBLOCKS" using a(3,4) room by simp
    have ino2: "?i \<in> bm_bits (fs_imap s2)" using ino e by simp
    obtain t where t: "iblock_set ino (word_of_nat i) l s2 = Inr t" "iblock_post ?i i l s2 t"
      using iblock_set_ok [OF inv2 ino2 _ _ fresh c, of "word_of_nat i"] i u a(4) by auto
    have "tabs s2 = tabs s" using t2 sl2 by (intro tabs_tree_cong) auto
    then have "extends 1 s s2" using a(3,4) e by (auto simp: extends_def card_insert_if)
    moreover have "extends 2 s2 t" using t(2) by (simp add: iblock_post_def)
    ultimately have "extends (1 + 2) s t" by (rule extends_trans)
    then have "extends 3 s t" by (simp add: numeral_eq_Suc)
    moreover have "(?i, Dat i) \<in> slots_of s2" using ino2 i by (simp add: slots_of_def)
    then have "tree t (?i, Dat i) = l" using t(2) by (simp add: iblock_post_def)
    ultimately show ?thesis using t a(1,2) get True l0 t2 sl2
      by (intro exI [of _ t]) (auto simp: block_for_def iblock_post_def)
  qed
qed

text \<open>The image of sector \<open>k\<close> of a buffer.\<close>

definition sector_image :: "byte list \<Rightarrow> nat \<Rightarrow> nat \<Rightarrow> byte list" where
  "sector_image buf sz k =
     (if k = sz div 512 \<and> sz mod 512 \<noteq> 0
      then take (sz mod 512) (drop (k * 512) buf) @ replicate (512 - sz mod 512) 0
      else take 512 (drop (k * 512) buf))"

definition buf_ok :: "byte list \<Rightarrow> nat \<Rightarrow> bool" where
  "buf_ok buf sz \<longleftrightarrow> (if sz mod 512 = 0 then sz + 512 \<le> length buf else sz \<le> length buf)"

lemma sector_bound:
  assumes "buf_ok buf sz" and "k \<le> sz div 512"
  shows "k = sz div 512 \<Longrightarrow> sz mod 512 \<noteq> 0 \<Longrightarrow> k * 512 + sz mod 512 \<le> length buf"
    and "\<not> (k = sz div 512 \<and> sz mod 512 \<noteq> 0) \<Longrightarrow> k * 512 + 512 \<le> length buf"
proof -
  have s: "sz div 512 * 512 + sz mod 512 = sz" by simp
  show "k = sz div 512 \<Longrightarrow> sz mod 512 \<noteq> 0 \<Longrightarrow> k * 512 + sz mod 512 \<le> length buf"
    using assms(1) s unfolding buf_ok_def by (simp split: if_splits)
  show "k * 512 + 512 \<le> length buf" if "\<not> (k = sz div 512 \<and> sz mod 512 \<noteq> 0)"
  proof (cases "k = sz div 512")
    case True
    then have "sz mod 512 = 0" using that by simp
    then show ?thesis using assms(1) True s unfolding buf_ok_def by simp
  next
    case False
    then have "Suc k \<le> sz div 512" using assms(2) by simp
    then have "Suc k * 512 \<le> sz" by (metis div_mult_mod_eq le_add1 le_trans mult_le_mono1)
    then show ?thesis using assms(1) unfolding buf_ok_def by (simp split: if_splits)
  qed
qed

lemma length_last_sector:
  assumes "buf_ok buf sz" and "sz mod 512 \<noteq> 0"
  shows "length (take (sz mod 512) (drop (sz div 512 * 512) buf)) = sz mod 512"
proof -
  have "sz mod 512 \<le> length buf - sz div 512 * 512"
    using sector_bound(1) [OF assms(1) order_refl _ assms(2)] by linarith
  then show ?thesis by (simp add: min_absorb2)
qed

lemma length_sector_image:
  assumes "buf_ok buf sz" and "k \<le> sz div 512"
  shows "length (sector_image buf sz k) = 512"
proof (cases "k = sz div 512 \<and> sz mod 512 \<noteq> 0")
  case True
  moreover have "sz mod 512 < 512" by simp
  ultimately show ?thesis using length_last_sector [OF assms(1)] by (simp add: sector_image_def)
next
  case False
  then show ?thesis using sector_bound(2) [OF assms False] by (auto simp: sector_image_def)
qed

lemma fill_sector_eq:
  assumes "buf_ok buf sz" and "k \<le> sz div 512" and "length tmp = 512"
  shows "fill_sector tmp buf sz k = Inr (sector_image buf sz k)"
proof (cases "k = sz div 512 \<and> sz mod 512 \<noteq> 0")
  case True
  define r where "r = sz mod 512"
  define x where "x = take r (drop (sz div 512 * 512) buf)"
  have r: "r < 512" "length x = r" using length_last_sector [OF assms(1)] True by (simp_all add: r_def x_def)
  have "sz div 512 * 512 + r \<le> length buf" using sector_bound(1) [OF assms(1,2)] True by (simp add: r_def)
  then have c: "memcpy_loop tmp 0 buf (sz div 512 * 512) r = Inr (x @ drop r tmp)"
    using r(1) assms(3) by (simp add: memcpy_loop_eq x_def)
  have "memset (x @ drop r tmp) (Some r) 0 (512 - r) = Inr (x @ replicate (512 - r) 0)"
    using r assms(3) by (subst memset_eq) simp_all
  then show ?thesis using True c by (simp add: fill_sector_def sector_image_def r_def x_def)
next
  case False
  have b: "k * 512 + 512 \<le> length buf" by (rule sector_bound(2) [OF assms(1,2) False])
  then show ?thesis using False assms(3)
    by (auto simp: fill_sector_def sector_image_def memcpy_loop_eq)
qed

subsection \<open>The write loop\<close>

text \<open>Blocks \<open>lo\<close> to \<open>lo + n\<close> of file \<open>a\<close> hold \<open>img\<close>; every other block of every file is as it was.\<close>

definition wrote :: "nat \<Rightarrow> nat \<Rightarrow> nat \<Rightarrow> (nat \<Rightarrow> byte list) \<Rightarrow> fs \<Rightarrow> fs \<Rightarrow> bool" where
  "wrote a lo n img s t \<longleftrightarrow> fs_inv t \<and> fs_imap t = fs_imap s
     \<and> (\<forall>j. i_size (fs_inodes t ! j) = i_size (fs_inodes s ! j)) \<and> ata_method (fs_ata t) = ata_method (fs_ata s)
     \<and> card (used_blocks t) \<le> card (used_blocks s) + 3 * n
     \<and> (\<forall>k. lo \<le> k \<and> k < lo + n \<longrightarrow> tree t (a, Dat k) \<noteq> 0 \<and> file_block t a k = img k)
     \<and> (\<forall>j m. (j, Dat m) \<in> slots_of s \<longrightarrow> \<not> (j = a \<and> lo \<le> m \<and> m < lo + n) \<longrightarrow>
          tree t (j, Dat m) = tree s (j, Dat m)
          \<and> (tree s (j, Dat m) \<noteq> 0 \<longrightarrow> file_block t j m = file_block s j m))"

lemma wrote_slots: "wrote a lo n img s t \<Longrightarrow> slots_of t = slots_of s"
  by (simp add: wrote_def slots_of_def)

lemma wrote_refl: "fs_inv s \<Longrightarrow> wrote a lo 0 img s s"
  by (auto simp: wrote_def)

lemma write_one:
  assumes inv: "fs_inv s" and ino: "unat ino \<in> bm_bits (fs_imap s)" and i: "i < 16518"
    and room: "card (used_blocks s) + 3 \<le> NBLOCKS" and b: "length b = 512"
  shows "\<exists>l s1 t. block_for ino i s = Inr (l, s1) \<and> free_rw_disk (Some b) l ATA_CMD_IO_WRITE s1 = Inr (b, t)
    \<and> wrote (unat ino) i 1 (\<lambda>_. b) s t"
proof -
  let ?i = "unat ino"
  obtain s1 where f: "block_for ino i s = Inr (tree s1 (?i, Dat i), s1)" "fs_inv s1" "extends 3 s s1"
    "tree s1 (?i, Dat i) \<noteq> 0"
    "\<And>j m. (j, Dat m) \<in> slots_of s \<Longrightarrow> (j, m) \<noteq> (?i, i) \<Longrightarrow> tree s1 (j, Dat m) = tree s (j, Dat m)"
    using block_for_ok [OF inv ino i room] by blast
  define l where "l = tree s1 (?i, Dat i)"
  note sl = extends_slots [OF f(3)]
  have y: "(?i, Dat i) \<in> slots_of s1" using ino i f(3) by (simp add: slots_of_def extends_def)
  have lu: "l \<in> used_blocks s1" using f(2,4) y unfolding l_def fs_inv_def tree_ok_def by blast
  have nt: "l \<notin> tabs s1" unfolding l_def by (rule data_not_tab [OF f(2) y f(4)])
  define t where "t = set_blk l b s1"
  have run: "free_rw_disk (Some b) l ATA_CMD_IO_WRITE s1 = Inr (b, t)"
    unfolding t_def using f(2) lu b by (intro free_rw_used) auto
  have inv_t: "fs_inv t" unfolding t_def by (rule fs_inv_set_blk_nontab [OF f(2) nt b])
  have tt: "tree t x = tree s1 x" if "x \<in> slots_of s" for x
    unfolding t_def by (rule tree_set_blk_nontab [OF _ nt]) (use that sl in simp)
  have others: "tree t (j, Dat m) = tree s (j, Dat m)
      \<and> (tree s (j, Dat m) \<noteq> 0 \<longrightarrow> file_block t j m = file_block s j m)"
    if x: "(j, Dat m) \<in> slots_of s" "(j, m) \<noteq> (?i, i)" for j m
  proof -
    have e: "tree t (j, Dat m) = tree s (j, Dat m)" using tt [OF x(1)] f(5) [OF x] by simp
    moreover have "file_block t j m = file_block s j m" if nz: "tree s (j, Dat m) \<noteq> 0"
    proof -
      have "tree s1 (j, Dat m) \<noteq> l"
        using f(2,4,5) x y sl nz unfolding l_def fs_inv_def tree_ok_def by (metis pos.inject(1) prod.inject)
      then have "blk t (tree s (j, Dat m)) = blk s1 (tree s (j, Dat m))" using f(5) [OF x] by (simp add: t_def)
      then show ?thesis using e extends_leaf_block [OF inv f(3) x(1) nz] by (simp add: file_block_def)
    qed
    ultimately show ?thesis by blast
  qed
  have here: "tree t (?i, Dat i) = l" using tt y sl by (simp add: l_def)
  have c: "fs_imap t = fs_imap s" "\<forall>j. i_size (fs_inodes t ! j) = i_size (fs_inodes s ! j)"
    "ata_method (fs_ata t) = ata_method (fs_ata s)" "card (used_blocks t) \<le> card (used_blocks s) + 3"
    using f(3) by (simp_all add: t_def extends_def)
  have "file_block t ?i i = b" using here by (simp add: file_block_def t_def)
  then have "\<forall>k. i \<le> k \<and> k < i + 1 \<longrightarrow> tree t (?i, Dat k) \<noteq> 0 \<and> file_block t ?i k = b"
    using here f(4) by (auto simp: l_def less_Suc_eq)
  moreover have "\<forall>j m. (j, Dat m) \<in> slots_of s \<longrightarrow> \<not> (j = ?i \<and> i \<le> m \<and> m < i + 1) \<longrightarrow>
          tree t (j, Dat m) = tree s (j, Dat m)
          \<and> (tree s (j, Dat m) \<noteq> 0 \<longrightarrow> file_block t j m = file_block s j m)"
    using others by auto
  ultimately have "wrote ?i i 1 (\<lambda>_. b) s t" using inv_t c by (simp only: wrote_def) simp
  then show ?thesis using f(1) run by (auto simp: l_def)
qed

lemma wrote_Suc:
  assumes 1: "wrote a i 1 img1 s t" and 2: "wrote a (Suc i) n img t u" and e: "img1 i = img i"
    and a: "(a, Dat i) \<in> slots_of s"
  shows "wrote a i (Suc n) img s u"
proof -
  note sl = wrote_slots [OF 1]
  have k: "tree u (a, Dat k) \<noteq> 0 \<and> file_block u a k = img k" if "i \<le> k" "k < i + Suc n" for k
  proof (cases "k = i")
    case True
    have "tree t (a, Dat i) \<noteq> 0 \<and> file_block t a i = img i" using 1 e by (simp add: wrote_def)
    then show ?thesis using 2 a sl True by (simp add: wrote_def)
  next
    case False
    then show ?thesis using 2 that by (simp add: wrote_def)
  qed
  have m: "tree u (j, Dat m) = tree s (j, Dat m) \<and> (tree s (j, Dat m) \<noteq> 0 \<longrightarrow> file_block u j m = file_block s j m)"
    if "(j, Dat m) \<in> slots_of s" "\<not> (j = a \<and> i \<le> m \<and> m < i + Suc n)" for j m
  proof -
    have "tree t (j, Dat m) = tree s (j, Dat m) \<and> (tree s (j, Dat m) \<noteq> 0 \<longrightarrow> file_block t j m = file_block s j m)"
      using 1 that by (auto simp: wrote_def)
    moreover have "tree u (j, Dat m) = tree t (j, Dat m) \<and> (tree t (j, Dat m) \<noteq> 0 \<longrightarrow> file_block u j m = file_block t j m)"
      using 2 that sl by (auto simp: wrote_def)
    ultimately show ?thesis by simp
  qed
  from k m show ?thesis using 1 2 by (simp add: wrote_def)
qed

lemma write_loop_ok:
  "fs_inv s \<Longrightarrow> unat ino \<in> bm_bits (fs_imap s) \<Longrightarrow> i + n \<le> 16518 \<Longrightarrow> i + n \<le> sz div 512 + 1 \<Longrightarrow> buf_ok buf sz \<Longrightarrow>
   length tmp = 512 \<Longrightarrow> card (used_blocks s) + 3 * n \<le> NBLOCKS \<Longrightarrow>
   \<exists>t. write_loop ino sz buf i n tmp s = Inr t \<and> wrote (unat ino) i n (sector_image buf sz) s t"
proof (induction n arbitrary: i tmp s)
  case 0
  then show ?case by (simp add: wrote_refl)
next
  case (Suc n)
  let ?b = "sector_image buf sz i"
  have i: "i \<le> sz div 512" "i < 16518" using Suc.prems by simp_all
  have b: "length ?b = 512" by (rule length_sector_image [OF Suc.prems(5) i(1)])
  have f: "fill_sector tmp buf sz i = Inr ?b" by (rule fill_sector_eq [OF Suc.prems(5) i(1) Suc.prems(6)])
  have r: "card (used_blocks s) + 3 \<le> NBLOCKS" using Suc.prems(7) by simp
  obtain l s1 t where w: "block_for ino i s = Inr (l, s1)" "free_rw_disk (Some ?b) l ATA_CMD_IO_WRITE s1 = Inr (?b, t)"
    "wrote (unat ino) i 1 (\<lambda>_. ?b) s t"
    using write_one [OF Suc.prems(1,2) i(2) r b] by blast
  have t: "fs_inv t" "unat ino \<in> bm_bits (fs_imap t)" "card (used_blocks t) + 3 * n \<le> NBLOCKS"
    using w(3) Suc.prems(2,7) by (auto simp: wrote_def)
  obtain u where u: "write_loop ino sz buf (Suc i) n ?b t = Inr u" "wrote (unat ino) (Suc i) n (sector_image buf sz) t u"
    using Suc.IH [OF t(1,2) _ _ Suc.prems(5) b t(3), of "Suc i"] Suc.prems by auto
  have "(unat ino, Dat i) \<in> slots_of s" using Suc.prems(2) i by (simp add: slots_of_def)
  then have "wrote (unat ino) i (Suc n) (sector_image buf sz) s u" by (rule wrote_Suc [OF w(3) u(2) refl])
  then show ?case using f w u(1) by simp
qed

subsection \<open>The bytes\<close>

lemma images_full:
  assumes "buf_ok buf sz"
  shows "m \<le> sz div 512 \<Longrightarrow> concat (map (sector_image buf sz) [0..<m]) = take (m * 512) buf"
proof (induction m)
  case (Suc m)
  then have "sector_image buf sz m = take 512 (drop (m * 512) buf)" by (simp add: sector_image_def)
  then show ?case using Suc by (simp add: take_add [of "m * 512" 512, symmetric] add.commute)
qed simp

lemma images_data:
  assumes "buf_ok buf sz"
  shows "take sz (concat (map (sector_image buf sz) [0..<sz div 512 + 1])) = take sz buf"
proof -
  define q r where "q = sz div 512" and "r = sz mod 512"
  have sz: "sz = q * 512 + r" by (simp add: q_def r_def)
  have full: "concat (map (sector_image buf sz) [0..<q]) = take (q * 512) buf"
    using images_full [OF assms] by (simp add: q_def)
  have len: "q * 512 \<le> length buf" using assms sz by (auto simp: buf_ok_def split: if_splits)
  have "take r (sector_image buf sz q) = take r (drop (q * 512) buf)"
  proof (cases "r = 0")
    case False
    then show ?thesis using length_last_sector [OF assms] by (simp add: sector_image_def q_def r_def)
  qed simp
  then have "take sz (take (q * 512) buf @ sector_image buf sz q) = take sz buf"
    using len by (simp add: sz take_add)
  then show ?thesis using full by (simp add: q_def)
qed

lemma length_file_block [simp]: "ata_ready (fs_ata s) \<Longrightarrow> length (file_block s i k) = 512"
  by (simp add: file_block_def)

lemma length_concat_blocks:
  "(\<And>k. k < n \<Longrightarrow> length (f k) = 512) \<Longrightarrow> length (concat (map f [0..<n])) = n * 512"
  by (induction n) simp_all

lemma drop_concat_blocks:
  assumes "\<And>k. k < n \<Longrightarrow> length (f k) = 512" and "i < n"
  shows "\<exists>xs. drop (i * 512) (concat (map f [0..<n])) = f i @ xs"
proof -
  obtain d where d: "n = i + Suc d" using assms(2) less_iff_Suc_add by auto
  have "[0..<i + Suc d] = [0..<i] @ [i..<i + Suc d]" by (rule upt_add_eq_append) simp
  also have "[i..<i + Suc d] = i # [Suc i..<n]" unfolding d by (rule upt_conv_Cons) simp
  finally have "[0..<n] = [0..<i] @ i # [Suc i..<n]" by (simp only: d)
  moreover have "length (concat (map f [0..<i])) = i * 512" using assms by (intro length_concat_blocks) simp
  ultimately show ?thesis by simp
qed

lemma blocks_prefix:
  assumes "\<And>k. k < m \<Longrightarrow> length (f k) = 512" and "n \<le> m" and "t \<le> n * 512"
  shows "take t (concat (map f [0..<n])) = take t (concat (map f [0..<m]))"
proof -
  obtain d where "m = n + d" using assms(2) le_Suc_ex by blast
  then have "[0..<m] = [0..<n] @ [n..<m]" using upt_add_eq_append [of 0 n d] by simp
  moreover have "length (concat (map f [0..<n])) = n * 512" using assms by (intro length_concat_blocks) simp
  ultimately show ?thesis using assms(3) by simp
qed

lemma read_loop_ok:
  assumes inv: "fs_inv s" and ino: "unat ino \<in> bm_bits (fs_imap s)" and cr: "cr = tot div 512 + 1" "cr \<le> 16518"
    and blocks: "\<And>k. k < cr \<Longrightarrow> tree s (unat ino, Dat k) \<noteq> 0" and len: "tot \<le> length buf"
  defines "D \<equiv> concat (map (file_block s (unat ino)) [0..<cr])"
  shows "i + n = cr \<Longrightarrow> read_loop ino tot cr i n (take (min (i * 512) tot) D @ drop (min (i * 512) tot) buf) s
    = Inr (take tot D @ drop tot buf, s)"
proof (induction n arbitrary: i)
  case 0
  then have "i * 512 = tot div 512 * 512 + 512" using cr(1) by simp
  moreover have "tot < tot div 512 * 512 + 512" 
    using div_mult_mod_eq [of tot 512] mod_less_divisor [of 512 tot] by linarith
  ultimately have "min (i * 512) tot = tot" by simp
  then show ?case by simp
next
  case (Suc n)
  let ?a = "unat ino"
  have iq: "i \<le> tot div 512" using Suc.prems cr(1) by simp
  have tq: "tot div 512 * 512 \<le> tot" "tot < tot div 512 * 512 + 512"
    using div_mult_mod_eq [of tot 512] mod_less_divisor [of 512 tot] by linarith+
  have i: "i < cr" "i * 512 \<le> tot" using iq tq(1) cr(1) by linarith+
  define cur where "cur = (if i = cr - 1 then tot - i * 512 else 512)"
  have cur: "cur \<le> 512" "i * 512 + cur = min (Suc i * 512) tot"
  proof -
    show "cur \<le> 512" using cr(1) tq(2) by (auto simp: cur_def)
    show "i * 512 + cur = min (Suc i * 512) tot"
    proof (cases "i = cr - 1")
      case True
      then have "tot \<le> Suc i * 512" using cr(1) tq(2) by simp
      then show ?thesis using True i(2) by (simp add: cur_def min_absorb2)
    next
      case False
      then have "Suc i \<le> tot div 512" using i(1) cr(1) by simp
      then have "Suc i * 512 \<le> tot" using tq(1) mult_le_mono1 le_trans by blast
      then show ?thesis using False by (simp add: cur_def min_absorb1)
    qed
  qed
  have u: "unat (word_of_nat i :: u32) = i" using i cr(2) by (intro unat_word_of_nat_32) simp
  have get: "iblock_get ino (word_of_nat i) s = Inr (tree s (?a, Dat i), s)"
    using iblock_get_ok [OF inv ino, of "word_of_nat i"] i cr(2) u by simp
  have y: "(?a, Dat i) \<in> slots_of s" using ino i cr(2) by (simp add: slots_of_def)
  have "tree s (?a, Dat i) \<in> used_blocks s" using inv y blocks [OF i(1)] unfolding fs_inv_def tree_ok_def by blast
  then have rd: "free_rw_disk (Some sect0) (tree s (?a, Dat i)) ATA_CMD_IO_READ s = Inr (file_block s ?a i, s)"
    using inv unfolding file_block_def by (intro free_rw_used) auto
  have fb: "length (file_block s ?a k) = 512" for k using inv by simp
  have lD: "length D = cr * 512" unfolding D_def using fb by (intro length_concat_blocks) simp
  obtain xs where xs: "drop (i * 512) D = file_block s ?a i @ xs"
    unfolding D_def using drop_concat_blocks [of cr "file_block s ?a" i] fb i(1) by blast
  let ?B = "take (i * 512) D @ drop (i * 512) buf"
  have li: "length (take (i * 512) D) = i * 512" using lD i(1) by simp
  have b: "i * 512 + cur \<le> tot" using cur(2) by simp
  then have lB: "i * 512 + cur \<le> length ?B" using li len by simp
  have c1: "memcpy_loop ?B (i * 512) (file_block s ?a i) 0 cur =
      Inr (take (i * 512) D @ take cur (file_block s ?a i) @ drop (i * 512 + cur) buf)"
    using memcpy_loop_eq [OF lB, of 0 "file_block s ?a i"] fb cur(1) li len b i(2) by (simp add: add.commute mult.commute)
  have c2: "take (i * 512 + cur) D = take (i * 512) D @ take cur (file_block s ?a i)"
    using xs cur(1) fb by (simp add: take_add)
  have cp: "memcpy_loop ?B (i * 512) (file_block s ?a i) 0 cur =
      Inr (take (i * 512 + cur) D @ drop (i * 512 + cur) buf)"
    unfolding c1 c2 by simp
  have m: "min (i * 512) tot = i * 512" using i(2) by simp
  have "read_loop ino tot cr i (Suc n) ?B s =
      read_loop ino tot cr (Suc i) n (take (i * 512 + cur) D @ drop (i * 512 + cur) buf) s"
    by (simp only: read_loop.simps Let_def cur_def [symmetric] get bindr_simps prod.case rd cp)
  also have "\<dots> = Inr (take tot D @ drop tot buf, s)"
    unfolding cur(2) using Suc.prems by (intro Suc.IH) simp
  finally show ?case unfolding m .
qed

subsection \<open>Properties\<close>

text \<open>An open descriptor of a file: neither the keyboard nor the screen.\<close>

definition fd_open :: "fsys \<Rightarrow> u32 \<Rightarrow> u32 \<Rightarrow> bool" where
  "fd_open s fd ino \<longleftrightarrow> 2 < unat fd \<and> unat fd < 64 \<and> (\<forall>msg. file_of msg fd s = Inr ino)
     \<and> unat ino \<in> bm_bits (fs_imap (sys_fs s))"

lemma fd_open_guards:
  assumes "fd_open s fd ino"
  shows "\<not> sint fd > 64" "fd \<noteq> FD_STDIN" "fd \<noteq> FD_STDOUT" "fd \<noteq> FD_STDERR"
proof -
  have "unat fd < 64" "2 < unat fd" using assms by (simp_all add: fd_open_def)
  then have "sint fd = int (unat fd)" by (intro sint_nonneg_32) simp
  moreover have "int (unat fd) < 64" using \<open>unat fd < 64\<close> by linarith
  ultimately show "\<not> sint fd > 64" by linarith
  show "fd \<noteq> FD_STDIN" "fd \<noteq> FD_STDOUT" "fd \<noteq> FD_STDERR"
    using \<open>2 < unat fd\<close> by (auto simp: fd_consts)
qed

definition put_size :: "nat \<Rightarrow> u32 \<Rightarrow> fs \<Rightarrow> fs" where
  "put_size i sz s = s\<lparr>fs_inodes := (fs_inodes s)[i := (fs_inodes s ! i)\<lparr>i_size := sz\<rparr>]\<rparr>"

lemma put_size_tree: "imap_ok s \<Longrightarrow> i < 64 \<Longrightarrow> iblocks (fs_inodes (put_size i sz s) ! j) = iblocks (fs_inodes s ! j)"
  by (cases "j = i") (simp_all add: put_size_def imap_ok_def)

lemma put_size_inv:
  assumes "fs_inv s" and "i < 64"
  shows "fs_inv (put_size i sz s)" and "tree (put_size i sz s) x = tree s x" and "slots_of (put_size i sz s) = slots_of s"
proof -
  have b: "iblocks (fs_inodes (put_size i sz s) ! j) = iblocks (fs_inodes s ! j)" for j
    using put_size_tree assms by auto
  have e: "fs_ata (put_size i sz s) = fs_ata s" "fs_sb (put_size i sz s) = fs_sb s" "fs_fmap (put_size i sz s) = fs_fmap s"
    "fs_imap (put_size i sz s) = fs_imap s" by (simp_all add: put_size_def)
  show t: "tree (put_size i sz s) x = tree s x" for x by (simp add: tree_def b e)
  show sl: "slots_of (put_size i sz s) = slots_of s" by (simp add: slots_of_def e)
  have m: "map_ok (put_size i sz s)" using assms by (auto simp: map_ok_def e)
  have im: "imap_ok (put_size i sz s)" using fs_invD(2) [OF assms(1)] by (simp add: imap_ok_def e b) (simp add: put_size_def)
  have u: "used_blocks (put_size i sz s) = used_blocks s" by (simp add: used_blocks_def e)
  have "tree_ok (put_size i sz s)" by (rule tree_ok_cong [OF fs_invD(3) [OF assms(1)] sl t]) (simp add: u)
  then show "fs_inv (put_size i sz s)" using m im by (simp add: fs_inv_def)
qed

text \<open>The end of files_write: the size, the inode, the free map.\<close>

lemma write_finish:
  assumes inv: "fs_inv s" and ino: "unat ino \<in> bm_bits (fs_imap s)"
  shows "\<exists>t. bindr (set_size ino sz s) (\<lambda>f. bindr (inodes_rw_disk ino ATA_CMD_IO_WRITE f) free_map_update) = Inr t
    \<and> fs_inv t \<and> fs_imap t = fs_imap s \<and> used_blocks t = used_blocks s \<and> (\<forall>x \<in> slots_of s. tree t x = tree s x)
    \<and> (\<forall>l. 326 \<le> unat l \<longrightarrow> blk t l = blk s l)
    \<and> (\<forall>j < 64. fs_inodes t ! j = (if j = unat ino then (fs_inodes s ! j)\<lparr>i_size := sz\<rparr> else fs_inodes s ! j))"
proof -
  let ?i = "unat ino"
  have i64: "?i < 64" using inode_bound inv ino by blast
  define s1 where "s1 = put_size ?i sz s"
  define s2 where "s2 = save_inode ?i s1"
  note p = put_size_inv [OF inv i64, where sz = sz]
  have inv1: "fs_inv s1" "slots_of s1 = slots_of s" "\<And>x. tree s1 x = tree s x" using p by (simp_all add: s1_def)
  have "set_size ino sz s = Inr s1"
    using ino_index [OF fs_invD(2) [OF inv] i64] by (simp add: set_size_def s1_def put_size_def)
  moreover have "inodes_rw_disk ino ATA_CMD_IO_WRITE s1 = Inr s2"
    unfolding s2_def using inv1(1) i64 by (intro inodes_write_eq) auto
  moreover have inv2: "fs_inv s2" and t2: "\<And>x. x \<in> slots_of s \<Longrightarrow> tree s2 x = tree s x"
    using save_inode_inv [OF inv1(1) i64] inv1 by (simp_all add: s2_def)
  moreover obtain t where t: "free_map_update s2 = Inr t" "map_ok t" "fs_fmap t = fs_fmap s2" "fs_inodes t = fs_inodes s2"
    "fs_imap t = fs_imap s2" "\<And>l. unat l < 67 \<or> 326 \<le> unat l \<Longrightarrow> blk t l = blk s2 l"
    using free_map_update_eq [OF fs_invD(1) [OF inv2]] by blast
  moreover have sl: "slots_of t = slots_of s2" using t(5) by (simp add: slots_of_def)
  have tt: "tree t x = tree s2 x" if x: "x \<in> slots_of s2" for x
  proof -
    obtain j q where xj: "x = (j, q)" by (cases x)
    have "(j, q) \<in> slots_of s2 \<Longrightarrow> tree t (j, q) = tree s2 (j, q)"
    proof (induction q rule: pos_induct)
      case (root q)
      then show ?case using t(4) by (simp add: tree_root)
    next
      case (child q r n)
      then have r: "(j, r) \<in> slots_of s2" using slots_parent by blast
      have "tree s2 (j, r) = 0 \<or> 326 \<le> unat (tree s2 (j, r))"
        using inv2 r used_block_range unfolding fs_inv_def tree_ok_def by blast
      then show ?case using child.IH [OF r] t(6) by (auto simp: tree_par [OF child.hyps])
    qed
    then show ?thesis using x xj by simp
  qed
  have inv_t: "fs_inv t"
  proof -
    have "tree_ok t" by (rule tree_ok_cong [OF fs_invD(3) [OF inv2] sl tt]) (use t(3) in \<open>auto simp: used_blocks_def\<close>)
    moreover have "imap_ok t" using fs_invD(2) [OF inv2] t(4,5) by (simp add: imap_ok_def)
    ultimately show ?thesis using t(2) by (simp add: fs_inv_def)
  qed
  have b: "blk t l = blk s l" if "326 \<le> unat l" for l
    using t(6) [of l] save_inode_blk [OF i64 that, of s1] that by (simp add: s2_def s1_def put_size_def)
  have n: "fs_inodes t ! j = (if j = ?i then (fs_inodes s ! j)\<lparr>i_size := sz\<rparr> else fs_inodes s ! j)" if "j < 64" for j
    using t(4) that fs_invD(2) [OF inv] by (simp add: s2_def s1_def put_size_def imap_ok_def)
  have sl2: "slots_of s2 = slots_of s" using inv1(2) by (simp add: s2_def)
  have im: "fs_imap t = fs_imap s" using t(5) by (simp add: s2_def s1_def put_size_def)
  have us: "used_blocks t = used_blocks s" using t(3) by (simp add: used_blocks_def s2_def s1_def put_size_def)
  have "bindr (set_size ino sz s) (\<lambda>f. bindr (inodes_rw_disk ino ATA_CMD_IO_WRITE f) free_map_update) = Inr t"
    using calculation(1,2) t(1) by simp
  then show ?thesis using inv_t im us tt t2 sl2 b n by auto
qed

lemma file_of_cong: "sys_files s' = sys_files s \<Longrightarrow> sys_fmngr s' = sys_fmngr s \<Longrightarrow> file_of msg fd s' = file_of msg fd s"
  by (simp add: file_of_def)

text \<open>File \<open>j\<close> is the same in both states: size, blocks and what they hold.\<close>

definition same_file :: "fs \<Rightarrow> fs \<Rightarrow> nat \<Rightarrow> bool" where
  "same_file s t j \<longleftrightarrow> i_size (fs_inodes t ! j) = i_size (fs_inodes s ! j)
     \<and> (\<forall>m < 16518. tree t (j, Dat m) = tree s (j, Dat m)
          \<and> (tree s (j, Dat m) \<noteq> 0 \<longrightarrow> file_block t j m = file_block s j m))"

lemma same_file_refl [simp]: "same_file s s j"
  by (simp add: same_file_def)

lemma same_file_trans: "same_file s t j \<Longrightarrow> same_file t u j \<Longrightarrow> same_file s u j"
  by (simp add: same_file_def)

lemma same_file_data:
  assumes "same_file s t j" and "complete s j"
  shows "complete t j" and "file_data t j = file_data s j"
proof -
  define n where "n = unat (i_size (fs_inodes s ! j))"
  have sz: "i_size (fs_inodes t ! j) = i_size (fs_inodes s ! j)" "n div 512 < 16518"
    using assms by (simp_all add: same_file_def complete_def n_def less_mult_imp_div_less mult.commute)
  have b: "tree t (j, Dat k) = tree s (j, Dat k) \<and> file_block t j k = file_block s j k" if "k \<le> n div 512" for k
    using assms that sz(2) by (simp add: same_file_def complete_def n_def)
  show "complete t j" using assms(2) sz b by (simp add: complete_def n_def)
  have "map (file_block t j) [0..<n div 512 + 1] = map (file_block s j) [0..<n div 512 + 1]"
    using b by (intro map_cong refl) auto
  then show "file_data t j = file_data s j" unfolding file_data_def sz(1) n_def [symmetric] by (simp only:)
qed

lemma files_write_ok:
  assumes inv: "fs_inv (sys_fs s)" and fd: "fd_open s fd ino" and sz: "0 < sz" "unat sz < 512 * 16518"
    and buf: "buf_ok buf (unat sz)" and room: "card (used_blocks (sys_fs s)) + 3 * (unat sz div 512 + 1) \<le> NBLOCKS"
  shows "\<exists>s'. files_write fd (Some buf) sz s = Inr s' \<and> fs_inv (sys_fs s') \<and> fd_open s' fd ino
    \<and> complete (sys_fs s') (unat ino) \<and> i_size (fs_inodes (sys_fs s') ! unat ino) = sz
    \<and> file_data (sys_fs s') (unat ino) = take (unat sz) buf
    \<and> (\<forall>j \<in> bm_bits (fs_imap (sys_fs s)). j \<noteq> unat ino \<longrightarrow> complete (sys_fs s) j \<longrightarrow>
        complete (sys_fs s') j \<and> file_data (sys_fs s') j = file_data (sys_fs s) j)
    \<and> (\<exists>t. s' = s\<lparr>sys_fs := t\<rparr>) \<and> fs_imap (sys_fs s') = fs_imap (sys_fs s)
    \<and> (\<forall>j \<in> bm_bits (fs_imap (sys_fs s)). j \<noteq> unat ino \<longrightarrow> same_file (sys_fs s) (sys_fs s') j)
    \<and> card (used_blocks (sys_fs s')) \<le> card (used_blocks (sys_fs s)) + 3 * (unat sz div 512 + 1)"
proof -
  let ?f = "sys_fs s" and ?i = "unat ino" and ?n = "unat sz div 512 + 1"
  note g = fd_open_guards [OF fd]
  have ino: "?i \<in> bm_bits (fs_imap ?f)" using fd by (simp add: fd_open_def)
  have i64: "?i < 64" using inode_bound inv ino by blast
  have n: "?n \<le> 16518" using sz(2) by (simp add: less_mult_imp_div_less Suc_le_eq mult.commute)
  obtain u where u: "write_loop ino (unat sz) buf 0 ?n sect0 ?f = Inr u" "wrote ?i 0 ?n (sector_image buf (unat sz)) ?f u"
    using write_loop_ok [OF inv ino, of 0 ?n "unat sz" buf sect0] n buf room by auto
  have inv_u: "fs_inv u" and im_u: "fs_imap u = fs_imap ?f" using u(2) by (simp_all add: wrote_def)
  have ino_u: "?i \<in> bm_bits (fs_imap u)" using ino im_u by simp
  obtain t where t: "bindr (set_size ino sz u) (\<lambda>f. bindr (inodes_rw_disk ino ATA_CMD_IO_WRITE f) free_map_update) = Inr t"
    "fs_inv t" "fs_imap t = fs_imap u" "used_blocks t = used_blocks u" "\<forall>x \<in> slots_of u. tree t x = tree u x" "\<forall>l. 326 \<le> unat l \<longrightarrow> blk t l = blk u l"
    "\<forall>j < 64. fs_inodes t ! j = (if j = ?i then (fs_inodes u ! j)\<lparr>i_size := sz\<rparr> else fs_inodes u ! j)"
    using write_finish [OF inv_u ino_u] by blast
  let ?s = "s\<lparr>sys_fs := t\<rparr>"
  have "bindr (set_size ino sz u) (\<lambda>f. bindr (inodes_rw_disk ino ATA_CMD_IO_WRITE f) (\<lambda>f.
      bindr (free_map_update f) (\<lambda>f. Inr (s\<lparr>sys_fs := f\<rparr>)))) = Inr ?s"
    using t(1) by (auto simp: bindr_eq_Inr)
  moreover have "\<And>msg. file_of msg fd s = Inr ino" using fd by (simp add: fd_open_def)
  moreover have "sz \<noteq> 0" using sz(1) by auto
  ultimately have run: "files_write fd (Some buf) sz s = Inr ?s"
    using g u(1) by (simp add: files_write_def)
  have sl: "slots_of u = slots_of ?f" using u(2) by (rule wrote_slots)
  have fb: "file_block t j k = file_block u j k" if "(j, Dat k) \<in> slots_of ?f" "tree u (j, Dat k) \<noteq> 0" for j k
  proof -
    have "tree u (j, Dat k) \<in> used_blocks u" using inv_u that sl unfolding fs_inv_def tree_ok_def by blast
    then have "326 \<le> unat (tree u (j, Dat k))" using used_block_range inv_u by blast
    then show ?thesis using t(5,6) that sl by (simp add: file_block_def)
  qed
  have size: "i_size (fs_inodes t ! ?i) = sz" using t(7) i64 by simp
  have blocks: "tree t (?i, Dat k) \<noteq> 0 \<and> file_block t ?i k = sector_image buf (unat sz) k" if "k < ?n" for k
  proof -
    have w: "tree u (?i, Dat k) \<noteq> 0 \<and> file_block u ?i k = sector_image buf (unat sz) k"
      using u(2) that by (simp add: wrote_def)
    have x: "(?i, Dat k) \<in> slots_of ?f" using ino n that by (simp add: slots_of_def)
    then show ?thesis using w fb [OF x] t(5) sl by simp
  qed
  have comp: "complete t ?i" using blocks size sz(2) by (simp add: complete_def)
  have "concat (map (file_block t ?i) [0..<?n]) = concat (map (sector_image buf (unat sz)) [0..<?n])"
    using blocks by (intro arg_cong [where f = concat] map_cong) auto
  then have data: "file_data t ?i = take (unat sz) buf"
    using images_data [OF buf] by (simp add: file_data_def size)
  have same: "same_file ?f t j" if j: "j \<in> bm_bits (fs_imap ?f)" "j \<noteq> ?i" for j
  proof -
    have "j < 64" using inode_bound inv j(1) by blast
    then have sj: "i_size (fs_inodes t ! j) = i_size (fs_inodes ?f ! j)" using t(7) j(2) u(2) by (simp add: wrote_def)
    have "tree t (j, Dat m) = tree ?f (j, Dat m) \<and> (tree ?f (j, Dat m) \<noteq> 0 \<longrightarrow> file_block t j m = file_block ?f j m)" if "m < 16518" for m
    proof -
      have x: "(j, Dat m) \<in> slots_of ?f" using j(1) that by (simp add: slots_of_def)
      have "tree u (j, Dat m) = tree ?f (j, Dat m)" "tree ?f (j, Dat m) \<noteq> 0 \<longrightarrow> file_block u j m = file_block ?f j m"
        using u(2) x j(2) by (auto simp: wrote_def)
      then show ?thesis using fb [OF x] t(5) x sl by simp
    qed
    then show ?thesis using sj by (simp add: same_file_def)
  qed
  have others: "complete t j \<and> file_data t j = file_data ?f j"
    if "j \<in> bm_bits (fs_imap ?f)" "j \<noteq> ?i" "complete ?f j" for j
    using same_file_data [OF same [OF that(1,2)] that(3)] by blast
  have fd': "fd_open ?s fd ino"
    using fd t(3) im_u file_of_cong [of ?s s] by (simp add: fd_open_def)
  have im: "fs_imap t = fs_imap ?f" using t(3) im_u by simp
  have cd: "card (used_blocks t) \<le> card (used_blocks ?f) + 3 * ?n" using t(4) u(2) by (simp add: wrote_def)
  show ?thesis using run t(2) fd' comp size data others same im cd
    by (intro exI [of _ ?s] conjI exI [of _ t]) simp_all
qed

lemma files_read_ok:
  assumes inv: "fs_inv (sys_fs s)" and fd: "fd_open s fd ino" and comp: "complete (sys_fs s) (unat ino)"
    and len: "unat sz \<le> length buf"
  defines "n \<equiv> min (unat sz) (unat (i_size (fs_inodes (sys_fs s) ! unat ino)))"
  shows "files_read sleep fd (Some buf) sz s = Inr (take n (file_data (sys_fs s) (unat ino)) @ drop n buf, s)"
proof -
  let ?f = "sys_fs s" and ?i = "unat ino"
  note g = fd_open_guards [OF fd]
  have ino: "?i \<in> bm_bits (fs_imap ?f)" using fd by (simp add: fd_open_def)
  have i64: "?i < 64" using inode_bound inv ino by blast
  define fsz where "fsz = i_size (fs_inodes ?f ! ?i)"
  have rd: "read_at w (fs_inodes ?f) (sint ino) = Inr (fs_inodes ?f ! ?i)" for w
    using ino_index(1) [OF fs_invD(2) [OF inv] i64] .
  have fo: "\<And>msg. file_of msg fd s = Inr ino" using fd by (simp add: fd_open_def)
  show ?thesis
  proof (cases "fsz = 0 \<or> sz = 0")
    case True
    then have "n = 0" by (auto simp: n_def fsz_def)
    then show ?thesis using g fo rd True by (simp add: files_read_def flip: fsz_def)
  next
    case False
    define tot where "tot = (if sz > fsz then fsz else sz)"
    have tot: "unat tot = n" by (auto simp: tot_def n_def fsz_def word_less_nat_alt)
    have nf: "n \<le> unat fsz" "n \<le> length buf" using len by (simp_all add: n_def fsz_def)
    have fl: "unat fsz < 512 * 16518" using comp by (simp add: complete_def fsz_def)
    have cr: "unat ((tot + 512) div 512) = n div 512 + 1"
    proof -
      have "unat (tot + 512) = n + 512" using tot nf fl by (subst unat_add_32) simp_all
      then show ?thesis by (simp add: unat_div)
    qed
    have c: "n div 512 + 1 \<le> unat fsz div 512 + 1" "unat fsz div 512 + 1 \<le> 16518"
      using nf(1) fl by (simp_all add: div_le_mono less_mult_imp_div_less Suc_le_eq mult.commute)
    have bl: "tree ?f (?i, Dat k) \<noteq> 0" if "k < n div 512 + 1" for k
      using comp that c(1) by (simp add: complete_def fsz_def)
    have "read_loop ino n (n div 512 + 1) 0 (n div 512 + 1) buf ?f =
        Inr (take n (concat (map (file_block ?f ?i) [0..<n div 512 + 1])) @ drop n buf, ?f)"
      using read_loop_ok [OF inv ino refl _ bl nf(2), of 0 "n div 512 + 1"] c by simp
    moreover have "take n (concat (map (file_block ?f ?i) [0..<n div 512 + 1])) = take n (file_data ?f ?i)"
    proof -
      have "n mod 512 < 512" by simp
      then have "n < n div 512 * 512 + 512" using div_mult_mod_eq [of n 512] by linarith
      then have "n \<le> (n div 512 + 1) * 512" by simp
      then have "take n (concat (map (file_block ?f ?i) [0..<n div 512 + 1])) =
          take n (concat (map (file_block ?f ?i) [0..<unat fsz div 512 + 1]))"
        using inv c(1) by (intro blocks_prefix) simp_all
      moreover have "take n (file_data ?f ?i) = take n (concat (map (file_block ?f ?i) [0..<unat fsz div 512 + 1]))"
        unfolding file_data_def fsz_def [symmetric] take_take min_absorb1 [OF nf(1)] ..
      ultimately show ?thesis by simp
    qed
    ultimately have rl: "read_loop ino (unat tot) (unat ((tot + 512) div 512)) 0 (unat ((tot + 512) div 512)) buf ?f =
        Inr (take n (file_data ?f ?i) @ drop n buf, ?f)"
      unfolding tot cr by (simp only:)
    have "files_read sleep fd (Some buf) sz s =
        bindr (read_loop ino (unat tot) (unat ((tot + 512) div 512)) 0 (unat ((tot + 512) div 512)) buf ?f)
          (\<lambda>(buf, f). Inr (buf, s\<lparr>sys_fs := f\<rparr>))"
      using g fo rd False unfolding files_read_def Let_def tot_def fsz_def by simp
    then show ?thesis unfolding rl by simp
  qed
qed

text \<open>C4: What is written to a file is what is read back, and no other file is touched. For an open
  descriptor of a file, a buffer that holds the size (and, when the size is a multiple of 512, one
  sector more, see the next property) and enough free blocks, files_write returns; a read through the
  same descriptor of any number of bytes then delivers the first bytes of the buffer, as many as
  were written or asked for, and leaves the rest of the reader's buffer alone. Every other complete
  file keeps its bytes, and the invariant of the file system holds. The size is not 0 and less than the
  512 * 16518 bytes that an inode can address.\<close>
theorem files_write_read:
  assumes "fs_inv (sys_fs s)" and "fd_open s fd ino" and "0 < sz" and "unat sz < 512 * 16518"
    and "buf_ok buf (unat sz)" and "card (used_blocks (sys_fs s)) + 3 * (unat sz div 512 + 1) \<le> NBLOCKS"
  shows "\<exists>s'. files_write fd (Some buf) sz s = Inr s' \<and> fs_inv (sys_fs s')
    \<and> (\<forall>sleep rbuf n. unat n \<le> length rbuf \<longrightarrow> files_read sleep fd (Some rbuf) n s' =
        Inr (take (min (unat n) (unat sz)) buf @ drop (min (unat n) (unat sz)) rbuf, s'))
    \<and> (\<forall>j \<in> bm_bits (fs_imap (sys_fs s)). j \<noteq> unat ino \<longrightarrow> complete (sys_fs s) j \<longrightarrow>
        complete (sys_fs s') j \<and> file_data (sys_fs s') j = file_data (sys_fs s) j)"
proof -
  obtain s' where w: "files_write fd (Some buf) sz s = Inr s'" "fs_inv (sys_fs s')" "fd_open s' fd ino"
    "complete (sys_fs s') (unat ino)" "i_size (fs_inodes (sys_fs s') ! unat ino) = sz"
    "file_data (sys_fs s') (unat ino) = take (unat sz) buf"
    "\<forall>j \<in> bm_bits (fs_imap (sys_fs s)). j \<noteq> unat ino \<longrightarrow> complete (sys_fs s) j \<longrightarrow>
        complete (sys_fs s') j \<and> file_data (sys_fs s') j = file_data (sys_fs s) j"
    using files_write_ok [OF assms] by blast
  have "files_read sleep fd (Some rbuf) n s' =
      Inr (take (min (unat n) (unat sz)) buf @ drop (min (unat n) (unat sz)) rbuf, s')"
    if "unat n \<le> length rbuf" for sleep rbuf n
    using files_read_ok [OF w(2,3,4) that, of sleep] w(5,6) by (simp add: min_absorb1)
  then show ?thesis using w by blast
qed

text \<open>A system with one open file, for the witnesses: descriptor 3 is the root inode's.\<close>

definition fsys_sample :: fsys where
  "fsys_sample = \<lparr>sys_fs = fs_sample, sys_files = [\<lparr>f_inode_idx = 0, f_ref = 1\<rparr>],
     sys_fmngr = \<lparr>fd_set = \<lparr>len_inbits = 64, bm_buff = 7 # replicate 7 0, prev_free = 4\<rparr>, fm_files = Some (replicate 64 0)\<rparr>,
     sys_kb = cclbuff_alloc 1024 [], sys_cga = cga_sample\<rparr>"

lemma fsys_sample_open: "fs_inv (sys_fs fsys_sample)" "fd_open fsys_sample 3 0"
  using fs_sample_inv fs_sample_bits
  by (simp_all add: fsys_sample_def fd_open_def file_of_def fmngr_files_get_def read_at_def)

theorem files_write_read_witness:
  "\<exists>s'. files_write 3 (Some [104, 111, 111]) 3 fsys_sample = Inr s'
     \<and> files_read Inr 3 (Some [0, 0, 0, 0]) 4 s' = Inr ([104, 111, 111, 0], s')"
proof -
  have c: "card (used_blocks (sys_fs fsys_sample)) + 3 * (unat (3 :: u32) div 512 + 1) \<le> NBLOCKS"
    by (simp add: fsys_sample_def fs_sample_used NBLOCKS_def)
  obtain s' where w: "files_write 3 (Some [104, 111, 111]) 3 fsys_sample = Inr s'"
    and r: "\<And>sleep rbuf n. unat n \<le> length rbuf \<Longrightarrow> files_read sleep 3 (Some rbuf) n s' =
        Inr (take (min (unat n) (unat (3 :: u32))) [104, 111, 111] @ drop (min (unat n) (unat (3 :: u32))) rbuf, s')"
    using files_write_read [OF fsys_sample_open _ _ _ c, of "[104, 111, 111]"] by (auto simp: buf_ok_def)
  from r [of 4 "[0, 0, 0, 0]" Inr] w show ?thesis by simp
qed

text \<open>The whole sectors of a buffer do not depend on what is behind it; the round after them does.\<close>

lemma write_loop_prefix:
  assumes "sz mod 512 = 0" and "length buf = sz"
  shows "i + n \<le> sz div 512 \<Longrightarrow> length tmp = 512 \<Longrightarrow>
    write_loop ino sz (buf @ xs) i n tmp f = write_loop ino sz buf i n tmp f"
proof (induction n arbitrary: i tmp f)
  case (Suc n)
  have q: "sz div 512 * 512 = sz" using div_mult_mod_eq [of sz 512] assms(1) by simp
  have i: "i \<noteq> sz div 512" "i * 512 + 512 \<le> length buf" using Suc.prems(1) q assms(2) by linarith+
  have e: "fill_sector tmp (buf @ xs) sz i = Inr (take 512 (drop (i * 512) buf))"
    "fill_sector tmp buf sz i = Inr (take 512 (drop (i * 512) buf))"
    using Suc.prems(2) i by (simp_all add: fill_sector_def memcpy_loop_eq)
  have "length (take 512 (drop (i * 512) buf)) = 512" using i(2) by simp
  then have "write_loop ino sz (buf @ xs) (Suc i) n (take 512 (drop (i * 512) buf)) =
      write_loop ino sz buf (Suc i) n (take 512 (drop (i * 512) buf))"
    by (intro ext Suc.IH) (use Suc.prems(1) in simp_all)
  then show ?case by (simp only: write_loop.simps e bindr_simps)
qed simp

lemma write_loop_over:
  assumes "sz mod 512 = 0" and "length buf = sz"
  shows "write_loop ino sz buf i n tmp f = Inr t \<Longrightarrow> i + n = sz div 512 \<Longrightarrow> length tmp = 512 \<Longrightarrow>
    write_loop ino sz buf i (n + 1) tmp f = fault ''memmove(): src''"
proof (induction n arbitrary: i tmp f)
  case 0
  have q: "sz div 512 * 512 = sz" using div_mult_mod_eq [of sz 512] assms(1) by simp
  have "memcpy_loop tmp 0 buf (i * 512) (Suc 511) = fault ''memmove(): src''"
    using 0(2) q assms(2) by (simp only: memcpy_loop.simps) simp
  then have "fill_sector tmp buf sz i = fault ''memmove(): src''"
    using 0(2) assms(1) by (simp add: fill_sector_def)
  then show ?case by simp
next
  case (Suc n)
  have q: "sz div 512 * 512 = sz" using div_mult_mod_eq [of sz 512] assms(1) by simp
  have i: "i \<noteq> sz div 512" "i * 512 + 512 \<le> length buf" using Suc.prems(2) q assms(2) by linarith+
  have e: "fill_sector tmp buf sz i = Inr (take 512 (drop (i * 512) buf))"
    using Suc.prems(3) i by (simp add: fill_sector_def memcpy_loop_eq)
  have len: "length (take 512 (drop (i * 512) buf)) = 512" using i(2) by simp
  obtain l s1 b s2 where s: "block_for ino i f = Inr (l, s1)"
    "free_rw_disk (Some (take 512 (drop (i * 512) buf))) l ATA_CMD_IO_WRITE s1 = Inr (b, s2)"
    "write_loop ino sz buf (Suc i) n (take 512 (drop (i * 512) buf)) s2 = Inr t"
    using Suc.prems(1) e by (auto simp: bindr_eq_Inr)
  have "write_loop ino sz buf (Suc i) (n + 1) (take 512 (drop (i * 512) buf)) s2 = fault ''memmove(): src''"
    using Suc.IH [OF s(3) _ len] Suc.prems(2) by simp
  then show ?case using e s(1,2) by simp
qed

text \<open>C35: files_write reads past the end of its buffer when the size is a multiple of 512. The loop runs
  once more than there are sectors and copies a whole sector from behind the data: with a buffer of
  exactly the size, the write does not return but makes an access outside the buffer.\<close>
theorem files_write_over_read:
  assumes "fs_inv (sys_fs s)" and "fd_open s fd ino" and "0 < sz" and "unat sz < 512 * 16518"
    and "unat sz mod 512 = 0" and "length buf = unat sz"
    and "card (used_blocks (sys_fs s)) + 3 * (unat sz div 512) \<le> NBLOCKS"
  shows "files_write fd (Some buf) sz s = fault ''memmove(): src''"
proof -
  let ?q = "unat sz div 512" and ?f = "sys_fs s" and ?B = "buf @ replicate 512 0"
  note g = fd_open_guards [OF assms(2)]
  have ino: "unat ino \<in> bm_bits (fs_imap ?f)" using assms(2) by (simp add: fd_open_def)
  have ok: "buf_ok ?B (unat sz)" using assms(5,6) by (simp add: buf_ok_def)
  have q: "?q * 512 = unat sz" using div_mult_mod_eq [of "unat sz" 512] assms(5) by simp
  have q16: "?q \<le> 16518" using assms(4) q by linarith
  obtain t where "write_loop ino (unat sz) ?B 0 ?q sect0 ?f = Inr t"
    using write_loop_ok [OF assms(1) ino, of 0 ?q "unat sz" ?B sect0] ok q16 assms(7) by auto
  then have r: "write_loop ino (unat sz) buf 0 ?q sect0 ?f = Inr t"
    using write_loop_prefix [OF assms(5,6), of 0 ?q sect0 ino "replicate 512 0" ?f] by simp
  have "write_loop ino (unat sz) buf 0 (?q + 1) sect0 ?f = fault ''memmove(): src''"
    by (rule write_loop_over [OF assms(5,6) r]) simp_all
  moreover have "\<And>msg. file_of msg fd s = Inr ino" using assms(2) by (simp add: fd_open_def)
  moreover have "sz \<noteq> 0" using assms(3) by auto
  ultimately show ?thesis using g by (simp add: files_write_def)
qed

theorem files_write_over_read_witness:
  "files_write 3 (Some (replicate 512 1)) 512 fsys_sample = fault ''memmove(): src''"
  by (rule files_write_over_read [OF fsys_sample_open])
    (simp_all add: fsys_sample_def fs_sample_used NBLOCKS_def)

subsection \<open>Descriptors\<close>

text \<open>A task's table as init_thread_fmngr leaves it after \<open>k\<close> allocations: bits 0 to 2 are set.\<close>

definition fd_state :: "nat \<Rightarrow> fmngr \<Rightarrow> bool" where
  "fd_state k f \<longleftrightarrow> bm_wf (fd_set f) \<and> bm_cap (fd_set f) = 64 \<and> bm_bits (fd_set f) = {0, 1, 2}
     \<and> unat (prev_free (fd_set f)) = (if k mod 61 = 0 then 0 else 3 + k mod 61)"

lemma fd_alloc_step:
  assumes "fd_state k f"
  shows "\<exists>f'. fmngr_alloc (Some f) = Inr (3 + word_of_nat (k mod 61), f') \<and> fd_state (Suc k) f'"
proof -
  let ?m = "fd_set f" and ?r = "k mod 61" and ?p = "unat (prev_free (fd_set f))"
  have s: "bm_wf ?m" "bm_cap ?m = 64" "bm_bits ?m = {0, 1, 2}" "?p = (if ?r = 0 then 0 else 3 + ?r)"
    using assms by (simp_all add: fd_state_def)
  have r: "?r < 61" by simp
  have "63 \<notin> bm_bits ?m" "63 \<in> {..<bm_cap ?m}" using s by simp_all
  then have nf: "bm_bits ?m \<noteq> {..<bm_cap ?m}" by blast
  obtain n j m' where n: "bitmap_scan_empty (Some ?m) = Inr (j, m')" "unat j = cyc (bm_cap ?m) ?p n" "unat j \<notin> bm_bits ?m"
    "\<forall>k' < n. cyc (bm_cap ?m) ?p k' \<in> bm_bits ?m" "bm_wf m'" "bm_cap m' = bm_cap ?m" "bm_bits m' = bm_bits ?m"
    "unat (prev_free m') = (unat j + 1) mod bm_cap ?m"
    using scan_free [OF s(1) nf] by blast
  have j: "unat j = 3 + ?r"
  proof (cases "?r = 0")
    case True
    then have c: "cyc 64 ?p i = i" if "i < 64" for i using s(4) that by (simp add: cyc_def)
    have "\<not> 3 < n" using n(4) c [of 3] s(2,3) by auto
    moreover have "n \<noteq> 0" "n \<noteq> 1" "n \<noteq> 2" using n(2,3) c [of 0] c [of 1] c [of 2] s(2,3) by auto
    ultimately have "n = 3" by linarith
    then show ?thesis using n(2) c [of 3] s(2) True by simp
  next
    case False
    then have c: "cyc 64 ?p 0 = 3 + ?r" using s(4) r by (simp add: cyc_def)
    have "\<not> 0 < n" using n(4) c s(2,3) by auto
    then show ?thesis using n(2) c s(2) by simp
  qed
  have "unat (3 + word_of_nat ?r :: u32) = 3 + ?r" using r by (simp add: unat_add_32 unat_word_of_nat_32)
  then have je: "j = 3 + word_of_nat ?r" using j by (simp add: word_unat_eq_iff)
  have "Suc k mod 61 = (if ?r = 60 then 0 else Suc ?r)" by (auto simp: mod_Suc)
  moreover have "unat (prev_free m') = (4 + ?r) mod 64" using n(8) j s(2) by simp
  ultimately have "unat (prev_free m') = (if Suc k mod 61 = 0 then 0 else 3 + Suc k mod 61)"
    using r by (cases "?r = 60") auto
  then show ?thesis using n s je by (simp add: fmngr_alloc_def fd_state_def)
qed

lemma fd_alloc_many:
  "fd_state k f \<Longrightarrow> \<exists>f'. alloc_pages (\<lambda>f. fmngr_alloc (Some f)) n f = Inr (map (\<lambda>i. 3 + word_of_nat (i mod 61)) [k..<k + n], f')
     \<and> fd_state (k + n) f'"
proof (induction n arbitrary: k f)
  case (Suc n)
  obtain f1 where f1: "fmngr_alloc (Some f) = Inr (3 + word_of_nat (k mod 61), f1)" "fd_state (Suc k) f1"
    using fd_alloc_step [OF Suc.prems] by blast
  obtain f2 where f2: "alloc_pages (\<lambda>f. fmngr_alloc (Some f)) n f1 = Inr (map (\<lambda>i. 3 + word_of_nat (i mod 61)) [Suc k..<Suc k + n], f2)"
    "fd_state (Suc k + n) f2" using Suc.IH [OF f1(2)] by blast
  have "[k..<k + Suc n] = k # [Suc k..<Suc k + n]" by (simp add: upt_conv_Cons del: upt_Suc)
  then show ?case using f1(1) f2 by simp
qed simp

text \<open>Descriptors are handed out in turn and never reserved. From the table of a new task, the n-th call
  of fmngr_alloc (counting from 0) returns 3 + n mod 61, whatever has been opened or closed in between: the
  bit of a descriptor is not set, so the sixty-second open gets descriptor 3 again, while it is open.\<close>
theorem fd_alloc_wraps:
  assumes "fd_state 0 f"
  shows "\<exists>f'. alloc_pages (\<lambda>f. fmngr_alloc (Some f)) n f = Inr (map (\<lambda>i. 3 + word_of_nat (i mod 61)) [0..<n], f')
    \<and> bm_bits (fd_set f') = {0, 1, 2}"
  using fd_alloc_many [OF assms, of n] by (auto simp: fd_state_def)

definition fm_sample :: fmngr where
  "fm_sample = \<lparr>fd_set = \<lparr>len_inbits = 64, bm_buff = 7 # replicate 7 0, prev_free = 0\<rparr>, fm_files = Some (replicate 64 0)\<rparr>"

lemma fm_sample_state: "fd_state 0 fm_sample"
proof -
  have "bit (7 :: byte) i \<longleftrightarrow> i < 3" for i
  proof -
    have "(7 :: byte) = mask 3" by (simp add: mask_eq_exp_minus_1)
    then show ?thesis by (simp only: bit_mask_iff) auto
  qed
  moreover have "bit ((7 # replicate 7 0 :: byte list) ! (i div 8)) (i mod 8) \<longleftrightarrow> i < 8 \<and> bit (7 :: byte) i" if "i < 64" for i
  proof (cases "i div 8")
    case 0
    then show ?thesis by (simp add: div_eq_0_iff)
  next
    case (Suc j)
    then have "j < 7" "\<not> i < 8" using that by auto
    then show ?thesis using Suc by simp
  qed
  ultimately have "bm_bits (fd_set fm_sample) = {0, 1, 2}"
    by (auto simp: fm_sample_def bm_bits_def bm_cap_def bm_bit_def)
  then show ?thesis by (simp add: fd_state_def fm_sample_def bm_wf_def bm_cap_def)
qed

theorem fd_alloc_wraps_witness:
  "\<exists>xs f'. alloc_pages (\<lambda>f. fmngr_alloc (Some f)) 62 fm_sample = Inr (xs, f') \<and> xs ! 0 = 3 \<and> xs ! 61 = 3"
proof -
  obtain f' where "alloc_pages (\<lambda>f. fmngr_alloc (Some f)) 62 fm_sample = Inr (map (\<lambda>i. 3 + word_of_nat (i mod 61)) [0..<62], f')"
    using fd_alloc_wraps [OF fm_sample_state, of 62] by blast
  then show ?thesis by (intro exI conjI) (assumption, simp_all del: upt_Suc)
qed

text \<open>A task that gets the table of a task that has exited cannot open any file. fmngr_init, run when
  a task exits, sets the length of the descriptor bitmap to zero and nothing sets it again: from then
  on fmngr_alloc panics.\<close>
theorem fmngr_cleared_unusable:
  assumes "bm_wf (fd_set f)" and "fm_files f = Some xs" and "64 \<le> length xs"
  shows "\<exists>f'. fmngr_init f = Inr f' \<and> fmngr_alloc (Some f') = panic ''bitmap_scan_empty(): invalid parameters''"
proof -
  have n: "unat (len_inbits (fd_set f) div 8) \<le> length (bm_buff (fd_set f))"
  proof -
    have "unat (len_inbits (fd_set f)) \<le> 8 * length (bm_buff (fd_set f))" using assms(1) by (simp add: bm_wf_def)
    then have "unat (len_inbits (fd_set f)) div 8 \<le> length (bm_buff (fd_set f))" by linarith
    then show ?thesis by (simp add: unat_div)
  qed
  have "bzero b (Some 0) 0 = Inr b" for b by (simp add: bzero_def memset_def)
  then show ?thesis using n assms(2,3)
    by (auto simp: fmngr_init_def bzero_prefix bitmap_init_def fmngr_alloc_def bitmap_scan_empty_def MAX_FILES_PER_TASK_def)
qed

theorem fmngr_cleared_unusable_witness:
  "\<exists>f'. fmngr_init fm_sample = Inr f' \<and> fmngr_alloc (Some f') = panic ''bitmap_scan_empty(): invalid parameters''"
  by (rule fmngr_cleared_unusable [where xs = "replicate 64 0"])
    (use fm_sample_state in \<open>simp_all add: fd_state_def\<close>, simp_all add: fm_sample_def)

end
