(* ===== verification/Format.thy ===== *)
theory Format
  imports Files
begin

section \<open>kern/utilities/cache_buff.c and format.c: the log cache and formatted output\<close>

text \<open>
  Formatted output goes to the screen, or to the log cache until it is redirected to a file.
  \<open>files_write\<close> is the one of the file system. The variable arguments are a list of words and
  strings; asking for a string where a number was passed (or past the last argument) is a
  \<open>Fault\<close>.
\<close>

subsection \<open>The cache\<close>

record cachebuff =
  cb_buff :: "byte list"
  cb_capacity :: u32
  cb_curlen :: u32
  cb_redirect :: u32

function flush_loop :: "cachebuff \<Rightarrow> fsys \<Rightarrow> (cachebuff \<times> fsys) res" where
  "flush_loop c s =
     (if cb_curlen c \<ge> 512 then
        bindr (files_write (cb_redirect c) (Some (cb_buff c)) 512 s) (\<lambda>s.
        flush_loop (c\<lparr>cb_curlen := cb_curlen c - 512\<rparr>) s)
      else Inr (c, s))"
  by auto
termination
proof (relation "measure (\<lambda>(c, s). unat (cb_curlen c))", goal_cases)
  case (2 c s x)
  then have "512 \<le> unat (cb_curlen c)" by (simp add: word_le_nat_alt)
  then have "unat (cb_curlen c - 512) = unat (cb_curlen c) - 512" by (intro unat_sub_32 [of 512, simplified]) simp
  then show ?case using \<open>512 \<le> unat (cb_curlen c)\<close> by simp
qed simp

declare flush_loop.simps [simp del]

definition cachebuff_flush :: "cachebuff option \<Rightarrow> fsys \<Rightarrow> (cachebuff \<times> fsys) res" where
  "cachebuff_flush cbuff s = nonnull ''scbuff_clear(): null pointer'' cbuff (\<lambda>c. flush_loop c s)"

definition cachebuff_set :: "cachebuff option \<Rightarrow> byte list option \<Rightarrow> u32 \<Rightarrow> cachebuff res" where
  "cachebuff_set cbuff buff cap_len =
     nonnull ''cachebuff_set(): null pointer'' cbuff (\<lambda>_.
     nonnull ''cachebuff_set(): null pointer'' buff (\<lambda>b.
     Inr \<lparr>cb_buff = b, cb_capacity = cap_len, cb_curlen = 0, cb_redirect = INVALID_INDEX\<rparr>))"

definition cachebuff_redirect :: "cachebuff option \<Rightarrow> u32 \<Rightarrow> cachebuff res" where
  "cachebuff_redirect cbuff redirect =
     nonnull ''cachebuff_set(): null pointer'' cbuff (\<lambda>c. Inr (c\<lparr>cb_redirect := redirect\<rparr>))"

fun copy_loop :: "byte list \<Rightarrow> nat \<Rightarrow> nat \<Rightarrow> cachebuff \<Rightarrow> cachebuff res" where
  "copy_loop str k 0 c = Inr c"
| "copy_loop str k (Suc n) c =
     bindr (read_at ''string'' str (int k)) (\<lambda>ch.
     bindr (write_at ''buff_'' (cb_buff c) (uint (cb_curlen c)) ch) (\<lambda>b.
     copy_loop str (Suc k) n (c\<lparr>cb_buff := b, cb_curlen := cb_curlen c + 1\<rparr>)))"

definition cachebuff_write :: "cachebuff option \<Rightarrow> byte list option \<Rightarrow> u32 \<Rightarrow> fsys \<Rightarrow> (cachebuff \<times> fsys) res" where
  "cachebuff_write cbuff str len s =
     nonnull ''cachebuff_write(): null pointer'' cbuff (\<lambda>c.
     nonnull ''cachebuff_write(): null pointer'' str (\<lambda>str.
     bindr
       (if cb_redirect c = INVALID_INDEX then
          if cb_curlen c + len > cb_capacity c then
            bindr (memmove (cb_buff c) (Some 0) (Some (unat len)) (unat len)) (\<lambda>(_, b).
            Inr (c\<lparr>cb_buff := b, cb_curlen := cb_curlen c - len\<rparr>, s))
          else Inr (c, s)
        else if cb_curlen c \<ge> 512 then cachebuff_flush (Some c) s
        else Inr (c, s)) (\<lambda>(c, s).
     bindr (copy_loop str 0 (unat len) c) (\<lambda>c. Inr (c, s)))))"

subsection \<open>Output\<close>

datatype redirect = To_Screen | To_Cache

record out =
  out_fsys :: fsys
  out_cache :: cachebuff

definition emit :: "byte list \<Rightarrow> nat \<Rightarrow> redirect \<Rightarrow> out \<Rightarrow> out res" where
  "emit str n redirect w =
     (case redirect of
       To_Screen \<Rightarrow>
         bindr (files_write FD_STDOUT (Some str) (word_of_nat n) (out_fsys w)) (\<lambda>s. Inr (w\<lparr>out_fsys := s\<rparr>))
     | To_Cache \<Rightarrow>
         bindr (cachebuff_write (Some (out_cache w)) (Some str) (word_of_nat n) (out_fsys w)) (\<lambda>(c, s).
         Inr (w\<lparr>out_fsys := s, out_cache := c\<rparr>)))"

definition outputc :: "byte \<Rightarrow> redirect \<Rightarrow> out \<Rightarrow> out res" where
  "outputc ch redirect w = emit [ch] 1 redirect w"

definition outputstr :: "byte list \<Rightarrow> redirect \<Rightarrow> out \<Rightarrow> out res" where
  "outputstr str redirect w = bindr (strlen str) (\<lambda>n. emit str n redirect w)"

text \<open>The digits are produced from the lowest, in an array of 32, and sent from the highest.\<close>

definition digit_char :: "u32 \<Rightarrow> byte" where
  "digit_char r = (if r < 10 then 48 + ucast r else 97 + ucast (r - 10))"

function digits_loop :: "u32 \<Rightarrow> u32 \<Rightarrow> byte list \<Rightarrow> nat \<Rightarrow> (byte list \<times> nat) res" where
  "digits_loop digit base arr i =
     bindr (write_at ''__arr_dig'' arr (int i) (digit_char (digit mod base))) (\<lambda>arr.
     if digit div base \<noteq> 0 then digits_loop (digit div base) base arr (Suc i)
     else Inr (arr, Suc i))"
  by auto
termination
  by (relation "measure (\<lambda>(digit, base, arr, i). length arr - i)")
     (auto simp: write_at_def split: if_splits)

declare digits_loop.simps [simp del]

fun send_loop :: "byte list \<Rightarrow> nat \<Rightarrow> redirect \<Rightarrow> out \<Rightarrow> out res" where
  "send_loop arr 0 redirect w = Inr w"
| "send_loop arr (Suc i) redirect w = bindr (outputc (arr ! i) redirect w) (send_loop arr i redirect)"

definition outputdig :: "byte list \<Rightarrow> u32 \<Rightarrow> u32 \<Rightarrow> redirect \<Rightarrow> out \<Rightarrow> out res" where
  "outputdig arr digit base redirect w =
     bindr (digits_loop digit base arr 0) (\<lambda>(arr, n). send_loop arr n redirect w)"

definition arr_dig :: "byte list" where "arr_dig = replicate 32 0"

datatype karg = KWord u32 | KStr "byte list"

fun word_arg :: "karg list \<Rightarrow> (u32 \<times> karg list) res" where
  "word_arg (KWord x # args) = Inr (x, args)"
| "word_arg _ = fault ''format(): argument''"

fun str_arg :: "karg list \<Rightarrow> (byte list \<times> karg list) res" where
  "str_arg (KStr x # args) = Inr (x, args)"
| "str_arg _ = fault ''format(): argument''"

text \<open>An unknown directive takes an argument too, and prints itself.\<close>

fun format :: "byte list \<Rightarrow> karg list \<Rightarrow> redirect \<Rightarrow> out \<Rightarrow> out res" where
  "format [] args redirect w = fault ''format(): no terminator''"
| "format (c # fmt) args redirect w =
     (if c = 0 then Inr w
      else if c \<noteq> 37 then bindr (outputc c redirect w) (format fmt args redirect)
      else case fmt of
        [] \<Rightarrow> fault ''format(): no terminator''
      | d # fmt' \<Rightarrow>
          if d = 0 then Inr w
          else if d = 37 then bindr (outputc 37 redirect w) (format fmt' args redirect)
          else if d = 99 then
            bindr (word_arg args) (\<lambda>(x, args). bindr (outputc (ucast x) redirect w) (format fmt' args redirect))
          else if d = 115 then
            bindr (str_arg args) (\<lambda>(x, args). bindr (outputstr x redirect w) (format fmt' args redirect))
          else if d = 100 then
            bindr (word_arg args) (\<lambda>(x, args). bindr (outputdig arr_dig x 10 redirect w) (format fmt' args redirect))
          else if d = 112 \<or> d = 88 \<or> d = 120 then
            bindr (word_arg args) (\<lambda>(x, args). bindr (outputdig arr_dig x 16 redirect w) (format fmt' args redirect))
          else
            bindr (outputc 37 redirect w) (\<lambda>w.
            bindr (outputc d redirect w) (format fmt' (tl args) redirect)))"

definition kprintf :: "byte list \<Rightarrow> karg list \<Rightarrow> out \<Rightarrow> out res" where
  "kprintf fmt args w = format fmt args To_Screen w"

definition klog_set :: "u32 \<Rightarrow> out \<Rightarrow> out" where
  "klog_set log_file w = w\<lparr>out_cache := (out_cache w)\<lparr>cb_redirect := log_file\<rparr>\<rparr>"

definition klog_write :: "byte list \<Rightarrow> karg list \<Rightarrow> out \<Rightarrow> out res" where
  "klog_write fmt args w = format fmt args To_Cache w"

end
