(* ===== verification/Cur_Dir.thy ===== *)
theory Cur_Dir
  imports Clib
begin

section \<open>kern/utilities/curdir.c: the current directory\<close>

text \<open>
  The current directory of a task is a buffer of 256 slots of 16 bytes; each slot holds one
  component with its separator, and a slot that starts with NUL ends the list. \<open>curdir_set\<close>
  cuts a path into the slots, \<open>curdir_get\<close> puts it together again, and
  \<open>get_parent_child_filename\<close> splits a path at its last separator. The buffer is one object:
  what runs over the end of a slot runs into the next one, as in the code.
\<close>

definition DIRNAME_ROOT_ASCII :: byte where "DIRNAME_ROOT_ASCII = 47"
definition DIRITEM_NAME_LEN :: nat where "DIRITEM_NAME_LEN = 16"
definition MAX_OPEN_DIR :: nat where "MAX_OPEN_DIR = 256"

lemmas curdir_consts = DIRNAME_ROOT_ASCII_def DIRITEM_NAME_LEN_def MAX_OPEN_DIR_def

record curdir =
  cd_dir :: "byte list option"
  cd_dirlen :: nat

definition curdir_init :: "curdir option \<Rightarrow> byte list option \<Rightarrow> nat \<Rightarrow> curdir res" where
  "curdir_init c dir dirlen =
     nonnull ''curdir_init(): null pointer'' c (\<lambda>c.
     bindr (case dir of None \<Rightarrow> Inr None | Some d \<Rightarrow> bindr (bzero d (Some 0) dirlen) (\<lambda>d. Inr (Some d))) (\<lambda>d.
     Inr (c\<lparr>cd_dir := d, cd_dirlen := dirlen\<rparr>)))"

fun get_loop :: "byte list \<Rightarrow> nat \<Rightarrow> nat \<Rightarrow> byte list \<Rightarrow> nat \<Rightarrow> nat \<Rightarrow> (bool \<times> byte list \<times> nat) res" where
  "get_loop dir i 0 path pathlen acc = Inr (True, path, acc)"
| "get_loop dir i (Suc n) path pathlen acc =
     bindr (read_at ''curdir_get()'' dir (int (i * DIRITEM_NAME_LEN))) (\<lambda>c.
     if c = 0 then Inr (True, path, acc)
     else
       bindr (strlen (drop (i * DIRITEM_NAME_LEN) dir)) (\<lambda>len.
       if acc + len > pathlen then Inr (False, path, acc)
       else
         bindr (memcpy_loop path acc dir (i * DIRITEM_NAME_LEN) len) (\<lambda>path.
         get_loop dir (Suc i) n path pathlen (acc + len))))"

definition curdir_get :: "curdir option \<Rightarrow> byte list \<Rightarrow> nat \<Rightarrow> (int \<times> byte list) res" where
  "curdir_get c path pathlen =
     nonnull ''curdir_get(): null pointer'' c (\<lambda>c.
     case cd_dir c of
       None \<Rightarrow> fault ''curdir_get(): no directory''
     | Some dir \<Rightarrow>
         bindr (get_loop dir 0 MAX_OPEN_DIR path pathlen 0) (\<lambda>(ok, path, acc).
         if ok then bindr (write_at ''curdir_get()'' path (int acc) 0) (\<lambda>path. Inr (0, path))
         else bindr (bzero path (Some 0) pathlen) (\<lambda>path. Inr (- 1, path))))"

text \<open>
  One component: the bytes up to the separator go to the slot at \<open>w\<close>. There is no test for the
  end of the path in this loop: a path that does not end with a separator is read on.
\<close>

fun component_loop :: "byte list \<Rightarrow> byte list \<Rightarrow> nat \<Rightarrow> (nat \<times> byte list \<times> byte list) res" where
  "component_loop dir [] w = fault ''curdir_set(): path''"
| "component_loop dir (c # path) w =
     (if c = DIRNAME_ROOT_ASCII then Inr (w, dir, path)
      else bindr (write_at ''curdir_set()'' dir (int w) c) (\<lambda>dir. component_loop dir path (Suc w)))"

fun set_loop :: "byte list \<Rightarrow> byte list \<Rightarrow> nat \<Rightarrow> nat \<Rightarrow> (bool \<times> byte list) res" where
  "set_loop dir path i 0 = Inr (False, dir)"
| "set_loop dir path i (Suc n) =
     (case path of
       [] \<Rightarrow> fault ''curdir_set(): path''
     | c # _ \<Rightarrow>
         if c = 0 then Inr (True, dir)
         else
           bindr (component_loop dir path (i * DIRITEM_NAME_LEN)) (\<lambda>(w, dir, path).
           bindr (write_at ''curdir_set()'' dir (int w) DIRNAME_ROOT_ASCII) (\<lambda>dir.
           bindr (write_at ''curdir_set()'' dir (int (Suc w)) 0) (\<lambda>dir.
           set_loop dir path (Suc i) n))))"

definition curdir_set :: "curdir option \<Rightarrow> byte list \<Rightarrow> (int \<times> curdir) res" where
  "curdir_set c path =
     nonnull ''curdir_set(): null pointer'' c (\<lambda>c.
     case cd_dir c of
       None \<Rightarrow> fault ''curdir_set(): no directory''
     | Some dir \<Rightarrow>
         bindr (bzero dir (Some 0) (cd_dirlen c)) (\<lambda>dir.
         bindr (set_loop dir path 0 MAX_OPEN_DIR) (\<lambda>(done, dir).
         Inr (if done then 0 else - 1, c\<lparr>cd_dir := Some dir\<rparr>))))"

definition curdir_copy :: "curdir option \<Rightarrow> curdir option \<Rightarrow> curdir res" where
  "curdir_copy dst src =
     (case (dst, src) of
       (Some d, Some s) \<Rightarrow>
         (case cd_dir d of
           None \<Rightarrow> Inr d
         | Some db \<Rightarrow>
             (case cd_dir s of
               Some sb \<Rightarrow> bindr (memcpy_loop db 0 sb 0 (cd_dirlen s)) (\<lambda>b. Inr (d\<lparr>cd_dir := Some b\<rparr>))
             | None \<Rightarrow> bindr (write_at ''curdir_copy()'' db 0 0) (\<lambda>b. Inr (d\<lparr>cd_dir := Some b\<rparr>))))
     | _ \<Rightarrow> panic ''curdir_copy(): null pointer'')"

text \<open>The last separator before the last byte: \<open>i\<close> counts down to 0.\<close>

fun sep_loop :: "byte list \<Rightarrow> nat \<Rightarrow> nat \<Rightarrow> nat option" where
  "sep_loop p sz 0 = (if p ! 0 = DIRNAME_ROOT_ASCII \<and> 0 \<noteq> sz - 1 then Some 0 else None)"
| "sep_loop p sz (Suc i) =
     (if p ! Suc i = DIRNAME_ROOT_ASCII \<and> Suc i \<noteq> sz - 1 then Some (Suc i) else sep_loop p sz i)"

definition get_parent_child_filename ::
  "byte list option \<Rightarrow> byte list option \<Rightarrow> (byte list \<times> byte list option) res" where
  "get_parent_child_filename path cur =
     nonnull ''get_parent_child_filename(): null pointer'' path (\<lambda>p.
     bindr (read_at ''path_to_parent'' p 0) (\<lambda>c.
     if c \<noteq> DIRNAME_ROOT_ASCII then panic ''get_parent_child_filename(): not a absolute directory''
     else
       bindr (strlen p) (\<lambda>sz.
       case sep_loop p sz (sz - 1) of
         None \<Rightarrow>
           bindr (write_at ''path_to_parent'' p 0 DIRNAME_ROOT_ASCII) (\<lambda>p.
           bindr (write_at ''path_to_parent'' p 1 0) (\<lambda>p.
           case cur of
             None \<Rightarrow> Inr (p, None)
           | Some u \<Rightarrow> bindr (write_at ''cur'' u 0 0) (\<lambda>u. Inr (p, Some u))))
       | Some sep \<Rightarrow>
           bindr (case cur of
               None \<Rightarrow> Inr None
             | Some u \<Rightarrow>
                 bindr (memcpy_loop u 0 p (Suc sep) (sz - sep - 1)) (\<lambda>u.
                 bindr (strlen u) (\<lambda>curlen.
                 bindr (read_at ''cur'' u (int curlen - 1)) (\<lambda>c.
                 if c = DIRNAME_ROOT_ASCII then bindr (write_at ''cur'' u (int curlen - 1) 0) (\<lambda>u. Inr (Some u))
                 else Inr (Some u))))) (\<lambda>cur.
           bindr (write_at ''path_to_parent'' p (int (Suc sep)) 0) (\<lambda>p.
           Inr (p, cur))))))"

subsection \<open>kern/hoo/thread_curdir.c: one per thread\<close>

definition MAX_TASKS_AMOUNT :: nat where "MAX_TASKS_AMOUNT = 1024"

text \<open>The pointer that is returned is the index in the array.\<close>

definition thread_curdir_get :: "u32 \<Rightarrow> nat res" where
  "thread_curdir_get tid =
     (if unat tid \<ge> MAX_TASKS_AMOUNT then panic ''thread_curdir_get(): thread id out of range''
      else Inr (unat tid))"

definition thread_curdir_clear :: "u32 \<Rightarrow> curdir list \<Rightarrow> curdir list res" where
  "thread_curdir_clear tid cds =
     bindr (thread_curdir_get tid) (\<lambda>k.
     bindr (read_at ''__mdata_cd'' cds (int k)) (\<lambda>cd.
     bindr (curdir_init (Some cd) (cd_dir cd) (cd_dirlen cd)) (\<lambda>cd.
     write_at ''__mdata_cd'' cds (int k) cd)))"

subsection \<open>Splitting a path\<close>

lemma sep_loop_found:
  "k \<le> i \<Longrightarrow> p ! k = 47 \<Longrightarrow> k \<noteq> sz - 1 \<Longrightarrow> (\<And>m. k < m \<Longrightarrow> m \<le> i \<Longrightarrow> p ! m \<noteq> 47 \<or> m = sz - 1) \<Longrightarrow>
   sep_loop p sz i = Some k"
  by (induction i) (auto simp: DIRNAME_ROOT_ASCII_def le_Suc_eq)

text \<open>\<open>t\<close> is empty or the separator at the end of the path.\<close>

lemma parent_child_eq:
  assumes p: "p = pre @ 47 # c @ t @ 0 # junk" and pre: "0 \<notin> set pre" "pre = [] \<or> hd pre = 47"
    and c: "0 \<notin> set c" "47 \<notin> set c" "c \<noteq> []" "length (c @ t) < 16" and t: "t = [] \<or> t = [47]"
  shows "get_parent_child_filename (Some p) (Some (replicate 16 0))
    = Inr (p[Suc (length pre) := 0], Some (c @ replicate (16 - length c) 0))"
    and "get_parent_child_filename (Some p) None = Inr (p[Suc (length pre) := 0], None)"
    and "cstr (p[Suc (length pre) := 0]) = pre @ [47]"
proof -
  define x where "x = pre @ 47 # c @ t"
  define sz where "sz = length x"
  have px: "p = x @ 0 # junk" by (simp add: p x_def)
  have z: "0 \<notin> set x" using pre(1) c(1) t by (auto simp: x_def)
  have sl: "strlen p = Inr sz" using strlen_cstr [of p] z by (simp add: px sz_def)
  have r0: "read_at w p 0 = Inr 47" for w
    using pre(2) by (cases pre) (auto simp: read_at_def p)
  have len: "sz = Suc (length pre) + length c + length t" by (simp add: sz_def x_def)
  have pk: "p ! m = (c @ t) ! (m - Suc (length pre))" if "length pre < m" "m < sz" for m
  proof -
    have "p = (pre @ [47]) @ ((c @ t) @ 0 # junk)" by (simp add: p)
    then have "p ! m = ((c @ t) @ 0 # junk) ! (m - Suc (length pre))"
      using that by (metis length_append_singleton nth_append not_less_eq)
    moreover have "m - Suc (length pre) < length (c @ t)" using that len by auto
    ultimately show ?thesis by (simp only: nth_append if_True)
  qed
  have sep: "sep_loop p sz (sz - 1) = Some (length pre)"
  proof (rule sep_loop_found)
    show "p ! length pre = 47" by (simp add: p)
    show "length pre \<le> sz - 1" "length pre \<noteq> sz - 1" using len c(3) by (cases c; simp)+
    fix m assume m: "length pre < m" "m \<le> sz - 1"
    have "m < sz" using m len by linarith
    show "p ! m \<noteq> 47 \<or> m = sz - 1"
    proof (cases "m - Suc (length pre) < length c")
      case True
      then have "p ! m = c ! (m - Suc (length pre))" using pk [OF m(1) \<open>m < sz\<close>] by (simp add: nth_append)
      then show ?thesis using c(2) True by (metis nth_mem)
    next
      case False
      then show ?thesis using m len t by auto
    qed
  qed
  have wr: "write_at w p (int (Suc (length pre))) 0 = Inr (p[Suc (length pre) := 0])" for w
    by (rule write_at_nat) (use len px in \<open>simp add: sz_def\<close>)
  show "get_parent_child_filename (Some p) None = Inr (p[Suc (length pre) := 0], None)"
    unfolding get_parent_child_filename_def by (simp add: r0 DIRNAME_ROOT_ASCII_def sl sep wr del: of_nat_Suc One_nat_def)
  define n where "n = length (c @ t)"
  have n: "n < 16" "sz - (length pre + 1) = n" using c(4) len by (simp_all add: n_def)
  have "memcpy_loop (replicate 16 0) 0 p (Suc (length pre)) n = Inr ((c @ t) @ replicate (16 - n) 0)"
    using n(1) by (subst memcpy_loop_eq) (simp_all add: p n_def)
  then have mc: "memcpy_loop (replicate 16 0) 0 p (Suc (length pre)) (sz - (length pre + 1)) = Inr ((c @ t) @ replicate (16 - n) 0)"
    by (simp only: n(2))
  obtain q where q: "replicate (16 - n) (0 :: byte) = 0 # q" using n(1) by (cases "16 - n") auto
  have zt: "0 \<notin> set (c @ t)" using c(1) t by auto
  have ul: "strlen ((c @ t) @ replicate (16 - n) 0) = Inr n"
    unfolding q by (subst strlen_cstr) (simp_all only: cstr_append [OF zt] n_def, simp)
  define cur where "cur = (c @ t) @ replicate (16 - n) (0 :: byte)"
  have npos: "0 < n" using c(3) by (simp add: n_def)
  have lcur: "length cur = 16" using n(1) by (simp add: cur_def n_def)
  have i: "int n - 1 = int (n - 1)" using npos by simp
  have "n - 1 < length (c @ t)" using npos unfolding n_def by linarith
  then have "cur ! (n - 1) = (c @ t) ! (n - 1)" unfolding cur_def by (simp only: nth_append if_True)
  then have rd: "read_at w cur (int n - 1) = Inr ((c @ t) ! (n - 1))" for w
    unfolding i using lcur n(1) npos by (subst read_at_nat) simp_all
  have res: "(if (c @ t) ! (n - 1) = 47 then bindr (write_at w cur (int n - 1) 0) (\<lambda>u. Inr (Some u)) else Inr (Some cur))
      = Inr (Some (c @ replicate (16 - length c) 0))" for w
  proof (cases "t = []")
    case True
    then have "(c @ t) ! (n - 1) = last c" using c(3) by (simp add: n_def last_conv_nth)
    moreover have "last c \<noteq> 47" using c(2,3) by (metis last_in_set)
    ultimately show ?thesis using True by (simp add: cur_def n_def)
  next
    case False
    then have tt: "t = [47]" using t by blast
    then have nc: "n - 1 = length c" by (simp add: n_def)
    have "(c @ t) ! (n - 1) = 47" unfolding nc tt by simp
    moreover have "write_at w cur (int n - 1) 0 = Inr (c @ replicate (16 - length c) 0)"
    proof -
      have "cur[length c := 0] = c @ 0 # replicate (16 - n) 0" by (simp add: cur_def tt list_update_append)
      also have "0 # replicate (16 - n) 0 = replicate (16 - length c) (0 :: byte)"
        using n(1) tt by (simp add: n_def Suc_diff_Suc flip: replicate_Suc)
      finally show ?thesis unfolding i nc using lcur n(1) nc npos by (simp add: n_def)
    qed
    ultimately show ?thesis by simp
  qed
  show "get_parent_child_filename (Some p) (Some (replicate 16 0))
    = Inr (p[Suc (length pre) := 0], Some (c @ replicate (16 - length c) 0))"
    unfolding get_parent_child_filename_def
    by (simp add: r0 DIRNAME_ROOT_ASCII_def sl sep wr mc [folded cur_def] ul [folded cur_def] rd res del: of_nat_Suc One_nat_def)
  obtain y ys where "c @ t @ 0 # junk = y # ys" using c(3) by (cases c) auto
  then have e: "p[Suc (length pre) := 0] = (pre @ [47]) @ 0 # ys" by (simp add: p list_update_append)
  show "cstr (p[Suc (length pre) := 0]) = pre @ [47]"
    unfolding e by (rule cstr_append) (use pre(1) in simp)
qed

subsection \<open>The path that was set is the path that is read\<close>

text \<open>The path made of components: a separator behind each.\<close>

definition path_of :: "byte list list \<Rightarrow> byte list" where
  "path_of cs = concat (map (\<lambda>c. c @ [47]) cs)"

text \<open>The slots \<open>i\<close> to \<open>i + length cs\<close> of the buffer hold the components.\<close>

definition slots_hold :: "byte list \<Rightarrow> nat \<Rightarrow> byte list list \<Rightarrow> bool" where
  "slots_hold dir i cs \<longleftrightarrow> (\<forall>k < length cs. take (length (cs ! k) + 2) (drop ((i + k) * 16) dir) = cs ! k @ [47, 0])
     \<and> (i + length cs < 256 \<longrightarrow> dir ! ((i + length cs) * 16) = 0)"

lemma component_loop_eq:
  "47 \<notin> set c \<Longrightarrow> w + length c \<le> length dir \<Longrightarrow>
   component_loop dir (c @ 47 # path) w = Inr (w + length c, take w dir @ c @ drop (w + length c) dir, path)"
proof (induction c arbitrary: dir w)
  case (Cons x c)
  have "component_loop dir ((x # c) @ 47 # path) w = component_loop (dir[w := x]) (c @ 47 # path) (Suc w)"
    using Cons.prems by (simp add: DIRNAME_ROOT_ASCII_def)
  also have "\<dots> = Inr (Suc w + length c, take (Suc w) (dir[w := x]) @ c @ drop (Suc w + length c) (dir[w := x]), path)"
    using Cons.prems by (intro Cons.IH) simp_all
  also have "take (Suc w) (dir[w := x]) = take w dir @ [x]" using Cons.prems by (simp add: take_Suc_conv_app_nth)
  finally show ?case using Cons.prems by simp
qed (simp add: DIRNAME_ROOT_ASCII_def)

definition comp_ok :: "byte list \<Rightarrow> bool" where
  "comp_ok c \<longleftrightarrow> 0 \<notin> set c \<and> 47 \<notin> set c \<and> length c \<le> 14"

lemma set_loop_eq:
  "length dir = 4096 \<Longrightarrow> (\<forall>c \<in> set cs. comp_ok c) \<Longrightarrow> i + length cs < 256 \<Longrightarrow> i + n = 256 \<Longrightarrow> dir = take (i * 16) dir @ replicate ((256 - i) * 16) 0 \<Longrightarrow>
   \<exists>dir'. set_loop dir (path_of cs @ 0 # junk) i n = Inr (True, dir') \<and> length dir' = 4096
     \<and> take (i * 16) dir' = take (i * 16) dir \<and> slots_hold dir' i cs"
proof (induction cs arbitrary: dir i n)
  case Nil
  then obtain m where n: "n = Suc m" by (cases n) auto
  have "dir ! (i * 16) = (take (i * 16) dir @ replicate ((256 - i) * 16) 0) ! (i * 16)" using Nil.prems(5) by simp
  also have "\<dots> = 0" using Nil.prems(1,3) by (simp add: nth_append)
  finally show ?case using Nil.prems n by (simp add: path_of_def slots_hold_def)
next
  case (Cons c cs)
  obtain m where n: "n = Suc m" using Cons.prems(3,4) by (cases n) auto
  have c: "0 \<notin> set c" "47 \<notin> set c" "length c \<le> 14" using Cons.prems(2) by (simp_all add: comp_ok_def)
  have i: "i < 255" "i * 16 + 16 \<le> 4096" using Cons.prems(3) by simp_all
  define w where "w = i * 16 + length c"
  define d1 where "d1 = take (i * 16) dir @ c @ drop w dir"
  define d2 where "d2 = (d1[w := 47])[Suc w := 0]"
  have w: "Suc w < 4096" using i c(3) by (simp add: w_def)
  have cl: "component_loop dir (c @ 47 # path_of cs @ 0 # junk) (i * 16) = Inr (w, d1, path_of cs @ 0 # junk)"
    using component_loop_eq [OF c(2), of "i * 16" dir] Cons.prems(1) w by (simp add: w_def d1_def)
  have l1: "length d1 = 4096" using Cons.prems(1) w by (simp add: d1_def w_def)
  then have wr: "write_at x d1 (int w) 47 = Inr (d1[w := 47])" "write_at x (d1[w := 47]) (int (Suc w)) 0 = Inr d2" for x
    using w by (simp, subst write_at_nat) (simp_all add: d2_def)
  have l2: "length d2 = 4096" using l1 by (simp add: d2_def)
  have hd: "path_of (c # cs) @ 0 # junk = c @ 47 # path_of cs @ 0 # junk" by (simp add: path_of_def)
  obtain y ys where y: "c @ 47 # path_of cs @ 0 # junk = y # ys" "y \<noteq> 0" using c(1) by (cases c) auto
  have step: "set_loop dir (path_of (c # cs) @ 0 # junk) i n = set_loop d2 (path_of cs @ 0 # junk) (Suc i) m"
    unfolding hd n using y cl wr by (simp add: DIRITEM_NAME_LEN_def DIRNAME_ROOT_ASCII_def del: of_nat_Suc)
  have tw: "take (Suc (Suc w)) d2 = take (i * 16) dir @ c @ [47, 0]"
  proof -
    have "take w d1 = take (i * 16) dir @ c" using Cons.prems(1) i by (simp add: d1_def w_def)
    then show ?thesis using w l1 by (simp add: d2_def take_Suc_conv_app_nth)
  qed
  have dw: "drop (Suc (Suc w)) d2 = replicate (4096 - Suc (Suc w)) 0"
  proof -
    have "drop (Suc (Suc w)) d2 = drop (Suc (Suc w)) dir" using Cons.prems(1) i by (simp add: d2_def d1_def w_def)
    also have "\<dots> = drop (Suc (Suc w)) (take (i * 16) dir @ replicate ((256 - i) * 16) 0)" using Cons.prems(5) by simp
    also have "\<dots> = replicate (4096 - Suc (Suc w)) 0"
      using Cons.prems(1) i by (simp add: w_def diff_mult_distrib)
    finally show ?thesis .
  qed
  have le: "Suc (Suc w) \<le> Suc i * 16" using c(3) by (simp add: w_def)
  have "drop (Suc i * 16) d2 = drop (Suc i * 16 - Suc (Suc w)) (drop (Suc (Suc w)) d2)"
    using le by (simp only: drop_drop le_add_diff_inverse2)
  also have "\<dots> = replicate ((256 - Suc i) * 16) 0"
    unfolding dw using le i by (simp add: diff_mult_distrib)
  finally have "drop (Suc i * 16) d2 = replicate ((256 - Suc i) * 16) 0" .
  then have z: "d2 = take (Suc i * 16) d2 @ replicate ((256 - Suc i) * 16) 0" by (metis append_take_drop_id)
  obtain dir' where dir': "set_loop d2 (path_of cs @ 0 # junk) (Suc i) m = Inr (True, dir')" "length dir' = 4096"
    "take (Suc i * 16) dir' = take (Suc i * 16) d2" "slots_hold dir' (Suc i) cs"
    using Cons.IH [OF l2 _ _ _ z, of m] Cons.prems(2,3,4) n by auto
  have t2: "take (Suc (Suc w)) dir' = take (i * 16) dir @ c @ [47, 0]"
  proof -
    have "take (Suc (Suc w)) dir' = take (Suc (Suc w)) (take (Suc i * 16) dir')" using le by (simp add: min_absorb1)
    also have "\<dots> = take (Suc (Suc w)) d2" unfolding dir'(3) using le by (simp add: min_absorb1)
    finally show ?thesis using tw by simp
  qed
  have slot: "take (length c + 2) (drop (i * 16) dir') = c @ [47, 0]"
  proof -
    have "take (length c + 2) (drop (i * 16) dir') = drop (i * 16) (take (Suc (Suc w)) dir')"
      by (simp add: take_drop w_def add.commute)
    then show ?thesis unfolding t2 using Cons.prems(1) i by simp
  qed
  have "take (i * 16) dir' = take (i * 16) (take (Suc (Suc w)) dir')" by (simp add: w_def min_absorb1)
  then have pre: "take (i * 16) dir' = take (i * 16) dir" unfolding t2 using Cons.prems(1) i by simp
  have "slots_hold dir' i (c # cs)"
    unfolding slots_hold_def
  proof (intro conjI allI impI)
    fix k assume k: "k < length (c # cs)"
    show "take (length ((c # cs) ! k) + 2) (drop ((i + k) * 16) dir') = (c # cs) ! k @ [47, 0]"
    proof (cases k)
      case 0
      then show ?thesis using slot by simp
    next
      case (Suc q)
      then show ?thesis using dir'(4) k by (simp add: slots_hold_def)
    qed
  next
    assume "i + length (c # cs) < 256"
    then show "dir' ! ((i + length (c # cs)) * 16) = 0" using dir'(4) by (simp add: slots_hold_def)
  qed
  then show ?case using step dir'(1,2) pre by auto
qed

lemma get_loop_eq:
  "length dir = 4096 \<Longrightarrow> (\<forall>c \<in> set cs. comp_ok c) \<Longrightarrow> slots_hold dir i cs \<Longrightarrow> i + length cs < 256 \<Longrightarrow> i + n = 256 \<Longrightarrow>
   acc + length (path_of cs) \<le> pathlen \<Longrightarrow> pathlen \<le> length path \<Longrightarrow>
   get_loop dir i n path pathlen acc
     = Inr (True, take acc path @ path_of cs @ drop (acc + length (path_of cs)) path, acc + length (path_of cs))"
proof (induction cs arbitrary: i n path acc)
  case Nil
  then obtain m where n: "n = Suc m" by (cases n) auto
  have "dir ! (i * 16) = 0" using Nil.prems(3,4) by (simp add: slots_hold_def)
  moreover have "i * 16 < length dir" using Nil.prems(1,4) by simp
  ultimately have "read_at w dir (int (i * 16)) = Inr 0" for w using read_at_nat [of "i * 16" dir w] by simp
  then show ?case using n by (simp add: path_of_def DIRITEM_NAME_LEN_def del: of_nat_mult)
next
  case (Cons c cs)
  obtain m where n: "n = Suc m" using Cons.prems(4,5) by (cases n) auto
  have c: "0 \<notin> set c" "length c \<le> 14" using Cons.prems(2) by (simp_all add: comp_ok_def)
  have i: "i * 16 < 4096" using Cons.prems(4) by simp
  have slot: "take (length c + 2) (drop (i * 16) dir) = c @ [47, 0]"
    using Cons.prems(3) unfolding slots_hold_def by (elim conjE allE [of _ 0]) simp
  define ys where "ys = drop (length c + 2) (drop (i * 16) dir)"
  have "drop (i * 16) dir = (c @ [47, 0]) @ ys" unfolding slot [symmetric] ys_def by (rule append_take_drop_id [symmetric])
  then have ys: "drop (i * 16) dir = (c @ [47]) @ 0 # ys" by simp
  have sl: "strlen (drop (i * 16) dir) = Inr (Suc (length c))"
    unfolding ys by (subst strlen_cstr) (simp, subst cstr_append, use c(1) in simp_all)
  have "dir ! (i * 16) = hd (drop (i * 16) dir)" using i Cons.prems(1) by (simp add: hd_drop_conv_nth)
  then have nz: "dir ! (i * 16) \<noteq> 0" unfolding ys using c(1) by (cases c) auto
  have tk: "take (Suc (length c)) (drop (i * 16) dir) = c @ [47]" unfolding ys by simp
  have "length c + 2 \<le> length (drop (i * 16) dir)" unfolding ys by simp
  then have b: "i * 16 + Suc (length c) \<le> length dir" using Cons.prems(1) i by simp
  have pl: "length (path_of (c # cs)) = Suc (length c) + length (path_of cs)" by (simp add: path_of_def)
  define q where "q = take acc path @ (c @ [47]) @ drop (acc + Suc (length c)) path"
  have mc: "memcpy_loop path acc dir (i * 16) (Suc (length c)) = Inr q"
    using memcpy_loop_eq [of acc "Suc (length c)" path "i * 16" dir] b Cons.prems(6,7) pl tk by (simp add: q_def)
  have lq: "length q = length path" using Cons.prems(6,7) pl by (simp add: q_def)
  have sh: "slots_hold dir (Suc i) cs"
    unfolding slots_hold_def
  proof (intro conjI allI impI)
    fix k assume "k < length cs"
    then have "Suc k < length (c # cs)" by simp
    then show "take (length (cs ! k) + 2) (drop ((Suc i + k) * 16) dir) = cs ! k @ [47, 0]"
      using Cons.prems(3) unfolding slots_hold_def by (elim conjE allE [of _ "Suc k"]) simp
  next
    assume "Suc i + length cs < 256"
    then show "dir ! ((Suc i + length cs) * 16) = 0" using Cons.prems(3) by (simp add: slots_hold_def)
  qed
  have ih: "get_loop dir (Suc i) m q pathlen (acc + Suc (length c)) =
      Inr (True, take (acc + Suc (length c)) q @ path_of cs @ drop (acc + Suc (length c) + length (path_of cs)) q,
        acc + Suc (length c) + length (path_of cs))"
    by (rule Cons.IH [OF Cons.prems(1) _ sh]) (use Cons.prems n pl lq in auto)
  have "take (acc + Suc (length c)) q = take acc path @ c @ [47]"
    using Cons.prems(6,7) pl by (simp add: q_def)
  moreover have "drop (acc + Suc (length c) + length (path_of cs)) q = drop (acc + length (path_of (c # cs))) path"
    using Cons.prems(6,7) pl by (simp add: q_def add.commute add.left_commute)
  moreover have "get_loop dir i n path pathlen acc = get_loop dir (Suc i) m q pathlen (acc + Suc (length c))"
  proof -
    have "read_at w dir (int (i * 16)) = Inr (dir ! (i * 16))" for w using i Cons.prems(1) by (subst read_at_nat) simp_all
    moreover have "\<not> acc + Suc (length c) > pathlen" using Cons.prems(6) pl by linarith
    ultimately show ?thesis using nz sl mc unfolding n
      by (simp add: DIRITEM_NAME_LEN_def del: of_nat_mult memcpy_loop.simps)
  qed
  ultimately show ?case using ih pl by (simp add: path_of_def)
qed

lemma curdir_get_eq:
  assumes "cd_dir c = Some dir" and "length dir = 4096" and "\<forall>x \<in> set cs. comp_ok x" and "length cs < 256"
    and "slots_hold dir 0 cs" and "length (path_of cs) < pathlen" and "pathlen \<le> length buf"
  shows "curdir_get (Some c) buf pathlen = Inr (0, path_of cs @ 0 # drop (Suc (length (path_of cs))) buf)"
proof -
  let ?n = "length (path_of cs)"
  have get: "get_loop dir 0 256 buf pathlen 0 = Inr (True, path_of cs @ drop ?n buf, ?n)"
    using get_loop_eq [OF assms(2,3,5), of 256 0 pathlen buf] assms(4,6,7) by simp
  have "write_at x (path_of cs @ drop ?n buf) (int ?n) 0 = Inr ((path_of cs @ drop ?n buf)[?n := 0])" for x
    using assms(6,7) by (intro write_at_nat) simp
  moreover have "(path_of cs @ drop ?n buf)[?n := 0] = path_of cs @ 0 # drop (Suc ?n) buf"
    using assms(6,7) by (simp add: list_update_append list_update_drop_Suc Cons_nth_drop_Suc [symmetric])
  ultimately show ?thesis using get assms(1) by (simp add: curdir_get_def MAX_OPEN_DIR_def)
qed

lemma component_unterminated: "47 \<notin> set p \<Longrightarrow> \<exists>m. component_loop dir p w = fault m"
proof (induction p arbitrary: dir w)
  case (Cons x p)
  then show ?case by (cases "w < length dir") (auto simp: DIRNAME_ROOT_ASCII_def)
qed simp

lemma component_step:
  "47 \<notin> set c \<Longrightarrow> (\<exists>m. component_loop dir (c @ 47 # path) w = fault m)
     \<or> (\<exists>w' dir'. component_loop dir (c @ 47 # path) w = Inr (w', dir', path))"
proof (induction c arbitrary: dir w)
  case (Cons x c)
  then show ?case by (cases "w < length dir") (auto simp: DIRNAME_ROOT_ASCII_def)
qed (simp add: DIRNAME_ROOT_ASCII_def)

lemma set_loop_unterminated:
  assumes c: "47 \<notin> set c" "0 \<notin> set c" "c \<noteq> []"
  shows "(\<forall>x \<in> set cs. 0 \<notin> set x \<and> 47 \<notin> set x) \<Longrightarrow> length cs < n \<Longrightarrow>
    \<exists>m. set_loop dir (path_of cs @ c @ [0]) i n = fault m"
proof (induction cs arbitrary: dir i n)
  case Nil
  then obtain k where n: "n = Suc k" by (cases n) auto
  obtain y ys where y: "c = y # ys" "y \<noteq> 0" using c by (cases c) auto
  obtain m where "component_loop dir (c @ [0]) (i * 16) = fault m" using component_unterminated [of "c @ [0]"] c(1) by auto
  then show ?case using n y by (simp add: path_of_def DIRITEM_NAME_LEN_def)
next
  case (Cons x cs)
  obtain k where n: "n = Suc k" using Cons.prems(2) by (cases n) auto
  define rest where "rest = path_of cs @ c @ [0]"
  have hd: "path_of (x # cs) @ c @ [0] = x @ 47 # rest" by (simp add: path_of_def rest_def)
  obtain y ys where y: "x @ 47 # rest = y # ys" "y \<noteq> 0" using Cons.prems(1) by (cases x) auto
  have x: "47 \<notin> set x" using Cons.prems(1) by simp
  show ?case
  proof (cases "\<exists>m. component_loop dir (x @ 47 # rest) (i * 16) = fault m")
    case True
    then obtain m where "component_loop dir (x @ 47 # rest) (i * 16) = fault m" by blast
    then show ?thesis unfolding hd n using y by (simp add: DIRITEM_NAME_LEN_def)
  next
    case False
    then obtain w' d' where w: "component_loop dir (x @ 47 # rest) (i * 16) = Inr (w', d', rest)"
      using component_step [OF x] by blast
    have e: "set_loop dir (x @ 47 # rest) i (Suc k) = bindr (write_at ''curdir_set()'' d' (int w') DIRNAME_ROOT_ASCII) (\<lambda>d.
        bindr (write_at ''curdir_set()'' d (int (Suc w')) 0) (\<lambda>d. set_loop d rest (Suc i) k))"
      using y w by (simp add: DIRITEM_NAME_LEN_def del: of_nat_Suc)
    have "\<exists>m. set_loop d rest (Suc i) k = fault m" for d
      using Cons.IH [of k d "Suc i"] Cons.prems n by (simp add: rest_def)
    then show ?thesis unfolding hd n e by (simp add: write_at_def del: of_nat_Suc)
  qed
qed

subsection \<open>Properties\<close>

text \<open>C36: The current directory is kept as it was set. For a buffer of 4096 bytes and a path of fewer
  than 256 components, each of at most 14 characters and followed by its separator, curdir_set
  returns 0, and curdir_get into a buffer that is longer than the path then returns 0 and leaves
  exactly that path, terminated, in the buffer.\<close>
theorem curdir_round_trip:
  assumes "cd_dir c = Some dir" and "length dir = 4096" and "cd_dirlen c = 4096"
    and "\<forall>x \<in> set cs. comp_ok x" and "length cs < 256"
    and "length (path_of cs) < pathlen" and "pathlen \<le> length buf"
  shows "\<exists>c' b. curdir_set (Some c) (path_of cs @ 0 # junk) = Inr (0, c')
    \<and> curdir_get (Some c') buf pathlen = Inr (0, b) \<and> cstr b = path_of cs \<and> length b = length buf"
proof -
  have z: "bzero dir (Some 0) 4096 = Inr (replicate 4096 0)" using bzero_whole [of dir] assms(2) by simp
  obtain dir' where dir': "set_loop (replicate 4096 0) (path_of cs @ 0 # junk) 0 256 = Inr (True, dir')"
    "length dir' = 4096" "slots_hold dir' 0 cs"
    using set_loop_eq [of "replicate 4096 0" cs 0 256 junk] assms(4,5) by auto
  let ?c = "c\<lparr>cd_dir := Some dir'\<rparr>" and ?n = "length (path_of cs)"
  have set: "curdir_set (Some c) (path_of cs @ 0 # junk) = Inr (0, ?c)"
    using assms(1,3) z dir'(1) by (simp add: curdir_set_def MAX_OPEN_DIR_def)
  have get: "curdir_get (Some ?c) buf pathlen = Inr (0, path_of cs @ 0 # drop (Suc ?n) buf)"
    by (rule curdir_get_eq [OF _ dir'(2) assms(4,5) dir'(3) assms(6,7)]) simp
  have "0 \<notin> set (path_of cs)" using assms(4) by (auto simp: path_of_def comp_ok_def)
  then have "cstr (path_of cs @ 0 # drop (Suc ?n) buf) = path_of cs" by simp
  moreover have "length (path_of cs @ 0 # drop (Suc ?n) buf) = length buf" using assms(6,7) by simp
  ultimately show ?thesis using set get by blast
qed

theorem curdir_round_trip_witness:
  "\<exists>c' b. curdir_set (Some \<lparr>cd_dir = Some (replicate 4096 0), cd_dirlen = 4096\<rparr>) (path_of [[], [104, 111, 111]] @ 0 # []) = Inr (0, c')
    \<and> curdir_get (Some c') (replicate 16 7) 16 = Inr (0, b) \<and> cstr b = [47, 104, 111, 111, 47] \<and> length b = 16"
proof -
  have "path_of [[], [104, 111, 111]] = [47, 104, 111, 111, 47]" by (simp add: path_of_def)
  then show ?thesis
    using curdir_round_trip [of "\<lparr>cd_dir = Some (replicate 4096 0), cd_dirlen = 4096\<rparr>" "replicate 4096 0"
      "[[], [104, 111, 111]]" 16 "replicate 16 7" "[]"]
    by (simp add: comp_ok_def path_of_def)
qed

text \<open>A path that does not end with a separator is read past its end. If the last component is
  not empty and holds neither a separator nor a NUL, and no separator follows the terminator in
  the object, curdir_set runs out of the path (or out of the buffer) and never returns.\<close>
theorem curdir_set_unterminated:
  assumes "cd_dir c = Some dir" and "cd_dirlen c \<le> length dir" and "length cs < 256"
    and "\<forall>x \<in> set cs. 0 \<notin> set x \<and> 47 \<notin> set x" and "name \<noteq> []" and "0 \<notin> set name" and "47 \<notin> set name"
  shows "\<exists>m. curdir_set (Some c) (path_of cs @ name @ [0]) = fault m"
proof -
  obtain d where "bzero dir (Some 0) (cd_dirlen c) = Inr d" using bzero_prefix [of "cd_dirlen c" dir] assms(2) by auto
  moreover obtain m where "set_loop d (path_of cs @ name @ [0]) 0 256 = fault m"
    using set_loop_unterminated [OF assms(7,6,5,4), of 256 d 0] assms(3) by blast
  ultimately show ?thesis using assms(1) by (auto simp: curdir_set_def MAX_OPEN_DIR_def)
qed

theorem curdir_set_unterminated_witness:
  "\<exists>m. curdir_set (Some \<lparr>cd_dir = Some (replicate 4096 0), cd_dirlen = 4096\<rparr>) (path_of [[]] @ [104, 111, 111] @ [0]) = fault m"
  by (rule curdir_set_unterminated [where dir = "replicate 4096 0"]) simp_all

end
