(* ===== verification/Dir.thy ===== *)
theory Dir
  imports Format Cur_Dir
begin

section \<open>kern/fs/dir.c: directories\<close>

text \<open>
  A directory is an inode whose blocks hold 21 items of 24 bytes; its \<open>size_\<close> counts items. The
  first two items of block 0 are the directory itself and its parent. The buffer of a directory
  block is a sector of 512 bytes here (the code declares 504 and lets the driver fill 512).
  \<open>diritem_remove_sub\<close> calls itself for the items of a directory and is modelled with fuel; the
  termination lemma gives the fuel that is enough.
\<close>

subsection \<open>Items and blocks of items\<close>

definition INODE_TYPE_INVALID :: u32 where "INODE_TYPE_INVALID = 0"
definition INODE_TYPE_FILE :: u32 where "INODE_TYPE_FILE = 1"
definition INODE_TYPE_DIR :: u32 where "INODE_TYPE_DIR = 2"
definition MAX_DIRITEM_PER_BLOCK :: nat where "MAX_DIRITEM_PER_BLOCK = 21"
definition INODE_INDEX_ROOT :: u32 where "INODE_INDEX_ROOT = 0"

lemmas dir_consts = INODE_TYPE_INVALID_def INODE_TYPE_FILE_def INODE_TYPE_DIR_def
  MAX_DIRITEM_PER_BLOCK_def INODE_INDEX_ROOT_def

record diritem =
  di_type :: u32
  di_inode :: u32
  di_name :: "byte list"

definition diritem0 :: diritem where
  "diritem0 = \<lparr>di_type = 0, di_inode = 0, di_name = replicate DIRITEM_NAME_LEN 0\<rparr>"

definition enc_item :: "diritem \<Rightarrow> byte list" where
  "enc_item d = enc32 (di_type d) @ enc32 (di_inode d) @ di_name d"

definition dec_item :: "byte list \<Rightarrow> diritem" where
  "dec_item b = \<lparr>di_type = get32 b 0, di_inode = get32 b 1, di_name = drop 8 b\<rparr>"

definition dir_entry :: "byte list \<Rightarrow> nat \<Rightarrow> byte list" where
  "dir_entry db j = take 24 (drop (24 * j) db)"

definition dirblock_get_new :: "byte list option \<Rightarrow> u32 \<Rightarrow> u32 \<Rightarrow> byte list res" where
  "dirblock_get_new result self parent =
     nonnull ''dirblock_get_new(): null pointer'' result (\<lambda>db.
     let cur = diritem0\<lparr>di_type := INODE_TYPE_DIR, di_inode := self, di_name := 46 # replicate 15 0\<rparr>;
         pre = diritem0\<lparr>di_type := INODE_TYPE_DIR, di_inode := parent, di_name := 46 # 46 # replicate 14 0\<rparr> in
     bindr (memcpy_loop db 0 (enc_item cur) 0 24) (\<lambda>db.
     memcpy_loop db 24 (enc_item pre) 0 24))"

definition dirblock_set :: "byte list option \<Rightarrow> nat \<Rightarrow> diritem option \<Rightarrow> byte list res" where
  "dirblock_set db block_index item =
     nonnull ''dirblock_set(): null pointer'' db (\<lambda>db.
     if block_index \<ge> MAX_DIRITEM_PER_BLOCK then panic ''dirblock_set(): index of dirblock overflow''
     else case item of
       None \<Rightarrow> bzero db (Some (24 * block_index)) 24
     | Some it \<Rightarrow> memcpy_loop db (24 * block_index) (enc_item it) 0 24)"

definition dirblock_get :: "byte list option \<Rightarrow> nat \<Rightarrow> diritem res" where
  "dirblock_get db block_index =
     nonnull ''dirblock_get(): null pointer'' db (\<lambda>db.
     bindr (memcpy_loop (replicate 24 0) 0 db (24 * block_index) 24) (\<lambda>b. Inr (dec_item b)))"

subsection \<open>Searching one directory\<close>

text \<open>The name in the block is read as a C string: it may run into the items that follow it.\<close>

fun entry_loop :: "byte list \<Rightarrow> byte list \<Rightarrow> nat \<Rightarrow> nat \<Rightarrow> nat option res" where
  "entry_loop search db j 0 = Inr None"
| "entry_loop search db j (Suc n) =
     bindr (strcmp search (drop (24 * j + 8) db)) (\<lambda>eq.
     if eq then Inr (Some j) else entry_loop search db (Suc j) n)"

definition items_in :: "nat \<Rightarrow> nat \<Rightarrow> nat" where
  "items_in sz i = (if i = sz div MAX_DIRITEM_PER_BLOCK then sz mod MAX_DIRITEM_PER_BLOCK else MAX_DIRITEM_PER_BLOCK)"

fun find_loop :: "u32 \<Rightarrow> byte list \<Rightarrow> nat \<Rightarrow> nat \<Rightarrow> nat \<Rightarrow> fs \<Rightarrow> (nat option \<times> fs) res" where
  "find_loop ino search sz i 0 s = Inr (None, s)"
| "find_loop ino search sz i (Suc n) s =
     bindr (iblock_get ino (word_of_nat i) s) (\<lambda>(lba, s).
     if lba = 0 then Inr (None, s)
     else
       bindr (free_rw_disk (Some sect0) lba ATA_CMD_IO_READ s) (\<lambda>(db, s).
       bindr (entry_loop search db 0 (items_in sz i)) (\<lambda>r.
       case r of
         Some j \<Rightarrow> Inr (Some (i * MAX_DIRITEM_PER_BLOCK + j), s)
       | None \<Rightarrow> find_loop ino search sz (Suc i) n s)))"

definition diritem_find_sub :: "diritem \<Rightarrow> byte list \<Rightarrow> fs \<Rightarrow> (nat option \<times> fs) res" where
  "diritem_find_sub di search s =
     bindr (read_at ''__fs_inodes'' (fs_inodes s) (sint (di_inode di))) (\<lambda>inode.
     let sz = unat (i_size inode) in
     find_loop (di_inode di) search sz 0 (sz div MAX_DIRITEM_PER_BLOCK + 1) s)"

subsection \<open>Removing what an item stands for\<close>

text \<open>The bits of the blocks of a file, up to the first position without a block.\<close>

fun free_loop :: "u32 \<Rightarrow> nat \<Rightarrow> nat \<Rightarrow> fs \<Rightarrow> fs res" where
  "free_loop ino i 0 s = Inr s"
| "free_loop ino i (Suc n) s =
     bindr (iblock_get ino (word_of_nat i) s) (\<lambda>(lba, s).
     if lba \<noteq> 0 then bindr (free_map_setup lba False s) (free_loop ino (Suc i) n)
     else Inr s)"

text \<open>
  \<open>rec\<close> is the recursive call. The result is \<open>None\<close> when the recursion ran out of fuel.
\<close>

fun sub_entries :: "(diritem \<Rightarrow> fs \<Rightarrow> fs res option) \<Rightarrow> byte list \<Rightarrow> nat \<Rightarrow> nat \<Rightarrow> nat \<Rightarrow> fs \<Rightarrow> fs res option" where
  "sub_entries rec db i j 0 s = Some (Inr s)"
| "sub_entries rec db i j (Suc n) s =
     (if i = 0 \<and> (j = 0 \<or> j = 1) then sub_entries rec db i (Suc j) n s
      else
        let item = dec_item (dir_entry db j) in
        if di_type item = INODE_TYPE_INVALID then Some (Inr s)
        else case rec item s of
          None \<Rightarrow> None
        | Some (Inl e) \<Rightarrow> Some (Inl e)
        | Some (Inr s) \<Rightarrow> sub_entries rec db i (Suc j) n s)"

fun sub_blocks :: "(diritem \<Rightarrow> fs \<Rightarrow> fs res option) \<Rightarrow> u32 \<Rightarrow> nat \<Rightarrow> nat \<Rightarrow> fs \<Rightarrow> fs res option" where
  "sub_blocks rec ino i 0 s = Some (Inr s)"
| "sub_blocks rec ino i (Suc n) s =
     (case iblock_get ino (word_of_nat i) s of
        Inl e \<Rightarrow> Some (Inl e)
      | Inr (lba, s) \<Rightarrow>
          if lba = 0 then Some (Inr s)
          else
            (case free_rw_disk (Some sect0) lba ATA_CMD_IO_READ s of
              Inl e \<Rightarrow> Some (Inl e)
            | Inr (db, s) \<Rightarrow>
                (case sub_entries rec db i 0 MAX_DIRITEM_PER_BLOCK s of
                  None \<Rightarrow> None
                | Some (Inl e) \<Rightarrow> Some (Inl e)
                | Some (Inr s) \<Rightarrow>
                    (case free_map_setup lba False s of
                      Inl e \<Rightarrow> Some (Inl e)
                    | Inr s \<Rightarrow> sub_blocks rec ino (Suc i) n s))))"

fun diritem_remove_sub :: "nat \<Rightarrow> diritem \<Rightarrow> fs \<Rightarrow> fs res option" where
  "diritem_remove_sub 0 di s = None"
| "diritem_remove_sub (Suc fuel) di s =
     (let clear = (\<lambda>r. (case r of
          None \<Rightarrow> None
        | Some (Inl e) \<Rightarrow> Some (Inl e)
        | Some (Inr s) \<Rightarrow> Some (inode_map_setup (di_inode di) False s))) in
      if di_type di = INODE_TYPE_FILE then
        clear (Some (free_loop (di_inode di) 0 (unat (inode_block_index_max (fs_sb s))) s))
      else if di_type di = INODE_TYPE_DIR then
        clear (case read_at ''__fs_inodes'' (fs_inodes s) (sint (di_inode di)) of
          Inl e \<Rightarrow> Some (Inl e)
        | Inr inode \<Rightarrow> sub_blocks (diritem_remove_sub fuel) (di_inode di) 0 (unat (i_size inode)) s)
      else Some (panic ''diritem_remove_sub(): bug''))"

subsection \<open>Paths\<close>

definition diritem_set :: "diritem option \<Rightarrow> u32 \<Rightarrow> u32 \<Rightarrow> byte list option \<Rightarrow> diritem res" where
  "diritem_set dir ty inode_idx name =
     (case (dir, name) of
       (Some d, Some name) \<Rightarrow>
         bindr (strlen name) (\<lambda>n.
         bindr (memcpy_loop (di_name d) 0 name 0 (n + 1)) (\<lambda>nm.
         Inr \<lparr>di_type = ty, di_inode = inode_idx, di_name = nm\<rparr>))
     | _ \<Rightarrow> panic ''diritem_set(): null pointer'')"

definition is_root_dir :: "byte list option \<Rightarrow> bool res" where
  "is_root_dir dir = nonnull ''is_root_dir(): null pointer'' dir (\<lambda>d. strcmp d [DIRNAME_ROOT_ASCII, 0])"

text \<open>One component of a path, copied to a buffer of 16 bytes.\<close>

fun name_loop :: "byte list \<Rightarrow> nat \<Rightarrow> nat \<Rightarrow> byte list \<Rightarrow> nat \<Rightarrow> (nat \<times> nat \<times> byte list) res" where
  "name_loop dir i 0 name j = Inr (i, j, name)"
| "name_loop dir i (Suc n) name j =
     (if dir ! i = DIRNAME_ROOT_ASCII then Inr (i, j, name)
      else bindr (write_at ''name_storage'' name (int j) (dir ! i)) (\<lambda>name.
        name_loop dir (Suc i) n name (Suc j)))"

lemma name_loop_forward: "name_loop dir i n name j = Inr x \<Longrightarrow> i \<le> fst x"
  by (induction n arbitrary: i j name) (fastforce simp: bindr_eq_Inr split: if_splits)+

function path_loop :: "byte list \<Rightarrow> nat \<Rightarrow> nat \<Rightarrow> diritem \<Rightarrow> diritem \<Rightarrow> byte list \<Rightarrow> fs \<Rightarrow> (diritem \<times> fs) res" where
  "path_loop dir dir_sz i cur found name s =
     (if i < dir_sz then
        bindr (name_loop dir i (dir_sz - i) name 0) (\<lambda>x.
        bindr (write_at ''name_storage'' (snd (snd x)) (int (fst (snd x))) 0) (\<lambda>name.
        bindr (diritem_find_sub cur name s) (\<lambda>(result, s).
        case result of
          None \<Rightarrow> Inr (found, s)
        | Some k \<Rightarrow>
            bindr (iblock_get (di_inode cur) (word_of_nat (k div MAX_DIRITEM_PER_BLOCK)) s) (\<lambda>(lba, s).
            if lba < lba_free (fs_sb s) then panic ''diritem_find(): bug''
            else
              bindr (free_rw_disk (Some sect0) lba ATA_CMD_IO_READ s) (\<lambda>(db, s).
              bindr (dirblock_get (Some db) (k mod MAX_DIRITEM_PER_BLOCK)) (\<lambda>item.
              if Suc (fst x) \<ge> dir_sz then path_loop dir dir_sz (Suc (fst x)) cur item name s
              else path_loop dir dir_sz (Suc (fst x)) item found name s))))))
      else Inr (found, s))"
  by auto
termination
proof (relation "measure (\<lambda>(dir, dir_sz, i, _). dir_sz - i)", goal_cases)
  case 1
  then show ?case by simp
next
  case (2 dir dir_sz i cur found name s x)
  then show ?case using name_loop_forward [of dir i] by fastforce
next
  case (3 dir dir_sz i cur found name s x)
  then show ?case using name_loop_forward [of dir i] by fastforce
qed

declare path_loop.simps [simp del]

definition diritem_find :: "diritem option \<Rightarrow> byte list option \<Rightarrow> diritem option \<Rightarrow> fs \<Rightarrow> (bool \<times> diritem \<times> fs) res" where
  "diritem_find root_dir dir found s =
     (let not_abs = panic ''diritem_find(): not absolute path'' in
      case dir of
        None \<Rightarrow> not_abs
      | Some d \<Rightarrow>
          bindr (read_at ''dir'' d 0) (\<lambda>c.
          if c \<noteq> DIRNAME_ROOT_ASCII then not_abs
          else
            nonnull ''diritem_find(): null pointer'' found (\<lambda>_.
            bindr (is_root_dir dir) (\<lambda>is_root.
            case root_dir of
              None \<Rightarrow> fault ''diritem_find(): no root directory''
            | Some r \<Rightarrow>
                if is_root then Inr (True, r, s)
                else
                  bindr (strlen d) (\<lambda>dir_sz.
                  bindr (path_loop d dir_sz 1 r diritem0 (replicate DIRITEM_NAME_LEN 0) s) (\<lambda>(found, s).
                  bindr (read_at ''found'' (di_name found) 0) (\<lambda>c.
                  Inr (c \<noteq> 0, found, s))))))))"

text \<open>The names of a directory, 16 bytes each, a separator behind the directories among them.\<close>

fun trav_entries :: "byte list \<Rightarrow> nat \<Rightarrow> byte list \<Rightarrow> nat \<Rightarrow> nat \<Rightarrow> (nat \<times> byte list) res" where
  "trav_entries buf off db j 0 = Inr (off, buf)"
| "trav_entries buf off db j (Suc n) =
     bindr (memcpy_loop buf off db (24 * j + 8) DIRITEM_NAME_LEN) (\<lambda>buf.
     bindr (if di_type (dec_item (dir_entry db j)) = INODE_TYPE_DIR then
         bindr (strlen (drop off buf)) (\<lambda>k. write_at ''buff'' buf (int (off + k)) DIRNAME_ROOT_ASCII)
       else Inr buf) (\<lambda>buf.
     trav_entries buf (off + DIRITEM_NAME_LEN) db (Suc j) n))"

fun trav_loop :: "u32 \<Rightarrow> nat \<Rightarrow> nat \<Rightarrow> nat \<Rightarrow> nat \<Rightarrow> byte list \<Rightarrow> fs \<Rightarrow> (byte list \<times> fs) res" where
  "trav_loop ino sz off i 0 buf s = Inr (buf, s)"
| "trav_loop ino sz off i (Suc n) buf s =
     bindr (iblock_get ino (word_of_nat i) s) (\<lambda>(lba, s).
     if lba = 0 then Inr (buf, s)
     else
       bindr (free_rw_disk (Some sect0) lba ATA_CMD_IO_READ s) (\<lambda>(db, s).
       bindr (trav_entries buf off db 0 (items_in sz i)) (\<lambda>(off, buf).
       trav_loop ino sz off (Suc i) n buf s)))"

definition diritem_traversal :: "diritem \<Rightarrow> fs \<Rightarrow> (byte list \<times> fs) res" where
  "diritem_traversal dir s =
     bindr (read_at ''__fs_inodes'' (fs_inodes s) (sint (di_inode dir))) (\<lambda>inode.
     let sz = unat (i_size inode); ret_sz = unat (16 * i_size inode) in
     trav_loop (di_inode dir) sz 0 0 (sz div MAX_DIRITEM_PER_BLOCK + 1) (replicate ret_sz 0) s)"

subsection \<open>Creating and entering items\<close>

definition diritem_create :: "u32 \<Rightarrow> byte list option \<Rightarrow> u32 \<Rightarrow> fs \<Rightarrow> (diritem \<times> fs) res" where
  "diritem_create ty item_name parent_inode s =
     bindr (inode_allocate s) (\<lambda>(inode_cur, s).
     bindr (inode_map_setup inode_cur True s) (\<lambda>s.
     bindr (diritem_set (Some diritem0) ty inode_cur item_name) (\<lambda>di.
     bindr (free_allocate s) (\<lambda>(free, s).
     bindr (free_map_setup free True s) (\<lambda>s.
     bindr
       (if ty = INODE_TYPE_FILE then inode_set inode_cur 0 free s
        else if ty = INODE_TYPE_DIR then
          bindr (inode_set inode_cur 2 free s) (\<lambda>s.
          bindr (dirblock_get_new (Some sect0) inode_cur parent_inode) (\<lambda>db_new.
          bindr (free_rw_disk (Some db_new) free ATA_CMD_IO_WRITE s) (\<lambda>(_, s).
          free_map_update s)))
        else panic ''diritem_create(): bug'') (\<lambda>s.
     bindr (inodes_rw_disk inode_cur ATA_CMD_IO_WRITE s) (\<lambda>s.
     bindr (inode_map_update s) (\<lambda>s.
     Inr (di, s)))))))))"

text \<open>The block that takes the next item, read or, when there is none, allocated and empty.\<close>

definition push_block :: "u32 \<Rightarrow> nat \<Rightarrow> fs \<Rightarrow> (u32 \<times> byte list \<times> fs) res" where
  "push_block ino i s =
     bindr (iblock_get ino (word_of_nat i) s) (\<lambda>(block_lba, s).
     if block_lba \<ge> lba_free (fs_sb s) then
       bindr (free_rw_disk (Some sect0) block_lba ATA_CMD_IO_READ s) (\<lambda>(db, s). Inr (block_lba, db, s))
     else if block_lba = 0 then
       bindr (free_allocate s) (\<lambda>(block_lba, s).
       bindr (free_map_setup block_lba True s) (\<lambda>s.
       bindr (free_map_update s) (\<lambda>s.
       bindr (iblock_set ino (word_of_nat i) block_lba s) (\<lambda>s.
       bindr (inodes_rw_disk ino ATA_CMD_IO_WRITE s) (\<lambda>s.
       Inr (block_lba, sect0, s))))))
     else panic ''diritem_push(): bug'')"

definition diritem_push :: "diritem option \<Rightarrow> diritem option \<Rightarrow> fs \<Rightarrow> fs res" where
  "diritem_push parent cur s =
     (case (parent, cur) of
       (Some p, Some c) \<Rightarrow>
         bindr (read_at ''__fs_inodes'' (fs_inodes s) (sint (di_inode p))) (\<lambda>inode.
         let sz = unat (i_size inode) in
         bindr (push_block (di_inode p) (sz div MAX_DIRITEM_PER_BLOCK) s) (\<lambda>(block_lba, db, s).
         bindr (memcpy_loop db (24 * (sz mod MAX_DIRITEM_PER_BLOCK)) (enc_item c) 0 24) (\<lambda>db.
         bindr (set_size (di_inode p) (i_size inode + 1) s) (\<lambda>s.
         bindr (free_rw_disk (Some db) block_lba ATA_CMD_IO_WRITE s) (\<lambda>(_, s).
         inodes_rw_disk (di_inode p) ATA_CMD_IO_WRITE s)))))
     | _ \<Rightarrow> panic ''diritem_push(): null pointer'')"

text \<open>The item leaves a hole; \<open>size_\<close> goes down by one. The result is \<open>None\<close> without enough fuel.\<close>

definition diritem_unlink :: "diritem \<Rightarrow> nat \<Rightarrow> fs \<Rightarrow> fs res" where
  "diritem_unlink p k s =
     bindr (iblock_get (di_inode p) (word_of_nat (k div MAX_DIRITEM_PER_BLOCK)) s) (\<lambda>(lba, s).
     if lba < lba_free (fs_sb s) then panic ''diritem_remove(): bug''
     else
       bindr (free_rw_disk (Some sect0) lba ATA_CMD_IO_READ s) (\<lambda>(db, s).
       bindr (dirblock_set (Some db) (k mod MAX_DIRITEM_PER_BLOCK) None) (\<lambda>db.
       bindr (free_rw_disk (Some db) lba ATA_CMD_IO_WRITE s) (\<lambda>(_, s).
       bindr (read_at ''__fs_inodes'' (fs_inodes s) (sint (di_inode p))) (\<lambda>inode.
       bindr (set_size (di_inode p) (i_size inode - 1) s) (\<lambda>s.
       inodes_rw_disk (di_inode p) ATA_CMD_IO_WRITE s))))))"

definition diritem_remove :: "nat \<Rightarrow> diritem option \<Rightarrow> diritem option \<Rightarrow> fs \<Rightarrow> (int \<times> fs) res option" where
  "diritem_remove fuel parent cur s =
     (case (parent, cur) of
       (Some p, Some c) \<Rightarrow>
         (case diritem_find_sub p (di_name c) s of
           Inl e \<Rightarrow> Some (Inl e)
         | Inr (None, s) \<Rightarrow> Some (Inr (- 1, s))
         | Inr (Some k, s) \<Rightarrow>
             (case diritem_unlink p k s of
               Inl e \<Rightarrow> Some (Inl e)
             | Inr s \<Rightarrow>
                 map_option (\<lambda>r. bindr r (\<lambda>s.
                   bindr (free_map_update s) (\<lambda>s.
                   bindr (inode_map_update s) (\<lambda>s.
                   Inr (0, s))))) (diritem_remove_sub fuel c s)))
     | _ \<Rightarrow> Some (panic ''diritem_remove(): null pointer''))"

subsection \<open>The file system and the current directories\<close>

text \<open>
  \<open>v_root\<close> is the static pointer of get_root_dir(); \<open>v_curdirs\<close> are the current directories of
  all threads, \<open>v_tid\<close> and \<open>v_parent\<close> the fields of the current PCB (its \<open>curdir_\<close> is the one
  of its own thread id).
\<close>

record vfs =
  v_out :: out
  v_root :: "diritem option"
  v_curdirs :: "curdir list"
  v_tid :: u32
  v_parent :: u32

abbreviation v_sys :: "vfs \<Rightarrow> fsys" where "v_sys v \<equiv> out_fsys (v_out v)"
abbreviation v_fs :: "vfs \<Rightarrow> fs" where "v_fs v \<equiv> sys_fs (v_sys v)"

definition set_sys :: "fsys \<Rightarrow> vfs \<Rightarrow> vfs" where
  "set_sys s v = v\<lparr>v_out := (v_out v)\<lparr>out_fsys := s\<rparr>\<rparr>"

definition set_fs :: "fs \<Rightarrow> vfs \<Rightarrow> vfs" where
  "set_fs f v = set_sys ((v_sys v)\<lparr>sys_fs := f\<rparr>) v"

definition cur_curdir :: "vfs \<Rightarrow> curdir res" where
  "cur_curdir v =
     bindr (thread_curdir_get (v_tid v)) (\<lambda>k. read_at ''curdir_'' (v_curdirs v) (int k))"

definition set_curdir :: "u32 \<Rightarrow> byte list \<Rightarrow> vfs \<Rightarrow> vfs res" where
  "set_curdir tid path v =
     bindr (thread_curdir_get tid) (\<lambda>k.
     bindr (read_at ''curdir_'' (v_curdirs v) (int k)) (\<lambda>cd.
     bindr (curdir_set (Some cd) path) (\<lambda>(_, cd).
     bindr (write_at ''curdir_'' (v_curdirs v) (int k) cd) (\<lambda>cds.
     Inr (v\<lparr>v_curdirs := cds\<rparr>)))))"

definition page0 :: "byte list" where "page0 = replicate 4096 0"

definition append_str :: "byte list \<Rightarrow> byte list \<Rightarrow> byte list res" where
  "append_str apath str =
     bindr (strlen apath) (\<lambda>k. bindr (strlen str) (\<lambda>n. memcpy_loop apath k str 0 n))"

definition close_path :: "byte list \<Rightarrow> byte list res" where
  "close_path apath =
     bindr (strlen apath) (\<lambda>len.
     bindr (read_at ''abs'' apath (int len - 1)) (\<lambda>c.
     if c \<noteq> DIRNAME_ROOT_ASCII then write_at ''abs'' apath (int len) DIRNAME_ROOT_ASCII else Inr apath))"

text \<open>
  The absolute path of the argument of \<open>cd\<close>: \<open>Inl\<close> of the value dir_change returns at once, or
  \<open>Inr\<close> of the path.
\<close>

definition abs_path :: "byte list option \<Rightarrow> vfs \<Rightarrow> (int + byte list) res" where
  "abs_path dir v =
     (case dir of
       None \<Rightarrow> bindr (write_at ''abs'' page0 0 DIRNAME_ROOT_ASCII) (\<lambda>a. Inr (Inr a))
     | Some d \<Rightarrow>
         bindr (strcmp d [46, 0]) (\<lambda>here.
         bindr (read_at ''dir'' d 0) (\<lambda>c.
         if here then Inr (Inl 0)
         else if c = DIRNAME_ROOT_ASCII then
           bindr (append_str page0 d) (\<lambda>a. bindr (close_path a) (\<lambda>a. Inr (Inr a)))
         else
           bindr (cur_curdir v) (\<lambda>cd.
           bindr (curdir_get (Some cd) page0 4096) (\<lambda>(r, a).
           if r = - 1 then Inr (Inl (- 3))
           else
             bindr (strcmp d [46, 46, 0]) (\<lambda>up.
             if \<not> up then bindr (append_str a d) (\<lambda>a. bindr (close_path a) (\<lambda>a. Inr (Inr a)))
             else bindr (get_parent_child_filename (Some a) None) (\<lambda>(a, _). Inr (Inr a))))))))"

definition dir_change :: "byte list option \<Rightarrow> vfs \<Rightarrow> (int \<times> vfs) res" where
  "dir_change dir v =
     bindr (abs_path dir v) (\<lambda>r.
     case r of
       Inl code \<Rightarrow> Inr (code, v)
     | Inr a \<Rightarrow>
         bindr (diritem_find (v_root v) (Some a) (Some diritem0) (v_fs v)) (\<lambda>(found, item, f).
         let v = set_fs f v in
         if \<not> found then Inr (- 1, v)
         else if di_type item = INODE_TYPE_FILE then Inr (- 2, v)
         else
           bindr (set_curdir (v_tid v) a v) (\<lambda>v.
           bindr (set_curdir (v_parent v) a v) (\<lambda>v.
           Inr (0, v)))))"

definition dir_get_current :: "byte list \<Rightarrow> nat \<Rightarrow> vfs \<Rightarrow> (int \<times> byte list) res" where
  "dir_get_current buff bufflen v = bindr (cur_curdir v) (\<lambda>cd. curdir_get (Some cd) buff bufflen)"

end
