(* ===== verification/File_Names.thy ===== *)
theory File_Names
  imports Dir
begin

section \<open>kern/fs/files.c by name, and module/fs.c\<close>

text \<open>
  Creating, removing, opening and listing files by path, on top of the directories, and the
  start of the file system. files_remove has the fuel of the recursive removal.
\<close>

definition files_create :: "byte list \<Rightarrow> vfs \<Rightarrow> (int \<times> vfs) res" where
  "files_create name v =
     bindr (strlen name) (\<lambda>n.
     bindr (read_at ''name'' name (int n - 1)) (\<lambda>c.
     let ty = (if c = DIRNAME_ROOT_ASCII then INODE_TYPE_DIR else INODE_TYPE_FILE) in
     bindr (diritem_find (v_root v) (Some name) (Some diritem0) (v_fs v)) (\<lambda>(found, _, f).
     if found then Inr (- 1, set_fs f v)
     else
       bindr (memcpy_loop (replicate DIRITEM_NAME_LEN 0) 0 name 0 n) (\<lambda>parent.
       bindr (get_parent_child_filename (Some parent) (Some (replicate DIRITEM_NAME_LEN 0))) (\<lambda>(parent, cur).
       bindr (diritem_find (v_root v) (Some parent) (Some diritem0) f) (\<lambda>(found, di_parent, f).
       if \<not> found then panic ''files_create(): parent directory is not found''
       else
         bindr (diritem_create ty cur (di_inode di_parent) f) (\<lambda>(di_cur, f).
         bindr (diritem_push (Some di_parent) (Some di_cur) f) (\<lambda>f.
         Inr (0, set_fs f v))))))))) "

definition files_remove :: "nat \<Rightarrow> byte list option \<Rightarrow> vfs \<Rightarrow> (int \<times> vfs) res option" where
  "files_remove fuel name v =
     (case name of
       None \<Rightarrow> Some (panic ''files_remove(): invalid filename'')
     | Some nm \<Rightarrow>
         let look = bindr (is_root_dir name) (\<lambda>is_root.
           if is_root then Inr (Inl (- 2, v))
           else
             bindr (strlen nm) (\<lambda>n.
             bindr (memcpy_loop (replicate DIRITEM_NAME_LEN 0) 0 nm 0 n) (\<lambda>parent.
             bindr (get_parent_child_filename (Some parent) None) (\<lambda>(parent, _).
             bindr (diritem_find (v_root v) (Some parent) (Some diritem0) (v_fs v)) (\<lambda>(found, di_parent, f).
             if \<not> found then Inr (Inl (- 1, set_fs f v))
             else if sint (di_inode di_parent) > int MAX_INODES \<or> di_type di_parent \<noteq> INODE_TYPE_DIR
             then Inr (Inl (- 2, set_fs f v))
             else
               bindr (diritem_find (v_root v) name (Some diritem0) f) (\<lambda>(found, di_cur, f).
               if \<not> found then Inr (Inl (- 3, set_fs f v))
               else Inr (Inr (di_parent, di_cur, f))))))))
         in
         case look of
           Inl e \<Rightarrow> Some (Inl e)
         | Inr (Inl r) \<Rightarrow> Some (Inr r)
         | Inr (Inr (di_parent, di_cur, f)) \<Rightarrow>
             map_option (\<lambda>r. bindr r (\<lambda>(_, f). Inr (0, set_fs f v)))
               (diritem_remove fuel (Some di_parent) (Some di_cur) f))"

definition files_open :: "byte list option \<Rightarrow> vfs \<Rightarrow> (u32 \<times> vfs) res" where
  "files_open name v =
     nonnull ''files_open(): null pointer'' name (\<lambda>nm.
     bindr (diritem_find (v_root v) (Some nm) (Some diritem0) (v_fs v)) (\<lambda>(found, self, f).
     let v = set_fs f v in
     if \<not> found then Inr (- 1, v)
     else if di_type self \<noteq> INODE_TYPE_FILE \<or> sint (di_inode self) > int MAX_INODES
     then panic ''files_open(): invalid file format''
     else
       bindr (fd_global_alloc (v_sys v)) (\<lambda>index.
       bindr (read_at ''__fs_files'' (sys_files (v_sys v)) (sint index)) (\<lambda>fl.
       bindr (write_at ''__fs_files'' (sys_files (v_sys v)) (sint index)
           (fl\<lparr>f_inode_idx := di_inode self, f_ref := f_ref fl + 1\<rparr>)) (\<lambda>fls.
       bindr (fmngr_alloc (Some (sys_fmngr (v_sys v)))) (\<lambda>(fd, m).
       bindr (fmngr_files_set (Some m) fd index) (\<lambda>m.
       Inr (fd, set_sys ((v_sys v)\<lparr>sys_files := fls, sys_fmngr := m\<rparr>) v)))))))) "

text \<open>\<open>"%s\t"\<close>, \<open>"\n"\<close> and \<open>"%dB\t\t%s\n"\<close>.\<close>

definition fmt_item :: "byte list" where "fmt_item = [37, 115, 9, 0]"
definition fmt_newline :: "byte list" where "fmt_newline = [10, 0]"
definition fmt_file :: "byte list" where "fmt_file = [37, 100, 66, 9, 9, 37, 115, 10, 0]"

fun print_items :: "byte list \<Rightarrow> nat \<Rightarrow> nat \<Rightarrow> out \<Rightarrow> out res" where
  "print_items dir off 0 w = Inr w"
| "print_items dir off (Suc n) w =
     bindr (kprintf fmt_item [KStr (drop off dir)] w) (print_items dir (off + DIRITEM_NAME_LEN) n)"

definition list_path :: "byte list option \<Rightarrow> vfs \<Rightarrow> (int + byte list) res" where
  "list_path dir v =
     (let relative = (\<lambda>k. bindr (cur_curdir v) (\<lambda>cd.
          bindr (curdir_get (Some cd) page0 4096) (\<lambda>(r, a).
          if r = - 1 then Inr (Inl (- 1)) else k a))) in
      case dir of
        None \<Rightarrow> relative (\<lambda>a. Inr (Inr a))
      | Some d \<Rightarrow>
          bindr (read_at ''dir_or_file'' d 0) (\<lambda>c.
          if c \<noteq> DIRNAME_ROOT_ASCII then relative (\<lambda>a. bindr (append_str a d) (\<lambda>a. Inr (Inr a)))
          else bindr (append_str page0 d) (\<lambda>a. Inr (Inr a))))"

definition files_list :: "byte list option \<Rightarrow> vfs \<Rightarrow> (int \<times> vfs) res" where
  "files_list dir_or_file v =
     bindr (list_path dir_or_file v) (\<lambda>r.
     case r of
       Inl code \<Rightarrow> Inr (code, v)
     | Inr absolute \<Rightarrow>
         bindr (diritem_find (v_root v) (Some absolute) (Some diritem0) (v_fs v)) (\<lambda>(found, item, f).
         let v = set_fs f v in
         if \<not> found then Inr (- 1, v)
         else
           let inode = read_at ''__fs_inodes'' (fs_inodes f) (sint (di_inode item)) in
           if di_type item = INODE_TYPE_FILE then
             bindr inode (\<lambda>inode.
             bindr (kprintf fmt_file [KWord (i_size inode), KStr absolute] (v_out v)) (\<lambda>w.
             Inr (0, v\<lparr>v_out := w\<rparr>)))
           else if di_type item = INODE_TYPE_DIR then
             bindr inode (\<lambda>inode.
             bindr (diritem_traversal item f) (\<lambda>(dir, f).
             bindr (print_items dir 0 (unat (i_size inode)) (v_out (set_fs f v))) (\<lambda>w.
             bindr (kprintf fmt_newline [] w) (\<lambda>w.
             Inr (0, v\<lparr>v_out := w\<rparr>)))))
           else Inr (- 1, v)))"

subsection \<open>kern/module/fs.c\<close>

definition kinit_fs :: "open_file list \<Rightarrow> vfs \<Rightarrow> vfs res" where
  "kinit_fs mem v =
     (let f = v_fs v; f = f\<lparr>fs_ata := ata_driver_change_mode ATA_METHOD_POLLING (fs_ata f)\<rparr> in
      bindr (setup_super_block f) (\<lambda>(is_new, f).
      bindr (setup_inode is_new f) (\<lambda>f.
      bindr (setup_free_map is_new f) (\<lambda>f.
      bindr
        (if is_new then diritem_create INODE_TYPE_DIR (Some [DIRNAME_ROOT_ASCII, 0]) INVALID_INDEX f
         else Inr (\<lparr>di_type = INODE_TYPE_DIR, di_inode = 0, di_name = DIRNAME_ROOT_ASCII # replicate 15 0\<rparr>, f)) (\<lambda>(root_dir, f).
      let f = f\<lparr>fs_ata := ata_driver_change_mode ATA_METHOD_IRQ (fs_ata f)\<rparr>;
          s = filesystem_init mem ((v_sys v)\<lparr>sys_fs := f\<rparr>) in
      Inr ((set_sys s v)\<lparr>v_root := Some root_dir\<rparr>))))))"

end
