(* ===== verification/Dir_Items.thy ===== *)
theory Dir_Items
  imports File_Names
begin

section \<open>A directory is a list of items\<close>

text \<open>
  The abstraction of a directory: the items its \<open>size_\<close> counts, cut out of its blocks.
  Searching is the first match in that list, entering an item appends to it, and unlinking one
  clears it in place and drops the last.
\<close>

subsection \<open>The list of items\<close>

definition dir_item :: "fs \<Rightarrow> nat \<Rightarrow> nat \<Rightarrow> diritem" where
  "dir_item s i k = dec_item (dir_entry (file_block s i (k div 21)) (k mod 21))"

definition dir_size :: "fs \<Rightarrow> nat \<Rightarrow> nat" where
  "dir_size s i = unat (i_size (fs_inodes s ! i))"

definition dir_items :: "fs \<Rightarrow> nat \<Rightarrow> diritem list" where
  "dir_items s i = map (dir_item s i) [0..<dir_size s i]"

text \<open>The name of an item, as a search reads it.\<close>

definition name_of :: "diritem \<Rightarrow> byte list" where
  "name_of d = cstr (di_name d)"

definition dir_ok :: "fs \<Rightarrow> nat \<Rightarrow> bool" where
  "dir_ok s i \<longleftrightarrow> i \<in> bm_bits (fs_imap s) \<and> dir_size s i + 21 < 21 * 16518
     \<and> (\<forall>k < dir_size s i. tree s (i, Dat (k div 21)) \<noteq> 0 \<and> 0 \<in> set (di_name (dir_item s i k)))"

fun first_match :: "('a \<Rightarrow> bool) \<Rightarrow> 'a list \<Rightarrow> nat option" where
  "first_match P [] = None"
| "first_match P (x # xs) = (if P x then Some 0 else map_option Suc (first_match P xs))"

lemma map_option_add_0 [simp]: "map_option ((+) (0 :: nat)) x = x"
  by (cases x) simp_all

lemma first_match_append:
  "first_match P (xs @ ys) = (case first_match P xs of Some j \<Rightarrow> Some j
     | None \<Rightarrow> map_option ((+) (length xs)) (first_match P ys))"
  by (induction xs) (cases "first_match P ys", auto split: option.splits)+

lemma first_match_None: "first_match P xs = None \<longleftrightarrow> (\<forall>x \<in> set xs. \<not> P x)"
  by (induction xs) auto

lemma first_match_Some: "first_match P xs = Some j \<Longrightarrow> j < length xs \<and> P (xs ! j)"
  by (induction xs arbitrary: j) (auto split: if_splits)

lemma enc_dec_entry [simp]: "length (di_name d) = 16 \<Longrightarrow> dec_item (enc_item d) = d"
  by (cases d) (simp add: dec_item_def enc_item_def get32_def)

lemma length_enc_item [simp]: "length (di_name d) = 16 \<Longrightarrow> length (enc_item d) = 24"
  by (simp add: enc_item_def)

lemma dec_entry_name: "di_name (dec_item (dir_entry db j)) = take 16 (drop (24 * j + 8) db)"
  by (simp add: dec_item_def dir_entry_def take_drop add.commute)

subsection \<open>Searching\<close>

lemma cstr_take_term: "0 \<in> set (take n xs) \<Longrightarrow> cstr (take n xs) = cstr xs"
  by (metis append_take_drop_id cstr_split cstr_append append.assoc append_Cons zero_notin_cstr)

lemma entry_loop_eq:
  assumes "0 \<in> set search"
    and "\<And>k. j \<le> k \<Longrightarrow> k < j + n \<Longrightarrow> 0 \<in> set (di_name (dec_item (dir_entry db k)))"
  shows "entry_loop search db j n = Inr (map_option ((+) j)
    (first_match (\<lambda>d. name_of d = cstr search) (map (\<lambda>k. dec_item (dir_entry db k)) [j..<j + n])))"
  using assms(2)
proof (induction n arbitrary: j)
  case (Suc n)
  have t: "0 \<in> set (take 16 (drop (24 * j + 8) db))" using Suc.prems [of j] by (simp add: dec_entry_name)
  then have "0 \<in> set (drop (24 * j + 8) db)" by (meson in_set_takeD)
  then have c: "strcmp search (drop (24 * j + 8) db) = Inr (name_of (dec_item (dir_entry db j)) = cstr search)"
    using assms(1) t by (auto simp: strcmp_iff name_of_def dec_entry_name cstr_take_term)
  have u: "[j..<j + Suc n] = j # [Suc j..<Suc j + n]" by (simp add: upt_conv_Cons)
  have ih: "entry_loop search db (Suc j) n = Inr (map_option ((+) (Suc j))
    (first_match (\<lambda>d. name_of d = cstr search) (map (\<lambda>k. dec_item (dir_entry db k)) [Suc j..<Suc j + n])))"
    by (rule Suc.IH) (use Suc.prems in auto)
  show ?case unfolding u entry_loop.simps c bindr_simps ih
    by (auto simp: option.map_comp comp_def intro!: option.map_cong)
qed simp

lemma dir_items_chunk:
  assumes "i * 21 \<le> n"
  shows "drop (i * 21) (map (dir_item s a) [0..<n])
    = map (\<lambda>k. dec_item (dir_entry (file_block s a i) k)) [0..<items_in n i]
      @ drop (i * 21 + items_in n i) (map (dir_item s a) [0..<n])"
proof -
  define c where "c = items_in n i"
  have "i \<le> n div 21" using assms by (simp add: less_eq_div_iff_mult_less_eq)
  then have c: "c \<le> 21" "i * 21 + c \<le> n"
    using mult_le_mono1 [of "Suc i" "n div 21" 21] div_mult_mod_eq [of n 21]
    by (auto simp: c_def items_in_def MAX_DIRITEM_PER_BLOCK_def simp del: div_mult_mod_eq)
  have q: "dir_item s a (i * 21 + k) = dec_item (dir_entry (file_block s a i) k)" if "k < c" for k
  proof -
    have "(i * 21 + k) div 21 = i" "(i * 21 + k) mod 21 = k" using that c(1) by simp_all
    then show ?thesis by (simp only: dir_item_def)
  qed
  have "drop (i * 21) (map (dir_item s a) [0..<n]) = map (dir_item s a) [i * 21..<n]"
    by (simp add: drop_map)
  also have "[i * 21..<n] = [i * 21..<i * 21 + c] @ [i * 21 + c..<n]"
    using c(2) by (metis upt_add_eq_append le_add1 le_add_diff_inverse)
  also have "[i * 21..<i * 21 + c] = map ((+) (i * 21)) [0..<c]" by (rule nth_equalityI) simp_all
  finally show ?thesis using q by (simp add: c_def [symmetric] drop_map comp_def)
qed

lemma find_loop_eq:
  assumes inv: "fs_inv s" and ok: "dir_ok s (unat ino)" and search: "0 \<in> set search"
    and i: "i + n = dir_size s (unat ino) div 21 + 1"
  shows "find_loop ino search (dir_size s (unat ino)) i n s
    = Inr (map_option ((+) (i * 21)) (first_match (\<lambda>d. name_of d = cstr search) (drop (i * 21) (dir_items s (unat ino)))), s)"
  using i
proof (induction n arbitrary: i)
  case 0
  have "dir_size s (unat ino) < (dir_size s (unat ino) div 21 + 1) * 21" by simp
  with 0 show ?case by (simp add: dir_items_def)
next
  case (Suc n)
  let ?a = "unat ino" and ?P = "\<lambda>d. name_of d = cstr search"
  define sz where "sz = dir_size s ?a"
  define items where "items = dir_items s ?a"
  define c where "c = items_in sz i"
  have i: "i \<le> sz div 21" using Suc.prems by (simp add: sz_def)
  then have i21: "i * 21 \<le> sz" by (simp add: less_eq_div_iff_mult_less_eq)
  have sz: "sz + 21 < 21 * 16518" and ino: "?a \<in> bm_bits (fs_imap s)" using ok by (simp_all add: dir_ok_def sz_def)
  have i2: "i < 16518" using i21 sz by linarith
  have u: "unat (word_of_nat i :: u32) = i" using i2 by (intro unat_word_of_nat_32) simp
  have get: "iblock_get ino (word_of_nat i) s = Inr (tree s (?a, Dat i), s)"
    using iblock_get_ok [OF inv ino, of "word_of_nat i"] i2 u by simp
  have chunk: "drop (i * 21) items = map (\<lambda>k. dec_item (dir_entry (file_block s ?a i) k)) [0..<c] @ drop (i * 21 + c) items"
    using dir_items_chunk [OF i21] by (simp add: items_def dir_items_def sz_def c_def)
  show ?case
  proof (cases "tree s (?a, Dat i) = 0")
    case True
    then have "\<not> i * 21 < sz" using ok unfolding dir_ok_def sz_def by (metis nonzero_mult_div_cancel_right zero_neq_numeral)
    then have "drop (i * 21) items = []" by (simp add: items_def dir_items_def sz_def)
    then show ?thesis using get True by (simp add: items_def)
  next
    case False
    then have used: "tree s (?a, Dat i) \<in> used_blocks s" using inv ino i2
      unfolding fs_inv_def tree_ok_def by (auto simp: slots_of_def)
    have rd: "free_rw_disk (Some sect0) (tree s (?a, Dat i)) ATA_CMD_IO_READ s = Inr (file_block s ?a i, s)"
      using free_rw_used(1) [OF fs_invD(1) [OF inv] used length_sect0] by (simp add: file_block_def)
    have len: "length items = sz" by (simp add: items_def dir_items_def sz_def)
    have lec: "i * 21 + c \<le> sz" using arg_cong [OF chunk, of length] i21 len by auto
    have c21: "c \<le> 21" by (simp add: c_def items_in_def MAX_DIRITEM_PER_BLOCK_def)
    have nm: "0 \<in> set (di_name (dec_item (dir_entry (file_block s ?a i) k)))" if "k < c" for k
    proof -
      have "i * 21 + k < sz" "(i * 21 + k) div 21 = i" "(i * 21 + k) mod 21 = k" using that lec c21 by auto
      then show ?thesis using ok unfolding dir_ok_def sz_def [symmetric] by (metis dir_item_def)
    qed
    have el: "entry_loop search (file_block s ?a i) 0 c = Inr (first_match ?P (map (\<lambda>k. dec_item (dir_entry (file_block s ?a i) k)) [0..<c]))"
      using entry_loop_eq [OF search, of 0 c "file_block s ?a i"] nm by (simp add: map_option_add_0)
    have step: "find_loop ino search sz i (Suc n) s = (case first_match ?P (map (\<lambda>k. dec_item (dir_entry (file_block s ?a i) k)) [0..<c]) of
        Some j \<Rightarrow> Inr (Some (i * 21 + j), s) | None \<Rightarrow> find_loop ino search sz (Suc i) n s)"
      using get rd el False by (simp add: c_def MAX_DIRITEM_PER_BLOCK_def)
    show ?thesis
    proof (cases "first_match ?P (map (\<lambda>k. dec_item (dir_entry (file_block s ?a i) k)) [0..<c])")
      case (Some j)
      then show ?thesis using step chunk by (simp add: first_match_append sz_def items_def)
    next
      case None
      have ih: "find_loop ino search sz (Suc i) n s = Inr (map_option ((+) (Suc i * 21)) (first_match ?P (drop (Suc i * 21) items)), s)"
        using Suc.IH [of "Suc i"] Suc.prems by (simp add: sz_def items_def)
      show ?thesis
      proof (cases "i = sz div 21")
        case True
        then have "i * 21 + c = sz" by (simp add: c_def items_in_def MAX_DIRITEM_PER_BLOCK_def)
        then have "drop (i * 21 + c) items = []" "drop (Suc i * 21) items = []" using len c21 by auto
        then show ?thesis using step None ih chunk by (simp add: first_match_append sz_def items_def)
      next
        case False
        then have "c = 21" by (simp add: c_def items_in_def MAX_DIRITEM_PER_BLOCK_def)
        then show ?thesis using step None ih chunk
          by (cases "first_match ?P (drop (Suc i * 21) items)") (simp_all add: first_match_append sz_def items_def add.commute [of 21])
      qed
    qed
  qed
qed

lemma diritem_find_sub_eq:
  assumes inv: "fs_inv s" and ok: "dir_ok s (unat (di_inode d))" and search: "0 \<in> set search"
  shows "diritem_find_sub d search s
    = Inr (first_match (\<lambda>it. name_of it = cstr search) (dir_items s (unat (di_inode d))), s)"
proof -
  have "unat (di_inode d) < 64" using inode_bound inv ok by (auto simp: dir_ok_def)
  then have "read_at w (fs_inodes s) (sint (di_inode d)) = Inr (fs_inodes s ! unat (di_inode d))" for w
    using ino_index(1) inv by blast
  then show ?thesis using find_loop_eq [OF inv ok search, of 0]
    by (simp add: diritem_find_sub_def dir_size_def MAX_DIRITEM_PER_BLOCK_def map_option_add_0)
qed

subsection \<open>What a directory operation leaves alone\<close>

text \<open>Writing inodes or maps to disk: nothing above block 326 and nothing in memory changes.\<close>

definition meta_only :: "fs \<Rightarrow> fs \<Rightarrow> bool" where
  "meta_only s t \<longleftrightarrow> map_ok t \<and> fs_imap t = fs_imap s \<and> fs_inodes t = fs_inodes s \<and> fs_fmap t = fs_fmap s
     \<and> (\<forall>l. 326 \<le> unat l \<longrightarrow> blk t l = blk s l)"

lemma same_file_dir:
  assumes "same_file s t j" and "j \<in> bm_bits (fs_imap t)" and "dir_ok s j"
  shows "dir_ok t j" and "dir_items t j = dir_items s j"
proof -
  have sz: "dir_size t j = dir_size s j" "dir_size s j + 21 < 21 * 16518"
    using assms(1,3) by (simp_all add: same_file_def dir_size_def dir_ok_def)
  have b: "tree t (j, Dat (k div 21)) = tree s (j, Dat (k div 21)) \<and> dir_item t j k = dir_item s j k"
    if "k < dir_size s j" for k
  proof -
    have "k div 21 < 16518" using that sz(2) by simp
    moreover have "tree s (j, Dat (k div 21)) \<noteq> 0" using assms(3) that by (simp add: dir_ok_def)
    ultimately show ?thesis using assms(1) by (simp add: same_file_def dir_item_def)
  qed
  show "dir_ok t j" using assms(2,3) sz b by (simp add: dir_ok_def)
  show "dir_items t j = dir_items s j" using sz b by (simp add: dir_items_def)
qed

lemma meta_only_inv:
  assumes inv: "fs_inv s" and m: "meta_only s t"
  shows "fs_inv t" and "used_blocks t = used_blocks s" and "slots_of t = slots_of s"
    and "\<And>x. x \<in> slots_of s \<Longrightarrow> tree t x = tree s x"
    and "j \<in> bm_bits (fs_imap s) \<Longrightarrow> same_file s t j"
proof -
  show sl: "slots_of t = slots_of s" and u: "used_blocks t = used_blocks s"
    using m by (simp_all add: slots_of_def used_blocks_def meta_only_def)
  show tt: "tree t x = tree s x" if x: "x \<in> slots_of s" for x
  proof -
    obtain j q where xj: "x = (j, q)" by (cases x)
    have "(j, q) \<in> slots_of s \<Longrightarrow> tree t (j, q) = tree s (j, q)"
    proof (induction q rule: pos_induct)
      case (root q)
      then show ?case using m by (simp add: tree_root meta_only_def)
    next
      case (child q r n)
      then have r: "(j, r) \<in> slots_of s" using slots_parent by blast
      have "tree s (j, r) = 0 \<or> 326 \<le> unat (tree s (j, r))"
        using inv r used_block_range unfolding fs_inv_def tree_ok_def by blast
      then show ?case using child.IH [OF r] m by (auto simp: tree_par [OF child.hyps] meta_only_def)
    qed
    then show ?thesis using x xj by simp
  qed
  have "used_blocks s \<subseteq> used_blocks t" using u by blast
  then have "tree_ok t" using tree_ok_cong [OF fs_invD(3) [OF inv] sl tt] by blast
  moreover have "imap_ok t" using fs_invD(2) [OF inv] m by (simp add: imap_ok_def meta_only_def)
  ultimately show "fs_inv t" using m by (simp add: fs_inv_def meta_only_def)
  show "same_file s t j" if j: "j \<in> bm_bits (fs_imap s)"
    unfolding same_file_def
  proof (intro conjI allI impI)
    show "i_size (fs_inodes t ! j) = i_size (fs_inodes s ! j)" using m by (simp add: meta_only_def)
    fix k :: nat assume k: "k < 16518"
    have x: "(j, Dat k) \<in> slots_of s" using j k by (simp add: slots_of_def)
    show "tree t (j, Dat k) = tree s (j, Dat k)" by (rule tt [OF x])
    assume "tree s (j, Dat k) \<noteq> 0"
    then have "326 \<le> unat (tree s (j, Dat k))" using inv x used_block_range unfolding fs_inv_def tree_ok_def by blast
    then show "file_block t j k = file_block s j k" using tt [OF x] m by (simp add: file_block_def meta_only_def)
  qed
qed

lemma save_inode_meta: "fs_inv s \<Longrightarrow> i < 64 \<Longrightarrow> meta_only s (save_inode i s)"
  using fs_invD(1) [OF save_inode_inv(1)] save_inode_blk by (simp add: meta_only_def)

lemma free_map_update_meta:
  assumes "fs_inv s"
  shows "\<exists>t. free_map_update s = Inr t \<and> meta_only s t"
proof -
  obtain t where "free_map_update s = Inr t" "map_ok t" "fs_fmap t = fs_fmap s" "fs_inodes t = fs_inodes s"
    "fs_imap t = fs_imap s" "\<forall>l. unat l < 67 \<or> 326 \<le> unat l \<longrightarrow> blk t l = blk s l"
    using free_map_update_eq [OF fs_invD(1) [OF assms]] by blast
  then show ?thesis by (intro exI [of _ t]) (simp add: meta_only_def)
qed

lemma inode_map_update_meta:
  assumes "fs_inv s"
  shows "\<exists>t. inode_map_update s = Inr t \<and> meta_only s t"
proof -
  have "length (bm_buff (fs_imap s)) = 512" "ata_ready (fs_ata s)" "lba_map_inode (fs_sb s) = 2"
    using fs_invD(2) [OF assms] fs_inv_ready [OF assms] by (simp_all add: imap_ok_def layout_def)
  then have "inode_map_update s = Inr (set_blk 2 (bm_buff (fs_imap s)) s)"
    using fs_rw_sector(2) [of s "bm_buff (fs_imap s)" 2] by (simp add: inode_map_update_def)
  moreover have "meta_only s (set_blk 2 (bm_buff (fs_imap s)) s)"
    using fs_invD(1) [OF assms] \<open>length (bm_buff (fs_imap s)) = 512\<close> by (auto simp: meta_only_def map_ok_def)
  ultimately show ?thesis by blast
qed

end
