(* ===== verification/Dir_Update.thy ===== *)
theory Dir_Update
  imports Dir_Items
begin

section \<open>Entering, unlinking and creating items\<close>

text \<open>
  The writes of the directory operations, as updates of the list of items of one directory
  that leave every other file of the disk as it was.
\<close>

subsection \<open>One block of one file\<close>

text \<open>Every block of every file but block \<open>k\<close> of file \<open>i\<close> is in place and unchanged.\<close>

definition same_but :: "fs \<Rightarrow> fs \<Rightarrow> nat \<Rightarrow> nat \<Rightarrow> bool" where
  "same_but s t i k \<longleftrightarrow> fs_inv t \<and> fs_imap t = fs_imap s
     \<and> (\<forall>j m. (j, Dat m) \<in> slots_of s \<longrightarrow> (j, m) \<noteq> (i, k) \<longrightarrow> tree t (j, Dat m) = tree s (j, Dat m)
          \<and> (tree s (j, Dat m) \<noteq> 0 \<longrightarrow> file_block t j m = file_block s j m))"

lemma same_but_trans: "same_but s t i k \<Longrightarrow> same_but t u i k \<Longrightarrow> same_but s u i k"
  by (simp add: same_but_def slots_of_def)

lemma same_but_file:
  assumes "same_but s t i k" and "\<And>j. i_size (fs_inodes t ! j) = i_size (fs_inodes s ! j)"
    and "j \<in> bm_bits (fs_imap s)" and "j \<noteq> i"
  shows "same_file s t j"
  using assms by (simp add: same_file_def same_but_def slots_of_def)

lemma meta_same_but: "fs_inv s \<Longrightarrow> meta_only s t \<Longrightarrow> same_but s t i k"
  using meta_only_inv [of s t] by (auto simp: same_but_def meta_only_def same_file_def slots_of_def)

lemma put_block:
  assumes inv: "fs_inv s" and x: "(i, Dat k) \<in> slots_of s" and l: "l = tree s (i, Dat k)" "l \<noteq> 0"
    and b: "length b = 512"
  shows "free_rw_disk (Some b) l ATA_CMD_IO_WRITE s = Inr (b, set_blk l b s)"
    and "same_but s (set_blk l b s) i k" and "tree (set_blk l b s) (i, Dat k) = l"
    and "file_block (set_blk l b s) i k = b"
proof -
  have used: "l \<in> used_blocks s" using inv x l unfolding fs_inv_def tree_ok_def by blast
  show "free_rw_disk (Some b) l ATA_CMD_IO_WRITE s = Inr (b, set_blk l b s)"
    using free_rw_used(2) [OF fs_invD(1) [OF inv] used b] .
  have nt: "l \<notin> tabs s" using data_not_tab [OF inv x] l by simp
  have tt: "tree (set_blk l b s) y = tree s y" if "y \<in> slots_of s" for y
    by (rule tree_set_blk_nontab [OF that nt])
  show here: "tree (set_blk l b s) (i, Dat k) = l" using tt [OF x] l by simp
  then show "file_block (set_blk l b s) i k = b" by (simp add: file_block_def)
  have "tree s (j, Dat m) \<noteq> l" if "(j, Dat m) \<in> slots_of s" "(j, m) \<noteq> (i, k)" for j m
    using inv x l that unfolding fs_inv_def tree_ok_def by (metis pos.inject(1) prod.inject)
  then show "same_but s (set_blk l b s) i k"
    using fs_inv_set_blk_nontab [OF inv nt b] tt by (simp add: same_but_def file_block_def)
qed

subsection \<open>The block that takes the next item\<close>

definition pushed :: "fs \<Rightarrow> fs \<Rightarrow> nat \<Rightarrow> nat \<Rightarrow> bool" where
  "pushed s t i k \<longleftrightarrow> same_but s t i k \<and> (\<forall>j. i_size (fs_inodes t ! j) = i_size (fs_inodes s ! j))
     \<and> card (used_blocks t) \<le> card (used_blocks s) + 3 \<and> tree t (i, Dat k) \<noteq> 0"

lemma push_block_ok:
  assumes inv: "fs_inv s" and ino: "unat ino \<in> bm_bits (fs_imap s)" and k: "k < 16518"
    and room: "card (used_blocks s) + 3 \<le> NBLOCKS"
  shows "\<exists>db t. push_block ino k s = Inr (tree t (unat ino, Dat k), db, t) \<and> length db = 512
    \<and> pushed s t (unat ino) k \<and> (tree s (unat ino, Dat k) \<noteq> 0 \<longrightarrow> db = file_block s (unat ino) k)"
proof -
  let ?i = "unat ino"
  have i64: "?i < 64" using inode_bound inv ino by blast
  have u: "unat (word_of_nat k :: u32) = k" using k by (intro unat_word_of_nat_32) simp
  have get: "iblock_get ino (word_of_nat k) s = Inr (tree s (?i, Dat k), s)"
    using iblock_get_ok [OF inv ino, of "word_of_nat k"] k u by simp
  have x: "(?i, Dat k) \<in> slots_of s" using ino k by (simp add: slots_of_def)
  have lf: "lba_free (fs_sb s) = 326" using inv by simp
  show ?thesis
  proof (cases "tree s (?i, Dat k) = 0")
    case False
    then have used: "tree s (?i, Dat k) \<in> used_blocks s" using inv x unfolding fs_inv_def tree_ok_def by blast
    then have ge: "326 \<le> tree s (?i, Dat k)" using used_block_range inv by (auto simp: word_le_nat_alt)
    have "free_rw_disk (Some sect0) (tree s (?i, Dat k)) ATA_CMD_IO_READ s = Inr (file_block s ?i k, s)"
      using free_rw_used(1) [OF fs_invD(1) [OF inv] used length_sect0] by (simp add: file_block_def)
    moreover have "length (file_block s ?i k) = 512" using inv by (simp add: file_block_def)
    ultimately show ?thesis using get ge lf inv False
      by (intro exI [of _ "file_block s ?i k"] exI [of _ s]) (simp add: push_block_def pushed_def same_but_def)
  next
    case True
    have nf: "\<not> blocks_full s" using room blocks_full_iff [of s] inv by auto
    obtain l s1 s2 where a: "free_allocate s = Inr (l, s1)" "free_map_setup l True s1 = Inr s2" "l \<notin> used_blocks s"
      "used_blocks s2 = insert l (used_blocks s)" "map_ok s2" "same_but_fmap s s2" "326 \<le> unat l"
      using take_block [OF fs_invD(1) [OF inv] nf] by blast
    have l0: "l \<noteq> 0" using a(7) by auto
    note s2 = fs_inv_same_but_fmap [OF inv a(6,5)] and e = same_but_fmapD [OF a(6)]
    have inv2: "fs_inv s2" and t2: "tree s2 = tree s" and sl2: "slots_of s2 = slots_of s" using s2 a(4) by auto
    obtain s3 where s3: "free_map_update s2 = Inr s3" "meta_only s2 s3" using free_map_update_meta [OF inv2] by blast
    note m3 = meta_only_inv [OF inv2 s3(2)]
    have fresh: "tree s3 z \<noteq> l" if "z \<in> slots_of s3" for z
      using that inv a(3) l0 m3(3,4) unfolding t2 sl2 fs_inv_def tree_ok_def by metis
    have c: "card (used_blocks s3) + 2 \<le> NBLOCKS" using a(3,4) m3(2) room by simp
    have im3: "fs_imap s3 = fs_imap s" using s3(2) e by (simp add: meta_only_def)
    obtain s4 where s4: "iblock_set ino (word_of_nat k) l s3 = Inr s4" "iblock_post ?i k l s3 s4"
      using iblock_set_ok [OF m3(1) _ _ _ fresh c, of ino "word_of_nat k"] ino im3 k u a(4) m3(2) by auto
    have inv4: "fs_inv s4" and ext4: "extends 2 s3 s4" using s4(2) by (simp_all add: iblock_post_def)
    define t where "t = save_inode ?i s4"
    have w: "inodes_rw_disk ino ATA_CMD_IO_WRITE s4 = Inr t"
      unfolding t_def using inv4 i64 by (intro inodes_write_eq) auto
    have mt: "meta_only s4 t" unfolding t_def by (rule save_inode_meta [OF inv4 i64])
    have run: "push_block ino k s = Inr (l, sect0, t)"
      using get True a(1,2) s3(1) s4(1) w lf by (simp add: push_block_def)
    have sb2: "same_but s s2 ?i k" using inv2 e t2 by (simp add: same_but_def file_block_def)
    have sb4: "same_but s3 s4 ?i k"
      unfolding same_but_def
    proof (intro conjI allI impI)
      show "fs_inv s4" "fs_imap s4 = fs_imap s3" using inv4 ext4 by (simp_all add: extends_def)
      fix j m assume jm: "(j, Dat m) \<in> slots_of s3" "(j, m) \<noteq> (?i, k)"
      show tr: "tree s4 (j, Dat m) = tree s3 (j, Dat m)" using s4(2) jm by (auto simp: iblock_post_def)
      assume "tree s3 (j, Dat m) \<noteq> 0"
      from extends_leaf_block [OF m3(1) ext4 jm(1) this] tr
      show "file_block s4 j m = file_block s3 j m" by (simp add: file_block_def)
    qed
    have sb: "same_but s t ?i k"
      using same_but_trans [OF same_but_trans [OF same_but_trans [OF sb2 meta_same_but [OF inv2 s3(2)]] sb4]
          meta_same_but [OF inv4 mt]] .
    have sl3: "slots_of s3 = slots_of s" using m3(3) sl2 by simp
    have "tree s4 (?i, Dat k) = l" using s4(2) x sl3 by (simp add: iblock_post_def)
    moreover have "(?i, Dat k) \<in> slots_of s4" using x sl3 extends_slots [OF ext4] by simp
    ultimately have tl: "tree t (?i, Dat k) = l" using meta_only_inv(4) [OF inv4 mt] by simp
    have "i_size (fs_inodes t ! j) = i_size (fs_inodes s ! j)" for j
      using mt ext4 s3(2) e by (simp add: meta_only_def extends_def)
    moreover have "card (used_blocks t) \<le> card (used_blocks s) + 3"
      using meta_only_inv(2) [OF inv4 mt] ext4 m3(2) a(3,4) by (simp add: extends_def)
    ultimately have "pushed s t ?i k" using sb tl l0 by (simp add: pushed_def)
    then show ?thesis using run tl True by (intro exI [of _ sect0] exI [of _ t]) simp
  qed
qed

subsection \<open>One item of a block\<close>

definition patch :: "byte list \<Rightarrow> nat \<Rightarrow> byte list \<Rightarrow> byte list" where
  "patch db k e = take (24 * k) db @ e @ drop (24 * k + 24) db"

lemma length_patch [simp]: "length db = 512 \<Longrightarrow> k < 21 \<Longrightarrow> length e = 24 \<Longrightarrow> length (patch db k e) = 512"
  by (simp add: patch_def)

lemma memcpy_patch: "length db = 512 \<Longrightarrow> k < 21 \<Longrightarrow> length e = 24 \<Longrightarrow> memcpy_loop db (24 * k) e 0 24 = Inr (patch db k e)"
  by (simp add: memcpy_loop_eq patch_def)

lemma entry_patch:
  assumes "length db = 512" and "k < 21" and "length e = 24"
  shows "dir_entry (patch db k e) j = (if j = k then e else dir_entry db j)"
proof -
  consider "j = k" | "j < k" | "k < j" by linarith
  then show ?thesis
  proof cases
    case 2
    then have "24 * j + 24 \<le> 24 * k" by linarith
    then have "take 24 (drop (24 * j) (take (24 * k) db)) = take 24 (drop (24 * j) db)"
      by (simp add: drop_take min_absorb1)
    moreover have "length (drop (24 * j) (take (24 * k) db)) \<ge> 24" using assms \<open>24 * j + 24 \<le> 24 * k\<close> by simp
    ultimately show ?thesis using 2 assms by (simp add: patch_def dir_entry_def)
  next
    case 3
    then have "24 * k + 24 \<le> 24 * j" by linarith
    then obtain d where "24 * j = 24 * k + 24 + d" by (metis le_add_diff_inverse)
    then show ?thesis using 3 assms by (simp add: patch_def dir_entry_def add.commute)
  qed (use assms in \<open>simp add: patch_def dir_entry_def\<close>)
qed

text \<open>The items of a directory after block \<open>n div 21\<close> was patched and the size set.\<close>

lemma dir_item_patched:
  assumes "file_block t i (n div 21) = patch db (n mod 21) e" and "length db = 512" and "length e = 24"
    and "\<And>m. m \<le> n div 21 \<Longrightarrow> m * 21 < n \<Longrightarrow> m \<noteq> n div 21 \<Longrightarrow> file_block t i m = file_block s i m"
    and "n div 21 * 21 < n \<Longrightarrow> db = file_block s i (n div 21)" and "k < n"
  shows "dir_item t i k = dir_item s i k"
proof (cases "k div 21 = n div 21")
  case True
  then have ne: "k mod 21 \<noteq> n mod 21" using assms(6) by (metis div_mult_mod_eq less_irrefl)
  have "k div 21 * 21 \<le> k" by simp
  then have "n div 21 * 21 < n" using True assms(6) by linarith
  then show ?thesis using assms True ne by (simp add: dir_item_def entry_patch)
next
  case False
  then have "k div 21 < n div 21" using assms(6) by (metis div_le_mono le_neq_implies_less less_imp_le)
  moreover have "k div 21 * 21 < n" using assms(6) by (meson div_times_less_eq_dividend le_less_trans)
  ultimately show ?thesis using assms(4) [of "k div 21"] by (simp add: dir_item_def)
qed

lemma put_size_same_but:
  assumes "fs_inv s" and "i < 64"
  shows "same_but s (put_size i sz s) i k" and "file_block (put_size i sz s) j m = file_block s j m"
    and "used_blocks (put_size i sz s) = used_blocks s"
proof -
  note p = put_size_inv [OF assms, where sz = sz]
  have b: "blk (put_size i sz s) = blk s" by (simp add: put_size_def)
  show fb: "file_block (put_size i sz s) j m = file_block s j m" for j m by (simp add: file_block_def b p(2))
  show "same_but s (put_size i sz s) i k" using p(1,2) fb by (simp add: same_but_def) (simp add: put_size_def)
  show "used_blocks (put_size i sz s) = used_blocks s" by (simp add: put_size_def used_blocks_def)
qed

lemma put_size_size:
  "length (fs_inodes s) = 64 \<Longrightarrow> i < 64 \<Longrightarrow>
   i_size (fs_inodes (put_size i sz s) ! j) = (if j = i then sz else i_size (fs_inodes s ! j))"
  by (simp add: put_size_def nth_list_update)

lemma set_size_eq: "imap_ok s \<Longrightarrow> unat ino < 64 \<Longrightarrow> set_size ino sz s = Inr (put_size (unat ino) sz s)"
  using ino_index [of s ino] by (simp add: set_size_def put_size_def)

text \<open>Writing one block of a directory and its size, and the inode to disk.\<close>

lemma write_dir_block:
  fixes sz :: u32
  assumes inv: "fs_inv s" and i: "i \<in> bm_bits (fs_imap s)" and k: "k < 16518" and l: "l = tree s (i, Dat k)" "l \<noteq> 0"
    and b: "length b = 512"
  defines "u \<equiv> save_inode i (set_blk l b (put_size i sz s))"
  shows "same_but s u i k" and "file_block u i k = b" and "tree u (i, Dat k) = l" and "used_blocks u = used_blocks s"
    and "i_size (fs_inodes u ! j) = (if j = i then sz else i_size (fs_inodes s ! j))"
    and "free_rw_disk (Some b) l ATA_CMD_IO_WRITE (put_size i sz s) = Inr (b, set_blk l b (put_size i sz s))"
    and "inodes_rw_disk (word_of_nat i) ATA_CMD_IO_WRITE (set_blk l b (put_size i sz s)) = Inr u"
proof -
  define p where "p = put_size i sz s"
  define q where "q = set_blk l b p"
  have i64: "i < 64" using inode_bound inv i by blast
  note pi = put_size_inv [OF inv i64, where sz = sz, folded p_def]
    and ps = put_size_same_but [OF inv i64, where sz = sz, folded p_def]
  have x: "(i, Dat k) \<in> slots_of p" using i k pi(3) by (simp add: slots_of_def)
  note pb = put_block [OF pi(1) x _ l(2) b, folded q_def]
  have lp: "l = tree p (i, Dat k)" using l pi(2) by simp
  note pb = pb [OF lp]
  have inv_q: "fs_inv q" using pb(2) by (simp add: same_but_def)
  have u: "u = save_inode i q" by (simp add: u_def q_def p_def)
  have m: "meta_only q u" unfolding u by (rule save_inode_meta [OF inv_q i64])
  note mi = meta_only_inv [OF inv_q m]
  have iq: "i \<in> bm_bits (fs_imap q)" using i by (simp add: q_def p_def put_size_def)
  then have xq: "(i, Dat k) \<in> slots_of q" using k by (simp add: slots_of_def)
  show "same_but s u i k" using same_but_trans [OF same_but_trans [OF ps(1) pb(2)] meta_same_but [OF inv_q m]] .
  show "tree u (i, Dat k) = l" using mi(4) [OF xq] pb(3) by simp
  have "same_file q u i" using mi(5) iq by blast
  then show "file_block u i k = b" using pb(3,4) l(2) k by (simp add: same_file_def)
  show "used_blocks u = used_blocks s" using mi(2) ps(3) by (simp add: q_def used_blocks_def)
  show "i_size (fs_inodes u ! j) = (if j = i then sz else i_size (fs_inodes s ! j))"
    using m fs_invD(2) [OF inv] i64 put_size_size [of s i sz j]
    by (simp add: meta_only_def q_def p_def imap_ok_def)
  show "free_rw_disk (Some b) l ATA_CMD_IO_WRITE (put_size i sz s) = Inr (b, set_blk l b (put_size i sz s))"
    using pb(1) by (simp add: q_def p_def)
  have "unat (word_of_nat i :: u32) = i" using i64 by (intro unat_word_of_nat_32) simp
  then show "inodes_rw_disk (word_of_nat i) ATA_CMD_IO_WRITE (set_blk l b (put_size i sz s)) = Inr u"
    using inodes_write_eq [OF fs_invD(1) [OF inv_q] fs_invD(2) [OF inv_q], of "word_of_nat i"] i64
    by (simp add: u q_def p_def)
qed

subsection \<open>diritem_push\<close>

text \<open>What entering an item does to the file system.\<close>

definition item_pushed :: "fs \<Rightarrow> fs \<Rightarrow> nat \<Rightarrow> diritem \<Rightarrow> bool" where
  "item_pushed s t i d \<longleftrightarrow> fs_inv t \<and> fs_imap t = fs_imap s \<and> dir_ok t i
     \<and> dir_items t i = dir_items s i @ [d] \<and> card (used_blocks t) \<le> card (used_blocks s) + 3
     \<and> (\<forall>j \<in> bm_bits (fs_imap s). j \<noteq> i \<longrightarrow> same_file s t j)"

lemma diritem_push_ok:
  assumes inv: "fs_inv s" and ok: "dir_ok s (unat (di_inode p))" and room: "card (used_blocks s) + 3 \<le> NBLOCKS"
    and n: "dir_size s (unat (di_inode p)) + 22 < 21 * 16518"
    and name: "length (di_name d) = 16" "0 \<in> set (di_name d)"
  shows "\<exists>t. diritem_push (Some p) (Some d) s = Inr t \<and> item_pushed s t (unat (di_inode p)) d"
proof -
  define i where "i = unat (di_inode p)"
  define sz where "sz = i_size (fs_inodes s ! i)"
  define n where "n = dir_size s i"
  define k where "k = n div 21"
  have ino: "i \<in> bm_bits (fs_imap s)" using ok by (simp add: dir_ok_def i_def)
  have i64: "i < 64" using inode_bound inv ino by blast
  have nb: "n + 22 < 21 * 16518" using n by (simp add: n_def i_def)
  have k: "k < 16518" using nb by (simp add: k_def less_mult_imp_div_less mult.commute)
  have un: "n = unat sz" by (simp add: n_def dir_size_def sz_def)
  have rd: "read_at w (fs_inodes s) (sint (di_inode p)) = Inr (fs_inodes s ! i)" for w
    using ino_index(1) [OF fs_invD(2) [OF inv]] i64 by (simp add: i_def)
  obtain db t where t: "push_block (di_inode p) k s = Inr (tree t (i, Dat k), db, t)" "length db = 512"
    "pushed s t i k" "tree s (i, Dat k) \<noteq> 0 \<longrightarrow> db = file_block s i k"
    using push_block_ok [OF inv, of "di_inode p" k] ino k room by (auto simp: i_def)
  have inv_t: "fs_inv t" and sb: "same_but s t i k" and im: "fs_imap t = fs_imap s"
    and szt: "\<And>j. i_size (fs_inodes t ! j) = i_size (fs_inodes s ! j)" and nz: "tree t (i, Dat k) \<noteq> 0"
    and ct: "card (used_blocks t) \<le> card (used_blocks s) + 3"
    using t(3) by (simp_all add: pushed_def same_but_def)
  have it: "i \<in> bm_bits (fs_imap t)" using ino im by simp
  define b where "b = patch db (n mod 21) (enc_item d)"
  have b: "length b = 512" using t(2) name by (simp add: b_def)
  define u where "u = save_inode i (set_blk (tree t (i, Dat k)) b (put_size i (sz + 1) t))"
  note w = write_dir_block [OF inv_t it k refl nz b, of "sz + 1", folded u_def]
  have wi: "word_of_nat i = di_inode p" by (simp add: i_def)
  have ss: "set_size (di_inode p) (sz + 1) t = Inr (put_size i (sz + 1) t)"
    using set_size_eq [OF fs_invD(2) [OF inv_t]] i64 by (simp add: i_def)
  have m: "memcpy_loop db (24 * (n mod 21)) (enc_item d) 0 24 = Inr b"
    unfolding b_def using t(2) name by (intro memcpy_patch) simp_all
  have run: "diritem_push (Some p) (Some d) s = Inr u"
    using rd t(1) m ss w(6,7)
    by (simp add: diritem_push_def MAX_DIRITEM_PER_BLOCK_def sz_def [symmetric] un [symmetric] k_def [symmetric] wi)
  have inv_u: "fs_inv u" and im_u: "fs_imap u = fs_imap s" using w(1) im by (simp_all add: same_but_def)
  have sbu: "same_but s u i k" using same_but_trans [OF sb w(1)] .
  have szu: "dir_size u i = n + 1" using w(5) [of i] un nb by (simp add: dir_size_def unat_add1_32)
  have blocks: "tree u (i, Dat m) \<noteq> 0 \<and> file_block u i m = file_block s i m" if m: "m * 21 < n" "m \<noteq> k" for m
  proof -
    have "tree s (i, Dat m) \<noteq> 0" using ok m(1) unfolding dir_ok_def n_def i_def
      by (metis nonzero_mult_div_cancel_right zero_neq_numeral)
    moreover have "m < 16518" using m(1) nb by linarith
    ultimately show ?thesis using sbu ino m(2) by (simp add: same_but_def slots_of_def)
  qed
  have db: "db = file_block s i k" if "k * 21 < n"
  proof -
    have "tree s (i, Dat k) \<noteq> 0" using ok that unfolding dir_ok_def n_def i_def
      by (metis nonzero_mult_div_cancel_right zero_neq_numeral)
    then show ?thesis using t(4) by simp
  qed
  have old: "dir_item u i q = dir_item s i q" if "q < n" for q
    using blocks db w(2) t(2) name that
    by (intro dir_item_patched [of u i n db "enc_item d" s q]) (auto simp: k_def b_def)
  have "dir_entry b (n mod 21) = enc_item d" using entry_patch [OF t(2), of "n mod 21" "enc_item d"] name
    by (simp add: b_def)
  then have new: "dir_item u i n = d" using w(2) name by (simp add: dir_item_def k_def)
  have "map (dir_item u i) [0..<n] = map (dir_item s i) [0..<n]" using old by simp
  then have items: "dir_items u i = dir_items s i @ [d]"
    by (simp add: dir_items_def szu n_def [symmetric] new)
  have okq: "tree u (i, Dat (q div 21)) \<noteq> 0 \<and> 0 \<in> set (di_name (dir_item u i q))" if q: "q < n + 1" for q
  proof (cases "q = n")
    case True
    then show ?thesis using new name w(3) nz by (simp add: k_def)
  next
    case False
    then have "q < n" using q by simp
    moreover have "q div 21 * 21 \<le> q" by simp
    ultimately have "tree u (i, Dat (q div 21)) \<noteq> 0" using blocks [of "q div 21"] w(3) nz by (cases "q div 21 = k") auto
    then show ?thesis using old [OF \<open>q < n\<close>] ok \<open>q < n\<close> by (simp add: dir_ok_def n_def i_def)
  qed
  then have ok_u: "dir_ok u i" using ino im_u nb by (simp add: dir_ok_def szu)
  have "same_file s u j" if "j \<in> bm_bits (fs_imap s)" "j \<noteq> i" for j
    using that sbu w(5) [of j] szt by (simp add: same_file_def same_but_def slots_of_def)
  then have "item_pushed s u i d" using inv_u im_u ok_u items ct w(4) by (simp add: item_pushed_def)
  then show ?thesis using run by (simp add: i_def)
qed

subsection \<open>Unlinking\<close>

lemma dec_zero_entry: "dec_item (replicate 24 0) = diritem0"
  by (simp add: dec_item_def diritem0_def DIRITEM_NAME_LEN_def)

lemma clear_patch: "length db = 512 \<Longrightarrow> k < 21 \<Longrightarrow> dirblock_set (Some db) k None = Inr (patch db k (replicate 24 0))"
  by (simp add: dirblock_set_def MAX_DIRITEM_PER_BLOCK_def bzero_def memset_eq patch_def)

text \<open>The item is cleared in place, and the directory is one shorter.\<close>

definition item_unlinked :: "fs \<Rightarrow> fs \<Rightarrow> nat \<Rightarrow> nat \<Rightarrow> bool" where
  "item_unlinked s t i k \<longleftrightarrow> fs_inv t \<and> fs_imap t = fs_imap s \<and> dir_ok t i
     \<and> dir_items t i = butlast ((dir_items s i)[k := diritem0]) \<and> used_blocks t = used_blocks s
     \<and> (\<forall>j \<in> bm_bits (fs_imap s). j \<noteq> i \<longrightarrow> same_file s t j)"

lemma diritem_unlink_ok:
  assumes inv: "fs_inv s" and ok: "dir_ok s (unat (di_inode p))" and q: "q < dir_size s (unat (di_inode p))"
  shows "\<exists>t. diritem_unlink p q s = Inr t \<and> item_unlinked s t (unat (di_inode p)) q"
proof -
  define i where "i = unat (di_inode p)"
  define sz where "sz = i_size (fs_inodes s ! i)"
  define n where "n = dir_size s i"
  define k where "k = q div 21"
  have ino: "i \<in> bm_bits (fs_imap s)" using ok by (simp add: dir_ok_def i_def)
  have i64: "i < 64" using inode_bound inv ino by blast
  have nb: "n + 21 < 21 * 16518" and qn: "q < n" using ok q by (simp_all add: n_def i_def dir_ok_def)
  have k: "k < 16518" using nb qn by (simp add: k_def less_mult_imp_div_less mult.commute)
  have un: "n = unat sz" by (simp add: n_def dir_size_def sz_def)
  have rd: "read_at w (fs_inodes s) (sint (di_inode p)) = Inr (fs_inodes s ! i)" for w
    using ino_index(1) [OF fs_invD(2) [OF inv]] i64 by (simp add: i_def)
  have uk: "unat (word_of_nat k :: u32) = k" using k by (intro unat_word_of_nat_32) simp
  have get: "iblock_get (di_inode p) (word_of_nat k) s = Inr (tree s (i, Dat k), s)"
    using iblock_get_ok [OF inv, of "di_inode p" "word_of_nat k"] ino k uk by (simp add: i_def)
  have nz: "tree s (i, Dat k) \<noteq> 0" using ok q by (simp add: dir_ok_def k_def i_def)
  have x: "(i, Dat k) \<in> slots_of s" using ino k by (simp add: slots_of_def)
  have used: "tree s (i, Dat k) \<in> used_blocks s" using inv x nz unfolding fs_inv_def tree_ok_def by blast
  have ge: "\<not> tree s (i, Dat k) < 326" using used_block_range [OF fs_invD(1) [OF inv] used]
    by (simp add: word_less_nat_alt)
  define db where "db = file_block s i k"
  have len: "length db = 512" using inv by (simp add: db_def file_block_def)
  have rdb: "free_rw_disk (Some sect0) (tree s (i, Dat k)) ATA_CMD_IO_READ s = Inr (db, s)"
    using free_rw_used(1) [OF fs_invD(1) [OF inv] used length_sect0] by (simp add: file_block_def db_def)
  define b where "b = patch db (q mod 21) (replicate 24 0)"
  have b: "length b = 512" using len by (simp add: b_def)
  define l where "l = tree s (i, Dat k)"
  define s1 where "s1 = set_blk l b s"
  define u where "u = save_inode i (set_blk l b (put_size i (sz - 1) s))"
  note w = write_dir_block [OF inv ino k l_def nz [folded l_def] b, of "sz - 1", folded u_def]
  note pb = put_block [OF inv x l_def nz [folded l_def] b, folded s1_def]
  have inv1: "fs_inv s1" using pb(2) by (simp add: same_but_def)
  have rd1: "read_at w (fs_inodes s1) (sint (di_inode p)) = Inr (fs_inodes s ! i)" for w
    using rd by (simp add: s1_def)
  have ss: "set_size (di_inode p) (sz - 1) s1 = Inr (put_size i (sz - 1) s1)"
    using set_size_eq [OF fs_invD(2) [OF inv1]] i64 by (simp add: i_def)
  have comm: "put_size i (sz - 1) s1 = set_blk l b (put_size i (sz - 1) s)"
    by (simp add: s1_def put_size_def set_blk_def)
  have wi: "word_of_nat i = di_inode p" by (simp add: i_def)
  have run: "diritem_unlink p q s = Inr u"
    using rd1 get rdb ge clear_patch [OF len, of "q mod 21"] pb(1) ss w(7) inv
    by (simp add: diritem_unlink_def MAX_DIRITEM_PER_BLOCK_def k_def [symmetric] b_def [symmetric] l_def [symmetric]
        sz_def [symmetric] comm wi)
  have inv_u: "fs_inv u" and im_u: "fs_imap u = fs_imap s" using w(1) by (simp_all add: same_but_def)
  have "unat (sz - 1) = n - 1" using un qn by (subst unat_sub_32) (simp_all add: Suc_leI)
  then have szu: "dir_size u i = n - 1" using w(5) [of i] by (simp add: dir_size_def)
  have blocks: "tree u (i, Dat m) \<noteq> 0 \<and> (m \<noteq> k \<longrightarrow> file_block u i m = file_block s i m)" if m: "m * 21 < n" for m
  proof -
    have "tree s (i, Dat m) \<noteq> 0" using ok m(1) unfolding dir_ok_def n_def i_def
      by (metis nonzero_mult_div_cancel_right zero_neq_numeral)
    moreover have "m < 16518" using m nb by linarith
    ultimately show ?thesis using w(1,3) nz ino by (cases "m = k") (auto simp: same_but_def slots_of_def l_def)
  qed
  have item: "dir_item u i r = (if r = q then diritem0 else dir_item s i r)" if r: "r < n" for r
  proof (cases "r div 21 = k")
    case True
    have "r = q \<longleftrightarrow> r mod 21 = q mod 21" using True by (metis div_mult_mod_eq k_def)
    then show ?thesis using True w(2) entry_patch [OF len, of "q mod 21" "replicate 24 0" "r mod 21"] dec_zero_entry
      by (simp add: dir_item_def b_def db_def)
  next
    case False
    have "r div 21 * 21 < n" using r by (meson div_times_less_eq_dividend le_less_trans)
    then have "file_block u i (r div 21) = file_block s i (r div 21)" using blocks False by blast
    moreover have "r \<noteq> q" using False by (auto simp: k_def)
    ultimately show ?thesis by (simp add: dir_item_def)
  qed
  have items: "dir_items u i = butlast ((dir_items s i)[q := diritem0])"
  proof (rule nth_equalityI)
    show "length (dir_items u i) = length (butlast ((dir_items s i)[q := diritem0]))"
      by (simp add: dir_items_def szu n_def [symmetric])
    fix r assume "r < length (dir_items u i)"
    then have "r < n - 1" by (simp add: dir_items_def szu)
    then show "dir_items u i ! r = butlast ((dir_items s i)[q := diritem0]) ! r"
      using item [of r] by (simp add: dir_items_def szu n_def [symmetric] nth_butlast nth_list_update)
  qed
  have okq: "tree u (i, Dat (r div 21)) \<noteq> 0 \<and> 0 \<in> set (di_name (dir_item u i r))" if r: "r < n - 1" for r
  proof -
    have "r div 21 * 21 \<le> r" by simp
    then have "r div 21 * 21 < n" using r by linarith
    moreover have "0 \<in> set (di_name (dir_item u i r))"
      using item [of r] r ok by (simp add: dir_ok_def n_def i_def diritem0_def DIRITEM_NAME_LEN_def)
    ultimately show ?thesis using blocks by blast
  qed
  have ok_u: "dir_ok u i" using okq ino im_u nb by (simp add: dir_ok_def szu)
  have "same_file s u j" if "j \<in> bm_bits (fs_imap s)" "j \<noteq> i" for j
    using that w(1) w(5) [of j] by (simp add: same_file_def same_but_def slots_of_def)
  then have "item_unlinked s u i q" using inv_u im_u ok_u items w(4) by (simp add: item_unlinked_def)
  then show ?thesis using run by (simp add: i_def)
qed

end
