(* ===== verification/Dir_Paths.thy ===== *)
theory Dir_Paths
  imports Dir_Update
begin

section \<open>Paths\<close>

text \<open>
  What diritem_find computes: the path is cut at its separators, and the components are looked
  up one after the other, each in the directory the one before it named.
\<close>

subsection \<open>Components\<close>

fun comps :: "byte list \<Rightarrow> byte list list" where
  "comps [] = []"
| "comps (x # xs) = takeWhile (\<lambda>c. c \<noteq> 47) (x # xs) # comps (drop (Suc (length (takeWhile (\<lambda>c. c \<noteq> 47) (x # xs)))) (x # xs))"

lemma comps_eq: "xs \<noteq> [] \<Longrightarrow> comps xs = takeWhile (\<lambda>c. c \<noteq> 47) xs # comps (drop (Suc (length (takeWhile (\<lambda>c. c \<noteq> 47) xs))) xs)"
  by (cases xs) simp_all

lemma comps_nil [simp]: "comps xs = [] \<longleftrightarrow> xs = []"
  by (cases xs) simp_all

definition search_dir :: "fs \<Rightarrow> diritem \<Rightarrow> byte list \<Rightarrow> nat option" where
  "search_dir s d c = first_match (\<lambda>it. name_of it = c) (dir_items s (unat (di_inode d)))"

definition item_at :: "fs \<Rightarrow> diritem \<Rightarrow> nat \<Rightarrow> diritem" where
  "item_at s d k = dir_items s (unat (di_inode d)) ! k"

fun resolve :: "fs \<Rightarrow> diritem \<Rightarrow> byte list list \<Rightarrow> diritem option" where
  "resolve s d [] = None"
| "resolve s d (c # cs) = (case search_dir s d c of None \<Rightarrow> None
     | Some k \<Rightarrow> if cs = [] then Some (item_at s d k) else resolve s (item_at s d k) cs)"

text \<open>Every component fits the buffer, and every directory on the way is well formed.\<close>

fun walkable :: "fs \<Rightarrow> diritem \<Rightarrow> byte list list \<Rightarrow> bool" where
  "walkable s d [] \<longleftrightarrow> True"
| "walkable s d (c # cs) \<longleftrightarrow> length c < 16 \<and> dir_ok s (unat (di_inode d))
     \<and> (cs \<noteq> [] \<longrightarrow> (case search_dir s d c of None \<Rightarrow> True | Some k \<Rightarrow> walkable s (item_at s d k) cs))"

lemma name_loop_eq:
  assumes "i + n \<le> length dir" and "j + length (takeWhile (\<lambda>c. c \<noteq> 47) (take n (drop i dir))) \<le> length name"
  shows "name_loop dir i n name j =
    Inr (i + length (takeWhile (\<lambda>c. c \<noteq> 47) (take n (drop i dir))), j + length (takeWhile (\<lambda>c. c \<noteq> 47) (take n (drop i dir))),
      take j name @ takeWhile (\<lambda>c. c \<noteq> 47) (take n (drop i dir))
      @ drop (j + length (takeWhile (\<lambda>c. c \<noteq> 47) (take n (drop i dir)))) name)"
  using assms
proof (induction n arbitrary: i j name)
  case (Suc n)
  let ?w = "\<lambda>n i. takeWhile (\<lambda>c. c \<noteq> 47) (take n (drop i dir))"
  have d: "take (Suc n) (drop i dir) = dir ! i # take n (drop (Suc i) dir)"
    using Suc.prems(1) by (simp add: Cons_nth_drop_Suc [symmetric])
  show ?case
  proof (cases "dir ! i = 47")
    case True
    then show ?thesis unfolding d by (simp add: DIRNAME_ROOT_ASCII_def)
  next
    case False
    then have w: "?w (Suc n) i = dir ! i # ?w n (Suc i)" unfolding d by simp
    have j: "j < length name" using Suc.prems(2) unfolding w by simp
    have "name_loop dir i (Suc n) name j = name_loop dir (Suc i) n (name[j := dir ! i]) (Suc j)"
      using False j by (simp add: DIRNAME_ROOT_ASCII_def)
    also have "\<dots> = Inr (Suc i + length (?w n (Suc i)), Suc j + length (?w n (Suc i)),
        take (Suc j) (name[j := dir ! i]) @ ?w n (Suc i) @ drop (Suc j + length (?w n (Suc i))) (name[j := dir ! i]))"
      using Suc.prems unfolding w by (intro Suc.IH) simp_all
    also have "take (Suc j) (name[j := dir ! i]) = take j name @ [dir ! i]"
      using j by (simp add: take_Suc_conv_app_nth)
    finally show ?thesis unfolding w by simp
  qed
qed simp

subsection \<open>The loop over the components\<close>

text \<open>Reading the item the search found.\<close>

lemma read_found:
  assumes inv: "fs_inv s" and ok: "dir_ok s (unat (di_inode d))" and k: "search_dir s d c = Some k"
  shows "iblock_get (di_inode d) (word_of_nat (k div 21)) s = Inr (tree s (unat (di_inode d), Dat (k div 21)), s)"
    and "\<not> tree s (unat (di_inode d), Dat (k div 21)) < 326"
    and "free_rw_disk (Some sect0) (tree s (unat (di_inode d), Dat (k div 21))) ATA_CMD_IO_READ s
      = Inr (file_block s (unat (di_inode d)) (k div 21), s)"
    and "dirblock_get (Some (file_block s (unat (di_inode d)) (k div 21))) (k mod 21) = Inr (item_at s d k)"
    and "name_of (item_at s d k) = c"
proof -
  let ?i = "unat (di_inode d)"
  have "k < length (dir_items s ?i)" "name_of (dir_items s ?i ! k) = c"
    using first_match_Some k unfolding search_dir_def by fastforce+
  then have kn: "k < dir_size s ?i" and c: "name_of (item_at s d k) = c" by (simp_all add: dir_items_def item_at_def)
  show "name_of (item_at s d k) = c" by (rule c)
  have "k < 16518 * 21" using kn ok by (simp add: dir_ok_def)
  then have k2: "k div 21 < 16518" by (rule less_mult_imp_div_less)
  have ino: "?i \<in> bm_bits (fs_imap s)" using ok by (simp add: dir_ok_def)
  have u: "unat (word_of_nat (k div 21) :: u32) = k div 21" using k2 by (intro unat_word_of_nat_32) simp
  show "iblock_get (di_inode d) (word_of_nat (k div 21)) s = Inr (tree s (?i, Dat (k div 21)), s)"
    using iblock_get_ok [OF inv ino, of "word_of_nat (k div 21)"] k2 u by simp
  have "tree s (?i, Dat (k div 21)) \<noteq> 0" using ok kn by (simp add: dir_ok_def)
  then have used: "tree s (?i, Dat (k div 21)) \<in> used_blocks s" using inv ino k2
    unfolding fs_inv_def tree_ok_def by (auto simp: slots_of_def)
  show "\<not> tree s (?i, Dat (k div 21)) < 326" using used_block_range [OF fs_invD(1) [OF inv] used]
    by (simp add: word_less_nat_alt)
  show "free_rw_disk (Some sect0) (tree s (?i, Dat (k div 21))) ATA_CMD_IO_READ s = Inr (file_block s ?i (k div 21), s)"
    using free_rw_used(1) [OF fs_invD(1) [OF inv] used length_sect0] by (simp add: file_block_def)
  have len: "length (file_block s ?i (k div 21)) = 512" using inv by (simp add: file_block_def)
  have "k mod 21 < 21" by simp
  then have "24 * (k mod 21) + 24 \<le> 512" by linarith
  then show "dirblock_get (Some (file_block s ?i (k div 21))) (k mod 21) = Inr (item_at s d k)"
    using len kn by (simp add: dirblock_get_def memcpy_loop_eq item_at_def dir_items_def dir_item_def dir_entry_def)
qed

lemma path_loop_eq:
  assumes inv: "fs_inv s" and dz: "0 \<in> set dir"
  shows "length name = 16 \<Longrightarrow> walkable s cur (comps (drop i (cstr dir))) \<Longrightarrow>
    path_loop dir (length (cstr dir)) i cur found name s
      = Inr (case resolve s cur (comps (drop i (cstr dir))) of None \<Rightarrow> found | Some it \<Rightarrow> it, s)"
proof (induction "length (cstr dir) - i" arbitrary: i cur name rule: less_induct)
  case less
  define rest where "rest = drop i (cstr dir)"
  define w where "w = takeWhile (\<lambda>c. c \<noteq> 47) rest"
  show ?case
  proof (cases "i < length (cstr dir)")
    case False
    then show ?thesis by (simp add: path_loop.simps)
  next
    case True
    then have ne: "rest \<noteq> []" by (simp add: rest_def)
    have cs: "comps rest = w # comps (drop (Suc (length w)) rest)" using comps_eq [OF ne] by (simp add: w_def)
    have walk: "length w < 16" "dir_ok s (unat (di_inode cur))"
      "comps (drop (Suc (length w)) rest) \<noteq> [] \<Longrightarrow> (case search_dir s cur w of None \<Rightarrow> True
        | Some k \<Rightarrow> walkable s (item_at s cur k) (comps (drop (Suc (length w)) rest)))"
      using less.prems(2) unfolding rest_def [symmetric] cs by simp_all
    have lt: "length (cstr dir) < length dir" by (rule length_cstr_less [OF dz])
    have "take (length (cstr dir) - i) (drop i dir) = rest"
      unfolding rest_def drop_take [symmetric] cstr_take [OF dz] ..
    then have nl: "name_loop dir i (length (cstr dir) - i) name 0 = Inr (i + length w, length w, w @ drop (length w) name)"
      using name_loop_eq [of i "length (cstr dir) - i" dir 0 name] True lt walk(1) less.prems(1) by (simp add: w_def)
    define nm where "nm = (w @ drop (length w) name)[length w := 0]"
    have wr: "write_at x (w @ drop (length w) name) (int (length w)) 0 = Inr nm" for x
      using walk(1) less.prems(1) by (simp add: nm_def)
    have z: "0 \<notin> set w" unfolding w_def rest_def
      using zero_notin_cstr [of dir] by (blast dest: set_takeWhileD in_set_dropD)
    have nmw: "nm = w @ 0 # drop (Suc (length w)) name" using walk(1) less.prems(1)
      by (simp add: nm_def list_update_append Cons_nth_drop_Suc [symmetric])
    then have nm: "0 \<in> set nm" "cstr nm = w" "length nm = 16" using z walk(1) less.prems(1) by simp_all
    have fs: "diritem_find_sub cur nm s = Inr (search_dir s cur w, s)"
      using diritem_find_sub_eq [OF inv walk(2) nm(1)] nm(2) by (simp add: search_dir_def)
    have d: "drop (Suc (length w)) rest = drop (Suc (i + length w)) (cstr dir)" by (simp add: rest_def add.commute)
    show ?thesis
    proof (cases "search_dir s cur w")
      case None
      then have "resolve s cur (comps rest) = None" unfolding cs by simp
      then show ?thesis using True nl wr fs None by (subst path_loop.simps) (simp add: rest_def)
    next
      case (Some k)
      note rf = read_found [OF inv walk(2) Some]
      have step: "path_loop dir (length (cstr dir)) i cur found name s =
        (if Suc (i + length w) \<ge> length (cstr dir)
         then path_loop dir (length (cstr dir)) (Suc (i + length w)) cur (item_at s cur k) nm s
         else path_loop dir (length (cstr dir)) (Suc (i + length w)) (item_at s cur k) found nm s)"
        using True nl wr fs Some rf inv by (subst path_loop.simps) (simp add: MAX_DIRITEM_PER_BLOCK_def)
      show ?thesis
      proof (cases "Suc (i + length w) \<ge> length (cstr dir)")
        case last: True
        then have "comps (drop (Suc (length w)) rest) = []" unfolding d by simp
        then have "resolve s cur (comps rest) = Some (item_at s cur k)" unfolding cs using Some by simp
        moreover have "path_loop dir (length (cstr dir)) (Suc (i + length w)) cur (item_at s cur k) nm s = Inr (item_at s cur k, s)"
          using last by (simp add: path_loop.simps)
        ultimately show ?thesis using step last by (simp add: rest_def)
      next
        case more: False
        then have "comps (drop (Suc (length w)) rest) \<noteq> []" unfolding d by simp
        then have wk: "walkable s (item_at s cur k) (comps (drop (Suc (i + length w)) (cstr dir)))"
          and rs: "resolve s cur (comps rest) = resolve s (item_at s cur k) (comps (drop (Suc (i + length w)) (cstr dir)))"
          using walk(3) Some unfolding cs d by simp_all
        have "path_loop dir (length (cstr dir)) (Suc (i + length w)) (item_at s cur k) found nm s =
          Inr (case resolve s (item_at s cur k) (comps (drop (Suc (i + length w)) (cstr dir))) of None \<Rightarrow> found | Some it \<Rightarrow> it, s)"
          by (rule less.hyps [OF _ nm(3) wk]) (use True in linarith)
        then show ?thesis using step more rs by (simp add: rest_def)
      qed
    qed
  qed
qed

lemma path_loop_found:
  "fs_inv s \<Longrightarrow> 0 \<in> set dir \<Longrightarrow> resolve s cur cs = Some it \<Longrightarrow> walkable s cur cs \<Longrightarrow> name_of it = last cs"
proof (induction cs arbitrary: cur)
  case (Cons c cs)
  obtain k where k: "search_dir s cur c = Some k" using Cons.prems(3) by (auto split: option.splits)
  note nm = read_found(5) [OF Cons.prems(1) _ k]
  show ?case
  proof (cases "cs = []")
    case True
    then show ?thesis using Cons.prems(3,4) k nm by simp
  next
    case False
    then show ?thesis using Cons.IH [OF Cons.prems(1,2), of "item_at s cur k"] Cons.prems(3,4) k by simp
  qed
qed simp

text \<open>diritem_find, on a path other than the root itself whose last component is not empty.\<close>

lemma diritem_find_eq:
  assumes inv: "fs_inv s" and dz: "0 \<in> set dir" and abs_path: "cstr dir = 47 # rest" and ne: "rest \<noteq> []"
    and last: "last (comps rest) \<noteq> []" and walk: "walkable s r (comps rest)"
  shows "diritem_find (Some r) (Some dir) (Some f0) s = Inr (case resolve s r (comps rest) of
      None \<Rightarrow> (False, diritem0, s) | Some it \<Rightarrow> (True, it, s))"
proof -
  have hd: "read_at w dir 0 = Inr 47" for w
    using abs_path dz by (cases dir) (auto simp: read_at_def cstr_def split: if_splits)
  have "cstr dir \<noteq> cstr [47, 0]" using abs_path ne by (simp add: cstr_def)
  then have nr: "is_root_dir (Some dir) = Inr False"
    using strcmp_iff [OF dz, of "[47, 0]"] by (simp add: is_root_dir_def DIRNAME_ROOT_ASCII_def)
  have "drop 1 (cstr dir) = rest" using abs_path by simp
  then have pl: "path_loop dir (length (cstr dir)) 1 r diritem0 (replicate 16 0) s =
      Inr (case resolve s r (comps rest) of None \<Rightarrow> diritem0 | Some it \<Rightarrow> it, s)"
    using path_loop_eq [OF inv dz, of "replicate 16 0" r 1] walk by simp
  show ?thesis
  proof (cases "resolve s r (comps rest)")
    case None
    then show ?thesis using hd nr pl dz
      by (simp add: diritem_find_def Let_def DIRNAME_ROOT_ASCII_def DIRITEM_NAME_LEN_def strlen_cstr diritem0_def read_at_def)
  next
    case (Some it)
    then have "name_of it = last (comps rest)" using path_loop_found [OF inv dz] walk by blast
    then have "name_of it \<noteq> []" using last by simp
    then have "read_at w (di_name it) 0 = Inr (hd (di_name it)) \<and> hd (di_name it) \<noteq> 0" for w
      by (cases "di_name it") (auto simp: name_of_def read_at_def cstr_def)
    then show ?thesis using hd nr pl dz Some
      by (simp add: diritem_find_def Let_def DIRNAME_ROOT_ASCII_def DIRITEM_NAME_LEN_def strlen_cstr)
  qed
qed

lemma diritem_find_root:
  assumes "0 \<in> set dir" and "cstr dir = [47]"
  shows "diritem_find (Some r) (Some dir) (Some f0) s = Inr (True, r, s)"
proof -
  have hd: "read_at w dir 0 = Inr 47" for w
    using assms by (cases dir) (auto simp: read_at_def cstr_def split: if_splits)
  have "is_root_dir (Some dir) = Inr True"
    using strcmp_iff [OF assms(1), of "[47, 0]"] assms(2) by (simp add: is_root_dir_def DIRNAME_ROOT_ASCII_def)
  then show ?thesis using hd by (simp add: diritem_find_def Let_def DIRNAME_ROOT_ASCII_def)
qed

end
