(* ===== verification/Dir_Create.thy ===== *)
theory Dir_Create
  imports Dir_Paths
begin

section \<open>diritem_create\<close>

text \<open>
  Creating takes an inode and a block. The new inode has its one block at index 0; every file
  that was there stays as it was. A new directory holds its two items.
\<close>

lemma take_inode:
  assumes "imap_ok s" and "bm_bits (fs_imap s) \<noteq> {..<64}"
  shows "\<exists>j m1 m2. inode_allocate s = Inr (j, s\<lparr>fs_imap := m1\<rparr>)
    \<and> inode_map_setup j True (s\<lparr>fs_imap := m1\<rparr>) = Inr (s\<lparr>fs_imap := m2\<rparr>)
    \<and> unat j < 64 \<and> unat j \<notin> bm_bits (fs_imap s) \<and> bm_bits m2 = insert (unat j) (bm_bits (fs_imap s))
    \<and> bm_wf m2 \<and> bm_cap m2 = 64 \<and> length (bm_buff m2) = 512"
proof -
  let ?m = "fs_imap s"
  have wf: "bm_wf ?m" "bm_cap ?m = 64" "length (bm_buff ?m) = 512" using assms(1) by (simp_all add: imap_ok_def)
  obtain j m1 m2 where j: "bitmap_scan_empty (Some ?m) = Inr (j, m1)" "bitmap_set (Some m1) j = Inr m2"
    "unat j < 64" "unat j \<notin> bm_bits ?m" "bm_wf m2" "bm_cap m2 = 64" "bm_bits m2 = insert (unat j) (bm_bits ?m)"
    using bm.alloc_fresh [OF wf(1)] assms(2) wf(2) by auto
  have "scan_loop m i n = Inr (j'', m'') \<Longrightarrow> bm_buff m'' = bm_buff m" for m i n j'' m''
    by (induction m i n rule: scan_loop.induct) (auto simp: bindr_eq_Inr split: if_splits)
  then have "length (bm_buff m1) = 512" using j(1) wf(3) by (auto simp: bitmap_scan_empty_def split: if_splits)
  then have len: "length (bm_buff m2) = 512"
    using j(2) by (auto simp: bitmap_set_def bindr_eq_Inr Let_def dest: write_at_length split: if_splits)
  have "j \<noteq> INVALID_INDEX" using j(3) by auto
  then show ?thesis using j len
    by (intro exI [of _ j] exI [of _ m1] exI [of _ m2]) (simp add: inode_allocate_def inode_map_setup_def)
qed

definition new_inode :: "u32 \<Rightarrow> u32 \<Rightarrow> inode" where
  "new_inode sz l = inode0\<lparr>i_size := sz, iblocks := (iblocks inode0)[0 := l]\<rparr>"

lemma new_inode_blocks: "iblocks (new_inode sz l) = l # replicate 7 0"
  by (simp add: new_inode_def inode0_def MAX_INODE_BLOCKS_def numeral_eq_Suc)

lemma new_inode_tree: "tree_at d (iblocks (new_inode sz l)) p = (if p = Dat 0 then l else 0)"
  unfolding new_inode_blocks by (cases p) (simp_all add: tree_at.simps sub_at_def nth_Cons' Let_def)

text \<open>The state after the inode and the block have been taken and the inode filled.\<close>

definition with_inode :: "fs \<Rightarrow> nat \<Rightarrow> bitmap \<Rightarrow> bitmap \<Rightarrow> u32 \<Rightarrow> u32 \<Rightarrow> fs" where
  "with_inode s j m fm sz l = s\<lparr>fs_imap := m, fs_fmap := fm, fs_inodes := (fs_inodes s)[j := new_inode sz l]\<rparr>"

lemma with_inode_inv:
  fixes sz :: u32
  assumes inv: "fs_inv s" and j: "j < 64" "j \<notin> bm_bits (fs_imap s)"
    and m: "bm_wf m" "bm_cap m = 64" "length (bm_buff m) = 512" "bm_bits m = insert j (bm_bits (fs_imap s))"
    and fm: "map_ok (s\<lparr>fs_fmap := fm\<rparr>)" and used: "used_blocks (s\<lparr>fs_fmap := fm\<rparr>) = insert l (used_blocks s)"
    and l: "l \<notin> used_blocks s" "l \<noteq> 0"
  defines "t \<equiv> with_inode s j m fm sz l"
  shows "fs_inv t" and "\<And>p. tree t (j, p) = (if p = Dat 0 then l else 0)"
    and "\<And>i. i \<in> bm_bits (fs_imap s) \<Longrightarrow> same_file s t i" and "used_blocks t = insert l (used_blocks s)"
proof -
  have len: "length (fs_inodes s) = 64" using fs_invD(2) [OF inv] by (simp add: imap_ok_def)
  show tj: "tree t (j, p) = (if p = Dat 0 then l else 0)" for p
    using j(1) len by (simp add: t_def with_inode_def tree_def new_inode_tree)
  have ti: "tree t (i, p) = tree s (i, p)" if "i \<noteq> j" for i p
    using that by (simp add: t_def with_inode_def tree_def)
  show u: "used_blocks t = insert l (used_blocks s)" using used by (simp add: t_def with_inode_def used_blocks_def)
  have sl: "x \<in> slots_of t \<longleftrightarrow> fst x = j \<and> snd x \<in> positions \<or> x \<in> slots_of s" for x
    using m(4) by (cases x) (auto simp: t_def with_inode_def slots_of_def)
  have old: "x \<in> slots_of s \<Longrightarrow> fst x \<noteq> j" for x using j(2) by (auto simp: slots_of_def)
  have os: "tree t x = tree s x \<and> (tree s x \<noteq> 0 \<longrightarrow> tree s x \<in> used_blocks s)" if "x \<in> slots_of s" for x
    using ti [of "fst x" "snd x"] old [OF that] that inv unfolding fs_inv_def tree_ok_def by auto
  have nw: "tree t x = l \<and> x = (j, Dat 0)" if "fst x = j" "tree t x \<noteq> 0" for x
    using that tj [of "snd x"] by (cases x) (auto split: if_splits)
  have "tree_ok t"
    unfolding tree_ok_def
  proof (intro conjI ballI impI)
    fix x assume x: "x \<in> slots_of t" "tree t x \<noteq> 0"
    show "tree t x \<in> used_blocks t"
    proof (cases "fst x = j")
      case True
      then show ?thesis unfolding u using nw x(2) by blast
    next
      case False
      then have "tree t x = tree s x \<and> (tree s x \<noteq> 0 \<longrightarrow> tree s x \<in> used_blocks s)" using os sl x(1) by blast
      then show ?thesis unfolding u using x(2) by simp
    qed
  next
    fix x y assume xy: "x \<in> slots_of t" "y \<in> slots_of t" "tree t x = tree t y" "tree t x \<noteq> 0"
    consider "fst x = j" "fst y = j" | "x \<in> slots_of s" "y \<in> slots_of s"
      | "fst x = j" "y \<in> slots_of s" | "x \<in> slots_of s" "fst y = j"
      using sl xy(1,2) by blast
    then show "x = y"
    proof cases
      case 1
      then show ?thesis using nw [of x] nw [of y] xy(3,4) by metis
    next
      case 2
      then show ?thesis using os xy(3,4) inv unfolding fs_inv_def tree_ok_def by metis
    next
      case 3
      then show ?thesis using nw [of x] os [of y] xy(3,4) l(1) by metis
    next
      case 4
      then show ?thesis using nw [of y] os [of x] xy(3,4) l(1) by metis
    qed
  qed
  moreover have "map_ok t" using fm by (simp add: t_def with_inode_def map_ok_def)
  moreover have "length (iblocks ((fs_inodes s)[j := new_inode sz l] ! i)) = 8" if "i < 64" for i
    using fs_invD(2) [OF inv] that len by (cases "i = j") (simp_all add: imap_ok_def new_inode_blocks)
  then have "imap_ok t" using m(1,2,3) len by (simp add: t_def with_inode_def imap_ok_def)
  ultimately show "fs_inv t" using \<open>imap_ok t\<close> by (simp add: fs_inv_def)
  show "same_file s t i" if "i \<in> bm_bits (fs_imap s)" for i
  proof -
    have "i \<noteq> j" using that j(2) by blast
    then show ?thesis using ti by (simp add: same_file_def file_block_def) (simp add: t_def with_inode_def)
  qed
qed

text \<open>What creating an item does to the file system.\<close>

definition item_created :: "fs \<Rightarrow> fs \<Rightarrow> nat \<Rightarrow> bool" where
  "item_created s t j \<longleftrightarrow> fs_inv t \<and> j < 64 \<and> j \<notin> bm_bits (fs_imap s)
     \<and> bm_bits (fs_imap t) = insert j (bm_bits (fs_imap s)) \<and> card (used_blocks t) = card (used_blocks s) + 1
     \<and> tree t (j, Dat 0) \<noteq> 0 \<and> (\<forall>k < 16518. k \<noteq> 0 \<longrightarrow> tree t (j, Dat k) = 0)
     \<and> (\<forall>i \<in> bm_bits (fs_imap s). same_file s t i)"

lemma item_created_meta:
  assumes "item_created s t j" and "meta_only t u"
  shows "item_created s u j"
proof -
  have inv: "fs_inv t" and j: "j \<in> bm_bits (fs_imap t)" using assms(1) by (auto simp: item_created_def)
  note m = meta_only_inv [OF inv assms(2)]
  have "tree u (j, Dat k) = tree t (j, Dat k)" if "k < 16518" for k
    using m(4) j that by (simp add: slots_of_def)
  moreover have "same_file s u i" if "i \<in> bm_bits (fs_imap s)" for i
    using same_file_trans [of s t i u] m(5) [of i] that assms(1) by (auto simp: item_created_def)
  moreover have "fs_imap u = fs_imap t" using assms(2) by (simp add: meta_only_def)
  ultimately show ?thesis using assms(1) m(1,2) by (simp add: item_created_def)
qed

text \<open>The item that is returned: its name is padded with zeros.\<close>

definition mk_item :: "u32 \<Rightarrow> u32 \<Rightarrow> byte list \<Rightarrow> diritem" where
  "mk_item ty j c = \<lparr>di_type = ty, di_inode = j, di_name = c @ replicate (16 - length c) 0\<rparr>"

lemma mk_item_name: "length c < 16 \<Longrightarrow> 0 \<notin> set c \<Longrightarrow> length (di_name (mk_item ty j c)) = 16
    \<and> 0 \<in> set (di_name (mk_item ty j c)) \<and> name_of (mk_item ty j c) = c"
  by (cases "16 - length c") (auto simp: mk_item_def name_of_def)

lemma diritem_set_eq:
  assumes "0 \<in> set name" and "length (cstr name) < 16"
  shows "diritem_set (Some diritem0) ty j (Some name) = Inr (mk_item ty j (cstr name))"
proof -
  define n where "n = length (cstr name)"
  obtain ys where ys: "name = cstr name @ 0 # ys" using cstr_split [OF assms(1)] by blast
  have "take (n + 1) name = cstr name @ [0]" by (subst ys) (simp add: n_def)
  moreover have "n + 1 \<le> length name" using length_cstr_less [OF assms(1)] by (simp add: n_def)
  ultimately have "memcpy_loop (replicate 16 0) 0 name 0 (n + 1) = Inr (cstr name @ 0 # replicate (15 - n) 0)"
    using assms(2) by (subst memcpy_loop_eq) (simp_all add: n_def)
  moreover have "0 # replicate (15 - n) 0 = replicate (16 - n) (0 :: byte)"
    using assms(2) by (simp add: n_def Suc_diff_Suc flip: replicate_Suc)
  ultimately show ?thesis using strlen_cstr [OF assms(1)]
    by (simp add: diritem_set_def diritem0_def DIRITEM_NAME_LEN_def mk_item_def n_def)
qed

text \<open>Taking the inode, naming the item, taking the block and filling the inode.\<close>

lemma create_start:
  fixes sz :: u32
  assumes inv: "fs_inv s" and free: "bm_bits (fs_imap s) \<noteq> {..<64}" and room: "card (used_blocks s) < NBLOCKS"
  shows "\<exists>j l s1 s2 s3 t. inode_allocate s = Inr (j, s1) \<and> inode_map_setup j True s1 = Inr s2
    \<and> free_allocate s2 = Inr (l, s3) \<and> (\<exists>s4. free_map_setup l True s3 = Inr s4 \<and> (\<forall>sz. inode_set j sz l s4 = Inr (t sz)))
    \<and> (\<forall>sz. item_created s (t sz) (unat j) \<and> tree (t sz) (unat j, Dat 0) = l
        \<and> i_size (fs_inodes (t sz) ! unat j) = sz)"
proof -
  obtain j m1 m2 where j: "inode_allocate s = Inr (j, s\<lparr>fs_imap := m1\<rparr>)"
    "inode_map_setup j True (s\<lparr>fs_imap := m1\<rparr>) = Inr (s\<lparr>fs_imap := m2\<rparr>)"
    "unat j < 64" "unat j \<notin> bm_bits (fs_imap s)" "bm_bits m2 = insert (unat j) (bm_bits (fs_imap s))"
    "bm_wf m2" "bm_cap m2 = 64" "length (bm_buff m2) = 512"
    using take_inode [OF fs_invD(2) [OF inv] free] by blast
  define s2 where "s2 = s\<lparr>fs_imap := m2\<rparr>"
  have map2: "map_ok s2" using fs_invD(1) [OF inv] by (simp add: s2_def map_ok_def)
  have u2: "used_blocks s2 = used_blocks s" by (simp add: s2_def used_blocks_def)
  have nf: "\<not> blocks_full s2" using room blocks_full_iff [OF map2] u2 by simp
  obtain l s3 s4 where a: "free_allocate s2 = Inr (l, s3)" "free_map_setup l True s3 = Inr s4" "l \<notin> used_blocks s2"
    "used_blocks s4 = insert l (used_blocks s2)" "map_ok s4" "same_but_fmap s2 s4" "326 \<le> unat l"
    using take_block [OF map2 nf] by blast
  define fm where "fm = fs_fmap s4"
  have s4: "s4 = s2\<lparr>fs_fmap := fm\<rparr>" using a(6) by (simp add: same_but_fmap_def fm_def)
  define t where "t = (\<lambda>sz. with_inode s (unat j) m2 fm sz l)"
  have l0: "l \<noteq> 0" using a(7) by auto
  have len: "length (fs_inodes s) = 64" using fs_invD(2) [OF inv] by (simp add: imap_ok_def)
  have mfm: "map_ok (s\<lparr>fs_fmap := fm\<rparr>)" using a(5) by (simp add: s4 s2_def map_ok_def)
  have ufm: "used_blocks (s\<lparr>fs_fmap := fm\<rparr>) = insert l (used_blocks s)" using a(4) u2 by (simp add: s4 s2_def used_blocks_def)
  have lu: "l \<notin> used_blocks s" using a(3) u2 by simp
  note wi = with_inode_inv [OF inv j(3,4,6,7,8,5) mfm ufm lu l0]
  have c: "item_created s (t sz) (unat j)" for sz
    using wi [where sz = sz] j(3,4,5) lu l0 by (simp add: item_created_def t_def) (simp add: with_inode_def)
  have set: "inode_set j sz l s4 = Inr (t sz)" for sz
  proof -
    have "j \<noteq> INVALID_INDEX" using j(3) by auto
    then show ?thesis using ino_index(2) [OF fs_invD(2) [OF inv] j(3)]
      by (simp add: inode_set_def s4 s2_def t_def with_inode_def new_inode_def)
  qed
  have "i_size (fs_inodes (t sz) ! unat j) = sz" for sz using j(3) len by (simp add: t_def with_inode_def new_inode_def)
  moreover have "tree (t sz) (unat j, Dat 0) = l" for sz using wi(2) [where sz = sz] by (simp add: t_def)
  ultimately show ?thesis using j(1,2) a(1,2) set c unfolding s2_def by blast
qed

text \<open>Saving the inode and the inode map.\<close>

lemma create_finish:
  assumes c: "item_created s t (unat j)"
  shows "\<exists>u. bindr (inodes_rw_disk j ATA_CMD_IO_WRITE t) inode_map_update = Inr u
    \<and> item_created s u (unat j) \<and> same_file t u (unat j)"
proof -
  have inv: "fs_inv t" and j: "unat j < 64" "unat j \<in> bm_bits (fs_imap t)" using c by (simp_all add: item_created_def)
  define t1 where "t1 = save_inode (unat j) t"
  have 1: "inodes_rw_disk j ATA_CMD_IO_WRITE t = Inr t1"
    unfolding t1_def using inv j(1) by (intro inodes_write_eq) auto
  have m1: "meta_only t t1" unfolding t1_def by (rule save_inode_meta [OF inv j(1)])
  note i1 = meta_only_inv [OF inv m1]
  obtain u where u: "inode_map_update t1 = Inr u" "meta_only t1 u" using inode_map_update_meta [OF i1(1)] by blast
  have j1: "unat j \<in> bm_bits (fs_imap t1)" using j(2) by (simp add: t1_def)
  have "same_file t u (unat j)"
    using same_file_trans [OF i1(5) [OF j(2)] meta_only_inv(5) [OF i1(1) u(2) j1]] .
  then show ?thesis using 1 u(1) item_created_meta [OF item_created_meta [OF c m1] u(2)] by simp
qed

lemma create_file_ok:
  assumes inv: "fs_inv s" and free: "bm_bits (fs_imap s) \<noteq> {..<64}" and room: "card (used_blocks s) < NBLOCKS"
    and name: "0 \<in> set name" "length (cstr name) < 16"
  shows "\<exists>j t. diritem_create INODE_TYPE_FILE (Some name) parent s = Inr (mk_item INODE_TYPE_FILE j (cstr name), t)
    \<and> item_created s t (unat j) \<and> complete t (unat j) \<and> file_data t (unat j) = []"
proof -
  obtain j l s1 s2 s3 s4 t where a: "inode_allocate s = Inr (j, s1)" "inode_map_setup j True s1 = Inr s2"
    "free_allocate s2 = Inr (l, s3)" "free_map_setup l True s3 = Inr s4" "inode_set j 0 l s4 = Inr t"
    "item_created s t (unat j)" "i_size (fs_inodes t ! unat j) = 0"
    using create_start [OF inv free room] by blast
  obtain u where u: "bindr (inodes_rw_disk j ATA_CMD_IO_WRITE t) inode_map_update = Inr u" "item_created s u (unat j)"
    "same_file t u (unat j)" using create_finish [OF a(6)] by blast
  have sz: "i_size (fs_inodes u ! unat j) = 0" using u(3) a(7) by (simp add: same_file_def)
  have "complete u (unat j)" "file_data u (unat j) = []"
    using sz u(2) by (simp_all add: complete_def file_data_def item_created_def)
  then show ?thesis using a(1-5) u(1,2) diritem_set_eq [OF name]
    by (intro exI [of _ j] exI [of _ u]) (auto simp: diritem_create_def bindr_eq_Inr INODE_TYPE_FILE_def)
qed

text \<open>A new directory.\<close>

lemma new_dir_block:
  "dirblock_get_new (Some sect0) j parent =
     Inr (enc_item (mk_item INODE_TYPE_DIR j [46]) @ enc_item (mk_item INODE_TYPE_DIR parent [46, 46]) @ replicate 464 0)"
proof -
  let ?a = "enc_item (mk_item INODE_TYPE_DIR j [46])" and ?b = "enc_item (mk_item INODE_TYPE_DIR parent [46, 46])"
  have l: "length ?a = 24" "length ?b = 24" by (simp_all add: enc_item_def mk_item_def)
  have "memcpy_loop sect0 0 ?a 0 24 = Inr (?a @ replicate 488 0)"
    using l by (subst memcpy_loop_eq) (simp_all add: sect0_def)
  moreover have "memcpy_loop (?a @ replicate 488 0) 24 ?b 0 24 = Inr (?a @ ?b @ replicate 464 0)"
    using l by (subst memcpy_loop_eq) simp_all
  ultimately show ?thesis
    by (simp add: dirblock_get_new_def diritem0_def mk_item_def Let_def)
qed

lemma create_dir_ok:
  assumes inv: "fs_inv s" and free: "bm_bits (fs_imap s) \<noteq> {..<64}" and room: "card (used_blocks s) < NBLOCKS"
    and name: "0 \<in> set name" "length (cstr name) < 16"
  shows "\<exists>j t. diritem_create INODE_TYPE_DIR (Some name) parent s = Inr (mk_item INODE_TYPE_DIR j (cstr name), t)
    \<and> item_created s t (unat j) \<and> dir_ok t (unat j)
    \<and> dir_items t (unat j) = [mk_item INODE_TYPE_DIR j [46], mk_item INODE_TYPE_DIR parent [46, 46]]"
proof -
  obtain j l s1 s2 s3 s4 t where a: "inode_allocate s = Inr (j, s1)" "inode_map_setup j True s1 = Inr s2"
    "free_allocate s2 = Inr (l, s3)" "free_map_setup l True s3 = Inr s4" "inode_set j 2 l s4 = Inr t"
    "item_created s t (unat j)" "tree t (unat j, Dat 0) = l" "i_size (fs_inodes t ! unat j) = 2"
    using create_start [OF inv free room] by blast
  let ?j = "unat j"
  let ?a = "mk_item INODE_TYPE_DIR j [46]" and ?b = "mk_item INODE_TYPE_DIR parent [46, 46]"
  define db where "db = enc_item ?a @ enc_item ?b @ replicate 464 0"
  have la: "length (enc_item ?a) = 24" "length (enc_item ?b) = 24" by (simp_all add: enc_item_def mk_item_def)
  then have len: "length db = 512" by (simp add: db_def)
  have inv_t: "fs_inv t" and jt: "?j \<in> bm_bits (fs_imap t)" and l0: "l \<noteq> 0"
    using a(6,7) by (auto simp: item_created_def)
  have x: "(?j, Dat 0) \<in> slots_of t" using jt by (simp add: slots_of_def)
  define t1 where "t1 = set_blk l db t"
  note pb = put_block [OF inv_t x a(7) [symmetric] l0 len, folded t1_def]
  have inv1: "fs_inv t1" using pb(2) by (simp add: same_but_def)
  have sz1: "i_size (fs_inodes t1 ! i) = i_size (fs_inodes t ! i)" for i by (simp add: t1_def)
  have "same_file s t1 i" if "i \<in> bm_bits (fs_imap s)" for i
    using same_file_trans [of s t i t1] same_but_file [OF pb(2) sz1] that a(6) by (auto simp: item_created_def)
  moreover have "tree t1 (?j, Dat k) = 0" if "k < 16518" "k \<noteq> 0" for k
    using pb(2) jt that a(6) by (simp add: same_but_def slots_of_def item_created_def)
  moreover have "fs_imap t1 = fs_imap t" "used_blocks t1 = used_blocks t" by (simp_all add: t1_def used_blocks_def)
  ultimately have c1: "item_created s t1 ?j" using a(6) inv1 pb(3) l0 by (simp add: item_created_def)
  obtain t2 where t2: "free_map_update t1 = Inr t2" "meta_only t1 t2" using free_map_update_meta [OF inv1] by blast
  note c2 = item_created_meta [OF c1 t2(2)]
  obtain u where u: "bindr (inodes_rw_disk j ATA_CMD_IO_WRITE t2) inode_map_update = Inr u" "item_created s u ?j"
    "same_file t2 u ?j" using create_finish [OF c2] by blast
  have "same_file t1 t2 ?j" using meta_only_inv(5) [OF inv1 t2(2)] jt by (simp add: t1_def)
  then have sf: "same_file t1 u ?j" using same_file_trans u(3) by blast
  have sz: "dir_size u ?j = 2" using sf sz1 a(8) by (simp add: same_file_def dir_size_def)
  have nz: "tree u (?j, Dat 0) \<noteq> 0" using u(2) by (simp add: item_created_def)
  have fb: "file_block u ?j 0 = db" using sf pb(3,4) l0 by (simp add: same_file_def)
  have "dir_entry db 0 = enc_item ?a" "dir_entry db 1 = enc_item ?b" using la by (simp_all add: dir_entry_def db_def)
  then have it: "dir_item u ?j 0 = ?a" "dir_item u ?j 1 = ?b"
    using fb by (simp_all add: dir_item_def) (simp_all add: mk_item_def)
  have "[0..<2] = [0, 1 :: nat]" by (simp add: numeral_2_eq_2)
  then have items: "dir_items u ?j = [?a, ?b]" using sz it by (simp add: dir_items_def)
  have "\<forall>k < 2. tree u (?j, Dat (k div 21)) \<noteq> 0 \<and> 0 \<in> set (di_name (dir_item u ?j k))"
    using nz it by (auto simp: less_2_cases_iff mk_item_def)
  then have ok: "dir_ok u ?j" using u(2) sz by (simp add: dir_ok_def item_created_def)
  have w: "free_rw_disk (Some db) l ATA_CMD_IO_WRITE t = Inr (db, t1)" by (rule pb(1))
  have "diritem_create INODE_TYPE_DIR (Some name) parent s = Inr (mk_item INODE_TYPE_DIR j (cstr name), u)"
    using a(1-5) w t2(1) u(1) diritem_set_eq [OF name] new_dir_block [of j parent, folded db_def]
    by (auto simp: diritem_create_def bindr_eq_Inr INODE_TYPE_FILE_def INODE_TYPE_DIR_def)
  then show ?thesis using u(2) ok items by blast
qed

end
