(* ===== verification/Create_Remove.thy ===== *)
theory Create_Remove
  imports Dir_Create
begin

section \<open>Creating and removing files by path\<close>

text \<open>
  files_create, files_remove and files_open, over the abstraction of the directories: the path
  is a list of components, and the directory of the parent gains or loses an item.
\<close>

subsection \<open>Paths as lists of components\<close>

definition full_path :: "byte list list \<Rightarrow> byte list \<Rightarrow> byte list \<Rightarrow> byte list" where
  "full_path cs c t = 47 # path_of cs @ c @ t"

lemma takeWhile_sep: "47 \<notin> set c \<Longrightarrow> takeWhile (\<lambda>x. x \<noteq> 47) (c @ 47 # r) = c"
  by (induction c) auto

lemma takeWhile_no_sep: "47 \<notin> set c \<Longrightarrow> takeWhile (\<lambda>x. x \<noteq> 47) c = c"
  by (induction c) auto

lemma comps_part:
  assumes "47 \<notin> set c"
  shows "comps (c @ 47 # r) = c # comps r"
  using comps_eq [of "c @ 47 # r"] unfolding takeWhile_sep [OF assms] by simp

lemma comps_last:
  assumes "47 \<notin> set c" and "c \<noteq> []"
  shows "comps c = [c]"
  using comps_eq [OF assms(2)] unfolding takeWhile_no_sep [OF assms(1)] by simp

lemma comps_path_of: "\<forall>x \<in> set cs. 47 \<notin> set x \<Longrightarrow> comps (path_of cs @ r) = cs @ comps r"
proof (induction cs)
  case (Cons c cs)
  have "path_of (c # cs) @ r = c @ 47 # (path_of cs @ r)" by (simp add: path_of_def)
  then show ?case using comps_part [of c "path_of cs @ r"] Cons by simp
qed (simp add: path_of_def)

lemma comps_full:
  assumes "\<forall>x \<in> set cs. 47 \<notin> set x" and "47 \<notin> set c" "c \<noteq> []" and "t = [] \<or> t = [47]"
  shows "comps (path_of cs @ c @ t) = cs @ [c]"
  using comps_path_of [OF assms(1)] comps_last [OF assms(2,3)] comps_part [OF assms(2), of "[]"] assms(4) by auto

definition lookup_dir :: "fs \<Rightarrow> diritem \<Rightarrow> byte list list \<Rightarrow> diritem option" where
  "lookup_dir s r cs = (if cs = [] then Some r else resolve s r cs)"

lemma resolve_snoc:
  "resolve s r (cs @ [c]) = (case lookup_dir s r cs of None \<Rightarrow> None
     | Some d \<Rightarrow> map_option (item_at s d) (search_dir s d c))"
proof (induction cs arbitrary: r)
  case (Cons x cs)
  then show ?case by (auto simp: lookup_dir_def split: option.splits)
qed (simp add: lookup_dir_def split: option.splits)

lemma walkable_snoc:
  "walkable s r (cs @ [c]) \<longleftrightarrow> walkable s r cs
     \<and> (case lookup_dir s r cs of None \<Rightarrow> True | Some d \<Rightarrow> length c < 16 \<and> dir_ok s (unat (di_inode d)))"
proof (induction cs arbitrary: r)
  case (Cons x cs)
  show ?case
  proof (cases "cs = []")
    case True
    then show ?thesis using Cons.IH by (auto simp: lookup_dir_def split: option.splits)
  next
    case False
    then show ?thesis using Cons.IH by (auto simp: lookup_dir_def split: option.splits)
  qed
qed (simp add: lookup_dir_def)

subsection \<open>Directories that only grow\<close>

definition grows :: "fs \<Rightarrow> fs \<Rightarrow> bool" where
  "grows s t \<longleftrightarrow> (\<forall>i. dir_ok s i \<longrightarrow> dir_ok t i \<and> (\<exists>xs. dir_items t i = dir_items s i @ xs))"

lemma grows_search:
  assumes "grows s t" and "dir_ok s (unat (di_inode d))" and "search_dir s d c = Some k"
  shows "search_dir t d c = Some k" and "item_at t d k = item_at s d k"
proof -
  obtain xs where xs: "dir_items t (unat (di_inode d)) = dir_items s (unat (di_inode d)) @ xs"
    using assms(1,2) by (auto simp: grows_def)
  show "search_dir t d c = Some k" using assms(3) by (simp add: search_dir_def xs first_match_append)
  have "k < length (dir_items s (unat (di_inode d)))" using assms(3) first_match_Some unfolding search_dir_def by fastforce
  then show "item_at t d k = item_at s d k" by (simp add: item_at_def xs nth_append)
qed

lemma grows_resolve:
  "grows s t \<Longrightarrow> walkable s r cs \<Longrightarrow> resolve s r cs = Some d \<Longrightarrow> walkable t r cs \<and> resolve t r cs = Some d"
proof (induction cs arbitrary: r)
  case (Cons c cs)
  obtain k where k: "search_dir s r c = Some k" using Cons.prems(3) by (auto split: option.splits)
  have ok: "dir_ok s (unat (di_inode r))" using Cons.prems(2) by simp
  note g = grows_search [OF Cons.prems(1) ok k]
  have "dir_ok t (unat (di_inode r))" using Cons.prems(1) ok by (auto simp: grows_def)
  then show ?case using Cons.prems Cons.IH [OF Cons.prems(1), of "item_at s r k"] k g by (auto split: if_splits)
qed simp

lemma grows_lookup:
  "grows s t \<Longrightarrow> walkable s r cs \<Longrightarrow> lookup_dir s r cs = Some d \<Longrightarrow> walkable t r cs \<and> lookup_dir t r cs = Some d"
  using grows_resolve [of s t r cs d] by (auto simp: lookup_dir_def split: if_splits)

lemma created_grows: "item_created s t j \<Longrightarrow> grows s t"
  unfolding grows_def
proof (intro allI impI)
  fix i assume c: "item_created s t j" and ok: "dir_ok s i"
  then have "same_file s t i" "i \<in> bm_bits (fs_imap t)" by (auto simp: item_created_def dir_ok_def)
  from same_file_dir [OF this ok] show "dir_ok t i \<and> (\<exists>xs. dir_items t i = dir_items s i @ xs)" by simp
qed

lemma pushed_grows: "item_pushed s t j d \<Longrightarrow> grows s t"
  unfolding grows_def
proof (intro allI impI)
  fix i assume c: "item_pushed s t j d" and ok: "dir_ok s i"
  show "dir_ok t i \<and> (\<exists>xs. dir_items t i = dir_items s i @ xs)"
  proof (cases "i = j")
    case True
    then show ?thesis using c by (auto simp: item_pushed_def)
  next
    case False
    then have "same_file s t i" "i \<in> bm_bits (fs_imap t)" using c ok by (auto simp: item_pushed_def dir_ok_def)
    from same_file_dir [OF this ok] show ?thesis by simp
  qed
qed

lemma grows_trans: "grows s t \<Longrightarrow> grows t u \<Longrightarrow> grows s u"
  unfolding grows_def by (metis append_assoc)

subsection \<open>The names the operations work on\<close>

text \<open>\<open>nm\<close> is the path of \<open>c\<close> in the directory \<open>cs\<close>, with a separator behind it or not.\<close>

definition path_ok :: "byte list list \<Rightarrow> byte list \<Rightarrow> byte list \<Rightarrow> bool" where
  "path_ok cs c t \<longleftrightarrow> (\<forall>x \<in> set (c # cs). 47 \<notin> set x \<and> 0 \<notin> set x \<and> x \<noteq> []) \<and> (t = [] \<or> t = [47])"

lemma path_okD:
  assumes "path_ok cs c t"
  shows "0 \<notin> set (full_path cs c t)" and "comps (path_of cs @ c @ t) = cs @ [c]" and "path_of cs @ c @ t \<noteq> []"
    and "cstr (full_path cs c t @ 0 # junk) = full_path cs c t" and "0 \<in> set (full_path cs c t @ 0 # junk)"
    and "comps (path_of cs) = cs"
proof -
  show z: "0 \<notin> set (full_path cs c t)" using assms by (auto simp: path_ok_def full_path_def path_of_def)
  then show "cstr (full_path cs c t @ 0 # junk) = full_path cs c t" by simp
  show "0 \<in> set (full_path cs c t @ 0 # junk)" by simp
  show "comps (path_of cs @ c @ t) = cs @ [c]" using assms by (intro comps_full) (auto simp: path_ok_def)
  show "path_of cs @ c @ t \<noteq> []" using assms by (simp add: path_ok_def)
  show "comps (path_of cs) = cs" using comps_path_of [of cs "[]"] assms by (simp add: path_ok_def)
qed

lemma find_full:
  assumes inv: "fs_inv f" and p: "path_ok cs c t" and walk: "walkable f r (cs @ [c])"
  shows "diritem_find (Some r) (Some (full_path cs c t @ 0 # junk)) (Some f0) f
    = Inr (case resolve f r (cs @ [c]) of None \<Rightarrow> (False, diritem0, f) | Some it \<Rightarrow> (True, it, f))"
proof -
  note d = path_okD [OF p]
  have "cstr (full_path cs c t @ 0 # junk) = 47 # path_of cs @ c @ t" unfolding d(4) by (simp add: full_path_def)
  from diritem_find_eq [OF inv d(5) this d(3)] d(2) walk p show ?thesis by (simp add: path_ok_def)
qed

text \<open>The buffer of 16 bytes that becomes the path of the parent.\<close>

lemma parent_buffer:
  assumes p: "path_ok cs c t" and len: "length (full_path cs c t) < 16"
  defines "n \<equiv> length (full_path cs c t)"
  shows "strlen (full_path cs c t @ 0 # junk) = Inr n"
    and "read_at w (full_path cs c t @ 0 # junk) (int n - 1) = Inr (if t = [47] then 47 else last c)" and "last c \<noteq> 47"
    and "memcpy_loop (replicate 16 0) 0 (full_path cs c t @ 0 # junk) 0 n = Inr (full_path cs c t @ replicate (16 - n) 0)"
    and "\<exists>b. get_parent_child_filename (Some (full_path cs c t @ replicate (16 - n) 0)) (Some (replicate 16 0))
        = Inr (b, Some (c @ replicate (16 - length c) 0))
      \<and> get_parent_child_filename (Some (full_path cs c t @ replicate (16 - n) 0)) None = Inr (b, None)
      \<and> 0 \<in> set b \<and> cstr b = 47 # path_of cs"
proof -
  note d = path_okD [OF p]
  have c: "0 \<notin> set c" "47 \<notin> set c" "c \<noteq> []" and t: "t = [] \<or> t = [47]" using p by (simp_all add: path_ok_def)
  show "strlen (full_path cs c t @ 0 # junk) = Inr n" using strlen_cstr [OF d(5)] d(4) by (simp add: n_def)
  show lc: "last c \<noteq> 47" using c(2,3) by (metis last_in_set)
  have n1: "int n - 1 = int (n - 1)" "n - 1 < n" by (simp_all add: n_def full_path_def)
  have "(full_path cs c t @ 0 # junk) ! (n - 1) = last (full_path cs c t)"
  proof -
    have "(full_path cs c t @ 0 # junk) ! (n - 1) = full_path cs c t ! (n - 1)"
      using n1(2) unfolding n_def by (simp only: nth_append if_True)
    moreover have "last (full_path cs c t) = full_path cs c t ! (n - 1)"
      unfolding n_def by (rule last_conv_nth) (simp add: full_path_def)
    ultimately show ?thesis by (simp only:)
  qed
  also have "\<dots> = (if t = [47] then 47 else last c)" using t c(3) by (auto simp: full_path_def)
  finally show "read_at w (full_path cs c t @ 0 # junk) (int n - 1) = Inr (if t = [47] then 47 else last c)"
    unfolding n1(1) using n1(2) by (subst read_at_nat) (simp_all add: n_def)
  show "memcpy_loop (replicate 16 0) 0 (full_path cs c t @ 0 # junk) 0 n = Inr (full_path cs c t @ replicate (16 - n) 0)"
    using len by (subst memcpy_loop_eq) (simp_all add: n_def)
  define pre where "pre = butlast (47 # path_of cs)"
  have l: "last (47 # path_of cs) = 47" by (cases cs rule: rev_cases) (simp_all add: path_of_def)
  have pp: "pre @ [47] = 47 # path_of cs" using append_butlast_last_id [of "47 # path_of cs"] unfolding l pre_def by simp
  obtain junk' where j: "replicate (16 - n) (0 :: byte) = 0 # junk'" using len by (cases "16 - n") (auto simp: n_def)
  define b where "b = (full_path cs c t @ replicate (16 - n) 0)[Suc (length pre) := 0]"
  have e: "full_path cs c t @ replicate (16 - n) 0 = pre @ 47 # c @ t @ 0 # junk'"
  proof -
    have "full_path cs c t = (pre @ [47]) @ c @ t" unfolding pp by (simp add: full_path_def)
    then show ?thesis unfolding j by simp
  qed
  have pre: "0 \<notin> set pre" "pre = [] \<or> hd pre = 47"
  proof -
    have "set pre \<subseteq> set (47 # path_of cs)" by (metis pp set_append sup_ge1)
    then show "0 \<notin> set pre" using d(1) by (auto simp: full_path_def)
    show "pre = [] \<or> hd pre = 47" using pp by (cases pre) auto
  qed
  have ct: "length (c @ t) < 16" using len by (simp add: full_path_def)
  note pc = parent_child_eq [OF e pre c ct t, folded b_def]
  have "length b = 16" using len by (simp add: b_def n_def)
  moreover have "Suc (length pre) < 16" using len arg_cong [OF pp, of length] c(3)
    by (cases c) (simp_all add: full_path_def)
  ultimately have "b ! Suc (length pre) = 0" by (simp add: b_def)
  then have "0 \<in> set b" using \<open>length b = 16\<close> \<open>Suc (length pre) < 16\<close> by (metis nth_mem)
  then show "\<exists>b. get_parent_child_filename (Some (full_path cs c t @ replicate (16 - n) 0)) (Some (replicate 16 0))
        = Inr (b, Some (c @ replicate (16 - length c) 0))
      \<and> get_parent_child_filename (Some (full_path cs c t @ replicate (16 - n) 0)) None = Inr (b, None)
      \<and> 0 \<in> set b \<and> cstr b = 47 # path_of cs"
    using pc pp by (intro exI [of _ b]) simp
qed

lemma find_parent:
  assumes inv: "fs_inv f" and p: "path_ok cs c t" and b: "0 \<in> set b" "cstr b = 47 # path_of cs"
    and walk: "walkable f r cs" and d: "lookup_dir f r cs = Some d"
  shows "diritem_find (Some r) (Some b) (Some f0) f = Inr (True, d, f)"
proof (cases "cs = []")
  case True
  then have "cstr b = [47]" using b(2) by (simp add: path_of_def)
  then show ?thesis using diritem_find_root [OF b(1)] d True by (simp add: lookup_dir_def)
next
  case False
  then have "path_of cs \<noteq> []" by (cases cs) (simp_all add: path_of_def)
  moreover have "last (comps (path_of cs)) \<noteq> []" using False p unfolding path_okD(6) [OF p] by (simp add: path_ok_def)
  ultimately show ?thesis using diritem_find_eq [OF inv b] walk d False unfolding path_okD(6) [OF p]
    by (simp add: lookup_dir_def)
qed

subsection \<open>files_create\<close>

lemma set_fs_fs [simp]: "v_fs (set_fs f v) = f" "v_root (set_fs f v) = v_root v"
  by (simp_all add: set_fs_def set_sys_def)

text \<open>The type of the item, by the separator at the end.\<close>

definition kind_of :: "byte list \<Rightarrow> u32" where
  "kind_of t = (if t = [47] then INODE_TYPE_DIR else INODE_TYPE_FILE)"

text \<open>Creating the item and entering it in the directory, whichever its type.\<close>

lemma create_push:
  assumes inv: "fs_inv f" and ok: "dir_ok f (unat (di_inode d))" and n: "dir_size f (unat (di_inode d)) + 22 < 21 * 16518"
    and free: "bm_bits (fs_imap f) \<noteq> {..<64}" and room: "card (used_blocks f) + 4 \<le> NBLOCKS"
    and c: "0 \<notin> set c" "length c < 16" and ty: "ty = INODE_TYPE_FILE \<or> ty = INODE_TYPE_DIR"
  shows "\<exists>j h g. diritem_create ty (Some (c @ replicate (16 - length c) 0)) (di_inode d) f = Inr (mk_item ty j c, h)
    \<and> item_created f h (unat j) \<and> diritem_push (Some d) (Some (mk_item ty j c)) h = Inr g
    \<and> item_pushed h g (unat (di_inode d)) (mk_item ty j c) \<and> unat j \<noteq> unat (di_inode d)
    \<and> dir_items h (unat (di_inode d)) = dir_items f (unat (di_inode d))
    \<and> tree g (unat j, Dat 0) \<noteq> 0 \<and> (\<forall>k < 16518. k \<noteq> 0 \<longrightarrow> tree g (unat j, Dat k) = 0)
    \<and> (ty = INODE_TYPE_FILE \<longrightarrow> complete g (unat j) \<and> file_data g (unat j) = [])
    \<and> (ty = INODE_TYPE_DIR \<longrightarrow> dir_ok g (unat j)
        \<and> dir_items g (unat j) = [mk_item INODE_TYPE_DIR j [46], mk_item INODE_TYPE_DIR (di_inode d) [46, 46]])"
proof -
  let ?i = "unat (di_inode d)" and ?nm = "c @ replicate (16 - length c) (0 :: byte)"
  obtain q where q: "?nm = c @ 0 # q" using c(2) by (cases "16 - length c") auto
  have nm: "0 \<in> set ?nm" "cstr ?nm = c" unfolding q using c(1) by simp_all
  have r1: "card (used_blocks f) < NBLOCKS" using room by simp
  have "length (cstr ?nm) < 16" using nm(2) c(2) by simp
  note cr = create_file_ok [OF inv free r1 nm(1) this, of "di_inode d", unfolded nm(2)]
    create_dir_ok [OF inv free r1 nm(1) this, of "di_inode d", unfolded nm(2)]
  obtain j h where jh: "diritem_create ty (Some ?nm) (di_inode d) f = Inr (mk_item ty j c, h)"
    "item_created f h (unat j)" "ty = INODE_TYPE_FILE \<longrightarrow> complete h (unat j) \<and> file_data h (unat j) = []"
    "ty = INODE_TYPE_DIR \<longrightarrow> dir_ok h (unat j)
        \<and> dir_items h (unat j) = [mk_item INODE_TYPE_DIR j [46], mk_item INODE_TYPE_DIR (di_inode d) [46, 46]]"
  proof (cases "ty = INODE_TYPE_FILE")
    case True
    then show ?thesis using cr(1) that by (auto simp: INODE_TYPE_FILE_def INODE_TYPE_DIR_def)
  next
    case False
    then show ?thesis using cr(2) that ty by auto
  qed
  have i: "?i \<in> bm_bits (fs_imap f)" using ok by (simp add: dir_ok_def)
  then have sf: "same_file f h ?i" and ih: "?i \<in> bm_bits (fs_imap h)" and ne: "unat j \<noteq> ?i"
    using jh(2) by (auto simp: item_created_def)
  note sd = same_file_dir [OF sf ih ok]
  have inv_h: "fs_inv h" and room_h: "card (used_blocks h) + 3 \<le> NBLOCKS" using jh(2) room by (simp_all add: item_created_def)
  have n_h: "dir_size h ?i + 22 < 21 * 16518" using n sf by (simp add: dir_size_def same_file_def)
  have mk: "length (di_name (mk_item ty j c)) = 16" "0 \<in> set (di_name (mk_item ty j c))" using mk_item_name [OF c(2,1)] by auto
  obtain g where g: "diritem_push (Some d) (Some (mk_item ty j c)) h = Inr g" "item_pushed h g ?i (mk_item ty j c)"
    using diritem_push_ok [OF inv_h sd(1) room_h n_h mk] by blast
  have "unat j \<in> bm_bits (fs_imap h)" using jh(2) by (simp add: item_created_def)
  then have sj: "same_file h g (unat j)" and jg: "unat j \<in> bm_bits (fs_imap g)" using g(2) ne by (auto simp: item_pushed_def)
  have "tree g (unat j, Dat 0) \<noteq> 0" "\<forall>k < 16518. k \<noteq> 0 \<longrightarrow> tree g (unat j, Dat k) = 0"
    using jh(2) sj by (simp_all add: item_created_def same_file_def)
  then show ?thesis
    using jh(1,2) g ne sd(2) jh(3,4) same_file_data [OF sj] same_file_dir [OF sj jg]
    by (intro exI [of _ j] exI [of _ h] exI [of _ g]) auto
qed

text \<open>What files_create leaves behind.\<close>

definition created_in :: "fs \<Rightarrow> fs \<Rightarrow> diritem \<Rightarrow> u32 \<Rightarrow> u32 \<Rightarrow> byte list \<Rightarrow> bool" where
  "created_in f g d ty j c \<longleftrightarrow> fs_inv g \<and> unat j \<notin> bm_bits (fs_imap f)
     \<and> bm_bits (fs_imap g) = insert (unat j) (bm_bits (fs_imap f))
     \<and> dir_ok g (unat (di_inode d)) \<and> dir_items g (unat (di_inode d)) = dir_items f (unat (di_inode d)) @ [mk_item ty j c]
     \<and> (\<forall>i \<in> bm_bits (fs_imap f). i \<noteq> unat (di_inode d) \<longrightarrow> same_file f g i)
     \<and> card (used_blocks g) \<le> card (used_blocks f) + 4
     \<and> tree g (unat j, Dat 0) \<noteq> 0 \<and> (\<forall>k < 16518. k \<noteq> 0 \<longrightarrow> tree g (unat j, Dat k) = 0)
     \<and> (ty = INODE_TYPE_FILE \<longrightarrow> complete g (unat j) \<and> file_data g (unat j) = [])
     \<and> (ty = INODE_TYPE_DIR \<longrightarrow> dir_ok g (unat j)
        \<and> dir_items g (unat j) = [mk_item INODE_TYPE_DIR j [46], mk_item INODE_TYPE_DIR (di_inode d) [46, 46]])"

lemma created_in_grows: "created_in f g d ty j c \<Longrightarrow> grows f g"
  unfolding grows_def
proof (intro allI impI)
  fix i assume c: "created_in f g d ty j c" and ok: "dir_ok f i"
  show "dir_ok g i \<and> (\<exists>xs. dir_items g i = dir_items f i @ xs)"
  proof (cases "i = unat (di_inode d)")
    case True
    then show ?thesis using c by (auto simp: created_in_def)
  next
    case False
    then have "same_file f g i" "i \<in> bm_bits (fs_imap g)" using c ok by (auto simp: created_in_def dir_ok_def)
    from same_file_dir [OF this ok] show ?thesis by simp
  qed
qed

text \<open>What was created in \<open>g\<close> stays where it is in \<open>t\<close> when only the new file's own contents changed since.\<close>

lemma created_grows_later:
  assumes cin: "created_in f g d ty j c" and im: "fs_imap t = fs_imap g"
    and same: "\<forall>x \<in> bm_bits (fs_imap g). x \<noteq> unat j \<longrightarrow> same_file g t x"
  shows "grows f t"
  unfolding grows_def
proof (intro allI impI)
  fix x assume x: "dir_ok f x"
  then have xf: "x \<in> bm_bits (fs_imap f)" by (simp add: dir_ok_def)
  have bits: "bm_bits (fs_imap g) = insert (unat j) (bm_bits (fs_imap f))" "unat j \<notin> bm_bits (fs_imap f)"
    using cin by (simp_all add: created_in_def)
  have g: "dir_ok g x" "\<exists>xs. dir_items g x = dir_items f x @ xs" using created_in_grows [OF cin] x by (auto simp: grows_def)
  have "same_file g t x" "x \<in> bm_bits (fs_imap t)" using xf bits same im by auto
  then show "dir_ok t x \<and> (\<exists>xs. dir_items t x = dir_items f x @ xs)" using same_file_dir g by metis
qed

lemma created_resolves:
  assumes cin: "created_in f g d ty j c" and im: "fs_imap t = fs_imap g"
    and same: "\<forall>x \<in> bm_bits (fs_imap g). x \<noteq> unat j \<longrightarrow> same_file g t x"
    and c: "0 \<notin> set c" "length c < 16" and walk: "walkable f r cs" and d: "lookup_dir f r cs = Some d"
    and ok: "dir_ok f (unat (di_inode d))" and new: "search_dir f d c = None"
  shows "walkable t r (cs @ [c])" and "resolve t r (cs @ [c]) = Some (mk_item ty j c)"
proof -
  let ?i = "unat (di_inode d)"
  have bits: "bm_bits (fs_imap g) = insert (unat j) (bm_bits (fs_imap f))" "unat j \<notin> bm_bits (fs_imap f)"
    using cin by (simp_all add: created_in_def)
  have sm: "same_file g t x" "x \<in> bm_bits (fs_imap t)" if "x \<in> bm_bits (fs_imap f)" for x
    using that bits same im by auto
  note gl = grows_lookup [OF created_grows_later [OF cin im same] walk d]
  have i: "?i \<in> bm_bits (fs_imap f)" using ok by (simp add: dir_ok_def)
  have okg: "dir_ok g ?i" and itg: "dir_items g ?i = dir_items f ?i @ [mk_item ty j c]"
    using cin by (simp_all add: created_in_def)
  note st = same_file_dir [OF sm [OF i] okg]
  have "search_dir t d c = Some (length (dir_items f ?i))"
    using new mk_item_name [OF c(2,1), of ty j] by (simp add: search_dir_def st itg first_match_append)
  moreover have "item_at t d (length (dir_items f ?i)) = mk_item ty j c" by (simp add: item_at_def st itg)
  ultimately show "resolve t r (cs @ [c]) = Some (mk_item ty j c)" using gl by (simp add: resolve_snoc)
  show "walkable t r (cs @ [c])" using gl st(1) c(2) by (simp add: walkable_snoc)
qed

lemma files_create_run:
  assumes inv: "fs_inv (v_fs v)" and root: "v_root v = Some r" and p: "path_ok cs c t"
    and len: "length (full_path cs c t) < 16"
    and walk: "walkable (v_fs v) r cs" and d: "lookup_dir (v_fs v) r cs = Some d" and ok: "dir_ok (v_fs v) (unat (di_inode d))"
    and new: "search_dir (v_fs v) d c = None"
    and n: "dir_size (v_fs v) (unat (di_inode d)) + 22 < 21 * 16518"
    and free: "bm_bits (fs_imap (v_fs v)) \<noteq> {..<64}" and room: "card (used_blocks (v_fs v)) + 4 \<le> NBLOCKS"
  shows "\<exists>j g. files_create (full_path cs c t @ 0 # junk) v = Inr (0, set_fs g v)
    \<and> created_in (v_fs v) g d (kind_of t) j c
    \<and> diritem_find (Some r) (Some (full_path cs c t @ 0 # junk)) (Some diritem0) g = Inr (True, mk_item (kind_of t) j c, g)"
proof -
  let ?f = "v_fs v" and ?i = "unat (di_inode d)" and ?nm = "full_path cs c t @ 0 # junk"
  have c: "0 \<notin> set c" "length c < 16" using p len by (simp_all add: path_ok_def full_path_def)
  have walk2: "walkable ?f r (cs @ [c])" using walk d ok c by (simp add: walkable_snoc)
  have none: "resolve ?f r (cs @ [c]) = None" using d new by (simp add: resolve_snoc)
  have find1: "diritem_find (Some r) (Some ?nm) (Some diritem0) ?f = Inr (False, diritem0, ?f)"
    using find_full [OF inv p walk2] none by simp
  note pb = parent_buffer [OF p len]
  obtain b where b: "get_parent_child_filename (Some (full_path cs c t @ replicate (16 - length (full_path cs c t)) 0)) (Some (replicate 16 0))
      = Inr (b, Some (c @ replicate (16 - length c) 0))" "0 \<in> set b" "cstr b = 47 # path_of cs" using pb(5) by blast
  note find2 = find_parent [OF inv p b(2,3) walk d]
  have ty: "kind_of t = INODE_TYPE_FILE \<or> kind_of t = INODE_TYPE_DIR" by (simp add: kind_of_def)
  obtain j h g where g: "diritem_create (kind_of t) (Some (c @ replicate (16 - length c) 0)) (di_inode d) ?f = Inr (mk_item (kind_of t) j c, h)"
    "item_created ?f h (unat j)" "diritem_push (Some d) (Some (mk_item (kind_of t) j c)) h = Inr g"
    "item_pushed h g ?i (mk_item (kind_of t) j c)" "unat j \<noteq> ?i" "dir_items h ?i = dir_items ?f ?i"
    "tree g (unat j, Dat 0) \<noteq> 0" "\<forall>k < 16518. k \<noteq> 0 \<longrightarrow> tree g (unat j, Dat k) = 0"
    "kind_of t = INODE_TYPE_FILE \<longrightarrow> complete g (unat j) \<and> file_data g (unat j) = []"
    "kind_of t = INODE_TYPE_DIR \<longrightarrow> dir_ok g (unat j)
        \<and> dir_items g (unat j) = [mk_item INODE_TYPE_DIR j [46], mk_item INODE_TYPE_DIR (di_inode d) [46, 46]]"
    using create_push [OF inv ok n free room c ty] by blast
  have kt: "(if (if t = [47] then 47 else last c) = DIRNAME_ROOT_ASCII then INODE_TYPE_DIR else INODE_TYPE_FILE) = kind_of t"
    using pb(3) by (simp add: kind_of_def DIRNAME_ROOT_ASCII_def)
  have run: "files_create ?nm v = Inr (0, set_fs g v)"
    unfolding files_create_def
    by (simp only: pb(1,2,4) kt bindr_simps Let_def root find1 find2 b(1) g(1,3) prod.case if_False if_True DIRITEM_NAME_LEN_def
        simp_thms)
  have same: "same_file ?f g i" if "i \<in> bm_bits (fs_imap ?f)" "i \<noteq> ?i" for i
    using same_file_trans [of ?f h i g] that g(2,4) by (auto simp: item_created_def item_pushed_def)
  have cin: "created_in ?f g d (kind_of t) j c"
    using g same unfolding created_in_def item_created_def item_pushed_def by simp
  have invg: "fs_inv g" using cin by (simp add: created_in_def)
  note cr = created_resolves [OF cin refl _ c walk d ok new]
  then have "resolve g r (cs @ [c]) = Some (mk_item (kind_of t) j c)" "walkable g r (cs @ [c])" by simp_all
  then have "diritem_find (Some r) (Some ?nm) (Some diritem0) g = Inr (True, mk_item (kind_of t) j c, g)"
    using find_full [OF invg p] by simp
  then show ?thesis using run cin by blast
qed

end
