(* ===== verification/Remove.thy ===== *)
theory Remove
  imports Create_Remove
begin

section \<open>Removing\<close>

text \<open>
  diritem_remove_sub clears the bits of what an item stands for. While it runs, the free map and
  the blocks of the inode disagree, so the invariant of the file system holds again only when
  the bit of the inode is cleared. Reading the index of an inode does not look at the free map,
  which is why the blocks can be walked meanwhile.
\<close>

subsection \<open>Reading an index does not use the free map\<close>

definition with_fmap :: "bitmap \<Rightarrow> fs \<Rightarrow> fs" where
  "with_fmap m s = s\<lparr>fs_fmap := m\<rparr>"

lemma with_fmap_simps [simp]:
  "fs_tid (with_fmap m s) = fs_tid s" "fs_ata (with_fmap m s) = fs_ata s" "fs_sb (with_fmap m s) = fs_sb s"
  "fs_imap (with_fmap m s) = fs_imap s" "fs_inodes (with_fmap m s) = fs_inodes s" "fs_fmap (with_fmap m s) = m"
  "with_fmap m (with_fmap m' s) = with_fmap m s" "tree (with_fmap m s) = tree s" "slots_of (with_fmap m s) = slots_of s"
  by (simp_all add: with_fmap_def slots_of_def fun_eq_iff tree_def)

lemma bindr_if: "bindr (if b then x else y) f = (if b then bindr x f else bindr y f)"
  by simp

lemma fs_rw_with_fmap:
  "fs_rw b n l c (with_fmap m s) = bindr (fs_rw b n l c s) (\<lambda>y. Inr (fst y, with_fmap m (snd y)))"
  by (cases "ata_driver_rw (fs_tid s) b n l c (fs_ata s)") (simp_all add: fs_rw_def with_fmap_def case_prod_unfold)

lemma iblocks_get_with_fmap: "iblocks_get i k (with_fmap m s) = iblocks_get i k s"
  by (simp add: iblocks_get_def)

lemma load_table_with_fmap:
  "load_table True l f (with_fmap m s) = bindr (load_table True l f s) (\<lambda>y. Inr (fst y, fst (snd y), with_fmap m (snd (snd y))))"
  by (simp add: load_table_def fs_rw_with_fmap bindr_assoc case_prod_unfold)

lemma put_entry_with_fmap:
  "put_entry True l b k w (with_fmap m s) = bindr (put_entry True l b k w s) (\<lambda>y. Inr (fst y, with_fmap m (snd y)))"
  by (simp add: put_entry_def)

lemma iblock_get_with_fmap:
  assumes "iblock_get i k s = Inr (x, s)"
  shows "iblock_get i k (with_fmap m s) = Inr (x, with_fmap m s)"
proof -
  have "iblock_get i k (with_fmap m s) = bindr (iblock_get i k s) (\<lambda>y. Inr (fst y, with_fmap m (snd y)))"
    unfolding iblock_get_def iblock_handle_def Let_def
    by (simp only: iblocks_get_with_fmap load_table_with_fmap put_entry_with_fmap with_fmap_simps bindr_assoc bindr_if bindr_simps
        case_prod_unfold fst_conv snd_conv if_True if_False simp_thms not_True_eq_False)
  then show ?thesis using assms by simp
qed

subsection \<open>The blocks of a file\<close>

text \<open>The blocks of an inode from position 0 up to the first that is missing.\<close>

definition data_blocks :: "fs \<Rightarrow> nat \<Rightarrow> nat \<Rightarrow> u32 set" where
  "data_blocks s i n = {tree s (i, Dat m) | m. m < n}"

lemma free_loop_ok:
  assumes inv: "fs_inv s" and ino: "unat ino \<in> bm_bits (fs_imap s)" and n: "n < 16518" "tree s (unat ino, Dat n) = 0"
    and nz: "\<And>m. m < n \<Longrightarrow> tree s (unat ino, Dat m) \<noteq> 0"
  shows "k \<le> n \<Longrightarrow> k + j = 16518 \<Longrightarrow> map_ok (with_fmap fm s) \<Longrightarrow>
    used_blocks (with_fmap fm s) = used_blocks s - data_blocks s (unat ino) k \<Longrightarrow>
    \<exists>fm'. free_loop ino k j (with_fmap fm s) = Inr (with_fmap fm' s) \<and> map_ok (with_fmap fm' s)
      \<and> used_blocks (with_fmap fm' s) = used_blocks s - data_blocks s (unat ino) n"
proof (induction j arbitrary: k fm)
  case 0
  then show ?case using n(1) by simp
next
  case (Suc j)
  let ?i = "unat ino"
  have k: "k < 16518" using Suc.prems(1) n(1) by simp
  have u: "unat (word_of_nat k :: u32) = k" using k by (intro unat_word_of_nat_32) simp
  have "iblock_get ino (word_of_nat k) s = Inr (tree s (?i, Dat k), s)"
    using iblock_get_ok [OF inv ino, of "word_of_nat k"] k u by simp
  then have get: "iblock_get ino (word_of_nat k) (with_fmap fm s) = Inr (tree s (?i, Dat k), with_fmap fm s)"
    by (rule iblock_get_with_fmap)
  show ?case
  proof (cases "k = n")
    case True
    then show ?thesis using get n(2) Suc.prems(3,4) by (intro exI [of _ fm]) simp
  next
    case False
    then have kn: "k < n" using Suc.prems(1) by simp
    let ?l = "tree s (?i, Dat k)"
    have l0: "?l \<noteq> 0" by (rule nz [OF kn])
    have x: "(?i, Dat m) \<in> slots_of s" if "m < 16518" for m using ino that by (simp add: slots_of_def)
    have lu: "?l \<in> used_blocks s" using inv x [OF k] l0 unfolding fs_inv_def tree_ok_def by blast
    have "?l \<notin> data_blocks s ?i k"
    proof
      assume "?l \<in> data_blocks s ?i k"
      then obtain m where m: "m < k" "tree s (?i, Dat m) = ?l" by (auto simp: data_blocks_def)
      then have "(?i, Dat m) = (?i, Dat k)" using inv x [OF k] x [of m] l0 k unfolding fs_inv_def tree_ok_def
        by (metis less_trans)
      then show False using m(1) by simp
    qed
    then have "?l \<in> used_blocks (with_fmap fm s)" using lu Suc.prems(4) by simp
    then obtain s' where s': "free_map_setup ?l False (with_fmap fm s) = Inr s'" "used_blocks s' = used_blocks (with_fmap fm s) - {?l}"
      "map_ok s'" "same_but_fmap (with_fmap fm s) s'" using release_block [OF Suc.prems(3)] by blast
    have e: "s' = with_fmap (fs_fmap s') s" using s'(4) by (simp add: same_but_fmap_def with_fmap_def)
    have "data_blocks s ?i (Suc k) = insert ?l (data_blocks s ?i k)"
      by (auto simp: data_blocks_def less_Suc_eq)
    then have u': "used_blocks (with_fmap (fs_fmap s') s) = used_blocks s - data_blocks s ?i (Suc k)"
      using s'(2) Suc.prems(4) e by auto
    have m': "map_ok (with_fmap (fs_fmap s') s)" using s'(3) e by simp
    obtain fm' where f: "free_loop ino (Suc k) j (with_fmap (fs_fmap s') s) = Inr (with_fmap fm' s)" "map_ok (with_fmap fm' s)"
      "used_blocks (with_fmap fm' s) = used_blocks s - data_blocks s ?i n"
      using Suc.IH [OF _ _ m' u'] kn Suc.prems(2) by auto
    have "free_loop ino k (Suc j) (with_fmap fm s) = free_loop ino (Suc k) j (with_fmap (fs_fmap s') s)"
      using get l0 s'(1) e by simp
    then show ?thesis using f by auto
  qed
qed

text \<open>Clearing the bit of the inode restores the invariant.\<close>

definition item_freed :: "fs \<Rightarrow> fs \<Rightarrow> nat \<Rightarrow> bool" where
  "item_freed s t i \<longleftrightarrow> fs_inv t \<and> bm_bits (fs_imap t) = bm_bits (fs_imap s) - {i} \<and> used_blocks t \<subseteq> used_blocks s
     \<and> (\<forall>j \<in> bm_bits (fs_imap s) - {i}. same_file s t j)"

lemma clear_inode:
  assumes inv: "fs_inv s" and ino: "unat ino \<in> bm_bits (fs_imap s)" and m: "map_ok (with_fmap fm s)"
    and u: "used_blocks (with_fmap fm s) = used_blocks s - data_blocks s (unat ino) n" and n: "n < 16518"
  shows "\<exists>t. inode_map_setup ino False (with_fmap fm s) = Inr t \<and> item_freed s t (unat ino)
    \<and> used_blocks t = used_blocks s - data_blocks s (unat ino) n"
proof -
  let ?i = "unat ino"
  have im: "bm_wf (fs_imap s)" "bm_cap (fs_imap s) = 64" "length (bm_buff (fs_imap s)) = 512"
    using fs_invD(2) [OF inv] by (simp_all add: imap_ok_def)
  have i64: "?i < 64" using inode_bound inv ino by blast
  obtain b where b: "bitmap_clear (Some (fs_imap s)) ino = Inr b" "bm_wf b" "bm_cap b = 64"
    "bm_bits b = bm_bits (fs_imap s) - {?i}" using bitmap_clear_bits [OF im(1), of ino] im(2) i64 by auto
  have lb: "length (bm_buff b) = 512"
    using b(1) im(3) by (auto simp: bitmap_clear_def bindr_eq_Inr Let_def dest: write_at_length split: if_splits)
  define t where "t = (with_fmap fm s)\<lparr>fs_imap := b\<rparr>"
  have "ino \<noteq> INVALID_INDEX" using i64 by auto
  then have run: "inode_map_setup ino False (with_fmap fm s) = Inr t" using b(1) by (simp add: inode_map_setup_def t_def)
  have tt: "tree t = tree s" by (rule ext) (simp add: t_def tree_def)
  have im_t: "bm_bits (fs_imap t) = bm_bits (fs_imap s) - {?i}" using b(4) by (simp add: t_def)
  have sl: "slots_of t = slots_of s - {?i} \<times> UNIV" unfolding slots_of_def im_t by blast
  have ut: "used_blocks t = used_blocks s - data_blocks s ?i n" using u by (simp add: t_def used_blocks_def)
  have "tree_ok t"
    unfolding tree_ok_def tt
  proof (intro conjI ballI impI)
    fix x assume x: "x \<in> slots_of t" "tree s x \<noteq> 0"
    from x(1) have "x \<in> slots_of s - {?i} \<times> UNIV" unfolding sl .
    then have xs: "x \<in> slots_of s" "fst x \<noteq> ?i" by (cases x, simp)+
    have "tree s x \<noteq> tree s (?i, Dat q)" if "q < n" for q
    proof
      assume e: "tree s x = tree s (?i, Dat q)"
      have "(?i, Dat q) \<in> slots_of s" using ino that n by (simp add: slots_of_def)
      then have "x = (?i, Dat q)" using inv xs(1) e x(2) unfolding fs_inv_def tree_ok_def by metis
      then show False using xs(2) by simp
    qed
    then have "tree s x \<notin> data_blocks s ?i n" by (auto simp: data_blocks_def)
    then show "tree s x \<in> used_blocks t" using inv xs(1) x(2) unfolding ut fs_inv_def tree_ok_def by blast
  next
    fix x y assume xy: "x \<in> slots_of t" "y \<in> slots_of t" "tree s x = tree s y" "tree s x \<noteq> 0"
    then have "x \<in> slots_of s" "y \<in> slots_of s" unfolding sl by blast+
    then show "x = y" using xy(3,4) inv unfolding fs_inv_def tree_ok_def by blast
  qed
  moreover have "map_ok t" using m by (simp add: t_def map_ok_def)
  moreover have "imap_ok t" using fs_invD(2) [OF inv] b lb by (simp add: t_def imap_ok_def)
  ultimately have "fs_inv t" by (simp add: fs_inv_def)
  moreover have "same_file s t j" for j unfolding same_file_def file_block_def tt by (simp add: t_def)
  ultimately have "item_freed s t ?i" using b(4) ut by (auto simp: item_freed_def t_def)
  then show ?thesis using run ut by blast
qed

lemma remove_file_ok:
  assumes inv: "fs_inv s" and d: "di_type d = INODE_TYPE_FILE" and ino: "unat (di_inode d) \<in> bm_bits (fs_imap s)"
    and n: "n < 16518" "tree s (unat (di_inode d), Dat n) = 0" "\<And>m. m < n \<Longrightarrow> tree s (unat (di_inode d), Dat m) \<noteq> 0"
  shows "\<exists>t. diritem_remove_sub (Suc fuel) d s = Some (Inr t) \<and> item_freed s t (unat (di_inode d))
    \<and> used_blocks t = used_blocks s - data_blocks s (unat (di_inode d)) n"
proof -
  have s: "with_fmap (fs_fmap s) s = s" by (simp add: with_fmap_def)
  have db0: "data_blocks s (unat (di_inode d)) 0 = {}" by (simp add: data_blocks_def)
  have mk: "map_ok (with_fmap (fs_fmap s) s)" "used_blocks (with_fmap (fs_fmap s) s) = used_blocks s - data_blocks s (unat (di_inode d)) 0"
    unfolding s db0 using inv by auto
  obtain fm where fm: "free_loop (di_inode d) 0 16518 (with_fmap (fs_fmap s) s) = Inr (with_fmap fm s)" "map_ok (with_fmap fm s)"
    "used_blocks (with_fmap fm s) = used_blocks s - data_blocks s (unat (di_inode d)) n"
    using free_loop_ok [OF inv ino n _ _ mk, of 16518] by auto
  obtain t where t: "inode_map_setup (di_inode d) False (with_fmap fm s) = Inr t" "item_freed s t (unat (di_inode d))"
    "used_blocks t = used_blocks s - data_blocks s (unat (di_inode d)) n"
    using clear_inode [OF inv ino fm(2,3) n(1)] by blast
  have "unat (inode_block_index_max (fs_sb s)) = 16518" using inv by simp
  then show ?thesis using fm(1) t s d by (intro exI [of _ t]) (simp add: Let_def)
qed

subsection \<open>files_remove\<close>

text \<open>What removing the file \<open>it\<close>, item \<open>k\<close> of the directory \<open>d\<close>, leaves behind; \<open>n\<close> is its number of blocks.\<close>

definition removed_from :: "fs \<Rightarrow> fs \<Rightarrow> diritem \<Rightarrow> diritem \<Rightarrow> nat \<Rightarrow> nat \<Rightarrow> bool" where
  "removed_from f g d it k n \<longleftrightarrow> fs_inv g \<and> bm_bits (fs_imap g) = bm_bits (fs_imap f) - {unat (di_inode it)}
     \<and> dir_ok g (unat (di_inode d))
     \<and> dir_items g (unat (di_inode d)) = butlast ((dir_items f (unat (di_inode d)))[k := diritem0])
     \<and> used_blocks g = used_blocks f - data_blocks f (unat (di_inode it)) n
     \<and> (\<forall>j \<in> bm_bits (fs_imap f) - {unat (di_inode it), unat (di_inode d)}. same_file f g j)"

lemma data_blocks_same: "same_file f h i \<Longrightarrow> n \<le> 16518 \<Longrightarrow> data_blocks h i n = data_blocks f i n"
  unfolding data_blocks_def same_file_def by (metis (no_types, lifting) less_le_trans)

lemma diritem_remove_file:
  assumes inv: "fs_inv f" and ok: "dir_ok f (unat (di_inode d))" and k: "search_dir f d c = Some k"
    and it: "it = item_at f d k" "di_type it = INODE_TYPE_FILE" "unat (di_inode it) \<in> bm_bits (fs_imap f)"
    and ne: "unat (di_inode it) \<noteq> unat (di_inode d)"
    and n: "n < 16518" "tree f (unat (di_inode it), Dat n) = 0" "\<And>m. m < n \<Longrightarrow> tree f (unat (di_inode it), Dat m) \<noteq> 0"
  shows "\<exists>g. diritem_remove (Suc fuel) (Some d) (Some it) f = Some (Inr (0, g)) \<and> removed_from f g d it k n"
proof -
  let ?i = "unat (di_inode it)" and ?d = "unat (di_inode d)"
  have kn: "k < dir_size f ?d" and nm: "name_of it = c"
    using first_match_Some k unfolding search_dir_def it(1) item_at_def by (fastforce simp: dir_items_def)+
  have "0 \<in> set (di_name it)" using ok kn unfolding it(1) item_at_def by (simp add: dir_items_def dir_ok_def)
  then have find: "diritem_find_sub d (di_name it) f = Inr (Some k, f)"
    using diritem_find_sub_eq [OF inv ok] k nm by (simp add: search_dir_def name_of_def)
  obtain h where h: "diritem_unlink d k f = Inr h" "item_unlinked f h ?d k" using diritem_unlink_ok [OF inv ok kn] by blast
  have inv_h: "fs_inv h" and sf: "same_file f h ?i" and ih: "?i \<in> bm_bits (fs_imap h)" and dh: "?d \<in> bm_bits (fs_imap h)"
    using h(2) it(3) ne ok by (auto simp: item_unlinked_def dir_ok_def)
  have t0: "tree h (?i, Dat n) = 0" "\<And>m. m < n \<Longrightarrow> tree h (?i, Dat m) \<noteq> 0" using sf n by (auto simp: same_file_def)
  obtain t where t: "diritem_remove_sub (Suc fuel) it h = Some (Inr t)" "item_freed h t ?i"
    "used_blocks t = used_blocks h - data_blocks h ?i n"
    using remove_file_ok [OF inv_h it(2) ih n(1) t0] by blast
  have inv_t: "fs_inv t" using t(2) by (simp add: item_freed_def)
  obtain u where u: "free_map_update t = Inr u" "meta_only t u" using free_map_update_meta [OF inv_t] by blast
  note mu = meta_only_inv [OF inv_t u(2)]
  obtain g where g: "inode_map_update u = Inr g" "meta_only u g" using inode_map_update_meta [OF mu(1)] by blast
  note mg = meta_only_inv [OF mu(1) g(2)]
  have run: "diritem_remove (Suc fuel) (Some d) (Some it) f = Some (Inr (0, g))"
    using find h(1) t(1) u(1) g(1) unfolding diritem_remove_def by (simp del: diritem_remove_sub.simps)
  have im: "bm_bits (fs_imap g) = bm_bits (fs_imap f) - {?i}" and iu: "fs_imap u = fs_imap t"
    using t(2) u(2) g(2) h(2) by (simp_all add: meta_only_def item_freed_def item_unlinked_def)
  have tg: "same_file t g j" if "j \<in> bm_bits (fs_imap t)" for j
    using same_file_trans [OF mu(5) [OF that] mg(5)] that iu by simp
  have hg: "same_file h g j" if "j \<in> bm_bits (fs_imap h)" "j \<noteq> ?i" for j
  proof -
    have "same_file h t j" "j \<in> bm_bits (fs_imap t)" using t(2) that by (simp_all add: item_freed_def)
    then show ?thesis using same_file_trans tg by blast
  qed
  have dg: "?d \<in> bm_bits (fs_imap g)" using dh im h(2) ne by (simp add: item_unlinked_def)
  have okh: "dir_ok h ?d" using h(2) by (simp add: item_unlinked_def)
  note sd = same_file_dir [OF hg [OF dh ne [symmetric]] dg okh]
  have same: "same_file f g j" if j: "j \<in> bm_bits (fs_imap f)" "j \<noteq> ?i" "j \<noteq> ?d" for j
  proof -
    have "same_file f h j" "j \<in> bm_bits (fs_imap h)" using h(2) j by (simp_all add: item_unlinked_def)
    then show ?thesis using same_file_trans hg j(2) by blast
  qed
  have "used_blocks g = used_blocks f - data_blocks f ?i n"
    using mg(2) mu(2) t(3) h(2) data_blocks_same [OF sf] n(1) by (simp add: item_unlinked_def)
  then have "removed_from f g d it k n"
    using mg(1) im sd same h(2) by (simp add: removed_from_def item_unlinked_def)
  then show ?thesis using run by blast
qed

lemma files_remove_run:
  assumes inv: "fs_inv (v_fs v)" and root: "v_root v = Some r" and p: "path_ok cs c t"
    and len: "length (full_path cs c t) < 16"
    and walk: "walkable (v_fs v) r cs" and d: "lookup_dir (v_fs v) r cs = Some d" "di_type d = INODE_TYPE_DIR"
    and ok: "dir_ok (v_fs v) (unat (di_inode d))" and k: "search_dir (v_fs v) d c = Some k"
    and it: "it = item_at (v_fs v) d k" "di_type it = INODE_TYPE_FILE" "unat (di_inode it) \<in> bm_bits (fs_imap (v_fs v))"
    and ne: "unat (di_inode it) \<noteq> unat (di_inode d)"
    and n: "n < 16518" "tree (v_fs v) (unat (di_inode it), Dat n) = 0"
      "\<And>m. m < n \<Longrightarrow> tree (v_fs v) (unat (di_inode it), Dat m) \<noteq> 0"
  shows "\<exists>g. files_remove (Suc fuel) (Some (full_path cs c t @ 0 # junk)) v = Some (Inr (0, set_fs g v))
    \<and> removed_from (v_fs v) g d it k n"
proof -
  let ?f = "v_fs v" and ?d = "unat (di_inode d)" and ?nm = "full_path cs c t @ 0 # junk"
  have c: "length c < 16" using len by (simp add: full_path_def)
  have walk2: "walkable ?f r (cs @ [c])" using walk d ok c by (simp add: walkable_snoc)
  have "resolve ?f r (cs @ [c]) = Some it" using d k it(1) by (simp add: resolve_snoc)
  then have find1: "diritem_find (Some r) (Some ?nm) (Some diritem0) ?f = Inr (True, it, ?f)"
    using find_full [OF inv p walk2] by simp
  note pb = parent_buffer [OF p len]
  obtain b where b: "get_parent_child_filename (Some (full_path cs c t @ replicate (16 - length (full_path cs c t)) 0)) None
      = Inr (b, None)" "0 \<in> set b" "cstr b = 47 # path_of cs" using pb(5) by blast
  note find2 = find_parent [OF inv p b(2,3) walk d(1)]
  have d64: "?d < 64" using inode_bound inv ok by (auto simp: dir_ok_def)
  then have "sint (di_inode d) = int ?d" by (intro sint_nonneg_32) simp
  moreover have "int ?d < 64" using d64 by linarith
  ultimately have bd: "(sint (di_inode d) > int MAX_INODES) = False" by (simp add: MAX_INODES_def)
  have "cstr ?nm \<noteq> [47]" using path_okD(4) [OF p] path_okD(3) [OF p] by (simp add: full_path_def)
  then have nr: "is_root_dir (Some ?nm) = Inr False"
    using strcmp_iff [OF path_okD(5) [OF p], of "[47, 0]"] by (simp add: is_root_dir_def DIRNAME_ROOT_ASCII_def)
  obtain g where g: "diritem_remove (Suc fuel) (Some d) (Some it) ?f = Some (Inr (0, g))" "removed_from ?f g d it k n"
    using diritem_remove_file [OF inv ok k it ne n] by blast
  have "files_remove (Suc fuel) (Some ?nm) v = Some (Inr (0, set_fs g v))"
    unfolding files_remove_def
    by (simp only: nr pb(1,4) root find1 find2 b(1) bd d(2) g(1) bindr_simps Let_def prod.case sum.case option.case if_False if_True
        simp_thms DIRITEM_NAME_LEN_def option.map)
  then show ?thesis using g(2) by blast
qed

subsection \<open>The recursion ends\<close>

lemma sub_entries_mono:
  assumes "\<And>it s r. rec it s = Some r \<Longrightarrow> rec' it s = Some r"
  shows "sub_entries rec db i j n s = Some r \<Longrightarrow> sub_entries rec' db i j n s = Some r"
proof (induction n arbitrary: j s)
  case (Suc n)
  show ?case
  proof (cases "i = 0 \<and> (j = 0 \<or> j = 1) \<or> di_type (dec_item (dir_entry db j)) = INODE_TYPE_INVALID")
    case True
    then show ?thesis using Suc by (auto simp: Let_def split: if_splits)
  next
    case False
    then obtain x where x: "rec (dec_item (dir_entry db j)) s = Some x"
      using Suc.prems by (auto simp: Let_def split: if_splits option.splits)
    show ?thesis using False Suc assms [OF x] x by (cases x) (auto simp: Let_def split: if_splits)
  qed
qed simp

lemma sub_blocks_mono:
  assumes "\<And>it s r. rec it s = Some r \<Longrightarrow> rec' it s = Some r"
  shows "sub_blocks rec ino i n s = Some r \<Longrightarrow> sub_blocks rec' ino i n s = Some r"
proof (induction n arbitrary: i s)
  case (Suc n)
  show ?case
  proof (cases "iblock_get ino (word_of_nat i) s")
    case (Inr y)
    then obtain lba s1 where y: "iblock_get ino (word_of_nat i) s = Inr (lba, s1)" by (cases y) auto
    show ?thesis
    proof (cases "lba = 0 \<or> (\<exists>e. free_rw_disk (Some sect0) lba ATA_CMD_IO_READ s1 = Inl e)")
      case True
      then show ?thesis using Suc.prems y by auto
    next
      case False
      then obtain db s2 where z: "free_rw_disk (Some sect0) lba ATA_CMD_IO_READ s1 = Inr (db, s2)" "lba \<noteq> 0"
        by (cases "free_rw_disk (Some sect0) lba ATA_CMD_IO_READ s1") auto
      obtain x where x: "sub_entries rec db i 0 MAX_DIRITEM_PER_BLOCK s2 = Some x"
        using Suc.prems y z by (auto split: option.splits)
      note x' = sub_entries_mono [OF assms x]
      show ?thesis
      proof (cases x)
        case (Inr s3)
        then show ?thesis using Suc y z x x' by (cases "free_map_setup lba False s3") auto
      qed (use Suc.prems y z x x' in auto)
    qed
  qed (use Suc in simp)
qed simp

lemma remove_sub_Suc: "diritem_remove_sub fuel d s = Some r \<Longrightarrow> diritem_remove_sub (Suc fuel) d s = Some r"
proof (induction fuel arbitrary: d s r)
  case (Suc fuel)
  have mono: "sub_blocks (diritem_remove_sub (Suc fuel)) ino i n s = Some x"
    if "sub_blocks (diritem_remove_sub fuel) ino i n s = Some x" for ino i n s x
    using that by (rule sub_blocks_mono [rotated]) (rule Suc.IH)
  show ?case
  proof (cases "di_type d = INODE_TYPE_DIR")
    case False
    then show ?thesis using Suc.prems by (auto simp: Let_def)
  next
    case True
    then have nf: "di_type d \<noteq> INODE_TYPE_FILE" by (simp add: INODE_TYPE_DIR_def INODE_TYPE_FILE_def)
    show ?thesis
    proof (cases "read_at ''__fs_inodes'' (fs_inodes s) (sint (di_inode d))")
      case (Inr inode)
      then obtain x where x: "sub_blocks (diritem_remove_sub fuel) (di_inode d) 0 (unat (i_size inode)) s = Some x"
        using Suc.prems True nf by (auto simp: Let_def split: option.splits)
      show ?thesis using Suc.prems True nf Inr x mono [OF x] by (subst diritem_remove_sub.simps(2)) (simp add: Let_def)
    qed (use Suc.prems True nf in \<open>auto simp: Let_def\<close>)
  qed
qed simp

lemma remove_sub_mono:
  assumes "diritem_remove_sub fuel d s = Some r" and "fuel \<le> fuel'"
  shows "diritem_remove_sub fuel' d s = Some r"
  using assms(2,1) by (induction rule: dec_induct) (auto dest: remove_sub_Suc simp del: diritem_remove_sub.simps)

text \<open>
  While the recursion runs only the two maps change. \<open>dir_child s i it\<close>: the item \<open>it\<close> is in a block
  of the directory \<open>i\<close> and the recursion looks at it.
\<close>

definition with_maps :: "bitmap \<Rightarrow> bitmap \<Rightarrow> fs \<Rightarrow> fs" where
  "with_maps m b s = s\<lparr>fs_fmap := m, fs_imap := b\<rparr>"

definition dir_child :: "fs \<Rightarrow> nat \<Rightarrow> diritem \<Rightarrow> bool" where
  "dir_child s i it \<longleftrightarrow> (\<exists>k j. k < 16518 \<and> j < 21 \<and> \<not> (k = 0 \<and> j < 2) \<and> tree s (i, Dat k) \<noteq> 0
     \<and> it = dec_item (dir_entry (file_block s i k) j) \<and> di_type it \<noteq> INODE_TYPE_INVALID)"

text \<open>
  A rank on inodes that goes down from a directory to the directories in it: the directories
  form no cycle.
\<close>

definition ranked :: "fs \<Rightarrow> (nat \<Rightarrow> nat) \<Rightarrow> bool" where
  "ranked s rank \<longleftrightarrow> (\<forall>i \<in> bm_bits (fs_imap s). \<forall>it. dir_child s i it \<longrightarrow>
     unat (di_inode it) \<in> bm_bits (fs_imap s)
     \<and> (di_type it = INODE_TYPE_DIR \<longrightarrow> rank (unat (di_inode it)) < rank i))"

definition fits :: "fs \<Rightarrow> fs res option \<Rightarrow> bool" where
  "fits s x \<longleftrightarrow> (\<exists>r. x = Some r \<and> (\<forall>t. r = Inr t \<longrightarrow> (\<exists>m b. t = with_maps m b s)))"

lemma fits_simps [simp]:
  "fits s (Some (Inl e))" "fits s (Some (Inr (with_maps m b s)))" "\<not> fits s None"
  by (auto simp: fits_def)

lemma iblock_get_with_maps:
  assumes "iblock_get i k s = Inr (x, s)"
  shows "iblock_get i k (with_maps m b s) = Inr (x, with_maps m b s)"
proof -
  have rw: "fs_rw u n l c (with_maps m b s) = bindr (fs_rw u n l c s) (\<lambda>y. Inr (fst y, with_maps m b (snd y)))" for u n l c s
    by (cases "ata_driver_rw (fs_tid s) u n l c (fs_ata s)") (simp_all add: fs_rw_def with_maps_def case_prod_unfold)
  have ig: "iblocks_get i k (with_maps m b s) = iblocks_get i k s" for i k s by (simp add: iblocks_get_def with_maps_def)
  have lt: "load_table True l f (with_maps m b s) = bindr (load_table True l f s) (\<lambda>y. Inr (fst y, fst (snd y), with_maps m b (snd (snd y))))"
    for l f s by (simp add: load_table_def rw bindr_assoc case_prod_unfold)
  have pe: "put_entry True l bf k w (with_maps m b s) = bindr (put_entry True l bf k w s) (\<lambda>y. Inr (fst y, with_maps m b (snd y)))"
    for l bf k w s by (simp add: put_entry_def)
  have sb: "fs_sb (with_maps m b s) = fs_sb s" for s by (simp add: with_maps_def)
  have "iblock_get i k (with_maps m b s) = bindr (iblock_get i k s) (\<lambda>y. Inr (fst y, with_maps m b (snd y)))"
    unfolding iblock_get_def iblock_handle_def Let_def
    by (simp only: ig lt pe sb bindr_assoc bindr_if bindr_simps case_prod_unfold fst_conv snd_conv if_True if_False simp_thms
        not_True_eq_False)
  then show ?thesis using assms by simp
qed

lemma free_map_setup_with_maps: "free_map_setup l v (with_maps m b s) = Inr t \<Longrightarrow> \<exists>m'. t = with_maps m' b s"
proof -
  assume "free_map_setup l v (with_maps m b s) = Inr t"
  then obtain x where "t = s\<lparr>fs_imap := b, fs_fmap := x\<rparr>"
    by (auto simp: free_map_setup_def with_maps_def Let_def bindr_eq_Inr split: if_splits)
  then show ?thesis by (intro exI [of _ x]) (simp add: with_maps_def)
qed

lemma inode_map_setup_with_maps: "inode_map_setup i v (with_maps m b s) = Inr t \<Longrightarrow> \<exists>b'. t = with_maps m b' s"
  by (fastforce simp: inode_map_setup_def with_maps_def bindr_eq_Inr split: if_splits)

lemma fits_setup: "fits s (Some (free_map_setup l v (with_maps m b s)))" "fits s (Some (inode_map_setup i v (with_maps m b s)))"
  using free_map_setup_with_maps inode_map_setup_with_maps by (fastforce simp: fits_def)+

lemma sub_entries_fits:
  assumes "\<And>j. j < 21 \<Longrightarrow> \<not> (i = 0 \<and> j < 2) \<Longrightarrow> di_type (dec_item (dir_entry db j)) \<noteq> INODE_TYPE_INVALID \<Longrightarrow>
      (\<And>m b. fits s (rec (dec_item (dir_entry db j)) (with_maps m b s)))"
  shows "j + n \<le> 21 \<Longrightarrow> fits s (sub_entries rec db i j n (with_maps m b s))"
proof (induction n arbitrary: j m b)
  case (Suc n)
  show ?case
  proof (cases "i = 0 \<and> (j = 0 \<or> j = 1) \<or> di_type (dec_item (dir_entry db j)) = INODE_TYPE_INVALID")
    case True
    then show ?thesis using Suc by (auto simp: Let_def)
  next
    case False
    then have "fits s (rec (dec_item (dir_entry db j)) (with_maps m b s))" using assms Suc.prems by auto
    then obtain r where r: "rec (dec_item (dir_entry db j)) (with_maps m b s) = Some r"
      "\<And>t. r = Inr t \<Longrightarrow> \<exists>m b. t = with_maps m b s" by (auto simp: fits_def)
    show ?thesis
    proof (cases r)
      case (Inr t)
      then obtain m' b' where "t = with_maps m' b' s" using r(2) by blast
      then show ?thesis using False r(1) Inr Suc by (auto simp: Let_def)
    qed (use False r(1) in \<open>auto simp: Let_def\<close>)
  qed
qed simp

lemma read_with_maps:
  assumes inv: "fs_inv s" and l: "l \<in> used_blocks s"
    and r: "free_rw_disk (Some sect0) l ATA_CMD_IO_READ (with_maps m b s) = Inr (db, t)"
  shows "db = blk s l \<and> t = with_maps m b s"
proof -
  have "fs_rw (Some sect0) 512 l ATA_CMD_IO_READ (with_maps m b s) = Inr (blk s l, with_maps m b s)"
    using fs_rw_sector(1) [of "with_maps m b s" sect0 l] used_block_range [OF fs_invD(1) [OF inv] l] inv
    by (simp add: with_maps_def)
  then show ?thesis using r by (auto simp: free_rw_disk_def bindr_eq_Inr split: if_splits)
qed

lemma iblock_get_out: "iblock_get ino (word_of_nat k) s = Inr (l, t) \<Longrightarrow> fs_sb s = layout \<Longrightarrow> unat (word_of_nat k :: u32) < 16518"
proof -
  assume "iblock_get ino (word_of_nat k) s = Inr (l, t)" "fs_sb s = layout"
  then have "\<not> (16518 :: u32) \<le> word_of_nat k" by (auto simp: iblock_get_def iblock_handle_def split: if_splits)
  then show ?thesis by (simp add: word_le_nat_alt)
qed

lemma sub_blocks_fits:
  assumes inv: "fs_inv s" and ino: "unat ino \<in> bm_bits (fs_imap s)"
    and rec: "\<And>it m b. dir_child s (unat ino) it \<Longrightarrow> fits s (rec it (with_maps m b s))"
  shows "i + n < 4294967296 \<Longrightarrow> fits s (sub_blocks rec ino i n (with_maps m b s))"
proof (induction n arbitrary: i m b)
  case (Suc n)
  let ?w = "with_maps m b s" and ?k = "word_of_nat i :: u32"
  have u: "unat ?k = i" using Suc.prems by (intro unat_word_of_nat_32) simp
  have sb: "fs_sb ?w = layout" using inv by (simp add: with_maps_def)
  show ?case
  proof (cases "iblock_get ino ?k ?w")
    case (Inr y)
    then have i: "i < 16518" using iblock_get_out [of ino i ?w] sb u by (cases y) auto
    have g: "iblock_get ino ?k ?w = Inr (tree s (unat ino, Dat i), ?w)"
      using iblock_get_with_maps [OF iblock_get_ok [OF inv ino]] i u by simp
    define l where "l = tree s (unat ino, Dat i)"
    show ?thesis
    proof (cases "l = 0")
      case False
      have "l \<in> used_blocks s" using inv ino i False unfolding l_def fs_inv_def tree_ok_def by (auto simp: slots_of_def)
      note rd = read_with_maps [OF inv this]
      show ?thesis
      proof (cases "free_rw_disk (Some sect0) l ATA_CMD_IO_READ ?w")
        case (Inr z)
        then have z: "free_rw_disk (Some sect0) l ATA_CMD_IO_READ ?w = Inr (file_block s (unat ino) i, ?w)"
          using rd by (cases z) (auto simp: file_block_def l_def)
        have ch: "dir_child s (unat ino) (dec_item (dir_entry (file_block s (unat ino) i) j))"
          if "j < 21" "\<not> (i = 0 \<and> j < 2)" "di_type (dec_item (dir_entry (file_block s (unat ino) i) j)) \<noteq> INODE_TYPE_INVALID" for j
          unfolding dir_child_def using that i False l_def by blast
        have "fits s (sub_entries rec (file_block s (unat ino) i) i 0 21 ?w)"
          by (rule sub_entries_fits) (use ch rec in auto)
        then obtain r where r: "sub_entries rec (file_block s (unat ino) i) i 0 21 ?w = Some r"
          "\<And>t. r = Inr t \<Longrightarrow> \<exists>m b. t = with_maps m b s" by (auto simp: fits_def)
        show ?thesis
        proof (cases r)
          case (Inr t)
          then obtain m' b' where t: "t = with_maps m' b' s" using r(2) by blast
          show ?thesis
          proof (cases "free_map_setup l False t")
            case (Inr t')
            then obtain m'' where "t' = with_maps m'' b' s" using free_map_setup_with_maps t by blast
            then have "fits s (sub_blocks rec ino (Suc i) n t')" using Suc by simp
            then show ?thesis using g z r(1) \<open>r = Inr t\<close> Inr False by (simp add: l_def MAX_DIRITEM_PER_BLOCK_def)
          qed (use g z r(1) Inr False in \<open>simp add: l_def MAX_DIRITEM_PER_BLOCK_def\<close>)
        qed (use g z r(1) False in \<open>simp add: l_def MAX_DIRITEM_PER_BLOCK_def\<close>)
      qed (use g False in \<open>simp add: l_def\<close>)
    qed (use g in \<open>simp add: l_def\<close>)
  qed simp
qed simp

lemma free_loop_fits:
  assumes inv: "fs_inv s" and ino: "unat ino \<in> bm_bits (fs_imap s)"
  shows "i + n \<le> 16518 \<Longrightarrow> fits s (Some (free_loop ino i n (with_maps m b s)))"
proof (induction n arbitrary: i m b)
  case (Suc n)
  let ?w = "with_maps m b s" and ?k = "word_of_nat i :: u32"
  have i: "i < 16518" using Suc.prems by simp
  have u: "unat ?k = i" using i by (intro unat_word_of_nat_32) simp
  have g: "iblock_get ino ?k ?w = Inr (tree s (unat ino, Dat i), ?w)"
    using iblock_get_with_maps [OF iblock_get_ok [OF inv ino]] i u by simp
  show ?case
  proof (cases "free_map_setup (tree s (unat ino, Dat i)) False ?w")
    case (Inr t)
    then obtain m' where "t = with_maps m' b s" using free_map_setup_with_maps by blast
    then show ?thesis using g Inr Suc by simp
  qed (use g in simp)
qed simp

lemma remove_sub_fits:
  assumes inv: "fs_inv s" and rank: "ranked s rank"
  shows "unat (di_inode d) \<in> bm_bits (fs_imap s) \<Longrightarrow> 0 < fuel \<Longrightarrow>
    (di_type d = INODE_TYPE_DIR \<Longrightarrow> rank (unat (di_inode d)) + 1 < fuel) \<Longrightarrow>
    fits s (diritem_remove_sub fuel d (with_maps m b s))"
proof (induction fuel arbitrary: d m b)
  case (Suc fuel)
  let ?i = "unat (di_inode d)" and ?w = "with_maps m b s"
  have i64: "?i < 64" using inode_bound inv Suc.prems(1) by blast
  have rd: "read_at w (fs_inodes ?w) (sint (di_inode d)) = Inr (fs_inodes s ! ?i)" for w
    using ino_index(1) [OF fs_invD(2) [OF inv] i64] by (simp add: with_maps_def)
  have sb: "unat (inode_block_index_max (fs_sb ?w)) = 16518" using inv by (simp add: with_maps_def)
  have clr: "fits s (case Some r of None \<Rightarrow> None | Some (Inl e) \<Rightarrow> Some (Inl e) | Some (Inr t) \<Rightarrow> Some (inode_map_setup (di_inode d) False t))"
    if f: "fits s (Some r)" for r
  proof (cases r)
    case (Inr t)
    then obtain m' b' where "t = with_maps m' b' s" using f by (auto simp: fits_def)
    then show ?thesis using fits_setup(2) Inr by simp
  qed simp
  show ?case
  proof (cases "di_type d = INODE_TYPE_DIR")
    case True
    then have nf: "di_type d \<noteq> INODE_TYPE_FILE" by (simp add: INODE_TYPE_DIR_def INODE_TYPE_FILE_def)
    have child: "fits s (diritem_remove_sub fuel it (with_maps m b s))" if c: "dir_child s ?i it" for it m b
    proof -
      have r: "unat (di_inode it) \<in> bm_bits (fs_imap s)"
        "di_type it = INODE_TYPE_DIR \<longrightarrow> rank (unat (di_inode it)) < rank ?i"
        using rank Suc.prems(1) c unfolding ranked_def by blast+
      have "rank ?i < fuel" using Suc.prems(3) [OF True] by simp
      then show ?thesis by (intro Suc.IH [OF r(1)]) (use r(2) in auto)
    qed
    have "fits s (sub_blocks (diritem_remove_sub fuel) (di_inode d) 0 (unat (i_size (fs_inodes s ! ?i))) ?w)"
      by (rule sub_blocks_fits [OF inv Suc.prems(1)]) (rule child, simp_all)
    then obtain r where "sub_blocks (diritem_remove_sub fuel) (di_inode d) 0 (unat (i_size (fs_inodes s ! ?i))) ?w = Some r"
      "fits s (Some r)" by (auto simp: fits_def)
    then show ?thesis using clr [of r] True nf rd by (simp add: Let_def)
  next
    case False
    show ?thesis
    proof (cases "di_type d = INODE_TYPE_FILE")
      case True
      then show ?thesis using clr [OF free_loop_fits [OF inv Suc.prems(1), of 0 16518]] sb by (simp add: Let_def)
    next
      case False
      then show ?thesis using \<open>di_type d \<noteq> INODE_TYPE_DIR\<close> by (simp add: Let_def)
    qed
  qed
qed simp

end
