(* ===== verification/Dir_Props.thy ===== *)
theory Dir_Props
  imports Remove
begin

section \<open>Properties of the directories\<close>

text \<open>
  A formatted disk with an empty root directory, and the properties of dir.c and of the
  operations of files.c that take a path.
\<close>

subsection \<open>A disk with a root directory\<close>

definition root_item :: diritem where "root_item = mk_item INODE_TYPE_DIR 0 [47]"

definition root_block :: "byte list" where
  "root_block = enc_item (mk_item INODE_TYPE_DIR 0 [46]) @ enc_item (mk_item INODE_TYPE_DIR (- 1) [46, 46]) @ replicate 464 0"

definition dir_sample :: fs where
  "dir_sample = set_blk 326 root_block (fs_sample\<lparr>fs_inodes := (fs_inodes fs_sample)[0 := new_inode 2 326]\<rparr>)"

definition vfs_sample :: vfs where
  "vfs_sample = \<lparr>v_out = \<lparr>out_fsys = fsys_sample\<lparr>sys_fs := dir_sample\<rparr>,
      out_cache = \<lparr>cb_buff = replicate 512 0, cb_capacity = 512, cb_curlen = 0, cb_redirect = - 1\<rparr>\<rparr>,
    v_root = Some root_item, v_curdirs = [], v_tid = 0, v_parent = - 1\<rparr>"

lemma vfs_sample_simps [simp]: "v_fs vfs_sample = dir_sample" "v_root vfs_sample = Some root_item"
  by (simp_all add: vfs_sample_def)

lemma root_item_simps [simp]: "di_inode root_item = 0" "di_type root_item = INODE_TYPE_DIR"
  by (simp_all add: root_item_def mk_item_def)

lemma length_root_block [simp]: "length root_block = 512"
  by (simp add: root_block_def enc_item_def mk_item_def)

lemma dir_sample_simps [simp]:
  "bm_bits (fs_imap dir_sample) = {0}" "used_blocks dir_sample = {326}" "fs_inodes dir_sample ! 0 = new_inode 2 326"
  using fs_sample_bits fs_sample_used by (simp_all add: dir_sample_def used_blocks_def) (simp add: fs_sample_def)

lemma dir_sample_tree: "tree dir_sample (0, p) = (if p = Dat 0 then 326 else 0)"
  by (simp add: tree_def new_inode_tree)

lemma dir_sample_inv: "fs_inv dir_sample"
proof -
  have m: "map_ok dir_sample" using fs_sample_maps(1)
    by (auto simp: dir_sample_def map_ok_def intro!: ata_ready_set_blk)
  have l: "length (iblocks ((fs_inodes fs_sample)[0 := new_inode 2 326] ! i)) = 8" if "i < 64" for i
    using fs_sample_maps(2) that by (cases "i = 0") (simp_all add: imap_ok_def new_inode_blocks)
  have i: "imap_ok dir_sample" using fs_sample_maps(2) l by (simp add: dir_sample_def imap_ok_def)
  have "tree dir_sample x \<noteq> 0 \<Longrightarrow> x \<in> slots_of dir_sample \<Longrightarrow> x = (0, Dat 0) \<and> tree dir_sample x = 326" for x
    using dir_sample_tree [of "snd x"] by (cases x) (auto simp: slots_of_def split: if_splits)
  then have "tree_ok dir_sample" unfolding tree_ok_def by (metis dir_sample_simps(2) singletonI)
  then show ?thesis using m i by (simp add: fs_inv_def)
qed

lemma dir_sample_items:
  "dir_size dir_sample 0 = 2" "dir_items dir_sample 0 = [mk_item INODE_TYPE_DIR 0 [46], mk_item INODE_TYPE_DIR (- 1) [46, 46]]"
  "dir_ok dir_sample 0"
proof -
  show n: "dir_size dir_sample 0 = 2" by (simp add: dir_size_def new_inode_def)
  let ?a = "mk_item INODE_TYPE_DIR 0 [46]" and ?b = "mk_item INODE_TYPE_DIR (- 1) [46, 46]"
  have la: "length (enc_item ?a) = 24" "length (enc_item ?b) = 24" by (simp_all add: enc_item_def mk_item_def)
  have fb: "file_block dir_sample 0 0 = root_block" by (simp add: file_block_def dir_sample_tree) (simp add: dir_sample_def)
  have "dir_entry root_block 0 = enc_item ?a" "dir_entry root_block 1 = enc_item ?b"
    using la by (simp_all add: dir_entry_def root_block_def)
  then have it: "dir_item dir_sample 0 0 = ?a" "dir_item dir_sample 0 1 = ?b"
    using fb by (simp_all add: dir_item_def) (simp_all add: mk_item_def)
  have "[0..<2] = [0, 1 :: nat]" by (simp add: numeral_2_eq_2)
  then show "dir_items dir_sample 0 = [?a, ?b]" using n it by (simp add: dir_items_def)
  have "\<forall>k < 2. tree dir_sample (0, Dat (k div 21)) \<noteq> 0 \<and> 0 \<in> set (di_name (dir_item dir_sample 0 k))"
    using it dir_sample_tree by (auto simp: less_2_cases_iff mk_item_def)
  then show "dir_ok dir_sample 0" using n by (simp add: dir_ok_def)
qed

lemma sample_free: "bm_bits (fs_imap dir_sample) \<noteq> {..<64}" "card (used_blocks dir_sample) + 4 \<le> NBLOCKS"
proof -
  have "(1 :: nat) \<in> {..<64}" by simp
  moreover have "1 \<notin> bm_bits (fs_imap dir_sample)" by simp
  ultimately show "bm_bits (fs_imap dir_sample) \<noteq> {..<64}" by blast
qed (simp add: NBLOCKS_def)

lemma name_mk [simp]: "length c < 16 \<Longrightarrow> 0 \<notin> set c \<Longrightarrow> name_of (mk_item ty j c) = c"
  using mk_item_name by blast

lemma search_sample:
  assumes "c \<noteq> [46]" and "c \<noteq> [46, 46]"
  shows "search_dir dir_sample root_item c = None"
proof -
  have "name_of (mk_item INODE_TYPE_DIR 0 [46]) = [46]" "name_of (mk_item INODE_TYPE_DIR (- 1) [46, 46]) = [46, 46]"
    by (rule name_mk; simp)+
  then show ?thesis using assms unfolding search_dir_def root_item_simps unat_0 dir_sample_items(2) by simp
qed

subsection \<open>Properties\<close>

text \<open>C17: Searching a directory is taking the first match in its list of items. On a file system in
  order, with a well-formed directory, diritem_find_sub returns the index of the first item
  whose name is the one asked for, or -1 (\<open>None\<close>) when there is none, and changes nothing.\<close>
theorem diritem_find_sub_first:
  assumes "fs_inv s" and "dir_ok s (unat (di_inode d))" and "0 \<in> set search"
  shows "diritem_find_sub d search s
    = Inr (first_match (\<lambda>it. name_of it = cstr search) (dir_items s (unat (di_inode d))), s)"
  using assms by (rule diritem_find_sub_eq)

theorem diritem_find_sub_first_witness:
  "diritem_find_sub root_item [46, 46, 0] dir_sample = Inr (Some 1, dir_sample)
   \<and> diritem_find_sub root_item [120, 0] dir_sample = Inr (None, dir_sample)"
proof -
  have n: "name_of (mk_item INODE_TYPE_DIR 0 [46]) = [46]" "name_of (mk_item INODE_TYPE_DIR (- 1) [46, 46]) = [46, 46]"
    by (rule name_mk; simp)+
  have c: "cstr [46, 46, 0] = [46, 46]" "cstr [120, 0] = [120]" by (simp_all add: cstr_def)
  have ok: "dir_ok dir_sample (unat (di_inode root_item))" by (simp add: dir_sample_items)
  have "diritem_find_sub root_item [46, 46, 0] dir_sample = Inr (Some 1, dir_sample)"
    by (subst diritem_find_sub_first [OF dir_sample_inv ok]) (simp_all add: c n dir_sample_items)
  moreover have "diritem_find_sub root_item [120, 0] dir_sample = Inr (None, dir_sample)"
    by (subst diritem_find_sub_first [OF dir_sample_inv ok]) (simp_all add: c n dir_sample_items)
  ultimately show ?thesis ..
qed

text \<open>C12: Entering an item appends it. While three blocks are free and the directory has a position
  left, diritem_push succeeds on a well-formed directory; its items are then the old ones with
  the new one at the end, the file system stays in order, every other file and directory keeps
  its size, blocks and contents, and searching for the new name, if it was not there, gives the
  index behind the old items.\<close>
theorem diritem_push_appends:
  assumes "fs_inv s" and "dir_ok s (unat (di_inode p))" and "card (used_blocks s) + 3 \<le> NBLOCKS"
    and "dir_size s (unat (di_inode p)) + 22 < 21 * 16518"
    and "length (di_name d) = 16" and "0 \<in> set (di_name d)"
  shows "\<exists>t. diritem_push (Some p) (Some d) s = Inr t \<and> fs_inv t \<and> dir_ok t (unat (di_inode p))
    \<and> dir_items t (unat (di_inode p)) = dir_items s (unat (di_inode p)) @ [d]
    \<and> (\<forall>j \<in> bm_bits (fs_imap s) - {unat (di_inode p)}. same_file s t j)
    \<and> ((\<forall>it \<in> set (dir_items s (unat (di_inode p))). name_of it \<noteq> name_of d) \<longrightarrow>
        diritem_find_sub p (di_name d) t = Inr (Some (dir_size s (unat (di_inode p))), t))"
proof -
  let ?i = "unat (di_inode p)"
  obtain t where t: "diritem_push (Some p) (Some d) s = Inr t" "item_pushed s t ?i d"
    using diritem_push_ok [OF assms] by blast
  have it: "dir_items t ?i = dir_items s ?i @ [d]" "fs_inv t" "dir_ok t ?i" using t(2) by (simp_all add: item_pushed_def)
  have "diritem_find_sub p (di_name d) t = Inr (Some (dir_size s ?i), t)"
    if "\<forall>it \<in> set (dir_items s ?i). name_of it \<noteq> name_of d"
  proof -
    have "first_match (\<lambda>it. name_of it = cstr (di_name d)) (dir_items s ?i) = None"
      using that by (simp add: first_match_None name_of_def)
    then show ?thesis using diritem_find_sub_eq [OF it(2,3) assms(6)] it(1)
      by (simp add: first_match_append name_of_def) (simp add: dir_items_def)
  qed
  then show ?thesis using t it by (intro exI [of _ t]) (auto simp: item_pushed_def)
qed

theorem diritem_push_appends_witness:
  "\<exists>t. diritem_push (Some root_item) (Some (mk_item INODE_TYPE_FILE 5 [97])) dir_sample = Inr t
    \<and> diritem_find_sub root_item (di_name (mk_item INODE_TYPE_FILE 5 [97])) t = Inr (Some 2, t)"
proof -
  have mk: "length (di_name (mk_item INODE_TYPE_FILE 5 [97])) = 16" "0 \<in> set (di_name (mk_item INODE_TYPE_FILE 5 [97]))"
    using mk_item_name [of "[97]" INODE_TYPE_FILE 5] by auto
  have n: "name_of (mk_item INODE_TYPE_DIR 0 [46]) = [46]" "name_of (mk_item INODE_TYPE_DIR (- 1) [46, 46]) = [46, 46]"
    "name_of (mk_item INODE_TYPE_FILE 5 [97]) = [97]" by (rule name_mk; simp)+
  have "card (used_blocks dir_sample) + 3 \<le> NBLOCKS" using sample_free(2) by linarith
  from diritem_push_appends [OF dir_sample_inv, of root_item, OF _ this _ mk]
  show ?thesis by (auto simp: dir_sample_items n)
qed

text \<open>C13: A created file can be found, and nothing else moves. For an absolute path of at most 15
  bytes whose parent resolves to a well-formed directory with room, which does not hold the
  name, and while an inode and four blocks are free, files_create returns 0; a fresh inode is
  taken; the parent's items are the old ones with the new one at the end (of type directory
  when the path ends with a separator); a new file is empty and a new directory holds itself
  and its parent; every other file and directory is unchanged; and diritem_find of the same
  path then returns the new item.\<close>
theorem files_create_found:
  assumes "fs_inv (v_fs v)" and "v_root v = Some r" and "path_ok cs c t" and "length (full_path cs c t) < 16"
    and "walkable (v_fs v) r cs" and "lookup_dir (v_fs v) r cs = Some d" and "dir_ok (v_fs v) (unat (di_inode d))"
    and "search_dir (v_fs v) d c = None" and "dir_size (v_fs v) (unat (di_inode d)) + 22 < 21 * 16518"
    and "bm_bits (fs_imap (v_fs v)) \<noteq> {..<64}" and "card (used_blocks (v_fs v)) + 4 \<le> NBLOCKS"
  shows "\<exists>j g. files_create (full_path cs c t @ 0 # junk) v = Inr (0, set_fs g v)
    \<and> created_in (v_fs v) g d (kind_of t) j c
    \<and> diritem_find (Some r) (Some (full_path cs c t @ 0 # junk)) (Some diritem0) g = Inr (True, mk_item (kind_of t) j c, g)"
  using files_create_run [OF assms] .

theorem files_create_found_witness:
  "\<exists>j g. files_create [47, 97, 47, 0] vfs_sample = Inr (0, set_fs g vfs_sample)
    \<and> diritem_find (Some root_item) (Some [47, 97, 47, 0]) (Some diritem0) g = Inr (True, mk_item INODE_TYPE_DIR j [97], g)"
proof -
  have p: "path_ok [] [97] [47]" "full_path [] [97] [47] @ [0] = [47, 97, 47, 0]" "kind_of [47] = INODE_TYPE_DIR"
    by (simp_all add: path_ok_def full_path_def path_of_def kind_of_def)
  have d: "lookup_dir dir_sample root_item [] = Some root_item" by (simp add: lookup_dir_def)
  have s: "search_dir dir_sample root_item [97] = None" by (rule search_sample) simp_all
  have l: "length (full_path [] [97] [47]) < 16" by (simp add: full_path_def path_of_def)
  from files_create_found [of vfs_sample root_item "[]" "[97]" "[47]" root_item "[]", OF _ _ p(1) l]
  show ?thesis using dir_sample_inv d s dir_sample_items sample_free unfolding p by simp blast
qed

lemma set_fs_same: "set_fs (v_fs v) v = v"
  by (simp add: set_fs_def set_sys_def)

lemma memcpy_overflow:
  "d \<le> length dst \<Longrightarrow> length dst < d + n \<Longrightarrow> s + n \<le> length src \<Longrightarrow> \<exists>m. memcpy_loop dst d src s n = fault m"
proof (induction n arbitrary: dst d s)
  case 0
  then show ?case by simp
next
  case (Suc n)
  show ?case
  proof (cases "d < length dst")
    case True
    then show ?thesis using Suc by simp
  next
    case False
    then show ?thesis using Suc.prems by simp
  qed
qed

lemma strlen_unterminated: "0 \<notin> set s \<Longrightarrow> strlen s = fault ''strlen(): no terminator''"
proof -
  have "0 \<notin> set s \<Longrightarrow> strlen_loop s n = fault ''strlen(): no terminator''" for n
    by (induction s arbitrary: n) auto
  then show "0 \<notin> set s \<Longrightarrow> strlen s = fault ''strlen(): no terminator''" by (simp add: strlen_def)
qed

text \<open>What files_create refuses. If the path is already there it returns -1 and changes nothing.
  If it is not, and has 16 bytes or more, the copy of the path into the 16-byte buffer of the
  parent overflows it (or leaves it without a terminator), and the call never returns.\<close>
theorem files_create_refuses:
  assumes "fs_inv (v_fs v)" and "v_root v = Some r" and "path_ok cs c t" and "walkable (v_fs v) r (cs @ [c])"
  shows "(resolve (v_fs v) r (cs @ [c]) \<noteq> None \<longrightarrow> files_create (full_path cs c t @ 0 # junk) v = Inr (- 1, v))
    \<and> (resolve (v_fs v) r (cs @ [c]) = None \<longrightarrow> 16 \<le> length (full_path cs c t) \<longrightarrow>
        (\<exists>m. files_create (full_path cs c t @ 0 # junk) v = fault m))"
proof -
  let ?nm = "full_path cs c t @ 0 # junk" and ?n = "length (full_path cs c t)" and ?f = "v_fs v"
  have sl: "strlen ?nm = Inr ?n" using strlen_cstr [OF path_okD(5) [OF assms(3)]] path_okD(4) [OF assms(3)] by simp
  have n0: "int ?n - 1 = int (?n - 1)" "?n - 1 < length ?nm" by (simp_all add: full_path_def)
  have rd: "read_at w ?nm (int ?n - 1) = Inr (?nm ! (?n - 1))" for w unfolding n0(1) by (rule read_at_nat) (rule n0(2))
  note find = find_full [OF assms(1,3,4), of junk diritem0]
  note run = files_create_def sl rd bindr_simps Let_def assms(2) find option.case prod.case if_True if_False
    DIRITEM_NAME_LEN_def simp_thms
  have "files_create ?nm v = Inr (- 1, v)" if some: "resolve ?f r (cs @ [c]) \<noteq> None"
  proof -
    from some obtain it where it: "resolve ?f r (cs @ [c]) = Some it" by blast
    show ?thesis by (simp only: run it set_fs_same)
  qed
  moreover have "\<exists>m. files_create ?nm v = fault m" if none: "resolve ?f r (cs @ [c]) = None" and n: "16 \<le> ?n"
  proof (cases "?n = 16")
    case True
    have cp: "memcpy_loop (replicate 16 0) 0 ?nm 0 16 = Inr (full_path cs c t)"
      using True by (subst memcpy_loop_eq) simp_all
    have "strlen (full_path cs c t) = fault ''strlen(): no terminator''"
      by (rule strlen_unterminated [OF path_okD(1) [OF assms(3)]])
    moreover have "read_at w (full_path cs c t) 0 = Inr 47" for w by (simp add: read_at_def full_path_def)
    ultimately have "\<exists>m. get_parent_child_filename (Some (full_path cs c t)) (Some (replicate 16 0)) = fault m"
      by (simp add: get_parent_child_filename_def Let_def DIRNAME_ROOT_ASCII_def)
    then obtain m where "get_parent_child_filename (Some (full_path cs c t)) (Some (replicate 16 0)) = fault m" ..
    then have "files_create ?nm v = fault m" using True cp rd by (simp only: run none)
    then show ?thesis ..
  next
    case False
    then obtain m where m: "memcpy_loop (replicate 16 0) 0 ?nm 0 ?n = fault m"
      using memcpy_overflow [of 0 "replicate 16 (0 :: byte)" ?n 0 ?nm] n by auto
    have "files_create ?nm v = fault m" by (simp only: run none m)
    then show ?thesis ..
  qed
  ultimately show ?thesis by blast
qed

lemma files_create_refuses_witness:
  "files_create [47, 46, 0] vfs_sample = Inr (- 1, vfs_sample)
   \<and> (\<exists>m. files_create (47 # replicate 15 97 @ [0]) vfs_sample = fault m)"
proof -
  have w: "walkable dir_sample root_item ([] @ [c])" if "length c < 16" for c
    using that dir_sample_items(3) by (simp add: walkable_snoc lookup_dir_def)
  have p1: "path_ok [] [46] []" "full_path [] [46] [] @ [0] = [47, 46, 0]" by (simp_all add: path_ok_def full_path_def path_of_def)
  have p2: "path_ok [] (replicate 15 97) []" "full_path [] (replicate 15 97) [] @ [0] = 47 # replicate 15 97 @ [0]"
    "length (full_path [] (replicate 15 97) []) = 16" by (simp_all add: path_ok_def full_path_def path_of_def)
  have "name_of (mk_item INODE_TYPE_DIR 0 [46]) = [46]" by (rule name_mk) simp_all
  then have r1: "resolve dir_sample root_item ([] @ [[46]]) \<noteq> None"
    using dir_sample_items(2) by (simp add: search_dir_def)
  have r2: "resolve dir_sample root_item ([] @ [replicate 15 97]) = None"
    using search_sample [of "replicate 15 97"] by (simp add: numeral_eq_Suc)
  from files_create_refuses [of vfs_sample root_item "[]" "[46]" "[]" "[]", OF _ _ p1(1)]
    files_create_refuses [of vfs_sample root_item "[]" "replicate 15 97" "[]" "[]", OF _ _ p2(1)]
  show ?thesis using dir_sample_inv w r1 r2 dir_sample_items(3) unfolding p1(2) p2(2,3) by simp
qed

subsection \<open>Removing\<close>

lemma set_fs_set_fs: "set_fs h (set_fs g v) = set_fs h v" "v_fs (set_fs g v) = g" "v_root (set_fs g v) = v_root v"
  by (simp_all add: set_fs_def set_sys_def)

lemma data_blocks_fresh:
  assumes "created_in f g d ty j c" and "i \<in> bm_bits (fs_imap f)" and "i \<noteq> unat (di_inode d)"
  shows "same_file f g i" and "i \<in> bm_bits (fs_imap g)"
  using assms by (auto simp: created_in_def)

lemma remove_created:
  assumes inv: "fs_inv (v_fs v)" and root: "v_root v = Some r" and p: "path_ok cs c []" and l: "length (full_path cs c []) < 16"
    and w: "walkable (v_fs v) r cs" and d: "lookup_dir (v_fs v) r cs = Some d" "di_type d = INODE_TYPE_DIR"
    and ok: "dir_ok (v_fs v) (unat (di_inode d))" and none: "search_dir (v_fs v) d c = None"
    and cr: "created_in (v_fs v) g d INODE_TYPE_FILE j c"
  shows "\<exists>h. files_remove (Suc fuel) (Some (full_path cs c [] @ 0 # junk)) (set_fs g v) = Some (Inr (0, set_fs h v))
    \<and> removed_from g h d (mk_item INODE_TYPE_FILE j c) (dir_size (v_fs v) (unat (di_inode d))) 1"
proof -
  let ?f = "v_fs v" and ?d = "unat (di_inode d)" and ?it = "mk_item INODE_TYPE_FILE j c"
  have c: "length c < 16" "0 \<notin> set c" using p l by (simp_all add: path_ok_def full_path_def)
  have g: "fs_inv g" "dir_ok g ?d" "dir_items g ?d = dir_items ?f ?d @ [?it]" "unat j \<in> bm_bits (fs_imap g)"
    "unat j \<notin> bm_bits (fs_imap ?f)" "tree g (unat j, Dat 0) \<noteq> 0" "tree g (unat j, Dat 1) = 0"
    using cr by (simp_all add: created_in_def)
  have ne: "unat j \<noteq> ?d" using g(5) ok by (auto simp: dir_ok_def)
  have len: "length (dir_items ?f ?d) = dir_size ?f ?d" by (simp add: dir_items_def)
  have k: "search_dir g d c = Some (dir_size ?f ?d)"
    using none len mk_item_name [OF c, of INODE_TYPE_FILE j] by (simp add: search_dir_def g(3) first_match_append)
  have it: "?it = item_at g d (dir_size ?f ?d)" using len by (simp add: item_at_def g(3) nth_append)
  note gl = grows_lookup [OF created_in_grows [OF cr] w d(1)]
  have mk: "di_type ?it = INODE_TYPE_FILE" "di_inode ?it = j" by (simp_all add: mk_item_def)
  show ?thesis
    using files_remove_run [of "set_fs g v" r cs c "[]" d "dir_size ?f ?d" ?it 1 fuel junk, unfolded set_fs_set_fs mk]
      g(1,2,4,6,7) root p l gl d(2) k it ne by simp
qed

text \<open>C16: Creating a file and removing it gives the directory back. Where files_create can create a
  file, files_remove of the same path with any positive fuel returns 0, and then the parent has
  the items it had, the inode map has the bits it had, and every other file and directory is as
  it was.\<close>
theorem files_create_remove:
  assumes "fs_inv (v_fs v)" and "v_root v = Some r" and "path_ok cs c []" and "length (full_path cs c []) < 16"
    and "walkable (v_fs v) r cs" and "lookup_dir (v_fs v) r cs = Some d" and "di_type d = INODE_TYPE_DIR"
    and "dir_ok (v_fs v) (unat (di_inode d))"
    and "search_dir (v_fs v) d c = None" and "dir_size (v_fs v) (unat (di_inode d)) + 22 < 21 * 16518"
    and "bm_bits (fs_imap (v_fs v)) \<noteq> {..<64}" and "card (used_blocks (v_fs v)) + 4 \<le> NBLOCKS"
  shows "\<exists>g h. files_create (full_path cs c [] @ 0 # junk) v = Inr (0, set_fs g v)
    \<and> files_remove (Suc fuel) (Some (full_path cs c [] @ 0 # junk)) (set_fs g v) = Some (Inr (0, set_fs h v))
    \<and> fs_inv h \<and> dir_items h (unat (di_inode d)) = dir_items (v_fs v) (unat (di_inode d))
    \<and> bm_bits (fs_imap h) = bm_bits (fs_imap (v_fs v))
    \<and> (\<forall>i \<in> bm_bits (fs_imap (v_fs v)) - {unat (di_inode d)}. same_file (v_fs v) h i)"
proof -
  let ?f = "v_fs v" and ?d = "unat (di_inode d)"
  obtain j g where g: "files_create (full_path cs c [] @ 0 # junk) v = Inr (0, set_fs g v)" "created_in ?f g d INODE_TYPE_FILE j c"
    using files_create_run [OF assms(1-6,8-12), of junk] by (simp add: kind_of_def) blast
  obtain h where h: "files_remove (Suc fuel) (Some (full_path cs c [] @ 0 # junk)) (set_fs g v) = Some (Inr (0, set_fs h v))"
    "removed_from g h d (mk_item INODE_TYPE_FILE j c) (dir_size ?f ?d) 1"
    using remove_created [OF assms(1-9) g(2)] by blast
  have len: "length (dir_items ?f ?d) = dir_size ?f ?d" by (simp add: dir_items_def)
  have mk: "di_inode (mk_item INODE_TYPE_FILE j c) = j" by (simp add: mk_item_def)
  have j: "unat j \<notin> bm_bits (fs_imap ?f)" "bm_bits (fs_imap g) = insert (unat j) (bm_bits (fs_imap ?f))"
    "dir_items g ?d = dir_items ?f ?d @ [mk_item INODE_TYPE_FILE j c]" using g(2) by (simp_all add: created_in_def)
  have "dir_items h ?d = dir_items ?f ?d" using h(2) len by (simp add: removed_from_def j(3) list_update_append)
  moreover have "bm_bits (fs_imap h) = bm_bits (fs_imap ?f)" using h(2) j(1,2) by (simp add: removed_from_def mk)
  moreover have "same_file ?f h i" if "i \<in> bm_bits (fs_imap ?f) - {?d}" for i
  proof -
    have i: "i \<in> bm_bits (fs_imap ?f)" "i \<noteq> ?d" "i \<noteq> unat j" using that j(1) by auto
    note s = data_blocks_fresh [OF g(2) i(1,2)]
    have "same_file g h i" using h(2) s(2) i(2,3) unfolding removed_from_def mk by blast
    then show ?thesis using same_file_trans s(1) by blast
  qed
  moreover have "fs_inv h" using h(2) by (simp add: removed_from_def)
  ultimately show ?thesis using g(1) h(1) by blast
qed

theorem files_create_remove_witness:
  "\<exists>g h. files_create [47, 97, 0] vfs_sample = Inr (0, set_fs g vfs_sample)
    \<and> files_remove 1 (Some [47, 97, 0]) (set_fs g vfs_sample) = Some (Inr (0, set_fs h vfs_sample))
    \<and> dir_items h 0 = dir_items dir_sample 0 \<and> bm_bits (fs_imap h) = {0}"
proof -
  have p: "path_ok [] [97] []" "full_path [] [97] [] @ [0] = [47, 97, 0]" "length (full_path [] [97] []) < 16"
    by (simp_all add: path_ok_def full_path_def path_of_def)
  have d: "lookup_dir dir_sample root_item [] = Some root_item" by (simp add: lookup_dir_def)
  have s: "search_dir dir_sample root_item [97] = None" by (rule search_sample) simp_all
  from files_create_remove [of vfs_sample root_item "[]" "[97]" root_item "[]" 0, OF _ _ p(1,3)]
  show ?thesis using dir_sample_inv d s dir_sample_items sample_free unfolding p(2) by simp blast
qed

text \<open>C37: Removing an item that is not the last hides the last. When a file is removed from a
  directory and the last item has another name and another inode, the removal succeeds, the
  inode of the last item stays allocated with its contents, and its name, which was found
  before, is no longer found: the hole is never filled and the size goes down by one.\<close>
theorem diritem_remove_hides_last:
  assumes "fs_inv f" and "dir_ok f (unat (di_inode d))" and "search_dir f d c = Some k"
    and "it = item_at f d k" and "di_type it = INODE_TYPE_FILE" and "unat (di_inode it) \<in> bm_bits (fs_imap f)"
    and "unat (di_inode it) \<noteq> unat (di_inode d)"
    and "n < 16518" and "tree f (unat (di_inode it), Dat n) = 0" and "\<And>m. m < n \<Longrightarrow> tree f (unat (di_inode it), Dat m) \<noteq> 0"
    and "dir_items f (unat (di_inode d)) = xs @ [lst]" and "k < length xs" and "\<forall>x \<in> set xs. name_of x \<noteq> name_of lst"
    and "name_of lst \<noteq> []" and "0 \<in> set (di_name lst)" and "unat (di_inode lst) \<in> bm_bits (fs_imap f)"
    and "unat (di_inode lst) \<notin> {unat (di_inode d), unat (di_inode it)}"
  shows "\<exists>g. diritem_remove (Suc fuel) (Some d) (Some it) f = Some (Inr (0, g))
    \<and> diritem_find_sub d (di_name lst) f = Inr (Some (length xs), f)
    \<and> diritem_find_sub d (di_name lst) g = Inr (None, g)
    \<and> unat (di_inode lst) \<in> bm_bits (fs_imap g) \<and> same_file f g (unat (di_inode lst))"
proof -
  let ?d = "unat (di_inode d)" and ?P = "\<lambda>x. name_of x = name_of lst"
  obtain g where g: "diritem_remove (Suc fuel) (Some d) (Some it) f = Some (Inr (0, g))" "removed_from f g d it k n"
    using diritem_remove_file [OF assms(1-10)] by blast
  have nf: "first_match ?P xs = None" using assms(13) by (simp add: first_match_None)
  have it: "dir_items g ?d = xs[k := diritem0]"
    using g(2) assms(12) by (simp add: removed_from_def assms(11) list_update_append)
  have "name_of diritem0 = []" by (simp add: name_of_def diritem0_def cstr_def)
  then have "\<forall>x \<in> set (xs[k := diritem0]). name_of x \<noteq> name_of lst"
    using assms(13,14) set_update_subset_insert [of xs k diritem0] by auto
  then have "first_match ?P (dir_items g ?d) = None" unfolding it by (simp add: first_match_None)
  moreover have "fs_inv g" "dir_ok g ?d" using g(2) by (simp_all add: removed_from_def)
  ultimately have "diritem_find_sub d (di_name lst) g = Inr (None, g)"
    using diritem_find_sub_eq [OF _ _ assms(15)] by (simp add: name_of_def)
  moreover have "diritem_find_sub d (di_name lst) f = Inr (Some (length xs), f)"
    using diritem_find_sub_eq [OF assms(1,2,15)] nf by (simp add: assms(11) first_match_append name_of_def)
  ultimately show ?thesis using g assms(16,17) unfolding removed_from_def by blast
qed

lemma two_files:
  "\<exists>g j j'. created_in dir_sample g root_item INODE_TYPE_FILE j [97]
    \<and> (\<exists>h. created_in g h root_item INODE_TYPE_FILE j' [98])"
proof -
  have l: "length (full_path [] [a] []) < 16" "path_ok [] [a] []" if "a \<noteq> 47" "a \<noteq> 0" for a
    using that by (simp_all add: full_path_def path_of_def path_ok_def)
  have d: "lookup_dir s root_item [] = Some root_item" for s by (simp add: lookup_dir_def)
  have s: "search_dir dir_sample root_item [97] = None" by (rule search_sample) simp_all
  obtain j g where g: "created_in dir_sample g root_item INODE_TYPE_FILE j [97]"
    using files_create_run [of vfs_sample root_item "[]" "[97]" "[]" root_item "[]", OF _ _ l(2) l(1)]
      dir_sample_inv d s dir_sample_items sample_free by (simp add: kind_of_def) blast
  have g': "fs_inv g" "dir_ok g 0" "bm_bits (fs_imap g) = {unat j, 0}" "card (used_blocks g) \<le> 5"
    "dir_items g 0 = [mk_item INODE_TYPE_DIR 0 [46], mk_item INODE_TYPE_DIR (- 1) [46, 46], mk_item INODE_TYPE_FILE j [97]]"
    using g dir_sample_items(2) by (simp_all add: created_in_def)
  have n: "name_of (mk_item INODE_TYPE_DIR 0 [46]) = [46]" "name_of (mk_item INODE_TYPE_DIR (- 1) [46, 46]) = [46, 46]"
    "name_of (mk_item INODE_TYPE_FILE j [97]) = [97]" by (rule name_mk; simp)+
  then have s': "search_dir g root_item [98] = None" by (simp add: search_dir_def g'(5))
  have "dir_size g 0 = length (dir_items g 0)" by (simp add: dir_items_def)
  then have sz: "dir_size g 0 = 3" by (simp add: g'(5))
  have "card {unat j, 0} \<le> 2" by (rule card_insert_le_m1) simp_all
  moreover have "card {..<64 :: nat} = 64" by simp
  ultimately have fr: "{unat j, 0} \<noteq> {..<64 :: nat}" by fastforce
  obtain j' h where "created_in g h root_item INODE_TYPE_FILE j' [98]"
    using files_create_run [of "set_fs g vfs_sample" root_item "[]" "[98]" "[]" root_item "[]", OF _ _ l(2) l(1)]
      g' d s' sz fr by (simp add: kind_of_def set_fs_set_fs NBLOCKS_def) blast
  then show ?thesis using g by blast
qed

theorem diritem_remove_hides_last_witness:
  "\<exists>f g it lst. diritem_remove 1 (Some root_item) (Some it) f = Some (Inr (0, g)) \<and> name_of lst = [98]
    \<and> diritem_find_sub root_item (di_name lst) f = Inr (Some 3, f) \<and> diritem_find_sub root_item (di_name lst) g = Inr (None, g)
    \<and> unat (di_inode lst) \<in> bm_bits (fs_imap g)"
proof -
  obtain f0 f i j where a: "created_in dir_sample f0 root_item INODE_TYPE_FILE i [97]"
    and b: "created_in f0 f root_item INODE_TYPE_FILE j [98]" using two_files by blast
  let ?a = "mk_item INODE_TYPE_FILE i [97]" and ?b = "mk_item INODE_TYPE_FILE j [98]"
  let ?xs = "[mk_item INODE_TYPE_DIR 0 [46], mk_item INODE_TYPE_DIR (- 1) [46, 46], ?a]"
  have n: "name_of (mk_item INODE_TYPE_DIR 0 [46]) = [46]" "name_of (mk_item INODE_TYPE_DIR (- 1) [46, 46]) = [46, 46]"
    "name_of ?a = [97]" "name_of ?b = [98]" by (rule name_mk; simp)+
  have mk: "di_inode ?a = i" "di_type ?a = INODE_TYPE_FILE" "di_inode ?b = j" by (simp_all add: mk_item_def)
  have fa: "unat i \<noteq> 0" "unat i \<in> bm_bits (fs_imap f0)" "tree f0 (unat i, Dat 0) \<noteq> 0" "tree f0 (unat i, Dat 1) = 0"
    using a by (simp_all add: created_in_def)
  have it: "dir_items f 0 = ?xs @ [?b]" using a b dir_sample_items(2) by (simp add: created_in_def)
  have fb: "fs_inv f" "dir_ok f 0" "unat i \<in> bm_bits (fs_imap f)" "unat j \<in> bm_bits (fs_imap f)" "unat j \<noteq> 0" "unat j \<noteq> unat i"
    using b fa(2) a by (auto simp: created_in_def)
  have "same_file f0 f (unat i)" using b fa(1,2) by (simp add: created_in_def)
  then have t: "tree f (unat i, Dat 0) \<noteq> 0" "tree f (unat i, Dat 1) = 0" using fa(3,4) by (simp_all add: same_file_def)
  have k: "search_dir f root_item [97] = Some 2" "item_at f root_item 2 = ?a"
    by (simp_all add: search_dir_def item_at_def it n)
  have m: "0 \<in> set (di_name ?b)" using mk_item_name [of "[98]"] by simp
  from diritem_remove_hides_last [of f root_item "[97]" 2 ?a 1 ?xs ?b 0]
  have "\<exists>g. diritem_remove 1 (Some root_item) (Some ?a) f = Some (Inr (0, g))
    \<and> diritem_find_sub root_item (di_name ?b) f = Inr (Some 3, f) \<and> diritem_find_sub root_item (di_name ?b) g = Inr (None, g)
    \<and> unat (di_inode ?b) \<in> bm_bits (fs_imap g)"
    using fa(1) fb t k it n mk m by (simp del: diritem_remove_sub.simps add: numeral_3_eq_3) blast
  then show ?thesis using n(4) by blast
qed

text \<open>C29: Removing ends, and its result does not depend on the fuel. On a file system in order whose
  directories form no cycle (\<open>ranked\<close>), the recursive removal of an item has a result with any
  fuel above the rank of the directory plus one, and every greater fuel gives the same.\<close>
theorem diritem_remove_sub_terminates:
  assumes "fs_inv s" and "ranked s rank" and "unat (di_inode d) \<in> bm_bits (fs_imap s)"
  shows "\<exists>r. \<forall>fuel \<ge> rank (unat (di_inode d)) + 2. diritem_remove_sub fuel d s = Some r"
proof -
  have "with_maps (fs_fmap s) (fs_imap s) s = s" by (simp add: with_maps_def)
  then obtain r where "diritem_remove_sub (rank (unat (di_inode d)) + 2) d s = Some r"
    using remove_sub_fits [OF assms, of "rank (unat (di_inode d)) + 2" "fs_fmap s" "fs_imap s"] by (auto simp: fits_def)
  then show ?thesis using remove_sub_mono by blast
qed

theorem diritem_remove_sub_terminates_witness:
  "\<exists>r. \<forall>fuel \<ge> 2. diritem_remove_sub fuel root_item dir_sample = Some r"
proof -
  have fb: "file_block dir_sample 0 0 = root_block" by (simp add: file_block_def dir_sample_tree) (simp add: dir_sample_def)
  have z: "di_type (dec_item (dir_entry root_block j)) = INODE_TYPE_INVALID" if "2 \<le> j" "j < 21" for j
  proof -
    have la: "length (enc_item (mk_item INODE_TYPE_DIR 0 [46])) = 24" "length (enc_item (mk_item INODE_TYPE_DIR (- 1) [46, 46])) = 24"
      by (simp_all add: enc_item_def mk_item_def)
    have "drop (24 * j) root_block = replicate (464 - (24 * j - 48)) 0" using that la by (simp add: root_block_def)
    moreover have "24 \<le> 464 - (24 * j - 48)" using that by linarith
    ultimately have "dir_entry root_block j = replicate 24 0" by (simp add: dir_entry_def min_def)
    then show ?thesis by (simp add: dec_item_def INODE_TYPE_INVALID_def)
  qed
  have "\<not> dir_child dir_sample 0 it" for it
  proof
    assume "dir_child dir_sample 0 it"
    then obtain k j where kj: "j < 21" "\<not> (k = 0 \<and> j < 2)" "tree dir_sample (0, Dat k) \<noteq> 0"
      "it = dec_item (dir_entry (file_block dir_sample 0 k) j)" "di_type it \<noteq> INODE_TYPE_INVALID"
      unfolding dir_child_def by blast
    have "k = 0" using kj(3) dir_sample_tree [of "Dat k"] by (simp split: if_splits)
    then show False using kj z [of j] fb by simp
  qed
  then have "ranked dir_sample (\<lambda>_. 0)" by (simp add: ranked_def)
  from diritem_remove_sub_terminates [OF dir_sample_inv this, of root_item] show ?thesis by (simp del: diritem_remove_sub.simps add: numeral_2_eq_2)
qed

end
