(* ===== verification/Format_Props.thy ===== *)
theory Format_Props
  imports Format
begin

section \<open>What formatted output prints\<close>

text \<open>
  A pure description of the text a format string and its arguments stand for, and the proof that
  format prints it, whichever way the output goes: the screen and the log cache are two
  interpretations of one locale of byte sinks.
\<close>

subsection \<open>Digits\<close>

function digs :: "nat \<Rightarrow> nat \<Rightarrow> nat list" where
  "digs b n = (if b < 2 \<or> n < b then [n] else n mod b # digs b (n div b))"
  by auto
termination by (relation "measure snd") auto

declare digs.simps [simp del]

definition digchar :: "nat \<Rightarrow> byte" where
  "digchar d = (if d < 10 then 48 + of_nat d else 87 + of_nat d)"

text \<open>The number in base \<open>b\<close>, highest digit first.\<close>

definition numeral_text :: "nat \<Rightarrow> nat \<Rightarrow> byte list" where
  "numeral_text b n = map digchar (rev (digs b n))"

text \<open>Reading a numeral: what a character stands for, and the value of the whole.\<close>

definition chardig :: "byte \<Rightarrow> nat" where
  "chardig c = (if c < 58 then unat c - 48 else unat c - 87)"

definition read_numeral :: "nat \<Rightarrow> byte list \<Rightarrow> nat" where
  "read_numeral b cs = foldl (\<lambda>v c. v * b + chardig c) 0 cs"

lemma digs_ne [simp]: "digs b n \<noteq> []"
  by (subst digs.simps) simp

lemma digs_less: "2 \<le> b \<Longrightarrow> d \<in> set (digs b n) \<Longrightarrow> d < b"
proof (induction b n rule: digs.induct)
  case (1 b n)
  show ?case
  proof (cases "n < b")
    case True
    then show ?thesis using 1 by (simp add: digs.simps [of b n])
  next
    case False
    then have "d = n mod b \<or> d \<in> set (digs b (n div b))" using 1(2,3) by (simp add: digs.simps [of b n])
    then show ?thesis using 1 False by auto
  qed
qed

lemma length_digs: "2 \<le> b \<Longrightarrow> n < b ^ k \<Longrightarrow> 0 < k \<Longrightarrow> length (digs b n) \<le> k"
proof (induction b n arbitrary: k rule: digs.induct)
  case (1 b n)
  show ?case
  proof (cases "n < b")
    case True
    then show ?thesis using 1(4) by (simp add: digs.simps [of b n])
  next
    case False
    obtain j where k: "k = Suc j" using 1(4) by (cases k) auto
    have "0 < j" using False 1(3) k by (cases j) auto
    moreover have "n div b < b ^ j" using 1(2,3) k by (simp add: less_mult_imp_div_less mult.commute)
    ultimately show ?thesis using 1 False k by (simp add: digs.simps [of b n])
  qed
qed

lemma chardig_digchar: "d < 36 \<Longrightarrow> chardig (digchar d) = d"
  by (auto simp: chardig_def digchar_def word_less_nat_alt unat_word_ariths unat_of_nat)

lemma read_numeral_digs: "2 \<le> b \<Longrightarrow> b \<le> 36 \<Longrightarrow> read_numeral b (map digchar (rev (digs b n))) = n"
proof (induction b n rule: digs.induct)
  case (1 b n)
  show ?case
  proof (cases "n < b")
    case True
    then show ?thesis using 1 by (simp add: digs.simps [of b n] read_numeral_def chardig_digchar)
  next
    case False
    have "n mod b < b" using 1(2) by simp
    then have "chardig (digchar (n mod b)) = n mod b" using 1(3) by (intro chardig_digchar) linarith
    then show ?thesis using 1 False by (simp add: digs.simps [of b n] read_numeral_def)
  qed
qed

lemma digit_char_eq: "unat r < 36 \<Longrightarrow> digit_char r = digchar (unat r)"
proof -
  assume "unat r < 36"
  have u: "(ucast y :: byte) = of_nat (unat y)" for y :: u32 by (rule of_nat_unat [symmetric])
  show ?thesis
  proof (cases "unat r < 10")
    case True
    then have "r < 10" by (simp add: word_less_nat_alt)
    then show ?thesis using True by (simp only: digit_char_def digchar_def if_True u)
  next
    case False
    then have "\<not> r < 10" by (simp add: word_less_nat_alt)
    have "of_nat (unat r - 10) = (of_nat (unat r) :: byte) - 10" using False by (simp add: of_nat_diff)
    moreover have "unat (r - 10) = unat r - 10" by (rule unat_sub_32 [of 10, simplified]) (use False in linarith)
    ultimately have "(ucast (r - 10) :: byte) = of_nat (unat r) - 10" using u [of "r - 10"] by metis
    moreover have "97 + (y - 10) = 87 + y" for y :: byte by (simp add: algebra_simps)
    ultimately show ?thesis using False \<open>\<not> r < 10\<close> by (simp only: digit_char_def digchar_def if_False)
  qed
qed

text \<open>The loop fills the array with the digits from the lowest on.\<close>

lemma digits_loop_eq:
  assumes "2 \<le> b" and "b \<le> 36"
  shows "unat base = b \<Longrightarrow> i + length (digs b (unat x)) \<le> length arr \<Longrightarrow> \<exists>a. digits_loop x base arr i
    = Inr (take i arr @ map digchar (digs b (unat x)) @ a, i + length (digs b (unat x)))"
proof (induction x base arr i rule: digits_loop.induct)
  case (1 x base arr i)
  let ?c = "digchar (unat x mod b)"
  have i: "i < length arr" using 1(3) by (simp add: digs.simps [of b] split: if_splits)
  have m: "unat (x mod base) = unat x mod b" "unat (x div base) = unat x div b" by (simp_all add: unat_mod unat_div 1(2))
  have "unat x mod b < b" using assms(1) by simp
  then have "unat (x mod base) < 36" using assms(2) m(1) by linarith
  then have wr: "write_at w arr (int i) (digit_char (x mod base)) = Inr (arr[i := ?c])" for w
    using i m(1) by (simp add: digit_char_eq)
  show ?case
  proof (cases "unat x < b")
    case True
    then have "x div base = 0" using m(2) by (simp add: unat_eq_zero)
    then have "digits_loop x base arr i = Inr (arr[i := ?c], Suc i)" by (subst digits_loop.simps) (simp add: wr)
    then show ?thesis using True i assms(1) by (simp add: digs.simps [of b] upd_conv_take_nth_drop)
  next
    case False
    then have nz: "x div base \<noteq> 0" using m(2) assms(1) by (metis div_eq_0_iff not_numeral_le_zero unat_0)
    have dg: "digs b (unat x) = unat x mod b # digs b (unat x div b)" using False assms(1) by (simp add: digs.simps [of b "unat x"])
    have "Suc i + length (digs b (unat (x div base))) \<le> length (arr[i := ?c])" using 1(3) by (simp add: dg m(2))
    then obtain a where a: "digits_loop (x div base) base (arr[i := ?c]) (Suc i)
        = Inr (take (Suc i) (arr[i := ?c]) @ map digchar (digs b (unat x div b)) @ a, Suc i + length (digs b (unat x div b)))"
      using 1(1) [OF wr nz 1(2)] m(2) by auto
    have "take (Suc i) (arr[i := ?c]) = take i arr @ [?c]" using i by (simp add: take_Suc_conv_app_nth)
    then have "digits_loop x base arr i = Inr (take i arr @ map digchar (digs b (unat x)) @ a, i + length (digs b (unat x)))"
      using nz a by (subst digits_loop.simps) (simp add: wr dg)
    then show ?thesis by blast
  qed
qed

lemma digits_loop_length: "digits_loop x base arr i = Inr (a, n) \<Longrightarrow> length a = length arr"
proof (induction x base arr i rule: digits_loop.induct)
  case (1 x base arr i)
  then show ?case by (subst (asm) digits_loop.simps) (auto simp: bindr_eq_Inr dest: write_at_length split: if_splits)
qed

subsection \<open>Text\<close>

fun render :: "byte list \<Rightarrow> karg list \<Rightarrow> byte list option" where
  "render [] args = None"
| "render (c # fmt) args =
     (if c = 0 then Some []
      else if c \<noteq> 37 then map_option (Cons c) (render fmt args)
      else case fmt of
        [] \<Rightarrow> None
      | d # fmt' \<Rightarrow>
          if d = 0 then Some []
          else if d = 37 then map_option (Cons 37) (render fmt' args)
          else if d = 99 then (case args of KWord x # args \<Rightarrow> map_option (Cons (ucast x)) (render fmt' args) | _ \<Rightarrow> None)
          else if d = 115 then
            (case args of KStr x # args \<Rightarrow> if 0 \<in> set x then map_option ((@) (cstr x)) (render fmt' args) else None | _ \<Rightarrow> None)
          else if d = 100 then
            (case args of KWord x # args \<Rightarrow> map_option ((@) (numeral_text 10 (unat x))) (render fmt' args) | _ \<Rightarrow> None)
          else if d = 112 \<or> d = 88 \<or> d = 120 then
            (case args of KWord x # args \<Rightarrow> map_option ((@) (numeral_text 16 (unat x))) (render fmt' args) | _ \<Rightarrow> None)
          else map_option (\<lambda>t. 37 # d # t) (render fmt' (tl args)))"

text \<open>
  A sink of bytes: \<open>ok n w\<close> says that the output \<open>w\<close> can take \<open>n\<close> more bytes, \<open>put\<close> is writing a
  string at once.
\<close>

locale sink =
  fixes r :: redirect and ok :: "nat \<Rightarrow> out \<Rightarrow> bool" and put :: "byte list \<Rightarrow> out \<Rightarrow> out res"
  assumes emit_put: "ok (length xs) w \<Longrightarrow> emit (xs @ junk) (length xs) r w = put xs w"
    and put_append: "ok (length xs + length ys) w \<Longrightarrow> put (xs @ ys) w = bindr (put xs w) (put ys)"
    and put_nil: "ok n w \<Longrightarrow> put [] w = Inr w"
    and ok_put: "ok (length xs + n) w \<Longrightarrow> put xs w = Inr w' \<Longrightarrow> ok n w'"
    and ok_le: "ok n w \<Longrightarrow> m \<le> n \<Longrightarrow> ok m w"
begin

lemma outputc_put: "ok (Suc n) w \<Longrightarrow> outputc c r w = put [c] w"
  using emit_put [of "[c]" w "[]"] ok_le [of "Suc n" w 1] by (simp add: outputc_def)

lemma outputstr_put: "0 \<in> set x \<Longrightarrow> ok (length (cstr x)) w \<Longrightarrow> outputstr x r w = put (cstr x) w"
proof -
  assume x: "0 \<in> set x" "ok (length (cstr x)) w"
  have "cstr x @ dropWhile (\<lambda>c. c \<noteq> 0) x = x" by (simp add: cstr_def)
  then show ?thesis using emit_put [OF x(2), of "dropWhile (\<lambda>c. c \<noteq> 0) x"] strlen_cstr [OF x(1)] by (simp add: outputstr_def)
qed

text \<open>Writing piece by piece is writing the whole.\<close>

lemma put_then:
  assumes "ok (length xs + length ys) w" and "\<And>w'. ok (length ys) w' \<Longrightarrow> f w' = put ys w'"
  shows "bindr (put xs w) f = put (xs @ ys) w"
  using assms ok_put [OF assms(1)] by (cases "put xs w") (simp_all add: put_append)

lemma send_loop_put: "n \<le> length arr \<Longrightarrow> ok n w \<Longrightarrow> send_loop arr n r w = put (rev (take n arr)) w"
proof (induction n arbitrary: w)
  case (Suc n)
  have "rev (take (Suc n) arr) = [arr ! n] @ rev (take n arr)" using Suc.prems(1) by (simp add: take_Suc_conv_app_nth)
  moreover have "bindr (put [arr ! n] w) (send_loop arr n r) = put ([arr ! n] @ rev (take n arr)) w"
    by (rule put_then) (use Suc in simp_all)
  ultimately show ?case using outputc_put [OF Suc.prems(2)] by simp
qed (simp add: put_nil)

lemma outputdig_put:
  assumes "unat base = b" and "2 \<le> b" and "b \<le> 36" and "ok (length (numeral_text b (unat x))) w"
  shows "outputdig arr_dig x base r w = put (numeral_text b (unat x)) w"
proof -
  let ?d = "digs b (unat x)"
  have "unat x < 2 ^ 32" by simp
  also have "(2 :: nat) ^ 32 \<le> b ^ 32" using assms(2) by (rule power_mono) simp
  finally have l: "length ?d \<le> 32" using assms(2) by (intro length_digs) simp_all
  obtain a where a: "digits_loop x base arr_dig 0 = Inr (map digchar ?d @ a, length ?d)"
    using digits_loop_eq [OF assms(2,3,1), of 0 x arr_dig] l by (auto simp: arr_dig_def)
  have "send_loop (map digchar ?d @ a) (length ?d) r w = put (rev (take (length ?d) (map digchar ?d @ a))) w"
    by (rule send_loop_put) (use assms(4) in \<open>simp_all add: numeral_text_def\<close>)
  then show ?thesis using a by (simp add: outputdig_def numeral_text_def rev_map)
qed

lemma outputc_then:
  "ok (Suc (length ys)) w \<Longrightarrow> (\<And>w'. ok (length ys) w' \<Longrightarrow> f w' = put ys w') \<Longrightarrow>
   bindr (outputc c r w) f = put (c # ys) w"
  using put_then [of "[c]" ys w f] outputc_put [of "length ys" w c] by simp

lemma outputstr_then:
  "0 \<in> set x \<Longrightarrow> ok (length (cstr x) + length ys) w \<Longrightarrow> (\<And>w'. ok (length ys) w' \<Longrightarrow> f w' = put ys w') \<Longrightarrow>
   bindr (outputstr x r w) f = put (cstr x @ ys) w"
  using put_then [of "cstr x" ys w f] outputstr_put [of x w] ok_le by simp

lemma outputdig_then:
  "unat base = b \<Longrightarrow> 2 \<le> b \<Longrightarrow> b \<le> 36 \<Longrightarrow> ok (length (numeral_text b (unat x)) + length ys) w \<Longrightarrow>
   (\<And>w'. ok (length ys) w' \<Longrightarrow> f w' = put ys w') \<Longrightarrow>
   bindr (outputdig arr_dig x base r w) f = put (numeral_text b (unat x) @ ys) w"
  using put_then [of "numeral_text b (unat x)" ys w f] outputdig_put [of base b x w] ok_le by simp

lemma format_put: "render fmt args = Some t \<Longrightarrow> ok (length t) w \<Longrightarrow> format fmt args r w = put t w"
proof (induction "length fmt" arbitrary: fmt args t w rule: less_induct)
  case less
  note IH = less(1) and t = less(2) and w = less(3)
  obtain c f where fmt: "fmt = c # f" using t by (cases fmt) auto
  show ?case
  proof (cases "c = 37")
    case False
    have "format f args r w' = put t' w'" if "render f args = Some t'" "ok (length t') w'" for t' w'
      using IH [of f] fmt that by simp
    then show ?thesis using False t w fmt by (auto intro!: outputc_then simp: put_nil)
  next
    case True
    obtain d f' where f: "f = d # f'" using t True fmt by (cases f) auto
    have IH': "format f' as r w' = put t' w'" if "render f' as = Some t'" "ok (length t') w'" for as t' w'
      using IH [of f'] fmt f that by simp
    note t1 = t [unfolded fmt f True]
    have e: "fmt = 37 # d # f'" using fmt f True by simp
    consider "d = 0" | "d = 37" | "d = 99" | "d = 115" | "d = 100" | "d = 112 \<or> d = 88 \<or> d = 120"
      | "d \<notin> {0, 37, 99, 115, 100, 112, 88, 120}" by auto
    then show ?thesis
    proof cases
      case 1
      then show ?thesis using t1 w e by (simp add: put_nil)
    next
      case 2
      then obtain t' where x: "render f' args = Some t'" "t = 37 # t'" using t1 by auto
      have "bindr (outputc 37 r w) (format f' args r) = put t w"
        unfolding x(2) by (rule outputc_then) (use w x IH' in simp_all)
      then show ?thesis using 2 e by simp
    next
      case 3
      then obtain x as t' where x: "args = KWord x # as" "render f' as = Some t'" "t = ucast x # t'"
        using t1 by (auto split: list.splits karg.splits)
      have "bindr (outputc (ucast x) r w) (format f' as r) = put t w"
        unfolding x(3) by (rule outputc_then) (use w x IH' in simp_all)
      then show ?thesis using 3 e x(1) by simp
    next
      case 4
      then obtain x as t' where x: "args = KStr x # as" "0 \<in> set x" "render f' as = Some t'" "t = cstr x @ t'"
        using t1 by (auto split: list.splits karg.splits if_splits)
      have "bindr (outputstr x r w) (format f' as r) = put t w"
        unfolding x(4) by (rule outputstr_then) (use w x IH' in simp_all)
      then show ?thesis using 4 e x(1) by simp
    next
      case 5
      then obtain x as t' where x: "args = KWord x # as" "render f' as = Some t'" "t = numeral_text 10 (unat x) @ t'"
        using t1 by (auto split: list.splits karg.splits)
      have "bindr (outputdig arr_dig x 10 r w) (format f' as r) = put t w"
        unfolding x(3) by (rule outputdig_then) (use w x IH' in simp_all)
      then show ?thesis using 5 e x(1) by simp
    next
      case 6
      then obtain x as t' where x: "args = KWord x # as" "render f' as = Some t'" "t = numeral_text 16 (unat x) @ t'"
        using t1 by (auto split: list.splits karg.splits)
      have "bindr (outputdig arr_dig x 16 r w) (format f' as r) = put t w"
        unfolding x(3) by (rule outputdig_then) (use w x IH' in simp_all)
      then show ?thesis using 6 e x(1) by auto
    next
      case 7
      then obtain t' where x: "render f' (tl args) = Some t'" "t = 37 # d # t'" using t1 by auto
      have "bindr (outputc d r w') (format f' (tl args) r) = put (d # t') w'" if "ok (length (d # t')) w'" for w'
        by (rule outputc_then) (use that x IH' in simp_all)
      note * = this
      have "bindr (outputc 37 r w) (\<lambda>w. bindr (outputc d r w) (format f' (tl args) r)) = put t w"
        unfolding x(2) by (rule outputc_then) (use * w x in simp_all)
      then show ?thesis using 7 e by simp
    qed
  qed
qed

end

subsection \<open>The screen\<close>

definition screen_ok :: "nat \<Rightarrow> out \<Rightarrow> bool" where
  "screen_ok n w \<longleftrightarrow> n < 4294967296 \<and> cga_lock (sys_cga (out_fsys w)) = unlocked"

definition screen_put :: "byte list \<Rightarrow> out \<Rightarrow> out res" where
  "screen_put xs w = bindr (files_write FD_STDOUT (Some xs) (word_of_nat (length xs)) (out_fsys w)) (\<lambda>s. Inr (w\<lparr>out_fsys := s\<rparr>))"

lemma putstr_loop_append:
  "putstr_loop (pre @ xs @ ys) (length pre) (length xs + length ys) s
   = bindr (putstr_loop (pre @ xs @ ys) (length pre) (length xs) s) (putstr_loop (pre @ xs @ ys) (length pre + length xs) (length ys))"
proof (induction xs arbitrary: pre s)
  case (Cons x xs)
  have "read_at w (pre @ (x # xs) @ ys) (int (length pre)) = Inr x" for w by (subst read_at_nat) simp_all
  then show ?case using Cons.IH [of "pre @ [x]"] by (cases "cga_putc x (cga_attr s) s") simp_all
qed simp

lemma putstr_loop_cong:
  "(\<And>k. k < n \<Longrightarrow> read_at ''cga_putstr()'' xs (int (i + k)) = read_at ''cga_putstr()'' ys (int (j + k))) \<Longrightarrow>
   putstr_loop xs i n s = putstr_loop ys j n s"
proof (induction n arbitrary: i j s)
  case (Suc n)
  have "read_at ''cga_putstr()'' xs (int i) = read_at ''cga_putstr()'' ys (int j)" using Suc.prems [of 0] by simp
  moreover have "putstr_loop xs (Suc i) n t = putstr_loop ys (Suc j) n t" for t
    by (rule Suc.IH) (use Suc.prems [of "Suc k" for k] in simp)
  then have "putstr_loop xs (Suc i) n = putstr_loop ys (Suc j) n" by blast
  ultimately show ?case by simp
qed simp

lemma putc_lock: "cga_putc c a s = Inr t \<Longrightarrow> cga_lock t = cga_lock s"
  by (auto simp: cga_putc_def cga_scroll_back_def cga_cursor_set_def Let_def bindr_eq_Inr split: if_splits option.splits prod.splits)

lemma putstr_lock: "putstr_loop xs i n s = Inr t \<Longrightarrow> cga_lock t = cga_lock s"
proof (induction n arbitrary: i s)
  case (Suc n)
  then obtain u where "cga_putc (xs ! i) (cga_attr s) s = Inr u" "putstr_loop xs (Suc i) n u = Inr t"
    by (auto simp: bindr_eq_Inr read_at_def split: if_splits)
  then show ?case using Suc.IH putc_lock by metis
qed simp

lemma putstr_append:
  assumes "cga_lock s = unlocked"
  shows "cga_putstr (xs @ ys) (length xs + length ys) s
    = bindr (cga_putstr (xs @ zs) (length xs) s) (cga_putstr ys (length ys))"
proof -
  let ?s = "s\<lparr>cga_lock := \<lparr>islock = 1\<rparr>\<rparr>"
  have a: "putstr_loop (xs @ ys) 0 (length xs) ?s = putstr_loop (xs @ zs) 0 (length xs) ?s"
    by (rule putstr_loop_cong) (simp add: read_at_def nth_append)
  have b: "putstr_loop (xs @ ys) (length xs) (length ys) t = putstr_loop ys 0 (length ys) t" for t
    by (rule putstr_loop_cong) (simp add: read_at_def nth_append nat_add_distrib)
  note ap = putstr_loop_append [of "[]" xs ys ?s, simplified, unfolded a]
  show ?thesis
  proof (cases "putstr_loop (xs @ zs) 0 (length xs) ?s")
    case (Inr t)
    have "cga_lock t = \<lparr>islock = 1\<rparr>" using putstr_lock [OF Inr] by simp
    then have "t\<lparr>cga_lock := signal (cga_lock t)\<rparr>\<lparr>cga_lock := \<lparr>islock = 1\<rparr>\<rparr> = t" "signal (cga_lock t) = unlocked"
      by (simp_all add: signal_def unlocked_def)
    then show ?thesis using ap assms Inr b [of t] by (simp add: cga_putstr_def del: putstr_loop.simps)
  qed (use ap assms in \<open>simp add: cga_putstr_def\<close>)
qed

lemma write_screen:
  assumes "length xs < 4294967296"
  shows "files_write FD_STDOUT (Some (xs @ zs)) (word_of_nat (length xs)) s
    = (if xs = [] then Inr s else bindr (cga_putstr (xs @ zs) (length xs) (sys_cga s)) (\<lambda>c. Inr (s\<lparr>sys_cga := c\<rparr>)))"
proof -
  have u: "unat (word_of_nat (length xs) :: u32) = length xs" using assms by (rule unat_word_of_nat_32)
  then have "(word_of_nat (length xs) :: u32) = 0 \<longleftrightarrow> xs = []" by (metis length_0_conv unat_eq_zero)
  then show ?thesis using u by (simp add: files_write_def fd_consts)
qed

lemma putstr_lock_after: "cga_lock s = unlocked \<Longrightarrow> cga_putstr xs n s = Inr t \<Longrightarrow> cga_lock t = unlocked"
  by (auto simp: cga_putstr_def bindr_eq_Inr signal_def unlocked_def)

interpretation screen: sink To_Screen screen_ok screen_put
proof
  fix xs ys zs :: "byte list" and w :: out
  show "emit (xs @ zs) (length xs) To_Screen w = screen_put xs w" if "screen_ok (length xs) w"
  proof -
    have l: "length xs < 4294967296" "cga_lock (sys_cga (out_fsys w)) = unlocked" using that by (simp_all add: screen_ok_def)
    have "cga_putstr (xs @ zs) (length xs) (sys_cga (out_fsys w)) = cga_putstr xs (length xs) (sys_cga (out_fsys w))"
      using putstr_append [OF l(2), of xs "[]" zs] putstr_append [OF l(2), of xs "[]" "[]"]
      by (simp add: cga_putstr_def putstr_loop_cong [of "length xs" "xs @ zs" 0 xs 0] read_at_def nth_append)
    then show ?thesis using write_screen [OF l(1), of zs] write_screen [OF l(1), of "[]"] by (simp add: emit_def screen_put_def)
  qed
next
  fix xs ys :: "byte list" and w :: out
  assume ok: "screen_ok (length xs + length ys) w"
  define c where "c = sys_cga (out_fsys w)"
  have l: "length xs < 4294967296" "length ys < 4294967296" "length (xs @ ys) < 4294967296" "cga_lock c = unlocked"
    using ok by (simp_all add: screen_ok_def c_def)
  note ws = write_screen [where zs = "[]", simplified]
  show "screen_put (xs @ ys) w = bindr (screen_put xs w) (screen_put ys)"
  proof (cases "xs = [] \<or> ys = []")
    case True
    then show ?thesis
    proof
      assume "xs = []"
      then show ?thesis using ws [OF l(1), of "out_fsys w"] by (simp add: screen_put_def)
    next
      assume "ys = []"
      then show ?thesis using ws [of "[]"] by (cases "screen_put xs w") (simp_all add: screen_put_def)
    qed
  next
    case False
    show ?thesis
    proof (cases "cga_putstr xs (length xs) c")
      case (Inr d)
      then show ?thesis using False ws [OF l(1)] ws [OF l(2)] ws [OF l(3)] putstr_append [OF l(4), of xs ys "[]"]
        by (cases "cga_putstr ys (length ys) d") (simp_all add: screen_put_def c_def)
    qed (use False ws [OF l(1)] ws [OF l(3)] putstr_append [OF l(4), of xs ys "[]"] in \<open>simp add: screen_put_def c_def\<close>)
  qed
next
  show "screen_put [] w = Inr w" for w using write_screen [of "[]" "[]" "out_fsys w"] by (simp add: screen_put_def)
next
  fix xs :: "byte list" and n w w'
  assume ok: "screen_ok (length xs + n) w" and p: "screen_put xs w = Inr w'"
  have l: "length xs < 4294967296" using ok by (simp add: screen_ok_def)
  show "screen_ok n w'"
  proof (cases "xs = []")
    case True
    then show ?thesis using ok p write_screen [of "[]" "[]" "out_fsys w"] by (simp add: screen_put_def)
  next
    case False
    then obtain c where c: "cga_putstr xs (length xs) (sys_cga (out_fsys w)) = Inr c" "w' = w\<lparr>out_fsys := (out_fsys w)\<lparr>sys_cga := c\<rparr>\<rparr>"
      using p write_screen [OF l, of "[]" "out_fsys w"]
      by (cases "cga_putstr xs (length xs) (sys_cga (out_fsys w))") (simp_all add: screen_put_def)
    have "cga_lock c = unlocked" by (rule putstr_lock_after [OF _ c(1)]) (use ok in \<open>simp add: screen_ok_def\<close>)
    then show ?thesis using ok by (simp add: screen_ok_def c(2))
  qed
next
  show "screen_ok n w \<Longrightarrow> m \<le> n \<Longrightarrow> screen_ok m w" for m n w by (simp add: screen_ok_def)
qed

subsection \<open>The log cache\<close>

definition cache_ok :: "nat \<Rightarrow> out \<Rightarrow> bool" where
  "cache_ok n w \<longleftrightarrow> cb_redirect (out_cache w) = INVALID_INDEX
     \<and> unat (cb_curlen (out_cache w)) + n \<le> unat (cb_capacity (out_cache w))
     \<and> unat (cb_capacity (out_cache w)) \<le> length (cb_buff (out_cache w))"

definition cache_append :: "byte list \<Rightarrow> cachebuff \<Rightarrow> cachebuff" where
  "cache_append xs c = c\<lparr>cb_buff := take (unat (cb_curlen c)) (cb_buff c) @ xs @ drop (unat (cb_curlen c) + length xs) (cb_buff c),
     cb_curlen := word_of_nat (unat (cb_curlen c) + length xs)\<rparr>"

definition cache_put :: "byte list \<Rightarrow> out \<Rightarrow> out res" where
  "cache_put xs w = Inr (w\<lparr>out_cache := cache_append xs (out_cache w)\<rparr>)"

lemma cache_append_append:
  assumes "unat (cb_curlen c) + length xs + length ys \<le> length (cb_buff c)" and "unat (cb_curlen c) + length xs + length ys < 4294967296"
  shows "cache_append ys (cache_append xs c) = cache_append (xs @ ys) c"
proof -
  have "unat (word_of_nat (unat (cb_curlen c) + length xs) :: u32) = unat (cb_curlen c) + length xs"
    by (rule unat_word_of_nat_32) (use assms(2) in linarith)
  then show ?thesis using assms(1) by (simp add: cache_append_def ac_simps)
qed

lemma copy_loop_eq:
  "k + n \<le> length str \<Longrightarrow> unat (cb_curlen c) + n \<le> length (cb_buff c) \<Longrightarrow> unat (cb_curlen c) + n < 4294967296 \<Longrightarrow>
   copy_loop str k n c = Inr (cache_append (take n (drop k str)) c)"
proof (induction n arbitrary: k c)
  case 0
  then show ?case by (simp add: cache_append_def)
next
  case (Suc n)
  let ?l = "unat (cb_curlen c)"
  define c1 where "c1 = c\<lparr>cb_buff := (cb_buff c)[?l := str ! k], cb_curlen := cb_curlen c + 1\<rparr>"
  have l1: "unat (cb_curlen c + 1) = ?l + 1" using Suc.prems(3) by (subst unat_add_32) simp_all
  have "cache_append [str ! k] c = c1"
    using Suc.prems(2) l1 by (simp add: cache_append_def c1_def upd_conv_take_nth_drop)
  moreover have "take (Suc n) (drop k str) = [str ! k] @ take n (drop (Suc k) str)"
    using Suc.prems(1) by (simp add: Cons_nth_drop_Suc [symmetric])
  ultimately have "cache_append (take n (drop (Suc k) str)) c1 = cache_append (take (Suc n) (drop k str)) c"
    using cache_append_append [of c "[str ! k]" "take n (drop (Suc k) str)"] Suc.prems by simp
  moreover have "copy_loop str k (Suc n) c = copy_loop str (Suc k) n c1" using Suc.prems(1,2) by (simp add: c1_def)
  moreover have "copy_loop str (Suc k) n c1 = Inr (cache_append (take n (drop (Suc k) str)) c1)"
    by (rule Suc.IH) (use Suc.prems l1 in \<open>simp_all add: c1_def\<close>)
  ultimately show ?case by simp
qed

interpretation cache: sink To_Cache cache_ok cache_put
proof
  fix xs zs :: "byte list" and w :: out
  let ?c = "out_cache w"
  assume ok: "cache_ok (length xs) w"
  have l: "unat (cb_curlen ?c) + length xs < 4294967296" "unat (cb_curlen ?c) + length xs \<le> length (cb_buff ?c)"
    using ok unat_lt_2p32 [of "cb_capacity ?c"] by (simp_all add: cache_ok_def del: unat_lt_2p32)
  have u: "unat (word_of_nat (length xs) :: u32) = length xs" using l(1) by (intro unat_word_of_nat_32) simp
  have "unat (cb_curlen ?c + word_of_nat (length xs)) = unat (cb_curlen ?c) + length xs"
    using u l(1) by (subst unat_add_32) simp_all
  then have "\<not> cb_curlen ?c + word_of_nat (length xs) > cb_capacity ?c" using ok by (simp add: cache_ok_def word_less_nat_alt)
  then show "emit (xs @ zs) (length xs) To_Cache w = cache_put xs w"
    using ok u l copy_loop_eq [of 0 "length xs" "xs @ zs" ?c]
    by (simp add: emit_def cachebuff_write_def cache_put_def cache_ok_def)
next
  fix xs ys :: "byte list" and w :: out
  assume ok: "cache_ok (length xs + length ys) w"
  show "cache_put (xs @ ys) w = bindr (cache_put xs w) (cache_put ys)"
    using cache_append_append [of "out_cache w" xs ys] ok unat_lt_2p32 [of "cb_capacity (out_cache w)"]
    by (simp add: cache_put_def cache_ok_def del: unat_lt_2p32)
next
  show "cache_put [] w = Inr w" for w by (simp add: cache_put_def cache_append_def)
next
  fix xs :: "byte list" and n w w'
  assume ok: "cache_ok (length xs + n) w" and p: "cache_put xs w = Inr w'"
  have "unat (word_of_nat (unat (cb_curlen (out_cache w)) + length xs) :: u32) = unat (cb_curlen (out_cache w)) + length xs"
    by (rule unat_word_of_nat_32)
      (use ok unat_lt_2p32 [of "cb_capacity (out_cache w)"] in \<open>simp add: cache_ok_def del: unat_lt_2p32\<close>)
  then show "cache_ok n w'" using ok p by (auto simp: cache_put_def cache_ok_def cache_append_def)
next
  show "cache_ok n w \<Longrightarrow> m \<le> n \<Longrightarrow> cache_ok m w" for m n w by (simp add: cache_ok_def)
qed

subsection \<open>Properties\<close>

text \<open>C19: Formatted output is the text the format stands for. When \<open>render\<close> gives a text for the format
  string and its arguments, kprintf does what one files_write of the whole text to the standard
  output does (the screen lock being free), and klog_write, before the log has a file and while
  the cache has room, appends exactly that text to the cache.\<close>
theorem format_renders:
  assumes "render fmt args = Some t"
  shows "(length t < 4294967296 \<longrightarrow> cga_lock (sys_cga (out_fsys w)) = unlocked \<longrightarrow> kprintf fmt args w
        = bindr (files_write FD_STDOUT (Some t) (word_of_nat (length t)) (out_fsys w)) (\<lambda>s. Inr (w\<lparr>out_fsys := s\<rparr>)))
    \<and> (cb_redirect (out_cache w) = INVALID_INDEX \<longrightarrow>
        unat (cb_curlen (out_cache w)) + length t \<le> unat (cb_capacity (out_cache w)) \<longrightarrow>
        unat (cb_capacity (out_cache w)) \<le> length (cb_buff (out_cache w)) \<longrightarrow>
        klog_write fmt args w = Inr (w\<lparr>out_cache := (out_cache w)
          \<lparr>cb_buff := take (unat (cb_curlen (out_cache w))) (cb_buff (out_cache w)) @ t
             @ drop (unat (cb_curlen (out_cache w)) + length t) (cb_buff (out_cache w)),
           cb_curlen := word_of_nat (unat (cb_curlen (out_cache w)) + length t)\<rparr>\<rparr>))"
  using screen.format_put [OF assms, of w] cache.format_put [OF assms, of w]
  by (simp add: screen_ok_def cache_ok_def screen_put_def cache_put_def cache_append_def kprintf_def klog_write_def)

definition out_sample :: out where
  "out_sample = \<lparr>out_fsys = fsys_sample, out_cache = \<lparr>cb_buff = replicate 16 0, cb_capacity = 16, cb_curlen = 0, cb_redirect = INVALID_INDEX\<rparr>\<rparr>"

theorem format_renders_witness:
  "\<exists>w. klog_write [97, 61, 37, 100, 44, 37, 120, 0] [KWord 42, KWord 255] out_sample = Inr w
    \<and> take 8 (cb_buff (out_cache w)) = [97, 61, 52, 50, 44, 102, 102, 0] \<and> cb_curlen (out_cache w) = 7"
proof -
  have "render [97, 61, 37, 100, 44, 37, 120, 0] [KWord 42, KWord 255] = Some [97, 61, 52, 50, 44, 102, 102]"
    by (simp add: numeral_text_def digs.simps digchar_def)
  from format_renders [OF this, of out_sample] show ?thesis by (simp add: out_sample_def)
qed

text \<open>C38: Numbers fit the array of 32 digits and read back. In every base from 2 to 36 the loop of outputdig
  stays inside its array, and the digits it leaves there, read from the last to the first, are
  the number in that base: at most ten of them for %d and eight for %x.\<close>
theorem outputdig_digits:
  assumes "unat base = b" and "2 \<le> b" and "b \<le> 36"
  shows "\<exists>arr n. digits_loop x base arr_dig 0 = Inr (arr, n) \<and> 0 < n \<and> n \<le> 32 \<and> length arr = 32
    \<and> read_numeral b (rev (take n arr)) = unat x
    \<and> (b = 10 \<longrightarrow> n \<le> 10) \<and> (b = 16 \<longrightarrow> n \<le> 8)"
proof -
  let ?d = "digs b (unat x)"
  have x: "unat x < 2 ^ 32" by simp
  also have "(2 :: nat) ^ 32 \<le> b ^ 32" using assms(2) by (rule power_mono) simp
  finally have l: "length ?d \<le> 32" using assms(2) by (intro length_digs) simp_all
  have "length ?d \<le> 10" if "b = 10" using x that by (intro length_digs) (simp_all add: less_le_trans [of _ 4294967296])
  moreover have "length ?d \<le> 8" if "b = 16" using x that by (intro length_digs) simp_all
  moreover obtain a where a: "digits_loop x base arr_dig 0 = Inr (map digchar ?d @ a, length ?d)"
    using digits_loop_eq [OF assms(2,3,1), of 0 x arr_dig] l by (auto simp: arr_dig_def)
  moreover have "length (map digchar ?d @ a) = 32" using digits_loop_length [OF a] by (simp add: arr_dig_def)
  moreover have "read_numeral b (rev (take (length ?d) (map digchar ?d @ a))) = unat x"
    using read_numeral_digs [OF assms(2,3), of "unat x"] by (simp add: rev_map)
  ultimately show ?thesis using l by (intro exI [of _ "map digchar ?d @ a"] exI [of _ "length ?d"]) simp
qed

theorem outputdig_digits_witness:
  "\<exists>arr n. digits_loop 65535 16 arr_dig 0 = Inr (arr, n) \<and> n \<le> 8 \<and> read_numeral 16 (rev (take n arr)) = 65535"
  using outputdig_digits [of 16 16 65535] by auto

text \<open>Once the log has a file, what is behind its first sector is lost. With between 512 and 1023
  bytes in the cache, a write first makes the file hold the first 512 bytes of the cache, and
  then appends to the first \<open>curlen - 512\<close> bytes of the cache, which are in the file already: the
  bytes from 512 on, which are not, are overwritten.\<close>
theorem log_flush_keeps_first:
  assumes "fs_inv (sys_fs s)" and "fd_open s (cb_redirect c) ino" and "512 \<le> unat (cb_curlen c)" and "unat (cb_curlen c) < 1024"
    and "length (cb_buff c) = 8192" and "length str \<le> 4096" and "card (used_blocks (sys_fs s)) + 6 \<le> NBLOCKS"
  shows "\<exists>c' s'. cachebuff_write (Some c) (Some str) (word_of_nat (length str)) s = Inr (c', s')
    \<and> file_data (sys_fs s') (unat ino) = take 512 (cb_buff c)
    \<and> unat (cb_curlen c') = unat (cb_curlen c) - 512 + length str
    \<and> take (unat (cb_curlen c')) (cb_buff c') = take (unat (cb_curlen c) - 512) (cb_buff c) @ str"
proof -
  have buf: "buf_ok (cb_buff c) (unat (512 :: u32))" using assms(5) by (simp add: buf_ok_def)
  obtain s' where s': "files_write (cb_redirect c) (Some (cb_buff c)) 512 s = Inr s'"
    "file_data (sys_fs s') (unat ino) = take 512 (cb_buff c)"
    using files_write_ok [OF assms(1,2) _ _ buf] assms(7) by auto
  define d where "d = c\<lparr>cb_curlen := cb_curlen c - 512\<rparr>"
  have u: "unat (cb_curlen c - 512) = unat (cb_curlen c) - 512" using assms(3) by (intro unat_sub_32 [of 512, simplified]) simp
  have ge: "cb_curlen c \<ge> 512" "\<not> cb_curlen d \<ge> 512" using assms(3,4) u by (simp_all add: d_def word_le_nat_alt)
  have "flush_loop c s = Inr (d, s')"
    using ge s'(1) by (subst flush_loop.simps) (simp add: d_def flush_loop.simps [of "c\<lparr>cb_curlen := cb_curlen c - 512\<rparr>"])
  moreover have "cb_redirect c \<noteq> INVALID_INDEX" using assms(2) by (auto simp: fd_open_def)
  moreover have n: "unat (word_of_nat (length str) :: u32) = length str" using assms(6) by (intro unat_word_of_nat_32) simp
  moreover have cp: "copy_loop str 0 (length str) d = Inr (cache_append str d)"
    using copy_loop_eq [of 0 "length str" str d] assms(4-6) u by (simp add: d_def)
  ultimately have "cachebuff_write (Some c) (Some str) (word_of_nat (length str)) s = Inr (cache_append str d, s')"
    using ge(1) by (simp add: cachebuff_write_def cachebuff_flush_def)
  moreover have "unat (cb_curlen (cache_append str d)) = unat (cb_curlen c) - 512 + length str"
  proof -
    have "unat (word_of_nat (unat (cb_curlen d) + length str) :: u32) = unat (cb_curlen d) + length str"
      by (rule unat_word_of_nat_32) (use assms(4,6) u in \<open>simp add: d_def\<close>)
    then show ?thesis using u by (simp add: cache_append_def d_def)
  qed
  moreover have "take (unat (cb_curlen c) - 512 + length str) (cb_buff (cache_append str d))
      = take (unat (cb_curlen c) - 512) (cb_buff c) @ str"
    using assms(4,5) u by (simp add: cache_append_def d_def)
  ultimately show ?thesis using s'(2) by (intro exI [of _ "cache_append str d"] exI [of _ s']) simp
qed

theorem log_flush_keeps_first_witness:
  "\<exists>c' s'. cachebuff_write (Some \<lparr>cb_buff = replicate 512 1 @ replicate 7680 2, cb_capacity = 8192, cb_curlen = 600, cb_redirect = 3\<rparr>)
      (Some [104, 111, 111]) 3 fsys_sample = Inr (c', s')
    \<and> take 91 (cb_buff c') = replicate 88 1 @ [104, 111, 111]"
proof -
  let ?c = "\<lparr>cb_buff = replicate 512 1 @ replicate 7680 2, cb_capacity = 8192, cb_curlen = 600, cb_redirect = 3\<rparr>"
  have "card (used_blocks (sys_fs fsys_sample)) + 6 \<le> NBLOCKS" by (simp add: fsys_sample_def fs_sample_used NBLOCKS_def)
  with log_flush_keeps_first [of fsys_sample ?c 0 "[104, 111, 111]"] fsys_sample_open
  show ?thesis by auto
qed

end
