(* ===== verification/Format_List.thy ===== *)
theory Format_List
  imports Node_List Paging
begin

section \<open>kern/mem/format_list.c and metadata.c: pages cut into elements\<close>

text \<open>
  The state that the memory managers share (\<open>kmem\<close>): the machine with its page tables and physical
  pages, the pool of kernel pages, and the objects they keep in memory, one map from addresses for
  each type of object (nodes, headers of format lists, vaddr and vspace objects). A pointer is
  \<open>None\<close> when it is the kernel's \<open>null\<close>, which is not the address 0: memory that was cleared holds
  \<open>Some 0\<close>. bzero clears what is in its range in every one of the maps.
\<close>

subsection \<open>State\<close>

record fmtlist =
  fl_type_size :: u32
  fl_list :: llist
  fl_first_off :: u32
  fl_capacity :: u32
  fl_next :: "u32 option"

record vaddr =
  va_va :: u32
  va_length :: u32

record vspace =
  vs_list :: llist
  vs_begin :: u32
  vs_end :: u32
  vs_next :: "u32 option"

record kmem =
  km_mach :: machine
  km_kern :: vmk
  km_heap :: "u32 heap"
  km_fl :: "u32 \<Rightarrow> fmtlist"
  km_va :: "u32 \<Rightarrow> vaddr"
  km_vs :: "u32 \<Rightarrow> vspace"
  meta_vs :: "u32 option"
  meta_node :: "u32 option"
  meta_va :: "u32 option"
  sl_vs :: spinlock
  sl_ata :: spinlock
  sl_va :: spinlock

definition SIZEOF_NODE :: u32 where "SIZEOF_NODE = 8"
definition SIZEOF_VADDR :: u32 where "SIZEOF_VADDR = 8"
definition SIZEOF_VSPACE :: u32 where "SIZEOF_VSPACE = 24"
definition SIZEOF_FMTLIST :: u32 where "SIZEOF_FMTLIST = 28"

lemmas sizes = SIZEOF_NODE_def SIZEOF_VADDR_def SIZEOF_VSPACE_def SIZEOF_FMTLIST_def

text \<open>The list in a header stands at offset 4, the one in a vspace at its start.\<close>

definition in_range :: "u32 \<Rightarrow> nat \<Rightarrow> u32 \<Rightarrow> bool" where
  "in_range a n x \<longleftrightarrow> unat a \<le> unat x \<and> unat x < unat a + n"

definition zero_mem :: "u32 \<Rightarrow> nat \<Rightarrow> kmem \<Rightarrow> kmem" where
  "zero_mem a n s = s\<lparr>
     km_heap := (\<lambda>x. if in_range a n x then \<lparr>nd_data = Some 0, nd_next = Some 0\<rparr> else km_heap s x),
     km_fl := (\<lambda>x. if in_range a n x then \<lparr>fl_type_size = 0, fl_list = \<lparr>ls_null = x + 4, ls_size = 0\<rparr>,
                  fl_first_off = 0, fl_capacity = 0, fl_next = Some 0\<rparr> else km_fl s x),
     km_va := (\<lambda>x. if in_range a n x then \<lparr>va_va = 0, va_length = 0\<rparr> else km_va s x),
     km_vs := (\<lambda>x. if in_range a n x then \<lparr>vs_list = \<lparr>ls_null = x, ls_size = 0\<rparr>, vs_begin = 0, vs_end = 0, vs_next = Some 0\<rparr>
                  else km_vs s x)\<rparr>"

subsection \<open>format_list.c\<close>

definition set_fl :: "u32 \<Rightarrow> fmtlist \<Rightarrow> kmem \<Rightarrow> kmem" where
  "set_fl p f s = s\<lparr>km_fl := (km_fl s)(p := f)\<rparr>"

definition fl_insert :: "u32 \<Rightarrow> u32 \<Rightarrow> u32 \<Rightarrow> kmem \<Rightarrow> kmem res" where
  "fl_insert p n idx s =
     bindr (list_insert (km_heap s) (Some (fl_list (km_fl s p))) (Some n) idx) (\<lambda>(h, l).
     Inr (set_fl p ((km_fl s p)\<lparr>fl_list := l\<rparr>) (s\<lparr>km_heap := h\<rparr>)))"

definition fl_remove :: "u32 \<Rightarrow> u32 \<Rightarrow> kmem \<Rightarrow> (u32 option \<times> kmem) res" where
  "fl_remove p idx s =
     bindr (list_remove (km_heap s) (Some (fl_list (km_fl s p))) idx) (\<lambda>(n, h, l).
     Inr (nd_data (h n), set_fl p ((km_fl s p)\<lparr>fl_list := l\<rparr>) (s\<lparr>km_heap := h\<rparr>)))"

fun fmt_loop :: "u32 \<Rightarrow> u32 \<Rightarrow> u32 \<Rightarrow> nat \<Rightarrow> kmem \<Rightarrow> kmem res" where
  "fmt_loop page type_size p 0 s = Inr s"
| "fmt_loop page type_size p (Suc i) s =
     (let type_elem = p + SIZEOF_NODE;
          p' = p + (SIZEOF_NODE + type_size);
          s = zero_mem type_elem (unat type_size) s in
      bindr (node_set (km_heap s) (Some p) (Some type_elem) (Some p')) (\<lambda>h.
      let s = s\<lparr>km_heap := h\<rparr> in
      bindr (fl_insert page p (LSIDX_AFTAIL (fl_list (km_fl s page))) s) (fmt_loop page type_size p' i)))"

definition fmtlist_init :: "u32 option \<Rightarrow> u32 \<Rightarrow> kmem \<Rightarrow> kmem res" where
  "fmtlist_init page_va type_size s =
     nonnull ''fmtlist_init(): null pointer'' page_va (\<lambda>page.
     let p = PGDOWN page PGSIZE in
     if p \<noteq> page then panic ''fmtlist_init(): page size is not 4KB''
     else
       let elem_sz = SIZEOF_NODE + type_size in
       if elem_sz = 0 then fault ''fmtlist_init(): division by zero''
       else
         let cap_max = (PGSIZE - SIZEOF_FMTLIST) div elem_sz;
             f = \<lparr>fl_type_size = type_size, fl_list = \<lparr>ls_null = p + 4, ls_size = ls_size (fl_list (km_fl s p))\<rparr>,
                  fl_first_off = SIZEOF_FMTLIST, fl_capacity = cap_max, fl_next = None\<rparr> in
         bindr (list_init (km_heap s) (Some (fl_list f)) False) (\<lambda>(h, l).
         fmt_loop p type_size (p + SIZEOF_FMTLIST) (unat cap_max) (set_fl p (f\<lparr>fl_list := l\<rparr>) (s\<lparr>km_heap := h\<rparr>))))"

text \<open>
  The search along the chain. There are at most $2^{32}$ headers, so that a longer walk goes round
  a cycle and never ends.
\<close>

definition MAX_CHAIN :: nat where "MAX_CHAIN = 4294967297"

fun fl_search :: "nat \<Rightarrow> u32 option \<Rightarrow> u32 option \<Rightarrow> kmem \<Rightarrow> (u32 option \<times> u32 option \<times> u32 option \<times> kmem) res" where
  "fl_search 0 pre lst s = Inl Spin"
| "fl_search (Suc k) pre lst s =
     (case lst of
       None \<Rightarrow> Inr (None, pre, None, s)
     | Some l \<Rightarrow>
         bindr (list_isempty (Some (fl_list (km_fl s l)))) (\<lambda>e.
         if \<not> e then bindr (fl_remove l 1 s) (\<lambda>(ret, s). Inr (ret, pre, Some l, s))
         else if fl_capacity (km_fl s l) = 0 then Inr (None, pre, Some l, s)
         else fl_search k (Some l) (fl_next (km_fl s l)) s))"

definition new_kern_page :: "kmem \<Rightarrow> (u32 \<times> kmem) res" where
  "new_kern_page s =
     bindr (phy_alloc_page (pmst (km_mach s))) (\<lambda>(pa, pm).
     bindr (vir_alloc_kern (km_kern s)) (\<lambda>(va, k).
     bindr (set_mapping va pa (PGFLAG_US OR PGFLAG_RW OR PGFLAG_PS) ((km_mach s)\<lparr>pmst := pm\<rparr>)) (\<lambda>m.
     Inr (va, s\<lparr>km_mach := m, km_kern := k\<rparr>))))"

definition fmtlist_alloc :: "u32 option \<Rightarrow> u32 \<Rightarrow> kmem \<Rightarrow> (u32 option \<times> u32 option \<times> kmem) res" where
  "fmtlist_alloc head sz s =
     bindr (fl_search MAX_CHAIN None head s) (\<lambda>(ret, pre, lst, s).
     case ret of
       Some e \<Rightarrow> Inr (Some e, head, s)
     | None \<Rightarrow>
         bindr (case lst of
             Some l \<Rightarrow> if fl_capacity (km_fl s l) = 0 then Inr (l, s) else new_kern_page s
           | None \<Rightarrow> new_kern_page s) (\<lambda>(va, s).
         bindr (fmtlist_init (Some va) sz s) (\<lambda>s.
         let (head, s) = (case pre of None \<Rightarrow> (Some va, s) | Some p \<Rightarrow> (head, set_fl p ((km_fl s p)\<lparr>fl_next := Some va\<rparr>) s)) in
         bindr (fl_remove va 1 s) (\<lambda>(ret, s). Inr (ret, head, s)))))"

fun fl_give :: "nat \<Rightarrow> u32 option \<Rightarrow> u32 option \<Rightarrow> u32 option \<Rightarrow> u32 \<Rightarrow> u32 \<Rightarrow> kmem \<Rightarrow> (bool \<times> u32 option \<times> kmem) res" where
  "fl_give 0 head pre lst elem elem_size s = Inl Spin"
| "fl_give (Suc k) head pre lst elem elem_size s =
     (case lst of
       None \<Rightarrow> Inr (False, head, s)
     | Some l \<Rightarrow>
         if elem_size \<noteq> fl_type_size (km_fl s l) then panic ''fmtlist_release(): element type not match''
         else if l \<noteq> PGDOWN elem PGSIZE then fl_give k head (Some l) (fl_next (km_fl s l)) elem elem_size s
         else
           let p = elem - SIZEOF_NODE;
               s = zero_mem p (unat (SIZEOF_NODE + fl_type_size (km_fl s l))) s;
               s = s\<lparr>km_heap := (km_heap s)(p := (km_heap s p)\<lparr>nd_data := Some elem\<rparr>)\<rparr> in
           bindr (fl_insert l p 1 s) (\<lambda>s.
           if ls_size (fl_list (km_fl s l)) = fl_capacity (km_fl s l) then
             let s = (case pre of None \<Rightarrow> s
                      | Some q \<Rightarrow> set_fl q ((km_fl s q)\<lparr>fl_next := fl_next (km_fl s l)\<rparr>) s) in
             if l \<ge> KERN_METADATA
             then bindr (vir_release_kern l (km_kern s)) (\<lambda>k. Inr (True, None, s\<lparr>km_kern := k\<rparr>))
             else Inr (True, head, s)
           else Inr (True, head, s)))"

definition fmtlist_release :: "u32 option \<Rightarrow> u32 option \<Rightarrow> u32 \<Rightarrow> kmem \<Rightarrow> (bool \<times> u32 option \<times> kmem) res" where
  "fmtlist_release head elem elem_size s =
     (case elem of
       None \<Rightarrow> Inr (False, head, s)
     | Some e \<Rightarrow> fl_give MAX_CHAIN head None head e elem_size s)"

subsection \<open>metadata.c\<close>

definition init_metadata :: "kmem \<Rightarrow> kmem res" where
  "init_metadata s =
     bindr (spinlock_init (Some (sl_vs s))) (\<lambda>a.
     bindr (spinlock_init (Some (sl_ata s))) (\<lambda>b.
     bindr (spinlock_init (Some (sl_va s))) (\<lambda>c.
     Inr (s\<lparr>meta_vs := None, meta_node := None, meta_va := None, sl_vs := a, sl_ata := b, sl_va := c\<rparr>))))"

definition vspace_alloc :: "kmem \<Rightarrow> (u32 option \<times> kmem) res" where
  "vspace_alloc s =
     bindr (wait (sl_vs s)) (\<lambda>l.
     bindr (fmtlist_alloc (meta_vs s) SIZEOF_VSPACE (s\<lparr>sl_vs := l\<rparr>)) (\<lambda>(tmp, h, s).
     Inr (tmp, s\<lparr>meta_vs := h, sl_vs := signal (sl_vs s)\<rparr>)))"

definition node_alloc :: "kmem \<Rightarrow> (u32 option \<times> kmem) res" where
  "node_alloc s =
     bindr (wait (sl_ata s)) (\<lambda>l.
     bindr (fmtlist_alloc (meta_node s) SIZEOF_NODE (s\<lparr>sl_ata := l\<rparr>)) (\<lambda>(tmp, h, s).
     Inr (tmp, s\<lparr>meta_node := h, sl_ata := signal (sl_ata s)\<rparr>)))"

definition vaddr_alloc :: "kmem \<Rightarrow> (u32 option \<times> kmem) res" where
  "vaddr_alloc s =
     bindr (wait (sl_va s)) (\<lambda>l.
     bindr (fmtlist_alloc (meta_va s) SIZEOF_VADDR (s\<lparr>sl_va := l\<rparr>)) (\<lambda>(tmp, h, s).
     Inr (tmp, s\<lparr>meta_va := h, sl_va := signal (sl_va s)\<rparr>)))"

definition vspace_release :: "u32 option \<Rightarrow> kmem \<Rightarrow> kmem res" where
  "vspace_release vs s =
     bindr (wait (sl_vs s)) (\<lambda>l.
     bindr (fmtlist_release (meta_vs s) vs SIZEOF_VSPACE (s\<lparr>sl_vs := l\<rparr>)) (\<lambda>(_, h, s).
     Inr (s\<lparr>meta_vs := h, sl_vs := signal (sl_vs s)\<rparr>)))"

definition node_release :: "u32 option \<Rightarrow> kmem \<Rightarrow> kmem res" where
  "node_release nd s =
     bindr (wait (sl_ata s)) (\<lambda>l.
     bindr (fmtlist_release (meta_node s) nd SIZEOF_NODE (s\<lparr>sl_ata := l\<rparr>)) (\<lambda>(_, h, s).
     Inr (s\<lparr>meta_node := h, sl_ata := signal (sl_ata s)\<rparr>)))"

definition vaddr_release :: "u32 option \<Rightarrow> kmem \<Rightarrow> kmem res" where
  "vaddr_release va s =
     bindr (wait (sl_va s)) (\<lambda>l.
     bindr (fmtlist_release (meta_va s) va SIZEOF_VADDR (s\<lparr>sl_va := l\<rparr>)) (\<lambda>(_, h, s).
     Inr (s\<lparr>meta_va := h, sl_va := signal (sl_va s)\<rparr>)))"

end
