(* ===== verification/Vspace.thy ===== *)
theory Vspace
  imports Format_List
begin

section \<open>kern/mem/vspace.c and vm.c: virtual address spaces\<close>

text \<open>
  The address space of a task is a chain of vspace objects, each with the list of the ranges that
  were given out in it. The list of a vspace starts at its address (its head node is its first
  field). The chains are followed for at most \<open>MAX_CHAIN\<close> steps, see Format_List.
\<close>

subsection \<open>vspace.c\<close>

definition set_vs :: "u32 \<Rightarrow> vspace \<Rightarrow> kmem \<Rightarrow> kmem" where
  "set_vs p v s = s\<lparr>km_vs := (km_vs s)(p := v)\<rparr>"

definition vaddr_set :: "u32 option \<Rightarrow> u32 \<Rightarrow> u32 \<Rightarrow> kmem \<Rightarrow> kmem res" where
  "vaddr_set va addr len s =
     nonnull ''vaddr_set(): null pointer'' va (\<lambda>v.
     Inr (s\<lparr>km_va := (km_va s)(v := \<lparr>va_va = addr, va_length = len\<rparr>)\<rparr>))"

definition vspace_set :: "u32 option \<Rightarrow> llist option \<Rightarrow> u32 \<Rightarrow> u32 \<Rightarrow> u32 option \<Rightarrow> kmem \<Rightarrow> kmem res" where
  "vspace_set vs ls beg en nxt s =
     nonnull ''vspace_set(): null pointer'' vs (\<lambda>v.
     let (nd, n) = (case ls of
         None \<Rightarrow> (\<lparr>nd_data = None, nd_next = None\<rparr>, 0)
       | Some l \<Rightarrow> if ls_null l \<noteq> v then (km_heap s (ls_null l), ls_size l) else (\<lparr>nd_data = None, nd_next = None\<rparr>, 0)) in
     Inr (set_vs v \<lparr>vs_list = \<lparr>ls_null = v, ls_size = n\<rparr>, vs_begin = beg, vs_end = en, vs_next = nxt\<rparr>
       (s\<lparr>km_heap := (km_heap s)(v := nd)\<rparr>)))"

subsection \<open>vm.c: allocation\<close>

definition vspace_append :: "u32 option \<Rightarrow> u32 option \<Rightarrow> kmem \<Rightarrow> kmem res" where
  "vspace_append cur nxt s =
     nonnull ''vspace_append(): null pointer'' cur (\<lambda>c.
     let s = set_vs c ((km_vs s c)\<lparr>vs_next := nxt\<rparr>) s in
     bindr (deref ''vspace_append(): next'' nxt) (\<lambda>n.
     Inr (set_vs c ((km_vs s c)\<lparr>vs_end := vs_begin (km_vs s n)\<rparr>) s)))"

definition vs_insert :: "u32 \<Rightarrow> u32 option \<Rightarrow> u32 \<Rightarrow> kmem \<Rightarrow> kmem res" where
  "vs_insert p n idx s =
     bindr (list_insert (km_heap s) (Some (vs_list (km_vs s p))) n idx) (\<lambda>(h, l).
     Inr (set_vs p ((km_vs s p)\<lparr>vs_list := l\<rparr>) (s\<lparr>km_heap := h\<rparr>)))"

definition vs_remove :: "u32 \<Rightarrow> u32 \<Rightarrow> kmem \<Rightarrow> (u32 \<times> kmem) res" where
  "vs_remove p idx s =
     bindr (list_remove (km_heap s) (Some (vs_list (km_vs s p))) idx) (\<lambda>(n, h, l).
     Inr (n, set_vs p ((km_vs s p)\<lparr>vs_list := l\<rparr>) (s\<lparr>km_heap := h\<rparr>)))"

definition vs_isempty :: "u32 \<Rightarrow> kmem \<Rightarrow> bool res" where
  "vs_isempty p s = list_isempty (Some (vs_list (km_vs s p)))"

text \<open>The range is entered in \<open>worker\<close>, or in a new vspace when \<open>worker\<close> has no range.\<close>

definition take_range :: "u32 \<Rightarrow> u32 \<Rightarrow> u32 \<Rightarrow> kmem \<Rightarrow> (u32 \<times> kmem) res" where
  "take_range worker last_end amount s =
     bindr (vs_isempty worker s) (\<lambda>e.
     bindr (if e then
         bindr (vspace_alloc s) (\<lambda>(temp, s).
         bindr (vspace_set temp None last_end last_end None s) (\<lambda>s. Inr (temp, s)))
       else Inr (Some worker, s)) (\<lambda>(temp, s).
     bindr (node_alloc s) (\<lambda>(node_free, s).
     bindr (vaddr_alloc s) (\<lambda>(vaddr_free, s).
     bindr (vaddr_set vaddr_free last_end amount s) (\<lambda>s.
     bindr (node_set (km_heap s) node_free vaddr_free None) (\<lambda>h.
     bindr (deref ''vir_alloc_pages(): vspace'' temp) (\<lambda>t.
     bindr (vs_insert t node_free 1 (s\<lparr>km_heap := h\<rparr>)) (\<lambda>s.
     bindr (vs_isempty worker s) (\<lambda>e.
     bindr (if e then vspace_append (Some worker) temp s else Inr s) (\<lambda>s.
     Inr (last_end, set_vs t ((km_vs s t)\<lparr>vs_end := vs_end (km_vs s t) + amount * PGSIZE\<rparr>) s)))))))))))"

fun alloc_loop :: "nat \<Rightarrow> u32 option \<Rightarrow> u32 \<Rightarrow> u32 \<Rightarrow> u32 \<Rightarrow> kmem \<Rightarrow> (u32 \<times> kmem) res" where
  "alloc_loop 0 worker last_end amount max_end s = Inl Spin"
| "alloc_loop (Suc k) worker last_end amount max_end s =
     (case worker of
       None \<Rightarrow> Inr (0, s)
     | Some w \<Rightarrow>
         let skip = (case vs_next (km_vs s w) of None \<Rightarrow> False
                     | Some n \<Rightarrow> (vs_begin (km_vs s n) - last_end) div PGSIZE < amount) in
         if skip then
           bindr (deref ''next_'' (vs_next (km_vs s w))) (\<lambda>n.
           alloc_loop k (Some n) (vs_end (km_vs s n)) amount max_end s)
         else if vs_next (km_vs s w) = None \<and> last_end + amount * PGSIZE \<ge> max_end
         then panic ''vir_alloc_pages(): no enough space''
         else take_range w last_end amount s)"

definition vir_alloc_pages :: "u32 option \<Rightarrow> u32 \<Rightarrow> u32 \<Rightarrow> kmem \<Rightarrow> (u32 \<times> kmem) res" where
  "vir_alloc_pages vs amount beg s =
     nonnull ''vir_alloc_pages(): null pointer'' vs (\<lambda>v.
     if amount = 0 then panic ''vir_alloc_pages(): cannot request 0 page''
     else alloc_loop MAX_CHAIN (Some v) beg amount (if beg < KERN_HIGH_MAPPING then KERN_HIGH_MAPPING else KERN_METADATA) s)"

subsection \<open>vm.c: release\<close>

text \<open>A physical page that is released is cleared through its virtual address.\<close>

definition release_vpage :: "u32 \<Rightarrow> kmem \<Rightarrow> kmem res" where
  "release_vpage va s =
     bindr (phy_release_vpage va (km_mach s)) (\<lambda>m. Inr (zero_mem va 4096 (s\<lparr>km_mach := m\<rparr>)))"

fun release_pages_loop :: "u32 \<Rightarrow> nat \<Rightarrow> kmem \<Rightarrow> kmem res" where
  "release_pages_loop va 0 s = Inr s"
| "release_pages_loop va (Suc n) s = bindr (release_vpage va s) (release_pages_loop (va + PGSIZE) n)"

fun find_vs :: "nat \<Rightarrow> u32 option \<Rightarrow> u32 option \<Rightarrow> u32 \<Rightarrow> kmem \<Rightarrow> (u32 option \<times> u32) res" where
  "find_vs 0 prev worker va s = Inl Spin"
| "find_vs (Suc k) prev worker va s =
     (case worker of
       None \<Rightarrow> panic ''vir_release_pages(): invalid virtual address''
     | Some w \<Rightarrow>
         if vs_begin (km_vs s w) \<le> va \<and> va < vs_end (km_vs s w) then Inr (prev, w)
         else find_vs k (Some w) (vs_next (km_vs s w)) va s)"

fun move_loop :: "u32 \<Rightarrow> u32 \<Rightarrow> u32 option \<Rightarrow> u32 \<Rightarrow> u32 \<Rightarrow> nat \<Rightarrow> kmem \<Rightarrow> kmem res" where
  "move_loop w new_vs prev j k 0 s = Inr s"
| "move_loop w new_vs prev j k (Suc n) s =
     bindr (vs_remove w j s) (\<lambda>(nd, s).
     bindr (vs_insert new_vs (Some nd) k s) (\<lambda>s.
     bindr (deref ''prev_vs'' prev) (\<lambda>p.
     move_loop w new_vs prev j (k + 1) n (set_vs p ((km_vs s p)\<lparr>vs_next := Some new_vs\<rparr>) s))))"

datatype location = LCT_BEGIN | LCT_MIDDLE | LCT_END

text \<open>\<open>(node, lct, new_vs)\<close> for the range that starts at \<open>va\<close>, which is taken out of the list.\<close>

fun node_loop :: "nat \<Rightarrow> u32 \<Rightarrow> u32 option \<Rightarrow> u32 \<Rightarrow> u32 \<Rightarrow> kmem \<Rightarrow> (u32 \<times> location \<times> u32 option \<times> kmem) res" where
  "node_loop 0 w prev i va s = Inl Spin"
| "node_loop (Suc fuel) w prev i va s =
     bindr (list_find (km_heap s) (Some (vs_list (km_vs s w))) i) (\<lambda>nd.
     case nd of
       None \<Rightarrow> panic ''vir_release_pages(): bug''
     | Some n \<Rightarrow>
         bindr (deref ''data_'' (nd_data (km_heap s n))) (\<lambda>d.
         if va \<noteq> va_va (km_va s d) then node_loop fuel w prev (i + 1) va s
         else
           let lct = (if i = 1 then LCT_BEGIN else if i = ls_size (vs_list (km_vs s w)) then LCT_END else LCT_MIDDLE) in
           bindr (vs_remove w i s) (\<lambda>(_, s).
           if lct = LCT_MIDDLE then
             bindr (vspace_alloc s) (\<lambda>(new_vs, s).
             bindr (deref ''new_vs'' new_vs) (\<lambda>v.
             bindr (move_loop w v prev i 1 (unat (ls_size (vs_list (km_vs s w))) + 1 - unat i) s) (\<lambda>s.
             bindr (vspace_append (Some v) (Some w) s) (\<lambda>s.
             Inr (n, lct, Some v, s)))))
           else Inr (n, lct, None, s))))"

text \<open>The bounds of the vspace that is left, and of the new one in front of it.\<close>

definition adjust_vs :: "u32 \<Rightarrow> u32 option \<Rightarrow> u32 \<Rightarrow> location \<Rightarrow> u32 option \<Rightarrow> vaddr \<Rightarrow> kmem \<Rightarrow> kmem res" where
  "adjust_vs w prev pages_amount lct new_vs d s =
     bindr (vs_isempty w s) (\<lambda>e.
     if e then
       bindr (vspace_append prev (vs_next (km_vs s w)) s) (\<lambda>s. vspace_release (Some w) s)
     else
       let bytes = pages_amount * PGSIZE; v = km_vs s w in
       (case lct of
         LCT_BEGIN \<Rightarrow> Inr (set_vs w (v\<lparr>vs_end := vs_end v - bytes\<rparr>) s)
       | LCT_END \<Rightarrow> Inr (set_vs w (v\<lparr>vs_begin := vs_begin v + bytes\<rparr>) s)
       | LCT_MIDDLE \<Rightarrow>
           nonnull ''vir_release_pages(): bug'' new_vs (\<lambda>nv.
           let s = set_vs w (v\<lparr>vs_begin := va_va d + va_length d * PGSIZE\<rparr>) s;
               s = set_vs nv ((km_vs s nv)\<lparr>vs_end := va_va d\<rparr>) s in
           bindr (list_find (km_heap s) (Some (vs_list (km_vs s nv))) (ls_size (vs_list (km_vs s nv)))) (\<lambda>m.
           bindr (deref ''list_find()'' m) (\<lambda>m.
           bindr (deref ''data_'' (nd_data (km_heap s m))) (\<lambda>dd.
           Inr (set_vs nv ((km_vs s nv)\<lparr>vs_begin := va_va (km_va s dd)\<rparr>) s)))))))"

definition vir_release_pages :: "u32 option \<Rightarrow> u32 \<Rightarrow> bool \<Rightarrow> kmem \<Rightarrow> kmem res" where
  "vir_release_pages vs va rel s =
     nonnull ''vir_release_pages(): null pointer'' vs (\<lambda>v.
     bindr (find_vs MAX_CHAIN None (Some v) va s) (\<lambda>(prev, w).
     bindr (node_loop MAX_CHAIN w prev 1 va s) (\<lambda>(n, lct, new_vs, s).
     bindr (deref ''data_'' (nd_data (km_heap s n))) (\<lambda>d.
     let pages_amount = va_length (km_va s d) in
     bindr (if rel then release_pages_loop (va_va (km_va s d)) (unat pages_amount) s else Inr s) (\<lambda>s.
     bindr (adjust_vs w prev pages_amount lct new_vs (km_va s d) s) (\<lambda>s.
     bindr (node_release (Some n) s) (\<lambda>s.
     vaddr_release (nd_data (km_heap s n)) s)))))))"

subsection \<open>vm.c: a task's whole space\<close>

text \<open>\<open>nul\<close> is the address of the kernel's \<open>null\<close>, with which a start address is compared.\<close>

fun drop_nodes :: "nat \<Rightarrow> u32 \<Rightarrow> u32 option \<Rightarrow> kmem \<Rightarrow> kmem res" where
  "drop_nodes 0 nul nd s = Inl Spin"
| "drop_nodes (Suc k) nul nd s =
     (case nd of
       None \<Rightarrow> Inr s
     | Some n \<Rightarrow>
         nonnull ''release_vspace(): bug'' (nd_data (km_heap s n)) (\<lambda>d.
         let va = va_va (km_va s d); nxt = nd_next (km_heap s n) in
         bindr (if va \<noteq> nul then
             bindr (release_pages_loop va (unat (va_length (km_va s d))) s) (\<lambda>s.
             bindr (vaddr_release (nd_data (km_heap s n)) s) (\<lambda>s.
             node_release (Some n) s))
           else Inr s)
         (drop_nodes k nul nxt)))"

fun drop_spaces :: "nat \<Rightarrow> u32 \<Rightarrow> u32 option \<Rightarrow> kmem \<Rightarrow> kmem res" where
  "drop_spaces 0 nul vs s = Inl Spin"
| "drop_spaces (Suc k) nul vs s =
     (case vs of
       None \<Rightarrow> Inr s
     | Some w \<Rightarrow>
         bindr (drop_nodes MAX_CHAIN nul (nd_next (km_heap s (ls_null (vs_list (km_vs s w))))) s) (\<lambda>s.
         let nxt = vs_next (km_vs s w) in
         bindr (vs_isempty w s) (\<lambda>e.
         bindr (if e then vspace_release (Some w) s else Inr s)
         (drop_spaces k nul nxt))))"

text \<open>\<open>vmngr\<close> is the vspace inside the PCB.\<close>

definition release_vspace :: "u32 \<Rightarrow> u32 option \<Rightarrow> kmem \<Rightarrow> kmem res" where
  "release_vspace nul vmngr s =
     nonnull ''release_vspace(): null pointer'' vmngr (\<lambda>v.
     bindr (drop_spaces MAX_CHAIN nul (vs_next (km_vs s v)) s) (\<lambda>s.
     bindr (node_set (km_heap s) (Some (ls_null (vs_list (km_vs s v)))) None None) (\<lambda>h.
     Inr (s\<lparr>km_heap := h\<rparr>))))"

definition init_virmm_system :: "kmem \<Rightarrow> kmem res" where
  "init_virmm_system s =
     bindr (init_kern_virmm_bitmap (km_kern s)) (\<lambda>k. init_metadata (s\<lparr>km_kern := k\<rparr>))"

end
