(* ===== verification/Format_Pages.thy ===== *)
theory Format_Pages
  imports Format_List
begin

section \<open>A page of a format list\<close>

text \<open>
  What format_list.c keeps true of a page it has cut up (\<open>fl_ok\<close>), the effect of its operations on
  the list of the free elements, and what they leave alone (\<open>off_page\<close>).
\<close>

lemma list_rep_frame:
  "(\<And>x. x \<in> set (ls_null l # xs) \<Longrightarrow> nd_next (h' x) = nd_next (h x)) \<Longrightarrow> list_rep h' l xs \<longleftrightarrow> list_rep h l xs"
  using lpath_frame [of "ls_null l # xs" h' h] unfolding list_rep_def by blast

subsection \<open>The slots of a page\<close>

text \<open>\<open>k\<close> is the distance of two elements: the node before the element and the element.\<close>

definition slot :: "u32 \<Rightarrow> nat \<Rightarrow> nat \<Rightarrow> u32" where
  "slot page k i = page + 28 + word_of_nat (i * k)"

definition page_addr :: "u32 \<Rightarrow> bool" where
  "page_addr page \<longleftrightarrow> PGDOWN page PGSIZE = page \<and> unat page + 4096 < 4294967296"

definition room :: "nat \<Rightarrow> nat" where
  "room k = 4068 div k"

lemma room_bound: "i < room k \<Longrightarrow> i * k + k \<le> 4068"
proof -
  assume "i < room k"
  then have "Suc i * k \<le> room k * k" by (intro mult_le_mono1) simp
  also have "\<dots> \<le> 4068" by (simp add: room_def)
  finally show ?thesis by simp
qed

lemma unat_slot:
  assumes "page_addr page" and "i \<le> room k"
  shows "unat (slot page k i) = unat page + 28 + i * k"
proof -
  have "i * k \<le> room k * k" using assms(2) by (rule mult_le_mono1)
  also have "\<dots> \<le> 4068" by (simp add: room_def)
  finally have l: "i * k \<le> 4068" .
  have "unat page + 4096 < 4294967296" using assms(1) by (simp add: page_addr_def)
  then have p: "unat page + 28 + i * k < 4294967296" using l by linarith
  have "unat (page + 28) = unat page + 28" by (subst unat_add_32) (use p in simp_all)
  moreover have "unat (word_of_nat (i * k) :: u32) = i * k" by (rule unat_word_of_nat_32) (use l in linarith)
  ultimately show ?thesis unfolding slot_def using p by (subst unat_add_32) simp_all
qed

lemma slot_Suc: "slot page k (Suc i) = slot page k i + word_of_nat k"
  by (simp add: slot_def algebra_simps)

lemma mult_gap: "i < j \<Longrightarrow> i * k + k \<le> j * (k :: nat)"
  by (metis Suc_leI add.commute mult_Suc mult_le_mono1)

lemma slot_inj:
  assumes "page_addr page" and "0 < k" and "i \<le> room k" and "j \<le> room k" and "slot page k i = slot page k j"
  shows "i = j"
proof -
  have "unat page + 28 + i * k = unat page + 28 + j * k"
    using unat_slot [OF assms(1,3)] unat_slot [OF assms(1,4)] unfolding assms(5) by (rule trans [OF sym])
  then show ?thesis using assms(2) by simp
qed

text \<open>The element of slot \<open>i\<close>, as bzero sees it, holds no node of another slot.\<close>

lemma elem_unat:
  assumes "page_addr page" and "i < room k" and "8 \<le> k"
  shows "unat (slot page k i + 8) = unat page + 36 + i * k"
proof -
  have "unat page + 4096 < 4294967296" using assms(1) by (simp add: page_addr_def)
  then have "unat (slot page k i) + 8 < 4294967296"
    using room_bound [OF assms(2)] assms(3) unat_slot [OF assms(1), of i k] assms(2) by simp
  then show ?thesis using unat_slot [OF assms(1), of i k] assms(2) by (subst unat_add_32) simp_all
qed

lemma elem_not_slot:
  assumes "page_addr page" and "i < room k" and "j < room k" and "8 < k"
  shows "slot page k i + 8 \<noteq> slot page k j"
proof
  assume e: "slot page k i + 8 = slot page k j"
  have "unat page + 36 + i * k = unat page + 28 + j * k"
    using elem_unat [OF assms(1,2) less_imp_le [OF assms(4)]] unat_slot [OF assms(1), of j k] assms(3) unfolding e by simp
  then have "8 + i * k = j * k" by simp
  moreover have "j * k \<le> i * k" if "\<not> i < j" by (rule mult_le_mono1) (use that in simp)
  ultimately show False using mult_gap [of i j k] assms(4) by (cases "i < j") linarith+
qed

lemma slot_not_in_elem:
  assumes "page_addr page" and "i < room k" and "j \<le> room k" and "8 \<le> k"
  shows "\<not> in_range (slot page k i + 8) (k - 8) (slot page k j)"
proof (cases "j \<le> i")
  case True
  then have "j * k \<le> i * k" by (rule mult_le_mono1)
  then show ?thesis using elem_unat [OF assms(1,2,4)] unat_slot [OF assms(1,3)] unfolding in_range_def by linarith
next
  case False
  then have "i * k + k \<le> j * k" by (intro mult_gap) simp
  then show ?thesis using elem_unat [OF assms(1,2,4)] unat_slot [OF assms(1,3)] assms(4) unfolding in_range_def by linarith
qed

lemma head_not_in_elem:
  assumes "page_addr page" and "i < room k" and "8 \<le> k" and "unat x < unat page + 28"
  shows "\<not> in_range (slot page k i + 8) n x" "\<not> in_range (slot page k i) n x"
  using elem_unat [OF assms(1-3)] unat_slot [OF assms(1), of i k] assms(2,4) by (simp_all add: in_range_def)

lemma slot_in_page:
  assumes "page_addr page" and "i < room k" and "8 \<le> k"
  shows "in_range page 4096 (slot page k i)" "in_range (slot page k i) k x \<Longrightarrow> in_range page 4096 x"
    "in_range (slot page k i + 8) (k - 8) x \<Longrightarrow> in_range page 4096 x"
  using elem_unat [OF assms] unat_slot [OF assms(1), of i k] assms(2,3) room_bound [OF assms(2)] by (auto simp: in_range_def)

lemma list_head_addr:
  assumes "page_addr page"
  shows "unat (page + 4) = unat page + 4" "in_range page 4096 page" "in_range page 4096 (page + 4)"
proof -
  show "unat (page + 4) = unat page + 4" using assms by (subst unat_add_32) (simp_all add: page_addr_def)
  then show "in_range page 4096 page" "in_range page 4096 (page + 4)" by (simp_all add: in_range_def)
qed

subsection \<open>What is left alone\<close>

definition off_page :: "u32 \<Rightarrow> kmem \<Rightarrow> kmem \<Rightarrow> bool" where
  "off_page page s t \<longleftrightarrow> (\<forall>x. \<not> in_range page 4096 x \<longrightarrow> km_heap t x = km_heap s x \<and> km_fl t x = km_fl s x
      \<and> km_va t x = km_va s x \<and> km_vs t x = km_vs s x)
    \<and> km_mach t = km_mach s \<and> km_kern t = km_kern s \<and> meta_vs t = meta_vs s \<and> meta_node t = meta_node s
    \<and> meta_va t = meta_va s \<and> sl_vs t = sl_vs s \<and> sl_ata t = sl_ata s \<and> sl_va t = sl_va s"

lemma off_page_refl [simp]: "off_page page s s"
  by (simp add: off_page_def)

lemma off_page_trans: "off_page page s t \<Longrightarrow> off_page page t u \<Longrightarrow> off_page page s u"
  by (simp add: off_page_def)

lemma off_page_zero: "(\<And>x. in_range a n x \<Longrightarrow> in_range page 4096 x) \<Longrightarrow> off_page page s (zero_mem a n s)"
  by (auto simp: off_page_def zero_mem_def)

lemma off_page_set_fl: "in_range page 4096 p \<Longrightarrow> off_page page s (set_fl p f s)"
  by (auto simp: off_page_def set_fl_def)

subsection \<open>The invariant of a page\<close>

definition fl_ok :: "kmem \<Rightarrow> u32 \<Rightarrow> nat \<Rightarrow> nat list \<Rightarrow> bool" where
  "fl_ok s page k xs \<longleftrightarrow> page_addr page \<and> 8 < k \<and> k \<le> 1032
     \<and> fl_type_size (km_fl s page) = word_of_nat (k - 8) \<and> fl_capacity (km_fl s page) = word_of_nat (room k)
     \<and> ls_null (fl_list (km_fl s page)) = page + 4
     \<and> list_rep (km_heap s) (fl_list (km_fl s page)) (map (slot page k) xs)
     \<and> set xs \<subseteq> {..<room k} \<and> (\<forall>i \<in> set xs. nd_data (km_heap s (slot page k i)) = Some (slot page k i + 8))"

lemma fl_ok_distinct: "fl_ok s page k xs \<Longrightarrow> distinct xs"
  by (auto simp: fl_ok_def list_rep_def distinct_map)

lemma room_pos: "8 < k \<Longrightarrow> k \<le> 1032 \<Longrightarrow> 3 \<le> room k \<and> room k \<le> 452"
proof -
  assume k: "8 < k" "k \<le> 1032"
  have "3 = 4068 div (1032 :: nat)" by simp
  also have "\<dots> \<le> 4068 div k" using k by (intro div_le_mono2) simp_all
  finally have "3 \<le> room k" by (simp add: room_def)
  moreover have "4068 div k \<le> 4068 div (9 :: nat)" using k by (intro div_le_mono2) simp_all
  ultimately show ?thesis by (simp add: room_def)
qed

text \<open>Insertion and removal through the header.\<close>

lemma fl_insert_at:
  assumes ok: "page_addr page" and k: "8 < k" and len: "length xs < 4096" and p: "i \<le> length xs" "n < room k" "n \<notin> set xs"
    and l: "ls_null (fl_list (km_fl s page)) = page + 4" "list_rep (km_heap s) (fl_list (km_fl s page)) (map (slot page k) xs)"
    and xs: "set xs \<subseteq> {..<room k}"
  shows "\<exists>t. fl_insert page (slot page k n) (word_of_nat (Suc i)) s = Inr t \<and> off_page page s t
    \<and> ls_null (fl_list (km_fl t page)) = page + 4
    \<and> list_rep (km_heap t) (fl_list (km_fl t page)) (map (slot page k) (take i xs @ n # drop i xs))
    \<and> (\<forall>a. nd_data (km_heap t a) = nd_data (km_heap s a))
    \<and> (km_fl t page)\<lparr>fl_list := fl_list (km_fl s page)\<rparr> = km_fl s page
    \<and> km_va t = km_va s \<and> km_vs t = km_vs s
    \<and> (\<forall>a. a \<notin> set ((page + 4) # slot page k n # map (slot page k) xs) \<longrightarrow> km_heap t a = km_heap s a)"
proof -
  have u: "unat (slot page k n) = unat page + 28 + n * k" using unat_slot [OF ok, of n k] p(2) by simp
  have "slot page k n \<noteq> page + 4" using u list_head_addr(1) [OF ok] by auto
  moreover have "slot page k n \<notin> slot page k ` set xs"
  proof
    assume "slot page k n \<in> slot page k ` set xs"
    then obtain m where m: "m \<in> set xs" "slot page k n = slot page k m" by blast
    then have "m < room k" using xs by blast
    then have "n = m" using slot_inj [OF ok _ _ _ m(2)] k p(2) by simp
    then show False using m(1) p(3) by simp
  qed
  ultimately have fresh: "slot page k n \<notin> set (ls_null (fl_list (km_fl s page)) # map (slot page k) xs)" using l(1) by auto
  obtain h l' where r: "list_insert (km_heap s) (Some (fl_list (km_fl s page))) (Some (slot page k n)) (word_of_nat (Suc i)) = Inr (h, l')"
    "list_rep h l' (take i (map (slot page k) xs) @ slot page k n # drop i (map (slot page k) xs))"
    "ls_null l' = page + 4" "\<forall>a. nd_data (h a) = nd_data (km_heap s a)"
    "\<forall>a. a \<notin> set ((page + 4) # slot page k n # map (slot page k) xs) \<longrightarrow> h a = km_heap s a"
    using list_insert_rep [OF l(2) _ _ fresh, of i] p(1) len l(1) by auto
  let ?t = "set_fl page ((km_fl s page)\<lparr>fl_list := l'\<rparr>) (s\<lparr>km_heap := h\<rparr>)"
  have run: "fl_insert page (slot page k n) (word_of_nat (Suc i)) s = Inr ?t" using r(1) by (simp add: fl_insert_def del: of_nat_Suc)
  have in_page: "in_range page 4096 (slot page k m)" if "m < room k" for m using slot_in_page(1) [OF ok that] k by simp
  have hs: "h x = km_heap s x" if "\<not> in_range page 4096 x" for x
  proof -
    have "x \<noteq> page + 4" using that list_head_addr(3) [OF ok] by auto
    moreover have "x \<noteq> slot page k n" using that in_page [OF p(2)] by auto
    moreover have "x \<notin> slot page k ` set xs" using that in_page xs by auto
    ultimately show ?thesis using r(5) by auto
  qed
  have "off_page page s ?t" using hs list_head_addr(2) [OF ok] by (auto simp: off_page_def set_fl_def)
  then show ?thesis using run r(2-5) by (intro exI [of _ ?t]) (simp add: set_fl_def take_map drop_map)
qed

lemma fl_remove_first:
  assumes "fl_ok s page k (i # xs)"
  shows "\<exists>t. fl_remove page 1 s = Inr (Some (slot page k i + 8), t) \<and> fl_ok t page k xs \<and> off_page page s t
    \<and> fl_next (km_fl t page) = fl_next (km_fl s page) \<and> km_va t = km_va s \<and> km_vs t = km_vs s
    \<and> (\<forall>a. nd_data (km_heap t a) = nd_data (km_heap s a))
    \<and> (\<forall>a. a \<notin> set ((page + 4) # map (slot page k) (i # xs)) \<longrightarrow> km_heap t a = km_heap s a)"
proof -
  note ok = assms [unfolded fl_ok_def]
  have rep: "list_rep (km_heap s) (fl_list (km_fl s page)) (map (slot page k) (i # xs))" using ok by blast
  obtain h l' where r: "list_remove (km_heap s) (Some (fl_list (km_fl s page))) 1 = Inr (slot page k i, h, l')"
    "list_rep h l' (map (slot page k) xs)" "ls_null l' = page + 4" "\<forall>a. nd_data (h a) = nd_data (km_heap s a)"
    "\<forall>a. a \<notin> set ((page + 4) # map (slot page k) (i # xs)) \<longrightarrow> h a = km_heap s a"
    using list_remove_rep [OF rep, of 0] ok by auto
  let ?t = "set_fl page ((km_fl s page)\<lparr>fl_list := l'\<rparr>) (s\<lparr>km_heap := h\<rparr>)"
  have run: "fl_remove page 1 s = Inr (Some (slot page k i + 8), ?t)" using r(1,4) ok by (simp add: fl_remove_def)
  have in_page: "in_range page 4096 (slot page k m)" if "m \<in> set (i # xs)" for m
    using slot_in_page(1) [of page m k] that ok by auto
  have hs: "h x = km_heap s x" if "\<not> in_range page 4096 x" for x
  proof -
    have "x \<noteq> page + 4" using that list_head_addr(3) [of page] ok by auto
    moreover have "x \<notin> slot page k ` set (i # xs)" using that in_page by blast
    ultimately show ?thesis using r(5) by auto
  qed
  have "off_page page s ?t" using hs list_head_addr(2) [of page] ok by (auto simp: off_page_def set_fl_def)
  moreover have "fl_ok ?t page k xs" using ok r(2-4) by (simp add: fl_ok_def set_fl_def)
  ultimately show ?thesis using run r(4,5) by (intro exI [of _ ?t]) (simp add: set_fl_def)
qed

subsection \<open>Cutting up a page\<close>

lemma fmt_loop_ok:
  assumes ok: "page_addr page" and k: "8 < k" "k \<le> 1032" and sz: "unat type_size = k - 8"
  shows "i + n = room k \<Longrightarrow> ls_null (fl_list (km_fl s page)) = page + 4 \<Longrightarrow>
    list_rep (km_heap s) (fl_list (km_fl s page)) (map (slot page k) [0..<i]) \<Longrightarrow>
    (\<forall>j < i. nd_data (km_heap s (slot page k j)) = Some (slot page k j + 8)) \<Longrightarrow>
    \<exists>t. fmt_loop page type_size (slot page k i) n s = Inr t \<and> off_page page s t
      \<and> ls_null (fl_list (km_fl t page)) = page + 4
      \<and> list_rep (km_heap t) (fl_list (km_fl t page)) (map (slot page k) [0..<room k])
      \<and> (\<forall>j < room k. nd_data (km_heap t (slot page k j)) = Some (slot page k j + 8))
      \<and> (km_fl t page)\<lparr>fl_list := fl_list (km_fl s page)\<rparr> = km_fl s page"
proof (induction n arbitrary: i s)
  case 0
  then show ?case by simp
next
  case (Suc n)
  have i: "i < room k" using Suc.prems(1) by simp
  have k8: "8 \<le> k" using k by simp
  let ?p = "slot page k i" and ?z = "zero_mem (slot page k i + 8) (unat type_size) s"
  define s1 where "s1 = ?z\<lparr>km_heap := (km_heap ?z)(?p := \<lparr>nd_data = Some (?p + 8), nd_next = Some (?p + (8 + type_size))\<rparr>)\<rparr>"
  have ts: "8 + type_size = word_of_nat k"
  proof -
    have "type_size = word_of_nat (k - 8)" using sz by (metis of_nat_unat ucast_id)
    then show ?thesis using k8 by (simp add: of_nat_diff)
  qed
  have nz: "\<not> in_range (?p + 8) (k - 8) x" if "x = page + 4 \<or> x = page \<or> (\<exists>j \<le> room k. x = slot page k j)" for x
    using that head_not_in_elem(1) [OF ok i k8] slot_not_in_elem [OF ok i _ k8] list_head_addr(1) [OF ok] by auto
  have hp: "km_heap s1 (slot page k j) = km_heap s (slot page k j)" if "j < i" for j
  proof -
    have "slot page k j \<noteq> ?p" using slot_inj [OF ok, of k j i] that i k by auto
    moreover have "\<not> in_range (?p + 8) (k - 8) (slot page k j)" using slot_not_in_elem [OF ok i _ k8, of j] that i by simp
    ultimately show ?thesis by (simp add: s1_def zero_mem_def sz)
  qed
  have hh: "km_heap s1 (page + 4) = km_heap s (page + 4)"
  proof -
    have "unat ?p = unat page + 28 + i * k" using unat_slot [OF ok, of i k] i by simp
    then have "page + 4 \<noteq> ?p" using list_head_addr(1) [OF ok] by auto
    then show ?thesis using nz [of "page + 4"] by (simp add: s1_def zero_mem_def sz)
  qed
  have fl1: "km_fl s1 page = km_fl s page" using nz [of page] by (simp add: s1_def zero_mem_def sz)
  have nx: "nd_next (km_heap s1 x) = nd_next (km_heap s x)" if "x \<in> set ((page + 4) # map (slot page k) [0..<i])" for x
    using that hp hh by auto
  have rep1: "list_rep (km_heap s1) (fl_list (km_fl s1 page)) (map (slot page k) [0..<i])"
    using Suc.prems(2,3) list_rep_frame [of "fl_list (km_fl s page)" "map (slot page k) [0..<i]" "km_heap s1" "km_heap s"] nx unfolding fl1 by simp
  have null1: "ls_null (fl_list (km_fl s1 page)) = page + 4" using fl1 Suc.prems(2) by simp
  have off1: "off_page page s s1"
    using slot_in_page [OF ok i k8] by (auto simp: off_page_def s1_def zero_mem_def sz)
  have up: "length [0..<i] < 4096" "i \<le> length [0..<i]" "i \<notin> set [0..<i]" "set [0..<i] \<subseteq> {..<room k}"
    using room_pos [OF k] i by auto
  obtain t where t: "fl_insert page ?p (word_of_nat (Suc i)) s1 = Inr t" "off_page page s1 t"
    "ls_null (fl_list (km_fl t page)) = page + 4"
    "list_rep (km_heap t) (fl_list (km_fl t page)) (map (slot page k) (take i [0..<i] @ i # drop i [0..<i]))"
    "\<forall>a. nd_data (km_heap t a) = nd_data (km_heap s1 a)" "(km_fl t page)\<lparr>fl_list := fl_list (km_fl s1 page)\<rparr> = km_fl s1 page"
    using fl_insert_at [OF ok k(1) up(1,2) i up(3) null1 rep1 up(4)] by blast
  have "ls_size (fl_list (km_fl s page)) = word_of_nat i"
    using Suc.prems(3) unfolding list_rep_def by (metis diff_zero length_map length_upt of_nat_unat ucast_id)
  then have af: "LSIDX_AFTAIL (fl_list (km_fl s1 page)) = word_of_nat (Suc i)" by (simp add: LSIDX_AFTAIL_def fl1)
  have tk: "take i [0..<i] @ i # drop i [0..<i] = [0..<Suc i]" by simp
  have "\<forall>j < Suc i. nd_data (km_heap t (slot page k j)) = Some (slot page k j + 8)"
    using t(5) hp Suc.prems(4) by (auto simp: less_Suc_eq) (simp add: s1_def)
  then obtain u where u: "fmt_loop page type_size (slot page k (Suc i)) n t = Inr u" "off_page page t u"
    "ls_null (fl_list (km_fl u page)) = page + 4" "list_rep (km_heap u) (fl_list (km_fl u page)) (map (slot page k) [0..<room k])"
    "\<forall>j < room k. nd_data (km_heap u (slot page k j)) = Some (slot page k j + 8)"
    "(km_fl u page)\<lparr>fl_list := fl_list (km_fl t page)\<rparr> = km_fl t page"
    using Suc.IH [of "Suc i" t] Suc.prems(1) t(3,4) unfolding tk by auto
  have "fmt_loop page type_size ?p (Suc n) s = bindr (fl_insert page ?p (LSIDX_AFTAIL (fl_list (km_fl s1 page))) s1)
      (fmt_loop page type_size (slot page k (Suc i)) n)"
    by (simp add: s1_def SIZEOF_NODE_def node_set_def ts slot_Suc Let_def)
  then have "fmt_loop page type_size ?p (Suc n) s = Inr u" using t(1) u(1) unfolding af by simp
  moreover have "(km_fl u page)\<lparr>fl_list := fl_list (km_fl s page)\<rparr> = km_fl s page"
  proof -
    have "(km_fl u page)\<lparr>fl_list := fl_list (km_fl s page)\<rparr>
        = ((km_fl u page)\<lparr>fl_list := fl_list (km_fl t page)\<rparr>)\<lparr>fl_list := fl_list (km_fl s page)\<rparr>" by simp
    also have "\<dots> = (km_fl t page)\<lparr>fl_list := fl_list (km_fl s1 page)\<rparr>" by (simp only: u(6) fl1)
    finally show ?thesis using t(6) unfolding fl1 by (rule trans)
  qed
  moreover have "off_page page s u" by (rule off_page_trans [OF off1 off_page_trans [OF t(2) u(2)]])
  ultimately show ?case using u(3-5) by blast
qed

lemma fmtlist_init_ok:
  assumes ok: "page_addr page" and k: "8 < k" "k \<le> 1032" and sz: "type_size = word_of_nat (k - 8)"
  shows "\<exists>t. fmtlist_init (Some page) type_size s = Inr t \<and> fl_ok t page k [0..<room k] \<and> off_page page s t
    \<and> fl_next (km_fl t page) = None"
proof -
  have u: "unat type_size = k - 8" unfolding sz by (rule unat_word_of_nat_32) (use k in simp)
  have es: "SIZEOF_NODE + type_size = word_of_nat k" using k by (simp add: sz SIZEOF_NODE_def of_nat_diff)
  have uk: "unat (word_of_nat k :: u32) = k" using k by (intro unat_word_of_nat_32) simp
  then have ne: "(word_of_nat k :: u32) \<noteq> 0" using k by (metis not_less_zero unat_0)
  have cap_max: "(PGSIZE - SIZEOF_FMTLIST) div word_of_nat k = word_of_nat (room k)"
  proof -
    have "unat ((4068 :: u32) div word_of_nat k) = room k" by (simp add: unat_div uk room_def)
    then have "(4068 :: u32) div word_of_nat k = word_of_nat (room k)" by (metis of_nat_unat ucast_id)
    then show ?thesis by (simp add: PGSIZE_def SIZEOF_FMTLIST_def)
  qed
  have ur: "unat (word_of_nat (room k) :: u32) = room k" using room_pos [OF k] by (intro unat_word_of_nat_32) simp
  define f where "f = \<lparr>fl_type_size = type_size, fl_list = \<lparr>ls_null = page + 4, ls_size = 0\<rparr>,
      fl_first_off = 28, fl_capacity = word_of_nat (room k), fl_next = None\<rparr>"
  define s1 where "s1 = set_fl page f (s\<lparr>km_heap := (km_heap s)(page + 4 := \<lparr>nd_data = None, nd_next = None\<rparr>)\<rparr>)"
  have pd: "PGDOWN page PGSIZE = page" using ok by (simp add: page_addr_def)
  have run: "fmtlist_init (Some page) type_size s = fmt_loop page type_size (slot page k 0) (room k) s1"
    unfolding fmtlist_init_def Let_def
    by (simp add: pd es ne cap_max [unfolded SIZEOF_FMTLIST_def] ur list_init_def f_def s1_def slot_def SIZEOF_FMTLIST_def set_fl_def)
  have off1: "off_page page s s1" using list_head_addr(2,3) [OF ok] by (auto simp: off_page_def s1_def set_fl_def)
  have "fl_list (km_fl s1 page) = \<lparr>ls_null = page + 4, ls_size = 0\<rparr>" "km_fl s1 page = f" by (simp_all add: s1_def set_fl_def f_def)
  moreover have "list_rep (km_heap s1) \<lparr>ls_null = page + 4, ls_size = 0\<rparr> []" by (simp add: list_rep_def s1_def set_fl_def)
  ultimately obtain t where t: "fmt_loop page type_size (slot page k 0) (room k) s1 = Inr t" "off_page page s1 t"
    "ls_null (fl_list (km_fl t page)) = page + 4" "list_rep (km_heap t) (fl_list (km_fl t page)) (map (slot page k) [0..<room k])"
    "\<forall>j < room k. nd_data (km_heap t (slot page k j)) = Some (slot page k j + 8)"
    "(km_fl t page)\<lparr>fl_list := fl_list (km_fl s1 page)\<rparr> = f"
    using fmt_loop_ok [OF ok k u, of 0 "room k" s1] by auto
  have "fl_type_size (km_fl t page) = type_size" "fl_capacity (km_fl t page) = word_of_nat (room k)" "fl_next (km_fl t page) = None"
    using arg_cong [OF t(6), of fl_type_size] arg_cong [OF t(6), of fl_capacity] arg_cong [OF t(6), of fl_next] by (simp_all add: f_def)
  then show ?thesis using t run ok k off_page_trans [OF off1 t(2)] by (intro exI [of _ t]) (auto simp: fl_ok_def sz)
qed

subsection \<open>Taking and giving back an element\<close>

lemma MAX_CHAIN_Suc: "\<exists>n. MAX_CHAIN = Suc n"
  by (simp add: MAX_CHAIN_def) 

lemma fmtlist_alloc_first:
  assumes "fl_ok s page k (i # xs)"
  shows "\<exists>t. fmtlist_alloc (Some page) sz s = Inr (Some (slot page k i + 8), Some page, t) \<and> fl_ok t page k xs
    \<and> off_page page s t \<and> fl_next (km_fl t page) = fl_next (km_fl s page) \<and> km_va t = km_va s \<and> km_vs t = km_vs s
    \<and> (\<forall>a. nd_data (km_heap t a) = nd_data (km_heap s a))
    \<and> (\<forall>a. a \<notin> set ((page + 4) # map (slot page k) (i # xs)) \<longrightarrow> km_heap t a = km_heap s a)"
proof -
  obtain n where n: "MAX_CHAIN = Suc n" using MAX_CHAIN_Suc by blast
  have "list_isempty (Some (fl_list (km_fl s page))) = Inr False"
    using list_isempty_rep assms unfolding fl_ok_def by fastforce
  then show ?thesis using fl_remove_first [OF assms] by (auto simp: fmtlist_alloc_def n)
qed

text \<open>With an empty chain a fresh page is taken, mapped and cut up.\<close>

lemma fmtlist_alloc_fresh:
  assumes new: "new_kern_page s = Inr (page, s1)" and ok: "page_addr page" and k: "8 < k" "k \<le> 1032"
  shows "\<exists>t. fmtlist_alloc None (word_of_nat (k - 8)) s = Inr (Some (slot page k 0 + 8), Some page, t)
    \<and> fl_ok t page k [1..<room k] \<and> off_page page s1 t \<and> fl_next (km_fl t page) = None"
proof -
  obtain n where n: "MAX_CHAIN = Suc n" using MAX_CHAIN_Suc by blast
  obtain u where u: "fmtlist_init (Some page) (word_of_nat (k - 8)) s1 = Inr u" "fl_ok u page k [0..<room k]" "off_page page s1 u"
    "fl_next (km_fl u page) = None" using fmtlist_init_ok [OF ok k refl] by blast
  have "[0..<room k] = 0 # [1..<room k]" using room_pos [OF k] by (simp add: upt_conv_Cons)
  then obtain t where t: "fl_remove page 1 u = Inr (Some (slot page k 0 + 8), t)" "fl_ok t page k [1..<room k]" "off_page page u t"
    "fl_next (km_fl t page) = fl_next (km_fl u page)" using fl_remove_first [of u page k 0 "[1..<room k]"] u(2) by auto
  have "fmtlist_alloc None (word_of_nat (k - 8)) s = Inr (Some (slot page k 0 + 8), Some page, t)"
    using new u(1) t(1) by (simp add: fmtlist_alloc_def n)
  then show ?thesis using t(2-4) off_page_trans [OF u(3) t(3)] u(4) by auto
qed

lemma unat_PG: "unat (PG x) = unat x div 4096 * 4096"
proof -
  have "PG x = push_bit 12 (drop_bit 12 x)"
    unfolding PG_def consts_mask(3) by (rule bit_word_eqI) (auto simp: bit_simps)
  also have "\<dots> = drop_bit 12 x * 4096" by (simp add: push_bit_eq_mult)
  finally have "unat (PG x) = (unat (drop_bit 12 x) * 4096) mod 4294967296" by (simp add: unat_word_ariths)
  moreover have "unat (drop_bit 12 x) = unat x div 4096" by (simp add: drop_bit_eq_div unat_div)
  moreover have "unat x div 4096 * 4096 < 4294967296" using unat_lt_2p32 [of x] by (metis div_times_less_eq_dividend le_less_trans)
  ultimately show ?thesis by simp
qed

lemma pgdown_elem:
  assumes "page_addr page" and "i < room k" and "8 < k"
  shows "PGDOWN (slot page k i + 8) PGSIZE = page"
proof -
  have d: "36 + i * k < 4096" using room_bound [OF assms(2)] assms(3) by linarith
  define q where "q = unat page div 4096"
  have "PG page = page" using assms(1) by (simp add: page_addr_def PGDOWN_page)
  then have p: "unat page = q * 4096" using unat_PG [of page] by (simp only: q_def)
  have "unat (slot page k i + 8) = q * 4096 + (36 + i * k)"
    using elem_unat [OF assms(1,2) less_imp_le [OF assms(3)]] unfolding p by simp
  then have "unat (PG (slot page k i + 8)) = (q * 4096 + (36 + i * k)) div 4096 * 4096" by (simp only: unat_PG)
  also have "(q * 4096 + (36 + i * k)) div 4096 = q" using d by simp
  finally have "unat (PG (slot page k i + 8)) = unat page" by (simp only: p)
  then show ?thesis unfolding PGDOWN_page by (rule word_unat_eq_iff [THEN iffD2])
qed

lemma fmtlist_release_first:
  assumes fl: "fl_ok s page k xs" and i: "i < room k" "i \<notin> set xs" and more: "Suc (length xs) < room k"
  shows "\<exists>t. fmtlist_release (Some page) (Some (slot page k i + 8)) (word_of_nat (k - 8)) s = Inr (True, Some page, t)
    \<and> fl_ok t page k (i # xs) \<and> off_page page s t \<and> fl_next (km_fl t page) = fl_next (km_fl s page)
    \<and> km_heap t (slot page k i + 8) = \<lparr>nd_data = Some 0, nd_next = Some 0\<rparr>
    \<and> (\<forall>x. \<not> in_range (slot page k i) k x \<longrightarrow> km_va t x = km_va s x \<and> km_vs t x = km_vs s x
        \<and> (x \<notin> set ((page + 4) # map (slot page k) xs) \<longrightarrow> km_heap t x = km_heap s x))"
proof -
  have ok: "page_addr page" and k: "8 < k" "k \<le> 1032" and l: "ls_null (fl_list (km_fl s page)) = page + 4"
    "list_rep (km_heap s) (fl_list (km_fl s page)) (map (slot page k) xs)" and xs: "set xs \<subseteq> {..<room k}"
    and ts: "fl_type_size (km_fl s page) = word_of_nat (k - 8)" and cap_max: "fl_capacity (km_fl s page) = word_of_nat (room k)"
    and dt: "\<forall>i \<in> set xs. nd_data (km_heap s (slot page k i)) = Some (slot page k i + 8)" using fl by (simp_all add: fl_ok_def)
  have k8: "8 \<le> k" using k by simp
  let ?p = "slot page k i"
  have es: "unat (SIZEOF_NODE + word_of_nat (k - 8)) = k"
    using k by (simp add: SIZEOF_NODE_def of_nat_diff unat_word_of_nat_32)
  define s1 where "s1 = zero_mem ?p k s"
  define s2 where "s2 = s1\<lparr>km_heap := (km_heap s1)(?p := (km_heap s1 ?p)\<lparr>nd_data := Some (?p + 8)\<rparr>)\<rparr>"
  have up: "unat ?p = unat page + 28 + i * k" using unat_slot [OF ok, of i k] i(1) by simp
  have nz: "\<not> in_range ?p k (slot page k j)" "slot page k j \<noteq> ?p" if "j \<in> set xs" for j
  proof -
    have j: "j < room k" "j \<noteq> i" using that xs i(2) by auto
    show "slot page k j \<noteq> ?p" using slot_inj [OF ok, of k j i] j i(1) k by auto
    have uj: "unat (slot page k j) = unat page + 28 + j * k" using unat_slot [OF ok, of j k] j(1) by simp
    consider "j < i" | "i < j" using j(2) by linarith
    then show "\<not> in_range ?p k (slot page k j)"
      using mult_gap [of j i k] mult_gap [of i j k] k8 up uj by cases (simp_all add: in_range_def)
  qed
  have hd_out: "\<not> in_range ?p k page" "\<not> in_range ?p k (page + 4)" "page + 4 \<noteq> ?p"
    using head_not_in_elem(2) [OF ok i(1) k8] list_head_addr(1) [OF ok] up by auto
  have fl2: "km_fl s2 page = km_fl s page" using hd_out by (simp add: s2_def s1_def zero_mem_def)
  have hp: "km_heap s2 x = km_heap s x" if "x \<in> set ((page + 4) # map (slot page k) xs)" for x
    using that nz hd_out by (auto simp: s2_def s1_def zero_mem_def)
  then have nx: "nd_next (km_heap s2 x) = nd_next (km_heap s x)" if "x \<in> set ((page + 4) # map (slot page k) xs)" for x
    using that by simp
  have rep2: "list_rep (km_heap s2) (fl_list (km_fl s2 page)) (map (slot page k) xs)" "ls_null (fl_list (km_fl s2 page)) = page + 4"
    using l list_rep_frame [of "fl_list (km_fl s page)" "map (slot page k) xs" "km_heap s2" "km_heap s"] nx unfolding fl2 by simp_all
  have off2: "off_page page s s2" using slot_in_page [OF ok i(1) k8] by (auto simp: off_page_def s2_def s1_def zero_mem_def)
  have r452: "room k \<le> 452" using room_pos [OF k] by simp
  obtain t where t: "fl_insert page ?p 1 s2 = Inr t" "off_page page s2 t" "ls_null (fl_list (km_fl t page)) = page + 4"
    "list_rep (km_heap t) (fl_list (km_fl t page)) (map (slot page k) (i # xs))" "\<forall>a. nd_data (km_heap t a) = nd_data (km_heap s2 a)"
    "(km_fl t page)\<lparr>fl_list := fl_list (km_fl s2 page)\<rparr> = km_fl s2 page" "km_va t = km_va s2" "km_vs t = km_vs s2"
    "\<forall>a. a \<notin> set ((page + 4) # ?p # map (slot page k) xs) \<longrightarrow> km_heap t a = km_heap s2 a"
    using fl_insert_at [OF ok k(1) _ _ i rep2(2,1) xs, of 0] more r452 by auto
  have ei: "in_range ?p k (?p + 8)" "?p + 8 \<noteq> page + 4" "?p + 8 \<noteq> slot page k j" if "j < room k" for j
  proof -
    show "in_range ?p k (?p + 8)" using elem_unat [OF ok i(1) k8] up k(1) by (simp add: in_range_def)
    have "unat (?p + 8) \<noteq> unat (page + 4)" using elem_unat [OF ok i(1) k8] list_head_addr(1) [OF ok] by linarith
    then show "?p + 8 \<noteq> page + 4" by (rule contrapos_nn) (rule arg_cong)
    show "?p + 8 \<noteq> slot page k j" using elem_not_slot [OF ok i(1) that k(1)] .
  qed
  have z8: "km_heap t (?p + 8) = \<lparr>nd_data = Some 0, nd_next = Some 0\<rparr>"
  proof -
    have "?p + 8 \<notin> set ((page + 4) # ?p # map (slot page k) xs)" using ei i(1) xs by auto
    then have "km_heap t (?p + 8) = km_heap s2 (?p + 8)" using t(9) by blast
    then show ?thesis using ei(1,3) [OF i(1)] by (simp add: s2_def s1_def zero_mem_def)
  qed
  have far: "km_va t x = km_va s x \<and> km_vs t x = km_vs s x
      \<and> (x \<notin> set ((page + 4) # map (slot page k) xs) \<longrightarrow> km_heap t x = km_heap s x)" if x: "\<not> in_range ?p k x" for x
  proof -
    have "x \<noteq> ?p" using x k by (auto simp: in_range_def)
    then show ?thesis using x t(7-9) by (auto simp: s2_def s1_def zero_mem_def)
  qed
  have eq: "fl_type_size (km_fl t page) = word_of_nat (k - 8)" "fl_capacity (km_fl t page) = word_of_nat (room k)"
    "fl_next (km_fl t page) = fl_next (km_fl s page)"
    using arg_cong [OF t(6), of fl_type_size] arg_cong [OF t(6), of fl_capacity] arg_cong [OF t(6), of fl_next] ts cap_max
    by (simp_all add: fl2)
  have "unat (ls_size (fl_list (km_fl t page))) = Suc (length xs)" using t(4) by (simp add: list_rep_def)
  moreover have "unat (word_of_nat (room k) :: u32) = room k" using r452 by (intro unat_word_of_nat_32) simp
  ultimately have full: "ls_size (fl_list (km_fl t page)) \<noteq> fl_capacity (km_fl t page)" using more eq(2) by auto
  obtain n where n: "MAX_CHAIN = Suc n" using MAX_CHAIN_Suc by blast
  have "fmtlist_release (Some page) (Some (?p + 8)) (word_of_nat (k - 8)) s = Inr (True, Some page, t)"
    using t(1) full pgdown_elem [OF ok i(1) k(1)] es
    by (simp add: fmtlist_release_def n ts SIZEOF_NODE_def Let_def s2_def s1_def)
  moreover have "\<forall>j \<in> set (i # xs). nd_data (km_heap t (slot page k j)) = Some (slot page k j + 8)"
    using t(5) dt hp by (auto simp: s2_def)
  ultimately show ?thesis
    using t(3,4) eq off_page_trans [OF off2 t(2)] ok k xs i(1) z8 far by (intro exI [of _ t]) (auto simp: fl_ok_def)
qed

subsection \<open>Properties\<close>

text \<open>\<open>n\<close> allocations from the same chain, the last result first.\<close>

fun alloc_many :: "nat \<Rightarrow> u32 option \<Rightarrow> u32 \<Rightarrow> kmem \<Rightarrow> (u32 option list \<times> u32 option \<times> kmem) res" where
  "alloc_many 0 head sz s = Inr ([], head, s)"
| "alloc_many (Suc n) head sz s =
     bindr (fmtlist_alloc head sz s) (\<lambda>(e, head, s).
     bindr (alloc_many n head sz s) (\<lambda>(es, head, s). Inr (e # es, head, s)))"

lemma alloc_many_ok:
  "fl_ok s page k xs \<Longrightarrow> n \<le> length xs \<Longrightarrow> \<exists>t. alloc_many n (Some page) sz s
    = Inr (map (\<lambda>i. Some (slot page k i + 8)) (take n xs), Some page, t) \<and> fl_ok t page k (drop n xs) \<and> off_page page s t"
proof (induction n arbitrary: s xs)
  case (Suc n)
  then obtain i ys where xs: "xs = i # ys" by (cases xs) auto
  obtain t where t: "fmtlist_alloc (Some page) sz s = Inr (Some (slot page k i + 8), Some page, t)" "fl_ok t page k ys" "off_page page s t"
    using fmtlist_alloc_first [of s page k i ys sz] Suc.prems(1) xs by blast
  obtain u where "alloc_many n (Some page) sz t = Inr (map (\<lambda>i. Some (slot page k i + 8)) (take n ys), Some page, u)"
    "fl_ok u page k (drop n ys)" "off_page page t u" using Suc.IH [OF t(2)] Suc.prems(2) xs by auto
  then show ?case using t off_page_trans [OF t(3)] xs by auto
qed simp

lemma elems_disjoint:
  assumes "page_addr page" and "i < room k" and "j < room k" and "i \<noteq> j" and "8 < k"
  shows "unat (slot page k i + 8) + (k - 8) \<le> unat (slot page k j + 8) \<or> unat (slot page k j + 8) + (k - 8) \<le> unat (slot page k i + 8)"
proof -
  have k8: "8 \<le> k" using assms(5) by simp
  consider "i < j" | "j < i" using assms(4) by linarith
  then show ?thesis
    using mult_gap [of i j k] mult_gap [of j i k] elem_unat [OF assms(1,2) k8] elem_unat [OF assms(1,3) k8] by cases linarith+
qed

text \<open>C18: A page is cut into elements that do not overlap. fmtlist_init turns any page into a format list of
  4068 / (size + 8) free elements (for sizes up to 1024); so many calls of fmtlist_alloc on it
  return addresses of elements that lie inside the page, behind its header, and are pairwise
  disjoint; and nothing outside the page changes.\<close>
theorem fmtlist_elements:
  assumes "page_addr page" and "0 < size_e" and "size_e \<le> 1024" and "n \<le> 4068 div (size_e + 8)"
  shows "\<exists>s1 t es. fmtlist_init (Some page) (word_of_nat size_e) s = Inr s1
    \<and> alloc_many n (Some page) (word_of_nat size_e) s1 = Inr (map Some es, Some page, t) \<and> length es = n
    \<and> (\<forall>e \<in> set es. unat page + 28 < unat e \<and> unat e + size_e \<le> unat page + 4096)
    \<and> (\<forall>i < n. \<forall>j < n. i \<noteq> j \<longrightarrow> unat (es ! i) + size_e \<le> unat (es ! j) \<or> unat (es ! j) + size_e \<le> unat (es ! i))
    \<and> off_page page s t"
proof -
  define k where "k = size_e + 8"
  have k: "8 < k" "k \<le> 1032" "size_e = k - 8" and n: "n \<le> room k" using assms by (simp_all add: k_def room_def)
  obtain s1 where s1: "fmtlist_init (Some page) (word_of_nat size_e) s = Inr s1" "fl_ok s1 page k [0..<room k]" "off_page page s s1"
    using fmtlist_init_ok [OF assms(1) k(1,2), of "word_of_nat size_e" s] k(3) by auto
  define es where "es = map (\<lambda>i. slot page k i + 8) [0..<n]"
  obtain t where t: "alloc_many n (Some page) (word_of_nat size_e) s1 = Inr (map Some es, Some page, t)" "off_page page s1 t"
    using alloc_many_ok [OF s1(2), of n "word_of_nat size_e"] n by (auto simp: es_def comp_def)
  have nth: "es ! i = slot page k i + 8" "i < room k" if "i < n" for i using that n by (simp_all add: es_def)
  have "unat page + 28 < unat e \<and> unat e + size_e \<le> unat page + 4096" if e: "e \<in> set es" for e
  proof -
    obtain i where i: "i < n" "e = slot page k i + 8" using e by (auto simp: es_def)
    have "i < room k" using i(1) n by simp
    then show ?thesis using elem_unat [OF assms(1) \<open>i < room k\<close> less_imp_le [OF k(1)]] room_bound [of i k] i(2) k(3) k(1) by simp
  qed
  moreover have "unat (es ! i) + size_e \<le> unat (es ! j) \<or> unat (es ! j) + size_e \<le> unat (es ! i)" if "i < n" "j < n" "i \<noteq> j" for i j
    unfolding nth(1) [OF that(1)] nth(1) [OF that(2)] k(3) by (rule elems_disjoint [OF assms(1) nth(2) [OF that(1)] nth(2) [OF that(2)] that(3) k(1)])
  ultimately show ?thesis
    using s1(1) t(1) off_page_trans [OF s1(3) t(2)] by (intro exI [of _ s1] exI [of _ t] exI [of _ es]) (auto simp: es_def)
qed

definition vmk_sample :: vmk where
  "vmk_sample = \<lparr>vm_spinlock = unlocked, bm_virmm = \<lparr>len_inbits = 64504, bm_buff = replicate 8063 0, prev_free = 0\<rparr>\<rparr>"

definition kmem_sample :: kmem where
  "kmem_sample = \<lparr>km_mach = mc_sample, km_kern = vmk_sample, km_heap = (\<lambda>_. \<lparr>nd_data = Some 0, nd_next = Some 0\<rparr>),
     km_fl = (\<lambda>x. \<lparr>fl_type_size = 0, fl_list = \<lparr>ls_null = x + 4, ls_size = 0\<rparr>, fl_first_off = 0, fl_capacity = 0, fl_next = Some 0\<rparr>),
     km_va = (\<lambda>_. \<lparr>va_va = 0, va_length = 0\<rparr>),
     km_vs = (\<lambda>x. \<lparr>vs_list = \<lparr>ls_null = x, ls_size = 0\<rparr>, vs_begin = 0, vs_end = 0, vs_next = Some 0\<rparr>),
     meta_vs = None, meta_node = None, meta_va = None, sl_vs = unlocked, sl_ata = unlocked, sl_va = unlocked\<rparr>"

lemma page_addr_sample: "page_addr 0xf0000000" "page_addr 0xf0001000" "page_addr 0xf0002000"
  by (simp_all add: page_addr_def PGDOWN_def PGSIZE_def)

theorem fmtlist_elements_witness:
  "\<exists>s1 t es. fmtlist_init (Some 0xf0000000) 8 kmem_sample = Inr s1
    \<and> alloc_many 254 (Some 0xf0000000) 8 s1 = Inr (map Some es, Some 0xf0000000, t)
    \<and> (unat (es ! 3) + 8 \<le> unat (es ! 4) \<or> unat (es ! 4) + 8 \<le> unat (es ! 3))"
  using fmtlist_elements [OF page_addr_sample(1), of 8 254 kmem_sample] by fastforce

end
