(* ===== verification/Vspace_Props.thy ===== *)
theory Vspace_Props
  imports Vspace Format_Pages
begin

section \<open>Properties of the virtual address spaces\<close>

text \<open>
  The invariant of a task's address space while its metadata comes from three pages, and what
  vir_alloc_pages and vir_release_pages do with it.
\<close>

subsection \<open>The three pages of metadata\<close>

definition elem :: "u32 \<Rightarrow> nat \<Rightarrow> nat \<Rightarrow> u32" where
  "elem page k i = slot page k i + 8"

definition meta_page :: "kmem \<Rightarrow> u32 \<Rightarrow> nat \<Rightarrow> nat list \<Rightarrow> bool" where
  "meta_page s p k xs \<longleftrightarrow> fl_ok s p k xs \<and> fl_next (km_fl s p) = None \<and> KERN_METADATA \<le> p"

definition meta_ok :: "kmem \<Rightarrow> u32 \<Rightarrow> u32 \<Rightarrow> u32 \<Rightarrow> nat list \<Rightarrow> nat list \<Rightarrow> nat list \<Rightarrow> bool" where
  "meta_ok s pv pn pa vxs nxs axs \<longleftrightarrow> meta_page s pv 32 vxs \<and> meta_page s pn 16 nxs \<and> meta_page s pa 16 axs
     \<and> meta_vs s = Some pv \<and> meta_node s = Some pn \<and> meta_va s = Some pa
     \<and> sl_vs s = unlocked \<and> sl_ata s = unlocked \<and> sl_va s = unlocked \<and> pv \<noteq> pn \<and> pv \<noteq> pa \<and> pn \<noteq> pa"

lemma pages_apart:
  assumes "page_addr p" and "page_addr q" and "p \<noteq> q"
  shows "\<not> (in_range p 4096 x \<and> in_range q 4096 x)"
proof
  assume x: "in_range p 4096 x \<and> in_range q 4096 x"
  have m: "unat r div 4096 * 4096 = unat r" if "page_addr r" for r
    using unat_PG [of r] that by (simp only: page_addr_def PGDOWN_page)
  have "unat p div 4096 = unat q div 4096" using x m [OF assms(1)] m [OF assms(2)] unfolding in_range_def by linarith
  then have "unat p = unat q" using m [OF assms(1)] m [OF assms(2)] by metis
  then show False using assms(3) by (simp add: word_unat_eq_iff)
qed

text \<open>The addresses that the bookkeeping of a page uses.\<close>

definition book :: "u32 \<Rightarrow> nat \<Rightarrow> u32 set" where
  "book p k = insert (p + 4) (slot p k ` {..<room k})"

lemma book_in_page: "page_addr p \<Longrightarrow> 8 < k \<Longrightarrow> x \<in> book p k \<Longrightarrow> in_range p 4096 x"
  using list_head_addr(3) slot_in_page(1) by (auto simp: book_def)

lemma elem_in_page: "page_addr p \<Longrightarrow> 8 < k \<Longrightarrow> i < room k \<Longrightarrow> in_range p 4096 (elem p k i)"
  using elem_unat [of p i k] room_bound [of i k] by (simp add: elem_def in_range_def)

lemma elem_not_book:
  assumes "page_addr p" and "8 < k" and "i < room k"
  shows "elem p k i \<notin> book p k"
proof -
  have "unat (elem p k i) \<noteq> unat (p + 4)"
    using elem_unat [OF assms(1,3) less_imp_le [OF assms(2)]] list_head_addr(1) [OF assms(1)] unfolding elem_def by linarith
  then have "elem p k i \<noteq> p + 4" by (rule contrapos_nn) (rule arg_cong)
  moreover have "elem p k i \<noteq> slot p k j" if "j < room k" for j using elem_not_slot [OF assms(1,3) that assms(2)] by (simp add: elem_def)
  ultimately show ?thesis by (auto simp: book_def)
qed

lemma elem_inj: "page_addr p \<Longrightarrow> 0 < k \<Longrightarrow> i < room k \<Longrightarrow> j < room k \<Longrightarrow> elem p k i = elem p k j \<Longrightarrow> i = j"
  using slot_inj [of p k i j] by (simp add: elem_def)

lemma fl_ok_frame:
  assumes fl: "fl_ok s p k xs" and q: "page_addr q" "p \<noteq> q" and off: "off_page q s t"
  shows "fl_ok t p k xs" and "km_fl t p = km_fl s p"
proof -
  have p: "page_addr p" "8 < k" "set xs \<subseteq> {..<room k}" "ls_null (fl_list (km_fl s p)) = p + 4" using fl by (simp_all add: fl_ok_def)
  have out: "\<not> in_range q 4096 x" if "in_range p 4096 x" for x using pages_apart [OF p(1) q(1,2)] that by blast
  have hp: "km_heap t x = km_heap s x" if "x \<in> book p k" for x
    using off out book_in_page [OF p(1,2) that] by (simp add: off_page_def)
  show f: "km_fl t p = km_fl s p" using off out list_head_addr(2) [OF p(1)] by (simp add: off_page_def)
  have "nd_next (km_heap t x) = nd_next (km_heap s x)" if "x \<in> set (ls_null (fl_list (km_fl s p)) # map (slot p k) xs)" for x
    using that hp p(3,4) by (auto simp: book_def)
  then have "list_rep (km_heap t) (fl_list (km_fl s p)) (map (slot p k) xs)"
    using list_rep_frame [of "fl_list (km_fl s p)" "map (slot p k) xs" "km_heap t" "km_heap s"] fl by (simp add: fl_ok_def)
  moreover have "\<forall>i \<in> set xs. km_heap t (slot p k i) = km_heap s (slot p k i)" using hp p(3) by (auto simp: book_def)
  ultimately show "fl_ok t p k xs" using fl f by (simp add: fl_ok_def)
qed

lemma meta_page_frame:
  "meta_page s p k xs \<Longrightarrow> page_addr q \<Longrightarrow> p \<noteq> q \<Longrightarrow> off_page q s t \<Longrightarrow> meta_page t p k xs"
  using fl_ok_frame [of s p k xs q t] by (simp add: meta_page_def)

text \<open>Writing to memory that is not bookkeeping leaves the pages as they are.\<close>

lemma fl_ok_heap:
  assumes fl: "fl_ok s p k xs" and "\<And>x. x \<in> book p k \<Longrightarrow> km_heap t x = km_heap s x" and "km_fl t = km_fl s"
  shows "fl_ok t p k xs"
proof -
  have p: "set xs \<subseteq> {..<room k}" "ls_null (fl_list (km_fl s p)) = p + 4" using fl by (simp_all add: fl_ok_def)
  have "nd_next (km_heap t x) = nd_next (km_heap s x)" if "x \<in> set (ls_null (fl_list (km_fl s p)) # map (slot p k) xs)" for x
    using that assms(2) p by (auto simp: book_def)
  then have "list_rep (km_heap t) (fl_list (km_fl s p)) (map (slot p k) xs)"
    using list_rep_frame [of "fl_list (km_fl s p)" "map (slot p k) xs" "km_heap t" "km_heap s"] fl by (simp add: fl_ok_def)
  moreover have "\<forall>i \<in> set xs. km_heap t (slot p k i) = km_heap s (slot p k i)" using assms(2) p by (auto simp: book_def)
  ultimately show ?thesis using fl assms(3) by (simp add: fl_ok_def)
qed

definition books :: "u32 \<Rightarrow> u32 \<Rightarrow> u32 \<Rightarrow> u32 set" where
  "books pv pn pa = book pv 32 \<union> book pn 16 \<union> book pa 16"

lemma meta_ok_heap:
  assumes "meta_ok s pv pn pa vxs nxs axs" and "\<And>x. x \<in> books pv pn pa \<Longrightarrow> km_heap t x = km_heap s x"
    and "km_fl t = km_fl s" "meta_vs t = meta_vs s" "meta_node t = meta_node s" "meta_va t = meta_va s"
      "sl_vs t = sl_vs s" "sl_ata t = sl_ata s" "sl_va t = sl_va s"
  shows "meta_ok t pv pn pa vxs nxs axs"
  using assms fl_ok_heap [of s _ _ _ t] by (simp add: meta_ok_def meta_page_def books_def)

lemma meta_okD:
  assumes "meta_ok s pv pn pa vxs nxs axs"
  shows "page_addr pv" "page_addr pn" "page_addr pa" "fl_ok s pv 32 vxs" "fl_ok s pn 16 nxs" "fl_ok s pa 16 axs"
    "pv \<noteq> pn" "pv \<noteq> pa" "pn \<noteq> pa"
  using assms by (simp_all add: meta_ok_def meta_page_def fl_ok_def)

lemma elem_not_books:
  assumes "meta_ok s pv pn pa vxs nxs axs"
  shows "i < room 32 \<Longrightarrow> elem pv 32 i \<notin> books pv pn pa" "i < room 16 \<Longrightarrow> elem pn 16 i \<notin> books pv pn pa"
    "i < room 16 \<Longrightarrow> elem pa 16 i \<notin> books pv pn pa"
proof -
  note d = meta_okD [OF assms]
  have "elem p k i \<notin> book q l" if "page_addr p" "page_addr q" "p \<noteq> q" "8 < k" "8 < l" "i < room k" for p q k l i
    using pages_apart [OF that(1-3)] elem_in_page [OF that(1,4,6)] book_in_page [OF that(2,5)] by blast
  then show "i < room 32 \<Longrightarrow> elem pv 32 i \<notin> books pv pn pa" "i < room 16 \<Longrightarrow> elem pn 16 i \<notin> books pv pn pa"
    "i < room 16 \<Longrightarrow> elem pa 16 i \<notin> books pv pn pa"
    using d elem_not_book unfolding books_def by (metis UnE numeral_less_iff semiring_norm(76,77,78,80,81))+
qed

text \<open>What an allocation of metadata changes: the bookkeeping, and nothing else.\<close>

definition only_books :: "u32 set \<Rightarrow> kmem \<Rightarrow> kmem \<Rightarrow> bool" where
  "only_books b s t \<longleftrightarrow> km_va t = km_va s \<and> km_vs t = km_vs s \<and> (\<forall>a. a \<notin> b \<longrightarrow> km_heap t a = km_heap s a)
     \<and> km_mach t = km_mach s \<and> km_kern t = km_kern s"

lemma only_books_trans: "only_books b s t \<Longrightarrow> only_books b t u \<Longrightarrow> only_books b s u"
  by (simp add: only_books_def)

lemma fl_alloc_books:
  assumes "meta_page s p k (i # xs)"
  shows "\<exists>t. fmtlist_alloc (Some p) sz s = Inr (Some (elem p k i), Some p, t) \<and> meta_page t p k xs
    \<and> off_page p s t \<and> only_books (book p k) s t"
proof -
  have fl: "fl_ok s p k (i # xs)" and pk: "8 < k" "set (i # xs) \<subseteq> {..<room k}" using assms by (auto simp: meta_page_def fl_ok_def)
  obtain t where t: "fmtlist_alloc (Some p) sz s = Inr (Some (slot p k i + 8), Some p, t)" "fl_ok t p k xs" "off_page p s t"
    "fl_next (km_fl t p) = fl_next (km_fl s p)" "km_va t = km_va s" "km_vs t = km_vs s"
    "\<forall>a. a \<notin> set ((p + 4) # map (slot p k) (i # xs)) \<longrightarrow> km_heap t a = km_heap s a"
    using fmtlist_alloc_first [OF fl, of sz] by blast
  have "set ((p + 4) # map (slot p k) (i # xs)) \<subseteq> book p k" using pk(2) by (auto simp: book_def)
  then have "\<forall>a. a \<notin> book p k \<longrightarrow> km_heap t a = km_heap s a" using t(7) by blast
  then have "only_books (book p k) s t" using t(3,5,6) by (simp add: only_books_def off_page_def)
  then show ?thesis using t assms by (simp add: meta_page_def elem_def)
qed

lemma off_page_meta: "off_page p s t \<Longrightarrow> meta_vs t = meta_vs s \<and> meta_node t = meta_node s \<and> meta_va t = meta_va s
    \<and> sl_vs t = sl_vs s \<and> sl_ata t = sl_ata s \<and> sl_va t = sl_va s"
  by (simp add: off_page_def)

lemma unlock [simp]: "signal \<lparr>islock = 1\<rparr> = unlocked" "signal unlocked = unlocked"
  by (simp_all add: signal_def unlocked_def)

lemma node_alloc_ok:
  assumes "meta_ok s pv pn pa vxs (i # nxs) axs"
  shows "\<exists>t. node_alloc s = Inr (Some (elem pn 16 i), t) \<and> meta_ok t pv pn pa vxs nxs axs \<and> only_books (books pv pn pa) s t"
proof -
  note m = assms [unfolded meta_ok_def] and d = meta_okD [OF assms]
  define s1 where "s1 = s\<lparr>sl_ata := \<lparr>islock = 1\<rparr>\<rparr>"
  have mp: "meta_page s1 pv 32 vxs" "meta_page s1 pn 16 (i # nxs)" "meta_page s1 pa 16 axs"
    using m by (simp_all add: meta_page_def fl_ok_def s1_def)
  obtain t where t: "fmtlist_alloc (Some pn) SIZEOF_NODE s1 = Inr (Some (elem pn 16 i), Some pn, t)" "meta_page t pn 16 nxs"
    "off_page pn s1 t" "only_books (book pn 16) s1 t" using fl_alloc_books [OF mp(2)] by blast
  note om = off_page_meta [OF t(3)]
  have lk: "sl_ata t = \<lparr>islock = 1\<rparr>" using om by (simp add: s1_def)
  let ?u = "t\<lparr>meta_node := Some pn, sl_ata := unlocked\<rparr>"
  have run: "node_alloc s = Inr (Some (elem pn 16 i), ?u)"
    using m t(1) lk by (simp add: node_alloc_def s1_def)
  have "meta_page t pv 32 vxs" "meta_page t pa 16 axs"
    using meta_page_frame [OF mp(1) d(2) d(7) t(3)] meta_page_frame [OF mp(3) d(2) d(9) [symmetric] t(3)] .
  then have "meta_ok ?u pv pn pa vxs nxs axs" using t(2) om m by (simp add: meta_ok_def meta_page_def fl_ok_def s1_def)
  moreover have "only_books (books pv pn pa) s ?u" using t(4) by (simp add: only_books_def books_def s1_def)
  ultimately show ?thesis using run by blast
qed

lemma vaddr_alloc_ok:
  assumes "meta_ok s pv pn pa vxs nxs (i # axs)"
  shows "\<exists>t. vaddr_alloc s = Inr (Some (elem pa 16 i), t) \<and> meta_ok t pv pn pa vxs nxs axs \<and> only_books (books pv pn pa) s t"
proof -
  note m = assms [unfolded meta_ok_def] and d = meta_okD [OF assms]
  define s1 where "s1 = s\<lparr>sl_va := \<lparr>islock = 1\<rparr>\<rparr>"
  have mp: "meta_page s1 pv 32 vxs" "meta_page s1 pn 16 nxs" "meta_page s1 pa 16 (i # axs)"
    using m by (simp_all add: meta_page_def fl_ok_def s1_def)
  obtain t where t: "fmtlist_alloc (Some pa) SIZEOF_VADDR s1 = Inr (Some (elem pa 16 i), Some pa, t)" "meta_page t pa 16 axs"
    "off_page pa s1 t" "only_books (book pa 16) s1 t" using fl_alloc_books [OF mp(3)] by blast
  note om = off_page_meta [OF t(3)]
  have lk: "sl_va t = \<lparr>islock = 1\<rparr>" using om by (simp add: s1_def)
  let ?u = "t\<lparr>meta_va := Some pa, sl_va := unlocked\<rparr>"
  have run: "vaddr_alloc s = Inr (Some (elem pa 16 i), ?u)"
    using m t(1) lk by (simp add: vaddr_alloc_def s1_def)
  have "meta_page t pv 32 vxs" "meta_page t pn 16 nxs"
    using meta_page_frame [OF mp(1) d(3) d(8) t(3)] meta_page_frame [OF mp(2) d(3) d(9) t(3)] .
  then have "meta_ok ?u pv pn pa vxs nxs axs" using t(2) om m by (simp add: meta_ok_def meta_page_def fl_ok_def s1_def)
  moreover have "only_books (books pv pn pa) s ?u" using t(4) by (simp add: only_books_def books_def s1_def)
  ultimately show ?thesis using run by blast
qed

lemma vspace_alloc_ok:
  assumes "meta_ok s pv pn pa (i # vxs) nxs axs"
  shows "\<exists>t. vspace_alloc s = Inr (Some (elem pv 32 i), t) \<and> meta_ok t pv pn pa vxs nxs axs \<and> only_books (books pv pn pa) s t"
proof -
  note m = assms [unfolded meta_ok_def] and d = meta_okD [OF assms]
  define s1 where "s1 = s\<lparr>sl_vs := \<lparr>islock = 1\<rparr>\<rparr>"
  have mp: "meta_page s1 pv 32 (i # vxs)" "meta_page s1 pn 16 nxs" "meta_page s1 pa 16 axs"
    using m by (simp_all add: meta_page_def fl_ok_def s1_def)
  obtain t where t: "fmtlist_alloc (Some pv) SIZEOF_VSPACE s1 = Inr (Some (elem pv 32 i), Some pv, t)" "meta_page t pv 32 vxs"
    "off_page pv s1 t" "only_books (book pv 32) s1 t" using fl_alloc_books [OF mp(1)] by blast
  note om = off_page_meta [OF t(3)]
  have lk: "sl_vs t = \<lparr>islock = 1\<rparr>" using om by (simp add: s1_def)
  let ?u = "t\<lparr>meta_vs := Some pv, sl_vs := unlocked\<rparr>"
  have run: "vspace_alloc s = Inr (Some (elem pv 32 i), ?u)"
    using m t(1) lk by (simp add: vspace_alloc_def s1_def)
  have "meta_page t pn 16 nxs" "meta_page t pa 16 axs"
    using meta_page_frame [OF mp(2) d(1) d(7) [symmetric] t(3)] meta_page_frame [OF mp(3) d(1) d(8) [symmetric] t(3)] .
  then have "meta_ok ?u pv pn pa vxs nxs axs" using t(2) om m by (simp add: meta_ok_def meta_page_def fl_ok_def s1_def)
  moreover have "only_books (books pv pn pa) s ?u" using t(4) by (simp add: only_books_def books_def s1_def)
  ultimately show ?thesis using run by blast
qed

subsection \<open>Entering a range\<close>

text \<open>The two objects are there; the range is written and its node goes to the head of the list of \<open>v\<close>.\<close>

lemma enter_rest:
  assumes m: "meta_ok s2 pv pn pa vxs nxs axs" and v: "v \<notin> books pv pn pa" "ls_null (vs_list (km_vs s2 v)) = v"
    and rep: "list_rep (km_heap s2) (vs_list (km_vs s2 v)) ns" and ns: "set ns \<inter> books pv pn pa = {}" "length ns < 4096"
    and fresh: "elem pn 16 i \<notin> set (v # ns)" and i: "i < room 16"
  shows "\<exists>s3 h s4. vaddr_set (Some d) a l s2 = Inr s3
    \<and> node_set (km_heap s3) (Some (elem pn 16 i)) (Some d) None = Inr h
    \<and> vs_insert v (Some (elem pn 16 i)) 1 (s3\<lparr>km_heap := h\<rparr>) = Inr s4 \<and> meta_ok s4 pv pn pa vxs nxs axs
    \<and> list_rep (km_heap s4) (vs_list (km_vs s4 v)) (elem pn 16 i # ns) \<and> ls_null (vs_list (km_vs s4 v)) = v
    \<and> (km_vs s4 v)\<lparr>vs_list := vs_list (km_vs s2 v)\<rparr> = km_vs s2 v \<and> (\<forall>p. p \<noteq> v \<longrightarrow> km_vs s4 p = km_vs s2 p)
    \<and> km_va s4 = (km_va s2)(d := \<lparr>va_va = a, va_length = l\<rparr>)
    \<and> nd_data (km_heap s4 (elem pn 16 i)) = Some d
    \<and> (\<forall>x. x \<notin> books pv pn pa \<longrightarrow> x \<noteq> elem pn 16 i \<longrightarrow> nd_data (km_heap s4 x) = nd_data (km_heap s2 x))
    \<and> (\<forall>x. x \<notin> books pv pn pa \<longrightarrow> x \<notin> set (v # elem pn 16 i # ns) \<longrightarrow> km_heap s4 x = km_heap s2 x)
    \<and> km_mach s4 = km_mach s2 \<and> km_kern s4 = km_kern s2"
proof -
  let ?n = "elem pn 16 i" and ?B = "books pv pn pa"
  define s3 where "s3 = s2\<lparr>km_va := (km_va s2)(d := \<lparr>va_va = a, va_length = l\<rparr>)\<rparr>"
  define h where "h = (km_heap s3)(?n := \<lparr>nd_data = Some d, nd_next = None\<rparr>)"
  have nb: "?n \<notin> ?B" using elem_not_books(2) [OF m i] .
  have hs: "h x = km_heap s2 x" if "x \<noteq> ?n" for x using that by (simp add: h_def s3_def)
  have "nd_next (h x) = nd_next (km_heap s2 x)" if "x \<in> set (ls_null (vs_list (km_vs s2 v)) # ns)" for x
    using that v(2) fresh hs by (metis set_ConsD list.set_intros)
  then have rep3: "list_rep h (vs_list (km_vs s2 v)) ns" using list_rep_frame [of "vs_list (km_vs s2 v)" ns h "km_heap s2"] rep by blast
  obtain h' l' where ins: "list_insert h (Some (vs_list (km_vs s2 v))) (Some ?n) 1 = Inr (h', l')" "list_rep h' l' (?n # ns)"
    "ls_null l' = v" "\<forall>a. nd_data (h' a) = nd_data (h a)" "\<forall>a. a \<notin> set (v # ?n # ns) \<longrightarrow> h' a = h a"
    using list_insert_rep [OF rep3, of 0 ?n] ns(2) fresh v(2) by auto
  define s4 where "s4 = set_vs v ((km_vs s2 v)\<lparr>vs_list := l'\<rparr>) (s3\<lparr>km_heap := h'\<rparr>)"
  have run: "vaddr_set (Some d) a l s2 = Inr s3" "node_set (km_heap s3) (Some ?n) (Some d) None = Inr h"
    "vs_insert v (Some ?n) 1 (s3\<lparr>km_heap := h\<rparr>) = Inr s4"
    using ins(1) by (simp_all add: vaddr_set_def s3_def node_set_def h_def vs_insert_def s4_def set_vs_def)
  have out: "set (v # ?n # ns) \<inter> ?B = {}" using v(1) nb ns(1) by auto
  have "meta_ok s4 pv pn pa vxs nxs axs"
  proof (rule meta_ok_heap [OF m])
    fix x assume x: "x \<in> ?B"
    then have "x \<notin> set (v # ?n # ns)" using out by blast
    then show "km_heap s4 x = km_heap s2 x" using ins(5) x nb by (auto simp: s4_def set_vs_def h_def s3_def)
  qed (simp_all add: s4_def set_vs_def s3_def)
  moreover have "km_va s4 = (km_va s2)(d := \<lparr>va_va = a, va_length = l\<rparr>)" "km_mach s4 = km_mach s2" "km_kern s4 = km_kern s2"
    by (simp_all add: s4_def set_vs_def s3_def)
  moreover have "nd_data (km_heap s4 ?n) = Some d" using ins(4) by (simp add: s4_def set_vs_def h_def)
  moreover have "nd_data (km_heap s4 x) = nd_data (km_heap s2 x)" if "x \<notin> ?B" "x \<noteq> ?n" for x
    using ins(4) hs [OF that(2)] by (simp add: s4_def set_vs_def)
  moreover have "km_heap s4 x = km_heap s2 x" if "x \<notin> ?B" "x \<notin> set (v # ?n # ns)" for x
    using ins(5) that hs by (simp add: s4_def set_vs_def)
  moreover have "list_rep (km_heap s4) (vs_list (km_vs s4 v)) (?n # ns)" "ls_null (vs_list (km_vs s4 v)) = v"
    "(km_vs s4 v)\<lparr>vs_list := vs_list (km_vs s2 v)\<rparr> = km_vs s2 v" "\<And>p. p \<noteq> v \<Longrightarrow> km_vs s4 p = km_vs s2 p"
    using ins(2,3) by (simp_all add: s4_def set_vs_def s3_def)
  ultimately show ?thesis using run by blast
qed

lemma enter_ok:
  assumes m: "meta_ok s pv pn pa vxs (i # nxs) (j # axs)" and v: "v \<notin> books pv pn pa" "ls_null (vs_list (km_vs s v)) = v"
    and rep: "list_rep (km_heap s) (vs_list (km_vs s v)) ns" and ns: "set ns \<inter> books pv pn pa = {}" "length ns < 4096"
    and fresh: "elem pn 16 i \<notin> set (v # ns)"
  shows "\<exists>s1 s2 s3 h s4. node_alloc s = Inr (Some (elem pn 16 i), s1) \<and> vaddr_alloc s1 = Inr (Some (elem pa 16 j), s2)
    \<and> vaddr_set (Some (elem pa 16 j)) a l s2 = Inr s3
    \<and> node_set (km_heap s3) (Some (elem pn 16 i)) (Some (elem pa 16 j)) None = Inr h
    \<and> vs_insert v (Some (elem pn 16 i)) 1 (s3\<lparr>km_heap := h\<rparr>) = Inr s4 \<and> meta_ok s4 pv pn pa vxs nxs axs
    \<and> list_rep (km_heap s4) (vs_list (km_vs s4 v)) (elem pn 16 i # ns) \<and> ls_null (vs_list (km_vs s4 v)) = v
    \<and> (km_vs s4 v)\<lparr>vs_list := vs_list (km_vs s v)\<rparr> = km_vs s v \<and> (\<forall>p. p \<noteq> v \<longrightarrow> km_vs s4 p = km_vs s p)
    \<and> km_va s4 = (km_va s)(elem pa 16 j := \<lparr>va_va = a, va_length = l\<rparr>)
    \<and> nd_data (km_heap s4 (elem pn 16 i)) = Some (elem pa 16 j)
    \<and> (\<forall>x. x \<notin> books pv pn pa \<longrightarrow> x \<noteq> elem pn 16 i \<longrightarrow> nd_data (km_heap s4 x) = nd_data (km_heap s x))
    \<and> (\<forall>x. x \<notin> books pv pn pa \<longrightarrow> x \<notin> set (v # elem pn 16 i # ns) \<longrightarrow> km_heap s4 x = km_heap s x)
    \<and> km_mach s4 = km_mach s \<and> km_kern s4 = km_kern s"
proof -
  let ?n = "elem pn 16 i" and ?d = "elem pa 16 j" and ?B = "books pv pn pa"
  have i: "i < room 16" using m by (simp add: meta_ok_def meta_page_def fl_ok_def)
  obtain s1 where s1: "node_alloc s = Inr (Some ?n, s1)" "meta_ok s1 pv pn pa vxs nxs (j # axs)" "only_books ?B s s1"
    using node_alloc_ok [OF m] by blast
  obtain s2 where s2: "vaddr_alloc s1 = Inr (Some ?d, s2)" "meta_ok s2 pv pn pa vxs nxs axs" "only_books ?B s1 s2"
    using vaddr_alloc_ok [OF s1(2)] by blast
  have ob: "km_vs s2 = km_vs s" "km_va s2 = km_va s" "km_mach s2 = km_mach s" "km_kern s2 = km_kern s"
    "\<And>x. x \<notin> ?B \<Longrightarrow> km_heap s2 x = km_heap s x"
    using only_books_trans [OF s1(3) s2(3)] by (simp_all add: only_books_def)
  have "km_heap s2 x = km_heap s x" if "x \<in> set (ls_null (vs_list (km_vs s v)) # ns)" for x
    using that v ns(1) by (intro ob(5)) auto
  then have rep2: "list_rep (km_heap s2) (vs_list (km_vs s2 v)) ns"
    using list_rep_frame [of "vs_list (km_vs s v)" ns "km_heap s2" "km_heap s"] rep ob(1) by simp
  obtain s3 h s4 where e: "vaddr_set (Some ?d) a l s2 = Inr s3"
    "node_set (km_heap s3) (Some ?n) (Some ?d) None = Inr h"
    "vs_insert v (Some ?n) 1 (s3\<lparr>km_heap := h\<rparr>) = Inr s4" "meta_ok s4 pv pn pa vxs nxs axs"
    "list_rep (km_heap s4) (vs_list (km_vs s4 v)) (?n # ns)" "ls_null (vs_list (km_vs s4 v)) = v"
    "(km_vs s4 v)\<lparr>vs_list := vs_list (km_vs s2 v)\<rparr> = km_vs s2 v" "\<forall>p. p \<noteq> v \<longrightarrow> km_vs s4 p = km_vs s2 p"
    "km_va s4 = (km_va s2)(?d := \<lparr>va_va = a, va_length = l\<rparr>)"
    "nd_data (km_heap s4 ?n) = Some ?d"
    "\<forall>x. x \<notin> ?B \<longrightarrow> x \<noteq> ?n \<longrightarrow> nd_data (km_heap s4 x) = nd_data (km_heap s2 x)"
    "\<forall>x. x \<notin> ?B \<longrightarrow> x \<notin> set (v # ?n # ns) \<longrightarrow> km_heap s4 x = km_heap s2 x"
    "km_mach s4 = km_mach s2" "km_kern s4 = km_kern s2"
    using enter_rest [OF s2(2) v(1) _ rep2 ns fresh i, of ?d a l] v(2) ob(1) by auto
  have "\<forall>x. x \<notin> ?B \<longrightarrow> x \<noteq> ?n \<longrightarrow> nd_data (km_heap s4 x) = nd_data (km_heap s x)"
    "\<forall>x. x \<notin> ?B \<longrightarrow> x \<notin> set (v # ?n # ns) \<longrightarrow> km_heap s4 x = km_heap s x"
    using e(11,12) ob(5) by simp_all
  then show ?thesis using s1(1) s2(1) e(1-10,13,14) unfolding ob(1-4) by blast
qed

subsection \<open>The invariant of an address space\<close>

text \<open>
  \<open>vm_at s r v b e ns ds rs\<close>: behind the root \<open>r\<close>, whose own list is empty, there is one vspace \<open>v\<close> from
  \<open>b\<close> to \<open>e\<close> with the nodes \<open>ns\<close>, the vaddr objects \<open>ds\<close> and the ranges \<open>rs\<close> (start and pages).
\<close>

definition root_at :: "kmem \<Rightarrow> u32 \<Rightarrow> bool" where
  "root_at s r \<longleftrightarrow> list_rep (km_heap s) (vs_list (km_vs s r)) [] \<and> ls_null (vs_list (km_vs s r)) = r"

definition vm_at :: "kmem \<Rightarrow> u32 \<Rightarrow> u32 \<Rightarrow> u32 \<Rightarrow> u32 \<Rightarrow> u32 list \<Rightarrow> u32 list \<Rightarrow> (u32 \<times> u32) list \<Rightarrow> bool" where
  "vm_at s r v b e ns ds rs \<longleftrightarrow> root_at s r \<and> vs_next (km_vs s r) = Some v \<and> vs_end (km_vs s r) = b
     \<and> list_rep (km_heap s) (vs_list (km_vs s v)) ns \<and> ls_null (vs_list (km_vs s v)) = v
     \<and> vs_begin (km_vs s v) = b \<and> vs_end (km_vs s v) = e \<and> vs_next (km_vs s v) = None
     \<and> length ds = length ns \<and> length rs = length ns
     \<and> (\<forall>j < length ns. nd_data (km_heap s (ns ! j)) = Some (ds ! j)
          \<and> km_va s (ds ! j) = \<lparr>va_va = fst (rs ! j), va_length = snd (rs ! j)\<rparr>)"

definition off_pages :: "u32 \<Rightarrow> u32 \<Rightarrow> u32 \<Rightarrow> u32 \<Rightarrow> bool" where
  "off_pages pv pn pa r \<longleftrightarrow> \<not> in_range pv 4096 r \<and> \<not> in_range pn 4096 r \<and> \<not> in_range pa 4096 r"

text \<open>The space is in order, and \<open>nv\<close>, \<open>nn\<close> and \<open>na\<close> objects of metadata are left.\<close>

definition vm_inv :: "kmem \<Rightarrow> u32 \<Rightarrow> u32 \<Rightarrow> u32 \<Rightarrow> (u32 \<times> u32) list \<Rightarrow> nat \<Rightarrow> nat \<Rightarrow> nat \<Rightarrow> bool" where
  "vm_inv s r b e rs nv nn na \<longleftrightarrow> (\<exists>pv pn pa vxs nxs axs iv js ks. meta_ok s pv pn pa vxs nxs axs \<and> off_pages pv pn pa r
     \<and> length vxs = nv \<and> length nxs = nn \<and> length axs = na \<and> iv < room 32 \<and> iv \<notin> set vxs
     \<and> distinct js \<and> set js \<subseteq> {..<room 16} - set nxs \<and> distinct ks \<and> set ks \<subseteq> {..<room 16} - set axs
     \<and> vm_at s r (elem pv 32 iv) b e (map (elem pn 16) js) (map (elem pa 16) ks) rs \<and> rs \<noteq> [])"

definition vm_start :: "kmem \<Rightarrow> u32 \<Rightarrow> nat \<Rightarrow> nat \<Rightarrow> nat \<Rightarrow> bool" where
  "vm_start s r nv nn na \<longleftrightarrow> (\<exists>pv pn pa vxs nxs axs. meta_ok s pv pn pa vxs nxs axs \<and> off_pages pv pn pa r \<and> root_at s r
     \<and> length vxs = nv \<and> length nxs = nn \<and> length axs = na)"

lemma off_pages_books:
  assumes "meta_ok s pv pn pa vxs nxs axs" and "off_pages pv pn pa r"
  shows "r \<notin> books pv pn pa" "i < room 32 \<Longrightarrow> r \<noteq> elem pv 32 i" "i < room 16 \<Longrightarrow> r \<noteq> elem pn 16 i" "i < room 16 \<Longrightarrow> r \<noteq> elem pa 16 i"
  using assms(2) meta_okD [OF assms(1)] book_in_page [of pv 32] book_in_page [of pn 16] book_in_page [of pa 16]
    elem_in_page [of pv 32] elem_in_page [of pn 16] elem_in_page [of pa 16]
  unfolding off_pages_def books_def by auto

lemma elems_apart:
  assumes "meta_ok s pv pn pa vxs nxs axs" and "i < room 32" and "j < room 16"
  shows "elem pv 32 i \<noteq> elem pn 16 j"
proof
  note d = meta_okD [OF assms(1)]
  assume "elem pv 32 i = elem pn 16 j"
  then show False using pages_apart [OF d(1,2,7), of "elem pv 32 i"] elem_in_page [OF d(1), of 32 i] elem_in_page [OF d(2), of 16 j] assms(2,3)
    by simp
qed

lemma root_at_frame:
  "root_at s r \<Longrightarrow> vs_list (km_vs t r) = vs_list (km_vs s r) \<Longrightarrow> km_heap t r = km_heap s r \<Longrightarrow> root_at t r"
  by (auto simp: root_at_def list_rep_def)

text \<open>A range in a new vspace, which becomes the only one behind the root. The three objects are there in \<open>s4\<close>.\<close>

lemma take_range_new:
  assumes al: "vspace_alloc s = Inr (Some v, s1)" "vspace_set (Some v) None b b None s1 = Inr s2"
      "node_alloc s2 = Inr (Some (elem pn 16 i), s3)" "vaddr_alloc s3 = Inr (Some d, s4)"
    and m: "meta_ok s4 pv pn pa vxs nxs axs" and off: "off_pages pv pn pa r" and root: "root_at s r"
    and v: "v = elem pv 32 iv" "iv < room 32" and i: "i < room 16"
    and v4: "km_vs s4 v = \<lparr>vs_list = \<lparr>ls_null = v, ls_size = 0\<rparr>, vs_begin = b, vs_end = b, vs_next = None\<rparr>"
      "km_heap s4 v = \<lparr>nd_data = None, nd_next = None\<rparr>"
    and r4: "km_vs s4 r = km_vs s r" "km_heap s4 r = km_heap s r"
  shows "\<exists>t. take_range r b l s = Inr (b, t) \<and> meta_ok t pv pn pa vxs nxs axs
    \<and> vm_at t r v b (b + l * PGSIZE) [elem pn 16 i] [d] [(b, l)] \<and> km_mach t = km_mach s4 \<and> km_kern t = km_kern s4"
proof -
  let ?B = "books pv pn pa" and ?n = "elem pn 16 i"
  have vb: "v \<notin> ?B" unfolding v(1) by (rule elem_not_books(1) [OF m v(2)])
  have nv: "?n \<notin> set [v]" using elems_apart [OF m v(2) i] v(1) by auto
  have rep: "list_rep (km_heap s4) (vs_list (km_vs s4 v)) []" by (simp add: list_rep_def v4)
  obtain s5 h s6 where e: "vaddr_set (Some d) b l s4 = Inr s5" "node_set (km_heap s5) (Some ?n) (Some d) None = Inr h"
    "vs_insert v (Some ?n) 1 (s5\<lparr>km_heap := h\<rparr>) = Inr s6" "meta_ok s6 pv pn pa vxs nxs axs"
    "list_rep (km_heap s6) (vs_list (km_vs s6 v)) [?n]" "ls_null (vs_list (km_vs s6 v)) = v"
    "(km_vs s6 v)\<lparr>vs_list := vs_list (km_vs s4 v)\<rparr> = km_vs s4 v" "\<forall>p. p \<noteq> v \<longrightarrow> km_vs s6 p = km_vs s4 p"
    "km_va s6 = (km_va s4)(d := \<lparr>va_va = b, va_length = l\<rparr>)" "nd_data (km_heap s6 ?n) = Some d"
    "\<forall>x. x \<notin> ?B \<longrightarrow> x \<notin> set (v # ?n # []) \<longrightarrow> km_heap s6 x = km_heap s4 x" "km_mach s6 = km_mach s4" "km_kern s6 = km_kern s4"
    using enter_rest [OF m vb _ rep _ _ nv i, of d b l] v4 by auto
  note ro = off_pages_books [OF m off]
  have rv: "r \<noteq> v" "r \<noteq> ?n" "r \<notin> ?B" using ro v i by auto
  have r6: "km_vs s6 r = km_vs s r" "km_heap s6 r = km_heap s r" using e(8,11) rv r4 by simp_all
  have root6: "root_at s6 r" by (rule root_at_frame [OF root]) (use r6 in auto)
  have emp: "vs_isempty r s = Inr True" "vs_isempty r s6 = Inr True"
    using list_isempty_rep root root6 unfolding vs_isempty_def root_at_def by fastforce+
  define t where "t = set_vs v ((km_vs s6 v)\<lparr>vs_end := vs_end (km_vs s6 v) + l * PGSIZE\<rparr>)
      (set_vs r ((km_vs s6 r)\<lparr>vs_next := Some v, vs_end := vs_begin (km_vs s6 v)\<rparr>) s6)"
  have app: "vspace_append (Some r) (Some v) s6 = Inr (set_vs r ((km_vs s6 r)\<lparr>vs_next := Some v, vs_end := vs_begin (km_vs s6 v)\<rparr>) s6)"
    using rv(1) by (simp add: vspace_append_def set_vs_def)
  have run: "take_range r b l s = Inr (b, t)"
    unfolding take_range_def
    by (simp only: emp al e(1-3) app bindr_simps prod.case if_True deref_simps)
      (use rv(1) in \<open>simp add: t_def set_vs_def\<close>)
  have f6: "vs_begin (km_vs s6 v) = b" "vs_end (km_vs s6 v) = b" "vs_next (km_vs s6 v) = None"
    using arg_cong [OF e(7), of vs_begin] arg_cong [OF e(7), of vs_end] arg_cong [OF e(7), of vs_next] v4 by simp_all
  have tv: "km_vs t v = (km_vs s6 v)\<lparr>vs_end := b + l * PGSIZE\<rparr>" "km_vs t r = (km_vs s6 r)\<lparr>vs_next := Some v, vs_end := b\<rparr>"
    "km_heap t = km_heap s6" "km_va t = km_va s6" "km_mach t = km_mach s6" "km_kern t = km_kern s6"
    using rv(1) f6 by (simp_all add: t_def set_vs_def)
  have "root_at t r" using root6 by (simp add: root_at_def tv)
  then have "vm_at t r v b (b + l * PGSIZE) [?n] [d] [(b, l)]"
    using e(5,6,9,10) f6 by (simp add: vm_at_def tv)
  moreover have "meta_ok t pv pn pa vxs nxs axs" by (rule meta_ok_heap [OF e(4)]) (simp_all add: t_def set_vs_def)
  ultimately show ?thesis using run e(12,13) tv(5,6) by auto
qed

lemma take_range_first:
  assumes m: "meta_ok s pv pn pa (iv # vxs) (i # nxs) (j # axs)" and off: "off_pages pv pn pa r" and root: "root_at s r"
  shows "\<exists>t. take_range r b l s = Inr (b, t) \<and> meta_ok t pv pn pa vxs nxs axs
    \<and> vm_at t r (elem pv 32 iv) b (b + l * PGSIZE) [elem pn 16 i] [elem pa 16 j] [(b, l)]
    \<and> km_mach t = km_mach s \<and> km_kern t = km_kern s"
proof -
  let ?B = "books pv pn pa" and ?v = "elem pv 32 iv" and ?n = "elem pn 16 i" and ?d = "elem pa 16 j"
  have ix: "iv < room 32" "i < room 16" "j < room 16" using m by (auto simp: meta_ok_def meta_page_def fl_ok_def)
  obtain s1 where s1: "vspace_alloc s = Inr (Some ?v, s1)" "meta_ok s1 pv pn pa vxs (i # nxs) (j # axs)" "only_books ?B s s1"
    using vspace_alloc_ok [OF m] by blast
  define s2 where "s2 = set_vs ?v \<lparr>vs_list = \<lparr>ls_null = ?v, ls_size = 0\<rparr>, vs_begin = b, vs_end = b, vs_next = None\<rparr>
      (s1\<lparr>km_heap := (km_heap s1)(?v := \<lparr>nd_data = None, nd_next = None\<rparr>)\<rparr>)"
  have set: "vspace_set (Some ?v) None b b None s1 = Inr s2" by (simp add: vspace_set_def s2_def)
  have vb: "?v \<notin> ?B" by (rule elem_not_books(1) [OF m ix(1)])
  have m2: "meta_ok s2 pv pn pa vxs (i # nxs) (j # axs)"
    by (rule meta_ok_heap [OF s1(2)]) (use vb in \<open>auto simp: s2_def set_vs_def\<close>)
  obtain s3 where s3: "node_alloc s2 = Inr (Some ?n, s3)" "meta_ok s3 pv pn pa vxs nxs (j # axs)" "only_books ?B s2 s3"
    using node_alloc_ok [OF m2] by blast
  obtain s4 where s4: "vaddr_alloc s3 = Inr (Some ?d, s4)" "meta_ok s4 pv pn pa vxs nxs axs" "only_books ?B s3 s4"
    using vaddr_alloc_ok [OF s3(2)] by blast
  have ob: "km_vs s4 = km_vs s2" "km_mach s4 = km_mach s" "km_kern s4 = km_kern s" "\<And>x. x \<notin> ?B \<Longrightarrow> km_heap s4 x = km_heap s2 x"
    using only_books_trans [OF s3(3) s4(3)] s1(3) by (simp_all add: only_books_def s2_def set_vs_def)
  have r: "r \<noteq> ?v" "r \<notin> ?B" using off_pages_books(1,2) [OF m off] ix by auto
  have "km_vs s4 r = km_vs s r" "km_heap s4 r = km_heap s r"
    using ob(1) ob(4) [OF r(2)] r s1(3) by (simp_all add: s2_def set_vs_def only_books_def)
  moreover have "km_vs s4 ?v = \<lparr>vs_list = \<lparr>ls_null = ?v, ls_size = 0\<rparr>, vs_begin = b, vs_end = b, vs_next = None\<rparr>"
    "km_heap s4 ?v = \<lparr>nd_data = None, nd_next = None\<rparr>"
    using ob(1) ob(4) [OF vb] by (simp_all add: s2_def set_vs_def)
  ultimately show ?thesis
    using take_range_new [OF s1(1) set s3(1) s4(1,2) off root refl ix(1,2), of l] ob(2,3) by auto
qed

text \<open>A range at the end of the vspace there is.\<close>

lemma take_range_next:
  assumes inv: "vm_inv s r b e rs nv (Suc nn) (Suc na)"
  shows "\<exists>v t. vs_next (km_vs s r) = Some v \<and> vs_begin (km_vs s v) = b \<and> vs_end (km_vs s v) = e \<and> vs_next (km_vs s v) = None
    \<and> take_range v e l s = Inr (e, t) \<and> vm_inv t r b (e + l * PGSIZE) ((e, l) # rs) nv nn na
    \<and> km_mach t = km_mach s \<and> km_kern t = km_kern s"
proof -
  from inv obtain pv pn pa vxs nxs0 axs0 iv js ks where i: "meta_ok s pv pn pa vxs nxs0 axs0" "off_pages pv pn pa r"
    "length vxs = nv" "length nxs0 = Suc nn" "length axs0 = Suc na" "iv < room 32" "iv \<notin> set vxs"
    "distinct js" "set js \<subseteq> {..<room 16} - set nxs0" "distinct ks" "set ks \<subseteq> {..<room 16} - set axs0" "rs \<noteq> []"
    and at: "vm_at s r (elem pv 32 iv) b e (map (elem pn 16) js) (map (elem pa 16) ks) rs" unfolding vm_inv_def by blast
  obtain x nxs y axs where xy: "nxs0 = x # nxs" "axs0 = y # axs" using i(4,5) by (cases nxs0; cases axs0) auto
  note m = i(1) [unfolded xy] and d = meta_okD [OF i(1)]
  let ?B = "books pv pn pa" and ?v = "elem pv 32 iv" and ?ns = "map (elem pn 16) js" and ?ds = "map (elem pa 16) ks"
  have fd: "distinct nxs0" "distinct axs0" "set nxs0 \<subseteq> {..<room 16}" "set axs0 \<subseteq> {..<room 16}"
    using fl_ok_distinct [OF d(5)] fl_ok_distinct [OF d(6)] d(5,6) by (simp_all add: fl_ok_def)
  have xr: "x < room 16" "y < room 16" "x \<notin> set js" "y \<notin> set ks" "x \<notin> set nxs" "y \<notin> set axs" using fd i(9,11) xy by auto
  have a: "root_at s r" "vs_next (km_vs s r) = Some ?v" "list_rep (km_heap s) (vs_list (km_vs s ?v)) ?ns" "ls_null (vs_list (km_vs s ?v)) = ?v"
    "vs_begin (km_vs s ?v) = b" "vs_end (km_vs s ?v) = e" "vs_next (km_vs s ?v) = None" "length ks = length js" "length rs = length js"
    and dat: "\<And>j. j < length js \<Longrightarrow> nd_data (km_heap s (elem pn 16 (js ! j))) = Some (elem pa 16 (ks ! j))
        \<and> km_va s (elem pa 16 (ks ! j)) = \<lparr>va_va = fst (rs ! j), va_length = snd (rs ! j)\<rparr>"
    using at by (auto simp: vm_at_def)
  have jr: "j < room 16" if "j \<in> set js \<or> j \<in> set ks" for j using that i(9,11) by blast
  have vb: "?v \<notin> ?B" by (rule elem_not_books(1) [OF i(1,6)])
  have nb: "set ?ns \<inter> ?B = {}" using elem_not_books(2) [OF i(1)] jr by auto
  have "length js = card (set js)" using distinct_card [OF i(8)] by simp
  also have "\<dots> \<le> card {..<room 16}" using i(9) by (intro card_mono) auto
  finally have "length js \<le> room 16" by simp
  then have len: "length ?ns < 4096" using room_pos [of 16] by simp
  have ne: "elem pn 16 x \<noteq> elem pn 16 j" if "j \<in> set js" for j using elem_inj [OF d(2), of 16 x j] xr(1,3) jr that by auto
  have fresh: "elem pn 16 x \<notin> set (?v # ?ns)" using elems_apart [OF i(1,6) xr(1)] ne by auto
  let ?n = "elem pn 16 x" and ?d = "elem pa 16 y"
  obtain s3 s4 s5 h s6 where en: "node_alloc s = Inr (Some ?n, s3)" "vaddr_alloc s3 = Inr (Some ?d, s4)"
    "vaddr_set (Some ?d) e l s4 = Inr s5" "node_set (km_heap s5) (Some ?n) (Some ?d) None = Inr h"
    "vs_insert ?v (Some ?n) 1 (s5\<lparr>km_heap := h\<rparr>) = Inr s6" "meta_ok s6 pv pn pa vxs nxs axs"
    "list_rep (km_heap s6) (vs_list (km_vs s6 ?v)) (?n # ?ns)" "ls_null (vs_list (km_vs s6 ?v)) = ?v"
    "(km_vs s6 ?v)\<lparr>vs_list := vs_list (km_vs s ?v)\<rparr> = km_vs s ?v" "\<forall>p. p \<noteq> ?v \<longrightarrow> km_vs s6 p = km_vs s p"
    "km_va s6 = (km_va s)(?d := \<lparr>va_va = e, va_length = l\<rparr>)" "nd_data (km_heap s6 ?n) = Some ?d"
    "\<forall>x. x \<notin> ?B \<longrightarrow> x \<noteq> ?n \<longrightarrow> nd_data (km_heap s6 x) = nd_data (km_heap s x)"
    "\<forall>x. x \<notin> ?B \<longrightarrow> x \<notin> set (?v # ?n # ?ns) \<longrightarrow> km_heap s6 x = km_heap s x"
    "km_mach s6 = km_mach s" "km_kern s6 = km_kern s"
    using enter_ok [OF m vb a(4,3) nb len fresh, of e l] by blast
  note ro = off_pages_books [OF i(1,2)]
  have rv: "r \<noteq> ?v" "r \<notin> ?B" "r \<notin> set (?v # ?n # ?ns)" using ro(1) ro(2) [OF i(6)] ro(3) xr(1) jr by auto
  have r6: "km_vs s6 r = km_vs s r" "km_heap s6 r = km_heap s r" using en(10,14) rv by auto
  have root6: "root_at s6 r" by (rule root_at_frame [OF a(1)]) (use r6 in auto)
  have "js \<noteq> []" using a(9) i(12) by auto
  then have emp: "vs_isempty ?v s = Inr False" "vs_isempty ?v s6 = Inr False"
    using list_isempty_rep [OF a(3)] list_isempty_rep [OF en(7)] by (simp_all add: vs_isempty_def)
  define t where "t = set_vs ?v ((km_vs s6 ?v)\<lparr>vs_end := vs_end (km_vs s6 ?v) + l * PGSIZE\<rparr>) s6"
  have run: "take_range ?v e l s = Inr (e, t)"
    unfolding take_range_def by (simp only: emp en(1-5) bindr_simps prod.case if_False deref_simps t_def)
  have f6: "vs_begin (km_vs s6 ?v) = b" "vs_end (km_vs s6 ?v) = e" "vs_next (km_vs s6 ?v) = None"
    using arg_cong [OF en(9), of vs_begin] arg_cong [OF en(9), of vs_end] arg_cong [OF en(9), of vs_next] a(5-7) by simp_all
  have tv: "km_vs t ?v = (km_vs s6 ?v)\<lparr>vs_end := e + l * PGSIZE\<rparr>" "km_vs t r = km_vs s6 r" "km_heap t = km_heap s6" "km_va t = km_va s6"
    using rv(1) f6 by (simp_all add: t_def set_vs_def)
  have old: "nd_data (km_heap s6 (elem pn 16 (js ! j))) = Some (elem pa 16 (ks ! j))
      \<and> km_va s6 (elem pa 16 (ks ! j)) = \<lparr>va_va = fst (rs ! j), va_length = snd (rs ! j)\<rparr>" if j: "j < length js" for j
  proof -
    have jj: "js ! j \<in> set js" "ks ! j \<in> set ks" using j a(8) by simp_all
    have "elem pn 16 (js ! j) \<notin> ?B" "elem pn 16 (js ! j) \<noteq> ?n" using elem_not_books(2) [OF i(1)] jr jj ne [OF jj(1)] by auto
    moreover have "elem pa 16 (ks ! j) \<noteq> ?d" using elem_inj [OF d(3), of 16 "ks ! j" y] xr(2,4) jr jj(2) by auto
    ultimately show ?thesis using en(11,13) dat [OF j] by simp
  qed
  have new: "km_va s6 ?d = \<lparr>va_va = e, va_length = l\<rparr>" using en(11) by simp
  have "\<forall>j < length (?n # ?ns). nd_data (km_heap s6 ((?n # ?ns) ! j)) = Some ((?d # ?ds) ! j)
      \<and> km_va s6 ((?d # ?ds) ! j) = \<lparr>va_va = fst (((e, l) # rs) ! j), va_length = snd (((e, l) # rs) ! j)\<rparr>"
    using new en(12) old a(8) by (auto simp: less_Suc_eq_0_disj)
  moreover have "root_at t r" using root6 by (simp add: root_at_def tv)
  ultimately have "vm_at t r ?v b (e + l * PGSIZE) (?n # ?ns) (?d # ?ds) ((e, l) # rs)"
    using en(7,8) f6 r6(1) a(2,8,9) at by (simp add: vm_at_def tv)
  then have at': "vm_at t r ?v b (e + l * PGSIZE) (map (elem pn 16) (x # js)) (map (elem pa 16) (y # ks)) ((e, l) # rs)" by simp
  have m': "meta_ok t pv pn pa vxs nxs axs" by (rule meta_ok_heap [OF en(6)]) (simp_all add: t_def set_vs_def)
  have "distinct (x # js)" "set (x # js) \<subseteq> {..<room 16} - set nxs" "distinct (y # ks)" "set (y # ks) \<subseteq> {..<room 16} - set axs"
    using i(8-11) xr xy by auto
  moreover have "length nxs = nn" "length axs = na" using i(4,5) xy by simp_all
  ultimately have "vm_inv t r b (e + l * PGSIZE) ((e, l) # rs) nv nn na"
    using m' at' i(2,3,6,7) unfolding vm_inv_def by blast
  moreover have "km_mach t = km_mach s" "km_kern t = km_kern s" using en(15,16) by (simp_all add: t_def set_vs_def)
  ultimately show ?thesis using run a(2,5-7) by blast
qed

subsection \<open>vir_alloc_pages\<close>

definition max_end_of :: "u32 \<Rightarrow> u32" where
  "max_end_of b = (if b < KERN_HIGH_MAPPING then KERN_HIGH_MAPPING else KERN_METADATA)"

lemma MAX_CHAIN_Suc2: "\<exists>n. MAX_CHAIN = Suc (Suc n)"
  by (simp add: MAX_CHAIN_def)

lemma vir_alloc_first:
  assumes st: "vm_start s r (Suc nv) (Suc nn) (Suc na)" and l: "l \<noteq> 0"
    and gap: "vs_next (km_vs s r) = None \<and> \<not> b + l * PGSIZE \<ge> max_end_of b
      \<or> (\<exists>v. vs_next (km_vs s r) = Some v \<and> \<not> (vs_begin (km_vs s v) - b) div PGSIZE < l)"
  shows "\<exists>t. vir_alloc_pages (Some r) l b s = Inr (b, t) \<and> vm_inv t r b (b + l * PGSIZE) [(b, l)] nv nn na
    \<and> km_mach t = km_mach s \<and> km_kern t = km_kern s"
proof -
  from st obtain pv pn pa vxs nxs axs where i: "meta_ok s pv pn pa vxs nxs axs" "off_pages pv pn pa r" "root_at s r"
    "length vxs = Suc nv" "length nxs = Suc nn" "length axs = Suc na" unfolding vm_start_def by blast
  obtain iv vxs' x nxs' y axs' where c: "vxs = iv # vxs'" "nxs = x # nxs'" "axs = y # axs'"
    using i(4-6) by (cases vxs; cases nxs; cases axs) auto
  note d = meta_okD [OF i(1)]
  have fd: "distinct vxs" "distinct nxs" "distinct axs" "set vxs \<subseteq> {..<room 32}" "set nxs \<subseteq> {..<room 16}" "set axs \<subseteq> {..<room 16}"
    using fl_ok_distinct [OF d(4)] fl_ok_distinct [OF d(5)] fl_ok_distinct [OF d(6)] d(4-6) by (simp_all add: fl_ok_def)
  obtain t where t: "take_range r b l s = Inr (b, t)" "meta_ok t pv pn pa vxs' nxs' axs'"
    "vm_at t r (elem pv 32 iv) b (b + l * PGSIZE) [elem pn 16 x] [elem pa 16 y] [(b, l)]"
    "km_mach t = km_mach s" "km_kern t = km_kern s"
    using take_range_first [OF i(1) [unfolded c] i(2,3)] by blast
  obtain n where n: "MAX_CHAIN = Suc n" using MAX_CHAIN_Suc by blast
  have "vir_alloc_pages (Some r) l b s = Inr (b, t)"
    using gap l t(1) by (auto simp: vir_alloc_pages_def n Let_def max_end_of_def)
  moreover have "vm_inv t r b (b + l * PGSIZE) [(b, l)] nv nn na"
    unfolding vm_inv_def
    by (rule exI [of _ pv], rule exI [of _ pn], rule exI [of _ pa], rule exI [of _ vxs'], rule exI [of _ nxs'], rule exI [of _ axs'],
        rule exI [of _ iv], rule exI [of _ "[x]"], rule exI [of _ "[y]"]) (use i c fd t in simp)
  ultimately show ?thesis using t(4,5) by blast
qed

lemma vir_alloc_next:
  assumes inv: "vm_inv s r b e rs nv (Suc nn) (Suc na)" and l: "l \<noteq> 0"
  shows "\<not> e + l * PGSIZE \<ge> max_end_of b \<Longrightarrow>
      \<exists>t. vir_alloc_pages (Some r) l b s = Inr (e, t) \<and> vm_inv t r b (e + l * PGSIZE) ((e, l) # rs) nv nn na
        \<and> km_mach t = km_mach s \<and> km_kern t = km_kern s"
    and "e + l * PGSIZE \<ge> max_end_of b \<Longrightarrow> vir_alloc_pages (Some r) l b s = panic ''vir_alloc_pages(): no enough space''"
proof -
  obtain n where n: "MAX_CHAIN = Suc (Suc n)" using MAX_CHAIN_Suc2 by blast
  from take_range_next [OF inv] obtain v t where v: "vs_next (km_vs s r) = Some v" "vs_begin (km_vs s v) = b" "vs_end (km_vs s v) = e"
    "vs_next (km_vs s v) = None" "take_range v e l s = Inr (e, t)" "vm_inv t r b (e + l * PGSIZE) ((e, l) # rs) nv nn na"
    "km_mach t = km_mach s" "km_kern t = km_kern s" by blast
  have "(0 :: u32) < l" using l by (simp add: word_neq_0_conv)
  then have r: "vir_alloc_pages (Some r) l b s = (if e + l * PGSIZE \<ge> max_end_of b
      then panic ''vir_alloc_pages(): no enough space'' else take_range v e l s)"
    using l v(1-4) by (simp add: vir_alloc_pages_def n Let_def max_end_of_def)
  show "\<not> e + l * PGSIZE \<ge> max_end_of b \<Longrightarrow>
      \<exists>t. vir_alloc_pages (Some r) l b s = Inr (e, t) \<and> vm_inv t r b (e + l * PGSIZE) ((e, l) # rs) nv nn na
        \<and> km_mach t = km_mach s \<and> km_kern t = km_kern s"
    using r v(5-8) by simp
  show "e + l * PGSIZE \<ge> max_end_of b \<Longrightarrow> vir_alloc_pages (Some r) l b s = panic ''vir_alloc_pages(): no enough space''"
    using r by simp
qed

fun alloc_seq :: "u32 list \<Rightarrow> u32 \<Rightarrow> u32 \<Rightarrow> kmem \<Rightarrow> (u32 list \<times> kmem) res" where
  "alloc_seq [] r b s = Inr ([], s)"
| "alloc_seq (l # ls) r b s =
     bindr (vir_alloc_pages (Some r) l b s) (\<lambda>(a, s). bindr (alloc_seq ls r b s) (\<lambda>(as, s). Inr (a # as, s)))"

text \<open>The pages of a list of amounts.\<close>

definition pages_of :: "u32 list \<Rightarrow> nat" where
  "pages_of ls = sum_list (map unat ls)"

lemma pages_of_simps [simp]: "pages_of [] = 0" "pages_of (l # ls) = unat l + pages_of ls"
  by (simp_all add: pages_of_def)

lemma unat_end:
  assumes "unat e + 4096 * unat l < 4294967296"
  shows "unat (e + l * PGSIZE) = unat e + 4096 * unat l"
proof -
  have "unat (l * PGSIZE) = 4096 * unat l" using assms by (simp add: PGSIZE_def unat_word_ariths)
  then show ?thesis using assms by (subst unat_add_32) simp_all
qed

lemma alloc_seq_ok:
  "vm_inv s r b e rs nv (length ls + nn) (length ls + na) \<Longrightarrow> 0 \<notin> set ls \<Longrightarrow> unat e + 4096 * pages_of ls < unat (max_end_of b) \<Longrightarrow>
   \<exists>as t. alloc_seq ls r b s = Inr (as, t) \<and> length as = length ls
     \<and> (\<forall>i < length ls. unat (as ! i) = unat e + 4096 * pages_of (take i ls))"
proof (induction ls arbitrary: s e rs)
  case (Cons l ls)
  have mx: "unat (max_end_of b) < 4294967296" by simp
  have lt: "unat e + 4096 * unat l < unat (max_end_of b)" using Cons.prems(3) by simp
  then have ue: "unat (e + l * PGSIZE) = unat e + 4096 * unat l" using mx by (intro unat_end) linarith
  then have "\<not> e + l * PGSIZE \<ge> max_end_of b" using lt by (simp add: word_le_nat_alt)
  then obtain t where t: "vir_alloc_pages (Some r) l b s = Inr (e, t)"
    "vm_inv t r b (e + l * PGSIZE) ((e, l) # rs) nv (length ls + nn) (length ls + na)"
    using vir_alloc_next(1) [of s r b e rs nv "length ls + nn" "length ls + na" l] Cons.prems(1,2) by auto
  have "unat (e + l * PGSIZE) + 4096 * pages_of ls < unat (max_end_of b)" using Cons.prems(3) ue by simp
  with Cons.IH [OF t(2)] Cons.prems(2) obtain as u where u: "alloc_seq ls r b t = Inr (as, u)" "length as = length ls"
    "\<forall>i < length ls. unat (as ! i) = unat e + 4096 * unat l + 4096 * pages_of (take i ls)" using ue by auto
  then show ?case using t(1) by (auto simp: less_Suc_eq_0_disj)
qed simp

subsection \<open>Releasing the lower of two ranges\<close>

lemma node_release_ok:
  assumes m: "meta_ok s pv pn pa vxs nxs axs" and j: "j < room 16" "j \<notin> set nxs" "Suc (length nxs) < room 16"
  shows "\<exists>t. node_release (Some (elem pn 16 j)) s = Inr t \<and> meta_ok t pv pn pa vxs (j # nxs) axs
    \<and> km_heap t (elem pn 16 j) = \<lparr>nd_data = Some 0, nd_next = Some 0\<rparr> \<and> km_mach t = km_mach s \<and> km_kern t = km_kern s
    \<and> (\<forall>x. \<not> in_range pn 4096 x \<longrightarrow> km_heap t x = km_heap s x \<and> km_va t x = km_va s x \<and> km_vs t x = km_vs s x)
    \<and> (\<forall>x. \<not> in_range (slot pn 16 j) 16 x \<longrightarrow> x \<notin> book pn 16 \<longrightarrow> km_heap t x = km_heap s x)"
proof -
  note mm = m [unfolded meta_ok_def] and d = meta_okD [OF m]
  define s1 where "s1 = s\<lparr>sl_ata := \<lparr>islock = 1\<rparr>\<rparr>"
  have mp: "meta_page s1 pv 32 vxs" "meta_page s1 pn 16 nxs" "meta_page s1 pa 16 axs"
    using mm by (simp_all add: meta_page_def fl_ok_def s1_def)
  have fl: "fl_ok s1 pn 16 nxs" using mp(2) by (simp add: meta_page_def)
  obtain t where t: "fmtlist_release (Some pn) (Some (slot pn 16 j + 8)) (word_of_nat (16 - 8)) s1 = Inr (True, Some pn, t)"
    "fl_ok t pn 16 (j # nxs)" "off_page pn s1 t" "fl_next (km_fl t pn) = fl_next (km_fl s1 pn)"
    "km_heap t (slot pn 16 j + 8) = \<lparr>nd_data = Some 0, nd_next = Some 0\<rparr>"
    "\<forall>x. \<not> in_range (slot pn 16 j) 16 x \<longrightarrow> x \<notin> set ((pn + 4) # map (slot pn 16) nxs) \<longrightarrow> km_heap t x = km_heap s1 x"
    using fmtlist_release_first [OF fl j] by blast
  have "set ((pn + 4) # map (slot pn 16) nxs) \<subseteq> book pn 16" using fl by (auto simp: book_def fl_ok_def)
  then have fr: "\<not> in_range (slot pn 16 j) 16 x \<Longrightarrow> x \<notin> book pn 16 \<Longrightarrow> km_heap t x = km_heap s x" for x
    using t(6) by (auto simp: s1_def)
  note om = off_page_meta [OF t(3)]
  have lk: "sl_ata t = \<lparr>islock = 1\<rparr>" using om by (simp add: s1_def)
  let ?u = "t\<lparr>meta_node := Some pn, sl_ata := unlocked\<rparr>"
  have run: "node_release (Some (elem pn 16 j)) s = Inr ?u"
    using mm t(1) lk by (simp add: node_release_def s1_def elem_def SIZEOF_NODE_def)
  have "meta_page t pv 32 vxs" "meta_page t pa 16 axs"
    using meta_page_frame [OF mp(1) d(2) d(7) t(3)] meta_page_frame [OF mp(3) d(2) d(9) [symmetric] t(3)] .
  moreover have "meta_page t pn 16 (j # nxs)" using t(2,4) mp(2) by (simp add: meta_page_def)
  ultimately have "meta_ok ?u pv pn pa vxs (j # nxs) axs" using om mm by (simp add: meta_ok_def meta_page_def fl_ok_def s1_def)
  then show ?thesis using run t(3,5) fr by (intro exI [of _ ?u]) (simp add: elem_def off_page_def s1_def)
qed

lemma vaddr_release_zero:
  assumes m: "meta_ok s pv pn pa vxs nxs axs"
  shows "vaddr_release (Some 0) s = Inr (s\<lparr>meta_va := Some pa, sl_va := unlocked\<rparr>)"
proof -
  note mm = m [unfolded meta_ok_def]
  obtain n where n: "MAX_CHAIN = Suc (Suc n)" using MAX_CHAIN_Suc2 by blast
  have "PGDOWN 0 PGSIZE = 0" by (simp add: PGDOWN_def)
  moreover have "pa \<noteq> 0" using mm by (auto simp: meta_page_def KERN_METADATA_def)
  moreover have "fl_type_size (km_fl s pa) = 8" "fl_next (km_fl s pa) = None" using mm by (simp_all add: meta_page_def fl_ok_def)
  ultimately show ?thesis using mm by (simp add: vaddr_release_def fmtlist_release_def n SIZEOF_VADDR_def)
qed

lemma release_lower:
  assumes inv: "vm_inv s r b e [(a, l2), (b, l1)] nv nn na" and ab: "a \<noteq> b" "b < e"
  shows "\<exists>t v. vir_release_pages (Some r) b False s = Inr t \<and> vm_start t r nv (Suc nn) na
    \<and> vs_next (km_vs t r) = Some v \<and> vs_begin (km_vs t v) = b + l1 * PGSIZE"
proof -
  from inv obtain pv pn pa vxs nxs axs iv js ks where i: "meta_ok s pv pn pa vxs nxs axs" "off_pages pv pn pa r"
    "length vxs = nv" "length nxs = nn" "length axs = na" "iv < room 32" "distinct js" "set js \<subseteq> {..<room 16} - set nxs"
    "set ks \<subseteq> {..<room 16} - set axs"
    and at: "vm_at s r (elem pv 32 iv) b e (map (elem pn 16) js) (map (elem pa 16) ks) [(a, l2), (b, l1)]" unfolding vm_inv_def by blast
  have "length js = 2" "length ks = 2" using at by (simp_all add: vm_at_def)
  then obtain j2 j1 k2 k1 where jk: "js = [j2, j1]" "ks = [k2, k1]" by (auto simp: length_Suc_conv numeral_2_eq_2)
  note d = meta_okD [OF i(1)]
  let ?v = "elem pv 32 iv" and ?n2 = "elem pn 16 j2" and ?n1 = "elem pn 16 j1" and ?d2 = "elem pa 16 k2" and ?d1 = "elem pa 16 k1"
  have rg: "j2 < room 16" "j1 < room 16" "j1 \<noteq> j2" "j1 \<notin> set nxs" "k2 < room 16" "k1 < room 16" "j2 \<notin> set nxs" using i(7-9) jk by auto
  have A: "root_at s r" "vs_next (km_vs s r) = Some ?v" "vs_end (km_vs s r) = b" "list_rep (km_heap s) (vs_list (km_vs s ?v)) [?n2, ?n1]"
    "ls_null (vs_list (km_vs s ?v)) = ?v" "vs_begin (km_vs s ?v) = b" "vs_end (km_vs s ?v) = e" "vs_next (km_vs s ?v) = None"
    using at by (simp_all add: vm_at_def jk)
  have dat: "nd_data (km_heap s ?n2) = Some ?d2" "km_va s ?d2 = \<lparr>va_va = a, va_length = l2\<rparr>"
    "nd_data (km_heap s ?n1) = Some ?d1" "km_va s ?d1 = \<lparr>va_va = b, va_length = l1\<rparr>"
  proof -
    have "\<forall>j < 2. nd_data (km_heap s ([?n2, ?n1] ! j)) = Some ([?d2, ?d1] ! j)
        \<and> km_va s ([?d2, ?d1] ! j) = \<lparr>va_va = fst ([(a, l2), (b, l1)] ! j), va_length = snd ([(a, l2), (b, l1)] ! j)\<rparr>"
      using at by (simp add: vm_at_def jk numeral_2_eq_2)
    from spec [OF this, of 0] spec [OF this, of 1] show "nd_data (km_heap s ?n2) = Some ?d2" "km_va s ?d2 = \<lparr>va_va = a, va_length = l2\<rparr>"
      "nd_data (km_heap s ?n1) = Some ?d1" "km_va s ?d1 = \<lparr>va_va = b, va_length = l1\<rparr>" by simp_all
  qed
  obtain n where n: "MAX_CHAIN = Suc (Suc n)" using MAX_CHAIN_Suc2 by blast
  have fv: "find_vs MAX_CHAIN None (Some r) b s = Inr (Some r, ?v)" using A(2,3,6,7) ab(2) by (simp add: n)
  have lf: "list_find (km_heap s) (Some (vs_list (km_vs s ?v))) 1 = Inr (Some ?n2)"
    "list_find (km_heap s) (Some (vs_list (km_vs s ?v))) 2 = Inr (Some ?n1)"
    using list_find_rep [OF A(4), of 1] list_find_rep [OF A(4), of 2] by simp_all
  have "unat (ls_size (vs_list (km_vs s ?v))) = 2" using A(4) by (simp add: list_rep_def)
  then have sz: "ls_size (vs_list (km_vs s ?v)) = 2" by (simp add: word_unat_eq_iff)
  obtain h l' where rm: "list_remove (km_heap s) (Some (vs_list (km_vs s ?v))) 2 = Inr (?n1, h, l')" "list_rep h l' [?n2]" "ls_null l' = ?v"
    "\<forall>a. nd_data (h a) = nd_data (km_heap s a)" "\<forall>a. a \<notin> set [?v, ?n2, ?n1] \<longrightarrow> h a = km_heap s a"
    using list_remove_rep [OF A(4), of 1] A(5) by (auto simp: numeral_2_eq_2)
  define s1 where "s1 = set_vs ?v ((km_vs s ?v)\<lparr>vs_list := l'\<rparr>) (s\<lparr>km_heap := h\<rparr>)"
  have vr: "vs_remove ?v 2 s = Inr (?n1, s1)" using rm(1) by (simp add: vs_remove_def s1_def)
  have nl: "node_loop MAX_CHAIN ?v (Some r) 1 b s = Inr (?n1, LCT_END, None, s1)"
    using lf dat ab(1) sz vr by (simp add: n)
  have dat1: "nd_data (km_heap s1 ?n1) = Some ?d1" "km_va s1 ?d1 = \<lparr>va_va = b, va_length = l1\<rparr>"
    using rm(4) dat by (simp_all add: s1_def set_vs_def)
  have emp: "vs_isempty ?v s1 = Inr False" using list_isempty_rep [OF rm(2)] by (simp add: vs_isempty_def s1_def set_vs_def)
  define s2 where "s2 = set_vs ?v ((km_vs s1 ?v)\<lparr>vs_begin := vs_begin (km_vs s1 ?v) + l1 * PGSIZE\<rparr>) s1"
  have adj: "adjust_vs ?v (Some r) l1 LCT_END None \<lparr>va_va = b, va_length = l1\<rparr> s1 = Inr s2"
    using emp by (simp add: adjust_vs_def s2_def Let_def)
  have out: "set [?v, ?n2, ?n1] \<inter> books pv pn pa = {}" using elem_not_books [OF i(1)] i(6) rg by auto
  have m2: "meta_ok s2 pv pn pa vxs nxs axs"
  proof (rule meta_ok_heap [OF i(1)])
    fix x assume "x \<in> books pv pn pa"
    then have "x \<notin> set [?v, ?n2, ?n1]" using out by blast
    then show "km_heap s2 x = km_heap s x" using rm(5) by (simp add: s2_def s1_def set_vs_def)
  qed (simp_all add: s2_def s1_def set_vs_def)
  have nx: "Suc (length nxs) < room 16"
  proof -
    have "set nxs \<subseteq> {..<room 16} - {j1, j2}" using d(5) rg by (auto simp: fl_ok_def)
    then have "card (set nxs) \<le> card ({..<room 16} - {j1, j2})" by (rule card_mono [rotated]) simp
    also have "\<dots> = room 16 - 2" using rg(1-3) by (subst card_Diff_subset) auto
    finally show ?thesis using distinct_card [OF fl_ok_distinct [OF d(5)]] by (simp add: room_def)
  qed
  obtain s3 where s3: "node_release (Some ?n1) s2 = Inr s3" "meta_ok s3 pv pn pa vxs (j1 # nxs) axs"
    "km_heap s3 ?n1 = \<lparr>nd_data = Some 0, nd_next = Some 0\<rparr>"
    "\<forall>x. \<not> in_range pn 4096 x \<longrightarrow> km_heap s3 x = km_heap s2 x \<and> km_va s3 x = km_va s2 x \<and> km_vs s3 x = km_vs s2 x"
    using node_release_ok [OF m2 rg(2,4) nx] by blast
  define t where "t = s3\<lparr>meta_va := Some pa, sl_va := unlocked\<rparr>"
  have run: "vir_release_pages (Some r) b False s = Inr t"
    unfolding vir_release_pages_def nonnull_simps
    by (simp add: fv nl dat1 adj s3(1,3) vaddr_release_zero [OF s3(2)] t_def)
  note ro = off_pages_books [OF i(1,2)]
  have r: "r \<notin> set [?v, ?n2, ?n1]" "\<not> in_range pn 4096 r" using ro(2) [OF i(6)] ro(3) rg i(2) by (auto simp: off_pages_def)
  have v: "\<not> in_range pn 4096 ?v" using pages_apart [OF d(1,2,7)] elem_in_page [OF d(1) _ i(6)] by auto
  have rt: "km_vs t r = km_vs s r" "km_heap t r = km_heap s r" using s3(4) r rm(5) by (simp_all add: t_def s2_def s1_def set_vs_def)
  have "root_at t r" by (rule root_at_frame [OF A(1)]) (use rt in auto)
  moreover have "meta_ok t pv pn pa vxs (j1 # nxs) axs" using s3(2) by (simp add: t_def meta_ok_def meta_page_def fl_ok_def)
  ultimately have "vm_start t r nv (Suc nn) na" using i(2-5) unfolding vm_start_def by (metis length_Cons)
  moreover have "vs_begin (km_vs t ?v) = b + l1 * PGSIZE" using s3(4) v A(6) by (simp add: t_def s2_def s1_def set_vs_def)
  ultimately show ?thesis using run rt(1) A(2) by auto
qed

text \<open>
  Releasing the range that was taken last. Its vaddr object stays taken: the code looks for it in the node that it has just
  cleared.
\<close>

lemma elem_not_in_slot:
  assumes "page_addr p" and "i < room 16" and "j < room 16" and "i \<noteq> j"
  shows "\<not> in_range (slot p 16 i) 16 (elem p 16 j)"
proof
  assume "in_range (slot p 16 i) 16 (elem p 16 j)"
  moreover have "unat (slot p 16 i) = unat p + 28 + i * 16" using unat_slot [OF assms(1), of i 16] assms(2) by simp
  moreover have "unat (elem p 16 j) = unat p + 36 + j * 16" using elem_unat [OF assms(1,3)] by (simp add: elem_def)
  ultimately have "i * 16 \<le> 8 + j * 16" "j * 16 < 8 + i * 16" by (simp_all add: in_range_def)
  then have "i = j" by linarith
  then show False using assms(4) by simp
qed

lemma slot_in_page_range: "page_addr p \<Longrightarrow> i < room 16 \<Longrightarrow> in_range (slot p 16 i) 16 x \<Longrightarrow> in_range p 4096 x"
  using unat_slot [of p i 16] by (simp add: in_range_def room_def)

lemma release_newest:
  assumes inv: "vm_inv s r b (e + l * PGSIZE) ((e, l) # rs) nv nn na" and rs: "rs \<noteq> []" and be: "b \<le> e" "e < e + l * PGSIZE"
  shows "\<exists>t. vir_release_pages (Some r) e False s = Inr t \<and> vm_inv t r b e rs nv (Suc nn) na \<and> km_mach t = km_mach s \<and> km_kern t = km_kern s"
proof -
  from inv obtain pv pn pa vxs nxs axs iv js0 ks0 where i: "meta_ok s pv pn pa vxs nxs axs" "off_pages pv pn pa r"
    "length vxs = nv" "length nxs = nn" "length axs = na" "iv < room 32" "iv \<notin> set vxs" "distinct js0" "set js0 \<subseteq> {..<room 16} - set nxs"
    "distinct ks0" "set ks0 \<subseteq> {..<room 16} - set axs"
    and at0: "vm_at s r (elem pv 32 iv) b (e + l * PGSIZE) (map (elem pn 16) js0) (map (elem pa 16) ks0) ((e, l) # rs)" unfolding vm_inv_def by blast
  have "length js0 = Suc (length rs)" "length ks0 = Suc (length rs)" using at0 by (simp_all add: vm_at_def)
  then obtain j js k ks where jk: "js0 = j # js" "ks0 = k # ks" "length js = length rs" "length ks = length rs" by (auto simp: length_Suc_conv)
  note d = meta_okD [OF i(1)]
  let ?v = "elem pv 32 iv" and ?n = "elem pn 16 j" and ?d = "elem pa 16 k" and ?ns = "map (elem pn 16) js" and ?ds = "map (elem pa 16) ks"
  have rg: "j < room 16" "k < room 16" "j \<notin> set js" "j \<notin> set nxs" "k \<notin> set ks" and jr: "\<And>x. x \<in> set js \<or> x \<in> set ks \<Longrightarrow> x < room 16"
    using i(8-11) jk by auto
  note at = at0 [unfolded vm_at_def jk list.map]
  have A: "root_at s r" "vs_next (km_vs s r) = Some ?v" "vs_end (km_vs s r) = b" "list_rep (km_heap s) (vs_list (km_vs s ?v)) (?n # ?ns)"
    "ls_null (vs_list (km_vs s ?v)) = ?v" "vs_begin (km_vs s ?v) = b" "vs_end (km_vs s ?v) = e + l * PGSIZE" "vs_next (km_vs s ?v) = None"
    using at by blast+
  have all: "\<forall>q < length (?n # ?ns). nd_data (km_heap s ((?n # ?ns) ! q)) = Some ((?d # ?ds) ! q)
        \<and> km_va s ((?d # ?ds) ! q) = \<lparr>va_va = fst (((e, l) # rs) ! q), va_length = snd (((e, l) # rs) ! q)\<rparr>" using at by blast
  have dat: "nd_data (km_heap s ?n) = Some ?d" "km_va s ?d = \<lparr>va_va = e, va_length = l\<rparr>" using all [rule_format, of 0] by simp_all
  have dats: "nd_data (km_heap s (?ns ! q)) = Some (?ds ! q) \<and> km_va s (?ds ! q) = \<lparr>va_va = fst (rs ! q), va_length = snd (rs ! q)\<rparr>"
    if "q < length ?ns" for q using all [rule_format, of "Suc q"] that by simp
  obtain n where n: "MAX_CHAIN = Suc (Suc n)" using MAX_CHAIN_Suc2 by blast
  have fv: "find_vs MAX_CHAIN None (Some r) e s = Inr (Some r, ?v)" using A(2,3,6,7) be by (simp add: n not_less)
  have lf: "list_find (km_heap s) (Some (vs_list (km_vs s ?v))) 1 = Inr (Some ?n)" using list_find_rep [OF A(4), of 1] by simp
  obtain h l' where rm: "list_remove (km_heap s) (Some (vs_list (km_vs s ?v))) 1 = Inr (?n, h, l')" "list_rep h l' ?ns" "ls_null l' = ?v"
    "\<forall>a. nd_data (h a) = nd_data (km_heap s a)" "\<forall>a. a \<notin> set (?v # ?n # ?ns) \<longrightarrow> h a = km_heap s a"
    using list_remove_rep [OF A(4), of 0] A(5) by auto
  define s1 where "s1 = set_vs ?v ((km_vs s ?v)\<lparr>vs_list := l'\<rparr>) (s\<lparr>km_heap := h\<rparr>)"
  have vr: "vs_remove ?v 1 s = Inr (?n, s1)" using rm(1) by (simp add: vs_remove_def s1_def)
  have nl: "node_loop MAX_CHAIN ?v (Some r) 1 e s = Inr (?n, LCT_BEGIN, None, s1)" using lf dat vr by (simp add: n)
  have dat1: "nd_data (km_heap s1 ?n) = Some ?d" "km_va s1 ?d = \<lparr>va_va = e, va_length = l\<rparr>"
    using rm(4) dat by (simp_all add: s1_def set_vs_def)
  have "js \<noteq> []" using rs jk(3) by auto
  then have emp: "vs_isempty ?v s1 = Inr False" using list_isempty_rep [OF rm(2)] by (simp add: vs_isempty_def s1_def set_vs_def)
  define s2 where "s2 = set_vs ?v ((km_vs s1 ?v)\<lparr>vs_end := vs_end (km_vs s1 ?v) - l * PGSIZE\<rparr>) s1"
  have adj: "adjust_vs ?v (Some r) l LCT_BEGIN None \<lparr>va_va = e, va_length = l\<rparr> s1 = Inr s2"
    using emp by (simp add: adjust_vs_def s2_def Let_def)
  have nb: "?v \<notin> books pv pn pa" "?n \<notin> books pv pn pa" "set ?ns \<inter> books pv pn pa = {}"
    using elem_not_books [OF i(1)] i(6) rg jr by auto
  then have out: "set (?v # ?n # ?ns) \<inter> books pv pn pa = {}" by auto
  have m2: "meta_ok s2 pv pn pa vxs nxs axs"
  proof (rule meta_ok_heap [OF i(1)])
    fix x assume "x \<in> books pv pn pa"
    then have "x \<notin> set (?v # ?n # ?ns)" using out by blast
    then show "km_heap s2 x = km_heap s x" using rm(5) by (simp add: s2_def s1_def set_vs_def)
  qed (simp_all add: s2_def s1_def set_vs_def)
  have nx: "Suc (length nxs) < room 16"
  proof -
    obtain j2 where j2: "j2 \<in> set js" using \<open>js \<noteq> []\<close> by (cases js) auto
    then have j2: "j2 < room 16" "j2 \<noteq> j" "j2 \<notin> set nxs" using jr i(9) jk(1) rg(3) by auto
    have "set nxs \<subseteq> {..<room 16} - {j2, j}" using d(5) rg j2 by (auto simp: fl_ok_def)
    then have "card (set nxs) \<le> card ({..<room 16} - {j2, j})" by (rule card_mono [rotated]) simp
    also have "\<dots> = room 16 - 2" using rg(1) j2 by (subst card_Diff_subset) auto
    finally show ?thesis using distinct_card [OF fl_ok_distinct [OF d(5)]] by (simp add: room_def)
  qed
  obtain s3 where s3: "node_release (Some ?n) s2 = Inr s3" "meta_ok s3 pv pn pa vxs (j # nxs) axs"
    "km_heap s3 ?n = \<lparr>nd_data = Some 0, nd_next = Some 0\<rparr>" "km_mach s3 = km_mach s2" "km_kern s3 = km_kern s2"
    "\<forall>x. \<not> in_range pn 4096 x \<longrightarrow> km_heap s3 x = km_heap s2 x \<and> km_va s3 x = km_va s2 x \<and> km_vs s3 x = km_vs s2 x"
    "\<forall>x. \<not> in_range (slot pn 16 j) 16 x \<longrightarrow> x \<notin> book pn 16 \<longrightarrow> km_heap s3 x = km_heap s2 x"
    using node_release_ok [OF m2 rg(1,4) nx] by blast
  define t where "t = s3\<lparr>meta_va := Some pa, sl_va := unlocked\<rparr>"
  have run: "vir_release_pages (Some r) e False s = Inr t"
    unfolding vir_release_pages_def nonnull_simps
    by (simp add: fv nl dat1 adj s3(1,3) vaddr_release_zero [OF s3(2)] t_def)
  note ro = off_pages_books [OF i(1,2)]
  have r: "r \<notin> set (?v # ?n # ?ns)" "\<not> in_range pn 4096 r" using ro(2) [OF i(6)] ro(3) rg i(2) jr by (auto simp: off_pages_def)
  have v: "\<not> in_range pn 4096 ?v" using pages_apart [OF d(1,2,7)] elem_in_page [OF d(1) _ i(6)] by auto
  have pd: "\<not> in_range pn 4096 (elem pa 16 x)" if "x < room 16" for x
    using pages_apart [OF d(2,3,9)] elem_in_page [OF d(3) _ that] by auto
  have hv: "km_heap t x = h x" if "x \<in> set (?v # ?ns)" for x
  proof (cases "x = ?v")
    case True
    then show ?thesis using s3(6) v by (simp add: t_def s2_def s1_def set_vs_def)
  next
    case False
    then obtain q where q: "q \<in> set js" "x = elem pn 16 q" using \<open>x \<in> set (?v # ?ns)\<close> by auto
    then have "\<not> in_range (slot pn 16 j) 16 x" using elem_not_in_slot [OF d(2) rg(1), of q] jr rg(3) by auto
    moreover have "x \<notin> book pn 16" using nb(3) that False by (auto simp: books_def)
    ultimately show ?thesis using s3(7) by (simp add: t_def s2_def s1_def set_vs_def)
  qed
  have rt: "km_vs t r = km_vs s r" "km_heap t r = km_heap s r" using s3(6) r rm(5) by (simp_all add: t_def s2_def s1_def set_vs_def)
  have tv: "km_vs t ?v = (km_vs s ?v)\<lparr>vs_list := l', vs_end := e\<rparr>" using s3(6) v A(7) by (simp add: t_def s2_def s1_def set_vs_def)
  have "list_rep (km_heap t) l' ?ns" using list_rep_frame [of l' ?ns "km_heap t" h] hv rm(2,3) by simp
  moreover have "nd_data (km_heap t (?ns ! q)) = Some (?ds ! q) \<and> km_va t (?ds ! q) = \<lparr>va_va = fst (rs ! q), va_length = snd (rs ! q)\<rparr>"
    if q: "q < length ?ns" for q
  proof -
    have "?ns ! q \<in> set (?v # ?ns)" using q by (simp add: nth_mem)
    moreover have "\<not> in_range pn 4096 (?ds ! q)" using pd jr q jk(3,4) by simp
    ultimately show ?thesis using hv rm(4) dats [OF q] s3(6) by (simp add: t_def s2_def s1_def set_vs_def)
  qed
  moreover have "root_at t r" by (rule root_at_frame [OF A(1)]) (use rt in auto)
  ultimately have "vm_at t r ?v b e ?ns ?ds rs" using A rt(1) tv jk(3,4) rm(3) by (simp add: vm_at_def)
  moreover have "meta_ok t pv pn pa vxs (j # nxs) axs" using s3(2) by (simp add: t_def meta_ok_def meta_page_def fl_ok_def)
  moreover have "distinct js" "set js \<subseteq> {..<room 16} - set (j # nxs)" "distinct ks" "set ks \<subseteq> {..<room 16} - set axs"
    using i(8-11) jk rg(3) by auto
  moreover have "length (j # nxs) = Suc nn" using i(4) by simp
  ultimately have "vm_inv t r b e rs nv (Suc nn) na" using i(2,3,5-7) rs unfolding vm_inv_def by blast
  moreover have "km_mach t = km_mach s" "km_kern t = km_kern s" using s3(4,5) by (simp_all add: t_def s2_def s1_def set_vs_def)
  ultimately show ?thesis using run by blast
qed

text \<open>The space does not depend on the machine, nor on nodes below the metadata other than its own.\<close>

lemma vm_inv_mach [simp]: "vm_inv (s\<lparr>km_mach := m\<rparr>) r b e rs nv nn na = vm_inv s r b e rs nv nn na"
  by (simp add: vm_inv_def meta_ok_def meta_page_def fl_ok_def vm_at_def root_at_def)

lemma meta_page_high:
  assumes "KERN_METADATA \<le> p" and "in_range p 4096 x"
  shows "KERN_METADATA \<le> x"
  using assms by (simp add: in_range_def word_le_nat_alt)

lemma vm_inv_low:
  assumes inv: "vm_inv s r b e rs nv nn na" and h: "\<And>x. KERN_METADATA \<le> x \<or> x = r \<Longrightarrow> h x = km_heap s x"
  shows "vm_inv (s\<lparr>km_heap := h\<rparr>) r b e rs nv nn na"
proof -
  let ?t = "s\<lparr>km_heap := h\<rparr>"
  from inv obtain pv pn pa vxs nxs axs iv js ks where i: "meta_ok s pv pn pa vxs nxs axs" "off_pages pv pn pa r"
    "length vxs = nv" "length nxs = nn" "length axs = na" "iv < room 32" "iv \<notin> set vxs" "distinct js" "set js \<subseteq> {..<room 16} - set nxs"
    "distinct ks" "set ks \<subseteq> {..<room 16} - set axs" "rs \<noteq> []"
    and at: "vm_at s r (elem pv 32 iv) b e (map (elem pn 16) js) (map (elem pa 16) ks) rs" unfolding vm_inv_def by blast
  note d = meta_okD [OF i(1)]
  have hi: "KERN_METADATA \<le> pv" "KERN_METADATA \<le> pn" "KERN_METADATA \<le> pa" using i(1) by (simp_all add: meta_ok_def meta_page_def)
  have hv: "h (elem pv 32 iv) = km_heap s (elem pv 32 iv)"
    by (rule h, rule disjI1, rule meta_page_high [OF hi(1) elem_in_page [OF d(1) _ i(6)]]) simp
  have hn: "h (elem pn 16 j) = km_heap s (elem pn 16 j)" if "j \<in> set js" for j
    by (rule h, rule disjI1, rule meta_page_high [OF hi(2) elem_in_page [OF d(2)]]) (use that i(9) in auto)
  have m: "meta_ok ?t pv pn pa vxs nxs axs"
  proof (rule meta_ok_heap [OF i(1)])
    fix x assume "x \<in> books pv pn pa"
    then have "KERN_METADATA \<le> x"
      using meta_page_high [OF hi(1)] meta_page_high [OF hi(2)] meta_page_high [OF hi(3)]
        book_in_page [OF d(1), of 32 x] book_in_page [OF d(2), of 16 x] book_in_page [OF d(3), of 16 x] by (auto simp: books_def)
    then show "km_heap ?t x = km_heap s x" using h by simp
  qed simp_all
  note A = at [unfolded vm_at_def]
  have null: "ls_null (vs_list (km_vs s (elem pv 32 iv))) = elem pv 32 iv" using A by blast
  have fr: "nd_next (h x) = nd_next (km_heap s x)" if "x \<in> set (ls_null (vs_list (km_vs s (elem pv 32 iv))) # map (elem pn 16) js)" for x
    using that hv hn unfolding null by auto
  have "root_at ?t r" by (rule root_at_frame) (use A h in auto)
  moreover have "list_rep (km_heap ?t) (vs_list (km_vs s (elem pv 32 iv))) (map (elem pn 16) js)"
    using list_rep_frame [of "vs_list (km_vs s (elem pv 32 iv))" "map (elem pn 16) js" h "km_heap s", OF fr] A by simp
  ultimately have "vm_at ?t r (elem pv 32 iv) b e (map (elem pn 16) js) (map (elem pa 16) ks) rs"
    using A hn unfolding vm_at_def by auto
  then show ?thesis using i(2-12) m unfolding vm_inv_def by blast
qed

subsection \<open>The ranges of successive requests\<close>

lemma pages_of_take_mono: "i \<le> j \<Longrightarrow> pages_of (take i ls) \<le> pages_of (take j ls)"
proof (induction ls arbitrary: i j)
  case (Cons l ls) then show ?case by (cases i; cases j) simp_all
qed simp

lemma pages_of_take_Suc: "i < length ls \<Longrightarrow> pages_of (take (Suc i) ls) = pages_of (take i ls) + unat (ls ! i)"
  by (simp add: take_Suc_conv_app_nth pages_of_def)

lemma pages_of_take_le: "pages_of (take i ls) \<le> pages_of ls"
  by (metis append_take_drop_id le_add1 map_append pages_of_def sum_list_append)

lemma alloc_seq_start:
  assumes st: "vm_start s r (Suc nv) nn na" "vs_next (km_vs s r) = None" and n: "length ls \<le> nn" "length ls \<le> na"
    and z: "0 \<notin> set ls" and mx: "unat b + 4096 * pages_of ls < unat (max_end_of b)"
  shows "\<exists>as t. alloc_seq ls r b s = Inr (as, t) \<and> length as = length ls
     \<and> (\<forall>i < length ls. unat (as ! i) = unat b + 4096 * pages_of (take i ls))"
proof (cases ls)
  case (Cons l ls')
  have b: "unat (max_end_of b) < 4294967296" by simp
  have lt: "unat b + 4096 * unat l < unat (max_end_of b)" using mx Cons by simp
  then have ub: "unat (b + l * PGSIZE) = unat b + 4096 * unat l" using b by (intro unat_end) linarith
  then have ng: "\<not> b + l * PGSIZE \<ge> max_end_of b" using lt by (simp add: word_le_nat_alt)
  obtain nn' na' where c: "nn = Suc (length ls' + nn')" "na = Suc (length ls' + na')"
    using n Cons by (auto simp: le_iff_add)
  obtain t where t: "vir_alloc_pages (Some r) l b s = Inr (b, t)"
    "vm_inv t r b (b + l * PGSIZE) [(b, l)] nv (length ls' + nn') (length ls' + na')"
    using vir_alloc_first [of s r nv _ _ l b] st ng z Cons by (auto simp: c)
  have "unat (b + l * PGSIZE) + 4096 * pages_of ls' < unat (max_end_of b)" using mx ub Cons by simp
  with alloc_seq_ok [OF t(2)] z Cons obtain as u where u: "alloc_seq ls' r b t = Inr (as, u)" "length as = length ls'"
    "\<forall>i < length ls'. unat (as ! i) = unat b + 4096 * unat l + 4096 * pages_of (take i ls')" using ub by auto
  then show ?thesis using t(1) by (auto simp: Cons less_Suc_eq_0_disj)
qed simp

text \<open>C5: on a task's fresh address space a sequence of requests is served, each by a range of its own: a later range
  starts after the end of every earlier one. The requests are of at least a page each and fit together below the end of
  the region, a vspace object is free, and there are as many requests at most as the metadata pages in use have room for
  nodes and for ranges, 254 on fresh pages (the step to a further page of metadata is not part of this).\<close>

theorem vir_alloc_disjoint:
  assumes "vm_start s r (Suc nv) nn na" and "vs_next (km_vs s r) = None" and "length ls \<le> nn" and "length ls \<le> na"
    and "0 \<notin> set ls" and "unat b + 4096 * pages_of ls < unat (max_end_of b)"
  shows "\<exists>as t. alloc_seq ls r b s = Inr (as, t) \<and> length as = length ls
    \<and> (\<forall>i < length ls. b \<le> as ! i \<and> unat (as ! i) + 4096 * unat (ls ! i) < unat (max_end_of b))
    \<and> (\<forall>j < length ls. \<forall>i < j. unat (as ! i) + 4096 * unat (ls ! i) \<le> unat (as ! j))"
proof -
  obtain as t where as: "alloc_seq ls r b s = Inr (as, t)" "length as = length ls"
    "\<forall>i < length ls. unat (as ! i) = unat b + 4096 * pages_of (take i ls)"
    using alloc_seq_start [OF assms] by blast
  have e: "unat (as ! i) + 4096 * unat (ls ! i) = unat b + 4096 * pages_of (take (Suc i) ls)" if "i < length ls" for i
    using as(3) that pages_of_take_Suc [OF that] by simp
  have "unat (as ! i) + 4096 * unat (ls ! i) < unat (max_end_of b)" if "i < length ls" for i
    using e [OF that] pages_of_take_le [of "Suc i" ls] assms(6) by linarith
  moreover have "unat (as ! i) + 4096 * unat (ls ! i) \<le> unat (as ! j)" if "j < length ls" "i < j" for i j
    using e [of i] as(3) that pages_of_take_mono [of "Suc i" j ls] by simp
  moreover have "b \<le> as ! i" if "i < length ls" for i using as(3) that by (simp add: word_le_nat_alt)
  ultimately show ?thesis using as(1,2) by blast
qed

subsection \<open>A task's space on three pages\<close>

lemma vm_start_exists:
  "\<exists>s. vm_start s 0x1000 (room 32) (room 16) (room 16) \<and> vs_next (km_vs s 0x1000) = None"
proof -
  let ?k = "kmem_sample\<lparr>km_heap := (km_heap kmem_sample)(0x1000 := \<lparr>nd_data = Some 0, nd_next = None\<rparr>),
      km_vs := (km_vs kmem_sample)(0x1000 := \<lparr>vs_list = \<lparr>ls_null = 0x1000, ls_size = 0\<rparr>, vs_begin = 0, vs_end = 0, vs_next = None\<rparr>),
      meta_vs := Some 0xf0000000, meta_node := Some 0xf0001000, meta_va := Some 0xf0002000\<rparr>"
  note P = page_addr_sample
  obtain a where a: "fl_ok a 0xf0000000 32 [0..<room 32]" "off_page 0xf0000000 ?k a" "fl_next (km_fl a 0xf0000000) = None"
    using fmtlist_init_ok [OF P(1), of 32 24 ?k] by auto
  obtain b where b: "fl_ok b 0xf0001000 16 [0..<room 16]" "off_page 0xf0001000 a b" "fl_next (km_fl b 0xf0001000) = None"
    using fmtlist_init_ok [OF P(2), of 16 8 a] by auto
  obtain c where c: "fl_ok c 0xf0002000 16 [0..<room 16]" "off_page 0xf0002000 b c" "fl_next (km_fl c 0xf0002000) = None"
    using fmtlist_init_ok [OF P(3), of 16 8 b] by auto
  have K: "KERN_METADATA \<le> 0xf0000000" "KERN_METADATA \<le> 0xf0001000" "KERN_METADATA \<le> 0xf0002000"
    by (simp_all add: KERN_METADATA_def)
  have "meta_page a 0xf0000000 32 [0..<room 32]" using a K by (simp add: meta_page_def)
  from meta_page_frame [OF meta_page_frame [OF this P(2) _ b(2)] P(3) _ c(2)]
  have m1: "meta_page c 0xf0000000 32 [0..<room 32]" by simp
  have "meta_page b 0xf0001000 16 [0..<room 16]" using b K by (simp add: meta_page_def)
  from meta_page_frame [OF this P(3) _ c(2)] have m2: "meta_page c 0xf0001000 16 [0..<room 16]" by simp
  have m3: "meta_page c 0xf0002000 16 [0..<room 16]" using c K by (simp add: meta_page_def)
  have off: "off_pages 0xf0000000 0xf0001000 0xf0002000 0x1000" by (simp add: off_pages_def in_range_def)
  have fr: "km_heap c 0x1000 = km_heap ?k 0x1000" "km_vs c 0x1000 = km_vs ?k 0x1000"
    using a(2) b(2) c(2) off by (simp_all add: off_page_def off_pages_def)
  have rest: "meta_vs c = meta_vs ?k" "meta_node c = meta_node ?k" "meta_va c = meta_va ?k" "sl_vs c = sl_vs ?k"
      "sl_ata c = sl_ata ?k" "sl_va c = sl_va ?k"
    using a(2) b(2) c(2) by (simp_all only: off_page_def)
  have "meta_ok c 0xf0000000 0xf0001000 0xf0002000 [0..<room 32] [0..<room 16] [0..<room 16]"
    using m1 m2 m3 rest by (simp add: meta_ok_def kmem_sample_def)
  moreover have "root_at c 0x1000" using fr by (simp add: root_at_def list_rep_def)
  moreover have "vs_next (km_vs c 0x1000) = None" using fr by simp
  ultimately show ?thesis using off unfolding vm_start_def by (metis length_upt minus_nat.diff_0)
qed

theorem vir_alloc_disjoint_witness:
  "\<exists>s as t. alloc_seq [1, 2, 3] 0x1000 0x40000000 s = Inr (as, t)
    \<and> unat (as ! 0) + 4096 * unat ([1, 2, 3 :: u32] ! 0) \<le> unat (as ! 2)"
proof -
  obtain s where s: "vm_start s 0x1000 (Suc 126) 254 254" "vs_next (km_vs s 0x1000) = None"
    using vm_start_exists by (auto simp: room_def)
  have mx: "unat (0x40000000 :: u32) + 4096 * pages_of [1, 2, 3] < unat (max_end_of 0x40000000)"
    by (simp add: max_end_of_def KERN_HIGH_MAPPING_def KERN_METADATA_def)
  obtain as t where a: "alloc_seq [1, 2, 3] 0x1000 0x40000000 s = Inr (as, t)"
    "\<forall>j < length [1, 2, 3 :: u32]. \<forall>i < j. unat (as ! i) + 4096 * unat ([1, 2, 3 :: u32] ! i) \<le> unat (as ! j)"
    using vir_alloc_disjoint [OF s, of "[1, 2, 3]" "0x40000000"] mx by auto
  have "2 < length [1, 2, 3 :: u32]" "0 < (2 :: nat)" by simp_all
  then have "unat (as ! 0) + 4096 * unat ([1, 2, 3 :: u32] ! 0) \<le> unat (as ! 2)" using a(2) by blast
  then show ?thesis using a(1) by blast
qed

subsection \<open>A range that is handed out twice\<close>

text \<open>The three allocations and the release of the property below.\<close>

definition alloc_free_alloc :: "u32 \<Rightarrow> u32 \<Rightarrow> kmem \<Rightarrow> (u32 \<times> u32 \<times> u32 \<times> u32 \<times> kmem) res" where
  "alloc_free_alloc r b s =
     bindr (vir_alloc_pages (Some r) 1 b s) (\<lambda>(a1, s).
     bindr (vir_alloc_pages (Some r) 1 b s) (\<lambda>(a2, s).
     bindr (vir_release_pages (Some r) a1 False s) (\<lambda>s.
     bindr (vir_alloc_pages (Some r) 1 b s) (\<lambda>(a3, s).
     bindr (vir_alloc_pages (Some r) 1 b s) (\<lambda>(a4, s). Inr (a1, a2, a3, a4, s))))))"

text \<open>Vir_alloc_pages hands out a range that is in use: after two requests of a page and the release of the
  first, the next request takes the page before the vspace of the second and makes its vspace the end of the
  chain, so the request after it gets the address of the second range, which was never released.\<close>

theorem vir_alloc_overlap:
  assumes "vm_start s r (Suc (Suc nv)) (Suc (Suc (Suc nn))) (Suc (Suc (Suc (Suc na))))" and "vs_next (km_vs s r) = None"
    and "unat b + 8192 < unat (max_end_of b)"
  shows "\<exists>t. alloc_free_alloc r b s = Inr (b, b + PGSIZE, b, b + PGSIZE, t)"
proof -
  have "unat (max_end_of b) < 4294967296" by simp
  then have small: "unat b + 8192 < 4294967296" using assms(3) by linarith
  then have u: "unat (b + PGSIZE) = unat b + 4096" using unat_end [of b 1] by simp
  then have u2: "unat (b + PGSIZE + PGSIZE) = unat b + 8192" using unat_end [of "b + PGSIZE" 1] small by simp
  have ng: "\<not> b + 1 * PGSIZE \<ge> max_end_of b" "\<not> b + PGSIZE + 1 * PGSIZE \<ge> max_end_of b"
    using u u2 assms(3) by (simp_all add: word_le_nat_alt)
  have lt: "b + PGSIZE \<noteq> b" "b < b + PGSIZE + PGSIZE" using u u2 by (auto simp: word_less_nat_alt simp del: add_left_cancel)
  obtain t1 where t1: "vir_alloc_pages (Some r) 1 b s = Inr (b, t1)"
    "vm_inv t1 r b (b + PGSIZE) [(b, 1)] (Suc nv) (Suc (Suc nn)) (Suc (Suc (Suc na)))"
    using vir_alloc_first [OF assms(1), of 1 b] assms(2) ng(1) by auto
  obtain t2 where t2: "vir_alloc_pages (Some r) 1 b t1 = Inr (b + PGSIZE, t2)"
    "vm_inv t2 r b (b + PGSIZE + PGSIZE) [(b + PGSIZE, 1), (b, 1)] (Suc nv) (Suc nn) (Suc (Suc na))"
    using vir_alloc_next(1) [OF t1(2) _ ng(2)] by auto
  obtain t3 v where t3: "vir_release_pages (Some r) b False t2 = Inr t3" "vm_start t3 r (Suc nv) (Suc (Suc nn)) (Suc (Suc na))"
    "vs_next (km_vs t3 r) = Some v" "vs_begin (km_vs t3 v) = b + PGSIZE"
    using release_lower [OF t2(2) lt] by auto
  have "(vs_begin (km_vs t3 v) - b) div PGSIZE = 1" by (simp add: t3(4) PGSIZE_def)
  then obtain t4 where t4: "vir_alloc_pages (Some r) 1 b t3 = Inr (b, t4)"
    "vm_inv t4 r b (b + PGSIZE) [(b, 1)] nv (Suc nn) (Suc na)"
    using vir_alloc_first [OF t3(2), of 1 b] t3(3) by auto
  obtain t5 where t5: "vir_alloc_pages (Some r) 1 b t4 = Inr (b + PGSIZE, t5)"
    using vir_alloc_next(1) [OF t4(2) _ ng(2)] by auto
  show ?thesis using t1(1) t2(1) t3(1) t4(1) t5 by (simp add: alloc_free_alloc_def)
qed

theorem vir_alloc_overlap_witness:
  "\<exists>s t. alloc_free_alloc 0x1000 0x40000000 s = Inr (0x40000000, 0x40001000, 0x40000000, 0x40001000, t)"
proof -
  obtain s where s: "vm_start s 0x1000 (Suc (Suc 125)) (Suc (Suc (Suc 251))) (Suc (Suc (Suc (Suc 250))))"
    "vs_next (km_vs s 0x1000) = None" using vm_start_exists by (auto simp: room_def)
  have mx: "unat (0x40000000 :: u32) + 8192 < unat (max_end_of 0x40000000)"
    by (simp add: max_end_of_def KERN_HIGH_MAPPING_def KERN_METADATA_def)
  show ?thesis using vir_alloc_overlap [OF s mx] by (auto simp: PGSIZE_def)
qed

end
