(* ===== verification/Tasks.thy ===== *)
theory Tasks
  imports Node_Queue Vspace Interrupts
begin

section \<open>kern/sched/tasks.c and pcb.c: the tasks\<close>

text \<open>
  The scheduler's state: a queue of ready nodes, one of the running node, the lists of sleeping and
  of expired nodes, which all live in the kernel's heap of nodes; a node's data is the address of
  its PCB. The vspace inside a PCB (vmngr_) is the vspace object at the PCB's address + 16. A
  pointer in a PCB is \<open>None\<close> when it is the kernel's \<open>null\<close>; a PCB that was cleared holds \<open>Some 0\<close>.
  switch_to() is assembly: scheduler() yields the nodes that it passes to it, and what runs
  after it returns is \<open>resume\<close>.
\<close>

subsection \<open>State\<close>

record pcb =
  pcb_stack0 :: u32
  pcb_stack3 :: u32
  pcb_tid :: u32
  pcb_pgdir_pa :: u32
  pcb_ticks :: u32
  pcb_sleep :: "u32 option"
  pcb_hmngr :: "u32 option"
  pcb_fmngr :: "u32 option"
  pcb_break :: u32
  pcb_parent :: u32
  pcb_curdir :: "u32 option"

record tss =
  tss_ss0 :: u32
  tss_esp0 :: u32

record tasks =
  tk_mem :: kmem
  tk_ready :: queue
  tk_running :: queue
  tk_lock :: spinlock
  tk_sleeping :: llist
  tk_expired :: llist
  tk_pcb :: "u32 \<Rightarrow> pcb"
  tk_tss :: tss
  tk_intr :: bool

definition TIMETICKS :: u32 where "TIMETICKS = 16"
definition TID_HOO :: u32 where "TID_HOO = 0"

definition vmngr_of :: "u32 \<Rightarrow> u32" where
  "vmngr_of p = p + 16"

definition set_pcb_at :: "u32 \<Rightarrow> pcb \<Rightarrow> tasks \<Rightarrow> tasks" where
  "set_pcb_at p x s = s\<lparr>tk_pcb := (tk_pcb s)(p := x)\<rparr>"

abbreviation tk_heap :: "tasks \<Rightarrow> u32 heap" where
  "tk_heap s \<equiv> km_heap (tk_mem s)"

definition set_heap :: "u32 heap \<Rightarrow> tasks \<Rightarrow> tasks" where
  "set_heap h s = s\<lparr>tk_mem := (tk_mem s)\<lparr>km_heap := h\<rparr>\<rparr>"

text \<open>The PCB of a node.\<close>

definition node_pcb :: "u32 \<Rightarrow> tasks \<Rightarrow> u32 res" where
  "node_pcb n s = deref ''data_'' (nd_data (tk_heap s n))"

subsection \<open>pcb.c\<close>

text \<open>A null \<open>vmngr\<close> sets up an empty vspace; another vspace than the PCB's own is copied.\<close>

definition pcb_set :: "u32 option \<Rightarrow> u32 \<Rightarrow> u32 \<Rightarrow> u32 \<Rightarrow> u32 \<Rightarrow> u32 option \<Rightarrow> u32 \<Rightarrow> u32 option \<Rightarrow> u32 option
    \<Rightarrow> u32 option \<Rightarrow> u32 \<Rightarrow> u32 \<Rightarrow> u32 option \<Rightarrow> tasks \<Rightarrow> tasks res" where
  "pcb_set pcb s0 s3 tid pd_pa vmngr ticks sleep_on_here bucket fmngr brk parent curdir s =
     nonnull ''pcb_set(): null pointer'' pcb (\<lambda>p.
     if tid \<ge> 1024 then panic ''pcb_set(): thread id overflow''
     else
       bindr (case vmngr of
           None \<Rightarrow> vspace_set (Some (vmngr_of p)) None 0 0 None (tk_mem s)
         | Some v \<Rightarrow>
             Inr (if v \<noteq> vmngr_of p
               then set_vs (vmngr_of p)
                 ((km_vs (tk_mem s) v)\<lparr>vs_list := (vs_list (km_vs (tk_mem s) v))\<lparr>ls_null := vmngr_of p\<rparr>\<rparr>)
                 ((tk_mem s)\<lparr>km_heap := (km_heap (tk_mem s))(vmngr_of p := km_heap (tk_mem s) (ls_null (vs_list (km_vs (tk_mem s) v))))\<rparr>)
               else tk_mem s))
       (\<lambda>m.
       Inr (set_pcb_at p \<lparr>pcb_stack0 = s0, pcb_stack3 = s3, pcb_tid = tid, pcb_pgdir_pa = pd_pa, pcb_ticks = ticks,
              pcb_sleep = sleep_on_here, pcb_hmngr = bucket, pcb_fmngr = fmngr, pcb_break = brk, pcb_parent = parent,
              pcb_curdir = curdir\<rparr> (s\<lparr>tk_mem := m\<rparr>))))"

subsection \<open>tasks.c: the stack of a new task\<close>

text \<open>
  The words that are written, in order, and the new top of the ring0 stack. \<open>died\<close> is
  DIED_INSTRUCTION + KERN_HIGH_MAPPING; \<open>mode_ring3\<close> and \<open>isr_part3\<close> are addresses of assembly code.
\<close>

definition DIED_INSTRUCTION :: u32 where "DIED_INSTRUCTION = 0x77f0 * 16 + 0xfc"

definition setup_ring0_stack :: "u32 \<Rightarrow> u32 \<Rightarrow> u32 \<Rightarrow> u32 \<Rightarrow> u32 \<Rightarrow> u32 \<times> (u32 \<times> u32) list" where
  "setup_ring0_stack mode_ring3 isr_part3 r0 r3 entry =
     (let died = DIED_INSTRUCTION + KERN_HIGH_MAPPING;
          cpu = r0 - 4 - 4 - 4 - 20;
          os = cpu - 48;
          th = os - 4 in
      (th,
       [(r3 - 4, died), (r0 - 4, died), (r0 - 8, entry), (r0 - 12, r3 - 4),
        (cpu + 16, 0), (cpu + 12, ucast CS_SELECTOR_KERN), (cpu + 8, mode_ring3), (cpu + 4, 0), (cpu, 0),
        (os + 44, ucast DS_SELECTOR_KERN), (os + 40, ucast DS_SELECTOR_KERN), (os + 36, ucast DS_SELECTOR_KERN),
        (os + 32, ucast DS_SELECTOR_KERN), (os + 28, 0), (os + 24, 0), (os + 20, 0), (os + 16, 0),
        (os + 12, cpu - 16), (os + 8, 0), (os + 4, 0), (os, 0), (th, isr_part3)]))"

subsection \<open>tasks.c: the queues\<close>

definition task_ready :: "u32 option \<Rightarrow> tasks \<Rightarrow> tasks res" where
  "task_ready task s =
     bindr (wait (tk_lock s)) (\<lambda>l.
     bindr (queue_push (tk_heap s) (Some (tk_ready s)) task TAIL) (\<lambda>(h, q).
     Inr ((set_heap h s)\<lparr>tk_ready := q, tk_lock := signal l\<rparr>)))"

definition init_tasks_system :: "u32 \<Rightarrow> tasks \<Rightarrow> tasks res" where
  "init_tasks_system hoo_pcb s =
     bindr (queue_init (tk_heap s) (Some (tk_ready s))) (\<lambda>(h, q).
     let s = (set_heap h s)\<lparr>tk_ready := q\<rparr> in
     bindr (queue_init (tk_heap s) (Some (tk_running s))) (\<lambda>(h, q).
     let s = (set_heap h s)\<lparr>tk_running := q\<rparr> in
     bindr (list_init (tk_heap s) (Some (tk_sleeping s)) False) (\<lambda>(h, l).
     let s = (set_heap h s)\<lparr>tk_sleeping := l\<rparr> in
     bindr (list_init (tk_heap s) (Some (tk_expired s)) False) (\<lambda>(h, l).
     let s = (set_heap h s)\<lparr>tk_expired := l\<rparr> in
     bindr (spinlock_init (Some (tk_lock s))) (\<lambda>l.
     bindr (node_alloc (tk_mem s)) (\<lambda>(hoo_node, m).
     bindr (node_set (km_heap m) hoo_node (Some hoo_pcb) None) (\<lambda>h.
     bindr (queue_push h (Some (tk_running s)) hoo_node TAIL) (\<lambda>(h, q).
     Inr ((set_heap h (s\<lparr>tk_mem := m\<rparr>))\<lparr>tk_lock := l, tk_running := q\<rparr>)))))))))"

definition get_current_pcb :: "tasks \<Rightarrow> u32 res" where
  "get_current_pcb s =
     bindr (wait (tk_lock s)) (\<lambda>l.
     bindr (queue_front (tk_heap s) (Some (tk_running s))) (\<lambda>cur.
     nonnull ''get_current_pcb(): no current task'' cur (\<lambda>c.
     nonnull ''get_current_pcb(): current task is null'' (nd_data (tk_heap s c)) Inr)))"

subsection \<open>tasks.c: the scheduler\<close>

text \<open>Whether the running task keeps the processor, with its time slice used or renewed.\<close>

definition time_slice :: "u32 option \<Rightarrow> tasks \<Rightarrow> (bool \<times> tasks) res" where
  "time_slice cur s =
     (case cur of
       None \<Rightarrow> Inr (False, s)
     | Some c \<Rightarrow>
         bindr (node_pcb c s) (\<lambda>p.
         let x = tk_pcb s p in
         if pcb_sleep x \<noteq> None then Inr (False, s)
         else if 0 < pcb_ticks x then Inr (True, set_pcb_at p (x\<lparr>pcb_ticks := pcb_ticks x - 1\<rparr>) s)
         else Inr (False, set_pcb_at p (x\<lparr>pcb_ticks := TIMETICKS\<rparr>) s)))"

text \<open>The task that stops running goes to sleep or back to the end of the ready queue.\<close>

definition put_back :: "u32 option \<Rightarrow> tasks \<Rightarrow> tasks res" where
  "put_back cur s =
     (case cur of
       None \<Rightarrow> Inr s
     | Some c \<Rightarrow>
         bindr (node_pcb c s) (\<lambda>p.
         if pcb_sleep (tk_pcb s p) \<noteq> None then
           bindr (list_insert (tk_heap s) (Some (tk_sleeping s)) (Some c) (LSIDX_AFTAIL (tk_sleeping s))) (\<lambda>(h, l).
           Inr ((set_heap h s)\<lparr>tk_sleeping := l\<rparr>))
         else
           bindr (queue_push (tk_heap s) (Some (tk_ready s)) (Some c) TAIL) (\<lambda>(h, q).
           Inr ((set_heap h s)\<lparr>tk_ready := q\<rparr>))))"

text \<open>What a call of the scheduler comes to: it returns, or it calls switch_to(cur, next).\<close>

datatype outcome = Stay | Switch "u32 option" u32

definition scheduler :: "tasks \<Rightarrow> (outcome \<times> tasks) res" where
  "scheduler s =
     (if test (tk_lock s) \<noteq> 0 then Inr (Stay, s)
      else
        bindr (wait (tk_lock s)) (\<lambda>l.
        let s = s\<lparr>tk_lock := l\<rparr> in
        bindr (queue_front (tk_heap s) (Some (tk_running s))) (\<lambda>cur.
        bindr (time_slice cur s) (\<lambda>(keep, s).
        if keep then Inr (Stay, s\<lparr>tk_lock := signal (tk_lock s)\<rparr>)
        else
          bindr (queue_pop (tk_heap s) (Some (tk_ready s))) (\<lambda>(next, h, q).
          let s = (set_heap h s)\<lparr>tk_ready := q\<rparr> in
          case next of
            None \<Rightarrow> Inr (Stay, s\<lparr>tk_lock := signal (tk_lock s)\<rparr>)
          | Some n \<Rightarrow>
              bindr (queue_pop (tk_heap s) (Some (tk_running s))) (\<lambda>(cur, h, q).
              let s = (set_heap h s)\<lparr>tk_running := q\<rparr> in
              bindr (put_back cur s) (\<lambda>s.
              bindr (queue_push (tk_heap s) (Some (tk_running s)) (Some n) TAIL) (\<lambda>(h, q).
              let s = (set_heap h s)\<lparr>tk_running := q\<rparr> in
              bindr (node_pcb n s) (\<lambda>p.
              Inr (Switch cur n,
                s\<lparr>tk_tss := \<lparr>tss_ss0 = ucast DS_SELECTOR_KERN, tss_esp0 = PGUP (pcb_stack0 (tk_pcb s p)) PGSIZE\<rparr>,
                  tk_lock := signal (tk_lock s)\<rparr>))))))))))"

text \<open>The end of scheduler() after switch_to() has come back to the task.\<close>

definition resume :: "tasks \<Rightarrow> tasks" where
  "resume s = s\<lparr>tk_lock := signal (tk_lock s)\<rparr>"

subsection \<open>tasks.c: sleep and wakeup\<close>

text \<open>sleep() up to its call of the scheduler, and from there on.\<close>

definition sleep_enter :: "u32 option \<Rightarrow> spinlock \<Rightarrow> tasks \<Rightarrow> (u32 \<times> outcome \<times> spinlock \<times> tasks) res" where
  "sleep_enter resource lock s =
     nonnull ''sleep(): null pointer'' resource (\<lambda>r.
     if test lock = 0 then panic ''sleep(): invalid spinlock''
     else
       let s = s\<lparr>tk_intr := False\<rparr> in
       bindr (get_current_pcb s) (\<lambda>cur.
       bindr (scheduler (set_pcb_at cur ((tk_pcb s cur)\<lparr>pcb_sleep := Some r\<rparr>) s)) (\<lambda>(out, s).
       Inr (cur, out, signal lock, s))))"

definition sleep_leave :: "u32 \<Rightarrow> spinlock \<Rightarrow> tasks \<Rightarrow> (spinlock \<times> tasks) res" where
  "sleep_leave cur lock s =
     bindr (wait lock) (\<lambda>lock.
     Inr (lock, set_pcb_at cur ((tk_pcb s cur)\<lparr>pcb_sleep := None\<rparr>) (s\<lparr>tk_intr := True\<rparr>)))"

text \<open>
  A call of sleep(): when the scheduler switches, the task waits in \<open>sleep_enter\<close>'s outcome;
  when it returns at once, the call goes on.
\<close>

definition sleep :: "u32 option \<Rightarrow> spinlock \<Rightarrow> tasks \<Rightarrow> (outcome \<times> spinlock \<times> tasks) res" where
  "sleep resource lock s =
     bindr (sleep_enter resource lock s) (\<lambda>(cur, out, lock, s).
     case out of
       Stay \<Rightarrow> bindr (sleep_leave cur lock s) (\<lambda>(lock, s). Inr (Stay, lock, s))
     | Switch c n \<Rightarrow> Inr (Switch c n, lock, s))"

text \<open>Every round drops a node or passes one, so the fuel is the size of the list and one more.\<close>

fun wakeup_loop :: "nat \<Rightarrow> u32 \<Rightarrow> u32 option \<Rightarrow> tasks \<Rightarrow> tasks res" where
  "wakeup_loop 0 i resource s = Inl Spin"
| "wakeup_loop (Suc k) i resource s =
     (if i > ls_size (tk_sleeping s) then Inr s
      else
        bindr (list_find (tk_heap s) (Some (tk_sleeping s)) i) (\<lambda>f.
        bindr (deref ''list_find()'' f) (\<lambda>n.
        bindr (node_pcb n s) (\<lambda>p.
        if pcb_sleep (tk_pcb s p) = resource then
          bindr (list_remove (tk_heap s) (Some (tk_sleeping s)) i) (\<lambda>(to_wakeup, h, l).
          bindr (task_ready (Some to_wakeup) ((set_heap h s)\<lparr>tk_sleeping := l\<rparr>)) (\<lambda>s.
          wakeup_loop k i resource s))
        else wakeup_loop k (i + 1) resource s))))"

definition wakeup :: "u32 option \<Rightarrow> tasks \<Rightarrow> tasks res" where
  "wakeup resource s = wakeup_loop (Suc (unat (ls_size (tk_sleeping s)))) 1 resource s"

text \<open>
  wait_child() sleeps on the address \<open>sl\<close> of the lock that the caller gives; \<open>lock\<close> is its value.
\<close>

definition wait_child :: "u32 option \<Rightarrow> spinlock \<Rightarrow> tasks \<Rightarrow> (outcome \<times> spinlock \<times> tasks) res" where
  "wait_child sl lock s =
     nonnull ''wait_child(): null pointer'' sl (\<lambda>a.
     bindr (wait lock) (\<lambda>lock.
     bindr (sleep (Some a) lock s) (\<lambda>(out, lock, s).
     case out of
       Stay \<Rightarrow> Inr (Stay, signal lock, s)
     | Switch c n \<Rightarrow> Inr (Switch c n, lock, s))))"

end
