(* ===== verification/Threads.thy ===== *)
theory Threads
  imports Tasks Cur_Dir Files
begin

section \<open>kern/hoo and kern/mem/bucket.c: the tables of the threads\<close>

text \<open>
  Each kind of object that a thread owns is an element of a table of 1024, indexed by the thread's
  id: PCBs, bucket managers, current directories and file managers. The tables lie in pages that are
  mapped at the start; the pages of a table come with whatever the frames hold, so contents that
  the code does not clear are an argument. \<open>th_hoo\<close> is the address of the first PCB, which is static.
\<close>

subsection \<open>State\<close>

record buckx =
  bk_size :: u32
  bk_chain :: "u32 option"
  bk_next :: "u32 option"

record threads =
  th_tasks :: tasks
  th_hoo :: u32
  th_buck :: "u32 \<Rightarrow> buckx"
  mdata_buckmngr :: u32
  mdata_dir :: u32
  mdata_cd :: u32
  th_curdirs :: "curdir list"
  bitmap_buff :: u32
  files_array :: u32
  mdata_fmngr :: u32
  th_fmngrs :: "fmngr list"
  mdata_pcb :: u32
  sl_pcb :: spinlock
  tid_buff :: u32
  bm_tid :: bitmap
  sl_tid :: spinlock

definition MAX_BUCKET_SIZE :: nat where "MAX_BUCKET_SIZE = 8"
definition SIZEOF_PCB :: nat where "SIZEOF_PCB = 68"
definition SIZEOF_BUCKX :: nat where "SIZEOF_BUCKX = 12"
definition SIZEOF_CURDIR :: nat where "SIZEOF_CURDIR = 8"
definition SIZEOF_FMNGR :: nat where "SIZEOF_FMNGR = 16"
definition MAX_CURDIR_BUFF :: nat where "MAX_CURDIR_BUFF = 4096"

lemmas thread_sizes = MAX_BUCKET_SIZE_def SIZEOF_PCB_def SIZEOF_BUCKX_def SIZEOF_CURDIR_def SIZEOF_FMNGR_def MAX_CURDIR_BUFF_def
  MAX_TASKS_AMOUNT_def

abbreviation th_mem :: "threads \<Rightarrow> kmem" where
  "th_mem s \<equiv> tk_mem (th_tasks s)"

definition set_mem :: "kmem \<Rightarrow> threads \<Rightarrow> threads" where
  "set_mem m s = s\<lparr>th_tasks := (th_tasks s)\<lparr>tk_mem := m\<rparr>\<rparr>"

abbreviation th_pcb :: "threads \<Rightarrow> u32 \<Rightarrow> pcb" where
  "th_pcb s p \<equiv> tk_pcb (th_tasks s) p"

subsection \<open>The pages of a table\<close>

text \<open>A frame for every page from \<open>va\<close> on.\<close>

fun map_pages :: "u32 \<Rightarrow> nat \<Rightarrow> kmem \<Rightarrow> kmem res" where
  "map_pages va 0 s = Inr s"
| "map_pages va (Suc n) s =
     bindr (phy_alloc_page (pmst (km_mach s))) (\<lambda>(pa, pm).
     bindr (set_mapping va pa (PGFLAG_US OR PGFLAG_RW OR PGFLAG_PS) ((km_mach s)\<lparr>pmst := pm\<rparr>)) (\<lambda>m.
     map_pages (va + PGSIZE) n (s\<lparr>km_mach := m\<rparr>)))"

definition pages_for :: "nat \<Rightarrow> nat" where
  "pages_for bytes = (bytes + 4096 - 1) div 4096"

definition table_pages :: "u32 \<Rightarrow> nat \<Rightarrow> threads \<Rightarrow> (u32 \<times> threads) res" where
  "table_pages p n s =
     bindr (vir_alloc_pages (Some (vmngr_of p)) (word_of_nat n) (pcb_break (th_pcb s p)) (th_mem s)) (\<lambda>(va, m).
     bindr (map_pages va n m) (\<lambda>m.
     Inr (va, set_mem m s)))"

subsection \<open>bucket.c and thread_bucket.c\<close>

definition buckmngr_init :: "u32 option \<Rightarrow> u32 \<Rightarrow> u32 option \<Rightarrow> u32 option \<Rightarrow> threads \<Rightarrow> threads res" where
  "buckmngr_init mngr sz chain nxt s =
     nonnull ''buckmngr_init(): null pointer'' mngr (\<lambda>b.
     Inr (s\<lparr>th_buck := (th_buck s)(b := \<lparr>bk_size = sz, bk_chain = chain, bk_next = nxt\<rparr>)\<rparr>))"

definition buck_at :: "u32 \<Rightarrow> nat \<Rightarrow> u32" where
  "buck_at b i = b + word_of_nat (i * SIZEOF_BUCKX)"

fun bucket_loop :: "u32 \<Rightarrow> nat \<Rightarrow> nat \<Rightarrow> threads \<Rightarrow> threads res" where
  "bucket_loop b i 0 s = Inr s"
| "bucket_loop b i (Suc n) s =
     bindr (buckmngr_init (Some (buck_at b i)) (push_bit (i + 3) 1) None
         (if i = MAX_BUCKET_SIZE - 1 then None else Some (buck_at b (Suc i))) s)
       (bucket_loop b (Suc i) n)"

definition thread_buckmngr_init :: "u32 \<Rightarrow> threads \<Rightarrow> threads res" where
  "thread_buckmngr_init buckx s = bucket_loop buckx 0 MAX_BUCKET_SIZE s"

fun all_buckets :: "u32 \<Rightarrow> nat \<Rightarrow> nat \<Rightarrow> threads \<Rightarrow> threads res" where
  "all_buckets base i 0 s = Inr s"
| "all_buckets base i (Suc n) s =
     bindr (thread_buckmngr_init (buck_at base (i * MAX_BUCKET_SIZE)) s) (all_buckets base (Suc i) n)"

definition init_thread_buckmngr :: "u32 option \<Rightarrow> threads \<Rightarrow> threads res" where
  "init_thread_buckmngr pcb s =
     nonnull ''init_thread_buckmngr(): null pointer'' pcb (\<lambda>p.
     bindr (table_pages p (pages_for (MAX_BUCKET_SIZE * SIZEOF_BUCKX * MAX_TASKS_AMOUNT)) s) (\<lambda>(va, s).
     all_buckets va 0 MAX_TASKS_AMOUNT (s\<lparr>mdata_buckmngr := va\<rparr>)))"

definition thread_buckmngr_get :: "u32 \<Rightarrow> threads \<Rightarrow> u32 res" where
  "thread_buckmngr_get tid s =
     (if unat tid \<ge> MAX_TASKS_AMOUNT then panic ''thread_buckmngr_get(): thread id out of range''
      else Inr (buck_at (mdata_buckmngr s) (unat tid * MAX_BUCKET_SIZE)))"

definition thread_buckmngr_clear :: "u32 \<Rightarrow> threads \<Rightarrow> threads res" where
  "thread_buckmngr_clear tid s = bindr (thread_buckmngr_get tid s) (\<lambda>b. thread_buckmngr_init b s)"

subsection \<open>thread_curdir.c\<close>

text \<open>curdir_init clears the buffer, so what its pages hold does not matter.\<close>

fun all_curdirs :: "nat \<Rightarrow> curdir list res" where
  "all_curdirs 0 = Inr []"
| "all_curdirs (Suc n) =
     bindr (all_curdirs n) (\<lambda>cds.
     bindr (curdir_init (Some \<lparr>cd_dir = None, cd_dirlen = 0\<rparr>) (Some (replicate MAX_CURDIR_BUFF 0)) MAX_CURDIR_BUFF) (\<lambda>cd.
     Inr (cds @ [cd])))"

definition init_thread_curdir :: "u32 option \<Rightarrow> threads \<Rightarrow> threads res" where
  "init_thread_curdir pcb s =
     nonnull ''init_thread_curdir(): null pointer'' pcb (\<lambda>p.
     bindr (table_pages p (pages_for (MAX_CURDIR_BUFF * MAX_TASKS_AMOUNT)) s) (\<lambda>(dir, s).
     bindr (table_pages p (pages_for (SIZEOF_CURDIR * MAX_TASKS_AMOUNT)) (s\<lparr>mdata_dir := dir\<rparr>)) (\<lambda>(cd, s).
     bindr (all_curdirs MAX_TASKS_AMOUNT) (\<lambda>cds.
     Inr (s\<lparr>mdata_cd := cd, th_curdirs := cds\<rparr>)))))"

text \<open>The pointer that thread_curdir_get() of theory Cur_Dir yields as an index.\<close>

definition curdir_at :: "u32 \<Rightarrow> threads \<Rightarrow> u32 res" where
  "curdir_at tid s = bindr (thread_curdir_get tid) (\<lambda>i. Inr (mdata_cd s + word_of_nat (i * SIZEOF_CURDIR)))"

subsection \<open>thread_fmngr.c\<close>

text \<open>\<open>junk i\<close> is what the memory of the i-th array of files holds, which is not cleared.\<close>

fun all_fmngrs :: "(nat \<Rightarrow> u32 list) \<Rightarrow> nat \<Rightarrow> fmngr list res" where
  "all_fmngrs junk 0 = Inr []"
| "all_fmngrs junk (Suc i) =
     bindr (all_fmngrs junk i) (\<lambda>fs.
     bindr (bitmap_init (Some \<lparr>len_inbits = 0, bm_buff = [], prev_free = 0\<rparr>) (word_of_nat MAX_FILES_PER_TASK)
       (Some (replicate (MAX_FILES_PER_TASK div 8) 0))) (\<lambda>m.
     bindr (bitmap_set (Some m) FD_STDIN) (\<lambda>m.
     bindr (bitmap_set (Some m) FD_STDOUT) (\<lambda>m.
     bindr (bitmap_set (Some m) FD_STDERR) (\<lambda>m.
     Inr (fs @ [\<lparr>fd_set = m, fm_files = Some (junk i)\<rparr>]))))))"

definition init_thread_fmngr :: "(nat \<Rightarrow> u32 list) \<Rightarrow> u32 option \<Rightarrow> threads \<Rightarrow> threads res" where
  "init_thread_fmngr junk pcb s =
     nonnull ''init_thread_fmngr(): null pointer'' pcb (\<lambda>p.
     bindr (table_pages p (pages_for (MAX_FILES_PER_TASK div 8 * MAX_TASKS_AMOUNT)) s) (\<lambda>(bits, s).
     bindr (table_pages p (pages_for (4 * MAX_FILES_PER_TASK * MAX_TASKS_AMOUNT)) (s\<lparr>bitmap_buff := bits\<rparr>)) (\<lambda>(files, s).
     bindr (table_pages p (pages_for (SIZEOF_FMNGR * MAX_TASKS_AMOUNT)) (s\<lparr>files_array := files\<rparr>)) (\<lambda>(fm, s).
     bindr (all_fmngrs junk MAX_TASKS_AMOUNT) (\<lambda>fs.
     Inr (s\<lparr>mdata_fmngr := fm, th_fmngrs := fs\<rparr>))))))"

text \<open>The index of the manager in its table, and the pointer.\<close>

definition thread_fmngr_get :: "u32 \<Rightarrow> nat res" where
  "thread_fmngr_get tid =
     (if unat tid \<ge> MAX_TASKS_AMOUNT then panic ''thread_buckmngr_get(): thread id out of range'' else Inr (unat tid))"

definition fmngr_at :: "u32 \<Rightarrow> threads \<Rightarrow> u32 res" where
  "fmngr_at tid s = bindr (thread_fmngr_get tid) (\<lambda>i. Inr (mdata_fmngr s + word_of_nat (i * SIZEOF_FMNGR)))"

definition thread_fmngr_clear :: "u32 \<Rightarrow> threads \<Rightarrow> threads res" where
  "thread_fmngr_clear tid s =
     bindr (thread_fmngr_get tid) (\<lambda>i.
     bindr (read_at ''__mdata_fmngr'' (th_fmngrs s) (int i)) (\<lambda>f.
     bindr (fmngr_init f) (\<lambda>f.
     bindr (write_at ''__mdata_fmngr'' (th_fmngrs s) (int i) f) (\<lambda>fs.
     Inr (s\<lparr>th_fmngrs := fs\<rparr>)))))"

subsection \<open>thread_pcb.c\<close>

definition init_thread_pcb :: "u32 option \<Rightarrow> threads \<Rightarrow> threads res" where
  "init_thread_pcb pcb s =
     nonnull ''init_thread_pcb(): null pointer'' pcb (\<lambda>p.
     bindr (table_pages p (pages_for (SIZEOF_PCB * MAX_TASKS_AMOUNT)) s) (\<lambda>(va, s).
     bindr (spinlock_init (Some (sl_pcb s))) (\<lambda>l.
     Inr (s\<lparr>mdata_pcb := va, sl_pcb := l\<rparr>))))"

definition thread_pcb_get :: "u32 \<Rightarrow> threads \<Rightarrow> (u32 \<times> threads) res" where
  "thread_pcb_get tid s =
     (if unat tid \<ge> MAX_TASKS_AMOUNT then panic ''thread_pcb_get(): thread id out of range''
      else
        bindr (wait (sl_pcb s)) (\<lambda>l.
        Inr (mdata_pcb s + word_of_nat (unat tid * SIZEOF_PCB), s\<lparr>sl_pcb := signal l\<rparr>)))"

subsection \<open>thread_tid.c\<close>

text \<open>
  \<open>bytes\<close> is what the memory of the bitmap holds. \<open>sizeof\<close> of the pointer clears four bytes;
  bitmap_init then clears all 128.
\<close>

definition init_thread_tid :: "byte list \<Rightarrow> u32 option \<Rightarrow> threads \<Rightarrow> threads res" where
  "init_thread_tid bytes pcb s =
     nonnull ''init_thread_tid(): null pointer'' pcb (\<lambda>p.
     bindr (table_pages p (pages_for (MAX_TASKS_AMOUNT div 8)) s) (\<lambda>(va, s).
     bindr (bzero bytes (Some 0) 4) (\<lambda>bytes.
     bindr (bitmap_init (Some (bm_tid s)) (word_of_nat MAX_TASKS_AMOUNT) (Some bytes)) (\<lambda>m.
     bindr (bitmap_set (Some m) TID_HOO) (\<lambda>m.
     bindr (spinlock_init (Some (sl_tid s))) (\<lambda>l.
     Inr (s\<lparr>tid_buff := va, bm_tid := m, sl_tid := l\<rparr>)))))))"

definition thread_tid_alloc :: "threads \<Rightarrow> (u32 \<times> threads) res" where
  "thread_tid_alloc s =
     bindr (wait (sl_tid s)) (\<lambda>l.
     bindr (bitmap_scan_empty (Some (bm_tid s))) (\<lambda>(temp, m).
     bindr (bitmap_set (Some m) temp) (\<lambda>m.
     let s = s\<lparr>bm_tid := m, sl_tid := signal l\<rparr> in
     if unat temp \<ge> MAX_TASKS_AMOUNT then panic ''thread_tid_alloc(): thread id overflows''
     else Inr (temp, s))))"

definition thread_tid_release :: "u32 \<Rightarrow> threads \<Rightarrow> threads res" where
  "thread_tid_release tid s =
     bindr (wait (sl_tid s)) (\<lambda>l.
     bindr (bitmap_clear (Some (bm_tid s)) tid) (\<lambda>m.
     Inr (s\<lparr>bm_tid := m, sl_tid := signal l\<rparr>)))"

subsection \<open>hoo.c\<close>

definition STACK_HOO_RING0 :: u32 where "STACK_HOO_RING0 = 0x80000 + KERN_HIGH_MAPPING"
definition STACK_HOO_RING3 :: u32 where "STACK_HOO_RING3 = 0x7900 * 16 + PGSIZE + PGSIZE + KERN_HIGH_MAPPING"

definition get_hoo_pgdir :: u32 where
  "get_hoo_pgdir = 0x7800 * 16 + KERN_HIGH_MAPPING"

definition init_hoo :: "(nat \<Rightarrow> u32 list) \<Rightarrow> byte list \<Rightarrow> threads \<Rightarrow> threads res" where
  "init_hoo junk bytes s =
     (let hoo = th_hoo s; ts = th_tasks s;
          ts = set_pcb_at hoo ((tk_pcb ts hoo)\<lparr>pcb_break := KERN_HIGH_MAPPING + MB4\<rparr>) ts in
      bindr (vspace_set (Some (vmngr_of hoo)) None 0 0 None (tk_mem ts)) (\<lambda>m.
      bindr (init_thread_buckmngr (Some hoo) (set_mem m (s\<lparr>th_tasks := ts\<rparr>))) (\<lambda>s.
      bindr (init_thread_curdir (Some hoo) s) (\<lambda>s.
      bindr (init_thread_fmngr junk (Some hoo) s) (\<lambda>s.
      bindr (init_thread_pcb (Some hoo) s) (\<lambda>s.
      bindr (init_thread_tid bytes (Some hoo) s) (\<lambda>s.
      bindr (thread_buckmngr_get TID_HOO s) (\<lambda>buck.
      bindr (fmngr_at TID_HOO s) (\<lambda>fm.
      bindr (curdir_at TID_HOO s) (\<lambda>cd.
      bindr (pcb_set (Some hoo) STACK_HOO_RING0 STACK_HOO_RING3 TID_HOO (V2P get_hoo_pgdir) (Some (vmngr_of hoo)) TIMETICKS
        None (Some buck) (Some fm) (pcb_break (th_pcb s hoo)) (- 1) (Some cd) (th_tasks s)) (\<lambda>ts.
      Inr (s\<lparr>th_tasks := ts\<rparr>))))))))))))"

end
