(* ===== verification/Dynamic.thy ===== *)
theory Dynamic
  imports Threads
begin

section \<open>kern/dyn/dynamic.c: the heap of a task\<close>

text \<open>
  A task's heap is a chain of eight buckets, one per size 8, 16, ..., 1024; a bucket holds a chain of
  format lists of elements of its size. Larger blocks are pages of their own. The chains are
  followed for at most \<open>MAX_CHAIN\<close> steps, see Format_List.
\<close>

subsection \<open>dyn_alloc\<close>

text \<open>The first bucket of the chain whose size is enough.\<close>

fun bucket_search :: "nat \<Rightarrow> u32 option \<Rightarrow> u32 \<Rightarrow> threads \<Rightarrow> u32 option res" where
  "bucket_search 0 mngr sz s = Inl Spin"
| "bucket_search (Suc k) mngr sz s =
     (case mngr of
       None \<Rightarrow> Inr None
     | Some b \<Rightarrow> if bk_size (th_buck s b) \<ge> sz then Inr (Some b) else bucket_search k (bk_next (th_buck s b)) sz s)"

definition set_chain :: "u32 \<Rightarrow> u32 option \<Rightarrow> threads \<Rightarrow> threads" where
  "set_chain b c s = s\<lparr>th_buck := (th_buck s)(b := (th_buck s b)\<lparr>bk_chain := c\<rparr>)\<rparr>"

text \<open>The first page of a bucket, cleared: a format list of capacity 0, which fmtlist_alloc() then sets up.\<close>

definition first_page :: "u32 \<Rightarrow> u32 \<Rightarrow> threads \<Rightarrow> threads res" where
  "first_page cur b s =
     bindr (phy_alloc_page (pmst (km_mach (th_mem s)))) (\<lambda>(pa, pm).
     let m = (th_mem s)\<lparr>km_mach := (km_mach (th_mem s))\<lparr>pmst := pm\<rparr>\<rparr> in
     bindr (vir_alloc_pages (Some (vmngr_of cur)) 1 (pcb_break (th_pcb s cur)) m) (\<lambda>(va, m).
     bindr (set_mapping va pa (PGFLAG_US OR PGFLAG_RW OR PGFLAG_PS) (km_mach m)) (\<lambda>mc.
     Inr (set_mem (zero_mem va 4096 (m\<lparr>km_mach := mc\<rparr>)) (set_chain b (Some va) s)))))"

definition dyn_alloc :: "u32 \<Rightarrow> threads \<Rightarrow> (u32 option \<times> threads) res" where
  "dyn_alloc sz s =
     (if sz = 0 then Inr (None, s)
      else
        bindr (get_current_pcb (th_tasks s)) (\<lambda>cur.
        bindr (bucket_search MAX_CHAIN (pcb_hmngr (th_pcb s cur)) sz s) (\<lambda>mngr.
        case mngr of
          None \<Rightarrow>
            let pages = (if sz \<le> PGSIZE then 1 else (sz + PGSIZE - 1) div PGSIZE) in
            bindr (vir_alloc_pages (Some (vmngr_of cur)) pages (pcb_break (th_pcb s cur)) (th_mem s)) (\<lambda>(va, m).
            bindr (map_pages va (unat pages) m) (\<lambda>m. Inr (Some va, set_mem m s)))
        | Some b \<Rightarrow>
            bindr (if bk_chain (th_buck s b) = None then first_page cur b s else Inr s) (\<lambda>s.
            bindr (fmtlist_alloc (bk_chain (th_buck s b)) (bk_size (th_buck s b)) (th_mem s)) (\<lambda>(ret, c, m).
            Inr (ret, set_mem m (set_chain b c s)))))))"

subsection \<open>dyn_free\<close>

text \<open>
  After a release into the chain of \<open>b\<close>: the code looks whether its first page is whole again. The test
  \<open>&mngr->chain_ != null\<close> is always true, so a chain that fmtlist_release() has set to null is dereferenced.
\<close>

definition drop_page :: "u32 \<Rightarrow> u32 \<Rightarrow> u32 \<Rightarrow> threads \<Rightarrow> threads res" where
  "drop_page cur b ptr s =
     bindr (deref ''chain_'' (bk_chain (th_buck s b))) (\<lambda>c.
     if fl_capacity (km_fl (th_mem s) c) = ls_size (fl_list (km_fl (th_mem s) c)) then
       bindr (vir_release_pages (Some (vmngr_of cur)) (PGDOWN ptr PGSIZE) True (th_mem s)) (\<lambda>m.
       Inr (set_chain b None (set_mem m s)))
     else Inr s)"

fun free_loop :: "nat \<Rightarrow> u32 \<Rightarrow> u32 option \<Rightarrow> u32 \<Rightarrow> threads \<Rightarrow> threads res" where
  "free_loop 0 cur mngr ptr s = Inl Spin"
| "free_loop (Suc k) cur mngr ptr s =
     (case mngr of
       None \<Rightarrow>
         bindr (vir_release_pages (Some (vmngr_of cur)) ptr True (th_mem s)) (\<lambda>m. Inr (set_mem m s))
     | Some b \<Rightarrow>
         bindr (fmtlist_release (bk_chain (th_buck s b)) (Some ptr) (bk_size (th_buck s b)) (th_mem s)) (\<lambda>(released, c, m).
         let s = set_mem m (set_chain b c s) in
         if released then drop_page cur b ptr s
         else free_loop k cur (bk_next (th_buck s b)) ptr s))"

definition dyn_free :: "u32 option \<Rightarrow> threads \<Rightarrow> threads res" where
  "dyn_free ptr s =
     (case ptr of
       None \<Rightarrow> Inr s
     | Some p \<Rightarrow>
         bindr (get_current_pcb (th_tasks s)) (\<lambda>cur.
         free_loop MAX_CHAIN cur (pcb_hmngr (th_pcb s cur)) p s))"

end
