(* ===== verification/Tasks_Props.thy ===== *)
theory Tasks_Props
  imports Tasks Format_Pages
begin

section \<open>Properties of the scheduler\<close>

text \<open>
  The invariant of the task queues (\<open>tasks_ok\<close>): every task is on exactly one of them. scheduler(),
  wakeup() and sleep() are shown to move nodes between them as an abstract round robin does.
\<close>

subsection \<open>The invariant\<close>

definition heads :: "tasks \<Rightarrow> u32 list" where
  "heads s = [q_null (tk_running s), q_null (tk_ready s), ls_null (tk_sleeping s), ls_null (tk_expired s)]"

text \<open>The running, ready, sleeping and expired nodes.\<close>

definition places :: "tasks \<Rightarrow> u32 list \<Rightarrow> u32 list \<Rightarrow> u32 list \<Rightarrow> u32 list \<Rightarrow> bool" where
  "places s R Q S E \<longleftrightarrow> queue_rep (tk_heap s) (tk_running s) R \<and> queue_rep (tk_heap s) (tk_ready s) Q
     \<and> list_rep (tk_heap s) (tk_sleeping s) S \<and> list_rep (tk_heap s) (tk_expired s) E
     \<and> distinct (heads s @ R @ Q @ S @ E) \<and> length (R @ Q @ S @ E) < 2147483646
     \<and> (\<forall>n \<in> set (R @ Q @ S @ E). nd_data (tk_heap s n) \<noteq> None)"

definition tasks_ok :: "tasks \<Rightarrow> u32 list \<Rightarrow> u32 list \<Rightarrow> u32 list \<Rightarrow> u32 list \<Rightarrow> bool" where
  "tasks_ok s R Q S E \<longleftrightarrow> places s R Q S E \<and> tk_lock s = unlocked"

definition same_data :: "tasks \<Rightarrow> tasks \<Rightarrow> bool" where
  "same_data s t \<longleftrightarrow> (\<forall>a. nd_data (tk_heap t a) = nd_data (tk_heap s a))"

lemma queue_rep_off:
  "queue_rep h q xs \<Longrightarrow> (\<forall>a. a \<notin> A \<longrightarrow> h' a = h a) \<Longrightarrow> set (q_null q # xs) \<inter> A = {} \<Longrightarrow> queue_rep h' q xs"
  using lpath_frame [of "q_null q # xs" h' h] unfolding queue_rep_def by (metis disjoint_iff)

lemma list_rep_off:
  "list_rep h l xs \<Longrightarrow> (\<forall>a. a \<notin> A \<longrightarrow> h' a = h a) \<Longrightarrow> set (ls_null l # xs) \<inter> A = {} \<Longrightarrow> list_rep h' l xs"
  using list_rep_frame [of l xs h' h] by (metis disjoint_iff)

lemma list_rep_length:
  assumes "list_rep h l xs"
  shows "LSIDX_AFTAIL l = word_of_nat (Suc (length xs))"
proof -
  have "ls_size l = word_of_nat (length xs)" using assms unfolding list_rep_def by (metis of_nat_unat ucast_id)
  then show ?thesis by (simp add: LSIDX_AFTAIL_def)
qed

lemma set_heap_simps [simp]:
  "tk_heap (set_heap h s) = h" "tk_ready (set_heap h s) = tk_ready s" "tk_running (set_heap h s) = tk_running s"
  "tk_sleeping (set_heap h s) = tk_sleeping s" "tk_expired (set_heap h s) = tk_expired s" "tk_pcb (set_heap h s) = tk_pcb s"
  "tk_lock (set_heap h s) = tk_lock s" "tk_tss (set_heap h s) = tk_tss s" "tk_intr (set_heap h s) = tk_intr s"
  by (simp_all add: set_heap_def)

lemma set_pcb_at_simps [simp]:
  "tk_mem (set_pcb_at p x s) = tk_mem s" "tk_ready (set_pcb_at p x s) = tk_ready s" "tk_running (set_pcb_at p x s) = tk_running s"
  "tk_sleeping (set_pcb_at p x s) = tk_sleeping s" "tk_expired (set_pcb_at p x s) = tk_expired s"
  "tk_pcb (set_pcb_at p x s) = (tk_pcb s)(p := x)" "tk_lock (set_pcb_at p x s) = tk_lock s"
  by (simp_all add: set_pcb_at_def)

lemma places_set_pcb [simp]: "places (set_pcb_at p x s) R Q S E = places s R Q S E"
  by (simp add: places_def heads_def)

lemma places_lock [simp]: "places (s\<lparr>tk_lock := l\<rparr>) R Q S E = places s R Q S E"
  "places (s\<lparr>tk_tss := t\<rparr>) R Q S E = places s R Q S E" "places (s\<lparr>tk_intr := b\<rparr>) R Q S E = places s R Q S E"
  by (simp_all add: places_def heads_def)

subsection \<open>One node moves\<close>

text \<open>
  A change of one queue: the others keep what they hold when the heap changed in a set \<open>A\<close> of nodes apart from them.
\<close>

lemma places_update:
  assumes ok: "places s R Q S E" and off: "\<forall>a. a \<notin> A \<longrightarrow> tk_heap t a = tk_heap s a" and dat: "same_data s t" and hd: "heads t = heads s"
    and R: "tk_running t = tk_running s \<and> R' = R \<and> set (q_null (tk_running s) # R) \<inter> A = {} \<or> queue_rep (tk_heap t) (tk_running t) R'"
    and Q: "tk_ready t = tk_ready s \<and> Q' = Q \<and> set (q_null (tk_ready s) # Q) \<inter> A = {} \<or> queue_rep (tk_heap t) (tk_ready t) Q'"
    and S: "tk_sleeping t = tk_sleeping s \<and> S' = S \<and> set (ls_null (tk_sleeping s) # S) \<inter> A = {} \<or> list_rep (tk_heap t) (tk_sleeping t) S'"
    and E: "tk_expired t = tk_expired s \<and> E' = E \<and> set (ls_null (tk_expired s) # E) \<inter> A = {} \<or> list_rep (tk_heap t) (tk_expired t) E'"
    and d: "distinct (heads s @ R' @ Q' @ S' @ E')" "length (R' @ Q' @ S' @ E') < 2147483646"
      "\<forall>n \<in> set (R' @ Q' @ S' @ E'). nd_data (tk_heap s n) \<noteq> None"
  shows "places t R' Q' S' E'"
proof -
  have r: "queue_rep (tk_heap s) (tk_running s) R" "queue_rep (tk_heap s) (tk_ready s) Q" "list_rep (tk_heap s) (tk_sleeping s) S"
    "list_rep (tk_heap s) (tk_expired s) E" using ok by (simp_all add: places_def)
  have "queue_rep (tk_heap t) (tk_running t) R'" using R queue_rep_off [OF r(1) off] by auto
  moreover have "queue_rep (tk_heap t) (tk_ready t) Q'" using Q queue_rep_off [OF r(2) off] by auto
  moreover have "list_rep (tk_heap t) (tk_sleeping t) S'" using S list_rep_off [OF r(3) off] by auto
  moreover have "list_rep (tk_heap t) (tk_expired t) E'" using E list_rep_off [OF r(4) off] by auto
  moreover have "distinct (heads t @ R' @ Q' @ S' @ E')" using d(1) hd by simp
  moreover have "\<forall>n \<in> set (R' @ Q' @ S' @ E'). nd_data (tk_heap t n) \<noteq> None" using d(3) dat by (simp add: same_data_def)
  ultimately show ?thesis using d(2) unfolding places_def by blast
qed

lemma ready_push:
  assumes ok: "places s R Q S E" and n: "n \<notin> set (heads s @ R @ Q @ S @ E)" "nd_data (tk_heap s n) \<noteq> None"
    and len: "length (R @ Q @ S @ E) < 2147483645"
  shows "\<exists>h q. queue_push (tk_heap s) (Some (tk_ready s)) (Some n) TAIL = Inr (h, q)
    \<and> places ((set_heap h s)\<lparr>tk_ready := q\<rparr>) R (Q @ [n]) S E \<and> (\<forall>a. nd_data (h a) = nd_data (tk_heap s a))
    \<and> q_null q = q_null (tk_ready s)"
proof -
  have r: "queue_rep (tk_heap s) (tk_ready s) Q" "distinct (heads s @ R @ Q @ S @ E)" using ok by (simp_all add: places_def)
  have f: "n \<notin> set (q_null (tk_ready s) # Q)" using n(1) by (auto simp: heads_def)
  obtain h q where p: "queue_push (tk_heap s) (Some (tk_ready s)) (Some n) TAIL = Inr (h, q)" "queue_rep h q (Q @ [n])"
    "q_null q = q_null (tk_ready s)" "\<forall>a. nd_data (h a) = nd_data (tk_heap s a)"
    "\<forall>a. a \<notin> set (q_null (tk_ready s) # n # Q) \<longrightarrow> h a = tk_heap s a" using queue_push_rep [OF r(1) f, of TAIL] by blast
  have "places ((set_heap h s)\<lparr>tk_ready := q\<rparr>) R (Q @ [n]) S E"
    by (rule places_update [OF ok, where A = "set (q_null (tk_ready s) # n # Q)"])
      (use ok p r n len in \<open>auto simp: heads_def same_data_def places_def\<close>)
  then show ?thesis using p(1,3,4) by blast
qed

lemma ready_pop:
  assumes ok: "places s R (n # Q) S E"
  shows "\<exists>h q. queue_pop (tk_heap s) (Some (tk_ready s)) = Inr (Some n, h, q)
    \<and> places ((set_heap h s)\<lparr>tk_ready := q\<rparr>) R Q S E \<and> (\<forall>a. nd_data (h a) = nd_data (tk_heap s a))
    \<and> q_null q = q_null (tk_ready s)"
proof -
  have r: "queue_rep (tk_heap s) (tk_ready s) (n # Q)" "distinct (heads s @ R @ (n # Q) @ S @ E)" using ok by (simp_all add: places_def)
  obtain h q where p: "queue_pop (tk_heap s) (Some (tk_ready s)) = Inr (Some n, h, q)" "queue_rep h q Q"
    "q_null q = q_null (tk_ready s)" "\<forall>a. nd_data (h a) = nd_data (tk_heap s a)"
    "\<forall>a. a \<notin> set (q_null (tk_ready s) # n # Q) \<longrightarrow> h a = tk_heap s a" using queue_pop_rep [OF r(1)] by blast
  have "places ((set_heap h s)\<lparr>tk_ready := q\<rparr>) R Q S E"
    by (rule places_update [OF ok, where A = "set (q_null (tk_ready s) # n # Q)"])
      (use ok p r in \<open>auto simp: heads_def same_data_def places_def\<close>)
  then show ?thesis using p(1,3,4) by blast
qed

lemma running_pop:
  assumes ok: "places s (n # R) Q S E"
  shows "\<exists>h q. queue_pop (tk_heap s) (Some (tk_running s)) = Inr (Some n, h, q)
    \<and> places ((set_heap h s)\<lparr>tk_running := q\<rparr>) R Q S E \<and> (\<forall>a. nd_data (h a) = nd_data (tk_heap s a))
    \<and> q_null q = q_null (tk_running s)"
proof -
  have r: "queue_rep (tk_heap s) (tk_running s) (n # R)" "distinct (heads s @ (n # R) @ Q @ S @ E)" using ok by (simp_all add: places_def)
  obtain h q where p: "queue_pop (tk_heap s) (Some (tk_running s)) = Inr (Some n, h, q)" "queue_rep h q R"
    "q_null q = q_null (tk_running s)" "\<forall>a. nd_data (h a) = nd_data (tk_heap s a)"
    "\<forall>a. a \<notin> set (q_null (tk_running s) # n # R) \<longrightarrow> h a = tk_heap s a" using queue_pop_rep [OF r(1)] by blast
  have "places ((set_heap h s)\<lparr>tk_running := q\<rparr>) R Q S E"
    by (rule places_update [OF ok, where A = "set (q_null (tk_running s) # n # R)"])
      (use ok p r in \<open>auto simp: heads_def same_data_def places_def\<close>)
  then show ?thesis using p(1,3,4) by blast
qed

lemma running_push:
  assumes ok: "places s R Q S E" and n: "n \<notin> set (heads s @ R @ Q @ S @ E)" "nd_data (tk_heap s n) \<noteq> None"
    and len: "length (R @ Q @ S @ E) < 2147483645"
  shows "\<exists>h q. queue_push (tk_heap s) (Some (tk_running s)) (Some n) TAIL = Inr (h, q)
    \<and> places ((set_heap h s)\<lparr>tk_running := q\<rparr>) (R @ [n]) Q S E \<and> (\<forall>a. nd_data (h a) = nd_data (tk_heap s a))
    \<and> q_null q = q_null (tk_running s)"
proof -
  have r: "queue_rep (tk_heap s) (tk_running s) R" "distinct (heads s @ R @ Q @ S @ E)" using ok by (simp_all add: places_def)
  have f: "n \<notin> set (q_null (tk_running s) # R)" using n(1) by (auto simp: heads_def)
  obtain h q where p: "queue_push (tk_heap s) (Some (tk_running s)) (Some n) TAIL = Inr (h, q)" "queue_rep h q (R @ [n])"
    "q_null q = q_null (tk_running s)" "\<forall>a. nd_data (h a) = nd_data (tk_heap s a)"
    "\<forall>a. a \<notin> set (q_null (tk_running s) # n # R) \<longrightarrow> h a = tk_heap s a" using queue_push_rep [OF r(1) f, of TAIL] by blast
  have "places ((set_heap h s)\<lparr>tk_running := q\<rparr>) (R @ [n]) Q S E"
    by (rule places_update [OF ok, where A = "set (q_null (tk_running s) # n # R)"])
      (use ok p r n len in \<open>auto simp: heads_def same_data_def places_def\<close>)
  then show ?thesis using p(1,3,4) by blast
qed

lemma sleeping_append:
  assumes ok: "places s R Q S E" and n: "n \<notin> set (heads s @ R @ Q @ S @ E)" "nd_data (tk_heap s n) \<noteq> None"
    and len: "length (R @ Q @ S @ E) < 2147483645"
  shows "\<exists>h l. list_insert (tk_heap s) (Some (tk_sleeping s)) (Some n) (LSIDX_AFTAIL (tk_sleeping s)) = Inr (h, l)
    \<and> places ((set_heap h s)\<lparr>tk_sleeping := l\<rparr>) R Q (S @ [n]) E \<and> (\<forall>a. nd_data (h a) = nd_data (tk_heap s a))
    \<and> ls_null l = ls_null (tk_sleeping s)"
proof -
  have r: "list_rep (tk_heap s) (tk_sleeping s) S" "distinct (heads s @ R @ Q @ S @ E)" using ok by (simp_all add: places_def)
  have f: "n \<notin> set (ls_null (tk_sleeping s) # S)" using n(1) by (auto simp: heads_def)
  obtain h l where p: "list_insert (tk_heap s) (Some (tk_sleeping s)) (Some n) (LSIDX_AFTAIL (tk_sleeping s)) = Inr (h, l)"
    "list_rep h l (S @ [n])" "ls_null l = ls_null (tk_sleeping s)" "\<forall>a. nd_data (h a) = nd_data (tk_heap s a)"
    "\<forall>a. a \<notin> set (ls_null (tk_sleeping s) # n # S) \<longrightarrow> h a = tk_heap s a"
    using list_insert_rep [OF r(1) order.refl _ f] len list_rep_length [OF r(1)] by auto
  have "places ((set_heap h s)\<lparr>tk_sleeping := l\<rparr>) R Q (S @ [n]) E"
    by (rule places_update [OF ok, where A = "set (ls_null (tk_sleeping s) # n # S)"])
      (use ok p r n len in \<open>auto simp: heads_def same_data_def places_def\<close>)
  then show ?thesis using p(1,3,4) by blast
qed

lemma sleeping_remove:
  assumes ok: "places s R Q S E" and i: "i < length S"
  shows "\<exists>h l. list_remove (tk_heap s) (Some (tk_sleeping s)) (word_of_nat (Suc i)) = Inr (S ! i, h, l)
    \<and> places ((set_heap h s)\<lparr>tk_sleeping := l\<rparr>) R Q (take i S @ drop (Suc i) S) E \<and> (\<forall>a. nd_data (h a) = nd_data (tk_heap s a))
    \<and> ls_null l = ls_null (tk_sleeping s)"
proof -
  have r: "list_rep (tk_heap s) (tk_sleeping s) S" "distinct (heads s @ R @ Q @ S @ E)" using ok by (simp_all add: places_def)
  obtain h l where p: "list_remove (tk_heap s) (Some (tk_sleeping s)) (word_of_nat (Suc i)) = Inr (S ! i, h, l)"
    "list_rep h l (take i S @ drop (Suc i) S)" "ls_null l = ls_null (tk_sleeping s)" "\<forall>a. nd_data (h a) = nd_data (tk_heap s a)"
    "\<forall>a. a \<notin> set (ls_null (tk_sleeping s) # S) \<longrightarrow> h a = tk_heap s a" using list_remove_rep [OF r(1) i] by blast
  have sub: "set (take i S @ drop (Suc i) S) \<subseteq> set S" by (auto dest: in_set_takeD in_set_dropD)
  have ds: "distinct (take i S @ drop (Suc i) S)" using r(2) by (auto simp: set_take_disj_set_drop_if_distinct)
  have "distinct (heads s @ R @ Q @ (take i S @ drop (Suc i) S) @ E)" using r(2) sub ds by (auto simp: heads_def)
  moreover have "length (R @ Q @ (take i S @ drop (Suc i) S) @ E) < 2147483646" using ok i by (simp add: places_def) linarith
  moreover have "\<forall>n \<in> set (R @ Q @ (take i S @ drop (Suc i) S) @ E). nd_data (tk_heap s n) \<noteq> None" using ok sub by (auto simp: places_def)
  ultimately have "places ((set_heap h s)\<lparr>tk_sleeping := l\<rparr>) R Q (take i S @ drop (Suc i) S) E"
    by (intro places_update [OF ok, where A = "set (ls_null (tk_sleeping s) # S)"])
      (use p r in \<open>auto simp: heads_def same_data_def\<close>)
  then show ?thesis using p(1,3,4) by blast
qed

subsection \<open>The scheduler, case by case\<close>

definition pcb_of :: "tasks \<Rightarrow> u32 \<Rightarrow> u32" where
  "pcb_of s n = the (nd_data (tk_heap s n))"

definition sleeps_on :: "tasks \<Rightarrow> u32 \<Rightarrow> u32 option" where
  "sleeps_on s n = pcb_sleep (tk_pcb s (pcb_of s n))"

definition ticks_of :: "tasks \<Rightarrow> u32 \<Rightarrow> nat" where
  "ticks_of s n = unat (pcb_ticks (tk_pcb s (pcb_of s n)))"

lemma node_pcb_ok:
  assumes "places s R Q S E" and "n \<in> set (R @ Q @ S @ E)"
  shows "node_pcb n s = Inr (pcb_of s n)"
proof -
  have "nd_data (tk_heap s n) \<noteq> None" using assms unfolding places_def by blast
  then show ?thesis by (auto simp: node_pcb_def pcb_of_def)
qed

lemma same_data_pcb: "same_data s t \<Longrightarrow> pcb_of t n = pcb_of s n"
  by (simp add: same_data_def pcb_of_def)

lemma same_data_node_pcb: "same_data s t \<Longrightarrow> node_pcb n t = node_pcb n s"
  by (simp add: same_data_def node_pcb_def)

lemma running_front: "places s R Q S E \<Longrightarrow> queue_front (tk_heap s) (Some (tk_running s)) = Inr (case R of [] \<Rightarrow> None | x # _ \<Rightarrow> Some x)"
  by (rule queue_front_rep) (simp add: places_def)

lemma ready_empty: "places s R [] S E \<Longrightarrow> queue_pop (tk_heap s) (Some (tk_ready s)) = Inr (None, tk_heap s, tk_ready s)"
  using queue_isempty_rep [of "tk_heap s" "tk_ready s" "[]"] by (simp add: places_def queue_pop_def)

lemma running_empty: "places s [] Q S E \<Longrightarrow> queue_pop (tk_heap s) (Some (tk_running s)) = Inr (None, tk_heap s, tk_running s)"
  using queue_isempty_rep [of "tk_heap s" "tk_running s" "[]"] by (simp add: places_def queue_pop_def)

lemma scheduler_locked: "test (tk_lock s) \<noteq> 0 \<Longrightarrow> scheduler s = Inr (Stay, s)"
  by (simp add: scheduler_def)

lemma test_unlocked [simp]: "test unlocked = 0"
  by (simp add: test_def unlocked_def)

text \<open>The PCBs after the running task's time slice has been looked at.\<close>

definition sliced :: "tasks \<Rightarrow> u32 \<Rightarrow> (u32 \<Rightarrow> pcb)" where
  "sliced s c = (let p = pcb_of s c; x = tk_pcb s p in
     if pcb_sleep x \<noteq> None then tk_pcb s
     else if 0 < pcb_ticks x then (tk_pcb s)(p := x\<lparr>pcb_ticks := pcb_ticks x - 1\<rparr>)
     else (tk_pcb s)(p := x\<lparr>pcb_ticks := TIMETICKS\<rparr>))"

definition keeps :: "tasks \<Rightarrow> u32 \<Rightarrow> bool" where
  "keeps s c \<longleftrightarrow> sleeps_on s c = None \<and> 0 < ticks_of s c"

lemma time_slice_ok:
  assumes "places s (c # R) Q S E"
  shows "time_slice (Some c) s = Inr (keeps s c, s\<lparr>tk_pcb := sliced s c\<rparr>)"
  using node_pcb_ok [OF assms, of c]
  by (simp add: time_slice_def keeps_def sleeps_on_def ticks_of_def sliced_def Let_def set_pcb_at_def word_greater_zero_iff unat_gt_0)

lemma slice_lock [simp]: "sliced (s\<lparr>tk_lock := l\<rparr>) c = sliced s c" "keeps (s\<lparr>tk_lock := l\<rparr>) c = keeps s c"
  by (simp_all add: keeps_def sliced_def sleeps_on_def ticks_of_def pcb_of_def Let_def)

lemma sliced_sleep [simp]: "pcb_sleep (sliced s c p) = pcb_sleep (tk_pcb s p)"
  by (simp add: sliced_def Let_def)

lemma sliced_stack0 [simp]: "pcb_stack0 (sliced s c p) = pcb_stack0 (tk_pcb s p)"
  by (simp add: sliced_def Let_def)

lemma sliced_ticks:
  "sleeps_on s c = None \<Longrightarrow> unat (pcb_ticks (sliced s c p)) =
     (if p = pcb_of s c then (if ticks_of s c = 0 then 16 else ticks_of s c - 1) else unat (pcb_ticks (tk_pcb s p)))"
  by (auto simp: sliced_def Let_def sleeps_on_def ticks_of_def TIMETICKS_def unat_eq_0 word_greater_zero_iff unat_minus_one)

lemma places_pcb [simp]: "places (s\<lparr>tk_pcb := f\<rparr>) R Q S E = places s R Q S E"
  by (simp add: places_def heads_def)

lemma scheduler_keeps:
  assumes ok: "tasks_ok s (c # R) Q S E" and k: "keeps s c"
  shows "scheduler s = Inr (Stay, s\<lparr>tk_pcb := sliced s c\<rparr>)"
proof -
  let ?s = "s\<lparr>tk_lock := \<lparr>islock = 1\<rparr>\<rparr>"
  have p: "places ?s (c # R) Q S E" "tk_lock s = unlocked" using ok by (simp_all add: tasks_ok_def)
  have "time_slice (Some c) ?s = Inr (True, ?s\<lparr>tk_pcb := sliced s c\<rparr>)" using time_slice_ok [OF p(1)] k by simp
  then show ?thesis using running_front [OF p(1)] p(2) by (simp add: scheduler_def)
qed

lemma scheduler_nothing_ready:
  assumes ok: "tasks_ok s R [] S E" and k: "R = [] \<or> \<not> keeps s (hd R)"
  shows "scheduler s = Inr (Stay, case R of [] \<Rightarrow> s | c # _ \<Rightarrow> s\<lparr>tk_pcb := sliced s c\<rparr>)"
proof -
  let ?s = "s\<lparr>tk_lock := \<lparr>islock = 1\<rparr>\<rparr>"
  have p: "places ?s R [] S E" "tk_lock s = unlocked" using ok by (simp_all add: tasks_ok_def)
  have e: "queue_pop (tk_heap s) (Some (tk_ready s)) = Inr (None, tk_heap s, tk_ready s)" using ready_empty [OF p(1)] by simp
  show ?thesis
  proof (cases R)
    case Nil
    then show ?thesis using running_front [OF p(1)] p(2) e by (simp add: scheduler_def time_slice_def set_heap_def)
  next
    case (Cons c R')
    have "time_slice (Some c) ?s = Inr (False, ?s\<lparr>tk_pcb := sliced s c\<rparr>)" using time_slice_ok p(1) k Cons by simp
    then show ?thesis using running_front [OF p(1)] p(2) e Cons by (simp add: scheduler_def set_heap_def)
  qed
qed

text \<open>The lists that hold the ready and the sleeping nodes after the running one was put back.\<close>

definition ready_after :: "tasks \<Rightarrow> u32 list \<Rightarrow> u32 list \<Rightarrow> u32 list" where
  "ready_after s R Q = (case R of [] \<Rightarrow> Q | c # _ \<Rightarrow> if sleeps_on s c = None then Q @ [c] else Q)"

definition sleeping_after :: "tasks \<Rightarrow> u32 list \<Rightarrow> u32 list \<Rightarrow> u32 list" where
  "sleeping_after s R S = (case R of [] \<Rightarrow> S | c # _ \<Rightarrow> if sleeps_on s c = None then S else S @ [c])"

lemma put_back_ok:
  assumes ok: "places s R Q S E" and c: "c \<notin> set (heads s @ R @ Q @ S @ E)" "nd_data (tk_heap s c) \<noteq> None"
    and len: "length (R @ Q @ S @ E) < 2147483645"
  shows "\<exists>t. put_back (Some c) s = Inr t \<and> places t R (ready_after s [c] Q) (sleeping_after s [c] S) E \<and> same_data s t
    \<and> heads t = heads s \<and> tk_pcb t = tk_pcb s \<and> tk_lock t = tk_lock s \<and> tk_running t = tk_running s"
proof -
  have n: "node_pcb c s = Inr (pcb_of s c)" using c(2) by (auto simp: node_pcb_def pcb_of_def)
  show ?thesis
  proof (cases "sleeps_on s c")
    case None
    obtain h q where "queue_push (tk_heap s) (Some (tk_ready s)) (Some c) TAIL = Inr (h, q)"
      "places ((set_heap h s)\<lparr>tk_ready := q\<rparr>) R (Q @ [c]) S E" "\<forall>a. nd_data (h a) = nd_data (tk_heap s a)"
      "q_null q = q_null (tk_ready s)" using ready_push [OF ok c len] by blast
    with None n show ?thesis
      by (intro exI [of _ "(set_heap h s)\<lparr>tk_ready := q\<rparr>"])
        (simp add: put_back_def sleeps_on_def ready_after_def sleeping_after_def same_data_def heads_def)
  next
    case (Some r)
    obtain h l where "list_insert (tk_heap s) (Some (tk_sleeping s)) (Some c) (LSIDX_AFTAIL (tk_sleeping s)) = Inr (h, l)"
      "places ((set_heap h s)\<lparr>tk_sleeping := l\<rparr>) R Q (S @ [c]) E" "\<forall>a. nd_data (h a) = nd_data (tk_heap s a)"
      "ls_null l = ls_null (tk_sleeping s)" using sleeping_append [OF ok c len] by blast
    with Some n show ?thesis
      by (intro exI [of _ "(set_heap h s)\<lparr>tk_sleeping := l\<rparr>"])
        (simp add: put_back_def sleeps_on_def ready_after_def sleeping_after_def same_data_def heads_def)
  qed
qed

definition slice_of :: "tasks \<Rightarrow> u32 list \<Rightarrow> (u32 \<Rightarrow> pcb)" where
  "slice_of s R = (case R of [] \<Rightarrow> tk_pcb s | c # _ \<Rightarrow> sliced s c)"

lemma scheduler_switch:
  assumes ok: "tasks_ok s R (n # Q) S E" and R: "R = [] \<or> (\<exists>c. R = [c] \<and> \<not> keeps s c)"
  shows "\<exists>t. scheduler s = Inr (Switch (case R of [] \<Rightarrow> None | c # _ \<Rightarrow> Some c) n, t)
    \<and> tasks_ok t [n] (ready_after s R Q) (sleeping_after s R S) E \<and> same_data s t \<and> tk_pcb t = slice_of s R
    \<and> tss_esp0 (tk_tss t) = PGUP (pcb_stack0 (tk_pcb t (pcb_of t n))) PGSIZE \<and> heads t = heads s"
proof -
  define s0 where "s0 = s\<lparr>tk_lock := \<lparr>islock = 1\<rparr>, tk_pcb := slice_of s R\<rparr>"
  have p: "places s R (n # Q) S E" "tk_lock s = unlocked" using ok by (simp_all add: tasks_ok_def)
  have len: "length (R @ (n # Q) @ S @ E) < 2147483646" and dist: "distinct (heads s @ R @ (n # Q) @ S @ E)"
    using p(1) by (simp_all add: places_def)
  have dat: "nd_data (tk_heap s x) \<noteq> None" if "x \<in> set (R @ (n # Q) @ S @ E)" for x using p(1) that unfolding places_def by blast
  have p0: "places s0 R (n # Q) S E" using p(1) by (simp add: s0_def)
  have sl: "time_slice (case R of [] \<Rightarrow> None | c # _ \<Rightarrow> Some c) (s\<lparr>tk_lock := \<lparr>islock = 1\<rparr>\<rparr>) = Inr (False, s0)"
    using R time_slice_ok [of "s\<lparr>tk_lock := \<lparr>islock = 1\<rparr>\<rparr>"] p(1)
    by (auto simp: s0_def slice_of_def time_slice_def)
  obtain h1 q1 where 1: "queue_pop (tk_heap s0) (Some (tk_ready s0)) = Inr (Some n, h1, q1)"
    "places ((set_heap h1 s0)\<lparr>tk_ready := q1\<rparr>) R Q S E" "\<forall>a. nd_data (h1 a) = nd_data (tk_heap s0 a)"
    "q_null q1 = q_null (tk_ready s0)" using ready_pop [OF p0] by blast
  define s1 where "s1 = (set_heap h1 s0)\<lparr>tk_ready := q1\<rparr>"
  have d1: "same_data s s1" "heads s1 = heads s" "tk_pcb s1 = slice_of s R" using 1(3,4) by (simp_all add: s1_def s0_def same_data_def heads_def)
  have so: "sleeps_on s1 c = sleeps_on s c" for c
    using same_data_pcb [OF d1(1), of c] by (simp add: sleeps_on_def d1(3) slice_of_def split: list.split)
  have "\<exists>cur h2 q2 s3. cur = (case R of [] \<Rightarrow> None | c # _ \<Rightarrow> Some c) \<and> queue_pop (tk_heap s1) (Some (tk_running s1)) = Inr (cur, h2, q2)
      \<and> put_back cur ((set_heap h2 s1)\<lparr>tk_running := q2\<rparr>) = Inr s3 \<and> places s3 [] (ready_after s R Q) (sleeping_after s R S) E
      \<and> same_data s s3 \<and> heads s3 = heads s \<and> tk_pcb s3 = slice_of s R \<and> tk_lock s3 = \<lparr>islock = 1\<rparr>"
  proof (cases R)
    case Nil
    then have P: "places s1 [] Q S E" using 1(2) by (simp add: s1_def)
    have "set_heap (tk_heap s1) s1\<lparr>tk_running := tk_running s1\<rparr> = s1" by (simp add: set_heap_def)
    then show ?thesis using Nil running_empty [OF P] P d1
      by (intro exI [of _ None] exI [of _ "tk_heap s1"] exI [of _ "tk_running s1"] exI [of _ s1])
        (simp add: put_back_def ready_after_def sleeping_after_def s1_def s0_def)
  next
    case (Cons c R')
    then have R': "R = [c]" using R by simp
    have P: "places s1 [c] Q S E" using 1(2) R' by (simp add: s1_def)
    obtain h2 q2 where 2: "queue_pop (tk_heap s1) (Some (tk_running s1)) = Inr (Some c, h2, q2)"
      "places ((set_heap h2 s1)\<lparr>tk_running := q2\<rparr>) [] Q S E" "\<forall>a. nd_data (h2 a) = nd_data (tk_heap s1 a)"
      "q_null q2 = q_null (tk_running s1)" using running_pop [OF P] by blast
    define s2 where "s2 = (set_heap h2 s1)\<lparr>tk_running := q2\<rparr>"
    have d2: "same_data s s2" "heads s2 = heads s" "tk_pcb s2 = slice_of s R"
      using d1 2(3,4) by (simp_all add: s2_def same_data_def heads_def)
    have so2: "sleeps_on s2 c = sleeps_on s c"
      using so [of c] same_data_pcb [OF d1(1), of c] same_data_pcb [OF d2(1), of c] by (simp add: sleeps_on_def d2(3) d1(3))
    have "c \<notin> set (heads s2 @ [] @ Q @ S @ E)" "nd_data (tk_heap s2 c) \<noteq> None"
      using dist dat [of c] d2(1,2) R' by (simp_all add: same_data_def)
    from put_back_ok [OF 2(2) [folded s2_def] this] len R'
    obtain s3 where "put_back (Some c) s2 = Inr s3" "places s3 [] (ready_after s2 [c] Q) (sleeping_after s2 [c] S) E" "same_data s2 s3"
      "heads s3 = heads s2" "tk_pcb s3 = tk_pcb s2" "tk_lock s3 = tk_lock s2" by auto
    moreover have "ready_after s2 [c] Q = ready_after s R Q" "sleeping_after s2 [c] S = sleeping_after s R S"
      using so2 R' by (simp_all add: ready_after_def sleeping_after_def)
    moreover have "tk_lock s2 = \<lparr>islock = 1\<rparr>" by (simp add: s2_def s1_def s0_def)
    ultimately show ?thesis using 2(1) d2 R'
      by (intro exI [of _ "Some c"] exI [of _ h2] exI [of _ q2] exI [of _ s3]) (simp add: s2_def [symmetric] same_data_def)
  qed
  then obtain h2 q2 s3 where 3: "queue_pop (tk_heap s1) (Some (tk_running s1)) = Inr (case R of [] \<Rightarrow> None | c # _ \<Rightarrow> Some c, h2, q2)"
    "put_back (case R of [] \<Rightarrow> None | c # _ \<Rightarrow> Some c) ((set_heap h2 s1)\<lparr>tk_running := q2\<rparr>) = Inr s3"
    "places s3 [] (ready_after s R Q) (sleeping_after s R S) E" "same_data s s3" "heads s3 = heads s" "tk_pcb s3 = slice_of s R"
    "tk_lock s3 = \<lparr>islock = 1\<rparr>" by blast
  have fresh: "n \<notin> set (heads s3 @ [] @ ready_after s R Q @ sleeping_after s R S @ E)"
    using dist R 3(5) by (auto simp: ready_after_def sleeping_after_def split: list.splits if_splits)
  have ln: "length ([] @ ready_after s R Q @ sleeping_after s R S @ E) < 2147483645"
    using len R by (auto simp: ready_after_def sleeping_after_def split: list.splits if_splits)
  have nd: "nd_data (tk_heap s3 n) \<noteq> None" using dat [of n] 3(4) by (simp add: same_data_def)
  obtain h4 q4 where 4: "queue_push (tk_heap s3) (Some (tk_running s3)) (Some n) TAIL = Inr (h4, q4)"
    "places ((set_heap h4 s3)\<lparr>tk_running := q4\<rparr>) ([] @ [n]) (ready_after s R Q) (sleeping_after s R S) E"
    "\<forall>a. nd_data (h4 a) = nd_data (tk_heap s3 a)" "q_null q4 = q_null (tk_running s3)"
    using running_push [OF 3(3) fresh nd ln] by blast
  define s4 where "s4 = (set_heap h4 s3)\<lparr>tk_running := q4\<rparr>"
  have d4: "same_data s s4" "heads s4 = heads s" "tk_pcb s4 = slice_of s R"
    using 3(4-6) 4(3,4) by (simp_all add: s4_def same_data_def heads_def)
  have np: "node_pcb n s4 = Inr (pcb_of s4 n)" using nd 4(3) by (auto simp: s4_def node_pcb_def pcb_of_def)
  define t where "t = s4\<lparr>tk_tss := \<lparr>tss_ss0 = ucast DS_SELECTOR_KERN, tss_esp0 = PGUP (pcb_stack0 (tk_pcb s4 (pcb_of s4 n))) PGSIZE\<rparr>,
      tk_lock := unlocked\<rparr>"
  have pop: "queue_pop h1 (Some (tk_running s0)) = Inr (case R of [] \<Rightarrow> None | c # _ \<Rightarrow> Some c, h2, q2)"
    using 3(1) by (simp add: s1_def)
  have pc: "tk_pcb s3 = tk_pcb s4" using d4(3) 3(6) by simp
  have "scheduler s = Inr (Switch (case R of [] \<Rightarrow> None | c # _ \<Rightarrow> Some c) n, t)"
    unfolding scheduler_def
    by (simp add: p(2) running_front [OF p(1)] sl 1(1) s1_def [symmetric] pop 3(2) 4(1) s4_def [symmetric] np pc t_def Let_def)
  moreover have "tasks_ok t [n] (ready_after s R Q) (sleeping_after s R S) E" using 4(2) by (simp add: t_def s4_def tasks_ok_def)
  ultimately show ?thesis using d4 by (intro exI [of _ t]) (simp add: t_def same_data_def heads_def pcb_of_def)
qed

subsection \<open>wakeup\<close>

lemma list_size_word: "list_rep h l xs \<Longrightarrow> ls_size l = word_of_nat (length xs)"
  unfolding list_rep_def by (metis of_nat_unat ucast_id)

lemma word_of_nat_less: "m < 2147483648 \<Longrightarrow> n < 2147483648 \<Longrightarrow> (word_of_nat m :: u32) < word_of_nat n \<longleftrightarrow> m < n"
  by (simp add: word_less_nat_alt unat_word_of_nat_32)

lemma task_ready_ok:
  assumes ok: "tasks_ok s R Q S E" and n: "n \<notin> set (heads s @ R @ Q @ S @ E)" "nd_data (tk_heap s n) \<noteq> None"
    and len: "length (R @ Q @ S @ E) < 2147483645"
  shows "\<exists>t. task_ready (Some n) s = Inr t \<and> tasks_ok t R (Q @ [n]) S E \<and> same_data s t \<and> tk_pcb t = tk_pcb s \<and> heads t = heads s"
proof -
  have p: "places s R Q S E" "tk_lock s = unlocked" using ok by (simp_all add: tasks_ok_def)
  obtain h q where r: "queue_push (tk_heap s) (Some (tk_ready s)) (Some n) TAIL = Inr (h, q)"
    "places ((set_heap h s)\<lparr>tk_ready := q\<rparr>) R (Q @ [n]) S E" "\<forall>a. nd_data (h a) = nd_data (tk_heap s a)"
    "q_null q = q_null (tk_ready s)" using ready_push [OF p(1) n len] by blast
  have "tasks_ok ((set_heap h s)\<lparr>tk_ready := q, tk_lock := unlocked\<rparr>) R (Q @ [n]) S E"
    using r(2) by (simp add: tasks_ok_def places_def heads_def)
  then show ?thesis using r p(2)
    by (intro exI [of _ "(set_heap h s)\<lparr>tk_ready := q, tk_lock := unlocked\<rparr>"]) (simp add: task_ready_def same_data_def heads_def)
qed

lemma wakeup_loop_ok:
  "tasks_ok s R Q (A @ B) E \<Longrightarrow> \<forall>n \<in> set A. sleeps_on s n \<noteq> r \<Longrightarrow> length B < k \<Longrightarrow>
   \<exists>t. wakeup_loop k (word_of_nat (Suc (length A))) r s = Inr t
     \<and> tasks_ok t R (Q @ filter (\<lambda>n. sleeps_on s n = r) B) (A @ filter (\<lambda>n. sleeps_on s n \<noteq> r) B) E
     \<and> same_data s t \<and> tk_pcb t = tk_pcb s \<and> heads t = heads s"
proof (induction k arbitrary: s Q A B)
  case (Suc k)
  have p: "places s R Q (A @ B) E" "tk_lock s = unlocked" using Suc.prems(1) by (simp_all add: tasks_ok_def)
  have rep: "list_rep (tk_heap s) (tk_sleeping s) (A @ B)" using p(1) by (simp add: places_def)
  have ln: "length (R @ Q @ (A @ B) @ E) < 2147483646" using p(1) by (simp add: places_def)
  have sz: "ls_size (tk_sleeping s) < word_of_nat (Suc (length A)) \<longleftrightarrow> B = []"
    unfolding list_size_word [OF rep] using ln by (subst word_of_nat_less) auto
  show ?case
  proof (cases B)
    case Nil
    then show ?thesis using sz Suc.prems(1) by (intro exI [of _ s]) (simp add: same_data_def)
  next
    case (Cons n B')
    have f: "list_find (tk_heap s) (Some (tk_sleeping s)) (word_of_nat (Suc (length A))) = Inr (Some n)"
      using list_find_rep [OF rep, of "Suc (length A)"] Cons by (simp add: nth_append del: of_nat_Suc)
    have np: "node_pcb n s = Inr (pcb_of s n)" using node_pcb_ok [OF p(1), of n] Cons by simp
    have step: "wakeup_loop (Suc k) (word_of_nat (Suc (length A))) r s =
        (if sleeps_on s n = r then
           bindr (list_remove (tk_heap s) (Some (tk_sleeping s)) (word_of_nat (Suc (length A)))) (\<lambda>(to_wakeup, h, l).
           bindr (task_ready (Some to_wakeup) ((set_heap h s)\<lparr>tk_sleeping := l\<rparr>)) (wakeup_loop k (word_of_nat (Suc (length A))) r))
         else wakeup_loop k (word_of_nat (Suc (Suc (length A)))) r s)"
      using sz f np Cons by (simp add: sleeps_on_def add.commute)
    show ?thesis
    proof (cases "sleeps_on s n = r")
      case True
      have i: "length A < length (A @ B)" using Cons by simp
      obtain h l where 1: "list_remove (tk_heap s) (Some (tk_sleeping s)) (word_of_nat (Suc (length A))) = Inr (n, h, l)"
        "places ((set_heap h s)\<lparr>tk_sleeping := l\<rparr>) R Q (A @ B') E" "\<forall>a. nd_data (h a) = nd_data (tk_heap s a)"
        "ls_null l = ls_null (tk_sleeping s)" using sleeping_remove [OF p(1) i] Cons by auto
      define s1 where "s1 = (set_heap h s)\<lparr>tk_sleeping := l\<rparr>"
      have d1: "same_data s s1" "heads s1 = heads s" "tk_pcb s1 = tk_pcb s" "tasks_ok s1 R Q (A @ B') E"
        using 1 p(2) by (simp_all add: s1_def same_data_def heads_def tasks_ok_def)
      have "n \<notin> set (heads s1 @ R @ Q @ (A @ B') @ E)" "nd_data (tk_heap s1 n) \<noteq> None" "length (R @ Q @ (A @ B') @ E) < 2147483645"
        using p(1) Cons d1(1,2) ln by (auto simp: places_def same_data_def)
      from task_ready_ok [OF d1(4) this] obtain s2 where 2: "task_ready (Some n) s1 = Inr s2" "tasks_ok s2 R (Q @ [n]) (A @ B') E"
        "same_data s1 s2" "tk_pcb s2 = tk_pcb s1" "heads s2 = heads s1" by blast
      have d2: "same_data s s2" using d1(1) 2(3) by (simp add: same_data_def)
      have so: "sleeps_on s2 a = sleeps_on s a" for a using same_data_pcb [OF d2] 2(4) d1(3) by (simp add: sleeps_on_def)
      obtain t where t: "wakeup_loop k (word_of_nat (Suc (length A))) r s2 = Inr t"
        "tasks_ok t R ((Q @ [n]) @ filter (\<lambda>n. sleeps_on s2 n = r) B') (A @ filter (\<lambda>n. sleeps_on s2 n \<noteq> r) B') E"
        "same_data s2 t" "tk_pcb t = tk_pcb s2" "heads t = heads s2"
        using Suc.IH [OF 2(2)] Suc.prems(2,3) Cons so by auto
      have "wakeup_loop (Suc k) (word_of_nat (Suc (length A))) r s = Inr t"
        using step True 1(1) 2(1) t(1) by (simp add: s1_def [symmetric] del: wakeup_loop.simps)
      then show ?thesis using t d1 d2 2 True Cons so by (intro exI [of _ t]) (simp add: same_data_def)
    next
      case False
      obtain t where t: "wakeup_loop k (word_of_nat (Suc (length (A @ [n])))) r s = Inr t"
        "tasks_ok t R (Q @ filter (\<lambda>n. sleeps_on s n = r) B') ((A @ [n]) @ filter (\<lambda>n. sleeps_on s n \<noteq> r) B') E"
        "same_data s t" "tk_pcb t = tk_pcb s" "heads t = heads s"
        using Suc.IH [of s Q "A @ [n]" B'] Suc.prems False Cons by auto
      have "wakeup_loop (Suc k) (word_of_nat (Suc (length A))) r s = Inr t"
        using step False t(1) by (simp del: wakeup_loop.simps of_nat_Suc)
      then show ?thesis using t False Cons by (intro exI [of _ t]) simp
    qed
  qed
qed simp

lemma wakeup_ok:
  assumes ok: "tasks_ok s R Q S E"
  shows "\<exists>t. wakeup r s = Inr t
    \<and> tasks_ok t R (Q @ filter (\<lambda>n. sleeps_on s n = r) S) (filter (\<lambda>n. sleeps_on s n \<noteq> r) S) E
    \<and> same_data s t \<and> tk_pcb t = tk_pcb s \<and> heads t = heads s"
proof -
  have rep: "list_rep (tk_heap s) (tk_sleeping s) S" using ok by (simp add: tasks_ok_def places_def)
  then have "unat (ls_size (tk_sleeping s)) = length S" by (simp add: list_rep_def)
  then show ?thesis using wakeup_loop_ok [of s R Q "[]" S E r "Suc (length S)"] ok by (simp add: wakeup_def del: wakeup_loop.simps)
qed

subsection \<open>Round robin\<close>

text \<open>
  The abstract scheduler: the time slices, and the running, ready and sleeping tasks.
\<close>

type_synonym rr = "(u32 \<Rightarrow> nat) \<times> u32 list \<times> u32 list \<times> u32 list"

fun rr_step :: "(u32 \<Rightarrow> bool) \<Rightarrow> rr \<Rightarrow> rr" where
  "rr_step asleep (ticks, [], [], S) = (ticks, [], [], S)"
| "rr_step asleep (ticks, [], n # Q, S) = (ticks, [n], Q, S)"
| "rr_step asleep (ticks, c # R, Q, S) =
     (if \<not> asleep c \<and> 0 < ticks c then (ticks(c := ticks c - 1), c # R, Q, S)
      else
        let ticks = (if asleep c then ticks else ticks(c := 16)) in
        (case Q of
           [] \<Rightarrow> (ticks, c # R, [], S)
         | n # Q \<Rightarrow> if asleep c then (ticks, [n], Q, S @ [c]) else (ticks, [n], Q @ [c], S)))"

text \<open>The kernel's state \<open>s\<close> stands for the abstract one; no two tasks have the same PCB.\<close>

definition rr_rep :: "tasks \<Rightarrow> u32 list \<Rightarrow> (u32 \<Rightarrow> bool) \<Rightarrow> rr \<Rightarrow> bool" where
  "rr_rep s E asleep = (\<lambda>(ticks, R, Q, S). tasks_ok s R Q S E \<and> length R \<le> 1 \<and> inj_on (pcb_of s) (set (R @ Q @ S))
     \<and> (\<forall>n \<in> set (R @ Q @ S). ticks_of s n = ticks n \<and> (sleeps_on s n \<noteq> None) = asleep n))"

lemma rr_repI:
  "tasks_ok t R Q S E \<Longrightarrow> length R \<le> 1 \<Longrightarrow> set (R @ Q @ S) = N \<Longrightarrow> inj_on (pcb_of t) N
   \<Longrightarrow> (\<And>m. m \<in> N \<Longrightarrow> ticks_of t m = ticks m \<and> (sleeps_on t m \<noteq> None) = asleep m) \<Longrightarrow> rr_rep t E asleep (ticks, R, Q, S)"
  unfolding rr_rep_def by blast

lemma tasks_ok_pcb: "tasks_ok (s\<lparr>tk_pcb := f\<rparr>) R Q S E = tasks_ok s R Q S E"
  by (simp add: tasks_ok_def)

lemma sliced_view:
  assumes "inj_on (pcb_of s) N" and "c \<in> N" and "n \<in> N" and "tk_pcb t = sliced s c" and "same_data s t"
  shows "sleeps_on t n = sleeps_on s n"
    and "ticks_of t n = (if n = c \<and> sleeps_on s c = None then (if ticks_of s c = 0 then 16 else ticks_of s c - 1) else ticks_of s n)"
proof -
  have p: "pcb_of t n = pcb_of s n" by (rule same_data_pcb [OF assms(5)])
  show "sleeps_on t n = sleeps_on s n" by (simp add: sleeps_on_def p assms(4))
  have i: "pcb_of s n = pcb_of s c \<longleftrightarrow> n = c" using assms(1-3) by (auto dest: inj_onD)
  have "sliced s c = tk_pcb s" if "sleeps_on s c \<noteq> None" using that by (simp add: sliced_def sleeps_on_def Let_def)
  then show "ticks_of t n = (if n = c \<and> sleeps_on s c = None then (if ticks_of s c = 0 then 16 else ticks_of s c - 1) else ticks_of s n)"
    using sliced_ticks [of s c "pcb_of s n"] i by (cases "sleeps_on s c") (simp_all add: ticks_of_def p assms(4))
qed

lemma scheduler_rr:
  assumes rep: "rr_rep s E asleep (ticks, R, Q, S)"
  shows "\<exists>out t. scheduler s = Inr (out, t) \<and> rr_rep t E asleep (rr_step asleep (ticks, R, Q, S)) \<and> same_data s t \<and> heads t = heads s"
proof -
  have ok: "tasks_ok s R Q S E" "length R \<le> 1" "inj_on (pcb_of s) (set (R @ Q @ S))"
    "\<And>n. n \<in> set (R @ Q @ S) \<Longrightarrow> ticks_of s n = ticks n \<and> (sleeps_on s n \<noteq> None) = asleep n"
    using rep by (auto simp: rr_rep_def)
  note v = sliced_view [OF ok(3)]
  have same: "same_data s (s\<lparr>tk_pcb := f\<rparr>)" "pcb_of (s\<lparr>tk_pcb := f\<rparr>) = pcb_of s" "heads (s\<lparr>tk_pcb := f\<rparr>) = heads s" for f
    by (simp_all add: same_data_def pcb_of_def heads_def fun_eq_iff)
  show ?thesis
  proof (cases R)
    case Nil
    show ?thesis
    proof (cases Q)
      case Nil
      then show ?thesis using scheduler_nothing_ready [of s "[]" S E] ok(1) \<open>R = []\<close> rep by (simp add: same_data_def)
    next
      case (Cons n Q')
      obtain t where t: "scheduler s = Inr (Switch None n, t)" "tasks_ok t [n] Q' S E" "same_data s t" "tk_pcb t = tk_pcb s" "heads t = heads s"
        using scheduler_switch [of s "[]" n Q' S E] ok(1) Nil Cons by (auto simp: ready_after_def sleeping_after_def slice_of_def)
      have "pcb_of t = pcb_of s" using same_data_pcb [OF t(3)] by (simp add: fun_eq_iff)
      then have "rr_rep t E asleep (ticks, [n], Q', S)" using t ok(3,4) Nil Cons by (simp add: rr_rep_def ticks_of_def sleeps_on_def)
      then show ?thesis using t Nil Cons by auto
    qed
  next
    case (Cons c R')
    then have R: "R = [c]" using ok(2) by simp
    have c: "c \<in> set (R @ Q @ S)" "ticks_of s c = ticks c" "(sleeps_on s c \<noteq> None) = asleep c" using ok(4) [of c] R by simp_all
    have cn: "sleeps_on s c = None \<longleftrightarrow> \<not> asleep c" using c(3) by blast
    show ?thesis
    proof (cases "keeps s c")
      case True
      then have k: "\<not> asleep c" "0 < ticks c" using c by (simp_all add: keeps_def)
      let ?t = "s\<lparr>tk_pcb := sliced s c\<rparr>"
      have "rr_rep ?t E asleep (ticks(c := ticks c - 1), [c], Q, S)"
        using ok k c R v [OF c(1) _ _ same(1), of _ "sliced s c"] by (auto simp: rr_rep_def tasks_ok_pcb same)
      then show ?thesis using scheduler_keeps [of s c "[]" Q S E] ok(1) True k R by (auto simp: same)
    next
      case False
      then have k: "asleep c \<or> ticks c = 0" using c by (auto simp: keeps_def)
      define ticks' where "ticks' = (if asleep c then ticks else ticks(c := 16))"
      show ?thesis
      proof (cases Q)
        case Nil
        let ?t = "s\<lparr>tk_pcb := sliced s c\<rparr>"
        have "ticks_of ?t m = ticks' m \<and> (sleeps_on ?t m \<noteq> None) = asleep m" if m: "m \<in> set (R @ Q @ S)" for m
          using v [OF c(1) m _ same(1), of "sliced s c"] ok(4) [OF m] c(2) cn k unfolding ticks'_def by auto
        then have "rr_rep ?t E asleep (ticks', R, Q, S)"
          using ok(1-3) unfolding rr_rep_def by (simp add: tasks_ok_pcb same)
        moreover have "rr_step asleep (ticks, R, Q, S) = (ticks', R, Q, S)" using k R Nil by (auto simp: ticks'_def)
        ultimately show ?thesis using scheduler_nothing_ready [of s "[c]" S E] ok(1) False R Nil by (simp add: same)
      next
        case (Cons n Q')
        obtain t where t: "scheduler s = Inr (Switch (Some c) n, t)" "tasks_ok t [n] (ready_after s [c] Q') (sleeping_after s [c] S) E"
          "same_data s t" "tk_pcb t = sliced s c" "heads t = heads s"
          using scheduler_switch [of s "[c]" n Q' S E] ok(1) R Cons False by (auto simp: slice_of_def)
        have "pcb_of t = pcb_of s" using same_data_pcb [OF t(3)] by (simp add: fun_eq_iff)
        then have inj: "inj_on (pcb_of t) (set (R @ Q @ S))" using ok(3) by simp
        have tm: "ticks_of t m = ticks' m \<and> (sleeps_on t m \<noteq> None) = asleep m" if m: "m \<in> set (R @ Q @ S)" for m
          using v [OF c(1) m t(4,3)] ok(4) [OF m] c(2) cn k unfolding ticks'_def by auto
        have eq: "set ([n] @ ready_after s [c] Q' @ sleeping_after s [c] S) = set (R @ Q @ S)"
          using R Cons by (auto simp: ready_after_def sleeping_after_def)
        have "rr_rep t E asleep (ticks', [n], ready_after s [c] Q', sleeping_after s [c] S)"
          by (rule rr_repI [OF t(2) _ eq inj tm]) simp_all
        moreover have "rr_step asleep (ticks, R, Q, S) = (ticks', [n], ready_after s [c] Q', sleeping_after s [c] S)"
          using k cn R Cons by (auto simp: ticks'_def ready_after_def sleeping_after_def)
        ultimately show ?thesis using t by auto
      qed
    qed
  qed
qed

subsection \<open>Calls of the scheduler in a row\<close>

fun run_sched :: "nat \<Rightarrow> tasks \<Rightarrow> tasks res" where
  "run_sched 0 s = Inr s"
| "run_sched (Suc k) s = bindr (scheduler s) (\<lambda>(_, t). run_sched k t)"

lemma run_sched_rr: "rr_rep s E asleep a \<Longrightarrow> \<exists>t. run_sched k s = Inr t \<and> rr_rep t E asleep ((rr_step asleep ^^ k) a)"
proof (induction k arbitrary: s a)
  case (Suc k)
  obtain ticks R Q S where a: "a = (ticks, R, Q, S)" by (cases a)
  obtain out t where t: "scheduler s = Inr (out, t)" "rr_rep t E asleep (rr_step asleep a)" using scheduler_rr Suc.prems a by blast
  then show ?case using Suc.IH [OF t(2)] by (simp add: funpow_swap1)
qed simp

text \<open>A running task gives up the processor after the rest of its time slice and one more call.\<close>

lemma rr_turn:
  "\<exists>k ticks' Q' S'. k \<le> Suc (ticks c) \<and> (rr_step asleep ^^ k) (ticks, [c], n # Q, S) = (ticks', [n], Q @ Q', S')
     \<and> set Q' \<subseteq> {c} \<and> (\<forall>m. ticks' m \<le> max 16 (ticks m))"
proof (induction "ticks c" arbitrary: ticks)
  case 0
  then show ?case
    by (intro exI [of _ "Suc 0"] exI [of _ "if asleep c then ticks else ticks(c := 16)"] exI [of _ "if asleep c then [] else [c]"]
        exI [of _ "if asleep c then S @ [c] else S"]) simp
next
  case (Suc x)
  show ?case
  proof (cases "asleep c")
    case True
    then show ?thesis
      by (intro exI [of _ "Suc 0"] exI [of _ ticks] exI [of _ "[]"] exI [of _ "S @ [c]"]) simp
  next
    case False
    let ?t = "ticks(c := ticks c - 1)"
    have "rr_step asleep (ticks, [c], n # Q, S) = (?t, [c], n # Q, S)" using False Suc.hyps(2) by simp
    moreover have "x = ?t c" using Suc.hyps(2) by simp
    from Suc.hyps(1) [of ?t, OF this] obtain k ticks' Q' S' where r: "k \<le> Suc (?t c)"
      "(rr_step asleep ^^ k) (?t, [c], n # Q, S) = (ticks', [n], Q @ Q', S')" "set Q' \<subseteq> {c}"
      "\<forall>m. ticks' m \<le> max 16 (?t m)" by blast
    ultimately have "(rr_step asleep ^^ Suc k) (ticks, [c], n # Q, S) = (ticks', [n], Q @ Q', S')"
      by (simp add: funpow_swap1)
    moreover have "Suc k \<le> Suc (ticks c)" using r(1) Suc.hyps(2) by simp
    moreover have "\<forall>m. ticks' m \<le> max 16 (ticks m)" using r(4) Suc.hyps(2) by (metis diff_le_self fun_upd_apply max.mono order.refl order.trans)
    ultimately show ?thesis using r(3) by blast
  qed
qed

lemma rr_reaches:
  "i < length Q \<Longrightarrow> length R \<le> 1 \<Longrightarrow> \<forall>n \<in> set (R @ Q). ticks n \<le> 16 \<Longrightarrow>
   \<exists>k ticks' Q' S'. k \<le> 17 * Suc i \<and> (rr_step asleep ^^ k) (ticks, R, Q, S) = (ticks', [Q ! i], Q', S')"
proof (induction i arbitrary: R Q ticks S)
  case 0
  then obtain n Q1 where Q: "Q = n # Q1" by (cases Q) auto
  show ?case
  proof (cases R)
    case Nil
    then show ?thesis using Q
      by (intro exI [of _ "Suc 0"] exI [of _ ticks] exI [of _ Q1] exI [of _ S]) simp
  next
    case (Cons c R')
    then have R: "R = [c]" using 0 by simp
    obtain k ticks' Q' S' where "k \<le> Suc (ticks c)" "(rr_step asleep ^^ k) (ticks, [c], n # Q1, S) = (ticks', [n], Q1 @ Q', S')"
      using rr_turn by blast
    moreover have "ticks c \<le> 16" using 0(3) R by simp
    ultimately show ?thesis using R Q by (intro exI [of _ k]) auto
  qed
next
  case (Suc i)
  then obtain n Q1 where Q: "Q = n # Q1" by (cases Q) auto
  obtain k1 ticks1 Q2 S1 where 1: "k1 \<le> 17" "(rr_step asleep ^^ k1) (ticks, R, Q, S) = (ticks1, [n], Q1 @ Q2, S1)"
    "\<forall>m \<in> set ([n] @ Q1 @ Q2). ticks1 m \<le> 16"
  proof (cases R)
    case Nil
    have "(rr_step asleep ^^ Suc 0) (ticks, R, Q, S) = (ticks, [n], Q1 @ [], S)" using Nil Q by simp
    then show ?thesis using that [of "Suc 0" ticks "[]" S] Suc.prems(3) Q by auto
  next
    case (Cons c R')
    then have R: "R = [c]" using Suc.prems(2) by simp
    obtain k ticks' Q' S' where t: "k \<le> Suc (ticks c)" "(rr_step asleep ^^ k) (ticks, [c], n # Q1, S) = (ticks', [n], Q1 @ Q', S')"
      "set Q' \<subseteq> {c}" "\<forall>m. ticks' m \<le> max 16 (ticks m)" using rr_turn by blast
    have "ticks' m \<le> 16" if "m \<in> set ([n] @ Q1 @ Q')" for m
    proof -
      have "m \<in> set (R @ Q)" using that t(3) R Q by auto
      then have "max 16 (ticks m) = 16" using Suc.prems(3) by (metis max.absorb1)
      then show ?thesis using t(4) by metis
    qed
    moreover have "ticks c \<le> 16" using Suc.prems(3) R by simp
    ultimately show ?thesis using that [of k ticks' Q' S'] t(1,2) R Q by auto
  qed
  have "i < length (Q1 @ Q2)" "(Q1 @ Q2) ! i = Q ! Suc i" using Suc.prems(1) Q by (simp_all add: nth_append)
  with Suc.IH [of "Q1 @ Q2" "[n]" ticks1 S1] 1(3) obtain k2 ticks2 Q3 S2 where
    2: "k2 \<le> 17 * Suc i" "(rr_step asleep ^^ k2) (ticks1, [n], Q1 @ Q2, S1) = (ticks2, [Q ! Suc i], Q3, S2)" by auto
  have "(rr_step asleep ^^ (k2 + k1)) (ticks, R, Q, S) = (ticks2, [Q ! Suc i], Q3, S2)" using 1(2) 2(2) by (simp add: funpow_add)
  then show ?case using 1(1) 2(1) by (intro exI [of _ "k2 + k1"]) auto
qed

subsection \<open>No task is lost\<close>

lemma run_swap: "R = [] \<or> (\<exists>c. R = [c]) \<Longrightarrow> set ([n] @ ready_after s R Q @ sleeping_after s R S) = set (R @ (n # Q) @ S)"
  by (auto simp: ready_after_def sleeping_after_def split: if_splits)

lemma scheduler_total:
  assumes ok: "tasks_ok s R Q S E" and R: "length R \<le> 1"
  shows "\<exists>out t R' Q' S'. scheduler s = Inr (out, t) \<and> tasks_ok t R' Q' S' E \<and> length R' \<le> 1
    \<and> set (R' @ Q' @ S') = set (R @ Q @ S)"
proof (cases "R \<noteq> [] \<and> keeps s (hd R)")
  case True
  then obtain c R' where "R = c # R'" "keeps s c" by (cases R) auto
  then show ?thesis using scheduler_keeps ok R by (fastforce simp: tasks_ok_pcb)
next
  case False
  have one: "R = [] \<or> (\<exists>c. R = [c])" using R by (cases R) auto
  show ?thesis
  proof (cases Q)
    case Nil
    then show ?thesis using scheduler_nothing_ready [of s R S E] ok False R one by (fastforce simp: tasks_ok_pcb)
  next
    case (Cons n Q')
    then obtain out t where "scheduler s = Inr (out, t)" "tasks_ok t [n] (ready_after s R Q') (sleeping_after s R S) E"
      using scheduler_switch [of s R n Q' S E] ok False one by auto
    moreover have "set ([n] @ ready_after s R Q' @ sleeping_after s R S) = set (R @ Q @ S)" using run_swap [OF one] Cons by metis
    ultimately show ?thesis by fastforce
  qed
qed

lemma get_current_pcb_ok:
  assumes "tasks_ok s R Q S E"
  shows "get_current_pcb s = (case R of [] \<Rightarrow> panic ''get_current_pcb(): no current task'' | c # _ \<Rightarrow> Inr (pcb_of s c))"
proof -
  have p: "places s R Q S E" "tk_lock s = unlocked" using assms by (simp_all add: tasks_ok_def)
  show ?thesis
  proof (cases R)
    case (Cons c R')
    then obtain d where "nd_data (tk_heap s c) = Some d" using p(1) unfolding places_def by fastforce
    then show ?thesis using p(2) running_front [OF p(1)] Cons by (simp add: get_current_pcb_def pcb_of_def)
  qed (use p(2) running_front [OF p(1)] in \<open>simp add: get_current_pcb_def\<close>)
qed

lemma tasks_ok_set_pcb [simp]: "tasks_ok (set_pcb_at p x s) R Q S E = tasks_ok s R Q S E"
  "tasks_ok (s\<lparr>tk_intr := b\<rparr>) R Q S E = tasks_ok s R Q S E"
  by (simp_all add: tasks_ok_def)

text \<open>The state in which sleep() calls the scheduler.\<close>

definition asleep_on :: "u32 \<Rightarrow> u32 \<Rightarrow> tasks \<Rightarrow> tasks" where
  "asleep_on r c s = (let s = s\<lparr>tk_intr := False\<rparr>; p = pcb_of s c in set_pcb_at p ((tk_pcb s p)\<lparr>pcb_sleep := Some r\<rparr>) s)"

lemma asleep_on_simps [simp]:
  "tasks_ok (asleep_on r c s) R Q S E = tasks_ok s R Q S E" "sleeps_on (asleep_on r c s) c = Some r"
  "pcb_of (asleep_on r c s) = pcb_of s" "same_data s (asleep_on r c s)" "heads (asleep_on r c s) = heads s"
  by (simp_all add: asleep_on_def Let_def sleeps_on_def pcb_of_def same_data_def heads_def fun_eq_iff)

lemma sleep_enter_ok:
  assumes "tasks_ok s (c # R) Q S E" and "test lock \<noteq> 0"
  shows "sleep_enter (Some r) lock s = bindr (scheduler (asleep_on r c s)) (\<lambda>(out, t). Inr (pcb_of s c, out, signal lock, t))"
proof -
  have "get_current_pcb (s\<lparr>tk_intr := False\<rparr>) = Inr (pcb_of s c)"
    using get_current_pcb_ok [of "s\<lparr>tk_intr := False\<rparr>" "c # R" Q S E] assms(1) by (simp add: pcb_of_def)
  then show ?thesis using assms(2) by (simp add: sleep_enter_def asleep_on_def Let_def pcb_of_def)
qed

lemma sleep_total:
  assumes ok: "tasks_ok s R Q S E" "length R \<le> 1" and run: "sleep resource lock s = Inr (out, lock', t)"
  shows "\<exists>R' Q' S'. tasks_ok t R' Q' S' E \<and> length R' \<le> 1 \<and> set (R' @ Q' @ S') = set (R @ Q @ S)"
proof -
  from run obtain r where r: "resource = Some r" by (cases resource) (auto simp: sleep_def sleep_enter_def)
  have lk: "test lock \<noteq> 0" using run by (auto simp: sleep_def sleep_enter_def r split: if_splits)
  have "R \<noteq> []"
  proof
    assume "R = []"
    then have "get_current_pcb (s\<lparr>tk_intr := False\<rparr>) = panic ''get_current_pcb(): no current task''"
      using get_current_pcb_ok [of "s\<lparr>tk_intr := False\<rparr>" "[]" Q S E] ok(1) by simp
    then show False using run lk by (simp add: sleep_def sleep_enter_def r)
  qed
  then obtain c R1 where R: "R = c # R1" by (cases R) auto
  have a: "tasks_ok (asleep_on r c s) R Q S E" using ok(1) by simp
  obtain out2 t2 R' Q' S' where 2: "scheduler (asleep_on r c s) = Inr (out2, t2)" "tasks_ok t2 R' Q' S' E" "length R' \<le> 1"
    "set (R' @ Q' @ S') = set (R @ Q @ S)" using scheduler_total [OF a ok(2)] by blast
  have "sleep_enter (Some r) lock s = Inr (pcb_of s c, out2, unlocked, t2)" using sleep_enter_ok ok(1) R lk 2(1) by simp
  then have "tasks_ok t R' Q' S' E" using run 2(2) by (auto simp: sleep_def sleep_leave_def r split: outcome.splits)
  then show ?thesis using 2(3,4) by blast
qed

lemma sleep_leave_total: "sleep_leave cur lock s = Inr (lock', t) \<Longrightarrow> tasks_ok s R Q S E \<Longrightarrow> tasks_ok t R Q S E"
  by (auto simp: sleep_leave_def bindr_eq_Inr)

text \<open>
  What can happen to the scheduler's state: a tick of the timer, the return of switch_to(), sleep(), what follows it
  when the task runs again, wakeup(), and a new task.
\<close>

inductive kstep :: "tasks \<Rightarrow> tasks \<Rightarrow> bool" where
  timer: "scheduler s = Inr (out, t) \<Longrightarrow> kstep s t"
| resumed: "kstep s (resume s)"
| sleeps: "sleep resource lock s = Inr (out, lock', t) \<Longrightarrow> kstep s t"
| awake: "sleep_leave cur lock s = Inr (lock', t) \<Longrightarrow> kstep s t"
| wakes: "wakeup resource s = Inr t \<Longrightarrow> kstep s t"
| spawn: "tasks_ok s R Q S E \<Longrightarrow> n \<notin> set (heads s @ R @ Q @ S @ E) \<Longrightarrow> nd_data (tk_heap s n) \<noteq> None
    \<Longrightarrow> length (R @ Q @ S @ E) < 2147483645 \<Longrightarrow> task_ready (Some n) s = Inr t \<Longrightarrow> kstep s t"

lemma tasks_ok_unique:
  assumes "tasks_ok s R Q S E" and "tasks_ok s R' Q' S' E'"
  shows "R' = R \<and> Q' = Q \<and> S' = S \<and> E' = E"
  using assms queue_rep_unique list_rep_unique unfolding tasks_ok_def places_def by metis

lemma kstep_ok:
  "kstep s t \<Longrightarrow> tasks_ok s R Q S E \<Longrightarrow> length R \<le> 1 \<Longrightarrow>
   \<exists>R' Q' S'. tasks_ok t R' Q' S' E \<and> length R' \<le> 1 \<and> set (R @ Q @ S) \<subseteq> set (R' @ Q' @ S')"
proof (induction rule: kstep.induct)
  case (timer s out t)
  then show ?case using scheduler_total [of s R Q S E] by fastforce
next
  case (resumed s)
  then have "tasks_ok (resume s) R Q S E" by (simp add: resume_def tasks_ok_def)
  then show ?case using resumed by blast
next
  case (sleeps resource lock s out lock' t)
  then show ?case using sleep_total by (metis order.refl)
next
  case (awake cur lock s lock' t)
  then show ?case using sleep_leave_total by blast
next
  case (wakes r s t)
  have "tasks_ok t R (Q @ filter (\<lambda>n. sleeps_on s n = r) S) (filter (\<lambda>n. sleeps_on s n \<noteq> r) S) E"
    using wakeup_ok [OF wakes(2), of r] wakes(1) by auto
  moreover have "set (R @ Q @ S) \<subseteq> set (R @ (Q @ filter (\<lambda>n. sleeps_on s n = r) S) @ filter (\<lambda>n. sleeps_on s n \<noteq> r) S)" by auto
  ultimately show ?case using wakes(3) by blast
next
  case (spawn s R1 Q1 S1 E1 n t)
  then have e: "R1 = R" "Q1 = Q" "S1 = S" "E1 = E" using tasks_ok_unique by blast+
  have "tasks_ok t R (Q @ [n]) S E" using task_ready_ok [OF spawn(1-4)] spawn(5) e by auto
  then show ?case using spawn(7) by fastforce
qed

subsection \<open>Properties\<close>

text \<open>Three nodes: 256 runs, 512 is ready and 768 sleeps on 36864; their PCBs are at 4096, 8192 and 12288.\<close>

definition tk_sample :: tasks where
  "tk_sample = \<lparr>tk_mem = kmem_sample\<lparr>km_heap := (\<lambda>_. \<lparr>nd_data = None, nd_next = None\<rparr>)
       (16 := \<lparr>nd_data = None, nd_next = Some 256\<rparr>, 256 := \<lparr>nd_data = Some 4096, nd_next = None\<rparr>,
        32 := \<lparr>nd_data = None, nd_next = Some 512\<rparr>, 512 := \<lparr>nd_data = Some 8192, nd_next = None\<rparr>,
        48 := \<lparr>nd_data = None, nd_next = Some 768\<rparr>, 768 := \<lparr>nd_data = Some 12288, nd_next = None\<rparr>)\<rparr>,
     tk_ready = \<lparr>q_null = 32, q_head = 32, q_tail = 512\<rparr>, tk_running = \<lparr>q_null = 16, q_head = 16, q_tail = 256\<rparr>,
     tk_lock = unlocked, tk_sleeping = \<lparr>ls_null = 48, ls_size = 1\<rparr>, tk_expired = \<lparr>ls_null = 64, ls_size = 0\<rparr>,
     tk_pcb = (\<lambda>p. \<lparr>pcb_stack0 = p, pcb_stack3 = p, pcb_tid = 0, pcb_pgdir_pa = 0, pcb_ticks = 16,
       pcb_sleep = (if p = 12288 then Some 36864 else None), pcb_hmngr = None, pcb_fmngr = None, pcb_break = 0,
       pcb_parent = 0, pcb_curdir = None\<rparr>),
     tk_tss = \<lparr>tss_ss0 = 0, tss_esp0 = 0\<rparr>, tk_intr = True\<rparr>"

lemma tk_sample_ok: "tasks_ok tk_sample [256] [512] [768] []"
  by (simp add: tk_sample_def tasks_ok_def places_def heads_def queue_rep_def list_rep_def)

lemma tk_sample_view:
  "pcb_of tk_sample 256 = 4096" "pcb_of tk_sample 512 = 8192" "pcb_of tk_sample 768 = 12288"
  "ticks_of tk_sample n = 16" "sleeps_on tk_sample 256 = None" "sleeps_on tk_sample 512 = None" "sleeps_on tk_sample 768 = Some 36864"
  by (simp_all add: tk_sample_def pcb_of_def ticks_of_def sleeps_on_def)

lemma tk_sample_rr: "rr_rep tk_sample [] (\<lambda>n. n = 768) (\<lambda>_. 16, [256], [512], [768])"
  by (simp add: rr_rep_def tk_sample_ok tk_sample_view)

text \<open>C1: any number of calls of scheduler() does on the kernel's queues, lists and time slices what the abstract round
  robin does: the first ready task takes over when the running one sleeps or its slice is used up, which then goes
  to the end of the ready queue with a new slice, or to the end of the sleeping list.\<close>

theorem scheduler_round_robin:
  assumes "rr_rep s E asleep a"
  shows "\<exists>t. run_sched k s = Inr t \<and> rr_rep t E asleep ((rr_step asleep ^^ k) a)"
  using assms by (rule run_sched_rr)

theorem scheduler_round_robin_witness:
  "\<exists>t. run_sched 3 tk_sample = Inr t \<and> rr_rep t [] (\<lambda>n. n = 768) (\<lambda>n. if n = 256 then 13 else 16, [256], [512], [768])"
proof -
  have "(rr_step (\<lambda>n. n = 768) ^^ 3) (\<lambda>_. 16, [256], [512], [768]) = ((\<lambda>n. if n = 256 then 13 else 16), [256], [512], [768])"
    by (simp add: numeral_3_eq_3 fun_eq_iff)
  then show ?thesis using scheduler_round_robin [OF tk_sample_rr, of 3] by simp
qed

text \<open>C2: every ready task gets to run: the task at position i of the ready queue is the running one after at most
  17 * (i + 1) calls of scheduler(), when no time slice is longer than TIMETICKS.\<close>

theorem ready_task_runs:
  assumes "rr_rep s E asleep (ticks, R, Q, S)" and "\<forall>n \<in> set (R @ Q). ticks n \<le> 16" and "i < length Q"
  shows "\<exists>k t Q' S'. k \<le> 17 * Suc i \<and> run_sched k s = Inr t \<and> tasks_ok t [Q ! i] Q' S' E"
proof -
  have "length R \<le> 1" using assms(1) by (simp add: rr_rep_def)
  then obtain k ticks' Q' S' where k: "k \<le> 17 * Suc i" "(rr_step asleep ^^ k) (ticks, R, Q, S) = (ticks', [Q ! i], Q', S')"
    using rr_reaches [OF assms(3) _ assms(2)] by blast
  obtain t where "run_sched k s = Inr t" "rr_rep t E asleep (ticks', [Q ! i], Q', S')"
    using run_sched_rr [OF assms(1), of k] k(2) by auto
  then show ?thesis using k(1) unfolding rr_rep_def by blast
qed

theorem ready_task_runs_witness:
  "\<exists>k t Q' S'. k \<le> 17 \<and> run_sched k tk_sample = Inr t \<and> tasks_ok t [512] Q' S' []"
  using ready_task_runs [OF tk_sample_rr, of 0] by fastforce

text \<open>C3: no task is lost: whatever ticks, sleeps, wakeups and new tasks happen, in any order, the queues and lists stay
  well formed, at most one task runs, and every task is on exactly one of them.\<close>

theorem no_task_lost:
  assumes "kstep\<^sup>*\<^sup>* s t" and "tasks_ok s R Q S E" and "length R \<le> 1"
  shows "\<exists>R' Q' S'. tasks_ok t R' Q' S' E \<and> length R' \<le> 1 \<and> set (R @ Q @ S) \<subseteq> set (R' @ Q' @ S')"
  using assms(1)
proof (induction rule: rtranclp_induct)
  case base
  then show ?case using assms(2,3) by blast
next
  case (step t u)
  then obtain R1 Q1 S1 where 1: "tasks_ok t R1 Q1 S1 E" "length R1 \<le> 1" "set (R @ Q @ S) \<subseteq> set (R1 @ Q1 @ S1)" by blast
  show ?case using kstep_ok [OF step(2) 1(1,2)] 1(3) by (meson order.trans)
qed

theorem no_task_lost_witness:
  "\<exists>t R' Q' S'. kstep\<^sup>*\<^sup>* tk_sample t \<and> tasks_ok t R' Q' S' [] \<and> {256, 512, 768} \<subseteq> set (R' @ Q' @ S')"
proof -
  obtain out t where "scheduler tk_sample = Inr (out, t)" using scheduler_total [OF tk_sample_ok] by auto
  then have k: "kstep\<^sup>*\<^sup>* tk_sample t" by (intro r_into_rtranclp timer)
  from no_task_lost [OF k tk_sample_ok] show ?thesis using k by auto
qed

text \<open>C10: sleep() and wakeup() belong together: a task that sleeps on a resource while another is ready leaves the
  processor with the resource's lock released and is on the sleeping list, and a wakeup on the resource then
  makes exactly the tasks that sleep on it ready again, in the order of the list, the new one last.\<close>

theorem sleep_wakeup:
  assumes "tasks_ok s [c] (n # Q) S E" and "test lock \<noteq> 0" and "pcb_of s c \<notin> pcb_of s ` set S"
  shows "\<exists>t u. sleep (Some r) lock s = Inr (Switch (Some c) n, unlocked, t) \<and> tasks_ok t [n] Q (S @ [c]) E
    \<and> wakeup (Some r) t = Inr u
    \<and> tasks_ok u [n] (Q @ filter (\<lambda>m. sleeps_on s m = Some r) S @ [c]) (filter (\<lambda>m. sleeps_on s m \<noteq> Some r) S) E"
proof -
  let ?a = "asleep_on r c s"
  have a: "tasks_ok ?a [c] (n # Q) S E" "\<not> keeps ?a c" using assms(1) by (simp_all add: keeps_def)
  obtain t where t: "scheduler ?a = Inr (Switch (Some c) n, t)" "tasks_ok t [n] Q (S @ [c]) E" "same_data ?a t"
    "tk_pcb t = sliced ?a c"
    using scheduler_switch [of ?a "[c]" n Q S E] a by (auto simp: ready_after_def sleeping_after_def slice_of_def)
  have p: "pcb_of t m = pcb_of s m" for m using same_data_pcb [OF t(3)] by simp
  have so: "sleeps_on t m = sleeps_on ?a m" for m by (simp add: sleeps_on_def p t(4))
  have "sleeps_on ?a m = sleeps_on s m" if "m \<in> set S" for m
  proof -
    have "pcb_of s m \<noteq> pcb_of s c" using assms(3) that by (metis image_eqI)
    then show ?thesis by (simp add: sleeps_on_def asleep_on_def Let_def pcb_of_def)
  qed
  then have f: "filter (\<lambda>m. sleeps_on t m = Some r) S = filter (\<lambda>m. sleeps_on s m = Some r) S"
    "filter (\<lambda>m. sleeps_on t m \<noteq> Some r) S = filter (\<lambda>m. sleeps_on s m \<noteq> Some r) S"
    using so by (auto intro: filter_cong)
  have "sleep (Some r) lock s = Inr (Switch (Some c) n, unlocked, t)"
    using sleep_enter_ok [OF assms(1,2), of r] t(1) by (simp add: sleep_def)
  then show ?thesis using wakeup_ok [OF t(2), of "Some r"] t(2) so [of c] f by auto
qed

theorem sleep_wakeup_witness:
  "\<exists>t u. sleep (Some 36864) \<lparr>islock = 1\<rparr> tk_sample = Inr (Switch (Some 256) 512, unlocked, t)
    \<and> wakeup (Some 36864) t = Inr u \<and> tasks_ok u [512] [768, 256] [] []"
proof -
  have p: "pcb_of tk_sample 256 \<notin> pcb_of tk_sample ` set [768]" by (simp add: tk_sample_view)
  have l: "test \<lparr>islock = 1\<rparr> \<noteq> 0" by (simp add: test_def)
  show ?thesis using sleep_wakeup [OF tk_sample_ok l p, of 36864] by (auto simp: tk_sample_view)
qed

text \<open>Sleep() does not block a task when no other one is ready: it returns at once, with the lock taken again and
  the task marked as awake, although nobody called wakeup().\<close>

theorem sleep_alone_returns:
  assumes "tasks_ok s [c] [] S E" and "test lock \<noteq> 0"
  shows "\<exists>t. sleep (Some r) lock s = Inr (Stay, \<lparr>islock = 1\<rparr>, t) \<and> tasks_ok t [c] [] S E \<and> sleeps_on t c = None \<and> tk_intr t"
proof -
  let ?a = "asleep_on r c s"
  have a: "tasks_ok ?a [c] [] S E" "\<not> keeps ?a c" using assms(1) by (simp_all add: keeps_def)
  have run: "scheduler ?a = Inr (Stay, ?a\<lparr>tk_pcb := sliced ?a c\<rparr>)"
    using scheduler_nothing_ready [of ?a "[c]" S E] a by simp
  let ?t = "set_pcb_at (pcb_of s c) ((sliced ?a c (pcb_of s c))\<lparr>pcb_sleep := None\<rparr>) (?a\<lparr>tk_pcb := sliced ?a c, tk_intr := True\<rparr>)"
  have "sleep (Some r) lock s = Inr (Stay, \<lparr>islock = 1\<rparr>, ?t)"
    using sleep_enter_ok [OF assms, of r] run by (simp add: sleep_def sleep_leave_def)
  moreover have "tasks_ok ?t [c] [] S E" using a(1) by (simp add: tasks_ok_pcb)
  moreover have "sleeps_on ?t c = None" by (simp add: sleeps_on_def pcb_of_def set_pcb_at_def asleep_on_def Let_def)
  ultimately show ?thesis by (intro exI [of _ ?t]) (simp add: set_pcb_at_def)
qed

theorem sleep_alone_returns_witness:
  "\<exists>s t. sleep (Some 36864) \<lparr>islock = 1\<rparr> s = Inr (Stay, \<lparr>islock = 1\<rparr>, t) \<and> tasks_ok t [256] [] [768] [] \<and> sleeps_on t 256 = None"
proof -
  let ?s = "tk_sample\<lparr>tk_ready := \<lparr>q_null = 32, q_head = 32, q_tail = 32\<rparr>,
      tk_mem := (tk_mem tk_sample)\<lparr>km_heap := (tk_heap tk_sample)(32 := \<lparr>nd_data = None, nd_next = None\<rparr>)\<rparr>\<rparr>"
  have ok: "tasks_ok ?s [256] [] [768] []"
    by (simp add: tk_sample_def tasks_ok_def places_def heads_def queue_rep_def list_rep_def)
  have l: "test \<lparr>islock = 1\<rparr> \<noteq> 0" by (simp add: test_def)
  show ?thesis using sleep_alone_returns [OF ok l, of 36864] by blast
qed

end
