(* ===== verification/Thread_Props.thy ===== *)
theory Thread_Props
  imports Dynamic Tasks_Props
begin

section \<open>Properties of the thread tables\<close>

text \<open>
  The ids of the threads and what an id owns: its PCB, which overlaps no other, and its buckets, which
  serve a request with the smallest size that fits.
\<close>

subsection \<open>The buckets of a thread\<close>

lemma unat_small_mult: "i < 8 \<Longrightarrow> unat (word_of_nat (i * 12) :: u32) = i * 12"
  by (rule unat_word_of_nat_32) simp

lemma buck_at_inj:
  assumes "i < 8" and "j < 8" and "buck_at b i = buck_at b j"
  shows "i = j"
proof -
  have "(word_of_nat (i * 12) :: u32) = word_of_nat (j * 12)" using assms(3) unfolding buck_at_def SIZEOF_BUCKX_def by simp
  then have "i * 12 = j * 12" using unat_small_mult [OF assms(1)] unat_small_mult [OF assms(2)] by metis
  then show ?thesis by simp
qed

definition bucket_of :: "u32 \<Rightarrow> nat \<Rightarrow> buckx" where
  "bucket_of b i = \<lparr>bk_size = push_bit (i + 3) 1, bk_chain = None, bk_next = (if i = 7 then None else Some (buck_at b (Suc i)))\<rparr>"

lemma bucket_loop_ok:
  "i + n \<le> 8 \<Longrightarrow> \<exists>t. bucket_loop b i n s = Inr t
     \<and> (\<forall>j. i \<le> j \<and> j < i + n \<longrightarrow> th_buck t (buck_at b j) = bucket_of b j)
     \<and> (\<forall>x. (\<forall>j. i \<le> j \<and> j < i + n \<longrightarrow> x \<noteq> buck_at b j) \<longrightarrow> th_buck t x = th_buck s x)"
proof (induction n arbitrary: i s)
  case (Suc n)
  let ?s = "s\<lparr>th_buck := (th_buck s)(buck_at b i := bucket_of b i)\<rparr>"
  have st: "bucket_loop b i (Suc n) s = bucket_loop b (Suc i) n ?s"
    using Suc.prems by (simp add: buckmngr_init_def MAX_BUCKET_SIZE_def bucket_of_def)
  obtain t where t: "bucket_loop b (Suc i) n ?s = Inr t"
    "\<forall>j. Suc i \<le> j \<and> j < Suc i + n \<longrightarrow> th_buck t (buck_at b j) = bucket_of b j"
    "\<forall>x. (\<forall>j. Suc i \<le> j \<and> j < Suc i + n \<longrightarrow> x \<noteq> buck_at b j) \<longrightarrow> th_buck t x = th_buck ?s x"
    using Suc.IH [of "Suc i" ?s] Suc.prems by auto
  have "buck_at b i \<noteq> buck_at b j" if "Suc i \<le> j" "j < Suc i + n" for j
  proof -
    have "i < 8" "j < 8" "i \<noteq> j" using Suc.prems that by auto
    then show ?thesis using buck_at_inj by blast
  qed
  then have "th_buck t (buck_at b i) = bucket_of b i" using t(3) by simp
  then have "\<forall>j. i \<le> j \<and> j < i + Suc n \<longrightarrow> th_buck t (buck_at b j) = bucket_of b j"
    using t(2) by (metis Suc_leI add_Suc_right add_Suc le_neq_implies_less)
  moreover have "\<forall>x. (\<forall>j. i \<le> j \<and> j < i + Suc n \<longrightarrow> x \<noteq> buck_at b j) \<longrightarrow> th_buck t x = th_buck s x"
    using t(3) by simp
  ultimately show ?case using t(1) st by auto
qed (auto intro!: exI)

text \<open>The buckets at \<open>b\<close> are set up.\<close>

definition buckets_ok :: "threads \<Rightarrow> u32 \<Rightarrow> bool" where
  "buckets_ok s b \<longleftrightarrow> (\<forall>i < 8. bk_size (th_buck s (buck_at b i)) = push_bit (i + 3) 1
     \<and> bk_next (th_buck s (buck_at b i)) = (if i = 7 then None else Some (buck_at b (Suc i))))"

lemma thread_buckmngr_init_ok:
  "\<exists>t. thread_buckmngr_init b s = Inr t \<and> buckets_ok t b \<and> (\<forall>i < 8. bk_chain (th_buck t (buck_at b i)) = None)
     \<and> (\<forall>x. x \<notin> buck_at b ` {..<8} \<longrightarrow> th_buck t x = th_buck s x)"
proof -
  have le: "0 + 8 \<le> (8 :: nat)" by simp
  obtain t where t: "bucket_loop b 0 8 s = Inr t" "\<forall>j. 0 \<le> j \<and> j < 0 + 8 \<longrightarrow> th_buck t (buck_at b j) = bucket_of b j"
    "\<forall>x. (\<forall>j. 0 \<le> j \<and> j < 0 + 8 \<longrightarrow> x \<noteq> buck_at b j) \<longrightarrow> th_buck t x = th_buck s x"
    using bucket_loop_ok [OF le, of b s] by (elim exE conjE) (rule that)
  have "\<forall>x. x \<notin> buck_at b ` {..<8} \<longrightarrow> th_buck t x = th_buck s x"
  proof (intro allI impI)
    fix x assume x: "x \<notin> buck_at b ` {..<8}"
    have "x \<noteq> buck_at b j" if "j < 8" for j
    proof
      assume "x = buck_at b j"
      moreover have "j \<in> {..<8}" using that by (simp only: lessThan_iff)
      ultimately show False using x by blast
    qed
    then show "th_buck t x = th_buck s x" using t(3) [rule_format, of x] by simp
  qed
  moreover have "thread_buckmngr_init b s = Inr t" using t(1) by (simp only: thread_buckmngr_init_def MAX_BUCKET_SIZE_def)
  moreover have all: "th_buck t (buck_at b i) = bucket_of b i" if "i < 8" for i
    using t(2) [rule_format, of i] that by simp
  moreover have "buckets_ok t b" using all by (simp add: buckets_ok_def bucket_of_def)
  moreover have "\<forall>i < 8. bk_chain (th_buck t (buck_at b i)) = None" using all by (simp add: bucket_of_def)
  ultimately show ?thesis by blast
qed

lemma unat_power:
  assumes "i < 8"
  shows "unat (push_bit (i + 3) 1 :: u32) = 2 ^ (i + 3)"
proof -
  have "(2 :: nat) ^ (i + 3) \<le> 2 ^ 10" using assms by (intro power_increasing) simp_all
  then have "unat (word_of_nat (2 ^ (i + 3)) :: u32) = 2 ^ (i + 3)" by (intro unat_word_of_nat_32) simp
  then show ?thesis by (simp add: push_bit_of_1)
qed

lemma bucket_search_ok:
  assumes ok: "buckets_ok s b"
  shows "i < 8 \<Longrightarrow> 8 - i < k \<Longrightarrow> (i = 0 \<or> 2 ^ (i + 2) < unat sz) \<Longrightarrow>
    \<exists>r. bucket_search k (Some (buck_at b i)) sz s = Inr r
      \<and> (case r of None \<Rightarrow> 1024 < unat sz
         | Some c \<Rightarrow> \<exists>j < 8. c = buck_at b j \<and> unat sz \<le> 2 ^ (j + 3) \<and> (j = 0 \<or> 2 ^ (j + 2) < unat sz))"
proof (induction k arbitrary: i)
  case (Suc k)
  have b: "bk_size (th_buck s (buck_at b i)) = push_bit (i + 3) 1"
    "bk_next (th_buck s (buck_at b i)) = (if i = 7 then None else Some (buck_at b (Suc i)))"
    using ok Suc.prems(1) by (simp_all add: buckets_ok_def)
  have le: "sz \<le> push_bit (i + 3) 1 \<longleftrightarrow> unat sz \<le> 2 ^ (i + 3)" using unat_power [OF Suc.prems(1)] by (simp add: word_le_nat_alt)
  show ?case
  proof (cases "unat sz \<le> 2 ^ (i + 3)")
    case True
    then show ?thesis using b(1) le Suc.prems by auto
  next
    case big: False
    show ?thesis
    proof (cases "i = 7")
      case True
      then obtain k' where "k = Suc k'" using Suc.prems(2) by (cases k) auto
      then show ?thesis using b le big True by auto
    next
      case False
      have "(2 :: nat) ^ (Suc i + 2) < unat sz" using big by (simp add: power_add)
      then have "\<exists>r. bucket_search k (Some (buck_at b (Suc i))) sz s = Inr r
          \<and> (case r of None \<Rightarrow> 1024 < unat sz
             | Some c \<Rightarrow> \<exists>j < 8. c = buck_at b j \<and> unat sz \<le> 2 ^ (j + 3) \<and> (j = 0 \<or> 2 ^ (j + 2) < unat sz))"
        using Suc.IH [of "Suc i"] Suc.prems False by simp
      then show ?thesis using b le big False by simp
    qed
  qed
qed simp

text \<open>C39: thread_buckmngr_init() writes the eight buckets of the thread's slot and no other, and dyn_alloc's search of them
  ends: it finds the bucket of the smallest of the sizes 8, 16, ..., 1024 that holds the request, and none exactly when the
  request is larger than 1024 bytes.\<close>

theorem bucket_search_smallest:
  "\<exists>t. thread_buckmngr_init b s = Inr t
    \<and> (\<forall>x. x \<notin> buck_at b ` {..<8} \<longrightarrow> th_buck t x = th_buck s x)
    \<and> (\<forall>i < 8. unat (bk_size (th_buck t (buck_at b i))) = 8 * 2 ^ i)
    \<and> (\<forall>sz. \<exists>r. bucket_search MAX_CHAIN (Some (buck_at b 0)) sz t = Inr r \<and> (r = None \<longleftrightarrow> 1024 < unat sz)
        \<and> (\<forall>c. r = Some c \<longrightarrow> (\<exists>i < 8. c = buck_at b i \<and> unat sz \<le> 8 * 2 ^ i \<and> (\<forall>j < i. 8 * 2 ^ j < unat sz))))"
proof -
  obtain t where t: "thread_buckmngr_init b s = Inr t" "buckets_ok t b"
    "\<forall>x. x \<notin> buck_at b ` {..<8} \<longrightarrow> th_buck t x = th_buck s x"
    using thread_buckmngr_init_ok by blast
  have e: "(2 :: nat) ^ (i + 3) = 8 * 2 ^ i" for i by (simp add: power_add)
  have "\<exists>r. bucket_search MAX_CHAIN (Some (buck_at b 0)) sz t = Inr r \<and> (r = None \<longleftrightarrow> 1024 < unat sz)
        \<and> (\<forall>c. r = Some c \<longrightarrow> (\<exists>i < 8. c = buck_at b i \<and> unat sz \<le> 8 * 2 ^ i \<and> (\<forall>j < i. 8 * 2 ^ j < unat sz)))" for sz
  proof -
    obtain r where r: "bucket_search MAX_CHAIN (Some (buck_at b 0)) sz t = Inr r"
      "case r of None \<Rightarrow> 1024 < unat sz
       | Some c \<Rightarrow> \<exists>i < 8. c = buck_at b i \<and> unat sz \<le> 2 ^ (i + 3) \<and> (i = 0 \<or> 2 ^ (i + 2) < unat sz)"
      using bucket_search_ok [OF t(2), of 0 MAX_CHAIN sz] by (auto simp: MAX_CHAIN_def)
    show ?thesis
    proof (cases r)
      case (Some c)
      then obtain i where i: "i < 8" "c = buck_at b i" "unat sz \<le> 8 * 2 ^ i" "i = 0 \<or> 2 ^ (i + 2) < unat sz" using r(2) e by auto
      have "8 * 2 ^ j < unat sz" if "j < i" for j
      proof -
        have "(2 :: nat) ^ (j + 3) \<le> 2 ^ (i + 2)" using that by (intro power_increasing) simp_all
        then show ?thesis using i(4) that e [of j] by simp
      qed
      moreover have "unat sz \<le> 1024"
      proof -
        have "(2 :: nat) ^ i \<le> 2 ^ 7" using i(1) by (intro power_increasing) simp_all
        then show ?thesis using i(3) by simp
      qed
      ultimately show ?thesis using r(1) Some i(1-3) by auto
    qed (use r in auto)
  qed
  moreover have "\<forall>i < 8. unat (bk_size (th_buck t (buck_at b i))) = 8 * 2 ^ i"
    using t(2) unat_power e by (simp add: buckets_ok_def)
  ultimately show ?thesis using t(1,3) by blast
qed

text \<open>A state with the one id 0 in use and the PCBs from 0x80800000 on.\<close>

definition tid_sample :: bitmap where
  "tid_sample = \<lparr>len_inbits = 1024, bm_buff = 1 # replicate 127 0, prev_free = 1\<rparr>"

definition th_sample :: threads where
  "th_sample = \<lparr>th_tasks = tk_sample, th_hoo = 4096, th_buck = (\<lambda>_. \<lparr>bk_size = 0, bk_chain = None, bk_next = None\<rparr>),
     mdata_buckmngr = 0x80400000, mdata_dir = 0, mdata_cd = 0, th_curdirs = [], bitmap_buff = 0, files_array = 0, mdata_fmngr = 0,
     th_fmngrs = [], mdata_pcb = 0x80800000, sl_pcb = unlocked, tid_buff = 0,
     bm_tid = tid_sample, sl_tid = unlocked\<rparr>"

theorem bucket_search_smallest_witness:
  "\<exists>t. thread_buckmngr_init 0x80400000 th_sample = Inr t \<and> th_buck t 0x80400060 = th_buck th_sample 0x80400060
    \<and> (\<exists>c. bucket_search MAX_CHAIN (Some (buck_at 0x80400000 0)) 20 t = Inr (Some c) \<and> c = buck_at 0x80400000 2)
    \<and> bucket_search MAX_CHAIN (Some (buck_at 0x80400000 0)) 1025 t = Inr None"
proof -
  obtain t where t: "thread_buckmngr_init 0x80400000 th_sample = Inr t"
    "\<forall>x. x \<notin> buck_at 0x80400000 ` {..<8} \<longrightarrow> th_buck t x = th_buck th_sample x"
    "\<forall>sz. \<exists>r. bucket_search MAX_CHAIN (Some (buck_at 0x80400000 0)) sz t = Inr r \<and> (r = None \<longleftrightarrow> 1024 < unat sz)
        \<and> (\<forall>c. r = Some c \<longrightarrow> (\<exists>i < 8. c = buck_at 0x80400000 i \<and> unat sz \<le> 8 * 2 ^ i \<and> (\<forall>j < i. 8 * 2 ^ j < unat sz)))"
    using bucket_search_smallest [of "0x80400000" th_sample] by auto
  have "0x80400060 \<notin> buck_at 0x80400000 ` {..<8}"
  proof
    assume "0x80400060 \<in> buck_at 0x80400000 ` {..<8}"
    then obtain i where i: "i < 8" "(0x80400060 :: u32) = buck_at 0x80400000 i" by blast
    then have "i = 0 \<or> i = 1 \<or> i = 2 \<or> i = 3 \<or> i = 4 \<or> i = 5 \<or> i = 6 \<or> i = 7" by linarith
    then show False using i(2) by (elim disjE) (simp_all add: buck_at_def SIZEOF_BUCKX_def)
  qed
  then have f: "th_buck t 0x80400060 = th_buck th_sample 0x80400060" using t(2) by blast
  obtain c where c: "bucket_search MAX_CHAIN (Some (buck_at 0x80400000 0)) 20 t = Inr (Some c)"
    "\<exists>i < 8. c = buck_at 0x80400000 i \<and> (20 :: nat) \<le> 8 * 2 ^ i \<and> (\<forall>j < i. 8 * 2 ^ j < (20 :: nat))"
    using t(3) [rule_format, of 20] by auto
  then obtain i where i: "c = buck_at 0x80400000 i" "(20 :: nat) \<le> 8 * 2 ^ i" "\<forall>j < i. 8 * 2 ^ j < (20 :: nat)" by blast
  have "i \<noteq> 0 \<and> i \<noteq> 1"
  proof (intro conjI notI)
    assume "i = 0"
    with i(2) show False by simp
  next
    assume "i = 1"
    with i(2) show False by simp
  qed
  moreover have "\<not> 2 < i" using i(3) [rule_format, of 2] by auto
  ultimately have "i = 2" by linarith
  moreover have "bucket_search MAX_CHAIN (Some (buck_at 0x80400000 0)) 1025 t = Inr None"
    using t(3) [rule_format, of 1025] by auto
  ultimately show ?thesis using t(1) f c(1) i(1) by blast
qed

subsection \<open>Thread ids and PCBs\<close>

lemma pcb_addr:
  assumes "unat base + 68 * 1024 < 4294967296" and "k < 1024"
  shows "unat (base + word_of_nat (k * SIZEOF_PCB) :: u32) = unat base + 68 * k"
proof -
  have "unat (word_of_nat (k * SIZEOF_PCB) :: u32) = k * 68"
    unfolding SIZEOF_PCB_def by (rule unat_word_of_nat_32) (use assms(2) in simp)
  then show ?thesis using unat_add_32 [of base "word_of_nat (k * SIZEOF_PCB)"] assms by simp
qed

definition tids_ok :: "threads \<Rightarrow> bool" where
  "tids_ok s \<longleftrightarrow> bm_wf (bm_tid s) \<and> bm_cap (bm_tid s) = 1024 \<and> 0 \<in> bm_bits (bm_tid s) \<and> sl_tid s = unlocked \<and> sl_pcb s = unlocked
     \<and> unat (mdata_pcb s) + 68 * 1024 < 4294967296"

text \<open>C28: while an id is free, thread_tid_alloc() returns one that no thread has, never hoo's 0; its PCB lies in the table
  of 1024 PCBs and overlaps the PCB of no thread; and releasing the id brings the set of ids back to what it was.\<close>

theorem thread_owns_pcb:
  assumes "tids_ok s" and "bm_bits (bm_tid s) \<noteq> {..<1024}"
  shows "\<exists>tid t p u v. thread_tid_alloc s = Inr (tid, t) \<and> tid \<noteq> 0 \<and> unat tid \<notin> bm_bits (bm_tid s) \<and> tids_ok t
    \<and> thread_pcb_get tid t = Inr (p, u) \<and> mdata_pcb s \<le> p \<and> unat p + 68 \<le> unat (mdata_pcb s) + 68 * 1024
    \<and> (\<forall>k \<in> bm_bits (bm_tid s). \<exists>q w. thread_pcb_get (word_of_nat k) t = Inr (q, w) \<and> (unat p + 68 \<le> unat q \<or> unat q + 68 \<le> unat p))
    \<and> thread_tid_release tid u = Inr v \<and> bm_bits (bm_tid v) = bm_bits (bm_tid s) \<and> tids_ok v"
proof -
  let ?m = "bm_tid s"
  have ok: "bm_wf ?m" "bm_cap ?m = 1024" "0 \<in> bm_bits ?m" "sl_tid s = unlocked" "sl_pcb s = unlocked"
    "unat (mdata_pcb s) + 68 * 1024 < 4294967296" using assms(1) by (simp_all add: tids_ok_def)
  obtain j m1 m2 m3 where j: "bitmap_scan_empty (Some ?m) = Inr (j, m1)" "bitmap_set (Some m1) j = Inr m2" "unat j < 1024"
    "unat j \<notin> bm_bits ?m" "bm_wf m2" "bm_cap m2 = 1024" "bm_bits m2 = insert (unat j) (bm_bits ?m)"
    using bm.alloc_fresh [OF ok(1)] ok(2) assms(2) by (auto simp: ok(2))
  obtain m3 where m3: "bitmap_clear (Some m2) j = Inr m3" "bm_wf m3" "bm_cap m3 = 1024" "bm_bits m3 = bm_bits ?m"
    using bm.clear [OF j(5), of j] j by auto
  define t where "t = s\<lparr>bm_tid := m2, sl_tid := unlocked\<rparr>"
  define p where "p = mdata_pcb s + word_of_nat (unat j * SIZEOF_PCB)"
  have a: "thread_tid_alloc s = Inr (j, t)" using j(1-3) ok(4) by (simp add: thread_tid_alloc_def t_def MAX_TASKS_AMOUNT_def)
  have g: "thread_pcb_get (word_of_nat k) t = Inr (mdata_pcb s + word_of_nat (k * SIZEOF_PCB), t)" if "k < 1024" for k
    using that ok(5) by (simp add: thread_pcb_get_def t_def MAX_TASKS_AMOUNT_def unat_word_of_nat_32)
  have gp: "thread_pcb_get j t = Inr (p, t)" using g [OF j(3)] by (simp add: p_def)
  have pu: "unat p = unat (mdata_pcb s) + 68 * unat j" unfolding p_def by (rule pcb_addr [OF ok(6) j(3)])
  have "\<exists>q w. thread_pcb_get (word_of_nat k) t = Inr (q, w) \<and> (unat p + 68 \<le> unat q \<or> unat q + 68 \<le> unat p)" if "k \<in> bm_bits ?m" for k
  proof -
    have k: "k < 1024" "k \<noteq> unat j" using bm.used_bound [OF ok(1)] ok(2) that j(4) by auto
    then have "unat p + 68 \<le> unat (mdata_pcb s + word_of_nat (k * SIZEOF_PCB)) \<or> unat (mdata_pcb s + word_of_nat (k * SIZEOF_PCB)) + 68 \<le> unat p"
      using pu pcb_addr [OF ok(6) k(1)] by linarith
    then show ?thesis using g [OF k(1)] by blast
  qed
  moreover have "thread_tid_release j t = Inr (t\<lparr>bm_tid := m3\<rparr>)" using m3(1) by (simp add: thread_tid_release_def t_def)
  moreover have "j \<noteq> 0" using j(4) ok(3) by auto
  moreover have "unat p + 68 \<le> unat (mdata_pcb s) + 68 * 1024" using pu j(3) by linarith
  moreover have "mdata_pcb s \<le> p" using pu by (simp add: word_le_nat_alt)
  moreover have "tids_ok t" "tids_ok (t\<lparr>bm_tid := m3\<rparr>)" using ok j m3 by (simp_all add: tids_ok_def t_def)
  ultimately show ?thesis using a gp j(4) m3(4) by (intro exI [of _ j] exI [of _ t] exI [of _ p] exI [of _ "t\<lparr>bm_tid := m3\<rparr>"]) simp
qed

lemma tid_sample_bits: "bm_wf tid_sample" "bm_cap tid_sample = 1024" "0 \<in> bm_bits tid_sample" "1 \<notin> bm_bits tid_sample"
proof -
  show "bm_wf tid_sample" "bm_cap tid_sample = 1024" by (simp_all add: tid_sample_def bm_wf_def bm_cap_def)
  have "bm_bit tid_sample 0" "\<not> bm_bit tid_sample 1" by (simp_all add: tid_sample_def bm_bit_def bit_iff_odd)
  then show "0 \<in> bm_bits tid_sample" "1 \<notin> bm_bits tid_sample" by (simp_all add: bm_bits_def tid_sample_def bm_cap_def)
qed

lemma th_sample_ok: "tids_ok th_sample" "1 \<notin> bm_bits (bm_tid th_sample)"
proof -
  have f1: "bm_tid th_sample = tid_sample" unfolding th_sample_def by simp
  have f2: "sl_tid th_sample = unlocked" unfolding th_sample_def by simp
  have f3: "sl_pcb th_sample = unlocked" unfolding th_sample_def by simp
  have f4: "mdata_pcb th_sample = 0x80800000" unfolding th_sample_def by simp
  note f = f1 f2 f3 f4
  have "unat (0x80800000 :: u32) + 68 * 1024 < 4294967296" by simp
  then show "tids_ok th_sample" unfolding tids_ok_def f using tid_sample_bits by blast
  show "1 \<notin> bm_bits (bm_tid th_sample)" unfolding f by (rule tid_sample_bits)
qed

theorem thread_owns_pcb_witness:
  "\<exists>tid t. thread_tid_alloc th_sample = Inr (tid, t) \<and> tid \<noteq> 0 \<and> unat tid \<notin> bm_bits (bm_tid th_sample)"
proof -
  have "1 \<in> {..<1024 :: nat}" unfolding lessThan_iff by simp
  then have "bm_bits (bm_tid th_sample) \<noteq> {..<1024}" using th_sample_ok(2) by metis
  from thread_owns_pcb [OF th_sample_ok(1) this] show ?thesis by blast
qed

end
