(* ===== verification/Fork.thy ===== *)
theory Fork
  imports Dynamic
begin

section \<open>kern/sched/tasks.c: fork, exit and kill\<close>

text \<open>
  A new task, the end of the running one, and the release of what an ended task left. The page tables
  are read and written through the self-map, as the code does; a frame that becomes a page table
  is not cleared, so its unused entries stay what they were. exit() ends in the scheduler.
\<close>

subsection \<open>Memory of the machine\<close>

fun write_words :: "(u32 \<times> u32) list \<Rightarrow> machine \<Rightarrow> machine res" where
  "write_words [] m = Inr m"
| "write_words ((a, x) # ws) m = bindr (vwrite m a x) (write_words ws)"

definition PG_DIR_VA :: u32 where "PG_DIR_VA = PG_MASK"

definition pde_va :: "nat \<Rightarrow> u32" where
  "pde_va i = PG_DIR_VA + word_of_nat (i * 4)"

definition pte_va :: "nat \<Rightarrow> nat \<Rightarrow> u32" where
  "pte_va i j = push_bit 10 (pde_va i) OR word_of_nat (j * 4)"

definition with_mach :: "(machine \<Rightarrow> machine res) \<Rightarrow> threads \<Rightarrow> threads res" where
  "with_mach f s = bindr (f (km_mach (th_mem s))) (\<lambda>m. Inr (set_mem ((th_mem s)\<lparr>km_mach := m\<rparr>) s))"

subsection \<open>fork\<close>

text \<open>A frame and a page of hoo's space that is mapped to it.\<close>

definition page_of_hoo :: "threads \<Rightarrow> (u32 \<times> u32 \<times> threads) res" where
  "page_of_hoo s =
     bindr (phy_alloc_page (pmst (km_mach (th_mem s)))) (\<lambda>(pa, pm).
     bindr (vir_alloc_pages (Some (vmngr_of (th_hoo s))) 1 (pcb_break (th_pcb s (th_hoo s)))
       ((th_mem s)\<lparr>km_mach := (km_mach (th_mem s))\<lparr>pmst := pm\<rparr>\<rparr>)) (\<lambda>(va, m).
     bindr (set_mapping va pa (PGFLAG_US OR PGFLAG_RW OR PGFLAG_PS) (km_mach m)) (\<lambda>mc.
     Inr (pa, va, set_mem (m\<lparr>km_mach := mc\<rparr>) s))))"

text \<open>The entries of a table, read-only, into the page at \<open>va\<close>.\<close>

fun copy_ptes :: "nat \<Rightarrow> u32 \<Rightarrow> nat \<Rightarrow> nat \<Rightarrow> machine \<Rightarrow> machine res" where
  "copy_ptes i va j 0 m = Inr m"
| "copy_ptes i va j (Suc n) m =
     bindr (vread m (pte_va i j)) (\<lambda>pte.
     bindr (if pte \<noteq> 0 then vwrite m (va + word_of_nat (j * 4)) (pte AND NOT PGFLAG_RW) else Inr m)
       (copy_ptes i va (Suc j) n))"

fun copy_pdes :: "u32 \<Rightarrow> nat \<Rightarrow> nat \<Rightarrow> threads \<Rightarrow> threads res" where
  "copy_pdes dir_va i 0 s = Inr s"
| "copy_pdes dir_va i (Suc n) s =
     bindr (vread (km_mach (th_mem s)) (pde_va i)) (\<lambda>pde.
     bindr (if pde \<noteq> 0 then
         bindr (page_of_hoo s) (\<lambda>(pa, va, s).
         bindr (with_mach (copy_ptes i va 0 1024) s) (\<lambda>s.
         bindr (with_mach (\<lambda>m. vwrite m (dir_va + word_of_nat (i * 4)) (pa OR (PGFLAG_US OR PGFLAG_RW OR PGFLAG_PS))) s) (\<lambda>s.
         bindr (vir_release_pages (Some (vmngr_of (th_hoo s))) va False (th_mem s)) (\<lambda>m. Inr (set_mem m s)))))
       else with_mach (\<lambda>m. vwrite m (dir_va + word_of_nat (i * 4)) 0) s)
     (copy_pdes dir_va (Suc i) n))"

fun share_pdes :: "u32 \<Rightarrow> nat \<Rightarrow> nat \<Rightarrow> machine \<Rightarrow> machine res" where
  "share_pdes dir_va i 0 m = Inr m"
| "share_pdes dir_va i (Suc n) m =
     bindr (vread m (pde_va i)) (\<lambda>pde.
     bindr (vwrite m (dir_va + word_of_nat (i * 4)) pde) (share_pdes dir_va (Suc i) n))"

text \<open>The current directory of the new task, from the one that \<open>src\<close> points to.\<close>

definition copy_curdir :: "u32 \<Rightarrow> u32 option \<Rightarrow> threads \<Rightarrow> threads res" where
  "copy_curdir tid src s =
     bindr (thread_curdir_get tid) (\<lambda>i.
     bindr (read_at ''__mdata_cd'' (th_curdirs s) (int i)) (\<lambda>d.
     bindr (case src of
         None \<Rightarrow> Inr None
       | Some p \<Rightarrow> bindr (read_at ''curdir_'' (th_curdirs s) (int (unat (p - mdata_cd s) div SIZEOF_CURDIR))) (\<lambda>c. Inr (Some c))) (\<lambda>c.
     bindr (curdir_copy (Some d) c) (\<lambda>d.
     bindr (write_at ''__mdata_cd'' (th_curdirs s) (int i) d) (\<lambda>cds.
     Inr (s\<lparr>th_curdirs := cds\<rparr>))))))"

definition fork :: "u32 \<Rightarrow> u32 \<Rightarrow> u32 \<Rightarrow> threads \<Rightarrow> (u32 \<times> threads) res" where
  "fork mode_ring3 isr_part3 entry s =
     (let flags = PGFLAG_US OR PGFLAG_RW OR PGFLAG_PS; copy_beg = unat (PD_INDEX KERN_HIGH_MAPPING); copy_end = 1024 - 1 in
      bindr (page_of_hoo s) (\<lambda>(dir_pa, dir_va, s).
      bindr (page_of_hoo s) (\<lambda>(r0_pa, r0_va, s).
      bindr (page_of_hoo s) (\<lambda>(r3_pa, r3_va, s).
      bindr (copy_pdes dir_va 0 copy_beg s) (\<lambda>s.
      bindr (with_mach (share_pdes dir_va copy_beg (copy_end - copy_beg)) s) (\<lambda>s.
      bindr (with_mach (\<lambda>m. vwrite m (dir_va + word_of_nat (copy_end * 4)) (dir_pa OR flags)) s) (\<lambda>s.
      bindr (thread_tid_alloc s) (\<lambda>(tid, s).
      bindr (thread_pcb_get tid s) (\<lambda>(new_pcb, s).
      let (cur_stack, ws) = setup_ring0_stack mode_ring3 isr_part3 (r0_va + PGSIZE) (r3_va + PGSIZE) entry in
      bindr (with_mach (write_words ws) s) (\<lambda>s.
      bindr (get_current_pcb (th_tasks s)) (\<lambda>cur.
      bindr (curdir_at tid s) (\<lambda>new_cd.
      bindr (copy_curdir tid (pcb_curdir (th_pcb s cur)) s) (\<lambda>s.
      bindr (thread_buckmngr_get tid s) (\<lambda>buck.
      bindr (fmngr_at tid s) (\<lambda>fm.
      bindr (pcb_set (Some new_pcb) cur_stack (r3_va + PGSIZE) tid dir_pa (Some (vmngr_of cur)) TIMETICKS None (Some buck)
        (Some fm) (pcb_break (th_pcb s cur)) (pcb_tid (th_pcb s cur)) (Some new_cd) (th_tasks s)) (\<lambda>ts.
      bindr (node_alloc (tk_mem ts)) (\<lambda>(n, m).
      bindr (node_set (km_heap m) n (Some new_pcb) None) (\<lambda>h.
      bindr (task_ready n (set_heap h (ts\<lparr>tk_mem := m\<rparr>))) (\<lambda>ts.
      Inr (tid, s\<lparr>th_tasks := ts\<rparr>))))))))))))))))))))"

subsection \<open>exit\<close>

text \<open>The frames that a table maps, and the frame of the table.\<close>

fun drop_ptes :: "nat \<Rightarrow> nat \<Rightarrow> nat \<Rightarrow> machine \<Rightarrow> machine res" where
  "drop_ptes i j 0 m = Inr m"
| "drop_ptes i j (Suc n) m =
     bindr (vread m (pte_va i j)) (\<lambda>pte.
     bindr (if pte AND NOT PG_MASK \<noteq> 0 then
         bindr (phy_release_page (Some (PG pte)) (pmst m)) (\<lambda>pm. vwrite (m\<lparr>pmst := pm\<rparr>) (pte_va i j) 0)
       else Inr m)
     (drop_ptes i (Suc j) n))"

fun drop_pdes :: "nat \<Rightarrow> nat \<Rightarrow> machine \<Rightarrow> machine res" where
  "drop_pdes i 0 m = Inr m"
| "drop_pdes i (Suc n) m =
     bindr (vread m (pde_va i)) (\<lambda>pde.
     bindr (if pde AND NOT PG_MASK \<noteq> 0 then
         bindr (drop_ptes i 0 1024 m) (\<lambda>m.
         bindr (vread m (pde_va i)) (\<lambda>pde.
         bindr (phy_release_page (Some (PG pde)) (pmst m)) (\<lambda>pm. vwrite (m\<lparr>pmst := pm\<rparr>) (pde_va i) 0)))
       else Inr m)
     (drop_pdes (Suc i) n))"

text \<open>
  The parent is woken on whatever its sleep_ holds when that is not 0; the kernel's \<open>null\<close> is not 0.
\<close>

definition wake_parent :: "u32 \<Rightarrow> threads \<Rightarrow> threads res" where
  "wake_parent parent s =
     (if parent = - 1 then Inr s
      else
        bindr (thread_pcb_get parent s) (\<lambda>(p, s).
        if pcb_sleep (th_pcb s p) \<noteq> Some 0
        then bindr (wakeup (pcb_sleep (th_pcb s p)) (th_tasks s)) (\<lambda>ts. Inr (s\<lparr>th_tasks := ts\<rparr>))
        else Inr s))"

definition expire :: "tasks \<Rightarrow> tasks res" where
  "expire s =
     bindr (wait (tk_lock s)) (\<lambda>l.
     bindr (queue_pop (tk_heap s) (Some (tk_running s))) (\<lambda>(n, h, q).
     let s = (set_heap h s)\<lparr>tk_running := q\<rparr> in
     bindr (list_insert (tk_heap s) (Some (tk_expired s)) n (LSIDX_AFTAIL (tk_expired s))) (\<lambda>(h, e).
     Inr ((set_heap h s)\<lparr>tk_expired := e, tk_lock := signal l\<rparr>))))"

definition exit_task :: "u32 \<Rightarrow> threads \<Rightarrow> (outcome \<times> threads) res" where
  "exit_task nul s =
     bindr (get_current_pcb (th_tasks s)) (\<lambda>p.
     let tid = pcb_tid (th_pcb s p) in
     bindr (thread_buckmngr_clear tid s) (\<lambda>s.
     bindr (thread_curdir_clear tid (th_curdirs s)) (\<lambda>cds.
     bindr (thread_fmngr_clear tid (s\<lparr>th_curdirs := cds\<rparr>)) (\<lambda>s.
     bindr (thread_tid_release tid s) (\<lambda>s.
     bindr (release_vspace nul (Some (vmngr_of p)) (th_mem s)) (\<lambda>m.
     bindr (with_mach (drop_pdes 0 (unat (PD_INDEX KERN_HIGH_MAPPING))) (set_mem m s)) (\<lambda>s.
     bindr (wake_parent (pcb_parent (th_pcb s p)) s) (\<lambda>s.
     bindr (expire (th_tasks s)) (\<lambda>ts.
     bindr (scheduler ts) (\<lambda>(out, ts).
     Inr (out, s\<lparr>th_tasks := ts\<rparr>)))))))))))"

subsection \<open>kill\<close>

text \<open>
  The pages of a task, and its PCB, which is cleared (its vspace with it). Every round takes a node off
  the list, so the fuel is the size of the list and one more.
\<close>

definition bury :: "u32 \<Rightarrow> tasks \<Rightarrow> tasks res" where
  "bury p s =
     bindr (release_vpage (PGDOWN (pcb_stack0 (tk_pcb s p)) PGSIZE) (tk_mem s)) (\<lambda>m.
     bindr (release_vpage (PGDOWN (pcb_stack3 (tk_pcb s p) - PGSIZE) PGSIZE) m) (\<lambda>m.
     bindr (phy_release_page (Some (pcb_pgdir_pa (tk_pcb s p))) (pmst (km_mach m))) (\<lambda>pm.
     Inr (set_pcb_at p \<lparr>pcb_stack0 = 0, pcb_stack3 = 0, pcb_tid = 0, pcb_pgdir_pa = 0, pcb_ticks = 0, pcb_sleep = Some 0,
            pcb_hmngr = Some 0, pcb_fmngr = Some 0, pcb_break = 0, pcb_parent = 0, pcb_curdir = Some 0\<rparr>
          (s\<lparr>tk_mem := zero_mem p SIZEOF_PCB (m\<lparr>km_mach := (km_mach m)\<lparr>pmst := pm\<rparr>\<rparr>)\<rparr>)))))"

fun kill_loop :: "nat \<Rightarrow> u32 \<Rightarrow> tasks \<Rightarrow> tasks res" where
  "kill_loop 0 i s = Inl Spin"
| "kill_loop (Suc k) i s =
     (if i > ls_size (tk_expired s) then Inr s
      else
        bindr (list_find (tk_heap s) (Some (tk_expired s)) i) (\<lambda>f.
        bindr (deref ''list_find()'' f) (\<lambda>n.
        bindr (node_pcb n s) (\<lambda>p.
        bindr (list_remove (tk_heap s) (Some (tk_expired s)) i) (\<lambda>(_, h, l).
        bindr (bury p ((set_heap h s)\<lparr>tk_expired := l\<rparr>)) (\<lambda>s.
        kill_loop k (i + 1) s))))))"

definition kill :: "tasks \<Rightarrow> tasks res" where
  "kill s = kill_loop (Suc (unat (ls_size (tk_expired s)))) 1 s"

end
