(* ===== verification/Exec.thy ===== *)
theory Exec
  imports Fork File_Names
begin

section \<open>kern/fs/exec.c and builtins.c: programs\<close>

text \<open>
  The arguments of a command, the pages that a program gets, its start, and the files of the built-in
  programs. \<open>system\<close> joins the state of the tasks with that of the files: an operation on files
  runs with the file manager, the current directories and the PCB fields of the running task.
\<close>

subsection \<open>Files for the running task\<close>

record system =
  sy_th :: threads
  sy_vfs :: vfs

text \<open>The manager that \<open>fmngr_\<close> points to, as an index of its table.\<close>

definition cur_fmngr :: "u32 \<Rightarrow> threads \<Rightarrow> nat res" where
  "cur_fmngr p s = bindr (deref ''fmngr_'' (pcb_fmngr (th_pcb s p))) (\<lambda>a. Inr (unat (a - mdata_fmngr s) div SIZEOF_FMNGR))"

definition with_vfs :: "(vfs \<Rightarrow> ('a \<times> vfs) res) \<Rightarrow> system \<Rightarrow> ('a \<times> system) res" where
  "with_vfs f s =
     (let th = sy_th s in
      bindr (get_current_pcb (th_tasks th)) (\<lambda>p.
      bindr (cur_fmngr p th) (\<lambda>i.
      bindr (read_at ''fmngr_'' (th_fmngrs th) (int i)) (\<lambda>fm.
      let v = (set_sys ((v_sys (sy_vfs s))\<lparr>sys_fmngr := fm\<rparr>) (sy_vfs s))
                \<lparr>v_curdirs := th_curdirs th, v_tid := pcb_tid (th_pcb th p), v_parent := pcb_parent (th_pcb th p)\<rparr> in
      bindr (f v) (\<lambda>(x, v).
      bindr (write_at ''fmngr_'' (th_fmngrs th) (int i) (sys_fmngr (v_sys v))) (\<lambda>fms.
      Inr (x, \<lparr>sy_th = th\<lparr>th_fmngrs := fms, th_curdirs := v_curdirs v\<rparr>, sy_vfs = v\<rparr>)))))))"

subsection \<open>The arguments\<close>

definition MAXSIZE_PATH :: nat where "MAXSIZE_PATH = 128"

text \<open>\<open>"/bin/"\<close>\<close>

definition DIR_LOADER :: "byte list" where "DIR_LOADER = [47, 98, 105, 110, 47, 0]"

fun space_loop :: "byte list \<Rightarrow> nat \<Rightarrow> nat \<Rightarrow> nat res" where
  "space_loop filename i 0 = Inr i"
| "space_loop filename i (Suc n) =
     bindr (read_at ''filename'' filename (int i)) (\<lambda>c.
     if c = 32 then Inr i else space_loop filename (Suc i) n)"

definition split_command :: "byte list \<Rightarrow> (nat \<times> byte list \<times> byte list) res" where
  "split_command filename =
     bindr (bzero (replicate MAXSIZE_PATH 0) (Some 0) MAXSIZE_PATH) (\<lambda>param.
     bindr (bzero (replicate MAXSIZE_PATH 0) (Some 0) MAXSIZE_PATH) (\<lambda>cmd.
     bindr (strlen filename) (\<lambda>flen.
     bindr (space_loop filename 0 flen) (\<lambda>i.
     if i = flen then bindr (memcpy_loop cmd 0 filename 0 flen) (\<lambda>cmd. Inr (flen, cmd, param))
     else
       bindr (memcpy_loop cmd 0 filename 0 i) (\<lambda>cmd.
       bindr (memcpy_loop param 0 filename (i + 1) (flen - i - 1)) (\<lambda>param.
       Inr (flen, cmd, param)))))))"

text \<open>The copy of the command is as long as the whole line, not as the command.\<close>

definition program_path :: "nat \<Rightarrow> byte list \<Rightarrow> byte list res" where
  "program_path flen cmd =
     bindr (bzero (replicate (MAXSIZE_PATH * 2) 0) (Some 0) (MAXSIZE_PATH * 2)) (\<lambda>absolute_path.
     bindr (read_at ''cmd'' cmd 0) (\<lambda>c.
     if c \<noteq> DIRNAME_ROOT_ASCII then
       bindr (strlen DIR_LOADER) (\<lambda>sz.
       bindr (memcpy_loop absolute_path 0 DIR_LOADER 0 sz) (\<lambda>absolute_path.
       memcpy_loop absolute_path sz cmd 0 flen))
     else memcpy_loop absolute_path 0 cmd 0 flen))"

definition exec_args :: "byte list \<Rightarrow> (byte list \<times> byte list \<times> u32) res" where
  "exec_args filename =
     bindr (split_command filename) (\<lambda>(flen, cmd, param).
     bindr (program_path flen cmd) (\<lambda>absolute_path.
     bindr (read_at ''param'' param 0) (\<lambda>c.
     Inr (absolute_path, param, if c = 0 then 1 else 2))))"

subsection \<open>The pages of the program\<close>

text \<open>One table takes at most 1024 pages; its frame is not cleared.\<close>

fun fill_table :: "nat \<Rightarrow> u32 \<Rightarrow> u32 \<Rightarrow> machine \<Rightarrow> (u32 \<times> machine) res" where
  "fill_table 0 vaddr file_pages m = Inr (vaddr, m)"
| "fill_table (Suc n) vaddr file_pages m =
     (if vaddr < file_pages then
        bindr (phy_alloc_page (pmst m)) (\<lambda>(pa, pm).
        bindr (set_mapping vaddr pa (PGFLAG_US OR PGFLAG_RW OR PGFLAG_PS) (m\<lparr>pmst := pm\<rparr>))
          (fill_table n (vaddr + PGSIZE) file_pages))
      else Inr (vaddr, m))"

fun fill_dir :: "nat \<Rightarrow> nat \<Rightarrow> u32 \<Rightarrow> u32 \<Rightarrow> machine \<Rightarrow> machine res" where
  "fill_dir i 0 vaddr file_pages m = Inr m"
| "fill_dir i (Suc n) vaddr file_pages m =
     bindr (phy_alloc_page (pmst m)) (\<lambda>(pa, pm).
     bindr (vwrite (m\<lparr>pmst := pm\<rparr>) (GET_PDE (word_of_nat i * MB4)) (pa OR (PGFLAG_US OR PGFLAG_RW OR PGFLAG_PS))) (\<lambda>m.
     bindr (fill_table 1024 vaddr file_pages m) (\<lambda>(vaddr, m).
     fill_dir (Suc i) n vaddr file_pages m)))"

definition amount_pgdir :: "u32 \<Rightarrow> u32" where
  "amount_pgdir file_pages = (if file_pages mod MB4 \<noteq> 0 then file_pages div MB4 + 1 else file_pages div MB4)"

definition exec_pages :: "u32 \<Rightarrow> machine \<Rightarrow> machine res" where
  "exec_pages file_pages m = fill_dir 0 (unat (amount_pgdir file_pages)) 0 file_pages m"

subsection \<open>exec\<close>

text \<open>
  exec() jumps to the program, with its image at address 0 and the arguments on the ring 3 stack, or,
  when there is no such file, ends the task. exit() comes back only when no other task is ready;
  then exec() goes on with the descriptor -1. \<open>argv\<close> is the address of the argument array,
  \<open>next_insc\<close> that of the code after the jump, \<open>memory\<close> what the new pages hold.
\<close>

datatype exec_end =
    Jump (entry_of: u32) (esp_of: u32) (image_of: "byte list")
  | Ended outcome

text \<open>\<open>"Command: \\"%s\\" not found\\n"\<close>\<close>

definition fmt_not_found :: "byte list" where
  "fmt_not_found = [67, 111, 109, 109, 97, 110, 100, 58, 32, 34, 37, 115, 34, 32, 110, 111, 116, 32, 102, 111, 117, 110, 100, 10, 0]"

definition sys_out :: "(out \<Rightarrow> out res) \<Rightarrow> vfs \<Rightarrow> (unit \<times> vfs) res" where
  "sys_out f v = bindr (f (v_out v)) (\<lambda>w. Inr ((), v\<lparr>v_out := w\<rparr>))"

definition on_threads :: "(threads \<Rightarrow> threads res) \<Rightarrow> system \<Rightarrow> system res" where
  "on_threads f s = bindr (f (sy_th s)) (\<lambda>th. Inr (s\<lparr>sy_th := th\<rparr>))"

definition exec_load :: "(cclbuff \<Rightarrow> cclbuff res) \<Rightarrow> u32 \<Rightarrow> u32 \<Rightarrow> (nat \<Rightarrow> byte) \<Rightarrow> u32 \<Rightarrow> u32 \<Rightarrow> system \<Rightarrow> (exec_end \<times> system) res" where
  "exec_load slp argv next_insc memory argc fd s =
     bindr (with_vfs (\<lambda>v. bindr (files_get_size fd (v_sys v)) (\<lambda>n. Inr (n, v))) s) (\<lambda>(file_size, s).
     let file_pages = PGUP file_size PGSIZE in
     bindr (get_current_pcb (th_tasks (sy_th s))) (\<lambda>p.
     bindr (on_threads (\<lambda>th. Inr (th\<lparr>th_tasks := set_pcb_at p ((th_pcb th p)\<lparr>pcb_break := file_pages\<rparr>) (th_tasks th)\<rparr>)) s) (\<lambda>s.
     bindr (on_threads (with_mach (exec_pages file_pages)) s) (\<lambda>s.
     bindr (with_vfs (\<lambda>v. bindr (files_read slp fd (Some (map memory [0..<unat file_pages])) file_size (v_sys v))
       (\<lambda>(img, sy). Inr (img, set_sys sy v))) s) (\<lambda>(img, s).
     let esp = pcb_stack3 (th_pcb (sy_th s) p) in
     bindr (on_threads (with_mach (write_words [(esp - 4, fd), (esp - 8, argv), (esp - 12, argc), (esp - 16, next_insc)])) s) (\<lambda>s.
     Inr (Jump 0 (esp - 16) img, s)))))))"

definition exec :: "(cclbuff \<Rightarrow> cclbuff res) \<Rightarrow> u32 \<Rightarrow> u32 \<Rightarrow> u32 \<Rightarrow> (nat \<Rightarrow> byte) \<Rightarrow> byte list option \<Rightarrow> system \<Rightarrow> (exec_end \<times> system) res" where
  "exec slp nul argv next_insc memory filename s =
     nonnull ''exec(): null pointer'' filename (\<lambda>filename.
     bindr (exec_args filename) (\<lambda>(absolute_path, param, argc).
     bindr (with_vfs (files_open (Some absolute_path)) s) (\<lambda>(fd, s).
     if fd = - 1 then
       bindr (with_vfs (sys_out (kprintf fmt_not_found [KStr absolute_path])) s) (\<lambda>(_, s).
       bindr (exit_task nul (sy_th s)) (\<lambda>(out, th).
       let s = s\<lparr>sy_th := th\<rparr> in
       case out of
         Stay \<Rightarrow> exec_load slp argv next_insc memory argc fd s
       | Switch _ _ \<Rightarrow> Inr (Ended out, s)))
     else exec_load slp argv next_insc memory argc fd s)))"

subsection \<open>builtins.c\<close>

definition filename_append :: "byte list option \<Rightarrow> byte list option \<Rightarrow> byte list option \<Rightarrow> byte list res" where
  "filename_append base_buff append_buff filename =
     nonnull ''filename_append(): null pointer'' base_buff (\<lambda>base.
     nonnull ''filename_append(): null pointer'' append_buff (\<lambda>app.
     nonnull ''filename_append(): null pointer'' filename (\<lambda>filename.
     bindr (strlen base) (\<lambda>n.
     bindr (memcpy_loop app 0 base 0 n) (\<lambda>app.
     bindr (strlen app) (\<lambda>k.
     bindr (strlen filename) (\<lambda>n.
     memcpy_loop app k filename 0 n)))))))"

definition builtin_to_file :: "byte list option \<Rightarrow> byte list option \<Rightarrow> u32 \<Rightarrow> vfs \<Rightarrow> vfs res" where
  "builtin_to_file filename addr len v =
     (if filename = None \<or> addr = None \<or> len = 0 then Inr v
      else
        bindr (bzero (replicate 64 0) (Some 0) 64) (\<lambda>specific_file.
        bindr (filename_append (Some DIR_LOADER) (Some specific_file) filename) (\<lambda>specific_file.
        bindr (files_create specific_file v) (\<lambda>(r, v).
        if r = 0 then
          bindr (files_open (Some specific_file) v) (\<lambda>(fd, v).
          if fd = - 1 then Inr v
          else
            bindr (files_write fd addr len (v_sys v)) (\<lambda>s.
            bindr (files_close fd s) (\<lambda>s. Inr (set_sys s v))))
        else Inr v))))"

text \<open>\<open>images\<close> are the programs that the build puts into the kernel, with their names; none when it was built without them.\<close>

fun all_builtins :: "(byte list \<times> byte list) list \<Rightarrow> vfs \<Rightarrow> vfs res" where
  "all_builtins [] v = Inr v"
| "all_builtins ((nm, img) # bs) v =
     bindr (builtin_to_file (Some nm) (Some img) (word_of_nat (length img)) v) (all_builtins bs)"

text \<open>The names \<open>shell\<close>, \<open>cd\<close>, \<open>ls\<close>, \<open>pwd\<close>, \<open>mkdir\<close>, \<open>touch\<close> and \<open>rm\<close>.\<close>

definition builtin_names :: "byte list list" where
  "builtin_names = [[115, 104, 101, 108, 108, 0], [99, 100, 0], [108, 115, 0], [112, 119, 100, 0], [109, 107, 100, 105, 114, 0],
     [116, 111, 117, 99, 104, 0], [114, 109, 0]]"

definition load_builtins :: "byte list list \<Rightarrow> vfs \<Rightarrow> vfs res" where
  "load_builtins images v =
     bindr (files_create DIR_LOADER v) (\<lambda>(_, v).
     all_builtins (zip builtin_names images) v)"

subsection \<open>kern.c: the log file and the kernel's loop\<close>

text \<open>\<open>"/sys/"\<close> and \<open>"/sys/sys.log"\<close>\<close>

definition SYS_DIR :: "byte list" where "SYS_DIR = [47, 115, 121, 115, 47, 0]"
definition SYS_LOG_NAME :: "byte list" where
  "SYS_LOG_NAME = [47, 115, 121, 115, 47, 115, 121, 115, 46, 108, 111, 103, 0]"

definition kinit_log :: "vfs \<Rightarrow> vfs res" where
  "kinit_log v =
     bindr (files_create SYS_DIR v) (\<lambda>(_, v).
     bindr (files_create SYS_LOG_NAME v) (\<lambda>(_, v).
     bindr (files_open (Some SYS_LOG_NAME) v) (\<lambda>(fd, v).
     Inr (v\<lparr>v_out := klog_set fd (v_out v)\<rparr>))))"

end
