(* ===== verification/Fork_Props.thy ===== *)
theory Fork_Props
  imports Fork Tasks_Props
begin

section \<open>Properties of fork, exit and kill\<close>

text \<open>
  What fork() copies of a page table, what exit() releases of one, the stack of a new task, and the way of
  an ended task through the queues.
\<close>

subsection \<open>Entries through the self-map\<close>

text \<open>An address whose page has entry \<open>j\<close> of table \<open>i\<close>.\<close>

definition page_of :: "nat \<Rightarrow> nat \<Rightarrow> u32" where
  "page_of i j = push_bit 22 (word_of_nat i) OR push_bit 12 (word_of_nat j)"

lemma small_bits:
  assumes "n < 1024" and "bit (n :: nat) k"
  shows "k < 10"
proof -
  have "n = take_bit 10 n" using assms(1) by (simp add: take_bit_eq_mod)
  with assms(2) have "bit (take_bit 10 n) k" by simp
  then show "k < 10" by (simp add: bit_take_bit_iff)
qed

lemma page_of_index:
  assumes "i < 1024" and "j < 1024"
  shows "PD_INDEX (page_of i j) = word_of_nat i" "PT_INDEX (page_of i j) = word_of_nat j"
  unfolding page_of_def PD_INDEX_def PT_INDEX_def
  by (rule bit_word_eqI, auto simp: pg_bits consts_mask dest: small_bits [OF assms(1)] small_bits [OF assms(2)])+

lemma pte_va_page:
  assumes "i < 1024" and "j < 1024"
  shows "pte_va i j = GET_PTE (page_of i j)"
proof -
  have e: "(word_of_nat (n * 4) :: u32) = push_bit 2 (word_of_nat n)" for n by (simp add: push_bit_eq_mult)
  have "PG_DIR_VA + push_bit 2 (word_of_nat i) = PG_DIR_VA OR push_bit 2 (word_of_nat i)"
    by (rule disjunctive_add_eq_or, rule bit_word_eqI)
      (auto simp: PG_DIR_VA_def pg_bits dest: small_bits [OF assms(1)])
  then have "pte_va i j = push_bit 10 (PG_DIR_VA OR push_bit 2 (word_of_nat i)) OR push_bit 2 (word_of_nat j)"
    unfolding pte_va_def pde_va_def e by (rule arg_cong)
  also have "\<dots> = 0xffc00000 OR (push_bit 12 (word_of_nat i) OR push_bit 2 (word_of_nat j))"
    by (rule bit_word_eqI) (auto simp: PG_DIR_VA_def pg_bits dest: small_bits [OF assms(1)] small_bits [OF assms(2)])
  also have "\<dots> = GET_PTE (page_of i j)"
    using page_of_index [OF assms] by (simp add: GET_PTE_def PGDOWN_page times_4)
  finally show ?thesis .
qed

lemma pde_va_page:
  assumes "i < 1024"
  shows "pde_va i = GET_PDE (page_of i 0)"
proof -
  have e: "(word_of_nat (i * 4) :: u32) = push_bit 2 (word_of_nat i)" by (simp add: push_bit_eq_mult)
  have "PG_DIR_VA + push_bit 2 (word_of_nat i) = PG_DIR_VA OR push_bit 2 (word_of_nat i)"
    by (rule disjunctive_add_eq_or, rule bit_word_eqI)
      (auto simp: PG_DIR_VA_def pg_bits dest: small_bits [OF assms(1)])
  then show ?thesis using page_of_index [OF assms, of 0] by (simp add: pde_va_def e GET_PDE_def PGDOWN_page times_4 PG_DIR_VA_def)
qed

text \<open>The directory entry, and the entries of the table it points to.\<close>

definition dir_entry :: "machine \<Rightarrow> nat \<Rightarrow> u32" where
  "dir_entry m i = phys m (cr3 m + word_of_nat i * 4)"

definition tab_entry :: "machine \<Rightarrow> nat \<Rightarrow> nat \<Rightarrow> u32" where
  "tab_entry m i j = phys m (PG (dir_entry m i) + word_of_nat j * 4)"

lemma pde_of_page: "i < 1024 \<Longrightarrow> j < 1024 \<Longrightarrow> pde_of m (page_of i j) = dir_entry m i"
  by (simp add: pde_of_def dir_entry_def page_of_index)

lemma walk_pde: "self_map m \<Longrightarrow> i < 1024 \<Longrightarrow> walk m (pde_va i) = Some (cr3 m + word_of_nat i * 4)"
  using walk_GET_PDE [of m "page_of i 0"] by (simp add: pde_va_page page_of_index)

lemma walk_pte:
  "self_map m \<Longrightarrow> i < 1024 \<Longrightarrow> j < 1024 \<Longrightarrow> bit (dir_entry m i) 0 \<Longrightarrow>
   walk m (pte_va i j) = Some (PG (dir_entry m i) + word_of_nat j * 4)"
  using walk_GET_PTE [of m "page_of i j"] by (simp add: pte_va_page page_of_index pde_of_page)

lemma entry_eq:
  assumes "f AND 4095 = 0" and "g AND 4095 = 0" and "i < 1024" and "j < 1024"
  shows "(f :: u32) + word_of_nat i * 4 = g + word_of_nat j * 4 \<longleftrightarrow> f = g \<and> i = j"
  using entry_inj [OF assms(1,2), of "word_of_nat i" "word_of_nat j"] assms(3,4)
  by (simp add: unat_word_of_nat_32 word_unat_eq_iff)

subsection \<open>fork: the copy of a table\<close>

definition cow :: "u32 \<Rightarrow> u32" where
  "cow pte = pte AND NOT PGFLAG_RW"

text \<open>
  The page \<open>va\<close> is mapped to the frame \<open>f\<close>, which is none of the tables that the copy reads through.
\<close>

definition apart :: "machine \<Rightarrow> nat \<Rightarrow> u32 \<Rightarrow> u32 \<Rightarrow> bool" where
  "apart m i va f \<longleftrightarrow> self_map m \<and> bit (dir_entry m i) 0 \<and> PG va = va \<and> walk m va = Some f
     \<and> f \<noteq> cr3 m \<and> f \<noteq> PG (pde_of m va) \<and> f \<noteq> PG (dir_entry m i)"

lemma apartD:
  assumes "apart m i va f"
  shows "f AND 4095 = 0" "cr3 m AND 4095 = 0" and "unat k < 1024 \<Longrightarrow> walk m (va + k * 4) = Some (f + k * 4)"
proof -
  have w: "walk m va = Some f" "PG va = va" "self_map m" using assms by (simp_all add: apart_def)
  have va: "va AND 4095 = 0" using w(2) PG_aligned by metis
  then show "f AND 4095 = 0" using w(1) by (auto simp: walk_def split: if_splits)
  show "cr3 m AND 4095 = 0" using w(3) by (simp add: self_map_def)
  show "walk m (va + k * 4) = Some (f + k * 4)" if "unat k < 1024"
    using w(1) same_page [of "va + k * 4" va m] page_offset [OF w(2) that] va w(2)
    by (auto simp: walk_def split: if_splits)
qed

lemma apart_write:
  fixes x :: u32
  assumes ap: "apart m i va f" and i: "i < 1024" and k: "k < 1024"
  defines "m' \<equiv> m\<lparr>phys := (phys m)(f + word_of_nat k * 4 := x)\<rparr>"
  shows "apart m' i va f" "dir_entry m' i = dir_entry m i" "\<And>j. j < 1024 \<Longrightarrow> tab_entry m' i j = tab_entry m i j"
proof -
  note a = apartD [OF ap]
  have d: "self_map m" "f \<noteq> cr3 m" "f \<noteq> PG (pde_of m va)" "f \<noteq> PG (dir_entry m i)" using ap by (simp_all add: apart_def)
  have uk: "unat (word_of_nat k :: u32) < 1024" using k by (simp add: unat_word_of_nat_32)
  have off: "phys m' (g + j * 4) = phys m (g + j * 4)" if "g AND 4095 = 0" "g \<noteq> f" "unat j < 1024" for g j
    using entry_inj [OF that(1) a(1) that(3) uk] that(2) by (simp add: m'_def)
  have cr: "cr3 m' = cr3 m" by (simp add: m'_def)
  have pd: "pde_of m' y = pde_of m y" for y using off [OF a(2) _ idx_less(1)] d(2) by (simp add: pde_of_def cr)
  have ui: "unat (word_of_nat i :: u32) < 1024" using i by (simp add: unat_word_of_nat_32)
  show de: "dir_entry m' i = dir_entry m i" using off [OF a(2) _ ui] d(2) by (simp add: dir_entry_def cr)
  have pt: "pte_of m' va = pte_of m va" using off [OF PG_aligned _ idx_less(2)] d(3) by (simp add: pte_of_def pd)
  have "self_map m'" using d(1) off [OF a(2), of 1023] d(2) by (simp add: self_map_def cr)
  moreover have "walk m' va = walk m va" by (rule walk_cong) (simp_all add: pd pt)
  ultimately show "apart m' i va f" using ap by (simp add: apart_def cr pd de)
  show "tab_entry m' i j = tab_entry m i j" if "j < 1024" for j
    using off [OF PG_aligned, of "dir_entry m i" "word_of_nat j"] d(4) that by (simp add: tab_entry_def de unat_word_of_nat_32)
qed

lemma copy_ptes_ok:
  "apart m i va f \<Longrightarrow> i < 1024 \<Longrightarrow> j + n \<le> 1024 \<Longrightarrow>
   \<exists>p. copy_ptes i va j n m = Inr (m\<lparr>phys := p\<rparr>)
     \<and> (\<forall>a. (\<forall>k < 1024. a \<noteq> f + word_of_nat k * 4) \<longrightarrow> p a = phys m a)
     \<and> (\<forall>k < 1024. p (f + word_of_nat k * 4) =
          (if j \<le> k \<and> k < j + n \<and> tab_entry m i k \<noteq> 0 then cow (tab_entry m i k) else phys m (f + word_of_nat k * 4)))"
proof (induction n arbitrary: j m)
  case 0
  then show ?case by (intro exI [of _ "phys m"]) auto
next
  case (Suc n)
  have d: "self_map m" "bit (dir_entry m i) 0" using Suc.prems(1) by (simp_all add: apart_def)
  have j: "j < 1024" using Suc.prems(3) by simp
  note a = apartD [OF Suc.prems(1)]
  have rd: "vread m (pte_va i j) = Inr (tab_entry m i j)"
    using walk_pte [OF d(1) Suc.prems(2) j d(2)] by (simp add: vread_def tab_entry_def)
  have wk: "walk m (va + word_of_nat j * 4) = Some (f + word_of_nat j * 4)"
    using a(3) [of "word_of_nat j"] j by (simp add: unat_word_of_nat_32)
  define m1 where "m1 = (if tab_entry m i j \<noteq> 0 then m\<lparr>phys := (phys m)(f + word_of_nat j * 4 := cow (tab_entry m i j))\<rparr> else m)"
  have step: "copy_ptes i va j (Suc n) m = copy_ptes i va (Suc j) n m1"
    using wk by (simp add: rd vwrite_def m1_def cow_def mult.commute)
  have m1: "apart m1 i va f" "\<And>k. k < 1024 \<Longrightarrow> tab_entry m1 i k = tab_entry m i k"
    using apart_write [OF Suc.prems(1,2) j] Suc.prems(1) by (simp_all add: m1_def)
  obtain p where p: "copy_ptes i va (Suc j) n m1 = Inr (m1\<lparr>phys := p\<rparr>)"
    "\<forall>a. (\<forall>k < 1024. a \<noteq> f + word_of_nat k * 4) \<longrightarrow> p a = phys m1 a"
    "\<forall>k < 1024. p (f + word_of_nat k * 4) =
       (if Suc j \<le> k \<and> k < Suc j + n \<and> tab_entry m1 i k \<noteq> 0 then cow (tab_entry m1 i k) else phys m1 (f + word_of_nat k * 4))"
    using Suc.IH [OF m1(1) Suc.prems(2), of "Suc j"] Suc.prems(3) by auto
  have "m1\<lparr>phys := p\<rparr> = m\<lparr>phys := p\<rparr>" by (simp add: m1_def)
  moreover have "p x = phys m x" if "\<forall>k < 1024. x \<noteq> f + word_of_nat k * 4" for x
    using p(2) that j by (simp add: m1_def)
  moreover have "p (f + word_of_nat k * 4) =
      (if j \<le> k \<and> k < j + Suc n \<and> tab_entry m i k \<noteq> 0 then cow (tab_entry m i k) else phys m (f + word_of_nat k * 4))" if k: "k < 1024" for k
    using p(3) m1(2) [OF k] entry_eq [OF a(1) a(1) k j] k by (auto simp: m1_def)
  ultimately show ?case using p(1) unfolding step by auto
qed

subsection \<open>exit: the release of a table\<close>

text \<open>An entry counts as mapped when one of its low bits is set; its frame is one of the pool.\<close>

definition flagged :: "u32 \<Rightarrow> bool" where
  "flagged e \<longleftrightarrow> e AND NOT PG_MASK \<noteq> 0"

lemma drop_ptes_ok:
  "self_map m \<Longrightarrow> bit (dir_entry m i) 0 \<Longrightarrow> PG (dir_entry m i) \<noteq> cr3 m \<Longrightarrow> pm_inv (pmst m) \<Longrightarrow> i < 1024 \<Longrightarrow> j + n \<le> 1024 \<Longrightarrow>
   (\<forall>k < 1024. flagged (tab_entry m i k) \<longrightarrow> PG (tab_entry m i k) \<in> pm_pool (pmst m)) \<Longrightarrow>
   \<exists>m'. drop_ptes i j n m = Inr m' \<and> pm_inv (pmst m') \<and> pm_pool (pmst m') = pm_pool (pmst m)
     \<and> pm_taken (pmst m') = pm_taken (pmst m) - {PG (tab_entry m i k) |k. j \<le> k \<and> k < j + n \<and> flagged (tab_entry m i k)}
     \<and> cr3 m' = cr3 m \<and> (\<forall>a. PG a \<noteq> PG (dir_entry m i) \<longrightarrow> phys m' a = phys m a)"
proof (induction n arbitrary: j m)
  case (Suc n)
  have j: "j < 1024" using Suc.prems(6) by simp
  let ?e = "tab_entry m i j"
  have wk: "walk m (pte_va i j) = Some (PG (dir_entry m i) + word_of_nat j * 4)"
    using walk_pte [OF Suc.prems(1,5) j Suc.prems(2)] .
  then have rd: "vread m (pte_va i j) = Inr ?e" by (simp add: vread_def tab_entry_def)
  show ?case
  proof (cases "flagged ?e")
    case False
    obtain m' where "drop_ptes i (Suc j) n m = Inr m'" "pm_inv (pmst m')" "pm_pool (pmst m') = pm_pool (pmst m)"
      "pm_taken (pmst m') = pm_taken (pmst m) - {PG (tab_entry m i k) |k. Suc j \<le> k \<and> k < Suc j + n \<and> flagged (tab_entry m i k)}"
      "cr3 m' = cr3 m" "\<forall>a. PG a \<noteq> PG (dir_entry m i) \<longrightarrow> phys m' a = phys m a"
      using Suc.IH [of m "Suc j"] Suc.prems by auto
    moreover have "{PG (tab_entry m i k) |k. Suc j \<le> k \<and> k < Suc j + n \<and> flagged (tab_entry m i k)}
        = {PG (tab_entry m i k) |k. j \<le> k \<and> k < j + Suc n \<and> flagged (tab_entry m i k)}"
      using False by (metis (no_types, lifting) Suc_leD Suc_leI add_Suc add_Suc_right le_neq_implies_less)
    ultimately show ?thesis using False rd by (simp add: flagged_def)
  next
    case True
    then have "PG ?e \<in> pm_pool (pmst m)" using Suc.prems(7) j by blast
    from pm.release [OF Suc.prems(4) this] obtain pm' where
      rel: "phy_release_page (Some (PG ?e)) (pmst m) = Inr pm'" "pm_inv pm'" "pm_pool pm' = pm_pool (pmst m)"
        "pm_taken pm' = pm_taken (pmst m) - {PG ?e}" by auto
    define m1 where "m1 = m\<lparr>pmst := pm', phys := (phys m)(PG (dir_entry m i) + word_of_nat j * 4 := 0)\<rparr>"
    have "walk (m\<lparr>pmst := pm'\<rparr>) (pte_va i j) = walk m (pte_va i j)" by (simp add: walk_def pde_of_def pte_of_def)
    then have step: "drop_ptes i j (Suc n) m = drop_ptes i (Suc j) n m1"
      using True rd rel(1) wk by (simp add: flagged_def vwrite_def m1_def)
    have al: "cr3 m AND 4095 = 0" using Suc.prems(1) by (simp add: self_map_def)
    have ui: "unat (word_of_nat i :: u32) < 1024" "unat (word_of_nat j :: u32) < 1024" using Suc.prems(5) j by (simp_all add: unat_word_of_nat_32)
    have off: "phys m1 (cr3 m + k * 4) = phys m (cr3 m + k * 4)" if "unat k < 1024" for k
      using entry_inj [OF al PG_aligned that ui(2), of "dir_entry m i"] Suc.prems(3) by (auto simp: m1_def)
    have de: "dir_entry m1 i = dir_entry m i" using off [OF ui(1)] by (simp add: dir_entry_def m1_def)
    have te: "tab_entry m1 i k = (if k = j then 0 else tab_entry m i k)" if "k < 1024" for k
      using entry_eq [OF PG_aligned PG_aligned that j, of "dir_entry m i" "dir_entry m i"] unfolding tab_entry_def de by (auto simp: m1_def)
    have "self_map m1" using Suc.prems(1) off [of 1023] by (simp add: self_map_def m1_def)
    moreover have "\<forall>k < 1024. flagged (tab_entry m1 i k) \<longrightarrow> PG (tab_entry m1 i k) \<in> pm_pool (pmst m1)"
      using Suc.prems(7) rel(3) te by (auto simp: m1_def flagged_def)
    ultimately obtain m' where m': "drop_ptes i (Suc j) n m1 = Inr m'" "pm_inv (pmst m')" "pm_pool (pmst m') = pm_pool (pmst m1)"
      "pm_taken (pmst m') = pm_taken (pmst m1) - {PG (tab_entry m1 i k) |k. Suc j \<le> k \<and> k < Suc j + n \<and> flagged (tab_entry m1 i k)}"
      "cr3 m' = cr3 m1" "\<forall>a. PG a \<noteq> PG (dir_entry m1 i) \<longrightarrow> phys m' a = phys m1 a"
      using Suc.IH [of m1 "Suc j"] Suc.prems de rel(2) by (auto simp: m1_def)
    have "PG (PG (dir_entry m i) + word_of_nat j * 4) = PG (dir_entry m i)" by (rule page_offset(1) [OF PG_idem ui(2)])
    then have fr: "phys m' a = phys m a" if "PG a \<noteq> PG (dir_entry m i)" for a using m'(6) that unfolding de by (auto simp: m1_def)
    have c: "cr3 m' = cr3 m" using m'(5) by (simp add: m1_def)
    have teq: "tab_entry m1 i k = tab_entry m i k" if "Suc j \<le> k" "k < Suc j + n" for k
      using te [of k] that Suc.prems(6) by simp
    have "{PG (tab_entry m1 i k) |k. Suc j \<le> k \<and> k < Suc j + n \<and> flagged (tab_entry m1 i k)}
        = {PG (tab_entry m i k) |k. Suc j \<le> k \<and> k < Suc j + n \<and> flagged (tab_entry m i k)}"
      using teq by (intro Collect_cong iff_exI) auto
    moreover have "{PG (tab_entry m i k) |k. j \<le> k \<and> k < j + Suc n \<and> flagged (tab_entry m i k)}
        = insert (PG ?e) {PG (tab_entry m i k) |k. Suc j \<le> k \<and> k < Suc j + n \<and> flagged (tab_entry m i k)}"
      using True by (auto simp: Suc_le_eq le_less)
    ultimately have "pm_taken (pmst m') = pm_taken (pmst m) - {PG (tab_entry m i k) |k. j \<le> k \<and> k < j + Suc n \<and> flagged (tab_entry m i k)}"
      using m'(4) rel(4) by (auto simp: m1_def)
    then show ?thesis using m'(1-3) rel(3) c fr unfolding step by (intro exI [of _ m']) (simp add: m1_def)
  qed
qed auto

subsection \<open>exit: the release of all tables\<close>

text \<open>
  The frames of the directory entries from \<open>lo\<close> to \<open>hi\<close> are a task's own: tables of the pool, each in one place, that
  map frames of the pool. \<open>table_frames\<close> are the frame of a table and those it maps.
\<close>

definition own_table :: "machine \<Rightarrow> nat \<Rightarrow> bool" where
  "own_table m i \<longleftrightarrow> bit (dir_entry m i) 0 \<and> PG (dir_entry m i) \<noteq> cr3 m \<and> PG (dir_entry m i) \<in> pm_pool (pmst m)
     \<and> (\<forall>k < 1024. flagged (tab_entry m i k) \<longrightarrow> PG (tab_entry m i k) \<in> pm_pool (pmst m))"

definition own_frames :: "machine \<Rightarrow> nat \<Rightarrow> nat \<Rightarrow> bool" where
  "own_frames m lo hi \<longleftrightarrow> (\<forall>i. lo \<le> i \<and> i < hi \<and> flagged (dir_entry m i) \<longrightarrow> own_table m i
     \<and> (\<forall>j. lo \<le> j \<and> j < hi \<and> j \<noteq> i \<and> flagged (dir_entry m j) \<longrightarrow> PG (dir_entry m j) \<noteq> PG (dir_entry m i)))"

definition table_frames :: "machine \<Rightarrow> nat \<Rightarrow> u32 set" where
  "table_frames m i = (if flagged (dir_entry m i)
     then insert (PG (dir_entry m i)) {PG (tab_entry m i k) |k. k < 1024 \<and> flagged (tab_entry m i k)} else {})"

lemma table_frames_cong:
  assumes "dir_entry m' i = dir_entry m i" and "flagged (dir_entry m i) \<Longrightarrow> \<forall>k < 1024. tab_entry m' i k = tab_entry m i k"
  shows "table_frames m' i = table_frames m i"
proof (cases "flagged (dir_entry m i)")
  case True
  have "{PG (tab_entry m' i k) |k. k < 1024 \<and> flagged (tab_entry m' i k)} = {PG (tab_entry m i k) |k. k < 1024 \<and> flagged (tab_entry m i k)}"
    using assms(2) [OF True] by (intro Collect_cong iff_exI) auto
  then show ?thesis using True by (simp add: table_frames_def assms(1))
qed (simp add: table_frames_def assms(1))

text \<open>One table and its directory entry.\<close>

lemma drop_table:
  assumes sm: "self_map m" and pm: "pm_inv (pmst m)" and i: "i < 1023" and fl: "flagged (dir_entry m i)" and ot: "own_table m i"
  shows "\<exists>m1. drop_pdes i (Suc n) m = drop_pdes (Suc i) n m1 \<and> self_map m1 \<and> pm_inv (pmst m1) \<and> cr3 m1 = cr3 m
    \<and> pm_pool (pmst m1) = pm_pool (pmst m) \<and> pm_taken (pmst m1) = pm_taken (pmst m) - table_frames m i
    \<and> (\<forall>j < 1024. dir_entry m1 j = (if j = i then 0 else dir_entry m j))
    \<and> (\<forall>a. PG a \<noteq> cr3 m \<and> PG a \<noteq> PG (dir_entry m i) \<longrightarrow> phys m1 a = phys m a)"
proof -
  have own: "bit (dir_entry m i) 0" "PG (dir_entry m i) \<noteq> cr3 m" "PG (dir_entry m i) \<in> pm_pool (pmst m)"
    "\<forall>k < 1024. flagged (tab_entry m i k) \<longrightarrow> PG (tab_entry m i k) \<in> pm_pool (pmst m)" using ot by (simp_all add: own_table_def)
  have al: "cr3 m AND 4095 = 0" using sm by (simp add: self_map_def)
  have pc: "PG (cr3 m + word_of_nat j * 4) = cr3 m" if "j < 1024" for j
    using page_offset(1) [OF PG_fix [THEN iffD1, OF al]] that by (simp add: unat_word_of_nat_32)
  obtain ma where ma: "drop_ptes i 0 1024 m = Inr ma" "pm_inv (pmst ma)" "pm_pool (pmst ma) = pm_pool (pmst m)"
    "pm_taken (pmst ma) = pm_taken (pmst m) - {PG (tab_entry m i k) |k. 0 \<le> k \<and> k < 0 + 1024 \<and> flagged (tab_entry m i k)}"
    "cr3 ma = cr3 m" "\<forall>a. PG a \<noteq> PG (dir_entry m i) \<longrightarrow> phys ma a = phys m a"
    using drop_ptes_ok [OF sm own(1,2) pm _ _ own(4), of 0 1024] i by auto
  have dir: "phys ma (cr3 m + word_of_nat j * 4) = phys m (cr3 m + word_of_nat j * 4)" if "j < 1024" for j
    using ma(6) pc [OF that] own(2) by auto
  have sma: "self_map ma" using sm dir [of 1023] by (simp add: self_map_def ma(5))
  have dea: "dir_entry ma j = dir_entry m j" if "j < 1024" for j using dir [OF that] by (simp add: dir_entry_def ma(5))
  have ii: "i < 1024" using i by simp
  have rd: "vread m (pde_va i) = Inr (dir_entry m i)" "vread ma (pde_va i) = Inr (dir_entry m i)"
    using walk_pde [OF sm ii] walk_pde [OF sma ii] dir [OF ii] by (simp_all add: vread_def dir_entry_def ma(5))
  obtain q where q: "phy_release_page (Some (PG (dir_entry m i))) (pmst ma) = Inr q" "pm_inv q" "pm_pool q = pm_pool (pmst ma)"
    "pm_taken q = pm_taken (pmst ma) - {PG (dir_entry m i)}"
    using pm.release [OF ma(2), of "PG (dir_entry m i)"] own(3) ma(3) by auto
  define m1 where "m1 = ma\<lparr>pmst := q, phys := (phys ma)(cr3 m + word_of_nat i * 4 := 0)\<rparr>"
  have smq: "self_map (ma\<lparr>pmst := q\<rparr>)" using sma by (simp add: self_map_def)
  have wr: "vwrite (ma\<lparr>pmst := q\<rparr>) (pde_va i) 0 = Inr m1"
    using walk_pde [OF smq ii] by (simp add: vwrite_def m1_def ma(5))
  have "drop_pdes i (Suc n) m = drop_pdes (Suc i) n m1"
    using fl rd ma(1) q(1) wr by (simp add: flagged_def)
  moreover have de: "dir_entry m1 j = (if j = i then 0 else dir_entry m j)" if "j < 1024" for j
    using entry_eq [OF al al that ii] dir [OF that] by (auto simp: dir_entry_def m1_def ma(5))
  moreover have "self_map m1"
  proof -
    have "dir_entry m1 1023 = dir_entry m 1023" using de [of 1023] i by simp
    then show ?thesis using sm by (simp add: self_map_def dir_entry_def) (simp add: m1_def ma(5))
  qed
  moreover have "phys m1 a = phys m a" if "PG a \<noteq> cr3 m \<and> PG a \<noteq> PG (dir_entry m i)" for a
    using ma(6) pc [OF ii] that by (auto simp: m1_def)
  moreover have "pm_taken (pmst m1) = pm_taken (pmst m) - table_frames m i"
    using q(4) ma(4) fl by (auto simp: m1_def table_frames_def)
  moreover have "pm_inv (pmst m1)" "cr3 m1 = cr3 m" "pm_pool (pmst m1) = pm_pool (pmst m)"
    using q(2,3) ma(3,5) by (simp_all add: m1_def)
  ultimately show ?thesis by blast
qed

lemma drop_pdes_ok:
  "self_map m \<Longrightarrow> pm_inv (pmst m) \<Longrightarrow> i + n \<le> 1023 \<Longrightarrow> own_frames m i (i + n) \<Longrightarrow>
   \<exists>m'. drop_pdes i n m = Inr m' \<and> self_map m' \<and> pm_inv (pmst m') \<and> cr3 m' = cr3 m \<and> pm_pool (pmst m') = pm_pool (pmst m)
     \<and> pm_taken (pmst m') = pm_taken (pmst m) - (\<Union>j \<in> {i..<i + n}. table_frames m j)
     \<and> (\<forall>j < 1024. dir_entry m' j = (if i \<le> j \<and> j < i + n \<and> flagged (dir_entry m j) then 0 else dir_entry m j))
     \<and> (\<forall>a. PG a \<noteq> cr3 m \<and> (\<forall>j. i \<le> j \<and> j < i + n \<and> flagged (dir_entry m j) \<longrightarrow> PG a \<noteq> PG (dir_entry m j)) \<longrightarrow> phys m' a = phys m a)"
proof (induction n arbitrary: i m)
  case (Suc n)
  have i: "i < 1023" "i < 1024" using Suc.prems(3) by simp_all
  have split: "{i..<i + Suc n} = insert i {Suc i..<Suc i + n}" by auto
  show ?case
  proof (cases "flagged (dir_entry m i)")
    case False
    have own: "own_frames m (Suc i) (Suc i + n)" using Suc.prems(4) by (simp add: own_frames_def)
    have "vread m (pde_va i) = Inr (dir_entry m i)" using walk_pde [OF Suc.prems(1) i(2)] by (simp add: vread_def dir_entry_def)
    then have step: "drop_pdes i (Suc n) m = drop_pdes (Suc i) n m" using False by (simp add: flagged_def)
    have t: "table_frames m i = {}" using False by (simp add: table_frames_def)
    have eq: "i \<le> j \<and> j < i + Suc n \<and> flagged (dir_entry m j) \<longleftrightarrow> Suc i \<le> j \<and> j < Suc i + n \<and> flagged (dir_entry m j)" for j
      using False by (cases "j = i") auto
    from Suc.IH [OF Suc.prems(1,2) _ own] Suc.prems(3) show ?thesis unfolding step split eq by (simp add: t)
  next
    case True
    have o: "own_table m i" using Suc.prems(4) True by (simp add: own_frames_def)
    obtain m1 where m1: "drop_pdes i (Suc n) m = drop_pdes (Suc i) n m1" "self_map m1" "pm_inv (pmst m1)" "cr3 m1 = cr3 m"
      "pm_pool (pmst m1) = pm_pool (pmst m)" "pm_taken (pmst m1) = pm_taken (pmst m) - table_frames m i"
      "\<forall>j < 1024. dir_entry m1 j = (if j = i then 0 else dir_entry m j)"
      "\<forall>a. PG a \<noteq> cr3 m \<and> PG a \<noteq> PG (dir_entry m i) \<longrightarrow> phys m1 a = phys m a"
      using drop_table [OF Suc.prems(1,2) i(1) True o, of n] by blast
    have de: "dir_entry m1 j = dir_entry m j" if "Suc i \<le> j" "j < Suc i + n" for j using m1(7) that Suc.prems(3) by simp
    have te: "tab_entry m1 j k = tab_entry m j k" if j: "Suc i \<le> j" "j < Suc i + n" "flagged (dir_entry m j)" and k: "k < 1024" for j k
    proof -
      have "PG (dir_entry m j) \<noteq> cr3 m" "PG (dir_entry m j) \<noteq> PG (dir_entry m i)"
        using Suc.prems(4) j True by (simp_all add: own_frames_def own_table_def)
      moreover have "PG (PG (dir_entry m j) + word_of_nat k * 4) = PG (dir_entry m j)"
        by (rule page_offset(1)) (use k in \<open>simp_all add: unat_word_of_nat_32\<close>)
      ultimately show ?thesis using m1(8) by (simp add: tab_entry_def de [OF j(1,2)])
    qed
    have own: "own_frames m1 (Suc i) (Suc i + n)"
      unfolding own_frames_def
    proof (intro allI impI, elim conjE)
      fix j assume j: "Suc i \<le> j" "j < Suc i + n" "flagged (dir_entry m1 j)"
      then have fl: "flagged (dir_entry m j)" using de by simp
      have "own_table m j" using Suc.prems(4) j(1,2) fl by (simp add: own_frames_def)
      then have "own_table m1 j" using te [OF j(1,2) fl] by (simp add: own_table_def de [OF j(1,2)] m1(4,5))
      moreover have "PG (dir_entry m1 j') \<noteq> PG (dir_entry m1 j)"
        if j': "Suc i \<le> j'" "j' < Suc i + n" "j' \<noteq> j" "flagged (dir_entry m1 j')" for j'
      proof -
        have "flagged (dir_entry m j')" using j' de by simp
        then show ?thesis using Suc.prems(4) j(1,2) fl j'(1-3) unfolding own_frames_def de [OF j(1,2)] de [OF j'(1,2)] by simp
      qed
      ultimately show "own_table m1 j
        \<and> (\<forall>j'. Suc i \<le> j' \<and> j' < Suc i + n \<and> j' \<noteq> j \<and> flagged (dir_entry m1 j') \<longrightarrow> PG (dir_entry m1 j') \<noteq> PG (dir_entry m1 j))"
        by blast
    qed
    have tf: "table_frames m1 j = table_frames m j" if "j \<in> {Suc i..<Suc i + n}" for j
      using table_frames_cong [of m1 j m] de te that by simp
    obtain m' where m': "drop_pdes (Suc i) n m1 = Inr m'" "self_map m'" "pm_inv (pmst m')" "cr3 m' = cr3 m1" "pm_pool (pmst m') = pm_pool (pmst m1)"
      "pm_taken (pmst m') = pm_taken (pmst m1) - (\<Union>j \<in> {Suc i..<Suc i + n}. table_frames m1 j)"
      "\<forall>j < 1024. dir_entry m' j = (if Suc i \<le> j \<and> j < Suc i + n \<and> flagged (dir_entry m1 j) then 0 else dir_entry m1 j)"
      "\<forall>a. PG a \<noteq> cr3 m1 \<and> (\<forall>j. Suc i \<le> j \<and> j < Suc i + n \<and> flagged (dir_entry m1 j) \<longrightarrow> PG a \<noteq> PG (dir_entry m1 j)) \<longrightarrow> phys m' a = phys m1 a"
      using Suc.IH [OF m1(2,3) _ own] Suc.prems(3) by auto
    have "(\<Union>j \<in> {Suc i..<Suc i + n}. table_frames m1 j) = (\<Union>j \<in> {Suc i..<Suc i + n}. table_frames m j)" using tf by blast
    then have tk: "pm_taken (pmst m') = pm_taken (pmst m) - (\<Union>j \<in> {i..<i + Suc n}. table_frames m j)"
      unfolding m'(6) m1(6) split by blast
    have dir: "dir_entry m' j = (if i \<le> j \<and> j < i + Suc n \<and> flagged (dir_entry m j) then 0 else dir_entry m j)" if "j < 1024" for j
    proof (cases "Suc i \<le> j \<and> j < Suc i + n")
      case True
      then show ?thesis using m'(7) de that by simp
    next
      case no: False
      then have "dir_entry m' j = (if j = i then 0 else dir_entry m j)" using m'(7) m1(7) that by auto
      then show ?thesis using no True by auto
    qed
    have ph: "phys m' a = phys m a" if a: "PG a \<noteq> cr3 m \<and> (\<forall>j. i \<le> j \<and> j < i + Suc n \<and> flagged (dir_entry m j) \<longrightarrow> PG a \<noteq> PG (dir_entry m j))" for a
    proof -
      have "phys m1 a = phys m a" using m1(8) a True by simp
      moreover have "\<forall>j. Suc i \<le> j \<and> j < Suc i + n \<and> flagged (dir_entry m1 j) \<longrightarrow> PG a \<noteq> PG (dir_entry m1 j)"
        using a de by (metis Suc_leD add_Suc add_Suc_right)
      then have "phys m' a = phys m1 a" using m'(8) m1(4) a by simp
      ultimately show ?thesis by simp
    qed
    show ?thesis using m'(1-5) m1(1,4,5) tk dir ph by (intro exI [of _ m']) simp
  qed
qed auto

subsection \<open>The way of an ended task through the queues\<close>

lemma expired_append:
  assumes ok: "places s R Q S E" and n: "n \<notin> set (heads s @ R @ Q @ S @ E)" "nd_data (tk_heap s n) \<noteq> None"
    and len: "length (R @ Q @ S @ E) < 2147483645"
  shows "\<exists>h l. list_insert (tk_heap s) (Some (tk_expired s)) (Some n) (LSIDX_AFTAIL (tk_expired s)) = Inr (h, l)
    \<and> places ((set_heap h s)\<lparr>tk_expired := l\<rparr>) R Q S (E @ [n]) \<and> (\<forall>a. nd_data (h a) = nd_data (tk_heap s a))
    \<and> ls_null l = ls_null (tk_expired s)"
proof -
  have r: "list_rep (tk_heap s) (tk_expired s) E" "distinct (heads s @ R @ Q @ S @ E)" using ok by (simp_all add: places_def)
  have f: "n \<notin> set (ls_null (tk_expired s) # E)" using n(1) by (auto simp: heads_def)
  obtain h l where p: "list_insert (tk_heap s) (Some (tk_expired s)) (Some n) (LSIDX_AFTAIL (tk_expired s)) = Inr (h, l)"
    "list_rep h l (E @ [n])" "ls_null l = ls_null (tk_expired s)" "\<forall>a. nd_data (h a) = nd_data (tk_heap s a)"
    "\<forall>a. a \<notin> set (ls_null (tk_expired s) # n # E) \<longrightarrow> h a = tk_heap s a"
    using list_insert_rep [OF r(1) order.refl _ f] len list_rep_length [OF r(1)] by auto
  have "places ((set_heap h s)\<lparr>tk_expired := l\<rparr>) R Q S (E @ [n])"
    by (rule places_update [OF ok, where A = "set (ls_null (tk_expired s) # n # E)"])
      (use ok p r n len in \<open>auto simp: heads_def same_data_def places_def\<close>)
  then show ?thesis using p(1,3,4) by blast
qed

lemma expire_ok:
  assumes ok: "tasks_ok s (c # R) Q S E"
  shows "\<exists>t. expire s = Inr t \<and> tasks_ok t R Q S (E @ [c]) \<and> same_data s t \<and> tk_pcb t = tk_pcb s"
proof -
  have p: "places s (c # R) Q S E" "tk_lock s = unlocked" using ok by (simp_all add: tasks_ok_def)
  obtain h q where 1: "queue_pop (tk_heap s) (Some (tk_running s)) = Inr (Some c, h, q)"
    "places ((set_heap h s)\<lparr>tk_running := q\<rparr>) R Q S E" "\<forall>a. nd_data (h a) = nd_data (tk_heap s a)" "q_null q = q_null (tk_running s)"
    using running_pop [OF p(1)] by blast
  define s1 where "s1 = (set_heap h s)\<lparr>tk_running := q\<rparr>"
  have h1: "heads s1 = heads s" using 1(4) by (simp add: s1_def heads_def)
  have "c \<notin> set (heads s1 @ R @ Q @ S @ E)" "nd_data (tk_heap s1 c) \<noteq> None" "length (R @ Q @ S @ E) < 2147483645"
    using p(1) h1 1(3) by (auto simp: places_def s1_def)
  from expired_append [OF 1(2) [folded s1_def] this] obtain h2 l where
    2: "list_insert (tk_heap s1) (Some (tk_expired s1)) (Some c) (LSIDX_AFTAIL (tk_expired s1)) = Inr (h2, l)"
      "places ((set_heap h2 s1)\<lparr>tk_expired := l\<rparr>) R Q S (E @ [c])" "\<forall>a. nd_data (h2 a) = nd_data (tk_heap s1 a)" by blast
  let ?t = "(set_heap h2 s1)\<lparr>tk_expired := l, tk_lock := unlocked\<rparr>"
  have "list_insert h (Some (tk_expired s)) (Some c) (LSIDX_AFTAIL (tk_expired s)) = Inr (h2, l)"
    using 2(1) by (simp add: s1_def)
  then have "expire s = Inr ?t" using p(2) 1(1) by (simp add: expire_def s1_def)
  moreover have "tasks_ok ?t R Q S (E @ [c])" using 2(2) by (simp add: tasks_ok_def places_def heads_def)
  moreover have "same_data s ?t" "tk_pcb ?t = tk_pcb s" using 1(3) 2(3) by (simp_all add: same_data_def s1_def)
  ultimately show ?thesis by blast
qed

text \<open>The machine right after paging() has a first table and a self-map, and no pool frame in its tables.\<close>

lemma mc_sample_first:
  "dir_entry mc_sample 0 = PGTABLE OR 7" "tab_entry mc_sample 0 0 = 7" "self_map mc_sample"
proof -
  have c: "cr3 mc_sample = PDTABLE" by (simp add: mc_sample_def paging_def Let_def paging_consts)
  have g: "PG (PGTABLE OR 7) = PGTABLE" by (rule PG_or_flags) (simp_all add: PGTABLE_def PG_MASK_def)
  show d: "dir_entry mc_sample 0 = PGTABLE OR 7"
    unfolding dir_entry_def c unfolding mc_sample_def using paging_pde [of 0 "\<lparr>phys = (\<lambda>_. 0), cr3 = 0, pmst = pm_sample\<rparr>"] by simp
  have "phys mc_sample (PGTABLE + word_of_nat 0 * 4) = word_of_nat 0 * PGSIZE OR 7"
    by (simp only: mc_sample_def paging_def Let_def paging_consts machine.simps, rule paging_loop_at) simp_all
  then show "tab_entry mc_sample 0 0 = 7" by (simp add: tab_entry_def d g)
  show "self_map mc_sample" unfolding mc_sample_def by (rule self_map_paging)
qed

subsection \<open>Properties\<close>

text \<open>C7: fork() gives the child every entry of a table without the write flag, and leaves the entries of the parent as they
  are: a writable page stays writable for the parent while the child maps the same frame. Entries that the parent does not
  have keep whatever the frame of the new table held.\<close>

theorem fork_copies_table:
  assumes "apart m i va f" and "i < 1024"
  shows "\<exists>m'. copy_ptes i va 0 1024 m = Inr m'
    \<and> (\<forall>k < 1024. phys m' (f + word_of_nat k * 4) = (if tab_entry m i k \<noteq> 0 then cow (tab_entry m i k) else phys m (f + word_of_nat k * 4)))
    \<and> (\<forall>k < 1024. tab_entry m' i k = tab_entry m i k)"
proof -
  obtain p where p: "copy_ptes i va 0 1024 m = Inr (m\<lparr>phys := p\<rparr>)"
    "\<forall>a. (\<forall>k < 1024. a \<noteq> f + word_of_nat k * 4) \<longrightarrow> p a = phys m a"
    "\<forall>k < 1024. p (f + word_of_nat k * 4) = (if tab_entry m i k \<noteq> 0 then cow (tab_entry m i k) else phys m (f + word_of_nat k * 4))"
    using copy_ptes_ok [OF assms, of 0 1024] by auto
  note a = apartD [OF assms(1)]
  have ne: "f \<noteq> cr3 m" "f \<noteq> PG (dir_entry m i)" using assms(1) by (simp_all add: apart_def)
  have "cr3 m + word_of_nat i * 4 \<noteq> f + word_of_nat k * 4" if "k < 1024" for k using entry_eq [OF a(2,1) assms(2) that] ne(1) by simp
  then have d: "dir_entry (m\<lparr>phys := p\<rparr>) i = dir_entry m i" using p(2) by (simp add: dir_entry_def)
  have "tab_entry (m\<lparr>phys := p\<rparr>) i j = tab_entry m i j" if "j < 1024" for j
  proof -
    have "PG (dir_entry m i) + word_of_nat j * 4 \<noteq> f + word_of_nat k * 4" if "k < 1024" for k
      using entry_eq [OF PG_aligned a(1) \<open>j < 1024\<close> that, of "dir_entry m i"] ne(2) by simp
    then show ?thesis using p(2) unfolding tab_entry_def d by simp
  qed
  then show ?thesis using p(1,3) by (intro exI [of _ "m\<lparr>phys := p\<rparr>"]) simp
qed

theorem fork_copies_table_witness:
  "\<exists>m'. copy_ptes 0 0xb8000 0 1024 mc_sample = Inr m'
    \<and> (\<forall>k < 1024. phys m' (0xb8000 + word_of_nat k * 4)
         = (if tab_entry mc_sample 0 k \<noteq> 0 then cow (tab_entry mc_sample 0 k) else phys mc_sample (0xb8000 + word_of_nat k * 4)))
    \<and> (\<forall>k < 1024. tab_entry m' 0 k = tab_entry mc_sample 0 k)"
proof (rule fork_copies_table)
  have c: "cr3 mc_sample = PDTABLE" by (simp add: mc_sample_def paging_def Let_def paging_consts)
  have "pde_of mc_sample 0xb8000 = dir_entry mc_sample 0" by (simp add: pde_of_def dir_entry_def PD_INDEX_def drop_bit_eq_div)
  moreover have "PG (PGTABLE OR 7) = PGTABLE" by (rule PG_or_flags) (simp_all add: PGTABLE_def PG_MASK_def)
  moreover have "bit (PGTABLE OR 7) 0" by (simp add: PGTABLE_def bit_numeral_rec)
  moreover have "walk mc_sample 0xb8000 = Some 0xb8000" using paging_walk [of "0xb8000"] unfolding mc_sample_def
    by (simp add: PD_INDEX_def PT_INDEX_def drop_bit_eq_div)
  ultimately show "apart mc_sample 0 0xb8000 0xb8000"
    by (simp add: apart_def mc_sample_first c PDTABLE_def PGTABLE_def) (simp add: PG_def PG_MASK_def)
qed simp

text \<open>C27: what exit() gives back. When every entry of the lower half of the directory that counts as mapped is a table of
  the pool that stands in one place and maps frames of the pool only, the loops of exit() end, and the frames that are
  taken afterwards are those of before less the frames of these tables and those they map; the lower half of the directory is empty, its upper half as
  it was, and so is every word outside the directory and these tables.\<close>

theorem exit_releases_tables:
  assumes "self_map m" and "pm_inv (pmst m)" and "own_frames m 0 512"
  shows "\<exists>m'. drop_pdes 0 (unat (PD_INDEX KERN_HIGH_MAPPING)) m = Inr m' \<and> self_map m' \<and> pm_inv (pmst m')
    \<and> pm_pool (pmst m') = pm_pool (pmst m) \<and> pm_taken (pmst m') = pm_taken (pmst m) - (\<Union>i < 512. table_frames m i)
    \<and> (\<forall>i < 512. \<not> flagged (dir_entry m' i)) \<and> (\<forall>i < 1024. 512 \<le> i \<longrightarrow> dir_entry m' i = dir_entry m i)
    \<and> (\<forall>a. PG a \<noteq> cr3 m \<and> (\<forall>i < 512. flagged (dir_entry m i) \<longrightarrow> PG a \<noteq> PG (dir_entry m i)) \<longrightarrow> phys m' a = phys m a)"
proof -
  have n: "unat (PD_INDEX KERN_HIGH_MAPPING) = 512" by (simp add: PD_INDEX_def KERN_HIGH_MAPPING_def drop_bit_eq_div)
  have s: "{0..<0 + 512} = {..<512 :: nat}" by auto
  obtain m' where m': "drop_pdes 0 512 m = Inr m'" "self_map m'" "pm_inv (pmst m')" "pm_pool (pmst m') = pm_pool (pmst m)"
    "pm_taken (pmst m') = pm_taken (pmst m) - (\<Union>j \<in> {0..<0 + 512}. table_frames m j)"
    "\<forall>j < 1024. dir_entry m' j = (if 0 \<le> j \<and> j < 0 + 512 \<and> flagged (dir_entry m j) then 0 else dir_entry m j)"
    "\<forall>a. PG a \<noteq> cr3 m \<and> (\<forall>j. 0 \<le> j \<and> j < 0 + 512 \<and> flagged (dir_entry m j) \<longrightarrow> PG a \<noteq> PG (dir_entry m j)) \<longrightarrow> phys m' a = phys m a"
    using drop_pdes_ok [of m 0 512] assms by auto
  have z: "\<not> flagged 0" by (simp add: flagged_def)
  have "\<not> flagged (dir_entry m' i)" if "i < 512" for i using m'(6) [rule_format, of i] that z by simp
  moreover have "dir_entry m' i = dir_entry m i" if "i < 1024" "512 \<le> i" for i using m'(6) [rule_format, of i] that by simp
  ultimately show ?thesis using m'(1-4,7) m'(5) [unfolded s] unfolding n by (intro exI [of _ m']) simp
qed

text \<open>The parent and the child of the two properties: the parent's table of the second 4 MB maps the first page of the pool,
  and its page at 2 GB is mapped to the frame of the new table.\<close>

definition mc_parent :: machine where
  "mc_parent = \<lparr>phys = (\<lambda>a. if a = 0x10cffc then 0x10c007 else if a = 0x10c004 then 0x10d007 else if a = 0x10c800 then 0x10e007
     else if a = 0x10d000 then 0x100007 else if a = 0x10e000 then 0x101007 else 0), cr3 = 0x10c000, pmst = pm_sample\<rparr>"

definition mc_child :: machine where
  "mc_child = \<lparr>phys = (\<lambda>a. if a = 0x102ffc then 0x102007 else if a = 0x102004 then 0x101007 else if a = 0x101000 then 0x100005 else 0),
     cr3 = 0x102000, pmst = pm_sample\<rparr>"

lemma sample_PG:
  "PG 0x10c007 = 0x10c000" "PG 0x10d007 = 0x10d000" "PG 0x10e007 = 0x10e000" "PG 0x101007 = 0x101000" "PG 0x102007 = 0x102000"
  "PG 0x100005 = 0x100000" "PG 0x100007 = 0x100000" "PG 0x80000000 = 0x80000000"
  by (simp_all add: PG_def PG_MASK_def)

lemma unat_word_at:
  assumes "unat (b :: u32) + 4096 < 4294967296" and "k < 1024"
  shows "unat (b + word_of_nat k * 4) = unat b + k * 4"
proof -
  have "unat (word_of_nat k * 4 :: u32) = k * 4" using assms(2) by (simp add: unat_word_ariths unat_word_of_nat_32)
  then show ?thesis using assms by (subst unat_add_32) simp_all
qed

lemma mc_parent_facts:
  "apart mc_parent 1 0x80000000 0x101000" "k < 1024 \<Longrightarrow> tab_entry mc_parent 1 k = (if k = 0 then 0x100007 else 0)"
proof -
  have d: "dir_entry mc_parent 1 = 0x10d007" by (simp add: dir_entry_def mc_parent_def)
  have pd: "pde_of mc_parent 0x80000000 = 0x10e007" by (simp add: pde_of_def mc_parent_def PD_INDEX_def drop_bit_eq_div)
  have pt: "pte_of mc_parent 0x80000000 = 0x101007"
    unfolding pte_of_def pd by (simp add: mc_parent_def PT_INDEX_def drop_bit_eq_div sample_PG)
  have "walk mc_parent 0x80000000 = Some 0x101000"
    by (simp add: walk_def pd pt sample_PG bit_numeral_rec)
  moreover have "self_map mc_parent" by (simp add: self_map_def mc_parent_def sample_PG bit_numeral_rec)
  ultimately show "apart mc_parent 1 0x80000000 0x101000"
    unfolding apart_def d pd by (simp add: sample_PG bit_numeral_rec mc_parent_def)
  show "tab_entry mc_parent 1 k = (if k = 0 then 0x100007 else 0)" if k: "k < 1024"
  proof -
    have "unat (0x10d000 + word_of_nat k * 4 :: u32) = 0x10d000 + k * 4" by (subst unat_word_at) (use k in simp_all)
    then show ?thesis using k unfolding tab_entry_def d sample_PG by (simp add: mc_parent_def word_unat_eq_iff)
  qed
qed

lemma mc_child_facts:
  "self_map mc_child" "pm_inv (pmst mc_child)" "dir_entry mc_child 1 = 0x101007"
  "k < 512 \<Longrightarrow> dir_entry mc_child k = (if k = 1 then 0x101007 else 0)"
  "k < 1024 \<Longrightarrow> phys mc_child (0x101000 + word_of_nat k * 4) = (if k = 0 then 0x100005 else 0)"
  "own_frames mc_child 0 512"
proof -
  show "self_map mc_child" by (simp add: self_map_def mc_child_def sample_PG bit_numeral_rec)
  show "pm_inv (pmst mc_child)" by (simp add: mc_child_def pm_sample_inv)
  show d1: "dir_entry mc_child 1 = 0x101007" by (simp add: dir_entry_def mc_child_def)
  have d: "dir_entry mc_child k = (if k = 1 then 0x101007 else 0)" if k: "k < 512" for k
  proof -
    have "unat (0x102000 + word_of_nat k * 4 :: u32) = 0x102000 + k * 4" by (subst unat_word_at) (use k in simp_all)
    then show ?thesis using k by (simp add: dir_entry_def mc_child_def word_unat_eq_iff)
  qed
  then show "k < 512 \<Longrightarrow> dir_entry mc_child k = (if k = 1 then 0x101007 else 0)" .
  have t: "phys mc_child (0x101000 + word_of_nat k * 4) = (if k = 0 then 0x100005 else 0)" if k: "k < 1024" for k
  proof -
    have "unat (0x101000 + word_of_nat k * 4 :: u32) = 0x101000 + k * 4" by (subst unat_word_at) (use k in simp_all)
    then show ?thesis using k by (simp add: mc_child_def word_unat_eq_iff)
  qed
  then show "k < 1024 \<Longrightarrow> phys mc_child (0x101000 + word_of_nat k * 4) = (if k = 0 then 0x100005 else 0)" .
  have g: "PG 0x101007 = 0x101000" "PG 0x100005 = 0x100000" by (simp_all add: PG_def PG_MASK_def)
  have "page_at MM_BASE 0 \<in> pm_pool pm_sample" "page_at MM_BASE 1 \<in> pm_pool pm_sample"
    by (simp_all add: pm_pool_def pages_def pm_sample_def bm_sample_wf)
  then have pool: "0x100000 \<in> pm_pool pm_sample" "0x101000 \<in> pm_pool pm_sample" by (simp_all add: page_at_def MM_BASE_def)
  have z: "\<not> flagged 0" by (simp add: flagged_def)
  have ps: "pmst mc_child = pm_sample" "cr3 mc_child = 0x102000" by (simp_all add: mc_child_def)
  have "tab_entry mc_child 1 k = (if k = 0 then 0x100005 else 0)" if "k < 1024" for k
    using t [OF that] unfolding tab_entry_def d1 g by simp
  then have "own_table mc_child 1"
    unfolding own_table_def ps d1 g using pool z g by (auto simp: bit_numeral_rec)
  then show "own_frames mc_child 0 512" unfolding own_frames_def using d z by auto
qed

theorem exit_releases_tables_witness:
  "\<exists>m'. drop_pdes 0 (unat (PD_INDEX KERN_HIGH_MAPPING)) mc_child = Inr m'
    \<and> pm_taken (pmst m') = pm_taken pm_sample - (\<Union>i < 512. table_frames mc_child i) \<and> \<not> flagged (dir_entry m' 1)"
proof -
  have "pmst mc_child = pm_sample" by (simp add: mc_child_def)
  then show ?thesis using exit_releases_tables [OF mc_child_facts(1,2,6)] by fastforce
qed

text \<open>C40: exit() takes the frames from the parent. fork() copies the entries of a table of the parent into the frame
  \<open>f\<close>, and in the child's directory that frame is the table of the same 4 MB, unchanged until the child ends; when every
  entry of the lower half of the child's directory that counts as mapped is a table of the pool that stands in one place and
  maps frames of the pool only, the loops of its exit() end, and every frame that the parent still maps through the present
  entries of its table is free, for anybody to allocate.\<close>

theorem exit_frees_parent_frames:
  assumes "apart m i va f" and "i < 512" and "copy_ptes i va 0 1024 m = Inr m1"
    and "self_map c" and "pm_inv (pmst c)" and "own_frames c 0 512"
    and "dir_entry c i = f OR 7" and "\<forall>k < 1024. phys c (f + word_of_nat k * 4) = phys m1 (f + word_of_nat k * 4)"
  shows "\<exists>c'. drop_pdes 0 (unat (PD_INDEX KERN_HIGH_MAPPING)) c = Inr c' \<and> pm_inv (pmst c')
    \<and> (\<forall>k < 1024. bit (tab_entry m i k) 0 \<longrightarrow> PG (tab_entry m i k) \<in> free_frames c')"
proof -
  have n: "unat (PD_INDEX KERN_HIGH_MAPPING) = 512" by (simp add: PD_INDEX_def KERN_HIGH_MAPPING_def drop_bit_eq_div)
  have pg: "PG (cow e) = PG e" for e
    by (rule bit_word_eqI) (auto simp: PG_def cow_def PGFLAG_RW_def pg_bits bit_exp_u32 [of 1, simplified])
  have fl: "flagged (cow e)" if "bit e 0" for e
    unfolding flagged_def
  proof
    assume "cow e AND NOT PG_MASK = 0"
    then have "\<not> bit (cow e AND NOT PG_MASK) 0" by simp
    then show False using that by (simp add: cow_def PGFLAG_RW_def pg_bits bit_exp_u32 [of 1, simplified])
  qed
  have f7: "PG (f OR 7) = f" using apartD(1) [OF assms(1)] by (rule PG_or_flags) (simp add: PG_MASK_def)
  have fd: "flagged (dir_entry c i)"
    unfolding flagged_def assms(7)
  proof
    assume "(f OR 7) AND NOT PG_MASK = 0"
    then have "\<not> bit ((f OR 7) AND NOT PG_MASK) 0" by simp
    then show False by (simp add: pg_bits bit_numeral_rec)
  qed
  have i: "i < 1024" using assms(2) by simp
  obtain p where p: "copy_ptes i va 0 1024 m = Inr (m\<lparr>phys := p\<rparr>)"
    "\<forall>k < 1024. p (f + word_of_nat k * 4) = (if 0 \<le> k \<and> k < 0 + 1024 \<and> tab_entry m i k \<noteq> 0 then cow (tab_entry m i k) else phys m (f + word_of_nat k * 4))"
    using copy_ptes_ok [OF assms(1) i, of 0 1024] by auto
  have tc: "tab_entry c i k = cow (tab_entry m i k)" if "k < 1024" "bit (tab_entry m i k) 0" for k
  proof -
    have nz: "tab_entry m i k \<noteq> 0" using that(2) by auto
    have "phys m1 (f + word_of_nat k * 4) = p (f + word_of_nat k * 4)" using assms(3) p(1) by auto
    then show ?thesis using assms(8) p(2) that(1) nz by (simp add: tab_entry_def [of c] assms(7) f7)
  qed
  have own: "own_table c i" using assms(2,6) fd by (simp add: own_frames_def)
  obtain c' where c': "drop_pdes 0 512 c = Inr c'" "pm_inv (pmst c')" "pm_pool (pmst c') = pm_pool (pmst c)"
    "pm_taken (pmst c') = pm_taken (pmst c) - (\<Union>j \<in> {0..<0 + 512}. table_frames c j)"
    using drop_pdes_ok [of c 0 512] assms(4-6) by auto
  have "PG (tab_entry m i k) \<in> free_frames c'" if k: "k < 1024" "bit (tab_entry m i k) 0" for k
  proof -
    have e: "PG (tab_entry m i k) = PG (tab_entry c i k)" "flagged (tab_entry c i k)" using tc [OF k] pg fl [OF k(2)] by simp_all
    then have "PG (tab_entry m i k) \<in> table_frames c i" using fd k(1) by (auto simp: table_frames_def)
    moreover have "i \<in> {0..<0 + 512}" using assms(2) by simp
    moreover have "PG (tab_entry m i k) \<in> pm_pool (pmst c)" using own e k(1) by (simp add: own_table_def)
    ultimately show ?thesis unfolding free_frames_def c'(3,4) by blast
  qed
  then show ?thesis using c'(1,2) unfolding n by blast
qed

theorem exit_frees_parent_frames_witness:
  "\<exists>c'. drop_pdes 0 (unat (PD_INDEX KERN_HIGH_MAPPING)) mc_child = Inr c' \<and> tab_entry mc_parent 1 0 = 0x100007
    \<and> 0x100000 \<in> pm_taken (pmst mc_child) \<and> 0x100000 \<in> free_frames c'"
proof -
  note f = mc_parent_facts
  obtain p where p: "copy_ptes 1 0x80000000 0 1024 mc_parent = Inr (mc_parent\<lparr>phys := p\<rparr>)"
    "\<forall>k < 1024. p (0x101000 + word_of_nat k * 4) = (if 0 \<le> k \<and> k < 0 + 1024 \<and> tab_entry mc_parent 1 k \<noteq> 0
       then cow (tab_entry mc_parent 1 k) else phys mc_parent (0x101000 + word_of_nat k * 4))"
    using copy_ptes_ok [OF f(1), of 0 1024] by auto
  have z: "phys mc_parent (0x101000 + word_of_nat k * 4) = 0" if k: "k < 1024" for k
  proof -
    have "unat (0x101000 + word_of_nat k * 4 :: u32) = 0x101000 + k * 4" by (subst unat_word_at) (use k in simp_all)
    then show ?thesis using k by (simp add: mc_parent_def word_unat_eq_iff)
  qed
  have "cow 0x100007 = 0x100005" by (simp add: cow_def PGFLAG_RW_def)
  then have c: "\<forall>k < 1024. phys mc_child (0x101000 + word_of_nat k * 4) = phys (mc_parent\<lparr>phys := p\<rparr>) (0x101000 + word_of_nat k * 4)"
    using p(2) z f(2) mc_child_facts(5) by simp
  have d: "dir_entry mc_child 1 = 0x101000 OR 7" unfolding mc_child_facts(3) by simp
  obtain c' where c': "drop_pdes 0 (unat (PD_INDEX KERN_HIGH_MAPPING)) mc_child = Inr c'"
    "\<forall>k < 1024. bit (tab_entry mc_parent 1 k) 0 \<longrightarrow> PG (tab_entry mc_parent 1 k) \<in> free_frames c'"
    using exit_frees_parent_frames [OF f(1) _ p(1) mc_child_facts(1,2,6) d c] by auto
  have t: "tab_entry mc_parent 1 0 = 0x100007" using f(2) [of 0] by simp
  then have "0x100000 \<in> free_frames c'" using c'(2) [rule_format, of 0] by (simp add: bit_numeral_rec PG_def PG_MASK_def)
  moreover have "0 \<in> bm_bits bm_sample" by (auto simp: bm_sample_def bm_bits_def bm_bit_def bit_iff_odd bm_cap_def)
  then have "page_at MM_BASE 0 \<in> pm_taken pm_sample" by (simp add: pm_taken_def pm_sample_def pages_def)
  then have "0x100000 \<in> pm_taken (pmst mc_child)" by (simp add: mc_child_def page_at_def MM_BASE_def)
  ultimately show ?thesis using c'(1) t by blast
qed

text \<open>Exit() of a task that still has the first table of the kernel, as a child of the kernel's first thread has until it
  executes a program, stops the machine: its first entry maps a frame below MM_BASE, which phy_release_page() refuses.\<close>

theorem exit_low_frame_panics:
  assumes "self_map m" and "bit (dir_entry m 0) 0" and "flagged (tab_entry m 0 0)" and "PG (tab_entry m 0 0) < MM_BASE"
  shows "drop_pdes 0 (unat (PD_INDEX KERN_HIGH_MAPPING)) m = panic ''phy_release_page(): cannot release kernel physical memory''"
proof -
  have n: "unat (PD_INDEX KERN_HIGH_MAPPING) = Suc 511" "(1024 :: nat) = Suc 1023"
    by (simp_all add: PD_INDEX_def KERN_HIGH_MAPPING_def drop_bit_eq_div)
  have "vread m (pde_va 0) = Inr (dir_entry m 0)" using walk_pde [OF assms(1), of 0] by (simp add: vread_def dir_entry_def)
  moreover have "dir_entry m 0 AND NOT PG_MASK \<noteq> 0"
  proof
    assume "dir_entry m 0 AND NOT PG_MASK = 0"
    then have "\<not> bit (dir_entry m 0 AND NOT PG_MASK) 0" by simp
    then show False using assms(2) by (simp add: pg_bits)
  qed
  moreover have "vread m (pte_va 0 0) = Inr (tab_entry m 0 0)"
    using walk_pte [OF assms(1) _ _ assms(2), of 0] by (simp add: vread_def tab_entry_def)
  moreover have "drop_ptes 0 0 (Suc 1023) m = panic ''phy_release_page(): cannot release kernel physical memory''"
    using calculation assms(3,4) by (simp only: drop_ptes.simps(2)) (simp add: flagged_def phy_release_page_def)
  ultimately show ?thesis unfolding n(1) drop_pdes.simps(2) n(2) by simp
qed

theorem exit_low_frame_panics_witness:
  "drop_pdes 0 (unat (PD_INDEX KERN_HIGH_MAPPING)) mc_sample
     = panic ''phy_release_page(): cannot release kernel physical memory''"
  by (rule exit_low_frame_panics)
    (simp_all add: mc_sample_first flagged_def PGTABLE_def PG_MASK_def PG_def MM_BASE_def)

text \<open>The stack of a new task: 21 words fill it from its top down without a gap, each written once; the last one, where the
  stack pointer is, is the address that switch_to() returns to.\<close>

theorem ring0_stack_frame:
  "\<exists>ws. setup_ring0_stack mode_ring3 isr_part3 r0 r3 entry = (r0 - 84, (r3 - 4, DIED_INSTRUCTION + KERN_HIGH_MAPPING) # ws)
    \<and> distinct (map (\<lambda>w. r0 - fst w) ws) \<and> set (map (\<lambda>w. r0 - fst w) ws) = (\<lambda>k. 4 * word_of_nat k) ` {1..21}
    \<and> (r0 - 84, isr_part3) \<in> set ws \<and> (r0 - 8, entry) \<in> set ws \<and> (r0 - 24, mode_ring3) \<in> set ws"
proof -
  have "[1..<22] = [1 :: nat, 2, 3, 4, 5, 6, 7, 8, 9, 10, 11, 12, 13, 14, 15, 16, 17, 18, 19, 20, 21]" by code_simp
  moreover have "{1..21 :: nat} = set [1..<22]" by auto
  ultimately have "{1..21 :: nat} = {1, 2, 3, 4, 5, 6, 7, 8, 9, 10, 11, 12, 13, 14, 15, 16, 17, 18, 19, 20, 21}"
    by (simp only: list.set)
  then have "(\<lambda>k. 4 * word_of_nat k :: u32) ` {1..21}
      = {4, 8, 12, 16, 20, 24, 28, 32, 36, 40, 44, 48, 52, 56, 60, 64, 68, 72, 76, 80, 84}" by simp
  moreover obtain ws where "setup_ring0_stack mode_ring3 isr_part3 r0 r3 entry = (r0 - 84, (r3 - 4, DIED_INSTRUCTION + KERN_HIGH_MAPPING) # ws)"
    "map (\<lambda>w. r0 - fst w) ws = [4, 8, 12, 16, 20, 24, 28, 32, 36, 40, 44, 48, 52, 56, 60, 64, 68, 72, 76, 80, 84]"
    "(r0 - 84, isr_part3) \<in> set ws" "(r0 - 8, entry) \<in> set ws" "(r0 - 24, mode_ring3) \<in> set ws"
    by (simp add: setup_ring0_stack_def Let_def algebra_simps)
  moreover have "set (map (\<lambda>w. r0 - fst w) ws)
    = {4, 8, 12, 16, 20, 24, 28, 32, 36, 40, 44, 48, 52, 56, 60, 64, 68, 72, 76, 80, 84}"
    unfolding calculation(3) by simp
  ultimately show ?thesis by (intro exI [of _ ws] conjI) simp_all
qed

text \<open>C26: the end of exit(): the running task leaves the processor for the list of expired tasks, and the first ready task
  runs; nothing else moves. When no task is ready the scheduler returns to the ended task.\<close>

theorem exit_hands_over:
  assumes "tasks_ok s [c] Q S E"
  shows "\<exists>t u. expire s = Inr t \<and> tasks_ok t [] Q S (E @ [c])
    \<and> (case Q of
         [] \<Rightarrow> scheduler t = Inr (Stay, t)
       | n # Q' \<Rightarrow> scheduler t = Inr (Switch None n, u) \<and> tasks_ok u [n] Q' S (E @ [c]))"
proof -
  obtain t where t: "expire s = Inr t" "tasks_ok t [] Q S (E @ [c])" using expire_ok [OF assms] by blast
  show ?thesis
  proof (cases Q)
    case Nil
    then show ?thesis using t scheduler_nothing_ready [of t "[]" S "E @ [c]"] by auto
  next
    case (Cons n Q')
    then obtain u where "scheduler t = Inr (Switch None n, u)" "tasks_ok u [n] Q' S (E @ [c])"
      using scheduler_switch [of t "[]" n Q' S "E @ [c]"] t(2) by (auto simp: ready_after_def sleeping_after_def)
    then show ?thesis using t Cons by auto
  qed
qed

theorem exit_hands_over_witness:
  "\<exists>t u. expire tk_sample = Inr t \<and> scheduler t = Inr (Switch None 512, u) \<and> tasks_ok u [512] [] [768] [256]"
  using exit_hands_over [OF tk_sample_ok] by auto

end
