(* ===== verification/Exec_Props.thy ===== *)
theory Exec_Props
  imports Exec Fork_Props
begin

section \<open>Properties of exec\<close>

text \<open>
  The command line that exec() splits and the path that it opens; the pages that a program gets.
\<close>

subsection \<open>The command line\<close>

definition cmd_word :: "byte list \<Rightarrow> byte list" where
  "cmd_word f = takeWhile (\<lambda>c. c \<noteq> 32) (cstr f)"

definition cmd_arg :: "byte list \<Rightarrow> byte list" where
  "cmd_arg f = drop (length (cmd_word f) + 1) (cstr f)"

text \<open>A command that does not begin with a separator is one of the loader's directory.\<close>

definition cmd_path :: "byte list \<Rightarrow> byte list" where
  "cmd_path f = (if take 1 (cmd_word f) = [47] then cmd_word f else [47, 98, 105, 110, 47] @ cmd_word f)"

lemma memcpy_fault:
  "d \<le> length dst \<Longrightarrow> s \<le> length src \<Longrightarrow> length dst < d + n \<or> length src < s + n \<Longrightarrow> \<exists>m. memcpy_loop dst d src s n = fault m"
proof (induction n arbitrary: dst d s)
  case (Suc n)
  show ?case
  proof (cases "d < length dst \<and> s < length src")
    case True
    then show ?thesis using Suc by simp
  next
    case False
    then show ?thesis using Suc.prems by (cases "s < length src") auto
  qed
qed simp

lemma memcpy_ok:
  "d + n \<le> length dst \<Longrightarrow> s + n \<le> length src \<Longrightarrow> \<exists>x. memcpy_loop dst d src s n = Inr x \<and> length x = length dst"
  by (simp add: memcpy_loop_eq)

lemma space_loop_eq:
  "i + n \<le> length f \<Longrightarrow> space_loop f i n = Inr (i + length (takeWhile (\<lambda>c. c \<noteq> 32) (take n (drop i f))))"
proof (induction n arbitrary: i)
  case (Suc n)
  then have "take (Suc n) (drop i f) = f ! i # take n (drop (Suc i) f)" by (simp add: Cons_nth_drop_Suc [symmetric])
  with Suc show ?case by simp
qed simp

lemma cmd_word_le: "length (cmd_word f) \<le> length (cstr f)"
  by (simp add: cmd_word_def length_takeWhile_le)

lemma space_loop_cstr:
  assumes "0 \<in> set f"
  shows "space_loop f 0 (length (cstr f)) = Inr (length (cmd_word f))"
  using space_loop_eq [of 0 "length (cstr f)" f] length_cstr_less [OF assms] cstr_take [OF assms]
  by (simp add: cmd_word_def)

lemma cmd_word_take:
  assumes "0 \<in> set f"
  shows "take (length (cmd_word f)) f = cmd_word f"
proof -
  have "take (length (cmd_word f)) f = take (length (cmd_word f)) (cstr f)"
    using cstr_take [OF assms] cmd_word_le [of f] by (metis min.absorb1 take_take)
  also have "\<dots> = cmd_word f" unfolding cmd_word_def by (rule takeWhile_eq_take [symmetric])
  finally show ?thesis .
qed

lemma cmd_arg_take:
  assumes "0 \<in> set f" "length (cmd_word f) < length (cstr f)"
  shows "take (length (cstr f) - length (cmd_word f) - 1) (drop (length (cmd_word f) + 1) f) = cmd_arg f"
  using assms(2) cstr_take [OF assms(1)] by (metis cmd_arg_def diff_diff_left drop_take)

lemma zero_notin_parts: "0 \<notin> set (cmd_word f)" "0 \<notin> set (cmd_arg f)"
  using zero_notin_cstr [of f] by (auto simp: cmd_word_def cmd_arg_def dest: set_takeWhileD in_set_dropD)

lemma split_command_eq:
  assumes f: "0 \<in> set f" and len: "length (cstr f) \<le> 128"
  shows "split_command f = Inr (length (cstr f), cmd_word f @ replicate (128 - length (cmd_word f)) 0,
    cmd_arg f @ replicate (128 - length (cmd_arg f)) 0)"
proof -
  have z: "bzero (replicate MAXSIZE_PATH 0) (Some 0) MAXSIZE_PATH = Inr (replicate 128 0)"
    by (simp add: bzero_def memset_eq MAXSIZE_PATH_def)
  have lf: "length (cstr f) < length f" by (rule length_cstr_less [OF f])
  have w: "length (cmd_word f) \<le> 128" using cmd_word_le [of f] len by simp
  have a: "length (cmd_arg f) = length (cstr f) - length (cmd_word f) - 1" by (simp add: cmd_arg_def)
  show ?thesis
  proof (cases "length (cmd_word f) = length (cstr f)")
    case True
    then have "cmd_arg f = []" by (simp add: cmd_arg_def)
    then show ?thesis using True w lf cmd_word_take [OF f]
      by (simp add: split_command_def z strlen_cstr [OF f] space_loop_cstr [OF f] memcpy_loop_eq)
  next
    case False
    then have l: "length (cmd_word f) < length (cstr f)" using cmd_word_le [of f] by simp
    have "memcpy_loop (replicate 128 0) 0 f (length (cmd_word f) + 1) (length (cstr f) - length (cmd_word f) - 1)
        = Inr (cmd_arg f @ replicate (128 - length (cmd_arg f)) 0)"
      using cmd_arg_take [OF f l] l lf len a by (subst memcpy_loop_eq) simp_all
    moreover have "memcpy_loop (replicate 128 0) 0 f 0 (length (cmd_word f)) = Inr (cmd_word f @ replicate (128 - length (cmd_word f)) 0)"
      using cmd_word_take [OF f] w l lf by (subst memcpy_loop_eq) simp_all
    ultimately show ?thesis using False
      by (simp add: split_command_def z strlen_cstr [OF f] space_loop_cstr [OF f])
  qed
qed

lemma program_path_eq:
  assumes f: "0 \<in> set f" and len: "length (cstr f) \<le> 128"
  shows "program_path (length (cstr f)) (cmd_word f @ replicate (128 - length (cmd_word f)) 0)
    = Inr (cmd_path f @ replicate (256 - length (cmd_path f)) 0)"
proof -
  let ?L = "length (cstr f)" and ?w = "cmd_word f" and ?cmd = "cmd_word f @ replicate (128 - length (cmd_word f)) 0"
  have z: "bzero (replicate (MAXSIZE_PATH * 2) 0) (Some 0) (MAXSIZE_PATH * 2) = Inr (replicate 256 0)"
    by (simp add: bzero_def memset_eq MAXSIZE_PATH_def)
  have w: "length ?w \<le> ?L" by (rule cmd_word_le)
  have t: "take ?L ?cmd = ?w @ replicate (?L - length ?w) 0" using w len by simp
  have c: "read_at ''cmd'' ?cmd 0 = Inr (?cmd ! 0)" using read_at_nat [of 0 ?cmd] w len by simp
  have h: "?cmd ! 0 = 47 \<longleftrightarrow> take 1 ?w = [47]" using w len by (cases ?w) (simp_all add: nth_append)
  have s: "strlen DIR_LOADER = Inr 5" by (simp add: strlen_def DIR_LOADER_def)
  show ?thesis
  proof (cases "take 1 ?w = [47]")
    case True
    have "memcpy_loop (replicate 256 0) 0 ?cmd 0 ?L = Inr (?w @ replicate (256 - length ?w) 0)"
      using t w len by (subst memcpy_loop_eq) (simp_all flip: replicate_add)
    then show ?thesis using True h by (simp add: program_path_def z c cmd_path_def DIRNAME_ROOT_ASCII_def)
  next
    case False
    have p: "memcpy_loop (replicate 256 0) 0 DIR_LOADER 0 5 = Inr ([47, 98, 105, 110, 47] @ replicate 251 0)"
      by (subst memcpy_loop_eq) (simp_all add: DIR_LOADER_def)
    have "memcpy_loop ([47, 98, 105, 110, 47] @ replicate 251 0) 5 ?cmd 0 ?L
        = Inr ([47, 98, 105, 110, 47] @ ?w @ replicate (251 - length ?w) 0)"
    proof (subst memcpy_loop_eq)
      have "drop (5 + ?L) ([47, 98, 105, 110, 47] @ replicate 251 0) = replicate (251 - ?L) (0 :: byte)"
        by (subst drop_append) simp
      then show "Inr (take 5 ([47, 98, 105, 110, 47] @ replicate 251 0) @ take ?L (drop 0 ?cmd)
          @ drop (5 + ?L) ([47, 98, 105, 110, 47] @ replicate 251 0)) = Inr ([47, 98, 105, 110, 47] @ ?w @ replicate (251 - length ?w) 0)"
        using t w len by (simp flip: replicate_add)
    qed (use w len in simp_all)
    then show ?thesis using False h p
      by (simp add: program_path_def z c s cmd_path_def DIRNAME_ROOT_ASCII_def)
  qed
qed

lemma exec_args_eq:
  assumes f: "0 \<in> set f" and len: "length (cstr f) \<le> 128"
  shows "exec_args f = Inr (cmd_path f @ replicate (256 - length (cmd_path f)) 0,
    cmd_arg f @ replicate (128 - length (cmd_arg f)) 0, if cmd_arg f = [] then 1 else 2)"
proof -
  let ?p = "cmd_arg f @ replicate (128 - length (cmd_arg f)) 0"
  have a: "length (cmd_arg f) \<le> 128" using len by (simp add: cmd_arg_def)
  have r: "read_at ''param'' ?p 0 = Inr (?p ! 0)" using read_at_nat [of 0 ?p] a by simp
  have "?p ! 0 = 0 \<longleftrightarrow> cmd_arg f = []" using a zero_notin_parts(2) [of f] by (cases "cmd_arg f") (auto simp: nth_append)
  then show ?thesis by (simp add: exec_args_def split_command_eq [OF assms] program_path_eq [OF assms] r)
qed

lemma exec_args_long:
  assumes f: "0 \<in> set f" and len: "length (cstr f) > 128"
  shows "\<exists>msg. exec_args f = fault msg"
proof -
  let ?L = "length (cstr f)" and ?w = "length (cmd_word f)"
  have z: "bzero (replicate MAXSIZE_PATH 0) (Some 0) MAXSIZE_PATH = Inr (replicate 128 0)"
    "bzero (replicate (MAXSIZE_PATH * 2) 0) (Some 0) (MAXSIZE_PATH * 2) = Inr (replicate 256 0)"
    by (simp_all add: bzero_def memset_eq MAXSIZE_PATH_def)
  have lf: "?L < length f" by (rule length_cstr_less [OF f])
  have w: "?w \<le> ?L" by (rule cmd_word_le)
  note run = exec_args_def split_command_def z strlen_cstr [OF f] space_loop_cstr [OF f]
  consider "?w = ?L" | "?w \<noteq> ?L" "128 < ?w" | "?w \<noteq> ?L" "?w \<le> 128" "128 < ?L - ?w - 1" | "?w \<noteq> ?L" "?w \<le> 128" "?L - ?w - 1 \<le> 128"
    by linarith
  then show ?thesis
  proof cases
    case 1
    obtain m where "memcpy_loop (replicate 128 0) 0 f 0 ?L = fault m"
      using memcpy_fault [of 0 "replicate 128 0" 0 f ?L] len by auto
    then show ?thesis using 1 by (simp add: run)
  next
    case 2
    obtain m where "memcpy_loop (replicate 128 0) 0 f 0 ?w = fault m"
      using memcpy_fault [of 0 "replicate 128 0" 0 f ?w] 2 by auto
    then show ?thesis using 2 by (simp add: run)
  next
    case 3
    obtain m where "memcpy_loop (replicate 128 0) 0 f (?w + 1) (?L - ?w - 1) = fault m"
      using memcpy_fault [of 0 "replicate 128 0" "?w + 1" f "?L - ?w - 1"] 3 w lf by auto
    moreover have "memcpy_loop (replicate 128 0) 0 f 0 ?w = Inr (take ?w f @ drop ?w (replicate 128 0))"
      using 3 w lf by (subst memcpy_loop_eq) simp_all
    ultimately show ?thesis using 3 by (simp add: run)
  next
    case 4
    obtain cmd where cmd: "memcpy_loop (replicate 128 0) 0 f 0 ?w = Inr cmd" "length cmd = 128"
      using memcpy_ok [of 0 ?w "replicate 128 0" 0 f] 4 w lf by auto
    have "0 + (?L - ?w - 1) \<le> length (replicate 128 (0 :: byte))" "?w + 1 + (?L - ?w - 1) \<le> length f" using 4 w lf by simp_all
    from memcpy_ok [OF this] obtain param where
      param: "memcpy_loop (replicate 128 0) 0 f (?w + 1) (?L - ?w - 1) = Inr param" "length param = 128" by auto
    have c: "read_at ''cmd'' cmd 0 = Inr (cmd ! 0)" using read_at_nat [of 0 cmd] cmd(2) by simp
    have s: "strlen DIR_LOADER = Inr 5" by (simp add: strlen_def DIR_LOADER_def)
    obtain p where p: "memcpy_loop (replicate 256 0) 0 DIR_LOADER 0 5 = Inr p" "length p = 256"
      using memcpy_ok [of 0 5 "replicate 256 0" 0 DIR_LOADER] by (auto simp: DIR_LOADER_def)
    obtain m m' where "memcpy_loop (replicate 256 0) 0 cmd 0 ?L = fault m" "memcpy_loop p 5 cmd 0 ?L = fault m'"
      using memcpy_fault [of 0 "replicate 256 0" 0 cmd ?L] memcpy_fault [of 5 p 0 cmd ?L] cmd(2) p(2) len by auto
    then have "\<exists>m. program_path ?L cmd = fault m" by (simp add: program_path_def z c s p(1))
    then show ?thesis using 4 cmd(1) param(1) by (auto simp: run)
  qed
qed

subsection \<open>The pages\<close>

text \<open>Page \<open>k\<close> of the first table.\<close>

abbreviation prog_page :: "nat \<Rightarrow> u32" where
  "prog_page k \<equiv> page_of 0 k"

lemma prog_page_next: "prog_page k + PGSIZE = prog_page (Suc k)"
  by (simp add: page_of_def PGSIZE_def push_bit_eq_mult algebra_simps)

lemma unat_prog_page: "k \<le> 1024 \<Longrightarrow> unat (prog_page k) = k * 4096"
  by (simp add: page_of_def push_bit_eq_mult unat_word_ariths unat_word_of_nat_32)

text \<open>A frame that is taken is one less that a page table may not lie in.\<close>

lemma pgt_inv_alloc:
  assumes "pgt_inv m" and "pm_inv pm'" and "pm_pool pm' = pm_pool (pmst m)" and "pm_taken pm' = insert p (pm_taken (pmst m))"
  shows "pgt_inv (m\<lparr>pmst := pm'\<rparr>)" "free_frames (m\<lparr>pmst := pm'\<rparr>) = free_frames m - {p}"
    "\<And>x. pde_of (m\<lparr>pmst := pm'\<rparr>) x = pde_of m x" "\<And>x. walk (m\<lparr>pmst := pm'\<rparr>) x = walk m x"
proof -
  show pd: "pde_of (m\<lparr>pmst := pm'\<rparr>) x = pde_of m x" for x by (simp add: pde_of_def)
  show "walk (m\<lparr>pmst := pm'\<rparr>) x = walk m x" for x by (simp add: walk_def pte_of_def pd)
  show ff: "free_frames (m\<lparr>pmst := pm'\<rparr>) = free_frames m - {p}" using assms(3,4) by (auto simp: free_frames_def)
  show "pgt_inv (m\<lparr>pmst := pm'\<rparr>)" using assms(1,2) unfolding pgt_inv_def ff pd by (auto simp: self_map_def)
qed

lemma map_page:
  assumes inv: "pgt_inv m" and t: "has_table m va" "PD_INDEX va \<noteq> 1023" and free: "free_frames m \<noteq> {}"
  shows "\<exists>p pm' m'. phy_alloc_page (pmst m) = Inr (p, pm') \<and> p \<in> free_frames m
    \<and> set_mapping va p (PGFLAG_US OR PGFLAG_RW OR PGFLAG_PS) (m\<lparr>pmst := pm'\<rparr>) = Inr m'
    \<and> pgt_inv m' \<and> free_frames m' = free_frames m - {p} \<and> (\<forall>x. pde_of m' x = pde_of m x)
    \<and> (\<forall>x. PG x = PG va \<longrightarrow> walk m' x = Some (p + (x AND 4095)))
    \<and> (\<forall>x. PD_INDEX x \<noteq> 1023 \<and> (PG (pde_of m x) \<noteq> PG (pde_of m va) \<or> PT_INDEX x \<noteq> PT_INDEX va) \<longrightarrow> walk m' x = walk m x)"
proof -
  have pmi: "pm_inv (pmst m)" using inv by (simp add: pgt_inv_def)
  have "pm_taken (pmst m) \<noteq> pm_pool (pmst m)" using free by (auto simp: free_frames_def)
  from pm.alloc_some [OF pmi this] obtain p pm' where
    al: "phy_alloc_page (pmst m) = Inr (p, pm')" "pm_inv pm'" "pm_pool pm' = pm_pool (pmst m)"
      "p \<in> free_frames m" "pm_taken pm' = insert p (pm_taken (pmst m))" by (auto simp: free_frames_def)
  let ?m = "m\<lparr>pmst := pm'\<rparr>"
  note a = pgt_inv_alloc [OF inv al(2,3,5)]
  have p: "p AND 4095 = 0" using al(4) pm.pool_aligned [OF pmi] by (auto simp: free_frames_def)
  have pres: "bit (pde_of ?m va) 0" and ht: "has_table ?m va" using t(1) by (simp_all add: has_table_def a(3))
  have fl: "bit (7 :: u32) 0" "(7 :: u32) AND PG_MASK = 0" by (simp_all add: bit_0 PG_MASK_def)
  note wp = write_pte [OF a(1) t(2) pres p fl]
  let ?m' = "?m\<lparr>phys := (phys ?m)(PG (pde_of ?m va) + PT_INDEX va * 4 := p OR 7)\<rparr>"
  have "set_mapping va p (PGFLAG_US OR PGFLAG_RW OR PGFLAG_PS) ?m = Inr ?m'"
    using set_mapping_present [OF _ ht] a(1) wp(1) by (simp add: pgt_inv_def pg_flags)
  moreover have "walk ?m' x = walk m x" if "PD_INDEX x \<noteq> 1023" "PG (pde_of m x) \<noteq> PG (pde_of m va) \<or> PT_INDEX x \<noteq> PT_INDEX va" for x
    using walk_cong [OF wp(3), of x] wp(5) [OF that(1)] that(2) a(3,4) by simp
  moreover have "free_frames ?m' = free_frames m - {p}" using a(2) by (simp add: free_frames_def)
  moreover have "pde_of ?m' x = pde_of m x" for x using wp(3) [of x] a(3) by simp
  ultimately show ?thesis using al(1,4) wp(2,4) by blast
qed

text \<open>The pages that the fuel and the size of the program leave, and the frames they get.\<close>

lemma fill_table_ok:
  "pgt_inv m \<Longrightarrow> has_table m 0 \<Longrightarrow> i + r = N \<Longrightarrow> N \<le> 1024 \<Longrightarrow> r \<le> n \<Longrightarrow> r \<le> card (free_frames m) \<Longrightarrow>
   \<exists>fs m'. fill_table n (prog_page i) (prog_page N) m = Inr (prog_page N, m') \<and> length fs = r \<and> distinct fs
     \<and> set fs \<subseteq> free_frames m \<and> pgt_inv m' \<and> (\<forall>x. pde_of m' x = pde_of m x)
     \<and> (\<forall>k < r. \<forall>x. PG x = prog_page (i + k) \<longrightarrow> walk m' x = Some (fs ! k + (x AND 4095)))
     \<and> (\<forall>x. PD_INDEX x \<noteq> 1023 \<and> (PG (pde_of m x) \<noteq> PG (pde_of m 0) \<or> \<not> (i \<le> unat (PT_INDEX x) \<and> unat (PT_INDEX x) < N))
          \<longrightarrow> walk m' x = walk m x)"
proof (induction n arbitrary: i r m)
  case 0
  then show ?case by (intro exI [of _ "[]"] exI [of _ m]) simp
next
  case (Suc n)
  show ?case
  proof (cases r)
    case 0
    then show ?thesis using Suc.prems by (intro exI [of _ "[]"] exI [of _ m]) simp
  next
    case (Suc r')
    have i: "i < N" "i < 1024" using Suc Suc.prems(3,4) by simp_all
    have lt: "prog_page i < prog_page N" using i Suc.prems(4) by (simp add: word_less_nat_alt unat_prog_page)
    have ix: "PD_INDEX (prog_page i) = 0" "PT_INDEX (prog_page i) = word_of_nat i"
      using page_of_index [of 0 i] i by simp_all
    have z: "PD_INDEX 0 = 0" by (simp add: PD_INDEX_def)
    have ht: "has_table m (prog_page i)" using Suc.prems(2) by (simp add: has_table_def pde_of_def ix z)
    have ne: "PD_INDEX (prog_page i) \<noteq> 1023" by (simp add: ix)
    have "free_frames m \<noteq> {}" using Suc.prems(6) Suc by auto
    from map_page [OF Suc.prems(1) ht ne this] obtain p pm' m1 where
      m1: "phy_alloc_page (pmst m) = Inr (p, pm')" "p \<in> free_frames m"
        "set_mapping (prog_page i) p (PGFLAG_US OR PGFLAG_RW OR PGFLAG_PS) (m\<lparr>pmst := pm'\<rparr>) = Inr m1"
        "pgt_inv m1" "free_frames m1 = free_frames m - {p}" "\<forall>x. pde_of m1 x = pde_of m x"
        "\<forall>x. PG x = PG (prog_page i) \<longrightarrow> walk m1 x = Some (p + (x AND 4095))"
        "\<forall>x. PD_INDEX x \<noteq> 1023 \<and> (PG (pde_of m x) \<noteq> PG (pde_of m (prog_page i)) \<or> PT_INDEX x \<noteq> PT_INDEX (prog_page i)) \<longrightarrow> walk m1 x = walk m x"
      by blast
    have step: "fill_table (Suc n) (prog_page i) (prog_page N) m = fill_table n (prog_page (Suc i)) (prog_page N) m1"
      using lt m1(1,3) by (simp add: prog_page_next)
    have fin: "finite (free_frames m)" using Suc.prems(6) Suc card.infinite by fastforce
    have "r' \<le> card (free_frames m1)" using Suc.prems(6) Suc m1(2) fin by (simp add: m1(5))
    moreover have "has_table m1 0" using Suc.prems(2) m1(6) by (simp add: has_table_def)
    ultimately obtain fs m' where m': "fill_table n (prog_page (Suc i)) (prog_page N) m1 = Inr (prog_page N, m')"
      "length fs = r'" "distinct fs" "set fs \<subseteq> free_frames m1" "pgt_inv m'" "\<forall>x. pde_of m' x = pde_of m1 x"
      "\<forall>k < r'. \<forall>x. PG x = prog_page (Suc i + k) \<longrightarrow> walk m' x = Some (fs ! k + (x AND 4095))"
      "\<forall>x. PD_INDEX x \<noteq> 1023 \<and> (PG (pde_of m1 x) \<noteq> PG (pde_of m1 0) \<or> \<not> (Suc i \<le> unat (PT_INDEX x) \<and> unat (PT_INDEX x) < N))
          \<longrightarrow> walk m' x = walk m1 x"
      using Suc.IH [of m1 "Suc i" r'] Suc.prems(3-5) Suc m1(4) by auto
    have ui: "unat (word_of_nat i :: u32) = i" using i by (simp add: unat_word_of_nat_32)
    have pgi: "PG (prog_page i) = prog_page i"
      by (rule bit_word_eqI) (auto simp: PG_def page_of_def pg_bits)
    have first: "walk m' x = Some (p + (x AND 4095))" if "PG x = prog_page i" for x
    proof -
      have "PD_INDEX x = 0" "PT_INDEX x = word_of_nat i" using that ix by (metis PD_INDEX_PG, metis PT_INDEX_PG)
      then have "walk m' x = walk m1 x" using m'(8) ui by simp
      then show ?thesis using m1(7) that pgi by simp
    qed
    have rest: "walk m' x = walk m x"
      if x: "PD_INDEX x \<noteq> 1023" "PG (pde_of m x) \<noteq> PG (pde_of m 0) \<or> \<not> (i \<le> unat (PT_INDEX x) \<and> unat (PT_INDEX x) < N)" for x
    proof -
      have "walk m' x = walk m1 x" using m'(8) x m1(6) by auto
      moreover have "pde_of m (prog_page i) = pde_of m 0" by (simp add: pde_of_def ix z)
      moreover have "PG (pde_of m x) \<noteq> PG (pde_of m 0) \<or> PT_INDEX x \<noteq> word_of_nat i" using x(2) ui i by auto
      ultimately show ?thesis using m1(8) x(1) ix by auto
    qed
    have nth: "walk m' x = Some ((p # fs) ! k + (x AND 4095))" if "k < r" "PG x = prog_page (i + k)" for k x
      using that first m'(7) Suc by (cases k) auto
    have "length (p # fs) = r" "distinct (p # fs)" "set (p # fs) \<subseteq> free_frames m" "\<forall>x. pde_of m' x = pde_of m x"
      using m'(2,3,4,6) m1(2,5,6) Suc by auto
    then show ?thesis using m'(1,5) nth rest unfolding step by blast
  qed
qed

subsection \<open>Properties\<close>

text \<open>Exec() splits a line of at most 128 characters at its first space: what is before it is the command, which is
  looked up under /bin/ unless it begins with a separator, what is after it the one argument, spaces included; there are two
  arguments when it is not empty. A longer line runs over one of the three buffers, wherever its space is.\<close>

theorem exec_args_split:
  assumes "0 \<in> set f"
  shows "if length (cstr f) \<le> 128
    then \<exists>path param. exec_args f = Inr (path, param, if cmd_arg f = [] then 1 else 2)
      \<and> cstr path = cmd_path f \<and> 0 \<in> set path \<and> cstr param = cmd_arg f \<and> 0 \<in> set param
    else \<exists>msg. exec_args f = fault msg"
proof (cases "length (cstr f) \<le> 128")
  case True
  have w: "length (cmd_path f) < 256" using cmd_word_le [of f] True by (simp add: cmd_path_def)
  have a: "length (cmd_arg f) < 128" using cmd_word_le [of f] True unfolding cmd_arg_def length_drop by linarith
  have z: "0 \<notin> set (cmd_path f)" using zero_notin_parts(1) [of f] by (simp add: cmd_path_def)
  have e: "xs @ replicate (n - length xs) 0 = xs @ 0 # replicate (n - length xs - 1) 0" if "length xs < n" for xs :: "byte list" and n
    using that by (cases "n - length xs") simp_all
  show ?thesis unfolding if_P [OF True] exec_args_eq [OF assms True] e [OF w] e [OF a]
    using z zero_notin_parts(2) [of f] by simp
next
  case False
  then show ?thesis using exec_args_long [OF assms] by simp
qed

theorem exec_args_split_witness:
  "\<exists>path param. exec_args [108, 115, 32, 47, 98, 0] = Inr (path, param, 2) \<and> cstr path = [47, 98, 105, 110, 47, 108, 115]
    \<and> cstr param = [47, 98]"
  using exec_args_split [of "[108, 115, 32, 47, 98, 0]"] by (auto simp: cmd_path_def cmd_word_def cmd_arg_def cstr_def)

text \<open>C9: a program of N pages, at most 4 MB, gets N frames of its own, none of them used by anybody before, at addresses 0 on,
  when N + 1 frames are free (one may be needed for the table); every address outside the first 4 MB and outside the last
  4 MB, through which the tables themselves are seen, translates as before, and the invariant of the page tables is kept.\<close>

theorem exec_pages_fresh:
  assumes "pgt_inv m" and "N \<le> 1024" and "N + 1 \<le> card (free_frames m)"
  shows "\<exists>fs m'. exec_pages (prog_page N) m = Inr m' \<and> length fs = N \<and> distinct fs \<and> set fs \<subseteq> free_frames m \<and> pgt_inv m'
    \<and> (\<forall>k < N. \<forall>x. PG x = prog_page k \<longrightarrow> walk m' x = Some (fs ! k + (x AND 4095)))
    \<and> (\<forall>x. PD_INDEX x \<noteq> 0 \<and> PD_INDEX x \<noteq> 1023 \<longrightarrow> walk m' x = walk m x)"
proof (cases "N = 0")
  case True
  then show ?thesis using assms(1)
    by (intro exI [of _ "[]"] exI [of _ m]) (simp add: exec_pages_def amount_pgdir_def page_of_def)
next
  case False
  have u: "unat (prog_page N) = N * 4096" using assms(2) by (simp add: unat_prog_page)
  have "unat (prog_page N div MB4) = N div 1024" "unat (prog_page N mod MB4) = (N * 4096) mod (1024 * 4096)"
    by (simp_all add: unat_div unat_mod u MB4_def)
  moreover have "(N * 4096) mod (1024 * 4096) = (N mod 1024) * 4096" by (rule mult_mod_left [symmetric])
  ultimately have "prog_page N mod MB4 = 0 \<longleftrightarrow> N = 1024" "prog_page N div MB4 = (if N = 1024 then 1 else 0)"
    using assms(2) False by (auto simp: word_unat_eq_iff mod_eq_0_iff_dvd)
  then have am: "unat (amount_pgdir (prog_page N)) = Suc 0" unfolding amount_pgdir_def by (cases "N = 1024") simp_all
  have pmi: "pm_inv (pmst m)" using assms(1) by (simp add: pgt_inv_def)
  have fin: "finite (free_frames m)" using assms(3) card.infinite by fastforce
  have "pm_taken (pmst m) \<noteq> pm_pool (pmst m)" using assms(3) by (auto simp: free_frames_def)
  from pm.alloc_some [OF pmi this] obtain p pm' where
    al: "phy_alloc_page (pmst m) = Inr (p, pm')" "pm_inv pm'" "pm_pool pm' = pm_pool (pmst m)"
      "p \<in> free_frames m" "pm_taken pm' = insert p (pm_taken (pmst m))" by (auto simp: free_frames_def)
  have z: "PD_INDEX 0 = 0" "(PD_INDEX 0 :: u32) \<noteq> 1023" by (simp_all add: PD_INDEX_def)
  note nt = new_table [OF assms(1) z(2) al]
  let ?m1 = "m\<lparr>pmst := pm', phys := (phys m)(cr3 m + PD_INDEX 0 * 4 := p OR 7)\<rparr>"
  have p7: "PG (p OR 7) = p" by (rule PG_or_flags [OF nt(4)]) (simp add: PG_MASK_def)
  have b: "bit (p OR 7) 0" "bit (p OR 7) 2" by (simp_all add: bit_or_iff bit_numeral_rec)
  have ht: "has_table ?m1 0" unfolding has_table_def nt(3) using b by simp
  have ff: "free_frames ?m1 = free_frames m - {p}" using al(3,5) by (auto simp: free_frames_def)
  have "N \<le> card (free_frames ?m1)" using assms(3) al(4) fin by (simp add: ff)
  from fill_table_ok [OF nt(2) ht _ assms(2) _ this, of 0 1024] assms(2) obtain fs m' where
    m': "fill_table 1024 (prog_page 0) (prog_page N) ?m1 = Inr (prog_page N, m')" "length fs = N" "distinct fs"
      "set fs \<subseteq> free_frames ?m1" "pgt_inv m'" "\<forall>x. pde_of m' x = pde_of ?m1 x"
      "\<forall>k < N. \<forall>x. PG x = prog_page (0 + k) \<longrightarrow> walk m' x = Some (fs ! k + (x AND 4095))"
      "\<forall>x. PD_INDEX x \<noteq> 1023 \<and> (PG (pde_of ?m1 x) \<noteq> PG (pde_of ?m1 0) \<or> \<not> (0 \<le> unat (PT_INDEX x) \<and> unat (PT_INDEX x) < N))
          \<longrightarrow> walk m' x = walk ?m1 x" by auto
  have f7: "PGFLAG_US OR PGFLAG_RW OR PGFLAG_PS = 7" by (simp add: pg_flags)
  have pp0: "prog_page 0 = 0" by (simp add: page_of_def)
  have run: "exec_pages (prog_page N) m = Inr m'"
    using al(1) nt(1) m'(1) unfolding exec_pages_def am by (simp add: f7 pp0 MB4_def)
  have same: "walk m' x = walk m x" if x: "PD_INDEX x \<noteq> 0" "PD_INDEX x \<noteq> 1023" for x
  proof -
    have pd: "pde_of m' x = pde_of m x" "pde_of ?m1 x = pde_of m x" using m'(6) nt(3) [of x] x z by simp_all
    show ?thesis
    proof (cases "bit (pde_of m x) 0")
      case True
      from nt(5) [OF True x(2)] x(1) have o: "pte_of ?m1 x = pte_of m x" "PG (pde_of m x) \<noteq> p" by (simp_all add: z)
      have "PG (pde_of ?m1 x) \<noteq> PG (pde_of ?m1 0)" using o(2) x z(1) unfolding nt(3) by (simp add: p7)
      then have "walk m' x = walk ?m1 x" using m'(8) x(2) by blast
      also have "\<dots> = walk m x" using walk_cong [of ?m1 x m] pd(2) o(1) by blast
      finally show ?thesis .
    next
      case False
      then show ?thesis using pd(1) by (simp add: walk_def)
    qed
  qed
  show ?thesis using run m'(2,3,4,5,7) same ff by (intro exI [of _ fs] exI [of _ m']) auto
qed

theorem exec_pages_fresh_witness:
  "\<exists>fs m'. exec_pages (prog_page 2) mc_sample = Inr m' \<and> length fs = 2 \<and> distinct fs \<and> set fs \<subseteq> free_frames mc_sample \<and> pgt_inv m'
    \<and> (\<forall>k < 2. \<forall>x. PG x = prog_page k \<longrightarrow> walk m' x = Some (fs ! k + (x AND 4095)))
    \<and> (\<forall>x. PD_INDEX x \<noteq> 0 \<and> PD_INDEX x \<noteq> 1023 \<longrightarrow> walk m' x = walk mc_sample x)"
  by (rule exec_pages_fresh [OF mc_sample_inv(1)]) (use mc_sample_frames in simp_all)

end
