(* ===== verification/Commands.thy ===== *)
theory Commands
  imports Exec Interrupts
begin

section \<open>user: the system calls and the built-in programs\<close>

text \<open>
  The stubs of user/user.c put the number of the call into eax and trap; the kernel takes the function
  out of its table. The built-in programs run on these: their file operations act on the state of theory
  Dir, what they print goes to the screen. A block of alloc() is an argument, with whatever it holds.
\<close>

definition cstring :: "string \<Rightarrow> byte list" where
  "cstring s = map of_char s @ [0]"

subsection \<open>user/user.c\<close>

text \<open>\<open>fn\<close> is the function whose number the stub passes, \<open>f\<close> what the kernel does when it calls it.\<close>

definition syscall_entry :: "syscall_fn \<Rightarrow> ('s \<Rightarrow> 'a res) \<Rightarrow> 's \<Rightarrow> 'a res" where
  "syscall_entry fn f s =
     bindr (syscall syscall_init (syscall_num fn)) (\<lambda>g. if g = fn then f s else fault ''another system call'')"

lemma syscall_entry_eq [simp]: "syscall_entry fn f s = f s"
  by (simp add: syscall_entry_def syscall_table)

definition sys_create :: "byte list \<Rightarrow> vfs \<Rightarrow> (int \<times> vfs) res" where
  "sys_create filename v = syscall_entry Files_create (files_create filename) v"

text \<open>The fuel is that of the recursion over the subdirectories.\<close>

definition sys_remove :: "nat \<Rightarrow> byte list option \<Rightarrow> vfs \<Rightarrow> (int \<times> vfs) res" where
  "sys_remove fuel filename v =
     syscall_entry Files_remove (\<lambda>v. case files_remove fuel filename v of None \<Rightarrow> Inl Spin | Some r \<Rightarrow> r) v"

definition sys_open :: "byte list option \<Rightarrow> vfs \<Rightarrow> (u32 \<times> vfs) res" where
  "sys_open filename v = syscall_entry Files_open (files_open filename) v"

definition sys_close :: "u32 \<Rightarrow> vfs \<Rightarrow> vfs res" where
  "sys_close fd v = syscall_entry Files_close (\<lambda>v. bindr (files_close fd (v_sys v)) (\<lambda>s. Inr (set_sys s v))) v"

definition sys_read :: "(cclbuff \<Rightarrow> cclbuff res) \<Rightarrow> u32 \<Rightarrow> byte list option \<Rightarrow> u32 \<Rightarrow> vfs \<Rightarrow> (byte list \<times> vfs) res" where
  "sys_read slp fd buf count v =
     syscall_entry Files_read (\<lambda>v. bindr (files_read slp fd buf count (v_sys v)) (\<lambda>(buf, s). Inr (buf, set_sys s v))) v"

definition sys_write :: "u32 \<Rightarrow> byte list option \<Rightarrow> u32 \<Rightarrow> vfs \<Rightarrow> vfs res" where
  "sys_write fd buf count v =
     syscall_entry Files_write (\<lambda>v. bindr (files_write fd buf count (v_sys v)) (\<lambda>s. Inr (set_sys s v))) v"

definition sys_printf :: "byte list \<Rightarrow> karg list \<Rightarrow> vfs \<Rightarrow> vfs res" where
  "sys_printf fmt args v =
     syscall_entry Kprintf (\<lambda>v. bindr (kprintf fmt args (v_out v)) (\<lambda>w. Inr (v\<lparr>v_out := w\<rparr>))) v"

text \<open>The stub hands its own return address to fork() as the entry of the child.\<close>

definition sys_fork :: "u32 \<Rightarrow> u32 \<Rightarrow> u32 \<Rightarrow> threads \<Rightarrow> (u32 \<times> threads) res" where
  "sys_fork mode_ring3 isr_part3 ret_addr s = syscall_entry syscall_fn.Fork (fork mode_ring3 isr_part3 ret_addr) s"

text \<open>The lock is a word of the stub's stack, which is 0; \<open>temp_spinlock\<close> is its address.\<close>

definition sys_wait :: "u32 \<Rightarrow> tasks \<Rightarrow> (outcome \<times> spinlock \<times> tasks) res" where
  "sys_wait temp_spinlock s = syscall_entry Wait_child (wait_child (Some temp_spinlock) unlocked) s"

definition sys_exit :: "u32 \<Rightarrow> threads \<Rightarrow> (outcome \<times> threads) res" where
  "sys_exit nul s = syscall_entry Exit (exit_task nul) s"

definition sys_cd :: "byte list option \<Rightarrow> vfs \<Rightarrow> (int \<times> vfs) res" where
  "sys_cd dir v = syscall_entry Dir_change (dir_change dir) v"

definition sys_exec :: "(cclbuff \<Rightarrow> cclbuff res) \<Rightarrow> u32 \<Rightarrow> u32 \<Rightarrow> u32 \<Rightarrow> (nat \<Rightarrow> byte) \<Rightarrow> byte list option \<Rightarrow> system \<Rightarrow> (exec_end \<times> system) res" where
  "sys_exec slp nul argv next_insc memory program s =
     syscall_entry syscall_fn.Exec (exec slp nul argv next_insc memory program) s"

definition sys_ls :: "byte list option \<Rightarrow> vfs \<Rightarrow> (int \<times> vfs) res" where
  "sys_ls dir_or_file v = syscall_entry Files_list (files_list dir_or_file) v"

definition sys_alloc :: "u32 \<Rightarrow> threads \<Rightarrow> (u32 option \<times> threads) res" where
  "sys_alloc sz s = syscall_entry Dyn_alloc (dyn_alloc sz) s"

definition sys_free :: "u32 option \<Rightarrow> threads \<Rightarrow> threads res" where
  "sys_free ptr s = syscall_entry Dyn_free (dyn_free ptr) s"

definition sys_workingdir :: "byte list \<Rightarrow> nat \<Rightarrow> vfs \<Rightarrow> (int \<times> byte list) res" where
  "sys_workingdir wd len v = syscall_entry Dir_get_current (dir_get_current wd len) v"

subsection \<open>mkdir, touch and rm\<close>

definition MAX_PATH_LEN :: nat where "MAX_PATH_LEN = 512"

text \<open>
  The argument as an absolute path, in the block \<open>mem\<close>; None when there is no working directory.
  The length of the argument is not compared with that of the block.
\<close>

definition absolute_arg :: "byte list \<Rightarrow> byte list \<Rightarrow> vfs \<Rightarrow> byte list option res" where
  "absolute_arg mem arg v =
     bindr (bzero mem (Some 0) MAX_PATH_LEN) (\<lambda>apath.
     bindr (read_at ''argv[1]'' arg 0) (\<lambda>c.
     if c \<noteq> DIRNAME_ROOT_ASCII then
       bindr (sys_workingdir apath MAX_PATH_LEN v) (\<lambda>(r, apath).
       if r \<noteq> 0 then Inr None
       else bindr (append_str apath arg) (\<lambda>apath. Inr (Some apath)))
     else
       bindr (strlen arg) (\<lambda>n. bindr (memcpy_loop apath 0 arg 0 n) (\<lambda>apath. Inr (Some apath)))))"

definition given :: "'a option \<Rightarrow> 'a res" where
  "given p = (case p of None \<Rightarrow> fault ''access of address 0'' | Some x \<Rightarrow> Inr x)"

definition arg_at :: "byte list option list \<Rightarrow> int \<Rightarrow> byte list res" where
  "arg_at argv i = bindr (read_at ''argv'' argv i) given"

definition main_mkdir :: "byte list \<Rightarrow> int \<Rightarrow> byte list option list \<Rightarrow> vfs \<Rightarrow> vfs res" where
  "main_mkdir mem argc argv v =
     (if argc = 1 then sys_printf (cstring (''mkdir: missing operand'' @ [CHR 0x0A])) [] v
      else
        bindr (arg_at argv 1) (\<lambda>arg.
        bindr (absolute_arg mem arg v) (\<lambda>apath.
        case apath of
          None \<Rightarrow> sys_printf (cstring (''mkdir: failed to get the current working directory'' @ [CHR 0x0A])) [] v
        | Some apath \<Rightarrow>
            bindr (strlen apath) (\<lambda>len.
            bindr (read_at ''abs'' apath (int len - 1)) (\<lambda>c.
            bindr (if c \<noteq> DIRNAME_ROOT_ASCII then
                bindr (write_at ''abs'' apath (int len) DIRNAME_ROOT_ASCII) (\<lambda>apath. write_at ''abs'' apath (int len + 1) 0)
              else Inr apath) (\<lambda>apath.
            bindr (sys_create apath v) (\<lambda>(ret, v).
            if ret = - 1 then sys_printf (cstring (''mkdir: directory was existed'' @ [CHR 0x0A])) [] v
            else Inr v)))))))"

definition main_touch :: "byte list \<Rightarrow> int \<Rightarrow> byte list option list \<Rightarrow> vfs \<Rightarrow> vfs res" where
  "main_touch mem argc argv v =
     (if argc = 1 then sys_printf (cstring (''touch: missing operand'' @ [CHR 0x0A])) [] v
      else
        bindr (arg_at argv 1) (\<lambda>arg.
        bindr (absolute_arg mem arg v) (\<lambda>apath.
        case apath of
          None \<Rightarrow> sys_printf (cstring (''touch: failed to get the current working directory'' @ [CHR 0x0A])) [] v
        | Some apath \<Rightarrow>
            bindr (strlen apath) (\<lambda>len.
            bindr (read_at ''abs'' apath (int len - 1)) (\<lambda>c.
            bindr (if c = DIRNAME_ROOT_ASCII then write_at ''abs'' apath (int len - 1) 0 else Inr apath) (\<lambda>apath.
            bindr (sys_create apath v) (\<lambda>(ret, v).
            if ret = - 1 then sys_printf (cstring (''mkdir: file was existed'' @ [CHR 0x0A])) [] v
            else Inr v)))))))"

definition main_rm :: "nat \<Rightarrow> byte list \<Rightarrow> int \<Rightarrow> byte list option list \<Rightarrow> vfs \<Rightarrow> vfs res" where
  "main_rm fuel mem argc argv v =
     bindr (if argc = 1 then Inr True
       else if argc > 1 then bindr (read_at ''argv'' argv 1) (\<lambda>a. Inr (a = None)) else Inr False) (\<lambda>missing.
     if missing then sys_printf (cstring (''rm: missing operand'' @ [CHR 0x0A])) [] v
     else
       bindr (arg_at argv 1) (\<lambda>arg.
       bindr (absolute_arg mem arg v) (\<lambda>apath.
       case apath of
         None \<Rightarrow> sys_printf (cstring (''rm: failed to get the current working directory'' @ [CHR 0x0A])) [] v
       | Some apath \<Rightarrow>
           bindr (sys_remove fuel (Some apath) v) (\<lambda>(ret, v).
           if ret = - 1 then sys_printf (cstring (''rm: no parent directory'' @ [CHR 0x0A])) [] v
           else if ret = - 2 then sys_printf (cstring (''rm: invalid parent directory'' @ [CHR 0x0A])) [] v
           else if ret = - 3 then sys_printf (cstring (''rm: no such file or directory'' @ [CHR 0x0A])) [] v
           else Inr v))))"

subsection \<open>cd, ls and pwd\<close>

definition main_cd :: "int \<Rightarrow> byte list option list \<Rightarrow> vfs \<Rightarrow> vfs res" where
  "main_cd argc argv v =
     bindr (if argc > 1 then read_at ''argv'' argv 1 else Inr None) (\<lambda>param.
     bindr (sys_cd param v) (\<lambda>(ret, v).
     if ret = - 1 then
       bindr (given param) (\<lambda>p.
       sys_printf (cstring (''cd: '' @ [CHR 0x22] @ ''%s'' @ [CHR 0x22] @ '' No such file or directory'' @ [CHR 0x0A])) [KStr p] v)
     else if ret = - 2 then
       bindr (given param) (\<lambda>p.
       sys_printf (cstring (''cd: '' @ [CHR 0x22] @ ''%s'' @ [CHR 0x22] @ '' The given path is a file'' @ [CHR 0x0A])) [KStr p] v)
     else Inr v))"

definition main_ls :: "int \<Rightarrow> byte list option list \<Rightarrow> vfs \<Rightarrow> vfs res" where
  "main_ls argc argv v =
     bindr (if argc > 1 then read_at ''argv'' argv 1 else Inr None) (\<lambda>param.
     bindr (sys_ls param v) (\<lambda>(ret, v).
     if ret = - 1 then
       bindr (given param) (\<lambda>p.
       sys_printf (cstring (''ls: '' @ [CHR 0x22] @ ''%s'' @ [CHR 0x22] @ '' No such file or directory'' @ [CHR 0x0A])) [KStr p] v)
     else Inr v))"

definition main_pwd :: "byte list \<Rightarrow> vfs \<Rightarrow> vfs res" where
  "main_pwd mem v =
     bindr (sys_workingdir mem 512 v) (\<lambda>(r, wd).
     if r = 0 then sys_printf (cstring (''%s'' @ [CHR 0x0A])) [KStr wd] v
     else sys_printf (cstring (''pwd: cannot get current directory'' @ [CHR 0x0A])) [] v)"

subsection \<open>shell\<close>

definition MAX_CMD_LEN :: nat where "MAX_CMD_LEN = 128"

text \<open>
  Reading a command: \<open>i\<close> characters stand in the buffer. The result says whether the command was
  too long; then the rest of the line is still to be read. The fuel bounds the number of keys.
\<close>

definition read_key :: "(cclbuff \<Rightarrow> cclbuff res) \<Rightarrow> vfs \<Rightarrow> (byte \<times> vfs) res" where
  "read_key slp v = bindr (sys_read slp FD_STDIN (Some [0]) 1 v) (\<lambda>(buf, v). bindr (read_at ''ch'' buf 0) (\<lambda>ch. Inr (ch, v)))"

definition echo_key :: "(byte list \<Rightarrow> karg list \<Rightarrow> 'w \<Rightarrow> 'w res) \<Rightarrow> byte \<Rightarrow> nat \<Rightarrow> 'w \<Rightarrow> (nat \<times> 'w) res" where
  "echo_key outp ch i w =
     (if ch \<noteq> 8 then bindr (outp (cstring ''%c'') [KWord (scast ch)] w) (\<lambda>w. Inr (i, w))
      else if i > 0 then bindr (outp [8, 0] [] w) (\<lambda>w. Inr (i - 1, w))
      else Inr (i, w))"

definition is_text :: "byte \<Rightarrow> bool" where
  "is_text ch \<longleftrightarrow> 32 \<le> sint ch \<and> sint ch \<le> 126"

fun shell_line :: "('w \<Rightarrow> (byte \<times> 'w) res) \<Rightarrow> (byte list \<Rightarrow> karg list \<Rightarrow> 'w \<Rightarrow> 'w res) \<Rightarrow> nat \<Rightarrow> nat \<Rightarrow> byte list \<Rightarrow> 'w
    \<Rightarrow> (nat \<times> bool \<times> byte list \<times> 'w) res" where
  "shell_line rd outp 0 i cmdbuf w = Inl Spin"
| "shell_line rd outp (Suc n) i cmdbuf w =
     bindr (rd w) (\<lambda>(ch, w).
     bindr (echo_key outp ch i w) (\<lambda>(i, w).
     if is_text ch then
       if i < MAX_CMD_LEN then
         bindr (write_at ''command'' cmdbuf (int i) ch) (\<lambda>cmdbuf. shell_line rd outp n (i + 1) cmdbuf w)
       else
         bindr (outp (cstring ('' (Command beyond %d characters!)'' @ [CHR 0x0A])) [KWord (word_of_nat MAX_CMD_LEN)] w) (\<lambda>w.
         Inr (i, True, cmdbuf, w))
     else if ch \<noteq> 10 then shell_line rd outp n i cmdbuf w
     else Inr (i, False, cmdbuf, w)))"

text \<open>One round of the shell up to the fork: the command for the child, or None for the next round.\<close>

definition shell_round :: "('w \<Rightarrow> (byte \<times> 'w) res) \<Rightarrow> (byte list \<Rightarrow> karg list \<Rightarrow> 'w \<Rightarrow> 'w res) \<Rightarrow> nat \<Rightarrow> byte list \<Rightarrow> 'w
    \<Rightarrow> (byte list option \<times> byte list \<times> 'w) res" where
  "shell_round rd outp fuel cmdbuf w =
     bindr (outp (cstring ''%s '') [KStr (cstring ''[hoo]'')] w) (\<lambda>w.
     bindr (shell_line rd outp fuel 0 cmdbuf w) (\<lambda>(i, flong, cmdbuf, w).
     if flong \<or> i = 0 then Inr (None, cmdbuf, w)
     else bindr (write_at ''command'' cmdbuf (int i) 0) (\<lambda>cmdbuf. Inr (Some cmdbuf, cmdbuf, w))))"

definition main_shell_round :: "(cclbuff \<Rightarrow> cclbuff res) \<Rightarrow> nat \<Rightarrow> byte list \<Rightarrow> vfs \<Rightarrow> (byte list option \<times> byte list \<times> vfs) res" where
  "main_shell_round slp fuel cmdbuf v = shell_round (read_key slp) sys_printf fuel cmdbuf v"

end
