(* ===== verification/Command_Props.thy ===== *)
theory Command_Props
  imports Commands Dir_Props Format_Props
begin

section \<open>Properties of the built-in programs\<close>

text \<open>
  What mkdir and touch create in the working directory, and which command the shell reads from the
  keyboard. The shell is proved once over a terminal, a locale, and the keyboard buffer with the
  screen is its interpretation.
\<close>

subsection \<open>The path of an argument\<close>

text \<open>The task works in the directory with the components \<open>cs\<close>.\<close>

definition works_in :: "vfs \<Rightarrow> byte list list \<Rightarrow> bool" where
  "works_in v cs \<longleftrightarrow> (\<exists>cd dir. cur_curdir v = Inr cd \<and> cd_dir cd = Some dir \<and> length dir = 4096 \<and> slots_hold dir 0 ([] # cs))"

lemma append_str_zeros:
  assumes "0 \<notin> set p" and "0 \<notin> set c" and "length p + length c < n"
  shows "append_str (p @ replicate (n - length p) 0) (c @ 0 # junk) = Inr (p @ c @ replicate (n - length p - length c) 0)"
proof -
  have "p @ replicate (n - length p) 0 = p @ 0 # replicate (n - length p - 1) 0" using assms(3) by (cases "n - length p") auto
  then have "strlen (p @ replicate (n - length p) 0) = Inr (length p)" using strlen_cstr [of "p @ 0 # _"] assms(1) by simp
  moreover have "strlen (c @ 0 # junk) = Inr (length c)" using strlen_cstr [of "c @ 0 # junk"] assms(2) by simp
  moreover have "memcpy_loop (p @ replicate (n - length p) 0) (length p) (c @ 0 # junk) 0 (length c)
      = Inr (p @ c @ replicate (n - length p - length c) 0)"
    using assms(3) by (subst memcpy_loop_eq) simp_all
  ultimately show ?thesis by (simp add: append_str_def)
qed

lemma absolute_arg_eq:
  assumes mem: "length mem = 512" and w: "works_in v cs" and ok: "\<forall>x \<in> set cs. comp_ok x" "length cs < 255"
    and c: "c \<noteq> []" "hd c \<noteq> 47" "0 \<notin> set c" and len: "length (path_of cs) + length c < 510"
  shows "absolute_arg mem (c @ 0 # junk) v = Inr (Some (47 # path_of cs @ c @ replicate (511 - length (path_of cs) - length c) 0))"
proof -
  obtain cd dir where cd: "cur_curdir v = Inr cd" "cd_dir cd = Some dir" "length dir = 4096" "slots_hold dir 0 ([] # cs)"
    using w by (auto simp: works_in_def)
  let ?p = "47 # path_of cs"
  have p: "path_of ([] # cs) = ?p" "0 \<notin> set ?p" using ok(1) by (auto simp: path_of_def comp_ok_def)
  have z: "bzero mem (Some 0) MAX_PATH_LEN = Inr (replicate 512 0)" using bzero_whole [of mem] mem by (simp add: MAX_PATH_LEN_def)
  have "curdir_get (Some cd) (replicate 512 0) 512 = Inr (0, ?p @ 0 # drop (Suc (length ?p)) (replicate 512 0))"
    using curdir_get_eq [OF cd(2,3) _ _ cd(4), of 512 "replicate 512 0"] ok len p by (simp add: comp_ok_def)
  also have "0 # drop (Suc (length ?p)) (replicate 512 0) = replicate (512 - length ?p) (0 :: byte)"
    using len by (simp flip: replicate_Suc)
  finally have g: "sys_workingdir (replicate 512 0) MAX_PATH_LEN v = Inr (0, ?p @ replicate (512 - length ?p) 0)"
    using cd(1) by (simp add: sys_workingdir_def dir_get_current_def MAX_PATH_LEN_def)
  have a: "append_str (?p @ replicate (512 - length ?p) 0) (c @ 0 # junk) = Inr (?p @ c @ replicate (512 - length ?p - length c) 0)"
    by (rule append_str_zeros [OF p(2) c(3)]) (use len in simp)
  have r: "read_at ''argv[1]'' (c @ 0 # junk) 0 = Inr (hd c)" using read_at_nat [of 0 "c @ 0 # junk"] c(1) by (cases c) simp_all
  show ?thesis using c(2) a by (simp add: absolute_arg_def z r g DIRNAME_ROOT_ASCII_def)
qed

text \<open>The block that mkdir gives to the kernel ends with a separator, the one of touch does not.\<close>

lemma strlen_at: "0 \<notin> set q \<Longrightarrow> strlen (q @ 0 # x) = Inr (length q)"
  using strlen_cstr [of "q @ 0 # x"] by simp

lemma read_last: "p \<noteq> [] \<Longrightarrow> read_at w (p @ xs) (int (length p) - 1) = Inr (List.last p)"
  by (cases p rule: rev_cases) (simp_all add: read_at_def nth_append)

lemma mkdir_eq:
  assumes a: "absolute_arg mem arg v = Inr (Some (p @ t @ replicate n 0))" "arg_at argv 1 = Inr arg" "argc \<noteq> 1"
    and p: "0 \<notin> set p" "p \<noteq> []" "List.last p \<noteq> 47" "t = [] \<or> t = [47]" "2 \<le> n"
    and r: "files_create (p @ 47 # 0 # replicate (n + length t - 2) 0) v = Inr (0, v')"
  shows "main_mkdir mem argc argv v = Inr v'"
proof (cases "t = []")
  case True
  obtain k where n: "n = Suc (Suc k)" using p(5) by (cases n) (auto simp: Suc_le_eq gr0_conv_Suc)
  have s: "strlen (p @ replicate n 0) = Inr (length p)" using strlen_at [of p "replicate (Suc k) 0"] p(1) n by simp
  note l = read_last [OF p(2)]
  have w: "write_at ''abs'' (p @ replicate n 0) (int (length p)) 47 = Inr (p @ 47 # replicate (Suc k) 0)"
    "write_at ''abs'' (p @ 47 # replicate (Suc k) 0) (int (length p) + 1) 0 = Inr (p @ 47 # 0 # replicate k 0)"
    using write_at_nat [of "length p" "p @ replicate n 0"] write_at_nat [of "Suc (length p)" "p @ 47 # replicate (Suc k) 0"] n
    by (simp_all add: list_update_append add.commute)
  show ?thesis using a p(3) r True n w s l
    by (simp add: main_mkdir_def sys_create_def DIRNAME_ROOT_ASCII_def)
next
  case False
  then have t: "t = [47]" using p(4) by simp
  obtain k where n: "n = Suc k" using p(5) by (cases n) auto
  have s: "strlen (p @ 47 # replicate n 0) = Inr (Suc (length p))" using strlen_at [of "p @ [47]" "replicate k 0"] p(1) n by simp
  have l: "read_at ''abs'' (p @ 47 # replicate n 0) (int (length p)) = Inr 47"
    using read_at_nat [of "length p" "p @ 47 # replicate n 0" "''abs''"] by simp
  show ?thesis using a r t n s l by (simp add: main_mkdir_def sys_create_def DIRNAME_ROOT_ASCII_def)
qed

lemma touch_eq:
  assumes a: "absolute_arg mem arg v = Inr (Some (p @ t @ replicate n 0))" "arg_at argv 1 = Inr arg" "argc \<noteq> 1"
    and p: "0 \<notin> set p" "p \<noteq> []" "List.last p \<noteq> 47" "t = [] \<or> t = [47]" "1 \<le> n"
    and r: "files_create (p @ 0 # replicate (n + length t - 1) 0) v = Inr (0, v')"
  shows "main_touch mem argc argv v = Inr v'"
proof (cases "t = []")
  case True
  obtain k where n: "n = Suc k" using p(5) by (cases n) auto
  have s: "strlen (p @ replicate n 0) = Inr (length p)" using strlen_at [of p "replicate k 0"] p(1) n by simp
  note l = read_last [OF p(2)]
  show ?thesis using a p(3) r True n s l
    by (simp add: main_touch_def sys_create_def DIRNAME_ROOT_ASCII_def)
next
  case False
  then have t: "t = [47]" using p(4) by simp
  obtain k where n: "n = Suc k" using p(5) by (cases n) auto
  have s: "strlen (p @ 47 # replicate n 0) = Inr (Suc (length p))" using strlen_at [of "p @ [47]" "replicate k 0"] p(1) n by simp
  have l: "read_at ''abs'' (p @ 47 # replicate n 0) (int (length p)) = Inr 47"
    using read_at_nat [of "length p" "p @ 47 # replicate n 0" "''abs''"] by simp
  have w: "write_at ''abs'' (p @ 47 # replicate n 0) (int (length p)) 0 = Inr (p @ 0 # replicate n 0)"
    using write_at_nat [of "length p" "p @ 47 # replicate n 0"] by (simp add: list_update_append)
  show ?thesis using a r t n s l w by (simp add: main_touch_def sys_create_def DIRNAME_ROOT_ASCII_def)
qed

text \<open>C21: mkdir and touch create where the task works. For a name without separators that is not yet in the working
  directory, given with or without a separator behind it, mkdir creates a directory and touch a file of that name there:
  neither prints anything, and the kernel finds the new item under its absolute path. The absolute path has at most 15
  bytes with a separator behind it, an inode and four blocks are free, and the working directory has room.\<close>

theorem mkdir_touch_create:
  assumes "fs_inv (v_fs v)" and "v_root v = Some r" and "path_ok cs c t" and "length (full_path cs c [47]) < 16"
    and "walkable (v_fs v) r cs" and "lookup_dir (v_fs v) r cs = Some d" and "dir_ok (v_fs v) (unat (di_inode d))"
    and "search_dir (v_fs v) d c = None" and "dir_size (v_fs v) (unat (di_inode d)) + 22 < 21 * 16518"
    and "bm_bits (fs_imap (v_fs v)) \<noteq> {..<64}" and "card (used_blocks (v_fs v)) + 4 \<le> NBLOCKS"
    and "works_in v cs" and "length mem = 512" and "argc \<noteq> 1" and "arg_at argv 1 = Inr (c @ t @ 0 # junk)"
  shows "(\<exists>j g. main_mkdir mem argc argv v = Inr (set_fs g v) \<and> created_in (v_fs v) g d INODE_TYPE_DIR j c
        \<and> (\<forall>x. diritem_find (Some r) (Some (full_path cs c [] @ 0 # x)) (Some diritem0) g = Inr (True, mk_item INODE_TYPE_DIR j c, g)))
    \<and> (\<exists>j g. main_touch mem argc argv v = Inr (set_fs g v) \<and> created_in (v_fs v) g d INODE_TYPE_FILE j c
        \<and> (\<forall>x. diritem_find (Some r) (Some (full_path cs c [] @ 0 # x)) (Some diritem0) g = Inr (True, mk_item INODE_TYPE_FILE j c, g)))"
proof -
  have c: "c \<noteq> []" "47 \<notin> set c" "0 \<notin> set c" "t = [] \<or> t = [47]" using assms(3) by (simp_all add: path_ok_def)
  have ok: "path_ok cs c [47]" "path_ok cs c []" using assms(3) by (simp_all add: path_ok_def)
  have len: "length (path_of cs) + length c < 14" using assms(4) by (simp add: full_path_def)
  have sz: "length x < length (path_of cs)" if "x \<in> set cs" for x
    using that by (induction cs) (auto simp: path_of_def)
  have "comp_ok x" if "x \<in> set cs" for x
    using assms(3) sz [OF that] len that by (auto simp: comp_ok_def path_ok_def)
  moreover have "length cs \<le> length (path_of cs)" by (induction cs) (auto simp: path_of_def)
  ultimately have cs: "\<forall>x \<in> set cs. comp_ok x" "length cs < 255" using len by auto
  have "hd c \<noteq> 47" using hd_in_set [OF c(1)] c(2) by metis
  then have h: "c @ t \<noteq> []" "hd (c @ t) \<noteq> 47" "0 \<notin> set (c @ t)" using c by (auto simp: hd_append)
  let ?p = "full_path cs c []" and ?n = "511 - length (path_of cs) - length (c @ t)"
  have lt: "length t \<le> 1" using c(4) by auto
  then have "length (path_of cs) + length (c @ t) < 510" using len by simp
  from absolute_arg_eq [OF assms(13,12) cs h this, of junk]
  have a: "absolute_arg mem (c @ t @ 0 # junk) v = Inr (Some (?p @ t @ replicate ?n 0))" by (simp add: full_path_def)
  have p: "0 \<notin> set ?p" "?p \<noteq> []" "List.last ?p \<noteq> 47"
    using path_okD(1) [OF ok(2)] c(1,2) by (auto simp: full_path_def dest: last_in_set)
  have n: "2 \<le> ?n" "1 \<le> ?n" using len lt by simp_all
  have fp: "full_path cs c [47] @ 0 # x = ?p @ 47 # 0 # x" for x by (simp add: full_path_def)
  obtain j g where m: "files_create (?p @ 47 # 0 # replicate (?n + length t - 2) 0) v = Inr (0, set_fs g v)"
      "created_in (v_fs v) g d (kind_of [47]) j c"
    using files_create_run [OF assms(1,2) ok(1) assms(4) assms(5-11), of "replicate (?n + length t - 2) 0"] unfolding fp by blast
  have l16: "length (full_path cs c []) < 16" using len by (simp add: full_path_def)
  obtain j' g' where f: "files_create (?p @ 0 # replicate (?n + length t - 1) 0) v = Inr (0, set_fs g' v)"
      "created_in (v_fs v) g' d (kind_of []) j' c"
    using files_create_run [OF assms(1,2) ok(2) l16 assms(5-11), of "replicate (?n + length t - 1) 0"] by blast
  have "main_mkdir mem argc argv v = Inr (set_fs g v)" by (rule mkdir_eq [OF a assms(15,14) p c(4) n(1) m(1)])
  moreover have "main_touch mem argc argv v = Inr (set_fs g' v)" by (rule touch_eq [OF a assms(15,14) p c(4) n(2) f(1)])
  moreover have find: "diritem_find (Some r) (Some (full_path cs c [] @ 0 # x)) (Some diritem0) h = Inr (True, mk_item ty i c, h)"
    if cin: "created_in (v_fs v) h d ty i c" for h ty i x
  proof -
    have l: "length c < 16" using len by simp
    have "resolve h r (cs @ [c]) = Some (mk_item ty i c)" "walkable h r (cs @ [c])"
      using created_resolves [OF cin refl _ c(3) l assms(5-8)] by simp_all
    moreover have "fs_inv h" using cin by (simp add: created_in_def)
    ultimately show ?thesis using find_full [OF _ ok(2), of h r x diritem0] by simp
  qed
  moreover have "kind_of [47] = INODE_TYPE_DIR" "kind_of [] = INODE_TYPE_FILE" by (simp_all add: kind_of_def)
  ultimately show ?thesis using m(2) f(2) find [of g INODE_TYPE_DIR j] find [of g' INODE_TYPE_FILE j']
    by (intro conjI; simp only:) blast+
qed

text \<open>The sample disk, the task in its root directory.\<close>

definition vfs_root :: vfs where
  "vfs_root = vfs_sample\<lparr>v_curdirs := [\<lparr>cd_dir = Some (47 # replicate 4095 0), cd_dirlen = 4096\<rparr>]\<rparr>"

lemma vfs_root_works: "works_in vfs_root []"
proof -
  have "cur_curdir vfs_root = Inr \<lparr>cd_dir = Some (47 # replicate 4095 0), cd_dirlen = 4096\<rparr>"
    by (simp add: cur_curdir_def vfs_root_def vfs_sample_def thread_curdir_get_def MAX_TASKS_AMOUNT_def read_at_def)
  moreover have "slots_hold (47 # replicate 4095 0) 0 [[]]" by (simp add: slots_hold_def numeral_2_eq_2)
  ultimately show ?thesis by (auto simp: works_in_def)
qed

theorem mkdir_touch_create_witness:
  "(\<exists>j g. main_mkdir (replicate 512 7) 2 [None, Some ([97] @ [47] @ 0 # [])] vfs_root = Inr (set_fs g vfs_root)
      \<and> created_in dir_sample g root_item INODE_TYPE_DIR j [97]
      \<and> (\<forall>x. diritem_find (Some root_item) (Some (full_path [] [97] [] @ 0 # x)) (Some diritem0) g = Inr (True, mk_item INODE_TYPE_DIR j [97], g)))
    \<and> (\<exists>j g. main_touch (replicate 512 7) 2 [None, Some ([97] @ [47] @ 0 # [])] vfs_root = Inr (set_fs g vfs_root)
      \<and> created_in dir_sample g root_item INODE_TYPE_FILE j [97]
      \<and> (\<forall>x. diritem_find (Some root_item) (Some (full_path [] [97] [] @ 0 # x)) (Some diritem0) g = Inr (True, mk_item INODE_TYPE_FILE j [97], g)))"
proof -
  have v: "v_fs vfs_root = dir_sample" "v_root vfs_root = Some root_item" by (simp_all add: vfs_root_def)
  have s: "search_dir dir_sample root_item [97] = None" by (rule search_sample) simp_all
  have a: "arg_at [None, Some ([97] @ [47] @ 0 # [])] 1 = Inr ([97] @ [47] @ 0 # [])" by (simp add: arg_at_def read_at_def given_def)
  show ?thesis
    by (rule mkdir_touch_create [of vfs_root root_item "[]" "[97]" "[47]" root_item, unfolded v])
      (use dir_sample_inv s a vfs_root_works dir_sample_items sample_free in
        \<open>simp_all add: path_ok_def full_path_def path_of_def lookup_dir_def\<close>)
qed

subsection \<open>The shell\<close>

text \<open>What a key does to the command: it takes the last character back, is added, or changes nothing.\<close>

definition edit :: "byte list \<Rightarrow> byte \<Rightarrow> byte list" where
  "edit acc ch = (if ch = 8 then butlast acc else if is_text ch then acc @ [ch] else acc)"

text \<open>The command never gets longer than the buffer.\<close>

fun line_fits :: "byte list \<Rightarrow> byte list \<Rightarrow> bool" where
  "line_fits acc [] \<longleftrightarrow> length acc \<le> 128"
| "line_fits acc (ch # ks) \<longleftrightarrow> length acc \<le> 128 \<and> line_fits (edit acc ch) ks"

text \<open>
  A terminal: keys that are waiting, and output that returns for every text of the characters \<open>good\<close>.
\<close>

locale terminal =
  fixes rd :: "'w \<Rightarrow> (byte \<times> 'w) res"
    and outp :: "byte list \<Rightarrow> karg list \<Rightarrow> 'w \<Rightarrow> 'w res"
    and ok :: "'w \<Rightarrow> bool"
    and keys :: "'w \<Rightarrow> byte list"
    and good :: "byte set"
  assumes rd: "ok w \<Longrightarrow> keys w = c # ks \<Longrightarrow> \<exists>w'. rd w = Inr (c, w') \<and> ok w' \<and> keys w' = ks"
    and outp: "ok w \<Longrightarrow> render fmt args = Some t \<Longrightarrow> set t \<subseteq> good \<Longrightarrow> length t < 4294967296 \<Longrightarrow>
      \<exists>w'. outp fmt args w = Inr w' \<and> ok w' \<and> keys w' = keys w"
    and good_text: "is_text c \<Longrightarrow> c \<in> good" "10 \<in> good"
begin

lemma echo:
  assumes "ok w" and "ch \<in> good"
  shows "\<exists>w'. echo_key outp ch i w = Inr (if ch = 8 then i - 1 else i, w') \<and> ok w' \<and> keys w' = keys w"
proof (cases "ch = 8")
  case True
  have "render [8, 0] [] = Some [8]" by simp
  from outp [OF assms(1) this] assms True show ?thesis by (cases "i = 0") (auto simp: echo_key_def)
next
  case False
  have "ucast (scast ch :: u32) = ch"
  proof (rule bit_word_eqI)
    fix n assume "n < LENGTH(8)"
    then have "min n 7 = n" "n < 32" by simp_all
    with \<open>n < LENGTH(8)\<close> show "bit (ucast (scast ch :: u32) :: byte) n \<longleftrightarrow> bit ch n" by (simp add: bit_simps)
  qed
  then have "render (cstring ''%c'') [KWord (scast ch)] = Some [ch]" by (simp add: cstring_def of_char_def horner_sum_simps)
  from outp [OF assms(1) this] assms False show ?thesis by (auto simp: echo_key_def)
qed

lemma shell_line_fits:
  "ok w \<Longrightarrow> keys w = ks @ rest \<Longrightarrow> 10 \<notin> set ks \<Longrightarrow> set ks \<subseteq> good \<Longrightarrow> length buf = 128 \<Longrightarrow> take (length acc) buf = acc \<Longrightarrow>
   line_fits acc ks \<Longrightarrow>
   \<exists>w' buf'. shell_line rd outp (length ks + n) (length acc) buf w = shell_line rd outp n (length (foldl edit acc ks)) buf' w'
     \<and> ok w' \<and> keys w' = rest \<and> length buf' = 128 \<and> take (length (foldl edit acc ks)) buf' = foldl edit acc ks"
proof (induction ks arbitrary: w acc buf)
  case Nil
  then show ?case by auto
next
  case (Cons ch ks)
  obtain w1 where w1: "rd w = Inr (ch, w1)" "ok w1" "keys w1 = ks @ rest" using rd [OF Cons.prems(1), of ch "ks @ rest"] Cons.prems(2) by auto
  obtain w2 where w2: "echo_key outp ch (length acc) w1 = Inr (if ch = 8 then length acc - 1 else length acc, w2)" "ok w2" "keys w2 = ks @ rest"
    using echo [OF w1(2), of ch "length acc"] Cons.prems(4) w1(3) by auto
  have fits: "length acc \<le> 128" "line_fits (edit acc ch) ks" using Cons.prems(7) by simp_all
  have fit1: "length (edit acc ch) \<le> 128" using fits(2) by (cases ks) simp_all
  define buf1 where "buf1 = (if ch \<noteq> 8 \<and> is_text ch then buf[length acc := ch] else buf)"
  have b1: "length buf1 = 128" using Cons.prems(5) by (simp add: buf1_def)
  have ch: "is_text ch \<Longrightarrow> ch \<noteq> 8" by (auto simp: is_text_def)
  have step: "shell_line rd outp (length (ch # ks) + n) (length acc) buf w = shell_line rd outp (length ks + n) (length (edit acc ch)) buf1 w2"
    using w1(1) w2(1) ch Cons.prems(3,5) fit1 by (auto simp: edit_def buf1_def MAX_CMD_LEN_def)
  have "take (length (edit acc ch)) buf1 = edit acc ch"
  proof (cases "is_text ch")
    case True
    then have "length acc < 128" using fit1 ch by (simp add: edit_def)
    then show ?thesis using True ch Cons.prems(5,6) by (simp add: edit_def buf1_def take_Suc_conv_app_nth)
  next
    case False
    have "take (length acc - 1) buf = butlast acc" using Cons.prems(6) by (metis butlast_take diff_le_self length_take nat_le_linear take_all butlast_conv_take take_take min.absorb1)
    then show ?thesis using False Cons.prems(6) by (simp add: edit_def buf1_def)
  qed
  from Cons.IH [OF w2(2,3) _ _ b1 this fits(2)] Cons.prems(3,4) show ?case unfolding step by simp
qed

lemma shell_line_end:
  assumes "ok w" and "keys w = ks @ 10 # rest" and "10 \<notin> set ks" and "set ks \<subseteq> good" and "length buf = 128" and "line_fits [] ks"
    and "length ks < fuel"
  shows "\<exists>w' buf'. shell_line rd outp fuel 0 buf w = Inr (length (foldl edit [] ks), False, buf', w')
     \<and> ok w' \<and> keys w' = rest \<and> length buf' = 128 \<and> take (length (foldl edit [] ks)) buf' = foldl edit [] ks"
proof -
  obtain k where k: "fuel = length ks + Suc k" using assms(7) by (metis add_Suc_right less_imp_Suc_add)
  from shell_line_fits [OF assms(1-5) _ assms(6), where n = "Suc k"] obtain w1 buf1 where
    1: "shell_line rd outp fuel 0 buf w = shell_line rd outp (Suc k) (length (foldl edit [] ks)) buf1 w1"
      "ok w1" "keys w1 = 10 # rest" "length buf1 = 128" "take (length (foldl edit [] ks)) buf1 = foldl edit [] ks"
    unfolding k by auto
  obtain w2 where w2: "rd w1 = Inr (10, w2)" "ok w2" "keys w2 = rest" using rd [OF 1(2,3)] by auto
  obtain w3 where w3: "echo_key outp 10 (length (foldl edit [] ks)) w2 = Inr (length (foldl edit [] ks), w3)" "ok w3" "keys w3 = rest"
    using echo [OF w2(2) good_text(2)] w2(3) by fastforce
  have "\<not> is_text 10" by (simp add: is_text_def)
  then show ?thesis using 1 w2(1) w3 by auto
qed

lemma shell_line_long:
  assumes "ok w" and "keys w = ks @ c # rest" and "10 \<notin> set ks" and "set ks \<subseteq> good" and "length buf = 128" and "line_fits [] ks"
    and "length (foldl edit [] ks) = 128" and "is_text c" and "length ks < fuel"
  shows "\<exists>w' buf'. shell_line rd outp fuel 0 buf w = Inr (128, True, buf', w') \<and> ok w' \<and> keys w' = rest \<and> length buf' = 128"
proof -
  obtain k where k: "fuel = length ks + Suc k" using assms(9) by (metis add_Suc_right less_imp_Suc_add)
  from shell_line_fits [OF assms(1-5) _ assms(6), where n = "Suc k"] assms(7) obtain w1 buf1 where
    1: "shell_line rd outp fuel 0 buf w = shell_line rd outp (Suc k) 128 buf1 w1" "ok w1" "keys w1 = c # rest" "length buf1 = 128"
    unfolding k by auto
  obtain w2 where w2: "rd w1 = Inr (c, w2)" "ok w2" "keys w2 = rest" using rd [OF 1(2,3)] by auto
  have c: "c \<noteq> 8" using assms(8) by (auto simp: is_text_def)
  obtain w3 where w3: "echo_key outp c 128 w2 = Inr (128, w3)" "ok w3" "keys w3 = rest"
    using echo [OF w2(2) good_text(1) [OF assms(8)]] w2(3) c by fastforce
  let ?fmt = "cstring ('' (Command beyond %d characters!)'' @ [CHR 0x0A])"
  let ?t = "map of_char '' (Command beyond '' @ numeral_text 10 128 @ map of_char '' characters!)'' @ [10]"
  have r: "render ?fmt [KWord (word_of_nat MAX_CMD_LEN)] = Some ?t"
    by (simp add: cstring_def of_char_def horner_sum_simps MAX_CMD_LEN_def)
  have n: "numeral_text 10 128 = [49, 50, 56]" by (simp add: numeral_text_def digs.simps digchar_def)
  have "is_text x \<or> x = 10" if "x \<in> set ?t" for x
    using that unfolding n by (auto simp: of_char_def horner_sum_simps is_text_def)
  then have "set ?t \<subseteq> good" using good_text by blast
  from outp [OF w3(2) r this] obtain w4 where w4: "outp ?fmt [KWord (word_of_nat MAX_CMD_LEN)] w3 = Inr w4" "ok w4" "keys w4 = rest"
    using w3(3) n by auto
  show ?thesis using 1(1,4) w2(1) w3(1) w4 assms(8) by (auto simp: MAX_CMD_LEN_def)
qed

lemma prompt:
  assumes "ok w"
  shows "\<exists>w'. outp (cstring ''%s '') [KStr (cstring ''[hoo]'')] w = Inr w' \<and> ok w' \<and> keys w' = keys w"
proof (rule outp [OF assms])
  let ?t = "[91, 104, 111, 111, 93, 32] :: byte list"
  show "render (cstring ''%s '') [KStr (cstring ''[hoo]'')] = Some ?t"
    by (simp add: cstring_def of_char_def horner_sum_simps)
  have "is_text x" if "x \<in> set ?t" for x using that by (auto simp: is_text_def)
  then show "set ?t \<subseteq> good" using good_text by blast
qed simp

lemma edited_text: "\<forall>c \<in> set acc. is_text c \<Longrightarrow> \<forall>c \<in> set (foldl edit acc ks). is_text c"
proof (induction ks arbitrary: acc)
  case (Cons c ks)
  have "\<forall>x \<in> set (edit acc c). is_text x" using Cons.prems by (auto simp: edit_def dest: in_set_butlastD)
  then show ?case using Cons.IH by simp
qed simp

lemma round_fits:
  assumes "ok w" and "keys w = ks @ 10 # rest" and "10 \<notin> set ks" and "set ks \<subseteq> good" and "length buf = 128" and "line_fits [] ks"
    and "length ks < fuel"
  defines "t \<equiv> foldl edit [] ks"
  shows "if t = [] then \<exists>buf' w'. shell_round rd outp fuel buf w = Inr (None, buf', w') \<and> ok w' \<and> keys w' = rest
    else if length t < 128 then \<exists>cmd w'. shell_round rd outp fuel buf w = Inr (Some cmd, cmd, w') \<and> cstr cmd = t \<and> 0 \<in> set cmd \<and> ok w' \<and> keys w' = rest
    else \<exists>msg. shell_round rd outp fuel buf w = fault msg"
proof -
  obtain w1 where w1: "outp (cstring ''%s '') [KStr (cstring ''[hoo]'')] w = Inr w1" "ok w1" "keys w1 = ks @ 10 # rest"
    using prompt [OF assms(1)] assms(2) by auto
  from shell_line_end [OF w1(2,3) assms(3-7)] obtain w2 buf2 where
    2: "shell_line rd outp fuel 0 buf w1 = Inr (length t, False, buf2, w2)" "ok w2" "keys w2 = rest" "length buf2 = 128" "take (length t) buf2 = t"
    by (auto simp: t_def)
  have t: "\<forall>c \<in> set t. is_text c" unfolding t_def by (rule edited_text) simp
  then have z: "0 \<notin> set t" by (auto simp: is_text_def)
  consider "t = []" | "t \<noteq> []" "length t < 128" | "t \<noteq> []" "\<not> length t < 128" by blast
  then show ?thesis
  proof cases
    case 1
    then show ?thesis using w1(1) 2 by (simp add: shell_round_def)
  next
    case 2
    let ?cmd = "buf2[length t := 0]"
    have "?cmd = t @ 0 # drop (Suc (length t)) buf2"
      using 2(2) \<open>length buf2 = 128\<close> \<open>take (length t) buf2 = t\<close> by (simp add: upd_conv_take_nth_drop)
    then have "cstr ?cmd = t" "0 \<in> set ?cmd" using z by simp_all
    moreover have "shell_round rd outp fuel buf w = Inr (Some ?cmd, ?cmd, w2)"
      using w1(1) 2 \<open>length buf2 = 128\<close> \<open>shell_line rd outp fuel 0 buf w1 = _\<close> by (simp add: shell_round_def)
    ultimately show ?thesis using 2 \<open>ok w2\<close> \<open>keys w2 = rest\<close> by auto
  next
    case 3
    then show ?thesis using w1(1) \<open>shell_line rd outp fuel 0 buf w1 = _\<close> \<open>length buf2 = 128\<close>
      by (auto simp: shell_round_def)
  qed
qed

lemma round_long:
  assumes "ok w" and "keys w = ks @ c # rest" and "10 \<notin> set ks" and "set ks \<subseteq> good" and "length buf = 128" and "line_fits [] ks"
    and "length (foldl edit [] ks) = 128" and "is_text c" and "length ks < fuel"
  shows "\<exists>buf' w'. shell_round rd outp fuel buf w = Inr (None, buf', w') \<and> ok w' \<and> keys w' = rest"
proof -
  obtain w1 where w1: "outp (cstring ''%s '') [KStr (cstring ''[hoo]'')] w = Inr w1" "ok w1" "keys w1 = ks @ c # rest"
    using prompt [OF assms(1)] assms(2) by auto
  from shell_line_long [OF w1(2,3) assms(3-9)] show ?thesis using w1(1) by (auto simp: shell_round_def)
qed

end

subsection \<open>The keyboard and the screen are a terminal\<close>

definition kb_keys :: "cclbuff \<Rightarrow> byte list" where
  "kb_keys b = map (\<lambda>k. ring b ! ((unat (rtail b) + k) mod unat (capacity b))) [0..<ring_len b]"

definition tty_ok :: "vfs \<Rightarrow> bool" where
  "tty_ok v \<longleftrightarrow> ring_wf (sys_kb (v_sys v)) \<and> cga_lock (sys_cga (v_sys v)) = unlocked \<and> on_screen (sys_cga (v_sys v))"

definition tty_keys :: "vfs \<Rightarrow> byte list" where
  "tty_keys v = kb_keys (sys_kb (v_sys v))"

lemma kb_keys_rep: "ring_wf b \<Longrightarrow> ring_rep b (kb_keys b)"
  unfolding kb_keys_def by (rule ring_rep_ex)

lemma putstr_ok:
  assumes "cga_lock s = unlocked" and "on_screen s" and "\<forall>c \<in> set str. c \<noteq> 8 \<and> c \<noteq> 9"
  shows "\<exists>s'. cga_putstr str (length str) s = Inr s' \<and> cga_lock s' = unlocked \<and> on_screen s'"
proof -
  let ?s = "s\<lparr>cga_lock := \<lparr>islock = 1\<rparr>\<rparr>"
  have c: "on_screen (t\<lparr>cga_lock := l\<rparr>) = on_screen t" for t l by (simp add: on_screen_def cga_cursor_get_def)
  from putstr_text [of ?s 0 "length str" str] assms(2,3) obtain s1 where
    "putstr_loop str 0 (length str) ?s = Inr s1" "on_screen s1" by (auto simp: c)
  then show ?thesis using assms(1) by (auto simp: cga_putstr_def c)
qed

interpretation tty: terminal "read_key slp" sys_printf tty_ok tty_keys "UNIV - {8, 9}" for slp
proof
  fix w :: vfs and c ks
  assume w: "tty_ok w" "tty_keys w = c # ks"
  let ?b = "sys_kb (v_sys w)"
  have r: "ring_rep ?b (c # ks)" using kb_keys_rep [of ?b] w by (simp add: tty_ok_def tty_keys_def)
  from get_rep [OF r, of slp] obtain b where b: "cclbuff_get slp (Some ?b) = Inr (c, b)" "ring_rep b ks" by blast
  let ?w = "set_sys ((v_sys w)\<lparr>sys_kb := b\<rparr>) w"
  have wf: "ring_wf b" using b(2) by (simp add: ring_rep_def)
  have "kb_keys b = ks" using ring_rep_unique [OF kb_keys_rep [OF wf] b(2)] .
  then have "tty_ok ?w" "tty_keys ?w = ks" using w(1) wf by (simp_all add: tty_ok_def tty_keys_def set_sys_def)
  moreover have "read_key slp w = Inr (c, ?w)"
    using b(1) write_at_nat [of 0 "[0]" "''files_read(): buf''" c] read_at_nat [of 0 "[c]" "''ch''"]
    by (simp add: read_key_def sys_read_def files_read_def fd_consts)
  ultimately show "\<exists>w'. read_key slp w = Inr (c, w') \<and> tty_ok w' \<and> tty_keys w' = ks" by blast
next
  fix w :: vfs and fmt args t
  assume w: "tty_ok w" "render fmt args = Some t" "set t \<subseteq> UNIV - {8, 9}" "length t < 4294967296"
  let ?c = "sys_cga (v_sys w)"
  have so: "screen_ok (length t) (v_out w)" using w(1,4) by (simp add: screen_ok_def tty_ok_def)
  have k: "kprintf fmt args (v_out w) = screen_put t (v_out w)" unfolding kprintf_def by (rule screen.format_put [OF w(2) so])
  obtain c where c: "cga_putstr t (length t) ?c = Inr c" "cga_lock c = unlocked" "on_screen c"
    using putstr_ok [of ?c t] w(1,3) by (auto simp: tty_ok_def)
  let ?s = "if t = [] then v_sys w else (v_sys w)\<lparr>sys_cga := c\<rparr>"
  have "screen_put t (v_out w) = Inr ((v_out w)\<lparr>out_fsys := ?s\<rparr>)"
    using write_screen [OF w(4), of "[]"] c(1) by (simp add: screen_put_def)
  then have "sys_printf fmt args w = Inr (set_sys ?s w)" using k by (simp add: sys_printf_def set_sys_def)
  moreover have "tty_ok (set_sys ?s w)" "tty_keys (set_sys ?s w) = tty_keys w"
    using w(1) c(2,3) by (simp_all add: tty_ok_def tty_keys_def set_sys_def)
  ultimately show "\<exists>w'. sys_printf fmt args w = Inr w' \<and> tty_ok w' \<and> tty_keys w' = tty_keys w" by blast
qed (auto simp: is_text_def)

subsection \<open>Properties of the shell\<close>

lemma edit_filter: "8 \<notin> set ks \<Longrightarrow> foldl edit acc ks = acc @ filter is_text ks"
  by (induction ks arbitrary: acc) (auto simp: edit_def)

lemma fits_filter: "8 \<notin> set ks \<Longrightarrow> length acc + length (filter is_text ks) \<le> 128 \<Longrightarrow> line_fits acc ks"
  by (induction ks arbitrary: acc) (auto simp: edit_def)

text \<open>C20: the shell reads a line. While a line of keys without tabs and backspaces waits in the keyboard buffer, one round
  of the shell reads exactly that line; its printable characters, terminated, are the command that the child executes. An
  empty one is ignored, and one of 128 characters, which the length test lets pass, writes its terminator behind the buffer.\<close>

theorem shell_reads_command:
  assumes "tty_ok v" and "tty_keys v = ks @ 10 # rest" and "set ks \<inter> {8, 9, 10} = {}" and "length buf = 128" and "length ks < fuel"
    and "length (filter is_text ks) \<le> 128"
  shows "if filter is_text ks = [] then \<exists>buf' v'. main_shell_round slp fuel buf v = Inr (None, buf', v') \<and> tty_ok v' \<and> tty_keys v' = rest
    else if length (filter is_text ks) < 128 then
      \<exists>cmd v'. main_shell_round slp fuel buf v = Inr (Some cmd, cmd, v') \<and> cstr cmd = filter is_text ks \<and> tty_ok v' \<and> tty_keys v' = rest
    else \<exists>msg. main_shell_round slp fuel buf v = fault msg"
proof -
  have k: "10 \<notin> set ks" "8 \<notin> set ks" "set ks \<subseteq> UNIV - {8, 9}" using assms(3) by auto
  have f: "line_fits [] ks" using fits_filter [OF k(2), of "[]"] assms(6) by simp
  from tty.round_fits [OF assms(1,2) k(1,3) assms(4) f assms(5), of slp] show ?thesis
    unfolding main_shell_round_def edit_filter [OF k(2)] append_Nil by (metis (full_types))
qed

text \<open>The line \<open>ls\<close> in the keyboard buffer.\<close>

definition tty_sample :: "byte list \<Rightarrow> nat \<Rightarrow> vfs" where
  "tty_sample xs n = set_sys ((v_sys vfs_sample)\<lparr>sys_kb := (cclbuff_alloc (word_of_nat (length xs)) xs)\<lparr>rhead := word_of_nat n\<rparr>\<rparr>) vfs_sample"

lemma tty_sample_ok:
  assumes "n < length xs" and "length xs < 1024"
  shows "tty_ok (tty_sample xs n)" "tty_keys (tty_sample xs n) = take n xs"
proof -
  have u: "unat (word_of_nat (length xs) :: u32) = length xs" "unat (word_of_nat n :: u32) = n"
    using assms by (simp_all add: unat_word_of_nat_32)
  show "tty_ok (tty_sample xs n)" using assms u
    by (auto simp: tty_ok_def tty_sample_def set_sys_def ring_wf_def cclbuff_alloc_def vfs_sample_def fsys_sample_def cga_sample_def
        on_screen_def cga_cursor_get_def)
  have "tty_keys (tty_sample xs n) = map (\<lambda>k. xs ! (k mod length xs)) [0..<n]"
    using assms u by (simp add: tty_keys_def kb_keys_def tty_sample_def set_sys_def ring_len_def cclbuff_alloc_def)
  also have "\<dots> = take n xs" using assms by (intro nth_equalityI) simp_all
  finally show "tty_keys (tty_sample xs n) = take n xs" .
qed

theorem shell_reads_command_witness:
  "\<exists>cmd v'. main_shell_round Inr 10 (replicate 128 0) (tty_sample [108, 115, 10, 0] 3) = Inr (Some cmd, cmd, v') \<and> cstr cmd = [108, 115]"
proof -
  have t: "is_text 108" "is_text 115" by (simp_all add: is_text_def)
  note s = tty_sample_ok [of 3 "[108, 115, 10, 0]"]
  show ?thesis
    using shell_reads_command [of "tty_sample [108, 115, 10, 0] 3" "[108, 115]" "[]" "replicate 128 0" 10 Inr] s t by simp blast
qed

text \<open>The end of a command that is too long is a command. When a 129th printable character comes, the shell says so and
  begins the next round at once: what is left of the line is read as the next command.\<close>

theorem shell_long_command:
  assumes "tty_ok v" and "tty_keys v = ks @ c # rest" and "set ks \<inter> {8, 9, 10} = {}" and "length buf = 128" and "length ks < fuel"
    and "length (filter is_text ks) = 128" and "is_text c"
  shows "\<exists>buf' v'. main_shell_round slp fuel buf v = Inr (None, buf', v') \<and> tty_ok v' \<and> tty_keys v' = rest"
proof -
  have k: "10 \<notin> set ks" "8 \<notin> set ks" "set ks \<subseteq> UNIV - {8, 9}" using assms(3) by auto
  have f: "line_fits [] ks" using fits_filter [OF k(2), of "[]"] assms(6) by simp
  have "length (foldl edit [] ks) = 128" using assms(6) edit_filter [OF k(2), of "[]"] by simp
  from tty.round_long [OF assms(1,2) k(1,3) assms(4) f this assms(7,5), of slp] show ?thesis
    unfolding main_shell_round_def by blast
qed

theorem shell_long_command_witness:
  "\<exists>buf' v'. main_shell_round Inr 200 (replicate 128 0) (tty_sample (replicate 140 97) 135) = Inr (None, buf', v')
    \<and> tty_keys v' = replicate 6 97"
proof -
  have t: "is_text 97" by (simp add: is_text_def)
  have "replicate 135 (97 :: byte) = replicate 128 97 @ 97 # replicate 6 97" by (simp flip: replicate_Suc replicate_add)
  then have "tty_ok (tty_sample (replicate 140 97) 135)" "tty_keys (tty_sample (replicate 140 97) 135) = replicate 128 97 @ 97 # replicate 6 97"
    using tty_sample_ok [of 135 "replicate 140 97"] by simp_all
  from shell_long_command [OF this, of "replicate 128 0" 200 Inr] show ?thesis using t by auto
qed

end
