(* ===== verification/Page_Fault.thy ===== *)
theory Page_Fault
  imports Fork_Props Thread_Props Vspace_Props
begin

section \<open>kern/intr/routine.c: page faults and the timer\<close>

text \<open>
  The handler of page faults copies the page that a task may not write, the half of copy-on-write
  that fork() leaves open. \<open>linear_addr\<close> is what the processor puts into cr2, the very address of the
  access; memory is of words here, so it is a multiple of 4. \<open>err\<close> is the error code. The timer calls
  the scheduler.
\<close>

subsection \<open>page_fault and timer\<close>

fun vcopy :: "u32 \<Rightarrow> u32 \<Rightarrow> nat \<Rightarrow> machine \<Rightarrow> machine res" where
  "vcopy dst src 0 m = Inr m"
| "vcopy dst src (Suc n) m =
     bindr (vread m src) (\<lambda>x. bindr (vwrite m dst x) (vcopy (dst + 4) (src + 4) n))"

text \<open>The page \<open>temp_va\<close> is mapped to the new frame, and gets a page of words from \<open>linear_addr\<close> on.\<close>

definition copy_page :: "u32 \<Rightarrow> u32 \<Rightarrow> u32 \<Rightarrow> machine \<Rightarrow> machine res" where
  "copy_page temp_va pa linear_addr m =
     bindr (set_mapping temp_va pa (PGFLAG_US OR PGFLAG_RW OR PGFLAG_PS) m) (vcopy temp_va linear_addr 1024)"

definition remap :: "u32 \<Rightarrow> u32 \<Rightarrow> machine \<Rightarrow> machine res" where
  "remap linear_addr pa m = vwrite m (GET_PTE linear_addr) (pa OR (PGFLAG_US OR PGFLAG_RW OR PGFLAG_PS))"

definition page_fault :: "u32 \<Rightarrow> u32 \<Rightarrow> threads \<Rightarrow> threads res" where
  "page_fault linear_addr err s =
     (if err AND PGFLAG_RW = PGFLAG_RW then
        bindr (get_current_pcb (th_tasks s)) (\<lambda>p.
        bindr (phy_alloc_page (pmst (km_mach (th_mem s)))) (\<lambda>(pa, pm).
        bindr (vir_alloc_pages (Some (vmngr_of p)) 1 (pcb_break (th_pcb s p))
          ((th_mem s)\<lparr>km_mach := (km_mach (th_mem s))\<lparr>pmst := pm\<rparr>\<rparr>)) (\<lambda>(temp_va, m).
        bindr (with_mach (copy_page temp_va pa linear_addr) (set_mem m s)) (\<lambda>s.
        bindr (vir_release_pages (Some (vmngr_of p)) temp_va False (th_mem s)) (\<lambda>m.
        with_mach (remap linear_addr pa) (set_mem m s))))))
      else Inr s)"

definition timer :: "tasks \<Rightarrow> (outcome \<times> tasks) res" where
  "timer s = scheduler s"

subsection \<open>Copying a page\<close>

lemma vcopy_ok:
  "PG va = va \<Longrightarrow> walk m va = Some f \<Longrightarrow> cr3 m AND 4095 = 0 \<Longrightarrow> f \<noteq> cr3 m \<Longrightarrow> f \<noteq> PG (pde_of m va) \<Longrightarrow> i + n \<le> 1024 \<Longrightarrow>
   (\<forall>j < n. \<exists>a. walk m (src + word_of_nat j * 4) = Some a \<and> f \<noteq> PG (pde_of m (src + word_of_nat j * 4)) \<and> (\<forall>k < 1024. a \<noteq> f + word_of_nat k * 4)) \<Longrightarrow>
   \<exists>p. vcopy (va + word_of_nat i * 4) src n m = Inr (m\<lparr>phys := p\<rparr>)
     \<and> (\<forall>a. (\<forall>k < 1024. a \<noteq> f + word_of_nat k * 4) \<longrightarrow> p a = phys m a)
     \<and> (\<forall>k < 1024. p (f + word_of_nat k * 4) =
          (if i \<le> k \<and> k < i + n then phys m (the (walk m (src + word_of_nat (k - i) * 4))) else phys m (f + word_of_nat k * 4)))"
proof (induction n arbitrary: i m src)
  case 0
  then show ?case by (intro exI [of _ "phys m"]) auto
next
  case (Suc n)
  let ?i = "word_of_nat i :: u32"
  have i: "i < 1024" and ui: "unat ?i < 1024" using Suc.prems(6) by (simp_all add: unat_word_of_nat_32)
  have "va AND 4095 = 0" using Suc.prems(1) PG_aligned by metis
  then have fa: "f AND 4095 = 0" using Suc.prems(2) by (auto simp: walk_def split: if_splits)
  obtain a where a: "walk m src = Some a" "f \<noteq> PG (pde_of m src)" "\<forall>k < 1024. a \<noteq> f + word_of_nat k * 4"
    using Suc.prems(7) [rule_format, of 0] by auto
  have wd: "walk m (va + ?i * 4) = Some (f + ?i * 4)"
    using Suc.prems(2) same_page [of "va + ?i * 4" va m] page_offset [OF Suc.prems(1) ui] \<open>va AND 4095 = 0\<close> Suc.prems(1)
    by (auto simp: walk_def split: if_splits)
  define m1 where "m1 = m\<lparr>phys := (phys m)(f + ?i * 4 := phys m a)\<rparr>"
  have step: "vcopy (va + ?i * 4) src (Suc n) m = vcopy (va + word_of_nat (Suc i) * 4) (src + 4) n m1"
    using a(1) wd by (simp add: vread_def vwrite_def m1_def algebra_simps)
  have cr: "cr3 m1 = cr3 m" by (simp add: m1_def)
  have off: "phys m1 (g + k * 4) = phys m (g + k * 4)" if "g AND 4095 = 0" "g \<noteq> f" "unat k < 1024" for g k
    using entry_inj [OF that(1) fa that(3) ui] that(2) by (simp add: m1_def)
  have pd: "pde_of m1 x = pde_of m x" for x using off [OF Suc.prems(3) _ idx_less(1)] Suc.prems(4) by (simp add: pde_of_def cr)
  have wk: "walk m1 x = walk m x" if "f \<noteq> PG (pde_of m x)" for x
    using off [OF PG_aligned _ idx_less(2)] that by (intro walk_cong) (simp_all add: pd pte_of_def)
  have shift: "src + 4 + word_of_nat j * 4 = src + word_of_nat (Suc j) * 4" for j by (simp add: algebra_simps)
  have ne: "f + word_of_nat k * 4 = f + ?i * 4 \<longleftrightarrow> k = i" if "k < 1024" for k using entry_eq [OF fa fa that i] by simp
  have src: "walk m1 (src + 4 + word_of_nat j * 4) = walk m (src + word_of_nat (Suc j) * 4)"
    "phys m1 (the (walk m (src + word_of_nat (Suc j) * 4))) = phys m (the (walk m (src + word_of_nat (Suc j) * 4)))"
    "\<exists>a. walk m1 (src + 4 + word_of_nat j * 4) = Some a \<and> f \<noteq> PG (pde_of m1 (src + 4 + word_of_nat j * 4)) \<and> (\<forall>k < 1024. a \<noteq> f + word_of_nat k * 4)"
    if j: "j < n" for j
  proof -
    obtain b where b: "walk m (src + word_of_nat (Suc j) * 4) = Some b" "f \<noteq> PG (pde_of m (src + word_of_nat (Suc j) * 4))"
      "\<forall>k < 1024. b \<noteq> f + word_of_nat k * 4" using Suc.prems(7) [rule_format, of "Suc j"] j by blast
    show w: "walk m1 (src + 4 + word_of_nat j * 4) = walk m (src + word_of_nat (Suc j) * 4)" unfolding shift by (rule wk [OF b(2)])
    show "\<exists>a. walk m1 (src + 4 + word_of_nat j * 4) = Some a \<and> f \<noteq> PG (pde_of m1 (src + 4 + word_of_nat j * 4)) \<and> (\<forall>k < 1024. a \<noteq> f + word_of_nat k * 4)"
      unfolding w pd unfolding shift using b by blast
    show "phys m1 (the (walk m (src + word_of_nat (Suc j) * 4))) = phys m (the (walk m (src + word_of_nat (Suc j) * 4)))"
      using b i by (simp add: m1_def)
  qed
  have "\<forall>j < n. \<exists>a. walk m1 (src + 4 + word_of_nat j * 4) = Some a \<and> f \<noteq> PG (pde_of m1 (src + 4 + word_of_nat j * 4)) \<and> (\<forall>k < 1024. a \<noteq> f + word_of_nat k * 4)"
    using src(3) by blast
  moreover have "walk m1 va = Some f" using wk [OF Suc.prems(5)] Suc.prems(2) by simp
  ultimately obtain p where p: "vcopy (va + word_of_nat (Suc i) * 4) (src + 4) n m1 = Inr (m1\<lparr>phys := p\<rparr>)"
    "\<forall>a. (\<forall>k < 1024. a \<noteq> f + word_of_nat k * 4) \<longrightarrow> p a = phys m1 a"
    "\<forall>k < 1024. p (f + word_of_nat k * 4) = (if Suc i \<le> k \<and> k < Suc i + n then phys m1 (the (walk m1 (src + 4 + word_of_nat (k - Suc i) * 4)))
        else phys m1 (f + word_of_nat k * 4))"
    using Suc.IH [of m1 "Suc i" "src + 4"] Suc.prems(1,3-6) cr pd by auto
  have "p x = phys m x" if "\<forall>k < 1024. x \<noteq> f + word_of_nat k * 4" for x using p(2) that i by (simp add: m1_def)
  moreover have "p (f + word_of_nat k * 4) = (if i \<le> k \<and> k < i + Suc n then phys m (the (walk m (src + word_of_nat (k - i) * 4)))
      else phys m (f + word_of_nat k * 4))" if k: "k < 1024" for k
  proof -
    consider "k = i" | "Suc i \<le> k" "k < Suc i + n" | "k \<noteq> i" "\<not> (Suc i \<le> k \<and> k < Suc i + n)" by linarith
    then show ?thesis
    proof cases
      case 1
      have "p (f + word_of_nat k * 4) = phys m1 (f + word_of_nat k * 4)" using p(3) k 1 by simp
      then show ?thesis using 1 a(1) by (simp add: m1_def)
    next
      case 2
      then have "k - i = Suc (k - Suc i)" "k - Suc i < n" by simp_all
      then show ?thesis using p(3) k 2 src [of "k - Suc i"] by simp
    next
      case 3
      have "\<not> (i \<le> k \<and> k < i + Suc n)" using 3 by linarith
      moreover have "phys m1 (f + word_of_nat k * 4) = phys m (f + word_of_nat k * 4)" using ne [OF k] 3(1) by (simp add: m1_def)
      ultimately show ?thesis using p(3) [rule_format, OF k] unfolding if_not_P [OF 3(2)] by auto
    qed
  qed
  moreover have "m1\<lparr>phys := p\<rparr> = m\<lparr>phys := p\<rparr>" by (simp add: m1_def)
  ultimately show ?case using p(1) unfolding step by auto
qed

lemma in_frame: "f AND 4095 = 0 \<Longrightarrow> k < 1024 \<Longrightarrow> PG (f + word_of_nat k * 4) = f"
  using page_offset(1) [of f "word_of_nat k"] by (simp add: PG_fix unat_word_of_nat_32)

lemma pgt_inv_phys:
  assumes inv: "pgt_inv m" and f: "f AND 4095 = 0" "f \<noteq> cr3 m"
    and p: "\<forall>a. (\<forall>k < 1024. a \<noteq> f + word_of_nat k * 4) \<longrightarrow> p a = phys m a"
  shows "pgt_inv (m\<lparr>phys := p\<rparr>)" "\<And>x. pde_of (m\<lparr>phys := p\<rparr>) x = pde_of m x"
proof -
  have al: "cr3 m AND 4095 = 0" using inv by (simp add: pgt_inv_def self_map_def)
  have c: "p (cr3 m + k * 4) = phys m (cr3 m + k * 4)" if k: "unat k < 1024" for k
  proof -
    have "cr3 m + k * 4 \<noteq> f + word_of_nat k' * 4" if "k' < 1024" for k'
      using entry_inj [OF al f(1) k, of "word_of_nat k'"] f(2) that by (simp add: unat_word_of_nat_32)
    then show ?thesis using p by blast
  qed
  show pd: "pde_of (m\<lparr>phys := p\<rparr>) x = pde_of m x" for x using c [OF idx_less(1)] by (simp add: pde_of_def)
  show "pgt_inv (m\<lparr>phys := p\<rparr>)" using inv c [of 1023] unfolding pgt_inv_def pd by (simp add: self_map_def free_frames_def)
qed

text \<open>The copy and the new entry of the faulting page, when the temporary page is already mapped to the frame \<open>pa\<close>.\<close>

lemma copy_remap:
  assumes inv: "pgt_inv m" and w: "walk m va = Some pa" "PG va = va"
    and pa: "pa AND 4095 = 0" "pa \<noteq> cr3 m" "\<And>x. bit (pde_of m x) 0 \<Longrightarrow> pa \<noteq> PG (pde_of m x)"
    and src: "\<forall>j < 1024. \<exists>a. walk m (l + word_of_nat j * 4) = Some a \<and> PG a \<noteq> pa" and l0: "PD_INDEX l \<noteq> 1023"
  shows "\<exists>m1 m2. vcopy va l 1024 m = Inr m1 \<and> remap l pa m1 = Inr m2 \<and> pgt_inv m2 \<and> walk m2 (PG l) = Some pa
    \<and> (\<forall>j < 1024. vread m2 (PG l + word_of_nat j * 4) = vread m (l + word_of_nat j * 4))
    \<and> (\<forall>x. PD_INDEX x \<noteq> 1023 \<and> (PG (pde_of m x) \<noteq> PG (pde_of m l) \<or> PT_INDEX x \<noteq> PT_INDEX l) \<longrightarrow> walk m2 x = walk m x)
    \<and> (\<forall>a. PG a \<noteq> pa \<and> PG a \<noteq> PG (pde_of m l) \<longrightarrow> phys m2 a = phys m a)"
proof -
  let ?x = "\<lambda>j. l + word_of_nat j * 4"
  have al: "cr3 m AND 4095 = 0" using inv by (simp add: pgt_inv_def self_map_def)
  have pres: "bit (pde_of m x) 0" if "walk m x = Some a" for x a using that by (simp add: walk_def split: if_splits)
  have out: "\<forall>k < 1024. a \<noteq> pa + word_of_nat k * 4" if "PG a \<noteq> pa" for a using in_frame [OF pa(1)] that by blast
  have src': "\<forall>j < 1024. \<exists>a. walk m (?x j) = Some a \<and> pa \<noteq> PG (pde_of m (?x j)) \<and> (\<forall>k < 1024. a \<noteq> pa + word_of_nat k * 4)"
  proof (intro allI impI)
    fix j :: nat assume "j < 1024"
    then obtain a where "walk m (?x j) = Some a" "PG a \<noteq> pa" using src by blast
    then show "\<exists>a. walk m (?x j) = Some a \<and> pa \<noteq> PG (pde_of m (?x j)) \<and> (\<forall>k < 1024. a \<noteq> pa + word_of_nat k * 4)"
      using pa(3) [OF pres] out by blast
  qed
  obtain p where p: "vcopy va l 1024 m = Inr (m\<lparr>phys := p\<rparr>)"
    "\<forall>a. (\<forall>k < 1024. a \<noteq> pa + word_of_nat k * 4) \<longrightarrow> p a = phys m a"
    "\<forall>k < 1024. p (pa + word_of_nat k * 4) = phys m (the (walk m (?x k)))"
    using vcopy_ok [OF w(2,1) al pa(2) pa(3) [OF pres [OF w(1)]], of 0 1024 l] src' by auto
  define m1 where "m1 = m\<lparr>phys := p\<rparr>"
  note q = pgt_inv_phys [OF inv pa(1,2) p(2), folded m1_def]
  have off: "p a = phys m a" if "PG a \<noteq> pa" for a using p(2) out [OF that] by blast
  have wk: "walk m1 x = walk m x" for x
  proof (rule walk_cong [OF q(2)])
    assume "bit (pde_of m x) 0"
    then have "PG (PG (pde_of m x) + PT_INDEX x * 4) \<noteq> pa" using pa(3) page_offset(1) [OF PG_idem idx_less(2)] by metis
    then show "pte_of m1 x = pte_of m x" using off unfolding pte_of_def q(2) by (simp add: m1_def)
  qed
  have lp: "bit (pde_of m l) 0" using src [rule_format, of 0] pres by auto
  then have lp1: "bit (pde_of m1 l) 0" by (simp add: q(2))
  have fl: "bit (7 :: u32) 0" "(7 :: u32) AND PG_MASK = 0" by (simp_all add: bit_0 PG_MASK_def)
  have f7: "PGFLAG_US OR PGFLAG_RW OR PGFLAG_PS = 7" by (simp add: pg_flags)
  note wr = write_pte [OF q(1) l0 lp1 pa(1) fl]
  define m2 where "m2 = m1\<lparr>phys := (phys m1)(PG (pde_of m1 l) + PT_INDEX l * 4 := pa OR 7)\<rparr>"
  note wr = wr [folded m2_def]
  have tab: "PG (PG (pde_of m l) + PT_INDEX l * 4) = PG (pde_of m l)" by (rule page_offset(1)) (simp_all add: idx_less)
  have m2p: "phys m2 a = p a" if "PG a \<noteq> PG (pde_of m l)" for a
  proof -
    have "a \<noteq> PG (pde_of m l) + PT_INDEX l * 4" using that tab by metis
    then show ?thesis by (simp add: m2_def q(2)) (simp add: m1_def)
  qed
  have rd: "vread m2 (PG l + word_of_nat j * 4) = vread m (?x j)" if j: "j < 1024" for j
  proof -
    have uj: "unat (word_of_nat j :: u32) < 1024" using j by (simp add: unat_word_of_nat_32)
    have po: "PG (PG l + word_of_nat j * 4) = PG l" "(PG l + word_of_nat j * 4) AND 4095 = word_of_nat j * 4"
      using page_offset [OF PG_idem uj] by simp_all
    have "walk m2 (PG l + word_of_nat j * 4) = Some (pa + word_of_nat j * 4)" using wr(4) [OF po(1)] po(2) by simp
    moreover have "PG (pa + word_of_nat j * 4) \<noteq> PG (pde_of m l)" using in_frame [OF pa(1) j] pa(3) [OF lp] by simp
    moreover obtain a where "walk m (?x j) = Some a" using src j by blast
    ultimately show ?thesis using m2p p(3) j by (simp add: vread_def)
  qed
  have ot: "walk m2 x = walk m x" if "PD_INDEX x \<noteq> 1023 \<and> (PG (pde_of m x) \<noteq> PG (pde_of m l) \<or> PT_INDEX x \<noteq> PT_INDEX l)" for x
  proof -
    have "pte_of m2 x = pte_of m1 x" using wr(5) that by (simp add: q(2))
    then have "walk m2 x = walk m1 x" by (intro walk_cong wr(3))
    then show ?thesis by (simp add: wk)
  qed
  have ph: "phys m2 a = phys m a" if "PG a \<noteq> pa \<and> PG a \<noteq> PG (pde_of m l)" for a using m2p off that by simp
  have "remap l pa m1 = Inr m2" using wr(1) by (simp add: remap_def f7 m2_def)
  moreover have "walk m2 (PG l) = Some pa" using wr(4) [of "PG l"] by simp
  ultimately show ?thesis using p(1) wr(2) rd ot ph unfolding m1_def [symmetric] by blast
qed

subsection \<open>The handler\<close>

text \<open>
  A word that the copy reads: mapped to a frame of data, through another entry than the one of the temporary page.
\<close>

definition source_ok :: "machine \<Rightarrow> u32 \<Rightarrow> u32 \<Rightarrow> bool" where
  "source_ok m temp_va x \<longleftrightarrow> PD_INDEX x \<noteq> 1023 \<and> other_entry m temp_va x \<and> (\<exists>a. walk m x = Some a \<and> data_frame m (PG a))"

lemma taken_frame:
  assumes "pgt_inv m" and "phy_alloc_page (pmst m) = Inr (pa, q)" "pm_inv q" "pm_pool q = pm_pool (pmst m)"
    "pm_taken q = insert pa (pm_taken (pmst m))"
  shows "free_frames (m\<lparr>pmst := q\<rparr>) = free_frames m - {pa}" "pgt_inv (m\<lparr>pmst := q\<rparr>)"
    "pde_of (m\<lparr>pmst := q\<rparr>) x = pde_of m x" "walk (m\<lparr>pmst := q\<rparr>) x = walk m x" "other_entry (m\<lparr>pmst := q\<rparr>) va x = other_entry m va x"
proof -
  show ff: "free_frames (m\<lparr>pmst := q\<rparr>) = free_frames m - {pa}" using assms(4,5) by (auto simp: free_frames_def)
  show pd: "pde_of (m\<lparr>pmst := q\<rparr>) x = pde_of m x" for x by (simp add: pde_of_def)
  show "walk (m\<lparr>pmst := q\<rparr>) x = walk m x" by (rule walk_cong [OF pd]) (simp add: pte_of_def pd)
  show "other_entry (m\<lparr>pmst := q\<rparr>) va x = other_entry m va x" by (simp add: other_entry_def has_table_def pd)
  show "pgt_inv (m\<lparr>pmst := q\<rparr>)" using assms(1,3) unfolding pgt_inv_def pd ff by (simp add: self_map_def)
qed

text \<open>The part of the handler on the machine: \<open>m\<close> is the machine once the frame is taken.\<close>

lemma fault_machine:
  assumes inv: "pgt_inv m" and va: "PD_INDEX va \<noteq> 1023" "PG va = va" and free: "free_frames m \<noteq> {}"
    and pa: "pa AND 4095 = 0" "pa \<noteq> cr3 m" "pa \<notin> free_frames m" "\<forall>x. bit (pde_of m x) 0 \<longrightarrow> pa \<noteq> PG (pde_of m x)"
    and src: "\<forall>j < 1024. source_ok m va (l + word_of_nat j * 4) \<and> (\<forall>a. walk m (l + word_of_nat j * 4) = Some a \<longrightarrow> PG a \<noteq> pa)"
  shows "\<exists>m1 m2. copy_page va pa l m = Inr m1 \<and> remap l pa m1 = Inr m2 \<and> pgt_inv m2 \<and> walk m2 (PG l) = Some pa
    \<and> (\<forall>j < 1024. vread m2 (PG l + word_of_nat j * 4) = vread m (l + word_of_nat j * 4))
    \<and> (\<forall>x. PD_INDEX x \<noteq> 1023 \<and> other_entry m va x \<and> (PG (pde_of m x) \<noteq> PG (pde_of m l) \<or> PT_INDEX x \<noteq> PT_INDEX l) \<longrightarrow> walk m2 x = walk m x)
    \<and> (\<forall>a. data_frame m (PG a) \<and> PG a \<noteq> pa \<longrightarrow> phys m2 a = phys m a)"
proof -
  let ?x = "\<lambda>j. l + word_of_nat j * 4"
  have fl: "bit (7 :: u32) 0" "(7 :: u32) AND PG_MASK = 0" by (simp_all add: bit_0 PG_MASK_def)
  have f7: "PGFLAG_US OR PGFLAG_RW OR PGFLAG_PS = 7" by (simp add: pg_flags)
  have inf: "PG f \<in> free_frames m \<Longrightarrow> pa \<noteq> PG f" for f using pa(3) by auto
  obtain n where n: "set_mapping va pa 7 m = Inr n" "pgt_inv n" "cr3 n = cr3 m" "\<forall>x. PG x = PG va \<longrightarrow> walk n x = Some (pa + (x AND 4095))"
    "\<forall>x. PD_INDEX x \<noteq> 1023 \<and> other_entry m va x \<longrightarrow> walk n x = walk m x"
    "\<forall>x. pde_of n x = pde_of m x \<or> \<not> has_table m va \<and> PD_INDEX x = PD_INDEX va \<and> PG (pde_of n x) \<in> free_frames m"
    "\<forall>a. data_frame m (PG a) \<longrightarrow> phys n a = phys m a"
    using set_mapping_step [OF inv va(1) free pa(1) fl] by (elim exE conjE) (rule that)
  have "va AND 4095 = 0" using va(2) PG_aligned by metis
  then have w: "walk n va = Some pa" using n(4) [rule_format, of va] by simp
  have np: "pa \<noteq> PG (pde_of n x)" if "bit (pde_of n x) 0" for x using n(6) [rule_format, of x] pa(4) inf that by auto
  have s: "walk n (?x j) = walk m (?x j) \<and> (\<exists>a. walk m (?x j) = Some a \<and> PG a \<noteq> pa \<and> data_frame m (PG a))" if "j < 1024" for j
    using src that n(5) unfolding source_ok_def by blast
  have l: "PD_INDEX l \<noteq> 1023" "other_entry m va l" using src [rule_format, of 0] by (simp_all add: source_ok_def)
  have dir: "pde_of n x = pde_of m x" if "other_entry m va x" for x using n(6) [rule_format, of x] that by (auto simp: other_entry_def)
  have "\<forall>j < 1024. \<exists>a. walk n (?x j) = Some a \<and> PG a \<noteq> pa" using s by metis
  from copy_remap [OF n(2) w va(2) pa(1) _ np this l(1)] n(3) pa(2) obtain m1 m2 where
    m: "vcopy va l 1024 n = Inr m1" "remap l pa m1 = Inr m2" "pgt_inv m2" "walk m2 (PG l) = Some pa"
      "\<forall>j < 1024. vread m2 (PG l + word_of_nat j * 4) = vread n (?x j)"
      "\<forall>x. PD_INDEX x \<noteq> 1023 \<and> (PG (pde_of n x) \<noteq> PG (pde_of n l) \<or> PT_INDEX x \<noteq> PT_INDEX l) \<longrightarrow> walk m2 x = walk n x"
      "\<forall>a. PG a \<noteq> pa \<and> PG a \<noteq> PG (pde_of n l) \<longrightarrow> phys m2 a = phys n a" by auto
  have "copy_page va pa l m = Inr m1" using n(1) m(1) by (simp add: copy_page_def f7)
  moreover have "vread m2 (PG l + word_of_nat j * 4) = vread m (?x j)" if j: "j < 1024" for j
  proof -
    obtain a where "walk n (?x j) = Some a" "walk m (?x j) = Some a" "data_frame m (PG a)" using s [OF j] by metis
    then show ?thesis using m(5) j n(7) by (simp add: vread_def)
  qed
  moreover have "walk m2 x = walk m x"
    if "PD_INDEX x \<noteq> 1023 \<and> other_entry m va x \<and> (PG (pde_of m x) \<noteq> PG (pde_of m l) \<or> PT_INDEX x \<noteq> PT_INDEX l)" for x
    using m(6) n(5) that dir [of x] dir [OF l(2)] by simp
  moreover have "phys m2 a = phys m a" if "data_frame m (PG a) \<and> PG a \<noteq> pa" for a
  proof -
    obtain b where "walk m l = Some b" using s [of 0] by auto
    then have "bit (pde_of m l) 0" by (simp add: walk_def split: if_splits)
    then have "PG a \<noteq> PG (pde_of n l)" using that dir [OF l(2)] by (simp add: data_frame_def)
    then show ?thesis using m(7) n(7) that by simp
  qed
  ultimately show ?thesis using m(2-4) by blast
qed

lemma below_window:
  assumes "e < max_end_of b"
  shows "PD_INDEX e \<noteq> 1023"
proof
  assume "PD_INDEX e = 1023"
  moreover have "PD_INDEX e \<le> e div 4194304" by (simp add: PD_INDEX_def drop_bit_eq_div word_and_le2)
  ultimately have "1023 \<le> unat e div 4194304" by (simp add: word_le_nat_alt unat_div)
  then have "4290772992 \<le> unat e" by linarith
  moreover have "unat (max_end_of b) \<le> 4026531840" by (simp add: max_end_of_def KERN_HIGH_MAPPING_def KERN_METADATA_def)
  ultimately show False using assms by (simp add: word_less_nat_alt)
qed

text \<open>C8: what a page fault copies. On a fault by a write the handler takes a frame and, for as long as it copies, a page behind
  the last range of the running task; afterwards the faulting page is mapped to that frame, its words are the 1024 words that
  stood from the faulting address on (so the page keeps its contents when the fault was on its first word, and otherwise all
  of it is shifted, with its end read from the page behind), every frame of data (neither free nor a table) keeps its words, and the task
  has its ranges again, less the object of the temporary one, which is not given back. The pages outside the last 4 MB are
  translated as before, except the faulting one, the temporary one, those that share their table entries and, when the
  temporary one needs a new table, the 4 MB of that table. On any other fault nothing happens. The task has a range, room
  for a page behind its ranges, which end at a page boundary, and the metadata for it; two frames are free; and the
  words from the faulting address on are mapped to frames of data, through other entries than the temporary page and
  outside the last 4 MB.\<close>

theorem page_fault_copies:
  assumes "get_current_pcb (th_tasks s) = Inr p" and "vm_inv (th_mem s) (vmngr_of p) (pcb_break (th_pcb s p)) e rs nv (Suc nn) (Suc na)"
    and "pcb_break (th_pcb s p) \<le> e" and "PG e = e" and "unat e + 4096 < unat (max_end_of (pcb_break (th_pcb s p)))"
    and "pgt_inv (km_mach (th_mem s))" and "2 \<le> card (free_frames (km_mach (th_mem s)))"
    and "\<forall>j < 1024. source_ok (km_mach (th_mem s)) e (linear_addr + word_of_nat j * 4)"
  shows "\<exists>t pa. (\<forall>err. page_fault linear_addr err s = Inr (if err AND PGFLAG_RW = PGFLAG_RW then t else s))
    \<and> pa \<in> free_frames (km_mach (th_mem s)) \<and> walk (km_mach (th_mem t)) (PG linear_addr) = Some pa
    \<and> (\<forall>j < 1024. vread (km_mach (th_mem t)) (PG linear_addr + word_of_nat j * 4)
        = vread (km_mach (th_mem s)) (linear_addr + word_of_nat j * 4))
    \<and> (\<forall>a. data_frame (km_mach (th_mem s)) (PG a) \<longrightarrow> phys (km_mach (th_mem t)) a = phys (km_mach (th_mem s)) a)
    \<and> (\<forall>x. PD_INDEX x \<noteq> 1023 \<and> other_entry (km_mach (th_mem s)) e x
        \<and> (PG (pde_of (km_mach (th_mem s)) x) \<noteq> PG (pde_of (km_mach (th_mem s)) linear_addr) \<or> PT_INDEX x \<noteq> PT_INDEX linear_addr)
        \<longrightarrow> walk (km_mach (th_mem t)) x = walk (km_mach (th_mem s)) x)
    \<and> vm_inv (th_mem t) (vmngr_of p) (pcb_break (th_pcb s p)) e rs nv (Suc nn) na \<and> pgt_inv (km_mach (th_mem t))"
proof -
  let ?m = "km_mach (th_mem s)" and ?r = "vmngr_of p" and ?b = "pcb_break (th_pcb s p)"
  have pmi: "pm_inv (pmst ?m)" using assms(6) by (simp add: pgt_inv_def)
  have "pm_taken (pmst ?m) \<noteq> pm_pool (pmst ?m)" using assms(7) by (auto simp: free_frames_def)
  from pm.alloc_some [OF pmi this] obtain pa q where
    al: "phy_alloc_page (pmst ?m) = Inr (pa, q)" "pm_inv q" "pm_pool q = pm_pool (pmst ?m)" "pm_taken q = insert pa (pm_taken (pmst ?m))"
      and pf: "pa \<in> free_frames ?m" by (auto simp: free_frames_def)
  define m where "m = ?m\<lparr>pmst := q\<rparr>"
  note tf = taken_frame [OF assms(6) al, folded m_def]
  have "card (free_frames m) \<noteq> 0" using assms(7) pf unfolding tf(1) by (subst card_Diff_singleton) auto
  then have free: "free_frames m \<noteq> {}" by auto
  have mx: "unat (max_end_of ?b) < 4294967296" by simp
  have ue: "unat (e + 1 * PGSIZE) = unat e + 4096" using unat_end [of e 1] assms(5) mx by simp
  then have ng: "\<not> e + 1 * PGSIZE \<ge> max_end_of ?b" and up: "e < e + 1 * PGSIZE" and "e < max_end_of ?b"
    using assms(5) by (simp_all add: word_le_nat_alt word_less_nat_alt)
  have ew: "PD_INDEX e \<noteq> 1023" by (rule below_window) fact
  obtain v where v: "vir_alloc_pages (Some ?r) 1 ?b ((th_mem s)\<lparr>km_mach := m\<rparr>) = Inr (e, v)"
    "vm_inv v ?r ?b (e + 1 * PGSIZE) ((e, 1) # rs) nv nn na" "km_mach v = m"
    using vir_alloc_next(1) [OF vm_inv_mach [THEN iffD2, OF assms(2)] _ ng, of m] by auto
  have pal: "pa AND 4095 = 0" using pmi pf pm.pool_aligned by (auto simp: free_frames_def)
  have pc: "pa \<noteq> cr3 m" using assms(6) pf by (auto simp: pgt_inv_def m_def)
  have sm: "self_map ?m" using assms(6) by (simp add: pgt_inv_def)
  have phm: "phys m = phys ?m" by (simp add: m_def)
  have pt: "pa \<noteq> PG (pde_of m x)" if "bit (pde_of m x) 0" for x
  proof (cases "PD_INDEX x = 1023")
    case True
    then have "PG (pde_of ?m x) = cr3 ?m" using sm by (simp add: self_map_def pde_of_def)
    then show ?thesis using pc by (simp add: tf(3)) (simp add: m_def)
  next
    case False
    then show ?thesis using assms(6) pf that by (auto simp: pgt_inv_def tf(3))
  qed
  then have pt': "\<forall>x. bit (pde_of m x) 0 \<longrightarrow> pa \<noteq> PG (pde_of m x)" by blast
  have df: "data_frame ?m f \<Longrightarrow> data_frame m f \<and> f \<noteq> pa" for f
    using pf by (auto simp: data_frame_def tf(1,3)) (auto simp: m_def)
  have src: "\<forall>j < 1024. source_ok m e (linear_addr + word_of_nat j * 4)
      \<and> (\<forall>a. walk m (linear_addr + word_of_nat j * 4) = Some a \<longrightarrow> PG a \<noteq> pa)"
    using assms(8) df unfolding source_ok_def tf(4,5) by fastforce
  have pn: "pa \<notin> free_frames m" by (simp add: tf(1))
  obtain m1 m2 where mm: "copy_page e pa linear_addr m = Inr m1" "remap linear_addr pa m1 = Inr m2" "pgt_inv m2"
    "walk m2 (PG linear_addr) = Some pa"
    "\<forall>j < 1024. vread m2 (PG linear_addr + word_of_nat j * 4) = vread m (linear_addr + word_of_nat j * 4)"
    "\<forall>x. PD_INDEX x \<noteq> 1023 \<and> other_entry m e x \<and> (PG (pde_of m x) \<noteq> PG (pde_of m linear_addr) \<or> PT_INDEX x \<noteq> PT_INDEX linear_addr)
      \<longrightarrow> walk m2 x = walk m x"
    "\<forall>a. data_frame m (PG a) \<and> PG a \<noteq> pa \<longrightarrow> phys m2 a = phys m a"
    using fault_machine [OF tf(2) ew assms(4) free pal pc pn pt' src] by (elim exE conjE) (rule that)
  have rs: "rs \<noteq> []" using assms(2) unfolding vm_inv_def by blast
  obtain u where u: "vir_release_pages (Some ?r) e False (v\<lparr>km_mach := m1\<rparr>) = Inr u" "vm_inv u ?r ?b e rs nv (Suc nn) na" "km_mach u = m1"
    using release_newest [OF vm_inv_mach [THEN iffD2, OF v(2)] rs assms(3) up, of m1] by auto
  define t where "t = set_mem (u\<lparr>km_mach := m2\<rparr>) s"
  have tm: "th_mem t = u\<lparr>km_mach := m2\<rparr>" by (simp add: t_def set_mem_def)
  have "page_fault linear_addr err s = Inr (if err AND PGFLAG_RW = PGFLAG_RW then t else s)" for err
    using assms(1) al(1) v(1,3) mm(1,2) u(1,3)
    by (simp add: page_fault_def with_mach_def m_def set_mem_def t_def)
  moreover have "vread m x = vread ?m x" for x by (cases "walk ?m x") (simp_all add: vread_def tf(4) phm)
  moreover have "phys m2 a = phys ?m a" if "data_frame ?m (PG a)" for a using mm(7) df [OF that] by (simp add: m_def)
  moreover have "vm_inv (th_mem t) ?r ?b e rs nv (Suc nn) na" unfolding tm vm_inv_mach by (rule u(2))
  ultimately show ?thesis using pf mm(3-6) unfolding tf(3-5)
    by (intro exI [of _ t] exI [of _ pa]) (simp add: tm)
qed

text \<open>A fault on the second word of a page of the first megabyte: the first word of the copy is the second of the page.\<close>

lemma sample_pde: "PG (pde_of mc_sample x) = PGTABLE \<or> PG (pde_of mc_sample x) = PDTABLE \<or> \<not> bit (pde_of mc_sample x) 0"
proof -
  have c: "cr3 mc_sample = PDTABLE" by (simp add: mc_sample_def paging_def Let_def paging_consts)
  show ?thesis
    using paging_pde [OF idx_less(1) [of x], of "\<lparr>phys = (\<lambda>_. 0), cr3 = 0, pmst = pm_sample\<rparr>"]
      PG_or_flags [of PGTABLE 7] PG_or_flags [of PDTABLE 7]
    unfolding pde_of_def c by (auto simp: mc_sample_def PGTABLE_def PDTABLE_def PG_MASK_def)
qed

lemma low_words:
  assumes "j < 1024"
  shows "source_ok mc_sample 0x40001000 (0x1004 + word_of_nat j * 4)"
proof -
  let ?x = "0x1004 + word_of_nat j * 4 :: u32"
  have c: "cr3 mc_sample = PDTABLE" by (simp add: mc_sample_def paging_def Let_def paging_consts)
  have u: "unat ?x = 0x1004 + j * 4" using assms by (simp add: unat_word_ariths unat_word_of_nat_32)
  then have lt: "unat ?x < 0x100000" using assms by simp
  note l = low_mb [OF lt]
  have i: "PD_INDEX (0x40001000 :: u32) = 256" by (simp add: PD_INDEX_def drop_bit_eq_div)
  have w: "walk mc_sample ?x = Some ?x"
    using paging_walk [OF _ l(2)] l(1) page_split [OF l(3)] by (simp add: mc_sample_def)
  have "PG ?x \<le> ?x" unfolding PG_def by (rule word_and_le2)
  then have b: "unat (PG ?x) < 0x3000" using u assms by (simp add: word_le_nat_alt)
  have "PG ?x \<notin> free_frames mc_sample"
  proof
    assume "PG ?x \<in> free_frames mc_sample"
    then have "PG ?x \<in> pm_pool pm_sample" by (simp add: free_frames_def mc_sample_def paging_def Let_def)
    then show False using b pm_pool_ge [of pm_sample "PG ?x"] pm_sample_inv by (simp add: MM_BASE_def)
  qed
  moreover have "PG ?x \<noteq> PGTABLE" "PG ?x \<noteq> PDTABLE" using b by (auto simp: PGTABLE_def PDTABLE_def)
  moreover from this have "bit (pde_of mc_sample y) 0 \<longrightarrow> PG ?x \<noteq> PG (pde_of mc_sample y)" for y using sample_pde by metis
  ultimately have "data_frame mc_sample (PG ?x)" unfolding data_frame_def c by blast
  moreover have "pde_of mc_sample 0x40001000 = 0"
    using paging_pde [OF idx_less(1) [of "0x40001000"], of "\<lparr>phys = (\<lambda>_. 0), cr3 = 0, pmst = pm_sample\<rparr>"]
    unfolding pde_of_def c i by (simp add: mc_sample_def)
  then have "other_entry mc_sample 0x40001000 ?x" using l(1) by (simp add: other_entry_def has_table_def i)
  ultimately show ?thesis using w l(1) by (simp add: source_ok_def)
qed

text \<open>The task with the PCB at 0xff0 runs; its space is at 0x1000 and holds a range of a page from 0x40000000 on.\<close>

definition fault_sample :: "kmem \<Rightarrow> threads" where
  "fault_sample k = th_sample\<lparr>th_tasks := tk_sample\<lparr>
     tk_mem := k\<lparr>km_heap := (km_heap k)(16 := \<lparr>nd_data = None, nd_next = Some 256\<rparr>, 256 := \<lparr>nd_data = Some 0xff0, nd_next = None\<rparr>),
       km_mach := mc_sample\<rparr>,
     tk_pcb := (\<lambda>p. (tk_pcb tk_sample p)\<lparr>pcb_break := 0x40000000\<rparr>)\<rparr>\<rparr>"

theorem page_fault_copies_witness:
  "\<exists>k t pa. get_current_pcb (th_tasks (fault_sample k)) = Inr 0xff0 \<and> page_fault 0x1004 2 (fault_sample k) = Inr t
    \<and> walk (km_mach (th_mem t)) 0x1000 = Some pa \<and> vread (km_mach (th_mem t)) 0x1000 = vread mc_sample 0x1004"
proof -
  obtain c where "vm_start c 0x1000 (room 32) (room 16) (room 16)" "vs_next (km_vs c 0x1000) = None"
    using vm_start_exists by blast
  moreover have "room 32 = Suc 126" "room 16 = Suc 253" by (simp_all add: room_def)
  moreover have "\<not> 0x40000000 + 1 * PGSIZE \<ge> max_end_of 0x40000000"
    by (simp add: max_end_of_def KERN_HIGH_MAPPING_def KERN_METADATA_def PGSIZE_def)
  ultimately obtain k where k: "vm_inv k 0x1000 0x40000000 (0x40000000 + 1 * PGSIZE) [(0x40000000, 1)] 126 253 253"
    using vir_alloc_first [of c "0x1000" 126 253 253 1 "0x40000000"] by auto
  let ?s = "fault_sample k"
  have cur: "get_current_pcb (th_tasks ?s) = Inr 0xff0"
    by (simp add: fault_sample_def th_sample_def tk_sample_def get_current_pcb_def queue_front_def queue_isempty_def)
  have mem: "th_mem ?s = k\<lparr>km_heap := (km_heap k)(16 := \<lparr>nd_data = None, nd_next = Some 256\<rparr>,
      256 := \<lparr>nd_data = Some 0xff0, nd_next = None\<rparr>), km_mach := mc_sample\<rparr>" by (simp add: fault_sample_def)
  have vm: "vm_inv (th_mem ?s) 0x1000 0x40000000 (0x40000000 + 1 * PGSIZE) [(0x40000000, 1)] 126 253 253"
    unfolding mem vm_inv_mach by (rule vm_inv_low [OF k]) (auto simp: KERN_METADATA_def word_le_nat_alt)
  have br: "pcb_break (th_pcb ?s 0xff0) = 0x40000000" by (simp add: fault_sample_def)
  have "vm_inv (th_mem ?s) (vmngr_of 0xff0) (pcb_break (th_pcb ?s 0xff0)) 0x40001000 [(0x40000000, 1)] 126 (Suc 252) (Suc 252)"
    using vm unfolding br by (simp add: vmngr_of_def PGSIZE_def)
  moreover have "pcb_break (th_pcb ?s 0xff0) \<le> 0x40001000" "PG 0x40001000 = 0x40001000"
    "unat (0x40001000 :: u32) + 4096 < unat (max_end_of (pcb_break (th_pcb ?s 0xff0)))"
    unfolding br by (simp_all add: PG_def PG_MASK_def max_end_of_def KERN_HIGH_MAPPING_def KERN_METADATA_def)
  moreover have ms: "km_mach (th_mem ?s) = mc_sample" by (simp add: mem)
  moreover have "pgt_inv (km_mach (th_mem ?s))" "2 \<le> card (free_frames (km_mach (th_mem ?s)))"
    unfolding ms using mc_sample_inv(1) mc_sample_frames by simp_all
  moreover have "\<forall>j < 1024. source_ok (km_mach (th_mem ?s)) 0x40001000 (0x1004 + word_of_nat j * 4)"
    unfolding ms using low_words by blast
  ultimately obtain t pa where t: "\<forall>err. page_fault 0x1004 err ?s = Inr (if err AND PGFLAG_RW = PGFLAG_RW then t else ?s)"
    "walk (km_mach (th_mem t)) (PG 0x1004) = Some pa"
    "\<forall>j < 1024. vread (km_mach (th_mem t)) (PG 0x1004 + word_of_nat j * 4) = vread (km_mach (th_mem ?s)) (0x1004 + word_of_nat j * 4)"
    using page_fault_copies [OF cur] by blast
  have "page_fault 0x1004 2 ?s = Inr t" using t(1) by (simp add: PGFLAG_RW_def)
  moreover have "PG 0x1004 = 0x1000" by (simp add: PG_def PG_MASK_def)
  ultimately show ?thesis using cur t(2) t(3) [rule_format, of 0] ms by auto
qed

end
