(* ===== verification/Fs_Start.thy ===== *)
theory Fs_Start
  imports Create_Remove
begin

section \<open>The start of the file system on a blank disk\<close>

text \<open>
  kinit_fs() formats a disk that does not have the magic number: the super block, empty maps of inodes and
  blocks, and a root directory. This establishes the invariant that the theories of the file system keep.
\<close>

subsection \<open>Changing the mode of the driver\<close>

lemma same_drive_inv:
  assumes "ata_drive a = blk s" and "ata_ready a"
  shows "fs_inv s \<Longrightarrow> fs_inv (s\<lparr>fs_ata := a\<rparr>)" and "tree (s\<lparr>fs_ata := a\<rparr>) x = tree s x"
    and "dir_ok (s\<lparr>fs_ata := a\<rparr>) i = dir_ok s i" and "dir_items (s\<lparr>fs_ata := a\<rparr>) i = dir_items s i"
proof -
  have t: "tree (s\<lparr>fs_ata := a\<rparr>) x = tree s x" for x using assms(1) by (simp add: tree_def)
  show "tree (s\<lparr>fs_ata := a\<rparr>) x = tree s x" by (rule t)
  have f: "file_block (s\<lparr>fs_ata := a\<rparr>) i k = file_block s i k" for i k using assms(1) t by (simp add: file_block_def)
  then have d: "dir_item (s\<lparr>fs_ata := a\<rparr>) i = dir_item s i" for i by (intro ext) (simp add: dir_item_def)
  show "dir_items (s\<lparr>fs_ata := a\<rparr>) i = dir_items s i" using d by (simp add: dir_items_def dir_size_def)
  show "dir_ok (s\<lparr>fs_ata := a\<rparr>) i = dir_ok s i" using d t by (simp add: dir_ok_def dir_size_def)
  assume inv: "fs_inv s"
  have sl: "slots_of (s\<lparr>fs_ata := a\<rparr>) = slots_of s" and u: "used_blocks (s\<lparr>fs_ata := a\<rparr>) = used_blocks s"
    by (simp_all add: slots_of_def used_blocks_def)
  have "tree_ok (s\<lparr>fs_ata := a\<rparr>)" by (rule tree_ok_cong [OF fs_invD(3) [OF inv] sl t]) (simp add: u)
  moreover have "map_ok (s\<lparr>fs_ata := a\<rparr>)" using fs_invD(1) [OF inv] assms(2) by (simp add: map_ok_def)
  moreover have "imap_ok (s\<lparr>fs_ata := a\<rparr>)" using fs_invD(2) [OF inv] by (simp add: imap_ok_def)
  ultimately show "fs_inv (s\<lparr>fs_ata := a\<rparr>)" unfolding fs_inv_def by blast
qed

lemma change_mode:
  assumes "ata_ready a"
  shows "ata_ready (ata_driver_change_mode m a)" and "ata_drive (ata_driver_change_mode m a) = ata_drive a"
    and "ata_method (ata_driver_change_mode m a) = m" and "ata_space (ata_driver_change_mode m a) = ata_space a"
  using assms by (simp_all add: ata_driver_change_mode_def ata_irq_init_def ata_ready_def Let_def)

subsection \<open>Formatting\<close>

lemma bitmap_init_buff:
  assumes "bitmap_init (Some m) n (Some (replicate k 0)) = Inr m'" and "unat n \<le> 8 * k"
  shows "bm_buff m' = replicate k 0"
proof -
  have "unat (n div 8) \<le> k" using assms(2) by (simp add: unat_div)
  then have "replicate (unat (n div 8)) 0 @ drop (unat (n div 8)) (replicate k 0) = (replicate k 0 :: byte list)"
    by (simp flip: replicate_add)
  then show ?thesis using assms(1) \<open>unat (n div 8) \<le> k\<close> by (auto simp: bitmap_init_def bzero_prefix split: if_splits)
qed

lemma setup_inode_new:
  assumes "ata_ready (fs_ata s)"
  shows "\<exists>t. setup_inode True s = Inr t \<and> imap_ok t \<and> bm_bits (fs_imap t) = {} \<and> prev_free (fs_imap t) = 0
    \<and> ata_ready (fs_ata t) \<and> ata_method (fs_ata t) = ata_method (fs_ata s) \<and> fs_sb t = fs_sb s"
proof -
  obtain m where m: "bitmap_init (Some (fs_imap s)) 64 (Some (replicate 512 0)) = Inr m" "bm_wf m" "bm_cap m = 64"
    "bm_bits m = {}" "prev_free m = 0" using bitmap_init_zero [of 64 512 "fs_imap s"] by auto
  have b: "bm_buff m = replicate 512 0" using bitmap_init_buff [OF m(1)] by simp
  then have mb: "m\<lparr>bm_buff := replicate 512 0\<rparr> = m" by (metis bitmap.surjective bitmap.update_convs(2))
  let ?s = "s\<lparr>fs_inodes := replicate 64 inode0\<rparr>"
  let ?t = "(set_blk 2 (replicate 512 0) ?s)\<lparr>fs_imap := m\<rparr>"
  have "fs_rw (Some (replicate 512 0)) 512 2 ATA_CMD_IO_WRITE ?s = Inr (replicate 512 0, set_blk 2 (replicate 512 0) ?s)"
    using assms by (intro fs_rw_sector(2)) simp_all
  then have "setup_inode True s = Inr ?t" using m(1) mb b
    by (simp add: setup_inode_def MAX_INODES_def FS_LAYOUT_BASE_MAP_INODES_def Let_def)
  moreover have "imap_ok ?t" using m b by (simp add: imap_ok_def inode0_def MAX_INODE_BLOCKS_def)
  moreover have "ata_ready (fs_ata ?t)" using assms ata_ready_set_blk [of ?s "replicate 512 0" 2] by simp
  ultimately show ?thesis using m by (intro exI [of _ ?t]) simp
qed

lemma setup_free_map_new:
  assumes "ata_ready (fs_ata s)" and "ata_method (fs_ata s) = ATA_METHOD_POLLING" and "fs_sb s = layout"
  shows "\<exists>t. setup_free_map True s = Inr t \<and> map_ok t \<and> used_blocks t = {} \<and> fs_imap t = fs_imap s \<and> fs_inodes t = fs_inodes s"
proof -
  let ?b = "replicate 132608 0 :: byte list"
  obtain m where m: "bitmap_init (Some (fs_fmap s)) 1060864 (Some ?b) = Inr m" "bm_wf m" "bm_cap m = 1060864"
    "bm_bits m = {}" using bitmap_init_zero [of 1060864 132608 "fs_fmap s"] by auto
  have b: "bm_buff m = ?b" using bitmap_init_buff [OF m(1)] by simp
  then have mb: "m\<lparr>bm_buff := ?b\<rparr> = m" by (metis bitmap.surjective bitmap.update_convs(2))
  have l: "length ?b = 512 * 259" by simp
  have p: "ata_driver_rw (fs_tid s) (Some ?b) 132608 67 ATA_CMD_IO_WRITE (fs_ata s)
      = Inr (?b, (fs_ata s)\<lparr>ata_drive := put_sectors ?b 67 259 (blk s)\<rparr>)"
    by (rule driver_polling(2) [OF assms(1,2) l]) simp_all
  let ?t = "s\<lparr>fs_ata := (fs_ata s)\<lparr>ata_drive := put_sectors ?b 67 259 (blk s)\<rparr>, fs_fmap := m\<rparr>"
  have "setup_free_map True s = Inr ?t"
    using m(1) b mb p by (simp add: setup_free_map_def assms(3) fs_rw_def FS_LAYOUT_BASE_MAP_FREE_def Let_def)
  moreover have "map_ok ?t" using m b assms(1,3) drive_ok_put_sectors [of "blk s" 259 ?b 67]
    by (simp add: map_ok_def NBLOCKS_def FMAP_BYTES_def ata_ready_def)
  ultimately show ?thesis using m by (intro exI [of _ ?t]) (simp add: used_blocks_def)
qed

subsection \<open>kinit_fs\<close>

lemma first_inode:
  assumes "imap_ok s" and "bm_bits (fs_imap s) = {}" and "prev_free (fs_imap s) = 0"
    and "diritem_create ty nm p s = Inr (di, t)"
  shows "di_inode di = 0"
proof -
  have m: "bm_wf (fs_imap s)" "bm_cap (fs_imap s) = 64" using assms(1) by (simp_all add: imap_ok_def)
  have "bm_bits (fs_imap s) \<noteq> {..<bm_cap (fs_imap s)}" unfolding assms(2) m(2) by (metis empty_iff lessThan_iff zero_less_numeral)
  from scan_free [OF m(1) this] obtain k j m' where j: "bitmap_scan_empty (Some (fs_imap s)) = Inr (j, m')"
    "unat j = cyc 64 0 k" "\<forall>k' < k. cyc 64 0 k' \<in> {}" by (auto simp: m assms)
  then have "k = 0" by (metis empty_iff neq0_conv)
  then have "j = 0" using j(2) by (simp add: cyc_def unat_eq_0)
  then have "inode_allocate s = Inr (0, s\<lparr>fs_imap := m'\<rparr>)" using j(1) by (simp add: inode_allocate_def)
  then show ?thesis using assms(4) by (auto simp: diritem_create_def bindr_eq_Inr diritem_set_def nonnull_def split: option.splits)
qed

lemma set_sys_simps: "v_sys (set_sys s v) = s" "v_root (set_sys s v) = v_root v" "set_sys s (set_sys s' v) = set_sys s v"
  by (simp_all add: set_sys_def)

text \<open>The root directory of a new disk, whose parent is nobody.\<close>

definition new_root :: diritem where
  "new_root = mk_item INODE_TYPE_DIR 0 [47]"

lemma kinit_fs_blank:
  assumes "ata_ready (fs_ata (v_fs v))" and "magic (dec_super_block (blk (v_fs v) 1)) \<noteq> FS_HOO_MAGIC"
    and "1057478 \<le> cur_total_sectors (fs_ata (v_fs v))"
  shows "\<exists>f. kinit_fs mem v = Inr ((set_sys ((v_sys v)\<lparr>sys_fs := f, sys_files := mem\<rparr>) v)\<lparr>v_root := Some new_root\<rparr>)
    \<and> fs_inv f \<and> bm_bits (fs_imap f) = {0} \<and> card (used_blocks f) = 1 \<and> dir_ok f 0
    \<and> dir_items f 0 = [mk_item INODE_TYPE_DIR 0 [46], mk_item INODE_TYPE_DIR (- 1) [46, 46]]"
proof -
  let ?f = "v_fs v"
  define f0 where "f0 = ?f\<lparr>fs_ata := ata_driver_change_mode ATA_METHOD_POLLING (fs_ata ?f)\<rparr>"
  note cm = change_mode [OF assms(1)]
  have f0: "ata_ready (fs_ata f0)" "blk f0 = blk ?f" "ata_method (fs_ata f0) = ATA_METHOD_POLLING"
    "cur_total_sectors (fs_ata f0) = cur_total_sectors (fs_ata ?f)"
    using cm by (simp_all add: f0_def cur_total_sectors_def)
  define f1 where "f1 = set_blk 1 (enc_super_block layout @ drop 36 (blk f0 1)) (f0\<lparr>fs_sb := layout\<rparr>)"
  have 1: "setup_super_block f0 = Inr (True, f1)"
    unfolding f1_def using assms(2,3) f0 by (intro setup_super_block_new) simp_all
  have "length (enc_super_block layout @ drop 36 (blk f0 1)) = 512" using f0(1) by simp
  then have f1: "ata_ready (fs_ata f1)" "ata_method (fs_ata f1) = ATA_METHOD_POLLING" "fs_sb f1 = layout"
    using f0(1,3) by (simp_all add: f1_def)
  obtain f2 where 2: "setup_inode True f1 = Inr f2" "imap_ok f2" "bm_bits (fs_imap f2) = {}" "prev_free (fs_imap f2) = 0"
    "ata_ready (fs_ata f2)" "ata_method (fs_ata f2) = ATA_METHOD_POLLING" "fs_sb f2 = layout"
    using setup_inode_new [OF f1(1)] f1 by auto
  obtain f3 where 3: "setup_free_map True f2 = Inr f3" "map_ok f3" "used_blocks f3 = {}" "fs_imap f3 = fs_imap f2" "fs_inodes f3 = fs_inodes f2"
    using setup_free_map_new [OF 2(5-7)] by blast
  have i3: "imap_ok f3" "bm_bits (fs_imap f3) = {}" "prev_free (fs_imap f3) = 0" using 2(2-4) 3(4,5) by (simp_all add: imap_ok_def)
  have "slots_of f3 = {}" using i3(2) by (simp add: slots_of_def)
  then have inv: "fs_inv f3" using 3(2) i3(1) by (simp add: fs_inv_def tree_ok_def)
  have fr: "bm_bits (fs_imap f3) \<noteq> {..<64}" unfolding i3(2) by (metis empty_iff lessThan_iff zero_less_numeral)
  have nm: "0 \<in> set [DIRNAME_ROOT_ASCII, 0]" "cstr [DIRNAME_ROOT_ASCII, 0] = [47]" by (simp_all add: DIRNAME_ROOT_ASCII_def cstr_def)
  obtain j g where g: "diritem_create INODE_TYPE_DIR (Some [DIRNAME_ROOT_ASCII, 0]) INVALID_INDEX f3 = Inr (mk_item INODE_TYPE_DIR j [47], g)"
    "item_created f3 g (unat j)" "dir_ok g (unat j)"
    "dir_items g (unat j) = [mk_item INODE_TYPE_DIR j [46], mk_item INODE_TYPE_DIR INVALID_INDEX [46, 46]]"
    using create_dir_ok [OF inv fr, of "[DIRNAME_ROOT_ASCII, 0]" INVALID_INDEX] nm 3(3) by (auto simp: NBLOCKS_def)
  have j: "j = 0" using first_inode [OF i3 g(1)] by (simp add: mk_item_def)
  have gi: "fs_inv g" "bm_bits (fs_imap g) = {0}" "card (used_blocks g) = 1"
    using g(2) i3(2) 3(3) j by (simp_all add: item_created_def)
  define h where "h = g\<lparr>fs_ata := ata_driver_change_mode ATA_METHOD_IRQ (fs_ata g)\<rparr>"
  have rg: "ata_ready (fs_ata g)" using gi(1) by simp
  note sd = same_drive_inv [OF change_mode(2,1) [OF rg, of ATA_METHOD_IRQ], folded h_def]
  have run: "kinit_fs mem v = Inr ((set_sys ((v_sys v)\<lparr>sys_fs := h, sys_files := mem\<rparr>) v)\<lparr>v_root := Some new_root\<rparr>)"
    using 1 2(1) 3(1) g(1) by (simp add: kinit_fs_def Let_def f0_def h_def j new_root_def filesystem_init_def)
  have "used_blocks h = used_blocks g" "fs_imap h = fs_imap g" by (simp_all add: h_def used_blocks_def)
  then show ?thesis using run sd(1) [OF gi(1)] gi(2,3) g(3,4) j by (intro exI [of _ h]) (simp add: sd)
qed

end
