(* ===== verification/Load_Props.thy ===== *)
theory Load_Props
  imports Exec_Props Command_Props Fs_Start
begin

section \<open>From the built-in programs to exec\<close>

text \<open>
  What is stored under the loader's directory when the kernel starts is what exec() finds and reads: the
  composition of the directories, the descriptors and the contents of files.
\<close>

subsection \<open>Opening and closing\<close>

text \<open>The next open gets the entry \<open>i\<close> of the system's table and the \<open>k\<close>-th descriptor of the task.\<close>

definition openable :: "nat \<Rightarrow> nat \<Rightarrow> fsys \<Rightarrow> bool" where
  "openable i k s \<longleftrightarrow> i < length (sys_files s) \<and> i < MAX_OPEN_FILES \<and> f_ref (sys_files s ! i) = 0
     \<and> (\<forall>j < i. f_ref (sys_files s ! j) \<noteq> 0) \<and> fd_state k (sys_fmngr s) \<and> (\<exists>xs. fm_files (sys_fmngr s) = Some xs \<and> length xs = 64)"

lemma openable_slot:
  assumes "openable i k s"
  shows "fd_global_alloc s = Inr (word_of_nat i)" and "sint (word_of_nat i :: u32) = int i"
proof -
  have i: "i < length (sys_files s)" "i < MAX_OPEN_FILES" "f_ref (sys_files s ! i) = 0" "\<forall>j < i. f_ref (sys_files s ! j) \<noteq> 0"
    using assms by (simp_all add: openable_def)
  have "takeWhile (\<lambda>f. f_ref f \<noteq> 0) (take MAX_OPEN_FILES (sys_files s)) = take i (take MAX_OPEN_FILES (sys_files s))"
    using i by (intro takeWhile_eq_take_P_nth) simp_all
  then have "length (takeWhile (\<lambda>f. f_ref f \<noteq> 0) (take MAX_OPEN_FILES (sys_files s))) = i" using i(1,2) by simp
  then show "fd_global_alloc s = Inr (word_of_nat i)" using i(2) by (simp add: fd_global_alloc_def)
  have "unat (word_of_nat i :: u32) = i" using i(2) by (intro unat_word_of_nat_32) (simp add: MAX_OPEN_FILES_def)
  then show "sint (word_of_nat i :: u32) = int i" using sint_nonneg_32 [of "word_of_nat i"] i(2) by (simp add: MAX_OPEN_FILES_def)
qed

definition fd_nth :: "nat \<Rightarrow> u32" where
  "fd_nth k = 3 + word_of_nat (k mod 61)"

lemma unat_fd_nth: "unat (fd_nth k) = 3 + k mod 61" "sint (fd_nth k) = int (3 + k mod 61)" "fd_nth k \<noteq> - 1"
proof -
  have k: "k mod 61 < 61" by simp
  show u: "unat (fd_nth k) = 3 + k mod 61" using k by (simp add: fd_nth_def unat_add_32 unat_word_of_nat_32)
  then show "sint (fd_nth k) = int (3 + k mod 61)" using sint_nonneg_32 [of "fd_nth k"] k by simp
  show "fd_nth k \<noteq> - 1"
  proof
    assume "fd_nth k = - 1"
    then have "unat (fd_nth k) = 4294967295" by simp
    then show False using u k by linarith
  qed
qed

text \<open>The state after the open: the entry names the inode, and the descriptor the entry.\<close>

definition opened :: "nat \<Rightarrow> nat \<Rightarrow> u32 \<Rightarrow> fsys \<Rightarrow> fsys \<Rightarrow> bool" where
  "opened i k ino s s' \<longleftrightarrow> sys_fs s' = sys_fs s \<and> sys_files s' = (sys_files s)[i := \<lparr>f_inode_idx = ino, f_ref = 1\<rparr>]
     \<and> fd_state (Suc k) (sys_fmngr s') \<and> (\<exists>xs. fm_files (sys_fmngr s') = Some xs \<and> length xs = 64 \<and> xs ! (3 + k mod 61) = word_of_nat i)"

lemma fmngr_alloc_files: "fmngr_alloc (Some m) = Inr (fd, m') \<Longrightarrow> fm_files m' = fm_files m"
  by (auto simp: fmngr_alloc_def bindr_eq_Inr)

lemma files_open_ok:
  assumes o: "openable i k (v_sys v)" and find: "diritem_find (v_root v) (Some nm) (Some diritem0) (v_fs v) = Inr (True, it, v_fs v)"
    and it: "di_type it = INODE_TYPE_FILE" "unat (di_inode it) < 64"
  shows "\<exists>s'. files_open (Some nm) v = Inr (fd_nth k, set_sys s' v) \<and> opened i k (di_inode it) (v_sys v) s'"
proof -
  let ?s = "v_sys v"
  note sl = openable_slot [OF o]
  have l: "i < length (sys_files ?s)" "f_ref (sys_files ?s ! i) = 0" "i < MAX_OPEN_FILES" using o by (simp_all add: openable_def)
  obtain xs where xs: "fm_files (sys_fmngr ?s) = Some xs" "length xs = 64" using o by (auto simp: openable_def)
  obtain m where m: "fmngr_alloc (Some (sys_fmngr ?s)) = Inr (fd_nth k, m)" "fd_state (Suc k) m"
    using fd_alloc_step [of k "sys_fmngr ?s"] o by (auto simp: openable_def fd_nth_def)
  have fm: "fm_files m = Some xs" using fmngr_alloc_files [OF m(1)] xs(1) by simp
  have k: "3 + k mod 61 < 64" using mod_less_divisor [of 61 k] by linarith
  have u: "unat (word_of_nat i :: u32) = i" using l(3) by (intro unat_word_of_nat_32) (simp add: MAX_OPEN_FILES_def)
  have ni: "(word_of_nat i :: u32) \<noteq> INVALID_INDEX" 
  proof
    assume "(word_of_nat i :: u32) = INVALID_INDEX"
    then have "i = 4294967295" using u by simp
    then show False using l(3) by (simp add: MAX_OPEN_FILES_def)
  qed
  have nk: "\<not> int (3 + k mod 61) > 64" using k by linarith
  let ?m = "m\<lparr>fm_files := Some (xs[3 + k mod 61 := word_of_nat i])\<rparr>"
  have set: "fmngr_files_set (Some m) (fd_nth k) (word_of_nat i) = Inr ?m"
    using fm xs(2) k nk ni unat_fd_nth(2) [of k] by (simp add: fmngr_files_set_def write_at_nat del: of_nat_add)
  have "sint (di_inode it) = int (unat (di_inode it))" using it(2) by (intro sint_nonneg_32) simp
  then have ok: "\<not> sint (di_inode it) > int MAX_INODES" using it(2) unfolding MAX_INODES_def by linarith
  let ?fls = "(sys_files ?s)[i := \<lparr>f_inode_idx = di_inode it, f_ref = 1\<rparr>]"
  have e: "(sys_files ?s ! i)\<lparr>f_inode_idx := di_inode it, f_ref := 1\<rparr> = \<lparr>f_inode_idx = di_inode it, f_ref = 1\<rparr>" by simp
  let ?s' = "?s\<lparr>sys_files := ?fls, sys_fmngr := ?m\<rparr>"
  have "files_open (Some nm) v = Inr (fd_nth k, set_sys ?s' v)"
    using find ok it(1) sl l m(1) set
    by (simp add: files_open_def set_fs_same read_at_nat write_at_nat e)
  moreover have "opened i k (di_inode it) ?s ?s'"
    using m(2) k xs(2) by (simp add: opened_def fd_state_def)
  ultimately show ?thesis by blast
qed

lemma opened_file:
  assumes "openable i k s" and "opened i k ino s s'" and "unat ino \<in> bm_bits (fs_imap (sys_fs s))"
  shows "fd_open s' (fd_nth k) ino"
proof -
  have k: "3 + k mod 61 < 64" using mod_less_divisor [of 61 k] by linarith
  obtain xs where xs: "fm_files (sys_fmngr s') = Some xs" "length xs = 64" "xs ! (3 + k mod 61) = word_of_nat i"
    using assms(2) by (auto simp: opened_def)
  have nk: "\<not> int (3 + k mod 61) > 64" using k by linarith
  have "fmngr_files_get (Some (sys_fmngr s')) (fd_nth k) = Inr (word_of_nat i)"
    using xs k nk unat_fd_nth(2) [of k] by (simp add: fmngr_files_get_def read_at_nat del: of_nat_add)
  moreover have "i < length (sys_files s)" using assms(1) by (simp add: openable_def)
  ultimately have "file_of msg (fd_nth k) s' = Inr ino" for msg
    using assms(2) openable_slot(2) [OF assms(1)] by (simp add: file_of_def opened_def read_at_nat)
  then show ?thesis using assms(2,3) unat_fd_nth(1) [of k] k by (simp add: fd_open_def opened_def)
qed

text \<open>Closing gives the entry back; the descriptor stays behind.\<close>

lemma files_close_ok:
  assumes o: "openable i k s" and op: "opened i k ino s s'"
  shows "\<exists>t. files_close (fd_nth k) s' = Inr t \<and> sys_fs t = sys_fs s' \<and> openable i (Suc k) t"
proof -
  have k: "3 + k mod 61 < 64" using mod_less_divisor [of 61 k] by linarith
  obtain xs where xs: "fm_files (sys_fmngr s') = Some xs" "length xs = 64" "xs ! (3 + k mod 61) = word_of_nat i"
    using op by (auto simp: opened_def)
  have nk: "\<not> int (3 + k mod 61) > 64" using k by linarith
  have g: "fmngr_files_get (Some (sys_fmngr s')) (fd_nth k) = Inr (word_of_nat i)"
    using xs k nk unat_fd_nth(2) [of k] by (simp add: fmngr_files_get_def read_at_nat del: of_nat_add)
  have i: "i < length (sys_files s)" "i < MAX_OPEN_FILES" "\<forall>j < i. f_ref (sys_files s ! j) \<noteq> 0" using o by (simp_all add: openable_def)
  have f: "sys_files s' = (sys_files s)[i := \<lparr>f_inode_idx = ino, f_ref = 1\<rparr>]" using op by (simp add: opened_def)
  let ?t = "s'\<lparr>sys_files := (sys_files s)[i := \<lparr>f_inode_idx = ino, f_ref = 0\<rparr>]\<rparr>"
  have "files_close (fd_nth k) s' = Inr ?t"
    using g nk i f unat_fd_nth(2) [of k] openable_slot(2) [OF o]
    by (simp add: files_close_def fd_global_free_def read_at_nat write_at_nat del: of_nat_add)
  moreover have "openable i (Suc k) ?t" using i op xs by (simp add: openable_def opened_def)
  ultimately show ?thesis by (intro exI [of _ ?t]) simp
qed

subsection \<open>The name of a program\<close>

definition BIN :: "byte list" where "BIN = [98, 105, 110]"

lemma loader_path: "full_path [BIN] c [] = [47, 98, 105, 110, 47] @ c"
  by (simp add: full_path_def path_of_def BIN_def)

lemma filename_append_loader:
  assumes "0 \<notin> set c" and "length c < 59"
  shows "filename_append (Some DIR_LOADER) (Some (replicate 64 0)) (Some (c @ 0 # junk))
    = Inr (full_path [BIN] c [] @ 0 # replicate (58 - length c) 0)"
proof -
  have s1: "strlen DIR_LOADER = Inr 5" using strlen_at [of "[47, 98, 105, 110, 47]" "[]"] by (simp add: DIR_LOADER_def)
  have m1: "memcpy_loop (replicate 64 0) 0 DIR_LOADER 0 5 = Inr ([47, 98, 105, 110, 47] @ replicate 59 0)"
    by (simp add: memcpy_loop_eq DIR_LOADER_def)
  have s2: "strlen ([47, 98, 105, 110, 47] @ replicate 59 0) = Inr 5"
    using strlen_at [of "[47, 98, 105, 110, 47]" "replicate 58 0"] by (simp add: replicate_Suc [of 58, symmetric, simplified] del: replicate_Suc)
  have s3: "strlen (c @ 0 # junk) = Inr (length c)" using strlen_at [OF assms(1)] .
  have "59 - length c = Suc (58 - length c)" using assms(2) by simp
  then have m2: "memcpy_loop ([47, 98, 105, 110, 47] @ replicate 59 0) 5 (c @ 0 # junk) 0 (length c)
      = Inr ([47, 98, 105, 110, 47] @ c @ 0 # replicate (58 - length c) 0)"
  proof -
    have "drop (5 + length c) ([47, 98, 105, 110, 47] @ replicate 59 0 :: byte list) = 0 # replicate (58 - length c) 0"
      by (subst drop_append) (simp add: \<open>59 - length c = Suc (58 - length c)\<close>)
    then show ?thesis using assms(2) by (subst memcpy_loop_eq) (simp_all del: append_Cons)
  qed
  show ?thesis unfolding loader_path using s1 m1 s2 s3 m2 by (simp add: filename_append_def)
qed

subsection \<open>Storing and loading\<close>

text \<open>A directory gets one more item, and the file it names the bytes \<open>img\<close>; what else there is does not change.\<close>

definition file_added :: "fs \<Rightarrow> fs \<Rightarrow> diritem \<Rightarrow> u32 \<Rightarrow> byte list \<Rightarrow> byte list \<Rightarrow> bool" where
  "file_added f g d j c img \<longleftrightarrow> fs_inv g \<and> unat j \<notin> bm_bits (fs_imap f) \<and> bm_bits (fs_imap g) = insert (unat j) (bm_bits (fs_imap f))
     \<and> grows f g \<and> dir_ok g (unat (di_inode d)) \<and> dir_items g (unat (di_inode d)) = dir_items f (unat (di_inode d)) @ [mk_item INODE_TYPE_FILE j c]
     \<and> (\<forall>x \<in> bm_bits (fs_imap f). x \<noteq> unat (di_inode d) \<longrightarrow> same_file f g x)
     \<and> complete g (unat j) \<and> i_size (fs_inodes g ! unat j) = word_of_nat (length img) \<and> file_data g (unat j) = img
     \<and> card (used_blocks g) \<le> card (used_blocks f) + 7 + 3 * (length img div 512)"

lemma file_added_write:
  assumes cin: "created_in f g d INODE_TYPE_FILE j c" and ok: "dir_ok f (unat (di_inode d))" and inv: "fs_inv t" and im: "fs_imap t = fs_imap g"
    and same: "\<forall>x \<in> bm_bits (fs_imap g). x \<noteq> unat j \<longrightarrow> same_file g t x"
    and data: "complete t (unat j)" "i_size (fs_inodes t ! unat j) = word_of_nat (length img)" "file_data t (unat j) = img"
    and card: "card (used_blocks t) \<le> card (used_blocks g) + 3 * (length img div 512 + 1)"
  shows "file_added f t d j c img"
proof -
  let ?i = "unat (di_inode d)"
  have bits: "bm_bits (fs_imap g) = insert (unat j) (bm_bits (fs_imap f))" "unat j \<notin> bm_bits (fs_imap f)"
    using cin by (simp_all add: created_in_def)
  have sm: "same_file g t x" "x \<in> bm_bits (fs_imap t)" if "x \<in> bm_bits (fs_imap f)" for x using that bits same im by auto
  have i: "?i \<in> bm_bits (fs_imap f)" using ok by (simp add: dir_ok_def)
  have cg: "dir_ok g ?i" "dir_items g ?i = dir_items f ?i @ [mk_item INODE_TYPE_FILE j c]"
    "\<forall>x \<in> bm_bits (fs_imap f). x \<noteq> ?i \<longrightarrow> same_file f g x" "card (used_blocks g) \<le> card (used_blocks f) + 4"
    using cin by (simp_all add: created_in_def)
  have "grows f t" by (rule created_grows_later [OF cin im same])
  moreover have "same_file f t x" if "x \<in> bm_bits (fs_imap f)" "x \<noteq> ?i" for x using same_file_trans sm(1) cg(3) that by blast
  ultimately show ?thesis
    using inv im bits same_file_dir [OF sm [OF i] cg(1)] cg(2,4) data card by (simp add: file_added_def)
qed

lemma builtin_stored:
  assumes "fs_inv (v_fs v)" and "v_root v = Some r" and "walkable (v_fs v) r [BIN]" and "lookup_dir (v_fs v) r [BIN] = Some d"
    and "dir_ok (v_fs v) (unat (di_inode d))" and "search_dir (v_fs v) d c = None"
    and "dir_size (v_fs v) (unat (di_inode d)) + 22 < 21 * 16518" and "bm_bits (fs_imap (v_fs v)) \<noteq> {..<64}"
    and "c \<noteq> []" and "set c \<inter> {0, 32, 47} = {}" and "length c \<le> 10" and "openable i k (v_sys v)"
    and "img \<noteq> []" and "length img < 512 * 16518" and "length img mod 512 \<noteq> 0"
    and "card (used_blocks (v_fs v)) + 7 + 3 * (length img div 512) \<le> NBLOCKS"
  shows "\<exists>j v1. builtin_to_file (Some (c @ 0 # junk)) (Some img) (word_of_nat (length img)) v = Inr v1 \<and> v_root v1 = Some r
    \<and> openable i (Suc k) (v_sys v1) \<and> file_added (v_fs v) (v_fs v1) d j c img"
proof -
  have c: "0 \<notin> set c" "47 \<notin> set c" using assms(10) by auto
  have p: "path_ok [BIN] c []" using c assms(9) by (simp add: path_ok_def BIN_def)
  let ?len = "word_of_nat (length img) :: u32"
  have u: "unat ?len = length img" using assms(14) by (intro unat_word_of_nat_32) simp
  have len: "0 < ?len" "unat ?len < 512 * 16518" using u assms(13,14) by (simp_all add: word_less_nat_alt)
  have bo: "buf_ok img (unat ?len)" using u assms(15) by (simp add: buf_ok_def)
  have k: "kind_of [] = INODE_TYPE_FILE" by (simp add: kind_of_def)
  let ?nm = "full_path [BIN] c [] @ 0 # replicate (58 - length c) 0"
  have l: "length (full_path [BIN] c []) < 16" using assms(11) by (simp add: loader_path)
  have room: "card (used_blocks (v_fs v)) + 4 \<le> NBLOCKS" using assms(16) by simp
  obtain j g where g: "files_create ?nm v = Inr (0, set_fs g v)" "created_in (v_fs v) g d INODE_TYPE_FILE j c"
    "diritem_find (Some r) (Some ?nm) (Some diritem0) g = Inr (True, mk_item INODE_TYPE_FILE j c, g)"
    using files_create_run [OF assms(1,2) p l assms(3-8) room, unfolded k] by blast
  have invg: "fs_inv g" and jb: "unat j \<in> bm_bits (fs_imap g)" and card: "card (used_blocks g) \<le> card (used_blocks (v_fs v)) + 4"
    using g(2) by (simp_all add: created_in_def)
  have j64: "unat j < 64" using inode_bound invg jb by blast
  let ?v = "set_fs g v"
  have sv: "v_sys ?v = (v_sys v)\<lparr>sys_fs := g\<rparr>" "v_root ?v = Some r" by (simp_all add: set_fs_def set_sys_simps assms(2))
  have o1: "openable i k (v_sys ?v)" using assms(12) by (simp add: sv openable_def)
  obtain s1 where s1: "files_open (Some ?nm) ?v = Inr (fd_nth k, set_sys s1 ?v)" "opened i k j (v_sys ?v) s1"
    using files_open_ok [OF o1, of ?nm "mk_item INODE_TYPE_FILE j c"] g(3) j64 assms(2) by (auto simp: sv mk_item_def)
  have f1: "sys_fs s1 = g" using s1(2) by (simp add: opened_def sv)
  have fd1: "fd_open s1 (fd_nth k) j" using opened_file [OF o1 s1(2)] jb by (simp add: sv)
  have r1: "card (used_blocks (sys_fs s1)) + 3 * (unat ?len div 512 + 1) \<le> NBLOCKS" using assms(16) card unfolding f1 u by simp
  obtain s2 where s2: "files_write (fd_nth k) (Some img) ?len s1 = Inr s2" "fs_inv (sys_fs s2)" "complete (sys_fs s2) (unat j)"
    "i_size (fs_inodes (sys_fs s2) ! unat j) = ?len" "file_data (sys_fs s2) (unat j) = take (unat ?len) img"
    "\<exists>t. s2 = s1\<lparr>sys_fs := t\<rparr>" "fs_imap (sys_fs s2) = fs_imap g"
    "\<forall>x \<in> bm_bits (fs_imap g). x \<noteq> unat j \<longrightarrow> same_file g (sys_fs s2) x"
    "card (used_blocks (sys_fs s2)) \<le> card (used_blocks g) + 3 * (unat ?len div 512 + 1)"
    using files_write_ok [OF _ fd1 len bo r1] invg unfolding f1 by blast
  let ?t = "sys_fs s2"
  have o2: "openable i k ((v_sys ?v)\<lparr>sys_fs := ?t\<rparr>)" using o1 by (simp add: openable_def)
  have op2: "opened i k j ((v_sys ?v)\<lparr>sys_fs := ?t\<rparr>) s2" using s1(2) s2(6) by (auto simp: opened_def)
  obtain s3 where s3: "files_close (fd_nth k) s2 = Inr s3" "sys_fs s3 = ?t" "openable i (Suc k) s3" using files_close_ok [OF o2 op2] by blast
  let ?v1 = "set_sys s3 (set_sys s1 ?v)"
  have run: "builtin_to_file (Some (c @ 0 # junk)) (Some img) ?len v = Inr ?v1"
    using assms(11) len(1) g(1) s1(1) s2(1) s3(1) unat_fd_nth(3) [of k] filename_append_loader [OF c(1), of junk]
    by (simp add: builtin_to_file_def bzero_def memset_eq set_sys_simps)
  have sv1: "v_sys ?v1 = s3" "v_root ?v1 = Some r" by (simp_all add: set_sys_simps sv assms(2))
  have fd: "file_data ?t (unat j) = img" using s2(5) u by simp
  have cu: "card (used_blocks ?t) \<le> card (used_blocks g) + 3 * (length img div 512 + 1)" using s2(9) u by simp
  have "file_added (v_fs v) ?t d j c img" by (rule file_added_write [OF g(2) assms(5) s2(2,7,8,3,4) fd cu])
  then show ?thesis using run sv1 s3(2,3) by (intro exI [of _ j] exI [of _ ?v1]) simp
qed

subsection \<open>A stocked directory\<close>

text \<open>The file that the item \<open>c\<close> of the directory names holds \<open>img\<close>.\<close>

definition holds :: "fs \<Rightarrow> diritem \<Rightarrow> byte list \<times> byte list \<Rightarrow> bool" where
  "holds f d p \<longleftrightarrow> (\<exists>j n. search_dir f d (fst p) = Some n \<and> item_at f d n = mk_item INODE_TYPE_FILE j (fst p)
     \<and> unat j \<in> bm_bits (fs_imap f) \<and> unat j \<noteq> unat (di_inode d) \<and> complete f (unat j)
     \<and> i_size (fs_inodes f ! unat j) = word_of_nat (length (snd p)) \<and> file_data f (unat j) = snd p)"

definition program_blocks :: "(byte list \<times> byte list) list \<Rightarrow> nat" where
  "program_blocks ps = sum_list (map (\<lambda>p. 7 + 3 * (length (snd p) div 512)) ps)"

text \<open>The names of the loader's directory are the two of a new directory and those of \<open>ps\<close>, and each has its program.\<close>

definition stocked :: "vfs \<Rightarrow> diritem \<Rightarrow> diritem \<Rightarrow> nat \<Rightarrow> nat \<Rightarrow> (byte list \<times> byte list) list \<Rightarrow> bool" where
  "stocked v r d i k ps \<longleftrightarrow> fs_inv (v_fs v) \<and> v_root v = Some r \<and> walkable (v_fs v) r [BIN] \<and> lookup_dir (v_fs v) r [BIN] = Some d
     \<and> dir_ok (v_fs v) (unat (di_inode d)) \<and> openable i k (v_sys v)
     \<and> map name_of (dir_items (v_fs v) (unat (di_inode d))) = [[46], [46, 46]] @ map fst ps
     \<and> card (bm_bits (fs_imap (v_fs v))) = 2 + length ps \<and> card (used_blocks (v_fs v)) \<le> 5 + program_blocks ps
     \<and> (\<forall>p \<in> set ps. holds (v_fs v) d p)"

definition program_ok :: "byte list \<times> byte list \<Rightarrow> bool" where
  "program_ok p \<longleftrightarrow> fst p \<noteq> [] \<and> fst p \<notin> {[46], [46, 46]} \<and> set (fst p) \<inter> {0, 32, 47} = {} \<and> length (fst p) \<le> 10
     \<and> snd p \<noteq> [] \<and> length (snd p) < 512 * 16518 \<and> length (snd p) mod 512 \<noteq> 0"

lemma holds_added:
  assumes h: "holds f d p" and a: "file_added f g d j c img" and ok: "dir_ok f (unat (di_inode d))"
  shows "holds g d p"
proof -
  obtain j' n where n: "search_dir f d (fst p) = Some n" "item_at f d n = mk_item INODE_TYPE_FILE j' (fst p)"
    "unat j' \<in> bm_bits (fs_imap f)" "unat j' \<noteq> unat (di_inode d)" "complete f (unat j')"
    "i_size (fs_inodes f ! unat j') = word_of_nat (length (snd p))" "file_data f (unat j') = snd p"
    using h by (auto simp: holds_def)
  have gr: "grows f g" and sm: "same_file f g (unat j')" and b: "unat j' \<in> bm_bits (fs_imap g)"
    using a n(3,4) by (simp_all add: file_added_def)
  show ?thesis
    using grows_search [OF gr ok n(1)] same_file_data [OF sm n(5)] sm n b unfolding holds_def
    by (intro exI [of _ j'] exI [of _ n]) (simp add: same_file_def)
qed

lemma stocked_add:
  assumes s: "stocked v r d i k ps" and v1: "v_root v1 = Some r" "openable i (Suc k) (v_sys v1)"
    and a: "file_added (v_fs v) (v_fs v1) d j c img" and c: "0 \<notin> set c" "length c < 16" and new: "search_dir (v_fs v) d c = None"
  shows "stocked v1 r d i (Suc k) (ps @ [(c, img)])"
proof -
  let ?f = "v_fs v" and ?g = "v_fs v1" and ?i = "unat (di_inode d)"
  have st: "fs_inv ?f" "walkable ?f r [BIN]" "lookup_dir ?f r [BIN] = Some d" "dir_ok ?f ?i"
    "map name_of (dir_items ?f ?i) = [[46], [46, 46]] @ map fst ps" "card (bm_bits (fs_imap ?f)) = 2 + length ps"
    "card (used_blocks ?f) \<le> 5 + program_blocks ps" "\<forall>p \<in> set ps. holds ?f d p"
    using s by (simp_all add: stocked_def)
  have ad: "fs_inv ?g" "unat j \<notin> bm_bits (fs_imap ?f)" "bm_bits (fs_imap ?g) = insert (unat j) (bm_bits (fs_imap ?f))" "grows ?f ?g"
    "dir_ok ?g ?i" "dir_items ?g ?i = dir_items ?f ?i @ [mk_item INODE_TYPE_FILE j c]"
    "complete ?g (unat j)" "i_size (fs_inodes ?g ! unat j) = word_of_nat (length img)" "file_data ?g (unat j) = img"
    "card (used_blocks ?g) \<le> card (used_blocks ?f) + 7 + 3 * (length img div 512)"
    using a by (simp_all add: file_added_def)
  note nm = mk_item_name [OF c(2,1), of INODE_TYPE_FILE j]
  have fin: "finite (bm_bits (fs_imap ?f))" using st(6) card.infinite by fastforce
  have "search_dir ?g d c = Some (length (dir_items ?f ?i))" using new nm by (simp add: search_dir_def ad(6) first_match_append)
  moreover have "item_at ?g d (length (dir_items ?f ?i)) = mk_item INODE_TYPE_FILE j c" by (simp add: item_at_def ad(6))
  moreover have "unat j \<noteq> ?i" using ad(2) st(4) by (auto simp: dir_ok_def)
  ultimately have new: "holds ?g d (c, img)" using ad(3,7-9) by (auto simp: holds_def)
  have old: "holds ?g d p" if "p \<in> set ps" for p using holds_added [OF _ a st(4)] st(8) that by blast
  have cu: "card (used_blocks ?g) \<le> 5 + program_blocks (ps @ [(c, img)])" using ad(10) st(7) by (simp add: program_blocks_def)
  have cb: "card (bm_bits (fs_imap ?g)) = 2 + length (ps @ [(c, img)])" using ad(2,3) st(6) fin by simp
  have names: "map name_of (dir_items ?g ?i) = [[46], [46, 46]] @ map fst (ps @ [(c, img)])" using st(5) nm by (simp add: ad(6))
  show ?thesis
    using v1 ad(1,5) grows_lookup [OF ad(4) st(2,3)] names cb cu new old unfolding stocked_def by auto
qed

text \<open>One more program.\<close>

lemma stocked_builtin:
  assumes s: "stocked v r d i k ps" and p: "program_ok (c, img)" and new: "c \<notin> fst ` set ps" and n: "length ps < 60"
    and room: "5 + program_blocks (ps @ [(c, img)]) \<le> NBLOCKS"
  shows "\<exists>v1. builtin_to_file (Some (c @ [0])) (Some img) (word_of_nat (length img)) v = Inr v1 \<and> stocked v1 r d i (Suc k) (ps @ [(c, img)])"
proof -
  let ?f = "v_fs v" and ?i = "unat (di_inode d)"
  have st: "fs_inv ?f" "v_root v = Some r" "walkable ?f r [BIN]" "lookup_dir ?f r [BIN] = Some d" "dir_ok ?f ?i" "openable i k (v_sys v)"
    "map name_of (dir_items ?f ?i) = [[46], [46, 46]] @ map fst ps" "card (bm_bits (fs_imap ?f)) = 2 + length ps"
    "card (used_blocks ?f) \<le> 5 + program_blocks ps"
    using s by (simp_all add: stocked_def)
  have c: "c \<noteq> []" "c \<notin> {[46], [46, 46]}" "set c \<inter> {0, 32, 47} = {}" "length c \<le> 10" and img: "img \<noteq> []" "length img < 512 * 16518" "length img mod 512 \<noteq> 0"
    using p by (simp_all add: program_ok_def)
  have "c \<notin> set (map name_of (dir_items ?f ?i))" using new c(2) by (simp add: st(7))
  then have none: "search_dir ?f d c = None" by (auto simp: search_dir_def first_match_None)
  have "length (dir_items ?f ?i) = 2 + length ps" using arg_cong [OF st(7), of length] by simp
  then have sz: "dir_size ?f ?i + 22 < 21 * 16518" using n by (simp add: dir_items_def)
  have fr: "bm_bits (fs_imap ?f) \<noteq> {..<64}"
  proof
    assume "bm_bits (fs_imap ?f) = {..<64}"
    then have "64 = 2 + length ps" using st(8) by simp
    then show False using n by simp
  qed
  have rm: "card (used_blocks ?f) + 7 + 3 * (length img div 512) \<le> NBLOCKS" using room st(9) by (simp add: program_blocks_def)
  obtain j v1 where v1: "builtin_to_file (Some (c @ [0])) (Some img) (word_of_nat (length img)) v = Inr v1" "v_root v1 = Some r"
    "openable i (Suc k) (v_sys v1)" "file_added ?f (v_fs v1) d j c img"
    using builtin_stored [OF st(1-5) none sz fr c(1,3,4) st(6) img rm, of "[]"] by auto
  show ?thesis using v1(1) stocked_add [OF s v1(2-4) _ _ none] c(3,4) by auto
qed

lemma stocked_builtins:
  assumes "stocked v r d i k ps" and "\<forall>p \<in> set qs. program_ok p" and "distinct (map fst (ps @ qs))" and "length ps + length qs \<le> 60"
    and "5 + program_blocks (ps @ qs) \<le> NBLOCKS"
  shows "\<exists>v1. all_builtins (map (\<lambda>p. (fst p @ [0], snd p)) qs) v = Inr v1 \<and> stocked v1 r d i (k + length qs) (ps @ qs)"
  using assms
proof (induction qs arbitrary: v k ps)
  case (Cons q qs)
  obtain c img where q: "q = (c, img)" by (cases q)
  have p: "program_ok (c, img)" "c \<notin> fst ` set ps" "length ps < 60" using Cons.prems(2-4) q by auto
  have rm: "5 + program_blocks (ps @ [(c, img)]) \<le> NBLOCKS" using Cons.prems(5) q by (simp add: program_blocks_def)
  obtain v1 where v1: "builtin_to_file (Some (c @ [0])) (Some img) (word_of_nat (length img)) v = Inr v1"
    "stocked v1 r d i (Suc k) (ps @ [(c, img)])" using stocked_builtin [OF Cons.prems(1) p rm] by blast
  obtain v2 where "all_builtins (map (\<lambda>p. (fst p @ [0], snd p)) qs) v1 = Inr v2"
    "stocked v2 r d i (Suc k + length qs) ((ps @ [(c, img)]) @ qs)"
    using Cons.IH [OF v1(2)] Cons.prems(2-5) q by auto
  then show ?case using v1(1) q by (intro exI [of _ v2]) simp
qed simp

subsection \<open>What exec() finds\<close>

text \<open>The command line \<open>c\<close> leads to the bytes \<open>img\<close>: its path opens, and the file has their number and delivers them.\<close>

definition runs :: "vfs \<Rightarrow> byte list \<Rightarrow> byte list \<Rightarrow> bool" where
  "runs v line img \<longleftrightarrow> (\<exists>path param fd s. exec_args line = Inr (path, param, 1) \<and> files_open (Some path) v = Inr (fd, set_sys s v)
     \<and> fd \<noteq> - 1 \<and> files_get_size fd s = Inr (word_of_nat (length img))
     \<and> (\<forall>slp buf. length img \<le> length buf \<longrightarrow>
          files_read slp fd (Some buf) (word_of_nat (length img)) s = Inr (img @ drop (length img) buf, s)))"

lemma exec_args_name:
  assumes "c \<noteq> []" and "set c \<inter> {0, 32, 47} = {}" and "length c \<le> 10"
  shows "\<exists>rest param. exec_args (c @ 0 # junk) = Inr (full_path [BIN] c [] @ 0 # rest, param, 1)"
proof -
  have c: "0 \<notin> set c" "32 \<notin> set c" "47 \<notin> set c" using assms(2) by auto
  have cz: "cstr (c @ 0 # junk) = c" unfolding cstr_def using c(1) by (subst takeWhile_append2) auto
  have w: "cmd_word (c @ 0 # junk) = c" using c(2) by (auto simp: cmd_word_def cz takeWhile_eq_all_conv)
  then have a: "cmd_arg (c @ 0 # junk) = []" by (simp add: cmd_arg_def cz)
  have h: "take 1 c \<noteq> [47]" using c(3) by (cases c) auto
  have pa: "cmd_path (c @ 0 # junk) = full_path [BIN] c []" by (simp only: cmd_path_def w h if_False loader_path)
  have "256 - length (full_path [BIN] c []) = Suc (255 - length (full_path [BIN] c []))" using assms(3) by (simp add: loader_path)
  then show ?thesis using exec_args_eq [of "c @ 0 # junk"] assms(3) by (simp add: cz pa a)
qed

lemma stocked_runs:
  assumes s: "stocked v r d i k ps" and p: "(c, img) \<in> set ps" "program_ok (c, img)"
  shows "runs v (c @ 0 # junk) img"
proof -
  let ?f = "v_fs v"
  have st: "fs_inv ?f" "v_root v = Some r" "walkable ?f r [BIN]" "lookup_dir ?f r [BIN] = Some d" "dir_ok ?f (unat (di_inode d))"
    "openable i k (v_sys v)" "holds ?f d (c, img)" using s p(1) by (auto simp: stocked_def)
  have c: "c \<noteq> []" "set c \<inter> {0, 32, 47} = {}" "length c \<le> 10" and il: "length img < 512 * 16518" using p(2) by (simp_all add: program_ok_def)
  obtain j n where h: "search_dir ?f d c = Some n" "item_at ?f d n = mk_item INODE_TYPE_FILE j c" "unat j \<in> bm_bits (fs_imap ?f)"
    "complete ?f (unat j)" "i_size (fs_inodes ?f ! unat j) = word_of_nat (length img)" "file_data ?f (unat j) = img"
    using st(7) by (auto simp: holds_def)
  obtain rest param where ea: "exec_args (c @ 0 # junk) = Inr (full_path [BIN] c [] @ 0 # rest, param, 1)"
    using exec_args_name [OF c] by blast
  have po: "path_ok [BIN] c []" using c by (auto simp: path_ok_def BIN_def)
  have "walkable ?f r ([BIN] @ [c])" using st(3-5) c(3) unfolding walkable_snoc by simp
  moreover have "resolve ?f r ([BIN] @ [c]) = Some (mk_item INODE_TYPE_FILE j c)" using st(4) h(1,2) unfolding resolve_snoc by simp
  ultimately have find: "diritem_find (v_root v) (Some (full_path [BIN] c [] @ 0 # rest)) (Some diritem0) ?f
      = Inr (True, mk_item INODE_TYPE_FILE j c, ?f)" unfolding st(2) using find_full [OF st(1) po, of r rest diritem0] by simp
  have j64: "unat j < 64" using inode_bound st(1) h(3) by blast
  obtain s where o: "files_open (Some (full_path [BIN] c [] @ 0 # rest)) v = Inr (fd_nth k, set_sys s v)" "opened i k j (v_sys v) s"
    using files_open_ok [OF st(6) find] j64 by (auto simp: mk_item_def)
  have f: "sys_fs s = ?f" using o(2) by (simp add: opened_def)
  note fd = opened_file [OF st(6) o(2) h(3)]
  have sz: "files_get_size (fd_nth k) s = Inr (word_of_nat (length img))"
    using fd h(5) ino_index(1) [OF fs_invD(2) [OF st(1)] j64] by (simp add: files_get_size_def fd_open_def f)
  have u: "unat (word_of_nat (length img) :: u32) = length img" using il by (intro unat_word_of_nat_32) simp
  have "files_read slp (fd_nth k) (Some buf) (word_of_nat (length img)) s = Inr (img @ drop (length img) buf, s)"
    if "length img \<le> length buf" for slp buf
    using files_read_ok [OF _ fd, of "word_of_nat (length img)" buf slp] that st(1) h(4-6) u by (simp add: f)
  then show ?thesis using ea o(1) unat_fd_nth(3) sz unfolding runs_def by blast
qed

subsection \<open>Starting on a blank disk\<close>

lemma loader_dir_created:
  assumes "fs_inv (v_fs v)" and "v_root v = Some new_root" and "bm_bits (fs_imap (v_fs v)) = {0}" and "card (used_blocks (v_fs v)) = 1"
    and "dir_ok (v_fs v) 0" and "dir_items (v_fs v) 0 = [mk_item INODE_TYPE_DIR 0 [46], mk_item INODE_TYPE_DIR (- 1) [46, 46]]"
    and "openable i k (v_sys v)"
  shows "\<exists>d v1. files_create DIR_LOADER v = Inr (0, v1) \<and> stocked v1 new_root d i k []"
proof -
  let ?f = "v_fs v"
  have r: "di_inode new_root = 0" by (simp add: new_root_def mk_item_def)
  have nm: "name_of (mk_item INODE_TYPE_DIR p [46]) = [46]" "name_of (mk_item INODE_TYPE_DIR p [46, 46]) = [46, 46]" for p
    using mk_item_name [of "[46]" INODE_TYPE_DIR p] mk_item_name [of "[46, 46]" INODE_TYPE_DIR p] by simp_all
  have p: "path_ok [] BIN [47]" "full_path [] BIN [47] @ 0 # [] = DIR_LOADER" "kind_of [47] = INODE_TYPE_DIR" "length (full_path [] BIN [47]) < 16"
    by (simp_all add: path_ok_def full_path_def path_of_def kind_of_def BIN_def DIR_LOADER_def)
  have d: "lookup_dir ?f new_root [] = Some new_root" "walkable ?f new_root []" by (simp_all add: lookup_dir_def)
  have ok: "dir_ok ?f (unat (di_inode new_root))" using assms(5) by (simp add: r)
  have s: "search_dir ?f new_root BIN = None" by (simp add: search_dir_def r assms(6) nm BIN_def)
  have sz: "dir_size ?f (unat (di_inode new_root)) + 22 < 21 * 16518" using arg_cong [OF assms(6), of length] by (simp add: r dir_items_def)
  have "1 \<notin> bm_bits (fs_imap ?f)" "(1 :: nat) \<in> {..<64}" using assms(3) by simp_all
  then have fr: "bm_bits (fs_imap ?f) \<noteq> {..<64}" by blast
  have rm: "card (used_blocks ?f) + 4 \<le> NBLOCKS" using assms(4) by (simp add: NBLOCKS_def)
  obtain j g where g: "files_create DIR_LOADER v = Inr (0, set_fs g v)" "created_in ?f g new_root INODE_TYPE_DIR j BIN"
    using files_create_run [OF assms(1,2) p(1,4) d(2,1) ok s sz fr rm, of "[]"] unfolding p(2,3) by blast
  let ?d = "mk_item INODE_TYPE_DIR j BIN"
  have B: "0 \<notin> set BIN" "length BIN < 16" by (simp_all add: BIN_def)
  have w: "walkable g new_root [BIN]" "lookup_dir g new_root [BIN] = Some ?d"
    using created_resolves [OF g(2) refl _ B d(2,1) ok s] by (simp_all add: lookup_dir_def)
  have di: "di_inode ?d = j" by (simp add: mk_item_def)
  have g': "fs_inv g" "dir_ok g (unat j)" "bm_bits (fs_imap g) = {unat j, 0}" "unat j \<noteq> 0" "card (used_blocks g) \<le> 5"
    "dir_items g (unat j) = [mk_item INODE_TYPE_DIR j [46], mk_item INODE_TYPE_DIR 0 [46, 46]]"
    using g(2) assms(3,4) by (simp_all add: created_in_def r)
  have v: "v_sys (set_fs g v) = (v_sys v)\<lparr>sys_fs := g\<rparr>" "v_root (set_fs g v) = Some new_root"
    using assms(2) by (simp_all add: set_fs_def set_sys_simps)
  have o: "openable i k ((v_sys v)\<lparr>sys_fs := g\<rparr>)" using assms(7) by (simp add: openable_def)
  have "stocked (set_fs g v) new_root ?d i k []"
    using g' w o assms(2) by (simp add: stocked_def v di nm program_blocks_def)
  then show ?thesis using g(1) by blast
qed

text \<open>The seven names without their terminators.\<close>

definition program_names :: "byte list list" where
  "program_names = map butlast builtin_names"

lemma program_names_simps:
  "builtin_names = map (\<lambda>c. c @ [0]) program_names" "length program_names = 7" "distinct program_names"
  "\<forall>c \<in> set program_names. c \<noteq> [] \<and> c \<notin> {[46], [46, 46]} \<and> set c \<inter> {0, 32, 47} = {} \<and> length c \<le> 10"
  by (simp_all add: program_names_def builtin_names_def)

lemma program_blocks_small:
  assumes "\<forall>p \<in> set ps. length (snd p) < 512 * 16518"
  shows "program_blocks ps \<le> length ps * 49558"
  using assms
proof (induction ps)
  case (Cons p ps)
  have "length (snd p) div 512 < 16518" using Cons.prems by (simp add: less_mult_imp_div_less mult.commute)
  then have "7 + 3 * (length (snd p) div 512) \<le> 49558" by simp
  moreover have "program_blocks ps \<le> length ps * 49558" using Cons by simp
  ultimately show ?case by (simp add: program_blocks_def)
qed (simp add: program_blocks_def)

text \<open>C15: the kernel starts on a blank disk with all its programs. On a drive that is large enough and has no file system,
  kinit_fs() formats it and load_builtins() stores the seven images (none of them empty, longer than a file can be, or of whole
  sectors, which files_write reads beyond); afterwards the name of each of them, as a command line, leads exec() to exactly its image.
  The task that does so has a free descriptor, and the table of open files a free entry.\<close>

theorem boot_loads_programs:
  assumes "ata_ready (fs_ata (v_fs v))" and "magic (dec_super_block (blk (v_fs v) 1)) \<noteq> FS_HOO_MAGIC"
    and "1057478 \<le> cur_total_sectors (fs_ata (v_fs v))" and "openable i k ((v_sys v)\<lparr>sys_files := mem\<rparr>)"
    and "length images = 7" and "\<forall>img \<in> set images. img \<noteq> [] \<and> length img < 512 * 16518 \<and> length img mod 512 \<noteq> 0"
  shows "\<exists>v1 v2. kinit_fs mem v = Inr v1 \<and> load_builtins images v1 = Inr v2 \<and> fs_inv (v_fs v2)
    \<and> (\<forall>n < 7. runs v2 (builtin_names ! n) (images ! n))"
proof -
  obtain f where f: "kinit_fs mem v = Inr ((set_sys ((v_sys v)\<lparr>sys_fs := f, sys_files := mem\<rparr>) v)\<lparr>v_root := Some new_root\<rparr>)"
    "fs_inv f" "bm_bits (fs_imap f) = {0}" "card (used_blocks f) = 1" "dir_ok f 0"
    "dir_items f 0 = [mk_item INODE_TYPE_DIR 0 [46], mk_item INODE_TYPE_DIR (- 1) [46, 46]]"
    using kinit_fs_blank [OF assms(1-3)] by blast
  let ?v = "(set_sys ((v_sys v)\<lparr>sys_fs := f, sys_files := mem\<rparr>) v)\<lparr>v_root := Some new_root\<rparr>"
  have sv: "v_sys ?v = (v_sys v)\<lparr>sys_fs := f, sys_files := mem\<rparr>" "v_root ?v = Some new_root" by (simp_all add: set_sys_def)
  have "openable i k (v_sys ?v)" using assms(4) by (simp add: set_sys_simps openable_def)
  then obtain d v1 where d: "files_create DIR_LOADER ?v = Inr (0, v1)" "stocked v1 new_root d i k []"
    using loader_dir_created [of ?v i k] f(2-6) unfolding sv by auto
  let ?ps = "zip program_names images"
  note pn = program_names_simps
  have z: "zip builtin_names images = map (\<lambda>p. (fst p @ [0], snd p)) ?ps"
    unfolding pn(1) by (simp add: zip_map1 case_prod_unfold)
  have l: "length ?ps = 7" "map fst ?ps = program_names" using pn(2) assms(5) by simp_all
  have ok: "\<forall>p \<in> set ?ps. program_ok p"
  proof
    fix p assume p: "p \<in> set ?ps"
    have "fst p \<in> set program_names" using p l(2) by (metis image_eqI set_map)
    moreover have "snd p \<in> set images" using p by (metis prod.collapse set_zip_rightD)
    ultimately show "program_ok p" unfolding program_ok_def using pn(4) assms(6) by simp
  qed
  have dis: "distinct (map fst ([] @ ?ps))" using l(2) pn(3) by simp
  have "program_blocks ?ps \<le> 7 * 49558" using program_blocks_small [of ?ps] ok l(1) by (auto simp: program_ok_def)
  then have rm: "5 + program_blocks ([] @ ?ps) \<le> NBLOCKS" by (simp add: NBLOCKS_def)
  have n60: "length [] + length ?ps \<le> 60" using l(1) by simp
  obtain v2 where v2: "all_builtins (map (\<lambda>p. (fst p @ [0], snd p)) ?ps) v1 = Inr v2" "stocked v2 new_root d i (k + 7) ?ps"
    using stocked_builtins [OF d(2) ok dis n60 rm] l(1) by auto
  have "runs v2 (builtin_names ! n) (images ! n)" if n: "n < 7" for n
  proof -
    have "?ps ! n = (program_names ! n, images ! n)" using n pn(2) assms(5) by simp
    moreover have "?ps ! n \<in> set ?ps" using n l(1) by (intro nth_mem) simp
    ultimately have "(program_names ! n, images ! n) \<in> set ?ps" by simp
    then have "runs v2 (program_names ! n @ 0 # []) (images ! n)" using stocked_runs [OF v2(2)] ok by metis
    then show ?thesis using n pn(2) unfolding pn(1) by simp
  qed
  moreover have "load_builtins images ?v = Inr v2" using d(1) v2(1) by (simp add: load_builtins_def z)
  moreover have "fs_inv (v_fs v2)" using v2(2) by (simp add: stocked_def)
  ultimately show ?thesis using f(1) by blast
qed

text \<open>A blank drive of two million sectors and the tables of a first task.\<close>

definition vfs_blank :: vfs where
  "vfs_blank = set_sys (fsys_sample\<lparr>sys_fs := fs_sample0, sys_fmngr := fm_sample\<rparr>) vfs_sample"

theorem boot_loads_programs_witness:
  "\<exists>v1 v2. kinit_fs [\<lparr>f_inode_idx = 0, f_ref = 0\<rparr>] vfs_blank = Inr v1 \<and> load_builtins (replicate 7 [7, 8, 9]) v1 = Inr v2
    \<and> runs v2 [108, 115, 0] [7, 8, 9]"
proof -
  have s: "v_sys vfs_blank = fsys_sample\<lparr>sys_fs := fs_sample0, sys_fmngr := fm_sample\<rparr>" by (simp add: vfs_blank_def set_sys_def)
  have m: "magic (dec_super_block (blk fs_sample0 1)) \<noteq> FS_HOO_MAGIC"
    by (simp add: fs_sample0_ready dec_super_block_def FS_HOO_MAGIC_def)
  have o: "openable 0 0 ((v_sys vfs_blank)\<lparr>sys_files := [\<lparr>f_inode_idx = 0, f_ref = 0\<rparr>]\<rparr>)"
    using fm_sample_state by (simp add: s openable_def MAX_OPEN_FILES_def) (simp add: fm_sample_def)
  obtain v1 v2 where v: "kinit_fs [\<lparr>f_inode_idx = 0, f_ref = 0\<rparr>] vfs_blank = Inr v1" "load_builtins (replicate 7 [7, 8, 9]) v1 = Inr v2"
    "\<forall>n < 7. runs v2 (builtin_names ! n) (replicate 7 [7, 8, 9] ! n)"
    using boot_loads_programs [of vfs_blank 0 0 "[\<lparr>f_inode_idx = 0, f_ref = 0\<rparr>]" "replicate 7 [7, 8, 9]"] o m fs_sample0_ready
    by (auto simp: s)
  have "runs v2 [108, 115, 0] [7, 8, 9]" using v(3) [rule_format, of 2] by (simp add: builtin_names_def)
  then show ?thesis using v(1,2) by blast
qed

end
