(* ===== verification/Shell.thy ===== *)
theory Shell
  imports Commands
begin

section \<open>user/builtin_shell.c: a command of the shell\<close>

text \<open>
  The start of the shell, and what follows a line that is a command: the fork, and what parent and child do after it. Both come
  back from the trap of fork() with a result of their own, so the branch takes the result. \<open>mode_ring3\<close> and \<open>isr_part3\<close> are
  addresses of assembly, \<open>ret_addr\<close> is the return address of the stub, \<open>temp_spinlock\<close> the lock on the stack of the stub of wait.
\<close>

definition main_shell_start :: "vfs \<Rightarrow> (int \<times> vfs) res" where
  "main_shell_start v = sys_cd (Some (cstring ''/'')) v"

datatype shell_end = Waits outcome | Execs exec_end

definition main_shell_branch :: "(cclbuff \<Rightarrow> cclbuff res) \<Rightarrow> u32 \<Rightarrow> u32 \<Rightarrow> u32 \<Rightarrow> (nat \<Rightarrow> byte) \<Rightarrow> u32 \<Rightarrow> byte list \<Rightarrow> u32 \<Rightarrow> system
    \<Rightarrow> (shell_end \<times> system) res" where
  "main_shell_branch slp nul argv next_insc memory temp_spinlock cmd pid s =
     (if pid \<noteq> 0 then
        bindr (sys_wait temp_spinlock (th_tasks (sy_th s))) (\<lambda>(out, lock, ts).
        Inr (Waits out, s\<lparr>sy_th := (sy_th s)\<lparr>th_tasks := ts\<rparr>\<rparr>))
      else
        bindr (sys_exec slp nul argv next_insc memory (Some cmd) s) (\<lambda>(e, s). Inr (Execs e, s)))"

text \<open>The command as the parent runs it.\<close>

definition main_shell_command :: "(cclbuff \<Rightarrow> cclbuff res) \<Rightarrow> u32 \<Rightarrow> u32 \<Rightarrow> u32 \<Rightarrow> (nat \<Rightarrow> byte) \<Rightarrow> u32 \<Rightarrow> u32 \<Rightarrow> u32 \<Rightarrow> u32
    \<Rightarrow> byte list \<Rightarrow> system \<Rightarrow> (shell_end \<times> system) res" where
  "main_shell_command slp nul argv next_insc memory temp_spinlock mode_ring3 isr_part3 ret_addr cmd s =
     bindr (sys_fork mode_ring3 isr_part3 ret_addr (sy_th s)) (\<lambda>(pid, th).
     main_shell_branch slp nul argv next_insc memory temp_spinlock cmd pid (s\<lparr>sy_th := th\<rparr>))"

section \<open>user/lib.c: memory and the working directory\<close>

definition alloc :: "u32 \<Rightarrow> threads \<Rightarrow> (u32 option \<times> threads) res" where
  "alloc sz s = sys_alloc sz s"

definition free :: "u32 option \<Rightarrow> threads \<Rightarrow> threads res" where
  "free ptr s = sys_free ptr s"

definition workingdir :: "byte list \<Rightarrow> nat \<Rightarrow> vfs \<Rightarrow> (int \<times> byte list) res" where
  "workingdir wd len v = sys_workingdir wd len v"

end
