(* ===== verification/Startup.thy ===== *)
theory Startup
  imports Commands Pic_Pit Keyboard
begin

section \<open>kern.c and the modules: the start of the kernel\<close>

text \<open>
  kern_init() calls the modules in order, on one state \<open>kernel\<close>: the tasks and files of theory Exec, the
  memory map, the descriptor tables, the handlers, the table of system calls, the interrupt controllers and the
  keyboard. What the code finds in memory and on the ports, and the addresses that the linker chooses,
  are in the record \<open>env\<close>. The lines of the log are written as the code writes them.
\<close>

subsection \<open>The state\<close>

record env =
  env_ards :: "ards list"
  env_log :: "byte list"
  env_junk :: "nat \<Rightarrow> u32 list"
  env_tid :: "byte list"
  env_files :: "open_file list"
  env_ring :: "byte list"
  env_probe :: "nat \<Rightarrow> probe"
  env_images :: "byte list list"
  env_null :: u32
  env_gdt :: u32
  env_tss :: u32
  env_idt :: u32
  env_isr_part1 :: "nat \<Rightarrow> u32"

record gdtr =
  gdtr_size :: u16
  gdtr_linear :: u32

record idtr =
  idtr_limit :: u16
  idtr_base :: u32

record kernel =
  kn_sys :: system
  kn_log_init :: bool
  kn_mminfo :: mminfo
  kn_gdt :: "desc list"
  kn_gdtr :: gdtr
  kn_tr :: u16
  kn_isr :: "handler list"
  kn_idt :: "idt_entry list"
  kn_idtr :: idtr
  kn_stubs :: "stub list"
  kn_pic :: pic
  kn_pit :: port_trace
  kn_kbd :: kbd

abbreviation kn_mem :: "kernel \<Rightarrow> kmem" where
  "kn_mem k \<equiv> tk_mem (th_tasks (sy_th (kn_sys k)))"

abbreviation kn_out :: "kernel \<Rightarrow> out" where
  "kn_out k \<equiv> v_out (sy_vfs (kn_sys k))"

definition on_out :: "(out \<Rightarrow> out res) \<Rightarrow> kernel \<Rightarrow> kernel res" where
  "on_out f k =
     bindr (f (kn_out k)) (\<lambda>w.
     Inr (k\<lparr>kn_sys := (kn_sys k)\<lparr>sy_vfs := (sy_vfs (kn_sys k))\<lparr>v_out := w\<rparr>\<rparr>\<rparr>))"

definition on_th :: "(threads \<Rightarrow> threads res) \<Rightarrow> kernel \<Rightarrow> kernel res" where
  "on_th f k = bindr (on_threads f (kn_sys k)) (\<lambda>s. Inr (k\<lparr>kn_sys := s\<rparr>))"

definition on_kmem :: "(kmem \<Rightarrow> kmem res) \<Rightarrow> kernel \<Rightarrow> kernel res" where
  "on_kmem f k = on_th (\<lambda>th. bindr (f (th_mem th)) (\<lambda>m. Inr (set_mem m th))) k"

definition on_files :: "(vfs \<Rightarrow> vfs res) \<Rightarrow> kernel \<Rightarrow> kernel res" where
  "on_files f k =
     bindr (with_vfs (\<lambda>v. bindr (f v) (\<lambda>v. Inr ((), v))) (kn_sys k)) (\<lambda>(_, s). Inr (k\<lparr>kn_sys := s\<rparr>))"

subsection \<open>hoo.c and log.c: the log cache\<close>

text \<open>The cache lies in the two pages above the stack of the boot; the first use sets it up.\<close>

definition get_hoo_cache_buff :: "byte list \<Rightarrow> bool \<Rightarrow> cachebuff \<Rightarrow> (cachebuff \<times> bool) res" where
  "get_hoo_cache_buff mem is_init c =
     (if is_init then Inr (c, True)
      else bindr (cachebuff_set (Some c) (Some mem) (PGSIZE * 2)) (\<lambda>c. Inr (c, True)))"

definition klog :: "env \<Rightarrow> byte list \<Rightarrow> karg list \<Rightarrow> kernel \<Rightarrow> kernel res" where
  "klog e fmt args k =
     bindr (get_hoo_cache_buff (env_log e) (kn_log_init k) (out_cache (kn_out k))) (\<lambda>(c, i).
     on_out (\<lambda>w. klog_write fmt args (w\<lparr>out_cache := c\<rparr>)) (k\<lparr>kn_log_init := i\<rparr>))"

definition line :: "string \<Rightarrow> byte list" where
  "line s = cstring (s @ [CHR 0x0A])"

subsection \<open>module/io.c and module/mem.c\<close>

definition SCBUFF_COLOR_WHITE :: u32 where "SCBUFF_COLOR_WHITE = 7"
definition SCBUFF_STYLE_LIGHT :: u32 where "SCBUFF_STYLE_LIGHT = 1"

definition kinit_io :: "kernel \<Rightarrow> kernel res" where
  "kinit_io k =
     on_out (\<lambda>w.
       bindr (cga_clear (sys_cga (out_fsys w))) (\<lambda>c.
       bindr (cga_init c) (\<lambda>c.
       Inr (w\<lparr>out_fsys := (out_fsys w)\<lparr>sys_cga := cga_set_attribute SCBUFF_COLOR_WHITE SCBUFF_STYLE_LIGHT c\<rparr>\<rparr>)))) k"

definition kinit_memory :: "env \<Rightarrow> kernel \<Rightarrow> kernel res" where
  "kinit_memory e k =
     bindr (get_mminfo (env_ards e)) (\<lambda>mm.
     bindr (klog e (line ''[DEBUG] available memory: [0x%x, 0x%x)'') [KWord (mm_base mm), KWord (mm_base mm + mm_length mm)]
       (k\<lparr>kn_mminfo := mm\<rparr>)) (\<lambda>k.
     bindr (on_kmem (\<lambda>s. bindr (init_phymm_system (mm_length mm) (pmst (km_mach s))) (\<lambda>pm.
       Inr (s\<lparr>km_mach := (km_mach s)\<lparr>pmst := pm\<rparr>\<rparr>))) k)
     (on_kmem init_virmm_system)))"

subsection \<open>module/conf.c and set_gdtr\<close>

definition SIZE_GDT :: nat where "SIZE_GDT = 8"

text \<open>A descriptor has eight bytes. The register is read back for the log.\<close>

definition set_gdtr :: "env \<Rightarrow> gdtr option \<Rightarrow> u32 \<Rightarrow> u32 \<Rightarrow> kernel \<Rightarrow> kernel res" where
  "set_gdtr e gdtr gdt gdt_size k =
     nonnull ''set_gdtr(): null pointer'' gdtr (\<lambda>g.
     let g = g\<lparr>gdtr_size := ucast gdt_size, gdtr_linear := gdt\<rparr> in
     klog e (line ''[DEBUG] gdt: 0x%x, gdtr: 0x%x'') [KWord gdt, KWord (gdtr_linear g)] (k\<lparr>kn_gdtr := g\<rparr>))"

definition kinit_config :: "env \<Rightarrow> kernel \<Rightarrow> kernel res" where
  "kinit_config e k =
     bindr (klog e (line ''[DEBUG] null pointer: 0x%x'') [KWord (env_null e)] k) (\<lambda>k.
     bindr (on_kmem (\<lambda>s. Inr (s\<lparr>km_mach := paging (km_mach s)\<rparr>)) k) (\<lambda>k.
     bindr (config_gdt (kn_gdt k)) (\<lambda>gdt.
     bindr (set_gdtr e (Some (kn_gdtr k)) (env_gdt e) (word_of_nat (SIZE_GDT * 8)) (k\<lparr>kn_gdt := gdt\<rparr>)) (\<lambda>k.
     bindr (config_tss (env_tss e) (kn_gdt k)) (\<lambda>gdt.
     let tr = 5 * 8 OR 3 :: u16 in
     klog e (line ''[DEBUG] tr: 0x%x'') [KWord (ucast tr)] (k\<lparr>kn_gdt := gdt, kn_tr := tr\<rparr>))))))"

subsection \<open>module/sched.c and module/do_intr.c\<close>

definition kinit_tasks_system :: "env \<Rightarrow> kernel \<Rightarrow> kernel res" where
  "kinit_tasks_system e k =
     bindr (on_th (init_hoo (env_junk e) (env_tid e)) k)
       (on_th (\<lambda>th. bindr (init_tasks_system (th_hoo th) (th_tasks th)) (\<lambda>ts. Inr (th\<lparr>th_tasks := ts\<rparr>))))"

text \<open>An entry of the table has eight bytes.\<close>

definition kinit_interrupts :: "env \<Rightarrow> kernel \<Rightarrow> kernel res" where
  "kinit_interrupts e k =
     bindr (kinit_isr_idt (env_isr_part1 e) (kn_isr k) (kn_idt k)) (\<lambda>(isr, idt).
     let r = \<lparr>idtr_limit = 256 * 8 - 1, idtr_base = env_idt e\<rparr> in
     bindr (klog e (line ''[DEBUG] idt: 0x%x, idtr: 0x%x'') [KWord (env_idt e), KWord (idtr_base r)]
       (k\<lparr>kn_isr := isr, kn_idt := idt, kn_idtr := r\<rparr>)) (\<lambda>k.
     Inr (k\<lparr>kn_stubs := syscall_init\<rparr>)))"

subsection \<open>module/driver.c\<close>

definition MACRO2STR_ATA_TYPE_BUS :: "nat \<Rightarrow> byte list" where
  "MACRO2STR_ATA_TYPE_BUS m = cstring (if m = 0 then ''Primary'' else if m = 1 then ''Secondary'' else ''Unknown'')"

primrec MACRO2STR_ATA_TYPE_BUS_WIRE :: "bus_wire \<Rightarrow> byte list" where
  "MACRO2STR_ATA_TYPE_BUS_WIRE WIRE_LOW = cstring ''Master''"
| "MACRO2STR_ATA_TYPE_BUS_WIRE WIRE_HIGH = cstring ''Slave''"

primrec MACRO2STR_ATA_TYPE_DEVICE :: "device_type \<Rightarrow> byte list" where
  "MACRO2STR_ATA_TYPE_DEVICE DEVICE_UNKNOWN = cstring ''Unknown''"
| "MACRO2STR_ATA_TYPE_DEVICE DEVICE_ATA = cstring ''ATA''"

definition fmt_device :: "byte list" where
  "fmt_device =
     (let nl = [CHR 0x0A] in
      cstring (''================ DEVICE  INFO ================''
        @ nl @ ''bus:           %s''
        @ nl @ ''bus wire:      %s''
        @ nl @ ''type:          %s''
        @ nl @ ''io port:       0x%x''
        @ nl @ ''ctrl port:     0x%x''
        @ nl @ ''dev no.:       %d''
        @ nl @ ''total sectors: %d''
        @ nl @ ''serial no.:    %s''
        @ nl @ ''model no.:     %s'' @ nl @ nl))"

text \<open>
  The serial number has no terminator of its own when it was not cut: it is read on into the model number, which
  follows it. A string that does not end within the two is a fault of the model.
\<close>

definition device_args :: "ata_device \<Rightarrow> karg list" where
  "device_args d =
     [KStr (MACRO2STR_ATA_TYPE_BUS (bus_no d)), KStr (MACRO2STR_ATA_TYPE_BUS_WIRE (wire d)),
      KStr (MACRO2STR_ATA_TYPE_DEVICE (device_type d)), KWord (ucast (io_port d)), KWord (ucast (ctrl_port d)),
      KWord (device_no d), KWord (total_sectors d), KStr (dev_serial d @ dev_model d), KStr (dev_model d)]"

fun device_loop :: "env \<Rightarrow> ataspc \<Rightarrow> nat \<Rightarrow> nat \<Rightarrow> kernel \<Rightarrow> kernel res" where
  "device_loop e sp i 0 k = Inr k"
| "device_loop e sp i (Suc n) k =
     bindr (read_at ''device_info_'' (device_info sp) (int i)) (\<lambda>d.
     bindr (klog e fmt_device (device_args d) k) (device_loop e sp (Suc i) n))"

definition set_ataspc :: "ataspc \<Rightarrow> kernel \<Rightarrow> kernel res" where
  "set_ataspc sp k =
     on_out (\<lambda>w. let sy = out_fsys w; f = sys_fs sy in
       Inr (w\<lparr>out_fsys := sy\<lparr>sys_fs := f\<lparr>fs_ata := (fs_ata f)\<lparr>ata_space := sp\<rparr>\<rparr>\<rparr>\<rparr>)) k"

definition kinit_ata :: "env \<Rightarrow> kernel \<Rightarrow> kernel res" where
  "kinit_ata e k =
     bindr (ata_detect (env_probe e)) (\<lambda>sp.
     bindr (device_loop e sp 0 (unat (device_amount sp)) k)
       (set_ataspc (select_loop 0 (unat (device_amount sp)) sp)))"

text \<open>The two blocks of the ring come from dyn_alloc(); the addresses are not used further in the model.\<close>

definition ring_blocks :: "u32 \<Rightarrow> threads \<Rightarrow> threads res" where
  "ring_blocks cap th =
     bindr (dyn_alloc 20 th) (\<lambda>(p, th).
     bindr (deref ''cclbuff_alloc()'' p) (\<lambda>_.
     bindr (dyn_alloc cap th) (\<lambda>(_, th). Inr th)))"

text \<open>\<open>p\<close> is the address of the buffer, \<open>buff\<close> what its \<open>buff_\<close> points to. The code tests \<open>buff_\<close> against 0, which the null pointer
  of the kernel is not; dyn_free() takes null as well.\<close>

definition cclbuff_free :: "u32 option \<Rightarrow> u32 option \<Rightarrow> threads \<Rightarrow> threads res" where
  "cclbuff_free p buff th =
     (if p = None then Inr th
      else bindr (if buff \<noteq> Some 0 then dyn_free buff th else Inr th) (dyn_free p))"

definition kinit_8042 :: "env \<Rightarrow> kernel \<Rightarrow> kernel res" where
  "kinit_8042 e k =
     bindr (on_th (ring_blocks 1024) k) (\<lambda>k.
     let d = init_8042 (env_ring e) (kn_kbd k) in
     on_out (\<lambda>w. Inr (w\<lparr>out_fsys := (out_fsys w)\<lparr>sys_kb := kb_buff d\<rparr>\<rparr>)) (k\<lparr>kn_kbd := d\<rparr>))"

definition kinit_driver :: "env \<Rightarrow> kernel \<Rightarrow> kernel res" where
  "kinit_driver e k =
     bindr init_pit (\<lambda>t.
     bindr (kinit_ata e (k\<lparr>kn_pic := init_pic (kn_pic k), kn_pit := kn_pit k @ t\<rparr>)) (kinit_8042 e))"

subsection \<open>kern.c\<close>

definition enable_intr :: "threads \<Rightarrow> threads res" where
  "enable_intr th = Inr (th\<lparr>th_tasks := (th_tasks th)\<lparr>tk_intr := True\<rparr>\<rparr>)"

definition kern_init :: "env \<Rightarrow> kernel \<Rightarrow> kernel res" where
  "kern_init e k =
     bindr (kinit_io k) (\<lambda>k.
     bindr (kinit_memory e k) (\<lambda>k.
     bindr (kinit_config e k) (\<lambda>k.
     bindr (kinit_tasks_system e k) (\<lambda>k.
     bindr (kinit_interrupts e k) (\<lambda>k.
     bindr (kinit_driver e k) (\<lambda>k.
     bindr (on_files (kinit_fs (env_files e)) k) (\<lambda>k.
     bindr (on_th enable_intr k) (\<lambda>k.
     bindr (on_files (load_builtins (env_images e)) k)
       (on_files kinit_log)))))))))"

definition the_first_ring3 ::
  "(cclbuff \<Rightarrow> cclbuff res) \<Rightarrow> u32 \<Rightarrow> u32 \<Rightarrow> u32 \<Rightarrow> (nat \<Rightarrow> byte) \<Rightarrow> system \<Rightarrow> (exec_end \<times> system) res" where
  "the_first_ring3 slp nul argv next_insc memory s = sys_exec slp nul argv next_insc memory (Some (cstring ''shell'')) s"

text \<open>kern_exec() never returns in hoo: its state after \<open>n\<close> rounds of the loop. \<open>entry\<close> is the address of the_first_ring3().\<close>

fun kill_rounds :: "nat \<Rightarrow> tasks \<Rightarrow> tasks res" where
  "kill_rounds 0 s = Inr s"
| "kill_rounds (Suc n) s = bindr (kill s) (kill_rounds n)"

definition kern_exec :: "nat \<Rightarrow> u32 \<Rightarrow> u32 \<Rightarrow> u32 \<Rightarrow> threads \<Rightarrow> threads res" where
  "kern_exec n mode_ring3 isr_part3 entry s =
     bindr (fork mode_ring3 isr_part3 entry s) (\<lambda>(result, s).
     if result \<noteq> 0 then bindr (kill_rounds n (th_tasks s)) (\<lambda>ts. Inr (s\<lparr>th_tasks := ts\<rparr>))
     else Inr s)"

end
