(* ===== verification/Panic.thy ===== *)
theory Panic
  imports Startup Format_Props
begin

section \<open>kern/panic.c: the end of the kernel\<close>

text \<open>
  Everywhere else panic() is the value \<open>Inl (Panic msg)\<close>. Here is what it does before the processor halts: the cleared
  screen, the message, and the frames of the stack. \<open>mem\<close> is the word at an address, \<open>isr_part3\<close> the address in
  assembly that the code compares with, \<open>ebp\<close> the frame of trace(). The walk follows whatever the frames hold, so it has fuel.
\<close>

subsection \<open>The report\<close>

primrec indent :: "nat \<Rightarrow> out \<Rightarrow> out res" where
  "indent 0 w = Inr w"
| "indent (Suc n) w = bindr (kprintf (cstring ''  '') [] w) (indent n)"

text \<open>\<open>oldeip_\<close> is the third word of the processor's part of an interrupt stack, after the two words of the frame and the
  twelve registers of the other part.\<close>

definition print_frame :: "(u32 \<Rightarrow> u32) \<Rightarrow> u32 \<Rightarrow> u32 \<Rightarrow> u32 \<Rightarrow> out \<Rightarrow> out res" where
  "print_frame mem isr_part3 i ebp w =
     (let ret = mem (ebp + 4) in
      bindr (indent (unat i) w) (\<lambda>w.
      bindr (kprintf (cstring ''- 0x%x'') [KWord ret] w) (\<lambda>w.
      bindr
        (if ret = isr_part3 then
           bindr (kprintf (cstring '' *'') [] w) (kprintf (cstring '' <- 0x%x'') [KWord (mem (ebp + 4 * 2 + 48 + 8))])
         else Inr w)
        (kprintf (line []) []))))"

fun trace_loop :: "(u32 \<Rightarrow> u32) \<Rightarrow> u32 \<Rightarrow> u32 \<Rightarrow> nat \<Rightarrow> u32 \<Rightarrow> u32 \<Rightarrow> out \<Rightarrow> out res" where
  "trace_loop mem isr_part3 border 0 i ebp w = Inl Spin"
| "trace_loop mem isr_part3 border (Suc n) i ebp w =
     (if ebp \<noteq> 0 \<and> ebp \<le> border then
        bindr (print_frame mem isr_part3 i ebp w) (trace_loop mem isr_part3 border n (i + 1) (mem ebp))
      else Inr w)"

definition trace :: "nat \<Rightarrow> (u32 \<Rightarrow> u32) \<Rightarrow> u32 \<Rightarrow> u32 \<Rightarrow> out \<Rightarrow> out res" where
  "trace fuel mem isr_part3 ebp w =
     bindr (kprintf (line ''========== Stack trace =========='') [] w)
       (trace_loop mem isr_part3 (PGUP ebp PGSIZE) fuel 0 ebp)"

definition panic_report :: "nat \<Rightarrow> (u32 \<Rightarrow> u32) \<Rightarrow> u32 \<Rightarrow> u32 \<Rightarrow> byte list option \<Rightarrow> out \<Rightarrow> out res" where
  "panic_report fuel mem isr_part3 ebp extra w =
     bindr (cga_clear (sys_cga (out_fsys w))) (\<lambda>c.
     bindr (case extra of
         None \<Rightarrow> Inr (w\<lparr>out_fsys := (out_fsys w)\<lparr>sys_cga := c\<rparr>\<rparr>)
       | Some x \<Rightarrow> kprintf (line (''%s'' @ [CHR 0x0A])) [KStr x] (w\<lparr>out_fsys := (out_fsys w)\<lparr>sys_cga := c\<rparr>\<rparr>))
       (trace fuel mem isr_part3 ebp))"

text \<open>The kernel halts with interrupts off.\<close>

definition disable_intr :: "threads \<Rightarrow> threads res" where
  "disable_intr th = Inr (th\<lparr>th_tasks := (th_tasks th)\<lparr>tk_intr := False\<rparr>\<rparr>)"

definition panic_halt :: "nat \<Rightarrow> (u32 \<Rightarrow> u32) \<Rightarrow> u32 \<Rightarrow> u32 \<Rightarrow> byte list option \<Rightarrow> kernel \<Rightarrow> kernel res" where
  "panic_halt fuel mem isr_part3 ebp extra k = bindr (on_out (panic_report fuel mem isr_part3 ebp extra) k) (on_th disable_intr)"

subsection \<open>The text of the report\<close>

definition lit :: "string \<Rightarrow> byte list" where "lit s = map of_char s"
definition hex :: "u32 \<Rightarrow> byte list" where "hex x = numeral_text 16 (unat x)"

lemma length_hex: "length (hex x) \<le> 8"
  using length_digs [of 16 "unat x" 8] unat_lt_2p32 [of x] by (simp add: hex_def numeral_text_def)

text \<open>The frames \<open>es\<close> are those the walk visits from \<open>e\<close> on.\<close>

fun walks :: "(u32 \<Rightarrow> u32) \<Rightarrow> u32 \<Rightarrow> u32 \<Rightarrow> u32 list \<Rightarrow> bool" where
  "walks mem border e [] \<longleftrightarrow> e = 0 \<or> border < e"
| "walks mem border e (f # fs) \<longleftrightarrow> f = e \<and> e \<noteq> 0 \<and> e \<le> border \<and> walks mem border (mem e) fs"

definition frame_text :: "(u32 \<Rightarrow> u32) \<Rightarrow> u32 \<Rightarrow> nat \<Rightarrow> u32 \<Rightarrow> byte list" where
  "frame_text mem isr_part3 i e = concat (replicate i (lit ''  '')) @ lit ''- 0x'' @ hex (mem (e + 4))
     @ (if mem (e + 4) = isr_part3 then lit '' * <- 0x'' @ hex (mem (e + 64)) else []) @ [10]"

fun frames_text :: "(u32 \<Rightarrow> u32) \<Rightarrow> u32 \<Rightarrow> nat \<Rightarrow> u32 list \<Rightarrow> byte list" where
  "frames_text mem isr_part3 i [] = []"
| "frames_text mem isr_part3 i (e # es) = frame_text mem isr_part3 i e @ frames_text mem isr_part3 (Suc i) es"

lemma report_renders:
  "render (cstring ''  '') [] = Some (lit ''  '')" "render (cstring ''- 0x%x'') [KWord a] = Some (lit ''- 0x'' @ hex a)"
  "render (cstring '' *'') [] = Some (lit '' *'')" "render (cstring '' <- 0x%x'') [KWord a] = Some (lit '' <- 0x'' @ hex a)"
  "render (line []) [] = Some [10]"
  "render (line ''========== Stack trace =========='') [] = Some (lit ''========== Stack trace =========='' @ [10])"
  "0 \<in> set x \<Longrightarrow> render (line (''%s'' @ [CHR 0x0A])) [KStr x] = Some (cstr x @ [10, 10])"
  by (simp_all add: line_def cstring_def lit_def hex_def)

lemma screen_text: "render fmt args = Some t \<Longrightarrow> screen_ok (length t) w \<Longrightarrow> kprintf fmt args w = screen_put t w"
  unfolding kprintf_def by (rule screen.format_put)

lemma screen_then:
  "render fmt args = Some t \<Longrightarrow> screen_ok (length t + length u) w \<Longrightarrow> (\<And>w. screen_ok (length u) w \<Longrightarrow> f w = screen_put u w)
    \<Longrightarrow> bindr (kprintf fmt args w) f = screen_put (t @ u) w"
  using screen_text [of fmt args t w] screen.put_then [of t u w f] screen.ok_le [of "length t + length u" w "length t"] by simp

lemma indent_text: "screen_ok (length (concat (replicate n (lit ''  ''))) ) w \<Longrightarrow> indent n w = screen_put (concat (replicate n (lit ''  ''))) w"
proof (induction n arbitrary: w)
  case 0
  then show ?case using screen.put_nil [of 0 w] by simp
next
  case (Suc n)
  then show ?case using screen_then [OF report_renders(1), of "concat (replicate n (lit ''  ''))" w "indent n"] by simp
qed

lemma print_frame_text:
  assumes "unat i = n" and "screen_ok (length (frame_text mem isr_part3 n e)) w"
  shows "print_frame mem isr_part3 i e w = screen_put (frame_text mem isr_part3 n e) w"
proof -
  let ?r = "mem (e + 4)" and ?t = "concat (replicate n (lit ''  ''))"
  let ?m = "if ?r = isr_part3 then lit '' * <- 0x'' @ hex (mem (e + 64)) else []"
  let ?f = "\<lambda>w. bindr (if ?r = isr_part3 then bindr (kprintf (cstring '' *'') [] w) (kprintf (cstring '' <- 0x%x'') [KWord (mem (e + 64))])
    else Inr w) (kprintf (line []) [])"
  have star: "lit '' * <- 0x'' = lit '' *'' @ lit '' <- 0x''" by (simp add: lit_def)
  have nl: "kprintf (line []) [] w = screen_put [10] w" if "screen_ok 1 w" for w
    using screen_text [OF report_renders(5), of w] that by simp
  have f: "?f w = screen_put (?m @ [10]) w" if ok: "screen_ok (length (?m @ [10])) w" for w
  proof (cases "?r = isr_part3")
    case True
    have "bindr (kprintf (cstring '' <- 0x%x'') [KWord (mem (e + 64))] w) (kprintf (line []) [])
        = screen_put ((lit '' <- 0x'' @ hex (mem (e + 64))) @ [10]) w"
      if "screen_ok (length ((lit '' <- 0x'' @ hex (mem (e + 64))) @ [10])) w" for w
      by (rule screen_then [OF report_renders(4)]) (use that nl in simp_all)
    from screen_then [OF report_renders(3), of "(lit '' <- 0x'' @ hex (mem (e + 64))) @ [10]" w, OF _ this] ok True
    show ?thesis by (simp add: star bindr_assoc)
  next
    case False
    then show ?thesis using nl ok by simp
  qed
  define g where "g = (\<lambda>w. bindr (kprintf (cstring ''- 0x%x'') [KWord ?r] w) ?f)"
  let ?u = "(lit ''- 0x'' @ hex ?r) @ ?m @ [10]"
  have g: "g w = screen_put ?u w" if "screen_ok (length ?u) w" for w
    unfolding g_def by (rule screen_then [OF report_renders(2) _ f]) (use that in \<open>auto simp: algebra_simps split: if_splits\<close>)
  have word: "e + 4 * 2 + 48 + 8 = e + 64" by simp
  have t: "frame_text mem isr_part3 n e = ?t @ ?u" by (simp add: frame_text_def)
  have s: "screen_ok (length ?t + length ?u) w" using assms(2) unfolding t length_append .
  have "print_frame mem isr_part3 i e w = bindr (indent n w) g"
    using assms(1) unfolding print_frame_def g_def Let_def word by simp
  also have "\<dots> = bindr (screen_put ?t w) g" using indent_text [OF screen.ok_le [OF s]] by simp
  also have "\<dots> = screen_put (?t @ ?u) w" by (rule screen.put_then [OF s g])
  finally show ?thesis unfolding t .
qed

lemma trace_loop_text:
  "walks mem border e es \<Longrightarrow> unat i + length es < 4294967296 \<Longrightarrow> length es < n \<Longrightarrow> screen_ok (length (frames_text mem isr_part3 (unat i) es)) w
    \<Longrightarrow> trace_loop mem isr_part3 border n i e w = screen_put (frames_text mem isr_part3 (unat i) es) w"
proof (induction es arbitrary: e i n w)
  case Nil
  then obtain m where "n = Suc m" by (cases n) auto
  then show ?case using Nil screen.put_nil [of 0 w] by (auto simp: not_le)
next
  case (Cons f es)
  obtain m where m: "n = Suc m" using Cons.prems(3) by (cases n) auto
  have e: "f = e" "e \<noteq> 0" "e \<le> border" "walks mem border (mem e) es" using Cons.prems(1) by auto
  have i: "unat (i + 1) = Suc (unat i)" using Cons.prems(2) by (subst unat_add_32) simp_all
  let ?t = "frame_text mem isr_part3 (unat i) e" and ?u = "frames_text mem isr_part3 (Suc (unat i)) es"
  have s: "screen_ok (length ?t + length ?u) w" "screen_ok (length ?t) w"
    using Cons.prems(4) e(1) screen.ok_le [of "length ?t + length ?u" w "length ?t"] by simp_all
  have "trace_loop mem isr_part3 border m (i + 1) (mem e) v = screen_put ?u v" if "screen_ok (length ?u) v" for v
    using Cons.IH [OF e(4), of "i + 1" m v] that Cons.prems(2,3) m unfolding i by simp
  from screen.put_then [OF s(1) this] show ?case
    using m e(1-3) print_frame_text [OF refl s(2)] by simp
qed

lemma length_frame_text: "length (frame_text mem isr_part3 n e) \<le> 2 * n + 40"
proof -
  have "length (concat (replicate n (lit ''  ''))) = 2 * n" by (induction n) (simp_all add: lit_def)
  then show ?thesis using length_hex [of "mem (e + 4)"] length_hex [of isr_part3] length_hex [of "mem (e + 64)"] by (simp add: frame_text_def lit_def)
qed

lemma length_frames_text: "n + length es \<le> 4096 \<Longrightarrow> length (frames_text mem isr_part3 n es) \<le> length es * 8232"
proof (induction es arbitrary: n)
  case (Cons e es)
  have "length (frames_text mem isr_part3 (Suc n) es) \<le> length es * 8232" by (rule Cons.IH) (use Cons.prems in simp)
  moreover have "length (frame_text mem isr_part3 n e) \<le> 8232" using length_frame_text [of mem isr_part3 n e] Cons.prems by simp
  ultimately show ?case by simp
qed simp

text \<open>The addresses of the frames that the walk from \<open>e\<close> visits.\<close>

inductive visited :: "(u32 \<Rightarrow> u32) \<Rightarrow> u32 \<Rightarrow> u32 \<Rightarrow> u32 \<Rightarrow> bool" for mem border e where
  visited_first: "e \<noteq> 0 \<Longrightarrow> e \<le> border \<Longrightarrow> visited mem border e e"
| visited_next: "visited mem border e x \<Longrightarrow> mem x \<noteq> 0 \<Longrightarrow> mem x \<le> border \<Longrightarrow> visited mem border e (mem x)"

lemma visited_step: "visited mem border (mem e) x \<Longrightarrow> e \<noteq> 0 \<Longrightarrow> e \<le> border \<Longrightarrow> visited mem border e x"
  by (induction rule: visited.induct) (auto intro: visited.intros)

text \<open>Frames that lie higher and higher come to an end at the border.\<close>

lemma walks_up:
  "(\<And>x. visited mem border e x \<Longrightarrow> mem x = 0 \<or> x < mem x) \<Longrightarrow> e = 0 \<or> unat border < unat e + d
    \<Longrightarrow> \<exists>es. walks mem border e es \<and> length es \<le> d"
proof (induction d arbitrary: e)
  case 0
  then show ?case by (intro exI [of _ "[]"]) (auto simp: word_less_nat_alt)
next
  case (Suc d)
  show ?case
  proof (cases "e = 0 \<or> border < e")
    case True
    then show ?thesis by (intro exI [of _ "[]"]) auto
  next
    case False
    then have e: "e \<noteq> 0" "e \<le> border" by (auto simp: not_less)
    then have "mem e = 0 \<or> unat border < unat (mem e) + d"
      using Suc.prems(1) [OF visited_first] Suc.prems(2) by (auto simp: word_less_nat_alt)
    from Suc.IH [OF Suc.prems(1) [OF visited_step [OF _ e]] this]
    obtain es where "walks mem border (mem e) es" "length es \<le> d" by blast
    then show ?thesis using e by (intro exI [of _ "e # es"]) auto
  qed
qed

lemma PGUP_bound: "unat (PGUP e PGSIZE) < unat e + 4096"
proof -
  have "unat (PGUP e PGSIZE) \<le> unat (e + 4096 - 1)"
    by (simp add: PGUP_def PGDOWN_def PGSIZE_def word_le_nat_alt [symmetric] word_and_le2)
  also have "unat (e + 4096 - 1) \<le> unat e + 4095" by (simp add: unat_word_ariths)
  finally show ?thesis by simp
qed

text \<open>A frame that points to itself is followed for ever.\<close>

lemma trace_self_loop: "mem e = e \<Longrightarrow> e \<noteq> 0 \<Longrightarrow> e \<le> border \<Longrightarrow> trace_loop mem isr_part3 border n i e w \<noteq> Inr w'"
  by (induction n arbitrary: i w) (auto simp: bindr_eq_Inr)

subsection \<open>Properties\<close>

definition report_text :: "(u32 \<Rightarrow> u32) \<Rightarrow> u32 \<Rightarrow> byte list option \<Rightarrow> u32 list \<Rightarrow> byte list" where
  "report_text mem isr_part3 extra es = (case extra of None \<Rightarrow> [] | Some x \<Rightarrow> cstr x @ [10, 10])
     @ lit ''========== Stack trace =========='' @ [10] @ frames_text mem isr_part3 0 es"

text \<open>C30: when the frame pointer stored in each frame that the walk visits is null or lies above the frame, the lock of the screen is
  free and the message, if there is one, is a terminated string in at most a megabyte, then the walk of panic() ends within 4096
  frames, and the report on the cleared screen is, written at once, the message, the title and one line for each frame that the walk
  visits, in this order.\<close>

theorem panic_report_ends:
  assumes extra: "\<forall>x. extra = Some x \<longrightarrow> 0 \<in> set x \<and> length x \<le> 1048576"
    and up: "\<forall>x. visited mem (PGUP ebp PGSIZE) ebp x \<longrightarrow> mem x = 0 \<or> x < mem x" and lock: "cga_lock (sys_cga (out_fsys w)) = unlocked"
  shows "\<exists>c es. cga_clear (sys_cga (out_fsys w)) = Inr c \<and> walks mem (PGUP ebp PGSIZE) ebp es \<and> length es \<le> 4096
    \<and> (\<forall>n > length es. panic_report n mem isr_part3 ebp extra w
        = screen_put (report_text mem isr_part3 extra es) (w\<lparr>out_fsys := (out_fsys w)\<lparr>sys_cga := c\<rparr>\<rparr>))"
proof -
  obtain c where c: "cga_clear (sys_cga (out_fsys w)) = Inr c" "cga_lock c = unlocked"
    using lock by (simp add: cga_clear_def Let_def)
  obtain es where es: "walks mem (PGUP ebp PGSIZE) ebp es" "length es \<le> 4096"
    using walks_up [of mem "PGUP ebp PGSIZE" ebp 4096] up PGUP_bound [of ebp] by blast
  let ?w = "w\<lparr>out_fsys := (out_fsys w)\<lparr>sys_cga := c\<rparr>\<rparr>" and ?t = "frames_text mem isr_part3 0 es"
  let ?h = "lit ''========== Stack trace =========='' @ [10]"
  have l: "length ?t \<le> 4096 * 8232" "length ?h = 34"
    using length_frames_text [of 0 es mem isr_part3] es(2) by (auto simp: lit_def)
  have ok: "screen_ok n ?w" if "n < 4294967296" for n using c(2) that by (simp add: screen_ok_def)
  have "panic_report n mem isr_part3 ebp extra w = screen_put (report_text mem isr_part3 extra es) ?w" if n: "length es < n" for n
  proof -
    have loop: "trace_loop mem isr_part3 (PGUP ebp PGSIZE) n 0 ebp v = screen_put ?t v" if "screen_ok (length ?t) v" for v
      using trace_loop_text [OF es(1), of 0 n isr_part3 v] n es(2) that by simp
    have tr: "trace n mem isr_part3 ebp v = screen_put (?h @ ?t) v" if "screen_ok (length ?h + length ?t) v" for v
      unfolding trace_def by (rule screen_then [OF report_renders(6) that loop])
    show ?thesis
    proof (cases extra)
      case None
      then show ?thesis using tr [OF ok] l c(1) by (simp add: panic_report_def report_text_def)
    next
      case (Some x)
      then have x: "0 \<in> set x" "length (cstr x) \<le> 1048576" using extra length_takeWhile_le [of _ x] by (auto simp: cstr_def intro: order_trans)
      have "screen_ok (length (cstr x @ [10, 10]) + length (?h @ ?t)) ?w" by (rule ok) (use x(2) l in simp)
      from screen_then [OF report_renders(7) [OF x(1)] this tr] show ?thesis
        using Some c(1) by (simp add: panic_report_def report_text_def)
    qed
  qed
  then show ?thesis using c(1) es by blast
qed

text \<open>Two frames on the stack of the boot, with the addresses in the kernel to which they return.\<close>

definition boot_stack :: "u32 \<Rightarrow> u32" where
  "boot_stack x = (if x = 0x77f00 then 0x77f20 else if x = 0x77f04 then 0x10123 else if x = 0x77f24 then 0x10050 else 0)"

lemma boot_stack_visited: "visited boot_stack border 0x77f00 x \<Longrightarrow> x = 0x77f00 \<or> x = 0x77f20"
  by (induction rule: visited.induct) (auto simp: boot_stack_def)

theorem panic_report_ends_witness:
  "\<exists>c es. walks boot_stack (PGUP 0x77f00 PGSIZE) 0x77f00 es \<and> panic_report 4097 boot_stack 1 0x77f00 (Some [104, 111, 111, 0]) out_sample
    = screen_put (report_text boot_stack 1 (Some [104, 111, 111, 0]) es)
        (out_sample\<lparr>out_fsys := (out_fsys out_sample)\<lparr>sys_cga := c\<rparr>\<rparr>)"
proof -
  have l: "cga_lock (sys_cga (out_fsys out_sample)) = unlocked" by (simp add: out_sample_def fsys_sample_def cga_sample_def)
  have v: "\<forall>x. visited boot_stack (PGUP 0x77f00 PGSIZE) 0x77f00 x \<longrightarrow> boot_stack x = 0 \<or> x < boot_stack x"
    using boot_stack_visited by (force simp: boot_stack_def)
  show ?thesis
    using panic_report_ends [of "Some [104, 111, 111, 0]" boot_stack "0x77f00" out_sample 1, OF _ v l] by fastforce
qed

end
