(* ===== verification/Boot_Props.thy ===== *)
theory Boot_Props
  imports Panic Exec_Props Thread_Props Command_Props Vspace_Props
begin

section \<open>Properties of the start\<close>

text \<open>
  What the modules leave behind when they run in the order of kern_init(): the log holds the lines of all of
  them, the page tables translate, the allocators of memory are whole, and the tables and queues of the tasks are as the
  properties of the other theories assume them.
\<close>

subsection \<open>The log\<close>

definition logged :: "byte list \<Rightarrow> kernel \<Rightarrow> bool" where
  "logged t k \<longleftrightarrow> (let c = out_cache (kn_out k) in
     kn_log_init k \<and> cb_capacity c = 8192 \<and> cb_redirect c = INVALID_INDEX \<and> unat (cb_curlen c) = length t
     \<and> take (length t) (cb_buff c) = t \<and> 8192 \<le> length (cb_buff c))"

definition log_has :: "env \<Rightarrow> byte list \<Rightarrow> kernel \<Rightarrow> bool" where
  "log_has e t k \<longleftrightarrow> (if kn_log_init k then logged t k else t = [] \<and> 8192 \<le> length (env_log e))"

definition set_cache :: "cachebuff \<Rightarrow> kernel \<Rightarrow> kernel" where
  "set_cache c k = k\<lparr>kn_sys := (kn_sys k)\<lparr>sy_vfs := (sy_vfs (kn_sys k))\<lparr>v_out := (kn_out k)\<lparr>out_cache := c\<rparr>\<rparr>\<rparr>, kn_log_init := True\<rparr>"

lemma set_cache_simps [simp]:
  "sy_th (kn_sys (set_cache c k)) = sy_th (kn_sys k)" "kn_gdt (set_cache c k) = kn_gdt k" "kn_gdtr (set_cache c k) = kn_gdtr k"
  "kn_mminfo (set_cache c k) = kn_mminfo k" "kn_isr (set_cache c k) = kn_isr k" "kn_idt (set_cache c k) = kn_idt k"
  "kn_tr (set_cache c k) = kn_tr k" "kn_log_init (set_cache c k)" "out_cache (kn_out (set_cache c k)) = c"
  by (simp_all add: set_cache_def)

lemma logged_simps [simp]:
  "log_has e t (k\<lparr>kn_mminfo := mm\<rparr>) = log_has e t k" "log_has e t (k\<lparr>kn_gdt := d\<rparr>) = log_has e t k"
  "log_has e t (k\<lparr>kn_gdtr := g\<rparr>) = log_has e t k" "log_has e t (k\<lparr>kn_tr := r\<rparr>) = log_has e t k"
  by (simp_all add: log_has_def logged_def Let_def)

lemma klog_ok:
  assumes r: "render fmt args = Some t" and l: "log_has e s k" and n: "length s + length t \<le> 8192"
  shows "\<exists>c. klog e fmt args k = Inr (set_cache c k) \<and> log_has e (s @ t) (set_cache c k)"
proof -
  let ?c = "if kn_log_init k then out_cache (kn_out k)
    else \<lparr>cb_buff = env_log e, cb_capacity = 8192, cb_curlen = 0, cb_redirect = INVALID_INDEX\<rparr>"
  let ?w = "(kn_out k)\<lparr>out_cache := ?c\<rparr>"
  have c: "cb_capacity ?c = 8192" "cb_redirect ?c = INVALID_INDEX" "unat (cb_curlen ?c) = length s"
    "take (length s) (cb_buff ?c) = s" "8192 \<le> length (cb_buff ?c)"
    using l by (auto simp: log_has_def logged_def Let_def)
  have "cache_ok (length t) ?w" using c n by (simp add: cache_ok_def)
  from cache.format_put [OF r this] have f: "klog_write fmt args ?w = Inr (?w\<lparr>out_cache := cache_append t ?c\<rparr>)"
    by (simp add: klog_write_def cache_put_def)
  have g: "get_hoo_cache_buff (env_log e) (kn_log_init k) (out_cache (kn_out k)) = Inr (?c, True)"
    by (simp add: get_hoo_cache_buff_def cachebuff_set_def PGSIZE_def)
  have "klog e fmt args k = Inr (set_cache (cache_append t ?c) k)"
    using f g by (simp add: klog_def on_out_def set_cache_def)
  moreover have "unat (word_of_nat (length s + length t) :: u32) = length s + length t"
    using n by (intro unat_word_of_nat_32) simp
  then have "log_has e (s @ t) (set_cache (cache_append t ?c) k)"
    using c n by (simp add: log_has_def logged_def cache_append_def)
  ultimately show ?thesis by blast
qed

text \<open>The lines that are written before the tasks are set up.\<close>

definition memory_line :: "mminfo \<Rightarrow> byte list" where
  "memory_line mm = lit ''[DEBUG] available memory: [0x'' @ hex (mm_base mm) @ lit '', 0x'' @ hex (mm_base mm + mm_length mm) @ lit '')'' @ [10]"

definition config_lines :: "env \<Rightarrow> byte list" where
  "config_lines e = (lit ''[DEBUG] null pointer: 0x'' @ hex (env_null e) @ [10])
     @ (lit ''[DEBUG] gdt: 0x'' @ hex (env_gdt e) @ lit '', gdtr: 0x'' @ hex (env_gdt e) @ [10])
     @ lit ''[DEBUG] tr: 0x2b'' @ [10]"

lemma hex_2b: "hex 43 = lit ''2b''"
  by (simp add: hex_def numeral_text_def digs.simps digchar_def lit_def)

lemma renders:
  "render (line ''[DEBUG] available memory: [0x%x, 0x%x)'') [KWord a, KWord b]
     = Some (lit ''[DEBUG] available memory: [0x'' @ hex a @ lit '', 0x'' @ hex b @ lit '')'' @ [10])"
  "render (line ''[DEBUG] null pointer: 0x%x'') [KWord a] = Some (lit ''[DEBUG] null pointer: 0x'' @ hex a @ [10])"
  "render (line ''[DEBUG] gdt: 0x%x, gdtr: 0x%x'') [KWord a, KWord b]
     = Some (lit ''[DEBUG] gdt: 0x'' @ hex a @ lit '', gdtr: 0x'' @ hex b @ [10])"
  "render (line ''[DEBUG] tr: 0x%x'') [KWord 43] = Some (lit ''[DEBUG] tr: 0x2b'' @ [10])"
  using hex_2b by (simp_all add: line_def cstring_def lit_def hex_def)

subsection \<open>The memory\<close>

definition set_kmem :: "kmem \<Rightarrow> kernel \<Rightarrow> kernel" where
  "set_kmem m k = k\<lparr>kn_sys := (kn_sys k)\<lparr>sy_th := set_mem m (sy_th (kn_sys k))\<rparr>\<rparr>"

lemma set_mem_simps [simp]:
  "th_mem (set_mem m s) = m" "set_mem m (set_mem n s) = set_mem m s" "th_hoo (set_mem m s) = th_hoo s"
  "tk_pcb (th_tasks (set_mem m s)) = tk_pcb (th_tasks s)"
  by (simp_all add: set_mem_def)

lemma set_kmem_simps [simp]:
  "kn_mem (set_kmem m k) = m" "log_has e t (set_kmem m k) = log_has e t k" "kn_gdt (set_kmem m k) = kn_gdt k"
  "kn_gdtr (set_kmem m k) = kn_gdtr k" "kn_mminfo (set_kmem m k) = kn_mminfo k" "set_kmem m (set_kmem n k) = set_kmem m k"
  "sy_th (kn_sys (set_kmem m k)) = set_mem m (sy_th (kn_sys k))"
  by (simp_all add: set_kmem_def set_mem_def log_has_def logged_def)

lemma on_kmem_eq: "on_kmem f k = bindr (f (kn_mem k)) (\<lambda>m. Inr (set_kmem m k))"
  by (simp add: on_kmem_def on_th_def on_threads_def set_kmem_def bindr_assoc)

text \<open>No table is in the directory, but those that paging() is about to enter.\<close>

definition clear_dir :: "machine \<Rightarrow> bool" where
  "clear_dir m \<longleftrightarrow> (\<forall>i. unat i < 1024 \<longrightarrow> i \<notin> {0, 512, 1023} \<longrightarrow> \<not> bit (phys m (PDTABLE + i * 4)) 0)"

definition no_tables :: "machine \<Rightarrow> bool" where
  "no_tables m \<longleftrightarrow> (\<forall>x. PD_INDEX x \<notin> {0, 512, 1023} \<longrightarrow> \<not> bit (pde_of m x) 0)"

text \<open>Every table there is may be used, and no other directory entry points to a table of the dynamic memory.\<close>

definition dynamic :: "u32 \<Rightarrow> bool" where
  "dynamic x \<longleftrightarrow> PD_INDEX x \<notin> {0, 512, 1023}"

definition own_tables :: "machine \<Rightarrow> bool" where
  "own_tables m \<longleftrightarrow> (\<forall>x. dynamic x \<and> bit (pde_of m x) 0 \<longrightarrow> bit (pde_of m x) 2
     \<and> (\<forall>y. bit (pde_of m y) 0 \<and> PD_INDEX y \<noteq> 1023 \<and> PD_INDEX x \<noteq> PD_INDEX y \<longrightarrow> PG (pde_of m x) \<noteq> PG (pde_of m y)))"

lemma no_tables_own: "no_tables m \<Longrightarrow> own_tables m"
  by (auto simp: no_tables_def own_tables_def dynamic_def)

lemma paging_ready:
  assumes pm: "pm_inv (pmst m)" and dir: "clear_dir m"
  shows "pgt_inv (paging m)" "no_tables (paging m)" "pmst (paging m) = pmst m"
proof -
  have c: "cr3 (paging m) = PDTABLE" and s: "pmst (paging m) = pmst m"
    by (simp_all add: paging_def Let_def paging_consts)
  have pde: "pde_of (paging m) x = (if PD_INDEX x = 0 \<or> PD_INDEX x = 512 then PGTABLE OR 7
      else if PD_INDEX x = 1023 then PDTABLE OR 7 else phys m (PDTABLE + PD_INDEX x * 4))" for x
    unfolding pde_of_def c using paging_pde [where m = m, OF idx_less(1) [of x]] by simp
  have g: "PG (PGTABLE OR 7) = PGTABLE" by (rule PG_or_flags) (simp_all add: PGTABLE_def PG_MASK_def)
  have "unat PDTABLE < unat MM_BASE" "unat PGTABLE < unat MM_BASE"
    by (simp_all add: PDTABLE_def PGTABLE_def MM_BASE_def)
  then have nf: "PDTABLE \<notin> free_frames (paging m)" "PGTABLE \<notin> free_frames (paging m)"
    using pm_pool_ge [OF pm] by (fastforce simp: free_frames_def s)+
  show nt: "no_tables (paging m)" using dir idx_less(1) by (auto simp: no_tables_def pde clear_dir_def)
  have "PG (pde_of (paging m) x) = PGTABLE" if "bit (pde_of (paging m) x) 0" "PD_INDEX x \<noteq> 1023" for x
    using nt that g by (auto simp: no_tables_def pde)
  then show "pgt_inv (paging m)"
    using self_map_paging [of m] pm nf paging_consts(6) by (auto simp: pgt_inv_def c s)
  show "pmst (paging m) = pmst m" by (rule s)
qed

text \<open>The memory is whole: no page of the frames or of the kernel's metadata is taken, and nothing is mapped yet
  but the first megabyte.\<close>

definition memory_ready :: "u32 \<Rightarrow> kmem \<Rightarrow> bool" where
  "memory_ready len s \<longleftrightarrow> pgt_inv (km_mach s) \<and> no_tables (km_mach s)
     \<and> free_frames (km_mach s) = pages MM_BASE {..<unat len div 4096} \<and> vmk_inv (km_kern s) \<and> vmk_taken (km_kern s) = {}
     \<and> meta_vs s = None \<and> meta_node s = None \<and> meta_va s = None
     \<and> sl_vs s = unlocked \<and> sl_ata s = unlocked \<and> sl_va s = unlocked"

lemma get_mminfo_base: "get_mminfo ards = Inr mm \<Longrightarrow> mm_base mm = MM_BASE"
proof -
  have "mm_base (mminfo_loop ards mm) = mm_base mm" for mm by (induction ards mm rule: mminfo_loop.induct) auto
  then show "get_mminfo ards = Inr mm \<Longrightarrow> mm_base mm = MM_BASE" by (auto simp: get_mminfo_def Let_def split: if_splits)
qed

lemma init_memory_ok:
  assumes "4096 \<le> unat n" and "unat n \<le> 4293918720"
  shows "\<exists>pm t. init_phymm_system n (pmst (km_mach s)) = Inr pm
    \<and> init_virmm_system (s\<lparr>km_mach := (km_mach s)\<lparr>pmst := pm\<rparr>\<rparr>) = Inr t
    \<and> (clear_dir (km_mach s) \<longrightarrow> memory_ready n (t\<lparr>km_mach := paging (km_mach t)\<rparr>))
    \<and> km_heap t = km_heap s \<and> km_vs t = km_vs s"
proof -
  obtain pm where pm: "init_phymm_system n (pmst (km_mach s)) = Inr pm" "pm_inv pm" "pm_taken pm = {}"
    "pm_pool pm = pages MM_BASE {..<unat n div 4096}" using init_phymm_system_inv [OF assms] by blast
  obtain vk where vk: "init_kern_virmm_bitmap (km_kern s) = Inr vk" "vmk_inv vk" "vmk_taken vk = {}"
    using init_kern_virmm_inv by blast
  let ?m = "(km_mach s)\<lparr>pmst := pm\<rparr>"
  let ?t = "s\<lparr>km_mach := ?m, km_kern := vk, meta_vs := None, meta_node := None, meta_va := None,
    sl_vs := unlocked, sl_ata := unlocked, sl_va := unlocked\<rparr>"
  have t: "init_virmm_system (s\<lparr>km_mach := ?m\<rparr>) = Inr ?t"
    using vk(1) by (simp add: init_virmm_system_def init_metadata_def spinlock_init_def unlocked_def)
  have "memory_ready n (?t\<lparr>km_mach := paging (km_mach ?t)\<rparr>)" if "clear_dir (km_mach s)"
  proof -
    have "pm_inv (pmst ?m)" "clear_dir ?m" using that pm(2) by (simp_all add: clear_dir_def)
    note p = paging_ready [OF this]
    have "free_frames (paging ?m) = pages MM_BASE {..<unat n div 4096}" using pm(3,4) by (simp add: free_frames_def p(3))
    then show ?thesis using p(1,2) vk(2,3) by (simp add: memory_ready_def)
  qed
  then show ?thesis using pm(1) t by (intro exI [of _ pm] exI [of _ ?t]) simp
qed

subsection \<open>kinit_memory and kinit_config\<close>

lemma kinit_memory_ok:
  assumes mm: "get_mminfo (env_ards e) = Inr mm" "4096 \<le> unat (mm_length mm)" "unat (mm_length mm) \<le> 4293918720"
    and log: "log_has e [] k"
  shows "\<exists>c m. kinit_memory e k = Inr (set_kmem m (set_cache c (k\<lparr>kn_mminfo := mm\<rparr>)))
    \<and> log_has e (memory_line mm) (set_cache c (k\<lparr>kn_mminfo := mm\<rparr>))
    \<and> (clear_dir (km_mach (kn_mem k)) \<longrightarrow> memory_ready (mm_length mm) (m\<lparr>km_mach := paging (km_mach m)\<rparr>))
    \<and> km_heap m = km_heap (kn_mem k) \<and> km_vs m = km_vs (kn_mem k)"
proof -
  have n: "length ([] :: byte list) + length (memory_line mm) \<le> 8192"
    using length_hex [of "mm_base mm"] length_hex [of "mm_base mm + mm_length mm"] by (simp add: memory_line_def lit_def)
  obtain c where c: "klog e (line ''[DEBUG] available memory: [0x%x, 0x%x)'') [KWord (mm_base mm), KWord (mm_base mm + mm_length mm)]
      (k\<lparr>kn_mminfo := mm\<rparr>) = Inr (set_cache c (k\<lparr>kn_mminfo := mm\<rparr>))"
    "log_has e (memory_line mm) (set_cache c (k\<lparr>kn_mminfo := mm\<rparr>))"
    using klog_ok [OF renders(1), of e "[]" "k\<lparr>kn_mminfo := mm\<rparr>" "mm_base mm" "mm_base mm + mm_length mm"] log n
    by (auto simp: memory_line_def)
  obtain pm t where t: "init_phymm_system (mm_length mm) (pmst (km_mach (kn_mem k))) = Inr pm"
    "init_virmm_system ((kn_mem k)\<lparr>km_mach := (km_mach (kn_mem k))\<lparr>pmst := pm\<rparr>\<rparr>) = Inr t"
    "clear_dir (km_mach (kn_mem k)) \<longrightarrow> memory_ready (mm_length mm) (t\<lparr>km_mach := paging (km_mach t)\<rparr>)"
    "km_heap t = km_heap (kn_mem k)" "km_vs t = km_vs (kn_mem k)" using init_memory_ok [OF mm(2,3)] by blast
  have "kinit_memory e k = Inr (set_kmem t (set_cache c (k\<lparr>kn_mminfo := mm\<rparr>)))"
    using t(1,2) by (simp add: kinit_memory_def mm(1) c(1) on_kmem_eq)
  then show ?thesis using c(2) t(3-5) by blast
qed

lemma config_tables: "\<exists>g. config_gdt gdt = Inr g" "\<exists>g. config_tss tss gdt = Inr g"
  by (simp_all add: config_gdt_def config_tss_def set_gdt_def)

lemma kinit_config_ok:
  assumes log: "log_has e s k" "length s \<le> 200"
  shows "\<exists>k'. kinit_config e k = Inr k' \<and> log_has e (s @ config_lines e) k' \<and> kn_log_init k'
    \<and> sy_th (kn_sys k') = set_mem ((kn_mem k)\<lparr>km_mach := paging (km_mach (kn_mem k))\<rparr>) (sy_th (kn_sys k))"
proof -
  let ?l1 = "lit ''[DEBUG] null pointer: 0x'' @ hex (env_null e) @ [10]"
  let ?l2 = "lit ''[DEBUG] gdt: 0x'' @ hex (env_gdt e) @ lit '', gdtr: 0x'' @ hex (env_gdt e) @ [10]"
  let ?l3 = "lit ''[DEBUG] tr: 0x2b'' @ [10]"
  have n: "length ?l1 \<le> 100" "length ?l2 \<le> 100" "length ?l3 \<le> 100"
    using length_hex [of "env_null e"] length_hex [of "env_gdt e"] by (simp_all add: lit_def)
  have b: "length s + length ?l1 \<le> 8192" "length (s @ ?l1) + length ?l2 \<le> 8192" "length ((s @ ?l1) @ ?l2) + length ?l3 \<le> 8192"
    using n log(2) unfolding length_append [of s] length_append [of "s @ ?l1"] by linarith+
  obtain c1 where c1: "klog e (line ''[DEBUG] null pointer: 0x%x'') [KWord (env_null e)] k = Inr (set_cache c1 k)"
    "log_has e (s @ ?l1) (set_cache c1 k)"
    using klog_ok [OF renders(2) log(1) b(1)] by blast
  obtain g1 where g1: "config_gdt (kn_gdt k) = Inr g1" using config_tables(1) by blast
  let ?m = "(kn_mem k)\<lparr>km_mach := paging (km_mach (kn_mem k))\<rparr>"
  define r where "r = (kn_gdtr k)\<lparr>gdtr_size := 64, gdtr_linear := env_gdt e\<rparr>"
  let ?k2 = "(set_kmem ?m (set_cache c1 k))\<lparr>kn_gdt := g1, kn_gdtr := r\<rparr>"
  have l2: "log_has e (s @ ?l1) ?k2" using c1(2) by simp
  obtain c2 where c2: "klog e (line ''[DEBUG] gdt: 0x%x, gdtr: 0x%x'') [KWord (env_gdt e), KWord (env_gdt e)] ?k2 = Inr (set_cache c2 ?k2)"
    "log_has e ((s @ ?l1) @ ?l2) (set_cache c2 ?k2)"
    using klog_ok [OF renders(3) l2 b(2)] by blast
  obtain g2 where g2: "config_tss (env_tss e) g1 = Inr g2" using config_tables(2) by blast
  let ?k3 = "(set_cache c2 ?k2)\<lparr>kn_gdt := g2, kn_tr := 43\<rparr>"
  have l3: "log_has e ((s @ ?l1) @ ?l2) ?k3" using c2(2) by simp
  obtain c3 where c3: "klog e (line ''[DEBUG] tr: 0x%x'') [KWord 43] ?k3 = Inr (set_cache c3 ?k3)"
    "log_has e (((s @ ?l1) @ ?l2) @ ?l3) (set_cache c3 ?k3)"
    using klog_ok [OF renders(4) l3 b(3)] by blast
  have tr: "5 * 8 OR 3 = (43 :: u16)" "(ucast (43 :: u16) :: u32) = 43" by simp_all
  have "kinit_config e k = Inr (set_cache c3 ?k3)"
    unfolding kinit_config_def
    using c1(1) g1 c2(1) g2 c3(1)
    by (simp add: on_kmem_eq set_gdtr_def tr SIZE_GDT_def r_def [symmetric])
  moreover have "log_has e (s @ config_lines e) (set_cache c3 ?k3)" using c3(2) by (simp add: config_lines_def)
  moreover have "sy_th (kn_sys (set_cache c3 ?k3)) = set_mem ?m (sy_th (kn_sys k))" by simp
  ultimately show ?thesis by (intro exI [of _ "set_cache c3 ?k3"]) simp
qed

subsection \<open>A page of the dynamic memory\<close>

lemma same_index_page: "PD_INDEX x = PD_INDEX y \<Longrightarrow> PT_INDEX x = PT_INDEX y \<Longrightarrow> PG x = PG y"
proof (rule bit_word_eqI)
  fix n assume e: "PD_INDEX x = PD_INDEX y" "PT_INDEX x = PT_INDEX y" and n: "n < LENGTH(32)"
  have d: "bit (PD_INDEX z) (n - 22) \<longleftrightarrow> bit z n" if "22 \<le> n" for z
    using that n by (auto simp: PD_INDEX_def pg_bits)
  have t: "bit (PT_INDEX z) (n - 12) \<longleftrightarrow> bit z n" if "12 \<le> n" "n < 22" for z
    using that n by (auto simp: PT_INDEX_def pg_bits)
  show "bit (PG x) n \<longleftrightarrow> bit (PG y) n"
    using e d [of x] d [of y] t [of x] t [of y] by (cases "n < 12"; cases "n < 22") (auto simp: PG_def pg_bits)
qed

lemma finite_free_frames [simp]: "finite (free_frames m)"
  by (simp add: free_frames_def pm_pool_def pages_def)

text \<open>Pages of the dynamic memory that are mapped keep their frames when another page is.\<close>

definition kept :: "u32 set \<Rightarrow> machine \<Rightarrow> machine \<Rightarrow> bool" where
  "kept A m m' \<longleftrightarrow> (\<forall>x. dynamic x \<and> has_table m x \<and> PG x \<notin> A \<longrightarrow> has_table m' x \<and> walk m' x = walk m x)"

lemma kept_trans: "kept A m m' \<Longrightarrow> kept B m' m'' \<Longrightarrow> kept (A \<union> B) m m''"
  by (simp add: kept_def)

definition mapped_to :: "u32 \<Rightarrow> u32 \<Rightarrow> machine \<Rightarrow> machine \<Rightarrow> bool" where
  "mapped_to va pa m m' \<longleftrightarrow> pgt_inv m' \<and> own_tables m' \<and> has_table m' va
     \<and> (\<forall>x. PG x = PG va \<longrightarrow> walk m' x = Some (pa + (x AND 4095))) \<and> kept {PG va} m m'"

lemma map_dynamic:
  assumes inv: "pgt_inv m" and own: "own_tables m" and va: "dynamic va" and pa: "pa AND 4095 = 0" and free: "free_frames m \<noteq> {}"
  shows "\<exists>m'. set_mapping va pa (PGFLAG_US OR PGFLAG_RW OR PGFLAG_PS) m = Inr m' \<and> mapped_to va pa m m'
    \<and> free_frames m' \<subseteq> free_frames m \<and> card (free_frames m) \<le> Suc (card (free_frames m'))"
proof -
  have v: "PD_INDEX va \<noteq> 1023" using va by (simp add: dynamic_def)
  have fl: "bit (7 :: u32) 0" "(7 :: u32) AND PG_MASK = 0" by (simp_all add: bit_0 PG_MASK_def)
  have sm: "self_map m" using inv by (simp add: pgt_inv_def)
  show ?thesis
  proof (cases "has_table m va")
    case True
    then have pres: "bit (pde_of m va) 0" by (simp add: has_table_def)
    note wp = write_pte [OF inv v pres pa fl]
    let ?m = "m\<lparr>phys := (phys m)(PG (pde_of m va) + PT_INDEX va * 4 := pa OR 7)\<rparr>"
    have run: "set_mapping va pa (PGFLAG_US OR PGFLAG_RW OR PGFLAG_PS) m = Inr ?m"
      using set_mapping_present [OF sm True] wp(1) by (simp add: pg_flags)
    have ht: "has_table ?m x = has_table m x" for x by (simp add: has_table_def wp(3))
    have "walk ?m x = walk m x" if x: "dynamic x" "has_table m x" "PG x \<noteq> PG va" for x
    proof (rule walk_cong [OF wp(3)])
      have "PG (pde_of m x) \<noteq> PG (pde_of m va) \<or> PT_INDEX x \<noteq> PT_INDEX va"
      proof (cases "PD_INDEX x = PD_INDEX va")
        case True then show ?thesis using same_index_page x(3) by blast
      next
        case False then show ?thesis using own x(1,2) pres v by (auto simp: own_tables_def has_table_def)
      qed
      then show "pte_of ?m x = pte_of m x" using x(1) by (intro wp(5)) (simp_all add: dynamic_def)
    qed
    then have "kept {PG va} m ?m" by (simp add: kept_def ht)
    moreover have "own_tables ?m" using own by (simp add: own_tables_def wp(3))
    moreover have "free_frames ?m = free_frames m" by (simp add: free_frames_def)
    ultimately show ?thesis using run wp(2,4) True ht by (intro exI [of _ ?m]) (simp add: mapped_to_def)
  next
    case False
    obtain p m' where p: "p \<in> free_frames m" "set_mapping va pa 7 m = Inr m'" "pgt_inv m'"
      "\<forall>x. PG x = PG va \<longrightarrow> walk m' x = Some (pa + (x AND 4095))"
      "\<forall>x. PD_INDEX x \<noteq> 1023 \<and> PD_INDEX x \<noteq> PD_INDEX va \<longrightarrow> walk m' x = walk m x"
      "\<forall>x. pde_of m' x = (if PD_INDEX x = PD_INDEX va then p OR 7 else pde_of m x)" "free_frames m' = free_frames m - {p}"
      using set_mapping_new [OF inv v False free pa fl] by (elim bexE exE conjE) (rule that)
    have "\<not> bit (pde_of m va) 0" using False own va by (auto simp: has_table_def own_tables_def)
    then have no: "PD_INDEX x \<noteq> PD_INDEX va" if "bit (pde_of m x) 0" for x using that unfolding pde_of_def by metis
    have al: "p AND 4095 = 0" using p(1) inv pm.pool_aligned by (auto simp: free_frames_def pgt_inv_def)
    have p7: "PG (p OR 7) = p" by (rule PG_or_flags [OF al]) (simp add: PG_MASK_def)
    have b7: "bit (p OR 7) 0" "bit (p OR 7) 2" by (simp_all add: bit_0 even_or_iff bit_or_iff bit_numeral_rec)
    have other: "PG (pde_of m x) \<noteq> p" if "bit (pde_of m x) 0" "PD_INDEX x \<noteq> 1023" for x
      using that inv p(1) by (auto simp: pgt_inv_def)
    have "own_tables m'" unfolding own_tables_def
    proof (intro allI impI conjI)
      fix x assume x: "dynamic x \<and> bit (pde_of m' x) 0"
      then show "bit (pde_of m' x) 2" using own b7 p(6) by (auto simp: own_tables_def split: if_splits)
      fix y assume y: "bit (pde_of m' y) 0 \<and> PD_INDEX y \<noteq> 1023 \<and> PD_INDEX x \<noteq> PD_INDEX y"
      show "PG (pde_of m' x) \<noteq> PG (pde_of m' y)"
        using x y own other [of x] other [of y] p(6) p7 by (auto simp: own_tables_def dynamic_def split: if_splits)
    qed
    moreover have "kept {PG va} m m'"
      using p(5,6) no by (auto simp: kept_def has_table_def dynamic_def)
    moreover have "has_table m' va" using p(6) b7 by (simp add: has_table_def)
    ultimately have "mapped_to va pa m m'" unfolding mapped_to_def using p(3,4) by (intro conjI)
    moreover have "card (free_frames m) = Suc (card (free_frames m'))" using card_Suc_Diff1 [OF finite_free_frames p(1)] by (simp add: p(7))
    moreover have "set_mapping va pa (PGFLAG_US OR PGFLAG_RW OR PGFLAG_PS) m = Inr m'" using p(2) by (simp add: pg_flags)
    moreover have "free_frames m' \<subseteq> free_frames m" using p(7) by blast
    ultimately show ?thesis by (intro exI [of _ m'] conjI) simp_all
  qed
qed

text \<open>A frame is taken and a page mapped to it: at most two frames are gone.\<close>

lemma map_frame:
  assumes inv: "pgt_inv m" and own: "own_tables m" and va: "dynamic va" and free: "2 \<le> card (free_frames m)"
  shows "\<exists>p pm' m'. phy_alloc_page (pmst m) = Inr (p, pm') \<and> p \<in> free_frames m
    \<and> set_mapping va p (PGFLAG_US OR PGFLAG_RW OR PGFLAG_PS) (m\<lparr>pmst := pm'\<rparr>) = Inr m' \<and> mapped_to va p m m'
    \<and> free_frames m' \<subseteq> free_frames m - {p} \<and> card (free_frames m) \<le> card (free_frames m') + 2"
proof -
  have pmi: "pm_inv (pmst m)" using inv by (simp add: pgt_inv_def)
  have "free_frames m \<noteq> {}" using free by auto
  then have "pm_taken (pmst m) \<noteq> pm_pool (pmst m)" by (auto simp: free_frames_def)
  from pm.alloc_some [OF pmi this] obtain p pm' where
    al: "phy_alloc_page (pmst m) = Inr (p, pm')" "pm_inv pm'" "pm_pool pm' = pm_pool (pmst m)"
      "p \<in> free_frames m" "pm_taken pm' = insert p (pm_taken (pmst m))" by (auto simp: free_frames_def)
  define m1 where "m1 = m\<lparr>pmst := pm'\<rparr>"
  note a = pgt_inv_alloc [OF inv al(2,3,5), folded m1_def]
  have c: "card (free_frames m) = Suc (card (free_frames m1))" using card_Suc_Diff1 [OF finite_free_frames al(4)] by (simp add: a(2))
  have p: "p AND 4095 = 0" using al(4) pm.pool_aligned [OF pmi] by (auto simp: free_frames_def)
  have ne: "free_frames m1 \<noteq> {}" using c free by auto
  have o: "own_tables m1" using own by (simp add: own_tables_def a(3))
  have k: "mapped_to va p m1 m' = mapped_to va p m m'" for m' by (simp add: mapped_to_def kept_def has_table_def a(3,4))
  obtain m' where m: "set_mapping va p (PGFLAG_US OR PGFLAG_RW OR PGFLAG_PS) m1 = Inr m'" "mapped_to va p m1 m'"
    "free_frames m' \<subseteq> free_frames m1" "card (free_frames m1) \<le> Suc (card (free_frames m'))"
    using map_dynamic [OF a(1) o va p ne] by blast
  have "mapped_to va p m m'" "free_frames m' \<subseteq> free_frames m - {p}" "card (free_frames m) \<le> card (free_frames m') + 2"
    using m(2-4) c unfolding k a(2) by simp_all
  then show ?thesis using al(1,4) m(1) unfolding m1_def by blast
qed

text \<open>Pages in a row, from \<open>va\<close> on, all of the dynamic memory.\<close>

definition span :: "u32 \<Rightarrow> nat \<Rightarrow> bool" where
  "span va n \<longleftrightarrow> PG va = va \<and> 0x80400000 \<le> unat va \<and> unat va + n * 4096 \<le> 0xffc00000"

definition backed :: "machine \<Rightarrow> u32 \<Rightarrow> u32 list \<Rightarrow> bool" where
  "backed m va fs \<longleftrightarrow> (\<forall>k < length fs. \<forall>x. PG x = page_at va k \<longrightarrow> has_table m x \<and> walk m x = Some (fs ! k + (x AND 4095)))"

lemma dynamicI:
  assumes "0x80400000 \<le> unat x" and "unat x < 0xffc00000"
  shows "dynamic x"
proof -
  have "PD_INDEX x = take_bit 10 (drop_bit 22 x)" by (simp add: PD_INDEX_def take_bit_eq_mask mask_eq_exp_minus_1)
  then have "unat (PD_INDEX x) = unat x div 4194304 mod 1024"
    by (simp add: take_bit_eq_mod drop_bit_eq_div unat_mod unat_div)
  then have "unat (PD_INDEX x) = unat x div 4194304" using assms(2) by simp
  moreover have "513 \<le> unat x div 4194304" "unat x div 4194304 < 1023" using assms by auto
  ultimately show ?thesis unfolding dynamic_def by (auto simp: word_unat_eq_iff)
qed

lemma PG_iff: "PG x = x \<longleftrightarrow> unat x mod 4096 = 0"
  by (simp only: PG_fix [symmetric] aligned_iff)

lemma unat_span: "span va n \<Longrightarrow> k \<le> n \<Longrightarrow> unat (page_at va k) = unat va + k * 4096"
  by (rule unat_page_at) (simp add: span_def)

lemma span_page:
  assumes "span va n" and "k < n"
  shows "PG (page_at va k) = page_at va k" "dynamic (page_at va k)"
proof -
  have u: "unat (page_at va k) = unat va + k * 4096" using assms unat_span by simp
  have "unat va mod 4096 = 0" using assms(1) by (simp add: span_def PG_iff)
  then show "PG (page_at va k) = page_at va k" unfolding PG_iff u by simp
  show "dynamic (page_at va k)" by (rule dynamicI) (use assms u in \<open>simp_all add: span_def\<close>)
qed

lemma page_at_Suc: "page_at (va + PGSIZE) k = page_at va (Suc k)" "page_at va 0 = va"
  by (simp_all add: page_at_def PGSIZE_def algebra_simps)

lemma page_at_ne:
  assumes "span va n" and "j < n" and "k < n" and "j \<noteq> k"
  shows "page_at va j \<noteq> page_at va k"
proof
  assume "page_at va j = page_at va k"
  then have "unat va + j * 4096 = unat va + k * 4096" using unat_span [OF assms(1)] assms(2,3) by (metis less_imp_le)
  then show False using assms(4) by simp
qed

lemma span_tail:
  assumes "span va (Suc n)"
  shows "span (va + PGSIZE) n"
proof -
  have u: "unat (va + PGSIZE) = unat va + 4096" using unat_span [OF assms, of 1] by (simp add: page_at_def PGSIZE_def)
  have "unat va mod 4096 = 0" using assms by (simp add: span_def PG_iff)
  then have "PG (va + PGSIZE) = va + PGSIZE" unfolding PG_iff u by simp
  then show ?thesis using assms u by (simp add: span_def)
qed

definition frames_ok :: "nat \<Rightarrow> machine \<Rightarrow> bool" where
  "frames_ok n m \<longleftrightarrow> pgt_inv m \<and> own_tables m \<and> n \<le> card (free_frames m)"

lemma map_pages_ok:
  "frames_ok (2 * n + c) (km_mach s) \<Longrightarrow> span va n \<Longrightarrow>
   \<exists>fs m. map_pages va n s = Inr (s\<lparr>km_mach := m\<rparr>) \<and> length fs = n \<and> distinct fs \<and> set fs \<subseteq> free_frames (km_mach s)
     \<and> frames_ok c m \<and> free_frames m \<subseteq> free_frames (km_mach s) - set fs \<and> backed m va fs
     \<and> kept (page_at va ` {..<n}) (km_mach s) m"
proof (induction n arbitrary: va s)
  case 0
  then show ?case by (intro exI [of _ "[]"] exI [of _ "km_mach s"]) (simp add: backed_def kept_def)
next
  case (Suc n)
  let ?m = "km_mach s"
  have f: "pgt_inv ?m" "own_tables ?m" "2 \<le> card (free_frames ?m)" "2 * Suc n + c \<le> card (free_frames ?m)"
    using Suc.prems(1) by (simp_all add: frames_ok_def)
  note sp = Suc.prems(2) and st = span_tail [OF Suc.prems(2)]
  have va: "PG va = va" "dynamic va" using span_page [OF sp, of 0] by (simp_all add: page_at_Suc)
  obtain p pm m1 where p: "phy_alloc_page (pmst ?m) = Inr (p, pm)" "p \<in> free_frames ?m"
    "set_mapping va p (PGFLAG_US OR PGFLAG_RW OR PGFLAG_PS) (?m\<lparr>pmst := pm\<rparr>) = Inr m1" "mapped_to va p ?m m1"
    "free_frames m1 \<subseteq> free_frames ?m - {p}" "card (free_frames ?m) \<le> card (free_frames m1) + 2"
    using map_frame [OF f(1,2) va(2) f(3)] by blast
  have mt: "pgt_inv m1" "own_tables m1" "has_table m1 va" "kept {va} ?m m1"
    and w: "\<And>x. PG x = va \<Longrightarrow> walk m1 x = Some (p + (x AND 4095))"
    using p(4) va(1) by (simp_all add: mapped_to_def)
  have "frames_ok (2 * n + c) m1" using mt(1,2) f(4) p(6) by (simp add: frames_ok_def)
  then obtain fs m where ih: "map_pages (va + PGSIZE) n (s\<lparr>km_mach := m1\<rparr>) = Inr (s\<lparr>km_mach := m\<rparr>)" "length fs = n" "distinct fs"
    "set fs \<subseteq> free_frames m1" "frames_ok c m" "free_frames m \<subseteq> free_frames m1 - set fs" "backed m (va + PGSIZE) fs"
    "kept (page_at (va + PGSIZE) ` {..<n}) m1 m"
    using Suc.IH [of "s\<lparr>km_mach := m1\<rparr>" "va + PGSIZE"] st by auto
  have run: "map_pages va (Suc n) s = Inr (s\<lparr>km_mach := m\<rparr>)" using p(1,3) ih(1) by simp
  have "page_at (va + PGSIZE) ` {..<n} = page_at va ` Suc ` {..<n}" unfolding image_image by (rule image_cong) (simp_all only: page_at_Suc)
  also have "Suc ` {..<n} = {Suc 0..<Suc n}" by (simp only: lessThan_atLeast0 image_Suc_atLeastLessThan)
  finally have rest: "page_at (va + PGSIZE) ` {..<n} = page_at va ` {Suc 0..<Suc n}" .
  have "backed m va (p # fs)" unfolding backed_def
  proof (intro allI impI)
    fix k x assume k: "k < length (p # fs)" and x: "PG x = page_at va k"
    show "has_table m x \<and> walk m x = Some ((p # fs) ! k + (x AND 4095))"
    proof (cases k)
      case 0
      then have pv: "PG x = va" using x by (simp add: page_at_Suc)
      have "page_at va 0 \<noteq> page_at va j" if "j \<in> {Suc 0..<Suc n}" for j using page_at_ne [OF sp, of 0 j] that by auto
      then have out: "PG x \<notin> page_at va ` {Suc 0..<Suc n}" using pv by (auto simp: page_at_Suc)
      have e: "PG x = PG va" using pv va(1) by simp
      have "dynamic x" using va(2) e unfolding dynamic_def by (metis PD_INDEX_PG)
      moreover have "has_table m1 x" using mt(3) same_page [OF e, of m1] by (simp add: has_table_def)
      ultimately have "has_table m x \<and> walk m x = walk m1 x" using ih(8) out unfolding kept_def rest by blast
      then show ?thesis using w [OF pv] 0 by simp
    next
      case (Suc j)
      then show ?thesis using ih(7) k x unfolding backed_def page_at_Suc by auto
    qed
  qed
  moreover have "kept (page_at va ` {..<Suc n}) ?m m"
  proof -
    have "{..<Suc n} = insert 0 {Suc 0..<Suc n}" by auto
    then have "page_at va ` {..<Suc n} = insert va (page_at va ` {Suc 0..<Suc n})" by (simp only: image_insert page_at_Suc)
    then show ?thesis using kept_trans [OF mt(4) ih(8)] unfolding rest by simp
  qed
  moreover have "distinct (p # fs)" "set (p # fs) \<subseteq> free_frames ?m" "free_frames m \<subseteq> free_frames ?m - set (p # fs)"
    using ih(3,4,6) p(2,5) by auto
  ultimately show ?case using run ih(2,5) by (intro exI [of _ "p # fs"] exI [of _ m]) simp
qed

subsection \<open>The first pages of metadata\<close>

definition mem_ok :: "nat \<Rightarrow> u32 set \<Rightarrow> kmem \<Rightarrow> bool" where
  "mem_ok c T s \<longleftrightarrow> frames_ok c (km_mach s) \<and> vmk_inv (km_kern s) \<and> vmk_taken (km_kern s) = T"

lemma new_kern_page_ok:
  assumes m: "mem_ok (c + 2) T s" and t: "card T < 64504"
  shows "\<exists>page m k. new_kern_page s = Inr (page, s\<lparr>km_mach := m, km_kern := k\<rparr>) \<and> page_addr page \<and> KERN_METADATA \<le> page
    \<and> page \<notin> T \<and> mem_ok c (insert page T) (s\<lparr>km_mach := m, km_kern := k\<rparr>)"
proof -
  have f: "pgt_inv (km_mach s)" "own_tables (km_mach s)" "c + 2 \<le> card (free_frames (km_mach s))" "2 \<le> card (free_frames (km_mach s))"
    and k: "vmk_inv (km_kern s)" "vmk_taken (km_kern s) = T"
    using m by (simp_all add: mem_ok_def frames_ok_def)
  have ok: "pool_ok KERN_METADATA (bm_virmm (km_kern s))" and cap: "bm_cap (bm_virmm (km_kern s)) = 64504"
    using k(1) by (simp_all add: vmk_inv_def)
  have "card (vmk_pool (km_kern s)) = 64504"
    using card_image [OF page_at_inj [OF ok]] cap by (simp add: vmk_pool_def pages_def)
  then have "vmk_taken (km_kern s) \<noteq> vmk_pool (km_kern s)" using t k(2) by auto
  from vmk.alloc_some [OF k(1) this] obtain page k' where
    a: "vir_alloc_kern (km_kern s) = Inr (page, k')" "vmk_inv k'" "page \<in> vmk_pool (km_kern s)" "page \<notin> T"
      "vmk_taken k' = insert page T" unfolding k(2) by blast
  obtain n where n: "n < 64504" "page = page_at KERN_METADATA n" using a(3) cap by (auto simp: vmk_pool_def pages_def)
  have u: "unat page = 4026531840 + n * 4096"
    using unat_page_at [OF pool_bound [OF ok, of n]] n cap by (simp add: KERN_METADATA_def)
  have dyn: "dynamic page" by (rule dynamicI) (use u n(1) in simp_all)
  have "unat page mod 4096 = 0" unfolding u by simp
  then have "PG page = page" by (simp only: PG_iff)
  then have addr: "page_addr page" "KERN_METADATA \<le> page"
    using u n(1) by (simp_all add: page_addr_def PGDOWN_page KERN_METADATA_def word_le_nat_alt)
  obtain p pm m1 where p: "phy_alloc_page (pmst (km_mach s)) = Inr (p, pm)"
    "set_mapping page p (PGFLAG_US OR PGFLAG_RW OR PGFLAG_PS) ((km_mach s)\<lparr>pmst := pm\<rparr>) = Inr m1" "mapped_to page p (km_mach s) m1"
    "card (free_frames (km_mach s)) \<le> card (free_frames m1) + 2"
    using map_frame [OF f(1,2) dyn f(4)] by blast
  have "new_kern_page s = Inr (page, s\<lparr>km_mach := m1, km_kern := k'\<rparr>)" using p(1,2) a(1) by (simp add: new_kern_page_def)
  moreover have "frames_ok c m1" using p(3,4) f(3) by (simp add: frames_ok_def mapped_to_def)
  ultimately show ?thesis using addr a(2,4,5) by (intro exI [of _ page] exI [of _ m1] exI [of _ k']) (simp add: mem_ok_def)
qed

definition outside :: "u32 \<Rightarrow> kmem \<Rightarrow> kmem \<Rightarrow> bool" where
  "outside page s t \<longleftrightarrow> (\<forall>x. \<not> in_range page 4096 x \<longrightarrow> km_heap t x = km_heap s x \<and> km_fl t x = km_fl s x
     \<and> km_va t x = km_va s x \<and> km_vs t x = km_vs s x)"

definition heads3 :: "kmem \<Rightarrow> u32 option \<Rightarrow> u32 option \<Rightarrow> u32 option \<Rightarrow> bool" where
  "heads3 s a b c \<longleftrightarrow> meta_vs s = a \<and> meta_node s = b \<and> meta_va s = c \<and> sl_vs s = unlocked \<and> sl_ata s = unlocked \<and> sl_va s = unlocked"

lemma meta_page_outside:
  assumes "meta_page s p k xs" and "page_addr q" and "p \<noteq> q" and "outside q s t"
  shows "meta_page t p k xs"
proof -
  let ?u = "s\<lparr>km_heap := km_heap t, km_fl := km_fl t, km_va := km_va t, km_vs := km_vs t\<rparr>"
  have "off_page q s ?u" using assms(4) by (simp add: off_page_def outside_def)
  from meta_page_frame [OF assms(1-3) this] show ?thesis by (simp add: meta_page_def fl_ok_def)
qed

text \<open>A list without a page gets its first one.\<close>

lemma fresh_list:
  assumes m: "mem_ok (c + 2) T s" and t: "card T < 64504" and k: "8 < k" "k \<le> 1032"
  shows "\<exists>page t. fmtlist_alloc None (word_of_nat (k - 8)) s = Inr (Some (elem page k 0), Some page, t)
    \<and> meta_page t page k [1..<room k] \<and> page \<notin> T \<and> mem_ok c (insert page T) t \<and> outside page s t
    \<and> meta_vs t = meta_vs s \<and> meta_node t = meta_node s \<and> meta_va t = meta_va s
    \<and> sl_vs t = sl_vs s \<and> sl_ata t = sl_ata s \<and> sl_va t = sl_va s"
proof -
  obtain page m k' where n: "new_kern_page s = Inr (page, s\<lparr>km_mach := m, km_kern := k'\<rparr>)" "page_addr page" "KERN_METADATA \<le> page"
    "page \<notin> T" "mem_ok c (insert page T) (s\<lparr>km_mach := m, km_kern := k'\<rparr>)" using new_kern_page_ok [OF m t] by blast
  obtain t where t: "fmtlist_alloc None (word_of_nat (k - 8)) s = Inr (Some (slot page k 0 + 8), Some page, t)"
    "fl_ok t page k [1..<room k]" "off_page page (s\<lparr>km_mach := m, km_kern := k'\<rparr>) t" "fl_next (km_fl t page) = None"
    using fmtlist_alloc_fresh [OF n(1,2) k] by blast
  have "mem_ok c (insert page T) t" using n(5) t(3) by (simp add: mem_ok_def off_page_def)
  moreover have "outside page s t" using t(3) by (simp add: outside_def off_page_def)
  moreover have "meta_page t page k [1..<room k]" using t(2,4) n(3) by (simp add: meta_page_def)
  ultimately show ?thesis using t(1,3) n(4) by (intro exI [of _ page] exI [of _ t]) (simp add: elem_def off_page_def)
qed

lemma mem_ok_simps [simp]:
  "mem_ok c T (s\<lparr>sl_vs := l\<rparr>) = mem_ok c T s" "mem_ok c T (s\<lparr>sl_ata := l\<rparr>) = mem_ok c T s" "mem_ok c T (s\<lparr>sl_va := l\<rparr>) = mem_ok c T s"
  "mem_ok c T (s\<lparr>meta_vs := p\<rparr>) = mem_ok c T s" "mem_ok c T (s\<lparr>meta_node := p\<rparr>) = mem_ok c T s"
  "mem_ok c T (s\<lparr>meta_va := p\<rparr>) = mem_ok c T s" "mem_ok c T (set_vs v x s) = mem_ok c T s" "mem_ok c T (s\<lparr>km_heap := h\<rparr>) = mem_ok c T s"
  by (simp_all add: mem_ok_def set_vs_def)

lemma vspace_alloc_cold:
  assumes h: "heads3 s None b a" and m: "mem_ok (c + 2) T s" and t: "card T < 64504"
  shows "\<exists>p t. vspace_alloc s = Inr (Some (elem p 32 0), t) \<and> meta_page t p 32 [1..<room 32] \<and> p \<notin> T \<and> mem_ok c (insert p T) t
    \<and> outside p s t \<and> heads3 t (Some p) b a"
proof -
  obtain p u where u: "fmtlist_alloc None SIZEOF_VSPACE (s\<lparr>sl_vs := \<lparr>islock = 1\<rparr>\<rparr>) = Inr (Some (elem p 32 0), Some p, u)"
    "meta_page u p 32 [1..<room 32]" "p \<notin> T" "mem_ok c (insert p T) u" "outside p s u"
    "meta_node u = b" "meta_va u = a" "sl_vs u = \<lparr>islock = 1\<rparr>" "sl_ata u = unlocked" "sl_va u = unlocked"
    using fresh_list [of c T "s\<lparr>sl_vs := \<lparr>islock = 1\<rparr>\<rparr>" 32] m t h by (auto simp: SIZEOF_VSPACE_def heads3_def outside_def)
  have "vspace_alloc s = Inr (Some (elem p 32 0), u\<lparr>meta_vs := Some p, sl_vs := unlocked\<rparr>)"
    using u(1,8) h by (simp add: vspace_alloc_def heads3_def)
  then show ?thesis using u
    by (intro exI [of _ p] exI [of _ "u\<lparr>meta_vs := Some p, sl_vs := unlocked\<rparr>"]) (simp add: heads3_def outside_def meta_page_def fl_ok_def)
qed

lemma node_alloc_cold:
  assumes h: "heads3 s v None a" and m: "mem_ok (c + 2) T s" and t: "card T < 64504"
  shows "\<exists>p t. node_alloc s = Inr (Some (elem p 16 0), t) \<and> meta_page t p 16 [1..<room 16] \<and> p \<notin> T \<and> mem_ok c (insert p T) t
    \<and> outside p s t \<and> heads3 t v (Some p) a"
proof -
  obtain p u where u: "fmtlist_alloc None SIZEOF_NODE (s\<lparr>sl_ata := \<lparr>islock = 1\<rparr>\<rparr>) = Inr (Some (elem p 16 0), Some p, u)"
    "meta_page u p 16 [1..<room 16]" "p \<notin> T" "mem_ok c (insert p T) u" "outside p s u"
    "meta_vs u = v" "meta_va u = a" "sl_ata u = \<lparr>islock = 1\<rparr>" "sl_vs u = unlocked" "sl_va u = unlocked"
    using fresh_list [of c T "s\<lparr>sl_ata := \<lparr>islock = 1\<rparr>\<rparr>" 16] m t h by (auto simp: SIZEOF_NODE_def heads3_def outside_def)
  have "node_alloc s = Inr (Some (elem p 16 0), u\<lparr>meta_node := Some p, sl_ata := unlocked\<rparr>)"
    using u(1,8) h by (simp add: node_alloc_def heads3_def)
  then show ?thesis using u
    by (intro exI [of _ p] exI [of _ "u\<lparr>meta_node := Some p, sl_ata := unlocked\<rparr>"]) (simp add: heads3_def outside_def meta_page_def fl_ok_def)
qed

lemma vaddr_alloc_cold:
  assumes h: "heads3 s v n None" and m: "mem_ok (c + 2) T s" and t: "card T < 64504"
  shows "\<exists>p t. vaddr_alloc s = Inr (Some (elem p 16 0), t) \<and> meta_page t p 16 [1..<room 16] \<and> p \<notin> T \<and> mem_ok c (insert p T) t
    \<and> outside p s t \<and> heads3 t v n (Some p)"
proof -
  obtain p u where u: "fmtlist_alloc None SIZEOF_VADDR (s\<lparr>sl_va := \<lparr>islock = 1\<rparr>\<rparr>) = Inr (Some (elem p 16 0), Some p, u)"
    "meta_page u p 16 [1..<room 16]" "p \<notin> T" "mem_ok c (insert p T) u" "outside p s u"
    "meta_vs u = v" "meta_node u = n" "sl_va u = \<lparr>islock = 1\<rparr>" "sl_vs u = unlocked" "sl_ata u = unlocked"
    using fresh_list [of c T "s\<lparr>sl_va := \<lparr>islock = 1\<rparr>\<rparr>" 16] m t h by (auto simp: SIZEOF_VADDR_def heads3_def outside_def)
  have "vaddr_alloc s = Inr (Some (elem p 16 0), u\<lparr>meta_va := Some p, sl_va := unlocked\<rparr>)"
    using u(1,8) h by (simp add: vaddr_alloc_def heads3_def)
  then show ?thesis using u
    by (intro exI [of _ p] exI [of _ "u\<lparr>meta_va := Some p, sl_va := unlocked\<rparr>"]) (simp add: heads3_def outside_def meta_page_def fl_ok_def)
qed

text \<open>The first range of all brings the three first pages of metadata with it.\<close>

lemma elem_out:
  assumes "page_addr p" and "page_addr q" and "p \<noteq> q" and "8 < k" and "i < room k"
  shows "\<not> in_range q 4096 (elem p k i)"
  using pages_apart [OF assms(1-3)] elem_in_page [OF assms(1,4,5)] by blast

lemma low_out: "unat r < 4026531840 \<Longrightarrow> KERN_METADATA \<le> p \<Longrightarrow> \<not> in_range p 4096 r"
  by (auto simp: in_range_def KERN_METADATA_def word_le_nat_alt)

lemma room_nonzero: "0 < room 32" "0 < room 16" "[0..<room 32] = 0 # [1..<room 32]" "[0..<room 16] = 0 # [1..<room 16]"
  by (simp_all add: room_def upt_conv_Cons)

lemma take_range_cold:
  assumes m: "mem_ok (c + 6) {} s" and h: "heads3 s None None None" and root: "root_at s r" and r: "unat r < 4026531840"
  shows "\<exists>t. take_range r b l s = Inr (b, t) \<and> vm_inv t r b (b + l * PGSIZE) [(b, l)] (room 32 - 1) (room 16 - 1) (room 16 - 1)
    \<and> frames_ok c (km_mach t)"
proof -
  have c: "c + 6 = c + 2 + 2 + 2" by simp
  obtain pv s1 where s1: "vspace_alloc s = Inr (Some (elem pv 32 0), s1)" "meta_page s1 pv 32 [1..<room 32]"
    "mem_ok (c + 2 + 2) {pv} s1" "outside pv s s1" "heads3 s1 (Some pv) None None"
    using vspace_alloc_cold [OF h m [unfolded c]] by auto
  let ?v = "elem pv 32 0" and ?o = "\<lparr>vs_list = \<lparr>ls_null = elem pv 32 0, ls_size = 0\<rparr>, vs_begin = b, vs_end = b, vs_next = None\<rparr>"
  let ?e = "\<lparr>nd_data = None, nd_next = None\<rparr> :: u32 node"
  have pv: "page_addr pv" "KERN_METADATA \<le> pv" using s1(2) by (simp_all add: meta_page_def fl_ok_def)
  define s2 where "s2 = set_vs ?v ?o (s1\<lparr>km_heap := (km_heap s1)(?v := ?e)\<rparr>)"
  have set: "vspace_set (Some ?v) None b b None s1 = Inr s2" by (simp add: vspace_set_def s2_def)
  have "fl_ok s2 pv 32 [1..<room 32]"
    by (rule fl_ok_heap [of s1]) (use s1(2) elem_not_book [OF pv(1), of 32 0] room_nonzero in \<open>auto simp: meta_page_def s2_def set_vs_def\<close>)
  then have mp2: "meta_page s2 pv 32 [1..<room 32]" using s1(2) by (simp add: meta_page_def s2_def set_vs_def)
  have h2: "heads3 s2 (Some pv) None None" "mem_ok (c + 2 + 2) {pv} s2" using s1(3,5) by (simp_all add: s2_def heads3_def set_vs_def mem_ok_def)
  obtain pn s3 where s3: "node_alloc s2 = Inr (Some (elem pn 16 0), s3)" "meta_page s3 pn 16 [1..<room 16]" "pn \<notin> {pv}"
    "mem_ok (c + 2) {pn, pv} s3" "outside pn s2 s3" "heads3 s3 (Some pv) (Some pn) None"
    using node_alloc_cold [OF h2(1,2)] by auto
  have "card {pn, pv} < 64504" using s3(3) by (simp add: card_insert_if)
  then obtain pa s4 where s4: "vaddr_alloc s3 = Inr (Some (elem pa 16 0), s4)" "meta_page s4 pa 16 [1..<room 16]" "pa \<notin> {pn, pv}"
    "mem_ok c {pa, pn, pv} s4" "outside pa s3 s4" "heads3 s4 (Some pv) (Some pn) (Some pa)"
    using vaddr_alloc_cold [OF s3(6,4)] by auto
  have pn: "page_addr pn" "KERN_METADATA \<le> pn" and pa: "page_addr pa" "KERN_METADATA \<le> pa"
    using s3(2) s4(2) by (simp_all add: meta_page_def fl_ok_def)
  have ne: "pv \<noteq> pn" "pv \<noteq> pa" "pn \<noteq> pa" using s3(3) s4(3) by auto
  have "meta_page s4 pv 32 [1..<room 32]" "meta_page s4 pn 16 [1..<room 16]"
    using meta_page_outside [OF meta_page_outside [OF mp2 pn(1) ne(1) s3(5)] pa(1) ne(2) s4(5)]
      meta_page_outside [OF s3(2) pa(1) ne(3) s4(5)] by simp_all
  then have ok: "meta_ok s4 pv pn pa [1..<room 32] [1..<room 16] [1..<room 16]"
    using s4(2,6) ne by (simp add: meta_ok_def heads3_def)
  have off: "off_pages pv pn pa r" using low_out [OF r] pv(2) pn(2) pa(2) by (simp add: off_pages_def)
  have vo: "\<not> in_range pn 4096 ?v" "\<not> in_range pa 4096 ?v"
    using elem_out [OF pv(1) pn(1) ne(1), of 32 0] elem_out [OF pv(1) pa(1) ne(2), of 32 0] room_nonzero by simp_all
  have v4: "km_vs s4 ?v = ?o" "km_heap s4 ?v = ?e" using s3(5) s4(5) vo by (simp_all add: outside_def s2_def set_vs_def)
  have "r \<noteq> ?v" using off elem_in_page [OF pv(1), of 32 0] room_nonzero by (auto simp: off_pages_def)
  then have r4: "km_vs s4 r = km_vs s r" "km_heap s4 r = km_heap s r"
    using s1(4) s3(5) s4(5) off by (simp_all add: outside_def s2_def set_vs_def off_pages_def)
  obtain t where t: "take_range r b l s = Inr (b, t)" "meta_ok t pv pn pa [1..<room 32] [1..<room 16] [1..<room 16]"
    "vm_at t r ?v b (b + l * PGSIZE) [elem pn 16 0] [elem pa 16 0] [(b, l)]" "km_mach t = km_mach s4" "km_kern t = km_kern s4"
    using take_range_new [OF s1(1) set s3(1) s4(1) ok off root refl room_nonzero(1,2) v4 r4, of l] by blast
  have "vm_inv t r b (b + l * PGSIZE) [(b, l)] (room 32 - 1) (room 16 - 1) (room 16 - 1)"
    unfolding vm_inv_def
    by (rule exI [of _ pv], rule exI [of _ pn], rule exI [of _ pa], rule exI [of _ "[1..<room 32]"], rule exI [of _ "[1..<room 16]"],
        rule exI [of _ "[1..<room 16]"], rule exI [of _ 0], rule exI [of _ "[0]"], rule exI [of _ "[0]"]) (use t(2,3) off room_nonzero in simp)
  then show ?thesis using t(1,4) s4(4) by (auto simp: mem_ok_def)
qed

lemma vir_alloc_cold:
  assumes "mem_ok (c + 6) {} s" and "heads3 s None None None" and "root_at s r" and "unat r < 4026531840"
    and nx: "vs_next (km_vs s r) = None" and l: "l \<noteq> 0" "\<not> b + l * PGSIZE \<ge> max_end_of b"
  shows "\<exists>t. vir_alloc_pages (Some r) l b s = Inr (b, t)
    \<and> vm_inv t r b (b + l * PGSIZE) [(b, l)] (room 32 - 1) (room 16 - 1) (room 16 - 1) \<and> frames_ok c (km_mach t)"
proof -
  obtain n where n: "MAX_CHAIN = Suc n" using MAX_CHAIN_Suc by blast
  have "vir_alloc_pages (Some r) l b s = take_range r b l s"
    using nx l by (simp add: vir_alloc_pages_def n Let_def max_end_of_def)
  then show ?thesis using take_range_cold [OF assms(1-4), of b l] by simp
qed

subsection \<open>The tables of the threads\<close>

definition DYN :: u32 where "DYN = 0x80400000"

text \<open>The tables lie in a row from \<open>DYN\<close> on, every page on a frame of its own; \<open>nn\<close> more ranges and \<open>c\<close> more frames can be had.\<close>

definition tabled :: "threads \<Rightarrow> u32 \<Rightarrow> (u32 \<times> u32) list \<Rightarrow> nat \<Rightarrow> u32 list \<Rightarrow> nat \<Rightarrow> bool" where
  "tabled s p rs nn fs c \<longleftrightarrow> (let m = km_mach (th_mem s) in
     vm_inv (th_mem s) (vmngr_of p) DYN (page_at DYN (length fs)) rs (room 32 - 1) nn nn \<and> frames_ok c m \<and> backed m DYN fs
     \<and> distinct fs \<and> set fs \<inter> free_frames m = {} \<and> pcb_break (th_pcb s p) = DYN)"

lemma page_at_add: "page_at (page_at b i) j = page_at b (i + j)" "page_at b i + word_of_nat n * PGSIZE = page_at b (i + n)"
  by (simp_all add: page_at_def PGSIZE_def algebra_simps)

lemma DYN_span: "n \<le> 400000 \<Longrightarrow> span DYN n"
  by (simp add: span_def DYN_def PG_iff)

lemma span_rest: "span b (i + n) \<Longrightarrow> span (page_at b i) n"
  using unat_span [of b "i + n" i] span_page(1) [of b "Suc (i + n)" i]
  by (auto simp: span_def PG_iff)

lemma unat_DYN: "n \<le> 400000 \<Longrightarrow> unat (page_at DYN n) = 2151677952 + n * 4096"
  using unat_span [OF DYN_span, of n n] by (simp add: DYN_def)

lemma backed_append:
  assumes sp: "span b (length fs + length gs)" and f: "backed m b fs" and g: "backed m' (page_at b (length fs)) gs"
    and k: "kept (page_at (page_at b (length fs)) ` {..<length gs}) m m'"
  shows "backed m' b (fs @ gs)"
  unfolding backed_def
proof (intro allI impI)
  fix j x assume j: "j < length (fs @ gs)" and x: "PG x = page_at b j"
  show "has_table m' x \<and> walk m' x = Some ((fs @ gs) ! j + (x AND 4095))"
  proof (cases "j < length fs")
    case True
    have "dynamic (PG x)" using span_page(2) [OF sp, of j] True x by simp
    then have "dynamic x" by (simp add: dynamic_def)
    moreover have "has_table m x" "walk m x = Some (fs ! j + (x AND 4095))" using f True x unfolding backed_def by blast+
    moreover have "page_at b j \<noteq> page_at b (length fs + i)" if "i < length gs" for i
      using page_at_ne [OF sp, of j "length fs + i"] that True by simp
    then have "PG x \<notin> page_at (page_at b (length fs)) ` {..<length gs}" unfolding page_at_add x by blast
    ultimately show ?thesis using k True unfolding kept_def by (simp add: nth_append)
  next
    case False
    then have "PG x = page_at (page_at b (length fs)) (j - length fs)" "j - length fs < length gs" using x j by (simp_all add: page_at_add)
    then show ?thesis using g False unfolding backed_def by (simp add: nth_append)
  qed
qed

lemma tabled_next:
  assumes t: "tabled s p rs (Suc nn) fs (2 * n + c)" and n: "0 < n" "length fs + n \<le> 400000"
  shows "\<exists>gs m. table_pages p n s = Inr (page_at DYN (length fs), set_mem m s) \<and> length gs = n
    \<and> tabled (set_mem m s) p ((page_at DYN (length fs), word_of_nat n) # rs) nn (fs @ gs) c"
proof -
  let ?e = "page_at DYN (length fs)" and ?k = "th_mem s"
  have i: "vm_inv ?k (vmngr_of p) DYN ?e rs (room 32 - 1) (Suc nn) (Suc nn)" "frames_ok (2 * n + c) (km_mach ?k)" "backed (km_mach ?k) DYN fs"
    "distinct fs" "set fs \<inter> free_frames (km_mach ?k) = {}" "pcb_break (th_pcb s p) = DYN"
    using t by (simp_all add: tabled_def Let_def)
  have w: "(word_of_nat n :: u32) \<noteq> 0" using n unat_word_of_nat_32 [of n] by auto
  have sp: "span DYN (length fs + n)" by (rule DYN_span [OF n(2)])
  have "unat (?e + word_of_nat n * PGSIZE) < unat KERN_METADATA"
    unfolding page_at_add using unat_DYN [OF n(2)] n(2) by (simp add: KERN_METADATA_def)
  then have mx: "\<not> ?e + word_of_nat n * PGSIZE \<ge> max_end_of DYN"
    by (simp add: max_end_of_def DYN_def KERN_HIGH_MAPPING_def word_le_nat_alt)
  obtain u where u: "vir_alloc_pages (Some (vmngr_of p)) (word_of_nat n) DYN ?k = Inr (?e, u)"
    "vm_inv u (vmngr_of p) DYN (page_at DYN (length fs + n)) ((?e, word_of_nat n) # rs) (room 32 - 1) nn nn" "km_mach u = km_mach ?k"
    using vir_alloc_next(1) [OF i(1) w mx] unfolding page_at_add by blast
  obtain gs m where m: "map_pages ?e n u = Inr (u\<lparr>km_mach := m\<rparr>)" "length gs = n" "distinct gs" "set gs \<subseteq> free_frames (km_mach ?k)"
    "frames_ok c m" "free_frames m \<subseteq> free_frames (km_mach ?k) - set gs" "backed m ?e gs" "kept (page_at ?e ` {..<n}) (km_mach ?k) m"
    using map_pages_ok [OF i(2) [folded u(3)] span_rest [OF sp]] unfolding u(3) by blast
  have "backed m DYN (fs @ gs)" using backed_append [of DYN fs gs "km_mach ?k" m] sp i(3) m(2,7,8) by simp
  moreover have "set (fs @ gs) \<inter> free_frames m = {}" "distinct (fs @ gs)" using i(4,5) m(3,4,6) by auto
  ultimately have "tabled (set_mem (u\<lparr>km_mach := m\<rparr>) s) p ((?e, word_of_nat n) # rs) nn (fs @ gs) c"
    using u(2) m(2,5) i(6) by (simp add: tabled_def Let_def)
  moreover have "table_pages p n s = Inr (?e, set_mem (u\<lparr>km_mach := m\<rparr>) s)" using u(1) m(1) i(6) by (simp add: table_pages_def)
  ultimately show ?thesis using m(2) by blast
qed

lemma tabled_first:
  assumes m: "mem_ok (2 * n + c + 6) {} (th_mem s)" and h: "heads3 (th_mem s) None None None"
    and r: "root_at (th_mem s) (vmngr_of p)" "unat (vmngr_of p) < 4026531840" "vs_next (km_vs (th_mem s) (vmngr_of p)) = None"
    and b: "pcb_break (th_pcb s p) = DYN" and n: "0 < n" "n \<le> 400000"
  shows "\<exists>fs m. table_pages p n s = Inr (DYN, set_mem m s) \<and> length fs = n
    \<and> tabled (set_mem m s) p [(DYN, word_of_nat n)] (room 16 - 1) fs c"
proof -
  let ?k = "th_mem s"
  have w: "(word_of_nat n :: u32) \<noteq> 0" using n unat_word_of_nat_32 [of n] by auto
  have sp: "span DYN n" by (rule DYN_span [OF n(2)])
  have e: "DYN + word_of_nat n * PGSIZE = page_at DYN n" using page_at_add(2) [of DYN 0 n] by (simp add: page_at_Suc)
  have "unat (DYN + word_of_nat n * PGSIZE) < unat KERN_METADATA"
    unfolding e using unat_DYN [OF n(2)] n(2) by (simp add: KERN_METADATA_def)
  then have mx: "\<not> DYN + word_of_nat n * PGSIZE \<ge> max_end_of DYN"
    by (simp add: max_end_of_def DYN_def KERN_HIGH_MAPPING_def word_le_nat_alt)
  obtain u where u: "vir_alloc_pages (Some (vmngr_of p)) (word_of_nat n) DYN ?k = Inr (DYN, u)"
    "vm_inv u (vmngr_of p) DYN (page_at DYN n) [(DYN, word_of_nat n)] (room 32 - 1) (room 16 - 1) (room 16 - 1)"
    "frames_ok (2 * n + c) (km_mach u)"
    using vir_alloc_cold [OF m h r(1,2,3) w mx] unfolding e by blast
  obtain gs m where m: "map_pages DYN n u = Inr (u\<lparr>km_mach := m\<rparr>)" "length gs = n" "distinct gs"
    "frames_ok c m" "free_frames m \<subseteq> free_frames (km_mach u) - set gs" "backed m DYN gs"
    using map_pages_ok [OF u(3) sp] by blast
  have "tabled (set_mem (u\<lparr>km_mach := m\<rparr>) s) p [(DYN, word_of_nat n)] (room 16 - 1) gs c"
    using u(2) m(2-6) b by (auto simp: tabled_def Let_def)
  moreover have "table_pages p n s = Inr (DYN, set_mem (u\<lparr>km_mach := m\<rparr>) s)" using u(1) m(1) b by (simp add: table_pages_def)
  ultimately show ?thesis using m(2) by blast
qed

subsection \<open>init_hoo\<close>

lemma tabled_simps [simp]:
  "tabled (s\<lparr>th_buck := f\<rparr>) = tabled s" "tabled (s\<lparr>mdata_buckmngr := a\<rparr>) = tabled s" "tabled (s\<lparr>mdata_dir := a\<rparr>) = tabled s"
  "tabled (s\<lparr>mdata_cd := a\<rparr>) = tabled s" "tabled (s\<lparr>th_curdirs := cs\<rparr>) = tabled s" "tabled (s\<lparr>bitmap_buff := a\<rparr>) = tabled s"
  "tabled (s\<lparr>files_array := a\<rparr>) = tabled s" "tabled (s\<lparr>mdata_fmngr := a\<rparr>) = tabled s" "tabled (s\<lparr>th_fmngrs := fm\<rparr>) = tabled s"
  "tabled (s\<lparr>mdata_pcb := a\<rparr>) = tabled s" "tabled (s\<lparr>sl_pcb := l\<rparr>) = tabled s" "tabled (s\<lparr>tid_buff := a\<rparr>) = tabled s"
  "tabled (s\<lparr>bm_tid := m\<rparr>) = tabled s" "tabled (s\<lparr>sl_tid := l\<rparr>) = tabled s"
  by (simp_all add: tabled_def fun_eq_iff)

lemma set_mem_update [simp]:
  "set_mem m (s\<lparr>th_buck := f\<rparr>) = (set_mem m s)\<lparr>th_buck := f\<rparr>" "set_mem m (s\<lparr>mdata_buckmngr := a\<rparr>) = (set_mem m s)\<lparr>mdata_buckmngr := a\<rparr>"
  "set_mem m (s\<lparr>mdata_dir := a\<rparr>) = (set_mem m s)\<lparr>mdata_dir := a\<rparr>" "set_mem m (s\<lparr>mdata_cd := a\<rparr>) = (set_mem m s)\<lparr>mdata_cd := a\<rparr>"
  "set_mem m (s\<lparr>th_curdirs := cs\<rparr>) = (set_mem m s)\<lparr>th_curdirs := cs\<rparr>" "set_mem m (s\<lparr>bitmap_buff := a\<rparr>) = (set_mem m s)\<lparr>bitmap_buff := a\<rparr>"
  "set_mem m (s\<lparr>files_array := a\<rparr>) = (set_mem m s)\<lparr>files_array := a\<rparr>" "set_mem m (s\<lparr>mdata_fmngr := a\<rparr>) = (set_mem m s)\<lparr>mdata_fmngr := a\<rparr>"
  "set_mem m (s\<lparr>th_fmngrs := fm\<rparr>) = (set_mem m s)\<lparr>th_fmngrs := fm\<rparr>" "set_mem m (s\<lparr>mdata_pcb := a\<rparr>) = (set_mem m s)\<lparr>mdata_pcb := a\<rparr>"
  "set_mem m (s\<lparr>sl_pcb := l\<rparr>) = (set_mem m s)\<lparr>sl_pcb := l\<rparr>" "set_mem m (s\<lparr>tid_buff := a\<rparr>) = (set_mem m s)\<lparr>tid_buff := a\<rparr>"
  by (simp_all add: set_mem_def)

lemma bucket_loop_total: "\<exists>f. bucket_loop b i n s = Inr (s\<lparr>th_buck := f\<rparr>)"
proof (induction n arbitrary: i s)
  case 0
  show ?case by (rule exI [of _ "th_buck s"]) simp
next
  case (Suc n)
  let ?f = "(th_buck s)(buck_at b i := \<lparr>bk_size = push_bit (i + 3) 1, bk_chain = None,
    bk_next = (if i = MAX_BUCKET_SIZE - 1 then None else Some (buck_at b (Suc i)))\<rparr>)"
  obtain g where "bucket_loop b (Suc i) n (s\<lparr>th_buck := ?f\<rparr>) = Inr (s\<lparr>th_buck := g\<rparr>)"
    using Suc.IH [of "Suc i" "s\<lparr>th_buck := ?f\<rparr>"] by auto
  then show ?case by (auto simp: buckmngr_init_def)
qed

lemma all_buckets_total: "\<exists>f. all_buckets b i n s = Inr (s\<lparr>th_buck := f\<rparr>)"
proof (induction n arbitrary: i s)
  case 0
  show ?case by (rule exI [of _ "th_buck s"]) simp
next
  case (Suc n)
  obtain f where f: "bucket_loop (buck_at b (i * MAX_BUCKET_SIZE)) 0 MAX_BUCKET_SIZE s = Inr (s\<lparr>th_buck := f\<rparr>)"
    using bucket_loop_total by blast
  obtain g where "all_buckets b (Suc i) n (s\<lparr>th_buck := f\<rparr>) = Inr (s\<lparr>th_buck := g\<rparr>)" using Suc.IH [of "Suc i" "s\<lparr>th_buck := f\<rparr>"] by auto
  then show ?case using f by (auto simp: thread_buckmngr_init_def)
qed

lemma all_curdirs_total: "\<exists>cds. all_curdirs n = Inr cds \<and> length cds = n"
  by (induction n) (auto simp: curdir_init_def bzero_prefix)

text \<open>In every manager the three standard descriptors are taken.\<close>

lemma all_fmngrs_total: "\<exists>fs. all_fmngrs junk n = Inr fs \<and> length fs = n \<and> (\<forall>f \<in> set fs. bm_bits (fd_set f) = {0, 1, 2})"
proof (induction n)
  case (Suc n)
  then obtain fs where fs: "all_fmngrs junk n = Inr fs" "length fs = n" "\<forall>f \<in> set fs. bm_bits (fd_set f) = {0, 1, 2}" by blast
  obtain m0 where m0: "bitmap_init (Some \<lparr>len_inbits = 0, bm_buff = [], prev_free = 0\<rparr>) (word_of_nat MAX_FILES_PER_TASK)
      (Some (replicate (MAX_FILES_PER_TASK div 8) 0)) = Inr m0" "bm_wf m0" "bm_cap m0 = 64" "bm_bits m0 = {}"
    using bitmap_init_zero [of 64 8 "\<lparr>len_inbits = 0, bm_buff = [], prev_free = 0\<rparr>"] by (auto simp: MAX_FILES_PER_TASK_def)
  obtain m1 where m1: "bitmap_set (Some m0) FD_STDIN = Inr m1" "bm_wf m1" "bm_cap m1 = 64" "bm_bits m1 = {0}"
    using bitmap_set_bits [OF m0(2), of FD_STDIN] m0(3,4) by (auto simp: FD_STDIN_def)
  obtain m2 where m2: "bitmap_set (Some m1) FD_STDOUT = Inr m2" "bm_wf m2" "bm_cap m2 = 64" "bm_bits m2 = {1, 0}"
    using bitmap_set_bits [OF m1(2), of FD_STDOUT] m1(3,4) by (auto simp: FD_STDOUT_def)
  obtain m3 where m3: "bitmap_set (Some m2) FD_STDERR = Inr m3" "bm_bits m3 = {2, 1, 0}"
    using bitmap_set_bits [OF m2(2), of FD_STDERR] m2(3,4) by (auto simp: FD_STDERR_def)
  have "bm_bits m3 = {0, 1, 2}" using m3(2) by auto
  then show ?case using fs m0(1) m1(1) m2(1) m3(1) by auto
qed simp

lemma init_buckmngr_ok:
  assumes "mem_ok (54 + c) {} (th_mem s)" and "heads3 (th_mem s) None None None"
    and "root_at (th_mem s) (vmngr_of p)" and "unat (vmngr_of p) < 4026531840" and "vs_next (km_vs (th_mem s) (vmngr_of p)) = None"
    and "pcb_break (th_pcb s p) = DYN"
  shows "\<exists>fs m f. init_thread_buckmngr (Some p) s = Inr ((set_mem m s)\<lparr>mdata_buckmngr := DYN, th_buck := f\<rparr>) \<and> length fs = 24
    \<and> tabled (set_mem m s) p [(DYN, 24)] 253 fs c"
proof -
  have n: "pages_for (MAX_BUCKET_SIZE * SIZEOF_BUCKX * MAX_TASKS_AMOUNT) = 24" by (simp add: pages_for_def thread_sizes)
  have m: "mem_ok (2 * 24 + c + 6) {} (th_mem s)" using assms(1) by (simp add: add.commute)
  obtain fs m where t: "table_pages p 24 s = Inr (DYN, set_mem m s)" "length fs = 24" "tabled (set_mem m s) p [(DYN, 24)] 253 fs c"
    using tabled_first [OF m assms(2-6)] by (auto simp: room_def)
  obtain f where "all_buckets DYN 0 MAX_TASKS_AMOUNT ((set_mem m s)\<lparr>mdata_buckmngr := DYN\<rparr>) = Inr ((set_mem m s)\<lparr>mdata_buckmngr := DYN, th_buck := f\<rparr>)"
    using all_buckets_total by blast
  then have "init_thread_buckmngr (Some p) s = Inr ((set_mem m s)\<lparr>mdata_buckmngr := DYN, th_buck := f\<rparr>)"
    using t(1) by (simp add: init_thread_buckmngr_def n)
  then show ?thesis using t(2,3) by blast
qed

lemma init_curdir_ok:
  assumes t: "tabled s p rs (Suc (Suc nn)) fs (2052 + c)" and l: "length fs \<le> 1000"
  shows "\<exists>gs m cds. init_thread_curdir (Some p) s = Inr ((set_mem m s)\<lparr>mdata_dir := page_at DYN (length fs),
        mdata_cd := page_at DYN (length fs + 1024), th_curdirs := cds\<rparr>) \<and> length gs = 1026 \<and> length cds = 1024
    \<and> tabled (set_mem m s) p ((page_at DYN (length fs + 1024), 2) # (page_at DYN (length fs), 1024) # rs) nn (fs @ gs) c"
proof -
  have n: "pages_for (MAX_CURDIR_BUFF * MAX_TASKS_AMOUNT) = 1024" "pages_for (SIZEOF_CURDIR * MAX_TASKS_AMOUNT) = 2"
    by (simp_all add: pages_for_def thread_sizes)
  have t': "tabled s p rs (Suc (Suc nn)) fs (2 * 1024 + (4 + c))" using t by simp
  obtain g1 m1 where 1: "table_pages p 1024 s = Inr (page_at DYN (length fs), set_mem m1 s)" "length g1 = 1024"
    "tabled (set_mem m1 s) p ((page_at DYN (length fs), 1024) # rs) (Suc nn) (fs @ g1) (4 + c)"
    using tabled_next [OF t'] l by auto
  let ?s = "(set_mem m1 s)\<lparr>mdata_dir := page_at DYN (length fs)\<rparr>"
  have "tabled ?s p ((page_at DYN (length fs), 1024) # rs) (Suc nn) (fs @ g1) (2 * 2 + c)" using 1(3) by simp
  from tabled_next [OF this] obtain g2 m2 where 2: "table_pages p 2 ?s = Inr (page_at DYN (length fs + 1024), set_mem m2 ?s)" "length g2 = 2"
    "tabled (set_mem m2 s) p ((page_at DYN (length fs + 1024), 2) # (page_at DYN (length fs), 1024) # rs) nn (fs @ (g1 @ g2)) c"
    using l 1(2) by auto
  obtain cds where cds: "all_curdirs MAX_TASKS_AMOUNT = Inr cds" "length cds = 1024" using all_curdirs_total [of 1024] by (auto simp: thread_sizes)
  have "init_thread_curdir (Some p) s = Inr ((set_mem m2 s)\<lparr>mdata_dir := page_at DYN (length fs),
      mdata_cd := page_at DYN (length fs + 1024), th_curdirs := cds\<rparr>)"
    using 1(1) 2(1) cds(1) by (simp add: init_thread_curdir_def n)
  then show ?thesis using 1(2) 2(2,3) cds(2) by (intro exI [of _ "g1 @ g2"] exI [of _ m2] exI [of _ cds]) simp
qed

lemma init_fmngr_ok:
  assumes t: "tabled s p rs (Suc (Suc (Suc nn))) fs (140 + c)" and l: "length fs \<le> 2000"
  shows "\<exists>gs m fms. init_thread_fmngr junk (Some p) s = Inr ((set_mem m s)\<lparr>bitmap_buff := page_at DYN (length fs),
        files_array := page_at DYN (length fs + 2), mdata_fmngr := page_at DYN (length fs + 66), th_fmngrs := fms\<rparr>)
    \<and> length gs = 70 \<and> length fms = 1024 \<and> (\<forall>f \<in> set fms. bm_bits (fd_set f) = {0, 1, 2})
    \<and> tabled (set_mem m s) p ((page_at DYN (length fs + 66), 4) # (page_at DYN (length fs + 2), 64) # (page_at DYN (length fs), 2) # rs)
        nn (fs @ gs) c"
proof -
  have n: "pages_for (MAX_FILES_PER_TASK div 8 * MAX_TASKS_AMOUNT) = 2" "pages_for (4 * MAX_FILES_PER_TASK * MAX_TASKS_AMOUNT) = 64"
    "pages_for (SIZEOF_FMNGR * MAX_TASKS_AMOUNT) = 4"
    by (simp_all add: pages_for_def thread_sizes MAX_FILES_PER_TASK_def)
  have t': "tabled s p rs (Suc (Suc (Suc nn))) fs (2 * 2 + (136 + c))" using t by simp
  obtain g1 m1 where 1: "table_pages p 2 s = Inr (page_at DYN (length fs), set_mem m1 s)" "length g1 = 2"
    "tabled (set_mem m1 s) p ((page_at DYN (length fs), 2) # rs) (Suc (Suc nn)) (fs @ g1) (136 + c)"
    using tabled_next [OF t'] l by auto
  let ?s1 = "(set_mem m1 s)\<lparr>bitmap_buff := page_at DYN (length fs)\<rparr>"
  have "tabled ?s1 p ((page_at DYN (length fs), 2) # rs) (Suc (Suc nn)) (fs @ g1) (2 * 64 + (8 + c))" using 1(3) by simp
  from tabled_next [OF this] obtain g2 m2 where 2: "table_pages p 64 ?s1 = Inr (page_at DYN (length fs + 2), set_mem m2 ?s1)" "length g2 = 64"
    "tabled (set_mem m2 s) p ((page_at DYN (length fs + 2), 64) # (page_at DYN (length fs), 2) # rs) (Suc nn) (fs @ (g1 @ g2)) (8 + c)"
    using l 1(2) by auto
  let ?s2 = "(set_mem m2 s)\<lparr>bitmap_buff := page_at DYN (length fs), files_array := page_at DYN (length fs + 2)\<rparr>"
  have "tabled ?s2 p ((page_at DYN (length fs + 2), 64) # (page_at DYN (length fs), 2) # rs) (Suc nn) (fs @ (g1 @ g2)) (2 * 4 + c)"
    using 2(3) by simp
  from tabled_next [OF this] obtain g3 m3 where 3: "table_pages p 4 ?s2 = Inr (page_at DYN (length fs + 66), set_mem m3 ?s2)" "length g3 = 4"
    "tabled (set_mem m3 s) p ((page_at DYN (length fs + 66), 4) # (page_at DYN (length fs + 2), 64) # (page_at DYN (length fs), 2) # rs)
       nn (fs @ (g1 @ g2 @ g3)) c"
    using l 1(2) 2(2) by auto
  obtain fms where fms: "all_fmngrs junk MAX_TASKS_AMOUNT = Inr fms" "length fms = 1024" "\<forall>f \<in> set fms. bm_bits (fd_set f) = {0, 1, 2}"
    using all_fmngrs_total [of junk 1024] by (auto simp: thread_sizes)
  have "init_thread_fmngr junk (Some p) s = Inr ((set_mem m3 s)\<lparr>bitmap_buff := page_at DYN (length fs),
      files_array := page_at DYN (length fs + 2), mdata_fmngr := page_at DYN (length fs + 66), th_fmngrs := fms\<rparr>)"
    using 1(1) 2(1) 3(1) fms(1) by (simp add: init_thread_fmngr_def n)
  then show ?thesis using 1(2) 2(2) 3(2,3) fms(2,3) by (intro exI [of _ "g1 @ g2 @ g3"] exI [of _ m3] exI [of _ fms]) simp
qed

lemma init_pcb_tid_ok:
  assumes t: "tabled s p rs (Suc (Suc nn)) fs (36 + c)" and l: "length fs \<le> 2000" and b: "length bytes = 128"
  shows "\<exists>gs m bm s'. init_thread_pcb (Some p) s = Inr s'
    \<and> init_thread_tid bytes (Some p) s' = Inr ((set_mem m s)\<lparr>mdata_pcb := page_at DYN (length fs), sl_pcb := unlocked,
        tid_buff := page_at DYN (length fs + 17), bm_tid := bm, sl_tid := unlocked\<rparr>)
    \<and> length gs = 18 \<and> bm_wf bm \<and> bm_cap bm = 1024 \<and> bm_bits bm = {0}
    \<and> tabled (set_mem m s) p ((page_at DYN (length fs + 17), 1) # (page_at DYN (length fs), 17) # rs) nn (fs @ gs) c"
proof -
  have n: "pages_for (SIZEOF_PCB * MAX_TASKS_AMOUNT) = 17" "pages_for 128 = 1"
    by (simp_all add: pages_for_def thread_sizes)
  have lk: "x\<lparr>islock := 0\<rparr> = \<lparr>islock = 0\<rparr>" for x :: spinlock by (cases x) simp
  have t': "tabled s p rs (Suc (Suc nn)) fs (2 * 17 + (2 + c))" using t by simp
  obtain g1 m1 where 1: "table_pages p 17 s = Inr (page_at DYN (length fs), set_mem m1 s)" "length g1 = 17"
    "tabled (set_mem m1 s) p ((page_at DYN (length fs), 17) # rs) (Suc nn) (fs @ g1) (2 + c)"
    using tabled_next [OF t'] l by auto
  let ?s = "(set_mem m1 s)\<lparr>mdata_pcb := page_at DYN (length fs), sl_pcb := unlocked\<rparr>"
  have "tabled ?s p ((page_at DYN (length fs), 17) # rs) (Suc nn) (fs @ g1) (2 * 1 + c)" using 1(3) by simp
  from tabled_next [OF this] obtain g2 m2 where 2: "table_pages p 1 ?s = Inr (page_at DYN (length fs + 17), set_mem m2 ?s)" "length g2 = 1"
    "tabled (set_mem m2 s) p ((page_at DYN (length fs + 17), 1) # (page_at DYN (length fs), 17) # rs) nn (fs @ (g1 @ g2)) c"
    using l 1(2) by auto
  let ?b = "replicate 4 0 @ drop 4 bytes"
  have z: "bzero bytes (Some 0) 4 = Inr ?b" by (rule bzero_prefix) (use b in simp)
  obtain m0 where m0: "bitmap_init (Some (bm_tid s)) 1024 (Some ?b) = Inr m0" "bm_wf m0" "bm_cap m0 = 1024" "bm_bits m0 = {}"
    using bitmap_init_bits [of 1024 ?b "bm_tid s"] b by auto
  obtain bm where bm: "bitmap_set (Some m0) TID_HOO = Inr bm" "bm_wf bm" "bm_cap bm = 1024" "bm_bits bm = {0}"
    using bitmap_set_bits [OF m0(2), of TID_HOO] m0(3,4) by (auto simp: TID_HOO_def)
  have f: "bm_tid (set_mem m s') = bm_tid s'" for m s' by (simp add: set_mem_def)
  have "init_thread_pcb (Some p) s = Inr ?s" using 1(1) by (simp add: init_thread_pcb_def n spinlock_init_def unlocked_def)
  moreover have "init_thread_tid bytes (Some p) ?s = Inr ((set_mem m2 s)\<lparr>mdata_pcb := page_at DYN (length fs), sl_pcb := unlocked,
      tid_buff := page_at DYN (length fs + 17), bm_tid := bm, sl_tid := unlocked\<rparr>)"
    using 2(1) z m0(1) bm(1) by (simp add: init_thread_tid_def n spinlock_init_def unlocked_def f thread_sizes lk)
  ultimately show ?thesis using 1(2) 2(2,3) bm(2-4)
    by (intro exI [of _ "g1 @ g2"] exI [of _ m2] exI [of _ bm] exI [of _ ?s]) simp
qed

text \<open>The ranges of the tables, the last one first.\<close>

definition table_ranges :: "(u32 \<times> u32) list" where
  "table_ranges = [(page_at DYN 1137, 1), (page_at DYN 1120, 17), (page_at DYN 1116, 4), (page_at DYN 1052, 64), (page_at DYN 1050, 2),
     (page_at DYN 1048, 2), (page_at DYN 24, 1024), (DYN, 24)]"

definition hoo_ready :: "threads \<Rightarrow> bool" where
  "hoo_ready t \<longleftrightarrow> tids_ok t \<and> bm_bits (bm_tid t) = {0} \<and> mdata_buckmngr t = DYN \<and> mdata_dir t = page_at DYN 24
     \<and> mdata_cd t = page_at DYN 1048 \<and> bitmap_buff t = page_at DYN 1050 \<and> files_array t = page_at DYN 1052
     \<and> mdata_fmngr t = page_at DYN 1116 \<and> mdata_pcb t = page_at DYN 1120 \<and> tid_buff t = page_at DYN 1137
     \<and> length (th_curdirs t) = 1024 \<and> length (th_fmngrs t) = 1024 \<and> (\<forall>f \<in> set (th_fmngrs t). bm_bits (fd_set f) = {0, 1, 2})
     \<and> th_pcb t (th_hoo t) = \<lparr>pcb_stack0 = STACK_HOO_RING0, pcb_stack3 = STACK_HOO_RING3, pcb_tid = 0, pcb_pgdir_pa = V2P get_hoo_pgdir,
         pcb_ticks = TIMETICKS, pcb_sleep = None, pcb_hmngr = Some DYN, pcb_fmngr = Some (page_at DYN 1116), pcb_break = DYN,
         pcb_parent = - 1, pcb_curdir = Some (page_at DYN 1048)\<rparr>"

definition same_queues :: "tasks \<Rightarrow> tasks \<Rightarrow> bool" where
  "same_queues s t \<longleftrightarrow> tk_ready t = tk_ready s \<and> tk_running t = tk_running s \<and> tk_sleeping t = tk_sleeping s
     \<and> tk_expired t = tk_expired s \<and> tk_lock t = tk_lock s"

lemma set_mem_queues [simp]: "same_queues (th_tasks (set_mem m s)) = same_queues (th_tasks s)" "same_queues q (th_tasks (set_mem m s)) = same_queues q (th_tasks s)"
  by (simp_all add: same_queues_def set_mem_def fun_eq_iff)

lemma init_hoo_ok:
  assumes m: "mem_ok (2282 + c) {} (th_mem s)" and h: "heads3 (th_mem s) None None None"
    and r: "unat (vmngr_of (th_hoo s)) < 4026531840" and b: "length bytes = 128"
  shows "\<exists>t fs. init_hoo junk bytes s = Inr t \<and> tabled t (th_hoo s) table_ranges 246 fs c \<and> length fs = 1138 \<and> hoo_ready t
    \<and> th_hoo t = th_hoo s \<and> same_queues (th_tasks s) (th_tasks t)"
proof -
  let ?p = "th_hoo s"
  let ?v = "vmngr_of ?p"
  define ts where "ts = set_pcb_at ?p ((tk_pcb (th_tasks s) ?p)\<lparr>pcb_break := KERN_HIGH_MAPPING + MB4\<rparr>) (th_tasks s)"
  define k where "k = set_vs ?v \<lparr>vs_list = \<lparr>ls_null = ?v, ls_size = 0\<rparr>, vs_begin = 0, vs_end = 0, vs_next = None\<rparr>
      ((th_mem s)\<lparr>km_heap := (km_heap (th_mem s))(?v := \<lparr>nd_data = None, nd_next = None\<rparr>)\<rparr>)"
  define s0 where "s0 = set_mem k (s\<lparr>th_tasks := ts\<rparr>)"
  have set: "vspace_set (Some ?v) None 0 0 None (tk_mem ts) = Inr k" by (simp add: vspace_set_def k_def ts_def)
  have dyn: "KERN_HIGH_MAPPING + MB4 = DYN" by (simp add: KERN_HIGH_MAPPING_def MB4_def DYN_def)
  have s0: "th_mem s0 = k" "th_hoo s0 = ?p" "pcb_break (th_pcb s0 ?p) = DYN" "same_queues (th_tasks s) (th_tasks s0)"
    by (simp_all add: s0_def set_mem_def ts_def dyn same_queues_def)
  have k: "mem_ok (54 + (2228 + c)) {} k" "heads3 k None None None" "root_at k ?v" "vs_next (km_vs k ?v) = None"
    using m h by (simp_all add: k_def mem_ok_def heads3_def set_vs_def root_at_def list_rep_def)
  obtain fs1 m1 f where 1: "init_thread_buckmngr (Some ?p) s0 = Inr ((set_mem m1 s0)\<lparr>mdata_buckmngr := DYN, th_buck := f\<rparr>)" "length fs1 = 24"
    "tabled (set_mem m1 s0) ?p [(DYN, 24)] 253 fs1 (2228 + c)"
    using init_buckmngr_ok [of "2228 + c" s0 ?p] k r s0 by auto
  let ?s1 = "(set_mem m1 s0)\<lparr>mdata_buckmngr := DYN, th_buck := f\<rparr>"
  have t1: "tabled ?s1 ?p [(DYN, 24)] (Suc (Suc 251)) fs1 (2052 + (176 + c))" using 1(3) by simp
  have "length fs1 \<le> 1000" using 1(2) by simp
  from init_curdir_ok [OF t1 this] obtain g2 m2 cds where 2: "init_thread_curdir (Some ?p) ?s1 = Inr ((set_mem m2 ?s1)\<lparr>mdata_dir := page_at DYN 24,
      mdata_cd := page_at DYN 1048, th_curdirs := cds\<rparr>)" "length g2 = 1026" "length cds = 1024"
    "tabled (set_mem m2 ?s1) ?p [(page_at DYN 1048, 2), (page_at DYN 24, 1024), (DYN, 24)] 251 (fs1 @ g2) (176 + c)"
    unfolding 1(2) by (auto simp del: set_mem_update tabled_simps)
  define fs2 where "fs2 = fs1 @ g2"
  let ?s2 = "(set_mem m2 ?s1)\<lparr>mdata_dir := page_at DYN 24, mdata_cd := page_at DYN 1048, th_curdirs := cds\<rparr>"
  have l2: "length fs2 = 1050" "length fs2 \<le> 2000" using 1(2) 2(2) by (simp_all add: fs2_def)
  have t2: "tabled ?s2 ?p [(page_at DYN 1048, 2), (page_at DYN 24, 1024), (DYN, 24)] (Suc (Suc (Suc 248))) fs2 (140 + (36 + c))"
    using 2(4) by (simp add: fs2_def)
  from init_fmngr_ok [OF t2 l2(2), of junk] obtain g3 m3 fms where 3: "init_thread_fmngr junk (Some ?p) ?s2 = Inr ((set_mem m3 ?s2)\<lparr>bitmap_buff := page_at DYN 1050,
        files_array := page_at DYN 1052, mdata_fmngr := page_at DYN 1116, th_fmngrs := fms\<rparr>)"
    "length g3 = 70" "length fms = 1024" "\<forall>f \<in> set fms. bm_bits (fd_set f) = {0, 1, 2}"
    "tabled (set_mem m3 ?s2) ?p [(page_at DYN 1116, 4), (page_at DYN 1052, 64), (page_at DYN 1050, 2), (page_at DYN 1048, 2),
      (page_at DYN 24, 1024), (DYN, 24)] 248 (fs2 @ g3) (36 + c)"
    unfolding l2(1) by (auto simp del: set_mem_update tabled_simps)
  define fs3 where "fs3 = fs2 @ g3"
  let ?s3 = "(set_mem m3 ?s2)\<lparr>bitmap_buff := page_at DYN 1050, files_array := page_at DYN 1052, mdata_fmngr := page_at DYN 1116, th_fmngrs := fms\<rparr>"
  have l3: "length fs3 = 1120" "length fs3 \<le> 2000" using l2 3(2) by (simp_all add: fs3_def)
  have t3: "tabled ?s3 ?p [(page_at DYN 1116, 4), (page_at DYN 1052, 64), (page_at DYN 1050, 2), (page_at DYN 1048, 2),
      (page_at DYN 24, 1024), (DYN, 24)] (Suc (Suc 246)) fs3 (36 + c)" using 3(5) by (simp add: fs3_def)
  from init_pcb_tid_ok [OF t3 l3(2) b] obtain g4 m4 bm s' where 4: "init_thread_pcb (Some ?p) ?s3 = Inr s'"
    "init_thread_tid bytes (Some ?p) s' = Inr ((set_mem m4 ?s3)\<lparr>mdata_pcb := page_at DYN 1120, sl_pcb := unlocked,
        tid_buff := page_at DYN 1137, bm_tid := bm, sl_tid := unlocked\<rparr>)"
    "length g4 = 18" "bm_wf bm" "bm_cap bm = 1024" "bm_bits bm = {0}" "tabled (set_mem m4 ?s3) ?p table_ranges 246 (fs3 @ g4) c"
    unfolding l3(1) table_ranges_def by (auto simp del: set_mem_update tabled_simps)
  define s4 where "s4 = (set_mem m4 ?s3)\<lparr>mdata_pcb := page_at DYN 1120, sl_pcb := unlocked,
        tid_buff := page_at DYN 1137, bm_tid := bm, sl_tid := unlocked\<rparr>"
  define x where "x = \<lparr>pcb_stack0 = STACK_HOO_RING0, pcb_stack3 = STACK_HOO_RING3, pcb_tid = 0, pcb_pgdir_pa = V2P get_hoo_pgdir,
         pcb_ticks = TIMETICKS, pcb_sleep = None, pcb_hmngr = Some DYN, pcb_fmngr = Some (page_at DYN 1116), pcb_break = DYN,
         pcb_parent = - 1, pcb_curdir = Some (page_at DYN 1048)\<rparr>"
  define t where "t = s4\<lparr>th_tasks := set_pcb_at ?p x (th_tasks s4)\<rparr>"
  have s4: "th_hoo s4 = ?p" "mdata_buckmngr s4 = DYN" "mdata_cd s4 = page_at DYN 1048" "mdata_fmngr s4 = page_at DYN 1116"
    "pcb_break (th_pcb s4 ?p) = DYN" "same_queues (th_tasks s) (th_tasks s4)"
    using s0 by (simp_all add: s4_def set_mem_def same_queues_def)
  have t4: "tabled s4 ?p table_ranges 246 (fs3 @ g4) c" using 4(7) by (simp add: s4_def)
  have get: "thread_buckmngr_get TID_HOO s4 = Inr DYN" "fmngr_at TID_HOO s4 = Inr (page_at DYN 1116)"
    "curdir_at TID_HOO s4 = Inr (page_at DYN 1048)"
    by (simp_all add: thread_buckmngr_get_def fmngr_at_def thread_fmngr_get_def curdir_at_def thread_curdir_get_def TID_HOO_def
        thread_sizes buck_at_def s4)
  have pcb: "pcb_set (Some ?p) STACK_HOO_RING0 STACK_HOO_RING3 TID_HOO (V2P get_hoo_pgdir) (Some ?v) TIMETICKS None (Some DYN)
      (Some (page_at DYN 1116)) (pcb_break (th_pcb s4 ?p)) (- 1) (Some (page_at DYN 1048)) (th_tasks s4)
    = Inr (set_pcb_at ?p x (th_tasks s4))"
    by (simp add: pcb_set_def TID_HOO_def s4 x_def set_pcb_at_def)
  have run: "init_hoo junk bytes s = Inr t"
    unfolding init_hoo_def Let_def ts_def [symmetric] set bindr_simps s0_def [symmetric] 1(1) 2(1) 3(1) 4(1) 4(2) [folded s4_def] get pcb t_def ..
  have tabled: "tabled t ?p table_ranges 246 (fs3 @ g4) c" using t4 s4(5) by (simp add: t_def tabled_def Let_def x_def)
  have tf: "bm_tid t = bm" "sl_tid t = unlocked" "sl_pcb t = unlocked" "mdata_pcb t = page_at DYN 1120" "mdata_buckmngr t = DYN"
    "mdata_dir t = page_at DYN 24" "mdata_cd t = page_at DYN 1048" "bitmap_buff t = page_at DYN 1050" "files_array t = page_at DYN 1052"
    "mdata_fmngr t = page_at DYN 1116" "tid_buff t = page_at DYN 1137" "th_curdirs t = cds" "th_fmngrs t = fms" "th_hoo t = ?p"
    "th_pcb t ?p = x"
    using s4(1) by (simp_all add: t_def s4_def set_mem_def)
  have "unat (mdata_pcb t) + 68 * 1024 < 4294967296" using unat_DYN [of 1120] by (simp add: tf)
  then have "tids_ok t" using 4(4-6) by (simp add: tids_ok_def tf)
  then have "hoo_ready t" using 4(6) 2(3) 3(3,4) unfolding hoo_ready_def tf x_def by simp
  moreover have "same_queues (th_tasks s) (th_tasks t)" using s4(6) by (simp add: t_def same_queues_def)
  moreover have "length (fs3 @ g4) = 1138" using l3(1) 4(3) by simp
  ultimately show ?thesis using run tabled tf(14) by blast
qed

subsection \<open>The queues of the tasks\<close>

text \<open>An address space does not depend on the heap below the metadata, its root apart, nor on nodes that it does not use.\<close>

lemma space_frame:
  assumes m: "meta_ok s pv pn pa vxs nxs axs" and off: "off_pages pv pn pa r" and iv: "iv < room 32" and js: "set js \<subseteq> {..<room 16}"
    and at: "vm_at s r (elem pv 32 iv) b e (map (elem pn 16) js) ds rs" and n: "n = elem pn 16 i" "i < room 16" "i \<notin> set js"
    and h: "\<And>x. KERN_METADATA \<le> x \<and> x \<noteq> n \<or> x = r \<Longrightarrow> h x = km_heap s x"
  shows "meta_ok (s\<lparr>km_heap := h\<rparr>) pv pn pa vxs nxs axs" "vm_at (s\<lparr>km_heap := h\<rparr>) r (elem pv 32 iv) b e (map (elem pn 16) js) ds rs"
proof -
  let ?B = "books pv pn pa" and ?v = "elem pv 32 iv" and ?ns = "map (elem pn 16) js"
  note d = meta_okD [OF m]
  have low: "KERN_METADATA \<le> pv" "KERN_METADATA \<le> pn" "KERN_METADATA \<le> pa" using m by (simp_all add: meta_ok_def meta_page_def)
  have up: "KERN_METADATA \<le> x" if "in_range q 4096 x" "KERN_METADATA \<le> q" for q x
    using that by (simp add: in_range_def word_le_nat_alt)
  have hb: "h x = km_heap s x" if x: "x \<in> ?B" for x
  proof (rule h, rule disjI1, rule conjI)
    from x consider "x \<in> book pv 32" | "x \<in> book pn 16" | "x \<in> book pa 16" by (auto simp: books_def)
    then show "KERN_METADATA \<le> x"
    proof cases
      case 1 show ?thesis by (rule up [OF book_in_page [OF d(1)] low(1)]) (use 1 in simp_all)
    next
      case 2 show ?thesis by (rule up [OF book_in_page [OF d(2)] low(2)]) (use 2 in simp_all)
    next
      case 3 show ?thesis by (rule up [OF book_in_page [OF d(3)] low(3)]) (use 3 in simp_all)
    qed
    show "x \<noteq> n" using x elem_not_books(2) [OF m n(2)] n(1) by blast
  qed
  have hv: "h ?v = km_heap s ?v"
    using h [of ?v] up [OF elem_in_page [OF d(1) _ iv] low(1)] elems_apart [OF m iv n(2)] n(1) by simp
  have hn: "h x = km_heap s x" if x: "x \<in> set ?ns" for x
  proof -
    obtain j where j: "j \<in> set js" "x = elem pn 16 j" using x by auto
    then have jr: "j < room 16" "j \<noteq> i" using js n(3) by auto
    have "x \<noteq> n" using elem_inj [OF d(2), of 16 j i] jr n(1,2) j(2) by auto
    then show ?thesis using h [of x] up [OF elem_in_page [OF d(2) _ jr(1)] low(2)] j(2) by simp
  qed
  have hr: "h r = km_heap s r" by (rule h) simp
  show "meta_ok (s\<lparr>km_heap := h\<rparr>) pv pn pa vxs nxs axs" by (rule meta_ok_heap [OF m]) (use hb in simp_all)
  have root: "root_at (s\<lparr>km_heap := h\<rparr>) r" by (rule root_at_frame [of s]) (use at hr in \<open>simp_all add: vm_at_def\<close>)
  have "list_rep h (vs_list (km_vs s ?v)) ?ns = list_rep (km_heap s) (vs_list (km_vs s ?v)) ?ns"
    by (rule list_rep_frame) (use at hv hn in \<open>auto simp: vm_at_def\<close>)
  moreover have "h (elem pn 16 (js ! j)) = km_heap s (elem pn 16 (js ! j))" if "j < length js" for j using hn that by simp
  ultimately show "vm_at (s\<lparr>km_heap := h\<rparr>) r ?v b e ?ns ds rs" using at root by (auto simp: vm_at_def)
qed

lemma vm_inv_node:
  assumes inv: "vm_inv s r b e rs nv (Suc nn) na"
  shows "\<exists>n t. node_alloc s = Inr (Some n, t) \<and> KERN_METADATA \<le> n \<and> km_mach t = km_mach s
    \<and> (\<forall>x. unat x < 4026531840 \<longrightarrow> km_heap t x = km_heap s x)
    \<and> (\<forall>h. (\<forall>x. KERN_METADATA \<le> x \<and> x \<noteq> n \<or> x = r \<longrightarrow> h x = km_heap t x) \<longrightarrow> vm_inv (t\<lparr>km_heap := h\<rparr>) r b e rs nv nn na)"
proof -
  from inv obtain pv pn pa vxs nxs0 axs iv js ks where i: "meta_ok s pv pn pa vxs nxs0 axs" "off_pages pv pn pa r"
    "length vxs = nv" "length nxs0 = Suc nn" "length axs = na" "iv < room 32" "iv \<notin> set vxs"
    "distinct js" "set js \<subseteq> {..<room 16} - set nxs0" "distinct ks" "set ks \<subseteq> {..<room 16} - set axs"
    "vm_at s r (elem pv 32 iv) b e (map (elem pn 16) js) (map (elem pa 16) ks) rs" "rs \<noteq> []" unfolding vm_inv_def by blast
  obtain x nxs where x: "nxs0 = x # nxs" using i(4) by (cases nxs0) auto
  note d = meta_okD [OF i(1)]
  have "set nxs0 \<subseteq> {..<room 16}" using d(5) by (simp add: fl_ok_def)
  then have xr: "x < room 16" "x \<notin> set js" "set js \<subseteq> {..<room 16}" "set js \<subseteq> {..<room 16} - set nxs" using i(9) x by auto
  let ?n = "elem pn 16 x" and ?B = "books pv pn pa" and ?v = "elem pv 32 iv"
  obtain t where t: "node_alloc s = Inr (Some ?n, t)" "meta_ok t pv pn pa vxs nxs axs" "only_books ?B s t"
    using node_alloc_ok [OF i(1) [unfolded x]] by blast
  have ob: "km_vs t = km_vs s" "km_va t = km_va s" "km_mach t = km_mach s" "\<And>a. a \<notin> ?B \<Longrightarrow> km_heap t a = km_heap s a"
    using t(3) by (simp_all add: only_books_def)
  have low: "KERN_METADATA \<le> pv" "KERN_METADATA \<le> pn" "KERN_METADATA \<le> pa" using i(1) by (simp_all add: meta_ok_def meta_page_def)
  have nn: "KERN_METADATA \<le> ?n" using elem_in_page [OF d(2) _ xr(1)] low(2) by (simp add: in_range_def word_le_nat_alt)
  have nl: "a \<notin> ?B" if "unat a < 4026531840" for a
    using book_in_page [OF d(1), of 32 a] book_in_page [OF d(2), of 16 a] book_in_page [OF d(3), of 16 a] low_out [OF that] low
    by (auto simp: books_def)
  have out: "set (?v # map (elem pn 16) js) \<inter> ?B = {}" "r \<notin> ?B"
    using elem_not_books(1) [OF i(1,6)] elem_not_books(2) [OF i(1)] xr(3) off_pages_books(1) [OF i(1,2)] by auto
  have "km_heap t a = km_heap s a" if "a \<in> insert r (set (?v # map (elem pn 16) js))" for a using ob(4) that out by blast
  then have at: "vm_at t r ?v b e (map (elem pn 16) js) (map (elem pa 16) ks) rs"
    using i(12) list_rep_frame [of "vs_list (km_vs s ?v)" "map (elem pn 16) js" "km_heap t" "km_heap s"] root_at_frame [of s r t]
    by (auto simp: vm_at_def ob(1,2))
  have "vm_inv (t\<lparr>km_heap := h\<rparr>) r b e rs nv nn na" if h: "\<forall>a. KERN_METADATA \<le> a \<and> a \<noteq> ?n \<or> a = r \<longrightarrow> h a = km_heap t a" for h
  proof -
    note f = space_frame [OF t(2) i(2,6) xr(3) at refl xr(1,2), of h]
    have ln: "length nxs = nn" using i(4) x by simp
    show ?thesis unfolding vm_inv_def
      by (rule exI [of _ pv], rule exI [of _ pn], rule exI [of _ pa], rule exI [of _ vxs], rule exI [of _ nxs], rule exI [of _ axs],
          rule exI [of _ iv], rule exI [of _ js], rule exI [of _ ks]) (use i xr(4) f h ln in blast)
  qed
  then show ?thesis using t(1) nn ob(3,4) nl by (intro exI [of _ ?n] exI [of _ t]) simp
qed

text \<open>init_tasks_system() makes the four queues empty and puts hoo's node on the queue of the running task.\<close>

lemma init_tasks_ok:
  assumes inv: "vm_inv (tk_mem s) r b e rs nv (Suc nn) na" and dis: "distinct (heads s)" and r: "unat r < 4026531840"
    and low: "\<And>x. x \<in> set (heads s) \<Longrightarrow> unat x < 4026531840 \<and> x \<noteq> r"
  shows "\<exists>n t. init_tasks_system p s = Inr t \<and> tasks_ok t [n] [] [] [] \<and> nd_data (tk_heap t n) = Some p
    \<and> vm_inv (tk_mem t) r b e rs nv nn na \<and> km_mach (tk_mem t) = km_mach (tk_mem s) \<and> tk_pcb t = tk_pcb s"
proof -
  let ?R = "q_null (tk_running s)" and ?Q = "q_null (tk_ready s)" and ?S = "ls_null (tk_sleeping s)" and ?E = "ls_null (tk_expired s)"
  let ?e = "\<lparr>nd_data = None, nd_next = None\<rparr> :: u32 node"
  let ?q = "(tk_running s)\<lparr>q_head := ?R, q_tail := ?R\<rparr>"
  define h where "h = (tk_heap s)(?Q := ?e, ?R := ?e, ?S := ?e, ?E := ?e)"
  have d: "?R \<noteq> ?Q" "?R \<noteq> ?S" "?R \<noteq> ?E" "?Q \<noteq> ?S" "?Q \<noteq> ?E" "?S \<noteq> ?E" using dis by (auto simp: heads_def)
  have hs: "unat ?R < 4026531840" "unat ?Q < 4026531840" "unat ?S < 4026531840" "unat ?E < 4026531840"
    "?R \<noteq> r" "?Q \<noteq> r" "?S \<noteq> r" "?E \<noteq> r" using low by (simp_all add: heads_def)
  have high: "x \<noteq> ?R \<and> x \<noteq> ?Q \<and> x \<noteq> ?S \<and> x \<noteq> ?E" if "KERN_METADATA \<le> x" for x
    using that hs(1-4) by (auto simp: KERN_METADATA_def word_le_nat_alt)
  have "vm_inv ((tk_mem s)\<lparr>km_heap := h\<rparr>) r b e rs nv (Suc nn) na"
    by (rule vm_inv_low [OF inv]) (use high hs(5-8) in \<open>auto simp: h_def\<close>)
  from vm_inv_node [OF this] obtain n m where m: "node_alloc ((tk_mem s)\<lparr>km_heap := h\<rparr>) = Inr (Some n, m)" "KERN_METADATA \<le> n"
    "km_mach m = km_mach (tk_mem s)" "\<And>x. unat x < 4026531840 \<Longrightarrow> km_heap m x = h x"
    "\<And>g. (\<forall>x. KERN_METADATA \<le> x \<and> x \<noteq> n \<or> x = r \<longrightarrow> g x = km_heap m x) \<Longrightarrow> vm_inv (m\<lparr>km_heap := g\<rparr>) r b e rs nv nn na"
    by auto
  have hn: "n \<noteq> ?R" "n \<noteq> ?Q" "n \<noteq> ?S" "n \<noteq> ?E" "?R \<noteq> n" "?Q \<noteq> n" "?S \<noteq> n" "?E \<noteq> n" using high [OF m(2)] by auto
  let ?h = "(km_heap m)(n := \<lparr>nd_data = Some p, nd_next = None\<rparr>)"
  have at: "?h ?R = ?e" "?h ?Q = ?e" "?h ?S = ?e" "?h ?E = ?e" using hn m(4) hs(1-4) d by (simp_all add: h_def)
  have "queue_rep ?h ?q []" using at by (simp add: queue_rep_def)
  from queue_push_rep [OF this, of n TAIL] obtain g q where g: "queue_push ?h (Some ?q) (Some n) TAIL = Inr (g, q)"
    "queue_rep g q [n]" "q_null q = ?R" "\<And>a. nd_data (g a) = nd_data (?h a)" "\<And>a. a \<noteq> ?R \<Longrightarrow> a \<noteq> n \<Longrightarrow> g a = ?h a"
    using hn by auto
  let ?t = "(set_heap g (s\<lparr>tk_ready := (tk_ready s)\<lparr>q_head := ?Q, q_tail := ?Q\<rparr>, tk_sleeping := (tk_sleeping s)\<lparr>ls_size := 0\<rparr>,
     tk_expired := (tk_expired s)\<lparr>ls_size := 0\<rparr>, tk_mem := m\<rparr>))\<lparr>tk_lock := unlocked, tk_running := q\<rparr>"
  have run: "init_tasks_system p s = Inr ?t"
    using m(1) g(1)
    by (simp add: init_tasks_system_def queue_init_def list_init_def spinlock_init_def node_set_def nonnull_def set_heap_def h_def unlocked_def)
  have off: "g ?Q = ?e" "g ?S = ?e" "g ?E = ?e" using g(5) at d hn by simp_all
  have ok: "tasks_ok ?t [n] [] [] []"
    using off g(2-4) d hn by (auto simp: tasks_ok_def places_def heads_def queue_rep_def list_rep_def)
  have "r \<noteq> n" using m(2) r by (auto simp: KERN_METADATA_def word_le_nat_alt)
  then have "g r = km_heap m r" using g(5) [of r] hs(5) by simp
  moreover have "g x = km_heap m x" if "KERN_METADATA \<le> x" "x \<noteq> n" for x using g(5) [of x] high [OF that(1)] that(2) by simp
  ultimately have "vm_inv (m\<lparr>km_heap := g\<rparr>) r b e rs nv nn na" by (intro m(5)) auto
  then show ?thesis using run ok g(4) m(3) by (intro exI [of _ n] exI [of _ ?t]) (simp add: set_heap_def)
qed

subsection \<open>The modules in a row\<close>

lemma card_pages: "n * 4096 \<le> 4293918720 \<Longrightarrow> card (pages MM_BASE {..<n}) = n"
proof -
  assume n: "n * 4096 \<le> 4293918720"
  have "inj_on (page_at MM_BASE) {..<n}"
  proof (rule inj_onI)
    fix i j assume ij: "i \<in> {..<n}" "j \<in> {..<n}" and eq: "page_at MM_BASE i = page_at MM_BASE j"
    have "unat (page_at MM_BASE k) = unat MM_BASE + k * 4096" if "k \<in> {..<n}" for k
      by (rule unat_page_at) (use that n in \<open>simp add: MM_BASE_def\<close>)
    then have "unat MM_BASE + i * 4096 = unat MM_BASE + j * 4096" using ij eq by metis
    then show "i = j" by simp
  qed
  then show ?thesis by (simp add: pages_def card_image)
qed

lemma memory_ready_ok:
  assumes m: "memory_ready len s" and n: "unat len \<le> 4293918720"
  shows "mem_ok (unat len div 4096) {} s" "heads3 s None None None"
proof -
  have "unat len div 4096 * 4096 \<le> 4293918720" using n div_times_less_eq_dividend [of "unat len" 4096] by linarith
  then have "card (free_frames (km_mach s)) = unat len div 4096" using card_pages m by (simp add: memory_ready_def)
  then show "mem_ok (unat len div 4096) {} s" using m no_tables_own by (simp add: memory_ready_def mem_ok_def frames_ok_def)
  show "heads3 s None None None" using m by (simp add: memory_ready_def heads3_def)
qed

lemma kinit_tasks_ok:
  assumes m: "mem_ok (2282 + c) {} (kn_mem k)" "heads3 (kn_mem k) None None None" and b: "length (env_tid e) = 128"
    and d: "distinct (vmngr_of (th_hoo (sy_th (kn_sys k))) # heads (th_tasks (sy_th (kn_sys k))))"
    and low: "\<forall>x \<in> set (vmngr_of (th_hoo (sy_th (kn_sys k))) # heads (th_tasks (sy_th (kn_sys k)))). unat x < 4026531840"
  shows "\<exists>th n fs. kinit_tasks_system e k = Inr (k\<lparr>kn_sys := (kn_sys k)\<lparr>sy_th := th\<rparr>\<rparr>)
    \<and> vm_inv (th_mem th) (vmngr_of (th_hoo th)) DYN (page_at DYN 1138) table_ranges (room 32 - 1) 245 246
    \<and> frames_ok c (km_mach (th_mem th)) \<and> backed (km_mach (th_mem th)) DYN fs \<and> distinct fs \<and> length fs = 1138
    \<and> set fs \<inter> free_frames (km_mach (th_mem th)) = {} \<and> hoo_ready th \<and> tasks_ok (th_tasks th) [n] [] [] []
    \<and> nd_data (tk_heap (th_tasks th) n) = Some (th_hoo th) \<and> th_hoo th = th_hoo (sy_th (kn_sys k))"
proof -
  let ?s = "sy_th (kn_sys k)"
  have lr: "unat (vmngr_of (th_hoo ?s)) < 4026531840" using low by simp
  from init_hoo_ok [OF m lr b] obtain s fs where s: "init_hoo (env_junk e) (env_tid e) ?s = Inr s"
    "tabled s (th_hoo ?s) table_ranges 246 fs c" "length fs = 1138" "hoo_ready s" "th_hoo s = th_hoo ?s"
    "same_queues (th_tasks ?s) (th_tasks s)" by blast
  have h: "heads (th_tasks s) = heads (th_tasks ?s)" using s(6) by (simp add: same_queues_def heads_def)
  have t: "vm_inv (th_mem s) (vmngr_of (th_hoo ?s)) DYN (page_at DYN 1138) table_ranges (room 32 - 1) (Suc 245) 246"
    "frames_ok c (km_mach (th_mem s))" "backed (km_mach (th_mem s)) DYN fs" "distinct fs"
    "set fs \<inter> free_frames (km_mach (th_mem s)) = {}" using s(2,3) by (simp_all add: tabled_def Let_def)
  have "distinct (heads (th_tasks s))" "\<And>x. x \<in> set (heads (th_tasks s)) \<Longrightarrow> unat x < 4026531840 \<and> x \<noteq> vmngr_of (th_hoo ?s)"
    using d low unfolding h by auto
  from init_tasks_ok [OF t(1) this(1) lr this(2)] obtain n ts where ts: "init_tasks_system (th_hoo ?s) (th_tasks s) = Inr ts"
    "tasks_ok ts [n] [] [] []" "nd_data (tk_heap ts n) = Some (th_hoo ?s)"
    "vm_inv (tk_mem ts) (vmngr_of (th_hoo ?s)) DYN (page_at DYN 1138) table_ranges (room 32 - 1) 245 246"
    "km_mach (tk_mem ts) = km_mach (th_mem s)" "tk_pcb ts = tk_pcb (th_tasks s)" by blast
  let ?t = "s\<lparr>th_tasks := ts\<rparr>"
  have run: "kinit_tasks_system e k = Inr (k\<lparr>kn_sys := (kn_sys k)\<lparr>sy_th := ?t\<rparr>\<rparr>)"
    using s(1,5) ts(1) by (simp add: kinit_tasks_system_def on_th_def on_threads_def)
  have "hoo_ready ?t" using s(4) ts(6) unat_DYN [of 1120] by (simp add: hoo_ready_def tids_ok_def)
  then show ?thesis using run ts(2-5) t(2-5) s(3,5) by (intro exI [of _ ?t] exI [of _ n] exI [of _ fs]) simp
qed

text \<open>C14: after kinit_memory(), kinit_config() and kinit_tasks_system() have run in this order, on a machine with at least 2282
  page frames and no table in the page directory, the log is exactly the lines of the three; hoo's address space is whole and holds
  the eight tables in a row from 0x80400000 on, each of their 1138 pages mapped on a frame of its own that is no longer free;
  at most 2282 frames have been used; the one thread id in use is hoo's, whose PCB is set; and the queues of the tasks are as the
  scheduler needs them, with hoo's node on the queue of the running task and the others empty.\<close>

theorem boot_invariants:
  assumes mm: "get_mminfo (env_ards e) = Inr mm" "2282 * 4096 \<le> unat (mm_length mm)" "unat (mm_length mm) \<le> 4293918720"
    and log: "log_has e [] k" and dir: "clear_dir (km_mach (kn_mem k))" and b: "length (env_tid e) = 128"
    and d: "distinct (vmngr_of (th_hoo (sy_th (kn_sys k))) # heads (th_tasks (sy_th (kn_sys k))))"
    and low: "\<forall>x \<in> set (vmngr_of (th_hoo (sy_th (kn_sys k))) # heads (th_tasks (sy_th (kn_sys k)))). unat x < 4026531840"
  shows "\<exists>k' n fs. bindr (kinit_memory e k) (\<lambda>k. bindr (kinit_config e k) (kinit_tasks_system e)) = Inr k'
    \<and> logged (memory_line mm @ config_lines e) k'
    \<and> (let th = sy_th (kn_sys k'); m = km_mach (th_mem th) in
        th_hoo th = th_hoo (sy_th (kn_sys k))
        \<and> vm_inv (th_mem th) (vmngr_of (th_hoo th)) DYN (page_at DYN 1138) table_ranges (room 32 - 1) 245 246
        \<and> pgt_inv m \<and> backed m DYN fs \<and> distinct fs \<and> length fs = 1138 \<and> set fs \<inter> free_frames m = {}
        \<and> unat (mm_length mm) div 4096 \<le> card (free_frames m) + 2282
        \<and> hoo_ready th \<and> tasks_ok (th_tasks th) [n] [] [] [] \<and> nd_data (tk_heap (th_tasks th) n) = Some (th_hoo th))"
proof -
  have "4096 \<le> unat (mm_length mm)" using mm(2) by simp
  from kinit_memory_ok [OF mm(1) this mm(3) log] dir obtain c m where 1: "kinit_memory e k = Inr (set_kmem m (set_cache c (k\<lparr>kn_mminfo := mm\<rparr>)))"
    "log_has e (memory_line mm) (set_cache c (k\<lparr>kn_mminfo := mm\<rparr>))"
    "memory_ready (mm_length mm) (m\<lparr>km_mach := paging (km_mach m)\<rparr>)" by blast
  let ?k1 = "set_kmem m (set_cache c (k\<lparr>kn_mminfo := mm\<rparr>))" and ?m = "m\<lparr>km_mach := paging (km_mach m)\<rparr>"
  have "log_has e (memory_line mm) ?k1" "length (memory_line mm) \<le> 200"
    using 1(2) length_hex [of "mm_base mm"] length_hex [of "mm_base mm + mm_length mm"] by (simp_all add: memory_line_def lit_def)
  from kinit_config_ok [OF this] obtain k2 where 2: "kinit_config e ?k1 = Inr k2" "log_has e (memory_line mm @ config_lines e) k2"
    "kn_log_init k2" "sy_th (kn_sys k2) = set_mem ?m (sy_th (kn_sys k))" by auto
  let ?c = "unat (mm_length mm) div 4096 - 2282"
  have "2282 * 4096 div 4096 \<le> unat (mm_length mm) div 4096" by (rule div_le_mono [OF mm(2)])
  then have c: "2282 + ?c = unat (mm_length mm) div 4096" by simp
  have q: "heads (th_tasks (set_mem ?m (sy_th (kn_sys k)))) = heads (th_tasks (sy_th (kn_sys k)))"
    by (simp add: heads_def set_mem_def)
  note r = memory_ready_ok [OF 1(3) mm(3)]
  have "mem_ok (2282 + ?c) {} (kn_mem k2)" "heads3 (kn_mem k2) None None None" using r unfolding c 2(4) by simp_all
  from kinit_tasks_ok [OF this b] obtain th n fs where 3: "kinit_tasks_system e k2 = Inr (k2\<lparr>kn_sys := (kn_sys k2)\<lparr>sy_th := th\<rparr>\<rparr>)"
    "vm_inv (th_mem th) (vmngr_of (th_hoo th)) DYN (page_at DYN 1138) table_ranges (room 32 - 1) 245 246"
    "frames_ok ?c (km_mach (th_mem th))" "backed (km_mach (th_mem th)) DYN fs" "distinct fs" "length fs = 1138"
    "set fs \<inter> free_frames (km_mach (th_mem th)) = {}" "hoo_ready th" "tasks_ok (th_tasks th) [n] [] [] []"
    "nd_data (tk_heap (th_tasks th) n) = Some (th_hoo th)" "th_hoo th = th_hoo (sy_th (kn_sys k))"
    using d low unfolding 2(4) q by auto
  let ?k3 = "k2\<lparr>kn_sys := (kn_sys k2)\<lparr>sy_th := th\<rparr>\<rparr>"
  have "logged (memory_line mm @ config_lines e) ?k3" using 2(2,3) by (simp add: log_has_def logged_def Let_def)
  moreover have "pgt_inv (km_mach (th_mem th))" "unat (mm_length mm) div 4096 \<le> card (free_frames (km_mach (th_mem th))) + 2282"
    using 3(3) c by (simp add: frames_ok_def, unfold frames_ok_def, linarith)
  moreover have "bindr (kinit_memory e k) (\<lambda>k. bindr (kinit_config e k) (kinit_tasks_system e)) = Inr ?k3"
    using 1(1) 2(1) 3(1) by simp
  ultimately show ?thesis using 3
    by (intro exI [of _ ?k3] exI [of _ n] exI [of _ fs]) (simp add: Let_def)
qed

text \<open>A machine with 16 MB above the first and zeroed memory, before the first module has run.\<close>

definition env_sample :: env where
  "env_sample = \<lparr>env_ards = [\<lparr>base_low = MM_BASE, base_hig = 0, length_low = 0x1000000, length_hig = 0, ards_type = 1\<rparr>],
     env_log = replicate 8192 0, env_junk = (\<lambda>_. []), env_tid = replicate 128 0, env_files = [], env_ring = [],
     env_probe = (\<lambda>_. Absent), env_images = [], env_null = 0, env_gdt = 0x8000, env_tss = 0x9000,
     env_idt = 0xa000, env_isr_part1 = (\<lambda>_. 0)\<rparr>"

definition boot_sample :: kernel where
  "boot_sample = \<lparr>kn_sys = \<lparr>sy_th = th_sample\<lparr>th_tasks := tk_sample\<lparr>tk_mem :=
        kmem_sample\<lparr>km_mach := \<lparr>phys = (\<lambda>_. 0), cr3 = 0, pmst = pm_sample\<rparr>\<rparr>\<rparr>\<rparr>, sy_vfs = vfs_sample\<rparr>,
     kn_log_init = False, kn_mminfo = \<lparr>mm_base = 0, mm_length = 0\<rparr>, kn_gdt = [], kn_gdtr = \<lparr>gdtr_size = 0, gdtr_linear = 0\<rparr>,
     kn_tr = 0, kn_isr = [], kn_idt = [], kn_idtr = \<lparr>idtr_limit = 0, idtr_base = 0\<rparr>, kn_stubs = [],
     kn_pic = \<lparr>imr_mas = 0, imr_sla = 0, icws = []\<rparr>, kn_pit = [], kn_kbd = kbd_sample\<rparr>"

lemma boot_sample_facts:
  "get_mminfo (env_ards env_sample) = Inr \<lparr>mm_base = MM_BASE, mm_length = 0x1000000\<rparr>" "log_has env_sample [] boot_sample"
  "clear_dir (km_mach (kn_mem boot_sample))" "length (env_tid env_sample) = 128"
  "vmngr_of (th_hoo (sy_th (kn_sys boot_sample))) = 4112" "heads (th_tasks (sy_th (kn_sys boot_sample))) = [16, 32, 48, 64]"
  by (simp_all add: env_sample_def boot_sample_def get_mminfo_def log_has_def clear_dir_def th_sample_def tk_sample_def heads_def
      vmngr_of_def)

theorem boot_invariants_witness:
  "\<exists>k n. bindr (kinit_memory env_sample boot_sample) (\<lambda>k. bindr (kinit_config env_sample k) (kinit_tasks_system env_sample)) = Inr k
    \<and> tasks_ok (th_tasks (sy_th (kn_sys k))) [n] [] [] [] \<and> hoo_ready (sy_th (kn_sys k))"
  using boot_invariants [OF boot_sample_facts(1) _ _ boot_sample_facts(2-4)] by (fastforce simp: boot_sample_facts(5,6) Let_def)

end
