(* ===== verification/Spec2Isabelle.thy ===== *)
theory Spec2Isabelle
  imports Clib Bitmap Spinlock Node_Queue Circular_Buffer Phys_Mem Paging Interrupts Pic_Pit
    Keyboard Cga Dir_Props Format_Props Vspace_Props Thread_Props Exec_Props Command_Props Page_Fault Load_Props
    Shell Boot_Props
begin

section \<open>hoo: a verification of the kernel's C code\<close>

text \<open>
  hoo is a small operating system kernel for 32-bit x86. This development models its C code and
  proves properties of it. Every operation is a function from its arguments and the state it
  changes to a \<open>'a res\<close> (theory Prelude): \<open>Inr\<close> of the result and the new state, or \<open>Inl\<close> of the
  reason why it does not return (a panic with its message, a fault, a halt, a wait that nobody
  ends). Integers keep their width; the kernel's \<open>null\<close> is \<open>None\<close>.

  \<^bold>\<open>The parts and the theories that model them.\<close>

  \<^item> user/lib.c: Clib. Strings and memory as byte loops.
  \<^item> kern/utilities: Bitmap (bitmap.c), Spinlock (spinlock.c), Node_List (node.c, list.c), Node_Queue
    (queue.c), Circular_Buffer (circular_buffer.c), Cur_Dir (curdir.c, with hoo/thread_curdir.c),
    Format and Format_Props (format.c, cache_buff.c, module/log.c, module/io.c).
  \<^item> kern/mem and kern/page: Phys_Mem (pm.c, vm_kern.c, module/mem.c), Paging (page.c, set_mapping and
    phy_release_vpage of pm.c, the macros of page_stuff.h), Format_List and Format_Pages
    (format_list.c, metadata.c), Vspace and Vspace_Props (vspace.c, vm.c).
  \<^item> kern/desc, kern/intr, kern/syscall, module/conf.c, module/do_intr.c: Interrupts.
  \<^item> kern/driver: Pic_Pit (8259a, 8253, module/driver.c), Keyboard (8042), Cga (cga), Ata (ata).
  \<^item> kern/fs: Fs_Layout (the structures and their sectors), Super_Block, Free_Map (free.c), Inodes
    (inodes.c), Files (fmngr.c and the contents part of files.c), Dir (dir.c), File_Names (the part of
    files.c that takes paths, module/fs.c), Dir_Create, Dir_Update and
    Remove (the steps of creating and removing), Create_Remove (both with the tree as a whole).
  \<^item> kern/sched: Tasks and Tasks_Props (the scheduler, sleep and wakeup of tasks.c, pcb.c), Fork and
    Fork_Props (fork, exit and kill).
  \<^item> kern/hoo and kern/dyn: Threads (the tables of PCBs, buckets, directories and file managers, the
    thread ids, init_hoo; kern/mem/bucket.c), Dynamic (dynamic.c), Thread_Props.
  \<^item> kern/intr/routine.c: Page_Fault (the copy-on-write handler and the timer).
  \<^item> kern/fs/exec.c, builtins.c and kinit_log of kern/kern.c: Exec and Exec_Props. Fs_Start shows that
    formatting a blank disk establishes the invariants of the files and directories, Load_Props that
    the programs stored at the start of the system are the images that exec() reads.
  \<^item> user: Commands and Command_Props (user.c, builtin_mkdir.c, builtin_touch.c, builtin_rm.c, builtin_cd.c,
    builtin_ls.c, builtin_pwd.c, the line editor of builtin_shell.c), Shell (the commands of builtin_shell.c, the
    wrappers of lib.c).
  \<^item> kern/kern.c, kern/module, kern/desc/gdt.c: Startup, kern_init() with the modules in their order on one state \<open>kernel\<close>,
    and kern_exec(). Boot_Props shows that memory, paging, the tables of the tasks and the queues are, after the first
    modules, in the states that the invariants of their components describe, and what the log holds by then.
  \<^item> kern/panic.c: Panic. The report on the screen; elsewhere panic() is a value.

  \<^bold>\<open>How they interact.\<close> The allocators (physical pages, kernel pages, thread ids, descriptors, inodes,
  blocks) are a bitmap under a lock; locale \<open>slots\<close> of Interfaces is their contract and Bitmap and
  Phys_Mem interpret it, as Node_Queue and Circular_Buffer interpret \<open>fifo\<close>. Nodes of lists live
  in one heap (\<open>km_heap\<close>), which the format lists cut out of pages that Paging maps; the vspaces of
  Vspace hang their ranges on such nodes, and the queues of Tasks hang the PCBs on them. The file
  system writes through the driver of Ata, keeps its inodes and free blocks in memory, and is
  reached by descriptor (Files) or by path (File_Names over Dir). Formatted output goes to Cga, or
  to the log cache that Files writes to the disk; locale \<open>sink\<close> of Format_Props is what both have
  in common. The record \<open>threads\<close> of Threads joins the scheduler, the memory and the tables of the
  threads for fork, exit and the page fault handler; the record \<open>system\<close> of Exec joins it with the
  files: \<open>with_vfs\<close> runs an operation on files with the file manager and directory of the running
  task. The user programs reach all this through the table of system calls of Interrupts.

  \<^bold>\<open>What the lemmas show.\<close> Each component has a representation predicate or invariant, lemmas that its
  operations keep it and what they compute, and a few properties (the theorems with a text that
  names a claim). Lists and queues refine HOL lists (\<open>list_rep\<close>, \<open>queue_rep\<close>); a page of elements is the
  list of its free slots (\<open>fl_ok\<close>); an address space is the list of its ranges (\<open>vm_inv\<close>); a
  directory is the list of its items (Dir_Items) and a path a list of names (Dir_Paths); the
  scheduler is an abstract round robin (\<open>rr_step\<close>), from which follows that every ready task runs
  within a bound; output is the rendered text (\<open>render\<close>). Fork and the page fault
  handler are described by the frames that the page tables of Paging translate to (exit() by the tables of the lower half,
  \<open>own_frames\<close>), and so are the tables that the start
  of the kernel sets up (\<open>backed\<close>); the line editor of
  the shell is the fold of \<open>edit\<close> over the keys, whatever terminal it runs on (locale \<open>terminal\<close> of
  Command_Props). Properties of kind error state, exactly,
  what the code does where it does not do what it means to.

  \<^bold>\<open>Bounds and fuel.\<close> Loops that follow pointers have fuel and yield \<open>Spin\<close> when it runs out:
  \<open>MAX_CHAIN\<close> is 2^32 + 1, more than there are addresses, so a chain that outlasts it has a cycle and
  the code does not return either. wakeup() and kill() have the size of the list and one more, since
  every round drops a node or passes one. The shell's line has as much fuel as there are keys to read. diritem_remove_sub() calls itself for the items of a directory; its
  termination property gives the fuel that is enough on a tree of directories. The space-skipping
  loop of the screen's backspace is a \<open>partial_function\<close>. The walk of panic() over the frames has fuel; 4097 is enough when
  the frame pointers ascend. A loop that waits for a device reads from the list of statuses and spins at its end. kern_exec() has
  the number of rounds of its endless loop. The properties state that the operation returns.

  \<^bold>\<open>Not modelled.\<close> The boot sector and the assembly (bootsect.S, isr.S, trampoline.S, switch.S,
  syscall_impl.S beyond its table lookup, entry.c, which sets the registers and calls kern_init() and kern_exec(), the port
  instructions of x86.h): switch_to(), mode_ring3() and the stubs are parameters or outcomes, and what the ports return is
  state of the device. The TLB, caches and timing of the devices. Interrupts between two statements of an operation: they
  arrive between operations, the interrupt of a request of the disk while its thread sleeps, and the locks have a step
  relation of their own.
  The contents of the programs that exec() starts are data.
\<close>

end
